(* ===== verification/Prelude.thy ===== *)
theory Prelude
  imports
    Main
    "HOL-Library.Word"
    "HOL-Library.Signed_Division"
    "HOL-Library.Char_ord"
    "HOL-Library.List_Lexorder"
begin

text \<open>
  Shared vocabulary of the development: the names of Go's machine types, the error
  monad in which fallible Go functions are written, the two's-complement wrap of
  \<open>int64\<close> and \<open>int32\<close> arithmetic, the big-endian byte codec of Go's
  \<open>encoding/binary\<close> and \<open>math/big\<close>, and generic lemmas on lists that the
  component theories use.

  Conventions. A Go \<open>[]byte\<close> that is read bitwise (bitfields, wire messages, node ids)
  is a \<open>byte list\<close>; a Go \<open>string\<close> or a \<open>[]byte\<close> that is read as text is a
  \<open>string\<close>, whose \<open>char\<close> is exactly one byte. A Go \<open>int\<close> or \<open>int64\<close> is
  an \<open>int\<close>; an operation whose mathematical result can leave the 64-bit range for
  arguments inside it is written with \<open>wrap64\<close>.
\<close>

section \<open>Fact collections\<close>

named_theorems wire_simps \<open>encode/decode rewrite rules\<close>
named_theorems inv_intros \<open>operations that keep a component's invariant\<close>
named_theorems bit_laws \<open>reading a bit after writing one\<close>

section \<open>Machine types\<close>

type_synonym byte = "8 word"
type_synonym uint16 = "16 word"
type_synonym uint32 = "32 word"
type_synonym uint64 = "64 word"

definition wrap64 :: "int \<Rightarrow> int" where
  "wrap64 x = sint (word_of_int x :: 64 word)"

definition wrap32 :: "int \<Rightarrow> int" where
  "wrap32 x = sint (word_of_int x :: 32 word)"

abbreviation max_int64 :: int where
  "max_int64 \<equiv> 2 ^ 63 - 1"

abbreviation in_int64 :: "int \<Rightarrow> bool" where
  "in_int64 x \<equiv> - (2 ^ 63) \<le> x \<and> x < 2 ^ 63"

lemma wrap64_id [simp]: "- (2 ^ 63) \<le> x \<Longrightarrow> x < 2 ^ 63 \<Longrightarrow> wrap64 x = x"
  by (simp add: wrap64_def sint_sbintrunc' signed_take_bit_int_eq_self)

lemma wrap64_range: "in_int64 (wrap64 x)"
  using sint_greater_eq [of "word_of_int x :: 64 word"] sint_less [of "word_of_int x :: 64 word"]
  by (simp add: wrap64_def)

lemma wrap64_high:
  assumes "2 ^ 63 \<le> x" and "x < 2 ^ 64 + 2 ^ 63"
  shows "wrap64 x = x - 2 ^ 64"
proof -
  have "(word_of_int x :: 64 word) = word_of_int (x - 2 ^ 64)" by simp
  then have "wrap64 x = wrap64 (x - 2 ^ 64)" by (simp only: wrap64_def)
  also have "\<dots> = x - 2 ^ 64" using assms by (intro wrap64_id) auto
  finally show ?thesis .
qed

lemma wrap64_code [code]:
  "wrap64 x = (let y = x mod 18446744073709551616 in if y < 9223372036854775808 then y else y - 18446744073709551616)"
proof -
  define y where "y = x mod 18446744073709551616"
  have y: "0 \<le> y" "y < 18446744073709551616" by (simp_all add: y_def)
  have "(word_of_int x :: 64 word) = word_of_int y"
    by (simp add: y_def word_of_int_eq_iff take_bit_int_def)
  then have "wrap64 x = wrap64 y" by (simp only: wrap64_def)
  moreover have "wrap64 y = (if y < 9223372036854775808 then y else y - 18446744073709551616)"
    using y wrap64_high [of y] by simp
  ultimately show ?thesis unfolding Let_def y_def [symmetric] by simp
qed

lemma wrap32_id [simp]: "- (2 ^ 31) \<le> x \<Longrightarrow> x < 2 ^ 31 \<Longrightarrow> wrap32 x = x"
  by (simp add: wrap32_def sint_sbintrunc' signed_take_bit_int_eq_self)

text \<open>Go's integer division truncates towards zero; on a non-negative dividend and a
  positive divisor it is \<open>div\<close>.\<close>

lemma sdiv_pos [simp]: "0 \<le> a \<Longrightarrow> 0 < b \<Longrightarrow> a sdiv b = a div (b::int)"
  by (cases "a = 0") (auto simp: signed_divide_int_def sgn_if)

lemma smod_pos [simp]: "0 \<le> a \<Longrightarrow> 0 < b \<Longrightarrow> a smod b = a mod (b::int)"
  by (metis add_diff_cancel_left' div_mult_mod_eq sdiv_mult_smod_eq sdiv_pos)

section \<open>Errors as values\<close>

text \<open>A Go function returning \<open>(T, error)\<close> is a function into \<open>'e + 'a\<close>.\<close>

definition rbind :: "'e + 'a \<Rightarrow> ('a \<Rightarrow> 'e + 'b) \<Rightarrow> 'e + 'b" where
  "rbind r f = (case r of Inl e \<Rightarrow> Inl e | Inr a \<Rightarrow> f a)"

lemma rbind_simps [simp]:
  "rbind (Inl e) f = Inl e"
  "rbind (Inr a) f = f a"
  by (simp_all add: rbind_def)

lemma rbind_cong [fundef_cong]:
  "r = r' \<Longrightarrow> (\<And>a. r' = Inr a \<Longrightarrow> f a = g a) \<Longrightarrow> rbind r f = rbind r' g"
  by (cases r') simp_all

lemma rbind_eq_Inr: "rbind r f = Inr b \<longleftrightarrow> (\<exists>a. r = Inr a \<and> f a = Inr b)"
  by (cases r) simp_all

lemma rbind_eq_Inl: "rbind r f = Inl e \<longleftrightarrow> r = Inl e \<or> (\<exists>a. r = Inr a \<and> f a = Inl e)"
  by (cases r) auto

section \<open>Big-endian byte codec\<close>

fun be_bytes :: "nat \<Rightarrow> nat \<Rightarrow> byte list" where
  "be_bytes 0 n = []"
| "be_bytes (Suc k) n = be_bytes k (n div 256) @ [word_of_nat n]"

definition be_val :: "byte list \<Rightarrow> nat" where
  "be_val bs = foldl (\<lambda>a b. a * 256 + unat b) 0 bs"

lemma be_val_Nil [simp]: "be_val [] = 0"
  by (simp add: be_val_def)

lemma be_val_snoc [simp]: "be_val (bs @ [b]) = be_val bs * 256 + unat b"
  by (simp add: be_val_def)

lemma be_val_append: "be_val (xs @ ys) = be_val xs * 256 ^ length ys + be_val ys"
proof (induction ys rule: rev_induct)
  case Nil
  then show ?case by simp
next
  case (snoc y ys)
  have "be_val (xs @ ys @ [y]) = be_val (xs @ ys) * 256 + unat y"
    by (metis append_assoc be_val_snoc)
  with snoc show ?case by (simp add: algebra_simps)
qed

lemma be_val_Cons [simp]: "be_val (b # bs) = unat b * 256 ^ length bs + be_val bs"
  using be_val_append [of "[b]" bs] be_val_snoc [of "[]" b] by simp

lemma unat_byte_less [simp]: "unat (b :: byte) < 256"
  using unsigned_less [of b] by simp

lemma be_val_less: "be_val bs < 256 ^ length bs"
proof (induction bs)
  case Nil
  then show ?case by simp
next
  case (Cons b bs)
  have "unat b + 1 \<le> 256" using unat_byte_less [of b] by linarith
  then have "(unat b + 1) * 256 ^ length bs \<le> 256 * 256 ^ length bs"
    by (rule mult_le_mono1)
  moreover have "be_val (b # bs) < (unat b + 1) * 256 ^ length bs"
    using Cons by simp
  ultimately have "be_val (b # bs) < 256 * 256 ^ length bs" by (rule less_le_trans [rotated])
  then show ?case by simp
qed

lemma length_be_bytes [simp]: "length (be_bytes k n) = k"
  by (induction k arbitrary: n) simp_all

lemma be_val_be_bytes: "be_val (be_bytes k n) = n mod 256 ^ k"
proof (induction k arbitrary: n)
  case 0
  then show ?case by simp
next
  case (Suc k)
  have "n mod 256 ^ Suc k = (n div 256) mod 256 ^ k * 256 + n mod 256"
    by (simp add: mod_mult2_eq mult.commute)
  with Suc show ?case by (simp add: unat_of_nat)
qed

lemma be_bytes_be_val: "be_bytes (length bs) (be_val bs) = bs"
proof (induction bs rule: rev_induct)
  case Nil
  then show ?case by simp
next
  case (snoc b bs)
  have "(be_val bs * 256 + unat b) div 256 = be_val bs"
    by (simp add: div_mult_self3)
  moreover have "(word_of_nat (be_val bs * 256 + unat b) :: byte) = b"
    by (simp add: word_unat_eq_iff unat_of_nat mod_mult_self3 del: of_nat_add of_nat_mult)
  ultimately show ?case using snoc by simp
qed

text \<open>\<open>binary.BigEndian.PutUint16/32/64\<close> and \<open>Uint16/32/64\<close>: the readers take the
  first 2, 4 or 8 bytes of the slice, which the callers have checked to be there.\<close>

definition PutUint16 :: "uint16 \<Rightarrow> byte list" where
  "PutUint16 v = be_bytes 2 (unat v)"

definition PutUint32 :: "uint32 \<Rightarrow> byte list" where
  "PutUint32 v = be_bytes 4 (unat v)"

definition PutUint64 :: "uint64 \<Rightarrow> byte list" where
  "PutUint64 v = be_bytes 8 (unat v)"

definition Uint16 :: "byte list \<Rightarrow> uint16" where
  "Uint16 bs = word_of_nat (be_val (take 2 bs))"

definition Uint32 :: "byte list \<Rightarrow> uint32" where
  "Uint32 bs = word_of_nat (be_val (take 4 bs))"

definition Uint64 :: "byte list \<Rightarrow> uint64" where
  "Uint64 bs = word_of_nat (be_val (take 8 bs))"

lemma length_PutUint [simp]:
  "length (PutUint16 a) = 2" "length (PutUint32 b) = 4" "length (PutUint64 c) = 8"
  by (simp_all add: PutUint16_def PutUint32_def PutUint64_def)

lemma Uint16_Put [simp, wire_simps]: "Uint16 (PutUint16 v @ rest) = v"
  using unsigned_less [of v, where 'a = nat]
  by (simp add: Uint16_def PutUint16_def be_val_be_bytes)

lemma Uint32_Put [simp, wire_simps]: "Uint32 (PutUint32 v @ rest) = v"
  using unsigned_less [of v, where 'a = nat]
  by (simp add: Uint32_def PutUint32_def be_val_be_bytes)

lemma Uint64_Put [simp, wire_simps]: "Uint64 (PutUint64 v @ rest) = v"
  using unsigned_less [of v, where 'a = nat]
  by (simp add: Uint64_def PutUint64_def be_val_be_bytes)

lemma unat_Uint32: "4 \<le> length bs \<Longrightarrow> unat (Uint32 bs) = be_val (take 4 bs)"
  using be_val_less [of "take 4 bs"] by (simp add: Uint32_def unat_of_nat min_absorb2)

lemma PutUint32_Uint32: "length bs = 4 \<Longrightarrow> PutUint32 (Uint32 bs) = bs"
  using be_bytes_be_val [of bs] by (simp add: PutUint32_def unat_Uint32)

section \<open>Lists\<close>

lemma take_append_length [simp]: "length xs = n \<Longrightarrow> take n (xs @ ys) = xs"
  by simp

lemma drop_append_length [simp]: "length xs = n \<Longrightarrow> drop n (xs @ ys) = ys"
  by simp

lemma nth_upd: "i < length xs \<Longrightarrow> xs[k := y] ! i = (if k = i then y else xs ! i)"
  by (cases "k = i") simp_all

text \<open>Go's \<open>append(s[:pos], append([x], s[pos:]...)...)\<close> and its inverse.\<close>

definition insert_at :: "nat \<Rightarrow> 'a \<Rightarrow> 'a list \<Rightarrow> 'a list" where
  "insert_at p x xs = take p xs @ x # drop p xs"

lemma set_insert_at [simp]: "set (insert_at p x xs) = insert x (set xs)"
  by (simp add: insert_at_def) (metis append_take_drop_id set_append sup_commute)

lemma length_insert_at [simp]: "length (insert_at p x xs) = Suc (length xs)"
  by (simp add: insert_at_def)

lemma distinct_insert_at [simp]: "distinct (insert_at p x xs) \<longleftrightarrow> x \<notin> set xs \<and> distinct xs"
proof -
  have "distinct (take p xs @ x # drop p xs) \<longleftrightarrow> x \<notin> set (take p xs @ drop p xs) \<and> distinct (take p xs @ drop p xs)"
    by (simp only: distinct_append set_append list.set distinct.simps) blast
  then show ?thesis by (simp only: insert_at_def append_take_drop_id)
qed

lemma nth_insert_at: "p \<le> length xs \<Longrightarrow> insert_at p x xs ! p = x"
  by (simp add: insert_at_def nth_append)

text \<open>The first index at which a predicate holds, as a scanning loop finds it.\<close>

fun find_index :: "('a \<Rightarrow> bool) \<Rightarrow> 'a list \<Rightarrow> nat option" where
  "find_index P [] = None"
| "find_index P (x # xs) = (if P x then Some 0 else map_option Suc (find_index P xs))"

lemma find_index_None: "find_index P xs = None \<longleftrightarrow> (\<forall>x\<in>set xs. \<not> P x)"
  by (induction xs) auto

lemma find_index_Some:
  "find_index P xs = Some i \<Longrightarrow> i < length xs \<and> P (xs ! i) \<and> (\<forall>j<i. \<not> P (xs ! j))"
proof (induction xs arbitrary: i)
  case Nil
  then show ?case by simp
next
  case (Cons x xs)
  then show ?case
    by (auto split: if_splits simp: less_Suc_eq_0_disj)
qed

section \<open>Integer division by a positive divisor\<close>

lemma div_eq_iff_int: "0 < pl \<Longrightarrow> x div pl = i \<longleftrightarrow> i * pl \<le> x \<and> x < (i + 1) * (pl::int)"
proof
  assume pl: "0 < pl" and "x div pl = i"
  then show "i * pl \<le> x \<and> x < (i + 1) * pl"
    using pos_mod_bound [OF pl, of x] pos_mod_sign [OF pl, of x] div_mult_mod_eq [of x pl]
    unfolding distrib_right by (metis add_increasing2 add_strict_left_mono le_add_same_cancel1 mult_1 order_refl)
next
  assume pl: "0 < pl" and "i * pl \<le> x \<and> x < (i + 1) * pl"
  then have "x = i * pl + (x - i * pl)" "0 \<le> x - i * pl" "x - i * pl < pl"
    by (simp_all add: algebra_simps)
  then show "x div pl = i" using pl by (metis add.commute add.right_neutral div_mult_self1 div_pos_pos_trivial less_irrefl)
qed

lemma le_div_iff_int: "0 < pl \<Longrightarrow> a \<le> x div pl \<longleftrightarrow> a * pl \<le> (x::int)"
proof
  assume pl: "0 < pl" and "a \<le> x div pl"
  then have "a * pl \<le> x div pl * pl" by (intro mult_right_mono) auto
  also have "\<dots> \<le> x" using div_eq_iff_int [OF pl, of x "x div pl"] by simp
  finally show "a * pl \<le> x" .
next
  assume pl: "0 < pl" and "a * pl \<le> x"
  moreover have "x < (x div pl + 1) * pl" using div_eq_iff_int [OF pl, of x "x div pl"] by simp
  ultimately have "a * pl < (x div pl + 1) * pl" by linarith
  then show "a \<le> x div pl" using pl by simp
qed

lemma div_less_iff_int: "0 < pl \<Longrightarrow> x div pl < a \<longleftrightarrow> x < a * (pl::int)"
  using le_div_iff_int [of pl a x] by linarith

lemma map_of_sort_key: "distinct (map fst es) \<Longrightarrow> map_of (sort_key fst es) = map_of es"
  by (intro map_of_inject_set [THEN iffD2]) (simp_all add: distinct_map)

lemma mod_add_inj:
  assumes "(h + i) mod n = (h + j) mod (n::nat)" and "i < n" and "j < n"
  shows "i = j"
  using assms
proof (induction i j rule: linorder_wlog)
  case (le a b)
  then have "n dvd b - a" using mod_eq_dvd_iff_nat [of "h + a" "h + b" n] by simp
  then have "b - a = 0" using le(4) dvd_imp_le [of n "b - a"] by linarith
  then show ?case using le(1) by simp
qed simp

end
