(* ===== verification/Bitfield.thy ===== *)
theory Bitfield
  imports Prelude
begin

unbundle bit_operations_syntax

text \<open>
  Bitfields in network bit order: piece 0 is the most significant bit of byte 0. The first
  part translates the free functions of \<open>src/internal/disk/piece_map.go\<close> on byte slices.
  The locale \<open>bitfield\<close> states what every client of a bitfield relies on, one law for
  reading a bit after writing one; the program implements that contract three times (piece
  map, control file, peer connection), and each implementation interprets the locale.

  An index outside the slice is a run-time panic in Go. The functions here index with
  \<open>!\<close>, about which nothing is provable out of range, and every lemma that reads a byte
  has the bound as a hypothesis.
\<close>

section \<open>Bit operations on byte slices\<close>

definition lastByteMask :: "nat \<Rightarrow> byte" where
  "lastByteMask nbits =
     (if nbits = 0 then 0
      else let s = nbits mod 8 in
        if s = 0 then 0xff else word_of_int (drop_bit s (- 256)))"

definition bit_mask :: "nat \<Rightarrow> byte" where
  "bit_mask index = drop_bit (index mod 8) 128"

definition setBitVal :: "byte list \<Rightarrow> nat \<Rightarrow> bool \<Rightarrow> byte list" where
  "setBitVal b index on =
     (let mask = bit_mask index in
      if on then b[index div 8 := (b ! (index div 8)) OR mask]
      else b[index div 8 := (b ! (index div 8)) AND NOT mask])"

definition testBit :: "byte list \<Rightarrow> nat \<Rightarrow> bool" where
  "testBit b index \<longleftrightarrow> (b ! (index div 8)) AND bit_mask index \<noteq> 0"

definition OnesCount8 :: "byte \<Rightarrow> nat" where
  "OnesCount8 x = length (filter (bit x) [0..<8])"

definition popcnt :: "nat list" where
  "popcnt = map (\<lambda>i. OnesCount8 (word_of_nat i)) [0..<256]"

definition countSetBits :: "byte list \<Rightarrow> nat \<Rightarrow> nat" where
  "countSetBits b nbits =
     (if nbits = 0 then 0
      else let nbytes = (nbits + 7) div 8 in
        sum_list (map (\<lambda>i. popcnt ! unat (b ! i)) [0..<nbytes - 1])
        + popcnt ! unat ((b ! (nbytes - 1)) AND lastByteMask nbits))"

definition getFirstSetBitIndex :: "byte list \<Rightarrow> nat \<Rightarrow> nat option" where
  "getFirstSetBitIndex b nbits = find (testBit b) [0..<nbits]"

fun collect_set_bits :: "byte list \<Rightarrow> nat \<Rightarrow> nat list \<Rightarrow> nat list \<Rightarrow> nat list" where
  "collect_set_bits b n out [] = out"
| "collect_set_bits b n out (i # is) =
     (if length out < n then
        collect_set_bits b n (if testBit b i then out @ [i] else out) is
      else out)"

definition getFirstNSetBitIndex :: "byte list \<Rightarrow> nat \<Rightarrow> nat \<Rightarrow> nat list" where
  "getFirstNSetBitIndex b nbits n = (if n = 0 then [] else collect_set_bits b n [] [0..<nbits])"

definition testAllBitSet :: "byte list \<Rightarrow> nat \<Rightarrow> nat \<Rightarrow> bool" where
  "testAllBitSet b len nbits \<longleftrightarrow>
     len = 0 \<or> ((\<forall>i<len - 1. b ! i = 0xff) \<and> b ! (len - 1) = lastByteMask nbits)"

section \<open>Bitfield algebra\<close>

definition bf_not :: "byte list \<Rightarrow> byte list" where
  "bf_not a = map (\<lambda>x. NOT x) a"

definition bf_or :: "byte list \<Rightarrow> byte list \<Rightarrow> byte list" where
  "bf_or a b = map (\<lambda>i. (a ! i) OR (b ! i)) [0..<length a]"

definition bf_and :: "byte list \<Rightarrow> byte list \<Rightarrow> byte list list \<Rightarrow> byte list" where
  "bf_and a b extra =
     map (\<lambda>i. foldl (\<lambda>v e. if i < length e then v AND (e ! i) else v) ((a ! i) AND (b ! i)) extra)
       [0..<length a]"

definition bf_andNot :: "byte list \<Rightarrow> byte list list \<Rightarrow> byte list" where
  "bf_andNot a bs =
     map (\<lambda>i. foldl (\<lambda>v e. if i < length e then v AND NOT (e ! i) else v) (a ! i) bs) [0..<length a]"

definition copyWithLastByteMask :: "byte list \<Rightarrow> nat \<Rightarrow> byte list" where
  "copyWithLastByteMask b nbits =
     (if 0 < length b then b[length b - 1 := (b ! (length b - 1)) AND lastByteMask nbits] else b)"

section \<open>Bits of bytes\<close>

lemma less_8_cases: "k < (8::nat) \<Longrightarrow> k \<in> {0, 1, 2, 3, 4, 5, 6, 7}"
  by (simp del: One_nat_def) presburger

lemma bit_bit_mask: "bit (bit_mask i) k \<longleftrightarrow> k = 7 - i mod 8"
proof -
  have "(128 :: byte) = 2 ^ 7" by simp
  then have "bit (bit_mask i) k \<longleftrightarrow> i mod 8 + k = 7"
    by (simp only: bit_mask_def bit_drop_bit_eq comp_def bit_exp_iff) auto
  also have "\<dots> \<longleftrightarrow> k = 7 - i mod 8" by presburger
  finally show ?thesis .
qed

lemma bit_index_less [simp]: "7 - m < (8::nat)"
  by simp

lemma testBit_bit: "testBit b i \<longleftrightarrow> bit (b ! (i div 8)) (7 - i mod 8)"
proof -
  have "(\<forall>k. \<not> bit (x AND bit_mask i) k) \<longleftrightarrow> \<not> bit x (7 - i mod 8)" for x :: byte
    by (auto simp: bit_and_iff bit_bit_mask)
  moreover have "x = 0 \<longleftrightarrow> (\<forall>k. \<not> bit x k)" for x :: byte
    by (metis bit_0_eq bit_eqI bot_apply bot_bool_def)
  ultimately show ?thesis by (simp add: testBit_def)
qed

lemma div_8_less: "j < 8 * n \<Longrightarrow> j div 8 < (n::nat)"
  by (simp add: div_less_iff_less_mult mult.commute)

lemma bit_index_inj:
  assumes "j div 8 = i div (8::nat)" and "7 - j mod 8 = 7 - i mod 8"
  shows "j = i"
proof -
  have "j mod 8 < 8" "i mod 8 < 8" by simp_all
  with assms(2) have "j mod 8 = i mod 8" by linarith
  with assms(1) show ?thesis by (metis div_mult_mod_eq)
qed

text \<open>A bit count and its number of bytes: all bytes but the last are full.\<close>

lemma last_byte_split:
  assumes "0 < n"
  obtains k s where "(n + 7) div 8 = Suc k" and "n = 8 * k + s" and "0 < s" and "s \<le> (8::nat)"
proof
  let ?k = "(n - 1) div 8" and ?s = "(n - 1) mod 8 + 1"
  have "n + 7 = (n - 1) + 8" using assms by simp
  then show "(n + 7) div 8 = Suc ?k" by simp
  show "n = 8 * ?k + ?s" using assms by (simp add: mult.commute [of 8])
  show "?s \<le> 8" by (simp add: Suc_leI)
qed simp

lemma length_setBitVal [simp]: "length (setBitVal b i on) = length b"
  by (simp add: setBitVal_def Let_def)

lemma testBit_setBitVal [bit_laws]:
  assumes "i < 8 * length b"
  shows "testBit (setBitVal b i on) j = (if j = i then on else testBit b j)"
proof -
  have len: "i div 8 < length b" using assms by (rule div_8_less)
  note same = bit_index_inj [of j i]
  show ?thesis
    using len same
    by (auto simp: testBit_bit setBitVal_def Let_def nth_list_update bit_or_iff bit_and_iff
        bit_not_iff bit_bit_mask)
qed

section \<open>The bitfield contract\<close>

locale bitfield =
  fixes len :: "'b \<Rightarrow> nat"
    and test :: "'b \<Rightarrow> nat \<Rightarrow> bool"
    and put :: "'b \<Rightarrow> nat \<Rightarrow> bool \<Rightarrow> 'b"
  assumes len_put [simp]: "len (put b i v) = len b"
    and test_put: "i < len b \<Longrightarrow> test (put b i v) j = (if j = i then v else test b j)"
begin

definition elems :: "'b \<Rightarrow> nat \<Rightarrow> nat set" where
  "elems b n = {i. i < n \<and> test b i}"

lemma finite_elems [simp]: "finite (elems b n)"
  by (simp add: elems_def)

lemma elems_put_True: "i < n \<Longrightarrow> n \<le> len b \<Longrightarrow> elems (put b i True) n = insert i (elems b n)"
  by (auto simp: elems_def test_put)

lemma elems_put_False: "i < n \<Longrightarrow> n \<le> len b \<Longrightarrow> elems (put b i False) n = elems b n - {i}"
  by (auto simp: elems_def test_put)

lemma len_fold [simp]: "len (fold (\<lambda>i b. put b i v) is b) = len b"
  by (induction "is" arbitrary: b) simp_all

lemma test_fold:
  "\<forall>i\<in>set is. i < len b \<Longrightarrow>
   test (fold (\<lambda>i b. put b i v) is b) j = (if j \<in> set is then v else test b j)"
  by (induction "is" arbitrary: b) (auto simp: test_put)

lemma fold_put_if:
  "fold (\<lambda>i b. if Q i then put b i v else b) is b = fold (\<lambda>i b. put b i v) (filter Q is) b"
  by (induction "is" arbitrary: b) simp_all

lemma test_fold_if:
  "\<forall>i\<in>set is. i < len b \<Longrightarrow>
   test (fold (\<lambda>i b. if Q i then put b i v else b) is b) j =
     (if j \<in> set is \<and> Q j then v else test b j)"
  by (simp add: fold_put_if test_fold)

lemma elems_fold_True:
  "set is \<subseteq> {..<n} \<Longrightarrow> n \<le> len b \<Longrightarrow>
   elems (fold (\<lambda>i b. put b i True) is b) n = elems b n \<union> set is"
  by (subst elems_def, subst test_fold) (auto simp: elems_def)

lemma elems_fold_False:
  "set is \<subseteq> {..<n} \<Longrightarrow> n \<le> len b \<Longrightarrow>
   elems (fold (\<lambda>i b. put b i False) is b) n = elems b n - set is"
  by (subst elems_def, subst test_fold) (auto simp: elems_def)

lemma card_elems_put_True:
  "i < n \<Longrightarrow> n \<le> len b \<Longrightarrow> \<not> test b i \<Longrightarrow>
   card (elems (put b i True) n) = Suc (card (elems b n))"
  by (simp add: elems_put_True) (simp add: elems_def)

end

interpretation pmbits: bitfield "\<lambda>b. 8 * length b" testBit setBitVal
  by unfold_locales (simp_all add: testBit_setBitVal)

abbreviation bits_of :: "byte list \<Rightarrow> nat \<Rightarrow> nat set" where
  "bits_of \<equiv> pmbits.elems"

lemmas bits_of_def = pmbits.elems_def

section \<open>Counting\<close>

lemma upt_8 [simp]: "[0..<8] = [0, 1, 2, 3, 4, 5, 6, 7]"
  by (simp add: upt_rec)

lemma popcnt_nth [simp]: "popcnt ! unat x = OnesCount8 x"
  by (simp add: popcnt_def del: upt_8)

lemma bit_lastByteMask:
  assumes "k < 8" and "0 < n"
  shows "bit (lastByteMask n) k \<longleftrightarrow> n mod 8 = 0 \<or> 8 - n mod 8 \<le> k"
proof (cases "n mod 8 = 0")
  case True
  have "lastByteMask n = mask 8" using True assms by (simp add: lastByteMask_def mask_eq_exp_minus_1)
  with True assms show ?thesis by (simp only: bit_mask_iff) simp
next
  case False
  have "(- 256 :: int) = NOT (mask 8)" by (simp add: mask_eq_exp_minus_1 not_int_def)
  then have high: "bit (- 256 :: int) m \<longleftrightarrow> 8 \<le> m" for m
    by (simp only: bit_not_int_iff bit_mask_iff) (simp add: not_less)
  have "bit (lastByteMask n) k \<longleftrightarrow> bit (- 256 :: int) (n mod 8 + k)"
    using False assms by (simp add: lastByteMask_def Let_def bit_word_of_int_iff bit_drop_bit_eq)
  then have "bit (lastByteMask n) k \<longleftrightarrow> 8 \<le> n mod 8 + k" by (simp only: high)
  also have "\<dots> \<longleftrightarrow> 8 - n mod 8 \<le> k" by linarith
  finally show ?thesis using False by blast
qed

text \<open>The bits of a prefix, eight at a time.\<close>

lemma filter_upt_split:
  "filter P [0..<m + k] = filter P [0..<m] @ map (\<lambda>j. m + j) (filter (\<lambda>j. P (m + j)) [0..<k])"
proof -
  have "[0..<m + k] = [0..<m] @ map (\<lambda>j. m + j) [0..<k]"
    using upt_add_eq_append [of 0 m k] map_add_upt [of m k] by (simp add: add.commute)
  then show ?thesis by (simp add: filter_map comp_def)
qed

lemma testBit_byte: "j < 8 \<Longrightarrow> testBit b (8 * k + j) \<longleftrightarrow> bit (b ! k) (7 - j)"
  by (simp add: testBit_bit)

lemma OnesCount8_rev: "OnesCount8 x = length (filter (\<lambda>j. bit x (7 - j)) [0..<8])"
  by (simp add: OnesCount8_def)

lemma count_full_bytes:
  "length (filter (testBit b) [0..<8 * k]) = sum_list (map (\<lambda>i. OnesCount8 (b ! i)) [0..<k])"
proof (induction k)
  case 0
  then show ?case by simp
next
  case (Suc k)
  have "filter (\<lambda>j. testBit b (8 * k + j)) [0..<8] = filter (\<lambda>j. bit (b ! k) (7 - j)) [0..<8]"
    by (rule filter_cong) (auto simp: testBit_byte simp del: upt_8)
  then have "length (filter (testBit b) [0..<8 * k + 8]) =
      length (filter (testBit b) [0..<8 * k]) + OnesCount8 (b ! k)"
    by (simp add: filter_upt_split OnesCount8_rev del: upt_8)
  with Suc show ?case by (simp add: add.commute)
qed

lemma count_partial_byte:
  assumes "0 < s" and "s \<le> 8" and "n mod 8 = s mod 8" and "0 < n"
  shows "OnesCount8 (x AND lastByteMask n) = length (filter (\<lambda>j. bit x (7 - j)) [0..<s])"
proof -
  have *: "OnesCount8 (x AND lastByteMask n) =
      length (filter (\<lambda>j. bit x (7 - j) \<and> (n mod 8 = 0 \<or> 8 - n mod 8 \<le> 7 - j)) [0..<8])"
    unfolding OnesCount8_rev
    by (intro arg_cong [of _ _ length] filter_cong)
       (auto simp: bit_and_iff bit_lastByteMask [OF _ assms(4)] simp del: upt_8)
  have "s \<in> {1, 2, 3, 4, 5, 6, 7, 8}" using assms(1,2) less_8_cases [of "s - 1"] by auto
  then show ?thesis
    unfolding * assms(3)
    by (elim insertE emptyE) (simp_all add: upt_rec)
qed

text \<open>The table-driven count with the masked last byte is the number of set bits below
  \<open>nbits\<close>.\<close>

lemma countSetBits_card:
  "countSetBits b n = card (bits_of b n)"
proof (cases "n = 0")
  case True
  then show ?thesis by (simp add: countSetBits_def bits_of_def)
next
  case False
  then obtain k s where k: "(n + 7) div 8 = Suc k" and n: "n = 8 * k + s" and s: "0 < s" "s \<le> 8"
    using last_byte_split [of n] by blast
  have "countSetBits b n = length (filter (testBit b) [0..<8 * k])
      + OnesCount8 (b ! k AND lastByteMask n)"
    using False by (simp add: countSetBits_def k count_full_bytes)
  also have "OnesCount8 (b ! k AND lastByteMask n) = length (filter (\<lambda>j. bit (b ! k) (7 - j)) [0..<s])"
    using s n False by (intro count_partial_byte) auto
  also have "filter (\<lambda>j. bit (b ! k) (7 - j)) [0..<s] = filter (\<lambda>j. testBit b (8 * k + j)) [0..<s]"
    using s by (intro filter_cong) (auto simp: testBit_byte)
  finally have "countSetBits b n = length (filter (testBit b) [0..<n])"
    using n by (simp add: filter_upt_split)
  then show ?thesis
    by (simp add: length_filter_conv_card bits_of_def) (metis (no_types, lifting) nth_upt add_0 diff_zero)
qed

section \<open>Searching\<close>

lemma getFirstSetBitIndex_Some:
  "getFirstSetBitIndex b n = Some i \<longleftrightarrow> i < n \<and> testBit b i \<and> (\<forall>j<i. \<not> testBit b j)"
  by (auto simp: getFirstSetBitIndex_def find_Some_iff)

lemma getFirstSetBitIndex_None:
  "getFirstSetBitIndex b n = None \<longleftrightarrow> bits_of b n = {}"
  by (auto simp: getFirstSetBitIndex_def find_None_iff bits_of_def)

lemma collect_set_bits_take:
  "length out \<le> n \<Longrightarrow> collect_set_bits b n out is = take n (out @ filter (testBit b) is)"
  by (induction "is" arbitrary: out) (auto simp: take_Cons')

lemma getFirstNSetBitIndex_take:
  "getFirstNSetBitIndex b nbits n = take n (filter (testBit b) [0..<nbits])"
  by (simp add: getFirstNSetBitIndex_def collect_set_bits_take)

section \<open>Algebra, bit by bit\<close>

lemma length_bf [simp]:
  "length (bf_not a) = length a"
  "length (bf_or a b) = length a"
  "length (bf_and a b es) = length a"
  "length (bf_andNot a es) = length a"
  "length (copyWithLastByteMask a n) = length a"
  by (simp_all add: bf_not_def bf_or_def bf_and_def bf_andNot_def copyWithLastByteMask_def)

lemma testBit_bf_not [bit_laws]: "i < 8 * length a \<Longrightarrow> testBit (bf_not a) i \<longleftrightarrow> \<not> testBit a i"
  by (simp add: testBit_bit bf_not_def div_8_less bit_not_iff not_le bit_index_less)

lemma testBit_bf_or [bit_laws]:
  "i < 8 * length a \<Longrightarrow> testBit (bf_or a b) i \<longleftrightarrow> testBit a i \<or> testBit b i"
  by (simp add: testBit_bit bf_or_def div_8_less bit_or_iff)

lemma testBit_bf_and [bit_laws]:
  assumes "i < 8 * length a" and "\<forall>e\<in>set es. length e = length a"
  shows "testBit (bf_and a b es) i \<longleftrightarrow> testBit a i \<and> testBit b i \<and> (\<forall>e\<in>set es. testBit e i)"
proof -
  have *: "bit (foldl (\<lambda>v e. if i div 8 < length e then v AND (e ! (i div 8)) else v) v0 es) m
      \<longleftrightarrow> bit v0 m \<and> (\<forall>e\<in>set es. bit (e ! (i div 8)) m)" for v0 :: byte and m
    using assms by (induction es arbitrary: v0) (auto simp: div_8_less bit_and_iff)
  have "bf_and a b es ! (i div 8) = foldl (\<lambda>v e. if i div 8 < length e then v AND (e ! (i div 8)) else v)
      ((a ! (i div 8)) AND (b ! (i div 8))) es"
    using div_8_less [OF assms(1)] by (simp add: bf_and_def cong: if_cong)
  then show ?thesis by (simp add: testBit_bit * bit_and_iff conj_assoc)
qed

lemma testBit_bf_andNot [bit_laws]:
  assumes "i < 8 * length a" and "\<forall>e\<in>set es. length e = length a"
  shows "testBit (bf_andNot a es) i \<longleftrightarrow> testBit a i \<and> (\<forall>e\<in>set es. \<not> testBit e i)"
proof -
  have *: "bit (foldl (\<lambda>v e. if i div 8 < length e then v AND NOT (e ! (i div 8)) else v) v0 es) m
      \<longleftrightarrow> bit v0 m \<and> (\<forall>e\<in>set es. \<not> bit (e ! (i div 8)) m)" if "m < 8" for v0 :: byte and m
    using assms that by (induction es arbitrary: v0) (auto simp: div_8_less bit_and_iff bit_not_iff)
  have "bf_andNot a es ! (i div 8) =
      foldl (\<lambda>v e. if i div 8 < length e then v AND NOT (e ! (i div 8)) else v) (a ! (i div 8)) es"
    using div_8_less [OF assms(1)] by (simp add: bf_andNot_def cong: if_cong)
  then show ?thesis by (simp only: testBit_bit) (simp add: *)
qed

text \<open>Masking the last byte clears exactly the bits at and beyond \<open>nbits\<close>.\<close>

lemma testBit_copyWithLastByteMask [bit_laws]:
  assumes "i < 8 * length b" and "length b = (n + 7) div 8"
  shows "testBit (copyWithLastByteMask b n) i \<longleftrightarrow> testBit b i \<and> i < n"
proof -
  have n: "0 < n" using assms by (cases n) auto
  obtain k s where ks: "(n + 7) div 8 = Suc k" "n = 8 * k + s" "0 < s" "s \<le> 8"
    using last_byte_split [OF n] by blast
  have i: "i = 8 * (i div 8) + i mod 8" "i mod 8 < 8" by simp_all
  have inside: "i < n" if "i div 8 \<noteq> k"
    using that assms ks i div_8_less [OF assms(1)] by linarith
  have last: "(n mod 8 = 0 \<or> 8 - n mod 8 \<le> 7 - i mod 8) \<longleftrightarrow> i < n" if "i div 8 = k"
  proof (cases "s = 8")
    case False
    then have "n mod 8 = s" using ks by simp
    with that ks i False show ?thesis by linarith
  qed (use that ks i in simp)
  have byte: "copyWithLastByteMask b n ! (i div 8) =
      (if i div 8 = k then (b ! k) AND lastByteMask n else b ! (i div 8))"
    using assms ks(1) by (simp add: copyWithLastByteMask_def nth_list_update)
  show ?thesis
  proof (cases "i div 8 = k")
    case True
    then show ?thesis
      using last [OF True] byte bit_lastByteMask [OF bit_index_less n, of "i mod 8"]
      by (simp only: testBit_bit simp_thms if_True bit_and_iff)
  next
    case False
    then show ?thesis using inside [OF False] byte by (simp only: testBit_bit if_False) simp
  qed
qed

text \<open>A slice of bytes with no bit set is zero, and conversely.\<close>

lemma byte_zero_iff: "(x :: byte) = 0 \<longleftrightarrow> (\<forall>j<8. \<not> bit x (7 - j))"
proof
  assume *: "\<forall>j<8. \<not> bit x (7 - j)"
  show "x = 0"
  proof (rule bit_eqI)
    fix m assume "possible_bit TYPE(byte) m"
    then have "m < 8" by (simp add: possible_bit_def)
    then have "7 - (7 - m) = m" by simp
    then have "\<not> bit x m" using * [rule_format, of "7 - m"] by simp
    with \<open>m < 8\<close> show "bit x m = bit 0 m" by simp
  qed
qed simp

lemma all_bytes_zero_iff:
  "(\<forall>k<length b. b ! k = 0) \<longleftrightarrow> (\<forall>i<8 * length b. \<not> testBit b i)"
proof
  assume *: "\<forall>i<8 * length b. \<not> testBit b i"
  show "\<forall>k<length b. b ! k = 0"
  proof (intro allI impI)
    fix k assume "k < length b"
    have "\<forall>j<8. \<not> bit (b ! k) (7 - j)"
    proof (intro allI impI)
      fix j :: nat assume "j < 8"
      with \<open>k < length b\<close> have "8 * k + j < 8 * length b" by linarith
      with * \<open>j < 8\<close> show "\<not> bit (b ! k) (7 - j)" by (metis testBit_byte)
    qed
    then show "b ! k = 0" by (simp only: byte_zero_iff)
  qed
qed (simp add: testBit_bit div_8_less)

end
