(* ===== verification/PieceMap.thy ===== *)
theory PieceMap
  imports Bitfield
begin

unbundle bit_operations_syntax

text \<open>
  The piece map of \<open>src/internal/disk/piece_map.go\<close>: which pieces of a download are
  verified (\<open>haveBits\<close>), which are being fetched (\<open>useBits\<close>) and which are wanted
  (\<open>filterBits\<close>, a nil slice while no filter was ever set), with counts and byte lengths
  cached after every change. \<open>pm_wf\<close> is the invariant: the slices have the length the
  piece count asks for, an enabled filter is not nil, and the caches are current. The
  abstraction of a map is the set of verified, of reserved and of wanted pieces, and every
  operation is shown to be the expected operation on these sets.

  Slice indices that carry no guard in the code are \<open>nat\<close> here. The temporary buffers
  the code takes from a pool hold stale bytes; \<open>notInto\<close>, \<open>andInto\<close> and
  \<open>andNotInto\<close> overwrite all of the part that is read afterwards (lemma
  \<open>take_Into\<close>), and the operations are written with the values they leave there.
\<close>

section \<open>State\<close>

record pieceMap =
  blockLength :: int
  totalLength :: int
  blocks :: nat
  bitfieldLen :: nat
  haveBits :: "byte list"
  useBits :: "byte list"
  filterBits :: "byte list option"
  filterEnabled :: bool
  cachedCompletedLen :: int
  cachedFilteredCompletedLen :: int
  cachedFilteredTotalLen :: int
  cachedNumMissingBlock :: int
  cachedNumFilteredBlock :: int

definition b2i :: "bool \<Rightarrow> nat" where
  "b2i b = (if b then 1 else 0)"

text \<open>The test \<open>pm.filterEnabled && pm.filterBits != nil\<close> and the slice it guards.\<close>

definition active_filter :: "pieceMap \<Rightarrow> byte list option" where
  "active_filter pm = (if filterEnabled pm then filterBits pm else None)"

section \<open>In-place algebra on pooled buffers\<close>

definition notInto :: "byte list \<Rightarrow> byte list \<Rightarrow> byte list" where
  "notInto dst a = bf_not a @ drop (length a) dst"

definition andInto :: "byte list \<Rightarrow> byte list \<Rightarrow> byte list \<Rightarrow> byte list" where
  "andInto dst a b = bf_and a b [] @ drop (length a) dst"

definition orInto :: "byte list \<Rightarrow> byte list \<Rightarrow> byte list \<Rightarrow> byte list" where
  "orInto dst a b = bf_or a b @ drop (length a) dst"

definition andNotInto :: "byte list \<Rightarrow> byte list \<Rightarrow> byte list list \<Rightarrow> byte list" where
  "andNotInto dst a bs = bf_andNot a bs @ drop (length a) dst"

lemma take_Into:
  "take (length a) (notInto dst a) = bf_not a"
  "take (length a) (andInto dst a b) = bf_and a b []"
  "take (length a) (orInto dst a b) = bf_or a b"
  "take (length a) (andNotInto dst a bs) = bf_andNot a bs"
  by (simp_all add: notInto_def andInto_def orInto_def andNotInto_def)

section \<open>Sizes and caches\<close>

definition getBlockLength :: "pieceMap \<Rightarrow> int" where
  "getBlockLength pm = blockLength pm"

definition getLastBlockLength :: "pieceMap \<Rightarrow> int" where
  "getLastBlockLength pm = wrap32 (totalLength pm - blockLength pm * (int (blocks pm) - 1))"

definition getBlockLengthForIndex :: "pieceMap \<Rightarrow> int \<Rightarrow> int" where
  "getBlockLengthForIndex pm index =
     (if index = int (blocks pm) - 1 then getLastBlockLength pm
      else if index < int (blocks pm) - 1 then blockLength pm
      else 0)"

definition countMissingBlockNow :: "pieceMap \<Rightarrow> int" where
  "countMissingBlockNow pm =
     (case active_filter pm of
        Some f \<Rightarrow>
          (let wanted = int (countSetBits f (blocks pm));
               have = int (countSetBits (bf_and (haveBits pm) f []) (blocks pm))
           in wanted - have)
      | None \<Rightarrow> int (blocks pm) - int (countSetBits (haveBits pm) (blocks pm)))"

definition countFilteredBlockNow :: "pieceMap \<Rightarrow> int" where
  "countFilteredBlockNow pm =
     (case active_filter pm of Some f \<Rightarrow> int (countSetBits f (blocks pm)) | None \<Rightarrow> 0)"

text \<open>The byte length of the pieces set in \<open>b\<close>: the last piece may be short.\<close>

definition length_of_bits :: "pieceMap \<Rightarrow> byte list \<Rightarrow> int" where
  "length_of_bits pm b =
     (let c = countSetBits b (blocks pm) in
      if c = 0 then 0
      else if testBit b (blocks pm - 1) then (int c - 1) * blockLength pm + getLastBlockLength pm
      else int c * blockLength pm)"

definition computeFilteredTotalLen :: "pieceMap \<Rightarrow> int" where
  "computeFilteredTotalLen pm =
     (case filterBits pm of None \<Rightarrow> 0 | Some f \<Rightarrow> length_of_bits pm f)"

definition computeCompletedLen :: "pieceMap \<Rightarrow> bool \<Rightarrow> int" where
  "computeCompletedLen pm useFilter =
     (let b = (case active_filter pm of
                 Some f \<Rightarrow> if useFilter then bf_and (haveBits pm) f [] else haveBits pm
               | None \<Rightarrow> haveBits pm)
      in length_of_bits pm b)"

definition updateCache :: "pieceMap \<Rightarrow> pieceMap" where
  "updateCache pm =
     (if blocks pm = 0 then
        pm\<lparr>cachedNumMissingBlock := 0, cachedNumFilteredBlock := 0, cachedFilteredTotalLen := 0,
           cachedCompletedLen := 0, cachedFilteredCompletedLen := 0\<rparr>
      else
        pm\<lparr>cachedNumMissingBlock := countMissingBlockNow pm,
           cachedNumFilteredBlock := countFilteredBlockNow pm,
           cachedFilteredTotalLen := computeFilteredTotalLen pm,
           cachedCompletedLen := computeCompletedLen pm False,
           cachedFilteredCompletedLen := computeCompletedLen pm True\<rparr>)"

text \<open>A sum \<open>totalLength + blockLength - 1\<close> beyond \<open>int64\<close> makes the piece count
  negative, and \<open>make\<close> with a negative length panics: the result \<open>None\<close>.\<close>

definition newPieceMap :: "int \<Rightarrow> int \<Rightarrow> pieceMap option" where
  "newPieceMap bl len =
     (let pm = \<lparr>blockLength = bl, totalLength = len, blocks = 0, bitfieldLen = 0, haveBits = [],
                useBits = [], filterBits = None, filterEnabled = False, cachedCompletedLen = 0,
                cachedFilteredCompletedLen = 0, cachedFilteredTotalLen = 0,
                cachedNumMissingBlock = 0, cachedNumFilteredBlock = 0\<rparr>
      in if 0 < bl \<and> 0 < len then
           let n = wrap64 (len + bl - 1) sdiv bl in
           if n < 0 then None
           else let bfl = nat n div 8 + b2i (nat n mod 8 \<noteq> 0) in
             Some (updateCache (pm\<lparr>blocks := nat n, bitfieldLen := bfl,
               haveBits := replicate bfl 0, useBits := replicate bfl 0\<rparr>))
         else Some pm)"

definition setCount :: "pieceMap \<Rightarrow> nat \<Rightarrow> pieceMap" where
  "setCount pm n =
     (if blocks pm = n then pm
      else let len = n div 8 + b2i (n mod 8 \<noteq> 0) in
        updateCache (pm\<lparr>blocks := n, bitfieldLen := len,
          haveBits := replicate len 0, useBits := replicate len 0,
          filterBits := None, filterEnabled := False,
          totalLength := wrap64 (blockLength pm * int n)\<rparr>))"

section \<open>Single bits\<close>

definition setBitInternal :: "pieceMap \<Rightarrow> byte list \<Rightarrow> int \<Rightarrow> bool \<Rightarrow> byte list \<times> bool" where
  "setBitInternal pm b index on =
     (if index < 0 \<or> int (blocks pm) \<le> index \<or> bitfieldLen pm = 0 then (b, False)
      else (setBitVal b (nat index) on, True))"

definition setBit :: "pieceMap \<Rightarrow> int \<Rightarrow> pieceMap \<times> bool" where
  "setBit pm index =
     (let (b, ok) = setBitInternal pm (haveBits pm) index True
      in (updateCache (pm\<lparr>haveBits := b\<rparr>), ok))"

definition unsetBit :: "pieceMap \<Rightarrow> int \<Rightarrow> pieceMap \<times> bool" where
  "unsetBit pm index =
     (let (b, ok) = setBitInternal pm (haveBits pm) index False
      in (updateCache (pm\<lparr>haveBits := b\<rparr>), ok))"

definition isBitSet :: "pieceMap \<Rightarrow> int \<Rightarrow> bool" where
  "isBitSet pm index =
     (if index < 0 \<or> index \<ge> int (blocks pm) \<or> bitfieldLen pm = 0 then False
      else testBit (haveBits pm) (nat index))"

definition setUseBit :: "pieceMap \<Rightarrow> int \<Rightarrow> pieceMap \<times> bool" where
  "setUseBit pm index =
     (let (b, ok) = setBitInternal pm (useBits pm) index True
      in (updateCache (pm\<lparr>useBits := b\<rparr>), ok))"

definition unsetUseBit :: "pieceMap \<Rightarrow> int \<Rightarrow> pieceMap \<times> bool" where
  "unsetUseBit pm index =
     (let (b, ok) = setBitInternal pm (useBits pm) index False
      in (updateCache (pm\<lparr>useBits := b\<rparr>), ok))"

definition isUseBitSet :: "pieceMap \<Rightarrow> int \<Rightarrow> bool" where
  "isUseBitSet pm index =
     (if index < 0 \<or> index \<ge> int (blocks pm) \<or> bitfieldLen pm = 0 then False
      else testBit (useBits pm) (nat index))"

definition isAllBitSet :: "pieceMap \<Rightarrow> bool" where
  "isAllBitSet pm = testAllBitSet (haveBits pm) (bitfieldLen pm) (blocks pm)"

definition mark :: "pieceMap \<Rightarrow> int \<Rightarrow> bool \<Rightarrow> pieceMap" where
  "mark pm i ok = (if ok then fst (setBit pm i) else fst (unsetBit pm i))"

definition have_piece :: "pieceMap \<Rightarrow> int \<Rightarrow> bool" where
  "have_piece pm i = isBitSet pm i"

section \<open>Ranges and whole bitfields\<close>

definition setBitRange :: "pieceMap \<Rightarrow> int \<Rightarrow> int \<Rightarrow> pieceMap" where
  "setBitRange pm startIndex endIndex =
     updateCache (pm\<lparr>haveBits :=
       fold (\<lambda>i b. fst (setBitInternal pm b i True))
         [startIndex..min endIndex (int (blocks pm) - 1)] (haveBits pm)\<rparr>)"

definition unsetBitRange :: "pieceMap \<Rightarrow> int \<Rightarrow> int \<Rightarrow> pieceMap" where
  "unsetBitRange pm startIndex endIndex =
     updateCache (pm\<lparr>haveBits :=
       fold (\<lambda>i b. fst (setBitInternal pm b i False))
         [startIndex..min endIndex (int (blocks pm) - 1)] (haveBits pm)\<rparr>)"

definition isBitRangeSet :: "pieceMap \<Rightarrow> nat \<Rightarrow> nat \<Rightarrow> bool" where
  "isBitRangeSet pm startIndex endIndex \<longleftrightarrow>
     list_all (testBit (haveBits pm)) [startIndex..<min (Suc endIndex) (blocks pm)]"

definition setAllBit :: "pieceMap \<Rightarrow> pieceMap" where
  "setAllBit pm =
     updateCache (pm\<lparr>haveBits :=
       fold (\<lambda>i b. fst (setBitInternal pm b (int i) True)) [0..<blocks pm] (haveBits pm)\<rparr>)"

definition clearAllBit :: "pieceMap \<Rightarrow> pieceMap" where
  "clearAllBit pm = updateCache (pm\<lparr>haveBits := map (\<lambda>_. 0) (haveBits pm)\<rparr>)"

definition clearAllUseBit :: "pieceMap \<Rightarrow> pieceMap" where
  "clearAllUseBit pm = updateCache (pm\<lparr>useBits := map (\<lambda>_. 0) (useBits pm)\<rparr>)"

definition setAllUseBit :: "pieceMap \<Rightarrow> pieceMap" where
  "setAllUseBit pm =
     pm\<lparr>useBits :=
       fold (\<lambda>i b. fst (setBitInternal pm b (int i) True)) [0..<blocks pm] (useBits pm)\<rparr>"

definition getBitfield :: "pieceMap \<Rightarrow> byte list option" where
  "getBitfield pm = (if bitfieldLen pm = 0 then None else Some (haveBits pm))"

definition setBitfield :: "pieceMap \<Rightarrow> byte list \<Rightarrow> pieceMap" where
  "setBitfield pm bf =
     (if bitfieldLen pm = 0 \<or> length bf \<noteq> bitfieldLen pm then pm
      else updateCache (pm\<lparr>haveBits := bf, useBits := map (\<lambda>_. 0) (useBits pm)\<rparr>))"

definition bitfield_copy :: "pieceMap \<Rightarrow> byte list option" where
  "bitfield_copy pm =
     (if blocks pm = 0 then None
      else Some (fold (\<lambda>i bf. if testBit (haveBits pm) i then
                   bf[i div 8 := (bf ! (i div 8)) OR push_bit (7 - i mod 8) 1] else bf)
                 [0..<blocks pm] (replicate ((blocks pm + 7) div 8) 0)))"

definition missing :: "pieceMap \<Rightarrow> nat list" where
  "missing pm = filter (\<lambda>i. \<not> testBit (haveBits pm) i) [0..<blocks pm]"

section \<open>Filter\<close>

definition ensureFilter :: "pieceMap \<Rightarrow> pieceMap" where
  "ensureFilter pm =
     (case filterBits pm of
        None \<Rightarrow> pm\<lparr>filterBits := Some (replicate (bitfieldLen pm) 0)\<rparr>
      | Some _ \<Rightarrow> pm)"

text \<open>The pieces that \<open>i := startBlock; i <= endBlock && i < pm.blocks\<close> runs through. The
  offset is that of a file in the torrent, so non-negative.\<close>

definition block_range :: "pieceMap \<Rightarrow> nat \<Rightarrow> int \<Rightarrow> nat list" where
  "block_range pm offset len =
     (let startBlock = int offset sdiv blockLength pm;
          endBlock = wrap64 (int offset + len - 1) sdiv blockLength pm
      in map nat [startBlock..min endBlock (int (blocks pm) - 1)])"

definition addFilter :: "pieceMap \<Rightarrow> nat \<Rightarrow> int \<Rightarrow> pieceMap" where
  "addFilter pm offset len =
     (let pm = ensureFilter pm;
          pm = (if 0 < len \<and> 0 < blocks pm
                then pm\<lparr>filterBits := map_option (\<lambda>f. fold (\<lambda>i b. setBitVal b i True)
                       (block_range pm offset len) f) (filterBits pm)\<rparr>
                else pm)
      in updateCache pm)"

definition removeFilter :: "pieceMap \<Rightarrow> nat \<Rightarrow> int \<Rightarrow> pieceMap" where
  "removeFilter pm offset len =
     (let pm = ensureFilter pm;
          pm = (if 0 < len \<and> 0 < blocks pm
                then pm\<lparr>filterBits := map_option (\<lambda>f. fold (\<lambda>i b. setBitVal b i False)
                       (block_range pm offset len) f) (filterBits pm)\<rparr>
                else pm)
      in updateCache pm)"

definition addNotFilter :: "pieceMap \<Rightarrow> nat \<Rightarrow> int \<Rightarrow> pieceMap" where
  "addNotFilter pm offset len =
     (let pm = ensureFilter pm;
          pm = (if 0 < len \<and> 0 < blocks pm then
                  let startBlock = int offset sdiv blockLength pm;
                      startBlock = (if int (blocks pm) \<le> startBlock then int (blocks pm) else startBlock);
                      endBlock = wrap64 (int offset + len - 1) sdiv blockLength pm;
                      set_bits = fold (\<lambda>i b. setBitVal b i True)
                  in pm\<lparr>filterBits := map_option
                       (\<lambda>f. set_bits (map nat [endBlock + 1..int (blocks pm) - 1])
                              (set_bits [0..<nat startBlock] f)) (filterBits pm)\<rparr>
                else pm)
      in updateCache pm)"

definition clearFilter :: "pieceMap \<Rightarrow> pieceMap" where
  "clearFilter pm = updateCache (pm\<lparr>filterBits := None, filterEnabled := False\<rparr>)"

definition enableFilter :: "pieceMap \<Rightarrow> pieceMap" where
  "enableFilter pm = updateCache ((ensureFilter pm)\<lparr>filterEnabled := True\<rparr>)"

definition disableFilter :: "pieceMap \<Rightarrow> pieceMap" where
  "disableFilter pm = updateCache (pm\<lparr>filterEnabled := False\<rparr>)"

definition isFilterBitSet :: "pieceMap \<Rightarrow> int \<Rightarrow> bool" where
  "isFilterBitSet pm index =
     (case filterBits pm of
        None \<Rightarrow> False
      | Some f \<Rightarrow> if index < 0 \<or> index \<ge> int (blocks pm) then False else testBit f (nat index))"

definition isFilteredAllBitSet :: "pieceMap \<Rightarrow> bool" where
  "isFilteredAllBitSet pm =
     (case active_filter pm of
        Some f \<Rightarrow> list_all (\<lambda>i. (haveBits pm ! i) AND (f ! i) = f ! i) [0..<bitfieldLen pm]
      | None \<Rightarrow> testAllBitSet (haveBits pm) (bitfieldLen pm) (blocks pm))"

definition isAllFilterBitSet :: "pieceMap \<Rightarrow> bool" where
  "isAllFilterBitSet pm =
     (case filterBits pm of
        None \<Rightarrow> False
      | Some f \<Rightarrow> testAllBitSet f (bitfieldLen pm) (blocks pm))"

section \<open>Queries\<close>

text \<open>With the filter enabled the code reads \<open>pm.filterBits\<close> without a nil check; on a nil
  slice the buffer keeps its stale bytes. \<open>the\<close> is unspecified there and \<open>pm_wf\<close> rules
  the case out.\<close>

definition getFirstMissingIndex :: "pieceMap \<Rightarrow> nat option" where
  "getFirstMissingIndex pm =
     (if filterEnabled pm then
        getFirstSetBitIndex (bf_andNot (the (filterBits pm)) [haveBits pm]) (blocks pm)
      else getFirstSetBitIndex (bf_not (haveBits pm)) (blocks pm))"

definition missing_unused_buf :: "pieceMap \<Rightarrow> byte list" where
  "missing_unused_buf pm =
     (if filterEnabled pm then
        map (\<lambda>i. NOT ((haveBits pm ! i) OR (useBits pm ! i)) AND (the (filterBits pm) ! i))
          [0..<bitfieldLen pm]
      else map (\<lambda>i. NOT ((haveBits pm ! i) OR (useBits pm ! i))) [0..<bitfieldLen pm])"

definition getFirstMissingUnusedIndex :: "pieceMap \<Rightarrow> nat option" where
  "getFirstMissingUnusedIndex pm = getFirstSetBitIndex (missing_unused_buf pm) (blocks pm)"

definition getFirstNMissingUnusedIndex :: "pieceMap \<Rightarrow> nat \<Rightarrow> nat list" where
  "getFirstNMissingUnusedIndex pm n = getFirstNSetBitIndex (missing_unused_buf pm) (blocks pm) n"

definition getAllMissingIndexesNoArg :: "pieceMap \<Rightarrow> byte list" where
  "getAllMissingIndexesNoArg pm =
     (if filterEnabled pm then
        copyWithLastByteMask (bf_andNot (the (filterBits pm)) [haveBits pm]) (blocks pm)
      else copyWithLastByteMask (bf_not (haveBits pm)) (blocks pm))"

definition getAllMissingIndexes :: "pieceMap \<Rightarrow> byte list \<Rightarrow> byte list option" where
  "getAllMissingIndexes pm peerBitfield =
     (if bitfieldLen pm \<noteq> length peerBitfield then None
      else let d = bf_and (bf_not (haveBits pm)) peerBitfield [];
               d = (case active_filter pm of Some f \<Rightarrow> bf_and d f [] | None \<Rightarrow> d)
           in Some (copyWithLastByteMask d (blocks pm)))"

definition getAllMissingUnusedIndexes :: "pieceMap \<Rightarrow> byte list \<Rightarrow> byte list option" where
  "getAllMissingUnusedIndexes pm peerBitfield =
     (if bitfieldLen pm \<noteq> length peerBitfield then None
      else let d = bf_and (bf_not (haveBits pm)) (bf_not (useBits pm)) [peerBitfield];
               d = (case active_filter pm of Some f \<Rightarrow> bf_and d f [] | None \<Rightarrow> d)
           in Some (copyWithLastByteMask d (blocks pm)))"

definition hasMissingPiece :: "pieceMap \<Rightarrow> byte list \<Rightarrow> bool" where
  "hasMissingPiece pm peerBitfield =
     (if bitfieldLen pm \<noteq> length peerBitfield then False
      else list_ex (\<lambda>i.
        (let temp = (peerBitfield ! i) AND NOT (haveBits pm ! i);
             temp = (case active_filter pm of Some f \<Rightarrow> temp AND (f ! i) | None \<Rightarrow> temp)
         in temp \<noteq> 0)) [0..<bitfieldLen pm])"

section \<open>Byte offsets\<close>

definition isBitSetOffsetRange :: "pieceMap \<Rightarrow> nat \<Rightarrow> int \<Rightarrow> bool" where
  "isBitSetOffsetRange pm offset len =
     (if len \<le> 0 \<or> totalLength pm \<le> int offset then False
      else let len = (if totalLength pm < wrap64 (int offset + len)
                      then totalLength pm - int offset else len)
           in list_all (testBit (haveBits pm)) (block_range pm offset len))"

definition getOffsetCompletedLength :: "pieceMap \<Rightarrow> nat \<Rightarrow> int \<Rightarrow> int" where
  "getOffsetCompletedLength pm offset len =
     (if len = 0 \<or> totalLength pm \<le> int offset \<or> blockLength pm = 0 then 0
      else
        let len = (if totalLength pm < wrap64 (int offset + len)
                   then totalLength pm - int offset else len);
            start = nat (int offset sdiv blockLength pm);
            end = nat (wrap64 (int offset + len - 1) sdiv blockLength pm)
        in if start = end then (if testBit (haveBits pm) start then len else 0)
           else (if testBit (haveBits pm) start then (int start + 1) * blockLength pm - int offset else 0)
              + sum_list (map (\<lambda>i. if testBit (haveBits pm) i then blockLength pm else 0)
                   [start + 1..<end])
              + (if testBit (haveBits pm) end then int offset + len - int end * blockLength pm else 0))"

definition getMissingUnusedLength :: "pieceMap \<Rightarrow> nat \<Rightarrow> int" where
  "getMissingUnusedLength pm startingIndex =
     (if blocks pm \<le> startingIndex then 0
      else sum_list (map (\<lambda>i. getBlockLengthForIndex pm (int i))
        (takeWhile (\<lambda>i. \<not> (testBit (haveBits pm) i \<or> testBit (useBits pm) i))
          [startingIndex..<blocks pm])))"

section \<open>Invariant and abstraction\<close>

definition pm_shape :: "pieceMap \<Rightarrow> bool" where
  "pm_shape pm \<longleftrightarrow>
     bitfieldLen pm = (blocks pm + 7) div 8 \<and>
     length (haveBits pm) = bitfieldLen pm \<and> length (useBits pm) = bitfieldLen pm \<and>
     (case filterBits pm of None \<Rightarrow> \<not> filterEnabled pm | Some f \<Rightarrow> length f = bitfieldLen pm) \<and>
     (0 < blocks pm \<longrightarrow> 0 < blockLength pm \<and> blockLength pm < 2 ^ 31 \<and>
        blockLength pm * (int (blocks pm) - 1) < totalLength pm \<and>
        totalLength pm \<le> blockLength pm * int (blocks pm) \<and> totalLength pm < 2 ^ 63)"

definition pm_wf :: "pieceMap \<Rightarrow> bool" where
  "pm_wf pm \<longleftrightarrow> pm_shape pm \<and> updateCache pm = pm"

definition have_set :: "pieceMap \<Rightarrow> nat set" where
  "have_set pm = bits_of (haveBits pm) (blocks pm)"

definition use_set :: "pieceMap \<Rightarrow> nat set" where
  "use_set pm = bits_of (useBits pm) (blocks pm)"

definition filter_set :: "pieceMap \<Rightarrow> nat set" where
  "filter_set pm = (case filterBits pm of None \<Rightarrow> {} | Some f \<Rightarrow> bits_of f (blocks pm))"

definition wanted_set :: "pieceMap \<Rightarrow> nat set" where
  "wanted_set pm = (if filterEnabled pm then filter_set pm else {..<blocks pm})"

definition piece_len :: "pieceMap \<Rightarrow> nat \<Rightarrow> int" where
  "piece_len pm i =
     (if i = blocks pm - 1 then totalLength pm - blockLength pm * (int (blocks pm) - 1)
      else blockLength pm)"

lemma bytes_for: "n div 8 + b2i (n mod 8 \<noteq> 0) = (n + 7) div 8"
proof -
  obtain q r where n: "n = 8 * q + r" and r: "r < 8"
    using that [of "n div 8" "n mod 8"] by simp
  have "(r + 7) div 8 = b2i (r \<noteq> 0)"
    using less_8_cases [OF r] by (auto simp: b2i_def)
  moreover have "(8 * q + r + 7) div 8 = q + (r + 7) div 8"
    by (simp only: add.assoc)
  ultimately show ?thesis using n r by simp
qed

lemma updateCache_fields [simp]:
  "blockLength (updateCache pm) = blockLength pm"
  "totalLength (updateCache pm) = totalLength pm"
  "blocks (updateCache pm) = blocks pm"
  "bitfieldLen (updateCache pm) = bitfieldLen pm"
  "haveBits (updateCache pm) = haveBits pm"
  "useBits (updateCache pm) = useBits pm"
  "filterBits (updateCache pm) = filterBits pm"
  "filterEnabled (updateCache pm) = filterEnabled pm"
  by (simp_all add: updateCache_def)

lemmas cache_defs =
  countMissingBlockNow_def countFilteredBlockNow_def computeFilteredTotalLen_def
  computeCompletedLen_def length_of_bits_def getLastBlockLength_def active_filter_def

lemma cache_functions_cong:
  assumes "blockLength pm' = blockLength pm" and "totalLength pm' = totalLength pm"
    and "blocks pm' = blocks pm" and "haveBits pm' = haveBits pm"
    and "filterBits pm' = filterBits pm" and "filterEnabled pm' = filterEnabled pm"
  shows "countMissingBlockNow pm' = countMissingBlockNow pm"
    and "countFilteredBlockNow pm' = countFilteredBlockNow pm"
    and "computeFilteredTotalLen pm' = computeFilteredTotalLen pm"
    and "computeCompletedLen pm' useFilter = computeCompletedLen pm useFilter"
  unfolding cache_defs assms by (rule refl)+

lemma updateCache_idem [simp]: "updateCache (updateCache pm) = updateCache pm"
proof (cases "blocks pm = 0")
  case False
  note same = cache_functions_cong [of "updateCache pm" pm, simplified]
  show ?thesis using False
    by (subst (1) updateCache_def, simp only: same) (simp add: updateCache_def)
qed (simp add: updateCache_def)

lemma updateCache_useBits:
  "updateCache (pm\<lparr>useBits := u\<rparr>) = (updateCache pm)\<lparr>useBits := u\<rparr>"
proof -
  note same = cache_functions_cong [of "pm\<lparr>useBits := u\<rparr>" pm, simplified]
  show ?thesis unfolding updateCache_def same by simp
qed

lemma pm_shape_updateCache [simp]: "pm_shape (updateCache pm) \<longleftrightarrow> pm_shape pm"
  unfolding pm_shape_def updateCache_fields by (rule refl)

lemma pm_wf_updateCache: "pm_shape pm \<Longrightarrow> pm_wf (updateCache pm)"
  by (simp add: pm_wf_def)

lemma pm_wf_shape: "pm_wf pm \<Longrightarrow> pm_shape pm"
  by (simp add: pm_wf_def)

lemma sets_updateCache [simp]:
  "have_set (updateCache pm) = have_set pm" "use_set (updateCache pm) = use_set pm"
  "filter_set (updateCache pm) = filter_set pm" "wanted_set (updateCache pm) = wanted_set pm"
  unfolding have_set_def use_set_def filter_set_def wanted_set_def updateCache_fields
  by (rule refl)+

lemma blocks_le_bits: "pm_shape pm \<Longrightarrow> blocks pm \<le> 8 * bitfieldLen pm"
  unfolding pm_shape_def by presburger

lemma sets_bounded:
  "have_set pm \<subseteq> {..<blocks pm}" "use_set pm \<subseteq> {..<blocks pm}"
  "filter_set pm \<subseteq> {..<blocks pm}" "wanted_set pm \<subseteq> {..<blocks pm}"
  by (auto simp: have_set_def use_set_def filter_set_def wanted_set_def bits_of_def
      split: option.splits if_splits)

lemma finite_sets [simp]:
  "finite (have_set pm)" "finite (use_set pm)" "finite (filter_set pm)" "finite (wanted_set pm)"
  using finite_subset [OF sets_bounded(1)] finite_subset [OF sets_bounded(2)]
    finite_subset [OF sets_bounded(3)] finite_subset [OF sets_bounded(4)] by auto

lemma last_block_length:
  assumes "pm_shape pm" and "0 < blocks pm"
  shows "getLastBlockLength pm = piece_len pm (blocks pm - 1)"
    and "0 < getLastBlockLength pm" and "getLastBlockLength pm \<le> blockLength pm"
proof -
  let ?d = "totalLength pm - blockLength pm * (int (blocks pm) - 1)"
  have "0 < ?d" and "?d \<le> blockLength pm" and "blockLength pm < 2 ^ 31"
    using assms by (auto simp: pm_shape_def algebra_simps)
  then have "wrap32 ?d = ?d" by simp
  with \<open>0 < ?d\<close> \<open>?d \<le> blockLength pm\<close>
  show "getLastBlockLength pm = piece_len pm (blocks pm - 1)"
    and "0 < getLastBlockLength pm" and "getLastBlockLength pm \<le> blockLength pm"
    by (simp_all add: getLastBlockLength_def piece_len_def)
qed

lemma sum_piece_len:
  assumes "S \<subseteq> {..<blocks pm}"
  shows "(\<Sum>i\<in>S. piece_len pm i) =
    (if blocks pm - 1 \<in> S then (int (card S) - 1) * blockLength pm + piece_len pm (blocks pm - 1)
     else int (card S) * blockLength pm)"
proof -
  have fin: "finite S" using assms finite_subset by blast
  have *: "(\<Sum>i\<in>T. piece_len pm i) = int (card T) * blockLength pm"
    if "blocks pm - 1 \<notin> T" for T
    using that by (subst sum.cong [OF refl, of T _ "\<lambda>_. blockLength pm"])
      (auto simp: piece_len_def)
  show ?thesis
  proof (cases "blocks pm - 1 \<in> S")
    case True
    have "card S > 0" using True fin by (auto simp: card_gt_0_iff)
    then have "int (card S) - 1 = int (card (S - {blocks pm - 1}))"
      using True fin by simp
    then have "(\<Sum>i\<in>S - {blocks pm - 1}. piece_len pm i) = (int (card S) - 1) * blockLength pm"
      by (simp only: *) (simp add: *)
    then show ?thesis using True sum.remove [OF fin True, of "piece_len pm"] by simp
  qed (simp add: *)
qed

lemma length_of_bits_sum:
  assumes "pm_shape pm" and "0 < blocks pm"
  shows "length_of_bits pm b = (\<Sum>i\<in>bits_of b (blocks pm). piece_len pm i)"
proof -
  let ?S = "bits_of b (blocks pm)"
  have S: "?S \<subseteq> {..<blocks pm}" by (auto simp: bits_of_def)
  have mem: "blocks pm - 1 \<in> ?S \<longleftrightarrow> testBit b (blocks pm - 1)"
    using assms(2) by (auto simp: bits_of_def)
  show ?thesis
    unfolding length_of_bits_def Let_def countSetBits_card sum_piece_len [OF S] mem
      last_block_length(1) [OF assms]
    using mem by auto
qed

lemma bits_of_and:
  assumes "n \<le> 8 * length a"
  shows "bits_of (bf_and a b []) n = bits_of a n \<inter> bits_of b n"
  using assms by (auto simp: bits_of_def testBit_bf_and)

lemma active_filter_set:
  assumes "pm_shape pm"
  shows "active_filter pm = None \<Longrightarrow> wanted_set pm = {..<blocks pm}"
    and "active_filter pm = Some f \<Longrightarrow> wanted_set pm = bits_of f (blocks pm) \<and> length f = bitfieldLen pm"
  using assms
  by (auto simp: active_filter_def wanted_set_def filter_set_def pm_shape_def split: if_splits option.splits)

section \<open>The caches\<close>

lemma countMissingBlockNow_card:
  assumes shape: "pm_shape pm"
  shows "countMissingBlockNow pm = int (card (wanted_set pm - have_set pm))"
proof (cases "active_filter pm")
  case None
  have "card (have_set pm) \<le> blocks pm"
    using card_mono [OF _ sets_bounded(1) [of pm]] by simp
  then have "int (card ({..<blocks pm} - have_set pm)) = int (blocks pm) - int (card (have_set pm))"
    using sets_bounded(1) [of pm] by (simp add: card_Diff_subset)
  with None show ?thesis
    using active_filter_set(1) [OF shape None]
    by (simp add: countMissingBlockNow_def countSetBits_card have_set_def)
next
  case (Some f)
  let ?F = "bits_of f (blocks pm)" and ?H = "bits_of (haveBits pm) (blocks pm)"
  have "blocks pm \<le> 8 * length (haveBits pm)"
    using blocks_le_bits [OF shape] shape by (simp add: pm_shape_def)
  moreover have "?F - ?H = ?F - ?H \<inter> ?F" by blast
  then have "int (card (?F - ?H)) = int (card ?F) - int (card (?H \<inter> ?F))"
    by (simp add: card_Diff_subset of_nat_diff card_mono)
  ultimately show ?thesis
    using Some active_filter_set(2) [OF shape Some]
    by (simp add: countMissingBlockNow_def countSetBits_card have_set_def bits_of_and)
qed

lemma computeCompletedLen_sum:
  assumes shape: "pm_shape pm" and "0 < blocks pm"
  shows "computeCompletedLen pm False = (\<Sum>i\<in>have_set pm. piece_len pm i)"
    and "computeCompletedLen pm True = (\<Sum>i\<in>have_set pm \<inter> wanted_set pm. piece_len pm i)"
proof -
  note sums = length_of_bits_sum [OF assms]
  have "blocks pm \<le> 8 * length (haveBits pm)"
    using blocks_le_bits [OF shape] shape by (simp add: pm_shape_def)
  then show "computeCompletedLen pm True = (\<Sum>i\<in>have_set pm \<inter> wanted_set pm. piece_len pm i)"
    using active_filter_set [OF shape] sets_bounded(1) [of pm]
    by (cases "active_filter pm")
       (simp_all add: computeCompletedLen_def sums have_set_def bits_of_and Int_absorb2)
  show "computeCompletedLen pm False = (\<Sum>i\<in>have_set pm. piece_len pm i)"
    by (simp add: computeCompletedLen_def sums have_set_def split: option.split)
qed

lemma computeFilteredTotalLen_sum:
  assumes "pm_shape pm" and "0 < blocks pm"
  shows "computeFilteredTotalLen pm = (\<Sum>i\<in>filter_set pm. piece_len pm i)"
  by (simp add: computeFilteredTotalLen_def filter_set_def length_of_bits_sum [OF assms]
      split: option.split)

lemma countFilteredBlockNow_card:
  "countFilteredBlockNow pm = (if filterEnabled pm then int (card (filter_set pm)) else 0)"
  by (simp add: countFilteredBlockNow_def active_filter_def filter_set_def countSetBits_card
      split: option.split)

lemma empty_map_sets:
  "blocks pm = 0 \<Longrightarrow> have_set pm = {} \<and> use_set pm = {} \<and> filter_set pm = {} \<and> wanted_set pm = {}"
  using sets_bounded [of pm] by auto

lemma cached_values:
  assumes "pm_wf pm"
  shows "cachedNumMissingBlock pm = int (card (wanted_set pm - have_set pm)) \<and>
    cachedNumFilteredBlock pm = (if filterEnabled pm then int (card (filter_set pm)) else 0) \<and>
    cachedCompletedLen pm = (\<Sum>i\<in>have_set pm. piece_len pm i) \<and>
    cachedFilteredCompletedLen pm = (\<Sum>i\<in>have_set pm \<inter> wanted_set pm. piece_len pm i) \<and>
    cachedFilteredTotalLen pm = (\<Sum>i\<in>filter_set pm. piece_len pm i)"
proof -
  have shape: "pm_shape pm" and fresh: "updateCache pm = pm" using assms by (auto simp: pm_wf_def)
  show ?thesis
  proof (cases "blocks pm = 0")
    case True
    then have "cachedNumMissingBlock (updateCache pm) = 0" "cachedNumFilteredBlock (updateCache pm) = 0"
      "cachedCompletedLen (updateCache pm) = 0" "cachedFilteredCompletedLen (updateCache pm) = 0"
      "cachedFilteredTotalLen (updateCache pm) = 0"
      by (simp_all add: updateCache_def)
    then show ?thesis unfolding fresh using empty_map_sets [OF True] by simp
  next
    case False
    then have pos: "0 < blocks pm" by simp
    have "cachedNumMissingBlock (updateCache pm) = countMissingBlockNow pm"
      "cachedNumFilteredBlock (updateCache pm) = countFilteredBlockNow pm"
      "cachedCompletedLen (updateCache pm) = computeCompletedLen pm False"
      "cachedFilteredCompletedLen (updateCache pm) = computeCompletedLen pm True"
      "cachedFilteredTotalLen (updateCache pm) = computeFilteredTotalLen pm"
      using False by (simp_all add: updateCache_def)
    then show ?thesis unfolding fresh
      by (simp add: countMissingBlockNow_card [OF shape] countFilteredBlockNow_card
          computeCompletedLen_sum [OF shape pos] computeFilteredTotalLen_sum [OF shape pos])
  qed
qed

section \<open>The operations refine operations on sets of pieces\<close>

datatype pm_op =
    SetBit int | UnsetBit int | SetUseBit int | UnsetUseBit int
  | SetBitRange int int | UnsetBitRange int int | SetAllBit | ClearAllBit | ClearAllUseBit
  | SetAllUseBit | SetBitfield "byte list" | AddFilter nat int | RemoveFilter nat int
  | AddNotFilter nat int | ClearFilter | EnableFilter | DisableFilter | SetCount nat

fun pm_exec :: "pm_op \<Rightarrow> pieceMap \<Rightarrow> pieceMap" where
  "pm_exec (SetBit i) pm = fst (setBit pm i)"
| "pm_exec (UnsetBit i) pm = fst (unsetBit pm i)"
| "pm_exec (SetUseBit i) pm = fst (setUseBit pm i)"
| "pm_exec (UnsetUseBit i) pm = fst (unsetUseBit pm i)"
| "pm_exec (SetBitRange i j) pm = setBitRange pm i j"
| "pm_exec (UnsetBitRange i j) pm = unsetBitRange pm i j"
| "pm_exec SetAllBit pm = setAllBit pm"
| "pm_exec ClearAllBit pm = clearAllBit pm"
| "pm_exec ClearAllUseBit pm = clearAllUseBit pm"
| "pm_exec SetAllUseBit pm = setAllUseBit pm"
| "pm_exec (SetBitfield bf) pm = setBitfield pm bf"
| "pm_exec (AddFilter off len) pm = addFilter pm off len"
| "pm_exec (RemoveFilter off len) pm = removeFilter pm off len"
| "pm_exec (AddNotFilter off len) pm = addNotFilter pm off len"
| "pm_exec ClearFilter pm = clearFilter pm"
| "pm_exec EnableFilter pm = enableFilter pm"
| "pm_exec DisableFilter pm = disableFilter pm"
| "pm_exec (SetCount n) pm = setCount pm n"

text \<open>The specification: piece sets, an optional filter set and whether it is on.\<close>

record pm_spec =
  sp_blocks :: nat
  sp_bl :: int
  sp_have :: "nat set"
  sp_use :: "nat set"
  sp_filter :: "nat set option"
  sp_on :: bool

definition pm_abs :: "pieceMap \<Rightarrow> pm_spec" where
  "pm_abs pm =
     \<lparr>sp_blocks = blocks pm, sp_bl = blockLength pm, sp_have = have_set pm, sp_use = use_set pm,
      sp_filter = map_option (\<lambda>f. bits_of f (blocks pm)) (filterBits pm), sp_on = filterEnabled pm\<rparr>"

text \<open>The pieces a byte range touches.\<close>

definition touched :: "int \<Rightarrow> nat \<Rightarrow> nat \<Rightarrow> int \<Rightarrow> nat set" where
  "touched bl n off len = {i. i < n \<and> (\<exists>x. off \<le> x \<and> int x < int off + len \<and> x div nat bl = i)}"

definition sp_filtered :: "pm_spec \<Rightarrow> nat set" where
  "sp_filtered s = (case sp_filter s of None \<Rightarrow> {} | Some f \<Rightarrow> f)"

definition int_range :: "nat \<Rightarrow> int \<Rightarrow> int \<Rightarrow> nat set" where
  "int_range n i j = {k. k < n \<and> i \<le> int k \<and> int k \<le> j}"

fun spec_exec :: "pm_op \<Rightarrow> pm_spec \<Rightarrow> pm_spec" where
  "spec_exec (SetBit i) s = s\<lparr>sp_have := sp_have s \<union> int_range (sp_blocks s) i i\<rparr>"
| "spec_exec (UnsetBit i) s = s\<lparr>sp_have := sp_have s - int_range (sp_blocks s) i i\<rparr>"
| "spec_exec (SetUseBit i) s = s\<lparr>sp_use := sp_use s \<union> int_range (sp_blocks s) i i\<rparr>"
| "spec_exec (UnsetUseBit i) s = s\<lparr>sp_use := sp_use s - int_range (sp_blocks s) i i\<rparr>"
| "spec_exec (SetBitRange i j) s = s\<lparr>sp_have := sp_have s \<union> int_range (sp_blocks s) i j\<rparr>"
| "spec_exec (UnsetBitRange i j) s = s\<lparr>sp_have := sp_have s - int_range (sp_blocks s) i j\<rparr>"
| "spec_exec SetAllBit s = s\<lparr>sp_have := {..<sp_blocks s}\<rparr>"
| "spec_exec ClearAllBit s = s\<lparr>sp_have := {}\<rparr>"
| "spec_exec ClearAllUseBit s = s\<lparr>sp_use := {}\<rparr>"
| "spec_exec SetAllUseBit s = s\<lparr>sp_use := {..<sp_blocks s}\<rparr>"
| "spec_exec (SetBitfield bf) s =
     (if 0 < sp_blocks s \<and> length bf = (sp_blocks s + 7) div 8
      then s\<lparr>sp_have := bits_of bf (sp_blocks s), sp_use := {}\<rparr> else s)"
| "spec_exec (AddFilter off len) s =
     s\<lparr>sp_filter := Some (sp_filtered s \<union> touched (sp_bl s) (sp_blocks s) off len)\<rparr>"
| "spec_exec (RemoveFilter off len) s =
     s\<lparr>sp_filter := Some (sp_filtered s - touched (sp_bl s) (sp_blocks s) off len)\<rparr>"
| "spec_exec (AddNotFilter off len) s =
     s\<lparr>sp_filter := Some (if 0 < len
        then sp_filtered s \<union> ({..<sp_blocks s} - touched (sp_bl s) (sp_blocks s) off len)
        else sp_filtered s)\<rparr>"
| "spec_exec ClearFilter s = s\<lparr>sp_filter := None, sp_on := False\<rparr>"
| "spec_exec EnableFilter s = s\<lparr>sp_filter := Some (sp_filtered s), sp_on := True\<rparr>"
| "spec_exec DisableFilter s = s\<lparr>sp_on := False\<rparr>"
| "spec_exec (SetCount n) s =
     (if sp_blocks s = n then s
      else s\<lparr>sp_blocks := n, sp_have := {}, sp_use := {}, sp_filter := None, sp_on := False\<rparr>)"

text \<open>What the callers guarantee: byte ranges inside \<open>int64\<close>, and on a change of the piece
  count a positive piece length and a total length inside \<open>int64\<close>.\<close>

fun op_ok :: "int \<Rightarrow> pm_op \<Rightarrow> bool" where
  "op_ok bl (AddFilter off len) \<longleftrightarrow> int off + len < 2 ^ 63"
| "op_ok bl (RemoveFilter off len) \<longleftrightarrow> int off + len < 2 ^ 63"
| "op_ok bl (AddNotFilter off len) \<longleftrightarrow> int off + len < 2 ^ 63"
| "op_ok bl (SetCount n) \<longleftrightarrow> 0 < bl \<and> bl < 2 ^ 31 \<and> bl * int n < 2 ^ 63"
| "op_ok bl _ \<longleftrightarrow> True"

lemma pm_abs_updateCache [simp]: "pm_abs (updateCache pm) = pm_abs pm"
  unfolding pm_abs_def sets_updateCache updateCache_fields by (rule refl)

lemma bits_of_zeros [simp]:
  "n \<le> 8 * length b \<Longrightarrow> bits_of (map (\<lambda>_. 0) b) n = {}"
  "n \<le> 8 * k \<Longrightarrow> bits_of (replicate k 0) n = {}"
  by (auto simp: bits_of_def testBit_bit div_8_less)

lemma fold_setBitInternal:
  assumes "pm_shape pm"
  shows "fold (\<lambda>i b. fst (setBitInternal pm b i v)) is b =
    fold (\<lambda>i b. setBitVal b i v) (map nat (filter (\<lambda>i. 0 \<le> i \<and> i < int (blocks pm)) is)) b"
proof -
  have "bitfieldLen pm = 0 \<Longrightarrow> blocks pm = 0"
    using blocks_le_bits [OF assms] by simp
  then show ?thesis
    by (induction "is" arbitrary: b) (auto simp: setBitInternal_def)
qed

lemma length_fold_setBitVal [simp]: "length (fold (\<lambda>i b. setBitVal b i v) is b) = length b"
  by (induction "is" arbitrary: b) simp_all

lemma set_index_range:
  "set (map nat (filter (\<lambda>i. 0 \<le> i \<and> i < int n) [i..min j (int n - 1)])) = int_range n i j"
  by (force simp: int_range_def image_iff)

lemma set_index_all:
  "set (map nat (filter (\<lambda>i. 0 \<le> i \<and> i < int n) (map int [0..<n]))) = {..<n}"
  by (force simp: image_iff)

lemma fold_map_int:
  "fold (\<lambda>i. f (int i)) is b = fold f (map int is) b"
  by (simp add: fold_map comp_def)

lemma bits_of_range_op:
  assumes shape: "pm_shape pm" and len: "length b = bitfieldLen pm"
  shows "bits_of (fold (\<lambda>i b. fst (setBitInternal pm b i True))
      [i..min j (int (blocks pm) - 1)] b) (blocks pm) = bits_of b (blocks pm) \<union> int_range (blocks pm) i j"
    and "bits_of (fold (\<lambda>i b. fst (setBitInternal pm b i False))
      [i..min j (int (blocks pm) - 1)] b) (blocks pm) = bits_of b (blocks pm) - int_range (blocks pm) i j"
    and "bits_of (fold (\<lambda>i b. fst (setBitInternal pm b (int i) True)) [0..<blocks pm] b)
      (blocks pm) = {..<blocks pm}"
    and "length (fold (\<lambda>i b. fst (setBitInternal pm b i v)) is b) = length b"
    and "length (fold (\<lambda>i b. fst (setBitInternal pm b (int i) v)) js b) = length b"
proof -
  have le: "blocks pm \<le> 8 * length b" using blocks_le_bits [OF shape] len by simp
  have sub: "int_range (blocks pm) i j \<subseteq> {..<blocks pm}" by (auto simp: int_range_def)
  have "bits_of b (blocks pm) \<subseteq> {..<blocks pm}" by (auto simp: bits_of_def)
  then show "bits_of (fold (\<lambda>i b. fst (setBitInternal pm b (int i) True)) [0..<blocks pm] b)
      (blocks pm) = {..<blocks pm}"
    using le unfolding fold_map_int [of "\<lambda>i b. fst (setBitInternal pm b i True)"]
    by (simp only: fold_setBitInternal [OF shape] pmbits.elems_fold_True set_index_all order_refl) blast
  show "bits_of (fold (\<lambda>i b. fst (setBitInternal pm b i True))
      [i..min j (int (blocks pm) - 1)] b) (blocks pm) = bits_of b (blocks pm) \<union> int_range (blocks pm) i j"
    using le sub by (simp only: fold_setBitInternal [OF shape] pmbits.elems_fold_True set_index_range)
  show "bits_of (fold (\<lambda>i b. fst (setBitInternal pm b i False))
      [i..min j (int (blocks pm) - 1)] b) (blocks pm) = bits_of b (blocks pm) - int_range (blocks pm) i j"
    using le sub by (simp only: fold_setBitInternal [OF shape] pmbits.elems_fold_False set_index_range)
  show *: "length (fold (\<lambda>i b. fst (setBitInternal pm b i v)) is b) = length b" for "is"
    by (simp add: fold_setBitInternal [OF shape])
  show "length (fold (\<lambda>i b. fst (setBitInternal pm b (int i) v)) js b) = length b"
    by (simp only: fold_map_int [of "\<lambda>i b. fst (setBitInternal pm b i v)"] *)
qed

lemma setBitInternal_bits:
  assumes shape: "pm_shape pm" and len: "length b = bitfieldLen pm"
  shows "bits_of (fst (setBitInternal pm b i True)) (blocks pm) =
      bits_of b (blocks pm) \<union> int_range (blocks pm) i i"
    and "bits_of (fst (setBitInternal pm b i False)) (blocks pm) =
      bits_of b (blocks pm) - int_range (blocks pm) i i"
    and "length (fst (setBitInternal pm b i v)) = length b"
    and "snd (setBitInternal pm b i v) \<longleftrightarrow> 0 \<le> i \<and> i < int (blocks pm)"
proof -
  have le: "blocks pm \<le> 8 * length b" using blocks_le_bits [OF shape] len by simp
  have one: "int_range (blocks pm) i i = (if 0 \<le> i \<and> i < int (blocks pm) then {nat i} else {})"
    by (auto simp: int_range_def)
  have zero: "bitfieldLen pm = 0 \<Longrightarrow> blocks pm = 0" using blocks_le_bits [OF shape] by simp
  show "bits_of (fst (setBitInternal pm b i True)) (blocks pm) =
      bits_of b (blocks pm) \<union> int_range (blocks pm) i i"
    using le zero by (auto simp: setBitInternal_def one pmbits.elems_put_True)
  show "bits_of (fst (setBitInternal pm b i False)) (blocks pm) =
      bits_of b (blocks pm) - int_range (blocks pm) i i"
    using le zero by (auto simp: setBitInternal_def one pmbits.elems_put_False)
  show "length (fst (setBitInternal pm b i v)) = length b" by (simp add: setBitInternal_def)
  show "snd (setBitInternal pm b i v) \<longleftrightarrow> 0 \<le> i \<and> i < int (blocks pm)"
    using zero by (auto simp: setBitInternal_def)
qed

lemma div_interval:
  fixes off x i :: nat and bl len :: int
  assumes "0 < bl" and "0 < len"
  shows "(\<exists>x. off \<le> x \<and> int x < int off + len \<and> x div nat bl = i) \<longleftrightarrow>
    int off div bl \<le> int i \<and> int i \<le> (int off + len - 1) div bl"
proof
  assume "\<exists>x. off \<le> x \<and> int x < int off + len \<and> x div nat bl = i"
  then obtain x where x: "off \<le> x" "int x < int off + len" "i = x div nat bl" by blast
  have "int i = int x div bl" using x(3) assms(1) by (simp add: zdiv_int)
  with x assms show "int off div bl \<le> int i \<and> int i \<le> (int off + len - 1) div bl"
    by (auto intro: zdiv_mono1)
next
  assume *: "int off div bl \<le> int i \<and> int i \<le> (int off + len - 1) div bl"
  let ?x = "max off (i * nat bl)"
  have up: "int i * bl \<le> int off + len - 1"
  proof -
    have "int i * bl \<le> (int off + len - 1) div bl * bl"
      using * assms(1) by (intro mult_right_mono) auto
    also have "\<dots> \<le> int off + len - 1"
      using pos_mod_sign [OF assms(1), of "int off + len - 1"]
        div_mult_mod_eq [of "int off + len - 1" bl] by linarith
    finally show ?thesis .
  qed
  have low: "int off < (int i + 1) * bl"
  proof -
    have "int off < (int off div bl + 1) * bl"
      using pos_mod_bound [OF assms(1), of "int off"] div_mult_mod_eq [of "int off" bl]
      unfolding distrib_right by linarith
    also have "\<dots> \<le> (int i + 1) * bl" using * assms(1) by (intro mult_right_mono) auto
    finally show ?thesis .
  qed
  have "nat ((int i + 1) * bl) = (i + 1) * nat bl"
    using assms(1) by (simp add: nat_mult_distrib nat_add_distrib)
  with low have low': "off < (i + 1) * nat bl" by linarith
  have "i * nat bl < (i + 1) * nat bl" using assms(1) by simp
  with low' have "?x div nat bl = i"
    by (intro div_nat_eqI) (auto simp: mult.commute)
  moreover have "int ?x < int off + len" using up assms by (auto simp: max_def)
  ultimately show "\<exists>x. off \<le> x \<and> int x < int off + len \<and> x div nat bl = i"
    by (intro exI [of _ ?x]) simp
qed

lemma set_block_range:
  assumes "0 < blockLength pm" and "0 < len" and "int off + len < 2 ^ 63"
  shows "set (block_range pm off len) = touched (blockLength pm) (blocks pm) off len"
proof -
  have "touched (blockLength pm) (blocks pm) off len =
      {i. i < blocks pm \<and> int off div blockLength pm \<le> int i \<and>
          int i \<le> (int off + len - 1) div blockLength pm}"
    using div_interval [OF assms(1,2)] by (simp add: touched_def)
  moreover have "0 \<le> int off div blockLength pm" using assms(1) by (simp add: pos_imp_zdiv_nonneg_iff)
  moreover have "wrap64 (int off + len - 1) = int off + len - 1" using assms by simp
  ultimately show ?thesis
    using assms by (force simp: block_range_def Let_def image_iff)
qed

lemma touched_subset: "touched bl n off len \<subseteq> {..<n}"
  by (auto simp: touched_def)

lemma touched_empty [simp]: "len \<le> 0 \<Longrightarrow> touched bl n off len = {}" "touched bl 0 off len = {}"
  by (auto simp: touched_def)

lemma ensureFilter_fields [simp]:
  "blockLength (ensureFilter pm) = blockLength pm" "totalLength (ensureFilter pm) = totalLength pm"
  "blocks (ensureFilter pm) = blocks pm" "bitfieldLen (ensureFilter pm) = bitfieldLen pm"
  "haveBits (ensureFilter pm) = haveBits pm" "useBits (ensureFilter pm) = useBits pm"
  "filterEnabled (ensureFilter pm) = filterEnabled pm"
  by (simp_all add: ensureFilter_def split: option.split)

lemma ensureFilter_filter:
  assumes "pm_shape pm"
  obtains f where "filterBits (ensureFilter pm) = Some f" and "length f = bitfieldLen pm"
    and "bits_of f (blocks pm) = sp_filtered (pm_abs pm)"
  using assms blocks_le_bits [OF assms]
  by (cases "filterBits pm")
     (auto simp: ensureFilter_def pm_shape_def sp_filtered_def pm_abs_def)

text \<open>Every operation keeps the invariant and is, on the abstract state, its specification.\<close>

lemma shape_lengths:
  assumes "pm_shape pm"
  shows "length (haveBits pm) = bitfieldLen pm" "length (useBits pm) = bitfieldLen pm"
    "filterBits pm = Some f \<Longrightarrow> length f = bitfieldLen pm"
    "blocks pm \<le> 8 * bitfieldLen pm"
  using assms blocks_le_bits [OF assms] by (auto simp: pm_shape_def)

lemma shape_update:
  assumes "pm_shape pm"
  shows "length b = bitfieldLen pm \<Longrightarrow> pm_shape (pm\<lparr>haveBits := b\<rparr>)"
    "length b = bitfieldLen pm \<Longrightarrow> pm_shape (pm\<lparr>useBits := b\<rparr>)"
    "length b = bitfieldLen pm \<Longrightarrow> length c = bitfieldLen pm \<Longrightarrow> pm_shape (pm\<lparr>haveBits := b, useBits := c\<rparr>)"
    "length b = bitfieldLen pm \<Longrightarrow> pm_shape ((ensureFilter pm)\<lparr>filterBits := Some b\<rparr>)"
    "pm_shape (ensureFilter pm)"
    "pm_shape ((ensureFilter pm)\<lparr>filterEnabled := True\<rparr>)"
    "pm_shape (pm\<lparr>filterEnabled := False\<rparr>)"
    "pm_shape (pm\<lparr>filterBits := None, filterEnabled := False\<rparr>)"
  using assms by (auto simp: pm_shape_def ensureFilter_def split: option.splits)

lemma abs_update:
  "pm_abs (pm\<lparr>haveBits := b\<rparr>) = (pm_abs pm)\<lparr>sp_have := bits_of b (blocks pm)\<rparr>"
  "pm_abs (pm\<lparr>useBits := b\<rparr>) = (pm_abs pm)\<lparr>sp_use := bits_of b (blocks pm)\<rparr>"
  "pm_abs (pm\<lparr>filterBits := f\<rparr>) =
     (pm_abs pm)\<lparr>sp_filter := map_option (\<lambda>f. bits_of f (blocks pm)) f\<rparr>"
  "pm_abs (pm\<lparr>filterEnabled := e\<rparr>) = (pm_abs pm)\<lparr>sp_on := e\<rparr>"
  by (simp_all add: pm_abs_def have_set_def use_set_def)

lemma abs_fields:
  "sp_blocks (pm_abs pm) = blocks pm" "sp_bl (pm_abs pm) = blockLength pm"
  "sp_have (pm_abs pm) = bits_of (haveBits pm) (blocks pm)"
  "sp_use (pm_abs pm) = bits_of (useBits pm) (blocks pm)"
  "sp_on (pm_abs pm) = filterEnabled pm"
  by (simp_all add: pm_abs_def have_set_def use_set_def)

lemma abs_ensureFilter:
  assumes "pm_shape pm"
  shows "pm_abs (ensureFilter pm) = (pm_abs pm)\<lparr>sp_filter := Some (sp_filtered (pm_abs pm))\<rparr>"
  using assms blocks_le_bits [OF assms]
  by (cases "filterBits pm")
     (auto simp: ensureFilter_def pm_abs_def sp_filtered_def have_set_def use_set_def)

text \<open>The two kinds of bit update, on \<open>haveBits\<close> and on \<open>useBits\<close>.\<close>

lemma bit_ops_refine:
  assumes shape: "pm_shape pm"
    and op: "op \<in> {SetBit i, UnsetBit i, SetUseBit i, UnsetUseBit i, SetBitRange i j,
      UnsetBitRange i j, SetAllBit, ClearAllBit, ClearAllUseBit}"
  shows "pm_wf (pm_exec op pm) \<and> pm_abs (pm_exec op pm) = spec_exec op (pm_abs pm)"
proof -
  note len = shape_lengths [OF shape]
  note upd = shape_update [OF shape]
  note sb = setBitInternal_bits [OF shape len(1)] setBitInternal_bits [OF shape len(2)]
  note rg = bits_of_range_op [OF shape len(1)]
  show ?thesis
    using op len(4)
    by (elim insertE emptyE)
       (simp_all add: setBit_def unsetBit_def setUseBit_def unsetUseBit_def setBitRange_def
          unsetBitRange_def setAllBit_def clearAllBit_def clearAllUseBit_def split_beta Let_def
          pm_wf_updateCache upd sb rg len abs_update abs_fields)
qed

lemma bulk_ops_refine:
  assumes wf: "pm_wf pm"
    and op: "op \<in> {SetAllUseBit, SetBitfield bf, ClearFilter, EnableFilter, DisableFilter}"
  shows "pm_wf (pm_exec op pm) \<and> pm_abs (pm_exec op pm) = spec_exec op (pm_abs pm)"
proof -
  have shape: "pm_shape pm" and fresh: "updateCache pm = pm" using wf by (auto simp: pm_wf_def)
  note len = shape_lengths [OF shape]
  note upd = shape_update [OF shape]
  note rg = bits_of_range_op [OF shape len(2)]
  have sb: "pm_shape ((updateCache (pm\<lparr>haveBits := bf\<rparr>))\<lparr>useBits := map (\<lambda>_. 0) (useBits pm)\<rparr>)"
    if "length bf = bitfieldLen pm"
    using upd(3) [OF that] by (simp add: updateCache_useBits [symmetric] len)
  have zero: "bitfieldLen pm = 0 \<longleftrightarrow> blocks pm = 0"
    using shape by (simp add: pm_shape_def) linarith
  have blen: "bitfieldLen pm = (blocks pm + 7) div 8" using shape by (simp add: pm_shape_def)
  show ?thesis
    using op len(4) wf
    by (elim insertE emptyE)
       (simp_all add: setAllUseBit_def setBitfield_def clearFilter_def enableFilter_def
          disableFilter_def pm_wf_updateCache upd rg sb len abs_update abs_fields pm_wf_def
          updateCache_useBits fresh abs_ensureFilter [OF shape] zero blen [symmetric])
qed

lemma set_map_nat_upto: "0 \<le> e \<Longrightarrow> set (map nat [e + 1..int n - 1]) = {i. i < n \<and> e < int i}"
proof (intro set_eqI iffI)
  fix i assume "0 \<le> e" and "i \<in> {i. i < n \<and> e < int i}"
  then have "int i \<in> set [e + 1..int n - 1]" and "i = nat (int i)" by auto
  then show "i \<in> set (map nat [e + 1..int n - 1])" by (metis image_eqI set_map)
qed auto

lemma outside_interval:
  assumes "L = {i. i < n \<and> int i < d}" and "H = {i. i < n \<and> (e::int) < int i}"
    and "T = {i. i < n \<and> d \<le> int i \<and> int i \<le> e}"
  shows "F \<union> L \<union> H = F \<union> ({..<n} - T)"
  unfolding assms by auto

lemma addNotFilter_bits:
  assumes bl: "0 < blockLength pm" and len: "0 < len" and ok: "int off + len < 2 ^ 63"
    and le: "blocks pm \<le> 8 * length f"
  shows "bits_of (fold (\<lambda>i b. setBitVal b i True)
      (map nat [wrap64 (int off + len - 1) sdiv blockLength pm + 1..int (blocks pm) - 1])
      (fold (\<lambda>i b. setBitVal b i True) [0..<nat (if int (blocks pm) \<le> int off sdiv blockLength pm
         then int (blocks pm) else int off sdiv blockLength pm)] f)) (blocks pm) =
    bits_of f (blocks pm) \<union> ({..<blocks pm} - touched (blockLength pm) (blocks pm) off len)"
    (is "bits_of (fold _ ?hi (fold _ ?lo f)) _ = _ \<union> (_ - ?T)")
proof -
  have T: "?T = {i. i < blocks pm \<and> int off div blockLength pm \<le> int i \<and>
      int i \<le> (int off + len - 1) div blockLength pm}"
    unfolding touched_def div_interval [OF bl len] ..
  have nonneg: "0 \<le> int off div blockLength pm" "0 \<le> (int off + len - 1) div blockLength pm"
    using bl len by (simp_all add: pos_imp_zdiv_nonneg_iff)
  have "int off sdiv blockLength pm = int off div blockLength pm" using bl by simp
  then have lo: "set ?lo = {i. i < blocks pm \<and> int i < int off div blockLength pm}"
    by (simp only: set_upt) (auto split: if_splits)
  have "wrap64 (int off + len - 1) sdiv blockLength pm = (int off + len - 1) div blockLength pm"
    using bl len ok by simp
  then have hi: "set ?hi = {i. i < blocks pm \<and> (int off + len - 1) div blockLength pm < int i}"
    by (simp only: set_map_nat_upto [OF nonneg(2)])
  have "set ?lo \<subseteq> {..<blocks pm}" "set ?hi \<subseteq> {..<blocks pm}" unfolding lo hi by auto
  then have "bits_of (fold (\<lambda>i b. setBitVal b i True) ?hi (fold (\<lambda>i b. setBitVal b i True) ?lo f))
      (blocks pm) = bits_of f (blocks pm) \<union> set ?lo \<union> set ?hi"
    using le by (simp only: pmbits.elems_fold_True length_fold_setBitVal)
  then show ?thesis using outside_interval [OF lo hi T] by (simp only:)
qed

lemma filter_ops_refine:
  assumes shape: "pm_shape pm" and ok: "int off + len < 2 ^ 63"
    and op: "op \<in> {AddFilter off len, RemoveFilter off len, AddNotFilter off len}"
  shows "pm_wf (pm_exec op pm) \<and> pm_abs (pm_exec op pm) = spec_exec op (pm_abs pm)"
proof -
  obtain f where f: "filterBits (ensureFilter pm) = Some f" "length f = bitfieldLen pm"
    "bits_of f (blocks pm) = sp_filtered (pm_abs pm)"
    using ensureFilter_filter [OF shape] .
  note upd = shape_update [OF shape]
  show ?thesis
  proof (cases "0 < len \<and> 0 < blocks pm")
    case False
    then have "touched (blockLength pm) (blocks pm) off len = {}"
      by (cases "len \<le> 0") auto
    moreover have "{..<blocks pm} = {}" if "0 < len" using False that by simp
    ultimately show ?thesis
      using op False upd(5) abs_ensureFilter [OF shape]
      by (auto simp: addFilter_def removeFilter_def addNotFilter_def Let_def pm_wf_updateCache abs_fields)
  next
    case True
    have bl: "0 < blockLength pm" using shape True by (simp add: pm_shape_def)
    have le: "blocks pm \<le> 8 * length f" using shape_lengths(4) [OF shape] f(2) by simp
    let ?E = "ensureFilter pm"
    have R: "set (block_range ?E off len) = touched (blockLength pm) (blocks pm) off len"
      using set_block_range [of ?E len off] bl True ok by simp
    note fold = pmbits.elems_fold_True [of "block_range ?E off len" "blocks pm" f]
      pmbits.elems_fold_False [of "block_range ?E off len" "blocks pm" f]
    have abs: "pm_abs (?E\<lparr>filterBits := Some g\<rparr>) = (pm_abs pm)\<lparr>sp_filter := Some (bits_of g (blocks pm))\<rparr>"
      for g by (simp add: abs_update abs_ensureFilter [OF shape])
    show ?thesis
      using op True R fold le touched_subset upd(4) f addNotFilter_bits [OF bl _ ok le]
      by (elim insertE emptyE)
         (simp_all add: addFilter_def removeFilter_def addNotFilter_def Let_def pm_wf_updateCache
            abs abs_fields cong: if_cong split del: if_split)
  qed
qed

lemma wf_blank:
  assumes "0 < n \<longrightarrow> 0 < bl \<and> bl < 2 ^ 31 \<and> bl * (int n - 1) < tot \<and> tot \<le> bl * int n \<and> tot < 2 ^ 63"
    and "blocks pm = n" "blockLength pm = bl" "totalLength pm = tot"
    and "bitfieldLen pm = n div 8 + b2i (n mod 8 \<noteq> 0)"
    and "haveBits pm = replicate (bitfieldLen pm) 0" "useBits pm = replicate (bitfieldLen pm) 0"
    and "filterBits pm = None" "\<not> filterEnabled pm"
  shows "pm_wf (updateCache pm)" and "have_set pm = {}" and "use_set pm = {}"
proof -
  have shape: "pm_shape pm" using assms unfolding pm_shape_def bytes_for by simp
  then show "pm_wf (updateCache pm)" by (rule pm_wf_updateCache)
  show "have_set pm = {}" "use_set pm = {}"
    using blocks_le_bits [OF shape] assms by (simp_all add: have_set_def use_set_def)
qed

lemma setCount_refine:
  assumes wf: "pm_wf pm" and ok: "op_ok (blockLength pm) (SetCount n)"
  shows "pm_wf (setCount pm n) \<and> pm_abs (setCount pm n) = spec_exec (SetCount n) (pm_abs pm)"
proof (cases "blocks pm = n")
  case True
  then show ?thesis using wf by (simp add: setCount_def abs_fields)
next
  case False
  have bl: "0 < blockLength pm" "blockLength pm < 2 ^ 31" and prod: "blockLength pm * int n < 2 ^ 63"
    using ok by auto
  have "- (2 ^ 63) \<le> blockLength pm * int n" using bl by (simp add: order_trans [of _ 0])
  then have w: "wrap64 (blockLength pm * int n) = blockLength pm * int n" using prod by simp
  define pm' where "pm' = pm\<lparr>blocks := n, bitfieldLen := n div 8 + b2i (n mod 8 \<noteq> 0),
    haveBits := replicate (n div 8 + b2i (n mod 8 \<noteq> 0)) 0,
    useBits := replicate (n div 8 + b2i (n mod 8 \<noteq> 0)) 0, filterBits := None, filterEnabled := False,
    totalLength := blockLength pm * int n\<rparr>"
  have eq: "setCount pm n = updateCache pm'"
    using False w by (simp add: setCount_def pm'_def Let_def)
  have "pm_wf (updateCache pm')" and "have_set pm' = {}" and "use_set pm' = {}"
    using wf_blank [of n "blockLength pm" "blockLength pm * int n" pm'] bl prod
    by (simp_all add: pm'_def algebra_simps)
  then show ?thesis
    unfolding eq using False by (simp add: abs_fields) (simp add: pm_abs_def, simp add: pm'_def)
qed

lemma newPieceMap_wf:
  assumes "bl < 2 ^ 31" and "len + bl < 2 ^ 63"
  shows "\<exists>pm. newPieceMap bl len = Some pm \<and> pm_wf pm \<and> have_set pm = {} \<and> use_set pm = {} \<and>
    blockLength pm = bl \<and> totalLength pm = len \<and> \<not> filterEnabled pm \<and> filterBits pm = None \<and>
    blocks pm = (if 0 < bl \<and> 0 < len then nat ((len + bl - 1) div bl) else 0)"
proof (cases "0 < bl \<and> 0 < len")
  case False
  then have "newPieceMap bl len = Some \<lparr>blockLength = bl, totalLength = len, blocks = 0,
      bitfieldLen = 0, haveBits = [], useBits = [], filterBits = None, filterEnabled = False,
      cachedCompletedLen = 0, cachedFilteredCompletedLen = 0, cachedFilteredTotalLen = 0,
      cachedNumMissingBlock = 0, cachedNumFilteredBlock = 0\<rparr>"
    unfolding newPieceMap_def Let_def by (simp only: if_False)
  with False show ?thesis
    by (simp add: pm_wf_def pm_shape_def updateCache_def have_set_def use_set_def bits_of_def) auto
next
  case True
  let ?n = "(len + bl - 1) div bl"
  have "0 < ?n" using True by (simp add: pos_imp_zdiv_pos_iff)
  then obtain n where n: "?n = int n" and pos: "0 < n" by (metis pos_int_cases)
  have w: "wrap64 (len + bl - 1) sdiv bl = int n" using True assms n by simp
  have "len + bl - 1 = int n * bl + (len + bl - 1) mod bl"
    unfolding n [symmetric] by simp
  moreover have "0 \<le> (len + bl - 1) mod bl" "(len + bl - 1) mod bl < bl" using True by simp_all
  ultimately have low: "bl * (int n - 1) < len" and up: "len \<le> bl * int n"
    using mult.commute [of bl "int n"] right_diff_distrib [of bl "int n" 1] by linarith+
  define pm' where "pm' = \<lparr>blockLength = bl, totalLength = len, blocks = n,
    bitfieldLen = n div 8 + b2i (n mod 8 \<noteq> 0),
    haveBits = replicate (n div 8 + b2i (n mod 8 \<noteq> 0)) 0,
    useBits = replicate (n div 8 + b2i (n mod 8 \<noteq> 0)) 0,
    filterBits = None, filterEnabled = False, cachedCompletedLen = 0,
    cachedFilteredCompletedLen = 0, cachedFilteredTotalLen = 0,
    cachedNumMissingBlock = 0, cachedNumFilteredBlock = 0\<rparr>"
  have eq: "newPieceMap bl len = Some (updateCache pm')"
    using True w by (simp add: newPieceMap_def Let_def pm'_def)
  have "pm_wf (updateCache pm')" and "have_set pm' = {}" and "use_set pm' = {}"
    using wf_blank [of n bl len pm'] True assms low up pos by (simp_all add: pm'_def)
  moreover have "nat ?n = n" using n by simp
  ultimately show ?thesis unfolding eq using True by (simp add: pm'_def)
qed

lemma pm_exec_refines:
  assumes wf: "pm_wf pm" and ok: "op_ok (blockLength pm) op"
  shows "pm_wf (pm_exec op pm) \<and> pm_abs (pm_exec op pm) = spec_exec op (pm_abs pm)"
proof (cases op)
  case (SetCount n)
  then show ?thesis using setCount_refine [OF wf] ok by simp
qed (use pm_wf_shape [OF wf] bit_ops_refine bulk_ops_refine [OF wf] filter_ops_refine ok in
      \<open>(force simp del: pm_exec.simps spec_exec.simps)+\<close>)

lemma spec_exec_bl: "sp_bl (spec_exec op s) = sp_bl s"
  by (cases op) simp_all

lemma pm_run_refines:
  assumes "pm_wf pm" and "list_all (op_ok (blockLength pm)) ops"
  shows "pm_wf (fold pm_exec ops pm) \<and> pm_abs (fold pm_exec ops pm) = fold spec_exec ops (pm_abs pm)"
  using assms
proof (induction ops arbitrary: pm)
  case Nil
  then show ?case by simp
next
  case (Cons op ops)
  have *: "pm_wf (pm_exec op pm)" "pm_abs (pm_exec op pm) = spec_exec op (pm_abs pm)"
    using pm_exec_refines [of pm op] Cons(2,3) by auto
  then have "blockLength (pm_exec op pm) = blockLength pm"
    using spec_exec_bl [of op "pm_abs pm"] abs_fields(2) by metis
  then show ?case using Cons(1) [OF *(1)] Cons(3) * by simp
qed

definition spec_init :: "int \<Rightarrow> int \<Rightarrow> pm_spec" where
  "spec_init bl len =
     \<lparr>sp_blocks = nat ((len + bl - 1) div bl), sp_bl = bl, sp_have = {}, sp_use = {},
      sp_filter = None, sp_on = False\<rparr>"

text \<open>(C6) A piece map created for a download and driven by any sequence of its operations keeps
  its invariant (slice lengths, filter not nil while enabled, caches current) and is at every
  moment the image of the specification, in which the operations act on finite sets of
  pieces: marking and unmarking pieces and ranges, reserving them, loading a bitfield,
  filtering by byte ranges, changing the piece count. Indices out of range change nothing.\<close>

theorem piece_map_refines_sets:
  assumes "0 < bl" and "bl < 2 ^ 31" and "0 < len" and "len + bl < 2 ^ 63"
    and "list_all (op_ok bl) ops"
  shows "\<exists>pm. newPieceMap bl len = Some pm \<and> pm_wf (fold pm_exec ops pm) \<and>
    pm_abs (fold pm_exec ops pm) = fold spec_exec ops (spec_init bl len)"
proof -
  obtain pm where pm: "newPieceMap bl len = Some pm" "pm_wf pm" "blockLength pm = bl"
    "pm_abs pm = spec_init bl len"
    using newPieceMap_wf [OF assms(2,4)] assms(1,3) by (auto simp: pm_abs_def spec_init_def)
  then show ?thesis using pm_run_refines [OF pm(2)] assms(5) by auto
qed

theorem piece_map_refines_sets_witness:
  "\<exists>pm. newPieceMap 4 10 = Some pm \<and>
    pm_abs (fold pm_exec [SetBit 2, SetBit 7, AddFilter 3 2, EnableFilter] pm) =
      fold spec_exec [SetBit 2, SetBit 7, AddFilter 3 2, EnableFilter] (spec_init 4 10)"
  using piece_map_refines_sets [of 4 10 "[SetBit 2, SetBit 7, AddFilter 3 2, EnableFilter]"] by auto

text \<open>(C7) The counters the status reports read are exact in every well-formed state: the number of
  missing pieces counts the wanted pieces that are not verified, and the completed, filtered and
  filtered-total lengths are the sums of the lengths of the pieces in question, the last piece
  being as short as the total length makes it.\<close>

theorem piece_map_counters:
  assumes "pm_wf pm"
  shows "cachedNumMissingBlock pm = int (card (wanted_set pm - have_set pm)) \<and>
    cachedNumFilteredBlock pm = (if filterEnabled pm then int (card (filter_set pm)) else 0) \<and>
    cachedCompletedLen pm = (\<Sum>i\<in>have_set pm. piece_len pm i) \<and>
    cachedFilteredCompletedLen pm = (\<Sum>i\<in>have_set pm \<inter> wanted_set pm. piece_len pm i) \<and>
    cachedFilteredTotalLen pm = (\<Sum>i\<in>filter_set pm. piece_len pm i)"
  using assms by (rule cached_values)

theorem piece_map_counters_witness:
  "\<exists>pm. newPieceMap 4 10 = Some pm \<and> cachedNumMissingBlock pm = int (card (wanted_set pm - have_set pm)) \<and>
    cachedCompletedLen pm = 0"
proof -
  obtain pm where pm: "newPieceMap 4 10 = Some pm" "pm_wf pm" "have_set pm = {}"
    using newPieceMap_wf [of 4 10] by auto
  then show ?thesis using piece_map_counters [OF pm(2)] by simp
qed

end
