(* ===== verification/PieceQuery.thy ===== *)
theory PieceQuery
  imports PieceMap
begin

unbundle bit_operations_syntax

text \<open>
  What the queries of the piece map return, in terms of the sets of verified, reserved and
  wanted pieces: the number of verified bytes in a byte range, the first missing pieces, the
  pieces a peer can supply, completion. Definitions are in \<open>PieceMap\<close>.
\<close>

section \<open>Bytes of verified pieces\<close>

lemma div_eq_iff_interval:
  fixes x i B :: nat
  assumes B: "0 < B"
  shows "x div B = i \<longleftrightarrow> i * B \<le> x \<and> x < (i + 1) * B"
proof
  assume "x div B = i"
  then show "i * B \<le> x \<and> x < (i + 1) * B"
    using dividend_less_div_times [OF B, of x] div_times_less_eq_dividend [of x B] by simp
next
  assume "i * B \<le> x \<and> x < (i + 1) * B"
  then show "x div B = i" by (intro div_nat_eqI) (simp_all add: mult.commute)
qed

lemma card_bytes_in_pieces:
  fixes a b B :: nat
  assumes B: "0 < B" and ab: "a < b"
  shows "card {x. a \<le> x \<and> x < b \<and> x div B \<in> H} =
    (\<Sum>i = a div B..(b - 1) div B. if i \<in> H then min b ((i + 1) * B) - max a (i * B) else 0)"
proof -
  define J where "J = (\<lambda>i. {max a (i * B)..<min b ((i + 1) * B)})"
  let ?I = "{a div B..(b - 1) div B}"
  have J: "x \<in> J i \<longleftrightarrow> a \<le> x \<and> x < b \<and> x div B = i" for x i
    unfolding div_eq_iff_interval [OF B] J_def
    by (simp only: atLeastLessThan_iff max.bounded_iff min_less_iff_conj) blast
  have I: "x div B \<in> ?I" if "a \<le> x" "x < b" for x
    using that div_le_mono [of a x B] div_le_mono [of x "b - 1" B] by simp
  have "{x. a \<le> x \<and> x < b \<and> x div B \<in> H} = (\<Union>i\<in>?I \<inter> H. J i)"
    using I by (auto simp: J simp del: atLeastAtMost_iff)
  moreover have "card (\<Union>i\<in>?I \<inter> H. J i) = (\<Sum>i\<in>?I \<inter> H. card (J i))"
  proof (rule card_UN_disjoint)
    show "\<forall>i\<in>?I \<inter> H. finite (J i)" by (simp add: J_def)
    show "\<forall>i\<in>?I \<inter> H. \<forall>j\<in>?I \<inter> H. i \<noteq> j \<longrightarrow> J i \<inter> J j = {}"
      by (auto simp: J)
  qed simp
  moreover have "(\<Sum>i\<in>?I \<inter> H. card (J i)) = (\<Sum>i\<in>?I. if i \<in> H then card (J i) else 0)"
    by (simp add: sum.inter_restrict)
  ultimately show ?thesis by (simp only: J_def card_atLeastLessThan)
qed

lemma piece_overlap:
  fixes a b B :: nat
  assumes B: "0 < B" and ab: "a < b" and less: "a div B < (b - 1) div B"
  shows "min b ((a div B + 1) * B) - max a (a div B * B) = (a div B + 1) * B - a"
    and "a div B < i \<Longrightarrow> i < (b - 1) div B \<Longrightarrow> min b ((i + 1) * B) - max a (i * B) = B"
    and "min b (((b - 1) div B + 1) * B) - max a ((b - 1) div B * B) = b - (b - 1) div B * B"
proof -
  have hi: "j \<le> (b - 1) div B \<Longrightarrow> j * B < b" for j
    using ab less_eq_div_iff_mult_less_eq [OF B, of j "b - 1"] by linarith
  have lo: "a div B < j \<Longrightarrow> a < j * B" for j
    using div_less_iff_less_mult [OF B, of a j] by blast
  have lo': "a div B * B \<le> a" by (rule div_times_less_eq_dividend)
  have last: "b \<le> ((b - 1) div B + 1) * B"
    using dividend_less_div_times [OF B, of "b - 1"] ab by (simp add: algebra_simps)
  show "min b ((a div B + 1) * B) - max a (a div B * B) = (a div B + 1) * B - a"
    using hi [of "a div B + 1"] less lo' by (simp add: max_absorb1 min_absorb2)
  show "min b ((i + 1) * B) - max a (i * B) = B" if "a div B < i" "i < (b - 1) div B"
    using hi [of "i + 1"] lo [OF that(1)] that by (simp add: max_absorb2 min_absorb2)
  show "min b (((b - 1) div B + 1) * B) - max a ((b - 1) div B * B) = b - (b - 1) div B * B"
    using lo [OF less] last by (simp add: max_absorb2 min_absorb1)
qed

lemma sum_split_ends:
  fixes g :: "nat \<Rightarrow> nat"
  assumes "s < e"
  shows "(\<Sum>i = s..e. g i) = g s + sum_list (map g [s + 1..<e]) + g e"
proof -
  have "{s..e} = insert s (insert e {s + 1..<e})" using assms by auto
  then show ?thesis using assms by (simp add: sum_list_distinct_conv_sum_set)
qed

lemma card_bytes_ends:
  fixes a b B :: nat
  assumes B: "0 < B" and ab: "a < b" and s: "s = a div B" and e: "e = (b - 1) div B"
  shows "int (card {x. a \<le> x \<and> x < b \<and> x div B \<in> H}) =
    (if s = e then if s \<in> H then int b - int a else 0
     else (if s \<in> H then (int s + 1) * int B - int a else 0)
        + sum_list (map (\<lambda>i. if i \<in> H then int B else 0) [s + 1..<e])
        + (if e \<in> H then int b - int e * int B else 0))"
proof (cases "s = e")
  case True
  have "s * B \<le> a" unfolding s by (rule div_times_less_eq_dividend)
  moreover have "b \<le> (s + 1) * B"
    using dividend_less_div_times [OF B, of "b - 1"] ab True by (simp add: e algebra_simps)
  ultimately show ?thesis
    unfolding card_bytes_in_pieces [OF B ab] s [symmetric] e [symmetric] True
    using ab True by (simp add: max_absorb1 min_absorb1)
next
  case False
  then have less: "s < e" unfolding s e using ab div_le_mono [of a "b - 1" B] by linarith
  note ov = piece_overlap [OF B ab, folded s e, OF less]
  have s1: "a \<le> (s + 1) * B"
    using dividend_less_div_times [OF B, of a] unfolding s distrib_right by linarith
  have e1: "e * B \<le> b" using div_times_less_eq_dividend [of "b - 1" B] unfolding e by linarith
  have mid: "map (\<lambda>i. if i \<in> H then min b ((i + 1) * B) - max a (i * B) else 0) [s + 1..<e]
      = map (\<lambda>i. if i \<in> H then B else 0) [s + 1..<e]"
    using ov(2) by (intro map_cong) auto
  have cast: "int (sum_list (map (\<lambda>i. if i \<in> H then B else 0) xs)) =
      sum_list (map (\<lambda>i. if i \<in> H then int B else 0) xs)" for xs
    by (induction xs) auto
  have "card {x. a \<le> x \<and> x < b \<and> x div B \<in> H} = (if s \<in> H then (s + 1) * B - a else 0)
      + sum_list (map (\<lambda>i. if i \<in> H then B else 0) [s + 1..<e]) + (if e \<in> H then b - e * B else 0)"
    unfolding card_bytes_in_pieces [OF B ab] s [symmetric] e [symmetric] sum_split_ends [OF less] mid ov(1,3)
    by (rule refl)
  moreover have "int ((s + 1) * B - a) = (int s + 1) * int B - int a"
    by (simp only: of_nat_diff [OF s1] of_nat_mult of_nat_add of_nat_1)
  moreover have "int (b - e * B) = int b - int e * int B" using e1 by (simp add: of_nat_diff)
  ultimately show ?thesis using False cast by simp
qed

lemma getOffsetCompletedLength_bytes:
  assumes shape: "pm_shape pm" and blk: "0 < blocks pm"
    and len: "0 < len" and off: "int off < totalLength pm" and ok: "int off + len < 2 ^ 63"
  shows "getOffsetCompletedLength pm off len =
    int (card {x. off \<le> x \<and> int x < min (int off + len) (totalLength pm) \<and>
                  x div nat (blockLength pm) \<in> have_set pm})"
proof -
  obtain B where B: "0 < B" "blockLength pm = int B"
    using shape blk by (auto simp: pm_shape_def intro: that [of "nat (blockLength pm)"])
  define b where "b = nat (min (int off + len) (totalLength pm))"
  have b: "int b = min (int off + len) (totalLength pm)" "off < b"
    using len off by (simp_all add: b_def)
  define s where "s = off div B"
  define e where "e = (b - 1) div B"
  have "totalLength pm \<le> int (B * blocks pm)" using shape blk B by (simp add: pm_shape_def)
  then have "int (b - 1) < int (B * blocks pm)" using b by linarith
  then have "b - 1 < blocks pm * B" by (simp only: of_nat_less_iff mult.commute)
  then have e: "e < blocks pm" unfolding e_def using B by (simp add: div_less_iff_less_mult)
  have "s \<le> e" unfolding s_def e_def using b by (intro div_le_mono) simp
  with e have hv: "i \<le> e \<Longrightarrow> testBit (haveBits pm) i \<longleftrightarrow> i \<in> have_set pm" for i
    by (simp add: have_set_def bits_of_def)
  have "wrap64 (int off + len) = int off + len" using ok len by simp
  then have len': "(if totalLength pm < wrap64 (int off + len) then totalLength pm - int off else len) =
      int b - int off"
    using b by (simp add: min_def)
  have st: "nat (int off sdiv blockLength pm) = s"
    using B by (simp add: s_def zdiv_int [symmetric])
  have "int off + (int b - int off) - 1 = int (b - 1)" using b by simp
  moreover have "int (b - 1) < 2 ^ 63" using b ok by linarith
  then have "wrap64 (int (b - 1)) = int (b - 1)" by (intro wrap64_id) auto
  moreover have "nat (int c sdiv int B) = c div B" for c
    using B(1) by (simp add: zdiv_int [symmetric])
  ultimately have en: "nat (wrap64 (int off + (int b - int off) - 1) sdiv blockLength pm) = e"
    by (simp only: B(2) e_def)
  have mid: "map (\<lambda>i. if testBit (haveBits pm) i then int B else 0) [s + 1..<e]
      = map (\<lambda>i. if i \<in> have_set pm then int B else 0) [s + 1..<e]"
    using hv by (intro map_cong) auto
  have "getOffsetCompletedLength pm off len =
     (if s = e then if testBit (haveBits pm) s then int b - int off else 0
      else (if testBit (haveBits pm) s then (int s + 1) * int B - int off else 0)
         + sum_list (map (\<lambda>i. if testBit (haveBits pm) i then int B else 0) [s + 1..<e])
         + (if testBit (haveBits pm) e then int off + (int b - int off) - int e * int B else 0))"
    unfolding getOffsetCompletedLength_def Let_def len' st en
    using len off B by (simp cong: if_cong)
  also have "\<dots> = int (card {x. off \<le> x \<and> x < b \<and> x div B \<in> have_set pm})"
    unfolding card_bytes_ends [OF B(1) b(2) s_def e_def] mid hv [OF \<open>s \<le> e\<close>] hv [OF order_refl]
    by simp
  finally show ?thesis by (simp add: b(1) [symmetric] B)
qed

section \<open>Queries, on the abstract sets\<close>

lemma filter_bits_shape:
  assumes "pm_shape pm" and "filterEnabled pm"
  obtains f where "filterBits pm = Some f" and "length f = bitfieldLen pm"
    and "wanted_set pm = bits_of f (blocks pm)" and "active_filter pm = Some f"
  using assms by (auto simp: pm_shape_def wanted_set_def filter_set_def active_filter_def split: option.splits)

lemma find_first_iff:
  "find P [0..<n] = (if \<exists>i<n. P i then Some (LEAST i. i < n \<and> P i) else None)"
proof (cases "\<exists>i<n. P i")
  case True
  define m where "m = (LEAST i. i < n \<and> P i)"
  have "m < n \<and> P m" unfolding m_def using True by (metis (mono_tags, lifting) LeastI_ex)
  moreover have "\<forall>j<m. \<not> P j" using not_less_Least [of _ "\<lambda>i. i < n \<and> P i"] calculation
    unfolding m_def by (metis order_less_trans)
  ultimately have "find P [0..<n] = Some m" by (auto simp: find_Some_iff)
  with True show ?thesis by (simp add: m_def)
next
  case False
  then show ?thesis by (auto simp: find_None_iff)
qed

lemma getFirstMissingIndex_bits:
  assumes shape: "pm_shape pm"
  shows "getFirstMissingIndex pm = find (\<lambda>i. i \<in> wanted_set pm - have_set pm) [0..<blocks pm]"
proof -
  note len = shape_lengths [OF shape]
  show ?thesis
  proof (cases "filterEnabled pm")
    case True
    obtain f where f: "filterBits pm = Some f" "length f = bitfieldLen pm"
      "wanted_set pm = bits_of f (blocks pm)" using filter_bits_shape [OF shape True] by metis
    have "find (testBit (bf_andNot f [haveBits pm])) [0..<blocks pm] =
        find (\<lambda>i. i \<in> wanted_set pm - have_set pm) [0..<blocks pm]"
      using f len by (intro find_cong) (auto simp: testBit_bf_andNot have_set_def bits_of_def)
    with True f show ?thesis by (simp add: getFirstMissingIndex_def getFirstSetBitIndex_def)
  next
    case False
    have "find (testBit (bf_not (haveBits pm))) [0..<blocks pm] =
        find (\<lambda>i. i \<in> wanted_set pm - have_set pm) [0..<blocks pm]"
      using False len by (intro find_cong) (auto simp: testBit_bf_not have_set_def bits_of_def wanted_set_def)
    with False show ?thesis by (simp add: getFirstMissingIndex_def getFirstSetBitIndex_def)
  qed
qed

lemma testBit_missing_unused:
  assumes shape: "pm_shape pm" and i: "i < blocks pm"
  shows "testBit (missing_unused_buf pm) i \<longleftrightarrow> i \<in> wanted_set pm - have_set pm - use_set pm"
proof -
  have k: "i div 8 < bitfieldLen pm" using i shape_lengths(4) [OF shape] by (intro div_8_less) linarith
  show ?thesis
  proof (cases "filterEnabled pm")
    case True
    obtain f where f: "filterBits pm = Some f" "wanted_set pm = bits_of f (blocks pm)"
      using filter_bits_shape [OF shape True] by metis
    show ?thesis using True f i k
      by (auto simp: missing_unused_buf_def testBit_bit have_set_def use_set_def bits_of_def
          bit_and_iff bit_or_iff bit_not_iff)
  next
    case False
    then show ?thesis using i k
      by (auto simp: missing_unused_buf_def testBit_bit have_set_def use_set_def bits_of_def
          wanted_set_def bit_and_iff bit_or_iff bit_not_iff)
  qed
qed

lemma getFirstMissingUnusedIndex_bits:
  assumes "pm_shape pm"
  shows "getFirstMissingUnusedIndex pm =
    find (\<lambda>i. i \<in> wanted_set pm - have_set pm - use_set pm) [0..<blocks pm]"
  unfolding getFirstMissingUnusedIndex_def getFirstSetBitIndex_def
  by (intro find_cong) (use testBit_missing_unused [OF assms] in auto)

lemma getFirstNMissingUnusedIndex_bits:
  assumes "pm_shape pm"
  shows "getFirstNMissingUnusedIndex pm n =
    take n (filter (\<lambda>i. i \<in> wanted_set pm - have_set pm - use_set pm) [0..<blocks pm])"
  unfolding getFirstNMissingUnusedIndex_def getFirstNSetBitIndex_take
  by (intro arg_cong [of _ _ "take n"] filter_cong) (use testBit_missing_unused [OF assms] in auto)

lemma getAllMissingIndexes_bits:
  assumes shape: "pm_shape pm" and peer: "length peer = bitfieldLen pm"
  shows "\<exists>d. getAllMissingIndexes pm peer = Some d \<and> length d = bitfieldLen pm \<and>
    (\<forall>i<8 * bitfieldLen pm. testBit d i \<longleftrightarrow> i \<in> wanted_set pm - have_set pm \<and> testBit peer i)"
proof (cases "filterEnabled pm")
  case True
  obtain f where f: "active_filter pm = Some f" "length f = bitfieldLen pm"
    "wanted_set pm = bits_of f (blocks pm)" using filter_bits_shape [OF shape True] by metis
  show ?thesis
    using f peer shape_lengths [OF shape] shape
    by (auto simp: getAllMissingIndexes_def Let_def testBit_copyWithLastByteMask testBit_bf_and
        testBit_bf_not have_set_def bits_of_def pm_shape_def)
next
  case False
  then have "active_filter pm = None" by (simp add: active_filter_def)
  then show ?thesis
    using False peer shape_lengths [OF shape] shape
    by (auto simp: getAllMissingIndexes_def Let_def testBit_copyWithLastByteMask testBit_bf_and
        testBit_bf_not have_set_def bits_of_def pm_shape_def wanted_set_def)
qed

text \<open>Spare bits of the last byte. \<open>hasMissingPiece\<close> and \<open>isAllBitSet\<close> compare whole bytes
  without masking, so they agree with the piece sets when the spare bits are clear.\<close>

definition no_spare :: "byte list \<Rightarrow> nat \<Rightarrow> bool" where
  "no_spare b n \<longleftrightarrow> (\<forall>i<8 * length b. n \<le> i \<longrightarrow> \<not> testBit b i)"

lemma hasMissingPiece_bits:
  assumes shape: "pm_shape pm" and peer: "length peer = bitfieldLen pm"
  shows "hasMissingPiece pm peer \<longleftrightarrow>
    (\<exists>i<8 * bitfieldLen pm. testBit peer i \<and> \<not> testBit (haveBits pm) i \<and>
       (\<forall>f. active_filter pm = Some f \<longrightarrow> testBit f i))"
proof -
  define g where "g = (\<lambda>k. let temp = (peer ! k) AND NOT (haveBits pm ! k)
    in case active_filter pm of Some f \<Rightarrow> temp AND (f ! k) | None \<Rightarrow> temp)"
  define d where "d = map g [0..<bitfieldLen pm]"
  have "hasMissingPiece pm peer \<longleftrightarrow> list_ex (\<lambda>k. g k \<noteq> 0) [0..<bitfieldLen pm]"
    using peer by (simp add: hasMissingPiece_def g_def Let_def)
  also have "\<dots> \<longleftrightarrow> (\<exists>k<length d. d ! k \<noteq> 0)"
    by (auto simp: d_def list_ex_iff)
  also have "\<dots> \<longleftrightarrow> (\<exists>i<8 * bitfieldLen pm. testBit d i)"
    using all_bytes_zero_iff [of d] by (auto simp: d_def)
  also have "\<dots> \<longleftrightarrow> (\<exists>i<8 * bitfieldLen pm. testBit peer i \<and> \<not> testBit (haveBits pm) i \<and>
       (\<forall>f. active_filter pm = Some f \<longrightarrow> testBit f i))"
  proof -
    have "testBit d i \<longleftrightarrow> testBit peer i \<and> \<not> testBit (haveBits pm) i \<and>
       (\<forall>f. active_filter pm = Some f \<longrightarrow> testBit f i)" if "i < 8 * bitfieldLen pm" for i
      using div_8_less [OF that]
      by (auto simp: d_def g_def Let_def testBit_bit bit_and_iff bit_not_iff split: option.splits)
    then show ?thesis by blast
  qed
  finally show ?thesis .
qed

lemma hasMissingPiece_sets:
  assumes shape: "pm_shape pm" and peer: "length peer = bitfieldLen pm"
    and spare: "no_spare peer (blocks pm)"
  shows "hasMissingPiece pm peer \<longleftrightarrow> (\<exists>i\<in>wanted_set pm - have_set pm. testBit peer i)"
proof -
  have "testBit peer i \<Longrightarrow> i < 8 * bitfieldLen pm \<Longrightarrow> i < blocks pm" for i
    using spare peer by (auto simp: no_spare_def not_le [symmetric])
  moreover have "(\<forall>f. active_filter pm = Some f \<longrightarrow> testBit f i) \<longleftrightarrow> i \<in> wanted_set pm"
    if "i < blocks pm" for i
    using that active_filter_set [OF shape] by (cases "active_filter pm") (auto simp: bits_of_def)
  moreover have "i \<in> have_set pm \<longleftrightarrow> testBit (haveBits pm) i" if "i < blocks pm" for i
    using that by (simp add: have_set_def bits_of_def)
  moreover have "i < 8 * bitfieldLen pm" if "i \<in> wanted_set pm" for i
    using that sets_bounded(4) [of pm] shape_lengths(4) [OF shape] by force
  ultimately show ?thesis unfolding hasMissingPiece_bits [OF shape peer]
    by (smt (verit) DiffD1 DiffD2 DiffI)
qed

lemma byte_mask_eq_iff:
  "0 < n \<Longrightarrow> x = lastByteMask n \<longleftrightarrow> (\<forall>j<8. bit x (7 - j) \<longleftrightarrow> n mod 8 = 0 \<or> 8 - n mod 8 \<le> 7 - j)"
proof
  assume n: "0 < n" and *: "\<forall>j<8. bit x (7 - j) \<longleftrightarrow> n mod 8 = 0 \<or> 8 - n mod 8 \<le> 7 - j"
  show "x = lastByteMask n"
  proof (rule bit_eqI)
    fix m assume "possible_bit TYPE(byte) m"
    then have "m < 8" by (simp add: possible_bit_def)
    then have "7 - (7 - m) = m" by simp
    then show "bit x m = bit (lastByteMask n) m"
      using * [rule_format, of "7 - m"] bit_lastByteMask [OF \<open>m < 8\<close> n] by simp
  qed
qed (simp add: bit_lastByteMask)

lemma byte_full_iff: "(x :: byte) = 0xff \<longleftrightarrow> (\<forall>j<8. bit x (7 - j))"
  using byte_mask_eq_iff [of 8 x] by (simp add: lastByteMask_def)

lemma testAllBitSet_iff:
  assumes "length b = (n + 7) div 8"
  shows "testAllBitSet b (length b) n \<longleftrightarrow> (\<forall>i<8 * length b. testBit b i \<longleftrightarrow> i < n)"
proof (cases "n = 0")
  case True
  then show ?thesis using assms by (simp add: testAllBitSet_def)
next
  case False
  then have n: "0 < n" by simp
  obtain k s where ks: "(n + 7) div 8 = Suc k" "n = 8 * k + s" "0 < s" "s \<le> 8"
    using last_byte_split [OF n] by blast
  have all: "(\<forall>i<8 * length b. P i) \<longleftrightarrow> (\<forall>m<length b. \<forall>j<8. P (8 * m + j))" for P
  proof (intro iffI allI impI)
    fix i assume "\<forall>m<length b. \<forall>j<8. P (8 * m + j)" and "i < 8 * length b"
    then show "P i" using div_8_less [of i] by (metis mod_less_divisor mult_div_mod_eq zero_less_numeral)
  qed auto
  have full: "(\<forall>j<8. testBit b (8 * m + j) \<longleftrightarrow> 8 * m + j < n) \<longleftrightarrow> b ! m = 0xff" if "m < k" for m
    using that ks by (simp add: byte_full_iff testBit_byte)
  have "8 * k + j < n \<longleftrightarrow> n mod 8 = 0 \<or> 8 - n mod 8 \<le> 7 - j" if "j < 8" for j
    using that ks by (cases "s = 8") auto
  then have last: "(\<forall>j<8. testBit b (8 * k + j) \<longleftrightarrow> 8 * k + j < n) \<longleftrightarrow> b ! k = lastByteMask n"
    using byte_mask_eq_iff [OF n, of "b ! k"] by (simp add: testBit_byte)
  have "testAllBitSet b (length b) n \<longleftrightarrow> (\<forall>m<k. b ! m = 0xff) \<and> b ! k = lastByteMask n"
    using assms ks by (simp add: testAllBitSet_def)
  also have "\<dots> \<longleftrightarrow> (\<forall>m<Suc k. \<forall>j<8. testBit b (8 * m + j) \<longleftrightarrow> 8 * m + j < n)"
    using full last by (auto simp: less_Suc_eq)
  finally have "testAllBitSet b (length b) n \<longleftrightarrow>
      (\<forall>m<length b. \<forall>j<8. testBit b (8 * m + j) \<longleftrightarrow> 8 * m + j < n)"
    unfolding assms ks(1) .
  then show ?thesis unfolding all .
qed

lemma isAllBitSet_sets:
  assumes shape: "pm_shape pm"
  shows "isAllBitSet pm \<longleftrightarrow> have_set pm = {..<blocks pm} \<and> no_spare (haveBits pm) (blocks pm)"
proof -
  have "isAllBitSet pm \<longleftrightarrow> (\<forall>i<8 * bitfieldLen pm. testBit (haveBits pm) i \<longleftrightarrow> i < blocks pm)"
    using testAllBitSet_iff [of "haveBits pm" "blocks pm"] shape by (simp add: isAllBitSet_def pm_shape_def)
  also have "\<dots> \<longleftrightarrow> have_set pm = {..<blocks pm} \<and> no_spare (haveBits pm) (blocks pm)"
    using shape_lengths [OF shape]
    by (auto simp: have_set_def bits_of_def no_spare_def set_eq_iff)
  finally show ?thesis .
qed

text \<open>The completed length of a byte range (the progress of one file of a multi-file download)
  is the number of bytes of the range, cut at the end of the data, that lie in verified
  pieces.\<close>

lemma offset_completed_length:
  assumes "pm_wf pm" and "0 < blocks pm" and "0 < len" and "int off < totalLength pm"
    and "int off + len < 2 ^ 63"
  shows "getOffsetCompletedLength pm off len =
    int (card {x. off \<le> x \<and> int x < min (int off + len) (totalLength pm) \<and>
                  x div nat (blockLength pm) \<in> have_set pm})"
  using getOffsetCompletedLength_bytes [OF pm_wf_shape [OF assms(1)] assms(2-5)] .

theorem offset_completed_length_witness:
  "\<exists>pm. newPieceMap 4 10 = Some pm \<and> getOffsetCompletedLength (pm_exec (SetBit 1) pm) 2 5 = 3"
proof -
  obtain pm where pm: "newPieceMap 4 10 = Some pm" "pm_wf pm" "blocks pm = 3" "totalLength pm = 10"
    "have_set pm = {}" "blockLength pm = 4"
    using newPieceMap_wf [of 4 10] by auto
  let ?pm = "pm_exec (SetBit 1) pm"
  have wf: "pm_wf ?pm" and abs: "pm_abs ?pm = spec_exec (SetBit 1) (pm_abs pm)"
    using pm_exec_refines [OF pm(2), of "SetBit 1"] by auto
  have "have_set ?pm = int_range 3 1 1" and "blocks ?pm = 3"
    using arg_cong [OF abs, of sp_have] arg_cong [OF abs, of sp_blocks] pm(3,5)
    by (simp_all add: pm_abs_def del: pm_exec.simps)
  moreover have "int_range 3 1 1 = {1}" by (auto simp: int_range_def)
  moreover have "blockLength ?pm = 4" "totalLength ?pm = 10"
    using pm(4,6) by (simp_all add: setBit_def split_beta Let_def)
  moreover have "{x. 2 \<le> x \<and> int x < 7 \<and> x div 4 = 1} = {4::nat, 5, 6}" by auto
  ultimately show ?thesis
    using offset_completed_length [OF wf, of 5 2] pm(1) by (simp del: pm_exec.simps)
qed

text \<open>Completion: all pieces count as verified exactly when every piece is and no spare bit of
  the last byte is set.\<close>

lemma all_bits_set_iff_complete:
  assumes "pm_wf pm"
  shows "isAllBitSet pm \<longleftrightarrow> have_set pm = {..<blocks pm} \<and> no_spare (haveBits pm) (blocks pm)"
  using isAllBitSet_sets [OF pm_wf_shape [OF assms]] .

theorem all_bits_set_iff_complete_witness:
  "\<exists>pm. newPieceMap 4 10 = Some pm \<and>
    (isAllBitSet pm \<longleftrightarrow> have_set pm = {..<blocks pm} \<and> no_spare (haveBits pm) (blocks pm))"
proof -
  obtain pm where pm: "newPieceMap 4 10 = Some pm" "pm_wf pm"
    using newPieceMap_wf [of 4 10] by auto
  then show ?thesis using all_bits_set_iff_complete [OF pm(2)] by simp
qed

end
