(* ===== verification/PieceSelect.thy ===== *)
theory PieceSelect
  imports PieceQuery
begin

unbundle bit_operations_syntax

text \<open>
  The piece selectors of \<open>src/internal/disk/piece_map.go\<close>: \<open>combinedMissing\<close> builds
  the mask of unavailable pieces, \<open>sparseSelect\<close> takes the longest run of candidates (from
  its middle when the piece before it is being fetched), \<open>inorderSelect\<close> the first candidate
  that continues verified data or opens a run of the minimum split size. Both only return
  candidates, and they return one whenever one exists and the minimum split size is at most
  a piece. The loops are recursive functions with their termination proofs. The geometric
  selector computes its windows in floating point and is not modelled.
\<close>

section \<open>Piece selection\<close>

definition combinedMissing :: "pieceMap \<Rightarrow> byte list \<Rightarrow> byte list" where
  "combinedMissing pm ignoreBitfield =
     map (\<lambda>i. let v = (haveBits pm ! i) OR (useBits pm ! i);
                  v = (if i < length ignoreBitfield then v OR (ignoreBitfield ! i) else v)
              in case active_filter pm of Some f \<Rightarrow> v OR NOT (f ! i) | None \<Rightarrow> v)
       [0..<bitfieldLen pm]"

text \<open>The two inner scanning loops of \<open>sparseSelect\<close>.\<close>

function skip_set :: "byte list \<Rightarrow> nat \<Rightarrow> nat \<Rightarrow> nat" where
  "skip_set c n i = (if i < n \<and> testBit c i then skip_set c n (Suc i) else i)"
  by pat_completeness auto
termination by (relation "measure (\<lambda>(c, n, i). n - i)") auto

function skip_clear :: "byte list \<Rightarrow> nat \<Rightarrow> nat \<Rightarrow> nat" where
  "skip_clear c n i = (if i < n \<and> \<not> testBit c i then skip_clear c n (Suc i) else i)"
  by pat_completeness auto
termination by (relation "measure (\<lambda>(c, n, i). n - i)") auto

declare skip_set.simps [simp del] skip_clear.simps [simp del]

lemma skip_set_spec:
  "i \<le> n \<Longrightarrow> i \<le> skip_set c n i \<and> skip_set c n i \<le> n \<and>
     (skip_set c n i < n \<longrightarrow> \<not> testBit c (skip_set c n i)) \<and>
     (\<forall>k. i \<le> k \<and> k < skip_set c n i \<longrightarrow> testBit c k)"
proof (induction c n i rule: skip_set.induct)
  case (1 c n i)
  show ?case
  proof (cases "i < n \<and> testBit c i")
    case True
    then have "skip_set c n i = skip_set c n (Suc i)" by (simp add: skip_set.simps)
    moreover have "i \<le> k \<Longrightarrow> k = i \<or> Suc i \<le> k" for k by linarith
    ultimately show ?thesis using 1(1) [OF True] True by (metis Suc_leD Suc_leI)
  next
    case False
    then have "skip_set c n i = i" by (simp add: skip_set.simps)
    with False 1(2) show ?thesis by auto
  qed
qed

lemma skip_clear_spec:
  "i \<le> n \<Longrightarrow> i \<le> skip_clear c n i \<and> skip_clear c n i \<le> n \<and>
     (skip_clear c n i < n \<longrightarrow> testBit c (skip_clear c n i)) \<and>
     (\<forall>k. i \<le> k \<and> k < skip_clear c n i \<longrightarrow> \<not> testBit c k)"
proof (induction c n i rule: skip_clear.induct)
  case (1 c n i)
  show ?case
  proof (cases "i < n \<and> \<not> testBit c i")
    case True
    then have "skip_clear c n i = skip_clear c n (Suc i)" by (simp add: skip_clear.simps)
    moreover have "i \<le> k \<Longrightarrow> k = i \<or> Suc i \<le> k" for k by linarith
    ultimately show ?thesis using 1(1) [OF True] True by (metis Suc_leD Suc_leI)
  next
    case False
    then have "skip_clear c n i = i" by (simp add: skip_clear.simps)
    with False 1(2) show ?thesis by auto
  qed
qed

lemma skip_clear_gt: "i < n \<Longrightarrow> \<not> testBit c i \<Longrightarrow> i < skip_clear c n i"
  using skip_clear_spec [of "Suc i" n c] by (subst skip_clear.simps) simp

type_synonym span = "nat \<times> nat"

definition adjust_span :: "byte list \<Rightarrow> nat \<Rightarrow> nat \<Rightarrow> span" where
  "adjust_span ub start end =
     (if 0 < start \<and> testBit ub (start - 1) then ((end - start) div 2 + start, end)
      else (start, end))"

definition better_span :: "byte list \<Rightarrow> byte list \<Rightarrow> span \<Rightarrow> span \<Rightarrow> span" where
  "better_span combined ub best cur =
     (if snd best - fst best < snd cur - fst cur then cur
      else if snd best - fst best = snd cur - fst cur \<and> 0 < fst best \<and> 0 < fst cur \<and>
        (\<not> testBit combined (fst best - 1) \<or> testBit ub (fst best - 1)) \<and>
        testBit combined (fst cur - 1) \<and> \<not> testBit ub (fst cur - 1)
      then cur else best)"

function sparse_loop :: "byte list \<Rightarrow> byte list \<Rightarrow> nat \<Rightarrow> nat \<Rightarrow> span \<Rightarrow> span" where
  "sparse_loop combined ub n nextIdx best =
     (if nextIdx < n then
        let start = skip_set combined n nextIdx in
        if start = n then best
        else let end = skip_clear combined n start
             in sparse_loop combined ub n end
                  (better_span combined ub best (adjust_span ub start end))
      else best)"
  by pat_completeness auto
termination
proof (relation "measure (\<lambda>(c, u, n, i, b). n - i)", goal_cases)
  case (2 c u n i b s e)
  then have "i \<le> s" "s < n" "\<not> testBit c s"
    using skip_set_spec [of i n c] by auto
  then have "s < e" using skip_clear_gt [of s n c] 2 by simp
  with \<open>i \<le> s\<close> 2 show ?case by simp
qed simp

declare sparse_loop.simps [simp del]

definition sparseSelect :: "byte list \<Rightarrow> byte list \<Rightarrow> nat \<Rightarrow> int \<Rightarrow> int \<Rightarrow> nat option" where
  "sparseSelect combined ub n bl minSplitSize =
     (let best = sparse_loop combined ub n 0 (0, 0) in
      if 0 < snd best - fst best then
        if fst best = 0 then Some 0
        else if (\<not> testBit ub (fst best - 1) \<and> testBit combined (fst best - 1)) \<or>
                minSplitSize \<le> int (snd best - fst best) * bl
        then Some (fst best)
        else None
      else None)"

definition getSparseMissingUnusedIndex :: "pieceMap \<Rightarrow> int \<Rightarrow> byte list \<Rightarrow> nat option" where
  "getSparseMissingUnusedIndex pm minSplitSize ignoreBitfield =
     sparseSelect (combinedMissing pm ignoreBitfield) (useBits pm) (blocks pm) (blockLength pm)
       minSplitSize"

text \<open>\<open>inorderSelect\<close>: the inner loop gives back the index to return, or where it stopped.\<close>

function split_run :: "byte list \<Rightarrow> byte list \<Rightarrow> nat \<Rightarrow> int \<Rightarrow> int \<Rightarrow> nat \<Rightarrow> nat \<Rightarrow> nat + nat" where
  "split_run combined ub n bl minSplitSize i j =
     (if j < n then
        if testBit combined j \<or> testBit ub j then Inl j
        else if minSplitSize \<le> (int j - int i + 1) * bl then Inr j
        else split_run combined ub n bl minSplitSize i (Suc j)
      else Inl j)"
  by pat_completeness auto
termination by (relation "measure (\<lambda>(c, u, n, bl, m, i, j). n - j)") auto

declare split_run.simps [simp del]

lemma split_run_Inl_ge: "split_run c u n bl m i j = Inl k \<Longrightarrow> j \<le> k"
proof (induction c u n bl m i j rule: split_run.induct)
  case (1 c u n bl m i j)
  then show ?case by (subst (asm) split_run.simps) (auto split: if_splits)
qed

function inorder_loop ::
  "byte list \<Rightarrow> byte list \<Rightarrow> nat \<Rightarrow> int \<Rightarrow> int \<Rightarrow> nat \<Rightarrow> nat \<Rightarrow> nat option" where
  "inorder_loop combined ub n bl minSplitSize endIndex i =
     (if i < endIndex then
        if testBit combined i \<or> testBit ub i
        then inorder_loop combined ub n bl minSplitSize endIndex (Suc i)
        else if \<not> testBit ub (i - 1) \<and> testBit combined (i - 1) then Some i
        else (case split_run combined ub n bl minSplitSize i i of
                Inr j \<Rightarrow> Some j
              | Inl j \<Rightarrow> inorder_loop combined ub n bl minSplitSize endIndex (Suc j))
      else None)"
  by pat_completeness auto
termination
  by (relation "measure (\<lambda>(c, u, n, bl, m, e, i). e - i)") (auto dest!: split_run_Inl_ge)

declare inorder_loop.simps [simp del]

definition inorderSelect ::
  "byte list \<Rightarrow> byte list \<Rightarrow> nat \<Rightarrow> int \<Rightarrow> int \<Rightarrow> nat \<Rightarrow> nat \<Rightarrow> nat option" where
  "inorderSelect combined ub n bl minSplitSize startIndex endIndex =
     (if endIndex \<le> startIndex \<or> n \<le> startIndex then None
      else if \<not> testBit combined startIndex \<and> \<not> testBit ub startIndex then Some startIndex
      else inorder_loop combined ub n bl minSplitSize endIndex (startIndex + 1))"

definition getInorderMissingUnusedIndexRange ::
  "pieceMap \<Rightarrow> nat \<Rightarrow> nat \<Rightarrow> int \<Rightarrow> byte list \<Rightarrow> nat option" where
  "getInorderMissingUnusedIndexRange pm startIndex endIndex minSplitSize ignoreBitfield =
     inorderSelect (combinedMissing pm ignoreBitfield) (useBits pm) (blocks pm) (blockLength pm)
       minSplitSize startIndex (if blocks pm < endIndex then blocks pm else endIndex)"

definition getInorderMissingUnusedIndex :: "pieceMap \<Rightarrow> int \<Rightarrow> byte list \<Rightarrow> nat option" where
  "getInorderMissingUnusedIndex pm minSplitSize ignoreBitfield =
     getInorderMissingUnusedIndexRange pm 0 (blocks pm) minSplitSize ignoreBitfield"

text \<open>The candidates: wanted, neither verified nor reserved, and not in the ignore mask.\<close>

definition candidates :: "pieceMap \<Rightarrow> byte list \<Rightarrow> nat set" where
  "candidates pm ignore =
     {i \<in> wanted_set pm - have_set pm - use_set pm. \<not> (i div 8 < length ignore \<and> testBit ignore i)}"

lemma testBit_combinedMissing:
  assumes shape: "pm_shape pm" and i: "i < blocks pm"
  shows "\<not> testBit (combinedMissing pm ignore) i \<longleftrightarrow> i \<in> candidates pm ignore"
proof -
  have k: "i div 8 < bitfieldLen pm" using i shape_lengths(4) [OF shape] by (intro div_8_less) linarith
  then have byte: "combinedMissing pm ignore ! (i div 8) =
      (let v = (haveBits pm ! (i div 8)) OR (useBits pm ! (i div 8));
           v = (if i div 8 < length ignore then v OR (ignore ! (i div 8)) else v)
       in case active_filter pm of Some f \<Rightarrow> v OR NOT (f ! (i div 8)) | None \<Rightarrow> v)"
    by (simp add: combinedMissing_def cong: if_cong option.case_cong)
  show ?thesis
    using active_filter_set [OF shape] i
    by (cases "active_filter pm")
       (auto simp: testBit_bit byte Let_def candidates_def have_set_def use_set_def bits_of_def
         bit_or_iff bit_not_iff)
qed

text \<open>A span is a run of candidates.\<close>

definition span_ok :: "byte list \<Rightarrow> nat \<Rightarrow> span \<Rightarrow> bool" where
  "span_ok c n sp \<longleftrightarrow> fst sp \<le> snd sp \<and> snd sp \<le> n \<and> (\<forall>k. fst sp \<le> k \<and> k < snd sp \<longrightarrow> \<not> testBit c k)"

lemma adjust_span_ok:
  assumes "s < e" and "e \<le> n" and "\<forall>k. s \<le> k \<and> k < e \<longrightarrow> \<not> testBit c k"
  shows "span_ok c n (adjust_span ub s e)" and "fst (adjust_span ub s e) < snd (adjust_span ub s e)"
proof -
  have "(e - s) div 2 + s < e" using assms(1) by linarith
  then show "fst (adjust_span ub s e) < snd (adjust_span ub s e)" using assms by (auto simp: adjust_span_def)
  then show "span_ok c n (adjust_span ub s e)" using assms by (auto simp: span_ok_def adjust_span_def)
qed

lemma better_span_ok:
  assumes "span_ok c n best" and "span_ok c n cur" and "fst cur < snd cur"
  shows "span_ok c n (better_span c ub best cur)"
    and "fst (better_span c ub best cur) < snd (better_span c ub best cur)"
  using assms by (auto simp: better_span_def)

lemma sparse_loop_ok:
  assumes "i \<le> n" and "span_ok c n best" and "fst best < snd best \<longleftrightarrow> (\<exists>k<i. \<not> testBit c k)"
  shows "span_ok c n (sparse_loop c ub n i best) \<and>
    (fst (sparse_loop c ub n i best) < snd (sparse_loop c ub n i best) \<longleftrightarrow> (\<exists>k<n. \<not> testBit c k))"
  using assms
proof (induction c ub n i best rule: sparse_loop.induct)
  case (1 c ub n i best)
  define s where "s = skip_set c n i"
  define e where "e = skip_clear c n s"
  have s: "i \<le> s" "s \<le> n" "s < n \<longrightarrow> \<not> testBit c s" "\<forall>k. i \<le> k \<and> k < s \<longrightarrow> testBit c k"
    using skip_set_spec [OF 1(2)] by (auto simp: s_def)
  show ?case
  proof (cases "s = n \<or> n \<le> i")
    case True
    then have eq: "sparse_loop c ub n i best = best"
      by (subst sparse_loop.simps) (auto simp: s_def Let_def)
    have "\<forall>k<n. i \<le> k \<longrightarrow> testBit c k" using True s 1(2) by auto
    then have "(\<exists>k<i. \<not> testBit c k) \<longleftrightarrow> (\<exists>k<n. \<not> testBit c k)"
      using 1(2) by (meson leI order_less_le_trans)
    then show ?thesis using 1(3,4) eq by simp
  next
    case False
    then have lt: "i < n" "s < n" "s \<noteq> n" using s by auto
    have e: "s < e" "e \<le> n" "\<forall>k. s \<le> k \<and> k < e \<longrightarrow> \<not> testBit c k"
      using skip_clear_spec [of s n c] skip_clear_gt [of s n c] s lt by (auto simp: e_def)
    let ?best = "better_span c ub best (adjust_span ub s e)"
    have eq: "sparse_loop c ub n i best = sparse_loop c ub n e ?best"
      using lt by (subst sparse_loop.simps) (simp add: s_def e_def Let_def)
    note ok = adjust_span_ok [OF e, of ub]
    have "span_ok c n ?best" "fst ?best < snd ?best"
      using better_span_ok [OF 1(3) ok(1) ok(2)] by auto
    moreover have "\<exists>k<e. \<not> testBit c k" using e s lt by blast
    ultimately show ?thesis
      using 1(1) [OF lt(1) s_def _ e_def] lt e unfolding eq by (simp add: s_def)
  qed
qed

lemma sparseSelect_sound:
  assumes "sparseSelect c ub n bl m = Some i"
  shows "i < n \<and> \<not> testBit c i"
proof -
  have "span_ok c n (sparse_loop c ub n 0 (0, 0))"
    using sparse_loop_ok [of 0 n c "(0, 0)" ub] by (simp add: span_ok_def)
  with assms show ?thesis by (auto simp: sparseSelect_def Let_def span_ok_def split: if_splits)
qed

lemma sparseSelect_complete:
  assumes "k < n" and "\<not> testBit c k" and "m \<le> bl" and "0 \<le> bl"
  shows "\<exists>i. sparseSelect c ub n bl m = Some i"
proof -
  let ?b = "sparse_loop c ub n 0 (0, 0)"
  have "fst ?b < snd ?b" using sparse_loop_ok [of 0 n c "(0, 0)" ub] assms(1,2) by (auto simp: span_ok_def)
  moreover have "bl \<le> int (snd ?b - fst ?b) * bl" if "fst ?b < snd ?b"
    using mult_right_mono [of 1 "int (snd ?b - fst ?b)" bl] that assms(4) by simp
  ultimately show ?thesis using assms(3) by (auto simp: sparseSelect_def Let_def)
qed

lemma split_run_Inr: "split_run c ub n bl m i j = Inr k \<Longrightarrow> j \<le> k \<and> k < n \<and> \<not> testBit c k \<and> \<not> testBit ub k"
proof (induction c ub n bl m i j rule: split_run.induct)
  case (1 c ub n bl m i j)
  then show ?case by (subst (asm) (2) split_run.simps) (auto split: if_splits)
qed

lemma inorder_loop_sound:
  assumes "e \<le> n"
  shows "inorder_loop c ub n bl m e i = Some k \<Longrightarrow> i \<le> k \<and> k < n \<and> \<not> testBit c k \<and> \<not> testBit ub k"
proof (induction "e - i" arbitrary: i rule: less_induct)
  case less
  show ?case
  proof (cases "i < e \<and> \<not> testBit c i \<and> \<not> testBit ub i \<and> (testBit ub (i - 1) \<or> \<not> testBit c (i - 1))")
    case True
    show ?thesis
    proof (cases "split_run c ub n bl m i i")
      case (Inl j)
      then have "i \<le> j" by (rule split_run_Inl_ge)
      moreover have "inorder_loop c ub n bl m e (Suc j) = Some k"
        using less(2) True Inl by (subst (asm) inorder_loop.simps) auto
      moreover from \<open>i \<le> j\<close> have "e - Suc j < e - i" using True by linarith
      ultimately show ?thesis using less(1) by fastforce
    next
      case (Inr j)
      then have "j = k" using less(2) True by (subst (asm) inorder_loop.simps) auto
      then show ?thesis using split_run_Inr Inr by blast
    qed
  next
    case False
    have e: "i < e" using less(2) by (subst (asm) inorder_loop.simps) (auto split: if_splits)
    show ?thesis
    proof (cases "testBit c i \<or> testBit ub i")
      case True
      then have "inorder_loop c ub n bl m e (Suc i) = Some k"
        using less(2) e by (subst (asm) inorder_loop.simps) simp
      moreover have "e - Suc i < e - i" using e by linarith
      ultimately show ?thesis using less(1) by fastforce
    next
      case free: False
      then have "k = i" using less(2) e False by (subst (asm) inorder_loop.simps) auto
      then show ?thesis using free e assms by simp
    qed
  qed
qed

lemma inorder_loop_first:
  assumes "m \<le> bl" and "e \<le> n"
  shows "inorder_loop c ub n bl m e i = find (\<lambda>k. \<not> testBit c k \<and> \<not> testBit ub k) [i..<e]"
proof (induction "e - i" arbitrary: i)
  case 0
  then show ?case by (simp add: inorder_loop.simps)
next
  case (Suc d)
  then have lt: "i < e" by simp
  have run: "split_run c ub n bl m i i = Inr i" if "\<not> testBit c i" "\<not> testBit ub i"
    using that lt assms by (subst split_run.simps) simp
  have "inorder_loop c ub n bl m e (Suc i) = find (\<lambda>k. \<not> testBit c k \<and> \<not> testBit ub k) [Suc i..<e]"
    using Suc by (intro Suc(1)) simp
  with lt run show ?case by (subst inorder_loop.simps) (auto simp: upt_rec [of i])
qed

lemma use_not_candidate:
  assumes "pm_shape pm" and "i < blocks pm" and "\<not> testBit (combinedMissing pm ignore) i"
  shows "\<not> testBit (useBits pm) i"
  using testBit_combinedMissing [OF assms(1,2)] assms(2,3)
  by (auto simp: candidates_def use_set_def bits_of_def)

lemma candidates_bounded: "candidates pm ignore \<subseteq> {..<blocks pm}"
  using sets_bounded(4) [of pm] by (auto simp: candidates_def)

lemma getSparse_sound:
  assumes "pm_shape pm" and "getSparseMissingUnusedIndex pm m ignore = Some i"
  shows "i \<in> candidates pm ignore"
  using sparseSelect_sound [OF assms(2) [unfolded getSparseMissingUnusedIndex_def]]
    testBit_combinedMissing [OF assms(1)] by blast

lemma getSparse_complete:
  assumes shape: "pm_shape pm" and "i \<in> candidates pm ignore" and "m \<le> blockLength pm"
  shows "\<exists>j. getSparseMissingUnusedIndex pm m ignore = Some j"
proof -
  have i: "i < blocks pm" using assms(2) candidates_bounded by blast
  then have "0 < blockLength pm" using shape by (auto simp: pm_shape_def)
  then show ?thesis
    unfolding getSparseMissingUnusedIndex_def
    using sparseSelect_complete [OF i _ assms(3)] testBit_combinedMissing [OF shape i] assms(2) by auto
qed

lemma getInorder_sound:
  assumes shape: "pm_shape pm" and "getInorderMissingUnusedIndexRange pm s e m ignore = Some i"
  shows "s \<le> i \<and> i \<in> candidates pm ignore"
proof -
  have "s \<le> i \<and> i < blocks pm \<and> \<not> testBit (combinedMissing pm ignore) i"
    using assms(2)
    by (auto simp: getInorderMissingUnusedIndexRange_def inorderSelect_def split: if_splits
        dest!: inorder_loop_sound [rotated])
  then show ?thesis using testBit_combinedMissing [OF shape] by blast
qed

lemma getInorder_first:
  assumes shape: "pm_shape pm" and m: "m \<le> blockLength pm"
  shows "getInorderMissingUnusedIndexRange pm s e m ignore =
    find (\<lambda>i. i \<in> candidates pm ignore) [s..<min e (blocks pm)]"
proof -
  let ?c = "combinedMissing pm ignore" and ?e = "min e (blocks pm)"
  have e: "(if blocks pm < e then blocks pm else e) = ?e" by auto
  have "inorderSelect ?c (useBits pm) (blocks pm) (blockLength pm) m s ?e =
      find (\<lambda>k. \<not> testBit ?c k \<and> \<not> testBit (useBits pm) k) [s..<?e]"
    using inorder_loop_first [OF m, of ?e "blocks pm" ?c "useBits pm" "Suc s"]
    by (auto simp: inorderSelect_def upt_rec [of s])
  also have "\<dots> = find (\<lambda>i. i \<in> candidates pm ignore) [s..<?e]"
    using testBit_combinedMissing [OF shape] use_not_candidate [OF shape] by (intro find_cong) auto
  finally show ?thesis unfolding getInorderMissingUnusedIndexRange_def e .
qed

text \<open>The sparse selector is sound and, for a minimum split size of at most one piece, complete:
  what it returns is a wanted piece that is neither verified, reserved nor masked out, and it
  returns a piece whenever there is one.\<close>

lemma sparse_selection_correct:
  assumes "pm_wf pm"
  shows "(\<forall>i. getSparseMissingUnusedIndex pm m ignore = Some i \<longrightarrow> i \<in> candidates pm ignore) \<and>
    (m \<le> blockLength pm \<longrightarrow>
       (getSparseMissingUnusedIndex pm m ignore = None \<longleftrightarrow> candidates pm ignore = {}))"
proof -
  have "pm_shape pm" using assms by (rule pm_wf_shape)
  then show ?thesis
    using getSparse_sound getSparse_complete by (metis all_not_in_conv not_None_eq)
qed

theorem sparse_selection_correct_witness:
  "\<exists>pm. newPieceMap 4 10 = Some pm \<and>
    (getSparseMissingUnusedIndex pm 4 [] = None \<longleftrightarrow> candidates pm [] = {})"
proof -
  obtain pm where pm: "newPieceMap 4 10 = Some pm" "pm_wf pm" "blockLength pm = 4"
    using newPieceMap_wf [of 4 10] by auto
  then show ?thesis using sparse_selection_correct [OF pm(2), of 4 "[]"] by simp
qed

text \<open>The in-order selector returns only candidates at or after the start of its range, and for
  a minimum split size of at most one piece it returns the first candidate of the range.\<close>

lemma inorder_selection_correct:
  assumes "pm_wf pm"
  shows "(\<forall>i. getInorderMissingUnusedIndexRange pm s e m ignore = Some i \<longrightarrow>
        s \<le> i \<and> i \<in> candidates pm ignore) \<and>
    (m \<le> blockLength pm \<longrightarrow>
       getInorderMissingUnusedIndexRange pm s e m ignore =
         find (\<lambda>i. i \<in> candidates pm ignore) [s..<min e (blocks pm)])"
  using getInorder_sound getInorder_first pm_wf_shape [OF assms] by blast

theorem inorder_selection_correct_witness:
  "\<exists>pm. newPieceMap 4 10 = Some pm \<and>
    getInorderMissingUnusedIndexRange pm 1 3 4 [] = find (\<lambda>i. i \<in> candidates pm []) [1..<min 3 (blocks pm)]"
proof -
  obtain pm where pm: "newPieceMap 4 10 = Some pm" "pm_wf pm" "blockLength pm = 4"
    using newPieceMap_wf [of 4 10] by auto
  then show ?thesis using inorder_selection_correct [OF pm(2), of 1 3 4 "[]"] by simp
qed

text \<open>With a larger minimum split size the range variant can leave its range: with eight free pieces
  of length 1, of which piece 0 is reserved, the range \<open>[0, 2)\<close> and a minimum of 3, the inner
  loop runs on to piece 3.\<close>

lemma inorder_range_overrun:
  "inorderSelect [0x80] [0x80] 8 1 3 0 2 = Some 3"
  by (simp add: inorderSelect_def inorder_loop.simps split_run.simps testBit_def bit_mask_def)

end
