(* ===== verification/Wire.thy ===== *)
theory Wire
  imports Prelude
begin

text \<open>
  Reading a byte slice from front to back. Go code does it with an index \<open>pos\<close>, a bounds
  check \<open>pos + n > len(data)\<close> before every field and the slice \<open>data[pos:pos+n]\<close>; here
  the unread rest of the slice is passed on, and the bounds check is that it is too short.
  A reader is \<open>stable\<close> if bytes after the part it read do not change what it returns; a
  stable reader rejects every proper prefix of what it consumes (\<open>stable_prefix\<close>).
\<close>

type_synonym ('e, 'a) reader = "byte list \<Rightarrow> 'e + ('a \<times> byte list)"

definition pret :: "'a \<Rightarrow> ('e, 'a) reader" where
  "pret v = (\<lambda>data. Inr (v, data))"

definition pfail :: "'e \<Rightarrow> ('e, 'a) reader" where
  "pfail e = (\<lambda>data. Inl e)"

definition pbind :: "('e, 'a) reader \<Rightarrow> ('a \<Rightarrow> ('e, 'b) reader) \<Rightarrow> ('e, 'b) reader" where
  "pbind p f = (\<lambda>data. case p data of Inl e \<Rightarrow> Inl e | Inr (v, rest) \<Rightarrow> f v rest)"

definition get_bytes :: "'e \<Rightarrow> nat \<Rightarrow> ('e, byte list) reader" where
  "get_bytes e n = (\<lambda>data. if length data < n then Inl e else Inr (take n data, drop n data))"

definition get_uint32 :: "'e \<Rightarrow> ('e, uint32) reader" where
  "get_uint32 e = pbind (get_bytes e 4) (\<lambda>b. pret (Uint32 b))"

definition stable :: "('e, 'a) reader \<Rightarrow> bool" where
  "stable p \<longleftrightarrow> (\<forall>xs v rest ys. p xs = Inr (v, rest) \<longrightarrow> p (xs @ ys) = Inr (v, rest @ ys))"

lemma pret_apply [simp]: "pret v data = Inr (v, data)"
  by (simp add: pret_def)

lemma pfail_apply [simp]: "pfail e data = Inl e"
  by (simp add: pfail_def)

lemma pbind_Inr [simp]: "p data = Inr (v, rest) \<Longrightarrow> pbind p f data = f v rest"
  by (simp add: pbind_def)

lemma pbind_Inl [simp]: "p data = Inl e \<Longrightarrow> pbind p f data = Inl e"
  by (simp add: pbind_def)

lemma pbind_eq_Inr:
  "pbind p f data = Inr x \<longleftrightarrow> (\<exists>v rest. p data = Inr (v, rest) \<and> f v rest = Inr x)"
  by (auto simp: pbind_def split: sum.splits)

lemma get_bytes_append [simp, wire_simps]: "length xs = n \<Longrightarrow> get_bytes e n (xs @ ys) = Inr (xs, ys)"
  by (auto simp: get_bytes_def)

lemma get_uint32_Put [simp, wire_simps]: "get_uint32 e (PutUint32 v @ ys) = Inr (v, ys)"
proof -
  have "Uint32 (PutUint32 v) = v" using Uint32_Put [of v "[]"] by simp
  then show ?thesis by (simp add: get_uint32_def)
qed

lemma stable_pret [inv_intros]: "stable (pret v)"
  by (simp add: stable_def)

lemma stable_pfail [inv_intros]: "stable (pfail e)"
  by (simp add: stable_def)

lemma stable_get_bytes [inv_intros]: "stable (get_bytes e n)"
  by (auto simp: stable_def get_bytes_def split: if_splits)

lemma stable_pbind [inv_intros]: "stable p \<Longrightarrow> (\<And>v. stable (f v)) \<Longrightarrow> stable (pbind p f)"
  unfolding stable_def pbind_eq_Inr by fastforce

lemma stable_if [inv_intros]: "stable p \<Longrightarrow> stable q \<Longrightarrow> stable (if b then p else q)"
  by simp

lemma stable_get_uint32 [inv_intros]: "stable (get_uint32 e)"
  unfolding get_uint32_def by (intro inv_intros)

text \<open>A stable reader that consumes a message completely rejects every proper prefix of it.\<close>

lemma stable_prefix:
  assumes st: "stable p" and full: "p data = Inr (v, [])" and k: "k < length data"
  shows "\<exists>e. p (take k data) = Inl e"
proof (rule ccontr)
  assume "\<nexists>e. p (take k data) = Inl e"
  then obtain w rest where "p (take k data) = Inr (w, rest)"
    by (cases "p (take k data)") auto
  then have "p (take k data @ drop k data) = Inr (w, rest @ drop k data)"
    using st unfolding stable_def by blast
  then show False using full k by simp
qed

text \<open>A sequence of \<open>n\<close> items read one after the other.\<close>

fun get_many :: "('e, 'a) reader \<Rightarrow> nat \<Rightarrow> ('e, 'a list) reader" where
  "get_many p 0 = pret []"
| "get_many p (Suc n) = pbind p (\<lambda>v. pbind (get_many p n) (\<lambda>vs. pret (v # vs)))"

lemma stable_get_many [inv_intros]: "stable p \<Longrightarrow> stable (get_many p n)"
  by (induction n) (simp_all add: inv_intros)

lemma get_many_concat:
  assumes "\<And>v rest. v \<in> set vs \<Longrightarrow> p (enc v @ rest) = Inr (v, rest)"
  shows "get_many p (length vs) (concat (map enc vs) @ rest) = Inr (vs, rest)"
  using assms by (induction vs) simp_all

end
