(* ===== verification/Progress.thy ===== *)
theory Progress
  imports Wire
begin

unbundle bit_operations_syntax

text \<open>
  The control file format of \<open>src/internal/protocol/bittorrent/progress/progress.go\<close>, aria2's
  \<open>.aria2\<close> file. Version 1 is big-endian; version 0 files, written by old aria2 releases, are in
  the byte order of the machine, which is the parameter \<open>native_big\<close>. \<open>Save\<close> and
  \<open>Load\<close> wrap these functions in file operations and are not modelled. An \<open>Info\<close> taken from
  the pool was cleared by \<open>putInfo\<close>, so parsing starts from an empty one.
\<close>

record InFlightPiece =
  ifIndex :: int
  ifLength :: int
  ifBitfield :: "byte list"

record Info =
  InfoHash :: "byte list"
  PieceLength :: int
  TotalLength :: int
  UploadLength :: int
  InfoBitfield :: "byte list"
  InFlight :: "InFlightPiece list"

datatype progress_error =
    PieceLengthOutOfRange | FileTruncated string | ErrBadVersion | ErrBadInfoHash | ErrZeroPieceLength

definition infoHashLength :: nat where
  "infoHashLength = 20"

definition headerBT :: "byte list" where
  "headerBT = [0x00, 0x01, 0x00, 0x00, 0x00, 0x01]"

definition headerNonBT :: "byte list" where
  "headerNonBT = [0x00, 0x01, 0x00, 0x00, 0x00, 0x00]"

section \<open>Writing\<close>

definition encode_inflight :: "InFlightPiece \<Rightarrow> byte list" where
  "encode_inflight p =
     PutUint32 (word_of_int (ifIndex p)) @ PutUint32 (word_of_int (ifLength p)) @
     PutUint32 (word_of_nat (length (ifBitfield p))) @ ifBitfield p"

definition encode :: "Info \<Rightarrow> progress_error + byte list" where
  "encode info =
     (if PieceLength info \<le> 0 \<or> PieceLength info > 2 ^ 32 - 1 then Inl PieceLengthOutOfRange
      else Inr
        ((if 0 < length (InfoHash info) then headerBT else headerNonBT) @
         PutUint32 (word_of_nat (length (InfoHash info))) @ InfoHash info @
         PutUint32 (word_of_int (PieceLength info)) @
         PutUint64 (word_of_int (TotalLength info)) @
         PutUint64 (word_of_int (UploadLength info)) @
         PutUint32 (word_of_nat (length (InfoBitfield info))) @ InfoBitfield info @
         PutUint32 (word_of_nat (length (InFlight info))) @
         concat (map encode_inflight (InFlight info))))"

section \<open>Reading\<close>

definition uint32FromBytes :: "bool \<Rightarrow> byte list \<Rightarrow> bool \<Rightarrow> uint32" where
  "uint32FromBytes native_big b networkOrder =
     (if networkOrder \<or> native_big then Uint32 b else Uint32 (rev (take 4 b)))"

definition uint64FromBytes :: "bool \<Rightarrow> byte list \<Rightarrow> bool \<Rightarrow> uint64" where
  "uint64FromBytes native_big b networkOrder =
     (if networkOrder \<or> native_big then Uint64 b else Uint64 (rev (take 8 b)))"

definition read_u32 :: "bool \<Rightarrow> bool \<Rightarrow> string \<Rightarrow> (progress_error, uint32) reader" where
  "read_u32 nb order msg =
     pbind (get_bytes (FileTruncated msg) 4) (\<lambda>b. pret (uint32FromBytes nb b order))"

definition read_u64 :: "bool \<Rightarrow> bool \<Rightarrow> string \<Rightarrow> (progress_error, uint64) reader" where
  "read_u64 nb order msg =
     pbind (get_bytes (FileTruncated msg) 8) (\<lambda>b. pret (uint64FromBytes nb b order))"

definition read_inflight :: "bool \<Rightarrow> bool \<Rightarrow> (progress_error, InFlightPiece) reader" where
  "read_inflight nb order =
     pbind (read_u32 nb order ''failed to read in-flight index'') (\<lambda>idx.
     pbind (read_u32 nb order ''failed to read in-flight length'') (\<lambda>len.
     pbind (read_u32 nb order ''failed to read in-flight bitfield length'') (\<lambda>pbfLen.
     pbind (get_bytes (FileTruncated ''failed to read piece bitfield'') (unat pbfLen)) (\<lambda>bf.
     pret \<lparr>ifIndex = uint idx, ifLength = sint len, ifBitfield = bf\<rparr>))))"

definition parse_fields :: "bool \<Rightarrow> bool \<Rightarrow> bool \<Rightarrow> (progress_error, Info) reader" where
  "parse_fields nb order btMode =
     pbind (read_u32 nb order ''failed to read info hash length'') (\<lambda>ihl.
     if unat ihl > infoHashLength then pfail ErrBadInfoHash
     else if btMode \<and> unat ihl \<noteq> infoHashLength then pfail ErrBadInfoHash
     else
     pbind (get_bytes (FileTruncated ''failed to read info hash'') (unat ihl)) (\<lambda>hash.
     pbind (read_u32 nb order ''failed to read piece length'') (\<lambda>pl.
     if pl = 0 then pfail ErrZeroPieceLength
     else
     pbind (read_u64 nb order ''failed to read total length'') (\<lambda>tl.
     pbind (read_u64 nb order ''failed to read upload length'') (\<lambda>ul.
     pbind (read_u32 nb order ''failed to read bitfield length'') (\<lambda>bfl.
     pbind (get_bytes (FileTruncated ''failed to read bitfield'') (unat bfl)) (\<lambda>bf.
     pbind (read_u32 nb order ''failed to read in-flight count'') (\<lambda>nif.
     pbind (get_many (read_inflight nb order) (unat nif)) (\<lambda>ps.
     pret \<lparr>InfoHash = hash, PieceLength = uint pl, TotalLength = sint tl, UploadLength = sint ul,
           InfoBitfield = bf, InFlight = ps\<rparr>)))))))))"

definition parse_progress :: "bool \<Rightarrow> (progress_error, Info) reader" where
  "parse_progress nb =
     pbind (get_bytes (FileTruncated ''failed to read version'') 2) (\<lambda>version.
     if version ! 0 = 0x00 \<and> version ! 1 = 0x01 then
       pbind (get_bytes (FileTruncated ''failed to read extension'') 4) (\<lambda>ext.
         parse_fields nb True ((ext ! 3) AND 1 \<noteq> 0))
     else if version ! 0 = 0x00 \<and> version ! 1 = 0x00 then
       pbind (get_bytes (FileTruncated ''failed to read extension'') 4) (\<lambda>ext.
         parse_fields nb False ((ext ! 3) AND 1 \<noteq> 0))
     else pfail ErrBadVersion)"

text \<open>Bytes after the last in-flight piece are ignored.\<close>

definition decodeFromBytes :: "bool \<Rightarrow> byte list \<Rightarrow> progress_error + Info" where
  "decodeFromBytes nb data = rbind (parse_progress nb data) (\<lambda>(info, rest). Inr info)"

section \<open>Round trip\<close>

definition inflight_ok :: "InFlightPiece \<Rightarrow> bool" where
  "inflight_ok p \<longleftrightarrow>
     0 \<le> ifIndex p \<and> ifIndex p < 2 ^ 32 \<and> - (2 ^ 31) \<le> ifLength p \<and> ifLength p < 2 ^ 31 \<and>
     length (ifBitfield p) < 2 ^ 32"

definition info_ok :: "Info \<Rightarrow> bool" where
  "info_ok info \<longleftrightarrow>
     (length (InfoHash info) = 0 \<or> length (InfoHash info) = 20) \<and>
     0 < PieceLength info \<and> PieceLength info < 2 ^ 32 \<and>
     in_int64 (TotalLength info) \<and> in_int64 (UploadLength info) \<and>
     length (InfoBitfield info) < 2 ^ 32 \<and> length (InFlight info) < 2 ^ 32 \<and>
     list_all inflight_ok (InFlight info)"

lemma read_u32_Put [simp, wire_simps]: "read_u32 nb True msg (PutUint32 v @ rest) = Inr (v, rest)"
  using Uint32_Put [of v "[]"] by (simp add: read_u32_def uint32FromBytes_def)

lemma read_u64_Put [simp, wire_simps]: "read_u64 nb True msg (PutUint64 v @ rest) = Inr (v, rest)"
  using Uint64_Put [of v "[]"] by (simp add: read_u64_def uint64FromBytes_def)

lemma unat_word_of_length [simp]: "n < 2 ^ 32 \<Longrightarrow> unat (word_of_nat n :: uint32) = n"
  by (simp add: unat_of_nat)

lemma sint_word_of_int64: "in_int64 x \<Longrightarrow> sint (word_of_int x :: uint64) = x"
  using wrap64_id [of x] by (simp add: wrap64_def)

lemma sint_word_of_int32: "- (2 ^ 31) \<le> x \<Longrightarrow> x < 2 ^ 31 \<Longrightarrow> sint (word_of_int x :: uint32) = x"
  using wrap32_id [of x] by (simp add: wrap32_def)

lemma uint_word_of_int32: "0 \<le> x \<Longrightarrow> x < 2 ^ 32 \<Longrightarrow> uint (word_of_int x :: uint32) = x"
  by (simp add: uint_word_of_int)

lemma word_of_int32_nonzero:
  assumes "0 < x" and "x < 2 ^ 32"
  shows "(word_of_int x :: uint32) \<noteq> 0"
proof
  assume "(word_of_int x :: uint32) = 0"
  then have "uint (word_of_int x :: uint32) = 0" by simp
  with assms show False using uint_word_of_int32 [of x] by simp
qed

lemma read_inflight_encode:
  "inflight_ok p \<Longrightarrow> read_inflight nb True (encode_inflight p @ rest) = Inr (p, rest)"
  by (simp add: read_inflight_def encode_inflight_def inflight_ok_def uint_word_of_int32
      sint_word_of_int32)

lemma parse_fields_encode:
  assumes "info_ok info" and "btMode \<longrightarrow> length (InfoHash info) = 20"
  shows "parse_fields nb True btMode
     (PutUint32 (word_of_nat (length (InfoHash info))) @ InfoHash info @
      PutUint32 (word_of_int (PieceLength info)) @ PutUint64 (word_of_int (TotalLength info)) @
      PutUint64 (word_of_int (UploadLength info)) @
      PutUint32 (word_of_nat (length (InfoBitfield info))) @ InfoBitfield info @
      PutUint32 (word_of_nat (length (InFlight info))) @
      concat (map encode_inflight (InFlight info)) @ rest) = Inr (info, rest)"
proof -
  have many: "get_many (read_inflight nb True) (length (InFlight info))
      (concat (map encode_inflight (InFlight info)) @ rest) = Inr (InFlight info, rest)"
    using assms(1) by (intro get_many_concat read_inflight_encode) (auto simp: info_ok_def list_all_iff)
  have hash: "length (InfoHash info) < 2 ^ 32" "length (InfoHash info) \<le> infoHashLength"
    using assms(1) by (auto simp: info_ok_def infoHashLength_def)
  show ?thesis
    unfolding parse_fields_def
    using assms many hash
    by (simp add: info_ok_def infoHashLength_def word_of_int32_nonzero uint_word_of_int32
        sint_word_of_int64 del: word_of_nat_eq_0_iff of_int_eq_0_iff)
qed

lemma parse_progress_header:
  "parse_progress nb (headerBT @ xs) = parse_fields nb True True xs"
  "parse_progress nb (headerNonBT @ xs) = parse_fields nb True False xs"
  by (simp_all add: parse_progress_def headerBT_def headerNonBT_def get_bytes_def pbind_def)

lemma parse_progress_encode:
  assumes "info_ok info" and "encode info = Inr bs"
  shows "parse_progress nb (bs @ rest) = Inr (info, rest)"
proof -
  have fields: "parse_fields nb True bt
     (PutUint32 (word_of_nat (length (InfoHash info))) @ InfoHash info @
      PutUint32 (word_of_int (PieceLength info)) @ PutUint64 (word_of_int (TotalLength info)) @
      PutUint64 (word_of_int (UploadLength info)) @
      PutUint32 (word_of_nat (length (InfoBitfield info))) @ InfoBitfield info @
      PutUint32 (word_of_nat (length (InFlight info))) @
      concat (map encode_inflight (InFlight info)) @ rest) = Inr (info, rest)"
    if "bt \<longleftrightarrow> 0 < length (InfoHash info)" for bt
    using parse_fields_encode [OF assms(1)] that assms(1) by (auto simp: info_ok_def)
  have bs: "bs @ rest = (if 0 < length (InfoHash info) then headerBT else headerNonBT) @
     PutUint32 (word_of_nat (length (InfoHash info))) @ InfoHash info @
      PutUint32 (word_of_int (PieceLength info)) @ PutUint64 (word_of_int (TotalLength info)) @
      PutUint64 (word_of_int (UploadLength info)) @
      PutUint32 (word_of_nat (length (InfoBitfield info))) @ InfoBitfield info @
      PutUint32 (word_of_nat (length (InFlight info))) @
      concat (map encode_inflight (InFlight info)) @ rest"
    using assms(2) by (auto simp: encode_def split: if_splits)
  show ?thesis
    unfolding bs using fields [of True] fields [of False]
    by (cases "0 < length (InfoHash info)") (simp_all only: if_True if_False parse_progress_header)
qed

lemma stable_parse_progress: "stable (parse_progress nb)"
  unfolding parse_progress_def parse_fields_def read_inflight_def read_u32_def read_u64_def
  by (intro inv_intros)

lemma encode_total: "info_ok info \<Longrightarrow> \<exists>bs. encode info = Inr bs"
  by (simp add: encode_def info_ok_def)

text \<open>(C10) A control file reads back as the state it was written from: info hash, piece length,
  total and upload length, bitfield and in-flight pieces, whatever follows it in the file.\<close>

theorem control_file_roundtrip:
  assumes "info_ok info"
  shows "\<exists>bs. encode info = Inr bs \<and> (\<forall>rest. decodeFromBytes nb (bs @ rest) = Inr info)"
  using encode_total [OF assms] parse_progress_encode [OF assms]
  by (auto simp: decodeFromBytes_def)

theorem control_file_roundtrip_witness:
  "\<exists>bs. encode \<lparr>InfoHash = [], PieceLength = 1048576, TotalLength = 3000000, UploadLength = 0,
      InfoBitfield = [0xa0], InFlight = [\<lparr>ifIndex = 1, ifLength = 1048576, ifBitfield = [0xff, 0x01]\<rparr>]\<rparr>
      = Inr bs \<and>
    decodeFromBytes False bs = Inr \<lparr>InfoHash = [], PieceLength = 1048576, TotalLength = 3000000, UploadLength = 0,
      InfoBitfield = [0xa0], InFlight = [\<lparr>ifIndex = 1, ifLength = 1048576, ifBitfield = [0xff, 0x01]\<rparr>]\<rparr>"
proof -
  let ?i = "\<lparr>InfoHash = [], PieceLength = 1048576, TotalLength = 3000000, UploadLength = 0,
      InfoBitfield = [0xa0], InFlight = [\<lparr>ifIndex = 1, ifLength = 1048576, ifBitfield = [0xff, 0x01]\<rparr>]\<rparr>"
  have "info_ok ?i" by (simp add: info_ok_def inflight_ok_def)
  then obtain bs where "encode ?i = Inr bs" "\<forall>rest. decodeFromBytes False (bs @ rest) = Inr ?i"
    using control_file_roundtrip by blast
  then show ?thesis by (metis append_Nil2)
qed

text \<open>(C11) A control file that was cut short is never accepted: every proper prefix of a written
  file is rejected with an error instead of being read as some other state.\<close>

theorem control_file_truncation_detected:
  assumes "info_ok info" and "encode info = Inr bs" and "k < length bs"
  shows "\<exists>e. decodeFromBytes nb (take k bs) = Inl e"
proof -
  have "parse_progress nb bs = Inr (info, [])"
    using parse_progress_encode [OF assms(1,2), of nb "[]"] by simp
  then obtain e where "parse_progress nb (take k bs) = Inl e"
    using stable_prefix [OF stable_parse_progress _ assms(3)] by blast
  then show ?thesis by (simp add: decodeFromBytes_def)
qed

theorem control_file_truncation_detected_witness:
  "\<exists>bs e. encode \<lparr>InfoHash = [], PieceLength = 16, TotalLength = 20, UploadLength = 0,
      InfoBitfield = [0x80], InFlight = []\<rparr> = Inr bs \<and> decodeFromBytes False (take 30 bs) = Inl e"
proof -
  let ?i = "\<lparr>InfoHash = [], PieceLength = 16, TotalLength = 20, UploadLength = 0,
      InfoBitfield = [0x80], InFlight = []\<rparr>"
  have ok: "info_ok ?i" by (simp add: info_ok_def)
  then obtain bs where bs: "encode ?i = Inr bs" using encode_total by blast
  then have "30 < length bs" by (auto simp: encode_def headerNonBT_def)
  then show ?thesis using control_file_truncation_detected [OF ok bs] bs by blast
qed

text \<open>An info hash of any other length than 0 and 20 is written but not read back: with a 32-byte
  hash the reader reports an invalid length.\<close>

lemma long_info_hash_rejected:
  assumes "encode info = Inr bs" and "length (InfoHash info) = 32"
  shows "decodeFromBytes nb bs = Inl ErrBadInfoHash"
proof -
  have "bs = headerBT @ PutUint32 32 @ drop 10 bs"
    using assms by (auto simp: encode_def headerBT_def split: if_splits)
  then have "parse_progress nb bs = parse_fields nb True True (PutUint32 32 @ drop 10 bs)"
    using parse_progress_header(1) by metis
  then show ?thesis by (simp add: decodeFromBytes_def parse_fields_def infoHashLength_def)
qed

end
