(* ===== verification/Segments.thy ===== *)
theory Segments
  imports Prelude
begin

text \<open>
  The segment manager of \<open>src/internal/engine/segment.go\<close> and the resume constructor of
  \<open>engine.go\<close>: workers claim byte ranges of one download with \<open>Next\<close>, give them back
  with \<open>Unclaim\<close>, report them with \<open>MarkDone\<close>, and \<open>Split\<close> halves the largest range in
  progress. Each method holds the mutex from start to end, so an interleaving of workers is a
  sequence of these steps; \<open>sm_step\<close> is the step relation. The invariant is that the
  segments tile the download: every byte belongs to exactly one of them.
\<close>

section \<open>State and operations\<close>

record Segment =
  Index :: nat
  Start :: int
  End :: int
  Written :: int
  Done :: bool
  Claimed :: bool

record SegmentMan =
  segments :: "Segment list"
  nextIdx :: nat
  totalSize :: int
  minSplitSize :: int

text \<open>The loop that lays out \<open>k\<close> further segments from \<open>start\<close>; the last one takes the
  rest. For an unknown size every end is \<open>-1\<close>, and so is every start but the first.\<close>

fun chunk_segments :: "nat \<Rightarrow> int \<Rightarrow> int \<Rightarrow> int \<Rightarrow> nat \<Rightarrow> Segment list" where
  "chunk_segments i start chunkSize tsize 0 = []"
| "chunk_segments i start chunkSize tsize (Suc k) =
     (let end = (if 0 < tsize then (if k = 0 then tsize else start + chunkSize) else -1)
      in \<lparr>Index = i, Start = start, End = end, Written = 0, Done = False, Claimed = False\<rparr>
         # chunk_segments (Suc i) end chunkSize tsize k)"

definition NewSegmentManWithSplit :: "int \<Rightarrow> int \<Rightarrow> int \<Rightarrow> SegmentMan" where
  "NewSegmentManWithSplit tsize numSegments minSplit =
     (let n = (if numSegments \<le> 0 then 1 else numSegments);
          n = (if 0 < tsize \<and> tsize < n then tsize else n);
          chunkSize = (if 0 < tsize then tsize sdiv n else 1)
      in \<lparr>segments = chunk_segments 0 0 chunkSize tsize (nat n), nextIdx = 0, totalSize = tsize,
          minSplitSize = minSplit\<rparr>)"

definition NewSegmentMan :: "int \<Rightarrow> int \<Rightarrow> SegmentMan" where
  "NewSegmentMan tsize numSegments = NewSegmentManWithSplit tsize numSegments 0"

definition newResumeSegmentMan :: "int \<Rightarrow> int \<Rightarrow> int \<Rightarrow> int \<Rightarrow> SegmentMan" where
  "newResumeSegmentMan tsize split minSplit completed =
     (if split \<le> 1 \<or> completed \<le> 0 \<or> tsize \<le> 0 then NewSegmentManWithSplit tsize split minSplit
      else
        let completed = (if tsize < completed then tsize else completed);
            first = \<lparr>Index = 0, Start = 0, End = completed, Written = completed, Done = True,
                     Claimed = False\<rparr>;
            remaining = tsize - completed
        in if remaining \<le> 0 then
             \<lparr>segments = [first], nextIdx = 0, totalSize = tsize, minSplitSize = minSplit\<rparr>
           else
             let remainingSegments = split - 1;
                 remainingSegments =
                   (if remaining < remainingSegments then remaining else remainingSegments);
                 chunkSize = remaining sdiv remainingSegments
             in \<lparr>segments = first # chunk_segments 1 completed chunkSize tsize (nat remainingSegments),
                 nextIdx = 0, totalSize = tsize, minSplitSize = minSplit\<rparr>)"

definition claimable :: "Segment \<Rightarrow> bool" where
  "claimable s \<longleftrightarrow> \<not> Done s \<and> \<not> Claimed s"

text \<open>\<open>Next\<close> returns a pointer to the claimed segment, here its index.\<close>

definition Next :: "SegmentMan \<Rightarrow> SegmentMan \<times> nat option" where
  "Next sm =
     (let n = length (segments sm) in
      case find (\<lambda>idx. claimable (segments sm ! idx)) (map (\<lambda>i. (nextIdx sm + i) mod n) [0..<n]) of
        Some idx \<Rightarrow>
          (sm\<lparr>segments := (segments sm)[idx := (segments sm ! idx)\<lparr>Claimed := True\<rparr>],
              nextIdx := (if n \<le> idx + 1 then 0 else idx + 1)\<rparr>, Some idx)
      | None \<Rightarrow> (sm, None))"

definition Unclaim :: "SegmentMan \<Rightarrow> int \<Rightarrow> SegmentMan" where
  "Unclaim sm idx =
     (if idx < 0 \<or> int (length (segments sm)) \<le> idx then sm
      else if Done (segments sm ! nat idx) then sm
      else sm\<lparr>segments := (segments sm)[nat idx := (segments sm ! nat idx)\<lparr>Claimed := False\<rparr>]\<rparr>)"

definition MarkDone :: "SegmentMan \<Rightarrow> int \<Rightarrow> int \<Rightarrow> SegmentMan" where
  "MarkDone sm idx written =
     (if idx < 0 \<or> int (length (segments sm)) \<le> idx then sm
      else sm\<lparr>segments := (segments sm)[nat idx := (segments sm ! nat idx)
        \<lparr>Written := written, Done := True, Claimed := False\<rparr>]\<rparr>)"

text \<open>The scan of \<open>Split\<close>: the index of the largest qualifying segment so far and how many bytes
  remain in it.\<close>

fun largest_loop :: "int \<Rightarrow> Segment list \<Rightarrow> nat \<Rightarrow> nat option \<Rightarrow> int \<Rightarrow> nat option" where
  "largest_loop minSplit [] i largest largestRemaining = largest"
| "largest_loop minSplit (s # ss) i largest largestRemaining =
     (if Done s \<or> \<not> Claimed s \<or> End s = -1 then largest_loop minSplit ss (Suc i) largest largestRemaining
      else if End s - Start s < wrap64 (2 * minSplit)
      then largest_loop minSplit ss (Suc i) largest largestRemaining
      else let remaining = End s - Start s - Written s in
        if largestRemaining < remaining then largest_loop minSplit ss (Suc i) (Some i) remaining
        else largest_loop minSplit ss (Suc i) largest largestRemaining)"

definition Split :: "SegmentMan \<Rightarrow> int \<Rightarrow> SegmentMan \<times> nat option" where
  "Split sm minSplit =
     (if minSplit \<le> 0 then (sm, None)
      else case largest_loop minSplit (segments sm) 0 None 0 of
        None \<Rightarrow> (sm, None)
      | Some k \<Rightarrow>
          let s = segments sm ! k;
              mid = wrap64 (Start s + End s) sdiv 2;
              newSeg = \<lparr>Index = length (segments sm), Start = mid, End = End s, Written = 0,
                        Done = False, Claimed = False\<rparr>
          in (sm\<lparr>segments := (segments sm)[k := s\<lparr>End := mid\<rparr>] @ [newSeg], nextIdx := 0\<rparr>,
              Some (length (segments sm))))"

definition sm_Done :: "SegmentMan \<Rightarrow> bool" where
  "sm_Done sm \<longleftrightarrow> list_all Done (segments sm)"

definition sm_Written :: "SegmentMan \<Rightarrow> int" where
  "sm_Written sm = sum_list (map Written (segments sm))"

definition SegmentCount :: "SegmentMan \<Rightarrow> nat" where
  "SegmentCount sm = length (segments sm)"

section \<open>Tiling\<close>

text \<open>How many segments contain a byte offset.\<close>

definition cov :: "Segment list \<Rightarrow> int \<Rightarrow> nat" where
  "cov ss x = length (filter (\<lambda>s. Start s \<le> x \<and> x < End s) ss)"

definition sm_wf :: "int \<Rightarrow> SegmentMan \<Rightarrow> bool" where
  "sm_wf tsize sm \<longleftrightarrow>
     (\<forall>x. cov (segments sm) x = (if 0 \<le> x \<and> x < tsize then 1 else 0)) \<and>
     (\<forall>s\<in>set (segments sm). 0 \<le> Start s \<and> Start s \<le> End s \<and> End s \<le> tsize) \<and>
     (\<forall>i<length (segments sm). Index (segments sm ! i) = i) \<and>
     segments sm \<noteq> [] \<and> nextIdx sm < length (segments sm) \<and>
     (\<forall>s\<in>set (segments sm). \<not> (Done s \<and> Claimed s))"

lemma cov_Nil [simp]: "cov [] x = 0"
  by (simp add: cov_def)

lemma cov_Cons: "cov (s # ss) x = (if Start s \<le> x \<and> x < End s then 1 else 0) + cov ss x"
  by (simp add: cov_def)

lemma cov_append: "cov (ss @ ts) x = cov ss x + cov ts x"
  by (simp add: cov_def)

lemma cov_update:
  assumes "k < length ss"
  shows "cov (ss[k := t]) x + (if Start (ss ! k) \<le> x \<and> x < End (ss ! k) then 1 else 0) =
    cov ss x + (if Start t \<le> x \<and> x < End t then 1 else 0)"
proof -
  have "cov ss x = cov (take k ss @ ss ! k # drop (Suc k) ss) x"
    using id_take_nth_drop [OF assms] by simp
  moreover have "cov (ss[k := t]) x = cov (take k ss @ t # drop (Suc k) ss) x"
    using upd_conv_take_nth_drop [OF assms] by simp
  ultimately show ?thesis by (simp add: cov_append cov_Cons)
qed

lemma cov_same_range:
  assumes "k < length ss" and "Start t = Start (ss ! k)" and "End t = End (ss ! k)"
  shows "cov (ss[k := t]) x = cov ss x"
  using cov_update [OF assms(1), of t x] assms(2,3) by simp

lemma chunk_segments_length [simp]: "length (chunk_segments i a c t k) = k"
  by (induction k arbitrary: i a) (simp_all add: Let_def)

lemma chunk_segments_Index: "j < k \<Longrightarrow> Index (chunk_segments i a c t k ! j) = i + j"
proof (induction k arbitrary: i a j)
  case (Suc k)
  then show ?case by (cases j) (auto simp: Let_def)
qed simp

lemma chunk_segments_tile:
  assumes "0 < t" and "0 < k" and "0 \<le> c" and "a + c * int k \<le> t"
  shows "cov (chunk_segments i a c t k) x = (if a \<le> x \<and> x < t then 1 else 0)"
    and "\<forall>s\<in>set (chunk_segments i a c t k).
      a \<le> Start s \<and> Start s \<le> End s \<and> End s \<le> t \<and> \<not> Done s \<and> \<not> Claimed s"
  using assms
proof (induction k arbitrary: i a)
  case (Suc k)
  { case 1
    show ?case
    proof (cases "k = 0")
      case True
      then show ?thesis using 1 by (simp add: cov_Cons)
    next
      case False
      have "a + c + c * int k \<le> t" using 1 by (simp add: algebra_simps)
      moreover from this have "a + c \<le> t" using 1(3) by (smt (verit) mult_nonneg_nonneg of_nat_0_le_iff)
      ultimately show ?thesis using Suc(1) [of "a + c" "Suc i"] 1 False
        by (simp add: cov_Cons Let_def)
    qed
  next
    case 2
    show ?case
    proof (cases "k = 0")
      case True
      then show ?thesis using 2 by simp
    next
      case False
      have le: "a + c + c * int k \<le> t" using 2 by (simp add: algebra_simps)
      moreover from this have "a + c \<le> t" using 2(3) by (smt (verit) mult_nonneg_nonneg of_nat_0_le_iff)
      ultimately show ?thesis using Suc(2) [of "a + c" "Suc i"] 2 False by (force simp: Let_def)
    qed }
qed simp_all

lemma div_mult_le_int: "0 < n \<Longrightarrow> t div n * n \<le> (t::int)"
  using pos_mod_sign [of n t] div_mult_mod_eq [of t n] by linarith

lemma new_wf:
  assumes "0 < tsize"
  shows "sm_wf tsize (NewSegmentManWithSplit tsize n m)"
proof -
  define k where "k = (if 0 < tsize \<and> tsize < (if n \<le> 0 then 1 else n) then tsize else (if n \<le> 0 then 1 else n))"
  have k: "0 < k" "k \<le> tsize" using assms by (auto simp: k_def)
  have eq: "NewSegmentManWithSplit tsize n m =
      \<lparr>segments = chunk_segments 0 0 (tsize div k) tsize (nat k), nextIdx = 0, totalSize = tsize, minSplitSize = m\<rparr>"
    using assms k unfolding NewSegmentManWithSplit_def Let_def k_def [symmetric] by simp
  have le: "0 + tsize div k * int (nat k) \<le> tsize" using k div_mult_le_int [of k tsize] by simp
  have "0 \<le> tsize div k" using k assms by (simp add: pos_imp_zdiv_nonneg_iff)
  note tile = chunk_segments_tile [OF assms _ this le, where i = 0]
  have "0 < nat k" using k by simp
  then have "chunk_segments 0 0 (tsize div k) tsize (nat k) \<noteq> []"
    by (metis chunk_segments_length length_greater_0_conv)
  then show ?thesis
    unfolding eq sm_wf_def using tile [OF \<open>0 < nat k\<close>] \<open>0 < nat k\<close>
    by (simp add: chunk_segments_Index)
qed

lemma resume_wf:
  assumes "0 < tsize"
  shows "sm_wf tsize (newResumeSegmentMan tsize n m completed)"
proof (cases "n \<le> 1 \<or> completed \<le> 0 \<or> tsize \<le> 0")
  case True
  then show ?thesis using new_wf [OF assms] by (simp add: newResumeSegmentMan_def)
next
  case False
  define c where "c = (if tsize < completed then tsize else completed)"
  have c: "0 < c" "c \<le> tsize" using False by (auto simp: c_def)
  let ?first = "\<lparr>Index = 0, Start = 0, End = c, Written = c, Done = True, Claimed = False\<rparr>"
  show ?thesis
  proof (cases "tsize - c \<le> 0")
    case True
    then have "newResumeSegmentMan tsize n m completed =
        \<lparr>segments = [?first], nextIdx = 0, totalSize = tsize, minSplitSize = m\<rparr>"
      using False unfolding newResumeSegmentMan_def Let_def c_def [symmetric] by simp
    then show ?thesis using c True by (simp add: sm_wf_def cov_Cons)
  next
    case rest: False
    define k where "k = (if tsize - c < n - 1 then tsize - c else n - 1)"
    have k: "0 < k" "k \<le> tsize - c" using False rest by (auto simp: k_def)
    let ?L = "chunk_segments 1 c ((tsize - c) div k) tsize (nat k)"
    have eq: "newResumeSegmentMan tsize n m completed =
        \<lparr>segments = ?first # ?L, nextIdx = 0, totalSize = tsize, minSplitSize = m\<rparr>"
      using False rest k unfolding newResumeSegmentMan_def Let_def c_def [symmetric] k_def [symmetric]
      by simp
    have le: "c + (tsize - c) div k * int (nat k) \<le> tsize"
      using k div_mult_le_int [of k "tsize - c"] by simp
    have "0 \<le> (tsize - c) div k" using k by (simp add: pos_imp_zdiv_nonneg_iff)
    note tile = chunk_segments_tile [OF assms _ this le, where i = 1]
    have pos: "0 < nat k" using k by simp
    have "Index ((?first # ?L) ! j) = j" if "j < Suc (nat k)" for j
      using that chunk_segments_Index [of "j - 1" "nat k" 1] by (cases j) auto
    moreover have "cov (?first # ?L) x = (if 0 \<le> x \<and> x < tsize then 1 else 0)" for x
      using tile(1) [OF pos] c by (auto simp: cov_Cons)
    moreover have "\<forall>s\<in>set (?first # ?L). 0 \<le> Start s \<and> Start s \<le> End s \<and> End s \<le> tsize"
      using tile(2) [OF pos] c by (simp, fastforce)
    moreover have "\<forall>s\<in>set (?first # ?L). \<not> (Done s \<and> Claimed s)" using tile(2) [OF pos] by simp
    ultimately show ?thesis unfolding eq sm_wf_def by simp
  qed
qed

section \<open>Steps\<close>

text \<open>Changing flags and counters of one segment keeps the tiling.\<close>

lemma sm_wf_update:
  assumes wf: "sm_wf tsize sm" and k: "k < length (segments sm)"
    and same: "Start t = Start (segments sm ! k)" "End t = End (segments sm ! k)" "Index t = k"
    and flags: "\<not> (Done t \<and> Claimed t)" and nx: "nx < length (segments sm)"
  shows "sm_wf tsize (sm\<lparr>segments := (segments sm)[k := t], nextIdx := nx\<rparr>)"
proof -
  have bounds: "0 \<le> Start t \<and> Start t \<le> End t \<and> End t \<le> tsize"
    using wf k same by (auto simp: sm_wf_def)
  have "0 \<le> Start s \<and> Start s \<le> End s \<and> End s \<le> tsize \<and> \<not> (Done s \<and> Claimed s)"
    if "s \<in> set ((segments sm)[k := t])" for s
    using that set_update_subset_insert [of "segments sm" k t] wf bounds flags
    by (auto simp: sm_wf_def dest!: subsetD)
  then show ?thesis
    using wf k same nx cov_same_range [OF k same(1,2)]
    by (auto simp: sm_wf_def nth_list_update)
qed

lemma find_circular:
  assumes "find P (map (\<lambda>i. (a + i) mod n) [0..<n]) = Some k" and "0 < (n::nat)"
  shows "k < n \<and> P k"
  using assms by (auto simp: find_Some_iff)

lemma circular_covers:
  assumes "a < n" and "k < (n::nat)"
  shows "k \<in> set (map (\<lambda>i. (a + i) mod n) [0..<n])"
proof -
  let ?i = "(k + (n - a)) mod n"
  have "(a + ?i) mod n = k"
    using assms by (simp add: mod_add_right_eq)
  moreover have "?i < n" using assms by simp
  ultimately show ?thesis by force
qed

lemma Next_Some:
  assumes wf: "sm_wf tsize sm" and "Next sm = (sm', Some i)"
  shows "i < length (segments sm) \<and> claimable (segments sm ! i) \<and>
    segments sm' = (segments sm)[i := (segments sm ! i)\<lparr>Claimed := True\<rparr>] \<and> sm_wf tsize sm'"
proof -
  let ?n = "length (segments sm)"
  have n: "0 < ?n" using wf by (simp add: sm_wf_def)
  obtain f: "find (\<lambda>idx. claimable (segments sm ! idx)) (map (\<lambda>i. (nextIdx sm + i) mod ?n) [0..<?n]) = Some i"
    and sm': "sm' = sm\<lparr>segments := (segments sm)[i := (segments sm ! i)\<lparr>Claimed := True\<rparr>],
      nextIdx := (if ?n \<le> i + 1 then 0 else i + 1)\<rparr>"
    using assms(2) by (auto simp: Next_def Let_def split: option.splits)
  have i: "i < ?n" "claimable (segments sm ! i)" using find_circular [OF f n] by auto
  have "Index (segments sm ! i) = i" using wf i by (simp add: sm_wf_def)
  then have "sm_wf tsize sm'"
    unfolding sm' using sm_wf_update [OF wf i(1)] i n by (simp add: claimable_def)
  with i show ?thesis by (simp add: sm')
qed

lemma Next_None:
  assumes wf: "sm_wf tsize sm"
  shows "snd (Next sm) = None \<longleftrightarrow> (\<forall>s\<in>set (segments sm). \<not> claimable s)"
    and "snd (Next sm) = None \<Longrightarrow> fst (Next sm) = sm"
proof -
  let ?n = "length (segments sm)"
  let ?is = "map (\<lambda>i. (nextIdx sm + i) mod ?n) [0..<?n]"
  have n: "nextIdx sm < ?n" using wf by (simp add: sm_wf_def)
  have "snd (Next sm) = None \<longleftrightarrow> (\<forall>i\<in>set ?is. \<not> claimable (segments sm ! i))"
    using find_None_iff [of "\<lambda>i. claimable (segments sm ! i)" ?is]
    by (auto simp: Next_def Let_def simp del: set_map split: option.splits)
  moreover have "set ?is = {..<?n}"
  proof
    show "set ?is \<subseteq> {..<?n}" using n by (auto intro: mod_less_divisor)
    show "{..<?n} \<subseteq> set ?is" using circular_covers [OF n] by blast
  qed
  ultimately show "snd (Next sm) = None \<longleftrightarrow> (\<forall>s\<in>set (segments sm). \<not> claimable s)"
    by (simp only: all_set_conv_all_nth) blast
  show "snd (Next sm) = None \<Longrightarrow> fst (Next sm) = sm"
    by (auto simp: Next_def Let_def split: option.splits)
qed

lemma Unclaim_wf: "sm_wf tsize sm \<Longrightarrow> sm_wf tsize (Unclaim sm i)"
  using sm_wf_update [of tsize sm "nat i" "(segments sm ! nat i)\<lparr>Claimed := False\<rparr>" "nextIdx sm"]
  by (auto simp: Unclaim_def sm_wf_def)

lemma MarkDone_wf: "sm_wf tsize sm \<Longrightarrow> sm_wf tsize (MarkDone sm i w)"
  using sm_wf_update [of tsize sm "nat i"
      "(segments sm ! nat i)\<lparr>Written := w, Done := True, Claimed := False\<rparr>" "nextIdx sm"]
  by (auto simp: MarkDone_def sm_wf_def)

lemma largest_loop_Some:
  "largest_loop m ss i l r = Some k \<Longrightarrow>
     l = Some k \<or> (i \<le> k \<and> k < i + length ss \<and> \<not> Done (ss ! (k - i)) \<and> Claimed (ss ! (k - i)) \<and>
       wrap64 (2 * m) \<le> End (ss ! (k - i)) - Start (ss ! (k - i)))"
proof (induction ss arbitrary: i l r)
  case (Cons s ss)
  have shift: "(s # ss) ! (k - i) = ss ! (k - Suc i)" if "Suc i \<le> k"
    using that by (simp add: nth_Cons' Suc_diff_le)
  have step: "l = Some k \<or> (i \<le> k \<and> k < i + length (s # ss) \<and> \<not> Done ((s # ss) ! (k - i)) \<and>
      Claimed ((s # ss) ! (k - i)) \<and>
      wrap64 (2 * m) \<le> End ((s # ss) ! (k - i)) - Start ((s # ss) ! (k - i)))"
    if "largest_loop m ss (Suc i) l r = Some k" for l r
    using Cons(1) [OF that] shift by fastforce
  show ?case
    using Cons(2) step [of l r] step [of "Some i" "End s - Start s - Written s"]
    by (auto simp: Let_def split: if_splits)
qed simp

lemma Split_Some:
  assumes wf: "sm_wf tsize sm" and small: "tsize < 2 ^ 62" and sp: "Split sm m = (sm', Some j)"
  obtains k mid where "k < length (segments sm)" and "j = length (segments sm)"
    and "Start (segments sm ! k) \<le> mid" and "mid \<le> End (segments sm ! k)"
    and "mid = (Start (segments sm ! k) + End (segments sm ! k)) div 2"
    and "Claimed (segments sm ! k)" and "\<not> Done (segments sm ! k)"
    and "0 < m" and "wrap64 (2 * m) \<le> End (segments sm ! k) - Start (segments sm ! k)"
    and "sm' = sm\<lparr>segments := (segments sm)[k := (segments sm ! k)\<lparr>End := mid\<rparr>] @
      [\<lparr>Index = j, Start = mid, End = End (segments sm ! k), Written = 0, Done = False,
        Claimed = False\<rparr>], nextIdx := 0\<rparr>"
proof -
  obtain k where k: "largest_loop m (segments sm) 0 None 0 = Some k" and m: "0 < m"
    using sp by (auto simp: Split_def split: if_splits option.splits)
  have kk: "k < length (segments sm)" "\<not> Done (segments sm ! k)" "Claimed (segments sm ! k)"
    "wrap64 (2 * m) \<le> End (segments sm ! k) - Start (segments sm ! k)"
    using largest_loop_Some [OF k] by auto
  let ?s = "segments sm ! k"
  have b: "0 \<le> Start ?s" "Start ?s \<le> End ?s" "End ?s \<le> tsize" using wf kk by (auto simp: sm_wf_def)
  then have "wrap64 (Start ?s + End ?s) = Start ?s + End ?s" using small by simp
  then have mid: "wrap64 (Start ?s + End ?s) sdiv 2 = (Start ?s + End ?s) div 2" using b by simp
  have "Start ?s \<le> (Start ?s + End ?s) div 2" "(Start ?s + End ?s) div 2 \<le> End ?s" using b by linarith+
  moreover have "j = length (segments sm)"
    "sm' = sm\<lparr>segments := (segments sm)[k := ?s\<lparr>End := (Start ?s + End ?s) div 2\<rparr>] @
      [\<lparr>Index = j, Start = (Start ?s + End ?s) div 2, End = End ?s, Written = 0, Done = False,
        Claimed = False\<rparr>], nextIdx := 0\<rparr>"
    using sp k m by (auto simp: Split_def Let_def mid)
  ultimately show ?thesis
    using kk m by (intro that [of k "(Start ?s + End ?s) div 2"]) simp_all
qed

lemma Split_wf:
  assumes wf: "sm_wf tsize sm" and small: "tsize < 2 ^ 62"
  shows "sm_wf tsize (fst (Split sm m))"
proof (cases "snd (Split sm m)")
  case None
  then have "fst (Split sm m) = sm" by (auto simp: Split_def Let_def split: option.splits if_splits)
  with wf show ?thesis by simp
next
  case (Some j)
  then have sp: "Split sm m = (fst (Split sm m), Some j)" by (metis prod.collapse)
  obtain k mid where k: "k < length (segments sm)" and j: "j = length (segments sm)"
    and mid: "Start (segments sm ! k) \<le> mid" "mid \<le> End (segments sm ! k)"
    and sm': "fst (Split sm m) = sm\<lparr>segments := (segments sm)[k := (segments sm ! k)\<lparr>End := mid\<rparr>] @
      [\<lparr>Index = j, Start = mid, End = End (segments sm ! k), Written = 0, Done = False,
        Claimed = False\<rparr>], nextIdx := 0\<rparr>"
    using Split_Some [OF wf small sp] by metis
  let ?s = "segments sm ! k"
  have b: "0 \<le> Start ?s \<and> End ?s \<le> tsize \<and> \<not> (Done ?s \<and> Claimed ?s) \<and> Index ?s = k"
    using wf k by (auto simp: sm_wf_def)
  have "cov (segments (fst (Split sm m))) x = cov (segments sm) x" for x
    using cov_update [OF k, of "?s\<lparr>End := mid\<rparr>" x] mid
    by (auto simp: sm' cov_append cov_Cons split: if_splits)
  moreover have "0 \<le> Start s \<and> Start s \<le> End s \<and> End s \<le> tsize \<and> \<not> (Done s \<and> Claimed s)"
    if "s \<in> set (segments (fst (Split sm m)))" for s
    using that set_update_subset_insert [of "segments sm" k "?s\<lparr>End := mid\<rparr>"] wf b mid
    by (auto simp: sm' sm_wf_def dest!: subsetD)
  moreover have "Index (segments (fst (Split sm m)) ! i) = i"
    if "i < length (segments (fst (Split sm m)))" for i
    using that wf k b j by (auto simp: sm' sm_wf_def nth_append nth_list_update less_Suc_eq)
  ultimately show ?thesis using wf by (simp add: sm_wf_def sm')
qed

section \<open>Runs\<close>

datatype sm_op = OpNext | OpUnclaim int | OpMarkDone int int | OpSplit int

fun sm_exec :: "sm_op \<Rightarrow> SegmentMan \<Rightarrow> SegmentMan \<times> nat option" where
  "sm_exec OpNext sm = Next sm"
| "sm_exec (OpUnclaim i) sm = (Unclaim sm i, None)"
| "sm_exec (OpMarkDone i w) sm = (MarkDone sm i w, None)"
| "sm_exec (OpSplit m) sm = Split sm m"

text \<open>A run: the operations of all workers in the order in which they took the lock, each with
  the segment index it returned.\<close>

inductive sm_run :: "SegmentMan \<Rightarrow> (sm_op \<times> nat option) list \<Rightarrow> SegmentMan \<Rightarrow> bool" where
  run_Nil: "sm_run sm [] sm"
| run_Cons: "sm_exec op sm = (sm', r) \<Longrightarrow> sm_run sm' tr sm'' \<Longrightarrow> sm_run sm ((op, r) # tr) sm''"

inductive_cases sm_run_NilE [elim!]: "sm_run sm [] sm'"
inductive_cases sm_run_ConsE [elim!]: "sm_run sm (x # tr) sm'"

lemma sm_exec_wf:
  assumes wf: "sm_wf tsize sm" and small: "tsize < 2 ^ 62"
  shows "sm_wf tsize (fst (sm_exec op sm))"
proof (cases op)
  case OpNext
  then show ?thesis
    using Next_Some [OF wf] Next_None(2) [OF wf] wf
    by (cases "snd (Next sm)") (auto, metis prod.collapse)
qed (use Unclaim_wf [OF wf] MarkDone_wf [OF wf] Split_wf [OF wf small] in simp_all)

lemma sm_run_wf: "sm_run sm tr sm' \<Longrightarrow> sm_wf tsize sm \<Longrightarrow> tsize < 2 ^ 62 \<Longrightarrow> sm_wf tsize sm'"
proof (induction rule: sm_run.induct)
  case (run_Cons op sm sm' r tr sm'')
  then show ?case using sm_exec_wf [of tsize sm op] by simp
qed

lemma sm_run_append: "sm_run sm (xs @ ys) sm' \<longleftrightarrow> (\<exists>sm1. sm_run sm xs sm1 \<and> sm_run sm1 ys sm')"
proof (induction xs arbitrary: sm)
  case (Cons x xs)
  show ?case
  proof
    assume "sm_run sm ((x # xs) @ ys) sm'"
    then obtain op r sm1 where "x = (op, r)" "sm_exec op sm = (sm1, r)" "sm_run sm1 (xs @ ys) sm'"
      by auto
    then show "\<exists>sm1. sm_run sm (x # xs) sm1 \<and> sm_run sm1 ys sm'"
      using Cons by (metis run_Cons)
  next
    assume "\<exists>sm1. sm_run sm (x # xs) sm1 \<and> sm_run sm1 ys sm'"
    then show "sm_run sm ((x # xs) @ ys) sm'" using Cons by (auto intro: run_Cons)
  qed
qed (auto intro: run_Nil)

text \<open>A segment stays out of the pool until the same index is unclaimed.\<close>

definition taken :: "SegmentMan \<Rightarrow> nat \<Rightarrow> bool" where
  "taken sm i \<longleftrightarrow> i < length (segments sm) \<and> (Done (segments sm ! i) \<or> Claimed (segments sm ! i))"

lemma Split_flags:
  assumes "i < length (segments sm)"
  shows "length (segments sm) \<le> length (segments (fst (Split sm m)))"
    and "Done (segments (fst (Split sm m)) ! i) = Done (segments sm ! i)"
    and "Claimed (segments (fst (Split sm m)) ! i) = Claimed (segments sm ! i)"
  using assms
  by (auto simp: Split_def Let_def nth_append nth_upd split: option.splits)

lemma taken_step:
  assumes "taken sm i" and "op \<noteq> OpUnclaim (int i)"
  shows "taken (fst (sm_exec op sm)) i"
proof (cases op)
  case OpNext
  then show ?thesis using assms(1)
    by (auto simp: taken_def Next_def Let_def nth_upd split: option.splits)
next
  case (OpUnclaim k)
  then have "0 \<le> k \<Longrightarrow> nat k \<noteq> i" using assms(2) by auto
  then show ?thesis using assms OpUnclaim by (auto simp: taken_def Unclaim_def nth_upd)
next
  case (OpMarkDone k w)
  then show ?thesis using assms(1) by (auto simp: taken_def MarkDone_def nth_upd)
next
  case (OpSplit m)
  then show ?thesis using assms(1) Split_flags [of i sm m] by (auto simp: taken_def)
qed

lemma taken_run:
  "sm_run sm tr sm' \<Longrightarrow> taken sm i \<Longrightarrow> OpUnclaim (int i) \<notin> fst ` set tr \<Longrightarrow> taken sm' i"
proof (induction rule: sm_run.induct)
  case (run_Cons op sm sm' r tr sm'')
  then show ?case using taken_step [of sm i op] by auto
qed

text \<open>(C8) Whatever the workers do, in whatever order they take the lock, the segments tile the
  download: in every reachable state each byte of \<open>[0, size)\<close> lies in exactly one segment and
  no segment reaches outside, for a fresh download and for one resumed with a completed prefix.
  Hence once every segment is done, every byte belongs to a finished segment. The size bound
  keeps the midpoint computation of \<open>Split\<close> inside \<open>int64\<close>.\<close>

theorem segments_tile_download:
  assumes "0 < tsize" and "tsize < 2 ^ 62"
    and "sm0 = NewSegmentManWithSplit tsize n m \<or> sm0 = newResumeSegmentMan tsize n m completed"
    and "sm_run sm0 tr sm"
  shows "(\<forall>x. 0 \<le> x \<and> x < tsize \<longrightarrow> (\<exists>!i. i < length (segments sm) \<and>
      Start (segments sm ! i) \<le> x \<and> x < End (segments sm ! i))) \<and>
    (\<forall>s\<in>set (segments sm). 0 \<le> Start s \<and> Start s \<le> End s \<and> End s \<le> tsize)"
proof -
  have wf: "sm_wf tsize sm"
    using assms sm_run_wf [OF assms(4)] new_wf [OF assms(1)] resume_wf [OF assms(1)] by blast
  have "\<exists>!i. i < length (segments sm) \<and> Start (segments sm ! i) \<le> x \<and> x < End (segments sm ! i)"
    if "0 \<le> x" "x < tsize" for x
  proof -
    have "card {i. i < length (segments sm) \<and> Start (segments sm ! i) \<le> x \<and> x < End (segments sm ! i)} = 1"
      using wf that by (simp add: sm_wf_def cov_def length_filter_conv_card)
    then obtain i where "{i. i < length (segments sm) \<and> Start (segments sm ! i) \<le> x \<and>
        x < End (segments sm ! i)} = {i}"
      by (metis card_1_singletonE)
    then show ?thesis by (auto simp: set_eq_iff)
  qed
  then show ?thesis using wf by (simp add: sm_wf_def)
qed

theorem segments_tile_download_witness:
  "\<exists>sm. sm_run (NewSegmentManWithSplit 100 2 10) [(OpNext, Some 0), (OpSplit 10, Some 2)] sm \<and>
    (\<exists>!i. i < length (segments sm) \<and> Start (segments sm ! i) \<le> 30 \<and> 30 < End (segments sm ! i))"
proof -
  let ?init = "NewSegmentManWithSplit 100 2 10"
  let ?sm = "fst (Split (fst (Next ?init)) 10)"
  have run: "sm_run ?init [(OpNext, Some 0), (OpSplit 10, Some 2)] ?sm"
    by (rule run_Cons [of _ _ "fst (Next ?init)"], code_simp)
       (rule run_Cons [of _ _ ?sm], code_simp, rule run_Nil)
  have "\<exists>!i. i < length (segments ?sm) \<and> Start (segments ?sm ! i) \<le> 30 \<and> 30 < End (segments ?sm ! i)"
    using segments_tile_download [OF _ _ _ run, of 100 2 10 0] by simp
  with run show ?thesis by (intro exI [of _ ?sm] conjI)
qed

text \<open>(C9) Two workers never hold the same segment: between two claims of the same index some worker
  has given it back with \<open>Unclaim\<close>. A segment that was marked done is not handed out again
  even then, because \<open>Unclaim\<close> leaves done segments alone.\<close>

theorem no_double_claim:
  assumes "0 < tsize" and "tsize < 2 ^ 62"
    and "sm_run (NewSegmentManWithSplit tsize n m) (pre @ (OpNext, Some i) # tr @ [(OpNext, Some i)]) sm"
  shows "OpUnclaim (int i) \<in> fst ` set tr"
proof (rule ccontr)
  assume no: "OpUnclaim (int i) \<notin> fst ` set tr"
  obtain sm1 sm2 sm3 where run: "sm_run (NewSegmentManWithSplit tsize n m) pre sm1"
    "Next sm1 = (sm2, Some i)" "sm_run sm2 tr sm3" "snd (Next sm3) = Some i"
    using assms(3) by (auto simp: sm_run_append)
  have wf1: "sm_wf tsize sm1" using sm_run_wf [OF run(1)] new_wf assms by blast
  note n1 = Next_Some [OF wf1 run(2)]
  then have "taken sm2 i" by (auto simp: taken_def)
  then have "taken sm3 i" using taken_run [OF run(3)] no by blast
  moreover have "sm_wf tsize sm3" using sm_run_wf [OF run(3)] n1 assms(2) by blast
  then have "claimable (segments sm3 ! i)" using Next_Some run(4) by (metis prod.collapse)
  ultimately show False by (auto simp: taken_def claimable_def)
qed

theorem no_double_claim_witness:
  "OpUnclaim 0 \<in> fst ` set [(OpUnclaim 0, None :: nat option), (OpNext, Some 1)]"
proof -
  let ?init = "NewSegmentManWithSplit 100 2 10"
  let ?a = "fst (Next ?init)"
  let ?b = "Unclaim ?a 0"
  let ?c = "fst (Next ?b)"
  have "sm_run ?init ([] @ (OpNext, Some 0) # [(OpUnclaim 0, None), (OpNext, Some 1)] @ [(OpNext, Some 0)])
      (fst (Next ?c))"
    by (simp only: append_Nil append_Cons, rule run_Cons [of _ _ ?a], code_simp)
       (rule run_Cons [of _ _ ?b], simp, rule run_Cons [of _ _ ?c], code_simp,
        rule run_Cons [of _ _ "fst (Next ?c)"], code_simp, rule run_Nil)
  then show ?thesis
    using no_double_claim [of 100 2 10 "[]" 0 "[(OpUnclaim 0, None), (OpNext, Some 1)]"] by simp
qed

text \<open>\<open>Next\<close> misses nothing: it returns no segment exactly when every segment is claimed or
  done, so while work is left and nobody holds it, some worker gets it.\<close>

lemma next_none_iff_exhausted:
  assumes "0 < tsize" and "tsize < 2 ^ 62" and "sm_run (NewSegmentManWithSplit tsize n m) tr sm"
  shows "snd (Next sm) = None \<longleftrightarrow> (\<forall>s\<in>set (segments sm). Done s \<or> Claimed s)"
proof -
  have "sm_wf tsize sm" using sm_run_wf [OF assms(3)] new_wf assms by blast
  then show ?thesis using Next_None(1) by (auto simp: claimable_def)
qed

theorem next_none_iff_exhausted_witness:
  "snd (Next (NewSegmentManWithSplit 100 2 10)) = None \<longleftrightarrow>
    (\<forall>s\<in>set (segments (NewSegmentManWithSplit 100 2 10)). Done s \<or> Claimed s)"
  using next_none_iff_exhausted [of 100 2 10 "[]"] run_Nil by simp

text \<open>With a split size that does not overflow when doubled, both halves are at least that long.\<close>

lemma split_halves_long:
  assumes "sm_wf tsize sm" and "tsize < 2 ^ 62" and "Split sm m = (sm', Some j)" and "m < 2 ^ 62"
  shows "m \<le> End (segments sm' ! j) - Start (segments sm' ! j)"
proof (rule Split_Some [OF assms(1-3)], goal_cases)
  case (1 k mid)
  have "wrap64 (2 * m) = 2 * m" using assms(4) 1(8) by simp
  then have "2 * m \<le> End (segments sm ! k) - Start (segments sm ! k)" using 1(9) by simp
  then show ?case using 1 by (simp add: nth_append)
qed

end
