(* ===== verification/Control.thy ===== *)
theory Control
  imports Bitfield Progress Segments
begin

unbundle bit_operations_syntax

text \<open>
  Resume state of one download, from \<open>src/internal/engine/engine.go\<close>: the control information
  (an \<open>Info\<close> of \<open>Progress\<close>), the per-piece byte counts and the functions on them. The
  bit functions are a second implementation of the \<open>bitfield\<close> contract. Shown here: writes
  that do not overlap mark exactly the pieces whose bytes have all arrived, a bitfield
  converted to another piece length never claims a byte the old one did not, and the
  segments built from a bitfield cover exactly the missing bytes.

  Piece sizes and positions are \<open>int\<close>; the lemmas assume \<open>total + pieceLen < 2 ^ 63\<close>, under
  which no sum below leaves \<open>int64\<close>.
\<close>

section \<open>Geometry of pieces\<close>

definition controlNumPieces :: "int \<Rightarrow> int \<Rightarrow> int" where
  "controlNumPieces total_len pieceLen =
     (if total_len \<le> 0 \<or> pieceLen \<le> 0 then 0 else wrap64 (total_len + pieceLen - 1) sdiv pieceLen)"

definition controlBitfieldLen :: "int \<Rightarrow> int" where
  "controlBitfieldLen pieces = (if pieces \<le> 0 then 0 else (pieces + 7) sdiv 8)"

definition controlPieceSize :: "int \<Rightarrow> int \<Rightarrow> int \<Rightarrow> int" where
  "controlPieceSize total_len pieceLen index =
     (let start = index * pieceLen in
      if total_len \<le> start then 0
      else let end = wrap64 (start + pieceLen);
               end = (if total_len < end then total_len else end)
           in end - start)"

definition controlBit :: "byte list \<Rightarrow> int \<Rightarrow> bool" where
  "controlBit bf index =
     (if index < 0 \<or> int (length bf) \<le> index sdiv 8 then False
      else (bf ! (nat index div 8)) AND push_bit (7 - nat index mod 8) 1 \<noteq> 0)"

definition setControlBit :: "byte list \<Rightarrow> int \<Rightarrow> bool \<Rightarrow> byte list" where
  "setControlBit bf index ok =
     (if index < 0 \<or> int (length bf) \<le> index sdiv 8 then bf
      else let mask = push_bit (7 - nat index mod 8) 1 in
        if ok then bf[nat index div 8 := (bf ! (nat index div 8)) OR mask]
        else bf[nat index div 8 := (bf ! (nat index div 8)) AND NOT mask])"

section \<open>Control information\<close>

definition newControlInfo :: "int \<Rightarrow> int \<Rightarrow> byte list \<Rightarrow> Info" where
  "newControlInfo total_len pieceLen infoHash =
     \<lparr>InfoHash = infoHash, PieceLength = pieceLen, TotalLength = total_len, UploadLength = 0,
      InfoBitfield = replicate (nat (controlBitfieldLen (controlNumPieces total_len pieceLen))) 0,
      InFlight = []\<rparr>"

definition controlInfoMatchesRequest :: "Info option \<Rightarrow> int \<Rightarrow> int \<Rightarrow> byte list \<Rightarrow> bool" where
  "controlInfoMatchesRequest info expectedTotal expectedPieceLen infoHash =
     (case info of None \<Rightarrow> False | Some info \<Rightarrow>
        if PieceLength info \<le> 0 \<or> TotalLength info < 0 then False
        else if 0 \<le> expectedTotal \<and> TotalLength info \<noteq> expectedTotal then False
        else if 0 < expectedPieceLen \<and> PieceLength info \<noteq> expectedPieceLen then False
        else if (if infoHash = [] then InfoHash info \<noteq> [] else InfoHash info \<noteq> infoHash) then False
        else int (length (InfoBitfield info)) =
          controlBitfieldLen (controlNumPieces (TotalLength info) (PieceLength info)))"

text \<open>The inner loop of \<open>convertControlBitfield\<close>, which asks whether \<open>[pos, end)\<close> lies in set
  source pieces. The source piece length is positive: \<open>normalizeControlInfo\<close> has checked it.\<close>

function range_set :: "byte list \<Rightarrow> int \<Rightarrow> int \<Rightarrow> int \<Rightarrow> bool" where
  "range_set src srcPieceLen pos end =
     (if end \<le> pos then True
      else if srcPieceLen \<le> 0 \<or> pos < 0 then False
      else
        let srcIdx = pos sdiv srcPieceLen in
        if \<not> controlBit src srcIdx then False
        else let nxt = (srcIdx + 1) * srcPieceLen;
                 nxt = (if end < nxt then end else nxt)
             in range_set src srcPieceLen nxt end)"
  by pat_completeness auto
termination
proof (relation "measure (\<lambda>(src, pl, pos, end). nat (end - pos))", goal_cases)
  case (2 src pl pos e idx n n')
  then have pl: "0 < pl" by simp
  have "pos < (pos div pl + 1) * pl"
    using pos_mod_bound [OF pl, of pos] div_mult_mod_eq [of pos pl] unfolding distrib_right by linarith
  then show ?case using 2 by auto
qed simp

declare range_set.simps [simp del]

definition convertControlBitfield :: "byte list \<Rightarrow> int \<Rightarrow> int \<Rightarrow> int \<Rightarrow> byte list" where
  "convertControlBitfield src total_len srcPieceLen dstPieceLen =
     (let dstPieces = controlNumPieces total_len dstPieceLen in
      fold (\<lambda>i dst.
          let start = int i * dstPieceLen;
              end = start + controlPieceSize total_len dstPieceLen (int i)
          in if range_set src srcPieceLen start end then setControlBit dst (int i) True else dst)
        [0..<nat dstPieces] (replicate (nat (controlBitfieldLen dstPieces)) 0))"

text \<open>\<open>allowChange\<close> is \<open>opts != nil && opts.AllowPieceLengthChange\<close>.\<close>

definition normalizeControlInfo ::
  "Info option \<Rightarrow> int \<Rightarrow> int \<Rightarrow> byte list \<Rightarrow> bool \<Rightarrow> Info option" where
  "normalizeControlInfo info total_len pieceLen infoHash allowChange =
     (case info of None \<Rightarrow> None | Some info \<Rightarrow>
        if TotalLength info \<noteq> total_len \<or> PieceLength info \<le> 0 then None
        else if (if infoHash = [] then InfoHash info \<noteq> [] else InfoHash info \<noteq> infoHash) then None
        else if PieceLength info \<noteq> pieceLen then
          if \<not> allowChange then None
          else Some \<lparr>InfoHash = infoHash, PieceLength = pieceLen, TotalLength = total_len,
                     UploadLength = 0,
                     InfoBitfield = convertControlBitfield (InfoBitfield info) total_len
                       (PieceLength info) pieceLen,
                     InFlight = []\<rparr>
        else if int (length (InfoBitfield info)) \<noteq>
            controlBitfieldLen (controlNumPieces total_len pieceLen) then None
        else Some info)"

definition seedControlPieceBytes :: "Info \<Rightarrow> int list" where
  "seedControlPieceBytes info =
     map (\<lambda>i. if controlBit (InfoBitfield info) (int i)
              then controlPieceSize (TotalLength info) (PieceLength info) (int i) else 0)
       [0..<nat (controlNumPieces (TotalLength info) (PieceLength info))]"

definition controlContiguousLength :: "Info \<Rightarrow> int" where
  "controlContiguousLength info =
     sum_list (map (\<lambda>i. controlPieceSize (TotalLength info) (PieceLength info) (int i))
       (takeWhile (\<lambda>i. controlBit (InfoBitfield info) (int i))
         [0..<nat (controlNumPieces (TotalLength info) (PieceLength info))]))"

definition controlCompletedLength :: "Info \<Rightarrow> int" where
  "controlCompletedLength info =
     sum_list (map (\<lambda>i. if controlBit (InfoBitfield info) (int i)
         then controlPieceSize (TotalLength info) (PieceLength info) (int i) else 0)
       [0..<nat (controlNumPieces (TotalLength info) (PieceLength info))])"

section \<open>Recording writes\<close>

record control =
  controlInfo :: "Info option"
  controlPieceBytes :: "int list"

definition max64 :: "int \<Rightarrow> int \<Rightarrow> int" where
  "max64 a b = (if b < a then a else b)"

definition min64 :: "int \<Rightarrow> int \<Rightarrow> int" where
  "min64 a b = (if a < b then a else b)"

text \<open>One turn of the loop of \<open>markControlWritten\<close>, on the bitfield, the byte counts and the
  list of completed pieces.\<close>

definition mark_piece_written ::
  "int \<Rightarrow> int \<Rightarrow> int \<Rightarrow> int \<Rightarrow> nat \<Rightarrow> byte list \<times> int list \<times> nat list \<Rightarrow> byte list \<times> int list \<times> nat list" where
  "mark_piece_written total_len pieceLen start end i st =
     (case st of (bf, pieceBytes, completed) \<Rightarrow>
      if controlBit bf (int i) then st
      else
        let pieceStart = int i * pieceLen;
            pieceEnd = pieceStart + controlPieceSize total_len pieceLen (int i);
            overlapStart = max64 start pieceStart;
            overlapEnd = min64 end pieceEnd
        in if overlapEnd \<le> overlapStart then st
           else
             let n = pieceBytes ! i + (overlapEnd - overlapStart) in
             if pieceEnd - pieceStart \<le> n
             then (setControlBit bf (int i) True, pieceBytes[i := pieceEnd - pieceStart], completed @ [i])
             else (bf, pieceBytes[i := n], completed))"

definition markControlWritten :: "control \<Rightarrow> int \<Rightarrow> int \<Rightarrow> control \<times> nat list" where
  "markControlWritten c start len =
     (if len \<le> 0 then (c, [])
      else case controlInfo c of None \<Rightarrow> (c, []) | Some info \<Rightarrow>
        if PieceLength info \<le> 0 \<or> TotalLength info \<le> 0 then (c, [])
        else
          let end = wrap64 (start + len);
              end = (if TotalLength info < end then TotalLength info else end)
          in if start < 0 \<or> end \<le> start then (c, [])
             else
               let pieces = controlNumPieces (TotalLength info) (PieceLength info);
                   pieceBytes = (if int (length (controlPieceBytes c)) \<noteq> pieces
                                 then seedControlPieceBytes info else controlPieceBytes c);
                   first = nat (start sdiv PieceLength info);
                   last = nat ((end - 1) sdiv PieceLength info);
                   (bf, pieceBytes, completed) =
                     fold (mark_piece_written (TotalLength info) (PieceLength info) start end)
                       [first..<min (Suc last) (nat pieces)] (InfoBitfield info, pieceBytes, [])
               in (c\<lparr>controlInfo := Some (info\<lparr>InfoBitfield := bf\<rparr>), controlPieceBytes := pieceBytes\<rparr>,
                   completed))"

definition markControlPiece :: "control \<Rightarrow> int \<Rightarrow> bool \<Rightarrow> control" where
  "markControlPiece c index ok =
     (case controlInfo c of None \<Rightarrow> c | Some info \<Rightarrow>
        let pieces = controlNumPieces (TotalLength info) (PieceLength info) in
        if index < 0 \<or> pieces \<le> index then c
        else
          let info = info\<lparr>InfoBitfield := setControlBit (InfoBitfield info) index ok\<rparr>;
              pieceBytes = (if int (length (controlPieceBytes c)) \<noteq> pieces
                            then seedControlPieceBytes info else controlPieceBytes c);
              n = (if ok then controlPieceSize (TotalLength info) (PieceLength info) index else 0)
          in c\<lparr>controlInfo := Some info, controlPieceBytes := pieceBytes[nat index := n]\<rparr>)"

section \<open>Segments of the missing pieces\<close>

function missing_run_end :: "byte list \<Rightarrow> nat \<Rightarrow> nat \<Rightarrow> nat" where
  "missing_run_end bf n i =
     (if i < n \<and> \<not> controlBit bf (int i) then missing_run_end bf n (Suc i) else i)"
  by pat_completeness auto
termination by (relation "measure (\<lambda>(bf, n, i). n - i)") auto

declare missing_run_end.simps [simp del]

lemma missing_run_end_spec:
  "i \<le> n \<Longrightarrow> i \<le> missing_run_end bf n i \<and> missing_run_end bf n i \<le> n \<and>
     (missing_run_end bf n i < n \<longrightarrow> controlBit bf (int (missing_run_end bf n i))) \<and>
     (\<forall>k. i \<le> k \<and> k < missing_run_end bf n i \<longrightarrow> \<not> controlBit bf (int k))"
proof (induction bf n i rule: missing_run_end.induct)
  case (1 bf n i)
  show ?case
  proof (cases "i < n \<and> \<not> controlBit bf (int i)")
    case True
    then have "missing_run_end bf n i = missing_run_end bf n (Suc i)" by (simp add: missing_run_end.simps)
    moreover have "i \<le> k \<Longrightarrow> k = i \<or> Suc i \<le> k" for k by linarith
    ultimately show ?thesis using 1(1) [OF True] True by (metis Suc_leD Suc_leI)
  next
    case False
    then have "missing_run_end bf n i = i" by (simp add: missing_run_end.simps)
    with False 1(2) show ?thesis by auto
  qed
qed

lemma missing_run_end_gt: "i < n \<Longrightarrow> \<not> controlBit bf (int i) \<Longrightarrow> i < missing_run_end bf n i"
  using missing_run_end_spec [of "Suc i" n bf] by (subst missing_run_end.simps) simp

function control_segments :: "int \<Rightarrow> int \<Rightarrow> byte list \<Rightarrow> nat \<Rightarrow> nat \<Rightarrow> Segment list \<Rightarrow> Segment list" where
  "control_segments total_len pieceLen bf n i segs =
     (if i < n then
        if controlBit bf (int i) then control_segments total_len pieceLen bf n (Suc i) segs
        else
          let j = missing_run_end bf n i;
              start = int i * pieceLen;
              end = (int j - 1) * pieceLen + controlPieceSize total_len pieceLen (int j - 1)
          in control_segments total_len pieceLen bf n j
               (segs @ [\<lparr>Index = length segs, Start = start, End = end, Written = 0, Done = False,
                         Claimed = False\<rparr>])
      else segs)"
  by pat_completeness auto
termination
  by (relation "measure (\<lambda>(t, pl, bf, n, i, segs). n - i)")
     (auto intro: diff_less_mono2 missing_run_end_gt)

declare control_segments.simps [simp del]

definition newControlSegmentMan :: "int \<Rightarrow> int \<Rightarrow> byte list \<Rightarrow> SegmentMan" where
  "newControlSegmentMan total_len pieceLen bf =
     \<lparr>segments = control_segments total_len pieceLen bf (nat (controlNumPieces total_len pieceLen)) 0 [],
      nextIdx = 0, totalSize = total_len, minSplitSize = 0\<rparr>"

section \<open>The bit functions implement the contract\<close>

lemma push_bit_one_byte: "(2 :: byte) ^ (7 - i mod 8) = bit_mask i"
proof (rule bit_eqI)
  fix k assume "possible_bit TYPE(byte) k"
  then show "bit ((2 :: byte) ^ (7 - i mod 8)) k = bit (bit_mask i) k"
    by (auto simp: bit_bit_mask bit_exp_iff)
qed

lemma controlBit_testBit: "controlBit b (int i) \<longleftrightarrow> i < 8 * length b \<and> testBit b i"
proof -
  have "int (length b) \<le> int i sdiv 8 \<longleftrightarrow> length b \<le> i div 8"
    by (simp flip: zdiv_int [of i 8, simplified])
  also have "\<dots> \<longleftrightarrow> \<not> i < 8 * length b"
    by (simp add: less_eq_div_iff_mult_less_eq mult.commute not_less)
  finally show ?thesis by (simp add: controlBit_def testBit_def push_bit_one_byte)
qed

lemma setControlBit_setBitVal: "i < 8 * length b \<Longrightarrow> setControlBit b (int i) v = setBitVal b i v"
proof -
  assume "i < 8 * length b"
  then have "i div 8 < length b" by (rule div_8_less)
  then have "\<not> int (length b) \<le> int i sdiv 8"
    by (simp flip: zdiv_int [of i 8, simplified])
  then show ?thesis by (simp add: setControlBit_def setBitVal_def push_bit_one_byte Let_def)
qed

lemma length_setControlBit [simp]: "length (setControlBit b i v) = length b"
  by (simp add: setControlBit_def Let_def)

interpretation ctlbits: bitfield "\<lambda>b. 8 * length b" "\<lambda>b i. controlBit b (int i)"
  "\<lambda>b i v. setControlBit b (int i) v"
  by unfold_locales (auto simp: controlBit_testBit setControlBit_setBitVal testBit_setBitVal)

section \<open>Pieces as byte ranges\<close>

definition geom_ok :: "int \<Rightarrow> int \<Rightarrow> bool" where
  "geom_ok total_len pl \<longleftrightarrow> 0 < total_len \<and> 0 < pl \<and> total_len + pl < 2 ^ 63"

definition piece_bytes :: "int \<Rightarrow> int \<Rightarrow> int \<Rightarrow> int set" where
  "piece_bytes total_len pl i = {x. 0 \<le> x \<and> x < total_len \<and> x div pl = i}"

lemma numPieces_bounds:
  assumes "geom_ok total_len pl"
  shows "0 < controlNumPieces total_len pl"
    and "(controlNumPieces total_len pl - 1) * pl < total_len"
    and "total_len \<le> controlNumPieces total_len pl * pl"
proof -
  have g: "0 < total_len" "0 < pl" "total_len + pl < 2 ^ 63" using assms by (auto simp: geom_ok_def)
  let ?n = "(total_len + pl - 1) div pl"
  have n: "controlNumPieces total_len pl = ?n" using g by (simp add: controlNumPieces_def)
  have "?n * pl \<le> total_len + pl - 1 \<and> total_len + pl - 1 < (?n + 1) * pl"
    using div_eq_iff_int [OF g(2)] by blast
  then show "(controlNumPieces total_len pl - 1) * pl < total_len"
    and "total_len \<le> controlNumPieces total_len pl * pl"
    unfolding n by (simp_all add: algebra_simps)
  show "0 < controlNumPieces total_len pl" unfolding n using g by (simp add: pos_imp_zdiv_pos_iff)
qed

lemma piece_index_bounds:
  assumes g: "geom_ok total_len pl" and x: "0 \<le> x" "x < total_len"
  shows "0 \<le> x div pl" and "x div pl < controlNumPieces total_len pl"
proof -
  have pl: "0 < pl" using g by (simp add: geom_ok_def)
  then show "0 \<le> x div pl" using x by (simp add: pos_imp_zdiv_nonneg_iff)
  have "x div pl * pl \<le> x" using div_eq_iff_int [OF pl, of x "x div pl"] by simp
  then have "x div pl * pl < controlNumPieces total_len pl * pl"
    using numPieces_bounds(3) [OF g] x by linarith
  then show "x div pl < controlNumPieces total_len pl"
    using pl mult_less_cancel_right_pos by blast
qed

lemma piece_start_less:
  assumes g: "geom_ok total_len pl" and i: "0 \<le> i" "i < controlNumPieces total_len pl"
  shows "i * pl < total_len"
proof -
  have "i * pl \<le> (controlNumPieces total_len pl - 1) * pl"
    using i g by (intro mult_right_mono) (auto simp: geom_ok_def)
  then show ?thesis using numPieces_bounds(2) [OF g] by linarith
qed

lemma controlPieceSize_eq:
  assumes g: "geom_ok total_len pl" and i: "0 \<le> i" "i < controlNumPieces total_len pl"
  shows "controlPieceSize total_len pl i = min ((i + 1) * pl) total_len - i * pl"
    and "0 < controlPieceSize total_len pl i"
proof -
  have lt: "i * pl < total_len" by (rule piece_start_less [OF assms])
  have "0 \<le> i * pl" using i g by (simp add: geom_ok_def)
  then have "wrap64 (i * pl + pl) = i * pl + pl" using lt g by (simp add: geom_ok_def)
  then show "controlPieceSize total_len pl i = min ((i + 1) * pl) total_len - i * pl"
    using lt by (simp add: controlPieceSize_def Let_def distrib_right min_def)
  then show "0 < controlPieceSize total_len pl i"
    using lt g by (simp add: distrib_right geom_ok_def)
qed

lemma piece_bytes_interval:
  assumes g: "geom_ok total_len pl" and i: "0 \<le> i" "i < controlNumPieces total_len pl"
  shows "piece_bytes total_len pl i = {i * pl..<i * pl + controlPieceSize total_len pl i}"
proof -
  have pl: "0 < pl" and "0 \<le> i * pl" using i g by (auto simp: geom_ok_def)
  then show ?thesis
    unfolding piece_bytes_def div_eq_iff_int [OF pl] controlPieceSize_eq(1) [OF assms] by auto
qed

lemma card_piece_bytes:
  assumes "geom_ok total_len pl" and "0 \<le> i" "i < controlNumPieces total_len pl"
  shows "int (card (piece_bytes total_len pl i)) = controlPieceSize total_len pl i"
    and "finite (piece_bytes total_len pl i)"
  using controlPieceSize_eq(2) [OF assms] by (simp_all add: piece_bytes_interval [OF assms])

section \<open>Segments cover exactly the missing bytes\<close>

lemma control_segments_cov:
  assumes g: "geom_ok total_len pl" and n: "n = nat (controlNumPieces total_len pl)" and "i \<le> n"
  shows "cov (control_segments total_len pl bf n i segs) x =
    cov segs x + (if int i * pl \<le> x \<and> x < total_len \<and> \<not> controlBit bf (x div pl) then 1 else 0)"
  using assms(3)
proof (induction "n - i" arbitrary: i segs rule: less_induct)
  case less
  have pl: "0 < pl" using g by (simp add: geom_ok_def)
  have N: "int n = controlNumPieces total_len pl" using n numPieces_bounds(1) [OF g] by simp
  show ?case
  proof (cases "i < n")
    case False
    then have "total_len \<le> int i * pl" using numPieces_bounds(3) [OF g] less(2) N by simp
    then show ?thesis using False by (subst control_segments.simps) simp
  next
    case i: True
    show ?thesis
    proof (cases "controlBit bf (int i)")
      case True
      have eq: "control_segments total_len pl bf n i segs = control_segments total_len pl bf n (Suc i) segs"
        using i True by (subst control_segments.simps) simp
      have "\<not> controlBit bf (x div pl) \<Longrightarrow> int i * pl \<le> x \<Longrightarrow> int (Suc i) * pl \<le> x"
        using True div_eq_iff_int [OF pl, of x "int i"] by (auto simp: add.commute not_less)
      moreover have "int i * pl \<le> int (Suc i) * pl" using pl by (intro mult_right_mono) auto
      ultimately show ?thesis unfolding eq using less(1) [of "Suc i" segs] i by auto
    next
      case False
      define j where "j = missing_run_end bf n i"
      have j: "i < j" "j \<le> n" "\<forall>k. i \<le> k \<and> k < j \<longrightarrow> \<not> controlBit bf (int k)"
        using missing_run_end_spec [of i n bf] missing_run_end_gt [OF i False] i by (auto simp: j_def)
      let ?stop = "(int j - 1) * pl + controlPieceSize total_len pl (int j - 1)"
      let ?s = "\<lparr>Index = length segs, Start = int i * pl, End = ?stop, Written = 0, Done = False,
        Claimed = False\<rparr>"
      have eq: "control_segments total_len pl bf n i segs = control_segments total_len pl bf n j (segs @ [?s])"
        using i False by (subst control_segments.simps) (simp add: j_def Let_def)
      have e: "?stop = min (int j * pl) total_len"
        using controlPieceSize_eq(1) [OF g, of "int j - 1"] j N by simp
      have clear: "\<not> controlBit bf (x div pl)" if "int i * pl \<le> x" "x < int j * pl"
      proof -
        have "int i \<le> x div pl" and "x div pl < int j"
          using that by (simp_all add: le_div_iff_int [OF pl] div_less_iff_int [OF pl])
        then have "i \<le> nat (x div pl)" "nat (x div pl) < j" "int (nat (x div pl)) = x div pl" by auto
        then show ?thesis using j(3) by metis
      qed
      have "int i * pl < int j * pl" using j pl by simp
      then show ?thesis
        unfolding eq using less(1) [of j "segs @ [?s]"] i j clear
        by (auto simp: cov_append cov_Cons e)
    qed
  qed
qed

lemma newControlSegmentMan_cov:
  assumes g: "geom_ok total_len pl"
  shows "cov (segments (newControlSegmentMan total_len pl bf)) x =
    (if 0 \<le> x \<and> x < total_len \<and> \<not> controlBit bf (x div pl) then 1 else 0)"
  using control_segments_cov [OF g refl, of 0 bf "[]" x] by (simp add: newControlSegmentMan_def)

section \<open>Conversion to another piece length\<close>

lemma range_set_iff:
  assumes pl: "0 < pl"
  shows "0 \<le> pos \<Longrightarrow> range_set src pl pos e \<longleftrightarrow> (\<forall>x. pos \<le> x \<and> x < e \<longrightarrow> controlBit src (x div pl))"
proof (induction "nat (e - pos)" arbitrary: pos rule: less_induct)
  case less
  show ?case
  proof (cases "e \<le> pos")
    case True
    then show ?thesis by (subst range_set.simps) auto
  next
    case False
    define q where "q = pos div pl"
    define nxt where "nxt = min ((q + 1) * pl) e"
    have q: "q * pl \<le> pos" "pos < (q + 1) * pl" using div_eq_iff_int [OF pl, of pos q] by (auto simp: q_def)
    have nxt: "pos < nxt" "nxt \<le> e" using q False by (auto simp: nxt_def)
    have eq: "range_set src pl pos e \<longleftrightarrow> controlBit src q \<and> range_set src pl nxt e"
      using False less(2) pl by (subst range_set.simps) (auto simp: Let_def q_def nxt_def min_def)
    have "x div pl = q" if "pos \<le> x" "x < nxt" for x
      using that q div_eq_iff_int [OF pl, of x q] by (auto simp: nxt_def)
    moreover have "range_set src pl nxt e \<longleftrightarrow> (\<forall>x. nxt \<le> x \<and> x < e \<longrightarrow> controlBit src (x div pl))"
      using less(1) [of nxt] nxt less(2) by auto
    moreover have "(\<forall>x. pos \<le> x \<and> x < e \<longrightarrow> controlBit src (x div pl)) \<longleftrightarrow>
        (\<forall>x. pos \<le> x \<and> x < nxt \<longrightarrow> controlBit src (x div pl)) \<and>
        (\<forall>x. nxt \<le> x \<and> x < e \<longrightarrow> controlBit src (x div pl))"
      using nxt by (intro iffI conjI allI impI) (auto simp: not_le dest: spec split: if_splits
          intro: le_less_linear [of nxt, THEN disjE])
    ultimately show ?thesis unfolding eq using nxt by (metis order_refl)
  qed
qed

lemma convert_bits:
  assumes g: "geom_ok total_len dpl" and spl: "0 < spl" and i: "i < nat (controlNumPieces total_len dpl)"
  shows "controlBit (convertControlBitfield src total_len spl dpl) (int i) \<longleftrightarrow>
    (\<forall>x\<in>piece_bytes total_len dpl (int i). controlBit src (x div spl))"
proof -
  let ?n = "controlNumPieces total_len dpl"
  let ?Q = "\<lambda>i. range_set src spl (int i * dpl) (int i * dpl + controlPieceSize total_len dpl (int i))"
  let ?z = "replicate (nat (controlBitfieldLen ?n)) 0"
  have n: "0 < ?n" by (rule numPieces_bounds(1) [OF g])
  then have len: "nat ?n \<le> 8 * length ?z" by (simp add: controlBitfieldLen_def)
  have "\<not> controlBit ?z (int i)" using len i by (simp add: controlBit_testBit testBit_bit div_8_less)
  moreover have "convertControlBitfield src total_len spl dpl =
      fold (\<lambda>i b. if ?Q i then setControlBit b (int i) True else b) [0..<nat ?n] ?z"
    unfolding convertControlBitfield_def Let_def by (rule refl)
  ultimately have "controlBit (convertControlBitfield src total_len spl dpl) (int i) \<longleftrightarrow> ?Q i"
    using ctlbits.test_fold_if [of "[0..<nat ?n]" ?z ?Q True i] len i by auto
  moreover have "0 \<le> int i * dpl" using g by (simp add: geom_ok_def)
  ultimately show ?thesis
    using range_set_iff [OF spl] piece_bytes_interval [OF g, of "int i"] i n by (simp add: Ball_def)
qed

section \<open>Recording writes marks exactly the pieces that are complete\<close>

text \<open>\<open>W\<close> is the set of bytes written so far. The count of an unmarked piece is the number of its
  bytes in \<open>W\<close>, which is less than the piece; a marked piece lies in \<open>W\<close>.\<close>

definition piece_inv :: "int \<Rightarrow> int \<Rightarrow> int set \<Rightarrow> byte list \<Rightarrow> int list \<Rightarrow> nat \<Rightarrow> bool" where
  "piece_inv len pl W bf pb i \<longleftrightarrow>
     (if controlBit bf (int i) then piece_bytes len pl (int i) \<subseteq> W
      else pb ! i = int (card (piece_bytes len pl (int i) \<inter> W)) \<and> pb ! i < controlPieceSize len pl (int i))"

lemma mark_piece_step:
  assumes g: "geom_ok len pl" and i: "i < nat (controlNumPieces len pl)"
    and lens: "i < 8 * length bf" "i < length pb"
    and disj: "W \<inter> {s..<e} = {}" and inv: "piece_inv len pl W bf pb i"
    and res: "mark_piece_written len pl s e i (bf, pb, done_ps) = (bf', pb', done_ps')"
  shows "piece_inv len pl (W \<union> {s..<e}) bf' pb' i" and "length bf' = length bf" and "length pb' = length pb"
    and "k \<noteq> i \<Longrightarrow> controlBit bf' (int k) = controlBit bf (int k) \<and> pb' ! k = pb ! k"
    and "done_ps' = done_ps @ (if controlBit bf' (int i) \<and> \<not> controlBit bf (int i) then [i] else [])"
proof -
  define ps where "ps = int i * pl"
  define pe where "pe = ps + controlPieceSize len pl (int i)"
  have i': "0 \<le> int i" "int i < controlNumPieces len pl" using i by auto
  let ?P = "piece_bytes len pl (int i)"
  have P: "?P = {ps..<pe}" using piece_bytes_interval [OF g i'] by (simp add: ps_def pe_def)
  have fin: "finite ?P" and size: "int (card ?P) = pe - ps"
    using card_piece_bytes [OF g i'] by (simp_all add: pe_def)
  have "?P \<inter> {s..<e} = {max s ps..<min e pe}" unfolding P by auto
  then have ov: "int (card (?P \<inter> {s..<e})) = max 0 (min e pe - max s ps)"
    by (simp only: card_atLeastLessThan_int int_nat_eq) (simp add: max_def)
  have sum: "int (card (?P \<inter> (W \<union> {s..<e}))) = int (card (?P \<inter> W)) + int (card (?P \<inter> {s..<e}))"
  proof -
    have "?P \<inter> (W \<union> {s..<e}) = ?P \<inter> W \<union> ?P \<inter> {s..<e}" by blast
    then show ?thesis using fin disj by (simp add: card_Un_disjoint disjoint_iff)
  qed
  have full: "?P \<subseteq> V \<longleftrightarrow> pe - ps \<le> int (card (?P \<inter> V))" for V
  proof
    assume "pe - ps \<le> int (card (?P \<inter> V))"
    then have "card ?P \<le> card (?P \<inter> V)" using size by linarith
    then have "?P \<inter> V = ?P" using fin by (intro card_seteq) auto
    then show "?P \<subseteq> V" by blast
  qed (simp add: size inf.absorb1)
  note put = ctlbits.test_put [of i bf True]
  have upd: "pb[i := v] ! k = (if k = i then v else pb ! k)" for v k
    using lens(2) by (simp add: nth_list_update)
  consider (set) "controlBit bf (int i)" "bf' = bf" "pb' = pb" "done_ps' = done_ps"
    | (none) "\<not> controlBit bf (int i)" "min e pe \<le> max s ps" "bf' = bf" "pb' = pb" "done_ps' = done_ps"
    | (whole) "\<not> controlBit bf (int i)" "\<not> min e pe \<le> max s ps" "pe - ps \<le> pb ! i + (min e pe - max s ps)"
        "bf' = setControlBit bf (int i) True" "pb' = pb[i := pe - ps]" "done_ps' = done_ps @ [i]"
    | (part) "\<not> controlBit bf (int i)" "\<not> min e pe \<le> max s ps" "\<not> pe - ps \<le> pb ! i + (min e pe - max s ps)"
        "bf' = bf" "pb' = pb[i := pb ! i + (min e pe - max s ps)]" "done_ps' = done_ps"
  proof -
    have mm: "max64 s ps = max s ps" "min64 e pe = min e pe" by (auto simp: max64_def min64_def)
    have "mark_piece_written len pl s e i (bf, pb, done_ps) =
      (if controlBit bf (int i) then (bf, pb, done_ps)
       else if min e pe \<le> max s ps then (bf, pb, done_ps)
       else if pe - ps \<le> pb ! i + (min e pe - max s ps)
       then (setControlBit bf (int i) True, pb[i := pe - ps], done_ps @ [i])
       else (bf, pb[i := pb ! i + (min e pe - max s ps)], done_ps))"
      unfolding mark_piece_written_def Let_def ps_def [symmetric] pe_def [symmetric] mm by simp
    then show ?thesis using res that by (simp only: res prod.inject split: if_splits)
  qed
  note cases = this
  show "length bf' = length bf" "length pb' = length pb" by (cases rule: cases; simp)+
  show "k \<noteq> i \<Longrightarrow> controlBit bf' (int k) = controlBit bf (int k) \<and> pb' ! k = pb ! k"
    using put lens by (cases rule: cases) (simp_all add: upd)
  show "done_ps' = done_ps @ (if controlBit bf' (int i) \<and> \<not> controlBit bf (int i) then [i] else [])"
    using put lens by (cases rule: cases) simp_all
  have size': "controlPieceSize len pl (int i) = pe - ps" by (simp add: pe_def)
  show "piece_inv len pl (W \<union> {s..<e}) bf' pb' i"
  proof (cases rule: cases)
    case set
    then show ?thesis using inv by (simp add: piece_inv_def) blast
  next
    case none
    then have "card (?P \<inter> {s..<e}) = 0" using ov by simp
    then show ?thesis using none inv sum by (simp add: piece_inv_def)
  next
    case whole
    then have "pb ! i = int (card (?P \<inter> W))" using inv by (simp add: piece_inv_def)
    then have "?P \<subseteq> W \<union> {s..<e}" using whole(3) sum ov full [of "W \<union> {s..<e}"] by linarith
    then show ?thesis using whole(4) put lens by (simp add: piece_inv_def)
  next
    case part
    then have "pb ! i = int (card (?P \<inter> W))" using inv by (simp add: piece_inv_def)
    moreover have "max 0 (min e pe - max s ps) = min e pe - max s ps" using part(2) by linarith
    ultimately show ?thesis using part sum ov lens by (simp add: piece_inv_def size')
  qed
qed

lemma mark_pieces_fold:
  assumes g: "geom_ok len pl" and N: "b \<le> nat (controlNumPieces len pl)"
    and lens: "nat (controlNumPieces len pl) \<le> 8 * length bf" "length pb = nat (controlNumPieces len pl)"
    and disj: "W \<inter> {s..<e} = {}" and inv: "\<forall>i<nat (controlNumPieces len pl). piece_inv len pl W bf pb i"
    and ab: "a \<le> b"
    and res: "fold (mark_piece_written len pl s e) [a..<b] (bf, pb, []) = (bf', pb', done_ps)"
  shows "length bf' = length bf \<and> length pb' = length pb \<and>
    (\<forall>k. controlBit bf' (int k) \<noteq> controlBit bf (int k) \<or> pb' ! k \<noteq> pb ! k \<longrightarrow> a \<le> k \<and> k < b) \<and>
    (\<forall>k. a \<le> k \<and> k < b \<longrightarrow> piece_inv len pl (W \<union> {s..<e}) bf' pb' k) \<and>
    done_ps = filter (\<lambda>k. controlBit bf' (int k) \<and> \<not> controlBit bf (int k)) [a..<b]"
  using ab N res
proof (induction b arbitrary: bf' pb' done_ps rule: dec_induct)
  case base
  then show ?case by auto
next
  case (step b)
  obtain bf1 pb1 done_ps1 where one: "fold (mark_piece_written len pl s e) [a..<b] (bf, pb, []) = (bf1, pb1, done_ps1)"
    by (metis prod_cases3)
  have two: "mark_piece_written len pl s e b (bf1, pb1, done_ps1) = (bf', pb', done_ps)"
    using step one by simp
  have IH: "length bf1 = length bf" "length pb1 = length pb"
    "\<And>k. controlBit bf1 (int k) \<noteq> controlBit bf (int k) \<or> pb1 ! k \<noteq> pb ! k \<Longrightarrow> a \<le> k \<and> k < b"
    "\<And>k. a \<le> k \<Longrightarrow> k < b \<Longrightarrow> piece_inv len pl (W \<union> {s..<e}) bf1 pb1 k"
    "done_ps1 = filter (\<lambda>k. controlBit bf1 (int k) \<and> \<not> controlBit bf (int k)) [a..<b]"
    using step.IH [OF _ one] step.prems(1) by auto
  have same: "controlBit bf1 (int b) = controlBit bf (int b)" "pb1 ! b = pb ! b" using IH(3) [of b] by auto
  have "piece_inv len pl W bf pb b" using inv step.prems(1) by auto
  then have "piece_inv len pl W bf1 pb1 b" unfolding piece_inv_def same .
  note st = mark_piece_step [OF g _ _ _ disj this two]
  have st: "piece_inv len pl (W \<union> {s..<e}) bf' pb' b" "length bf' = length bf1" "length pb' = length pb1"
    "\<And>k. k \<noteq> b \<Longrightarrow> controlBit bf' (int k) = controlBit bf1 (int k) \<and> pb' ! k = pb1 ! k"
    "done_ps = done_ps1 @ (if controlBit bf' (int b) \<and> \<not> controlBit bf1 (int b) then [b] else [])"
    using st step.prems(1) lens IH(1,2) by auto
  have "piece_inv len pl (W \<union> {s..<e}) bf' pb' k" if "a \<le> k" "k < Suc b" for k
  proof (cases "k = b")
    case False
    then have "piece_inv len pl (W \<union> {s..<e}) bf1 pb1 k" using IH(4) that by simp
    moreover have "controlBit bf' (int k) = controlBit bf1 (int k)" "pb' ! k = pb1 ! k"
      using st(4) [OF False] by auto
    ultimately show ?thesis by (simp only: piece_inv_def)
  qed (simp add: st)
  moreover have "filter (\<lambda>k. controlBit bf' (int k) \<and> \<not> controlBit bf (int k)) [a..<b] = done_ps1"
    unfolding IH(5) using st(4) by (intro filter_cong) auto
  moreover have "a \<le> k \<and> k < Suc b"
    if "controlBit bf' (int k) \<noteq> controlBit bf (int k) \<or> pb' ! k \<noteq> pb ! k" for k
    using that IH(3) [of k] st(4) [of k] step.hyps by (cases "k = b") auto
  ultimately show ?case using IH(1,2) st step.hyps same by (simp add: upt_Suc_append)
qed

definition ctl_inv :: "int set \<Rightarrow> control \<Rightarrow> int \<Rightarrow> int \<Rightarrow> bool" where
  "ctl_inv W c len pl \<longleftrightarrow>
     (\<exists>info. controlInfo c = Some info \<and> TotalLength info = len \<and> PieceLength info = pl \<and>
        geom_ok len pl \<and> nat (controlNumPieces len pl) \<le> 8 * length (InfoBitfield info) \<and>
        length (controlPieceBytes c) = nat (controlNumPieces len pl) \<and>
        (\<forall>i<nat (controlNumPieces len pl). piece_inv len pl W (InfoBitfield info) (controlPieceBytes c) i))"

lemma piece_inv_outside:
  assumes "piece_inv len pl W bf pb i" and "piece_bytes len pl (int i) \<inter> V = {}"
    and "controlBit bf' (int i) = controlBit bf (int i)" and "pb' ! i = pb ! i"
  shows "piece_inv len pl (W \<union> V) bf' pb' i"
  using assms by (auto simp: piece_inv_def Int_Un_distrib)

lemma markControlWritten_fold:
  assumes "controlInfo c = Some info" "TotalLength info = len" "PieceLength info = pl"
    and g: "geom_ok len pl" and "length (controlPieceBytes c) = nat (controlNumPieces len pl)"
    and w: "0 \<le> s" "0 < n" "s + n \<le> len"
    and "fold (mark_piece_written len pl s (s + n))
      [nat (s div pl)..<min (Suc (nat ((s + n - 1) div pl))) (nat (controlNumPieces len pl))]
      (InfoBitfield info, controlPieceBytes c, []) = (bf', pb', done_ps)"
  shows "markControlWritten c s n = (c\<lparr>controlInfo := Some (info\<lparr>InfoBitfield := bf'\<rparr>),
      controlPieceBytes := pb'\<rparr>, done_ps)"
proof -
  have pl: "0 < pl" "0 < len" "len + pl < 2 ^ 63" using g by (auto simp: geom_ok_def)
  have N: "int (nat (controlNumPieces len pl)) = controlNumPieces len pl"
    using numPieces_bounds(1) [OF g] by simp
  have e: "(if len < wrap64 (s + n) then len else wrap64 (s + n)) = s + n" using w pl by simp
  have conds: "\<not> n \<le> 0" "\<not> (pl \<le> 0 \<or> len \<le> 0)" "\<not> (s < 0 \<or> s + n \<le> s)" using w pl by auto
  have div: "s sdiv pl = s div pl" "(s + n - 1) sdiv pl = (s + n - 1) div pl" using w pl by simp_all
  show ?thesis
    unfolding markControlWritten_def assms(1) option.case Let_def assms(2,3) e if_not_P [OF conds(1)]
      if_not_P [OF conds(2)] if_not_P [OF conds(3)] assms(5) N div
    by (simp add: assms(9))
qed

lemma piece_outside_range:
  assumes pl: "0 < pl" and ia: "i < nat (s div pl) \<or> nat ((e - 1) div pl) < i"
  shows "piece_bytes len pl (int i) \<inter> {s..<e} = {}"
proof -
  have "x div pl \<noteq> int i" if "s \<le> x" "x < e" for x
  proof
    assume x: "x div pl = int i"
    then have "s div pl \<le> int i" "int i \<le> (e - 1) div pl"
      using that pl zdiv_mono1 [of s x pl] zdiv_mono1 [of x "e - 1" pl] by auto
    then show False using ia by linarith
  qed
  then show ?thesis by (auto simp: piece_bytes_def)
qed

lemma written_range:
  assumes g: "geom_ok len pl" and w: "0 \<le> s" "0 < n" "s + n \<le> len"
  shows "nat (s div pl) \<le> min (Suc (nat ((s + n - 1) div pl))) (nat (controlNumPieces len pl))"
proof -
  have pl: "0 < pl" using g by (simp add: geom_ok_def)
  have ls: "s div pl \<le> (s + n - 1) div pl" using w pl by (intro zdiv_mono1) auto
  have lastN: "(s + n - 1) div pl < controlNumPieces len pl" using piece_index_bounds [OF g, of "s + n - 1"] w by simp
  have "nat (s div pl) \<le> nat ((s + n - 1) div pl)" using ls by (rule nat_mono)
  moreover have "nat (s div pl) \<le> nat (controlNumPieces len pl)" using ls lastN by (intro nat_mono) linarith
  ultimately show ?thesis by simp
qed
lemma markControlWritten_step:
  assumes inv: "ctl_inv W c len pl" and w: "0 \<le> s" "0 < n" "s + n \<le> len"
    and disj: "W \<inter> {s..<s + n} = {}"
  shows "ctl_inv (W \<union> {s..<s + n}) (fst (markControlWritten c s n)) len pl"
proof -
  obtain info where c: "controlInfo c = Some info" "TotalLength info = len" "PieceLength info = pl"
    and g: "geom_ok len pl" and lb: "nat (controlNumPieces len pl) \<le> 8 * length (InfoBitfield info)"
    and lp: "length (controlPieceBytes c) = nat (controlNumPieces len pl)"
    and pinv: "\<forall>i<nat (controlNumPieces len pl). piece_inv len pl W (InfoBitfield info) (controlPieceBytes c) i"
    using inv by (auto simp: ctl_inv_def)
  have pl: "0 < pl" using g by (simp add: geom_ok_def)
  let ?N = "nat (controlNumPieces len pl)"
  define a where "a = nat (s div pl)"
  define b where "b = min (Suc (nat ((s + n - 1) div pl))) ?N"
  obtain bf' pb' done_ps where res: "fold (mark_piece_written len pl s (s + n)) [a..<b]
      (InfoBitfield info, controlPieceBytes c, []) = (bf', pb', done_ps)"
    by (metis prod_cases3)
  have eq: "markControlWritten c s n = (c\<lparr>controlInfo := Some (info\<lparr>InfoBitfield := bf'\<rparr>),
      controlPieceBytes := pb'\<rparr>, done_ps)"
    using markControlWritten_fold [OF c g lp w res [unfolded a_def b_def]] .
  have ab: "a \<le> b" "b \<le> ?N" unfolding a_def b_def using written_range [OF g w] by simp_all
  note F = mark_pieces_fold [OF g ab(2) lb lp disj pinv ab(1) res]
  have "piece_inv len pl (W \<union> {s..<s + n}) bf' pb' i" if i: "i < ?N" for i
  proof (cases "a \<le> i \<and> i < b")
    case False
    then have "i < nat (s div pl) \<or> nat ((s + n - 1) div pl) < i"
      using i unfolding a_def b_def by linarith
    then have "piece_bytes len pl (int i) \<inter> {s..<s + n} = {}" by (rule piece_outside_range [OF pl])
    moreover have "controlBit bf' (int i) = controlBit (InfoBitfield info) (int i)"
      "pb' ! i = controlPieceBytes c ! i"
      using F False by blast+
    ultimately show ?thesis using piece_inv_outside [OF pinv [rule_format, OF i]] by blast
  qed (use F in blast)
  then show ?thesis using c g lb lp F unfolding eq by (simp add: ctl_inv_def)
qed

lemma ctl_inv_bits:
  assumes "ctl_inv W c len pl" and "controlInfo c = Some info" and "i < nat (controlNumPieces len pl)"
  shows "controlBit (InfoBitfield info) (int i) \<longleftrightarrow> piece_bytes len pl (int i) \<subseteq> W"
proof -
  have g: "geom_ok len pl" and p: "piece_inv len pl W (InfoBitfield info) (controlPieceBytes c) i"
    using assms by (auto simp: ctl_inv_def)
  have "int (card (piece_bytes len pl (int i))) = controlPieceSize len pl (int i)"
    using card_piece_bytes [OF g, of "int i"] assms(3) by auto
  then show ?thesis
    using p by (cases "controlBit (InfoBitfield info) (int i)") (auto simp: piece_inv_def inf.absorb1)
qed

fun write_all :: "control \<Rightarrow> (int \<times> int) list \<Rightarrow> control" where
  "write_all c [] = c"
| "write_all c ((s, n) # ws) = write_all (fst (markControlWritten c s n)) ws"

fun writes_ok :: "int \<Rightarrow> int set \<Rightarrow> (int \<times> int) list \<Rightarrow> bool" where
  "writes_ok len W [] \<longleftrightarrow> True"
| "writes_ok len W ((s, n) # ws) \<longleftrightarrow>
     0 \<le> s \<and> 0 < n \<and> s + n \<le> len \<and> W \<inter> {s..<s + n} = {} \<and> writes_ok len (W \<union> {s..<s + n}) ws"

definition new_control :: "int \<Rightarrow> int \<Rightarrow> byte list \<Rightarrow> control" where
  "new_control len pl infoHash =
     \<lparr>controlInfo = Some (newControlInfo len pl infoHash),
      controlPieceBytes = seedControlPieceBytes (newControlInfo len pl infoHash)\<rparr>"

lemma bitfieldLen_covers:
  assumes "geom_ok len pl"
  shows "nat (controlNumPieces len pl) \<le> 8 * nat (controlBitfieldLen (controlNumPieces len pl))"
  using numPieces_bounds(1) [OF assms] by (simp add: controlBitfieldLen_def)

lemma controlBit_zeros: "\<not> controlBit (replicate k 0) (int i)"
  by (auto simp: controlBit_testBit testBit_bit div_8_less)

lemma new_control_inv:
  assumes g: "geom_ok len pl"
  shows "ctl_inv {} (new_control len pl infoHash) len pl"
  using g bitfieldLen_covers [OF g] controlPieceSize_eq(2) [OF g]
  by (simp add: ctl_inv_def new_control_def newControlInfo_def seedControlPieceBytes_def piece_inv_def
      controlBit_zeros)

lemma write_all_inv:
  "ctl_inv W c len pl \<Longrightarrow> writes_ok len W ws \<Longrightarrow>
   ctl_inv (W \<union> (\<Union>(s, n)\<in>set ws. {s..<s + n})) (write_all c ws) len pl"
proof (induction ws arbitrary: W c)
  case (Cons w ws)
  obtain s n where w: "w = (s, n)" by fastforce
  have "ctl_inv (W \<union> {s..<s + n}) (fst (markControlWritten c s n)) len pl"
    using markControlWritten_step Cons(2,3) w by simp
  from Cons(1) [OF this] Cons(3) show ?case by (simp add: w Un_assoc)
qed simp

text \<open>(C12) While no byte is written twice, the control file records a piece as complete exactly when
  all its bytes have been written, in whatever order and however the writes are cut, across
  piece boundaries and up to the short last piece.\<close>

theorem control_marks_complete_pieces:
  assumes "geom_ok len pl" and "writes_ok len {} ws"
    and "controlInfo (write_all (new_control len pl infoHash) ws) = Some info"
    and "i < nat (controlNumPieces len pl)"
  shows "controlBit (InfoBitfield info) (int i) \<longleftrightarrow>
    piece_bytes len pl (int i) \<subseteq> (\<Union>(s, n)\<in>set ws. {s..<s + n})"
  using ctl_inv_bits [OF write_all_inv [OF new_control_inv [OF assms(1)] assms(2)] assms(3,4)] by simp

theorem control_marks_complete_pieces_witness:
  "\<exists>info. controlInfo (write_all (new_control 10 4 []) [(6, 4), (0, 4), (4, 2)]) = Some info \<and>
    (controlBit (InfoBitfield info) 2 \<longleftrightarrow>
      piece_bytes 10 4 2 \<subseteq> (\<Union>(s, n)\<in>set [(6, 4), (0, 4), (4, 2)]. {s..<s + n}))"
proof -
  have ok: "geom_ok 10 4" "writes_ok 10 {} [(6, 4), (0, 4), (4, 2)]" by (auto simp: geom_ok_def)
  then obtain info where info: "controlInfo (write_all (new_control 10 4 []) [(6, 4), (0, 4), (4, 2)]) = Some info"
    using write_all_inv [OF new_control_inv [OF ok(1), of "[]"] ok(2)] unfolding ctl_inv_def by blast
  have "nat (controlNumPieces 10 4) = 3" by (simp add: controlNumPieces_def)
  then show ?thesis using control_marks_complete_pieces [OF ok info, of 2] info by simp
qed

text \<open>The condition matters: the counts add up overlapping writes, so the first half of a piece
  written twice marks the whole piece.\<close>

lemma rewritten_half_marks_piece:
  "\<exists>info. controlInfo (write_all (new_control 4 4 []) [(0, 2), (0, 2)]) = Some info \<and>
     controlBit (InfoBitfield info) 0"
  by (simp add: new_control_def newControlInfo_def markControlWritten_def controlNumPieces_def
      seedControlPieceBytes_def controlBitfieldLen_def controlBit_def mark_piece_written_def
      controlPieceSize_def setControlBit_def max64_def min64_def Let_def upt_rec)

text \<open>A download resumed under another piece length loses progress but never gains any: a piece of
  the converted bitfield is set exactly when all its bytes lie in set pieces of the old one.\<close>

lemma converted_bitfield_sound:
  assumes "geom_ok len dpl" and "0 < spl" and "i < nat (controlNumPieces len dpl)"
  shows "controlBit (convertControlBitfield src len spl dpl) (int i) \<longleftrightarrow>
    (\<forall>x\<in>piece_bytes len dpl (int i). controlBit src (x div spl))"
  by (rule convert_bits [OF assms])

theorem converted_bitfield_sound_witness:
  "controlBit (convertControlBitfield [0xe0] 10 2 4) 0 \<longleftrightarrow>
    (\<forall>x\<in>piece_bytes 10 4 0. controlBit [0xe0] (x div 2))"
proof -
  have "geom_ok 10 4" "0 < nat (controlNumPieces 10 4)" by (simp_all add: geom_ok_def controlNumPieces_def)
  then show ?thesis using converted_bitfield_sound [of 10 4 2 0 "[0xe0]"] by simp
qed

text \<open>(C13) A resumed download fetches exactly what is missing: every byte of a piece that is not
  recorded as complete is in exactly one segment, and no other byte is in any.\<close>

theorem resume_segments_cover_missing:
  assumes "geom_ok len pl"
  shows "cov (segments (newControlSegmentMan len pl bf)) x =
    (if 0 \<le> x \<and> x < len \<and> \<not> controlBit bf (x div pl) then 1 else 0)"
  by (rule newControlSegmentMan_cov [OF assms])

theorem resume_segments_cover_missing_witness:
  "cov (segments (newControlSegmentMan 10 4 [0x40])) 9 = 1"
proof -
  have "geom_ok 10 4" by (simp add: geom_ok_def)
  from resume_segments_cover_missing [OF this, of "[0x40]" 9] show ?thesis
    by (simp add: controlBit_def)
qed

section \<open>Lengths\<close>

lemma disjoint_piece_bytes: "i \<noteq> j \<Longrightarrow> piece_bytes len pl i \<inter> piece_bytes len pl j = {}"
  by (auto simp: piece_bytes_def)

lemma controlCompletedLength_card:
  assumes g: "geom_ok (TotalLength info) (PieceLength info)"
  shows "controlCompletedLength info =
    int (card {x. 0 \<le> x \<and> x < TotalLength info \<and> controlBit (InfoBitfield info) (x div PieceLength info)})"
proof -
  let ?len = "TotalLength info" and ?pl = "PieceLength info" and ?bf = "InfoBitfield info"
  let ?N = "nat (controlNumPieces ?len ?pl)"
  let ?I = "{i. i < ?N \<and> controlBit ?bf (int i)}"
  have "controlCompletedLength info = (\<Sum>i\<in>{..<?N}. if controlBit ?bf (int i) then controlPieceSize ?len ?pl (int i) else 0)"
    by (simp add: controlCompletedLength_def sum_list_distinct_conv_sum_set lessThan_atLeast0)
  also have "\<dots> = (\<Sum>i\<in>?I. controlPieceSize ?len ?pl (int i))"
    by (rule sum.mono_neutral_cong_right) auto
  also have "\<dots> = (\<Sum>i\<in>?I. int (card (piece_bytes ?len ?pl (int i))))"
    using card_piece_bytes(1) [OF g] by (intro sum.cong) auto
  also have "\<dots> = int (card (\<Union>i\<in>?I. piece_bytes ?len ?pl (int i)))"
    using card_piece_bytes(2) [OF g] disjoint_piece_bytes [of _ _ ?len ?pl] by (subst card_UN_disjoint) auto
  also have "(\<Union>i\<in>?I. piece_bytes ?len ?pl (int i)) =
      {x. 0 \<le> x \<and> x < ?len \<and> controlBit ?bf (x div ?pl)}"
  proof (intro set_eqI iffI)
    fix x assume x: "x \<in> {x. 0 \<le> x \<and> x < ?len \<and> controlBit ?bf (x div ?pl)}"
    then have "int (nat (x div ?pl)) = x div ?pl" "nat (x div ?pl) < ?N"
      using piece_index_bounds [OF g, of x] by auto
    with x show "x \<in> (\<Union>i\<in>?I. piece_bytes ?len ?pl (int i))"
      by (intro UN_I [of "nat (x div ?pl)"]) (auto simp: piece_bytes_def)
  qed (auto simp: piece_bytes_def)
  finally show ?thesis .
qed

end
