(* ===== verification/Strconv.thy ===== *)
theory Strconv
  imports Prelude
begin

text \<open>
  The part of Go's \<open>strconv\<close> package that the program uses: \<open>ParseUint\<close>,
  \<open>ParseInt\<close> and \<open>Atoi\<close> with an explicit base, and \<open>FormatUint\<close>, \<open>FormatInt\<close>
  and \<open>AppendInt\<close> in base 10. Parsing distinguishes the two errors of the package,
  \<open>ErrSyntax\<close> and \<open>ErrRange\<close>, and reports whichever the left-to-right scan meets first.
\<close>

datatype num_error = ErrSyntax | ErrRange

definition is_digit :: "char \<Rightarrow> bool" where
  "is_digit c \<longleftrightarrow> CHR ''0'' \<le> c \<and> c \<le> CHR ''9''"

text \<open>The digit value of a character in a base up to 36, letters in either case.\<close>

definition digit_val :: "char \<Rightarrow> nat option" where
  "digit_val c =
     (let k = (of_char c :: nat) in
      if 48 \<le> k \<and> k \<le> 57 then Some (k - 48)
      else if 97 \<le> k \<and> k \<le> 122 then Some (k - 97 + 10)
      else if 65 \<le> k \<and> k \<le> 90 then Some (k - 65 + 10)
      else None)"

fun parse_digits :: "nat \<Rightarrow> nat \<Rightarrow> nat \<Rightarrow> string \<Rightarrow> num_error + nat" where
  "parse_digits base maxv n [] = Inr n"
| "parse_digits base maxv n (c # cs) =
     (case digit_val c of
        None \<Rightarrow> Inl ErrSyntax
      | Some d \<Rightarrow>
          if base \<le> d then Inl ErrSyntax
          else if maxv < n * base + d then Inl ErrRange
          else parse_digits base maxv (n * base + d) cs)"

definition ParseUint :: "string \<Rightarrow> nat \<Rightarrow> nat \<Rightarrow> num_error + nat" where
  "ParseUint s base bits =
     (if s = [] then Inl ErrSyntax else parse_digits base (2 ^ bits - 1) 0 s)"

definition ParseInt :: "string \<Rightarrow> nat \<Rightarrow> nat \<Rightarrow> num_error + int" where
  "ParseInt s base bits =
     (case s of
        [] \<Rightarrow> Inl ErrSyntax
      | c # cs \<Rightarrow>
          let neg = (c = CHR ''-''); body = (if c = CHR ''+'' \<or> c = CHR ''-'' then cs else s) in
          rbind (ParseUint body base bits) (\<lambda>un.
            if \<not> neg \<and> 2 ^ (bits - 1) \<le> un then Inl ErrRange
            else if neg \<and> 2 ^ (bits - 1) < un then Inl ErrRange
            else Inr (if neg then - int un else int un)))"

text \<open>\<open>Atoi\<close> is \<open>ParseInt(s, 10, 0)\<close>, with the 64-bit \<open>int\<close> of the supported platforms.\<close>

definition Atoi :: "string \<Rightarrow> num_error + int" where
  "Atoi s = ParseInt s 10 64"

definition digit_char :: "nat \<Rightarrow> char" where
  "digit_char d = char_of (48 + d)"

fun FormatUint :: "nat \<Rightarrow> string" where
  "FormatUint n = (if n < 10 then [digit_char n] else FormatUint (n div 10) @ [digit_char (n mod 10)])"

declare FormatUint.simps [simp del]

definition FormatInt :: "int \<Rightarrow> string" where
  "FormatInt i = (if i < 0 then CHR ''-'' # FormatUint (nat (- i)) else FormatUint (nat i))"

section \<open>Evaluation\<close>

text \<open>Code equations that compute on integers, so that numbers near \<open>2^64\<close> can be evaluated.\<close>

fun digits_int :: "int \<Rightarrow> int \<Rightarrow> int \<Rightarrow> string \<Rightarrow> num_error + int" where
  "digits_int base maxv n [] = Inr n"
| "digits_int base maxv n (c # cs) =
     (case digit_val c of
        None \<Rightarrow> Inl ErrSyntax
      | Some d \<Rightarrow>
          if base \<le> int d then Inl ErrSyntax
          else if maxv < n * base + int d then Inl ErrRange
          else digits_int base maxv (n * base + int d) cs)"

lemma digits_int_eq: "digits_int (int b) (int m) (int n) cs = map_sum (\<lambda>e. e) int (parse_digits b m n cs)"
proof (induction cs arbitrary: n)
  case (Cons c cs)
  have "int m < int n * int b + int d \<longleftrightarrow> m < n * b + d" for d
    by (metis of_nat_add of_nat_less_iff of_nat_mult)
  with Cons [of "n * b + d" for d] show ?case by (simp split: option.split)
qed simp

lemma ParseInt_code [code]:
  "ParseInt s base bits =
     (case s of
        [] \<Rightarrow> Inl ErrSyntax
      | c # cs \<Rightarrow>
          let neg = (c = CHR ''-''); body = (if c = CHR ''+'' \<or> c = CHR ''-'' then cs else s) in
          if body = [] then Inl ErrSyntax
          else rbind (digits_int (int base) (2 ^ bits - 1) 0 body) (\<lambda>un.
            if \<not> neg \<and> 2 ^ (bits - 1) \<le> un then Inl ErrRange
            else if neg \<and> 2 ^ (bits - 1) < un then Inl ErrRange
            else Inr (if neg then - un else un)))"
proof -
  have I: "(2 :: int) ^ bits - 1 = int (2 ^ bits - 1)" by (simp add: of_nat_diff)
  have P: "(2 :: int) ^ (bits - 1) = int (2 ^ (bits - 1))" by simp
  have D: "digits_int (int base) (int (2 ^ bits - 1)) 0 b = map_sum (\<lambda>e. e) int (parse_digits base (2 ^ bits - 1) 0 b)" for b
    using digits_int_eq [of base "2 ^ bits - 1" 0 b] by simp
  have B: "rbind (ParseUint b base bits) g
      = (if b = [] then Inl ErrSyntax else rbind (digits_int (int base) (2 ^ bits - 1) 0 b) (\<lambda>un. g (nat un)))" for b and g :: "nat \<Rightarrow> num_error + int"
    unfolding ParseUint_def I D by (cases "parse_digits base (2 ^ bits - 1) 0 b") auto
  have pos: "0 \<le> un" if "digits_int (int base) (2 ^ bits - 1) 0 b = Inr un" for b un
    using that unfolding I D by (cases "parse_digits base (2 ^ bits - 1) 0 b") auto
  show ?thesis
    unfolding ParseInt_def B P
    by (auto simp: Let_def nat_le_iff le_nat_iff nat_less_iff zless_nat_eq_int_zless simp del: digits_int.simps dest: pos split: list.split intro!: rbind_cong)
qed

section \<open>Digits\<close>

lemma of_char_digit_char [simp]: "d < 10 \<Longrightarrow> of_char (digit_char d) = 48 + d"
  by (simp add: digit_char_def)

lemma digit_val_digit_char [simp]: "d < 10 \<Longrightarrow> digit_val (digit_char d) = Some d"
  by (simp add: digit_val_def)

lemma is_digit_iff: "is_digit c \<longleftrightarrow> 48 \<le> (of_char c :: nat) \<and> (of_char c :: nat) \<le> 57"
  by (simp add: is_digit_def less_eq_char_def)

lemma is_digit_digit_char [simp]: "d < 10 \<Longrightarrow> is_digit (digit_char d)"
  by (simp add: is_digit_iff)

lemma digit_val_is_digit: "is_digit c \<Longrightarrow> digit_val c = Some (of_char c - 48)"
  by (auto simp: is_digit_iff digit_val_def)

lemma digit_char_inverse: "is_digit c \<Longrightarrow> digit_char (of_char c - 48) = c"
  by (simp add: is_digit_iff digit_char_def)

lemma digit_char_zero [simp]: "digit_char 0 = CHR ''0''"
  by code_simp

lemma digit_char_0_iff: "d < 10 \<Longrightarrow> digit_char d = CHR ''0'' \<longleftrightarrow> d = 0"
proof
  assume "d < 10" and "digit_char d = CHR ''0''"
  then have "(of_char (digit_char d) :: nat) = of_char CHR ''0''" by simp
  with \<open>d < 10\<close> show "d = 0" by simp
qed simp

lemma FormatUint_nonempty [simp]: "FormatUint n \<noteq> []"
  by (subst FormatUint.simps) simp

lemma FormatUint_digits: "c \<in> set (FormatUint n) \<Longrightarrow> is_digit c"
  by (induction n rule: FormatUint.induct) (subst (asm) (2) FormatUint.simps, auto split: if_splits)

lemma hd_FormatUint_digit [simp]: "is_digit (hd (FormatUint n))"
  using FormatUint_digits [of "hd (FormatUint n)" n] by simp

lemma hd_FormatUint_nonzero: "0 < n \<Longrightarrow> hd (FormatUint n) \<noteq> CHR ''0''"
proof (induction n rule: FormatUint.induct)
  case (1 n)
  show ?case
  proof (cases "n < 10")
    case True
    with 1 show ?thesis by (subst FormatUint.simps) (simp add: digit_char_0_iff)
  next
    case False
    then have "0 < n div 10" by (simp add: div_greater_zero_iff)
    with False 1 show ?thesis by (subst FormatUint.simps) (simp add: hd_append)
  qed
qed

lemma FormatUint_zero [simp]: "FormatUint 0 = ''0''"
  by (subst FormatUint.simps) simp

lemma length_FormatUint: "n < 10 ^ k \<Longrightarrow> 0 < k \<Longrightarrow> length (FormatUint n) \<le> k"
proof (induction n arbitrary: k rule: FormatUint.induct)
  case (1 n)
  show ?case
  proof (cases "n < 10")
    case True
    with 1 show ?thesis by (subst FormatUint.simps) simp
  next
    case False
    with "1.prems" obtain m where k: "k = Suc m" "0 < m"
      by (cases k) (auto, metis One_nat_def gr0I less_one not_less power_0 mult.right_neutral)
    with "1.prems" have "n div 10 < 10 ^ m" by (simp add: div_less_iff_less_mult mult.commute)
    with False k 1 show ?thesis by (subst FormatUint.simps) simp
  qed
qed

section \<open>Round trips\<close>

lemma parse_digits_append:
  "parse_digits b m n (xs @ ys) = rbind (parse_digits b m n xs) (\<lambda>k. parse_digits b m k ys)"
  by (induction xs arbitrary: n) (auto split: option.splits)

lemma parse_digits_FormatUint:
  "n \<le> m \<Longrightarrow> parse_digits 10 m 0 (FormatUint n) = Inr n"
proof (induction n rule: FormatUint.induct)
  case (1 n)
  show ?case
  proof (cases "n < 10")
    case True
    with 1 show ?thesis by (subst FormatUint.simps) simp
  next
    case False
    have "parse_digits 10 m 0 (FormatUint (n div 10)) = Inr (n div 10)"
      using 1 False by (simp add: div_le_dividend [THEN le_trans])
    moreover have "n div 10 * 10 + n mod 10 = n" by simp
    ultimately show ?thesis
      using False "1.prems" by (subst FormatUint.simps) (simp add: parse_digits_append)
  qed
qed

lemma ParseUint_FormatUint: "n < 2 ^ bits \<Longrightarrow> ParseUint (FormatUint n) 10 bits = Inr n"
  by (simp add: ParseUint_def parse_digits_FormatUint)

lemma not_sign_digit: "is_digit c \<Longrightarrow> c \<noteq> CHR ''-'' \<and> c \<noteq> CHR ''+''"
  by (auto simp: is_digit_iff)

lemma ParseInt_FormatInt:
  assumes "- (2 ^ 63) \<le> i" and "i < 2 ^ 63"
  shows "ParseInt (FormatInt i) 10 64 = Inr i"
proof (cases "i < 0")
  case True
  with assms have "ParseUint (FormatUint (nat (- i))) 10 64 = Inr (nat (- i))"
    by (intro ParseUint_FormatUint) (simp add: nat_less_iff)
  with True assms show ?thesis
    by (simp add: ParseInt_def FormatInt_def nat_le_iff Let_def not_less)
next
  case False
  obtain c cs where c: "FormatUint (nat i) = c # cs"
    by (meson FormatUint_nonempty neq_Nil_conv)
  with hd_FormatUint_digit [of "nat i"] have "is_digit c" by simp
  then have "c \<noteq> CHR ''-''" "c \<noteq> CHR ''+''" using not_sign_digit by auto
  moreover have "ParseUint (FormatUint (nat i)) 10 64 = Inr (nat i)"
    using False assms by (intro ParseUint_FormatUint) (simp add: nat_less_iff)
  ultimately show ?thesis
    using False assms c by (simp add: ParseInt_def FormatInt_def Let_def nat_less_iff not_le)
qed

text \<open>A parsed value never exceeds its width.\<close>

lemma parse_digits_bound: "parse_digits b m n s = Inr v \<Longrightarrow> n \<le> m \<Longrightarrow> v \<le> m"
  by (induction s arbitrary: n) (auto split: option.splits if_splits)

lemma ParseUint_bound: "ParseUint s b bits = Inr v \<Longrightarrow> v < 2 ^ bits"
  using parse_digits_bound [of b "2 ^ bits - 1" 0 s v]
  by (auto simp: ParseUint_def less_eq_Suc_le [symmetric] split: if_splits)
     (metis Suc_pred less_Suc_eq_le zero_less_numeral zero_less_power)

end
