(* ===== verification/Bencode.thy ===== *)
theory Bencode
  imports Strconv
begin

text \<open>
  Package \<open>bencode\<close> (\<open>src/internal/bencode/types.go\<close>, \<open>encode.go\<close>, \<open>decode.go\<close>): values,
  the encoder and the decoder. The decoder works here on the list of bytes still to be read;
  the buffered reader it uses in the code is shown in \<open>BencodeReader\<close> to present exactly
  that list. A \<open>DictVal\<close> is its key/value pairs in insertion order, which is what the pair of a
  key slice and a map holds as long as they are changed through \<open>Set\<close>.

  The recursive functions of the decoder take fuel, and \<open>None\<close> means that it ran out;
  \<open>decode_terminates\<close> shows that \<open>Decode\<close> always has enough.
  \<open>make([]byte, n)\<close> panics when \<open>n\<close> is more than the run time can address; that limit is the
  parameter \<open>max_alloc\<close> and the panic the error \<open>PanicMakeSlice\<close>.
\<close>

section \<open>Values\<close>

datatype Value = StringVal string | IntVal int | ListVal "Value list" | DictVal "(string \<times> Value) list"

datatype Kind = KindString | KindInt | KindList | KindDict

fun Kind_of :: "Value \<Rightarrow> Kind" where
  "Kind_of (StringVal s) = KindString"
| "Kind_of (IntVal i) = KindInt"
| "Kind_of (ListVal vs) = KindList"
| "Kind_of (DictVal es) = KindDict"

fun Kind_String :: "Kind \<Rightarrow> string" where
  "Kind_String KindString = ''string''"
| "Kind_String KindInt = ''integer''"
| "Kind_String KindList = ''list''"
| "Kind_String KindDict = ''dict''"

fun Set :: "(string \<times> Value) list \<Rightarrow> string \<Rightarrow> Value \<Rightarrow> (string \<times> Value) list" where
  "Set [] key val = [(key, val)]"
| "Set ((k, v) # es) key val = (if k = key then (k, val) # es else (k, v) # Set es key val)"

definition Get :: "(string \<times> Value) list \<Rightarrow> string \<Rightarrow> Value option" where
  "Get es key = map_of es key"

section \<open>Encoding\<close>

definition appendString :: "string \<Rightarrow> string" where
  "appendString s = FormatUint (length s) @ CHR '':'' # s"

definition appendInt :: "int \<Rightarrow> string" where
  "appendInt i = CHR ''i'' # FormatInt i @ ''e''"

text \<open>The entries of a dictionary are written in the order of their sorted keys. Sorting the
  encoded entries by key gives the same bytes, since the keys are distinct.\<close>

fun appendValue :: "Value \<Rightarrow> string" where
  "appendValue (StringVal s) = appendString s"
| "appendValue (IntVal i) = appendInt i"
| "appendValue (ListVal vs) = CHR ''l'' # concat (map appendValue vs) @ ''e''"
| "appendValue (DictVal es) =
     CHR ''d'' # concat (map (\<lambda>(k, enc). appendString k @ enc)
       (sort_key fst (map (\<lambda>(k, v). (k, appendValue v)) es))) @ ''e''"

text \<open>The \<open>String\<close> methods, with the short path for strings of fewer than ten bytes.\<close>

definition string_String :: "string \<Rightarrow> string" where
  "string_String s =
     (let n = length s in
      if n < 10 then [char_of (48 + n), CHR '':''] @ s else FormatUint n @ '':'' @ s)"

fun Value_String :: "Value \<Rightarrow> string" where
  "Value_String (StringVal s) = string_String s"
| "Value_String (IntVal i) = ''i'' @ FormatInt i @ ''e''"
| "Value_String (ListVal vs) = ''l'' @ concat (map Value_String vs) @ ''e''"
| "Value_String (DictVal es) =
     ''d'' @ concat (map (\<lambda>(k, enc). FormatUint (length k) @ '':'' @ k @ enc)
       (sort_key fst (map (\<lambda>(k, v). (k, Value_String v)) es))) @ ''e''"

definition Marshal :: "Value \<Rightarrow> string" where
  "Marshal v = appendValue v"

section \<open>Decoding\<close>

datatype dec_error =
    ErrInvalidBencode string | ErrIntOverflow | ErrDictKeyOrder | ErrDictKeyType
  | ErrStructureTooDeep | ErrUnexpectedEOF | PanicMakeSlice

definition maxDepth :: nat where
  "maxDepth = 50"

fun read_decimal_loop :: "int \<Rightarrow> string \<Rightarrow> dec_error + int \<times> string" where
  "read_decimal_loop result [] = Inr (result, [])"
| "read_decimal_loop result (nb # s) =
     (if \<not> is_digit nb then Inr (result, nb # s)
      else let digit = int (of_char nb) - 48 in
        if (max_int64 - digit) sdiv 10 < result
        then Inl (ErrInvalidBencode ''string length exceeds int64 range'')
        else read_decimal_loop (result * 10 + digit) s)"

definition readDecimal :: "string \<Rightarrow> dec_error + int \<times> string" where
  "readDecimal s =
     (case s of
        [] \<Rightarrow> Inl ErrUnexpectedEOF
      | b # rest \<Rightarrow>
          if \<not> is_digit b then Inl (ErrInvalidBencode ''expected digit'')
          else read_decimal_loop (int (of_char b) - 48) rest)"

definition readFull :: "nat \<Rightarrow> int \<Rightarrow> string \<Rightarrow> dec_error + string \<times> string" where
  "readFull max_alloc n s =
     (if int max_alloc < n then Inl PanicMakeSlice
      else if length s < nat n then Inl ErrUnexpectedEOF
      else Inr (take (nat n) s, drop (nat n) s))"

definition decodeString :: "nat \<Rightarrow> string \<Rightarrow> dec_error + string \<times> string" where
  "decodeString max_alloc s =
     (case readDecimal s of
        Inl e \<Rightarrow> Inl (ErrInvalidBencode ''invalid string length'')
      | Inr (len, rest) \<Rightarrow>
          (case rest of
             [] \<Rightarrow> Inl ErrUnexpectedEOF
           | b # rest' \<Rightarrow>
               if b \<noteq> CHR '':'' then Inl (ErrInvalidBencode ''expected ':' after string length'')
               else if len < 0 then Inl (ErrInvalidBencode ''negative string length'')
               else readFull max_alloc len rest'))"

definition isDigitOrFloatChar :: "char \<Rightarrow> bool" where
  "isDigitOrFloatChar c \<longleftrightarrow>
     is_digit c \<or> c = CHR ''.'' \<or> c = CHR ''E'' \<or> c = CHR ''e'' \<or> c = CHR ''+'' \<or> c = CHR ''-''"

definition validateIntString :: "string \<Rightarrow> dec_error option" where
  "validateIntString s =
     (if s = [] \<or> s = ''overflow'' then Some (ErrInvalidBencode ''empty or overflowed integer'')
      else if s ! 0 = CHR ''-'' then
        if 2 < length s \<and> s ! 1 = CHR ''0''
        then Some (ErrInvalidBencode ''leading zeros not allowed in integer'') else None
      else if s ! 0 = CHR ''+'' then
        if 2 < length s \<and> s ! 1 = CHR ''0''
        then Some (ErrInvalidBencode ''leading zeros not allowed in integer'') else None
      else if 1 < length s \<and> s ! 0 = CHR ''0''
      then Some (ErrInvalidBencode ''leading zeros not allowed in integer'') else None)"

fun skip_float :: "string \<Rightarrow> dec_error + int \<times> string" where
  "skip_float [] = Inl ErrUnexpectedEOF"
| "skip_float (c # s) =
     (if c = CHR ''e'' then Inr (0, s)
      else if isDigitOrFloatChar c then skip_float s
      else Inl (ErrInvalidBencode ''invalid floating-point number in integer field''))"

definition finish_int :: "string \<Rightarrow> dec_error + int" where
  "finish_int num =
     (let numStr = (if 24 < length num then ''overflow'' else num) in
      case validateIntString numStr of
        Some e \<Rightarrow> Inl e
      | None \<Rightarrow>
          (case ParseInt numStr 10 64 of
             Inl ErrRange \<Rightarrow> Inl ErrIntOverflow
           | Inl ErrSyntax \<Rightarrow> Inl (ErrInvalidBencode ''invalid integer'')
           | Inr i \<Rightarrow> Inr i))"

text \<open>\<open>s\<close> begins with the \<open>'i'\<close> that \<open>decodeWithDepth\<close> has seen.\<close>

definition decodeInt :: "string \<Rightarrow> dec_error + int \<times> string" where
  "decodeInt s =
     (case tl s of
        [] \<Rightarrow> Inl ErrUnexpectedEOF
      | b # bs \<Rightarrow>
          let sign = (if b = CHR ''-'' \<or> b = CHR ''+'' then [b] else []);
              rest = (if b = CHR ''-'' \<or> b = CHR ''+'' then bs else b # bs)
          in case rest of
               [] \<Rightarrow> Inl ErrUnexpectedEOF
             | c # cs \<Rightarrow>
                 if \<not> is_digit c then Inl (ErrInvalidBencode ''expected digit in integer'')
                 else
                   let num = sign @ c # takeWhile is_digit cs in
                   case dropWhile is_digit cs of
                     [] \<Rightarrow> Inl ErrUnexpectedEOF
                   | nextB # after \<Rightarrow>
                       if nextB = CHR ''.'' \<or> nextB = CHR ''E'' \<or> nextB = CHR ''+'' \<or> nextB = CHR ''-''
                       then skip_float (nextB # after)
                       else if nextB \<noteq> CHR ''e''
                       then Inl (ErrInvalidBencode ''expected 'e' to terminate integer'')
                       else rbind (finish_int num) (\<lambda>i. Inr (i, after)))"

text \<open>The loops of \<open>decodeList\<close> and \<open>decodeDict\<close>, with the recursive call of
  \<open>decodeWithDepth\<close> as their first argument. Each round consumes at least one byte.\<close>

definition dbind :: "('e + 'a) option \<Rightarrow> ('a \<Rightarrow> ('e + 'b) option) \<Rightarrow> ('e + 'b) option" where
  "dbind r f = (case r of None \<Rightarrow> None | Some (Inl e) \<Rightarrow> Some (Inl e) | Some (Inr a) \<Rightarrow> f a)"

primrec decode_list ::
  "(string \<Rightarrow> (dec_error + Value \<times> string) option) \<Rightarrow> nat \<Rightarrow> Value list \<Rightarrow> string \<Rightarrow>
    (dec_error + Value \<times> string) option"
where
  "decode_list dec 0 items s = None"
| "decode_list dec (Suc f) items s =
     (if s = [] then Some (Inl ErrUnexpectedEOF)
      else if hd s = CHR ''e'' then Some (Inr (ListVal items, tl s))
      else dbind (dec s) (\<lambda>(v, rest). decode_list dec f (items @ [v]) rest))"

primrec decode_dict ::
  "nat \<Rightarrow> (string \<Rightarrow> (dec_error + Value \<times> string) option) \<Rightarrow> nat \<Rightarrow> (string \<times> Value) list \<Rightarrow> string \<Rightarrow>
    string \<Rightarrow> (dec_error + Value \<times> string) option"
where
  "decode_dict m dec 0 dict lastKey s = None"
| "decode_dict m dec (Suc f) dict lastKey s =
     (if s = [] then Some (Inl ErrUnexpectedEOF)
      else if hd s = CHR ''e'' then Some (Inr (DictVal dict, tl s))
      else if \<not> is_digit (hd s) then Some (Inl ErrDictKeyType)
      else dbind (Some (decodeString m s)) (\<lambda>(key, s1).
           dbind (dec s1) (\<lambda>(val, s2).
             if lastKey \<noteq> [] \<and> key < lastKey then Some (Inl ErrDictKeyOrder)
             else decode_dict m dec f (Set dict key val) key s2)))"

definition decodeList ::
  "(string \<Rightarrow> (dec_error + Value \<times> string) option) \<Rightarrow> nat \<Rightarrow> string \<Rightarrow> (dec_error + Value \<times> string) option"
where
  "decodeList dec depth s =
     (if maxDepth \<le> depth then Some (Inl ErrStructureTooDeep)
      else decode_list dec (length s) [] (tl s))"

definition decodeDict ::
  "nat \<Rightarrow> (string \<Rightarrow> (dec_error + Value \<times> string) option) \<Rightarrow> nat \<Rightarrow> string \<Rightarrow>
    (dec_error + Value \<times> string) option"
where
  "decodeDict m dec depth s =
     (if maxDepth \<le> depth then Some (Inl ErrStructureTooDeep)
      else decode_dict m dec (length s) [] [] (tl s))"

primrec decodeWithDepth :: "nat \<Rightarrow> nat \<Rightarrow> nat \<Rightarrow> string \<Rightarrow> (dec_error + Value \<times> string) option" where
  "decodeWithDepth 0 m depth s = None"
| "decodeWithDepth (Suc f) m depth s =
     (if s = [] then Some (Inl ErrUnexpectedEOF)
      else if is_digit (hd s) then Some (rbind (decodeString m s) (\<lambda>(t, r). Inr (StringVal t, r)))
      else if hd s = CHR ''i'' then Some (rbind (decodeInt s) (\<lambda>(i, r). Inr (IntVal i, r)))
      else if hd s = CHR ''l'' then decodeList (decodeWithDepth f m (depth + 1)) depth s
      else if hd s = CHR ''d'' then decodeDict m (decodeWithDepth f m (depth + 1)) depth s
      else Some (Inl (ErrInvalidBencode ''unexpected byte'')))"

text \<open>The nesting limit bounds the recursion, so \<open>maxDepth + 1\<close> levels of fuel suffice
  (\<open>decode_terminates\<close>).\<close>

definition Decode :: "nat \<Rightarrow> string \<Rightarrow> (dec_error + Value \<times> string) option" where
  "Decode m s = decodeWithDepth (Suc maxDepth) m 0 s"

text \<open>\<open>Unmarshal\<close> checks the kind of the decoded value against its target and ignores what
  follows the value. The target is the kind asked for, or none for a \<open>*Value\<close>.\<close>

definition Unmarshal :: "nat \<Rightarrow> Kind option \<Rightarrow> string \<Rightarrow> (dec_error + Value) option" where
  "Unmarshal m target data =
     dbind (Decode m data) (\<lambda>(val, rest).
       case target of
         None \<Rightarrow> Some (Inr val)
       | Some k \<Rightarrow>
           if Kind_of val = k then Some (Inr val)
           else Some (Inl (ErrInvalidBencode (''expected '' @ Kind_String k))))"

section \<open>Numbers and strings\<close>

lemma dbind_simps [simp]:
  "dbind None f = None"
  "dbind (Some (Inl e)) f = Some (Inl e)"
  "dbind (Some (Inr a)) f = f a"
  by (simp_all add: dbind_def)

lemma dbind_eq_Some_Inr: "dbind r f = Some (Inr b) \<longleftrightarrow> (\<exists>a. r = Some (Inr a) \<and> f a = Some (Inr b))"
  by (auto simp: dbind_def split: option.splits sum.splits)

lemma dbind_eq_None: "dbind r f = None \<longleftrightarrow> r = None \<or> (\<exists>a. r = Some (Inr a) \<and> f a = None)"
  by (auto simp: dbind_def split: option.splits sum.splits)

lemma dbind_not_None: "r \<noteq> None \<Longrightarrow> (\<And>a. r = Some (Inr a) \<Longrightarrow> f a \<noteq> None) \<Longrightarrow> dbind r f \<noteq> None"
  by (auto simp: dbind_def split: option.splits sum.splits)

lemma digit_room:
  assumes "0 \<le> (d :: int)" and "d < 10"
  shows "(max_int64 - d) sdiv 10 < r \<longleftrightarrow> max_int64 < r * 10 + d"
proof -
  have "(max_int64 - d) sdiv 10 = (max_int64 - d) div 10" using assms by simp
  then show ?thesis using div_less_iff_int [of 10 "max_int64 - d" r] by auto
qed

text \<open>The string length is read exactly as \<open>ParseUint\<close> with 63 bits would read it.\<close>

lemma digit_value:
  "is_digit c \<Longrightarrow> digit_val c = Some (of_char c - 48)"
  "is_digit c \<Longrightarrow> of_char c - 48 < (10::nat)"
  "is_digit c \<Longrightarrow> int (of_char c) - 48 = int (of_char c - 48)"
  by (auto simp: is_digit_iff digit_val_is_digit)

lemma read_decimal_loop_digits:
  assumes "\<forall>c\<in>set ds. is_digit c" and "rest = [] \<or> \<not> is_digit (hd rest)"
    and "parse_digits 10 mx r ds = Inr n" and "int mx = max_int64"
  shows "read_decimal_loop (int r) (ds @ rest) = Inr (int n, rest)"
  using assms(1,3)
proof (induction ds arbitrary: r)
  case Nil
  then show ?case using assms(2) by (cases rest) auto
next
  case (Cons c ds)
  define d where "d = (of_char c - 48 :: nat)"
  have d: "is_digit c" "d < 10" "int (of_char c) - 48 = int d" "digit_val c = Some d"
    using Cons.prems(1) unfolding d_def by (auto intro: digit_value)
  then have n: "\<not> mx < r * 10 + d" "parse_digits 10 mx (r * 10 + d) ds = Inr n"
    using Cons.prems(2) by (simp_all split: if_splits)
  have "\<not> int mx < int r * 10 + int d" using n(1) by linarith
  then have "\<not> (max_int64 - int d) sdiv 10 < int r"
    using d(2) assms(4) by (subst digit_room) simp_all
  moreover have "read_decimal_loop (int r * 10 + int d) (ds @ rest) = Inr (int n, rest)"
    using Cons.IH [OF _ n(2)] Cons.prems(1) by simp
  ultimately show ?case using d(1,3) by (simp add: Let_def del: diff_less_eq)
qed

lemma read_decimal_loop_rest:
  "read_decimal_loop r s = Inr (n, rest) \<Longrightarrow> length rest \<le> length s"
  by (induction r s rule: read_decimal_loop.induct) (auto simp: Let_def split: if_splits)

lemma read_decimal_loop_bound:
  "read_decimal_loop r s = Inr (n, rest) \<Longrightarrow> 0 \<le> r \<Longrightarrow> r \<le> max_int64 \<Longrightarrow> 0 \<le> n \<and> n \<le> max_int64"
proof (induction r s rule: read_decimal_loop.induct)
  case (2 r nb s)
  show ?case
  proof (cases "is_digit nb")
    case True
    let ?d = "int (of_char nb) - 48"
    have d: "0 \<le> ?d" "?d < 10" using True by (auto simp: is_digit_iff)
    have "\<not> max_int64 < r * 10 + ?d"
      using "2.prems"(1) True digit_room [OF d] by (auto simp: Let_def split: if_splits)
    with 2 True d show ?thesis by (auto simp: Let_def split: if_splits)
  qed (use 2 in auto)
qed auto

lemma readDecimal_FormatUint:
  assumes "n < 2 ^ 63" and "rest = [] \<or> \<not> is_digit (hd rest)"
  shows "readDecimal (FormatUint n @ rest) = Inr (int n, rest)"
proof -
  obtain c cs where c: "FormatUint n = c # cs" by (meson FormatUint_nonempty neq_Nil_conv)
  define mx :: nat where "mx = 2 ^ 63 - 1"
  have mx: "n \<le> mx" "int mx = max_int64" using assms(1) by (simp_all add: mx_def)
  have dig: "is_digit c" "\<forall>x\<in>set cs. is_digit x" using FormatUint_digits [of _ n] c by auto
  have "parse_digits 10 mx (of_char c - 48) cs = Inr n"
    using parse_digits_FormatUint [OF mx(1)] digit_value(1,2) [OF dig(1)] c by (simp split: if_splits)
  from read_decimal_loop_digits [OF dig(2) assms(2) this mx(2)] show ?thesis
    using dig(1) by (simp only: readDecimal_def c digit_value(3) append_Cons list.case simp_thms if_False)
qed

lemma decodeString_appendString [wire_simps]:
  assumes "length s \<le> m" and "length s < 2 ^ 63"
  shows "decodeString m (appendString s @ rest) = Inr (s, rest)"
  using readDecimal_FormatUint [OF assms(2), of "CHR '':'' # s @ rest"] assms(1)
  by (simp add: decodeString_def appendString_def readFull_def is_digit_iff)

lemma decodeString_Inr:
  assumes "decodeString m s = Inr (t, rest)"
  shows "length t \<le> m" and "length t < 2 ^ 63" and "length rest < length s"
proof -
  from assms obtain len r where r: "readDecimal s = Inr (len, CHR '':'' # r)" "readFull m len r = Inr (t, rest)" "0 \<le> len"
    by (auto simp: decodeString_def split: sum.splits list.splits if_splits)
  from r(1) obtain b bs where s: "s = b # bs" "is_digit b" "read_decimal_loop (int (of_char b) - 48) bs = Inr (len, CHR '':'' # r)"
    by (auto simp: readDecimal_def split: list.splits if_splits)
  have "0 \<le> len \<and> len \<le> max_int64"
    by (rule read_decimal_loop_bound [OF s(3)]) (use s(2) in \<open>auto simp: is_digit_iff\<close>)
  with r(2) show "length t \<le> m" "length t < 2 ^ 63" by (auto simp: readFull_def split: if_splits)
  show "length rest < length s"
    using read_decimal_loop_rest [OF s(3)] r(2) s(1) by (auto simp: readFull_def split: if_splits)
qed

lemma validateIntString_FormatInt: "validateIntString (FormatInt i) = None"
proof (cases "i < 0")
  case True
  then have "hd (FormatUint (nat (- i))) \<noteq> CHR ''0''" by (intro hd_FormatUint_nonzero) simp
  with True show ?thesis by (simp add: validateIntString_def FormatInt_def hd_conv_nth)
next
  case False
  let ?s = "FormatUint (nat i)"
  have d: "is_digit (?s ! 0)" using hd_FormatUint_digit [of "nat i"] by (simp add: hd_conv_nth)
  have nz: "i = 0 \<or> ?s ! 0 \<noteq> CHR ''0''"
    using hd_FormatUint_nonzero [of "nat i"] False by (auto simp: hd_conv_nth)
  have "?s \<noteq> ''overflow''" using d by (auto simp: is_digit_iff)
  with False nz not_sign_digit [OF d] show ?thesis
    by (auto simp: validateIntString_def FormatInt_def)
qed

lemma length_FormatInt: "in_int64 i \<Longrightarrow> length (FormatInt i) \<le> 20"
  using length_FormatUint [of "nat (- i)" 19] length_FormatUint [of "nat i" 19]
  by (auto simp: FormatInt_def nat_less_iff)

lemma finish_int_FormatInt: "in_int64 i \<Longrightarrow> finish_int (FormatInt i) = Inr i"
  using length_FormatInt [of i]
  by (simp add: finish_int_def Let_def validateIntString_FormatInt ParseInt_FormatInt)

lemma digits_split:
  "\<forall>c\<in>set ds. is_digit c \<Longrightarrow> \<not> is_digit x \<Longrightarrow>
    takeWhile is_digit (ds @ x # rest) = ds \<and> dropWhile is_digit (ds @ x # rest) = x # rest"
  by (simp add: takeWhile_append2 dropWhile_append2)

lemma decodeInt_digits:
  assumes "sg = [] \<or> sg = ''-''" and "is_digit c" and "\<forall>x\<in>set cs. is_digit x"
  shows "decodeInt (CHR ''i'' # sg @ (c # cs) @ CHR ''e'' # rest) = rbind (finish_int (sg @ c # cs)) (\<lambda>i. Inr (i, rest))"
proof -
  have "takeWhile is_digit (cs @ CHR ''e'' # rest) = cs" "dropWhile is_digit (cs @ CHR ''e'' # rest) = CHR ''e'' # rest"
    using digits_split [OF assms(3), of "CHR ''e''" rest] by (auto simp: is_digit_iff)
  then show ?thesis using assms(1,2) not_sign_digit [OF assms(2)] by (auto simp: decodeInt_def Let_def)
qed

lemma decodeInt_appendInt [wire_simps]:
  assumes "in_int64 i"
  shows "decodeInt (appendInt i @ rest) = Inr (i, rest)"
proof -
  define sg where "sg = (if i < 0 then ''-'' else [])"
  obtain c cs where c: "FormatUint (nat \<bar>i\<bar>) = c # cs" by (meson FormatUint_nonempty neq_Nil_conv)
  have dig: "is_digit c" "\<forall>x\<in>set cs. is_digit x" using FormatUint_digits [of _ "nat \<bar>i\<bar>"] c by auto
  have fmt: "FormatInt i = sg @ c # cs" using c by (cases "i < 0") (simp_all add: FormatInt_def sg_def)
  have "sg = [] \<or> sg = ''-''" by (simp add: sg_def)
  from decodeInt_digits [OF this dig, of rest] show ?thesis
    using finish_int_FormatInt [OF assms] by (simp add: appendInt_def fmt)
qed

section \<open>Termination\<close>

lemma skip_float_rest: "skip_float s = Inr (i, r) \<Longrightarrow> i = 0 \<and> length r < length s"
  by (induction s rule: skip_float.induct) (auto split: if_splits)

lemma ParseInt_bound: "ParseInt s b 64 = Inr i \<Longrightarrow> in_int64 i"
  by (auto simp: ParseInt_def rbind_eq_Inr Let_def not_le nat_less_iff dest!: ParseUint_bound split: list.splits if_splits)

lemma finish_int_bound: "finish_int num = Inr i \<Longrightarrow> in_int64 i"
  by (rule ParseInt_bound [of "if 24 < length num then ''overflow'' else num" 10])
     (simp add: finish_int_def Let_def split: option.splits sum.splits num_error.splits if_splits)

lemma decodeInt_Inr:
  assumes "decodeInt s = Inr (i, r)"
  shows "in_int64 i" and "length r < length s"
proof -
  from assms obtain b bs where s: "tl s = b # bs"
    by (auto simp: decodeInt_def split: list.splits)
  define rest where "rest = (if b = CHR ''-'' \<or> b = CHR ''+'' then bs else b # bs)"
  define num where "num = (\<lambda>c cs. (if b = CHR ''-'' \<or> b = CHR ''+'' then [b] else []) @ c # takeWhile is_digit cs)"
  have le: "length rest < length s" using s by (cases s) (auto simp: rest_def)
  from assms obtain c cs nextB more where c: "rest = c # cs" "dropWhile is_digit cs = nextB # more"
    and res: "skip_float (nextB # more) = Inr (i, r) \<or> (finish_int (num c cs) = Inr i \<and> r = more)"
    by (auto simp: decodeInt_def s Let_def rest_def num_def rbind_eq_Inr split: list.splits if_splits)
  have "length (nextB # more) \<le> length cs" using length_dropWhile_le [of is_digit cs] c(2) by simp
  with res le c(1) show "length r < length s"
    using skip_float_rest [of "nextB # more" i r] by (auto simp del: skip_float.simps)
  show "in_int64 i"
    using res skip_float_rest [of "nextB # more" i r] finish_int_bound [of "num c cs" i] by auto
qed

definition consumes :: "(string \<Rightarrow> (dec_error + Value \<times> string) option) \<Rightarrow> bool" where
  "consumes dec \<longleftrightarrow> (\<forall>s v r. dec s = Some (Inr (v, r)) \<longrightarrow> length r < length s)"

lemma consumesD: "consumes dec \<Longrightarrow> dec s = Some (Inr (v, r)) \<Longrightarrow> length r < length s"
  by (auto simp: consumes_def)

lemma decode_list_rest:
  "consumes dec \<Longrightarrow> decode_list dec f items s = Some (Inr (v, r)) \<Longrightarrow> length r < length s"
  by (induction f arbitrary: items s)
     (fastforce simp: dbind_eq_Some_Inr split: if_splits dest: consumesD)+

lemma decode_dict_rest:
  "consumes dec \<Longrightarrow> decode_dict m dec f dict k s = Some (Inr (v, r)) \<Longrightarrow> length r < length s"
proof (induction f arbitrary: dict k s)
  case (Suc f)
  show ?case
  proof (cases "s = [] \<or> hd s = CHR ''e'' \<or> \<not> is_digit (hd s)")
    case False
    with Suc.prems(2) obtain key s1 val s2 where
      "decodeString m s = Inr (key, s1)" "dec s1 = Some (Inr (val, s2))"
      "decode_dict m dec f (Set dict key val) key s2 = Some (Inr (v, r))"
      by (auto simp: dbind_eq_Some_Inr split: if_splits)
    with Suc.IH [OF Suc.prems(1)] consumesD [OF Suc.prems(1)] decodeString_Inr(3) show ?thesis
      by (meson less_trans)
  qed (use Suc.prems in \<open>auto split: if_splits\<close>)
qed simp

lemma decode_list_total:
  assumes "consumes dec" and "\<And>s. dec s \<noteq> None"
  shows "length s < f \<Longrightarrow> decode_list dec f items s \<noteq> None"
proof (induction f arbitrary: items s)
  case (Suc f)
  have "dbind (dec s) (\<lambda>(v, rest). decode_list dec f (items @ [v]) rest) \<noteq> None"
    using Suc.IH Suc.prems consumesD [OF assms(1)] assms(2) by (intro dbind_not_None) fastforce+
  then show ?case by simp
qed simp

lemma decode_dict_total:
  assumes "consumes dec" and "\<And>s. dec s \<noteq> None"
  shows "length s < f \<Longrightarrow> decode_dict m dec f dict k s \<noteq> None"
proof (induction f arbitrary: dict k s)
  case (Suc f)
  have "dec s1 \<noteq> None \<and> (\<forall>val s2. dec s1 = Some (Inr (val, s2)) \<longrightarrow> decode_dict m dec f (Set dict key val) key s2 \<noteq> None)"
    if "decodeString m s = Inr (key, s1)" for key s1
  proof (intro conjI allI impI)
    fix val s2
    assume "dec s1 = Some (Inr (val, s2))"
    with consumesD [OF assms(1)] decodeString_Inr(3) [OF that] Suc.prems have "length s2 < f" by fastforce
    then show "decode_dict m dec f (Set dict key val) key s2 \<noteq> None" by (rule Suc.IH)
  qed (rule assms(2))
  then have "dbind (Some (decodeString m s)) (\<lambda>(key, s1). dbind (dec s1) (\<lambda>(val, s2).
      if k \<noteq> [] \<and> key < k then Some (Inl ErrDictKeyOrder)
      else decode_dict m dec f (Set dict key val) key s2)) \<noteq> None"
    by (auto simp: dbind_eq_None iff del: not_None_eq split: if_splits)
  then show ?case by simp
qed simp

lemma consumes_decodeWithDepth: "consumes (decodeWithDepth f m depth)"
proof (induction f arbitrary: depth)
  case (Suc f)
  show ?case
    unfolding consumes_def
  proof (intro allI impI)
    fix s v r
    assume "decodeWithDepth (Suc f) m depth s = Some (Inr (v, r))"
    then show "length r < length s"
      using decode_list_rest [OF Suc [of "depth + 1"]] decode_dict_rest [OF Suc [of "depth + 1"]]
        decodeString_Inr(3) decodeInt_Inr(2)
      by (fastforce simp: decodeList_def decodeDict_def rbind_eq_Inr split: if_splits)
  qed
qed (simp add: consumes_def)

lemma decodeWithDepth_total:
  "0 < f \<Longrightarrow> maxDepth < depth + f \<Longrightarrow> decodeWithDepth f m depth s \<noteq> None"
proof (induction f arbitrary: depth s)
  case (Suc f)
  show ?case
  proof (cases "depth < maxDepth")
    case True
    with Suc.prems have "\<And>s. decodeWithDepth f m (depth + 1) s \<noteq> None" by (intro Suc.IH) auto
    from decode_list_total [OF consumes_decodeWithDepth this] decode_dict_total [OF consumes_decodeWithDepth this]
    show ?thesis by (auto simp: decodeList_def decodeDict_def simp del: not_None_eq)
  qed (auto simp: decodeList_def decodeDict_def)
qed simp

section \<open>Round trip\<close>

text \<open>What the encoder has to be given so that the decoder takes its output back: strings within
  the reader's limits, 64-bit integers, distinct keys and at most \<open>k\<close> levels of nesting.\<close>

definition string_ok :: "nat \<Rightarrow> string \<Rightarrow> bool" where
  "string_ok m s \<longleftrightarrow> length s \<le> m \<and> length s < 2 ^ 63"

primrec value_ok :: "nat \<Rightarrow> Value \<Rightarrow> nat \<Rightarrow> bool"
where
  "value_ok m (StringVal s) k \<longleftrightarrow> string_ok m s"
| "value_ok m (IntVal i) k \<longleftrightarrow> in_int64 i"
| "value_ok m (ListVal vs) k \<longleftrightarrow> 0 < k \<and> (\<forall>ok\<in>set (map (value_ok m) vs). ok (k - 1))"
| "value_ok m (DictVal es) k \<longleftrightarrow> 0 < k \<and> distinct (map fst es) \<and>
     (\<forall>e\<in>set (map (map_prod id (value_ok m)) es). string_ok m (fst e) \<and> snd e (k - 1))"

text \<open>The value with the entries of every dictionary in the order of their keys.\<close>

primrec canon :: "Value \<Rightarrow> Value" where
  "canon (StringVal s) = StringVal s"
| "canon (IntVal i) = IntVal i"
| "canon (ListVal vs) = ListVal (map canon vs)"
| "canon (DictVal es) = DictVal (sort_key fst (map (map_prod id canon) es))"

lemma Set_fresh: "key \<notin> fst ` set es \<Longrightarrow> Set es key val = es @ [(key, val)]"
  by (induction es key val rule: Set.induct) auto

lemma appendString_hd: "is_digit (hd (appendString s @ rest))" "appendString s @ rest \<noteq> []"
  using hd_FormatUint_digit [of "length s"] by (simp_all add: appendString_def hd_append)

lemma appendValue_start:
  "appendValue v \<noteq> []" "is_digit (hd (appendValue v)) \<or> hd (appendValue v) \<in> set ''ild''"
  using appendString_hd [of _ "[]"] by (cases v; simp add: appendInt_def)+

lemma hd_appendValue_not_e: "hd (appendValue v @ rest) \<noteq> CHR ''e''" "appendValue v @ rest \<noteq> []"
  using appendValue_start [of v] by (auto simp: hd_append is_digit_iff)

lemma decode_list_items:
  assumes "\<And>v rest. v \<in> set vs \<Longrightarrow> dec (appendValue v @ rest) = Some (Inr (canon v, rest))"
  shows "length vs < f \<Longrightarrow>
    decode_list dec f items (concat (map appendValue vs) @ CHR ''e'' # rest) =
    Some (Inr (ListVal (items @ map canon vs), rest))"
  using assms
proof (induction vs arbitrary: f items)
  case Nil
  then show ?case by (cases f) auto
next
  case (Cons v vs)
  obtain f' where f: "f = Suc f'" "length vs < f'" using Cons.prems(1) by (cases f) auto
  show ?case using hd_appendValue_not_e [of v] Cons.IH [OF f(2)] Cons.prems(2) by (simp add: f(1))
qed

lemma sort_key_map_snd: "sort_key fst (map (map_prod id g) es) = map (map_prod id g) (sort_key fst es)"
proof -
  have *: "insort_key fst (map_prod id g e) (map (map_prod id g) es) = map (map_prod id g) (insort_key fst e es)" for e es
    by (induction es) auto
  show ?thesis by (induction es) (simp_all only: sort_key_simps list.map *)
qed

lemma decode_dict_entries:
  assumes "\<And>k v rest. (k, v) \<in> set es \<Longrightarrow> string_ok m k \<and> dec (appendValue v @ rest) = Some (Inr (canon v, rest))"
    and "length es < f" and "distinct (map fst (dict @ es))" and "sorted (map fst (dict @ es))"
    and "lastKey = [] \<or> lastKey = fst (last dict) \<and> dict \<noteq> []"
  shows "decode_dict m dec f dict lastKey
      (concat (map (\<lambda>(k, v). appendString k @ appendValue v) es) @ CHR ''e'' # rest) =
    Some (Inr (DictVal (dict @ map (map_prod id canon) es), rest))"
  using assms
proof (induction es arbitrary: f dict lastKey)
  case Nil
  then show ?case by (cases f) auto
next
  case (Cons e es)
  obtain k v where e: "e = (k, v)" by (cases e)
  obtain f' where f: "f = Suc f'" "length es < f'" using Cons.prems(2) by (cases f) auto
  have str: "decodeString m (appendString k @ r) = Inr (k, r)" for r
    using Cons.prems(1) [of k v] e by (simp add: decodeString_appendString string_ok_def)
  have fresh: "Set dict k (canon v) = dict @ [(k, canon v)]"
    using Cons.prems(3) by (intro Set_fresh) (auto simp: e)
  have ord: "\<not> (lastKey \<noteq> [] \<and> k < lastKey)"
  proof -
    have "lastKey \<noteq> [] \<Longrightarrow> lastKey \<le> k"
      using Cons.prems(4,5) last_in_set [of dict] by (auto simp: e sorted_append)
    then show ?thesis by (meson leD)
  qed
  have IH: "decode_dict m dec f' (dict @ [(k, canon v)]) k
      (concat (map (\<lambda>(k, v). appendString k @ appendValue v) es) @ CHR ''e'' # rest) =
    Some (Inr (DictVal ((dict @ [(k, canon v)]) @ map (map_prod id canon) es), rest))"
    using Cons.prems e by (intro Cons.IH f(2)) auto
  have "hd (appendString k @ r) \<noteq> CHR ''e''" for r using appendString_hd(1) [of k r] by (auto simp: is_digit_iff)
  with appendString_hd [of k] str fresh ord IH Cons.prems(1) [of k v] show ?case
    by (simp add: f(1) e id_def)
qed

lemma appendValue_DictVal:
  "appendValue (DictVal es) =
    CHR ''d'' # concat (map (\<lambda>(k, v). appendString k @ appendValue v) (sort_key fst es)) @ ''e''"
proof -
  have *: "(\<lambda>(k, v). (k, appendValue v)) = map_prod id appendValue" by auto
  have "sort_key fst (map (\<lambda>(k, v). (k, appendValue v)) es) = map (map_prod id appendValue) (sort_key fst es)"
    unfolding * by (rule sort_key_map_snd)
  then show ?thesis by (simp only: appendValue.simps map_map) (simp add: o_def split_def)
qed

lemma length_concat_entries: "length es \<le> length (concat (map (\<lambda>(k, v). appendString k @ appendValue v) es))"
  by (induction es) (auto simp: appendString_def)

lemma length_concat_values: "length vs \<le> length (concat (map appendValue vs))"
proof (induction vs)
  case (Cons v vs)
  then show ?case using appendValue_start(1) [of v] by (cases "appendValue v") auto
qed simp

lemma decode_appendValue:
  assumes "value_ok m v k" and "k + depth \<le> maxDepth" and "k < f"
  shows "decodeWithDepth f m depth (appendValue v @ rest) = Some (Inr (canon v, rest))"
  using assms
proof (induction v arbitrary: k depth f rest)
  case (StringVal s)
  then obtain f' where "f = Suc f'" by (cases f) auto
  with StringVal show ?case
    using appendString_hd [of s rest] by (simp add: decodeString_appendString string_ok_def)
next
  case (IntVal i)
  then obtain f' where "f = Suc f'" by (cases f) auto
  with IntVal decodeInt_appendInt [of i rest] show ?case
    by (simp add: appendInt_def is_digit_iff)
next
  case (ListVal vs)
  then obtain f' k' where f: "f = Suc f'" "k = Suc k'" "k' < f'" by (cases f; cases k) auto
  have "decodeWithDepth f' m (depth + 1) (appendValue v @ rest) = Some (Inr (canon v, rest))"
    if "v \<in> set vs" for v rest
    using ListVal.IH [OF that, of k'] ListVal.prems that f by auto
  from decode_list_items [of vs "decodeWithDepth f' m (depth + 1)", OF this] ListVal.prems show ?case
    using length_concat_values [of vs] f by (simp add: decodeList_def is_digit_iff del: decode_list.simps)
next
  case (DictVal es)
  then obtain f' k' where f: "f = Suc f'" "k = Suc k'" "k' < f'" by (cases f; cases k) auto
  have "string_ok m key \<and> decodeWithDepth f' m (depth + 1) (appendValue v @ rest) = Some (Inr (canon v, rest))"
    if "(key, v) \<in> set (sort_key fst es)" for key v rest
    using DictVal.IH [of "(key, v)" v k' "depth + 1" f'] DictVal.prems that f by force
  from decode_dict_entries [of "sort_key fst es" m "decodeWithDepth f' m (depth + 1)", OF this] DictVal.prems
  show ?case
    using length_concat_entries [of "sort_key fst es"] f
    by (simp add: decodeDict_def is_digit_iff appendValue_DictVal sort_key_map_snd distinct_map
         del: appendValue.simps(4) decode_dict.simps)
qed

section \<open>What the decoder accepts\<close>

text \<open>Every decoded value is within the limits and has its dictionary keys in increasing order.\<close>

definition decoded :: "nat \<Rightarrow> nat \<Rightarrow> Value \<Rightarrow> bool" where
  "decoded m k v \<longleftrightarrow> value_ok m v k \<and> canon v = v"

definition yields :: "(string \<Rightarrow> (dec_error + Value \<times> string) option) \<Rightarrow> (Value \<Rightarrow> bool) \<Rightarrow> bool" where
  "yields dec P \<longleftrightarrow> (\<forall>s v r. dec s = Some (Inr (v, r)) \<longrightarrow> P v)"

lemma yieldsD: "yields dec P \<Longrightarrow> dec s = Some (Inr (v, r)) \<Longrightarrow> P v"
  by (auto simp: yields_def)

lemma decoded_ListVal: "0 < k \<Longrightarrow> \<forall>v\<in>set vs. decoded m (k - 1) v \<Longrightarrow> decoded m k (ListVal vs)"
  by (simp add: decoded_def map_idI)

lemma decoded_DictVal:
  "0 < k \<Longrightarrow> distinct (map fst es) \<Longrightarrow> sorted (map fst es) \<Longrightarrow>
    \<forall>(key, v)\<in>set es. string_ok m key \<and> decoded m (k - 1) v \<Longrightarrow> decoded m k (DictVal es)"
proof -
  assume a: "0 < k" "distinct (map fst es)" "sorted (map fst es)"
    "\<forall>(key, v)\<in>set es. string_ok m key \<and> decoded m (k - 1) v"
  have "map (map_prod id canon) es = es" using a(4) by (intro map_idI) (auto simp: decoded_def)
  moreover have "sort_key fst es = es" using a(3) by (simp add: sort_key_id_if_sorted)
  ultimately show ?thesis using a by (auto simp: decoded_def)
qed

lemma decode_list_yields:
  "yields dec P \<Longrightarrow> decode_list dec f items s = Some (Inr (v, r)) \<Longrightarrow> \<forall>x\<in>set items. P x \<Longrightarrow>
    \<exists>vs. v = ListVal vs \<and> (\<forall>x\<in>set vs. P x)"
proof (induction f arbitrary: items s)
  case (Suc f)
  show ?case
  proof (cases "s = [] \<or> hd s = CHR ''e''")
    case False
    with Suc.prems(2) obtain x rest where
      "dec s = Some (Inr (x, rest))" "decode_list dec f (items @ [x]) rest = Some (Inr (v, r))"
      by (auto simp: dbind_eq_Some_Inr)
    with Suc.IH [OF Suc.prems(1), of "items @ [x]" rest] Suc.prems(3) yieldsD [OF Suc.prems(1)] show ?thesis by auto
  qed (use Suc.prems in \<open>auto split: if_splits\<close>)
qed simp

lemma Set_entries: "set (Set es key val) \<subseteq> insert (key, val) (set es)"
  by (induction es key val rule: Set.induct) auto

lemma Set_keys: "map fst (Set es key val) = (if key \<in> fst ` set es then map fst es else map fst es @ [key])"
  by (induction es key val rule: Set.induct) auto

definition dict_ok :: "nat \<Rightarrow> (Value \<Rightarrow> bool) \<Rightarrow> (string \<times> Value) list \<Rightarrow> string \<Rightarrow> bool" where
  "dict_ok m P dict lastKey \<longleftrightarrow> distinct (map fst dict) \<and> sorted (map fst dict) \<and>
     (\<forall>(key, v)\<in>set dict. string_ok m key \<and> P v) \<and> (\<forall>k\<in>fst ` set dict. k \<le> lastKey)"

lemma dict_ok_Set:
  assumes "dict_ok m P dict lastKey" and "string_ok m key" and "P v" and "\<not> (lastKey \<noteq> [] \<and> key < lastKey)"
  shows "dict_ok m P (Set dict key v) key"
proof -
  have le: "k \<le> key" if "k \<in> fst ` set dict" for k
    using assms(1,4) that unfolding dict_ok_def by (metis le_less_linear list.simps Nil_le_Cons not_less order_trans)
  then show ?thesis
    using assms Set_entries [of dict key v]
    by (auto simp: dict_ok_def Set_keys sorted_append simp flip: set_map)
qed

lemma decode_dict_yields:
  "yields dec P \<Longrightarrow> decode_dict m dec f dict lastKey s = Some (Inr (v, r)) \<Longrightarrow> dict_ok m P dict lastKey \<Longrightarrow>
    \<exists>es k. v = DictVal es \<and> dict_ok m P es k"
proof (induction f arbitrary: dict lastKey s)
  case (Suc f)
  show ?case
  proof (cases "s = [] \<or> hd s = CHR ''e'' \<or> \<not> is_digit (hd s)")
    case False
    with Suc.prems(2) obtain key s1 val s2 where *: "decodeString m s = Inr (key, s1)"
      "dec s1 = Some (Inr (val, s2))" "\<not> (lastKey \<noteq> [] \<and> key < lastKey)"
      "decode_dict m dec f (Set dict key val) key s2 = Some (Inr (v, r))"
      by (auto simp: dbind_eq_Some_Inr split: if_splits)
    have "dict_ok m P (Set dict key val) key"
      using Suc.prems(3) yieldsD [OF Suc.prems(1) *(2)] decodeString_Inr [OF *(1)] *(3)
      by (intro dict_ok_Set) (auto simp: string_ok_def)
    from Suc.IH [OF Suc.prems(1) *(4) this] show ?thesis .
  qed (use Suc.prems in \<open>auto split: if_splits\<close>)
qed simp

lemma decodeWithDepth_decoded: "yields (decodeWithDepth f m depth) (decoded m (maxDepth - depth))"
proof (induction f arbitrary: depth)
  case (Suc f)
  show ?case
    unfolding yields_def
  proof (intro allI impI)
    fix s v r
    assume dec: "decodeWithDepth (Suc f) m depth s = Some (Inr (v, r))"
    let ?dec = "decodeWithDepth f m (depth + 1)"
    note IH = Suc [of "depth + 1"]
    from dec consider
        (str) t where "decodeString m s = Inr (t, r)" "v = StringVal t"
      | (int) i where "decodeInt s = Inr (i, r)" "v = IntVal i"
      | (lst) "depth < maxDepth" "decode_list ?dec (length s) [] (tl s) = Some (Inr (v, r))"
      | (dct) "depth < maxDepth" "decode_dict m ?dec (length s) [] [] (tl s) = Some (Inr (v, r))"
      by (auto simp: decodeList_def decodeDict_def rbind_eq_Inr simp del: decode_list.simps decode_dict.simps split: if_splits)
    then show "decoded m (maxDepth - depth) v"
    proof cases
      case str
      then show ?thesis using decodeString_Inr(1,2) by (simp add: decoded_def string_ok_def)
    next
      case int
      then show ?thesis using decodeInt_Inr(1) by (simp add: decoded_def)
    next
      case lst
      from decode_list_yields [OF IH lst(2)] lst(1) show ?thesis by (auto intro: decoded_ListVal)
    next
      case dct
      from decode_dict_yields [OF IH dct(2)] dct(1) show ?thesis
        by (fastforce simp: dict_ok_def intro: decoded_DictVal)
    qed
  qed
qed (simp add: yields_def)

lemma string_String: "string_String s = appendString s"
proof (cases "length s < 10")
  case True
  then have "FormatUint (length s) = [char_of (48 + length s)]"
    by (subst FormatUint.simps) (simp add: digit_char_def)
  with True show ?thesis by (simp add: string_String_def appendString_def)
qed (simp add: string_String_def appendString_def)

section \<open>Properties\<close>

text \<open>(C30) Bencode round trip. Decoding what \<open>Marshal\<close> wrote gives the value back with its
  dictionaries in key order and leaves exactly the bytes that follow it, for every value with
  strings the reader can allocate, 64-bit integers, distinct dictionary keys and at most fifty
  levels of nesting.\<close>

theorem bencode_roundtrip:
  assumes "value_ok m v maxDepth"
  shows "Decode m (Marshal v @ rest) = Some (Inr (canon v, rest))"
  using decode_appendValue [OF assms, of 0 "Suc maxDepth" rest] by (simp add: Decode_def Marshal_def)

theorem bencode_roundtrip_witness:
  "value_ok 100 (DictVal [(''b'', IntVal (-5)), (''a'', ListVal [StringVal ''xy'', DictVal []])]) maxDepth \<and>
   Decode 100 (''d1:al2:xydee1:bi-5ee'' @ ''rest'') =
     Some (Inr (DictVal [(''a'', ListVal [StringVal ''xy'', DictVal []]), (''b'', IntVal (-5))], ''rest''))"
proof -
  let ?v = "DictVal [(''b'', IntVal (-5)), (''a'', ListVal [StringVal ''xy'', DictVal []])]"
  have ok: "value_ok 100 ?v maxDepth" by (simp add: maxDepth_def string_ok_def)
  have "Marshal ?v = ''d1:al2:xydee1:bi-5ee''" by code_simp
  moreover have "canon ?v = DictVal [(''a'', ListVal [StringVal ''xy'', DictVal []]), (''b'', IntVal (-5))]"
    by code_simp
  ultimately show ?thesis using bencode_roundtrip [OF ok, of "''rest''"] ok by simp
qed

text \<open>Decoding terminates. \<open>Decode\<close> returns a value or an error on every input, since
  each round of its loops consumes a byte and the nesting limit bounds its recursion.\<close>

lemma decode_terminates: "\<exists>r. Decode m s = Some r"
  using decodeWithDepth_total [of "Suc maxDepth" 0 m s] by (simp add: Decode_def)

text \<open>(C31) What decoding accepts. A decoded value is within every limit of the decoder, has
  its dictionary keys distinct and in increasing order, and is reproduced when it is encoded
  and decoded again; at least one byte is consumed.\<close>

theorem decode_sound:
  assumes "Decode m s = Some (Inr (v, rest))"
  shows "value_ok m v maxDepth \<and> canon v = v \<and> length rest < length s \<and>
    Decode m (Marshal v) = Some (Inr (v, []))"
proof -
  have "decoded m maxDepth v"
    using yieldsD [OF decodeWithDepth_decoded assms [unfolded Decode_def]] by simp
  moreover have "length rest < length s"
    using consumesD [OF consumes_decodeWithDepth assms [unfolded Decode_def]] .
  ultimately show ?thesis
    using decode_appendValue [of m v maxDepth 0 "Suc maxDepth" "[]"]
    by (simp add: decoded_def Decode_def Marshal_def)
qed

theorem decode_sound_witness:
  "let v = ListVal [StringVal ''abc'', DictVal [(''a'', ListVal []), (''b'', StringVal ''x'')]]
   in Decode 9 ''l03:abcd1:a0:1:ale1:b1:xeeZ'' = Some (Inr (v, ''Z'')) \<and> Decode 9 (Marshal v) = Some (Inr (v, []))"
proof -
  let ?v = "ListVal [StringVal ''abc'', DictVal [(''a'', ListVal []), (''b'', StringVal ''x'')]]"
  have "Decode 9 ''l03:abcd1:a0:1:ale1:b1:xeeZ'' = Some (Inr (?v, ''Z''))" by code_simp
  with decode_sound [OF this] show ?thesis by (simp only: Let_def simp_thms)
qed

text \<open>The two encoders agree. \<open>String\<close>, with its special case for short strings, writes
  the same bytes as \<open>Marshal\<close>.\<close>

lemma string_eq_marshal: "Value_String v = Marshal v"
  unfolding Marshal_def
proof (induction v)
  case (ListVal vs)
  then show ?case by (simp cong: map_cong)
next
  case (DictVal es)
  then have "map (\<lambda>(k, v). (k, Value_String v)) es = map (\<lambda>(k, v). (k, appendValue v)) es"
    by (intro map_cong) auto
  then show ?case by (simp only: Value_String.simps appendValue.simps) (simp add: appendString_def split_def)
qed (simp_all add: string_String appendInt_def)

text \<open>A length that the run time cannot allocate panics in \<open>readFull\<close>, before the decoder has
  looked at whether that many bytes are there.\<close>

lemma huge_length_panics:
  assumes "m < n" and "n < 2 ^ 63"
  shows "Decode m (FormatUint n @ CHR '':'' # rest) = Some (Inl PanicMakeSlice)"
proof -
  have "decodeString m (FormatUint n @ CHR '':'' # rest) = Inl PanicMakeSlice"
    using readDecimal_FormatUint [OF assms(2), of "CHR '':'' # rest"] assms(1)
    by (simp add: decodeString_def readFull_def is_digit_iff)
  then show ?thesis by (simp add: Decode_def hd_append)
qed

text \<open>Unlike integers, string lengths may have leading zeros.\<close>

lemma leading_zero_length: "Decode 9 ''05:hello'' = Some (Inr (StringVal ''hello'', []))"
  by code_simp

end
