(* ===== verification/BencodeReader.thy ===== *)
theory BencodeReader
  imports Bencode
begin

text \<open>
  The buffered \<open>reader\<close> under the bencode decoder (\<open>src/internal/bencode/decode.go\<close>, type
  \<open>reader\<close>): a 256-byte buffer over an \<open>io.Reader\<close>. The underlying reader holds the bytes still
  to come and a schedule of how many bytes its next calls are willing to return, so that short
  reads at any place are covered. As \<open>io.Reader\<close> documents, a call with a non-empty buffer
  returns at least one byte or an error.
\<close>

section \<open>The underlying reader\<close>

record io_Reader =
  bytes_left :: string
  sched :: "nat list"

definition Read :: "nat \<Rightarrow> io_Reader \<Rightarrow> string \<times> io_Reader" where
  "Read k r =
     (let n = (case sched r of [] \<Rightarrow> k | a # as \<Rightarrow> min k (Suc a))
      in (take n (bytes_left r), r\<lparr>bytes_left := drop n (bytes_left r), sched := tl (sched r)\<rparr>))"

lemma length_Read: "0 < k \<Longrightarrow> bytes_left r \<noteq> [] \<Longrightarrow> 0 < length (fst (Read k r)) \<and> length (fst (Read k r)) \<le> k"
  by (auto simp: Read_def Let_def split: list.splits)

text \<open>\<open>io.ReadFull\<close> calls \<open>Read\<close> until \<open>n\<close> bytes have arrived or none come.\<close>

function io_ReadFull :: "nat \<Rightarrow> io_Reader \<Rightarrow> string \<times> io_Reader" where
  "io_ReadFull n r =
     (if n = 0 \<or> bytes_left r = [] then ([], r)
      else let (got, r') = Read n r; (more, r'') = io_ReadFull (n - length got) r'
           in (got @ more, r''))"
  by pat_completeness auto

termination
proof (relation "measure fst", goal_cases)
  case (2 n r got_r got r')
  with length_Read [of n r] have "0 < length (fst (Read n r))" by auto
  with 2 show ?case by (auto simp: prod_eq_iff)
qed simp

declare io_ReadFull.simps [simp del]

section \<open>The buffered reader\<close>

record reader =
  rd_r :: "io_Reader option"
  rd_buf :: string
  rd_pos :: nat
  rd_end :: nat

definition newReader :: "io_Reader \<Rightarrow> reader" where
  "newReader r = \<lparr>rd_r = Some r, rd_buf = replicate 256 CHR 0x00, rd_pos = 0, rd_end = 0\<rparr>"

definition refill :: "reader \<Rightarrow> char option \<times> reader" where
  "refill rd =
     (case rd_r rd of
        None \<Rightarrow> (None, rd)
      | Some r \<Rightarrow>
          let (got, r') = Read (length (rd_buf rd)) r; n = length got; rd' = rd\<lparr>rd_r := Some r'\<rparr> in
          if 0 < n then
            (Some (hd got), rd'\<lparr>rd_buf := got @ drop n (rd_buf rd), rd_end := n, rd_pos := 0\<rparr>)
          else (None, rd'))"

definition readByte :: "reader \<Rightarrow> char option \<times> reader" where
  "readByte rd =
     (if rd_end rd \<le> rd_pos rd then
        (case refill rd of
           (None, rd') \<Rightarrow> (None, rd')
         | (Some b, rd') \<Rightarrow> (Some b, rd'\<lparr>rd_pos := rd_pos rd' + 1\<rparr>))
      else (Some (rd_buf rd ! rd_pos rd), rd\<lparr>rd_pos := rd_pos rd + 1\<rparr>))"

definition peekByte :: "reader \<Rightarrow> char option \<times> reader" where
  "peekByte rd =
     (if rd_end rd \<le> rd_pos rd then
        (case refill rd of
           (None, rd') \<Rightarrow> (None, rd')
         | (Some b, rd') \<Rightarrow> (Some (rd_buf rd' ! rd_pos rd'), rd'))
      else (Some (rd_buf rd ! rd_pos rd), rd))"

definition reader_readFull :: "nat \<Rightarrow> reader \<Rightarrow> string option \<times> reader" where
  "reader_readFull n rd =
     (let avail = rd_end rd - rd_pos rd; toCopy = min avail n;
          got = take toCopy (drop (rd_pos rd) (rd_buf rd));
          rd' = rd\<lparr>rd_pos := rd_pos rd + toCopy\<rparr>; left = n - toCopy
      in if 0 < avail \<and> left = 0 then (Some got, rd')
         else case rd_r rd' of
                None \<Rightarrow> (None, rd')
              | Some r \<Rightarrow>
                  let (more, r') = io_ReadFull left r in
                  if length more = left then (Some (got @ more), rd'\<lparr>rd_r := Some r'\<rparr>)
                  else (None, rd'\<lparr>rd_r := Some r'\<rparr>))"

section \<open>A source of bytes\<close>

datatype rd_call = ReadByte | PeekByte | ReadFull nat

text \<open>The results of a run of calls on a reader, and the same run on a list of bytes.\<close>

fun run_calls ::
  "('r \<Rightarrow> char option \<times> 'r) \<Rightarrow> ('r \<Rightarrow> char option \<times> 'r) \<Rightarrow> (nat \<Rightarrow> 'r \<Rightarrow> string option \<times> 'r) \<Rightarrow>
    'r \<Rightarrow> rd_call list \<Rightarrow> string option list"
where
  "run_calls rb pb rf r [] = []"
| "run_calls rb pb rf r (ReadByte # cs) = (let (x, r') = rb r in map_option (\<lambda>b. [b]) x # run_calls rb pb rf r' cs)"
| "run_calls rb pb rf r (PeekByte # cs) = (let (x, r') = pb r in map_option (\<lambda>b. [b]) x # run_calls rb pb rf r' cs)"
| "run_calls rb pb rf r (ReadFull n # cs) = (let (x, r') = rf n r in x # run_calls rb pb rf r' cs)"

fun run_bytes :: "string \<Rightarrow> rd_call list \<Rightarrow> string option list" where
  "run_bytes s [] = []"
| "run_bytes s (ReadByte # cs) = (if s = [] then None else Some [hd s]) # run_bytes (tl s) cs"
| "run_bytes s (PeekByte # cs) = (if s = [] then None else Some [hd s]) # run_bytes s cs"
| "run_bytes s (ReadFull n # cs) =
     (if length s < n then None else Some (take n s)) # run_bytes (drop n s) cs"

text \<open>What the decoder relies on: the reader is a queue of bytes.\<close>

locale byte_source =
  fixes view :: "'r \<Rightarrow> string"
    and ok :: "'r \<Rightarrow> bool"
    and read_byte :: "'r \<Rightarrow> char option \<times> 'r"
    and peek_byte :: "'r \<Rightarrow> char option \<times> 'r"
    and read_full :: "nat \<Rightarrow> 'r \<Rightarrow> string option \<times> 'r"
  assumes read_byte_nil: "ok r \<Longrightarrow> view r = [] \<Longrightarrow> \<exists>r'. read_byte r = (None, r') \<and> ok r' \<and> view r' = []"
    and read_byte_cons: "ok r \<Longrightarrow> view r = b # bs \<Longrightarrow> \<exists>r'. read_byte r = (Some b, r') \<and> ok r' \<and> view r' = bs"
    and peek_byte_nil: "ok r \<Longrightarrow> view r = [] \<Longrightarrow> \<exists>r'. peek_byte r = (None, r') \<and> ok r' \<and> view r' = []"
    and peek_byte_cons: "ok r \<Longrightarrow> view r = b # bs \<Longrightarrow> \<exists>r'. peek_byte r = (Some b, r') \<and> ok r' \<and> view r' = b # bs"
    and read_full_short: "ok r \<Longrightarrow> length (view r) < n \<Longrightarrow> \<exists>r'. read_full n r = (None, r') \<and> ok r' \<and> view r' = []"
    and read_full_enough: "ok r \<Longrightarrow> n \<le> length (view r) \<Longrightarrow>
      \<exists>r'. read_full n r = (Some (take n (view r)), r') \<and> ok r' \<and> view r' = drop n (view r)"
begin

text \<open>Every run of calls on the source has the results it has on the list of bytes.\<close>

lemma run_refines: "ok r \<Longrightarrow> run_calls read_byte peek_byte read_full r cs = run_bytes (view r) cs"
proof (induction cs arbitrary: r)
  case (Cons c cs)
  note IH = Cons.IH
  show ?case
  proof (cases c)
    case ReadByte
    then show ?thesis
      using read_byte_nil [OF Cons.prems] read_byte_cons [OF Cons.prems] IH by (cases "view r") force+
  next
    case PeekByte
    then show ?thesis
      using peek_byte_nil [OF Cons.prems] peek_byte_cons [OF Cons.prems] IH by (cases "view r") force+
  next
    case (ReadFull n)
    then show ?thesis
      using read_full_short [OF Cons.prems, of n] read_full_enough [OF Cons.prems, of n] IH
      by (cases "length (view r) < n") (force simp: not_less)+
  qed
qed simp

end

section \<open>The buffered reader is a source of bytes\<close>

definition rd_view :: "reader \<Rightarrow> string" where
  "rd_view rd = drop (rd_pos rd) (take (rd_end rd) (rd_buf rd)) @
     (case rd_r rd of None \<Rightarrow> [] | Some r \<Rightarrow> bytes_left r)"

definition rd_ok :: "reader \<Rightarrow> bool" where
  "rd_ok rd \<longleftrightarrow> rd_r rd \<noteq> None \<and> rd_pos rd \<le> rd_end rd \<and> rd_end rd \<le> length (rd_buf rd) \<and> 0 < length (rd_buf rd)"

lemma Read_split: "fst (Read k r) @ bytes_left (snd (Read k r)) = bytes_left r"
  by (simp add: Read_def Let_def)

lemma io_ReadFull_spec:
  "fst (io_ReadFull n r) = take n (bytes_left r) \<and> bytes_left (snd (io_ReadFull n r)) = drop n (bytes_left r)"
proof (induction n r rule: io_ReadFull.induct)
  case (1 n r)
  show ?case
  proof (cases "n = 0 \<or> bytes_left r = []")
    case True
    then show ?thesis by (subst (1 2) io_ReadFull.simps) auto
  next
    case False
    obtain got r' where g: "Read n r = (got, r')" by (cases "Read n r")
    have split: "bytes_left r = got @ bytes_left r'" "length got \<le> n"
      using Read_split [of n r] length_Read [of n r] False g by auto
    have IH: "fst (io_ReadFull (n - length got) r') = take (n - length got) (bytes_left r')"
      "bytes_left (snd (io_ReadFull (n - length got) r')) = drop (n - length got) (bytes_left r')"
      using "1.IH" [OF False refl g [symmetric]] by auto
    show ?thesis using False g IH split by (subst (1 2) io_ReadFull.simps) (simp add: split_def)
  qed
qed

lemma refill_empty:
  assumes "rd_ok rd" and "rd_end rd \<le> rd_pos rd"
  shows "case rd_view rd of
      [] \<Rightarrow> \<exists>rd'. refill rd = (None, rd') \<and> rd_ok rd' \<and> rd_view rd' = []
    | b # bs \<Rightarrow> \<exists>rd'. refill rd = (Some b, rd') \<and> rd_ok rd' \<and> rd_view rd' = b # bs \<and> rd_pos rd' = 0 \<and> 0 < rd_end rd'"
proof -
  obtain r where r: "rd_r rd = Some r" using assms by (auto simp: rd_ok_def)
  obtain got r' where g: "Read (length (rd_buf rd)) r = (got, r')" by (cases "Read (length (rd_buf rd)) r")
  have split: "bytes_left r = got @ bytes_left r'" using Read_split [of "length (rd_buf rd)" r] g by simp
  have view: "rd_view rd = bytes_left r" using assms r by (simp add: rd_view_def rd_ok_def)
  have len: "bytes_left r \<noteq> [] \<Longrightarrow> got \<noteq> [] \<and> length got \<le> length (rd_buf rd)"
    using length_Read [of "length (rd_buf rd)" r] assms(1) g by (auto simp: rd_ok_def)
  show ?thesis
  proof (cases "bytes_left r")
    case Nil
    then show ?thesis using assms r g split by (simp add: view refill_def rd_ok_def rd_view_def)
  next
    case (Cons b bs)
    then have "hd got = b" using split len by (cases got) auto
    with Cons show ?thesis using assms r g split len by (auto simp: view refill_def rd_ok_def rd_view_def Let_def)
  qed
qed

lemma buffered:
  assumes "rd_ok rd" and "\<not> rd_end rd \<le> rd_pos rd"
  shows "rd_view rd = rd_buf rd ! rd_pos rd # rd_view (rd\<lparr>rd_pos := rd_pos rd + 1\<rparr>)"
    and "rd_ok (rd\<lparr>rd_pos := rd_pos rd + 1\<rparr>)"
  using assms by (auto simp: rd_ok_def rd_view_def Cons_nth_drop_Suc [symmetric])


lemma reader_readFull_spec:
  assumes "rd_ok rd"
  shows "\<exists>rd'. reader_readFull n rd =
      (if length (rd_view rd) < n then None else Some (take n (rd_view rd)), rd') \<and>
    rd_ok rd' \<and> rd_view rd' = drop n (rd_view rd)"
proof -
  obtain r where r: "rd_r rd = Some r" using assms by (auto simp: rd_ok_def)
  define k where "k = min (rd_end rd - rd_pos rd) n"
  define buf where "buf = drop (rd_pos rd) (take (rd_end rd) (rd_buf rd))"
  have buf: "length buf = rd_end rd - rd_pos rd" "rd_view rd = buf @ bytes_left r"
    using assms r by (auto simp: buf_def rd_ok_def rd_view_def)
  have got: "take k (drop (rd_pos rd) (rd_buf rd)) = take n buf"
    using assms by (simp add: k_def buf_def drop_take min.commute)
  have view': "rd_view (rd\<lparr>rd_pos := rd_pos rd + k, rd_r := Some r'\<rparr>) = drop n buf @ bytes_left r'" for r'
    using assms by (simp add: rd_view_def buf_def k_def rd_ok_def min_def drop_take add.commute [of n])
  have ok': "rd_ok (rd\<lparr>rd_pos := rd_pos rd + k, rd_r := Some r'\<rparr>)" for r'
    using assms by (auto simp: rd_ok_def k_def)
  have full: "fst (io_ReadFull (n - k) r) = take (n - k) (bytes_left r)"
    "bytes_left (snd (io_ReadFull (n - k) r)) = drop (n - k) (bytes_left r)"
    using io_ReadFull_spec by blast+
  have nk: "n - k = n - length buf" by (simp add: k_def buf(1) min_def)
  show ?thesis
  proof (cases "rd_pos rd < rd_end rd \<and> n - k = 0")
    case True
    then have "reader_readFull n rd = (Some (take n buf), rd\<lparr>rd_pos := rd_pos rd + k\<rparr>)"
      using got unfolding reader_readFull_def Let_def k_def [symmetric] by simp
    moreover have "rd\<lparr>rd_pos := rd_pos rd + k\<rparr> = rd\<lparr>rd_pos := rd_pos rd + k, rd_r := Some r\<rparr>" using r by simp
    ultimately show ?thesis using view' [of r] ok' [of r] True nk by (simp add: buf(2))
  next
    case False
    obtain more r' where m: "io_ReadFull (n - k) r = (more, r')" by (cases "io_ReadFull (n - k) r")
    have "reader_readFull n rd = (if length more = n - k then Some (take n buf @ more) else None,
        rd\<lparr>rd_pos := rd_pos rd + k, rd_r := Some r'\<rparr>)"
      using False got r m unfolding reader_readFull_def Let_def k_def [symmetric] by auto
    then show ?thesis using view' [of r'] ok' [of r'] full m nk
      by (auto simp: buf(2) min_def)
  qed
qed

interpretation rdsrc: byte_source rd_view rd_ok readByte peekByte reader_readFull
proof
  fix r :: reader and b bs n
  assume ok: "rd_ok r"
  show "rd_view r = [] \<Longrightarrow> \<exists>r'. readByte r = (None, r') \<and> rd_ok r' \<and> rd_view r' = []"
    using refill_empty [OF ok] buffered [OF ok] by (auto simp: readByte_def)
  show "rd_view r = [] \<Longrightarrow> \<exists>r'. peekByte r = (None, r') \<and> rd_ok r' \<and> rd_view r' = []"
    using refill_empty [OF ok] buffered [OF ok] by (auto simp: peekByte_def)
  show "rd_view r = b # bs \<Longrightarrow> \<exists>r'. readByte r = (Some b, r') \<and> rd_ok r' \<and> rd_view r' = bs"
    using refill_empty [OF ok] buffered [OF ok] buffered by (fastforce simp: readByte_def)
  show "rd_view r = b # bs \<Longrightarrow> \<exists>r'. peekByte r = (Some b, r') \<and> rd_ok r' \<and> rd_view r' = b # bs"
    using refill_empty [OF ok] buffered [OF ok] buffered ok by (fastforce simp: peekByte_def)
  show "length (rd_view r) < n \<Longrightarrow> \<exists>r'. reader_readFull n r = (None, r') \<and> rd_ok r' \<and> rd_view r' = []"
    using reader_readFull_spec [OF ok, of n] by auto
  show "n \<le> length (rd_view r) \<Longrightarrow>
    \<exists>r'. reader_readFull n r = (Some (take n (rd_view r)), r') \<and> rd_ok r' \<and> rd_view r' = drop n (rd_view r)"
    using reader_readFull_spec [OF ok, of n] by auto
qed

section \<open>Property\<close>

text \<open>Buffering is transparent. However the underlying reader cuts its data into short reads,
  every run of \<open>readByte\<close>, \<open>peekByte\<close> and \<open>readFull\<close> calls on a new buffered reader has the
  results it would have on the plain sequence of bytes, so the decoder sees exactly its input.\<close>

lemma reader_refines_bytes:
  "run_calls readByte peekByte reader_readFull (newReader \<lparr>bytes_left = s, sched = short_reads\<rparr>) calls =
   run_bytes s calls"
proof -
  have "rd_ok (newReader \<lparr>bytes_left = s, sched = short_reads\<rparr>)"
    "rd_view (newReader \<lparr>bytes_left = s, sched = short_reads\<rparr>) = s"
    by (simp_all add: newReader_def rd_ok_def rd_view_def)
  with rdsrc.run_refines show ?thesis by metis
qed

end
