(* ===== verification/ConfigTable.thy ===== *)
theory ConfigTable
  imports Strconv
begin

text \<open>
  The option tables of package \<open>config\<close>: the fields of the struct \<open>Options\<close> with their types
  (\<open>src/internal/config/options.go\<close>), the maps \<open>fieldSetters\<close> and \<open>fieldMergers\<close>
  (\<open>field.go\<close>), the values of \<open>Default\<close> (\<open>defaults.go\<close>), the short flags and the Boolean
  options (\<open>parse_args.go\<close>) and the option sets of \<open>session_options.go\<close>, each in the order in
  which the source writes it. A field is named by its \<open>json\<close> tag, as the code does where it
  uses reflection. The closures in the two maps come in a few shapes, which are the constructors
  of \<open>field_setter\<close> and \<open>field_merger\<close>; theory \<open>Config\<close> says what each does.

  The order of a Go map is not fixed, so that the tables are lists matters nowhere; theory
  \<open>Config\<close> proves it for the one place where the code walks over \<open>fieldMergers\<close>.
\<close>

datatype field_kind = KString | KInt | KBool | KList

datatype field_value = VString string | VInt int | VBool bool | VList "string list"

datatype field_setter =
    SetString string | SetInt string | SetBool string | AppendTo string
  | SetCheckCertificate | SetAlwaysResume | SetEntryPointPort string string
  | AppendEntryPoint string string string string

datatype field_merger =
    MergeString string | MergeInt string | MergeBool string | MergeAppend string
  | MergeCheckCertificate | MergeAlwaysResume

section \<open>The struct\<close>

definition option_fields_1 :: "(string \<times> field_kind) list" where
  "option_fields_1 =
    [(''dir'', KString), (''input-file'', KString), (''log'', KString),
     (''max-concurrent-downloads'', KInt), (''check-integrity'', KBool), (''continue'', KBool),
     (''log-level'', KString), (''console-log-level'', KString), (''daemon'', KBool),
     (''split'', KInt), (''max-connection-per-server'', KInt), (''min-split-size'', KString),
     (''max-overall-download-limit'', KString), (''max-download-limit'', KString),
     (''max-overall-upload-limit'', KString), (''max-upload-limit'', KString), (''out'', KString),
     (''quiet'', KBool), (''show-console-readout'', KBool), (''truncate-console-readout'', KBool),
     (''human-readable'', KBool), (''summary-interval'', KString), (''download-result'', KString),
     (''optimize-concurrent-downloads'', KString),
     (''optimize-concurrent-downloads-coeffA'', KString),
     (''optimize-concurrent-downloads-coeffB'', KString), (''force-sequential'', KBool),
     (''stderr'', KBool), (''http-user'', KString), (''http-passwd'', KString),
     (''user-agent'', KString), (''referer'', KString), (''enable-http-keep-alive'', KBool),
     (''enable-http-pipelining'', KBool), (''http-accept-gzip'', KBool),
     (''http-auth-challenge'', KBool), (''http-no-cache'', KBool),
     (''no-want-digest-header'', KBool), (''use-head'', KBool), (''max-http-pipelining'', KString),
     (''header'', KList), (''load-cookies'', KString), (''save-cookies'', KString),
     (''ca-certificate'', KString), (''certificate'', KString), (''check-certificate'', KBool),
     (''private-key'', KString), (''http-proxy'', KString), (''http-proxy-user'', KString),
     (''http-proxy-passwd'', KString), (''https-proxy'', KString), (''https-proxy-user'', KString),
     (''https-proxy-passwd'', KString), (''ftp-user'', KString), (''ftp-passwd'', KString),
     (''ftp-pasv'', KBool), (''ftp-type'', KString), (''ftp-reuse-connection'', KBool),
     (''ftp-proxy'', KString), (''ftp-proxy-user'', KString), (''ftp-proxy-passwd'', KString),
     (''ssh-host-key-md'', KString), (''netrc-path'', KString), (''no-netrc'', KBool),
     (''connect-timeout'', KString), (''dns-timeout'', KString), (''timeout'', KString),
     (''max-tries'', KInt), (''retry-wait'', KString), (''max-file-not-found'', KInt),
     (''lowest-speed-limit'', KString), (''remote-time'', KBool), (''reuse-uri'', KBool),
     (''uri-selector'', KString), (''stream-piece-selector'', KString),
     (''server-stat-of'', KString), (''server-stat-if'', KString),
     (''server-stat-timeout'', KString), (''proxy-method'', KString), (''all-proxy'', KString),
     (''all-proxy-user'', KString), (''all-proxy-passwd'', KString), (''no-proxy'', KString),
     (''dry-run'', KBool), (''parameterized-uri'', KBool), (''checksum'', KString),
     (''realtime-chunk-checksum'', KBool), (''bt-metadata-only'', KBool),
     (''bt-save-metadata'', KBool), (''bt-load-saved-metadata'', KBool),
     (''bt-enable-lpd'', KBool), (''bt-lpd-interface'', KString), (''bt-tracker'', KList),
     (''bt-exclude-tracker'', KList), (''bt-tracker-connect-timeout'', KString),
     (''bt-tracker-timeout'', KString), (''bt-tracker-interval'', KString),
     (''bt-max-peers'', KInt), (''bt-request-peer-speed-limit'', KString),
     (''bt-stop-timeout'', KString), (''bt-timeout'', KString), (''bt-request-timeout'', KString),
     (''bt-keep-alive-interval'', KString), (''peer-connection-timeout'', KString),
     (''bt-prioritize-piece'', KString), (''bt-hash-check-seed'', KBool),
     (''bt-seed-unverified'', KBool), (''bt-remove-unselected-file'', KBool),
     (''bt-max-open-files'', KInt), (''bt-detach-seed-only'', KBool),
     (''bt-enable-hook-after-hash-check'', KBool), (''bt-force-encryption'', KBool),
     (''bt-require-crypto'', KBool), (''bt-min-crypto-level'', KString),
     (''bt-external-ip'', KString), (''peer-id-prefix'', KString), (''peer-agent'', KString),
     (''seed-ratio'', KString), (''seed-time'', KString), (''listen-port'', KString),
     (''torrent-file'', KString), (''follow-torrent'', KString), (''select-file'', KString),
     (''show-files'', KBool), (''index-out'', KList), (''dscp'', KString), (''enable-dht'', KBool),
     (''enable-dht6'', KBool), (''dht-listen-port'', KString), (''dht-listen-addr'', KString),
     (''dht-listen-addr6'', KString), (''dht-entry-point-host'', KString),
     (''dht-entry-point-port'', KString), (''dht-entry-point'', KList),
     (''dht-entry-point-host6'', KString), (''dht-entry-point-port6'', KString),
     (''dht-entry-point6'', KList), (''dht-file-path'', KString)]"

definition option_fields_2 :: "(string \<times> field_kind) list" where
  "option_fields_2 =
    [(''dht-file-path6'', KString), (''dht-message-timeout'', KString),
     (''enable-peer-exchange'', KBool), (''follow-metalink'', KString),
     (''metalink-base-uri'', KString), (''metalink-file'', KString),
     (''metalink-language'', KString), (''metalink-location'', KString),
     (''metalink-os'', KString), (''metalink-version'', KString),
     (''metalink-preferred-protocol'', KString), (''metalink-enable-unique-protocol'', KBool),
     (''enable-rpc'', KBool), (''rpc-listen-port'', KInt), (''rpc-listen-all'', KBool),
     (''rpc-allow-origin-all'', KBool), (''rpc-secret'', KString), (''rpc-user'', KString),
     (''rpc-passwd'', KString), (''rpc-secure'', KBool), (''rpc-certificate'', KString),
     (''rpc-private-key'', KString), (''rpc-max-request-size'', KString),
     (''rpc-save-upload-metadata'', KBool), (''pause'', KBool), (''pause-metadata'', KBool),
     (''conf-path'', KString), (''no-conf'', KBool), (''allow-overwrite'', KBool),
     (''allow-piece-length-change'', KBool), (''always-resume'', KBool),
     (''max-resume-failure-tries'', KInt), (''auto-file-renaming'', KBool),
     (''conditional-get'', KBool), (''select-least-used-host'', KBool),
     (''content-disposition-default-utf8'', KBool), (''disk-cache'', KString),
     (''file-allocation'', KString), (''no-file-allocation-limit'', KString),
     (''enable-mmap'', KBool), (''max-mmap-limit'', KString), (''force-save'', KBool),
     (''save-not-found'', KBool), (''save-session'', KString),
     (''save-session-interval'', KString), (''auto-save-interval'', KString),
     (''startup-idle-time'', KString), (''remove-control-file'', KBool),
     (''hash-check-only'', KBool), (''gid'', KString), (''stop'', KString),
     (''stop-with-process'', KInt), (''interface'', KString), (''multiple-interface'', KString),
     (''disable-ipv6'', KBool), (''async-dns'', KBool), (''enable-async-dns6'', KBool),
     (''async-dns-server'', KString), (''min-tls-version'', KString), (''event-poll'', KString),
     (''piece-length'', KString), (''socket-recv-buffer-size'', KString),
     (''rlimit-nofile'', KString), (''deferred-input'', KBool), (''max-download-result'', KInt),
     (''keep-unfinished-download-result'', KBool), (''enable-color'', KBool),
     (''on-download-start'', KString), (''on-download-pause'', KString),
     (''on-download-stop'', KString), (''on-download-complete'', KString),
     (''on-download-error'', KString), (''on-bt-download-complete'', KString)]"

definition option_fields :: "(string \<times> field_kind) list" where
  "option_fields = option_fields_1 @ option_fields_2"

definition fieldsSorted_1 :: "string list" where
  "fieldsSorted_1 =
    [''dir'', ''input-file'', ''log'', ''max-concurrent-downloads'', ''check-integrity'',
     ''continue'', ''log-level'', ''console-log-level'', ''daemon'', ''split'',
     ''max-connection-per-server'', ''min-split-size'', ''max-overall-download-limit'',
     ''max-download-limit'', ''max-overall-upload-limit'', ''max-upload-limit'', ''out'',
     ''quiet'', ''show-console-readout'', ''truncate-console-readout'', ''human-readable'',
     ''summary-interval'', ''download-result'', ''optimize-concurrent-downloads'',
     ''optimize-concurrent-downloads-coeffA'', ''optimize-concurrent-downloads-coeffB'',
     ''force-sequential'', ''stderr'', ''http-user'', ''http-passwd'', ''user-agent'', ''referer'',
     ''enable-http-keep-alive'', ''enable-http-pipelining'', ''http-accept-gzip'',
     ''http-auth-challenge'', ''http-no-cache'', ''no-want-digest-header'', ''use-head'',
     ''max-http-pipelining'', ''header'', ''load-cookies'', ''save-cookies'', ''ca-certificate'',
     ''certificate'', ''check-certificate'', ''private-key'', ''http-proxy'', ''http-proxy-user'',
     ''http-proxy-passwd'', ''https-proxy'', ''https-proxy-user'', ''https-proxy-passwd'',
     ''ftp-user'', ''ftp-passwd'', ''ftp-pasv'', ''ftp-type'', ''ftp-reuse-connection'',
     ''ftp-proxy'', ''ftp-proxy-user'', ''ftp-proxy-passwd'', ''ssh-host-key-md'', ''netrc-path'',
     ''no-netrc'', ''connect-timeout'', ''dns-timeout'', ''timeout'', ''max-tries'',
     ''retry-wait'', ''max-file-not-found'', ''lowest-speed-limit'', ''remote-time'',
     ''reuse-uri'', ''uri-selector'', ''stream-piece-selector'', ''server-stat-of'',
     ''server-stat-if'', ''server-stat-timeout'', ''proxy-method'', ''all-proxy'',
     ''all-proxy-user'', ''all-proxy-passwd'', ''no-proxy'', ''dry-run'', ''parameterized-uri'',
     ''checksum'', ''realtime-chunk-checksum'', ''bt-metadata-only'', ''bt-save-metadata'',
     ''bt-load-saved-metadata'', ''bt-enable-lpd'', ''bt-lpd-interface'', ''bt-tracker'',
     ''bt-exclude-tracker'', ''bt-tracker-connect-timeout'', ''bt-tracker-timeout'',
     ''bt-tracker-interval'', ''bt-max-peers'', ''bt-request-peer-speed-limit'',
     ''bt-stop-timeout'', ''bt-timeout'', ''bt-request-timeout'', ''bt-keep-alive-interval'',
     ''peer-connection-timeout'', ''bt-prioritize-piece'', ''bt-hash-check-seed'',
     ''bt-seed-unverified'', ''bt-remove-unselected-file'', ''bt-max-open-files'',
     ''bt-detach-seed-only'', ''bt-enable-hook-after-hash-check'', ''bt-force-encryption'',
     ''bt-require-crypto'', ''bt-min-crypto-level'', ''bt-external-ip'', ''peer-id-prefix'',
     ''peer-agent'', ''seed-ratio'', ''seed-time'', ''listen-port'', ''torrent-file'',
     ''follow-torrent'', ''select-file'', ''show-files'', ''index-out'', ''dscp'', ''enable-dht'',
     ''enable-dht6'', ''dht-listen-port'', ''dht-listen-addr'', ''dht-listen-addr6'',
     ''dht-entry-point-host'', ''dht-entry-point-port'', ''dht-entry-point'',
     ''dht-entry-point-host6'', ''dht-entry-point-port6'', ''dht-entry-point6'', ''dht-file-path'',
     ''dht-file-path6'', ''dht-message-timeout'', ''enable-peer-exchange'', ''follow-metalink'',
     ''metalink-base-uri'']"

definition fieldsSorted_2 :: "string list" where
  "fieldsSorted_2 =
    [''metalink-file'', ''metalink-language'', ''metalink-location'', ''metalink-os'',
     ''metalink-version'', ''metalink-preferred-protocol'', ''metalink-enable-unique-protocol'',
     ''enable-rpc'', ''rpc-listen-port'', ''rpc-listen-all'', ''rpc-allow-origin-all'',
     ''rpc-secret'', ''rpc-user'', ''rpc-passwd'', ''rpc-secure'', ''rpc-certificate'',
     ''rpc-private-key'', ''rpc-max-request-size'', ''rpc-save-upload-metadata'', ''pause'',
     ''pause-metadata'', ''conf-path'', ''no-conf'', ''allow-overwrite'',
     ''allow-piece-length-change'', ''always-resume'', ''max-resume-failure-tries'',
     ''auto-file-renaming'', ''conditional-get'', ''select-least-used-host'',
     ''content-disposition-default-utf8'', ''disk-cache'', ''file-allocation'',
     ''no-file-allocation-limit'', ''enable-mmap'', ''max-mmap-limit'', ''force-save'',
     ''save-not-found'', ''save-session'', ''save-session-interval'', ''auto-save-interval'',
     ''startup-idle-time'', ''remove-control-file'', ''hash-check-only'', ''gid'', ''stop'',
     ''stop-with-process'', ''interface'', ''multiple-interface'', ''disable-ipv6'', ''async-dns'',
     ''enable-async-dns6'', ''async-dns-server'', ''min-tls-version'', ''event-poll'',
     ''piece-length'', ''socket-recv-buffer-size'', ''rlimit-nofile'', ''deferred-input'',
     ''max-download-result'', ''keep-unfinished-download-result'', ''enable-color'',
     ''on-download-start'', ''on-download-pause'', ''on-download-stop'', ''on-download-complete'',
     ''on-download-error'', ''on-bt-download-complete'']"

definition fieldsSorted :: "string list" where
  "fieldsSorted = fieldsSorted_1 @ fieldsSorted_2"

section \<open>Setters\<close>

definition fieldSetters_1 :: "(string \<times> field_setter) list" where
  "fieldSetters_1 =
    [(''dir'', SetString ''dir''), (''input-file'', SetString ''input-file''),
     (''log'', SetString ''log''),
     (''max-concurrent-downloads'', SetInt ''max-concurrent-downloads''),
     (''check-integrity'', SetBool ''check-integrity''), (''continue'', SetBool ''continue''),
     (''log-level'', SetString ''log-level''),
     (''console-log-level'', SetString ''console-log-level''), (''daemon'', SetBool ''daemon''),
     (''split'', SetInt ''split''),
     (''max-connection-per-server'', SetInt ''max-connection-per-server''),
     (''min-split-size'', SetString ''min-split-size''),
     (''max-overall-download-limit'', SetString ''max-overall-download-limit''),
     (''max-download-limit'', SetString ''max-download-limit''),
     (''max-overall-upload-limit'', SetString ''max-overall-upload-limit''),
     (''max-upload-limit'', SetString ''max-upload-limit''), (''out'', SetString ''out''),
     (''quiet'', SetBool ''quiet''), (''show-console-readout'', SetBool ''show-console-readout''),
     (''truncate-console-readout'', SetBool ''truncate-console-readout''),
     (''human-readable'', SetBool ''human-readable''),
     (''summary-interval'', SetString ''summary-interval''),
     (''download-result'', SetString ''download-result''),
     (''optimize-concurrent-downloads'', SetString ''optimize-concurrent-downloads''),
     (''optimize-concurrent-downloads-coeffA'', SetString ''optimize-concurrent-downloads-coeffA''),
     (''optimize-concurrent-downloads-coeffB'', SetString ''optimize-concurrent-downloads-coeffB''),
     (''force-sequential'', SetBool ''force-sequential''), (''stderr'', SetBool ''stderr''),
     (''http-user'', SetString ''http-user''), (''http-passwd'', SetString ''http-passwd''),
     (''user-agent'', SetString ''user-agent''), (''referer'', SetString ''referer''),
     (''enable-http-keep-alive'', SetBool ''enable-http-keep-alive''),
     (''enable-http-pipelining'', SetBool ''enable-http-pipelining''),
     (''http-accept-gzip'', SetBool ''http-accept-gzip''),
     (''http-auth-challenge'', SetBool ''http-auth-challenge'')]"

definition fieldSetters_2 :: "(string \<times> field_setter) list" where
  "fieldSetters_2 =
    [(''http-no-cache'', SetBool ''http-no-cache''),
     (''no-want-digest-header'', SetBool ''no-want-digest-header''),
     (''use-head'', SetBool ''use-head''),
     (''max-http-pipelining'', SetString ''max-http-pipelining''),
     (''header'', AppendTo ''header''), (''load-cookies'', SetString ''load-cookies''),
     (''save-cookies'', SetString ''save-cookies''),
     (''ca-certificate'', SetString ''ca-certificate''),
     (''certificate'', SetString ''certificate''), (''check-certificate'', SetCheckCertificate),
     (''private-key'', SetString ''private-key''), (''http-proxy'', SetString ''http-proxy''),
     (''http-proxy-user'', SetString ''http-proxy-user''),
     (''http-proxy-passwd'', SetString ''http-proxy-passwd''),
     (''https-proxy'', SetString ''https-proxy''),
     (''https-proxy-user'', SetString ''https-proxy-user''),
     (''https-proxy-passwd'', SetString ''https-proxy-passwd''),
     (''ftp-user'', SetString ''ftp-user''), (''ftp-passwd'', SetString ''ftp-passwd''),
     (''ftp-pasv'', SetBool ''ftp-pasv''), (''ftp-type'', SetString ''ftp-type''),
     (''ftp-reuse-connection'', SetBool ''ftp-reuse-connection''),
     (''ftp-proxy'', SetString ''ftp-proxy''), (''ftp-proxy-user'', SetString ''ftp-proxy-user''),
     (''ftp-proxy-passwd'', SetString ''ftp-proxy-passwd''),
     (''ssh-host-key-md'', SetString ''ssh-host-key-md''),
     (''netrc-path'', SetString ''netrc-path''), (''no-netrc'', SetBool ''no-netrc''),
     (''connect-timeout'', SetString ''connect-timeout''),
     (''dns-timeout'', SetString ''dns-timeout''), (''timeout'', SetString ''timeout''),
     (''max-tries'', SetInt ''max-tries''), (''retry-wait'', SetString ''retry-wait''),
     (''max-file-not-found'', SetInt ''max-file-not-found''),
     (''lowest-speed-limit'', SetString ''lowest-speed-limit''),
     (''remote-time'', SetBool ''remote-time''), (''reuse-uri'', SetBool ''reuse-uri''),
     (''uri-selector'', SetString ''uri-selector''),
     (''stream-piece-selector'', SetString ''stream-piece-selector''),
     (''server-stat-of'', SetString ''server-stat-of''),
     (''server-stat-if'', SetString ''server-stat-if''),
     (''server-stat-timeout'', SetString ''server-stat-timeout''),
     (''proxy-method'', SetString ''proxy-method''), (''all-proxy'', SetString ''all-proxy''),
     (''all-proxy-user'', SetString ''all-proxy-user''),
     (''all-proxy-passwd'', SetString ''all-proxy-passwd''),
     (''no-proxy'', SetString ''no-proxy''), (''dry-run'', SetBool ''dry-run''),
     (''parameterized-uri'', SetBool ''parameterized-uri''), (''checksum'', SetString ''checksum'')]"

definition fieldSetters_3 :: "(string \<times> field_setter) list" where
  "fieldSetters_3 =
    [(''realtime-chunk-checksum'', SetBool ''realtime-chunk-checksum''),
     (''bt-metadata-only'', SetBool ''bt-metadata-only''),
     (''bt-save-metadata'', SetBool ''bt-save-metadata''),
     (''bt-load-saved-metadata'', SetBool ''bt-load-saved-metadata''),
     (''bt-enable-lpd'', SetBool ''bt-enable-lpd''),
     (''bt-lpd-interface'', SetString ''bt-lpd-interface''),
     (''bt-tracker'', AppendTo ''bt-tracker''),
     (''bt-exclude-tracker'', AppendTo ''bt-exclude-tracker''),
     (''bt-tracker-connect-timeout'', SetString ''bt-tracker-connect-timeout''),
     (''bt-tracker-timeout'', SetString ''bt-tracker-timeout''),
     (''bt-tracker-interval'', SetString ''bt-tracker-interval''),
     (''bt-max-peers'', SetInt ''bt-max-peers''),
     (''bt-request-peer-speed-limit'', SetString ''bt-request-peer-speed-limit''),
     (''bt-stop-timeout'', SetString ''bt-stop-timeout''),
     (''bt-timeout'', SetString ''bt-timeout''),
     (''bt-request-timeout'', SetString ''bt-request-timeout''),
     (''bt-keep-alive-interval'', SetString ''bt-keep-alive-interval''),
     (''peer-connection-timeout'', SetString ''peer-connection-timeout''),
     (''bt-prioritize-piece'', SetString ''bt-prioritize-piece''),
     (''bt-hash-check-seed'', SetBool ''bt-hash-check-seed''),
     (''bt-seed-unverified'', SetBool ''bt-seed-unverified''),
     (''bt-remove-unselected-file'', SetBool ''bt-remove-unselected-file''),
     (''bt-max-open-files'', SetInt ''bt-max-open-files''),
     (''bt-detach-seed-only'', SetBool ''bt-detach-seed-only''),
     (''bt-enable-hook-after-hash-check'', SetBool ''bt-enable-hook-after-hash-check''),
     (''bt-force-encryption'', SetBool ''bt-force-encryption''),
     (''bt-require-crypto'', SetBool ''bt-require-crypto''),
     (''bt-min-crypto-level'', SetString ''bt-min-crypto-level''),
     (''bt-external-ip'', SetString ''bt-external-ip''),
     (''peer-id-prefix'', SetString ''peer-id-prefix''),
     (''peer-agent'', SetString ''peer-agent''), (''seed-ratio'', SetString ''seed-ratio''),
     (''seed-time'', SetString ''seed-time''), (''listen-port'', SetString ''listen-port''),
     (''torrent-file'', SetString ''torrent-file''),
     (''follow-torrent'', SetString ''follow-torrent''),
     (''select-file'', SetString ''select-file''), (''show-files'', SetBool ''show-files''),
     (''index-out'', AppendTo ''index-out''), (''dscp'', SetString ''dscp'')]"

definition fieldSetters_4 :: "(string \<times> field_setter) list" where
  "fieldSetters_4 =
    [(''enable-dht'', SetBool ''enable-dht''), (''enable-dht6'', SetBool ''enable-dht6''),
     (''dht-listen-port'', SetString ''dht-listen-port''),
     (''dht-listen-addr'', SetString ''dht-listen-addr''),
     (''dht-listen-addr6'', SetString ''dht-listen-addr6''),
     (''dht-entry-point-host'', SetString ''dht-entry-point-host''),
     (''dht-entry-point-port'', SetEntryPointPort ''dht-entry-point'' ''dht-entry-point-port''),
     (''dht-entry-point'', AppendEntryPoint ''dht-entry-point'' ''dht-entry-point'' ''dht-entry-point-host'' ''dht-entry-point-port''),
     (''dht-entry-point-host6'', SetString ''dht-entry-point-host6''),
     (''dht-entry-point-port6'', SetEntryPointPort ''dht-entry-point6'' ''dht-entry-point-port6''),
     (''dht-entry-point6'', AppendEntryPoint ''dht-entry-point6'' ''dht-entry-point6'' ''dht-entry-point-host6'' ''dht-entry-point-port6''),
     (''dht-file-path'', SetString ''dht-file-path''),
     (''dht-file-path6'', SetString ''dht-file-path6''),
     (''dht-message-timeout'', SetString ''dht-message-timeout''),
     (''enable-peer-exchange'', SetBool ''enable-peer-exchange''),
     (''follow-metalink'', SetString ''follow-metalink''),
     (''metalink-base-uri'', SetString ''metalink-base-uri''),
     (''metalink-file'', SetString ''metalink-file''),
     (''metalink-language'', SetString ''metalink-language''),
     (''metalink-location'', SetString ''metalink-location''),
     (''metalink-os'', SetString ''metalink-os''),
     (''metalink-version'', SetString ''metalink-version''),
     (''metalink-preferred-protocol'', SetString ''metalink-preferred-protocol''),
     (''metalink-enable-unique-protocol'', SetBool ''metalink-enable-unique-protocol''),
     (''enable-rpc'', SetBool ''enable-rpc''), (''rpc-listen-port'', SetInt ''rpc-listen-port''),
     (''rpc-listen-all'', SetBool ''rpc-listen-all''),
     (''rpc-allow-origin-all'', SetBool ''rpc-allow-origin-all''),
     (''rpc-secret'', SetString ''rpc-secret''), (''rpc-user'', SetString ''rpc-user''),
     (''rpc-passwd'', SetString ''rpc-passwd''), (''rpc-secure'', SetBool ''rpc-secure''),
     (''rpc-certificate'', SetString ''rpc-certificate''),
     (''rpc-private-key'', SetString ''rpc-private-key''),
     (''rpc-max-request-size'', SetString ''rpc-max-request-size''),
     (''rpc-save-upload-metadata'', SetBool ''rpc-save-upload-metadata'')]"

definition fieldSetters_5 :: "(string \<times> field_setter) list" where
  "fieldSetters_5 =
    [(''pause'', SetBool ''pause''), (''pause-metadata'', SetBool ''pause-metadata''),
     (''conf-path'', SetString ''conf-path''), (''no-conf'', SetBool ''no-conf''),
     (''allow-overwrite'', SetBool ''allow-overwrite''),
     (''allow-piece-length-change'', SetBool ''allow-piece-length-change''),
     (''always-resume'', SetAlwaysResume),
     (''max-resume-failure-tries'', SetInt ''max-resume-failure-tries''),
     (''auto-file-renaming'', SetBool ''auto-file-renaming''),
     (''conditional-get'', SetBool ''conditional-get''),
     (''select-least-used-host'', SetBool ''select-least-used-host''),
     (''content-disposition-default-utf8'', SetBool ''content-disposition-default-utf8''),
     (''disk-cache'', SetString ''disk-cache''),
     (''file-allocation'', SetString ''file-allocation''),
     (''no-file-allocation-limit'', SetString ''no-file-allocation-limit''),
     (''enable-mmap'', SetBool ''enable-mmap''),
     (''max-mmap-limit'', SetString ''max-mmap-limit''), (''force-save'', SetBool ''force-save''),
     (''save-not-found'', SetBool ''save-not-found''),
     (''save-session'', SetString ''save-session''),
     (''save-session-interval'', SetString ''save-session-interval''),
     (''auto-save-interval'', SetString ''auto-save-interval''),
     (''startup-idle-time'', SetString ''startup-idle-time''),
     (''remove-control-file'', SetBool ''remove-control-file''),
     (''hash-check-only'', SetBool ''hash-check-only''), (''gid'', SetString ''gid''),
     (''stop'', SetString ''stop''), (''stop-with-process'', SetInt ''stop-with-process''),
     (''interface'', SetString ''interface'')]"

definition fieldSetters_6 :: "(string \<times> field_setter) list" where
  "fieldSetters_6 =
    [(''multiple-interface'', SetString ''multiple-interface''),
     (''disable-ipv6'', SetBool ''disable-ipv6''), (''async-dns'', SetBool ''async-dns''),
     (''enable-async-dns6'', SetBool ''enable-async-dns6''),
     (''async-dns-server'', SetString ''async-dns-server''),
     (''min-tls-version'', SetString ''min-tls-version''),
     (''event-poll'', SetString ''event-poll''), (''piece-length'', SetString ''piece-length''),
     (''socket-recv-buffer-size'', SetString ''socket-recv-buffer-size''),
     (''rlimit-nofile'', SetString ''rlimit-nofile''),
     (''deferred-input'', SetBool ''deferred-input''),
     (''max-download-result'', SetInt ''max-download-result''),
     (''keep-unfinished-download-result'', SetBool ''keep-unfinished-download-result''),
     (''enable-color'', SetBool ''enable-color''),
     (''on-download-start'', SetString ''on-download-start''),
     (''on-download-pause'', SetString ''on-download-pause''),
     (''on-download-stop'', SetString ''on-download-stop''),
     (''on-download-complete'', SetString ''on-download-complete''),
     (''on-download-error'', SetString ''on-download-error''),
     (''on-bt-download-complete'', SetString ''on-bt-download-complete'')]"

definition fieldSetters :: "(string \<times> field_setter) list" where
  "fieldSetters = fieldSetters_1 @ fieldSetters_2 @ fieldSetters_3 @ fieldSetters_4 @ fieldSetters_5 @ fieldSetters_6"

section \<open>Mergers\<close>

definition fieldMergers_1 :: "(string \<times> field_merger) list" where
  "fieldMergers_1 =
    [(''dir'', MergeString ''dir''), (''input-file'', MergeString ''input-file''),
     (''log'', MergeString ''log''),
     (''max-concurrent-downloads'', MergeInt ''max-concurrent-downloads''),
     (''check-integrity'', MergeBool ''check-integrity''), (''continue'', MergeBool ''continue''),
     (''log-level'', MergeString ''log-level''),
     (''console-log-level'', MergeString ''console-log-level''),
     (''daemon'', MergeBool ''daemon''), (''split'', MergeInt ''split''),
     (''max-connection-per-server'', MergeInt ''max-connection-per-server''),
     (''min-split-size'', MergeString ''min-split-size''),
     (''max-overall-download-limit'', MergeString ''max-overall-download-limit''),
     (''max-download-limit'', MergeString ''max-download-limit''),
     (''max-overall-upload-limit'', MergeString ''max-overall-upload-limit''),
     (''max-upload-limit'', MergeString ''max-upload-limit''), (''out'', MergeString ''out''),
     (''quiet'', MergeBool ''quiet''),
     (''show-console-readout'', MergeBool ''show-console-readout''),
     (''truncate-console-readout'', MergeBool ''truncate-console-readout''),
     (''human-readable'', MergeBool ''human-readable''),
     (''summary-interval'', MergeString ''summary-interval''),
     (''download-result'', MergeString ''download-result''),
     (''optimize-concurrent-downloads'', MergeString ''optimize-concurrent-downloads''),
     (''optimize-concurrent-downloads-coeffA'', MergeString ''optimize-concurrent-downloads-coeffA''),
     (''optimize-concurrent-downloads-coeffB'', MergeString ''optimize-concurrent-downloads-coeffB''),
     (''force-sequential'', MergeBool ''force-sequential''), (''stderr'', MergeBool ''stderr''),
     (''http-user'', MergeString ''http-user'')]"

definition fieldMergers_2 :: "(string \<times> field_merger) list" where
  "fieldMergers_2 =
    [(''http-passwd'', MergeString ''http-passwd''), (''user-agent'', MergeString ''user-agent''),
     (''referer'', MergeString ''referer''),
     (''enable-http-keep-alive'', MergeBool ''enable-http-keep-alive''),
     (''enable-http-pipelining'', MergeBool ''enable-http-pipelining''),
     (''http-accept-gzip'', MergeBool ''http-accept-gzip''),
     (''http-auth-challenge'', MergeBool ''http-auth-challenge''),
     (''http-no-cache'', MergeBool ''http-no-cache''),
     (''no-want-digest-header'', MergeBool ''no-want-digest-header''),
     (''use-head'', MergeBool ''use-head''),
     (''max-http-pipelining'', MergeString ''max-http-pipelining''),
     (''header'', MergeAppend ''header''), (''load-cookies'', MergeString ''load-cookies''),
     (''save-cookies'', MergeString ''save-cookies''),
     (''ca-certificate'', MergeString ''ca-certificate''),
     (''certificate'', MergeString ''certificate''),
     (''check-certificate'', MergeCheckCertificate),
     (''private-key'', MergeString ''private-key''), (''http-proxy'', MergeString ''http-proxy''),
     (''http-proxy-user'', MergeString ''http-proxy-user''),
     (''http-proxy-passwd'', MergeString ''http-proxy-passwd''),
     (''https-proxy'', MergeString ''https-proxy''),
     (''https-proxy-user'', MergeString ''https-proxy-user''),
     (''https-proxy-passwd'', MergeString ''https-proxy-passwd''),
     (''ftp-user'', MergeString ''ftp-user''), (''ftp-passwd'', MergeString ''ftp-passwd''),
     (''ftp-pasv'', MergeBool ''ftp-pasv''), (''ftp-type'', MergeString ''ftp-type''),
     (''ftp-reuse-connection'', MergeBool ''ftp-reuse-connection'')]"

definition fieldMergers_3 :: "(string \<times> field_merger) list" where
  "fieldMergers_3 =
    [(''ftp-proxy'', MergeString ''ftp-proxy''),
     (''ftp-proxy-user'', MergeString ''ftp-proxy-user''),
     (''ftp-proxy-passwd'', MergeString ''ftp-proxy-passwd''),
     (''ssh-host-key-md'', MergeString ''ssh-host-key-md''),
     (''netrc-path'', MergeString ''netrc-path''), (''no-netrc'', MergeBool ''no-netrc''),
     (''connect-timeout'', MergeString ''connect-timeout''),
     (''dns-timeout'', MergeString ''dns-timeout''), (''timeout'', MergeString ''timeout''),
     (''max-tries'', MergeInt ''max-tries''), (''retry-wait'', MergeString ''retry-wait''),
     (''max-file-not-found'', MergeInt ''max-file-not-found''),
     (''lowest-speed-limit'', MergeString ''lowest-speed-limit''),
     (''remote-time'', MergeBool ''remote-time''), (''reuse-uri'', MergeBool ''reuse-uri''),
     (''uri-selector'', MergeString ''uri-selector''),
     (''stream-piece-selector'', MergeString ''stream-piece-selector''),
     (''server-stat-of'', MergeString ''server-stat-of''),
     (''server-stat-if'', MergeString ''server-stat-if''),
     (''server-stat-timeout'', MergeString ''server-stat-timeout''),
     (''proxy-method'', MergeString ''proxy-method''), (''all-proxy'', MergeString ''all-proxy''),
     (''all-proxy-user'', MergeString ''all-proxy-user''),
     (''all-proxy-passwd'', MergeString ''all-proxy-passwd''),
     (''no-proxy'', MergeString ''no-proxy''), (''dry-run'', MergeBool ''dry-run''),
     (''parameterized-uri'', MergeBool ''parameterized-uri''),
     (''checksum'', MergeString ''checksum''),
     (''realtime-chunk-checksum'', MergeBool ''realtime-chunk-checksum'')]"

definition fieldMergers_4 :: "(string \<times> field_merger) list" where
  "fieldMergers_4 =
    [(''bt-metadata-only'', MergeBool ''bt-metadata-only''),
     (''bt-save-metadata'', MergeBool ''bt-save-metadata''),
     (''bt-load-saved-metadata'', MergeBool ''bt-load-saved-metadata''),
     (''bt-enable-lpd'', MergeBool ''bt-enable-lpd''),
     (''bt-lpd-interface'', MergeString ''bt-lpd-interface''),
     (''bt-tracker'', MergeAppend ''bt-tracker''),
     (''bt-exclude-tracker'', MergeAppend ''bt-exclude-tracker''),
     (''bt-tracker-connect-timeout'', MergeString ''bt-tracker-connect-timeout''),
     (''bt-tracker-timeout'', MergeString ''bt-tracker-timeout''),
     (''bt-tracker-interval'', MergeString ''bt-tracker-interval''),
     (''bt-max-peers'', MergeInt ''bt-max-peers''),
     (''bt-request-peer-speed-limit'', MergeString ''bt-request-peer-speed-limit''),
     (''bt-stop-timeout'', MergeString ''bt-stop-timeout''),
     (''bt-timeout'', MergeString ''bt-timeout''),
     (''bt-request-timeout'', MergeString ''bt-request-timeout''),
     (''bt-keep-alive-interval'', MergeString ''bt-keep-alive-interval''),
     (''peer-connection-timeout'', MergeString ''peer-connection-timeout''),
     (''bt-prioritize-piece'', MergeString ''bt-prioritize-piece''),
     (''bt-hash-check-seed'', MergeBool ''bt-hash-check-seed''),
     (''bt-seed-unverified'', MergeBool ''bt-seed-unverified''),
     (''bt-remove-unselected-file'', MergeBool ''bt-remove-unselected-file''),
     (''bt-max-open-files'', MergeInt ''bt-max-open-files''),
     (''bt-detach-seed-only'', MergeBool ''bt-detach-seed-only''),
     (''bt-enable-hook-after-hash-check'', MergeBool ''bt-enable-hook-after-hash-check''),
     (''bt-force-encryption'', MergeBool ''bt-force-encryption''),
     (''bt-require-crypto'', MergeBool ''bt-require-crypto''),
     (''bt-min-crypto-level'', MergeString ''bt-min-crypto-level''),
     (''bt-external-ip'', MergeString ''bt-external-ip''),
     (''peer-id-prefix'', MergeString ''peer-id-prefix'')]"

definition fieldMergers_5 :: "(string \<times> field_merger) list" where
  "fieldMergers_5 =
    [(''peer-agent'', MergeString ''peer-agent''), (''seed-ratio'', MergeString ''seed-ratio''),
     (''seed-time'', MergeString ''seed-time''), (''listen-port'', MergeString ''listen-port''),
     (''torrent-file'', MergeString ''torrent-file''),
     (''follow-torrent'', MergeString ''follow-torrent''),
     (''select-file'', MergeString ''select-file''), (''show-files'', MergeBool ''show-files''),
     (''index-out'', MergeAppend ''index-out''), (''dscp'', MergeString ''dscp''),
     (''enable-dht'', MergeBool ''enable-dht''), (''enable-dht6'', MergeBool ''enable-dht6''),
     (''dht-listen-port'', MergeString ''dht-listen-port''),
     (''dht-listen-addr'', MergeString ''dht-listen-addr''),
     (''dht-listen-addr6'', MergeString ''dht-listen-addr6''),
     (''dht-entry-point-host'', MergeString ''dht-entry-point-host''),
     (''dht-entry-point-port'', MergeString ''dht-entry-point-port''),
     (''dht-entry-point'', MergeAppend ''dht-entry-point''),
     (''dht-entry-point-host6'', MergeString ''dht-entry-point-host6''),
     (''dht-entry-point-port6'', MergeString ''dht-entry-point-port6''),
     (''dht-entry-point6'', MergeAppend ''dht-entry-point6''),
     (''dht-file-path'', MergeString ''dht-file-path''),
     (''dht-file-path6'', MergeString ''dht-file-path6''),
     (''dht-message-timeout'', MergeString ''dht-message-timeout''),
     (''enable-peer-exchange'', MergeBool ''enable-peer-exchange''),
     (''follow-metalink'', MergeString ''follow-metalink''),
     (''metalink-base-uri'', MergeString ''metalink-base-uri''),
     (''metalink-file'', MergeString ''metalink-file''),
     (''metalink-language'', MergeString ''metalink-language'')]"

definition fieldMergers_6 :: "(string \<times> field_merger) list" where
  "fieldMergers_6 =
    [(''metalink-location'', MergeString ''metalink-location''),
     (''metalink-os'', MergeString ''metalink-os''),
     (''metalink-version'', MergeString ''metalink-version''),
     (''metalink-preferred-protocol'', MergeString ''metalink-preferred-protocol''),
     (''metalink-enable-unique-protocol'', MergeBool ''metalink-enable-unique-protocol''),
     (''enable-rpc'', MergeBool ''enable-rpc''),
     (''rpc-listen-port'', MergeInt ''rpc-listen-port''),
     (''rpc-listen-all'', MergeBool ''rpc-listen-all''),
     (''rpc-allow-origin-all'', MergeBool ''rpc-allow-origin-all''),
     (''rpc-secret'', MergeString ''rpc-secret''), (''rpc-user'', MergeString ''rpc-user''),
     (''rpc-passwd'', MergeString ''rpc-passwd''), (''rpc-secure'', MergeBool ''rpc-secure''),
     (''rpc-certificate'', MergeString ''rpc-certificate''),
     (''rpc-private-key'', MergeString ''rpc-private-key''),
     (''rpc-max-request-size'', MergeString ''rpc-max-request-size''),
     (''rpc-save-upload-metadata'', MergeBool ''rpc-save-upload-metadata''),
     (''pause'', MergeBool ''pause''), (''pause-metadata'', MergeBool ''pause-metadata''),
     (''conf-path'', MergeString ''conf-path''), (''no-conf'', MergeBool ''no-conf''),
     (''allow-overwrite'', MergeBool ''allow-overwrite''),
     (''allow-piece-length-change'', MergeBool ''allow-piece-length-change''),
     (''always-resume'', MergeAlwaysResume),
     (''max-resume-failure-tries'', MergeInt ''max-resume-failure-tries''),
     (''auto-file-renaming'', MergeBool ''auto-file-renaming''),
     (''conditional-get'', MergeBool ''conditional-get''),
     (''select-least-used-host'', MergeBool ''select-least-used-host''),
     (''content-disposition-default-utf8'', MergeBool ''content-disposition-default-utf8'')]"

definition fieldMergers_7 :: "(string \<times> field_merger) list" where
  "fieldMergers_7 =
    [(''disk-cache'', MergeString ''disk-cache''),
     (''file-allocation'', MergeString ''file-allocation''),
     (''no-file-allocation-limit'', MergeString ''no-file-allocation-limit''),
     (''enable-mmap'', MergeBool ''enable-mmap''),
     (''max-mmap-limit'', MergeString ''max-mmap-limit''),
     (''force-save'', MergeBool ''force-save''),
     (''save-not-found'', MergeBool ''save-not-found''),
     (''save-session'', MergeString ''save-session''),
     (''save-session-interval'', MergeString ''save-session-interval''),
     (''auto-save-interval'', MergeString ''auto-save-interval''),
     (''startup-idle-time'', MergeString ''startup-idle-time''),
     (''remove-control-file'', MergeBool ''remove-control-file''),
     (''hash-check-only'', MergeBool ''hash-check-only''), (''gid'', MergeString ''gid''),
     (''stop'', MergeString ''stop''), (''stop-with-process'', MergeInt ''stop-with-process''),
     (''interface'', MergeString ''interface''),
     (''multiple-interface'', MergeString ''multiple-interface''),
     (''disable-ipv6'', MergeBool ''disable-ipv6''), (''async-dns'', MergeBool ''async-dns''),
     (''enable-async-dns6'', MergeBool ''enable-async-dns6''),
     (''async-dns-server'', MergeString ''async-dns-server''),
     (''min-tls-version'', MergeString ''min-tls-version''),
     (''event-poll'', MergeString ''event-poll''),
     (''piece-length'', MergeString ''piece-length''),
     (''socket-recv-buffer-size'', MergeString ''socket-recv-buffer-size''),
     (''rlimit-nofile'', MergeString ''rlimit-nofile''),
     (''deferred-input'', MergeBool ''deferred-input''),
     (''max-download-result'', MergeInt ''max-download-result'')]"

definition fieldMergers_8 :: "(string \<times> field_merger) list" where
  "fieldMergers_8 =
    [(''keep-unfinished-download-result'', MergeBool ''keep-unfinished-download-result''),
     (''enable-color'', MergeBool ''enable-color''),
     (''on-download-start'', MergeString ''on-download-start''),
     (''on-download-pause'', MergeString ''on-download-pause''),
     (''on-download-stop'', MergeString ''on-download-stop''),
     (''on-download-complete'', MergeString ''on-download-complete''),
     (''on-download-error'', MergeString ''on-download-error''),
     (''on-bt-download-complete'', MergeString ''on-bt-download-complete'')]"

definition fieldMergers :: "(string \<times> field_merger) list" where
  "fieldMergers = fieldMergers_1 @ fieldMergers_2 @ fieldMergers_3 @ fieldMergers_4 @ fieldMergers_5 @ fieldMergers_6 @ fieldMergers_7 @ fieldMergers_8"

section \<open>Defaults\<close>

definition Default_values_1 :: "(string \<times> field_value) list" where
  "Default_values_1 =
    [(''dir'', VString ''.''), (''input-file'', VString []), (''log'', VString []),
     (''max-concurrent-downloads'', VInt 5), (''check-integrity'', VBool False),
     (''continue'', VBool False), (''log-level'', VString ''debug''),
     (''console-log-level'', VString ''notice''), (''daemon'', VBool False), (''split'', VInt 5),
     (''max-connection-per-server'', VInt 1), (''min-split-size'', VString ''20M''),
     (''max-overall-download-limit'', VString ''0''), (''max-download-limit'', VString ''0''),
     (''max-overall-upload-limit'', VString ''0''), (''max-upload-limit'', VString ''0''),
     (''out'', VString []), (''quiet'', VBool False), (''show-console-readout'', VBool True),
     (''truncate-console-readout'', VBool True), (''human-readable'', VBool True),
     (''summary-interval'', VString ''60''), (''download-result'', VString ''default''),
     (''optimize-concurrent-downloads'', VString ''false''),
     (''optimize-concurrent-downloads-coeffA'', VString []),
     (''optimize-concurrent-downloads-coeffB'', VString []), (''force-sequential'', VBool False),
     (''stderr'', VBool False), (''http-user'', VString []), (''http-passwd'', VString []),
     (''user-agent'', VString ''aria2/1.37.0''), (''referer'', VString []),
     (''enable-http-keep-alive'', VBool True), (''enable-http-pipelining'', VBool False),
     (''http-accept-gzip'', VBool False), (''http-auth-challenge'', VBool False),
     (''http-no-cache'', VBool False), (''no-want-digest-header'', VBool False),
     (''use-head'', VBool False), (''max-http-pipelining'', VString ''2''), (''header'', VList []),
     (''load-cookies'', VString []), (''save-cookies'', VString []),
     (''ca-certificate'', VString []), (''certificate'', VString []),
     (''check-certificate'', VBool True), (''private-key'', VString []),
     (''http-proxy'', VString []), (''http-proxy-user'', VString []),
     (''http-proxy-passwd'', VString []), (''https-proxy'', VString []),
     (''https-proxy-user'', VString []), (''https-proxy-passwd'', VString []),
     (''ftp-user'', VString []), (''ftp-passwd'', VString []), (''ftp-pasv'', VBool True),
     (''ftp-type'', VString ''binary''), (''ftp-reuse-connection'', VBool True),
     (''ftp-proxy'', VString []), (''ftp-proxy-user'', VString []),
     (''ftp-proxy-passwd'', VString []), (''ssh-host-key-md'', VString []),
     (''netrc-path'', VString ''$(HOME)/.netrc''), (''no-netrc'', VBool False),
     (''connect-timeout'', VString ''60''), (''dns-timeout'', VString ''30''),
     (''timeout'', VString ''60''), (''max-tries'', VInt 5), (''retry-wait'', VString ''0''),
     (''max-file-not-found'', VInt 0), (''lowest-speed-limit'', VString ''0''),
     (''remote-time'', VBool False), (''reuse-uri'', VBool True),
     (''uri-selector'', VString ''feedback''), (''stream-piece-selector'', VString ''default''),
     (''server-stat-of'', VString []), (''server-stat-if'', VString []),
     (''server-stat-timeout'', VString ''86400''), (''proxy-method'', VString ''get''),
     (''all-proxy'', VString []), (''all-proxy-user'', VString []),
     (''all-proxy-passwd'', VString []), (''no-proxy'', VString []), (''dry-run'', VBool False),
     (''parameterized-uri'', VBool False), (''checksum'', VString []),
     (''realtime-chunk-checksum'', VBool True), (''bt-metadata-only'', VBool False),
     (''bt-save-metadata'', VBool False), (''bt-load-saved-metadata'', VBool False),
     (''bt-enable-lpd'', VBool False), (''bt-lpd-interface'', VString []),
     (''bt-tracker'', VList []), (''bt-exclude-tracker'', VList []),
     (''bt-tracker-connect-timeout'', VString ''60''), (''bt-tracker-timeout'', VString ''60''),
     (''bt-tracker-interval'', VString ''0''), (''bt-max-peers'', VInt 55),
     (''bt-request-peer-speed-limit'', VString ''50K''), (''bt-stop-timeout'', VString ''0''),
     (''bt-timeout'', VString ''180''), (''bt-request-timeout'', VString ''60''),
     (''bt-keep-alive-interval'', VString ''120''), (''peer-connection-timeout'', VString ''20''),
     (''bt-prioritize-piece'', VString []), (''bt-hash-check-seed'', VBool True),
     (''bt-seed-unverified'', VBool False), (''bt-remove-unselected-file'', VBool False),
     (''bt-max-open-files'', VInt 100), (''bt-detach-seed-only'', VBool False),
     (''bt-enable-hook-after-hash-check'', VBool True), (''bt-force-encryption'', VBool False),
     (''bt-require-crypto'', VBool False), (''bt-min-crypto-level'', VString ''plain''),
     (''bt-external-ip'', VString []), (''peer-id-prefix'', VString ''A2-1-37-0-''),
     (''peer-agent'', VString ''aria2/1.37.0''), (''seed-ratio'', VString ''1.0''),
     (''seed-time'', VString []), (''listen-port'', VString ''6881-6999''),
     (''torrent-file'', VString []), (''follow-torrent'', VString ''true''),
     (''select-file'', VString []), (''show-files'', VBool False), (''index-out'', VList []),
     (''dscp'', VString ''0''), (''enable-dht'', VBool True), (''enable-dht6'', VBool False),
     (''dht-listen-port'', VString ''6881-6999''), (''dht-listen-addr'', VString []),
     (''dht-listen-addr6'', VString []), (''dht-entry-point-host'', VString []),
     (''dht-entry-point-port'', VString []), (''dht-entry-point'', VList []),
     (''dht-entry-point-host6'', VString []), (''dht-entry-point-port6'', VString []),
     (''dht-entry-point6'', VList []), (''dht-file-path'', VString []),
     (''dht-file-path6'', VString [])]"

definition Default_values_2 :: "(string \<times> field_value) list" where
  "Default_values_2 =
    [(''dht-message-timeout'', VString ''10''), (''enable-peer-exchange'', VBool True),
     (''follow-metalink'', VString ''true''), (''metalink-base-uri'', VString []),
     (''metalink-file'', VString []), (''metalink-language'', VString []),
     (''metalink-location'', VString []), (''metalink-os'', VString []),
     (''metalink-version'', VString []), (''metalink-preferred-protocol'', VString ''none''),
     (''metalink-enable-unique-protocol'', VBool True), (''enable-rpc'', VBool False),
     (''rpc-listen-port'', VInt 6800), (''rpc-listen-all'', VBool False),
     (''rpc-allow-origin-all'', VBool False), (''rpc-secret'', VString []),
     (''rpc-user'', VString []), (''rpc-passwd'', VString []), (''rpc-secure'', VBool False),
     (''rpc-certificate'', VString []), (''rpc-private-key'', VString []),
     (''rpc-max-request-size'', VString ''2M''), (''rpc-save-upload-metadata'', VBool True),
     (''pause'', VBool False), (''pause-metadata'', VBool False), (''conf-path'', VString []),
     (''no-conf'', VBool False), (''allow-overwrite'', VBool False),
     (''allow-piece-length-change'', VBool False), (''always-resume'', VBool True),
     (''max-resume-failure-tries'', VInt 0), (''auto-file-renaming'', VBool True),
     (''conditional-get'', VBool False), (''select-least-used-host'', VBool True),
     (''content-disposition-default-utf8'', VBool False), (''disk-cache'', VString ''16M''),
     (''file-allocation'', VString ''prealloc''), (''no-file-allocation-limit'', VString ''5M''),
     (''enable-mmap'', VBool False), (''max-mmap-limit'', VString ''9223372036854775807''),
     (''force-save'', VBool False), (''save-not-found'', VBool True),
     (''save-session'', VString []), (''save-session-interval'', VString ''0''),
     (''auto-save-interval'', VString ''60''), (''startup-idle-time'', VString ''10''),
     (''remove-control-file'', VBool False), (''hash-check-only'', VBool False),
     (''gid'', VString []), (''stop'', VString ''0''), (''stop-with-process'', VInt 0),
     (''interface'', VString []), (''multiple-interface'', VString []),
     (''disable-ipv6'', VBool False), (''async-dns'', VBool True),
     (''enable-async-dns6'', VBool False), (''async-dns-server'', VString []),
     (''min-tls-version'', VString ''TLSv1.2''), (''event-poll'', VString []),
     (''piece-length'', VString ''1M''), (''socket-recv-buffer-size'', VString ''0''),
     (''rlimit-nofile'', VString ''1024''), (''deferred-input'', VBool False),
     (''max-download-result'', VInt 1000), (''keep-unfinished-download-result'', VBool True),
     (''enable-color'', VBool True), (''on-download-start'', VString []),
     (''on-download-pause'', VString []), (''on-download-stop'', VString []),
     (''on-download-complete'', VString []), (''on-download-error'', VString []),
     (''on-bt-download-complete'', VString [])]"

definition Default_values :: "(string \<times> field_value) list" where
  "Default_values = Default_values_1 @ Default_values_2"

section \<open>Flags and option sets\<close>

definition shortFlags :: "(char \<times> string) list" where
  "shortFlags =
    [(CHR ''d'', ''dir''), (CHR ''i'', ''input-file''), (CHR ''l'', ''log''),
     (CHR ''j'', ''max-concurrent-downloads''), (CHR ''V'', ''check-integrity''),
     (CHR ''c'', ''continue''), (CHR ''D'', ''daemon''), (CHR ''s'', ''split''),
     (CHR ''x'', ''max-connection-per-server''), (CHR ''a'', ''file-allocation''),
     (CHR ''k'', ''min-split-size''), (CHR ''u'', ''max-upload-limit''), (CHR ''o'', ''out''),
     (CHR ''q'', ''quiet''), (CHR ''Z'', ''force-sequential''), (CHR ''U'', ''user-agent''),
     (CHR ''p'', ''ftp-pasv''), (CHR ''n'', ''no-netrc''), (CHR ''t'', ''timeout''),
     (CHR ''m'', ''max-tries''), (CHR ''R'', ''remote-time''), (CHR ''P'', ''parameterized-uri''),
     (CHR ''T'', ''torrent-file''), (CHR ''S'', ''show-files''), (CHR ''O'', ''index-out''),
     (CHR ''M'', ''metalink-file'')]"

definition boolFields :: "string list" where
  "boolFields =
    [''check-integrity'', ''continue'', ''daemon'', ''quiet'', ''show-console-readout'',
     ''truncate-console-readout'', ''human-readable'', ''force-sequential'', ''stderr'',
     ''enable-http-keep-alive'', ''enable-http-pipelining'', ''http-accept-gzip'',
     ''http-auth-challenge'', ''http-no-cache'', ''no-want-digest-header'', ''use-head'',
     ''check-certificate'', ''ftp-pasv'', ''ftp-reuse-connection'', ''no-netrc'', ''remote-time'',
     ''reuse-uri'', ''dry-run'', ''parameterized-uri'', ''realtime-chunk-checksum'',
     ''bt-metadata-only'', ''bt-save-metadata'', ''bt-load-saved-metadata'', ''bt-enable-lpd'',
     ''bt-hash-check-seed'', ''bt-seed-unverified'', ''bt-remove-unselected-file'',
     ''bt-detach-seed-only'', ''bt-enable-hook-after-hash-check'', ''bt-force-encryption'',
     ''bt-require-crypto'', ''show-files'', ''enable-dht'', ''enable-dht6'',
     ''enable-peer-exchange'', ''metalink-enable-unique-protocol'', ''enable-rpc'',
     ''rpc-listen-all'', ''rpc-allow-origin-all'', ''rpc-secure'', ''rpc-save-upload-metadata'',
     ''pause'', ''pause-metadata'', ''no-conf'', ''allow-overwrite'',
     ''allow-piece-length-change'', ''always-resume'', ''auto-file-renaming'', ''conditional-get'',
     ''select-least-used-host'', ''content-disposition-default-utf8'', ''enable-mmap'',
     ''force-save'', ''save-not-found'', ''remove-control-file'', ''hash-check-only'',
     ''disable-ipv6'', ''async-dns'', ''enable-async-dns6'', ''deferred-input'',
     ''keep-unfinished-download-result'', ''enable-color'']"

definition sessionInitialOptions :: "string list" where
  "sessionInitialOptions =
    [''all-proxy'', ''all-proxy-passwd'', ''all-proxy-user'', ''allow-overwrite'',
     ''allow-piece-length-change'', ''always-resume'', ''async-dns'', ''auto-file-renaming'',
     ''bt-enable-hook-after-hash-check'', ''bt-enable-lpd'', ''bt-exclude-tracker'',
     ''bt-external-ip'', ''bt-force-encryption'', ''bt-hash-check-seed'',
     ''bt-load-saved-metadata'', ''bt-max-peers'', ''bt-metadata-only'', ''bt-min-crypto-level'',
     ''bt-prioritize-piece'', ''bt-remove-unselected-file'', ''bt-request-peer-speed-limit'',
     ''bt-require-crypto'', ''bt-save-metadata'', ''bt-seed-unverified'', ''bt-stop-timeout'',
     ''bt-tracker'', ''bt-tracker-connect-timeout'', ''bt-tracker-interval'',
     ''bt-tracker-timeout'', ''check-integrity'', ''checksum'', ''conditional-get'',
     ''connect-timeout'', ''content-disposition-default-utf8'', ''continue'', ''dir'', ''dry-run'',
     ''enable-async-dns6'', ''enable-http-keep-alive'', ''enable-http-pipelining'',
     ''enable-mmap'', ''enable-peer-exchange'', ''file-allocation'', ''follow-metalink'',
     ''follow-torrent'', ''force-save'', ''ftp-passwd'', ''ftp-pasv'', ''ftp-proxy'',
     ''ftp-proxy-passwd'', ''ftp-proxy-user'', ''ftp-reuse-connection'', ''ftp-type'',
     ''ftp-user'', ''gid'', ''hash-check-only'', ''header'', ''http-accept-gzip'',
     ''http-auth-challenge'', ''http-no-cache'', ''http-passwd'', ''http-proxy'',
     ''http-proxy-passwd'', ''http-proxy-user'', ''http-user'', ''https-proxy'',
     ''https-proxy-passwd'', ''https-proxy-user'', ''index-out'', ''max-connection-per-server'',
     ''max-download-limit'', ''max-file-not-found'', ''max-mmap-limit'',
     ''max-resume-failure-tries'', ''max-tries'', ''max-upload-limit'', ''metalink-base-uri'',
     ''metalink-enable-unique-protocol'', ''metalink-language'', ''metalink-location'',
     ''metalink-os'', ''metalink-preferred-protocol'', ''metalink-version'', ''min-split-size'',
     ''no-file-allocation-limit'', ''no-netrc'', ''no-proxy'', ''no-want-digest-header'', ''out'',
     ''parameterized-uri'', ''pause'', ''pause-metadata'', ''piece-length'', ''proxy-method'',
     ''realtime-chunk-checksum'', ''referer'', ''remote-time'', ''remove-control-file'',
     ''retry-wait'', ''reuse-uri'', ''rpc-save-upload-metadata'', ''save-not-found'',
     ''seed-ratio'', ''seed-time'', ''select-file'', ''split'', ''ssh-host-key-md'',
     ''stream-piece-selector'', ''timeout'', ''uri-selector'', ''use-head'', ''user-agent'']"

definition sessionUnitOptions :: "string list" where
  "sessionUnitOptions =
    [''bt-request-peer-speed-limit'', ''disk-cache'', ''lowest-speed-limit'',
     ''max-download-limit'', ''max-mmap-limit'', ''max-upload-limit'', ''min-split-size'',
     ''no-file-allocation-limit'', ''piece-length'']"

definition sessionProxyOptions :: "string list" where
  "sessionProxyOptions =
    [''all-proxy'', ''ftp-proxy'', ''http-proxy'', ''https-proxy'']"

lemmas option_table_defs =
  option_fields_def option_fields_1_def option_fields_2_def
lemmas setter_table_defs =
  fieldSetters_def fieldSetters_1_def fieldSetters_2_def fieldSetters_3_def fieldSetters_4_def
  fieldSetters_5_def fieldSetters_6_def
lemmas merger_table_defs =
  fieldMergers_def fieldMergers_1_def fieldMergers_2_def fieldMergers_3_def fieldMergers_4_def
  fieldMergers_5_def fieldMergers_6_def fieldMergers_7_def fieldMergers_8_def

section \<open>The names are distinct\<close>

text \<open>Comparing every two of the names is expensive; comparing binary numerals stops at the first
  bit that differs. Three bits of every character are enough to tell the names apart.\<close>

fun bit_num :: "bool \<Rightarrow> num \<Rightarrow> num" where
  "bit_num False n = num.Bit0 n"
| "bit_num True n = num.Bit1 n"

fun name_num :: "string \<Rightarrow> num" where
  "name_num [] = num.One"
| "name_num (Char b0 b1 b2 b3 b4 b5 b6 b7 # s) =
     bit_num b0 (bit_num b1 (bit_num b2 (name_num s)))"

lemma option_names_distinct: "distinct (map fst option_fields)"
proof -
  have "distinct (map name_num (map fst option_fields))"
    by (simp add: option_table_defs)
  then show ?thesis by (simp only: distinct_map)
qed

section \<open>The tables agree\<close>

text \<open>The field a closure writes and the type it expects there.\<close>

fun setter_field :: "field_setter \<Rightarrow> string \<times> field_kind" where
  "setter_field (SetString n) = (n, KString)"
| "setter_field (SetInt n) = (n, KInt)"
| "setter_field (SetBool n) = (n, KBool)"
| "setter_field (AppendTo n) = (n, KList)"
| "setter_field SetCheckCertificate = (''check-certificate'', KBool)"
| "setter_field SetAlwaysResume = (''always-resume'', KBool)"
| "setter_field (SetEntryPointPort msg n) = (n, KString)"
| "setter_field (AppendEntryPoint msg n host port) = (n, KList)"

fun merger_field :: "field_merger \<Rightarrow> string \<times> field_kind" where
  "merger_field (MergeString n) = (n, KString)"
| "merger_field (MergeInt n) = (n, KInt)"
| "merger_field (MergeBool n) = (n, KBool)"
| "merger_field (MergeAppend n) = (n, KList)"
| "merger_field MergeCheckCertificate = (''check-certificate'', KBool)"
| "merger_field MergeAlwaysResume = (''always-resume'', KBool)"

fun value_kind :: "field_value \<Rightarrow> field_kind" where
  "value_kind (VString s) = KString"
| "value_kind (VInt i) = KInt"
| "value_kind (VBool b) = KBool"
| "value_kind (VList l) = KList"

lemma fieldsSorted_fields: "fieldsSorted = map fst option_fields"
  by (simp add: option_table_defs fieldsSorted_def fieldsSorted_1_def fieldsSorted_2_def)

lemma setters_match_fields: "map (\<lambda>(n, s). setter_field s) fieldSetters = option_fields"
  by (simp add: option_table_defs setter_table_defs)

lemma setter_keys: "map fst fieldSetters = map fst option_fields"
  by (simp add: option_table_defs setter_table_defs)

lemma mergers_match_fields: "map (\<lambda>(n, m). merger_field m) fieldMergers = option_fields"
  by (simp add: option_table_defs merger_table_defs)

lemma boolFields_match: "boolFields = map fst (filter (\<lambda>(n, k). k = KBool) option_fields)"
  by (simp add: option_table_defs boolFields_def)

end
