(* ===== verification/Config.thy ===== *)
theory Config
  imports ConfigTable
begin

text \<open>
  Options and their layers, \<open>src/internal/config/merge.go\<close>, \<open>field.go\<close>, \<open>options.go\<close>,
  \<open>dht_entry_point.go\<close>, \<open>parse_args.go\<close>, \<open>parse_conf.go\<close> and the cloning part of
  \<open>session_options.go\<close>. An \<open>Options\<close> holds the values of the fields by their \<open>json\<close> tag, the two
  fields without a tag, and the set of names marked explicit (a \<open>map[string]bool\<close> whose values
  are all \<open>true\<close>). A nil and an empty slice are the same here; no code of the package tells
  them apart after a merge or a clone.
\<close>

section \<open>Options\<close>

record Options =
  explicit :: "string set"
  vals :: "string \<Rightarrow> field_value"
  CheckCertificateSet :: bool
  AlwaysResumeSet :: bool

fun zero_value :: "field_kind \<Rightarrow> field_value" where
  "zero_value KString = VString []"
| "zero_value KInt = VInt 0"
| "zero_value KBool = VBool False"
| "zero_value KList = VList []"

definition optionFieldIndices :: "string \<rightharpoonup> field_kind" where
  "optionFieldIndices = map_of option_fields"

definition empty_Options :: Options where
  "empty_Options =
     \<lparr>explicit = {},
      vals = (\<lambda>n. case optionFieldIndices n of None \<Rightarrow> VString [] | Some k \<Rightarrow> zero_value k),
      CheckCertificateSet = False, AlwaysResumeSet = False\<rparr>"

definition Default :: Options where
  "Default =
     empty_Options\<lparr>vals := (\<lambda>n. case map_of Default_values n of None \<Rightarrow> vals empty_Options n | Some v \<Rightarrow> v)\<rparr>"

definition markExplicit :: "string \<Rightarrow> Options \<Rightarrow> Options" where
  "markExplicit name opts = opts\<lparr>explicit := insert name (explicit opts)\<rparr>"

definition ClearExplicit :: "string \<Rightarrow> Options \<Rightarrow> Options" where
  "ClearExplicit name opts = opts\<lparr>explicit := explicit opts - {name}\<rparr>"

text \<open>Reading a field at its Go type.\<close>

fun string_of :: "field_value \<Rightarrow> string" where
  "string_of (VString s) = s"
| "string_of v = []"

fun int_of :: "field_value \<Rightarrow> int" where
  "int_of (VInt i) = i"
| "int_of v = 0"

fun bool_of :: "field_value \<Rightarrow> bool" where
  "bool_of (VBool b) = b"
| "bool_of v = False"

fun list_of :: "field_value \<Rightarrow> string list" where
  "list_of (VList l) = l"
| "list_of v = []"

abbreviation put :: "string \<Rightarrow> field_value \<Rightarrow> Options \<Rightarrow> Options" where
  "put n v opts \<equiv> opts\<lparr>vals := (vals opts)(n := v)\<rparr>"

section \<open>Setters\<close>

datatype cfg_error =
    CfgNum num_error | ErrInvalidOption string | UnknownFlag string | MissingValue string

definition parseBool :: "string \<Rightarrow> cfg_error + bool" where
  "parseBool v =
     (if v = ''true'' then Inr True
      else if v = ''false'' then Inr False
      else Inl (ErrInvalidOption ''must be either true or false''))"

definition validateDHTEntryPointPort :: "string \<Rightarrow> string \<Rightarrow> cfg_error option" where
  "validateDHTEntryPointPort name port =
     (case Atoi port of
        Inl e \<Rightarrow> Some (ErrInvalidOption (name @ '' port must be between 1 and 65535''))
      | Inr n \<Rightarrow> if n < 1 \<or> 65535 < n
          then Some (ErrInvalidOption (name @ '' port must be between 1 and 65535'')) else None)"

text \<open>\<open>net.SplitHostPort\<close>: the port follows the last colon; a host with colons is in brackets.\<close>

definition last_index :: "char \<Rightarrow> string \<Rightarrow> nat option" where
  "last_index c s = map_option (\<lambda>i. length s - 1 - i) (find_index (\<lambda>x. x = c) (rev s))"

definition SplitHostPort :: "string \<Rightarrow> (string \<times> string) option" where
  "SplitHostPort hostport =
     (case last_index CHR '':'' hostport of
        None \<Rightarrow> None
      | Some i \<Rightarrow>
          if hostport ! 0 = CHR ''['' then
            (case find_index (\<lambda>x. x = CHR '']'') hostport of
               None \<Rightarrow> None
             | Some close \<Rightarrow>
                 if close + 1 \<noteq> i then None
                 else if CHR ''['' \<in> set (drop 1 hostport) \<or> CHR '']'' \<in> set (drop (close + 1) hostport) then None
                 else Some (take (close - 1) (drop 1 hostport), drop (i + 1) hostport))
          else
            let host = take i hostport in
            if CHR '':'' \<in> set host then None
            else if CHR ''['' \<in> set hostport \<or> CHR '']'' \<in> set hostport then None
            else Some (host, drop (i + 1) hostport))"

definition parseDHTEntryPointValue :: "string \<Rightarrow> string \<Rightarrow> cfg_error + string \<times> string" where
  "parseDHTEntryPointValue name val =
     (case SplitHostPort val of
        None \<Rightarrow> Inl (ErrInvalidOption (name @ '' must be in HOST:PORT format''))
      | Some (host, port) \<Rightarrow>
          if host = [] then Inl (ErrInvalidOption (name @ '' host must not be empty''))
          else case validateDHTEntryPointPort name port of
                 Some e \<Rightarrow> Inl e
               | None \<Rightarrow> Inr (host, port))"

fun run_setter :: "field_setter \<Rightarrow> Options \<Rightarrow> string \<Rightarrow> cfg_error + Options" where
  "run_setter (SetString n) opts v = Inr (put n (VString v) opts)"
| "run_setter (SetInt n) opts v =
     (case Atoi v of Inl e \<Rightarrow> Inl (CfgNum e) | Inr i \<Rightarrow> Inr (put n (VInt i) opts))"
| "run_setter (SetBool n) opts v = rbind (parseBool v) (\<lambda>b. Inr (put n (VBool b) opts))"
| "run_setter (AppendTo n) opts v = Inr (put n (VList (list_of (vals opts n) @ [v])) opts)"
| "run_setter SetCheckCertificate opts v =
     rbind (parseBool v) (\<lambda>b. Inr ((put ''check-certificate'' (VBool b) opts)\<lparr>CheckCertificateSet := True\<rparr>))"
| "run_setter SetAlwaysResume opts v =
     rbind (parseBool v) (\<lambda>b. Inr ((put ''always-resume'' (VBool b) opts)\<lparr>AlwaysResumeSet := True\<rparr>))"
| "run_setter (SetEntryPointPort msg n) opts v =
     (case validateDHTEntryPointPort msg v of
        Some e \<Rightarrow> Inl e
      | None \<Rightarrow> Inr (put n (VString v) opts))"
| "run_setter (AppendEntryPoint msg n hostf portf) opts v =
     rbind (parseDHTEntryPointValue msg v) (\<lambda>(host, port).
       Inr (put portf (VString port) (put hostf (VString host)
             (put n (VList (list_of (vals opts n) @ [v])) opts))))"

section \<open>Merging\<close>

fun run_merger :: "field_merger \<Rightarrow> Options \<Rightarrow> Options \<Rightarrow> Options" where
  "run_merger (MergeString n) s d = (if string_of (vals s n) \<noteq> [] then put n (vals s n) d else d)"
| "run_merger (MergeInt n) s d = (if int_of (vals s n) \<noteq> 0 then put n (vals s n) d else d)"
| "run_merger (MergeBool n) s d = (if bool_of (vals s n) then put n (VBool True) d else d)"
| "run_merger (MergeAppend n) s d =
     (if list_of (vals s n) \<noteq> [] then put n (VList (list_of (vals d n) @ list_of (vals s n))) d else d)"
| "run_merger MergeCheckCertificate s d =
     (if CheckCertificateSet s \<or> bool_of (vals s ''check-certificate'')
      then (put ''check-certificate'' (vals s ''check-certificate'') d)\<lparr>CheckCertificateSet := True\<rparr> else d)"
| "run_merger MergeAlwaysResume s d =
     (if AlwaysResumeSet s
      then (put ''always-resume'' (vals s ''always-resume'') d)\<lparr>AlwaysResumeSet := True\<rparr>
      else if bool_of (vals s ''always-resume'') then put ''always-resume'' (VBool True) d else d)"

definition scalar_field :: "string \<Rightarrow> bool" where
  "scalar_field name \<longleftrightarrow>
     (case optionFieldIndices name of None \<Rightarrow> False | Some k \<Rightarrow> k \<noteq> KList)"

definition applyExplicitScalarOverrides :: "Options \<Rightarrow> Options \<Rightarrow> Options" where
  "applyExplicitScalarOverrides dst src =
     (let names = Set.filter scalar_field (explicit src)
      in dst\<lparr>vals := (\<lambda>n. if n \<in> names then vals src n else vals dst n),
             explicit := explicit dst \<union> names\<rparr>)"

definition run_mergers :: "(string \<times> field_merger) list \<Rightarrow> Options \<Rightarrow> Options \<Rightarrow> Options" where
  "run_mergers ms src dst = fold (\<lambda>(n, m) d. run_merger m src d) ms dst"

definition mergeInto :: "Options \<Rightarrow> Options \<Rightarrow> Options" where
  "mergeInto dst src = applyExplicitScalarOverrides (run_mergers fieldMergers src dst) src"

definition Merge :: "Options option list \<Rightarrow> Options" where
  "Merge layers =
     foldl (\<lambda>result layer. case layer of None \<Rightarrow> result | Some src \<Rightarrow> mergeInto result src) empty_Options layers"

definition CloneExplicitOptions :: "Options option \<Rightarrow> Options option" where
  "CloneExplicitOptions src =
     (case src of
        None \<Rightarrow> None
      | Some src \<Rightarrow>
          if explicit src = {} then None
          else
            let names = Set.filter (\<lambda>n. optionFieldIndices n \<noteq> None) (explicit src)
            in Some (empty_Options\<lparr>vals := (\<lambda>n. if n \<in> names then vals src n else vals empty_Options n),
                                   explicit := names\<rparr>))"

section \<open>The command line\<close>

definition setParsedOption :: "Options \<Rightarrow> string \<Rightarrow> string \<Rightarrow> cfg_error + Options" where
  "setParsedOption opts name val =
     rbind (run_setter (the (map_of fieldSetters name)) opts val) (\<lambda>opts'. Inr (markExplicit name opts'))"

definition parseLongFlag :: "string \<Rightarrow> string \<times> string \<times> bool" where
  "parseLongFlag arg =
     (let rest = drop 2 arg in
      case find_index (\<lambda>c. c = CHR ''='') rest of
        Some i \<Rightarrow> (take i rest, drop (i + 1) rest, True)
      | None \<Rightarrow> (rest, [], False))"

definition isBoolSetter :: "string \<Rightarrow> bool" where
  "isBoolSetter name \<longleftrightarrow> name \<in> set boolFields"

definition dash :: "string \<Rightarrow> bool" where
  "dash arg \<longleftrightarrow> take 1 arg = ''-''"

definition dash_dash :: "string \<Rightarrow> bool" where
  "dash_dash arg \<longleftrightarrow> take 2 arg = ''--''"

text \<open>What a flag asks for: nothing, a setting, or a setting with the next argument.\<close>

datatype flag_action = Skip | SetTo string string | NeedsValue string bool | Unknown string

definition long_flag :: "string \<Rightarrow> flag_action" where
  "long_flag arg =
     (let (name, val, hasValue) = parseLongFlag arg in
      if name = ''help'' \<or> name = ''version'' then Skip
      else if map_of fieldSetters name = None then Unknown arg
      else if hasValue then SetTo name val
      else if isBoolSetter name then SetTo name ''true''
      else NeedsValue name True)"

definition short_flag :: "string \<Rightarrow> flag_action" where
  "short_flag arg =
     (let shortByte = arg ! 1 in
      if shortByte = CHR ''h'' \<or> shortByte = CHR ''v'' then Skip
      else case map_of shortFlags shortByte of
             None \<Rightarrow> Unknown arg
           | Some longName \<Rightarrow>
               if 2 < length arg then SetTo longName (drop 2 arg)
               else if isBoolSetter longName then SetTo longName ''true''
               else NeedsValue longName False)"

text \<open>The loop over the arguments. A long flag does not take a next argument that looks like a
  flag (unless it is a single dash), a short flag takes any.\<close>

function (sequential) parse_args_loop ::
  "string list \<Rightarrow> Options \<Rightarrow> string list \<Rightarrow> cfg_error + Options \<times> string list"
where
  "parse_args_loop [] opts positional = Inr (opts, positional)"
| "parse_args_loop (arg # rest) opts positional =
     (if arg = ''--'' then Inr (opts, positional @ rest)
      else if \<not> (dash_dash arg \<or> dash arg \<and> 1 < length arg)
      then parse_args_loop rest opts (positional @ [arg])
      else case (if dash_dash arg then long_flag arg else short_flag arg) of
             Skip \<Rightarrow> parse_args_loop rest opts positional
           | Unknown a \<Rightarrow> Inl (UnknownFlag a)
           | SetTo name val \<Rightarrow>
               rbind (setParsedOption opts name val) (\<lambda>opts'. parse_args_loop rest opts' positional)
           | NeedsValue name long \<Rightarrow>
               (case rest of
                  [] \<Rightarrow> Inl (MissingValue name)
                | val # rest' \<Rightarrow>
                    if long \<and> dash val \<and> val \<noteq> ''-'' then Inl (MissingValue name)
                    else rbind (setParsedOption opts name val)
                           (\<lambda>opts'. parse_args_loop rest' opts' positional)))"
  by pat_completeness auto

termination
  by (relation "measure (\<lambda>(args, opts, positional). length args)") auto

definition ParseArgs :: "string list \<Rightarrow> cfg_error + Options \<times> string list" where
  "ParseArgs argv = parse_args_loop (tl argv) empty_Options []"

section \<open>Configuration files\<close>

definition wset :: string where
  "wset = [CHR 0x0D, CHR 0x0A, CHR 0x09, CHR '' '']"

definition Trim :: "string \<Rightarrow> string" where
  "Trim s = rev (dropWhile (\<lambda>c. c \<in> set wset) (rev (dropWhile (\<lambda>c. c \<in> set wset) s)))"

text \<open>The lines of the file, as the scanner delivers them. Lines without a known key are skipped.\<close>

fun ParseConf :: "string list \<Rightarrow> Options \<Rightarrow> cfg_error + Options" where
  "ParseConf [] out = Inr out"
| "ParseConf (line # ls) out =
     (if line = [] \<or> take 1 line = ''#'' then ParseConf ls out
      else case find_index (\<lambda>c. c = CHR ''='') line of
             None \<Rightarrow> ParseConf ls out
           | Some eqIdx \<Rightarrow>
               let key = Trim (take eqIdx line); val = Trim (drop (eqIdx + 1) line) in
               if key = [] then ParseConf ls out
               else case map_of fieldSetters key of
                      None \<Rightarrow> ParseConf ls out
                    | Some setter \<Rightarrow>
                        rbind (run_setter setter out val) (\<lambda>out'. ParseConf ls (markExplicit key out')))"

section \<open>What one merger does\<close>

lemma options_eqI:
  fixes a b :: Options
  shows "explicit a = explicit b \<Longrightarrow> (\<And>n. vals a n = vals b n) \<Longrightarrow>
    CheckCertificateSet a = CheckCertificateSet b \<Longrightarrow> AlwaysResumeSet a = AlwaysResumeSet b \<Longrightarrow> a = b"
  by (cases a; cases b) auto

lemma run_merger_explicit [simp]: "explicit (run_merger m s d) = explicit d"
  by (cases m) simp_all

lemma run_merger_other: "n \<noteq> fst (merger_field m) \<Longrightarrow> vals (run_merger m s d) n = vals d n"
  by (cases m) simp_all

lemma run_merger_own:
  "vals d (fst (merger_field m)) = vals d' (fst (merger_field m)) \<Longrightarrow>
    vals (run_merger m s d) (fst (merger_field m)) = vals (run_merger m s d') (fst (merger_field m))"
  by (cases m) simp_all

lemma run_merger_check:
  "CheckCertificateSet (run_merger m s d) =
    (CheckCertificateSet d \<or>
     m = MergeCheckCertificate \<and> (CheckCertificateSet s \<or> bool_of (vals s ''check-certificate'')))"
  by (cases m) simp_all

lemma run_merger_always:
  "AlwaysResumeSet (run_merger m s d) = (AlwaysResumeSet d \<or> m = MergeAlwaysResume \<and> AlwaysResumeSet s)"
  by (cases m) simp_all

section \<open>All mergers\<close>

abbreviation touched :: "(string \<times> field_merger) list \<Rightarrow> string list" where
  "touched ms \<equiv> map (\<lambda>(k, m). fst (merger_field m)) ms"

lemma run_mergers_simps [simp]:
  "run_mergers [] s d = d"
  "run_mergers ((k, m) # ms) s d = run_mergers ms s (run_merger m s d)"
  by (simp_all add: run_mergers_def)

lemma run_mergers_explicit [simp]: "explicit (run_mergers ms s d) = explicit d"
  by (induction ms arbitrary: d) auto

lemma run_mergers_untouched: "n \<notin> set (touched ms) \<Longrightarrow> vals (run_mergers ms s d) n = vals d n"
  by (induction ms arbitrary: d) (auto simp: run_merger_other)

lemma run_mergers_touched:
  assumes "distinct (touched ms)" and "(k, m) \<in> set ms"
  shows "vals (run_mergers ms s d) (fst (merger_field m)) = vals (run_merger m s d) (fst (merger_field m))"
  using assms
proof (induction ms arbitrary: d)
  case (Cons p ms)
  obtain k' m' where p: "p = (k', m')" by (cases p)
  show ?case
  proof (cases "(k, m) \<in> set ms")
    case True
    then have "fst (merger_field m) \<noteq> fst (merger_field m')"
      using Cons.prems(1) p by (auto simp: rev_image_eqI)
    then show ?thesis
      using Cons.IH [of "run_merger m' s d"] True Cons.prems p
      by (simp add: run_merger_own [of "run_merger m' s d" m d] run_merger_other)
  next
    case False
    with Cons.prems p show ?thesis by (auto simp: run_mergers_untouched)
  qed
qed simp

lemma run_mergers_check:
  "CheckCertificateSet (run_mergers ms s d) =
    (CheckCertificateSet d \<or> MergeCheckCertificate \<in> snd ` set ms \<and>
      (CheckCertificateSet s \<or> bool_of (vals s ''check-certificate'')))"
  by (induction ms arbitrary: d) (auto simp: run_merger_check)

lemma run_mergers_always:
  "AlwaysResumeSet (run_mergers ms s d) =
    (AlwaysResumeSet d \<or> MergeAlwaysResume \<in> snd ` set ms \<and> AlwaysResumeSet s)"
  by (induction ms arbitrary: d) (auto simp: run_merger_always)

lemma run_mergers_order:
  assumes "distinct (touched ms)" and "distinct (touched ms')" and "set ms = set ms'"
  shows "run_mergers ms s d = run_mergers ms' s d"
proof (rule options_eqI)
  fix n
  show "vals (run_mergers ms s d) n = vals (run_mergers ms' s d) n"
  proof (cases "n \<in> set (touched ms)")
    case True
    then obtain k m where m: "(k, m) \<in> set ms" "n = fst (merger_field m)" by auto
    with assms show ?thesis by (simp add: run_mergers_touched)
  next
    case False
    moreover have "set (touched ms') = set (touched ms)" using assms(3) by simp
    ultimately show ?thesis by (simp only: run_mergers_untouched not_False_eq_True)
  qed
qed (use assms(3) in \<open>simp_all add: run_mergers_check run_mergers_always\<close>)

lemma touched_fields: "touched fieldMergers = map fst option_fields"
  using arg_cong [OF mergers_match_fields, of "map fst"] by (simp add: o_def split_def)

lemma distinct_touched: "distinct (touched fieldMergers)"
  by (simp only: touched_fields option_names_distinct)

section \<open>Merging field by field\<close>

definition well_typed :: "Options \<Rightarrow> bool" where
  "well_typed opts \<longleftrightarrow> list_all (\<lambda>(n, k). value_kind (vals opts n) = k) option_fields"

lemma well_typedD: "well_typed opts \<Longrightarrow> (n, k) \<in> set option_fields \<Longrightarrow> value_kind (vals opts n) = k"
  by (auto simp: well_typed_def list_all_iff)

text \<open>Whether a layer sets a field: explicitly, by a value other than the zero of its type, or by
  one of the two marker fields.\<close>

definition sets_field :: "string \<Rightarrow> Options \<Rightarrow> bool" where
  "sets_field n layer \<longleftrightarrow>
     n \<in> explicit layer \<or> vals layer n \<noteq> zero_value (value_kind (vals layer n)) \<or>
     n = ''check-certificate'' \<and> CheckCertificateSet layer \<or> n = ''always-resume'' \<and> AlwaysResumeSet layer"

lemma field_lookup: "(n, k) \<in> set option_fields \<Longrightarrow> optionFieldIndices n = Some k"
  unfolding optionFieldIndices_def by (rule map_of_is_SomeI [OF option_names_distinct])

lemma scalar_field_iff: "(n, k) \<in> set option_fields \<Longrightarrow> scalar_field n \<longleftrightarrow> k \<noteq> KList"
  by (simp add: scalar_field_def field_lookup)

lemma field_merger:
  assumes "(n, k) \<in> set option_fields"
  obtains key m where "(key, m) \<in> set fieldMergers" and "merger_field m = (n, k)"
  using assms unfolding mergers_match_fields [symmetric] by auto

lemma merger_unique:
  assumes "(a, m) \<in> set fieldMergers" and "(b, m') \<in> set fieldMergers"
    and "fst (merger_field m) = fst (merger_field m')"
  shows "m = m'"
proof -
  have "inj_on (\<lambda>(k, m). fst (merger_field m)) (set fieldMergers)"
    using distinct_touched by (simp only: distinct_map)
  from inj_onD [OF this _ assms(1,2)] assms(3) show ?thesis by simp
qed

lemma marker_mergers:
  "(''check-certificate'', MergeCheckCertificate) \<in> set fieldMergers"
  "(''always-resume'', MergeAlwaysResume) \<in> set fieldMergers"
proof -
  have "(''check-certificate'', MergeCheckCertificate) \<in> set fieldMergers_2"
    by (simp add: fieldMergers_2_def)
  then show "(''check-certificate'', MergeCheckCertificate) \<in> set fieldMergers" by (simp add: fieldMergers_def)
  have "(''always-resume'', MergeAlwaysResume) \<in> set fieldMergers_6"
    by (simp add: fieldMergers_6_def)
  then show "(''always-resume'', MergeAlwaysResume) \<in> set fieldMergers" by (simp add: fieldMergers_def)
qed

lemma not_marker:
  assumes "(key, m) \<in> set fieldMergers" and "merger_field m = (n, k)"
    and "m \<noteq> MergeCheckCertificate" and "m \<noteq> MergeAlwaysResume"
  shows "n \<noteq> ''check-certificate'' \<and> n \<noteq> ''always-resume''"
  using merger_unique [OF assms(1) marker_mergers(1)] merger_unique [OF assms(1) marker_mergers(2)] assms(2-4)
  by auto

lemma mergeInto_vals:
  "vals (mergeInto d s) n =
    (if scalar_field n \<and> n \<in> explicit s then vals s n else vals (run_mergers fieldMergers s d) n)"
  by (simp add: mergeInto_def applyExplicitScalarOverrides_def Let_def)

lemma value_kindD:
  "value_kind v = KString \<Longrightarrow> \<exists>x. v = VString x" "value_kind v = KInt \<Longrightarrow> \<exists>x. v = VInt x"
  "value_kind v = KBool \<Longrightarrow> \<exists>x. v = VBool x" "value_kind v = KList \<Longrightarrow> \<exists>x. v = VList x"
  by (cases v; simp)+

lemma mergeInto_scalar:
  assumes f: "(n, k) \<in> set option_fields" and k: "k \<noteq> KList" and s: "well_typed s"
  shows "vals (mergeInto d s) n = (if sets_field n s then vals s n else vals d n)"
proof -
  obtain key m where m: "(key, m) \<in> set fieldMergers" "merger_field m = (n, k)" using field_merger [OF f] .
  have v: "vals (run_mergers fieldMergers s d) n = vals (run_merger m s d) n"
    using run_mergers_touched [OF distinct_touched m(1), of s d] m(2) by simp
  have kind: "value_kind (vals s n) = k" using well_typedD [OF s f] .
  show ?thesis
  proof (cases "n \<in> explicit s")
    case True
    then show ?thesis using k by (simp add: mergeInto_vals scalar_field_iff [OF f] sets_field_def)
  next
    case False
    have "vals (run_merger m s d) n = (if sets_field n s then vals s n else vals d n)"
      using m(2) k kind False not_marker [OF m]
      by (cases m) (auto simp: sets_field_def dest!: value_kindD)
    with False show ?thesis by (simp add: mergeInto_vals v)
  qed
qed

lemma mergeInto_list:
  assumes f: "(n, KList) \<in> set option_fields" and d: "well_typed d"
  shows "vals (mergeInto d s) n = VList (list_of (vals d n) @ list_of (vals s n))"
proof -
  obtain key m where m: "(key, m) \<in> set fieldMergers" "merger_field m = (n, KList)" using field_merger [OF f] .
  have v: "vals (run_mergers fieldMergers s d) n = vals (run_merger m s d) n"
    using run_mergers_touched [OF distinct_touched m(1), of s d] m(2) by simp
  obtain l where "vals d n = VList l" using value_kindD(4) [OF well_typedD [OF d f]] by blast
  then show ?thesis using m(2) by (cases m) (auto simp: mergeInto_vals v scalar_field_iff [OF f])
qed

lemma mergeInto_explicit: "explicit (mergeInto d s) = explicit d \<union> {n \<in> explicit s. scalar_field n}"
  by (auto simp: mergeInto_def applyExplicitScalarOverrides_def Let_def)

lemma well_typed_mergeInto:
  assumes "well_typed d" and "well_typed s"
  shows "well_typed (mergeInto d s)"
  unfolding well_typed_def list_all_iff
proof clarify
  fix n k
  assume f: "(n, k) \<in> set option_fields"
  then show "value_kind (vals (mergeInto d s) n) = k"
    using mergeInto_scalar [OF f _ assms(2)] mergeInto_list [of n, OF _ assms(1)] well_typedD [OF assms(1) f]
      well_typedD [OF assms(2) f]
    by (cases "k = KList") auto
qed

lemma well_typed_empty: "well_typed empty_Options"
proof -
  have "value_kind (zero_value k) = k" for k by (cases k) simp_all
  then show ?thesis by (auto simp: well_typed_def list_all_iff empty_Options_def field_lookup)
qed

text \<open>The layers that are there, in order of precedence.\<close>

definition present :: "Options option list \<Rightarrow> Options list" where
  "present layers = List.map_filter id layers"

lemma Merge_present: "Merge layers = foldl mergeInto empty_Options (present layers)"
proof -
  have "foldl (\<lambda>r l. case l of None \<Rightarrow> r | Some s \<Rightarrow> mergeInto r s) d layers = foldl mergeInto d (present layers)" for d
    by (induction layers arbitrary: d) (auto simp: present_def map_filter_simps split: option.splits)
  then show ?thesis by (simp add: Merge_def)
qed

lemma well_typed_merge_layers:
  "well_typed d \<Longrightarrow> \<forall>s\<in>set ss. well_typed s \<Longrightarrow> well_typed (foldl mergeInto d ss)"
  by (induction ss arbitrary: d) (auto intro: well_typed_mergeInto)

lemma merge_layers_scalar:
  assumes "(n, k) \<in> set option_fields" and "k \<noteq> KList" and "\<forall>s\<in>set ss. well_typed s"
  shows "vals (foldl mergeInto d ss) n =
    (case List.find (sets_field n) (rev ss) of None \<Rightarrow> vals d n | Some s \<Rightarrow> vals s n)"
  using assms(3)
proof (induction ss rule: rev_induct)
  case (snoc s ss)
  then show ?case by (simp add: mergeInto_scalar [OF assms(1,2)])
qed simp

lemma merge_layers_list:
  assumes "(n, KList) \<in> set option_fields" and "\<forall>s\<in>set ss. well_typed s" and "well_typed d"
  shows "vals (foldl mergeInto d ss) n = VList (list_of (vals d n) @ concat (map (\<lambda>s. list_of (vals s n)) ss))"
  using assms(2)
proof (induction ss rule: rev_induct)
  case Nil
  then show ?case using value_kindD(4) [OF well_typedD [OF assms(3,1)]] by auto
next
  case (snoc s ss)
  then show ?case by (simp add: mergeInto_list [OF assms(1)] well_typed_merge_layers [OF assms(3)])
qed

lemma merge_layers_explicit:
  "explicit (foldl mergeInto d ss) = explicit d \<union> {n. scalar_field n \<and> (\<exists>s\<in>set ss. n \<in> explicit s)}"
  by (induction ss rule: rev_induct) (auto simp: mergeInto_explicit)

lemma empty_zero: "(n, k) \<in> set option_fields \<Longrightarrow> vals empty_Options n = zero_value k"
  by (simp add: empty_Options_def field_lookup)

section \<open>Setters keep the types\<close>

lemma defaults_match_fields: "map (\<lambda>(n, v). (n, value_kind v)) Default_values = option_fields"
  by (simp add: option_table_defs Default_values_def Default_values_1_def Default_values_2_def)

lemma map_of_kinds: "map_of (map (\<lambda>(n, v). (n, f v)) xs) n = map_option f (map_of xs n)"
  by (induction xs) auto

lemma well_typed_Default: "well_typed Default"
  unfolding well_typed_def list_all_iff
proof clarify
  fix n k
  assume "(n, k) \<in> set option_fields"
  then have "map_option value_kind (map_of Default_values n) = Some k"
    using field_lookup [of n k] unfolding optionFieldIndices_def
    by (simp only: defaults_match_fields [symmetric] map_of_kinds)
  then show "value_kind (vals Default n) = k" by (auto simp: Default_def)
qed

text \<open>The field that a setter writes has the type it expects; the entry points also write two
  string fields.\<close>

fun setter_fields :: "field_setter \<Rightarrow> (string \<times> field_kind) list" where
  "setter_fields (AppendEntryPoint msg n hostf portf) = [(n, KList), (hostf, KString), (portf, KString)]"
| "setter_fields s = [setter_field s]"

lemma entry_point_setters:
  "list_all (\<lambda>(key, s). case s of AppendEntryPoint msg n hostf portf \<Rightarrow>
      hostf \<in> {''dht-entry-point-host'', ''dht-entry-point-host6''} \<and>
      portf \<in> {''dht-entry-point-port'', ''dht-entry-point-port6''} | _ \<Rightarrow> True) fieldSetters"
  by (simp add: setter_table_defs)

lemma entry_point_fields:
  "(''dht-entry-point-host'', KString) \<in> set option_fields" "(''dht-entry-point-host6'', KString) \<in> set option_fields"
  "(''dht-entry-point-port'', KString) \<in> set option_fields" "(''dht-entry-point-port6'', KString) \<in> set option_fields"
proof -
  have "set option_fields_1 \<subseteq> set option_fields" "set option_fields_2 \<subseteq> set option_fields"
    by (auto simp: option_fields_def)
  moreover have "(''dht-entry-point-host'', KString) \<in> set option_fields_1" "(''dht-entry-point-port'', KString) \<in> set option_fields_1"
    by (simp_all add: option_fields_1_def)
  moreover have "(''dht-entry-point-host6'', KString) \<in> set option_fields_1 \<union> set option_fields_2"
    "(''dht-entry-point-port6'', KString) \<in> set option_fields_1 \<union> set option_fields_2"
    by (simp_all add: option_fields_1_def option_fields_2_def)
  ultimately show "(''dht-entry-point-host'', KString) \<in> set option_fields" "(''dht-entry-point-host6'', KString) \<in> set option_fields"
    "(''dht-entry-point-port'', KString) \<in> set option_fields" "(''dht-entry-point-port6'', KString) \<in> set option_fields"
    by blast+
qed

lemma setter_fields_known:
  assumes "(key, s) \<in> set fieldSetters"
  shows "set (setter_fields s) \<subseteq> set option_fields"
proof -
  have "setter_field s \<in> set option_fields"
    using assms unfolding setters_match_fields [symmetric] by force
  moreover have "case s of AppendEntryPoint msg n hostf portf \<Rightarrow>
      hostf \<in> {''dht-entry-point-host'', ''dht-entry-point-host6''} \<and>
      portf \<in> {''dht-entry-point-port'', ''dht-entry-point-port6''} | _ \<Rightarrow> True"
    using bspec [OF entry_point_setters [unfolded list_all_iff] assms] by (simp only: prod.case)
  ultimately show ?thesis using entry_point_fields by (cases s) auto
qed

lemma run_setter_vals:
  assumes "run_setter s opts v = Inr opts'"
  shows "vals opts' n = vals opts n \<or> (n, value_kind (vals opts' n)) \<in> set (setter_fields s)"
  using assms
  by (cases s) (auto simp: rbind_eq_Inr split: sum.splits option.splits if_splits)

lemma well_typed_setter:
  assumes "(key, s) \<in> set fieldSetters" and "run_setter s opts v = Inr opts'" and "well_typed opts"
  shows "well_typed opts'"
  unfolding well_typed_def list_all_iff
proof clarify
  fix n k
  assume f: "(n, k) \<in> set option_fields"
  from run_setter_vals [OF assms(2), of n] show "value_kind (vals opts' n) = k"
  proof
    assume "(n, value_kind (vals opts' n)) \<in> set (setter_fields s)"
    then have "(n, value_kind (vals opts' n)) \<in> set option_fields" using setter_fields_known [OF assms(1)] by blast
    from field_lookup [OF this] field_lookup [OF f] show ?thesis by simp
  qed (use well_typedD [OF assms(3) f] in simp)
qed

lemma well_typed_clone: "CloneExplicitOptions (Some opts) = Some opts' \<Longrightarrow> well_typed opts \<Longrightarrow> well_typed opts'"
  using well_typed_empty by (auto simp: CloneExplicitOptions_def well_typed_def list_all_iff Let_def split: if_splits)

text \<open>Options as the package builds them.\<close>

inductive built :: "Options \<Rightarrow> bool" where
  empty: "built empty_Options"
| default: "built Default"
| set: "built opts \<Longrightarrow> (key, s) \<in> set fieldSetters \<Longrightarrow> run_setter s opts v = Inr opts' \<Longrightarrow> built opts'"
| mark: "built opts \<Longrightarrow> built (markExplicit name opts)"
| clear: "built opts \<Longrightarrow> built (ClearExplicit name opts)"
| merge: "\<forall>opts\<in>set (present layers). built opts \<Longrightarrow> built (Merge layers)"
| clone: "built opts \<Longrightarrow> CloneExplicitOptions (Some opts) = Some opts' \<Longrightarrow> built opts'"

lemma built_well_typed: "built opts \<Longrightarrow> well_typed opts"
proof (induction rule: built.induct)
  case (merge layers)
  then show ?case by (simp add: Merge_present well_typed_merge_layers well_typed_empty)
next
  case (mark opts name)
  then show ?case by (simp add: markExplicit_def well_typed_def)
next
  case (clear opts name)
  then show ?case by (simp add: ClearExplicit_def well_typed_def)
qed (auto intro: well_typed_empty well_typed_Default well_typed_setter well_typed_clone)

section \<open>Command line and configuration file\<close>

fun set_options :: "(string \<times> string) list \<Rightarrow> Options \<Rightarrow> cfg_error + Options" where
  "set_options [] opts = Inr opts"
| "set_options ((n, v) # kvs) opts = rbind (setParsedOption opts n v) (set_options kvs)"

lemma option_name_chars:
  "list_all (\<lambda>(n, k). list_all (\<lambda>c. c \<noteq> CHR ''='' \<and> c \<noteq> CHR ''#'' \<and> c \<notin> set wset) n \<and> n \<noteq> [] \<and> n \<noteq> ''help'' \<and> n \<noteq> ''version'')
    option_fields"
  by (simp add: option_table_defs wset_def)


lemma name_chars:
  assumes "(n, k) \<in> set option_fields"
  shows "CHR ''='' \<notin> set n" and "CHR ''#'' \<notin> set n" and "set n \<inter> set wset = {}" and "n \<noteq> []"
    and "n \<noteq> ''help''" and "n \<noteq> ''version''"
  using bspec [OF option_name_chars [unfolded list_all_iff] assms] by (auto simp: list_all_iff)

lemma find_index_append_Cons: "(\<And>c. c \<in> set n \<Longrightarrow> \<not> P c) \<Longrightarrow> P x \<Longrightarrow> find_index P (n @ x # v) = Some (length n)"
  by (induction n) auto

lemma setter_of_field:
  assumes "(n, k) \<in> set option_fields"
  obtains s where "map_of fieldSetters n = Some s" and "(n, s) \<in> set fieldSetters"
proof -
  have "n \<in> set (map fst option_fields)" using image_eqI [of n fst, OF _ assms] by simp
  then have "n \<in> fst ` set fieldSetters" by (simp only: setter_keys [symmetric] set_map)
  then obtain s where "map_of fieldSetters n = Some s" by (metis map_of_eq_None_iff not_None_eq)
  with map_of_SomeD [OF this] that show thesis by blast
qed

definition known :: "(string \<times> string) list \<Rightarrow> bool" where
  "known kvs \<longleftrightarrow> (\<forall>(n, v)\<in>set kvs. n \<in> fst ` set option_fields)"

lemma long_flag_setting:
  assumes "(n, k) \<in> set option_fields"
  shows "long_flag (''--'' @ n @ CHR ''='' # v) = SetTo n v"
proof -
  obtain s where s: "map_of fieldSetters n = Some s" using setter_of_field [OF assms] .
  have i: "find_index (\<lambda>c. c = CHR ''='') (n @ CHR ''='' # v) = Some (length n)"
    by (rule find_index_append_Cons) (use name_chars(1) [OF assms] in auto)
  have "parseLongFlag (''--'' @ n @ CHR ''='' # v) = (n, v, True)"
    using i by (simp add: parseLongFlag_def)
  then show ?thesis using s name_chars(5,6) [OF assms] by (simp add: long_flag_def)
qed

lemma parse_args_settings:
  "known kvs \<Longrightarrow>
    parse_args_loop (map (\<lambda>(n, v). ''--'' @ n @ CHR ''='' # v) kvs @ ''--'' # rest) opts positional =
    rbind (set_options kvs opts) (\<lambda>opts'. Inr (opts', positional @ rest))"
proof (induction kvs arbitrary: opts)
  case (Cons kv kvs)
  obtain n v where kv: "kv = (n, v)" by (cases kv)
  with Cons.prems obtain k where f: "(n, k) \<in> set option_fields" by (auto simp: known_def)
  let ?arg = "''--'' @ n @ CHR ''='' # v"
  have arg: "?arg \<noteq> ''--''" "dash_dash ?arg" by (simp_all add: dash_dash_def)
  have IH: "parse_args_loop (map (\<lambda>(n, v). ''--'' @ n @ CHR ''='' # v) kvs @ ''--'' # rest) opts' positional =
      rbind (set_options kvs opts') (\<lambda>opts'. Inr (opts', positional @ rest))" for opts'
    using Cons by (simp add: known_def)
  have "parse_args_loop (?arg # ts) opts positional =
      rbind (setParsedOption opts n v) (\<lambda>opts'. parse_args_loop ts opts' positional)" for ts
    using arg long_flag_setting [OF f, of v] by (subst parse_args_loop.simps) simp
  then have step: "parse_args_loop (map (\<lambda>(n, v). ''--'' @ n @ CHR ''='' # v) (kv # kvs) @ ''--'' # rest) opts positional =
      rbind (setParsedOption opts n v) (\<lambda>opts'. rbind (set_options kvs opts') (\<lambda>opts'. Inr (opts', positional @ rest)))"
    unfolding IH [symmetric] kv by simp
  show ?case unfolding step by (cases "setParsedOption opts n v") (simp_all add: kv)
qed simp

lemma Trim_id: "v = [] \<or> hd v \<notin> set wset \<and> last v \<notin> set wset \<Longrightarrow> Trim v = v"
proof -
  assume v: "v = [] \<or> hd v \<notin> set wset \<and> last v \<notin> set wset"
  have "dropWhile (\<lambda>c. c \<in> set wset) v = v" using v by (cases v) auto
  moreover have "dropWhile (\<lambda>c. c \<in> set wset) (rev v) = rev v" using v by (cases v rule: rev_cases) auto
  ultimately show ?thesis by (simp add: Trim_def)
qed

lemma parse_conf_settings:
  "known kvs \<Longrightarrow> \<forall>(n, v)\<in>set kvs. Trim v = v \<Longrightarrow>
    ParseConf (map (\<lambda>(n, v). n @ CHR ''='' # v) kvs) opts = set_options kvs opts"
proof (induction kvs arbitrary: opts)
  case (Cons kv kvs)
  obtain n v where kv: "kv = (n, v)" by (cases kv)
  with Cons.prems obtain k where f: "(n, k) \<in> set option_fields" by (auto simp: known_def)
  obtain s where s: "map_of fieldSetters n = Some s" using setter_of_field [OF f] .
  have i: "find_index (\<lambda>c. c = CHR ''='') (n @ CHR ''='' # v) = Some (length n)"
    by (rule find_index_append_Cons) (use name_chars(1) [OF f] in auto)
  have "Trim n = n" using name_chars(3,4) [OF f] by (intro Trim_id) (auto simp: disjoint_iff)
  moreover have "hd n \<noteq> CHR ''#''" using name_chars(2,4) [OF f] by (cases n) auto
  then have "take 1 (n @ CHR ''='' # v) \<noteq> ''#''" using name_chars(4) [OF f] by (cases n) auto
  moreover have "known kvs" "\<forall>(n, v)\<in>set kvs. Trim v = v" "Trim v = v" using Cons.prems kv by (auto simp: known_def)
  ultimately show ?case
    using i s name_chars(4) [OF f] Cons.IH
    by (cases "run_setter s opts v") (simp_all add: kv setParsedOption_def)
qed simp

section \<open>Properties\<close>

text \<open>(C19) Precedence of option layers. In a merge of well-typed layers a scalar option has its
  value from the last layer that sets it, explicitly or with a value other than the zero of its
  type, and is zero if none does; a list option collects the lists of all layers in order.\<close>

theorem merge_precedence:
  assumes "(n, k) \<in> set option_fields" and "\<forall>opts\<in>set (present layers). well_typed opts"
  shows "vals (Merge layers) n =
    (if k = KList then VList (concat (map (\<lambda>opts. list_of (vals opts n)) (present layers)))
     else case List.find (sets_field n) (rev (present layers)) of
            None \<Rightarrow> zero_value k
          | Some opts \<Rightarrow> vals opts n)"
proof (cases "k = KList")
  case True
  with merge_layers_list [of n "present layers" empty_Options] assms well_typed_empty empty_zero [OF assms(1)]
  show ?thesis by (simp add: Merge_present)
next
  case False
  with merge_layers_scalar [OF assms(1) False assms(2), of empty_Options] empty_zero [OF assms(1)]
  show ?thesis by (simp add: Merge_present cong: option.case_cong)
qed

lemma split_field: "(''split'', KInt) \<in> set option_fields"
  by (simp add: option_fields_def option_fields_1_def)

lemma header_field: "(''header'', KList) \<in> set option_fields"
  by (simp add: option_fields_def option_fields_1_def)

lemma well_typed_put:
  assumes "(n, k) \<in> set option_fields" and "value_kind v = k" and "well_typed opts"
  shows "well_typed (put n v opts)"
  unfolding well_typed_def list_all_iff
proof clarify
  fix n' k'
  assume f: "(n', k') \<in> set option_fields"
  show "value_kind (vals (put n v opts) n') = k'"
    using field_lookup [OF assms(1)] field_lookup [OF f] well_typedD [OF assms(3) f] assms(2)
    by (cases "n' = n") auto
qed

theorem merge_precedence_witness:
  "vals (Merge [None, Some (put ''split'' (VInt 8) empty_Options), Some empty_Options]) ''split'' = VInt 8"
proof -
  let ?o = "put ''split'' (VInt 8) empty_Options"
  have pr: "present [None, Some ?o, Some empty_Options] = [?o, empty_Options]"
    by (simp add: present_def map_filter_simps)
  have wt: "\<forall>opts\<in>set (present [None, Some ?o, Some empty_Options]). well_typed opts"
    using well_typed_put [OF split_field _ well_typed_empty, of "VInt 8"] well_typed_empty by (simp add: pr)
  have "\<not> sets_field ''split'' empty_Options" "sets_field ''split'' ?o"
    using empty_zero [OF split_field] by (simp_all add: sets_field_def empty_Options_def)
  with merge_precedence [OF split_field wt] show ?thesis by (simp add: pr)
qed

text \<open>The order of the merge does not matter. Go walks over the map \<open>fieldMergers\<close> in an
  order that changes from run to run; every order gives the same options.\<close>

lemma merge_any_order:
  assumes "distinct ms" and "set ms = set fieldMergers"
  shows "run_mergers ms src dst = run_mergers fieldMergers src dst"
proof (rule run_mergers_order [OF _ distinct_touched assms(2)])
  have "inj_on (\<lambda>(k, m). fst (merger_field m)) (set fieldMergers)"
    using distinct_touched by (simp only: distinct_map)
  with assms show "distinct (touched ms)" by (simp add: distinct_map)
qed

theorem merge_any_order_witness:
  "run_mergers (rev fieldMergers) Default empty_Options = run_mergers fieldMergers Default empty_Options"
proof (rule merge_any_order)
  show "distinct (rev fieldMergers)" using distinct_touched unfolding distinct_rev by (simp only: distinct_map)
qed simp





text \<open>A merge forgets that lists were given explicitly. No list option is marked explicit in a
  merged \<open>Options\<close>, whatever the layers say, so \<open>CloneExplicitOptions\<close> of it drops every list.\<close>

lemma merge_forgets_explicit_lists:
  assumes "(n, KList) \<in> set option_fields"
    and "CloneExplicitOptions (Some (Merge layers)) = Some clone"
  shows "n \<notin> explicit (Merge layers) \<and> vals clone n = VList []"
proof -
  have "n \<notin> explicit (Merge layers)"
    using scalar_field_iff [OF assms(1)] by (simp add: Merge_present merge_layers_explicit empty_Options_def)
  with assms(2) empty_zero [OF assms(1)] show ?thesis
    by (auto simp: CloneExplicitOptions_def Let_def split: if_splits)
qed

definition header_layer :: Options where
  "header_layer = markExplicit ''split'' (markExplicit ''header'' (put ''header'' (VList [''X: 1'']) empty_Options))"

theorem merge_forgets_explicit_lists_witness:
  "vals (Merge [Some header_layer]) ''header'' = VList [''X: 1''] \<and>
   ''header'' \<in> explicit header_layer \<and>
   (\<exists>clone. CloneExplicitOptions (Some (Merge [Some header_layer])) = Some clone \<and> vals clone ''header'' = VList [])"
proof -
  have wt: "well_typed header_layer"
    using well_typed_put [OF header_field _ well_typed_empty, of "VList [''X: 1'']"]
    by (simp add: header_layer_def markExplicit_def well_typed_def)
  have "vals (Merge [Some header_layer]) ''header'' = VList [''X: 1'']"
    using merge_layers_list [OF header_field, of "[header_layer]" empty_Options] wt well_typed_empty empty_zero [OF header_field]
    by (simp add: Merge_present present_def map_filter_simps) (simp add: header_layer_def markExplicit_def)
  moreover have "''split'' \<in> explicit (Merge [Some header_layer])"
    using scalar_field_iff [OF split_field]
    by (simp add: Merge_present present_def map_filter_simps mergeInto_explicit) (simp add: header_layer_def markExplicit_def)
  then have "explicit (Merge [Some header_layer]) \<noteq> {}" by blast
  then obtain clone where "CloneExplicitOptions (Some (Merge [Some header_layer])) = Some clone"
    by (simp add: CloneExplicitOptions_def Let_def)
  ultimately show ?thesis
    using merge_forgets_explicit_lists [OF header_field, of "[Some header_layer]"]
    by (auto simp: header_layer_def markExplicit_def)
qed

end
