(* ===== verification/ConfigHandlers.thy ===== *)
theory ConfigHandlers
  imports Config Complex_Main
begin

text \<open>
  Validation of option values: the handlers of \<open>src/internal/config/handlers.go\<close>, the options an
  RPC client may send (\<open>rpc_options.go\<close>) and \<open>Validate\<close> (\<open>defaults.go\<close>). \<open>strconv.ParseFloat\<close>
  is a parameter, since its rounding is not modelled: it gives the parsed number, which may be
  not a number or infinite. \<open>ProxyHandler\<close>, which needs \<open>net/url\<close>, and \<open>DeprecatedHandler\<close>,
  which nothing in the tables uses, are left out.
\<close>

section \<open>Sizes\<close>

definition unit_suffix :: "string \<Rightarrow> int \<times> string" where
  "unit_suffix s =
     (let c = last s in
      if c = CHR ''K'' \<or> c = CHR ''k'' then (1024, butlast s)
      else if c = CHR ''M'' \<or> c = CHR ''m'' then (1024 * 1024, butlast s)
      else (1, s))"

definition parseUnitE :: "string \<Rightarrow> cfg_error + int" where
  "parseUnitE s =
     (if s = [] then Inl (ErrInvalidOption ''Bad or negative value detected'')
      else
        let (mult, s') = unit_suffix s in
        case ParseInt s' 10 64 of
          Inl e \<Rightarrow> Inl (ErrInvalidOption ''Bad or negative value detected'')
        | Inr n \<Rightarrow>
            if n < 0 then Inl (ErrInvalidOption ''Bad or negative value detected'')
            else if max_int64 sdiv mult < n then Inl (ErrInvalidOption ''overflow/underflow'')
            else Inr (wrap64 (n * mult)))"

definition parseSessionUnit :: "string \<Rightarrow> num_error + int" where
  "parseSessionUnit s =
     (let (mult, s') = unit_suffix s in
      case ParseInt s' 10 64 of
        Inl e \<Rightarrow> Inl e
      | Inr n \<Rightarrow>
          if n < 0 then Inl ErrSyntax
          else if max_int64 sdiv mult < n then Inl ErrRange
          else Inr (wrap64 (n * mult)))"

definition normalizeSessionUnitOption :: "string \<Rightarrow> string \<Rightarrow> string option" where
  "normalizeSessionUnitOption name val =
     (if name \<notin> set sessionUnitOptions \<or> val = [] then None
      else case parseSessionUnit val of Inl e \<Rightarrow> Some val | Inr n \<Rightarrow> Some (FormatInt n))"

section \<open>Handlers\<close>

datatype go_float = NaN | Infinite bool | Finite rat

definition float_le :: "rat \<Rightarrow> go_float \<Rightarrow> bool" where
  "float_le a x = (case x of NaN \<Rightarrow> False | Infinite positive \<Rightarrow> positive | Finite b \<Rightarrow> a \<le> b)"

definition le_float :: "go_float \<Rightarrow> rat \<Rightarrow> bool" where
  "le_float x a = (case x of NaN \<Rightarrow> False | Infinite positive \<Rightarrow> \<not> positive | Finite b \<Rightarrow> b \<le> a)"

datatype handler =
    BooleanHandler string bool
  | NumberHandler string int int int
  | UnitHandler string int int int
  | FloatHandler string rat rat rat
  | ParameterHandler string string "string list"

datatype parsed = PBool bool | PInt int | PFloat go_float | PString string

definition buildRangeError :: "string \<Rightarrow> int \<Rightarrow> int \<Rightarrow> string" where
  "buildRangeError name mn mx =
     name @ '' '' @
     (if mn = -1 \<and> mx \<noteq> -1 then ''must be smaller than or equal to '' @ FormatInt mx @ ''.''
      else if mn \<noteq> -1 \<and> mx \<noteq> -1
      then ''must be between '' @ FormatInt mn @ '' and '' @ FormatInt mx @ ''.''
      else if mn \<noteq> -1 then ''must be greater than or equal to '' @ FormatInt mn @ ''.''
      else ''must be a number.'')"

definition in_range :: "int \<Rightarrow> int \<Rightarrow> int \<Rightarrow> bool" where
  "in_range mn mx n \<longleftrightarrow> (mn = -1 \<or> mn \<le> n) \<and> (mx = -1 \<or> n \<le> mx)"

definition Boolean_Parse :: "string \<Rightarrow> string \<Rightarrow> cfg_error + parsed" where
  "Boolean_Parse name s =
     (if s = ''true'' then Inr (PBool True)
      else if s = ''false'' then Inr (PBool False)
      else Inl (ErrInvalidOption (name @ '' must be either true or false.'')))"

definition Number_Parse :: "string \<Rightarrow> int \<Rightarrow> int \<Rightarrow> string \<Rightarrow> cfg_error + parsed" where
  "Number_Parse name mn mx s =
     (case ParseInt s 10 64 of
        Inl e \<Rightarrow> Inl (ErrInvalidOption (''Bad number '' @ s))
      | Inr n \<Rightarrow> if in_range mn mx n then Inr (PInt n) else Inl (ErrInvalidOption (buildRangeError name mn mx)))"

definition Unit_Parse :: "string \<Rightarrow> int \<Rightarrow> int \<Rightarrow> string \<Rightarrow> cfg_error + parsed" where
  "Unit_Parse name mn mx s =
     rbind (parseUnitE s) (\<lambda>n.
       if in_range mn mx n then Inr (PInt n) else Inl (ErrInvalidOption (buildRangeError name mn mx)))"

definition Float_Parse ::
  "(string \<Rightarrow> go_float option) \<Rightarrow> string \<Rightarrow> rat \<Rightarrow> rat \<Rightarrow> string \<Rightarrow> cfg_error + parsed" where
  "Float_Parse ParseFloat name mn mx s =
     (case ParseFloat s of
        None \<Rightarrow> Inl (ErrInvalidOption (''Bad number '' @ s))
      | Some n \<Rightarrow>
          if (mn < 0 \<or> float_le mn n) \<and> (mx < 0 \<or> le_float n mx) then Inr (PFloat n)
          else Inl (ErrInvalidOption (name @ '' out of range'')))"

definition Parameter_Parse :: "string \<Rightarrow> string list \<Rightarrow> string \<Rightarrow> cfg_error + parsed" where
  "Parameter_Parse name allowed s =
     (if s \<in> set allowed then Inr (PString s)
      else Inl (ErrInvalidOption (name @ '' must be one of the following:'')))"

fun handler_Parse :: "(string \<Rightarrow> go_float option) \<Rightarrow> handler \<Rightarrow> string \<Rightarrow> cfg_error + parsed" where
  "handler_Parse ParseFloat (BooleanHandler name def) s = Boolean_Parse name s"
| "handler_Parse ParseFloat (NumberHandler name def mn mx) s = Number_Parse name mn mx s"
| "handler_Parse ParseFloat (UnitHandler name def mn mx) s = Unit_Parse name mn mx s"
| "handler_Parse ParseFloat (FloatHandler name def mn mx) s = Float_Parse ParseFloat name mn mx s"
| "handler_Parse ParseFloat (ParameterHandler name def allowed) s = Parameter_Parse name allowed s"

text \<open>\<open>NewUnitNumberOptionHandler\<close>: the bounds are sizes, or empty for no bound. The code panics
  on a malformed size, which the table below does not have.\<close>

definition parseUnit :: "string \<Rightarrow> int" where
  "parseUnit s = (case parseUnitE s of Inl e \<Rightarrow> 0 | Inr v \<Rightarrow> v)"

definition NewUnitNumberOptionHandler :: "string \<Rightarrow> string \<Rightarrow> string \<Rightarrow> string \<Rightarrow> handler" where
  "NewUnitNumberOptionHandler name def mn mx =
     UnitHandler name (parseUnit def) (if mn = [] then -1 else parseUnit mn) (if mx = [] then -1 else parseUnit mx)"

definition rpcOptionParsers :: "(string \<times> handler) list" where
  "rpcOptionParsers =
    [(''auto-save-interval'', NumberHandler ''auto-save-interval'' 60 0 600),
     (''bt-max-open-files'', NumberHandler ''bt-max-open-files'' 100 1 (-1)),
     (''bt-max-peers'', NumberHandler ''bt-max-peers'' 55 0 (-1)),
     (''bt-min-crypto-level'', ParameterHandler ''bt-min-crypto-level'' ''plain'' [''plain'', ''arc4'']),
     (''bt-request-peer-speed-limit'', NewUnitNumberOptionHandler ''bt-request-peer-speed-limit'' ''50K'' ''0'' []),
     (''connect-timeout'', NumberHandler ''connect-timeout'' 60 1 600),
     (''download-result'', ParameterHandler ''download-result'' ''default'' [''default'', ''full'', ''hide'']),
     (''follow-metalink'', ParameterHandler ''follow-metalink'' ''true'' [''true'', ''mem'', ''false'']),
     (''follow-torrent'', ParameterHandler ''follow-torrent'' ''true'' [''true'', ''mem'', ''false'']),
     (''ftp-type'', ParameterHandler ''ftp-type'' ''binary'' [''binary'', ''ascii'']),
     (''lowest-speed-limit'', NewUnitNumberOptionHandler ''lowest-speed-limit'' ''0'' ''0'' []),
     (''max-concurrent-downloads'', NumberHandler ''max-concurrent-downloads'' 5 1 (-1)),
     (''max-connection-per-server'', NumberHandler ''max-connection-per-server'' 1 1 16),
     (''max-download-limit'', NewUnitNumberOptionHandler ''max-download-limit'' ''0'' ''0'' []),
     (''max-download-result'', NumberHandler ''max-download-result'' 1000 0 (-1)),
     (''max-file-not-found'', NumberHandler ''max-file-not-found'' 0 0 (-1)),
     (''max-mmap-limit'', NewUnitNumberOptionHandler ''max-mmap-limit'' ''0'' ''0'' []),
     (''max-overall-download-limit'', NewUnitNumberOptionHandler ''max-overall-download-limit'' ''0'' ''0'' []),
     (''max-overall-upload-limit'', NewUnitNumberOptionHandler ''max-overall-upload-limit'' ''0'' ''0'' []),
     (''max-resume-failure-tries'', NumberHandler ''max-resume-failure-tries'' 0 0 (-1)),
     (''max-tries'', NumberHandler ''max-tries'' 5 0 (-1)),
     (''max-upload-limit'', NewUnitNumberOptionHandler ''max-upload-limit'' ''0'' ''0'' []),
     (''metalink-preferred-protocol'',
      ParameterHandler ''metalink-preferred-protocol'' ''none'' [''http'', ''https'', ''ftp'', ''none'']),
     (''min-split-size'', NewUnitNumberOptionHandler ''min-split-size'' ''20M'' ''1M'' ''1024M''),
     (''no-file-allocation-limit'', NewUnitNumberOptionHandler ''no-file-allocation-limit'' ''5M'' ''0'' []),
     (''piece-length'', NewUnitNumberOptionHandler ''piece-length'' ''1M'' ''1M'' ''1024M''),
     (''proxy-method'', ParameterHandler ''proxy-method'' ''get'' [''get'', ''tunnel'']),
     (''retry-wait'', NumberHandler ''retry-wait'' 0 0 600),
     (''rpc-listen-port'', NumberHandler ''rpc-listen-port'' 6800 1024 65535),
     (''rpc-max-request-size'', NewUnitNumberOptionHandler ''rpc-max-request-size'' ''2M'' ''0'' []),
     (''save-session-interval'', NumberHandler ''save-session-interval'' 0 0 (-1)),
     (''seed-ratio'', FloatHandler ''seed-ratio'' 1 0 (-1)),
     (''seed-time'', FloatHandler ''seed-time'' 0 0 (-1)),
     (''server-stat-timeout'', NumberHandler ''server-stat-timeout'' 86400 0 (-1)),
     (''socket-recv-buffer-size'', NewUnitNumberOptionHandler ''socket-recv-buffer-size'' ''0'' ''0'' []),
     (''split'', NumberHandler ''split'' 5 1 (-1)),
     (''stream-piece-selector'',
      ParameterHandler ''stream-piece-selector'' ''default'' [''default'', ''inorder'', ''random'', ''geom'']),
     (''timeout'', NumberHandler ''timeout'' 60 1 600),
     (''uri-selector'', ParameterHandler ''uri-selector'' ''feedback'' [''inorder'', ''feedback'', ''adaptive''])]"

section \<open>Validation\<close>

definition validLogLevels :: "string list" where
  "validLogLevels = [''debug'', ''info'', ''notice'', ''warn'', ''error'']"

definition validFileAllocations :: "string list" where
  "validFileAllocations = [''none'', ''prealloc'', ''falloc'', ''trunc'']"

definition validateEnum :: "string \<Rightarrow> string list \<Rightarrow> bool" where
  "validateEnum val allowed \<longleftrightarrow> val \<in> set allowed"

definition isOptimizeABFormat :: "(string \<Rightarrow> go_float option) \<Rightarrow> string \<Rightarrow> bool" where
  "isOptimizeABFormat ParseFloat s \<longleftrightarrow>
     (case find_index (\<lambda>c. c = CHR '':'') s of
        None \<Rightarrow> False
      | Some i \<Rightarrow>
          let a = take i s; b = drop (i + 1) s in
          a \<noteq> [] \<and> b \<noteq> [] \<and> ParseFloat a \<noteq> None \<and> ParseFloat b \<noteq> None)"

definition validateRPCOptionValue :: "(string \<Rightarrow> go_float option) \<Rightarrow> string \<Rightarrow> string \<Rightarrow> cfg_error option" where
  "validateRPCOptionValue ParseFloat name val =
     (case map_of rpcOptionParsers name of
        Some h \<Rightarrow> (case handler_Parse ParseFloat h val of Inl e \<Rightarrow> Some e | Inr p \<Rightarrow> None)
      | None \<Rightarrow>
          if name = ''console-log-level'' \<or> name = ''log-level'' then
            if val = [] \<or> validateEnum val validLogLevels then None
            else Some (ErrInvalidOption ''invalid log level'')
          else if name = ''file-allocation'' then
            if val = [] \<or> validateEnum val validFileAllocations then None
            else Some (ErrInvalidOption ''invalid file allocation'')
          else if name = ''optimize-concurrent-downloads'' then
            if val = [] \<or> val = ''true'' \<or> val = ''false'' \<or> isOptimizeABFormat ParseFloat val then None
            else Some (ErrInvalidOption ''invalid optimize-concurrent-downloads'')
          else None)"

section \<open>Options of an RPC request\<close>

text \<open>The JSON value of an option: a string, an array whose elements may or may not be strings, a
  Go slice of strings, or anything else.\<close>

datatype rpc_value = RString string | RArray "string option list" | RStrings "string list" | ROther

definition accumulativeFieldsMap :: "string list" where
  "accumulativeFieldsMap =
     [''header'', ''index-out'', ''bt-tracker'', ''bt-exclude-tracker'', ''dht-entry-point'', ''dht-entry-point6'']"

definition rpcOptionValues :: "string \<Rightarrow> rpc_value \<Rightarrow> string list option" where
  "rpcOptionValues name raw =
     (case raw of
        RString v \<Rightarrow> Some [v]
      | RArray vs \<Rightarrow> if name \<in> set accumulativeFieldsMap then Some (List.map_filter id vs) else None
      | RStrings vs \<Rightarrow> if name \<in> set accumulativeFieldsMap then Some vs else None
      | ROther \<Rightarrow> None)"

fun set_rpc_values ::
  "(string \<Rightarrow> go_float option) \<Rightarrow> string \<Rightarrow> field_setter \<Rightarrow> string list \<Rightarrow> Options \<Rightarrow> cfg_error + Options"
where
  "set_rpc_values ParseFloat name setter [] tmp = Inr tmp"
| "set_rpc_values ParseFloat name setter (s # ss) tmp =
     (case validateRPCOptionValue ParseFloat name s of
        Some e \<Rightarrow> Inl e
      | None \<Rightarrow> rbind (run_setter setter tmp s) (set_rpc_values ParseFloat name setter ss))"

text \<open>The loop over \<open>fieldsSorted\<close>; an error carries the name of the option.\<close>

fun rpc_options_loop ::
  "(string \<Rightarrow> go_float option) \<Rightarrow> (string \<rightharpoonup> rpc_value) \<Rightarrow> (string \<Rightarrow> bool) \<Rightarrow> string list \<Rightarrow> Options \<Rightarrow>
    (string \<times> cfg_error) + Options"
where
  "rpc_options_loop ParseFloat raw allow [] opts = Inr opts"
| "rpc_options_loop ParseFloat raw allow (name # names) opts =
     (case (raw name, map_of fieldSetters name) of
        (Some val, Some setter) \<Rightarrow>
          if \<not> allow name then rpc_options_loop ParseFloat raw allow names opts
          else
            (case rpcOptionValues name val of
               None \<Rightarrow> rpc_options_loop ParseFloat raw allow names opts
             | Some [] \<Rightarrow> rpc_options_loop ParseFloat raw allow names opts
             | Some values \<Rightarrow>
                 (case set_rpc_values ParseFloat name setter values empty_Options of
                    Inl e \<Rightarrow> Inl (name, e)
                  | Inr tmp \<Rightarrow>
                      rpc_options_loop ParseFloat raw allow names (mergeInto opts (markExplicit name tmp))))
      | _ \<Rightarrow> rpc_options_loop ParseFloat raw allow names opts)"

definition ParseRPCOptions ::
  "(string \<Rightarrow> go_float option) \<Rightarrow> (string \<rightharpoonup> rpc_value) \<Rightarrow> (string \<Rightarrow> bool) \<Rightarrow> (string \<times> cfg_error) + Options" where
  "ParseRPCOptions ParseFloat raw allow = rpc_options_loop ParseFloat raw allow fieldsSorted empty_Options"

definition validateSize :: "string \<Rightarrow> bool" where
  "validateSize val \<longleftrightarrow>
     (if val = [] \<or> val = ''0'' then True
      else if last val \<in> set ''KkMm'' then \<not> isl (ParseUint (butlast val) 10 64)
      else \<not> isl (ParseUint val 10 64))"

definition validEventPollValues :: "string \<Rightarrow> string list" where
  "validEventPollValues goos =
     (if goos \<in> set [''linux'', ''android''] then [''epoll'', ''poll'', ''select'']
      else if goos \<in> set [''darwin'', ''freebsd'', ''openbsd'', ''netbsd'', ''dragonfly'']
      then [''kqueue'', ''poll'', ''select'']
      else if goos \<in> set [''solaris'', ''illumos''] then [''port'', ''poll'', ''select'']
      else [''poll'', ''select''])"

definition isValidEventPollValue :: "string \<Rightarrow> string \<Rightarrow> bool" where
  "isValidEventPollValue goos val \<longleftrightarrow> val \<in> set (validEventPollValues goos)"

text \<open>\<open>Validate\<close> on a non-nil argument: the first check that fails gives the error.\<close>

definition atoi_outside :: "string \<Rightarrow> int \<Rightarrow> int option \<Rightarrow> bool" where
  "atoi_outside s lo hi \<longleftrightarrow>
     (case Atoi s of Inl e \<Rightarrow> True | Inr n \<Rightarrow> n < lo \<or> (case hi of None \<Rightarrow> False | Some h \<Rightarrow> h < n))"

definition validation_checks :: "(string \<Rightarrow> go_float option) \<Rightarrow> string \<Rightarrow> Options \<Rightarrow> (bool \<times> string) list" where
  "validation_checks ParseFloat goos opts =
     (let int = (\<lambda>n. int_of (vals opts n)); str = (\<lambda>n. string_of (vals opts n)) in
     [(int ''split'' < 1, ''split must be >= 1''),
      (int ''max-connection-per-server'' < 1, ''max-connection-per-server must be >= 1''),
      (int ''max-concurrent-downloads'' < 1, ''max-concurrent-downloads must be >= 1''),
      (int ''rpc-listen-port'' \<noteq> 0 \<and> (int ''rpc-listen-port'' < 1024 \<or> 65535 < int ''rpc-listen-port''),
       ''rpc-listen-port must be 1024..65535''),
      (str ''console-log-level'' \<noteq> [] \<and> \<not> validateEnum (str ''console-log-level'') validLogLevels,
       ''console-log-level''),
      (str ''log-level'' \<noteq> [] \<and> \<not> validateEnum (str ''log-level'') validLogLevels, ''log-level''),
      (str ''file-allocation'' \<noteq> [] \<and> \<not> validateEnum (str ''file-allocation'') validFileAllocations,
       ''file-allocation''),
      (\<not> validateSize (str ''min-split-size''), ''min-split-size is not a valid size''),
      (str ''summary-interval'' \<noteq> [] \<and> atoi_outside (str ''summary-interval'') 0 None,
       ''summary-interval must be >= 0''),
      (str ''startup-idle-time'' \<noteq> [] \<and> atoi_outside (str ''startup-idle-time'') 1 (Some 60),
       ''startup-idle-time must be between 1 and 60''),
      (str ''event-poll'' \<noteq> [] \<and> \<not> isValidEventPollValue goos (str ''event-poll''), ''event-poll''),
      (int ''max-tries'' < 0, ''max-tries must be >= 0''),
      (int ''max-file-not-found'' < 0, ''max-file-not-found must be >= 0''),
      (int ''max-resume-failure-tries'' < 0, ''max-resume-failure-tries must be >= 0''),
      (int ''bt-max-peers'' < 0, ''bt-max-peers must be >= 0''),
      (int ''bt-max-open-files'' < 1, ''bt-max-open-files must be >= 1''),
      (int ''max-download-result'' < 0, ''max-download-result must be >= 0''),
      (str ''optimize-concurrent-downloads'' \<noteq> [] \<and> str ''optimize-concurrent-downloads'' \<noteq> ''true'' \<and>
       str ''optimize-concurrent-downloads'' \<noteq> ''false'' \<and>
       \<not> isOptimizeABFormat ParseFloat (str ''optimize-concurrent-downloads''),
       ''optimize-concurrent-downloads must be true, false or A:B'')])"

definition Validate :: "(string \<Rightarrow> go_float option) \<Rightarrow> string \<Rightarrow> Options \<Rightarrow> cfg_error option" where
  "Validate ParseFloat goos opts =
     map_option (\<lambda>(failed, msg). ErrInvalidOption msg) (List.find fst (validation_checks ParseFloat goos opts))"

section \<open>Sizes are exact\<close>

lemma unit_mult: "fst (unit_suffix s) \<in> {1, 1024, 1024 * 1024}"
  by (simp add: unit_suffix_def Let_def)

lemma unit_room: "mult \<in> {1, 1024, 1024 * 1024} \<Longrightarrow> max_int64 sdiv mult < n \<longleftrightarrow> max_int64 < n * (mult::int)"
  using div_less_iff_int [of mult max_int64 n] by auto

lemma parseUnitE_eq:
  assumes "s \<noteq> []"
  shows "parseUnitE s =
    (case ParseInt (snd (unit_suffix s)) 10 64 of
       Inl e \<Rightarrow> Inl (ErrInvalidOption ''Bad or negative value detected'')
     | Inr n \<Rightarrow>
         if n < 0 then Inl (ErrInvalidOption ''Bad or negative value detected'')
         else if max_int64 < n * fst (unit_suffix s) then Inl (ErrInvalidOption ''overflow/underflow'')
         else Inr (n * fst (unit_suffix s)))"
proof -
  obtain mult s' where u: "unit_suffix s = (mult, s')" by (cases "unit_suffix s")
  have m: "mult \<in> {1, 1024, 1024 * 1024}" using unit_mult [of s] u by simp
  have "wrap64 (n * mult) = n * mult" if "0 \<le> n" "\<not> max_int64 < n * mult" for n
    using that m by (intro wrap64_id) (auto simp: order_trans [OF _ mult_nonneg_nonneg])
  then show ?thesis using assms u unit_room [OF m] by (simp add: parseUnitE_def split: sum.splits)
qed

lemma parseUnitE_range: "parseUnitE s = Inr v \<Longrightarrow> 0 \<le> v \<and> v < 2 ^ 63"
proof -
  assume p: "parseUnitE s = Inr v"
  then have s: "s \<noteq> []" by (auto simp: parseUnitE_def)
  have "0 \<le> fst (unit_suffix s)" using unit_mult [of s] by auto
  with p show ?thesis unfolding parseUnitE_eq [OF s] by (auto split: sum.splits if_splits)
qed

lemma last_FormatUint_digit: "is_digit (last (FormatUint n))"
  using FormatUint_digits [of "last (FormatUint n)" n] by simp

lemma parseUnitE_plain:
  assumes "suffix \<in> {'''', ''K'', ''k'', ''M'', ''m''}" and "n < 2 ^ 63"
  shows "unit_suffix (FormatUint n @ suffix) =
    (if suffix = '''' then 1 else if suffix \<in> {''K'', ''k''} then 1024 else 1024 * 1024, FormatUint n)"
proof -
  have "last (FormatUint n) \<notin> set ''KkMm''" using last_FormatUint_digit [of n] by (auto simp: is_digit_iff)
  then show ?thesis using assms(1) by (auto simp: unit_suffix_def Let_def)
qed

lemma ParseInt_FormatUint: "n < 2 ^ 63 \<Longrightarrow> ParseInt (FormatUint n) 10 64 = Inr (int n)"
  using ParseInt_FormatInt [of "int n"] by (simp add: FormatInt_def)

section \<open>RPC requests change only what is allowed\<close>

lemma set_rpc_values_built:
  "built tmp \<Longrightarrow> (name, setter) \<in> set fieldSetters \<Longrightarrow> set_rpc_values pf name setter ss tmp = Inr tmp' \<Longrightarrow> built tmp'"
  by (induction pf name setter ss tmp rule: set_rpc_values.induct)
     (auto simp: rbind_eq_Inr intro: built.set split: option.splits)

definition companions :: "string set" where
  "companions = {''dht-entry-point-host'', ''dht-entry-point-port'', ''dht-entry-point-host6'', ''dht-entry-point-port6''}"

lemma setter_fst: "(name, s) \<in> set fieldSetters \<Longrightarrow> fst (setter_field s) = name"
proof -
  assume s: "(name, s) \<in> set fieldSetters"
  have eq: "map fst fieldSetters = map (\<lambda>(n, s). fst (setter_field s)) fieldSetters"
    using arg_cong [OF setters_match_fields, of "map fst"] setter_keys by (simp add: o_def split_def)
  from s obtain i where "i < length fieldSetters" "fieldSetters ! i = (name, s)" by (auto simp: in_set_conv_nth)
  with arg_cong [OF eq, of "\<lambda>xs. xs ! i"] show ?thesis by simp
qed

lemma setter_other:
  assumes "(name, s) \<in> set fieldSetters" and "run_setter s opts v = Inr opts'" and "n \<noteq> name" and "n \<notin> companions"
  shows "vals opts' n = vals opts n"
proof -
  have "case s of AppendEntryPoint msg n hostf portf \<Rightarrow>
      hostf \<in> {''dht-entry-point-host'', ''dht-entry-point-host6''} \<and>
      portf \<in> {''dht-entry-point-port'', ''dht-entry-point-port6''} | _ \<Rightarrow> True"
    using bspec [OF entry_point_setters [unfolded list_all_iff] assms(1)] by (simp only: prod.case)
  with assms setter_fst [OF assms(1)] show ?thesis
    by (cases s) (auto simp: rbind_eq_Inr companions_def split: sum.splits option.splits)
qed

lemma run_setter_explicit [simp]: "run_setter s opts v = Inr opts' \<Longrightarrow> explicit opts' = explicit opts"
  by (cases s) (auto simp: rbind_eq_Inr split: sum.splits option.splits)

lemma run_setter_markers:
  assumes "(name, s) \<in> set fieldSetters" and "run_setter s opts v = Inr opts'"
  shows "name \<noteq> ''check-certificate'' \<Longrightarrow> CheckCertificateSet opts' = CheckCertificateSet opts"
    and "name \<noteq> ''always-resume'' \<Longrightarrow> AlwaysResumeSet opts' = AlwaysResumeSet opts"
  using assms(2) setter_fst [OF assms(1)]
  by (cases s; auto simp: rbind_eq_Inr split: sum.splits option.splits)+

definition unset :: "string \<Rightarrow> Options \<Rightarrow> bool" where
  "unset n opts \<longleftrightarrow> \<not> sets_field n opts"

lemma set_rpc_values_unset:
  "set_rpc_values pf name setter ss tmp = Inr tmp' \<Longrightarrow> (name, setter) \<in> set fieldSetters \<Longrightarrow>
    n \<noteq> name \<Longrightarrow> n \<notin> companions \<Longrightarrow> unset n tmp \<Longrightarrow> unset n tmp'"
proof (induction pf name setter ss tmp rule: set_rpc_values.induct)
  case (2 pf name setter s ss tmp)
  from "2.prems"(1) obtain tmp1 where t: "validateRPCOptionValue pf name s = None"
    "run_setter setter tmp s = Inr tmp1" "set_rpc_values pf name setter ss tmp1 = Inr tmp'"
    by (auto simp: rbind_eq_Inr split: option.splits)
  have "unset n tmp1"
    using "2.prems"(3-5) setter_other [OF "2.prems"(2) t(2)] run_setter_explicit [OF t(2)]
      run_setter_markers [OF "2.prems"(2) t(2)]
    by (auto simp: unset_def sets_field_def)
  with "2.IH" t "2.prems"(2-4) show ?case by blast
qed simp

lemma default_lookup:
  assumes "(n, v) \<in> set Default_values"
  shows "vals Default n = v"
proof -
  have "map fst Default_values = map fst option_fields"
    using arg_cong [OF defaults_match_fields, of "map fst"] by (simp add: o_def split_def)
  then have "map_of Default_values n = Some v"
    using map_of_is_SomeI [OF _ assms] option_names_distinct by (simp only:)
  then show ?thesis by (simp add: Default_def)
qed

lemma default_values:
  "vals Default ''split'' = VInt 5"
  "vals Default ''max-connection-per-server'' = VInt 1"
  "vals Default ''max-concurrent-downloads'' = VInt 5"
  "vals Default ''rpc-listen-port'' = VInt 6800"
  "vals Default ''console-log-level'' = VString ''notice''"
  "vals Default ''log-level'' = VString ''debug''"
  "vals Default ''file-allocation'' = VString ''prealloc''"
  "vals Default ''min-split-size'' = VString ''20M''"
  "vals Default ''summary-interval'' = VString ''60''"
  "vals Default ''startup-idle-time'' = VString ''10''"
  "vals Default ''event-poll'' = VString []"
  "vals Default ''max-tries'' = VInt 5"
  "vals Default ''max-file-not-found'' = VInt 0"
  "vals Default ''max-resume-failure-tries'' = VInt 0"
  "vals Default ''bt-max-peers'' = VInt 55"
  "vals Default ''bt-max-open-files'' = VInt 100"
  "vals Default ''max-download-result'' = VInt 1000"
  "vals Default ''optimize-concurrent-downloads'' = VString ''false''"
  by (rule default_lookup, simp add: Default_values_def, simp add: Default_values_1_def Default_values_2_def)+

lemma default_options_valid: "Validate ParseFloat goos Default = None"
  by (simp add: Validate_def validation_checks_def default_values validateEnum_def validLogLevels_def
      validFileAllocations_def validateSize_def atoi_outside_def Atoi_def ParseInt_def ParseUint_def
      digit_val_def Let_def)

lemma unset_zero: "unset n opts \<Longrightarrow> vals opts n = zero_value (value_kind (vals opts n))"
  by (simp add: unset_def sets_field_def)

lemma mergeInto_markers:
  "CheckCertificateSet (mergeInto d s) \<longleftrightarrow>
     CheckCertificateSet d \<or> CheckCertificateSet s \<or> bool_of (vals s ''check-certificate'')"
  "AlwaysResumeSet (mergeInto d s) \<longleftrightarrow> AlwaysResumeSet d \<or> AlwaysResumeSet s"
  using marker_mergers [THEN imageI, of snd]
  by (auto simp: mergeInto_def applyExplicitScalarOverrides_def Let_def run_mergers_check run_mergers_always)

lemma unset_mergeInto:
  assumes "(n, k) \<in> set option_fields" and "well_typed d" and "well_typed s" and "unset n d" and "unset n s"
  shows "unset n (mergeInto d s)"
proof -
  have z: "vals d n = zero_value k" "vals s n = zero_value k"
    using unset_zero [OF assms(4)] unset_zero [OF assms(5)] well_typedD [OF assms(2,1)] well_typedD [OF assms(3,1)]
    by simp_all
  have "vals (mergeInto d s) n = zero_value k"
    using mergeInto_scalar [OF assms(1) _ assms(3)] mergeInto_list [of n, OF _ assms(2), of s] assms(1,5) z
    by (cases "k = KList") (auto simp: unset_def)
  moreover have "value_kind (vals (mergeInto d s) n) = k"
    using well_typedD [OF well_typed_mergeInto [OF assms(2,3)] assms(1)] .
  moreover have "n \<notin> explicit (mergeInto d s)" using assms(4,5) by (simp add: unset_def sets_field_def mergeInto_explicit)
  moreover have "n = ''check-certificate'' \<Longrightarrow> \<not> CheckCertificateSet (mergeInto d s)"
    "n = ''always-resume'' \<Longrightarrow> \<not> AlwaysResumeSet (mergeInto d s)"
    using assms(4,5) z by (auto simp: unset_def sets_field_def mergeInto_markers) (cases k; simp)+
  ultimately show ?thesis by (auto simp: unset_def sets_field_def)
qed

lemma value_kind_zero [simp]: "value_kind (zero_value k) = k"
  by (cases k) simp_all

lemma unset_empty: "(n, k) \<in> set option_fields \<Longrightarrow> unset n empty_Options"
  using empty_zero [of n k] by (simp add: unset_def sets_field_def) (simp add: empty_Options_def)

lemma rpc_loop_unset:
  assumes n: "(n, k) \<in> set option_fields" "n \<notin> companions" "raw n = None \<or> \<not> allow n"
  shows "rpc_options_loop pf raw allow names opts = Inr opts' \<Longrightarrow> well_typed opts \<Longrightarrow> unset n opts \<Longrightarrow>
    well_typed opts' \<and> unset n opts'"
proof (induction names arbitrary: opts)
  case (Cons name names)
  note IH = Cons.IH
  show ?case
  proof (cases "\<exists>val setter v vs tmp. raw name = Some val \<and> map_of fieldSetters name = Some setter \<and> allow name \<and>
      rpcOptionValues name val = Some (v # vs) \<and> set_rpc_values pf name setter (v # vs) empty_Options = Inr tmp")
    case True
    then obtain val setter v vs tmp where t: "raw name = Some val" "map_of fieldSetters name = Some setter" "allow name"
      "rpcOptionValues name val = Some (v # vs)" "set_rpc_values pf name setter (v # vs) empty_Options = Inr tmp"
      by blast
    have mem: "(name, setter) \<in> set fieldSetters" using map_of_SomeD [OF t(2)] .
    have ne: "n \<noteq> name" using n(3) t by auto
    have "well_typed tmp" using built_well_typed [OF set_rpc_values_built [OF built.empty mem t(5)]] .
    then have "well_typed (markExplicit name tmp)" by (simp add: markExplicit_def well_typed_def)
    moreover have "unset n (markExplicit name tmp)"
      using set_rpc_values_unset [OF t(5) mem ne n(2) unset_empty [OF n(1)]] ne
      by (auto simp: unset_def sets_field_def markExplicit_def)
    ultimately have "well_typed (mergeInto opts (markExplicit name tmp))" "unset n (mergeInto opts (markExplicit name tmp))"
      using Cons.prems(2,3) by (auto intro: well_typed_mergeInto unset_mergeInto [OF n(1)])
    with IH Cons.prems(1) t show ?thesis by (simp del: set_rpc_values.simps)
  next
    case False
    with Cons.prems(1) have "rpc_options_loop pf raw allow names opts = Inr opts'"
      by (simp del: set_rpc_values.simps split: option.splits list.splits sum.splits if_splits)
    with IH Cons.prems(2,3) show ?thesis by blast
  qed
qed simp

section \<open>Properties\<close>

text \<open>(C22) Sizes are exact. A number with an optional \<open>K\<close> or \<open>M\<close> suffix is accepted exactly when
  its value in bytes is below \<open>2 ^ 63\<close>, and then stands for that value: nothing wraps around.\<close>

theorem unit_sizes_exact:
  assumes "suffix \<in> {'''', ''K'', ''k'', ''M'', ''m''}" and "n < 2 ^ 63"
  shows "parseUnitE (FormatUint n @ suffix) =
    (let v = int n * (if suffix = '''' then 1 else if suffix \<in> {''K'', ''k''} then 1024 else 1024 * 1024)
     in if v < 2 ^ 63 then Inr v else Inl (ErrInvalidOption ''overflow/underflow''))"
  using parseUnitE_eq [of "FormatUint n @ suffix"] parseUnitE_plain [OF assms] ParseInt_FormatUint [OF assms(2)]
  by (simp add: Let_def not_less)

theorem unit_sizes_exact_witness:
  "parseUnitE (FormatUint 20 @ ''M'') = Inr 20971520 \<and>
   parseUnitE (FormatUint (2 ^ 62) @ ''K'') = Inl (ErrInvalidOption ''overflow/underflow'')"
  using unit_sizes_exact [of "''M''" 20] unit_sizes_exact [of "''K''" "2 ^ 62"] by (simp add: Let_def)

text \<open>A request changes only what it may. In the options parsed from an RPC request every
  option that the request does not name, or that the caller does not allow, is left unset; only
  the host and port that an entry point implies are set along with it.\<close>

lemma rpc_options_only_allowed:
  assumes "ParseRPCOptions pf raw allow = Inr opts" and "(n, k) \<in> set option_fields"
    and "raw n = None \<or> \<not> allow n" and "n \<notin> companions"
  shows "vals opts n = zero_value k \<and> n \<notin> explicit opts"
proof -
  have "well_typed opts" "unset n opts"
    using rpc_loop_unset [OF assms(2,4,3) assms(1) [unfolded ParseRPCOptions_def] well_typed_empty unset_empty [OF assms(2)]]
    by auto
  then show ?thesis
    using unset_zero [of n opts] well_typedD [OF _ assms(2)] by (auto simp: unset_def sets_field_def)
qed

theorem rpc_options_only_allowed_witness:
  "\<exists>opts. ParseRPCOptions (\<lambda>s. None) [''split'' \<mapsto> RString ''7''] (\<lambda>n. n \<noteq> ''split'') = Inr opts \<and>
     vals opts ''split'' = VInt 0 \<and> ''split'' \<notin> explicit opts"
proof -
  have "rpc_options_loop (\<lambda>s. None) [''split'' \<mapsto> RString ''7''] (\<lambda>n. n \<noteq> ''split'') names opts = Inr opts" for names opts
    by (induction names) (auto split: option.splits)
  then have "ParseRPCOptions (\<lambda>s. None) [''split'' \<mapsto> RString ''7''] (\<lambda>n. n \<noteq> ''split'') = Inr empty_Options"
    by (simp add: ParseRPCOptions_def)
  with rpc_options_only_allowed [OF this split_field] show ?thesis by (simp add: companions_def)
qed

end
