(* ===== verification/Core.thy ===== *)
theory Core
  imports Strconv
begin

unbundle bit_operations_syntax

text \<open>
  Package \<open>core\<close> (\<open>src/internal/core/types.go\<close> and \<open>errors.go\<close>): download
  identifiers, download states, aria2's exit codes, lifecycle events, info hashes and the
  error type every other package wraps. Proved here: the hexadecimal form of a GID and of
  an info hash parses back to the value it was printed from, exactly which decimal GIDs do
  not, and what \<open>CodeFrom\<close> finds in a chain of wrapped errors.
\<close>

section \<open>Download identifiers\<close>

type_synonym GID = uint64

definition hexDigits :: string where
  "hexDigits = ''0123456789abcdef''"

definition isHexString :: "string \<Rightarrow> bool" where
  "isHexString s \<longleftrightarrow>
     (\<forall>c\<in>set s. (CHR ''0'' \<le> c \<and> c \<le> CHR ''9'') \<or> (CHR ''a'' \<le> c \<and> c \<le> CHR ''f''))"

definition ParseGID :: "string \<Rightarrow> num_error + GID" where
  "ParseGID s =
     (if length s = 16 \<and> isHexString s
      then rbind (ParseUint s 16 64) (\<lambda>v. Inr (word_of_nat v))
      else rbind (ParseUint s 10 64) (\<lambda>v. Inr (word_of_nat v)))"

definition GID_String :: "GID \<Rightarrow> string" where
  "GID_String g = FormatUint (unat g)"

text \<open>The loop of \<open>HexTo\<close> fills the buffer from its last byte to its first, four bits at a time.\<close>

fun HexTo_loop :: "nat \<Rightarrow> uint64 \<Rightarrow> string \<Rightarrow> string" where
  "HexTo_loop 0 v buf = buf"
| "HexTo_loop (Suc i) v buf = HexTo_loop i (drop_bit 4 v) (hexDigits ! unat (v AND 15) # buf)"

definition Hex :: "GID \<Rightarrow> string" where
  "Hex g = HexTo_loop 16 g []"

section \<open>States, exit codes, events\<close>

datatype Status =
    StatusWaiting | StatusActive | StatusPaused | StatusComplete | StatusError | StatusRemoved

fun status_code :: "Status \<Rightarrow> byte" where
  "status_code StatusWaiting = 0"
| "status_code StatusActive = 1"
| "status_code StatusPaused = 2"
| "status_code StatusComplete = 3"
| "status_code StatusError = 4"
| "status_code StatusRemoved = 5"

definition statusStrings :: "string list" where
  "statusStrings =
     [''waiting'', ''active'', ''paused'', ''complete'', ''error'', ''removed'']"

definition Status_String :: "byte \<Rightarrow> string" where
  "Status_String s =
     (if unat s < length statusStrings then statusStrings ! unat s
      else ''unknown('' @ FormatUint (unat s) @ '')'')"

type_synonym ErrorCode = int

abbreviation (input) "ExitSuccess \<equiv> (0 :: ErrorCode)"
abbreviation (input) "ExitUnknownError \<equiv> (1 :: ErrorCode)"
abbreviation (input) "ExitTimeout \<equiv> (2 :: ErrorCode)"
abbreviation (input) "ExitResourceNotFound \<equiv> (3 :: ErrorCode)"
abbreviation (input) "ExitMaxFileNotFound \<equiv> (4 :: ErrorCode)"
abbreviation (input) "ExitTooSlow \<equiv> (5 :: ErrorCode)"
abbreviation (input) "ExitNetworkProblem \<equiv> (6 :: ErrorCode)"
abbreviation (input) "ExitUnfinishedDownloads \<equiv> (7 :: ErrorCode)"
abbreviation (input) "ExitRemoteFileError \<equiv> (8 :: ErrorCode)"
abbreviation (input) "ExitNotEnoughDiskSpace \<equiv> (9 :: ErrorCode)"
abbreviation (input) "ExitPieceLengthChanged \<equiv> (10 :: ErrorCode)"
abbreviation (input) "ExitSameFileDownloading \<equiv> (11 :: ErrorCode)"
abbreviation (input) "ExitSameInfoHashDownloading \<equiv> (12 :: ErrorCode)"
abbreviation (input) "ExitFileAlreadyExists \<equiv> (13 :: ErrorCode)"
abbreviation (input) "ExitRenameFailed \<equiv> (14 :: ErrorCode)"
abbreviation (input) "ExitOpenFileError \<equiv> (15 :: ErrorCode)"
abbreviation (input) "ExitFileCreateError \<equiv> (16 :: ErrorCode)"
abbreviation (input) "ExitFileIOError \<equiv> (17 :: ErrorCode)"
abbreviation (input) "ExitDirCreateError \<equiv> (18 :: ErrorCode)"
abbreviation (input) "ExitNameResolveError \<equiv> (19 :: ErrorCode)"
abbreviation (input) "ExitMetalinkParseError \<equiv> (20 :: ErrorCode)"
abbreviation (input) "ExitFTPProtocolError \<equiv> (21 :: ErrorCode)"
abbreviation (input) "ExitHTTPProtocolError \<equiv> (22 :: ErrorCode)"
abbreviation (input) "ExitTooManyRedirects \<equiv> (23 :: ErrorCode)"
abbreviation (input) "ExitHTTPAuthFailed \<equiv> (24 :: ErrorCode)"
abbreviation (input) "ExitBencodeParseError \<equiv> (25 :: ErrorCode)"
abbreviation (input) "ExitTorrentParseError \<equiv> (26 :: ErrorCode)"
abbreviation (input) "ExitMagnetParseError \<equiv> (27 :: ErrorCode)"
abbreviation (input) "ExitBadOption \<equiv> (28 :: ErrorCode)"
abbreviation (input) "ExitHTTPServiceUnavailable \<equiv> (29 :: ErrorCode)"
abbreviation (input) "ExitJSONParseError \<equiv> (30 :: ErrorCode)"
abbreviation (input) "ExitRemoved \<equiv> (31 :: ErrorCode)"
abbreviation (input) "ExitChecksumError \<equiv> (32 :: ErrorCode)"
abbreviation (input) "ExitInProgress \<equiv> (255 :: ErrorCode)"

definition errorCodeStrings :: "string list" where
  "errorCodeStrings =
     [''success'', ''unknown error'', ''timeout'', ''resource not found'',
      ''max file not found'', ''too slow'', ''network problem'', ''unfinished downloads'',
      ''remote file error'', ''not enough disk space'', ''piece length changed'',
      ''same file downloading'', ''same info hash downloading'', ''file already exists'',
      ''rename failed'', ''open file error'', ''file create error'', ''file i/o error'',
      ''dir create error'', ''name resolve error'', ''metalink parse error'',
      ''ftp protocol error'', ''http protocol error'', ''too many redirects'',
      ''http auth failed'', ''bencode parse error'', ''torrent parse error'',
      ''magnet parse error'', ''bad option'', ''http service unavailable'',
      ''json parse error'', ''removed'', ''checksum error'']"

definition ErrorCode_String :: "ErrorCode \<Rightarrow> string" where
  "ErrorCode_String c =
     (if c = ExitInProgress then ''in-progress''
      else if 0 \<le> c \<and> c < int (length errorCodeStrings) then errorCodeStrings ! nat c
      else ''unknown_code('' @ FormatInt c @ '')'')"

datatype EventKind = EvStart | EvPause | EvStop | EvComplete | EvError | EvBTComplete

fun event_code :: "EventKind \<Rightarrow> byte" where
  "event_code EvStart = 0"
| "event_code EvPause = 1"
| "event_code EvStop = 2"
| "event_code EvComplete = 3"
| "event_code EvError = 4"
| "event_code EvBTComplete = 5"

definition eventKindStrings :: "string list" where
  "eventKindStrings = [''start'', ''pause'', ''stop'', ''complete'', ''error'', ''btcomplete'']"

definition EventKind_String :: "byte \<Rightarrow> string" where
  "EventKind_String k =
     (if unat k < length eventKindStrings then eventKindStrings ! unat k
      else ''unknown('' @ FormatUint (unat k) @ '')'')"

section \<open>Info hashes\<close>

definition hex_append :: "string \<Rightarrow> byte list \<Rightarrow> string" where
  "hex_append dst h =
     dst @ concat (map (\<lambda>b. [hexDigits ! unat (drop_bit 4 b), hexDigits ! unat (b AND 15)]) h)"

datatype hash_error = BadHashLength nat | InvalidHexByte char

text \<open>\<open>encoding/hex\<close>: \<open>DecodeString\<close> reads digit pairs in either case; a lone last digit
  is the length error of the package.\<close>

definition hex_val :: "char \<Rightarrow> hash_error + nat" where
  "hex_val c =
     (case digit_val c of
        None \<Rightarrow> Inl (InvalidHexByte c)
      | Some d \<Rightarrow> if d < 16 then Inr d else Inl (InvalidHexByte c))"

fun hex_DecodeString :: "string \<Rightarrow> hash_error + byte list" where
  "hex_DecodeString [] = Inr []"
| "hex_DecodeString [c] = rbind (hex_val c) (\<lambda>_. Inl (BadHashLength 1))"
| "hex_DecodeString (c # d # cs) =
     rbind (hex_val c) (\<lambda>a.
     rbind (hex_val d) (\<lambda>b.
     rbind (hex_DecodeString cs) (\<lambda>bs. Inr (word_of_nat (a * 16 + b) # bs))))"

definition ParseInfoHashV1 :: "string \<Rightarrow> hash_error + byte list" where
  "ParseInfoHashV1 s =
     (if length s \<noteq> 40 then Inl (BadHashLength (length s)) else hex_DecodeString s)"

definition ParseInfoHashV2 :: "string \<Rightarrow> hash_error + byte list" where
  "ParseInfoHashV2 s =
     (if length s \<noteq> 64 then Inl (BadHashLength (length s)) else hex_DecodeString s)"

definition InfoHash_String :: "byte list \<Rightarrow> string" where
  "InfoHash_String h = hex_append [] h"

section \<open>Errors\<close>

text \<open>A Go error chain: a \<open>*core.Error\<close>, or an error of another package with its text
  and, when it wraps one, its cause.\<close>

datatype go_error =
    CoreError (Code: ErrorCode) (Message: string) (msgFmt: string) (Cause: "go_error option")
  | OtherError string "go_error option"

definition newError :: "ErrorCode \<Rightarrow> string \<Rightarrow> go_error" where
  "newError code message = CoreError code message (FormatInt code @ '': '' @ message) None"

definition WrapError :: "ErrorCode \<Rightarrow> string \<Rightarrow> go_error \<Rightarrow> go_error" where
  "WrapError code message cause =
     (case newError code message of
        CoreError c m f _ \<Rightarrow> CoreError c m f (Some cause)
      | e \<Rightarrow> e)"

fun Error_text :: "go_error \<Rightarrow> string" where
  "Error_text (CoreError c m f cause) =
     (case cause of Some e \<Rightarrow> f @ '': '' @ Error_text e | None \<Rightarrow> f)"
| "Error_text (OtherError s cause) = s"

fun Unwrap :: "go_error \<Rightarrow> go_error option" where
  "Unwrap (CoreError c m f cause) = cause"
| "Unwrap (OtherError s cause) = cause"

text \<open>\<open>errors.As(err, &e)\<close> for \<open>e :: *core.Error\<close>: the first \<open>CoreError\<close> of the chain.\<close>

fun errors_As :: "go_error \<Rightarrow> go_error option" where
  "errors_As (CoreError c m f cause) = Some (CoreError c m f cause)"
| "errors_As (OtherError s cause) = (case cause of None \<Rightarrow> None | Some e \<Rightarrow> errors_As e)"

definition CodeFrom :: "go_error option \<Rightarrow> ErrorCode" where
  "CodeFrom err =
     (case err of
        None \<Rightarrow> ExitUnknownError
      | Some e \<Rightarrow> (case errors_As e of Some (CoreError c _ _ _) \<Rightarrow> c | _ \<Rightarrow> ExitUnknownError))"

section \<open>Hexadecimal digits\<close>

definition hex_char :: "nat \<Rightarrow> char" where
  "hex_char d = hexDigits ! d"

lemma nat_less_16_cases:
  "d < (16::nat) \<Longrightarrow> d \<in> {0, 1, 2, 3, 4, 5, 6, 7, 8, 9, 10, 11, 12, 13, 14, 15}"
  by (simp del: One_nat_def) presburger

lemma hex_char_props:
  assumes "d < 16"
  shows digit_val_hex_char: "digit_val (hex_char d) = Some d"
    and isHex_hex_char: "isHexString [hex_char d]"
  using nat_less_16_cases [OF assms]
  by (auto simp: hex_char_def hexDigits_def digit_val_def isHexString_def less_eq_char_def
      nth_Cons' simp del: One_nat_def)

fun hex_rep :: "nat \<Rightarrow> nat \<Rightarrow> string" where
  "hex_rep 0 n = []"
| "hex_rep (Suc k) n = hex_rep k (n div 16) @ [hex_char (n mod 16)]"

lemma unat_and_15: "4 \<le> LENGTH('a) \<Longrightarrow> unat (v AND (15 :: 'a::len word)) = unat v mod 16"
proof -
  have "v AND 15 = take_bit 4 v" by (simp add: take_bit_eq_mask mask_eq_exp_minus_1)
  then show ?thesis by (simp only: unsigned_take_bit_eq) (simp add: take_bit_eq_mod)
qed

lemma unat_drop_bit_4: "unat (drop_bit 4 v) = unat (v :: 'a::len word) div 16"
  by (simp only: unsigned_drop_bit_eq) (simp add: take_bit_eq_mod drop_bit_eq_div)

lemma HexTo_loop_rep: "HexTo_loop k v buf = hex_rep k (unat v) @ buf"
  by (induction k arbitrary: v buf) (simp_all add: hex_char_def unat_and_15 unat_drop_bit_4)

lemma length_hex_rep [simp]: "length (hex_rep k n) = k"
  by (induction k arbitrary: n) simp_all

lemma isHexString_append: "isHexString (xs @ ys) \<longleftrightarrow> isHexString xs \<and> isHexString ys"
  by (auto simp: isHexString_def)

lemma isHexString_hex_rep: "isHexString (hex_rep k n)"
  by (induction k arbitrary: n) (simp_all add: isHexString_append isHex_hex_char, simp add: isHexString_def)

lemma parse_hex_rep:
  "n mod 16 ^ k \<le> m \<Longrightarrow> parse_digits 16 m 0 (hex_rep k n) = Inr (n mod 16 ^ k)"
proof (induction k arbitrary: n)
  case 0
  then show ?case by simp
next
  case (Suc k)
  have eq: "n mod 16 ^ Suc k = (n div 16) mod 16 ^ k * 16 + n mod 16"
    by (simp add: mod_mult2_eq mult.commute)
  with Suc.prems have "(n div 16) mod 16 ^ k \<le> m" by linarith
  then have "parse_digits 16 m 0 (hex_rep k (n div 16)) = Inr ((n div 16) mod 16 ^ k)"
    by (rule Suc.IH)
  with eq Suc.prems show ?case
    by (simp add: parse_digits_append digit_val_hex_char del: power_Suc)
qed

lemma Hex_rep: "Hex g = hex_rep 16 (unat g)"
  by (simp add: Hex_def HexTo_loop_rep)

lemma unat_uint64_less: "unat (g :: uint64) < 2 ^ 64"
  using unsigned_less [of g, where 'a = nat] by simp

lemma ParseGID_Hex [simp]: "ParseGID (Hex g) = Inr g"
proof -
  have "parse_digits 16 (2 ^ 64 - 1) 0 (hex_rep 16 (unat g)) = Inr (unat g)"
    using parse_hex_rep [of "unat g" 16 "2 ^ 64 - 1"] unat_uint64_less [of g] by simp
  then have "ParseUint (Hex g) 16 64 = Inr (unat g)"
    using length_hex_rep [of 16 "unat g"] by (auto simp: ParseUint_def Hex_rep simp del: length_hex_rep)
  moreover have "length (Hex g) = 16" and "isHexString (Hex g)"
    by (simp_all add: Hex_rep isHexString_hex_rep)
  ultimately show ?thesis by (simp add: ParseGID_def)
qed

section \<open>Round trips\<close>

text \<open>The 16-digit hexadecimal form that the program prints, stores in session files and
  sends over RPC parses back to the same identifier, for every GID.\<close>

lemma gid_hex_roundtrip: "ParseGID (Hex g) = Inr g"
  by simp

text \<open>Read in base 16, a digit string with a non-zero head denotes more than in base 10.\<close>

lemma parse_digits_16_gt_10:
  assumes "parse_digits 16 m a s = Inr v" and "parse_digits 10 m b s = Inr w"
    and "0 < b" and "b \<le> a" and "s \<noteq> []"
  shows "w < v"
  using assms
proof (induction s arbitrary: a b)
  case Nil
  then show ?case by simp
next
  case (Cons c s)
  then obtain d where d: "digit_val c = Some d"
    and v: "parse_digits 16 m (a * 16 + d) s = Inr v"
    and w: "parse_digits 10 m (b * 10 + d) s = Inr w"
    by (auto split: option.splits if_splits)
  show ?case
  proof (cases "s = []")
    case True
    with v w Cons.prems show ?thesis by auto
  next
    case False
    with Cons.IH [OF v w] Cons.prems show ?thesis by simp
  qed
qed

lemma gid_16_digits_misread:
  assumes "length (GID_String g) = 16"
  shows "ParseGID (GID_String g) \<noteq> Inr g"
proof
  assume eq: "ParseGID (GID_String g) = Inr g"
  let ?s = "GID_String g" and ?m = "2 ^ 64 - 1 :: nat"
  have dec: "parse_digits 10 ?m 0 ?s = Inr (unat g)"
    using unat_uint64_less [of g] parse_digits_FormatUint [of "unat g" ?m] by (simp add: GID_String_def)
  have "isHexString ?s"
    using FormatUint_digits by (fastforce simp: isHexString_def GID_String_def is_digit_def)
  with assms eq obtain v where hex: "parse_digits 16 ?m 0 ?s = Inr v" and "g = word_of_nat v"
    by (auto simp: ParseGID_def ParseUint_def rbind_eq_Inr split: if_splits)
  moreover have "v \<le> ?m" using parse_digits_bound [OF hex] by simp
  ultimately have v: "v = unat g" by (simp add: unat_of_nat)
  have "unat g \<noteq> 0"
  proof
    assume "unat g = 0"
    with assms show False by (simp add: GID_String_def)
  qed
  then have nz: "hd ?s \<noteq> CHR ''0''" "is_digit (hd ?s)"
    by (simp_all add: GID_String_def hd_FormatUint_nonzero)
  obtain c s where s: "?s = c # s" "s \<noteq> []"
    using assms by (cases ?s) (auto, metis length_greater_0_conv zero_less_numeral)
  let ?d = "of_char c - 48 :: nat"
  have d: "digit_val c = Some ?d" using nz s by (simp add: digit_val_is_digit)
  have "0 < ?d" using nz s digit_char_inverse [of c] by (cases "?d = 0") auto
  with parse_digits_16_gt_10 [of ?m ?d s v ?d "unat g"] hex dec d s v show False
    by (simp split: if_splits)
qed

text \<open>The decimal form of a GID parses back to it exactly when it is not 16 digits long: a
  16-digit decimal string is read as hexadecimal and denotes a different download.\<close>

lemma gid_decimal_roundtrip:
  "ParseGID (GID_String g) = Inr g \<longleftrightarrow> length (GID_String g) \<noteq> 16"
proof
  assume "length (GID_String g) \<noteq> 16"
  then show "ParseGID (GID_String g) = Inr g"
    using unat_uint64_less [of g] by (simp add: ParseGID_def GID_String_def ParseUint_FormatUint)
qed (use gid_16_digits_misread in blast)

lemma hex_DecodeString_append:
  "hex_DecodeString (hex_append [] h) = Inr h"
proof (induction h)
  case Nil
  then show ?case by (simp add: hex_append_def)
next
  case (Cons b h)
  have d: "unat (drop_bit 4 b) < 16"
    using unat_byte_less [of b] by (simp add: unat_drop_bit_4 div_less_iff_less_mult)
  have "unat b div 16 * 16 + unat b mod 16 = unat b" by simp
  then have "(word_of_nat (unat (drop_bit 4 b) * 16 + unat (b AND 15)) :: byte) = b"
    by (simp add: unat_and_15 unat_drop_bit_4 del: of_nat_add of_nat_mult)
  with Cons d show ?case
    by (simp add: hex_append_def hex_val_def hex_char_def [symmetric] digit_val_hex_char unat_and_15)
qed

lemma length_hex_append: "length (hex_append [] h) = 2 * length h"
  by (induction h) (simp_all add: hex_append_def)

text \<open>A 20-byte or 32-byte info hash parses back from its printed form; no other length
  is accepted.\<close>

lemma infohash_roundtrip:
  "length h = 20 \<Longrightarrow> ParseInfoHashV1 (InfoHash_String h) = Inr h"
  by (simp add: ParseInfoHashV1_def InfoHash_String_def length_hex_append hex_DecodeString_append)

lemma infohash_v2_roundtrip:
  "length h = 32 \<Longrightarrow> ParseInfoHashV2 (InfoHash_String h) = Inr h"
  by (simp add: ParseInfoHashV2_def InfoHash_String_def length_hex_append hex_DecodeString_append)

lemma infohash_roundtrip_witness:
  "ParseInfoHashV1 (InfoHash_String (replicate 20 0xA5)) = Inr (replicate 20 0xA5)"
  by (rule infohash_roundtrip) simp

section \<open>Error chains\<close>

text \<open>The code a wrapped error carries is the outermost one, whatever it wraps, and foreign
  wrappers are transparent.\<close>

lemma CodeFrom_WrapError: "CodeFrom (Some (WrapError code msg e)) = code"
  by (simp add: CodeFrom_def WrapError_def newError_def)

lemma CodeFrom_OtherError: "CodeFrom (Some (OtherError s cause)) = CodeFrom cause"
  by (simp add: CodeFrom_def split: option.splits)

lemma Error_text_WrapError:
  "Error_text (WrapError code msg e) = FormatInt code @ '': '' @ msg @ '': '' @ Error_text e"
  by (simp add: WrapError_def newError_def)

end
