(* ===== verification/StoppedRing.thy ===== *)
theory StoppedRing
  imports Core
begin

text \<open>
  The bounded store of finished downloads, \<open>src/internal/engine/stopped_ring.go\<close>: a ring buffer
  of results with a map from GID to slot. It is specified as a list, oldest result first, of at
  most \<open>capacity\<close> results with distinct GIDs; every operation is shown to be the list operation,
  and the slot map to find exactly the results in the list. Options and the parts of a result
  the ring does not look at are type parameters; \<open>config.Merge\<close> is the parameter of
  \<open>mergeOptions\<close>. A nil slot is \<open>None\<close>; dereferencing one panics in Go, and \<open>the None\<close> is
  unspecified here, which the invariant excludes.
\<close>

record ('o, 's) downloadResult =
  dr_gid :: GID
  dr_state :: Status
  dr_errCode :: ErrorCode
  dr_errMsg :: string
  dr_belongsTo :: GID
  dr_following :: GID
  dr_followedBy :: "GID list"
  dr_opts :: "'o option"
  dr_rest :: 's

record ('o, 's) stoppedRing =
  ring_buf :: "('o, 's) downloadResult option list"
  ring_head :: nat
  ring_size :: nat
  ring_index :: "GID \<rightharpoonup> nat"
  evictedTotal :: nat
  evictedErrors :: nat
  evictedLastErr :: ErrorCode

definition newStoppedRing :: "int \<Rightarrow> ('o, 's) stoppedRing" where
  "newStoppedRing capacity =
     (let capacity = (if capacity \<le> 0 then 1000 else capacity)
      in \<lparr>ring_buf = replicate (nat capacity) None, ring_head = 0, ring_size = 0, ring_index = Map.empty,
          evictedTotal = 0, evictedErrors = 0, evictedLastErr = 0\<rparr>)"

text \<open>What happens to the counters when a result is evicted.\<close>

definition count_evicted :: "('o, 's) downloadResult \<Rightarrow> ('o, 's) stoppedRing \<Rightarrow> ('o, 's) stoppedRing" where
  "count_evicted dr r =
     (let r = r\<lparr>ring_index := (ring_index r)(dr_gid dr := None), evictedTotal := evictedTotal r + 1\<rparr>
      in if dr_belongsTo dr = 0 \<and> dr_errCode dr \<noteq> ExitSuccess
         then r\<lparr>evictedErrors := evictedErrors r + 1, evictedLastErr := dr_errCode dr\<rparr> else r)"

definition pushLocked :: "('o, 's) stoppedRing \<Rightarrow> ('o, 's) downloadResult \<Rightarrow> ('o, 's) stoppedRing" where
  "pushLocked r dr =
     (let capacity = length (ring_buf r);
          full = (capacity \<le> ring_size r);
          r = (if full then count_evicted (the (ring_buf r ! ring_head r)) r else r);
          pos = (ring_head r + ring_size r) mod capacity;
          r = r\<lparr>ring_buf := (ring_buf r)[pos := Some dr], ring_index := (ring_index r)(dr_gid dr \<mapsto> pos)\<rparr>
      in if full then r\<lparr>ring_head := (ring_head r + 1) mod capacity\<rparr>
         else r\<lparr>ring_size := ring_size r + 1\<rparr>)"

text \<open>The slot of the \<open>i\<close>-th result and the results from oldest to newest.\<close>

definition slot :: "('o, 's) stoppedRing \<Rightarrow> nat \<Rightarrow> nat" where
  "slot r i = (ring_head r + i) mod length (ring_buf r)"

definition ring_get :: "('o, 's) stoppedRing \<Rightarrow> nat \<Rightarrow> nat \<Rightarrow> ('o, 's) downloadResult list" where
  "ring_get r offset num =
     (if ring_size r \<le> offset then []
      else let end = offset + num;
               end = (if ring_size r < end then ring_size r else end)
           in map (\<lambda>i. the (ring_buf r ! slot r (offset + i))) [0..<end - offset])"

definition getByGID :: "('o, 's) stoppedRing \<Rightarrow> GID \<Rightarrow> ('o, 's) downloadResult option" where
  "getByGID r gid =
     (case ring_index r gid of None \<Rightarrow> None | Some pos \<Rightarrow> Some (the (ring_buf r ! pos)))"

definition optionsByGID :: "'o \<Rightarrow> ('o, 's) stoppedRing \<Rightarrow> GID \<Rightarrow> 'o option" where
  "optionsByGID empty_options r gid =
     (case ring_index r gid of None \<Rightarrow> None | Some pos \<Rightarrow>
        (case dr_opts (the (ring_buf r ! pos)) of None \<Rightarrow> Some empty_options | Some opts \<Rightarrow> Some opts))"

definition mergeOptions ::
  "('o option \<Rightarrow> 'o \<Rightarrow> 'o) \<Rightarrow> ('o, 's) stoppedRing \<Rightarrow> GID \<Rightarrow> 'o \<Rightarrow> ('o, 's) stoppedRing \<times> bool" where
  "mergeOptions Merge r gid opts =
     (case ring_index r gid of None \<Rightarrow> (r, False) | Some pos \<Rightarrow>
        let dr = the (ring_buf r ! pos) in
        if dr_state dr = StatusRemoved then (r, False)
        else (r\<lparr>ring_buf := (ring_buf r)[pos := Some (dr\<lparr>dr_opts := Some (Merge (dr_opts dr) opts)\<rparr>)]\<rparr>, True))"

definition clear_slots :: "('o, 's) stoppedRing \<Rightarrow> ('o, 's) stoppedRing" where
  "clear_slots r =
     r\<lparr>ring_buf := fold (\<lambda>i b. b[slot r i := None]) [0..<ring_size r] (ring_buf r),
       ring_head := 0, ring_size := 0, ring_index := Map.empty\<rparr>"

definition removeByGID :: "('o, 's) stoppedRing \<Rightarrow> GID \<Rightarrow> ('o, 's) stoppedRing \<times> bool" where
  "removeByGID r gid =
     (case ring_index r gid of None \<Rightarrow> (r, False) | Some _ \<Rightarrow>
        let kept = filter (\<lambda>dr. dr_gid dr \<noteq> gid) (map (\<lambda>i. the (ring_buf r ! slot r i)) [0..<ring_size r])
        in (fold (\<lambda>dr r. pushLocked r dr) kept (clear_slots r), True))"

definition purge :: "('o, 's) stoppedRing \<Rightarrow> ('o, 's) stoppedRing" where
  "purge r = clear_slots r"

definition evictionInfo :: "('o, 's) stoppedRing \<Rightarrow> nat \<times> nat \<times> ErrorCode" where
  "evictionInfo r = (evictedTotal r, evictedErrors r, evictedLastErr r)"

definition resize :: "('o, 's) stoppedRing \<Rightarrow> int \<Rightarrow> ('o, 's) stoppedRing" where
  "resize r capacity =
     (let capacity = nat (if capacity \<le> 0 then 1000 else capacity) in
      if capacity = length (ring_buf r) then r
      else
        let r = (if capacity < ring_size r then
                   let drop_n = ring_size r - capacity;
                       r' = fold (\<lambda>i r'. count_evicted (the (ring_buf r ! slot r i)) r') [0..<drop_n] r
                   in r'\<lparr>ring_head := (ring_head r + drop_n) mod length (ring_buf r), ring_size := capacity\<rparr>
                 else r);
            live = map (\<lambda>i. ring_buf r ! slot r i) [0..<ring_size r]
        in r\<lparr>ring_buf := live @ replicate (capacity - ring_size r) None,
             ring_index := fold (\<lambda>i m. m(dr_gid (the (live ! i)) \<mapsto> i)) [0..<ring_size r] Map.empty,
             ring_head := 0\<rparr>)"

section \<open>Specification\<close>

text \<open>The buffer holds the list \<open>xs\<close> from slot \<open>h\<close> on, and the index knows exactly its GIDs.\<close>

definition rep :: "'a option list \<Rightarrow> nat \<Rightarrow> 'a list \<Rightarrow> bool" where
  "rep buf h xs \<longleftrightarrow>
     h < length buf \<and> length xs \<le> length buf \<and>
     (\<forall>i<length xs. buf ! ((h + i) mod length buf) = Some (xs ! i))"

definition idx_ok :: "nat \<Rightarrow> nat \<Rightarrow> ('o, 's) downloadResult list \<Rightarrow> (GID \<rightharpoonup> nat) \<Rightarrow> bool" where
  "idx_ok cap h xs idx \<longleftrightarrow>
     (\<forall>g p. idx g = Some p \<longleftrightarrow> (\<exists>i<length xs. p = (h + i) mod cap \<and> dr_gid (xs ! i) = g))"

definition ring_rel :: "('o, 's) stoppedRing \<Rightarrow> ('o, 's) downloadResult list \<Rightarrow> bool" where
  "ring_rel r xs \<longleftrightarrow>
     rep (ring_buf r) (ring_head r) xs \<and> ring_size r = length xs \<and> distinct (map dr_gid xs) \<and>
     idx_ok (length (ring_buf r)) (ring_head r) xs (ring_index r)"

definition spec_push :: "nat \<Rightarrow> 'a list \<Rightarrow> 'a \<Rightarrow> 'a list" where
  "spec_push cap xs d = (if length xs < cap then xs @ [d] else tl xs @ [d])"

lemma rep_nth: "rep buf h xs \<Longrightarrow> i < length xs \<Longrightarrow> buf ! ((h + i) mod length buf) = Some (xs ! i)"
  by (simp add: rep_def)

lemma rep_push:
  assumes "rep buf h xs" and "length xs < length buf"
  shows "rep (buf[(h + length xs) mod length buf := Some d]) h (xs @ [d])"
proof -
  have "(h + length xs) mod length buf \<noteq> (h + i) mod length buf" if "i < length xs" for i
    using mod_add_inj [of h "length xs" "length buf" i] that assms(2) by auto
  moreover have "(h + length xs) mod length buf < length buf" using assms by (intro mod_less_divisor) linarith
  ultimately show ?thesis using assms by (auto simp: rep_def nth_append less_Suc_eq)
qed

lemma mod_head_shift: "0 < n \<Longrightarrow> ((h + 1) mod n + i) mod n = (h + Suc i) mod (n::nat)"
  by (simp add: mod_add_left_eq)

lemma rep_push_full:
  assumes rep: "rep buf h xs" and full: "length xs = length buf"
  shows "rep (buf[h := Some d]) ((h + 1) mod length buf) (tl xs @ [d])"
proof -
  have pos: "0 < length buf" and h: "h < length buf" using rep by (auto simp: rep_def)
  have "buf[h := Some d] ! (((h + 1) mod length buf + i) mod length buf) = Some ((tl xs @ [d]) ! i)"
    if "i < length (tl xs @ [d])" for i
  proof (cases "Suc i < length xs")
    case True
    then have "(h + Suc i) mod length buf \<noteq> (h + 0) mod length buf"
      using mod_add_inj [of h "Suc i" "length buf" 0] full pos by auto
    then have "h \<noteq> (h + Suc i) mod length buf" using h by simp
    moreover have "buf ! ((h + Suc i) mod length buf) = Some (xs ! Suc i)" by (rule rep_nth [OF rep True])
    moreover have "i < length xs - Suc 0" using True by simp
    ultimately show ?thesis using True by (simp only: mod_head_shift [OF pos]) (simp add: nth_append nth_tl)
  next
    case False
    then have i: "Suc i = length buf" using that full pos by (cases xs) auto
    then have "(h + Suc i) mod length buf = h" using h by simp
    moreover have "(tl xs @ [d]) ! i = d" using i full by (simp add: nth_append) linarith
    ultimately show ?thesis using h by (simp only: mod_head_shift [OF pos]) simp
  qed
  then show ?thesis using pos full by (simp add: rep_def)
qed

lemma count_evicted_fields [simp]:
  "ring_buf (count_evicted d r) = ring_buf r" "ring_head (count_evicted d r) = ring_head r"
  "ring_size (count_evicted d r) = ring_size r"
  "ring_index (count_evicted d r) = (ring_index r)(dr_gid d := None)"
  by (simp_all add: count_evicted_def Let_def)

lemma idx_ok_push:
  assumes idx: "idx_ok cap h xs idx" and len: "length xs < cap" and new: "dr_gid d \<notin> dr_gid ` set xs"
  shows "idx_ok cap h (xs @ [d]) (idx(dr_gid d \<mapsto> (h + length xs) mod cap))"
  unfolding idx_ok_def
proof (intro allI)
  fix g p
  show "(idx(dr_gid d \<mapsto> (h + length xs) mod cap)) g = Some p \<longleftrightarrow>
      (\<exists>i<length (xs @ [d]). p = (h + i) mod cap \<and> dr_gid ((xs @ [d]) ! i) = g)"
  proof (cases "g = dr_gid d")
    case True
    then have "dr_gid (xs ! i) \<noteq> g" if "i < length xs" for i using new that by (metis image_eqI nth_mem)
    then show ?thesis using True by (auto simp: nth_append less_Suc_eq)
  next
    case False
    then show ?thesis using idx by (auto simp: idx_ok_def nth_append less_Suc_eq)
  qed
qed

lemma idx_ok_tl:
  assumes idx: "idx_ok cap h xs idx" and ne: "xs \<noteq> []" and cap: "0 < cap"
    and dist: "distinct (map dr_gid xs)"
  shows "idx_ok cap ((h + 1) mod cap) (tl xs) (idx(dr_gid (hd xs) := None))"
  unfolding idx_ok_def
proof (intro allI)
  fix g p
  obtain x ys where xs: "xs = x # ys" using ne by (cases xs) auto
  have "idx g = Some p \<longleftrightarrow> (p = h mod cap \<and> dr_gid x = g) \<or>
      (\<exists>i<length ys. p = (h + Suc i) mod cap \<and> dr_gid (ys ! i) = g)"
    using idx unfolding idx_ok_def xs by (simp add: Ex_less_Suc2)
  moreover have "dr_gid (ys ! i) \<noteq> dr_gid x" if "i < length ys" for i
    using dist that unfolding xs by (metis distinct.simps(2) image_eqI list.set_map list.simps(9) nth_mem)
  ultimately show "(idx(dr_gid (hd xs) := None)) g = Some p \<longleftrightarrow>
      (\<exists>i<length (tl xs). p = ((h + 1) mod cap + i) mod cap \<and> dr_gid (tl xs ! i) = g)"
    unfolding mod_head_shift [OF cap] xs by auto
qed

lemma ring_push:
  assumes rel: "ring_rel r xs" and new: "dr_gid d \<notin> dr_gid ` set xs"
  shows "ring_rel (pushLocked r d) (spec_push (length (ring_buf r)) xs d)"
    and "length (ring_buf (pushLocked r d)) = length (ring_buf r)"
proof -
  have rep: "rep (ring_buf r) (ring_head r) xs" and sz: "ring_size r = length xs"
    and dist: "distinct (map dr_gid xs)"
    and idx: "idx_ok (length (ring_buf r)) (ring_head r) xs (ring_index r)"
    using rel by (auto simp: ring_rel_def)
  let ?cap = "length (ring_buf r)" and ?h = "ring_head r"
  have h: "?h < ?cap" "length xs \<le> ?cap" using rep by (auto simp: rep_def)
  show "length (ring_buf (pushLocked r d)) = ?cap" by (simp add: pushLocked_def Let_def)
  show "ring_rel (pushLocked r d) (spec_push ?cap xs d)"
  proof (cases "length xs < ?cap")
    case True
    then show ?thesis
      using rep_push [OF rep True] idx_ok_push [OF idx True new] dist new
      by (simp add: ring_rel_def pushLocked_def spec_push_def Let_def sz)
  next
    case False
    then have full: "length xs = ?cap" and ne: "xs \<noteq> []" using h by auto
    have hd: "the (ring_buf r ! ?h) = hd xs"
      using rep_nth [OF rep, of 0] ne h by (simp add: hd_conv_nth)
    have new': "dr_gid d \<notin> dr_gid ` set (tl xs)" using new list.set_sel(2) [OF ne] by blast
    have dist': "distinct (map dr_gid (tl xs))" using dist by (simp add: map_tl distinct_tl)
    have pos: "((?h + 1) mod ?cap + length (tl xs)) mod ?cap = ?h"
    proof -
      have "Suc (length (tl xs)) = ?cap" using full ne by (cases xs) auto
      then have "((?h + 1) mod ?cap + length (tl xs)) mod ?cap = (?h + ?cap) mod ?cap"
        using mod_head_shift [of ?cap ?h "length (tl xs)"] h by (simp only:)
      then show ?thesis using h by simp
    qed
    have "length (tl xs) < ?cap" and cap: "0 < ?cap" using full h by (simp, linarith)
    then have "idx_ok ?cap ((?h + 1) mod ?cap) (tl xs @ [d]) ((ring_index r)(dr_gid (hd xs) := None, dr_gid d \<mapsto> ?h))"
      using idx_ok_push [OF idx_ok_tl [OF idx ne cap dist] _ new'] pos by simp
    moreover have "(?h + length xs) mod ?cap = ?h" using full h by simp
    ultimately show ?thesis
      using rep_push_full [OF rep full, of d] dist' new' full False hd ne Suc_pred [OF cap]
      by (simp add: ring_rel_def pushLocked_def spec_push_def Let_def sz)
  qed
qed

section \<open>The operations refine list operations\<close>

lemma ring_rel_list: "ring_rel r xs \<Longrightarrow> map (\<lambda>i. the (ring_buf r ! slot r i)) [0..<ring_size r] = xs"
  by (rule nth_equalityI) (auto simp: ring_rel_def slot_def dest: rep_nth)

lemma new_ring: "ring_rel (newStoppedRing c) []"
  "length (ring_buf (newStoppedRing c)) = nat (if c \<le> 0 then 1000 else c)"
  by (auto simp: newStoppedRing_def ring_rel_def rep_def idx_ok_def Let_def)

lemma length_clear: "length (fold (\<lambda>i b. b[f i := None]) is b) = length b"
  by (induction "is" arbitrary: b) simp_all

lemma clear_slots_rel:
  assumes "ring_rel r xs"
  shows "ring_rel (clear_slots r) []" and "length (ring_buf (clear_slots r)) = length (ring_buf r)"
  using assms by (auto simp: clear_slots_def ring_rel_def rep_def idx_ok_def length_clear)

lemma push_many:
  assumes "ring_rel r xs" and "distinct (map dr_gid (xs @ ys))" and "length (xs @ ys) \<le> length (ring_buf r)"
  shows "ring_rel (fold (\<lambda>dr r. pushLocked r dr) ys r) (xs @ ys) \<and>
    length (ring_buf (fold (\<lambda>dr r. pushLocked r dr) ys r)) = length (ring_buf r)"
  using assms
proof (induction ys arbitrary: r xs)
  case (Cons y ys)
  have new: "dr_gid y \<notin> dr_gid ` set xs" using Cons(3) by auto
  have "ring_rel (pushLocked r y) (xs @ [y])" "length (ring_buf (pushLocked r y)) = length (ring_buf r)"
    using ring_push [OF Cons(2) new] Cons(4) by (auto simp: spec_push_def)
  then show ?case using Cons(1) [of "pushLocked r y" "xs @ [y]"] Cons(3,4) by simp
qed simp

lemma ring_index_iff:
  assumes "ring_rel r xs"
  shows "ring_index r g = None \<longleftrightarrow> g \<notin> dr_gid ` set xs"
proof -
  have "ring_index r g = None \<longleftrightarrow> (\<forall>p. ring_index r g \<noteq> Some p)" by auto
  also have "\<dots> \<longleftrightarrow> (\<forall>i<length xs. dr_gid (xs ! i) \<noteq> g)"
    using assms by (auto simp: ring_rel_def idx_ok_def)
  also have "\<dots> \<longleftrightarrow> g \<notin> dr_gid ` set xs"
    unfolding image_iff by (metis in_set_conv_nth)
  finally show ?thesis .
qed

lemma ring_remove:
  assumes rel: "ring_rel r xs"
  shows "ring_rel (fst (removeByGID r g)) (filter (\<lambda>d. dr_gid d \<noteq> g) xs)"
    and "snd (removeByGID r g) \<longleftrightarrow> g \<in> dr_gid ` set xs"
    and "length (ring_buf (fst (removeByGID r g))) = length (ring_buf r)"
proof -
  let ?ys = "filter (\<lambda>d. dr_gid d \<noteq> g) xs"
  have dist: "distinct (map dr_gid xs)" and len: "length xs \<le> length (ring_buf r)"
    using rel by (auto simp: ring_rel_def rep_def)
  show "snd (removeByGID r g) \<longleftrightarrow> g \<in> dr_gid ` set xs"
    using ring_index_iff [OF rel, of g] by (auto simp: removeByGID_def Let_def split: option.splits)
  have "ring_rel (fst (removeByGID r g)) ?ys \<and>
      length (ring_buf (fst (removeByGID r g))) = length (ring_buf r)"
  proof (cases "ring_index r g")
    case None
    then have "?ys = xs" using ring_index_iff [OF rel, of g] by (auto intro!: filter_True)
    then show ?thesis using rel None by (simp add: removeByGID_def)
  next
    case (Some p)
    have "distinct (map dr_gid ?ys)" using dist by (rule distinct_map_filter)
    moreover have "length ?ys \<le> length (ring_buf r)" using len length_filter_le [of _ xs] order_trans by blast
    ultimately show ?thesis
      using push_many [OF clear_slots_rel(1) [OF rel], of ?ys] clear_slots_rel(2) [OF rel] Some
      by (simp add: removeByGID_def Let_def ring_rel_list [OF rel])
  qed
  then show "ring_rel (fst (removeByGID r g)) ?ys"
    "length (ring_buf (fst (removeByGID r g))) = length (ring_buf r)" by auto
qed

lemma ring_getByGID:
  assumes rel: "ring_rel r xs"
  shows "getByGID r g = find (\<lambda>d. dr_gid d = g) xs"
proof (cases "ring_index r g")
  case None
  then have "find (\<lambda>d. dr_gid d = g) xs = None"
    using ring_index_iff [OF rel, of g] by (auto simp: find_None_iff)
  then show ?thesis using None by (simp add: getByGID_def)
next
  case (Some p)
  then obtain i where i: "i < length xs" "p = (ring_head r + i) mod length (ring_buf r)" "dr_gid (xs ! i) = g"
    using rel by (auto simp: ring_rel_def idx_ok_def)
  have "the (ring_buf r ! p) = xs ! i" using rel i rep_nth by (fastforce simp: ring_rel_def)
  moreover have "find (\<lambda>d. dr_gid d = g) xs = Some (xs ! i)"
    unfolding find_Some_iff
  proof (intro exI [of _ i] conjI allI impI)
    fix j assume "j < i"
    then have "j < length xs" "j \<noteq> i" using i by auto
    then have "dr_gid (xs ! j) \<noteq> dr_gid (xs ! i)"
      using rel i unfolding ring_rel_def distinct_conv_nth length_map by (metis nth_map)
    then show "dr_gid (xs ! j) \<noteq> g" using i by simp
  qed (use i in auto)
  ultimately show ?thesis using Some by (simp add: getByGID_def)
qed

lemma ring_get_list:
  assumes rel: "ring_rel r xs"
  shows "ring_get r off n = take n (drop off xs)"
proof (rule nth_equalityI)
  have sz: "ring_size r = length xs" using rel by (simp add: ring_rel_def)
  show "length (ring_get r off n) = length (take n (drop off xs))"
    by (auto simp: ring_get_def sz Let_def)
  fix i assume i: "i < length (ring_get r off n)"
  then have "off + i < length xs" "i < n" by (auto simp: ring_get_def sz Let_def split: if_splits)
  then show "ring_get r off n ! i = take n (drop off xs) ! i"
    using i rel rep_nth [of "ring_buf r" "ring_head r" xs "off + i"]
    by (auto simp: ring_get_def sz Let_def slot_def ring_rel_def split: if_splits)
qed

lemma fold_count_evicted:
  "ring_buf (fold (\<lambda>i r'. count_evicted (f i) r') is r) = ring_buf r"
  "ring_head (fold (\<lambda>i r'. count_evicted (f i) r') is r) = ring_head r"
  "ring_size (fold (\<lambda>i r'. count_evicted (f i) r') is r) = ring_size r"
  by (induction "is" arbitrary: r) simp_all

lemma fold_index:
  assumes "distinct (map dr_gid ys)" and "length ys \<le> cap"
  shows "idx_ok cap 0 ys (fold (\<lambda>i m. m(dr_gid (ys ! i) \<mapsto> i)) [0..<length ys] Map.empty)"
proof -
  have "(fold (\<lambda>i m. m(dr_gid (ys ! i) \<mapsto> i)) [0..<k] Map.empty) g = Some p \<longleftrightarrow>
      p < k \<and> dr_gid (ys ! p) = g" if "k \<le> length ys" for k g p
    using that
  proof (induction k)
    case (Suc k)
    have "dr_gid (ys ! p) \<noteq> dr_gid (ys ! k)" if "p < k"
      using assms(1) Suc(2) that unfolding distinct_conv_nth length_map by (metis Suc_le_lessD nth_map less_trans nat_neq_iff)
    then show ?case using Suc by (auto simp: less_Suc_eq)
  qed simp
  then show ?thesis using assms(2) unfolding idx_ok_def by (auto simp: mod_less)
qed

lemma ring_resize:
  assumes rel: "ring_rel r xs"
  shows "ring_rel (resize r c) (drop (length xs - nat (if c \<le> 0 then 1000 else c)) xs)"
    and "length (ring_buf (resize r c)) = nat (if c \<le> 0 then 1000 else c)"
proof -
  define cap where "cap = nat (if c \<le> 0 then 1000 else c)"
  have cap: "0 < cap" by (auto simp: cap_def)
  have rep: "rep (ring_buf r) (ring_head r) xs" and sz: "ring_size r = length xs"
    and dist: "distinct (map dr_gid xs)" using rel by (auto simp: ring_rel_def)
  let ?n = "length (ring_buf r)" and ?ys = "drop (length xs - cap) xs"
  have n: "ring_head r < ?n" "length xs \<le> ?n" using rep by (auto simp: rep_def)
  have "ring_rel (resize r c) ?ys \<and> length (ring_buf (resize r c)) = cap"
  proof (cases "cap = ?n")
    case True
    then have "resize r c = r" by (simp add: resize_def cap_def [symmetric] Let_def)
    moreover have "?ys = xs" using True n by simp
    ultimately show ?thesis using rel True by simp
  next
    case False
    define h where "h = (if cap < length xs then (ring_head r + (length xs - cap)) mod ?n else ring_head r)"
    define k where "k = min cap (length xs)"
    have k: "length ?ys = k" "k \<le> cap" by (auto simp: k_def)
    define live where "live = map (\<lambda>i. ring_buf r ! ((h + i) mod ?n)) [0..<k]"
    have "(h + i) mod ?n = (ring_head r + (length xs - cap + i)) mod ?n" for i
      by (auto simp: h_def mod_add_left_eq add.assoc)
    then have live: "live = map Some ?ys"
      using rep_nth [OF rep] k by (intro nth_equalityI) (auto simp: live_def nth_drop k_def)
    have eq: "ring_buf (resize r c) = live @ replicate (cap - k) None" "ring_head (resize r c) = 0"
      "ring_size (resize r c) = k"
      "ring_index (resize r c) = fold (\<lambda>i m. m(dr_gid (the (live ! i)) \<mapsto> i)) [0..<k] Map.empty"
      using False
      by (auto simp: resize_def cap_def [symmetric] Let_def sz fold_count_evicted slot_def live_def h_def k_def min_def)
    have "fold (\<lambda>i m. m(dr_gid (the (live ! i)) \<mapsto> i)) [0..<k] Map.empty =
        fold (\<lambda>i m. m(dr_gid (?ys ! i) \<mapsto> i)) [0..<k] Map.empty"
      unfolding live by (rule fold_cong) (auto simp: k(1) [symmetric])
    moreover have "distinct (map dr_gid ?ys)" using dist by (simp add: drop_map [symmetric] distinct_drop)
    ultimately have "idx_ok cap 0 ?ys (ring_index (resize r c))"
      using fold_index [of ?ys cap] k unfolding eq by simp
    moreover have "rep (live @ replicate (cap - k) None) 0 ?ys"
      using k cap unfolding live rep_def by (auto simp: nth_append)
    moreover have "length (live @ replicate (cap - k) None) = cap" using k unfolding live by simp
    ultimately show ?thesis
      using \<open>distinct (map dr_gid ?ys)\<close> k unfolding ring_rel_def eq by simp
  qed
  then show "ring_rel (resize r c) (drop (length xs - nat (if c \<le> 0 then 1000 else c)) xs)"
    and "length (ring_buf (resize r c)) = nat (if c \<le> 0 then 1000 else c)"
    unfolding cap_def by auto
qed

datatype ('o, 's) ring_op = Push "('o, 's) downloadResult" | RemoveGID GID | Purge | Resize int

fun ring_exec :: "('o, 's) ring_op \<Rightarrow> ('o, 's) stoppedRing \<Rightarrow> ('o, 's) stoppedRing" where
  "ring_exec (Push d) r = pushLocked r d"
| "ring_exec (RemoveGID g) r = fst (removeByGID r g)"
| "ring_exec Purge r = purge r"
| "ring_exec (Resize c) r = resize r c"

text \<open>The specification state is the capacity and the list of results.\<close>

definition ring_capacity :: "int \<Rightarrow> nat" where
  "ring_capacity c = nat (if c \<le> 0 then 1000 else c)"

fun list_exec :: "('o, 's) ring_op \<Rightarrow> nat \<times> ('o, 's) downloadResult list \<Rightarrow>
    nat \<times> ('o, 's) downloadResult list" where
  "list_exec (Push d) (cap, xs) = (cap, spec_push cap xs d)"
| "list_exec (RemoveGID g) (cap, xs) = (cap, filter (\<lambda>d. dr_gid d \<noteq> g) xs)"
| "list_exec Purge (cap, xs) = (cap, [])"
| "list_exec (Resize c) (cap, xs) = (ring_capacity c, drop (length xs - ring_capacity c) xs)"

fun fresh_pushes :: "nat \<times> ('o, 's) downloadResult list \<Rightarrow> ('o, 's) ring_op list \<Rightarrow> bool" where
  "fresh_pushes s [] \<longleftrightarrow> True"
| "fresh_pushes s (op # ops) \<longleftrightarrow>
     (case op of Push d \<Rightarrow> dr_gid d \<notin> dr_gid ` set (snd s) | _ \<Rightarrow> True) \<and> fresh_pushes (list_exec op s) ops"

lemma new_capacity: "length (ring_buf (newStoppedRing c)) = ring_capacity c"
  unfolding ring_capacity_def by (rule new_ring(2))

lemma ring_exec_rel:
  assumes "ring_rel r xs" and "fresh_pushes (length (ring_buf r), xs) [op]"
  shows "ring_rel (ring_exec op r) (snd (list_exec op (length (ring_buf r), xs))) \<and>
    length (ring_buf (ring_exec op r)) = fst (list_exec op (length (ring_buf r), xs))"
  using assms(2) ring_push [OF assms(1)] ring_remove [OF assms(1)] clear_slots_rel [OF assms(1)]
    ring_resize [OF assms(1)]
  by (cases op) (simp_all add: purge_def ring_capacity_def)

lemma ring_run_rel:
  "ring_rel r xs \<Longrightarrow> fresh_pushes (length (ring_buf r), xs) ops \<Longrightarrow>
   ring_rel (fold ring_exec ops r) (snd (fold list_exec ops (length (ring_buf r), xs)))"
proof (induction ops arbitrary: r xs)
  case (Cons op ops)
  let ?s = "list_exec op (length (ring_buf r), xs)"
  have "ring_rel (ring_exec op r) (snd ?s)" "length (ring_buf (ring_exec op r)) = fst ?s"
    using ring_exec_rel [OF Cons(2), of op] Cons(3) by auto
  then show ?case using Cons(1) [of "ring_exec op r" "snd ?s"] Cons(3) by simp
qed simp

text \<open>(C14) The ring buffer of finished downloads behaves as a bounded list, oldest first: after any
  sequence of pushes of new downloads, removals, purges and resizes, a page of results is the
  corresponding slice of the list, and a lookup by GID finds a result exactly when it is in
  the list.\<close>

theorem stopped_ring_refines_list:
  assumes "fresh_pushes (ring_capacity c, []) ops"
  shows "let r = fold ring_exec ops (newStoppedRing c);
             xs = snd (fold list_exec ops (ring_capacity c, []))
    in (\<forall>off n. ring_get r off n = take n (drop off xs)) \<and>
       (\<forall>g. getByGID r g = find (\<lambda>d. dr_gid d = g) xs) \<and> distinct (map dr_gid xs)"
proof -
  let ?r = "fold ring_exec ops (newStoppedRing c)" and ?xs = "snd (fold list_exec ops (ring_capacity c, []))"
  have rel: "ring_rel ?r ?xs"
    using ring_run_rel [OF new_ring(1), of c ops] assms by (simp add: new_capacity)
  then have "distinct (map dr_gid ?xs)" by (simp add: ring_rel_def)
  then show ?thesis unfolding Let_def using ring_get_list [OF rel] ring_getByGID [OF rel] by blast
qed

definition sample_result :: "GID \<Rightarrow> (unit, unit) downloadResult" where
  "sample_result g = \<lparr>dr_gid = g, dr_state = StatusComplete, dr_errCode = 0, dr_errMsg = [],
     dr_belongsTo = 0, dr_following = 0, dr_followedBy = [], dr_opts = None, dr_rest = ()\<rparr>"

theorem stopped_ring_refines_list_witness:
  "ring_get (fold ring_exec [Push (sample_result 1), Push (sample_result 2), Push (sample_result 3)]
      (newStoppedRing 2)) 0 10 = [sample_result 2, sample_result 3]"
proof -
  have "fresh_pushes (ring_capacity 2, []) [Push (sample_result 1), Push (sample_result 2), Push (sample_result 3)]"
    by (simp add: ring_capacity_def spec_push_def sample_result_def)
  from stopped_ring_refines_list [OF this] show ?thesis
    by (simp add: Let_def ring_capacity_def spec_push_def)
qed

end
