(* ===== verification/GidShards.thy ===== *)
theory GidShards
  imports Core
begin

text \<open>
  The sharded map from GID to download, \<open>gidShardMap\<close> in \<open>src/internal/engine/engine.go\<close>. The array
  of 64 shards is a function of the shard number; the mutex of a shard only serialises the
  operations on it. What the engine relies on is the locale \<open>gid_map\<close>: a map with lookup,
  update and deletion.
\<close>

definition numGIDShards :: nat where
  "numGIDShards = 64"

record 'a gidShardMap =
  shards :: "nat \<Rightarrow> (GID \<rightharpoonup> 'a)"

definition newGIDShardMap :: "'a gidShardMap" where
  "newGIDShardMap = \<lparr>shards = (\<lambda>i. Map.empty)\<rparr>"

definition shard :: "GID \<Rightarrow> nat" where
  "shard gid = unat (and gid (word_of_nat (numGIDShards - 1)))"

definition gids_get :: "'a gidShardMap \<Rightarrow> GID \<Rightarrow> 'a option" where
  "gids_get m gid = shards m (shard gid) gid"

definition gids_set :: "'a gidShardMap \<Rightarrow> GID \<Rightarrow> 'a \<Rightarrow> 'a gidShardMap" where
  "gids_set m gid rg = m\<lparr>shards := (shards m)(shard gid := (shards m (shard gid))(gid \<mapsto> rg))\<rparr>"

definition gids_delete :: "'a gidShardMap \<Rightarrow> GID \<Rightarrow> 'a gidShardMap" where
  "gids_delete m gid = m\<lparr>shards := (shards m)(shard gid := (shards m (shard gid))(gid := None))\<rparr>"

text \<open>The index stays inside the array.\<close>

lemma shard_less: "shard gid < numGIDShards"
proof -
  have "and gid 63 \<le> (63 :: GID)" by (rule word_and_le1)
  then have "unat (and gid 63) \<le> unat (63 :: GID)" by (simp only: word_le_nat_alt)
  then show ?thesis by (simp add: shard_def numGIDShards_def)
qed

locale gid_map =
  fixes new :: 'm
    and get :: "'m \<Rightarrow> GID \<Rightarrow> 'a option"
    and put :: "'m \<Rightarrow> GID \<Rightarrow> 'a \<Rightarrow> 'm"
    and del :: "'m \<Rightarrow> GID \<Rightarrow> 'm"
  assumes get_new: "get new g = None"
    and get_put: "get (put m g v) g' = (if g' = g then Some v else get m g')"
    and get_del: "get (del m g) g' = (if g' = g then None else get m g')"
begin

text \<open>The GIDs in use, and how the updates change them.\<close>

definition used :: "'m \<Rightarrow> GID set" where
  "used m = {g. get m g \<noteq> None}"

lemma used_new [simp]: "used new = {}"
  by (simp add: used_def get_new)

lemma used_put [simp]: "used (put m g v) = insert g (used m)"
  by (auto simp: used_def get_put)

lemma used_del [simp]: "used (del m g) = used m - {g}"
  by (auto simp: used_def get_del)

end

interpretation gidmap: gid_map newGIDShardMap gids_get gids_set gids_delete
  by unfold_locales (auto simp: gids_get_def gids_set_def gids_delete_def newGIDShardMap_def)

lemmas gid_laws [simp] = gidmap.get_new gidmap.get_put gidmap.get_del

end
