(* ===== verification/Strings.thy ===== *)
theory Strings
  imports Strconv
begin

text \<open>
  What the program uses of Go's packages \<open>strings\<close>, \<open>bytes\<close> and \<open>unicode/utf8\<close>. A Go string is
  a sequence of bytes, here a list of characters below 256.
\<close>

section \<open>UTF-8 (package unicode/utf8)\<close>

definition byte_in :: "nat \<Rightarrow> nat \<Rightarrow> char \<Rightarrow> bool" where
  "byte_in lo hi c \<longleftrightarrow> lo \<le> of_char c \<and> of_char c \<le> hi"

text \<open>The bytes that may follow the first byte of a sequence.\<close>

definition utf8_tail :: "char \<Rightarrow> (char \<Rightarrow> bool) list option" where
  "utf8_tail c =
     (let b = (of_char c :: nat); cont = byte_in 128 191 in
      if b < 128 then Some []
      else if b < 194 then None
      else if b \<le> 223 then Some [cont]
      else if b = 224 then Some [byte_in 160 191, cont]
      else if b = 237 then Some [byte_in 128 159, cont]
      else if b \<le> 239 then Some [cont, cont]
      else if b = 240 then Some [byte_in 144 191, cont, cont]
      else if b \<le> 243 then Some [cont, cont, cont]
      else if b = 244 then Some [byte_in 128 143, cont, cont]
      else None)"

text \<open>The size of the rune that \<open>DecodeRuneInString\<close> finds at the start of a string, \<open>None\<close> where it
  returns \<open>RuneError\<close> with size one. A correctly encoded U+FFFD is a rune of size three.\<close>

definition rune_size :: "string \<Rightarrow> nat option" where
  "rune_size s =
     (case s of
        [] \<Rightarrow> None
      | c # cs \<Rightarrow>
          (case utf8_tail c of
             None \<Rightarrow> None
           | Some ps \<Rightarrow>
               if length ps \<le> length cs \<and> list_all2 (\<lambda>p c. p c) ps (take (length ps) cs)
               then Some (Suc (length ps)) else None))"

lemma rune_size_bounds: "rune_size s = Some n \<Longrightarrow> 0 < n \<and> n \<le> length s"
  by (auto simp: rune_size_def split: list.splits option.splits if_splits)

function ValidString :: "string \<Rightarrow> bool" where
  "ValidString s =
     (if s = [] then True
      else case rune_size s of None \<Rightarrow> False | Some n \<Rightarrow> ValidString (drop n s))"
  by pat_completeness auto
termination by (relation "measure length") (auto dest: rune_size_bounds)

declare ValidString.simps [simp del]

section \<open>Searching and cutting (packages strings and bytes)\<close>

definition HasPrefix :: "string \<Rightarrow> string \<Rightarrow> bool" where
  "HasPrefix s p \<longleftrightarrow> take (length p) s = p"

definition HasSuffix :: "string \<Rightarrow> string \<Rightarrow> bool" where
  "HasSuffix s p \<longleftrightarrow> HasPrefix (rev s) (rev p)"

definition Contains :: "string \<Rightarrow> string \<Rightarrow> bool" where
  "Contains s p \<longleftrightarrow> list_ex (\<lambda>i. HasPrefix (drop i s) p) [0..<Suc (length s)]"

definition IndexByte :: "string \<Rightarrow> char \<Rightarrow> nat option" where
  "IndexByte s c = find_index (\<lambda>x. x = c) s"

text \<open>\<open>Cut\<close> at a single byte: the text before it, the text after it, and whether it was found.\<close>

definition Cut :: "char \<Rightarrow> string \<Rightarrow> string \<times> string \<times> bool" where
  "Cut sep s =
     (case IndexByte s sep of
        None \<Rightarrow> (s, [], False)
      | Some i \<Rightarrow> (take i s, drop (Suc i) s, True))"

fun Split :: "char \<Rightarrow> string \<Rightarrow> string list" where
  "Split sep [] = [[]]"
| "Split sep (c # cs) =
     (if c = sep then [] # Split sep cs
      else case Split sep cs of
             [] \<Rightarrow> [[c]]
           | s # ss \<Rightarrow> (c # s) # ss)"

fun Join :: "char \<Rightarrow> string list \<Rightarrow> string" where
  "Join sep [] = []"
| "Join sep [s] = s"
| "Join sep (s # t # ss) = s @ sep # Join sep (t # ss)"

section \<open>White space\<close>

text \<open>The encodings of the characters \<open>unicode.IsSpace\<close> accepts: the ASCII white space, U+0085,
  U+00A0, U+1680, U+2000 to U+200A, U+2028, U+2029, U+202F, U+205F and U+3000.\<close>

definition space_codes :: "string list" where
  "space_codes =
     [[CHR 0x09], [CHR 0x0A], [CHR 0x0B], [CHR 0x0C], [CHR 0x0D], [CHR 0x20], [CHR 0xC2, CHR 0x85],
      [CHR 0xC2, CHR 0xA0], [CHR 0xE1, CHR 0x9A, CHR 0x80], [CHR 0xE2, CHR 0x80, CHR 0x80],
      [CHR 0xE2, CHR 0x80, CHR 0x81], [CHR 0xE2, CHR 0x80, CHR 0x82], [CHR 0xE2, CHR 0x80, CHR 0x83],
      [CHR 0xE2, CHR 0x80, CHR 0x84], [CHR 0xE2, CHR 0x80, CHR 0x85], [CHR 0xE2, CHR 0x80, CHR 0x86],
      [CHR 0xE2, CHR 0x80, CHR 0x87], [CHR 0xE2, CHR 0x80, CHR 0x88], [CHR 0xE2, CHR 0x80, CHR 0x89],
      [CHR 0xE2, CHR 0x80, CHR 0x8A], [CHR 0xE2, CHR 0x80, CHR 0xA8], [CHR 0xE2, CHR 0x80, CHR 0xA9],
      [CHR 0xE2, CHR 0x80, CHR 0xAF], [CHR 0xE2, CHR 0x81, CHR 0x9F], [CHR 0xE3, CHR 0x80, CHR 0x80]]"

function strip_codes :: "string list \<Rightarrow> string \<Rightarrow> string" where
  "strip_codes codes s =
     (case find (\<lambda>c. c \<noteq> [] \<and> HasPrefix s c) codes of
        None \<Rightarrow> s
      | Some c \<Rightarrow> strip_codes codes (drop (length c) s))"
  by pat_completeness auto
termination
proof (relation "measure (\<lambda>(codes, s). length s)", goal_cases)
  case (2 codes s c)
  then have "c \<noteq> []" "HasPrefix s c" by (auto simp: find_Some_iff)
  then show ?case by (cases s) (auto simp: HasPrefix_def)
qed simp

declare strip_codes.simps [simp del]

text \<open>\<open>TrimSpace\<close> drops encoded white space from the front and then from the back. At the back
  \<open>DecodeLastRune\<close> finds a rune exactly where its encoding is a suffix.\<close>

definition TrimSpace :: "string \<Rightarrow> string" where
  "TrimSpace s = rev (strip_codes (map rev space_codes) (rev (strip_codes space_codes s)))"

section \<open>Lemmas\<close>

lemma TrimSpace_Nil [simp]: "TrimSpace [] = []"
proof -
  have "find (\<lambda>c. c \<noteq> [] \<and> HasPrefix [] c) codes = None" for codes by (auto simp: find_None_iff HasPrefix_def)
  then have "strip_codes codes [] = []" for codes by (subst strip_codes.simps) simp
  then show ?thesis by (simp add: TrimSpace_def)
qed

lemma HasPrefix_append [simp]: "HasPrefix (p @ s) p"
  by (simp add: HasPrefix_def)

lemma IndexByte_Some: "IndexByte s c = Some i \<Longrightarrow> i < length s \<and> s ! i = c \<and> c \<notin> set (take i s)"
  unfolding IndexByte_def
proof (induction s arbitrary: i)
  case (Cons x xs)
  then show ?case by (cases i) (auto split: if_splits option.splits)
qed simp

lemma IndexByte_append: "IndexByte s c = Some i \<Longrightarrow> IndexByte (s @ t) c = Some i"
  unfolding IndexByte_def by (induction s arbitrary: i) (auto split: if_splits)

lemma IndexByte_skip: "c \<notin> set s \<Longrightarrow> IndexByte (s @ c # t) c = Some (length s)"
  unfolding IndexByte_def by (induction s) auto

lemma Cut_found: "sep \<notin> set a \<Longrightarrow> Cut sep (a @ sep # b) = (a, b, True)"
  by (simp add: Cut_def IndexByte_skip)

lemma Split_nonempty [simp]: "Split sep s \<noteq> []"
  by (induction s) (auto split: list.splits)

lemma Split_no_sep: "w \<in> set (Split sep s) \<Longrightarrow> sep \<notin> set w"
  by (induction s arbitrary: w) (auto split: if_splits list.splits)

lemma Join_Split: "Join sep (Split sep s) = s"
proof (induction s)
  case (Cons c cs)
  then show ?case by (cases "Split sep cs"; cases "tl (Split sep cs)") (auto split: list.splits)
qed simp

section \<open>Bytes as text\<close>

definition bytes_text :: "byte list \<Rightarrow> string" where
  "bytes_text bs = map (\<lambda>b. char_of (unat b)) bs"

definition text_bytes :: "string \<Rightarrow> byte list" where
  "text_bytes s = map (\<lambda>c. of_nat (of_char c)) s"

lemma text_bytes_text [simp]: "text_bytes (bytes_text bs) = bs"
  by (simp add: text_bytes_def bytes_text_def o_def map_idI)

lemma bytes_text_bytes [simp]: "bytes_text (text_bytes s) = s"
proof -
  have "char_of (unat (of_nat (of_char c) :: byte)) = c" for c
    by (simp add: unat_of_nat)
  then show ?thesis by (simp add: text_bytes_def bytes_text_def o_def map_idI)
qed

lemma length_bytes_text [simp]: "length (bytes_text bs) = length bs" "length (text_bytes s) = length s"
  by (simp_all add: bytes_text_def text_bytes_def)

lemma bytes_text_append [simp]: "bytes_text (xs @ ys) = bytes_text xs @ bytes_text ys"
  by (simp add: bytes_text_def)

lemma text_bytes_append [simp]: "text_bytes (xs @ ys) = text_bytes xs @ text_bytes ys"
  by (simp add: text_bytes_def)

lemma bytes_text_drop: "bytes_text (drop n bs) = drop n (bytes_text bs)" "bytes_text (take n bs) = take n (bytes_text bs)"
  by (simp_all add: bytes_text_def drop_map take_map)

end
