(* ===== verification/Checksum.thy ===== *)
theory Checksum
  imports Core Strings
begin

text \<open>
  Names and sizes of the hash algorithms and the \<open>--checksum\<close> option,
  \<open>src/internal/hash/hash.go\<close> and \<open>file.go\<close>. The digests themselves are the standard library's.
\<close>

datatype HashKind = MD5 | SHA1 | SHA224 | SHA256 | SHA384 | SHA512

definition allKinds :: "HashKind list" where
  "allKinds = [MD5, SHA1, SHA224, SHA256, SHA384, SHA512]"

definition sizeTab :: "nat list" where
  "sizeTab = [16, 20, 28, 32, 48, 64]"

definition kindIndex :: "(string \<times> nat) list" where
  "kindIndex = [(''md5'', 0), (''sha1'', 1), (''sha224'', 2), (''sha256'', 3), (''sha384'', 4), (''sha512'', 5)]"

fun kindIdx :: "HashKind \<Rightarrow> nat" where
  "kindIdx MD5 = 0"
| "kindIdx SHA1 = 1"
| "kindIdx SHA224 = 2"
| "kindIdx SHA256 = 3"
| "kindIdx SHA384 = 4"
| "kindIdx SHA512 = 5"

definition Kind_Size :: "HashKind \<Rightarrow> nat" where
  "Kind_Size k = sizeTab ! kindIdx k"

definition to_lower :: "char \<Rightarrow> char" where
  "to_lower c = (if CHR ''A'' \<le> c \<and> c \<le> CHR ''Z'' then char_of ((of_char c :: nat) + 32) else c)"

definition hash_Parse :: "string \<Rightarrow> HashKind option" where
  "hash_Parse s =
     (let normalised = filter (\<lambda>c. c \<noteq> CHR ''-'') (map to_lower s)
      in map_option (\<lambda>idx. allKinds ! idx) (map_of kindIndex normalised))"

datatype checksum_error = InvalidSpec | UnknownHash | InvalidDigest | DigestSize nat

definition ParseChecksumSpec :: "string \<Rightarrow> checksum_error + HashKind \<times> byte list" where
  "ParseChecksumSpec spec =
     (case find_index (\<lambda>c. c = CHR ''='') spec of
        None \<Rightarrow> Inl InvalidSpec
      | Some i \<Rightarrow>
          let algo = TrimSpace (take i spec); digestHex = TrimSpace (drop (i + 1) spec) in
          if algo = [] \<or> digestHex = [] then Inl InvalidSpec
          else case hash_Parse algo of
                 None \<Rightarrow> Inl UnknownHash
               | Some kind \<Rightarrow>
                   (case hex_DecodeString digestHex of
                      Inl e \<Rightarrow> Inl InvalidDigest
                    | Inr digest \<Rightarrow>
                        if length digest \<noteq> Kind_Size kind then Inl (DigestSize (length digest))
                        else Inr (kind, digest)))"

text \<open>The tables fit together: every index a name maps to has a kind, with itself as its index and
  a size, so that \<open>Parse\<close> is never out of range.\<close>

lemma kind_tables: "(name, i) \<in> set kindIndex \<Longrightarrow> i < length allKinds \<and> kindIdx (allKinds ! i) = i \<and> i < length sizeTab"
  by (auto simp: kindIndex_def allKinds_def sizeTab_def)

text \<open>An accepted checksum always has the digest size of its algorithm.\<close>

lemma checksum_size: "ParseChecksumSpec spec = Inr (kind, digest) \<Longrightarrow> length digest = Kind_Size kind"
  by (auto simp: ParseChecksumSpec_def Let_def split: option.splits sum.splits if_splits)

end
