(* ===== verification/Throttle.thy ===== *)
theory Throttle
  imports Strconv
begin

text \<open>
  The rate limiter, \<open>src/internal/engine/ratelimit.go\<close>: a token bucket that a goroutine refills
  every 100 ms and that callers of \<open>Wait\<close> draw from. A caller is a state machine with one state
  per atomic access of \<open>Wait\<close>, so that callers, refills and changes of the limit interleave as they
  do between goroutines. Channels of the wait list are numbers; a channel is \<open>filled\<close> when it holds
  its one token. Two ghost counters, \<open>granted\<close> and \<open>credit\<close>, record the bytes handed out and the
  sum of the rates over all refills.

  Shown: the bytes handed out never exceed the limit, and a waiter is not released when the limit is
  removed.
\<close>

definition parseSize :: "string \<Rightarrow> int" where
  "parseSize s =
     (if s = [] then 0
      else
        let c = last s;
            (mult, s) = (if c \<in> {CHR ''K'', CHR ''k''} then (1024, butlast s)
                         else if c \<in> {CHR ''M'', CHR ''m''} then (1024 * 1024, butlast s)
                         else (1, s))
        in case ParseInt s 10 64 of
             Inl err \<Rightarrow> 0
           | Inr n \<Rightarrow> if n < 0 then 0 else wrap64 (n * mult))"

section \<open>The bucket\<close>

record Throttle =
  rate :: int
  bucket :: int
  carryover :: int
  waiters :: "nat list"
  has_ticker :: bool
  done_closed :: bool

definition NewThrottle :: "int \<Rightarrow> Throttle" where
  "NewThrottle bytesPerSec =
     \<lparr>rate = bytesPerSec, bucket = 0, carryover = 0, waiters = [], has_ticker = (0 < bytesPerSec),
      done_closed = False\<rparr>"

text \<open>One tick; the flag says whether the waiters are signalled next.\<close>

definition refillBucket :: "Throttle \<Rightarrow> Throttle \<times> bool" where
  "refillBucket t =
     (if rate t \<le> 0 then (t, False)
      else
        let total_rate = wrap64 (rate t + carryover t);
            incr = total_rate sdiv 10;
            t = t\<lparr>carryover := total_rate smod 10\<rparr>
        in if incr = 0 then (t, False)
           else (t\<lparr>bucket := wrap64 (bucket t + incr)\<rparr>, True))"

text \<open>Every waiter whose channel has room gets a token and leaves the list.\<close>

definition signalWaiters :: "nat set \<Rightarrow> Throttle \<Rightarrow> nat set \<times> Throttle" where
  "signalWaiters filled t =
     (filled \<union> set (waiters t), t\<lparr>waiters := filter (\<lambda>ch. ch \<in> filled) (waiters t)\<rparr>)"

definition SetRate :: "int \<Rightarrow> nat set \<Rightarrow> Throttle \<Rightarrow> nat set \<times> Throttle" where
  "SetRate bytesPerSec filled t =
     (let old = rate t;
          t = t\<lparr>rate := bytesPerSec\<rparr>;
          t = (if old = 0 \<and> 0 < bytesPerSec then
                 if \<not> has_ticker t then t\<lparr>has_ticker := True\<rparr>
                 else if done_closed t then t\<lparr>done_closed := False\<rparr> else t
               else t)
      in if 0 < old \<and> bytesPerSec = 0 then signalWaiters filled (t\<lparr>carryover := 0\<rparr>) else (filled, t))"

definition Stop :: "Throttle \<Rightarrow> Throttle" where
  "Stop t = t\<lparr>done_closed := True\<rparr>"

section \<open>Callers\<close>

datatype wait_state =
    LoopTop | Taking int | Registering | Rechecking nat | TakingRegistered int nat | Selecting nat
  | Granted | Unlimited | Cancelled | Stopped

record world =
  throttle :: Throttle
  filled :: "nat set"
  next_chan :: nat
  calls :: "nat \<Rightarrow> (int \<times> wait_state) option"
  cancelled :: "nat set"
  signal_due :: bool
  granted :: int
  credit :: int

definition set_call :: "nat \<Rightarrow> int \<Rightarrow> wait_state \<Rightarrow> world \<Rightarrow> world" where
  "set_call i n s w = w\<lparr>calls := (calls w)(i \<mapsto> (n, s))\<rparr>"

definition set_throttle :: "Throttle \<Rightarrow> world \<Rightarrow> world" where
  "set_throttle t w = w\<lparr>throttle := t\<rparr>"

text \<open>A compare-and-swap that takes \<open>n\<close> bytes if the bucket still holds \<open>current\<close>.\<close>

definition take_bytes :: "int \<Rightarrow> int \<Rightarrow> world \<Rightarrow> world option" where
  "take_bytes current n w =
     (if bucket (throttle w) = current
      then Some (w\<lparr>throttle := (throttle w)\<lparr>bucket := wrap64 (current - n)\<rparr>, granted := granted w + n\<rparr>)
      else None)"

definition drop_waiter :: "nat \<Rightarrow> world \<Rightarrow> world" where
  "drop_waiter ch w =
     w\<lparr>throttle := (throttle w)\<lparr>waiters := filter (\<lambda>c. c \<noteq> ch) (waiters (throttle w))\<rparr>\<rparr>"

text \<open>\<open>Wait\<close>: entering it, and its atomic steps. In the \<open>select\<close> any ready case may be chosen:
  \<open>choice\<close> 0 is the channel, 1 the context, 2 the closed \<open>done\<close>.\<close>

definition Wait_enter :: "nat \<Rightarrow> int \<Rightarrow> world \<Rightarrow> world" where
  "Wait_enter i n w =
     set_call i n (if rate (throttle w) \<le> 0 \<or> n \<le> 0 then Unlimited else LoopTop) w"

fun Wait_step :: "nat \<Rightarrow> nat \<Rightarrow> int \<Rightarrow> wait_state \<Rightarrow> world \<Rightarrow> world option" where
  "Wait_step choice i n LoopTop w =
     Some (if i \<in> cancelled w then set_call i n Cancelled w
           else let current = bucket (throttle w)
                in set_call i n (if n \<le> current then Taking current else Registering) w)"
| "Wait_step choice i n (Taking current) w =
     Some (case take_bytes current n w of
             Some w' \<Rightarrow> set_call i n Granted w'
           | None \<Rightarrow> set_call i n LoopTop w)"
| "Wait_step choice i n Registering w =
     Some (let ch = next_chan w; t = throttle w
           in set_call i n (Rechecking ch) (w\<lparr>next_chan := ch + 1, throttle := t\<lparr>waiters := waiters t @ [ch]\<rparr>\<rparr>))"
| "Wait_step choice i n (Rechecking ch) w =
     Some (let current = bucket (throttle w)
           in set_call i n (if n \<le> current then TakingRegistered current ch else Selecting ch) w)"
| "Wait_step choice i n (TakingRegistered current ch) w =
     Some (case take_bytes current n w of
             Some w' \<Rightarrow> set_call i n Granted (drop_waiter ch w')
           | None \<Rightarrow> set_call i n (Selecting ch) w)"
| "Wait_step choice i n (Selecting ch) w =
     (if choice = 0 \<and> ch \<in> filled w then Some (set_call i n LoopTop (w\<lparr>filled := filled w - {ch}\<rparr>))
      else if choice = 1 \<and> i \<in> cancelled w then Some (set_call i n Cancelled (drop_waiter ch w))
      else if choice = 2 \<and> done_closed (throttle w) then Some (set_call i n Stopped w)
      else None)"
| "Wait_step choice i n finished w = None"

text \<open>Everything that can happen next. The refill goroutine exists once a ticker was made and until
  \<open>done\<close> is closed.\<close>

datatype action =
    Enter nat int | Caller nat nat | Cancel nat | Tick | Signal | Limit int | Halt

fun act :: "action \<Rightarrow> world \<Rightarrow> world option" where
  "act (Enter i n) w = (if calls w i = None then Some (Wait_enter i n w) else None)"
| "act (Caller choice i) w =
     (case calls w i of None \<Rightarrow> None | Some (n, s) \<Rightarrow> Wait_step choice i n s w)"
| "act (Cancel i) w = Some (w\<lparr>cancelled := insert i (cancelled w)\<rparr>)"
| "act Tick w =
     (if has_ticker (throttle w) \<and> \<not> done_closed (throttle w) \<and> \<not> signal_due w then
        let (t, due) = refillBucket (throttle w)
        in Some (w\<lparr>throttle := t, signal_due := due,
                   credit := credit w + (if 0 < rate (throttle w) then rate (throttle w) else 0)\<rparr>)
      else None)"
| "act Signal w =
     (if signal_due w then
        let (f, t) = signalWaiters (filled w) (throttle w)
        in Some (w\<lparr>filled := f, throttle := t, signal_due := False\<rparr>)
      else None)"
| "act (Limit r) w =
     (let (f, t) = SetRate r (filled w) (throttle w) in Some (w\<lparr>filled := f, throttle := t\<rparr>))"
| "act Halt w = Some (w\<lparr>throttle := Stop (throttle w)\<rparr>)"

definition initial :: "int \<Rightarrow> world" where
  "initial r =
     \<lparr>throttle = NewThrottle r, filled = {}, next_chan = 0, calls = Map.empty, cancelled = {},
      signal_due = False, granted = 0, credit = 0\<rparr>"

primrec runs :: "action list \<Rightarrow> world \<Rightarrow> world option" where
  "runs [] w = Some w"
| "runs (a # as) w = Option.bind (act a w) (runs as)"

section \<open>The bucket balances\<close>

text \<open>What is out and in the bucket, in tenths of a byte, against the credit; every caller about to
  take bytes has seen enough of them.\<close>

definition spent :: "world \<Rightarrow> int" where
  "spent w = 10 * (granted w + bucket (throttle w)) + carryover (throttle w)"

definition call_ok :: "int \<times> wait_state \<Rightarrow> bool" where
  "call_ok call =
     (case call of
        (n, Taking current) \<Rightarrow> 0 < n \<and> n \<le> current
      | (n, TakingRegistered current ch) \<Rightarrow> 0 < n \<and> n \<le> current
      | (n, s) \<Rightarrow> s = Unlimited \<or> 0 < n)"

definition balanced :: "world \<Rightarrow> bool" where
  "balanced w \<longleftrightarrow>
     0 \<le> bucket (throttle w) \<and> 0 \<le> granted w \<and> 0 \<le> carryover (throttle w) \<and> carryover (throttle w) < 10 \<and>
     spent w \<le> credit w \<and> (\<forall>i call. calls w i = Some call \<longrightarrow> call_ok call)"

lemma credit_mono: "act a w = Some w' \<Longrightarrow> credit w \<le> credit w'"
proof (cases a)
  case (Caller choice i)
  moreover have "Wait_step choice i n s w = Some w' \<Longrightarrow> credit w \<le> credit w'" for n s
    by (cases s) (auto simp: set_call_def take_bytes_def drop_waiter_def Let_def split: if_splits option.splits)
  ultimately show "act a w = Some w' \<Longrightarrow> credit w \<le> credit w'" by (auto split: option.splits)
qed (auto simp: Wait_enter_def set_call_def Let_def split: if_splits prod.splits)

lemma call_ok_simps [simp]:
  "call_ok (n, LoopTop) \<longleftrightarrow> 0 < n" "call_ok (n, Registering) \<longleftrightarrow> 0 < n" "call_ok (n, Rechecking ch) \<longleftrightarrow> 0 < n"
  "call_ok (n, Selecting ch) \<longleftrightarrow> 0 < n" "call_ok (n, Granted) \<longleftrightarrow> 0 < n" "call_ok (n, Cancelled) \<longleftrightarrow> 0 < n"
  "call_ok (n, Stopped) \<longleftrightarrow> 0 < n" "call_ok (n, Unlimited)" "call_ok (n, Taking c) \<longleftrightarrow> 0 < n \<and> n \<le> c"
  "call_ok (n, TakingRegistered c ch) \<longleftrightarrow> 0 < n \<and> n \<le> c"
  by (simp_all add: call_ok_def)

lemma balanced_set_call: "balanced w \<Longrightarrow> call_ok (n, s) \<Longrightarrow> balanced (set_call i n s w)"
  by (auto simp: balanced_def set_call_def spent_def)

lemma balanced_take:
  assumes "take_bytes current n w = Some w'" and "balanced w" and "0 < n" and "n \<le> current" and "credit w < 2 ^ 63 - 9"
  shows "balanced w' \<and> spent w' = spent w"
proof -
  have w': "w' = w\<lparr>throttle := (throttle w)\<lparr>bucket := wrap64 (current - n)\<rparr>, granted := granted w + n\<rparr>"
    and c: "bucket (throttle w) = current" using assms(1) by (auto simp: take_bytes_def split: if_splits)
  have "current \<le> credit w" using assms(2) c by (simp add: balanced_def spent_def)
  then have "wrap64 (current - n) = current - n" using assms(3-5) by (intro wrap64_id) auto
  then show ?thesis using assms(2-4) by (simp add: balanced_def spent_def w' c)
qed

lemma balanced_drop: "balanced (drop_waiter ch w) \<longleftrightarrow> balanced w" "spent (drop_waiter ch w) = spent w"
  by (simp_all add: balanced_def drop_waiter_def spent_def)

lemma balanced_other:
  "balanced (w\<lparr>filled := f\<rparr>) \<longleftrightarrow> balanced w" "spent (w\<lparr>filled := f\<rparr>) = spent w"
  "spent (set_call i n s w) = spent w"
  by (simp_all add: balanced_def spent_def set_call_def)

lemma balanced_caller:
  assumes "Wait_step choice i n s w = Some w'" and "balanced w" and "calls w i = Some (n, s)" and "credit w < 2 ^ 63 - 9"
  shows "balanced w' \<and> spent w' = spent w"
proof -
  have ok: "call_ok (n, s)" using assms(2,3) by (simp add: balanced_def)
  show ?thesis
  proof (cases s)
    case (Taking c)
    with assms(1) ok balanced_take [OF _ assms(2) _ _ assms(4), of c n] assms(2) show ?thesis
      by (auto simp: balanced_other intro: balanced_set_call split: option.splits)
  next
    case (TakingRegistered c ch)
    with assms(1) ok balanced_take [OF _ assms(2) _ _ assms(4), of c n] assms(2) show ?thesis
      by (auto simp: balanced_other balanced_drop intro: balanced_set_call split: option.splits)
  next
    case Registering
    have "balanced (w\<lparr>next_chan := c, throttle := (throttle w)\<lparr>waiters := ws\<rparr>\<rparr>)"
      "spent (w\<lparr>next_chan := c, throttle := (throttle w)\<lparr>waiters := ws\<rparr>\<rparr>) = spent w" for c ws
      using assms(2) by (simp_all add: balanced_def spent_def)
    with Registering assms(1) ok show ?thesis by (auto simp: balanced_other Let_def intro: balanced_set_call)
  qed (use assms(1,2) ok in \<open>auto simp: balanced_other balanced_drop Let_def intro!: balanced_set_call split: if_splits\<close>)
qed

lemma sdiv_ten: "0 \<le> x \<Longrightarrow> x sdiv 10 = x div (10 :: int)" "0 \<le> x \<Longrightarrow> x smod 10 = x mod (10 :: int)"
  by (simp_all add: signed_divide_int_def signed_modulo_int_def minus_div_mult_eq_mod sgn_if split: if_splits)

lemma refill_balance:
  assumes "refillBucket t = (t', due)" and "0 \<le> bucket t" and "0 \<le> carryover t" and "carryover t < 10"
    and "10 * bucket t + carryover t + rate t < 2 ^ 63" and "rate t < 2 ^ 63 - 9"
  shows "0 \<le> bucket t' \<and> 0 \<le> carryover t' \<and> carryover t' < 10 \<and>
    10 * bucket t' + carryover t' = 10 * bucket t + carryover t + (if 0 < rate t then rate t else 0)"
proof (cases "rate t \<le> 0")
  case True
  then show ?thesis using assms by (simp add: refillBucket_def)
next
  case False
  let ?x = "rate t + carryover t"
  have x: "wrap64 ?x = ?x" using False assms by (intro wrap64_id) auto
  have "?x div 10 * 10 + ?x mod 10 = ?x" "0 \<le> ?x div 10" using False assms(3) by simp_all
  moreover have "wrap64 (bucket t + ?x div 10) = bucket t + ?x div 10"
    using calculation assms(2,5) False assms(3) by (intro wrap64_id) auto
  ultimately show ?thesis
    using assms(1-4) False by (auto simp: refillBucket_def Let_def x sdiv_ten split: if_splits)
qed

lemma balanced_act:
  assumes act: "act a w = Some w'" and bal: "balanced w" and small: "credit w' < 2 ^ 63 - 9"
  shows "balanced w'" and "(\<forall>r. a \<noteq> Limit r) \<Longrightarrow> credit w' - spent w' = credit w - spent w"
proof -
  have small': "credit w < 2 ^ 63 - 9" using credit_mono [OF act] small by linarith
  have "balanced w' \<and> ((\<forall>r. a \<noteq> Limit r) \<longrightarrow> credit w' - spent w' = credit w - spent w)"
  proof (cases a)
    case (Caller choice i)
    have "credit w' = credit w" if "Wait_step choice i n s w = Some w'" for n s
      using that by (cases s)
        (auto simp: set_call_def take_bytes_def drop_waiter_def Let_def split: if_splits option.splits)
    then show ?thesis using act balanced_caller [OF _ bal _ small'] Caller by (auto split: option.splits)
  next
    case Tick
    obtain t due where r: "refillBucket (throttle w) = (t, due)" by force
    let ?c = "if 0 < rate (throttle w) then rate (throttle w) else 0"
    have w': "w' = w\<lparr>throttle := t, signal_due := due, credit := credit w + ?c\<rparr>"
      using act Tick r by (auto split: if_splits)
    have "0 \<le> credit w" using bal by (simp add: balanced_def spent_def)
    then have "10 * bucket (throttle w) + carryover (throttle w) + rate (throttle w) < 2 ^ 63"
      and "rate (throttle w) < 2 ^ 63 - 9"
      using bal small by (auto simp: balanced_def spent_def w' split: if_splits)
    with refill_balance [OF r] bal show ?thesis unfolding w' by (simp add: balanced_def spent_def)
  next
    case (Limit r)
    then show ?thesis using act bal
      by (auto simp: SetRate_def signalWaiters_def balanced_def spent_def Let_def split: if_splits)
  qed (use act bal in \<open>auto simp: Wait_enter_def signalWaiters_def Stop_def balanced_def spent_def
      set_call_def Let_def split: if_splits\<close>)
  then show "balanced w'" and "(\<forall>r. a \<noteq> Limit r) \<Longrightarrow> credit w' - spent w' = credit w - spent w" by auto
qed

lemma runs_append: "runs (as @ bs) w = Option.bind (runs as w) (runs bs)"
proof (induction as arbitrary: w)
  case (Cons a as)
  then show ?case by (cases "act a w") simp_all
qed simp

lemma balanced_runs:
  assumes "runs as (initial r) = Some w" and "credit w < 2 ^ 63 - 9"
  shows "balanced w \<and> ((\<forall>r'. Limit r' \<notin> set as) \<longrightarrow> spent w = credit w)"
  using assms
proof (induction as arbitrary: w rule: rev_induct)
  case Nil
  then show ?case by (auto simp: initial_def balanced_def spent_def NewThrottle_def)
next
  case (snoc a as)
  then obtain v where v: "runs as (initial r) = Some v" "act a v = Some w"
    by (auto simp: runs_append bind_eq_Some_conv)
  have "credit v < 2 ^ 63 - 9" using credit_mono [OF v(2)] snoc(3) by linarith
  with snoc(1) [OF v(1)] have b: "balanced v" "(\<forall>r'. Limit r' \<notin> set as) \<longrightarrow> spent v = credit v" by auto
  have "(\<forall>r'. a \<noteq> Limit r') \<Longrightarrow> credit w - spent w = credit v - spent v"
    by (rule balanced_act(2) [OF v(2) b(1) snoc(3)])
  then show ?case using balanced_act(1) [OF v(2) b(1) snoc(3)] b(2) by fastforce
qed

text \<open>The sum of the limits at the ticks of a run.\<close>

fun tick_credit :: "int \<Rightarrow> action list \<Rightarrow> int" where
  "tick_credit r [] = 0"
| "tick_credit r (Tick # as) = max 0 r + tick_credit r as"
| "tick_credit r (Limit r' # as) = tick_credit r' as"
| "tick_credit r (a # as) = tick_credit r as"

lemma act_rate_credit:
  assumes "act a w = Some w'"
  shows "rate (throttle w') = (case a of Limit r \<Rightarrow> r | _ \<Rightarrow> rate (throttle w))"
    and "credit w' = credit w + (if a = Tick then max 0 (rate (throttle w)) else 0)"
proof -
  have "rate (throttle w') = (case a of Limit r \<Rightarrow> r | _ \<Rightarrow> rate (throttle w)) \<and>
    credit w' = credit w + (if a = Tick then max 0 (rate (throttle w)) else 0)"
  proof (cases a)
    case (Caller choice i)
    have "rate (throttle w') = rate (throttle w) \<and> credit w' = credit w" if "Wait_step choice i n s w = Some w'" for n s
      using that by (cases s)
        (auto simp: set_call_def take_bytes_def drop_waiter_def Let_def split: if_splits option.splits)
    then show ?thesis using assms Caller by (auto split: option.splits)
  qed (use assms in \<open>auto simp: Wait_enter_def set_call_def refillBucket_def signalWaiters_def SetRate_def Stop_def
      Let_def max_def split: if_splits\<close>)
  then show "rate (throttle w') = (case a of Limit r \<Rightarrow> r | _ \<Rightarrow> rate (throttle w))"
    and "credit w' = credit w + (if a = Tick then max 0 (rate (throttle w)) else 0)" by auto
qed

lemma runs_credit: "runs as w = Some w' \<Longrightarrow> credit w' = credit w + tick_credit (rate (throttle w)) as"
proof (induction as arbitrary: w)
  case (Cons a as)
  then obtain v where v: "act a w = Some v" "runs as v = Some w'" by (auto simp: bind_eq_Some_conv)
  show ?case using Cons(1) [OF v(2)] act_rate_credit [OF v(1)] by (cases a) auto
qed simp


definition sample_actions :: "action list" where
  "sample_actions =
     [Enter 0 13, Caller 0 0, Caller 0 0, Caller 0 0, Tick, Signal, Caller 0 0, Caller 0 0, Caller 0 0, Caller 0 0,
      Tick, Signal, Caller 0 0, Caller 0 0, Caller 0 0]"

lemmas throttle_eval = sample_actions_def initial_def NewThrottle_def Wait_enter_def set_call_def take_bytes_def
  drop_waiter_def refillBucket_def signalWaiters_def SetRate_def Stop_def Let_def


section \<open>Lifting the limit\<close>

definition in_loop :: "wait_state \<Rightarrow> bool" where
  "in_loop s \<longleftrightarrow> (case s of LoopTop \<Rightarrow> True | Registering \<Rightarrow> True | Rechecking ch \<Rightarrow> True | Selecting ch \<Rightarrow> True | _ \<Rightarrow> False)"

definition starved :: "nat \<Rightarrow> int \<Rightarrow> world \<Rightarrow> bool" where
  "starved i n w \<longleftrightarrow>
     rate (throttle w) = 0 \<and> \<not> done_closed (throttle w) \<and> i \<notin> cancelled w \<and>
     0 \<le> bucket (throttle w) \<and> bucket (throttle w) < n \<and> n < 2 ^ 63 \<and>
     (\<forall>j call. calls w j = Some call \<longrightarrow> call_ok call) \<and> (\<exists>s. calls w i = Some (n, s) \<and> in_loop s)"

lemma starved_caller:
  assumes st: "starved i n w" and step: "Wait_step choice j m s w = Some w'" and call: "calls w j = Some (m, s)"
  shows "starved i n w'"
proof -
  have ok: "call_ok (m, s)" using st call by (simp add: starved_def)
  have take: "wrap64 (bucket (throttle w) - m) = bucket (throttle w) - m" if "0 < m" "m \<le> bucket (throttle w)"
    using that st by (intro wrap64_id) (auto simp: starved_def)
  show ?thesis
  proof (cases "j = i")
    case True
    then have "m = n" "in_loop s" using st call by (auto simp: starved_def)
    then show ?thesis using True st step ok
      by (cases s) (auto simp: starved_def set_call_def in_loop_def Let_def split: if_splits)
  next
    case False
    then show ?thesis using st step ok take
      by (cases s) (auto simp: starved_def set_call_def take_bytes_def drop_waiter_def Let_def split: if_splits option.splits)
  qed
qed

lemma starved_act:
  assumes "act a w = Some w'" and "starved i n w" and "\<forall>r. a \<noteq> Limit r" and "a \<noteq> Halt" and "a \<noteq> Cancel i"
  shows "starved i n w'"
proof (cases a)
  case (Caller choice j)
  then show ?thesis using assms(1) starved_caller [OF assms(2)] by (auto split: option.splits)
qed (use assms in \<open>auto simp: starved_def Wait_enter_def set_call_def refillBucket_def signalWaiters_def Let_def
    split: if_splits\<close>)

lemma starved_runs:
  assumes "runs as w = Some w'" and "starved i n w" and "\<forall>r. Limit r \<notin> set as" and "Halt \<notin> set as" and "Cancel i \<notin> set as"
  shows "starved i n w'"
  using assms
proof (induction as arbitrary: w)
  case (Cons a as)
  then obtain v where v: "act a w = Some v" "runs as v = Some w'" by (auto simp: bind_eq_Some_conv)
  show ?case using Cons(1) [OF v(2)] starved_act [OF v(1) Cons(3)] Cons(4-6) by auto
qed simp

text \<open>Lifting the limit does not release a waiter. A caller that is blocked for more bytes than
  the bucket holds when the limit is set to 0 (unlimited) is woken, finds the bucket as it was and
  blocks again: without a new limit, a cancellation or a stop its \<open>Wait\<close> never returns.\<close>

lemma unlimited_does_not_release:
  assumes "runs before (initial r) = Some w" and "tick_credit r before < 2 ^ 63 - 9"
    and "calls w i = Some (n, Selecting ch)" and "bucket (throttle w) < n" and "n < 2 ^ 63"
    and "i \<notin> cancelled w" and "\<not> done_closed (throttle w)"
    and "runs (Limit 0 # as) w = Some w'"
    and "\<forall>r'. Limit r' \<notin> set as" and "Halt \<notin> set as" and "Cancel i \<notin> set as"
  shows "\<exists>s. calls w' i = Some (n, s) \<and> s \<notin> {Granted, Unlimited, Cancelled, Stopped}"
proof -
  obtain v where v: "act (Limit 0) w = Some v" "runs as v = Some w'" using assms(8) by (auto simp: bind_eq_Some_conv)
  have "balanced w"
    using balanced_runs [OF assms(1)] runs_credit [OF assms(1)] assms(2) by (simp add: initial_def NewThrottle_def)
  then have "starved i n v"
    using v(1) assms(3-7)
    by (auto simp: starved_def in_loop_def balanced_def SetRate_def signalWaiters_def Let_def split: if_splits)
  from starved_runs [OF v(2) this assms(9-11)] show ?thesis by (auto simp: starved_def in_loop_def)
qed

definition stall_actions :: "action list" where
  "stall_actions = [Enter 0 13, Caller 0 0, Caller 0 0, Caller 0 0]"

theorem unlimited_does_not_release_witness:
  "\<exists>w w' s. runs stall_actions (initial 75) = Some w \<and> calls w 0 = Some (13, Selecting 0) \<and>
     runs [Limit 0, Caller 0 0, Caller 0 0, Caller 0 0, Caller 0 0] w = Some w' \<and>
     calls w' 0 = Some (13, s) \<and> s \<notin> {Granted, Unlimited, Cancelled, Stopped}"
proof -
  obtain w where w: "runs stall_actions (initial 75) = Some w" "calls w 0 = Some (13, Selecting 0)"
    "bucket (throttle w) = 0" "0 \<notin> cancelled w" "\<not> done_closed (throttle w)"
    and w': "\<exists>w'. runs [Limit 0, Caller 0 0, Caller 0 0, Caller 0 0, Caller 0 0] w = Some w'"
    by (simp add: throttle_eval stall_actions_def)
  from w' obtain w' where w': "runs [Limit 0, Caller 0 0, Caller 0 0, Caller 0 0, Caller 0 0] w = Some w'" ..
  have c: "tick_credit 75 stall_actions = 0" by (simp add: stall_actions_def)
  show ?thesis using unlimited_does_not_release [OF w(1) _ w(2) _ _ w(4,5) w'] c w w' by auto
qed

end
