(* ===== verification/Engine.thy ===== *)
theory Engine
  imports StoppedRing GidShards Checksum Config Throttle
begin

text \<open>
  The life of a download, \<open>src/internal/engine/engine.go\<close>: the engine's queues, its map of
  downloads and the store of finished ones, and every operation that moves a download between
  them. The record \<open>requestGroup\<close> has the fields these operations read or write; file paths,
  transfer statistics and the state of the protocols are left out, as are log lines,
  user hooks and the control files, which the operations only trigger. Emitted events are logged
  in \<open>emitted\<close>.

  A cancellable context is \<open>Some d\<close>, where \<open>d\<close> says whether it has been cancelled itself;
  contexts of downloads are children of the engine's, so that they are also done once that is
  (\<open>ctx_done\<close>). Where the code waits in a loop that might not end the result is an option and
  \<open>None\<close> stands for not returning.

  The methods take the locks they need at their start and hold them, so a run of the program is a
  sequence of these operations. The exception is \<open>fillRequestGroupFromReserver\<close>, which drops
  the locks between choosing the downloads to start and starting them: it is the two operations
  \<open>promote\<close> and \<open>launch\<close>, between which others can run.
\<close>

section \<open>Downloads\<close>

datatype haltReason = haltReasonNone | haltReasonUserRequest | haltReasonShutdown

record requestGroup =
  rg_gid :: GID
  rg_opts :: Options
  rg_localOpts :: "Options option"
  rg_uris :: "string list"
  rg_torrent :: string
  rg_metalinkData :: string
  rg_metadataURI :: string
  rg_state :: Status
  rg_errCode :: ErrorCode
  rg_errMsg :: string
  rg_pauseReq :: bool
  rg_restartReq :: bool
  rg_forceHaltReq :: bool
  rg_haltRequested :: bool
  rg_haltReason :: haltReason
  rg_belongsTo :: GID
  rg_following :: GID
  rg_followedBy :: "GID list"
  rg_pendingOpts :: "Options option"
  rg_totalLength :: int
  rg_completedLength :: int
  rg_integrity :: "(HashKind \<times> byte list) option"
  rg_downloadLimit :: "Throttle option"
  rg_uploadLimit :: "Throttle option"
  rg_ctx :: "bool option"

record result_details =
  rd_localOpts :: "Options option"
  rd_metadataURI :: string
  rd_totalLength :: int
  rd_completedLength :: int

type_synonym result = "(Options, result_details) downloadResult"

record Engine =
  cfg :: Options
  groups :: "requestGroup gidShardMap"
  active :: "GID list"
  waiting :: "GID list"
  usedGIDs :: "GID set"
  ring :: "(Options, result_details) stoppedRing"
  stoppedTotal :: int
  removedErrors :: int
  removedLastErr :: ErrorCode
  saveInterval :: int
  saveSessionInterval :: int
  rateGlobal :: Throttle
  rateGlobalUp :: Throttle
  emitted :: "(EventKind \<times> GID) list"
  running :: bool
  shuttingDown :: bool
  haltReq :: bool
  keepRunning :: bool
  hasInput :: bool
  engine_ctx :: "bool option"
  promotedGIDs :: "GID list"
  shutdownHadActive :: bool
  shutdownExitPending :: bool
  shutdownExitLastErr :: ErrorCode

record AddSpec =
  URIs :: "string list"
  spec_Options :: "Options option"
  Torrent :: string
  Metalink :: string
  MetadataURI :: string
  Position :: int
  PositionSet :: bool
  BelongsTo :: GID

datatype engine_error =
    ErrNothingToAdd | ErrShuttingDown | ErrInvalidGID | ErrDuplicateGID | ErrChecksum checksum_error
  | ErrDownloadNotFound | ErrAlreadyPaused | ErrWrongState Status | ErrNotPaused
  | ErrNotInQueue | ErrInvalidHow string | ErrStillActive | ErrResultNotFound | ErrNilOptions
  | ErrFileIndex | ErrPosition

abbreviation opt_int :: "Options \<Rightarrow> string \<Rightarrow> int" where
  "opt_int opts n \<equiv> int_of (vals opts n)"

abbreviation opt_bool :: "Options \<Rightarrow> string \<Rightarrow> bool" where
  "opt_bool opts n \<equiv> bool_of (vals opts n)"

abbreviation opt_string :: "Options \<Rightarrow> string \<Rightarrow> string" where
  "opt_string opts n \<equiv> string_of (vals opts n)"

definition maxResults :: "Options \<Rightarrow> nat" where
  "maxResults c =
     nat (if opt_int c ''max-download-result'' \<le> 0 then 1000 else opt_int c ''max-download-result'')"

text \<open>\<open>Atoi\<close> without its error: 0 for what is not a number, the nearest bound for one out of range.
  Durations are nanoseconds.\<close>

definition parseInt :: "string \<Rightarrow> int" where
  "parseInt s =
     (case Atoi s of
        Inr n \<Rightarrow> n
      | Inl ErrSyntax \<Rightarrow> 0
      | Inl ErrRange \<Rightarrow> (if hd s = CHR ''-'' then - (2 ^ 63) else 2 ^ 63 - 1))"

definition seconds :: "string \<Rightarrow> int" where
  "seconds s = (let d = wrap64 (parseInt s * 1000000000) in if d \<le> 0 then 0 else d)"

definition New :: "Options \<Rightarrow> Engine" where
  "New c =
     \<lparr>cfg = c, groups = newGIDShardMap, active = [], waiting = [], usedGIDs = {},
      ring = newStoppedRing (int (maxResults c)), stoppedTotal = 0, removedErrors = 0,
      removedLastErr = ExitSuccess, saveInterval = seconds (opt_string c ''auto-save-interval''),
      saveSessionInterval = seconds (opt_string c ''save-session-interval''),
      rateGlobal = NewThrottle (parseSize (opt_string c ''max-overall-download-limit'')),
      rateGlobalUp = NewThrottle (parseSize (opt_string c ''max-overall-upload-limit'')), emitted = [], running = False, shuttingDown = False, haltReq = False,
      keepRunning = opt_bool c ''enable-rpc'', hasInput = False, engine_ctx = None, promotedGIDs = [],
      shutdownHadActive = False, shutdownExitPending = False, shutdownExitLastErr = ExitSuccess\<rparr>"

abbreviation group :: "Engine \<Rightarrow> GID \<Rightarrow> requestGroup option" where
  "group e gid \<equiv> gids_get (groups e) gid"

definition put_group :: "GID \<Rightarrow> requestGroup \<Rightarrow> Engine \<Rightarrow> Engine" where
  "put_group gid rg e = e\<lparr>groups := gids_set (groups e) gid rg\<rparr>"

definition delete_group :: "GID \<Rightarrow> Engine \<Rightarrow> Engine" where
  "delete_group gid e = e\<lparr>groups := gids_delete (groups e) gid\<rparr>"

definition emit :: "EventKind \<Rightarrow> GID \<Rightarrow> Engine \<Rightarrow> Engine" where
  "emit kind gid e = e\<lparr>emitted := emitted e @ [(kind, gid)]\<rparr>"

definition emitBatch :: "(EventKind \<times> GID) list \<Rightarrow> Engine \<Rightarrow> Engine" where
  "emitBatch evs e = e\<lparr>emitted := emitted e @ evs\<rparr>"

definition setError :: "ErrorCode \<Rightarrow> string \<Rightarrow> requestGroup \<Rightarrow> requestGroup" where
  "setError code msg rg = rg\<lparr>rg_errCode := code, rg_errMsg := msg\<rparr>"

definition ctx_done :: "Engine \<Rightarrow> requestGroup \<Rightarrow> bool" where
  "ctx_done e rg =
     (case rg_ctx rg of None \<Rightarrow> False | Some d \<Rightarrow> d \<or> engine_ctx e = Some True)"

definition rg_cancel :: "requestGroup \<Rightarrow> requestGroup" where
  "rg_cancel rg = rg\<lparr>rg_ctx := Some True\<rparr>"

section \<open>Adding a download\<close>

text \<open>The numbers that \<open>rand.Read\<close> delivers are an argument; \<open>None\<close> means that none of them can be
  used and the loop draws on.\<close>

definition nextGIDLocked :: "GID list \<Rightarrow> Engine \<Rightarrow> (GID \<times> Engine) option" where
  "nextGIDLocked draws e =
     (case List.find (\<lambda>n. n \<noteq> 0 \<and> n \<notin> usedGIDs e) draws of
        None \<Rightarrow> None
      | Some n \<Rightarrow> Some (n, e\<lparr>usedGIDs := insert n (usedGIDs e)\<rparr>))"

definition gidForOptions :: "GID list \<Rightarrow> Options \<Rightarrow> Engine \<Rightarrow> ((engine_error + GID) \<times> Engine) option" where
  "gidForOptions draws opts e =
     (if opt_string opts ''gid'' = []
      then map_option (\<lambda>(n, e'). (Inr n, e')) (nextGIDLocked draws e)
      else Some (case ParseGID (opt_string opts ''gid'') of
          Inl err \<Rightarrow> (Inl ErrInvalidGID, e)
        | Inr gid \<Rightarrow>
            if gid = 0 then (Inl ErrInvalidGID, e)
            else if group e gid \<noteq> None then (Inl ErrDuplicateGID, e)
            else if gid \<in> usedGIDs e then (Inl ErrDuplicateGID, e)
            else (Inr gid, e\<lparr>usedGIDs := insert gid (usedGIDs e)\<rparr>)))"

text \<open>The limits of one download. The callers blocked in a limiter are not part of the engine's state, so
  that only the effect of \<open>SetRate\<close> on the limiter itself is kept.\<close>

definition set_rate :: "int \<Rightarrow> Throttle \<Rightarrow> Throttle" where
  "set_rate n t = snd (SetRate n {} t)"

definition applyThrottle :: "Throttle option \<Rightarrow> int \<Rightarrow> Throttle option" where
  "applyThrottle current n =
     (case current of
        None \<Rightarrow> if n \<le> 0 then None else Some (NewThrottle n)
      | Some t \<Rightarrow> if n \<le> 0 then None else Some (set_rate n t))"

definition parseDownloadIntegrity :: "Options \<Rightarrow> checksum_error + (HashKind \<times> byte list) option" where
  "parseDownloadIntegrity opts =
     (if opt_string opts ''checksum'' = [] then Inr None
      else case ParseChecksumSpec (opt_string opts ''checksum'') of
             Inl err \<Rightarrow> Inl err
           | Inr c \<Rightarrow> Inr (Some c))"

definition applyRequestGroupRuntimeOptions :: "Options \<Rightarrow> requestGroup \<Rightarrow> engine_error + requestGroup" where
  "applyRequestGroupRuntimeOptions opts rg =
     (case parseDownloadIntegrity opts of
        Inl err \<Rightarrow> Inl (ErrChecksum err)
      | Inr integrity \<Rightarrow>
          Inr (rg\<lparr>rg_integrity := integrity,
                  rg_downloadLimit := applyThrottle (rg_downloadLimit rg) (parseSize (opt_string opts ''max-download-limit'')),
                  rg_uploadLimit := applyThrottle (rg_uploadLimit rg) (parseSize (opt_string opts ''max-upload-limit''))\<rparr>))"

definition applyRequestGroupRuntimeOptionPatch :: "Options \<Rightarrow> requestGroup \<Rightarrow> requestGroup" where
  "applyRequestGroupRuntimeOptionPatch opts rg =
     (let down = opt_string opts ''max-download-limit''; up = opt_string opts ''max-upload-limit'';
          rg = (if down \<noteq> [] then rg\<lparr>rg_downloadLimit := applyThrottle (rg_downloadLimit rg) (parseSize down)\<rparr> else rg)
      in if up \<noteq> [] then rg\<lparr>rg_uploadLimit := applyThrottle (rg_uploadLimit rg) (parseSize up)\<rparr> else rg)"

definition new_group :: "AddSpec \<Rightarrow> Options \<Rightarrow> Options option \<Rightarrow> GID \<Rightarrow> bool \<Rightarrow> requestGroup" where
  "new_group spec opts localOpts gid keep =
     \<lparr>rg_gid = gid, rg_opts = opts, rg_localOpts = localOpts, rg_uris = URIs spec, rg_torrent = Torrent spec,
      rg_metalinkData = Metalink spec, rg_metadataURI = MetadataURI spec, rg_state = StatusWaiting,
      rg_errCode = 0, rg_errMsg = [], rg_pauseReq = (opt_bool opts ''pause'' \<and> keep), rg_restartReq = False,
      rg_forceHaltReq = False, rg_haltRequested = False, rg_haltReason = haltReasonNone,
      rg_belongsTo = BelongsTo spec, rg_following = 0, rg_followedBy = [], rg_pendingOpts = None,
      rg_totalLength = 0, rg_completedLength = 0, rg_integrity = None, rg_downloadLimit = None,
      rg_uploadLimit = None, rg_ctx = None\<rparr>"

definition insert_waiting :: "AddSpec \<Rightarrow> GID \<Rightarrow> Engine \<Rightarrow> Engine" where
  "insert_waiting spec gid e =
     (let n = length (waiting e);
          pos = (if PositionSet spec
                 then if Position spec < 0 \<or> int n < Position spec then n else nat (Position spec)
                 else n)
      in e\<lparr>waiting := insert_at pos gid (waiting e)\<rparr>)"

definition Add :: "GID list \<Rightarrow> AddSpec \<Rightarrow> Engine \<Rightarrow> ((engine_error + GID) \<times> Engine) option" where
  "Add draws spec e =
     (if URIs spec = [] \<and> Torrent spec = [] \<and> Metalink spec = [] then Some (Inl ErrNothingToAdd, e)
      else if shuttingDown e then Some (Inl ErrShuttingDown, e)
      else
        let opts = (case spec_Options spec of None \<Rightarrow> empty_Options | Some opts \<Rightarrow> opts);
            localOpts = CloneExplicitOptions (Some opts);
            opts = Merge [Some (cfg e), Some opts]
        in case gidForOptions draws opts e of
             None \<Rightarrow> None
           | Some (Inl err, e') \<Rightarrow> Some (Inl err, e')
           | Some (Inr gid, e') \<Rightarrow>
               Some (case applyRequestGroupRuntimeOptions opts (new_group spec opts localOpts gid (keepRunning e')) of
                       Inl err \<Rightarrow> (Inl err, e')
                     | Inr rg \<Rightarrow> (Inr gid, insert_waiting spec gid (put_group gid rg e'))))"

section \<open>Finishing a download\<close>

definition moveFromActiveLocked :: "GID \<Rightarrow> Engine \<Rightarrow> Engine" where
  "moveFromActiveLocked gid e = e\<lparr>active := remove1 gid (active e)\<rparr>"

definition moveFromWaitingLocked :: "GID \<Rightarrow> Engine \<Rightarrow> Engine" where
  "moveFromWaitingLocked gid e = e\<lparr>waiting := remove1 gid (waiting e)\<rparr>"

text \<open>The loop that trims the store to the configured number of results; with
  \<open>keep-unfinished-download-result\<close> an evicted unfinished result goes back in.\<close>

definition evict_head :: "Options \<Rightarrow> (Options, result_details) stoppedRing \<Rightarrow> (Options, result_details) stoppedRing" where
  "evict_head c r =
     (let evicted = the (ring_buf r ! ring_head r);
          r = r\<lparr>ring_index := (ring_index r)(dr_gid evicted := None),
                ring_head := (ring_head r + 1) mod length (ring_buf r),
                ring_size := ring_size r - 1, evictedTotal := evictedTotal r + 1\<rparr>
      in if dr_belongsTo evicted = 0 \<and> dr_errCode evicted \<noteq> ExitSuccess then
           let r = r\<lparr>evictedErrors := evictedErrors r + 1, evictedLastErr := dr_errCode evicted\<rparr>
           in if opt_bool c ''keep-unfinished-download-result'' \<and>
                 (dr_state evicted \<noteq> StatusRemoved \<or> opt_bool c ''force-save'') then
                let pos = (ring_head r + ring_size r) mod length (ring_buf r)
                in r\<lparr>ring_buf := (ring_buf r)[pos := Some evicted],
                     ring_index := (ring_index r)(dr_gid evicted \<mapsto> pos), ring_size := ring_size r + 1\<rparr>
              else r
         else r)"

partial_function (option) trim_results ::
  "Options \<Rightarrow> (Options, result_details) stoppedRing \<Rightarrow> (Options, result_details) stoppedRing option"
where
  "trim_results c r = (if maxResults c < ring_size r then trim_results c (evict_head c r) else Some r)"

definition result_of :: "requestGroup \<Rightarrow> Status \<Rightarrow> ErrorCode \<Rightarrow> string \<Rightarrow> result" where
  "result_of rg state errCode errMsg =
     \<lparr>dr_gid = rg_gid rg, dr_state = state, dr_errCode = errCode, dr_errMsg = errMsg,
      dr_belongsTo = rg_belongsTo rg, dr_following = rg_following rg, dr_followedBy = rg_followedBy rg,
      dr_opts = Some (Merge [Some (rg_opts rg)]),
      dr_rest = \<lparr>rd_localOpts = CloneExplicitOptions (rg_localOpts rg), rd_metadataURI = rg_metadataURI rg,
                 rd_totalLength = rg_totalLength rg, rd_completedLength = rg_completedLength rg\<rparr>\<rparr>"

definition stop_event :: "ErrorCode \<Rightarrow> EventKind" where
  "stop_event errCode =
     (if errCode = ExitSuccess then EvComplete
      else if errCode = ExitInProgress \<or> errCode = ExitRemoved then EvStop
      else EvError)"

text \<open>The group itself is changed too, but every caller deletes it from the map right after.\<close>

definition addStoppedLocked ::
  "requestGroup \<Rightarrow> Status \<Rightarrow> ErrorCode \<Rightarrow> string \<Rightarrow> Engine \<Rightarrow> Engine option" where
  "addStoppedLocked rg state errCode errMsg e =
     (let r = pushLocked (ring e) (result_of rg state errCode errMsg) in
      case trim_results (cfg e) r of
        None \<Rightarrow> None
      | Some r' \<Rightarrow>
          Some (emit (stop_event errCode) (rg_gid rg)
            (e\<lparr>ring := r', stoppedTotal := stoppedTotal e + 1, removedErrors := int (evictedErrors r'),
               removedLastErr := evictedLastErr r'\<rparr>)))"

section \<open>Pausing, resuming, removing\<close>

definition Pause :: "GID \<Rightarrow> bool \<Rightarrow> Engine \<Rightarrow> engine_error option \<times> Engine" where
  "Pause gid force e =
     (case group e gid of
        None \<Rightarrow> (Some ErrDownloadNotFound, e)
      | Some rg \<Rightarrow>
          if rg_pauseReq rg then (Some ErrAlreadyPaused, e)
          else if rg_state rg = StatusActive then
            let rg = rg\<lparr>rg_pauseReq := True\<rparr>;
                rg = (if force then rg\<lparr>rg_forceHaltReq := True\<rparr> else rg\<lparr>rg_haltRequested := True\<rparr>)
            in if rg_ctx rg \<noteq> None then (None, put_group gid (rg_cancel rg) e)
               else
                 let e = moveFromActiveLocked gid e;
                     e = e\<lparr>waiting := gid # waiting e\<rparr>;
                     rg = rg\<lparr>rg_state := StatusWaiting, rg_haltRequested := False, rg_forceHaltReq := False\<rparr>
                 in (None, emit EvPause gid (put_group gid rg e))
          else if rg_state rg = StatusWaiting then (None, put_group gid (rg\<lparr>rg_pauseReq := True\<rparr>) e)
          else if rg_state rg \<in> {StatusComplete, StatusError, StatusRemoved} then (Some (ErrWrongState (rg_state rg)), e)
          else (None, e))"

definition Resume :: "GID \<Rightarrow> Engine \<Rightarrow> engine_error option \<times> Engine" where
  "Resume gid e =
     (case group e gid of
        None \<Rightarrow> (Some ErrDownloadNotFound, e)
      | Some rg \<Rightarrow>
          if rg_state rg \<noteq> StatusWaiting \<or> \<not> rg_pauseReq rg then (Some ErrNotPaused, e)
          else (None, put_group gid (rg\<lparr>rg_pauseReq := False\<rparr>) e))"

definition Remove :: "GID \<Rightarrow> bool \<Rightarrow> Engine \<Rightarrow> (engine_error option \<times> Engine) option" where
  "Remove gid force e =
     (case group e gid of
        None \<Rightarrow> Some (Some ErrDownloadNotFound, e)
      | Some rg \<Rightarrow>
          let rg = rg\<lparr>rg_haltRequested := True, rg_forceHaltReq := force, rg_haltReason := haltReasonUserRequest\<rparr> in
          if rg_state rg = StatusActive then
            let rg = rg\<lparr>rg_pauseReq := False, rg_restartReq := False\<rparr> in
            if rg_ctx rg = None then
              map_option (\<lambda>e'. (None, delete_group gid e'))
                (addStoppedLocked rg StatusRemoved ExitRemoved [] (moveFromActiveLocked gid e))
            else Some (None, put_group gid (rg_cancel rg) e)
          else if rg_state rg = StatusWaiting then Some (None, delete_group gid (moveFromWaitingLocked gid e))
          else Some (Some (ErrWrongState (rg_state rg)), put_group gid rg e))"

definition PurgeDownloadResult :: "Engine \<Rightarrow> nat \<times> Engine" where
  "PurgeDownloadResult e = (ring_size (ring e), e\<lparr>ring := purge (ring e)\<rparr>)"

definition RemoveDownloadResult :: "GID \<Rightarrow> Engine \<Rightarrow> engine_error option \<times> Engine" where
  "RemoveDownloadResult gid e =
     (if group e gid \<noteq> None then (Some ErrStillActive, e)
      else case removeByGID (ring e) gid of
             (r, True) \<Rightarrow> (None, e\<lparr>ring := r\<rparr>)
           | (r, False) \<Rightarrow> (Some ErrResultNotFound, e))"

section \<open>Options of a download and its place in the queue\<close>

definition ChangeOption :: "GID \<Rightarrow> Options option \<Rightarrow> Engine \<Rightarrow> engine_error option \<times> Engine" where
  "ChangeOption gid new_opts e =
     (case new_opts of
        None \<Rightarrow> (Some ErrNilOptions, e)
      | Some opts \<Rightarrow>
          (case group e gid of
             None \<Rightarrow>
               (case mergeOptions (\<lambda>old new. Merge [old, Some new]) (ring e) gid opts of
                  (r, True) \<Rightarrow> (None, e\<lparr>ring := r\<rparr>)
                | (r, False) \<Rightarrow> (Some ErrDownloadNotFound, e))
           | Some rg \<Rightarrow>
               let rg = rg\<lparr>rg_localOpts := Some (Merge [rg_localOpts rg, Some opts])\<rparr> in
               if rg_state rg = StatusActive then
                 let rg = rg\<lparr>rg_pendingOpts := Some (Merge [Some (case rg_pendingOpts rg of None \<Rightarrow> empty_Options | Some p \<Rightarrow> p), Some opts])\<rparr>;
                     rg = applyRequestGroupRuntimeOptionPatch opts rg;
                     rg = rg\<lparr>rg_restartReq := True, rg_pauseReq := True\<rparr>;
                     rg = (if rg_ctx rg \<noteq> None then rg_cancel rg else rg)
                 in (None, put_group gid rg e)
               else
                 let rg = rg\<lparr>rg_opts := Merge [Some (rg_opts rg), Some opts]\<rparr> in
                 (case applyRequestGroupRuntimeOptions (rg_opts rg) rg of
                    Inl err \<Rightarrow> (Some err, put_group gid rg e)
                  | Inr rg' \<Rightarrow> (None, put_group gid rg' e))))"

definition ChangePosition :: "GID \<Rightarrow> int \<Rightarrow> string \<Rightarrow> Engine \<Rightarrow> (engine_error + int) \<times> Engine" where
  "ChangePosition gid pos how e =
     (case group e gid of
        None \<Rightarrow> (Inl ErrDownloadNotFound, e)
      | Some rg \<Rightarrow>
          if rg_state rg \<noteq> StatusWaiting then (Inl (ErrWrongState (rg_state rg)), e)
          else
            (case find_index (\<lambda>g. g = gid) (waiting e) of
               None \<Rightarrow> (Inl ErrNotInQueue, e)
             | Some curIdx \<Rightarrow>
                 let n = length (waiting e) in
                 if how \<notin> {''POS_SET'', ''POS_CUR'', ''POS_END''} then (Inl (ErrInvalidHow how), e)
                 else
                   let dest = (if how = ''POS_SET'' then pos
                               else if how = ''POS_CUR'' then wrap64 (int curIdx + pos)
                               else wrap64 (int n + pos));
                       dest = (if dest < 0 then 0 else dest);
                       dest = (if int n \<le> dest then int n - 1 else dest);
                       rest = take curIdx (waiting e) @ drop (curIdx + 1) (waiting e);
                       dest = (if int curIdx < dest then dest - 1 else dest)
                   in (Inr dest, e\<lparr>waiting := insert_at (nat dest) gid rest\<rparr>)))"

text \<open>The addresses of a download. Parsing an address is \<open>net/url\<close>'s: \<open>valid\<close> says whether one is
  absolute and has a host where its scheme needs one, which is all \<open>normalizeChangeURI\<close> asks.\<close>

definition replace_spaces :: "string \<Rightarrow> string" where
  "replace_spaces s = concat (map (\<lambda>c. if c = CHR '' '' then ''%20'' else [c]) s)"

definition normalizeChangeURI :: "(string \<Rightarrow> bool) \<Rightarrow> string \<Rightarrow> string option" where
  "normalizeChangeURI valid rawURI =
     (let uri = replace_spaces rawURI in if valid uri then Some uri else None)"

primrec delete_uris :: "string list \<Rightarrow> string list \<Rightarrow> string list \<times> nat" where
  "delete_uris [] uris = (uris, 0)"
| "delete_uris (target # targets) uris =
     (if target \<in> set uris then map_prod id Suc (delete_uris targets (remove1 target uris))
      else delete_uris targets uris)"

primrec add_uris :: "(string \<Rightarrow> bool) \<Rightarrow> string list \<Rightarrow> nat \<Rightarrow> string list \<Rightarrow> string list \<times> nat" where
  "add_uris valid [] pos uris = (uris, 0)"
| "add_uris valid (rawURI # rest) pos uris =
     (case normalizeChangeURI valid rawURI of
        None \<Rightarrow> add_uris valid rest pos uris
      | Some uri \<Rightarrow> map_prod id Suc (add_uris valid rest (pos + 1) (insert_at pos uri uris)))"

definition ChangeURIWithPosition ::
  "(string \<Rightarrow> bool) \<Rightarrow> GID \<Rightarrow> int \<Rightarrow> string list \<Rightarrow> string list \<Rightarrow> int \<Rightarrow> bool \<Rightarrow> Engine \<Rightarrow> (engine_error + nat \<times> nat) \<times> Engine"
where
  "ChangeURIWithPosition valid gid fileIndex delURIs addURIs pos positionSet e =
     (if fileIndex \<noteq> 1 then (Inl ErrFileIndex, e)
      else if positionSet \<and> pos < 0 then (Inl ErrPosition, e)
      else case group e gid of
             None \<Rightarrow> (Inl ErrDownloadNotFound, e)
           | Some rg \<Rightarrow>
               let (uris, removed) = delete_uris delURIs (rg_uris rg);
                   p = (if \<not> positionSet \<or> int (length uris) < pos then length uris else nat pos);
                   (uris, added) = add_uris valid addURIs p uris
               in (Inr (removed, added), put_group gid (rg\<lparr>rg_uris := uris\<rparr>) e))"

definition GetOption :: "GID \<Rightarrow> Engine \<Rightarrow> engine_error + Options" where
  "GetOption gid e =
     (case group e gid of
        None \<Rightarrow> (case optionsByGID empty_Options (ring e) gid of None \<Rightarrow> Inl ErrDownloadNotFound | Some opts \<Rightarrow> Inr opts)
      | Some rg \<Rightarrow> Inr (rg_opts rg))"

section \<open>The queue manager\<close>

definition errorStatus :: "requestGroup \<Rightarrow> ErrorCode \<times> string" where
  "errorStatus rg = (rg_errCode rg, rg_errMsg rg)"

text \<open>What \<open>removeStoppedGroup\<close> does with one download whose context is done.\<close>

definition pause_stopped :: "GID \<Rightarrow> requestGroup \<Rightarrow> Engine \<Rightarrow> Engine" where
  "pause_stopped gid rg e =
     (let e = e\<lparr>waiting := gid # waiting e\<rparr>;
          rg = rg\<lparr>rg_state := StatusWaiting\<rparr>;
          rg = (case rg_pendingOpts rg of
                  None \<Rightarrow> rg
                | Some p \<Rightarrow>
                    let rg = rg\<lparr>rg_opts := Merge [Some (rg_opts rg), Some p]\<rparr>;
                        rg = (case applyRequestGroupRuntimeOptions (rg_opts rg) rg of Inl err \<Rightarrow> rg | Inr rg' \<Rightarrow> rg')
                    in rg\<lparr>rg_pendingOpts := None\<rparr>);
          restart = rg_restartReq rg;
          rg = (if restart then rg\<lparr>rg_pauseReq := False\<rparr> else rg);
          rg = rg\<lparr>rg_restartReq := False, rg_forceHaltReq := False, rg_haltRequested := False,
                  rg_haltReason := haltReasonNone\<rparr>;
          e = put_group gid rg e
      in if restart then e else emit EvPause gid e)"

definition halt_stopped :: "GID \<Rightarrow> requestGroup \<Rightarrow> Engine \<Rightarrow> Engine option" where
  "halt_stopped gid rg e =
     map_option (delete_group gid)
       (if rg_haltReason rg = haltReasonUserRequest then addStoppedLocked rg StatusRemoved ExitRemoved [] e
        else
          let (code, msg) = errorStatus rg;
              errCode = (if code \<noteq> 0 \<and> code \<noteq> ExitSuccess then code else ExitInProgress);
              errMsg = (if errCode \<noteq> ExitInProgress then msg else [])
          in addStoppedLocked rg StatusError errCode errMsg e)"

definition complete_stopped :: "GID \<Rightarrow> requestGroup \<Rightarrow> Engine \<Rightarrow> Engine option" where
  "complete_stopped gid rg e =
     (let (code, msg) = errorStatus rg;
          errCode = (if code \<noteq> 0 then code else ExitSuccess);
          finalState = (if errCode \<noteq> ExitSuccess then StatusError else StatusComplete)
      in map_option (delete_group gid) (addStoppedLocked rg finalState errCode msg e))"

definition process_stopped :: "GID \<Rightarrow> Engine \<Rightarrow> Engine option" where
  "process_stopped gid e =
     (case group e gid of
        None \<Rightarrow> Some e
      | Some rg \<Rightarrow>
          let e = moveFromActiveLocked gid e in
          if rg_pauseReq rg then Some (pause_stopped gid rg e)
          else if rg_haltRequested rg then halt_stopped gid rg e
          else complete_stopped gid rg e)"

definition each_gid :: "(GID \<Rightarrow> Engine \<Rightarrow> Engine option) \<Rightarrow> GID list \<Rightarrow> Engine \<Rightarrow> Engine option" where
  "each_gid f gids e = fold (\<lambda>gid r. Option.bind r (f gid)) gids (Some e)"

definition removeStoppedGroup :: "Engine \<Rightarrow> Engine option" where
  "removeStoppedGroup e =
     (let stoppedGIDs = filter (\<lambda>gid. case group e gid of None \<Rightarrow> False | Some rg \<Rightarrow> ctx_done e rg) (active e)
      in each_gid process_stopped stoppedGIDs e)"

text \<open>The inner loop of \<open>fillRequestGroupFromReserver\<close>: downloads from the front of the queue are
  promoted until the free slots are used up; paused ones are put back.\<close>

primrec promote_loop ::
  "GID list \<Rightarrow> (GID \<Rightarrow> requestGroup option) \<Rightarrow> nat \<Rightarrow> GID list \<times> GID list \<times> GID list"
where
  "promote_loop [] lookup num = ([], [], [])"
| "promote_loop (gid # rest) lookup num =
     (if num = 0 then ([], [], gid # rest)
      else case lookup gid of
             None \<Rightarrow> promote_loop rest lookup num
           | Some rg \<Rightarrow>
               if rg_pauseReq rg then
                 let (promoted, pending, left) = promote_loop rest lookup num in (promoted, gid # pending, left)
               else
                 let (promoted, pending, left) = promote_loop rest lookup (num - 1) in (gid # promoted, pending, left))"

definition activate :: "GID \<Rightarrow> Engine \<Rightarrow> Engine" where
  "activate gid e =
     (case group e gid of
        None \<Rightarrow> e
      | Some rg \<Rightarrow> put_group gid (rg\<lparr>rg_state := StatusActive\<rparr>) (e\<lparr>active := active e @ [gid]\<rparr>))"

definition maxConcurrent :: "Engine \<Rightarrow> nat" where
  "maxConcurrent e =
     nat (if opt_int (cfg e) ''max-concurrent-downloads'' \<le> 0 then 1
          else opt_int (cfg e) ''max-concurrent-downloads'')"

definition promote :: "Engine \<Rightarrow> Engine" where
  "promote e =
     (let max = maxConcurrent e in
      if max \<le> length (active e) then e
      else
        let (promoted, pending, left) = promote_loop (waiting e) (group e) (max - length (active e));
            e = fold activate promoted (e\<lparr>waiting := pending @ left\<rparr>);
            e = emitBatch (map (\<lambda>gid. (EvStart, gid)) promoted) e
        in if running e then e\<lparr>promotedGIDs := promoted\<rparr> else e)"

text \<open>Starting one promoted download: it gets a fresh context and a worker.\<close>

definition launch :: "Engine \<Rightarrow> Engine" where
  "launch e =
     (case promotedGIDs e of
        [] \<Rightarrow> e
      | gid # rest \<Rightarrow>
          (case group e gid of
             None \<Rightarrow> e\<lparr>promotedGIDs := rest\<rparr>
           | Some rg \<Rightarrow> put_group gid (rg\<lparr>rg_ctx := Some False\<rparr>) (e\<lparr>promotedGIDs := rest\<rparr>)))"

definition cancelIfIdle :: "Engine \<Rightarrow> Engine" where
  "cancelIfIdle e =
     (let isEmpty = (active e = [] \<and> waiting e = []) in
      if isEmpty \<and> hasInput e then e
      else if isEmpty \<and> \<not> keepRunning e \<and> engine_ctx e \<noteq> None then e\<lparr>engine_ctx := Some True\<rparr>
      else e)"

section \<open>Workers\<close>

text \<open>What a worker does to its download from the outside: it reports an error code, and it cancels
  its context when it returns.\<close>

definition worker_error :: "GID \<Rightarrow> ErrorCode \<Rightarrow> string \<Rightarrow> Engine \<Rightarrow> Engine" where
  "worker_error gid code msg e =
     (case group e gid of None \<Rightarrow> e | Some rg \<Rightarrow> put_group gid (setError code msg rg) e)"

definition worker_return :: "GID \<Rightarrow> Engine \<Rightarrow> Engine" where
  "worker_return gid e =
     (case group e gid of
        None \<Rightarrow> e
      | Some rg \<Rightarrow> if rg_ctx rg = None then e else put_group gid (rg_cancel rg) e)"

definition markTransferCanceled :: "requestGroup \<Rightarrow> requestGroup" where
  "markTransferCanceled rg =
     (if rg_haltReason rg = haltReasonUserRequest then setError ExitRemoved [] rg
      else if rg_haltReason rg = haltReasonShutdown \<and> rg_haltRequested rg \<and> \<not> rg_forceHaltReq rg
      then setError 0 [] rg
      else if rg_haltRequested rg \<and> \<not> rg_forceHaltReq rg then setError 0 [] rg
      else setError ExitRemoved ''download cancelled'' rg)"

definition worker_canceled :: "GID \<Rightarrow> Engine \<Rightarrow> Engine" where
  "worker_canceled gid e =
     (case group e gid of None \<Rightarrow> e | Some rg \<Rightarrow> put_group gid (markTransferCanceled rg) e)"

section \<open>Running and shutting down\<close>

definition start_run :: "Engine \<Rightarrow> Engine" where
  "start_run e = e\<lparr>engine_ctx := Some False, running := True\<rparr>"

definition markActiveShutdown :: "bool \<Rightarrow> Engine \<Rightarrow> Engine" where
  "markActiveShutdown force e =
     fold (\<lambda>gid e. case group e gid of
             None \<Rightarrow> e
           | Some rg \<Rightarrow>
               let rg = rg\<lparr>rg_haltRequested := True, rg_haltReason := haltReasonShutdown\<rparr>
               in put_group gid (if force then rg\<lparr>rg_forceHaltReq := True\<rparr> else rg) e) (active e) e"

definition cancel_engine :: "Engine \<Rightarrow> Engine" where
  "cancel_engine e = (if engine_ctx e \<noteq> None then e\<lparr>engine_ctx := Some True\<rparr> else e)"

definition Shutdown :: "bool \<Rightarrow> Engine \<Rightarrow> engine_error option \<times> Engine" where
  "Shutdown force e =
     (if shuttingDown e then
        if force then (None, cancel_engine ((markActiveShutdown force e)\<lparr>haltReq := True\<rparr>))
        else (Some ErrShuttingDown, e)
      else
        (None, cancel_engine ((markActiveShutdown force (e\<lparr>shuttingDown := True\<rparr>))\<lparr>haltReq := True\<rparr>)))"

definition end_active :: "GID \<Rightarrow> Engine \<Rightarrow> Engine option" where
  "end_active gid e =
     (case group e gid of
        None \<Rightarrow> Some e
      | Some rg \<Rightarrow>
          if rg_state rg \<noteq> StatusActive then Some e
          else
            let e = moveFromActiveLocked gid e;
                (code, msg) = errorStatus rg;
                failed = (code \<noteq> 0 \<and> code \<noteq> ExitSuccess);
                errCode = (if failed then code else ExitInProgress);
                errMsg = (if errCode = ExitInProgress then [] else if failed then msg else []);
                e = (if errCode = ExitInProgress then e\<lparr>shutdownExitPending := True\<rparr>
                     else if errCode \<noteq> ExitSuccess \<and> errCode \<noteq> ExitRemoved
                     then e\<lparr>shutdownExitLastErr := errCode\<rparr> else e)
            in map_option (delete_group gid) (addStoppedLocked rg StatusError errCode errMsg e))"

definition end_waiting :: "GID \<Rightarrow> Engine \<Rightarrow> Engine option" where
  "end_waiting gid e =
     (case group e gid of
        None \<Rightarrow> Some e
      | Some rg \<Rightarrow>
          map_option (delete_group gid)
            (addStoppedLocked rg (if rg_pauseReq rg then StatusError else StatusRemoved) ExitRemoved ''shutdown''
              (moveFromWaitingLocked gid e)))"

definition onEndOfRun :: "Engine \<Rightarrow> Engine option" where
  "onEndOfRun e =
     (let activeCopy = active e; waitingCopy = waiting e;
          e = e\<lparr>shutdownHadActive := (activeCopy \<noteq> []), shutdownExitPending := False,
                shutdownExitLastErr := ExitSuccess\<rparr>
      in Option.bind (each_gid end_active activeCopy e) (each_gid end_waiting waitingCopy))"

section \<open>Global options\<close>

definition optionChangeRequested :: "Options \<Rightarrow> string \<Rightarrow> bool \<Rightarrow> bool" where
  "optionChangeRequested opts name fallback =
     (if explicit opts \<noteq> {} then name \<in> explicit opts else fallback)"

definition change_intervals :: "Options \<Rightarrow> Engine \<Rightarrow> Engine" where
  "change_intervals opts e =
     (let e = (if optionChangeRequested opts ''auto-save-interval'' (opt_string opts ''auto-save-interval'' \<noteq> [])
               then e\<lparr>saveInterval := seconds (opt_string (cfg e) ''auto-save-interval'')\<rparr> else e)
      in if optionChangeRequested opts ''save-session-interval'' (opt_string opts ''save-session-interval'' \<noteq> [])
         then e\<lparr>saveSessionInterval := seconds (opt_string (cfg e) ''save-session-interval'')\<rparr> else e)"

definition change_limits :: "Options \<Rightarrow> Engine \<Rightarrow> Engine" where
  "change_limits opts e =
     (let e = (if optionChangeRequested opts ''max-overall-download-limit'' (opt_string opts ''max-overall-download-limit'' \<noteq> [])
               then e\<lparr>rateGlobal := set_rate (parseSize (opt_string (cfg e) ''max-overall-download-limit'')) (rateGlobal e)\<rparr> else e)
      in if optionChangeRequested opts ''max-overall-upload-limit'' (opt_string opts ''max-overall-upload-limit'' \<noteq> [])
         then e\<lparr>rateGlobalUp := set_rate (parseSize (opt_string (cfg e) ''max-overall-upload-limit'')) (rateGlobalUp e)\<rparr> else e)"

definition change_results :: "Options \<Rightarrow> Engine \<Rightarrow> Engine" where
  "change_results opts e =
     (if optionChangeRequested opts ''max-download-result'' (opt_int opts ''max-download-result'' \<noteq> 0) then
        let r = resize (ring e) (opt_int (cfg e) ''max-download-result'')
        in e\<lparr>ring := r, removedErrors := int (evictedErrors r), removedLastErr := evictedLastErr r\<rparr>
      else e)"

definition ChangeGlobalOption :: "Options option \<Rightarrow> Engine \<Rightarrow> engine_error option \<times> Engine" where
  "ChangeGlobalOption new_opts e =
     (case new_opts of
        None \<Rightarrow> (Some ErrNilOptions, e)
      | Some opts \<Rightarrow>
          (None, change_results opts (change_limits opts (change_intervals opts
             (e\<lparr>cfg := Merge [Some (cfg e), Some opts]\<rparr>)))))"

section \<open>Reports\<close>

definition results :: "Engine \<Rightarrow> result list" where
  "results e = map (\<lambda>i. the (ring_buf (ring e) ! slot (ring e) i)) [0..<ring_size (ring e)]"

definition GetDownloadStat :: "Engine \<Rightarrow> nat \<times> int \<times> nat \<times> nat" where
  "GetDownloadStat e =
     (let counted = filter (\<lambda>dr. dr_belongsTo dr = 0) (results e);
          completed = length (filter (\<lambda>dr. dr_errCode dr = ExitSuccess) counted);
          progress = length (filter (\<lambda>dr. dr_errCode dr = ExitInProgress) counted);
          errors = length (filter (\<lambda>dr. dr_errCode dr \<notin> {ExitSuccess, ExitInProgress, ExitRemoved}) counted)
      in (completed, int errors + removedErrors e, length (active e) + progress, length (waiting e)))"

definition ExitCode :: "Engine \<Rightarrow> ErrorCode" where
  "ExitCode e =
     (let (completed, errorsCount, inProgress, n_waiting) = GetDownloadStat e;
          counted = filter (\<lambda>dr. dr_belongsTo dr = 0) (results e);
          inProgress = inProgress + length (filter (\<lambda>dr. dr_errCode dr = ExitInProgress) counted);
          failures = filter (\<lambda>dr. dr_errCode dr \<notin> {ExitSuccess, ExitRemoved, ExitInProgress}) counted;
          lastErr = (if failures = [] then removedLastErr e else dr_errCode (last failures))
      in if errorsCount = 0 \<and> inProgress = 0 \<and> n_waiting = 0 then
           if shuttingDown e \<and> shutdownHadActive e then
             if shutdownExitLastErr e \<noteq> ExitSuccess then shutdownExitLastErr e
             else if shutdownExitPending e then ExitUnfinishedDownloads
             else ExitSuccess
           else ExitSuccess
         else if lastErr = ExitSuccess \<and> 0 < inProgress then ExitUnfinishedDownloads
         else if lastErr \<noteq> ExitSuccess then lastErr
         else ExitUnknownError)"

end
