(* ===== verification/EngineRun.thy ===== *)
theory EngineRun
  imports Engine "HOL-Library.Multiset"
begin

text \<open>
  Runs of the engine. The invariant \<open>engine_inv\<close> says where downloads are: the queues are disjoint and
  free of repetitions, the map of downloads holds exactly their GIDs with the matching status, and
  the store of finished downloads represents a list of other GIDs within the configured number. Every
  operation of theory \<open>Engine\<close> keeps it and returns; \<open>reachable\<close> is the set of states of all
  sequences of operations.
\<close>

section \<open>The invariant\<close>

definition queued :: "Engine \<Rightarrow> GID set" where
  "queued e = set (active e) \<union> set (waiting e)"

definition state_ok :: "Engine \<Rightarrow> GID \<Rightarrow> requestGroup \<Rightarrow> bool" where
  "state_ok e g rg \<longleftrightarrow>
     rg_gid rg = g \<and> rg_state rg = (if g \<in> set (active e) then StatusActive else StatusWaiting)"

definition queues_ok :: "Engine \<Rightarrow> bool" where
  "queues_ok e \<longleftrightarrow>
     distinct (active e @ waiting e) \<and> queued e \<subseteq> usedGIDs e \<and> 0 \<notin> usedGIDs e \<and>
     (\<forall>g. group e g \<noteq> None \<longleftrightarrow> g \<in> queued e) \<and> (\<forall>g rg. group e g = Some rg \<longrightarrow> state_ok e g rg)"

definition store_ok :: "Engine \<Rightarrow> bool" where
  "store_ok e \<longleftrightarrow>
     (\<exists>xs. ring_rel (ring e) xs \<and> dr_gid ` set xs \<subseteq> usedGIDs e - queued e) \<and>
     length (ring_buf (ring e)) = maxResults (cfg e)"

definition engine_inv :: "Engine \<Rightarrow> bool" where
  "engine_inv e \<longleftrightarrow> queues_ok e \<and> store_ok e \<and> well_typed (cfg e)"

lemmas inv_defs = engine_inv_def queues_ok_def store_ok_def state_ok_def queued_def

text \<open>The engine with the same queues, groups and store.\<close>

lemma engine_inv_cong:
  assumes "engine_inv e" and "active e' = active e" and "waiting e' = waiting e" and "usedGIDs e' = usedGIDs e"
    and "groups e' = groups e" and "ring e' = ring e" and "cfg e' = cfg e"
  shows "engine_inv e'"
  using assms by (simp add: inv_defs)

lemma group_put [simp]: "group (put_group g rg e) g' = (if g' = g then Some rg else group e g')"
  by (simp add: put_group_def)

lemma group_delete [simp]: "group (delete_group g e) g' = (if g' = g then None else group e g')"
  by (simp add: delete_group_def)

lemma put_group_fields [simp]:
  "active (put_group g rg e) = active e" "waiting (put_group g rg e) = waiting e" "usedGIDs (put_group g rg e) = usedGIDs e"
  "ring (put_group g rg e) = ring e" "cfg (put_group g rg e) = cfg e" "queued (put_group g rg e) = queued e"
  by (simp_all add: put_group_def queued_def)

lemma delete_group_fields [simp]:
  "active (delete_group g e) = active e" "waiting (delete_group g e) = waiting e" "usedGIDs (delete_group g e) = usedGIDs e"
  "ring (delete_group g e) = ring e" "cfg (delete_group g e) = cfg e" "queued (delete_group g e) = queued e"
  by (simp_all add: delete_group_def queued_def)

lemma emit_fields [simp]:
  "active (emit k g e) = active e" "waiting (emit k g e) = waiting e" "usedGIDs (emit k g e) = usedGIDs e"
  "ring (emit k g e) = ring e" "cfg (emit k g e) = cfg e" "groups (emit k g e) = groups e" "queued (emit k g e) = queued e"
  by (simp_all add: emit_def queued_def)

lemma engine_inv_emit [simp]: "engine_inv (emit k g e) \<longleftrightarrow> engine_inv e"
  by (auto elim!: engine_inv_cong)

text \<open>A download is changed in place.\<close>

lemma engine_inv_put:
  assumes "engine_inv e" and "group e g = Some rg" and "rg_gid rg' = rg_gid rg" and "rg_state rg' = rg_state rg"
  shows "engine_inv (put_group g rg' e)"
  using assms unfolding inv_defs by (auto simp: put_group_def)

lemma inv_groupD:
  assumes "engine_inv e" and "group e g = Some rg"
  shows "rg_gid rg = g" and "g \<in> queued e" and "g \<in> usedGIDs e" and "g \<noteq> 0"
    and "rg_state rg = StatusActive \<longleftrightarrow> g \<in> set (active e)" and "rg_state rg = StatusWaiting \<longleftrightarrow> g \<in> set (waiting e)"
proof -
  have q: "g \<in> queued e" and s: "state_ok e g rg" and d: "set (active e) \<inter> set (waiting e) = {}"
    and u: "queued e \<subseteq> usedGIDs e" "0 \<notin> usedGIDs e"
    using assms by (auto simp: engine_inv_def queues_ok_def)
  show "rg_gid rg = g" "g \<in> queued e" "g \<in> usedGIDs e" "g \<noteq> 0" using s q u by (auto simp: state_ok_def)
  show "rg_state rg = StatusActive \<longleftrightarrow> g \<in> set (active e)" "rg_state rg = StatusWaiting \<longleftrightarrow> g \<in> set (waiting e)"
    using s q d by (auto simp: state_ok_def queued_def split: if_splits)
qed

text \<open>A download moves to the store of finished ones. The store has room or evicts the oldest result:
  the loop that trims it has nothing to do.\<close>

lemma trim_results_id: "ring_size r \<le> maxResults c \<Longrightarrow> trim_results c r = Some r"
  by (subst trim_results.simps) simp

definition leave_queues :: "GID \<Rightarrow> Engine \<Rightarrow> Engine" where
  "leave_queues g e = e\<lparr>active := remove1 g (active e), waiting := remove1 g (waiting e)\<rparr>"

lemma move_leaves:
  assumes "engine_inv e" and "group e g = Some rg"
  shows "rg_state rg = StatusActive \<Longrightarrow> moveFromActiveLocked g e = leave_queues g e"
    and "rg_state rg = StatusWaiting \<Longrightarrow> moveFromWaitingLocked g e = leave_queues g e"
  using inv_groupD(5,6) [OF assms] assms(1)
  by (auto simp: moveFromActiveLocked_def moveFromWaitingLocked_def leave_queues_def remove1_idem inv_defs)

lemma add_stopped:
  assumes inv: "engine_inv e" and g: "group e g = Some rg" and gid: "rg_gid rg' = g"
    and e': "queued e' = queued e - {g}" "usedGIDs e' = usedGIDs e" "ring e' = ring e" "cfg e' = cfg e"
  shows "\<exists>e''. addStoppedLocked rg' st code msg e' = Some e'' \<and> active e'' = active e' \<and> waiting e'' = waiting e' \<and>
    usedGIDs e'' = usedGIDs e' \<and> groups e'' = groups e' \<and> cfg e'' = cfg e' \<and> store_ok e'' \<and> queued e'' = queued e'"
proof -
  obtain xs where xs: "ring_rel (ring e) xs" "dr_gid ` set xs \<subseteq> usedGIDs e - queued e"
    and len: "length (ring_buf (ring e)) = maxResults (cfg e)" using inv by (auto simp: engine_inv_def store_ok_def)
  let ?d = "result_of rg' st code msg" let ?cap = "length (ring_buf (ring e))"
  have d: "dr_gid ?d = g" by (simp add: result_of_def gid)
  then have new: "dr_gid ?d \<notin> dr_gid ` set xs" using xs(2) inv_groupD(2) [OF inv g] by auto
  note push = ring_push [OF xs(1) new]
  have "set (spec_push ?cap xs ?d) \<subseteq> insert ?d (set xs)"
    by (cases xs) (auto simp: spec_push_def)
  then have "dr_gid ` set (spec_push ?cap xs ?d) \<subseteq> insert g (dr_gid ` set xs)" using d by blast
  also have "\<dots> \<subseteq> usedGIDs e - (queued e - {g})" using xs(2) inv_groupD(2,3) [OF inv g] by auto
  finally have st: "dr_gid ` set (spec_push ?cap xs ?d) \<subseteq> usedGIDs e - (queued e - {g})" .
  have "ring_size (pushLocked (ring e) ?d) \<le> maxResults (cfg e)"
    using push len by (auto simp: ring_rel_def rep_def)
  then have "trim_results (cfg e') (pushLocked (ring e') ?d) = Some (pushLocked (ring e) ?d)"
    by (simp add: e' trim_results_id)
  then show ?thesis
    using push len st e' unfolding addStoppedLocked_def Let_def
    by (auto simp: store_ok_def queued_def)
qed

lemma finish_group:
  assumes inv: "engine_inv e" and g: "group e g = Some rg" and gid: "rg_gid rg' = g"
    and e': "active e' = remove1 g (active e)" "waiting e' = remove1 g (waiting e)" "usedGIDs e' = usedGIDs e"
      "ring e' = ring e" "cfg e' = cfg e" "groups e' = groups e"
  shows "\<exists>e''. map_option (delete_group g) (addStoppedLocked rg' st code msg e') = Some e'' \<and> engine_inv e'' \<and>
    active e'' = remove1 g (active e) \<and> waiting e'' = remove1 g (waiting e)"
proof -
  have dist: "distinct (active e)" "distinct (waiting e)" "set (active e) \<inter> set (waiting e) = {}"
    using inv by (auto simp: inv_defs)
  have q: "queued e' = queued e - {g}" using dist by (auto simp: queued_def e')
  obtain e'' where e'': "addStoppedLocked rg' st code msg e' = Some e''" "active e'' = active e'" "waiting e'' = waiting e'"
    "usedGIDs e'' = usedGIDs e'" "groups e'' = groups e'" "cfg e'' = cfg e'" "store_ok e''" "queued e'' = queued e'"
    using add_stopped [OF inv g gid q e'(3-5)] by blast
  have "queues_ok (delete_group g e'')"
    using inv dist e' e'' q unfolding queues_ok_def engine_inv_def
    by (auto simp: state_ok_def queued_def delete_group_def)
  moreover have "store_ok (delete_group g e'')" using e''(7) by (simp add: store_ok_def)
  ultimately show ?thesis using e' e'' inv by (auto simp: engine_inv_def)
qed

section \<open>The operations keep the invariant\<close>

lemma inv_New: "well_typed c \<Longrightarrow> engine_inv (New c)"
  using new_ring [of "int (maxResults c)"]
  by (auto simp: inv_defs New_def maxResults_def intro!: exI [of _ "[]"])

lemma inv_use_gid:
  assumes "engine_inv e" and "g \<noteq> 0"
  shows "engine_inv (e\<lparr>usedGIDs := insert g (usedGIDs e)\<rparr>)"
  using assms unfolding inv_defs by auto blast

lemma gidForOptions_cases:
  assumes "gidForOptions draws opts e = Some (res, e')"
  obtains (error) err where "res = Inl err" "e' = e"
  | (gid) g where "res = Inr g" "g \<noteq> 0" "g \<notin> usedGIDs e" "e' = e\<lparr>usedGIDs := insert g (usedGIDs e)\<rparr>"
proof (cases "opt_string opts ''gid'' = []")
  case True
  then obtain n where n: "List.find (\<lambda>n. n \<noteq> 0 \<and> n \<notin> usedGIDs e) draws = Some n"
    "res = Inr n" "e' = e\<lparr>usedGIDs := insert n (usedGIDs e)\<rparr>"
    using assms by (auto simp: gidForOptions_def nextGIDLocked_def split: option.splits)
  then have "n \<noteq> 0 \<and> n \<notin> usedGIDs e" by (auto simp: find_Some_iff)
  with n show ?thesis using gid by blast
next
  case False
  note e = assms [unfolded gidForOptions_def if_not_P [OF False]]
  show ?thesis
  proof (cases "ParseGID (opt_string opts ''gid'')")
    case (Inl err)
    then show ?thesis using e error [of ErrInvalidGID] by simp
  next
    case (Inr g)
    show ?thesis
    proof (cases "g = 0 \<or> group e g \<noteq> None \<or> g \<in> usedGIDs e")
      case True
      then have "\<exists>err. res = Inl err" "e' = e" using e Inr by (auto split: if_splits)
      then show ?thesis using error by blast
    next
      case False
      then show ?thesis using e Inr gid [of g] by simp
    qed
  qed
qed

lemma applyRequestGroupRuntimeOptions_same:
  assumes "applyRequestGroupRuntimeOptions opts rg = Inr rg'"
  shows "rg_gid rg' = rg_gid rg" and "rg_state rg' = rg_state rg"
  using assms by (auto simp: applyRequestGroupRuntimeOptions_def split: sum.splits)

lemma inv_insert_waiting:
  assumes inv: "engine_inv e" and g: "g \<noteq> 0" "g \<notin> usedGIDs e" and rg: "rg_gid rg = g" "rg_state rg = StatusWaiting"
  shows "engine_inv (insert_waiting spec g (put_group g rg (e\<lparr>usedGIDs := insert g (usedGIDs e)\<rparr>)))"
proof -
  have q: "g \<notin> queued e" using inv g by (auto simp: inv_defs)
  let ?e = "insert_waiting spec g (put_group g rg (e\<lparr>usedGIDs := insert g (usedGIDs e)\<rparr>))"
  obtain pos where w: "waiting ?e = insert_at pos g (waiting e)" by (simp add: insert_waiting_def Let_def)
  have f: "active ?e = active e" "usedGIDs ?e = insert g (usedGIDs e)" "ring ?e = ring e" "cfg ?e = cfg e"
    "queued ?e = insert g (queued e)" "group ?e h = (if h = g then Some rg else group e h)" for h
    using w by (auto simp: insert_waiting_def put_group_def queued_def Let_def)
  have "distinct (waiting ?e)" "set (waiting ?e) = insert g (set (waiting e))"
    using inv q unfolding w by (auto simp: inv_defs)
  then have "queues_ok ?e" using inv q g rg unfolding engine_inv_def queues_ok_def f
    by (auto simp: state_ok_def f queued_def)
  moreover have "store_ok ?e"
    using inv q g unfolding engine_inv_def store_ok_def f by blast
  ultimately show ?thesis using inv by (simp add: engine_inv_def f)
qed

lemma inv_Add:
  assumes "Add draws spec e = Some (res, e')" and inv: "engine_inv e"
  shows "engine_inv e'"
proof (cases "URIs spec = [] \<and> Torrent spec = [] \<and> Metalink spec = [] \<or> shuttingDown e")
  case True
  then show ?thesis using assms by (auto simp: Add_def split: if_splits)
next
  case False
  define sopts where "sopts = (case spec_Options spec of None \<Rightarrow> empty_Options | Some opts \<Rightarrow> opts)"
  define opts where "opts = Merge [Some (cfg e), Some sopts]"
  obtain res1 e1 where gid: "gidForOptions draws opts e = Some (res1, e1)"
    using assms(1) False by (auto simp: Add_def Let_def sopts_def opts_def split: option.splits)
  from gid show ?thesis
  proof (cases rule: gidForOptions_cases)
    case (error err)
    then show ?thesis using assms(1) False gid inv
      by (auto simp: Add_def Let_def simp flip: sopts_def opts_def)
  next
    case g: (gid g)
    let ?rg = "new_group spec opts (CloneExplicitOptions (Some sopts)) g (keepRunning e1)"
    have "engine_inv (insert_waiting spec g (put_group g rg' e1))" if "applyRequestGroupRuntimeOptions opts ?rg = Inr rg'" for rg'
      unfolding g(4) by (rule inv_insert_waiting [OF inv g(2,3)])
        (use applyRequestGroupRuntimeOptions_same [OF that] in \<open>auto simp: new_group_def\<close>)
    moreover have "engine_inv e1" unfolding g(4) by (rule inv_use_gid [OF inv g(2)])
    ultimately show ?thesis using assms(1) False gid g(1)
      by (auto simp: Add_def Let_def simp flip: sopts_def opts_def split: sum.splits)
  qed
qed

text \<open>An active download goes back to the front of the queue.\<close>

lemma inv_requeue:
  assumes inv: "engine_inv e" and g: "group e g = Some rg" and a: "g \<in> set (active e)"
    and rg: "rg_gid rg' = g" "rg_state rg' = StatusWaiting"
    and e': "active e' = remove1 g (active e)" "waiting e' = g # waiting e" "usedGIDs e' = usedGIDs e"
      "ring e' = ring e" "cfg e' = cfg e" "groups e' = gids_set (groups e) g rg'"
  shows "engine_inv e'"
proof -
  have q: "queued e' = queued e" using a inv by (auto simp: inv_defs e')
  have "queues_ok e'" using inv a rg unfolding engine_inv_def queues_ok_def q e' gid_laws
    by (auto simp: state_ok_def e' queued_def)
  then show ?thesis using inv by (simp add: engine_inv_def store_ok_def q e')
qed

lemma inv_Pause: "engine_inv e \<Longrightarrow> engine_inv (snd (Pause g force e))"
proof (cases "group e g")
  case (Some rg)
  assume inv: "engine_inv e"
  have put: "engine_inv (put_group g rg' e)" if "rg_gid rg' = rg_gid rg" "rg_state rg' = rg_state rg" for rg'
    by (rule engine_inv_put [OF inv Some that])
  note gid = inv_groupD(1) [OF inv Some] and act = inv_groupD(5) [OF inv Some]
  show ?thesis
  proof (cases "rg_state rg = StatusActive \<and> \<not> rg_pauseReq rg \<and> rg_ctx rg = None")
    case True
    then show ?thesis
      using Some gid act
      by (intro inv_requeue [OF inv Some, of _ "snd (Pause g force e)"])
         (auto simp: Pause_def Let_def moveFromActiveLocked_def put_group_def)
  qed (use inv put Some in \<open>auto simp: Pause_def Let_def rg_cancel_def\<close>)
qed (simp add: Pause_def)

lemma inv_Resume: "engine_inv e \<Longrightarrow> engine_inv (snd (Resume g e))"
  by (auto simp: Resume_def intro: engine_inv_put split: option.split)

lemma Remove_inv:
  assumes inv: "engine_inv e"
  shows "\<exists>res e'. Remove g force e = Some (res, e') \<and> engine_inv e'"
proof (cases "group e g")
  case (Some rg)
  note put = engine_inv_put [OF inv Some] and gid = inv_groupD(1) [OF inv Some]
  let ?rg = "rg\<lparr>rg_haltRequested := True, rg_forceHaltReq := force, rg_haltReason := haltReasonUserRequest,
    rg_pauseReq := False, rg_restartReq := False\<rparr>"
  have dist: "distinct (active e)" "distinct (waiting e)" "set (active e) \<inter> set (waiting e) = {}"
    using inv by (auto simp: inv_defs)
  consider (stop) "rg_state rg = StatusActive" "rg_ctx rg = None" | (cancel) "rg_state rg = StatusActive" "rg_ctx rg \<noteq> None"
    | (wait) "rg_state rg = StatusWaiting"
    using inv_groupD(2,5,6) [OF inv Some] by (auto simp: queued_def)
  then show ?thesis
  proof cases
    case stop
    have "g \<notin> set (waiting e)" using stop inv_groupD(5) [OF inv Some] dist by auto
    then show ?thesis
      using finish_group [OF inv Some, of ?rg "moveFromActiveLocked g e" StatusRemoved ExitRemoved "[]"] stop Some gid
      by (auto simp: Remove_def Let_def moveFromActiveLocked_def remove1_idem option.map_comp o_def)
  next
    case cancel
    then show ?thesis using Some put by (auto simp: Remove_def Let_def rg_cancel_def)
  next
    case wait
    have a: "g \<notin> set (active e)" using wait inv_groupD(6) [OF inv Some] dist by auto
    let ?e = "delete_group g (moveFromWaitingLocked g e)"
    have q: "queued ?e = queued e - {g}" using dist a by (auto simp: queued_def moveFromWaitingLocked_def)
    have "queues_ok ?e" using inv dist a unfolding engine_inv_def queues_ok_def q
      by (auto simp: moveFromWaitingLocked_def state_ok_def queued_def delete_group_def)
    moreover have "store_ok ?e" using inv unfolding engine_inv_def store_ok_def q
      by (auto simp: moveFromWaitingLocked_def)
    ultimately have "engine_inv ?e" using inv by (simp add: engine_inv_def moveFromWaitingLocked_def)
    then show ?thesis using wait Some by (simp add: Remove_def Let_def)
  qed
qed (use inv in \<open>simp add: Remove_def\<close>)

lemma inv_ring:
  assumes inv: "engine_inv e" and rel: "\<And>xs. ring_rel (ring e) xs \<Longrightarrow> \<exists>ys. ring_rel r ys \<and> dr_gid ` set ys \<subseteq> dr_gid ` set xs"
    and len: "length (ring_buf r) = length (ring_buf (ring e))"
  shows "engine_inv (e\<lparr>ring := r\<rparr>)"
proof -
  obtain xs where xs: "ring_rel (ring e) xs" "dr_gid ` set xs \<subseteq> usedGIDs e - queued e"
    using inv by (auto simp: engine_inv_def store_ok_def)
  then obtain ys where "ring_rel r ys" "dr_gid ` set ys \<subseteq> dr_gid ` set xs" using rel by blast
  then have "store_ok (e\<lparr>ring := r\<rparr>)" using inv xs(2) len by (auto simp: engine_inv_def store_ok_def queued_def)
  then show ?thesis using inv by (simp add: engine_inv_def queues_ok_def queued_def state_ok_def)
qed

lemma ring_nonempty_rel: "engine_inv e \<Longrightarrow> \<exists>xs. ring_rel (ring e) xs"
  by (auto simp: engine_inv_def store_ok_def)

lemma inv_Purge: "engine_inv e \<Longrightarrow> engine_inv (snd (PurgeDownloadResult e))"
proof -
  assume inv: "engine_inv e"
  then obtain xs where xs: "ring_rel (ring e) xs" using ring_nonempty_rel by blast
  have "\<exists>ys. ring_rel (clear_slots (ring e)) ys \<and> dr_gid ` set ys \<subseteq> dr_gid ` set zs" for zs
    using clear_slots_rel(1) [OF xs] by (intro exI [of _ "[]"]) simp
  then have "engine_inv (e\<lparr>ring := clear_slots (ring e)\<rparr>)"
    using clear_slots_rel(2) [OF xs] by (intro inv_ring [OF inv])
  then show ?thesis by (simp add: PurgeDownloadResult_def purge_def)
qed

lemma inv_RemoveDownloadResult: "engine_inv e \<Longrightarrow> engine_inv (snd (RemoveDownloadResult g e))"
proof -
  assume inv: "engine_inv e"
  then obtain xs where xs: "ring_rel (ring e) xs" using ring_nonempty_rel by blast
  have "\<exists>ys. ring_rel (fst (removeByGID (ring e) g)) ys \<and> dr_gid ` set ys \<subseteq> dr_gid ` set zs" if "ring_rel (ring e) zs" for zs
    using ring_remove(1) [OF that, of g] by (intro exI [of _ "filter (\<lambda>d. dr_gid d \<noteq> g) zs"]) auto
  then have "engine_inv (e\<lparr>ring := fst (removeByGID (ring e) g)\<rparr>)"
    using ring_remove(3) [OF xs] by (intro inv_ring [OF inv])
  then show ?thesis using inv by (auto simp: RemoveDownloadResult_def split: prod.split bool.split)
qed

text \<open>Replacing the options of a result in place.\<close>

lemma ring_mergeOptions:
  assumes rel: "ring_rel r xs"
  shows "\<exists>ys. ring_rel (fst (mergeOptions M r g opts)) ys \<and> map dr_gid ys = map dr_gid xs"
    and "length (ring_buf (fst (mergeOptions M r g opts))) = length (ring_buf r)"
proof -
  show "length (ring_buf (fst (mergeOptions M r g opts))) = length (ring_buf r)"
    by (auto simp: mergeOptions_def Let_def split: option.split)
  show "\<exists>ys. ring_rel (fst (mergeOptions M r g opts)) ys \<and> map dr_gid ys = map dr_gid xs"
  proof (cases "ring_index r g")
    case (Some p)
    then obtain i where i: "i < length xs" "p = (ring_head r + i) mod length (ring_buf r)"
      using rel by (auto simp: ring_rel_def idx_ok_def)
    let ?d = "the (ring_buf r ! p)" let ?d' = "?d\<lparr>dr_opts := Some (M (dr_opts ?d) opts)\<rparr>"
    have rep: "rep (ring_buf r) (ring_head r) xs" using rel by (simp add: ring_rel_def)
    then have d: "?d = xs ! i" using rep_nth [OF rep i(1)] i(2) by simp
    have inj: "(ring_head r + j) mod length (ring_buf r) = p \<longleftrightarrow> j = i" if "j < length xs" for j
      using mod_add_inj [of "ring_head r" j "length (ring_buf r)" i] rep i that by (auto simp: rep_def)
    have p: "p < length (ring_buf r)" using i rep by (auto simp: rep_def intro: mod_less_divisor)
    have gids: "map dr_gid (xs[i := ?d']) = map dr_gid xs" using i(1) d by (simp add: map_update list_update_same_conv)
    have "(ring_buf r)[p := Some ?d'] ! ((ring_head r + j) mod length (ring_buf r)) = Some (xs[i := ?d'] ! j)"
      if "j < length xs" for j
    proof (cases "j = i")
      case True
      then show ?thesis using inj [OF that] p that by simp
    next
      case False
      then have "(ring_head r + j) mod length (ring_buf r) \<noteq> p" using inj [OF that] by simp
      then show ?thesis using False rep_nth [OF rep that] by simp
    qed
    then have "rep ((ring_buf r)[p := Some ?d']) (ring_head r) (xs[i := ?d'])"
      using rep by (simp add: rep_def)
    moreover have "dr_gid (xs[i := ?d'] ! j) = dr_gid (xs ! j)" if "j < length xs" for j
      using that gids by (metis length_list_update nth_map)
    ultimately have "ring_rel (r\<lparr>ring_buf := (ring_buf r)[p := Some ?d']\<rparr>) (xs[i := ?d'])"
      using rel gids by (auto simp: ring_rel_def idx_ok_def)
    then show ?thesis using rel gids Some by (auto simp: mergeOptions_def Let_def)
  qed (use rel in \<open>auto simp: mergeOptions_def\<close>)
qed

lemma inv_ChangeOption: "engine_inv e \<Longrightarrow> engine_inv (snd (ChangeOption g opts e))"
proof (cases opts)
  case (Some o')
  assume inv: "engine_inv e"
  show ?thesis
  proof (cases "group e g")
    case None
    obtain xs where xs: "ring_rel (ring e) xs" using ring_nonempty_rel [OF inv] by blast
    let ?r = "fst (mergeOptions (\<lambda>old new. Merge [old, Some new]) (ring e) g o')"
    have "\<exists>ys. ring_rel ?r ys \<and> dr_gid ` set ys \<subseteq> dr_gid ` set zs" if zs: "ring_rel (ring e) zs" for zs
    proof -
      obtain ys where ys: "ring_rel ?r ys" "map dr_gid ys = map dr_gid zs" using ring_mergeOptions(1) [OF zs] by blast
      have "dr_gid ` set ys = dr_gid ` set zs" using arg_cong [OF ys(2), of set] by simp
      then show ?thesis using ys(1) by blast
    qed
    then have "engine_inv (e\<lparr>ring := ?r\<rparr>)" using ring_mergeOptions(2) [OF xs] by (intro inv_ring [OF inv])
    then show ?thesis using inv None Some by (auto simp: ChangeOption_def split: prod.split bool.split)
  next
    fix rg assume rg: "group e g = Some rg"
    have put: "engine_inv (put_group g rg' e)" if "rg_gid rg' = rg_gid rg" "rg_state rg' = rg_state rg" for rg'
      by (rule engine_inv_put [OF inv rg that])
    have "\<exists>rg'. snd (ChangeOption g opts e) = put_group g rg' e \<and> rg_gid rg' = rg_gid rg \<and> rg_state rg' = rg_state rg"
      using Some rg applyRequestGroupRuntimeOptions_same
      by (auto simp: ChangeOption_def Let_def rg_cancel_def applyRequestGroupRuntimeOptionPatch_def split: sum.split)
    then show ?thesis using put by auto
  qed
qed (simp add: ChangeOption_def)

lemma find_index_remove1:
  "find_index (\<lambda>y. y = x) xs = Some i \<Longrightarrow> take i xs @ drop (i + 1) xs = remove1 x xs"
  by (induction xs arbitrary: i) (auto split: if_splits)

lemma inv_waiting:
  assumes inv: "engine_inv e" and ws: "distinct ws" "set ws = set (waiting e)"
  shows "engine_inv (e\<lparr>waiting := ws\<rparr>)"
  using assms unfolding inv_defs by auto

lemma inv_ChangePosition: "engine_inv e \<Longrightarrow> engine_inv (snd (ChangePosition g pos how e))"
proof -
  assume inv: "engine_inv e"
  have dist: "distinct (waiting e)" using inv by (auto simp: inv_defs)
  have "engine_inv (e\<lparr>waiting := insert_at k g (take i (waiting e) @ drop (i + 1) (waiting e))\<rparr>)"
    if i: "find_index (\<lambda>y. y = g) (waiting e) = Some i" for i k
  proof (rule inv_waiting [OF inv])
    have "g \<in> set (waiting e)" using find_index_Some [OF i] by auto
    then show "set (insert_at k g (take i (waiting e) @ drop (i + 1) (waiting e))) = set (waiting e)"
      "distinct (insert_at k g (take i (waiting e) @ drop (i + 1) (waiting e)))"
      using dist unfolding find_index_remove1 [OF i] by auto
  qed
  then show ?thesis using inv by (auto simp: ChangePosition_def Let_def split: option.split)
qed

lemma inv_ChangeURI: "engine_inv e \<Longrightarrow> engine_inv (snd (ChangeURIWithPosition valid g i dels adds pos posSet e))"
  by (auto simp: ChangeURIWithPosition_def Let_def intro: engine_inv_put split: option.split prod.split)

text \<open>The addresses a change adds end up next to each other at its position.\<close>

lemma add_uris_block:
  assumes "pos \<le> length uris"
  shows "add_uris valid adds pos uris =
    (let new = List.map_filter (normalizeChangeURI valid) adds in (take pos uris @ new @ drop pos uris, length new))"
  using assms
proof (induction adds arbitrary: pos uris)
  case (Cons a adds)
  then show ?case by (auto simp: insert_at_def map_filter_simps Let_def split: option.split)
qed (simp add: map_filter_simps)

text \<open>What \<open>removeStoppedGroup\<close> does with one active download: the other active ones stay.\<close>

lemma pause_stopped_fields:
  "active (pause_stopped g rg e) = active e" "waiting (pause_stopped g rg e) = g # waiting e"
  "usedGIDs (pause_stopped g rg e) = usedGIDs e" "ring (pause_stopped g rg e) = ring e" "cfg (pause_stopped g rg e) = cfg e"
  "\<exists>rg'. groups (pause_stopped g rg e) = gids_set (groups e) g rg' \<and> rg_gid rg' = rg_gid rg \<and> rg_state rg' = StatusWaiting"
proof -
  show "active (pause_stopped g rg e) = active e" "waiting (pause_stopped g rg e) = g # waiting e"
    "usedGIDs (pause_stopped g rg e) = usedGIDs e" "ring (pause_stopped g rg e) = ring e" "cfg (pause_stopped g rg e) = cfg e"
    by (simp_all add: pause_stopped_def Let_def)
  have same: "rg_gid (case applyRequestGroupRuntimeOptions opts r of Inl err \<Rightarrow> r | Inr r' \<Rightarrow> r') = rg_gid r \<and>
      rg_state (case applyRequestGroupRuntimeOptions opts r of Inl err \<Rightarrow> r | Inr r' \<Rightarrow> r') = rg_state r" for opts r
    using applyRequestGroupRuntimeOptions_same by (auto split: sum.split)
  show "\<exists>rg'. groups (pause_stopped g rg e) = gids_set (groups e) g rg' \<and> rg_gid rg' = rg_gid rg \<and> rg_state rg' = StatusWaiting"
    by (auto simp: pause_stopped_def put_group_def Let_def same split: option.split)
qed

lemma process_stopped_inv:
  assumes inv: "engine_inv e" and g: "g \<in> set (active e)"
  shows "\<exists>e'. process_stopped g e = Some e' \<and> engine_inv e' \<and> active e' = remove1 g (active e)"
proof -
  obtain rg where rg: "group e g = Some rg" using inv g by (force simp: engine_inv_def queues_ok_def queued_def)
  note gid = inv_groupD(1) [OF inv rg]
  have w: "g \<notin> set (waiting e)" using inv g by (auto simp: inv_defs)
  let ?e = "moveFromActiveLocked g e"
  have e: "active ?e = remove1 g (active e)" "waiting ?e = remove1 g (waiting e)" "usedGIDs ?e = usedGIDs e"
    "ring ?e = ring e" "cfg ?e = cfg e" "groups ?e = groups e" "waiting ?e = waiting e"
    using w by (simp_all add: moveFromActiveLocked_def remove1_idem)
  note finish = finish_group [OF inv rg gid e(1-6)]
  show ?thesis
  proof (cases "rg_pauseReq rg")
    case True
    obtain rg' where "groups (pause_stopped g rg ?e) = gids_set (groups e) g rg'" "rg_gid rg' = g" "rg_state rg' = StatusWaiting"
      using pause_stopped_fields(6) [of g rg ?e] e gid by auto
    then have "engine_inv (pause_stopped g rg ?e)"
      by (intro inv_requeue [OF inv rg g]) (simp_all add: pause_stopped_fields e(1,3-7))
    then show ?thesis using True rg by (simp add: process_stopped_def pause_stopped_fields e)
  next
    case False
    then show ?thesis using rg finish
      by (cases "rg_haltRequested rg")
         (fastforce simp: process_stopped_def halt_stopped_def complete_stopped_def Let_def split: prod.split)+
  qed
qed

text \<open>A fold over a copied queue.\<close>

lemma each_gid_inv:
  assumes "\<And>g e. g \<in> set gs \<Longrightarrow> engine_inv e \<Longrightarrow> g \<in> set (q e) \<Longrightarrow>
      \<exists>e'. f g e = Some e' \<and> engine_inv e' \<and> q e' = remove1 g (q e) \<and> p e' = p e"
    and "engine_inv e" and "set gs \<subseteq> set (q e)" and "distinct gs" and "distinct (q e)"
  shows "\<exists>e'. each_gid f gs e = Some e' \<and> engine_inv e' \<and> q e' = filter (\<lambda>g. g \<notin> set gs) (q e) \<and> p e' = p e"
  using assms
proof (induction gs arbitrary: e)
  case (Cons g gs)
  obtain e' where e': "f g e = Some e'" "engine_inv e'" "q e' = remove1 g (q e)" "p e' = p e"
    using Cons(2) [of g e] Cons(3,4) by auto
  have q: "q e' = filter (\<lambda>h. h \<noteq> g) (q e)"
    using Cons(6) unfolding e' by (simp add: distinct_remove1_removeAll removeAll_filter_not_eq) (rule filter_cong, auto)
  have "set gs \<subseteq> set (q e')" using Cons(4,5) unfolding q by auto
  moreover have "filter (\<lambda>h. h \<notin> set gs) (q e') = filter (\<lambda>h. h \<notin> set (g # gs)) (q e)"
    unfolding q by (auto intro: filter_cong)
  ultimately show ?case using Cons(1) [OF _ e'(2)] Cons(2,5,6) e'(1,4) q by (auto simp: each_gid_def)
qed (simp add: each_gid_def)

lemma removeStoppedGroup_inv:
  assumes inv: "engine_inv e"
  shows "\<exists>e'. removeStoppedGroup e = Some e' \<and> engine_inv e'"
proof -
  let ?gs = "filter (\<lambda>gid. case group e gid of None \<Rightarrow> False | Some rg \<Rightarrow> ctx_done e rg) (active e)"
  have "\<exists>e'. each_gid process_stopped ?gs e = Some e' \<and> engine_inv e' \<and> active e' = filter (\<lambda>g. g \<notin> set ?gs) (active e) \<and> () = ()"
    using inv process_stopped_inv by (intro each_gid_inv) (auto simp: inv_defs)
  then show ?thesis by (auto simp: removeStoppedGroup_def Let_def)
qed

lemma end_active_inv:
  assumes inv: "engine_inv e" and g: "g \<in> set (active e)"
  shows "\<exists>e'. end_active g e = Some e' \<and> engine_inv e' \<and> active e' = remove1 g (active e) \<and> waiting e' = waiting e"
proof -
  obtain rg where rg: "group e g = Some rg" using inv g by (force simp: engine_inv_def queues_ok_def queued_def)
  have w: "g \<notin> set (waiting e)" using inv g by (auto simp: inv_defs)
  have st: "rg_state rg = StatusActive" using inv_groupD(5) [OF inv rg] g by simp
  have fin: "\<exists>e''. map_option (delete_group g) (addStoppedLocked rg st' c m e') = Some e'' \<and> engine_inv e'' \<and>
      active e'' = remove1 g (active e) \<and> waiting e'' = waiting e"
    if "active e' = remove1 g (active e)" "waiting e' = waiting e" "usedGIDs e' = usedGIDs e"
      "ring e' = ring e" "cfg e' = cfg e" "groups e' = groups e" for e' st' c m
    using finish_group [OF inv rg inv_groupD(1) [OF inv rg], of e' st' c m] that w by (simp add: remove1_idem)
  show ?thesis
    unfolding end_active_def rg st option.case Let_def errorStatus_def prod.case
    by (simp only: simp_thms if_False, rule fin) (simp_all add: moveFromActiveLocked_def)
qed

lemma end_waiting_inv:
  assumes inv: "engine_inv e" and g: "g \<in> set (waiting e)"
  shows "\<exists>e'. end_waiting g e = Some e' \<and> engine_inv e' \<and> waiting e' = remove1 g (waiting e) \<and> active e' = active e"
proof -
  obtain rg where rg: "group e g = Some rg" using inv g by (force simp: engine_inv_def queues_ok_def queued_def)
  have a: "g \<notin> set (active e)" using inv g by (auto simp: inv_defs)
  show ?thesis
    using finish_group [OF inv rg inv_groupD(1) [OF inv rg], of "moveFromWaitingLocked g e"
        "if rg_pauseReq rg then StatusError else StatusRemoved" ExitRemoved "''shutdown''"] a rg
    by (auto simp: end_waiting_def moveFromWaitingLocked_def remove1_idem)
qed

lemma onEndOfRun_inv:
  assumes inv: "engine_inv e"
  shows "\<exists>e'. onEndOfRun e = Some e' \<and> engine_inv e' \<and> active e' = [] \<and> waiting e' = []"
proof -
  let ?e = "e\<lparr>shutdownHadActive := (active e \<noteq> []), shutdownExitPending := False, shutdownExitLastErr := ExitSuccess\<rparr>"
  have d: "distinct (active e)" "distinct (waiting e)" using inv by (auto simp: inv_defs)
  have "engine_inv ?e" by (rule engine_inv_cong [OF inv]) simp_all
  then have "\<exists>e'. each_gid end_active (active e) ?e = Some e' \<and> engine_inv e' \<and>
      active e' = filter (\<lambda>g. g \<notin> set (active e)) (active ?e) \<and> waiting e' = waiting ?e"
    using d end_active_inv by (intro each_gid_inv) auto
  then obtain e' where e': "each_gid end_active (active e) ?e = Some e'" "engine_inv e'" "active e' = []" "waiting e' = waiting e"
    by (auto simp: filter_empty_conv)
  moreover have "\<exists>e''. each_gid end_waiting (waiting e) e' = Some e'' \<and> engine_inv e'' \<and>
      waiting e'' = filter (\<lambda>g. g \<notin> set (waiting e)) (waiting e') \<and> active e'' = active e'"
    using e' d end_waiting_inv by (intro each_gid_inv) auto
  ultimately show ?thesis by (auto simp: onEndOfRun_def Let_def filter_empty_conv)
qed

text \<open>Promotion takes downloads from the front of the queue, skips the paused ones and stops when the
  free slots are used up.\<close>

lemma promote_loop_parts:
  assumes "promote_loop ws lookup n = (promoted, pending, left)" and "\<forall>g\<in>set ws. lookup g \<noteq> None"
  shows "mset ws = mset promoted + mset pending + mset left" and "length promoted \<le> n"
    and "\<forall>g\<in>set promoted. \<not> rg_pauseReq (the (lookup g))" and "\<forall>g\<in>set pending. rg_pauseReq (the (lookup g))"
    and "length promoted < n \<Longrightarrow> left = []"
proof -
  have "mset ws = mset promoted + mset pending + mset left \<and> length promoted \<le> n \<and>
    (\<forall>g\<in>set promoted. \<not> rg_pauseReq (the (lookup g))) \<and> (\<forall>g\<in>set pending. rg_pauseReq (the (lookup g))) \<and>
    (length promoted < n \<longrightarrow> left = [])"
    using assms
  proof (induction ws arbitrary: n promoted pending left)
    case (Cons g ws)
    show ?case
    proof (cases n)
      case 0
      then show ?thesis using Cons(2) by auto
    next
      case (Suc k)
      obtain rg where rg: "lookup g = Some rg" using Cons(3) by auto
      obtain p q l where pql: "promote_loop ws lookup (if rg_pauseReq rg then n else k) = (p, q, l)"
        by (metis prod_cases3)
      with Cons(1) [OF pql] Cons(2,3) Suc rg show ?thesis by (auto split: if_splits)
    qed
  qed auto
  then show "mset ws = mset promoted + mset pending + mset left" and "length promoted \<le> n"
    and "\<forall>g\<in>set promoted. \<not> rg_pauseReq (the (lookup g))" and "\<forall>g\<in>set pending. rg_pauseReq (the (lookup g))"
    and "length promoted < n \<Longrightarrow> left = []" by auto
qed

lemma fold_activate:
  assumes "\<forall>g\<in>set ps. group e g \<noteq> None"
  shows "active (fold activate ps e) = active e @ ps" "waiting (fold activate ps e) = waiting e"
    "usedGIDs (fold activate ps e) = usedGIDs e" "ring (fold activate ps e) = ring e" "cfg (fold activate ps e) = cfg e"
    "group (fold activate ps e) g =
       (if g \<in> set ps then map_option (\<lambda>rg. rg\<lparr>rg_state := StatusActive\<rparr>) (group e g) else group e g)"
proof -
  have "active (fold activate ps e) = active e @ ps \<and> waiting (fold activate ps e) = waiting e \<and>
    usedGIDs (fold activate ps e) = usedGIDs e \<and> ring (fold activate ps e) = ring e \<and> cfg (fold activate ps e) = cfg e \<and>
    group (fold activate ps e) g =
       (if g \<in> set ps then map_option (\<lambda>rg. rg\<lparr>rg_state := StatusActive\<rparr>) (group e g) else group e g)"
    using assms
  proof (induction ps arbitrary: e)
    case (Cons p ps)
    obtain rg where rg: "group e p = Some rg" using Cons(2) by auto
    let ?e = "activate p e"
    have e: "active ?e = active e @ [p]" "waiting ?e = waiting e" "usedGIDs ?e = usedGIDs e" "ring ?e = ring e" "cfg ?e = cfg e"
      "group ?e h = (if h = p then Some (rg\<lparr>rg_state := StatusActive\<rparr>) else group e h)" for h
      using rg by (simp_all add: activate_def put_group_def)
    have "\<forall>g\<in>set ps. group ?e g \<noteq> None" using Cons(2) unfolding e(6) by auto
    from Cons(1) [OF this] show ?case unfolding e by (auto simp: rg)
  qed simp
  then show "active (fold activate ps e) = active e @ ps" "waiting (fold activate ps e) = waiting e"
    "usedGIDs (fold activate ps e) = usedGIDs e" "ring (fold activate ps e) = ring e" "cfg (fold activate ps e) = cfg e"
    "group (fold activate ps e) g =
       (if g \<in> set ps then map_option (\<lambda>rg. rg\<lparr>rg_state := StatusActive\<rparr>) (group e g) else group e g)" by auto
qed

lemma promote_cases:
  assumes inv: "engine_inv e"
  obtains (full) "maxConcurrent e \<le> length (active e)" "promote e = e"
  | (room) promoted pending left where
      "promote_loop (waiting e) (group e) (maxConcurrent e - length (active e)) = (promoted, pending, left)"
      "length (active e) < maxConcurrent e"
      "mset (waiting e) = mset promoted + mset pending + mset left"
      "active (promote e) = active e @ promoted" "waiting (promote e) = pending @ left"
      "usedGIDs (promote e) = usedGIDs e" "ring (promote e) = ring e" "cfg (promote e) = cfg e"
      "\<And>g. group (promote e) g =
         (if g \<in> set promoted then map_option (\<lambda>rg. rg\<lparr>rg_state := StatusActive\<rparr>) (group e g) else group e g)"
proof (cases "maxConcurrent e \<le> length (active e)")
  case True
  then show ?thesis using full by (simp add: promote_def Let_def)
next
  case False
  obtain promoted pending left where
    pl: "promote_loop (waiting e) (group e) (maxConcurrent e - length (active e)) = (promoted, pending, left)"
    by (metis prod_cases3)
  have some: "\<forall>g\<in>set (waiting e). group e g \<noteq> None" using inv by (auto simp: inv_defs)
  note parts = promote_loop_parts [OF pl some]
  have "set promoted \<subseteq> set (waiting e)" using arg_cong [OF parts(1), of set_mset] by auto
  then have "\<forall>g\<in>set promoted. group (e\<lparr>waiting := pending @ left\<rparr>) g \<noteq> None" using some by auto
  note act = fold_activate [OF this]
  show ?thesis
    by (rule room [OF pl _ parts(1)]) (use False pl act in \<open>auto simp: promote_def emitBatch_def Let_def\<close>)
qed

lemma inv_promote: "engine_inv e \<Longrightarrow> engine_inv (promote e)"
proof -
  assume inv: "engine_inv e"
  then show ?thesis
  proof (cases rule: promote_cases)
    case (room promoted pending left)
    have sets: "set (waiting e) = set promoted \<union> set pending \<union> set left"
      using arg_cong [OF room(3), of set_mset] by auto
    have dist: "distinct (active e @ waiting e)" using inv by (simp add: inv_defs)
    then have "distinct (promoted @ pending @ left)"
      using room(3) by (metis distinct_append mset_append mset_eq_imp_distinct_iff union_assoc)
    then have "distinct (active (promote e) @ waiting (promote e))" "queued (promote e) = queued e"
      using dist sets unfolding queued_def room by auto
    then have "queues_ok (promote e)" using inv sets unfolding engine_inv_def queues_ok_def room
      by (auto simp: state_ok_def room split: if_splits)
    moreover have "store_ok (promote e)" using inv \<open>queued (promote e) = queued e\<close> unfolding engine_inv_def store_ok_def room by simp
    ultimately show ?thesis using inv by (simp add: engine_inv_def room)
  qed (simp add: inv)
qed

lemma inv_launch: "engine_inv e \<Longrightarrow> engine_inv (launch e)"
proof (cases "promotedGIDs e")
  case (Cons g rest)
  assume inv: "engine_inv e"
  have e: "engine_inv (e\<lparr>promotedGIDs := rest\<rparr>)" by (rule engine_inv_cong [OF inv]) simp_all
  then have "engine_inv (put_group g (rg\<lparr>rg_ctx := Some False\<rparr>) (e\<lparr>promotedGIDs := rest\<rparr>))" if "group e g = Some rg" for rg
    using that by (intro engine_inv_put [OF e, of g rg]) simp_all
  then show ?thesis using Cons e by (auto simp: launch_def split: option.split)
qed (simp add: launch_def)

lemma inv_worker_error: "engine_inv e \<Longrightarrow> engine_inv (worker_error g code msg e)"
  by (auto simp: worker_error_def setError_def intro: engine_inv_put split: option.split)

lemma inv_worker_return: "engine_inv e \<Longrightarrow> engine_inv (worker_return g e)"
  by (auto simp: worker_return_def rg_cancel_def intro: engine_inv_put split: option.split)

lemma inv_worker_canceled: "engine_inv e \<Longrightarrow> engine_inv (worker_canceled g e)"
  by (auto simp: worker_canceled_def markTransferCanceled_def setError_def intro: engine_inv_put split: option.split)

lemma engine_ctx_inv: "engine_inv e \<Longrightarrow> engine_inv (e\<lparr>engine_ctx := c\<rparr>)"
  by (erule engine_inv_cong) simp_all

lemma inv_cancelIfIdle: "engine_inv e \<Longrightarrow> engine_inv (cancelIfIdle e)"
  by (auto simp: cancelIfIdle_def Let_def intro: engine_ctx_inv)

lemma inv_start_run: "engine_inv e \<Longrightarrow> engine_inv (start_run e)"
  by (erule engine_inv_cong) (simp_all add: start_run_def)

lemma inv_markActiveShutdown: "engine_inv e \<Longrightarrow> engine_inv (markActiveShutdown force e)"
  unfolding markActiveShutdown_def
  by (rule fold_invariant [where Q = "\<lambda>_. True"])
     (auto simp: Let_def intro: engine_inv_put split: option.split)

lemma inv_Shutdown: "engine_inv e \<Longrightarrow> engine_inv (snd (Shutdown force e))"
proof -
  assume inv: "engine_inv e"
  have flags: "engine_inv (cancel_engine (e'\<lparr>haltReq := True\<rparr>))" if "engine_inv e'" for e'
    using that by (auto simp: cancel_engine_def elim: engine_inv_cong)
  have "engine_inv (e\<lparr>shuttingDown := True\<rparr>)" by (rule engine_inv_cong [OF inv]) simp_all
  then show ?thesis using inv by (auto simp: Shutdown_def intro!: flags inv_markActiveShutdown)
qed

text \<open>A change of the global options is well behaved when the options come from a parser: every option
  it gives a value is marked.\<close>

definition marked :: "Options \<Rightarrow> bool" where
  "marked opts \<longleftrightarrow> explicit opts = {} \<or> (opt_int opts ''max-download-result'' \<noteq> 0 \<longrightarrow> ''max-download-result'' \<in> explicit opts)"

lemma max_results_field: "(''max-download-result'', KInt) \<in> set option_fields"
  unfolding option_fields_def option_fields_1_def option_fields_2_def by simp

lemma Merge_two: "Merge [Some c, Some opts] = mergeInto (mergeInto empty_Options c) opts"
  by (simp add: Merge_def)

lemma Merge_max_results:
  assumes "well_typed c" and "well_typed opts" and "marked opts"
    and "\<not> optionChangeRequested opts ''max-download-result'' (opt_int opts ''max-download-result'' \<noteq> 0)"
  shows "maxResults (Merge [Some c, Some opts]) = maxResults c"
proof -
  have kind: "value_kind (vals c ''max-download-result'') = KInt" by (rule well_typedD [OF assms(1) max_results_field])
  have "\<not> sets_field ''max-download-result'' opts"
    using assms(3,4) well_typedD [OF assms(2) max_results_field]
    by (auto simp: sets_field_def optionChangeRequested_def marked_def dest: value_kindD split: if_splits)
  then have "vals (Merge [Some c, Some opts]) ''max-download-result'' = vals (mergeInto empty_Options c) ''max-download-result''"
    using mergeInto_scalar [OF max_results_field _ assms(2), of "mergeInto empty_Options c"] by (simp add: Merge_two)
  also have "\<dots> = vals c ''max-download-result''"
    using mergeInto_scalar [OF max_results_field _ assms(1), of empty_Options] empty_zero [OF max_results_field]
      kind by (auto simp: sets_field_def dest!: value_kindD split: if_splits)
  finally show ?thesis by (simp add: maxResults_def)
qed

lemma change_fields:
  "active (change_limits o' (change_intervals o' e)) = active e" "waiting (change_limits o' (change_intervals o' e)) = waiting e"
  "usedGIDs (change_limits o' (change_intervals o' e)) = usedGIDs e" "groups (change_limits o' (change_intervals o' e)) = groups e"
  "ring (change_limits o' (change_intervals o' e)) = ring e" "cfg (change_limits o' (change_intervals o' e)) = cfg e"
  by (simp_all add: change_limits_def change_intervals_def Let_def)

lemma inv_ChangeGlobalOption:
  assumes inv: "engine_inv e" and opts: "\<forall>o'. opts = Some o' \<longrightarrow> well_typed o' \<and> marked o'"
  shows "engine_inv (snd (ChangeGlobalOption opts e))"
proof (cases opts)
  case (Some o')
  let ?c = "Merge [Some (cfg e), Some o']"
  let ?e = "change_limits o' (change_intervals o' (e\<lparr>cfg := ?c\<rparr>))"
  let ?e' = "change_results o' ?e"
  have wt: "well_typed (cfg e)" "well_typed o'" using inv opts Some by (auto simp: engine_inv_def)
  then have wt': "well_typed ?c" unfolding Merge_two by (intro well_typed_mergeInto well_typed_empty)
  have f: "active ?e' = active e" "waiting ?e' = waiting e" "usedGIDs ?e' = usedGIDs e" "groups ?e' = groups e" "cfg ?e' = ?c"
    by (simp_all add: change_results_def change_fields Let_def)
  then have q: "queues_ok ?e'" using inv by (simp add: inv_defs)
  have qd: "queued ?e' = queued e" using f by (simp add: queued_def)
  obtain xs where xs: "ring_rel (ring e) xs" "dr_gid ` set xs \<subseteq> usedGIDs e - queued e"
    using inv by (auto simp: engine_inv_def store_ok_def)
  have "store_ok ?e'"
  proof (cases "optionChangeRequested o' ''max-download-result'' (opt_int o' ''max-download-result'' \<noteq> 0)")
    case True
    then have "ring ?e' = resize (ring e) (opt_int ?c ''max-download-result'')"
      by (simp add: change_results_def change_fields Let_def)
    then show ?thesis
      using ring_resize [OF xs(1), of "opt_int ?c ''max-download-result''"] xs(2)
      unfolding store_ok_def qd f maxResults_def by (auto dest: in_set_dropD)
  next
    case False
    then have "ring ?e' = ring e" by (simp add: change_results_def change_fields)
    then show ?thesis
      using inv Merge_max_results [OF wt _ False] opts Some unfolding store_ok_def qd f engine_inv_def by auto
  qed
  then show ?thesis using q wt' f Some by (simp add: ChangeGlobalOption_def engine_inv_def)
qed (use inv in \<open>simp add: ChangeGlobalOption_def\<close>)

section \<open>Runs of the engine\<close>

text \<open>One step is one operation with the locks held. \<open>promote\<close> is called by the queue manager only, which
  has launched what it promoted before it calls it again.\<close>

inductive step :: "Engine \<Rightarrow> Engine \<Rightarrow> bool" where
  add: "Add draws spec e = Some (res, e') \<Longrightarrow> step e e'"
| pause: "Pause g force e = (res, e') \<Longrightarrow> step e e'"
| resume: "Resume g e = (res, e') \<Longrightarrow> step e e'"
| remove: "Remove g force e = Some (res, e') \<Longrightarrow> step e e'"
| purge: "PurgeDownloadResult e = (n, e') \<Longrightarrow> step e e'"
| remove_result: "RemoveDownloadResult g e = (res, e') \<Longrightarrow> step e e'"
| change_option: "ChangeOption g opts e = (res, e') \<Longrightarrow> step e e'"
| change_position: "ChangePosition g pos how e = (pos', e') \<Longrightarrow> step e e'"
| change_uri: "ChangeURIWithPosition valid g i dels adds pos posSet e = (n, e') \<Longrightarrow> step e e'"
| change_global: "ChangeGlobalOption opts e = (res, e') \<Longrightarrow> (\<forall>o'. opts = Some o' \<longrightarrow> well_typed o' \<and> marked o') \<Longrightarrow> step e e'"
| remove_stopped: "removeStoppedGroup e = Some e' \<Longrightarrow> step e e'"
| promote: "promotedGIDs e = [] \<Longrightarrow> step e (promote e)"
| launch: "step e (launch e)"
| cancel_if_idle: "step e (cancelIfIdle e)"
| worker_error: "step e (worker_error g code msg e)"
| worker_canceled: "step e (worker_canceled g e)"
| worker_return: "step e (worker_return g e)"
| start_run: "step e (start_run e)"
| input: "step e (e\<lparr>hasInput := b\<rparr>)"
| shutdown: "Shutdown force e = (res, e') \<Longrightarrow> step e e'"
| end_of_run: "onEndOfRun e = Some e' \<Longrightarrow> step e e'"

inductive reachable :: "Options \<Rightarrow> Engine \<Rightarrow> bool" for c where
  start: "reachable c (New c)"
| step: "reachable c e \<Longrightarrow> step e e' \<Longrightarrow> reachable c e'"

lemma inv_step: "step e e' \<Longrightarrow> engine_inv e \<Longrightarrow> engine_inv e'"
proof (induction rule: step.induct)
  case (add draws spec e res e') then show ?case by (rule inv_Add)
next
  case (pause g force e res e') then show ?case using inv_Pause [of e g force] by simp
next
  case (resume g e res e') then show ?case using inv_Resume [of e g] by simp
next
  case (remove g force e res e') then show ?case using Remove_inv [of e g force] by auto
next
  case (purge e n e') then show ?case using inv_Purge [of e] by simp
next
  case (remove_result g e res e') then show ?case using inv_RemoveDownloadResult [of e g] by simp
next
  case (change_option g opts e res e') then show ?case using inv_ChangeOption [of e g opts] by simp
next
  case (change_position g pos how e pos' e') then show ?case using inv_ChangePosition [of e g pos how] by simp
next
  case (change_uri valid g i dels adds pos posSet e n e')
  then show ?case using inv_ChangeURI [of e valid g i dels adds pos posSet] by simp
next
  case (change_global opts e res e') then show ?case using inv_ChangeGlobalOption [of e opts] by simp
next
  case (remove_stopped e e') then show ?case using removeStoppedGroup_inv [of e] by auto
next
  case (input e b) then show ?case by (elim engine_inv_cong) simp_all
next
  case (shutdown force e res e') then show ?case using inv_Shutdown [of e force] by simp
next
  case (end_of_run e e') then show ?case using onEndOfRun_inv [of e] by auto
qed (simp_all add: inv_promote inv_launch inv_cancelIfIdle inv_worker_error inv_worker_canceled inv_worker_return inv_start_run)

lemma reachable_inv: "reachable c e \<Longrightarrow> well_typed c \<Longrightarrow> engine_inv e"
  by (induction rule: reachable.induct) (auto intro: inv_New inv_step)

lemma results_rel: "ring_rel (ring e) xs \<Longrightarrow> results e = xs"
  using ring_rel_list by (simp add: results_def)

section \<open>Properties\<close>



text \<open>A small run for the examples: one download is added to an engine without options, and the engine
  starts.\<close>

definition sample_spec :: AddSpec where
  "sample_spec = \<lparr>URIs = [''http://a/f''], spec_Options = None, Torrent = [], Metalink = [], MetadataURI = [],
     Position = 0, PositionSet = False, BelongsTo = 0\<rparr>"

definition sample_options :: Options where
  "sample_options = Merge [Some empty_Options, Some empty_Options]"

definition sample_rg :: requestGroup where
  "sample_rg = new_group sample_spec sample_options None 5 False"

definition sample_engine :: Engine where
  "sample_engine = start_run ((New empty_Options)\<lparr>usedGIDs := {5}, waiting := [5],
     groups := gids_set newGIDShardMap 5 sample_rg\<rparr>)"

lemma sample_fields: "(''gid'', KString) \<in> set option_fields" "(''checksum'', KString) \<in> set option_fields"
  "(''pause'', KBool) \<in> set option_fields" "(''max-concurrent-downloads'', KInt) \<in> set option_fields"
  "(''enable-rpc'', KBool) \<in> set option_fields" "(''max-download-limit'', KString) \<in> set option_fields"
  "(''max-upload-limit'', KString) \<in> set option_fields"
  unfolding option_fields_def option_fields_1_def option_fields_2_def by simp_all

lemma sample_options_zero:
  assumes "(n, k) \<in> set option_fields" and "k \<noteq> KList"
  shows "vals sample_options n = zero_value k"
proof -
  have "vals (mergeInto d empty_Options) n = zero_value k" if "vals d n = zero_value k" for d
    using mergeInto_scalar [OF assms well_typed_empty, of d] empty_zero [OF assms(1)] that by simp
  then show ?thesis using empty_zero [OF assms(1)] by (simp add: sample_options_def Merge_two)
qed

lemma sample_add: "Add [5] sample_spec (New empty_Options) =
    Some (Inr 5, (New empty_Options)\<lparr>usedGIDs := {5}, waiting := [5], groups := gids_set newGIDShardMap 5 sample_rg\<rparr>)"
proof -
  have o: "Merge [Some empty_Options, Some empty_Options] = sample_options" by (simp add: sample_options_def)
  have rpc: "keepRunning (New empty_Options) = False" using empty_zero [OF sample_fields(5)] by (simp add: New_def)
  have gid: "gidForOptions [5] sample_options (New empty_Options) = Some (Inr 5, (New empty_Options)\<lparr>usedGIDs := {5}\<rparr>)"
    using sample_options_zero [OF sample_fields(1)] by (simp add: gidForOptions_def nextGIDLocked_def New_def)
  have rt: "applyRequestGroupRuntimeOptions sample_options sample_rg = Inr sample_rg"
    using sample_options_zero [OF sample_fields(2)] sample_options_zero [OF sample_fields(6)] sample_options_zero [OF sample_fields(7)]
    by (simp add: applyRequestGroupRuntimeOptions_def parseDownloadIntegrity_def applyThrottle_def parseSize_def
        sample_rg_def new_group_def)
  have "CloneExplicitOptions (Some empty_Options) = None" by (simp add: CloneExplicitOptions_def empty_Options_def)
  then show ?thesis using rpc rt gid
    by (simp add: Add_def sample_spec_def sample_rg_def New_def o insert_waiting_def put_group_def insert_at_def Let_def)
qed

lemma sample_reachable: "reachable empty_Options sample_engine"
  unfolding sample_engine_def
  by (rule reachable.step [OF reachable.step [OF reachable.start step.add [OF sample_add]] step.start_run])

lemma sample_values [simp]: "active sample_engine = []" "waiting sample_engine = [5]" "group sample_engine 5 = Some sample_rg"
  "maxConcurrent sample_engine = 1" "promotedGIDs sample_engine = []" "running sample_engine" "usedGIDs sample_engine = {5}"
  "rg_pauseReq sample_rg = False" "rg_ctx sample_rg = None"
  using empty_zero [OF sample_fields(4)]
  by (simp_all add: sample_engine_def start_run_def New_def maxConcurrent_def sample_rg_def new_group_def)

lemma sample_promoted:
  shows "active (promote sample_engine) = [5]" "waiting (promote sample_engine) = []" "promotedGIDs (promote sample_engine) = [5]"
    "group (promote sample_engine) 5 = Some (sample_rg\<lparr>rg_state := StatusActive\<rparr>)"
  by (simp_all add: promote_def activate_def emitBatch_def put_group_def)

lemma sample_promoted_reachable: "reachable empty_Options (promote sample_engine)"
  by (rule reachable.step [OF sample_reachable step.promote]) simp



text \<open>The downloads promoted are the first ones of the queue that are not paused.\<close>

lemma promote_loop_spec:
  assumes "promote_loop ws lookup n = (promoted, pending, left)" and "\<forall>g\<in>set ws. lookup g \<noteq> None" and "distinct ws"
  shows "promoted = take n (filter (\<lambda>g. \<not> rg_pauseReq (the (lookup g))) ws) \<and>
    pending @ left = filter (\<lambda>g. g \<notin> set promoted) ws"
  using assms
proof (induction ws arbitrary: n promoted pending left)
  case (Cons g ws)
  obtain rg where rg: "lookup g = Some rg" using Cons(3) by auto
  have sub: "set (take k (filter P ws)) \<subseteq> set ws" for k P by (auto dest: in_set_takeD)
  show ?case
  proof (cases "n = 0 \<or> rg_pauseReq rg")
    case True
    obtain p q l where "promote_loop ws lookup n = (p, q, l)" by (metis prod_cases3)
    with Cons(1) [OF this] Cons(2-4) True rg sub [of n] show ?thesis by (cases "n = 0") (auto simp: filter_id_conv)
  next
    case False
    then obtain k where k: "n = Suc k" by (cases n) auto
    obtain p q l where pl: "promote_loop ws lookup k = (p, q, l)" by (metis prod_cases3)
    have "filter (\<lambda>h. h \<notin> insert g (set p)) ws = filter (\<lambda>h. h \<notin> set p) ws" using Cons(4) by (auto intro: filter_cong)
    then show ?thesis using Cons(1) [OF pl] Cons(2-4) False rg k pl by auto
  qed
qed auto





text \<open>(C5) A pause can be lost while a download starts. Between the promotion of a download and its
  launch the locks are free, and \<open>Pause\<close> then acts on a download that has no context yet, or
  the cancelled one of its last run. It reports success; the launch afterwards still starts a
  worker with a fresh context. A download that starts for the first time is then back in the
  queue and marked as paused while its worker runs; one that was resumed stays active and running.\<close>

theorem pause_lost_while_starting:
  assumes "reachable c e" and "well_typed c"
    and "promotedGIDs e = [g]" and "group e g = Some rg" and "rg_state rg = StatusActive" and "\<not> rg_pauseReq rg"
    and "Pause g force e = (res, e')"
  shows "res = None \<and>
    (\<exists>rg'. group (launch e') g = Some rg' \<and> rg_ctx rg' = Some False \<and> rg_pauseReq rg' \<and>
       (if rg_ctx rg = None then g \<in> set (waiting (launch e')) \<and> rg_state rg' = StatusWaiting
        else g \<in> set (active (launch e')) \<and> rg_state rg' = StatusActive))"
proof -
  have "g \<in> set (active e)" using inv_groupD(5) [OF reachable_inv [OF assms(1,2)] assms(4)] assms(5) by simp
  then show ?thesis using assms(3-7)
    by (auto simp: Pause_def launch_def put_group_def rg_cancel_def moveFromActiveLocked_def emit_def Let_def split: if_splits)
qed

theorem pause_lost_while_starting_witness:
  "\<exists>e' rg'. Pause 5 False (promote sample_engine) = (None, e') \<and> group (launch e') 5 = Some rg' \<and>
     rg_ctx rg' = Some False \<and> rg_state rg' = StatusWaiting"
proof -
  obtain res e' where p: "Pause 5 False (promote sample_engine) = (res, e')" by force
  show ?thesis
    using pause_lost_while_starting [OF sample_promoted_reachable well_typed_empty sample_promoted(3,4) _ _ p] p by auto
qed

text \<open>Moving a download towards the end of the queue stops one place short of the position asked for.\<close>

lemma change_position_off_by_one:
  "fst (ChangePosition 5 1 ''POS_SET'' e) = Inr 0 \<and> waiting (snd (ChangePosition 5 1 ''POS_SET'' e)) = [5, 7]"
  if "group e 5 = Some rg" and "rg_state rg = StatusWaiting" and "waiting e = [5, 7]"
  using that by (simp add: ChangePosition_def insert_at_def)

text \<open>Changing an option of an active download that was just removed undoes the removal: it is
  restarted instead of stopped.\<close>

lemma change_option_undoes_remove:
  assumes "group e g = Some rg" and "rg_state rg = StatusActive" and "rg_ctx rg \<noteq> None"
    and "Remove g force e = Some (res, e1)" and "ChangeOption g (Some opts) e1 = (res', e2)"
  shows "res = None \<and> res' = None \<and> (\<exists>rg'. group e2 g = Some rg' \<and> rg_pauseReq rg' \<and> rg_restartReq rg')"
  using assms by (auto simp: Remove_def ChangeOption_def put_group_def rg_cancel_def Let_def)

end
