(* ===== verification/DhtRouting.thy ===== *)
theory DhtRouting
  imports Prelude
begin

unbundle bit_operations_syntax

text \<open>
  The routing table of the distributed hash table, \<open>src/internal/dht/routing.go\<close>: buckets of at most
  eight nodes in a binary tree over the 160-bit node ids, split only around the nid of this node. A
  node nid is a list of 20 bytes. The tree is a datatype; the parent pointers are the path from the
  root, and the bounds a leaf copies from its bucket are read from the bucket. The time of a call
  is an argument. Dereferencing the bucket of an inner node panics in Go and gives \<open>None\<close> here.

  Shown: the buckets always partition the ids and hold only nodes of their own range; the search for
  the closest nodes never panics, returns the good nodes of the target's bucket and returns all good
  nodes of the table when it returns fewer than eight. The counter of nodes and the replacement
  cache are not exact, which is proved on examples.
\<close>

section \<open>Nodes\<close>

type_synonym NodeID = "byte list"

definition NodeIDLength :: nat where
  "NodeIDLength = 20"

definition bucketK :: nat where
  "bucketK = 8"

definition bucketCache :: nat where
  "bucketCache = 2"

definition badCondition :: int where
  "badCondition = 5"

text \<open>15 minutes in nanoseconds.\<close>

definition nodeContactInt :: int where
  "nodeContactInt = 900000000000"

record NodeInfo =
  ID :: NodeID
  IP :: "byte list"
  Port :: uint16

record routingNode =
  rn_id :: NodeID
  rn_ip :: "byte list"
  rn_port :: uint16
  condition :: int
  lastContact :: int

definition newRoutingNode :: "int \<Rightarrow> NodeInfo \<Rightarrow> routingNode" where
  "newRoutingNode now n = \<lparr>rn_id = ID n, rn_ip = IP n, rn_port = Port n, condition = 0, lastContact = now\<rparr>"

definition isBad :: "routingNode \<Rightarrow> bool" where
  "isBad rn \<longleftrightarrow> badCondition \<le> condition rn"

definition isQuestionable :: "int \<Rightarrow> routingNode \<Rightarrow> bool" where
  "isQuestionable now rn \<longleftrightarrow> \<not> isBad rn \<and> nodeContactInt \<le> now - lastContact rn"

definition isGood :: "int \<Rightarrow> routingNode \<Rightarrow> bool" where
  "isGood now rn \<longleftrightarrow> \<not> isBad rn \<and> \<not> isQuestionable now rn"

definition node_markGood :: "routingNode \<Rightarrow> routingNode" where
  "node_markGood rn = rn\<lparr>condition := 0\<rparr>"

definition node_markBad :: "routingNode \<Rightarrow> routingNode" where
  "node_markBad rn = rn\<lparr>condition := badCondition\<rparr>"

definition node_timeout :: "routingNode \<Rightarrow> routingNode" where
  "node_timeout rn = rn\<lparr>condition := condition rn + 1\<rparr>"

definition node_contact :: "int \<Rightarrow> routingNode \<Rightarrow> routingNode" where
  "node_contact now rn = rn\<lparr>lastContact := now\<rparr>"

definition node_info :: "routingNode \<Rightarrow> NodeInfo" where
  "node_info rn = \<lparr>ID = rn_id rn, IP = rn_ip rn, Port = rn_port rn\<rparr>"

section \<open>Buckets\<close>

record bucket =
  prefixLen :: nat
  minID :: NodeID
  maxID :: NodeID
  localID :: NodeID
  nodes :: "routingNode list"
  cache :: "routingNode list"
  lastUpdate :: int

definition newBucketWithRange :: "int \<Rightarrow> nat \<Rightarrow> NodeID \<Rightarrow> NodeID \<Rightarrow> NodeID \<Rightarrow> bucket" where
  "newBucketWithRange now plen mx mn self =
     \<lparr>prefixLen = plen, minID = mn, maxID = mx, localID = self, nodes = [], cache = [], lastUpdate = now\<rparr>"

definition newBucket :: "int \<Rightarrow> NodeID \<Rightarrow> bucket" where
  "newBucket now self =
     newBucketWithRange now 0 (replicate NodeIDLength 255) (replicate NodeIDLength 0) self"

text \<open>The two loops over the bytes in \<open>inRange\<close>: the first is \<open>not_below\<close>, the second \<open>not_below\<close> with
  the arguments exchanged.\<close>

fun not_below :: "NodeID \<Rightarrow> NodeID \<Rightarrow> bool" where
  "not_below (x # xs) (m # ms) = (if x < m then False else if m < x then True else not_below xs ms)"
| "not_below xs ms = True"

definition id_between :: "NodeID \<Rightarrow> NodeID \<Rightarrow> NodeID \<Rightarrow> bool" where
  "id_between mn mx nid \<longleftrightarrow> not_below nid mn \<and> not_below mx nid"

abbreviation inRange :: "bucket \<Rightarrow> NodeID \<Rightarrow> bool" where
  "inRange b nid \<equiv> id_between (minID b) (maxID b) nid"

definition splitAllowed :: "bucket \<Rightarrow> bool" where
  "splitAllowed b \<longleftrightarrow> prefixLen b < NodeIDLength * 8 - 1 \<and> inRange b (localID b)"

definition contains :: "bucket \<Rightarrow> NodeID \<Rightarrow> bool" where
  "contains b nid \<longleftrightarrow> list_ex (\<lambda>n. rn_id n = nid) (nodes b)"

fun drop_id :: "NodeID \<Rightarrow> routingNode list \<Rightarrow> routingNode list" where
  "drop_id nid [] = []"
| "drop_id nid (n # ns) = (if rn_id n = nid then ns else n # drop_id nid ns)"

definition addNode :: "int \<Rightarrow> routingNode \<Rightarrow> bucket \<Rightarrow> bucket \<times> bool" where
  "addNode now node b =
     (let b = b\<lparr>lastUpdate := now\<rparr> in
      if contains b (rn_id node) then (b\<lparr>nodes := drop_id (rn_id node) (nodes b) @ [node]\<rparr>, True)
      else if length (nodes b) < bucketK then (b\<lparr>nodes := nodes b @ [node]\<rparr>, True)
      else if isBad (hd (nodes b)) then (b\<lparr>nodes := tl (nodes b) @ [node]\<rparr>, True)
      else (b, False))"

definition flip_id_bit :: "nat \<Rightarrow> NodeID \<Rightarrow> NodeID" where
  "flip_id_bit p nid = nid[p div 8 := nid ! (p div 8) XOR push_bit (7 - p mod 8) 1]"

text \<open>The new bucket takes the lower half of the range and the nodes in it, the old one keeps the rest.\<close>

definition split :: "int \<Rightarrow> bucket \<Rightarrow> bucket \<times> bucket" where
  "split now b =
     (let p = prefixLen b;
          rMax = flip_id_bit p (maxID b);
          rMin = minID b;
          b = b\<lparr>minID := flip_id_bit p (minID b), prefixLen := p + 1\<rparr>;
          rBucket = newBucketWithRange now (p + 1) rMax rMin (localID b);
          rBucket' = fold (\<lambda>n r. if inRange rBucket (rn_id n) then fst (addNode now n r) else r) (nodes b) rBucket
      in (rBucket', b\<lparr>nodes := filter (\<lambda>n. \<not> inRange rBucket (rn_id n)) (nodes b)\<rparr>))"

definition cacheNode :: "routingNode \<Rightarrow> bucket \<Rightarrow> bucket" where
  "cacheNode node b = b\<lparr>cache := take bucketCache (node # cache b)\<rparr>"

definition dropNode :: "NodeID \<Rightarrow> bucket \<Rightarrow> bucket \<times> bool" where
  "dropNode nid b =
     (if contains b nid then
        (case cache b of
           [] \<Rightarrow> (b\<lparr>nodes := drop_id nid (nodes b)\<rparr>, True)
         | c # cs \<Rightarrow> (b\<lparr>nodes := drop_id nid (nodes b) @ [c], cache := cs\<rparr>, True))
      else (b, False))"

definition goodNodes :: "bucket \<Rightarrow> routingNode list" where
  "goodNodes b = filter (\<lambda>n. \<not> isBad n) (nodes b)"

definition needsRefresh :: "int \<Rightarrow> bucket \<Rightarrow> bool" where
  "needsRefresh now b \<longleftrightarrow> length (nodes b) < bucketK \<or> nodeContactInt \<le> now - lastUpdate b"

text \<open>\<open>random\<close> are the bytes that \<open>rand.Read\<close> delivers.\<close>

definition randomNodeID :: "NodeID \<Rightarrow> bucket \<Rightarrow> NodeID" where
  "randomNodeID random b =
     (if prefixLen b = 0 then random
      else let lastByteIdx = (prefixLen b - 1) div 8
           in take (lastByteIdx + 1) (minID b) @ drop (lastByteIdx + 1) random)"

section \<open>The tree\<close>

datatype bucketTreeNode = Leaf bucket | Inner bucketTreeNode bucketTreeNode NodeID NodeID

fun btn_min :: "bucketTreeNode \<Rightarrow> NodeID" where
  "btn_min (Leaf b) = minID b"
| "btn_min (Inner l r mn mx) = mn"

fun btn_max :: "bucketTreeNode \<Rightarrow> NodeID" where
  "btn_max (Leaf b) = maxID b"
| "btn_max (Inner l r mn mx) = mx"

definition btn_inRange :: "bucketTreeNode \<Rightarrow> NodeID \<Rightarrow> bool" where
  "btn_inRange t nid = id_between (btn_min t) (btn_max t) nid"

fun is_leaf :: "bucketTreeNode \<Rightarrow> bool" where
  "is_leaf (Leaf b) = True"
| "is_leaf (Inner l r mn mx) = False"

fun findTreeNode :: "bucketTreeNode \<Rightarrow> NodeID \<Rightarrow> bucket" where
  "findTreeNode (Leaf b) nid = b"
| "findTreeNode (Inner l r mn mx) nid = (if btn_inRange l nid then findTreeNode l nid else findTreeNode r nid)"

text \<open>The inner nodes on the way to the leaf of an id, the parent of the leaf last; the flag says whether
  the way goes to the left.\<close>

fun tree_path :: "bucketTreeNode \<Rightarrow> NodeID \<Rightarrow> (bool \<times> bucketTreeNode \<times> bucketTreeNode) list" where
  "tree_path (Leaf b) nid = []"
| "tree_path (Inner l r mn mx) nid =
     (if btn_inRange l nid then (True, l, r) # tree_path l nid else (False, l, r) # tree_path r nid)"

fun collectDownwardLeftFirst :: "routingNode list \<Rightarrow> bucketTreeNode \<Rightarrow> routingNode list" where
  "collectDownwardLeftFirst ns (Leaf b) = ns @ goodNodes b"
| "collectDownwardLeftFirst ns (Inner l r mn mx) =
     (let ns = collectDownwardLeftFirst ns l
      in if length ns < bucketK then collectDownwardLeftFirst ns r else ns)"

fun collectDownwardRightFirst :: "routingNode list \<Rightarrow> bucketTreeNode \<Rightarrow> routingNode list" where
  "collectDownwardRightFirst ns (Leaf b) = ns @ goodNodes b"
| "collectDownwardRightFirst ns (Inner l r mn mx) =
     (let ns = collectDownwardRightFirst ns r
      in if length ns < bucketK then collectDownwardRightFirst ns l else ns)"

fun collectFromLeaf :: "routingNode list \<Rightarrow> bucketTreeNode \<Rightarrow> routingNode list option" where
  "collectFromLeaf ns (Leaf b) = Some (ns @ goodNodes b)"
| "collectFromLeaf ns (Inner l r mn mx) = None"

fun collectUpward ::
  "routingNode list \<Rightarrow> (bool \<times> bucketTreeNode \<times> bucketTreeNode) list \<Rightarrow> routingNode list option"
where
  "collectUpward ns [] = Some ns"
| "collectUpward ns ((left, l, r) # upper) =
     (case collectFromLeaf ns (if left then r else l) of
        None \<Rightarrow> None
      | Some ns' \<Rightarrow> if bucketK \<le> length ns' then Some ns' else collectUpward ns' upper)"

definition findClosestKNodes :: "bucketTreeNode \<Rightarrow> NodeID \<Rightarrow> routingNode list option" where
  "findClosestKNodes root target =
     map_option (take bucketK)
       (case rev (tree_path root target) of
          [] \<Rightarrow> collectFromLeaf [] root
        | (left, l, r) # upper \<Rightarrow>
            let parent = Inner l r [] [];
                ns = (if left then collectDownwardLeftFirst [] parent else collectDownwardRightFirst [] parent)
            in if length ns < bucketK then collectUpward ns upper else Some ns)"

fun enumerateBuckets :: "bucketTreeNode \<Rightarrow> bucket list" where
  "enumerateBuckets (Leaf b) = [b]"
| "enumerateBuckets (Inner l r mn mx) = enumerateBuckets l @ enumerateBuckets r"

text \<open>An update of the bucket an id belongs to.\<close>

fun at_leaf :: "(bucket \<Rightarrow> bucketTreeNode) \<Rightarrow> NodeID \<Rightarrow> bucketTreeNode \<Rightarrow> bucketTreeNode" where
  "at_leaf f nid (Leaf b) = f b"
| "at_leaf f nid (Inner l r mn mx) =
     (if btn_inRange l nid then Inner (at_leaf f nid l) r mn mx else Inner l (at_leaf f nid r) mn mx)"

lemma prefixLen_addNode [simp]: "prefixLen (fst (addNode now n b)) = prefixLen b"
  by (simp add: addNode_def Let_def)

lemma prefixLen_split:
  assumes "split now b = (rb, b')"
  shows "prefixLen rb = prefixLen b + 1" and "prefixLen b' = prefixLen b + 1"
proof -
  have "prefixLen (fold (\<lambda>n r. if P n then fst (addNode now n r) else r) ns r) = prefixLen r" for P ns r
    by (induction ns arbitrary: r) auto
  then show "prefixLen rb = prefixLen b + 1" and "prefixLen b' = prefixLen b + 1"
    using assms by (auto simp: split_def newBucketWithRange_def Let_def)
qed

text \<open>The loop of \<open>addNodeInternal\<close> at a leaf: the tree that takes the place of the leaf, the result, the
  number of splits and the change of the node count.\<close>

function add_at :: "int \<Rightarrow> bool \<Rightarrow> routingNode \<Rightarrow> bucket \<Rightarrow> bucketTreeNode \<times> bool \<times> int \<times> int" where
  "add_at now good rn b =
     (let existed = contains b (rn_id rn); (b, ok) = addNode now rn b in
      if ok then (Leaf b, True, 0, if existed then 0 else 1)
      else if splitAllowed b then
        let (rb, b') = split now b in
        if inRange rb (rn_id rn) then
          let (t, ok, splits, new) = add_at now good rn rb
          in (Inner t (Leaf b') (minID rb) (maxID b'), ok, splits + 1, new)
        else
          let (t, ok, splits, new) = add_at now good rn b'
          in (Inner (Leaf rb) t (minID rb) (maxID b'), ok, splits + 1, new)
      else (Leaf (if good then cacheNode rn b else b), False, 0, 0))"
  by pat_completeness auto
termination
proof (relation "measure (\<lambda>(now, good, rn, b). NodeIDLength * 8 - prefixLen b)", goal_cases)
  case (2 now good rn b x xa b1 ok xb rb b')
  then have "addNode now rn b = (b1, ok)" "split now b1 = (rb, b')" by simp_all
  then show ?case using 2 prefixLen_addNode [of now rn b] prefixLen_split [of now b1 rb b'] by (auto simp: splitAllowed_def)
next
  case (3 now good rn b x xa b1 ok xb rb b')
  then have "addNode now rn b = (b1, ok)" "split now b1 = (rb, b')" by simp_all
  then show ?case using 3 prefixLen_addNode [of now rn b] prefixLen_split [of now b1 rb b'] by (auto simp: splitAllowed_def)
qed simp

declare add_at.simps [simp del]

section \<open>The table\<close>

record RoutingTable =
  rt_localID :: NodeID
  root :: bucketTreeNode
  numBuck :: int
  nodeCount :: int

definition NewRoutingTable :: "int \<Rightarrow> NodeID \<Rightarrow> RoutingTable" where
  "NewRoutingTable now nid = \<lparr>rt_localID = nid, root = Leaf (newBucket now nid), numBuck = 1, nodeCount = 0\<rparr>"

definition addNodeInternal :: "int \<Rightarrow> NodeInfo \<Rightarrow> bool \<Rightarrow> RoutingTable \<Rightarrow> RoutingTable \<times> bool" where
  "addNodeInternal now n good rt =
     (if ID n = rt_localID rt then (rt, False)
      else
        let rn = newRoutingNode now n;
            (t, ok, splits, new) = add_at now good rn (findTreeNode (root rt) (ID n))
        in (rt\<lparr>root := at_leaf (\<lambda>b. t) (ID n) (root rt), numBuck := numBuck rt + splits,
               nodeCount := nodeCount rt + new\<rparr>, ok))"

definition AddNode :: "int \<Rightarrow> NodeInfo \<Rightarrow> RoutingTable \<Rightarrow> RoutingTable \<times> bool" where
  "AddNode now n = addNodeInternal now n False"

definition AddGoodNode :: "int \<Rightarrow> NodeInfo \<Rightarrow> RoutingTable \<Rightarrow> RoutingTable \<times> bool" where
  "AddGoodNode now n = addNodeInternal now n True"

text \<open>Dropping a node from its bucket, with the node count.\<close>

definition drop_from :: "NodeID \<Rightarrow> RoutingTable \<Rightarrow> RoutingTable" where
  "drop_from nid rt =
     (if snd (dropNode nid (findTreeNode (root rt) nid))
      then rt\<lparr>root := at_leaf (\<lambda>b. Leaf (fst (dropNode nid b))) nid (root rt), nodeCount := nodeCount rt - 1\<rparr>
      else rt)"

definition RemoveNode :: "NodeID \<Rightarrow> RoutingTable \<Rightarrow> RoutingTable" where
  "RemoveNode nid rt = drop_from nid rt"

definition GetClosestNodes :: "NodeID \<Rightarrow> int \<Rightarrow> RoutingTable \<Rightarrow> NodeInfo list option" where
  "GetClosestNodes target count rt =
     map_option (\<lambda>ns. map node_info (take (nat (if count \<le> 0 then int bucketK else count)) ns))
       (findClosestKNodes (root rt) target)"

text \<open>The first node of a bucket with the given id, address and port, and a change of it.\<close>

definition same_node :: "NodeID \<Rightarrow> byte list \<Rightarrow> uint16 \<Rightarrow> routingNode \<Rightarrow> bool" where
  "same_node nid ip port n \<longleftrightarrow> rn_id n = nid \<and> rn_ip n = ip \<and> rn_port n = port"

definition getNode :: "NodeID \<Rightarrow> byte list \<Rightarrow> uint16 \<Rightarrow> RoutingTable \<Rightarrow> routingNode option" where
  "getNode nid ip port rt = List.find (same_node nid ip port) (nodes (findTreeNode (root rt) nid))"

fun update_first :: "('a \<Rightarrow> bool) \<Rightarrow> ('a \<Rightarrow> 'a) \<Rightarrow> 'a list \<Rightarrow> 'a list" where
  "update_first P f [] = []"
| "update_first P f (x # xs) = (if P x then f x # xs else x # update_first P f xs)"

definition change_node ::
  "(routingNode \<Rightarrow> routingNode) \<Rightarrow> NodeID \<Rightarrow> byte list \<Rightarrow> uint16 \<Rightarrow> RoutingTable \<Rightarrow> RoutingTable"
where
  "change_node f nid ip port rt =
     rt\<lparr>root := at_leaf (\<lambda>b. Leaf (b\<lparr>nodes := update_first (same_node nid ip port) f (nodes b)\<rparr>)) nid (root rt)\<rparr>"

definition markGood :: "NodeID \<Rightarrow> byte list \<Rightarrow> uint16 \<Rightarrow> RoutingTable \<Rightarrow> RoutingTable" where
  "markGood nid ip port rt = change_node node_markGood nid ip port rt"

definition markBadAndRemove :: "NodeID \<Rightarrow> byte list \<Rightarrow> uint16 \<Rightarrow> RoutingTable \<Rightarrow> RoutingTable" where
  "markBadAndRemove nid ip port rt =
     (case getNode nid ip port rt of
        None \<Rightarrow> rt
      | Some n \<Rightarrow> drop_from nid (change_node node_markBad nid ip port rt))"

definition onTimeout :: "NodeID \<Rightarrow> byte list \<Rightarrow> uint16 \<Rightarrow> RoutingTable \<Rightarrow> RoutingTable" where
  "onTimeout nid ip port rt =
     (case getNode nid ip port rt of
        None \<Rightarrow> rt
      | Some n \<Rightarrow>
          let rt = change_node node_timeout nid ip port rt
          in if isBad (node_timeout n) then drop_from nid rt else rt)"

definition updateContact :: "int \<Rightarrow> NodeID \<Rightarrow> byte list \<Rightarrow> uint16 \<Rightarrow> RoutingTable \<Rightarrow> RoutingTable" where
  "updateContact now nid ip port rt = change_node (node_contact now) nid ip port rt"

definition snapshotGoodNodes :: "RoutingTable \<Rightarrow> NodeInfo list" where
  "snapshotGoodNodes rt = concat (map (\<lambda>b. map node_info (goodNodes b)) (enumerateBuckets (root rt)))"

definition BatchUpdate ::
  "int \<Rightarrow> NodeInfo \<Rightarrow> NodeID \<Rightarrow> NodeID \<Rightarrow> byte list \<Rightarrow> uint16 \<Rightarrow> RoutingTable \<Rightarrow> RoutingTable"
where
  "BatchUpdate now good removeID contactID contactIP contactPort rt =
     (let rt = fst (addNodeInternal now good True rt);
          rt = (if removeID \<noteq> replicate NodeIDLength 0 then drop_from removeID rt else rt)
      in updateContact now contactID contactIP contactPort rt)"

section \<open>Ranges are prefixes\<close>

definition bit_at :: "NodeID \<Rightarrow> nat \<Rightarrow> bool" where
  "bit_at xs p = bit (xs ! (p div 8)) (7 - p mod 8)"

definition id_bits :: "NodeID \<Rightarrow> bool list" where
  "id_bits xs = map (bit_at xs) [0..<8 * length xs]"

primrec val_bits :: "bool list \<Rightarrow> nat" where
  "val_bits [] = 0"
| "val_bits (b # bs) = of_bool b * 2 ^ length bs + val_bits bs"

lemma val_bits_append: "val_bits (as @ bs) = val_bits as * 2 ^ length bs + val_bits bs"
  by (induction as) (simp_all add: power_add algebra_simps)

lemma val_bits_less: "val_bits bs < 2 ^ length bs"
  by (induction bs) (auto simp: of_bool_def)

lemma val_bits_inj: "length as = length bs \<Longrightarrow> val_bits as = val_bits bs \<Longrightarrow> as = bs"
proof (induction as bs rule: list_induct2)
  case (Cons a as b bs)
  have "val_bits as < 2 ^ length bs" "val_bits bs < 2 ^ length bs" using val_bits_less [of as] val_bits_less [of bs] Cons(1) by simp_all
  then have "a = b" using Cons(1,3) by (cases a; cases b) auto
  then show ?case using Cons by auto
qed simp

lemma val_bits_horner: "val_bits bs = horner_sum of_bool 2 (rev bs)"
proof (induction bs)
  case (Cons b bs)
  then show ?case by (simp add: horner_sum_append)
qed simp

lemma id_bits_Cons: "id_bits (x # xs) = map (\<lambda>p. bit x (7 - p)) [0..<8] @ id_bits xs"
proof (rule nth_equalityI)
  fix i assume i: "i < length (id_bits (x # xs))"
  show "id_bits (x # xs) ! i = (map (\<lambda>p. bit x (7 - p)) [0..<8] @ id_bits xs) ! i"
  proof (cases "i < 8")
    case True
    then show ?thesis using i by (simp add: id_bits_def bit_at_def nth_append)
  next
    case False
    then have "i div 8 = Suc ((i - 8) div 8)" "i mod 8 = (i - 8) mod 8"
      by (simp_all add: le_div_geq le_mod_geq)
    then show ?thesis using i False by (simp add: id_bits_def bit_at_def nth_append)
  qed
qed (simp add: id_bits_def)

lemma id_bits_Nil [simp]: "id_bits [] = []"
  by (simp add: id_bits_def)

lemma length_id_bits [simp]: "length (id_bits xs) = 8 * length xs"
  by (simp add: id_bits_def)

lemma val_byte: "val_bits (map (\<lambda>p. bit (x :: byte) (7 - p)) [0..<8]) = unat x"
proof -
  have "rev (map (\<lambda>p. bit x (7 - p)) [0..<8]) = map (bit x) [0..<8]"
  proof (rule nth_equalityI)
    fix i assume i: "i < length (rev (map (\<lambda>p. bit x (7 - p)) [0..<8]))"
    then have "[0..<8] ! (7 - i) = 7 - i" by (subst nth_upt) simp_all
    then show "rev (map (\<lambda>p. bit x (7 - p)) [0..<8]) ! i = map (bit x) [0..<8] ! i" using i by (simp add: rev_nth)
  qed simp
  also have "\<dots> = map (bit (unat x)) [0..<8]" by (simp add: bit_unsigned_iff)
  finally have "val_bits (map (\<lambda>p. bit x (7 - p)) [0..<8]) = take_bit 8 (unat x)"
    by (simp add: val_bits_horner horner_sum_bit_eq_take_bit)
  also have "\<dots> = unat x" using unsigned_less [of x, where 'a = nat] by (simp add: take_bit_nat_eq_self)
  finally show ?thesis .
qed

lemma not_below_val: "length xs = length ms \<Longrightarrow> not_below xs ms \<longleftrightarrow> val_bits (id_bits ms) \<le> val_bits (id_bits xs)"
proof (induction xs ms rule: list_induct2)
  case (Cons x xs m ms)
  let ?k = "(2::nat) ^ (8 * length ms)"
  have v: "val_bits (id_bits (x # xs)) = unat x * ?k + val_bits (id_bits xs)"
    "val_bits (id_bits (m # ms)) = unat m * ?k + val_bits (id_bits ms)"
    using Cons(1) by (simp_all add: id_bits_Cons val_bits_append val_byte)
  have lt: "val_bits (id_bits xs) < ?k" "val_bits (id_bits ms) < ?k"
    using val_bits_less [of "id_bits xs"] val_bits_less [of "id_bits ms"] Cons(1) by simp_all
  have step: "a * ?k + ?k \<le> b * ?k" if "a < b" for a b :: nat
  proof -
    have "Suc a * ?k \<le> b * ?k" using that by (intro mult_le_mono1) simp
    then show ?thesis by simp
  qed
  consider "x < m" | "m < x" | "x = m" by fastforce
  then show ?case
  proof cases
    case 1
    then show ?thesis using step [of "unat x" "unat m"] lt unfolding v by (simp add: word_less_nat_alt)
  next
    case 2
    then show ?thesis using step [of "unat m" "unat x"] lt unfolding v by (auto simp: word_less_nat_alt)
  next
    case 3
    then show ?thesis using Cons(2) unfolding v by simp
  qed
qed simp

text \<open>The ids with a given prefix, and their smallest and largest.\<close>

definition agrees :: "bool list \<Rightarrow> NodeID \<Rightarrow> bool" where
  "agrees pre xs \<longleftrightarrow> take (length pre) (id_bits xs) = pre"

definition range_of :: "bool list \<Rightarrow> NodeID \<Rightarrow> NodeID \<Rightarrow> bool" where
  "range_of pre mn mx \<longleftrightarrow>
     length mn = NodeIDLength \<and> length mx = NodeIDLength \<and> length pre \<le> 8 * NodeIDLength \<and>
     id_bits mn = pre @ replicate (8 * NodeIDLength - length pre) False \<and>
     id_bits mx = pre @ replicate (8 * NodeIDLength - length pre) True"

lemma val_replicate: "val_bits (replicate k False) = 0" "val_bits (replicate k True) = 2 ^ k - 1"
  by (induction k) simp_all

lemma block_iff:
  assumes "w < (K :: nat)"
  shows "a * K \<le> u * K + w \<and> u * K + w \<le> a * K + (K - 1) \<longleftrightarrow> u = a"
proof -
  have step: "i * K + K \<le> j * K" if "i < j" for i j :: nat
  proof -
    have "Suc i * K \<le> j * K" using that by (intro mult_le_mono1) simp
    then show ?thesis by simp
  qed
  show ?thesis
  proof (cases u a rule: linorder_cases)
    case less
    then show ?thesis using step [OF less] assms by linarith
  next
    case greater
    then show ?thesis using step [OF greater] assms by linarith
  qed (use assms in simp)
qed

lemma range_agrees:
  assumes r: "range_of pre mn mx" and x: "length x = NodeIDLength"
  shows "id_between mn mx x \<longleftrightarrow> agrees pre x"
proof -
  let ?k = "8 * NodeIDLength - length pre"
  let ?u = "take (length pre) (id_bits x)" and ?w = "drop (length pre) (id_bits x)"
  have len: "length ?u = length pre" "length ?w = ?k" "length mn = length x" "length mx = length x"
    using r x by (simp_all add: range_of_def)
  have "val_bits (id_bits x) = val_bits ?u * 2 ^ ?k + val_bits ?w"
    using val_bits_append [of ?u ?w] len by simp
  moreover have "val_bits (id_bits mn) = val_bits pre * 2 ^ ?k" "val_bits (id_bits mx) = val_bits pre * 2 ^ ?k + (2 ^ ?k - 1)"
    using r by (simp_all add: range_of_def val_bits_append val_replicate)
  moreover have w: "val_bits ?w < 2 ^ ?k" using val_bits_less [of ?w] len by simp
  ultimately have eq: "id_between mn mx x \<longleftrightarrow>
      val_bits pre * 2 ^ ?k \<le> val_bits ?u * 2 ^ ?k + val_bits ?w \<and>
      val_bits ?u * 2 ^ ?k + val_bits ?w \<le> val_bits pre * 2 ^ ?k + (2 ^ ?k - 1)"
    using not_below_val [of x mn] not_below_val [of mx x] len by (simp add: id_between_def)
  have "id_between mn mx x \<longleftrightarrow> val_bits ?u = val_bits pre"
    unfolding eq by (rule block_iff [OF w])
  also have "\<dots> \<longleftrightarrow> ?u = pre" using val_bits_inj [OF len(1)] by auto
  finally show ?thesis by (simp add: agrees_def)
qed

text \<open>Flipping one bit.\<close>

lemma length_flip [simp]: "length (flip_id_bit p xs) = length xs"
  by (simp add: flip_id_bit_def)

lemma id_bits_flip:
  assumes "p < 8 * length xs"
  shows "id_bits (flip_id_bit p xs) = (id_bits xs)[p := \<not> id_bits xs ! p]"
proof (rule nth_equalityI)
  fix q assume "q < length (id_bits (flip_id_bit p xs))"
  then have q: "q < 8 * length xs" by simp
  have i: "p div 8 < length xs" "q div 8 < length xs" using assms q by linarith+
  have "bit (push_bit m 1 :: byte) n \<longleftrightarrow> n = m" if "n < 8" for m n
    using that bit_exp_iff [where 'a = "8 word", of m n] by (auto simp: push_bit_eq_mult possible_bit_def)
  moreover have "p mod 8 < 8" "q mod 8 < 8" by simp_all
  ultimately have "bit (push_bit (7 - p mod 8) 1 :: byte) (7 - q mod 8) \<longleftrightarrow> q mod 8 = p mod 8" by fastforce
  then have "bit_at (flip_id_bit p xs) q = (if q div 8 = p div 8 \<and> q mod 8 = p mod 8 then \<not> bit_at xs q else bit_at xs q)"
    using i by (auto simp: bit_at_def flip_id_bit_def nth_list_update bit_xor_iff)
  moreover have "q div 8 = p div 8 \<and> q mod 8 = p mod 8 \<longleftrightarrow> q = p" by (metis div_mult_mod_eq)
  ultimately show "id_bits (flip_id_bit p xs) ! q = (id_bits xs)[p := \<not> id_bits xs ! p] ! q"
    using q assms by (auto simp: id_bits_def nth_list_update)
qed simp

lemma range_split:
  assumes "range_of pre mn mx" and p: "p = length pre" and "p < 8 * NodeIDLength"
  shows "range_of (pre @ [False]) mn (flip_id_bit p mx)" and "range_of (pre @ [True]) (flip_id_bit p mn) mx"
proof -
  obtain k where k: "8 * NodeIDLength - length pre = Suc k" using assms by (cases "8 * NodeIDLength - length pre") auto
  then have k': "8 * NodeIDLength - Suc (length pre) = k" by simp
  show "range_of (pre @ [False]) mn (flip_id_bit p mx)" "range_of (pre @ [True]) (flip_id_bit p mn) mx"
    using assms id_bits_flip [of p mx] id_bits_flip [of p mn] k
    by (auto simp: range_of_def k' nth_append list_update_append)
qed

lemma agrees_split:
  assumes "length x = NodeIDLength" and "length pre < 8 * NodeIDLength"
  shows "agrees pre x \<longleftrightarrow> agrees (pre @ [False]) x \<or> agrees (pre @ [True]) x"
    and "\<not> (agrees (pre @ [False]) x \<and> agrees (pre @ [True]) x)"
    and "agrees (pre @ [b]) x \<Longrightarrow> agrees pre x"
  using assms by (auto simp: agrees_def take_Suc_conv_app_nth)

lemma range_all: "range_of [] (replicate NodeIDLength 0) (replicate NodeIDLength 255)"
proof -
  have "(255 :: byte) = mask 8" by (simp add: mask_eq_exp_minus_1)
  then have b: "bit (255 :: byte) n \<longleftrightarrow> n < 8" for n using bit_mask_iff [where 'a = "8 word", of 8 n] by auto
  have "7 - m < (8 :: nat)" for m by simp
  then have b: "bit (255 :: byte) (7 - m)" for m using b by blast
  have "bit_at (replicate NodeIDLength 255) i" if "i < 8 * NodeIDLength" for i
  proof -
    have "i div 8 < NodeIDLength" using that by linarith
    then have "replicate NodeIDLength (255 :: byte) ! (i div 8) = 255" by (rule nth_replicate)
    then show ?thesis unfolding bit_at_def by (simp only: b)
  qed
  then have "id_bits (replicate NodeIDLength 255) = replicate (8 * NodeIDLength) True"
    by (intro nth_equalityI) (simp_all add: id_bits_def)
  moreover have "id_bits (replicate NodeIDLength 0) = replicate (8 * NodeIDLength) False"
    by (intro nth_equalityI) (auto simp: id_bits_def bit_at_def NodeIDLength_def)
  ultimately show ?thesis by (simp add: range_of_def)
qed

section \<open>The invariant\<close>

definition bucket_ok :: "NodeID \<Rightarrow> bool list \<Rightarrow> bucket \<Rightarrow> bool" where
  "bucket_ok self pre b \<longleftrightarrow>
     prefixLen b = length pre \<and> length pre < 8 * NodeIDLength \<and> range_of pre (minID b) (maxID b) \<and> localID b = self \<and>
     length (nodes b) \<le> bucketK \<and> length (cache b) \<le> bucketCache \<and>
     (\<forall>n\<in>set (nodes b) \<union> set (cache b). length (rn_id n) = NodeIDLength \<and> agrees pre (rn_id n) \<and> rn_id n \<noteq> self) \<and>
     (cache b \<noteq> [] \<longrightarrow> \<not> splitAllowed b)"

text \<open>An inner node was split around this node's id, so that the half without it is a leaf.\<close>

fun tree_ok :: "NodeID \<Rightarrow> bool list \<Rightarrow> bucketTreeNode \<Rightarrow> bool" where
  "tree_ok self pre (Leaf b) = bucket_ok self pre b"
| "tree_ok self pre (Inner l r mn mx) =
     (length pre < 8 * NodeIDLength \<and> range_of pre mn mx \<and> agrees pre self \<and>
      tree_ok self (pre @ [False]) l \<and> tree_ok self (pre @ [True]) r \<and>
      (if agrees (pre @ [True]) self then is_leaf l else is_leaf r))"

definition table_ok :: "RoutingTable \<Rightarrow> bool" where
  "table_ok rt \<longleftrightarrow> length (rt_localID rt) = NodeIDLength \<and> tree_ok (rt_localID rt) [] (root rt)"

lemma tree_ok_range: "tree_ok self pre t \<Longrightarrow> range_of pre (btn_min t) (btn_max t)"
  by (cases t) (auto simp: bucket_ok_def)

lemma tree_ok_inRange: "tree_ok self pre t \<Longrightarrow> length x = NodeIDLength \<Longrightarrow> btn_inRange t x \<longleftrightarrow> agrees pre x"
  by (simp add: btn_inRange_def range_agrees [OF tree_ok_range])

lemma bucket_inRange: "bucket_ok self pre b \<Longrightarrow> length x = NodeIDLength \<Longrightarrow> inRange b x \<longleftrightarrow> agrees pre x"
  by (auto simp: bucket_ok_def range_agrees)

lemma bucket_splitAllowed:
  "bucket_ok self pre b \<Longrightarrow> length self = NodeIDLength \<Longrightarrow> splitAllowed b \<longleftrightarrow> length pre < 8 * NodeIDLength - 1 \<and> agrees pre self"
  using bucket_inRange [of self pre b self] by (auto simp: splitAllowed_def bucket_ok_def mult.commute)

lemma set_drop_id: "set (drop_id i ns) \<subseteq> set ns" "length (drop_id i ns) \<le> length ns"
  "list_ex (\<lambda>n. rn_id n = i) ns \<Longrightarrow> Suc (length (drop_id i ns)) = length ns"
  by (induction ns) auto

text \<open>The nodes a bucket may hold.\<close>

definition node_ok :: "NodeID \<Rightarrow> bool list \<Rightarrow> routingNode \<Rightarrow> bool" where
  "node_ok self pre n \<longleftrightarrow> length (rn_id n) = NodeIDLength \<and> agrees pre (rn_id n) \<and> rn_id n \<noteq> self"

lemma bucket_ok_nodes:
  assumes "bucket_ok self pre b"
    and "prefixLen b' = prefixLen b" "minID b' = minID b" "maxID b' = maxID b" "localID b' = localID b"
    and "length (nodes b') \<le> bucketK" and "length (cache b') \<le> bucketCache"
    and "\<forall>n\<in>set (nodes b') \<union> set (cache b'). node_ok self pre n" and "cache b' \<noteq> [] \<longrightarrow> \<not> splitAllowed b"
  shows "bucket_ok self pre b'"
  using assms by (auto simp: bucket_ok_def node_ok_def splitAllowed_def)

lemma bucket_okD:
  assumes "bucket_ok self pre b"
  shows "length (nodes b) \<le> bucketK" "length (cache b) \<le> bucketCache" "\<forall>n\<in>set (nodes b) \<union> set (cache b). node_ok self pre n"
    "cache b \<noteq> [] \<longrightarrow> \<not> splitAllowed b"
  using assms by (auto simp: bucket_ok_def node_ok_def)

lemma addNode_simps [simp]:
  "minID (fst (addNode now n b)) = minID b" "maxID (fst (addNode now n b)) = maxID b"
  "localID (fst (addNode now n b)) = localID b" "cache (fst (addNode now n b)) = cache b"
  by (simp_all add: addNode_def Let_def)

lemma addNode_nodes:
  assumes "length (nodes b) \<le> bucketK"
  shows "length (nodes (fst (addNode now n b))) \<le> bucketK" "set (nodes (fst (addNode now n b))) \<subseteq> insert n (set (nodes b))"
  using set_drop_id [of "rn_id n" "nodes b"] assms
  by (auto simp: addNode_def contains_def Let_def bucketK_def dest: list.set_sel(2) [rotated])

lemma addNode_ok:
  assumes ok: "bucket_ok self pre b" and n: "node_ok self pre n"
  shows "bucket_ok self pre (fst (addNode now n b))"
  by (rule bucket_ok_nodes [OF ok])
     (use addNode_nodes [OF bucket_okD(1) [OF ok], of now n] bucket_okD [OF ok] n in auto)

lemma addNode_fields:
  "snd (addNode now n b) = False \<Longrightarrow> fst (addNode now n b) = b\<lparr>lastUpdate := now\<rparr> \<and> length (nodes b) \<ge> bucketK"
  by (auto simp: addNode_def Let_def split: if_splits)

lemma cacheNode_ok:
  assumes "bucket_ok self pre b" and "node_ok self pre n" and "\<not> splitAllowed b"
  shows "bucket_ok self pre (cacheNode n b)"
  by (rule bucket_ok_nodes [OF assms(1)])
     (use bucket_okD [OF assms(1)] assms(2,3) set_take_subset [of bucketCache "n # cache b"] in
       \<open>auto simp: cacheNode_def\<close>)

lemma dropNode_ok:
  assumes ok: "bucket_ok self pre b"
  shows "bucket_ok self pre (fst (dropNode i b))"
proof (cases "contains b i")
  case True
  note d = set_drop_id [of i "nodes b"]
  show ?thesis
    by (rule bucket_ok_nodes [OF ok])
       (use True d bucket_okD [OF ok] in \<open>auto simp: dropNode_def contains_def split: list.splits\<close>)
qed (use ok in \<open>simp add: dropNode_def\<close>)

lemma fold_add_ok:
  assumes "bucket_ok self pre r" and "\<forall>n\<in>set ns. P n \<longrightarrow> node_ok self pre n"
  shows "bucket_ok self pre (fold (\<lambda>n r. if P n then fst (addNode now n r) else r) ns r)"
  using assms by (induction ns arbitrary: r) (auto intro: addNode_ok)

lemma fold_add_minID: "minID (fold (\<lambda>n r. if P n then fst (addNode now n r) else r) ns r) = minID r"
  by (induction ns arbitrary: r) auto

lemma split_ok:
  assumes ok: "bucket_ok self pre b" and allowed: "splitAllowed b" and s: "split now b = (rb, b')" and self: "length self = NodeIDLength"
  shows "bucket_ok self (pre @ [False]) rb" and "bucket_ok self (pre @ [True]) b'" and "agrees pre self"
    and "range_of pre (minID rb) (maxID b')"
proof -
  let ?p = "prefixLen b"
  have p: "?p = length pre" "Suc ?p < 8 * NodeIDLength" and r: "range_of pre (minID b) (maxID b)"
    using ok allowed by (auto simp: bucket_ok_def splitAllowed_def mult.commute)
  have cache: "cache b = []" using bucket_okD(4) [OF ok] allowed by blast
  note halves = range_split [OF r p(1)]
  let ?r0 = "newBucketWithRange now (?p + 1) (flip_id_bit ?p (maxID b)) (minID b) self"
  have lid: "localID b = self" using ok by (simp add: bucket_ok_def)
  have r0: "bucket_ok self (pre @ [False]) ?r0"
    using halves p by (simp add: bucket_ok_def newBucketWithRange_def)
  have low: "inRange ?r0 x \<longleftrightarrow> agrees (pre @ [False]) x" if "length x = NodeIDLength" for x
    by (rule bucket_inRange [OF r0 that])
  have n: "node_ok self pre n" if "n \<in> set (nodes b)" for n using bucket_okD(3) [OF ok] that by blast
  have rb_eq: "rb = fold (\<lambda>n r. if inRange ?r0 (rn_id n) then fst (addNode now n r) else r) (nodes b) ?r0"
    and b': "b' = b\<lparr>minID := flip_id_bit ?p (minID b), prefixLen := ?p + 1, nodes := filter (\<lambda>n. \<not> inRange ?r0 (rn_id n)) (nodes b)\<rparr>"
    using s by (auto simp: split_def Let_def lid)
  have "\<forall>n\<in>set (nodes b). inRange ?r0 (rn_id n) \<longrightarrow> node_ok self (pre @ [False]) n"
    using n low by (auto simp: node_ok_def)
  then show rb: "bucket_ok self (pre @ [False]) rb" unfolding rb_eq by (rule fold_add_ok [OF r0])
  have hi: "node_ok self (pre @ [True]) n" if "n \<in> set (nodes b)" "\<not> inRange ?r0 (rn_id n)" for n
    using n [OF that(1)] low [of "rn_id n"] that(2) agrees_split(1) [of "rn_id n" pre] p by (auto simp: node_ok_def)
  show "bucket_ok self (pre @ [True]) b'"
    using halves p cache bucket_okD(1) [OF ok] hi unfolding b' bucket_ok_def
    by (auto simp: lid node_ok_def intro: order_trans [OF length_filter_le])
  show "agrees pre self" using allowed bucket_splitAllowed [OF ok self] by simp
  have "minID rb = minID b" unfolding rb_eq fold_add_minID by (simp add: newBucketWithRange_def)
  show "range_of pre (minID rb) (maxID b')"
    using r \<open>minID rb = minID b\<close> by (simp add: b')
qed

lemma bucket_ok_update: "bucket_ok self pre (b\<lparr>lastUpdate := u\<rparr>) \<longleftrightarrow> bucket_ok self pre b"
  by (simp add: bucket_ok_def splitAllowed_def)

lemma tree_ok_self: "tree_ok self pre t \<Longrightarrow> is_leaf t \<or> agrees pre self"
  by (cases t) auto

lemma add_at_ok:
  assumes "add_at now good rn b = (t, ok, splits, new)" and "bucket_ok self pre b" and "node_ok self pre rn"
    and "length self = NodeIDLength"
  shows "tree_ok self pre t"
  using assms
proof (induction now good rn b arbitrary: t ok splits new pre rule: add_at.induct)
  case (1 now good rn b)
  obtain b1 ok1 where add: "addNode now rn b = (b1, ok1)" by force
  have b1: "bucket_ok self pre b1" using addNode_ok [OF "1.prems"(2,3), of now] add by simp
  note eq = "1.prems"(1) [unfolded add_at.simps [of now good rn b] add Let_def prod.case]
  show ?case
  proof (cases "ok1 \<or> \<not> splitAllowed b1")
    case True
    then show ?thesis using eq b1 cacheNode_ok [OF b1 "1.prems"(3)] by (auto split: if_splits)
  next
    case False
    obtain rb b' where s: "split now b1 = (rb, b')" by force
    note parts = split_ok [OF b1 _ s "1.prems"(4)]
    have sa: "splitAllowed b1" using False by simp
    note low = bucket_inRange [OF parts(1) [OF sa]]
    have len: "length pre < 8 * NodeIDLength" using b1 by (simp add: bucket_ok_def)
    have leafs: "is_leaf (Leaf rb)" "is_leaf (Leaf b')" by simp_all
    show ?thesis
    proof (cases "inRange rb (rn_id rn)")
      case True
      obtain t' ok' s' n' where r: "add_at now good rn rb = (t', ok', s', n')" by (metis prod_cases4)
      have rn: "node_ok self (pre @ [False]) rn" using True low "1.prems"(3) by (auto simp: node_ok_def)
      have "tree_ok self (pre @ [False]) t'"
        by (rule "1.IH"(1) [OF refl add [symmetric] refl _ sa s [symmetric] refl True r parts(1) [OF sa] rn "1.prems"(4)])
           (use False in simp)
      moreover have "is_leaf t'" if "agrees (pre @ [True]) self"
        using that agrees_split(2) [OF "1.prems"(4) len] tree_ok_self calculation by blast
      ultimately show ?thesis using eq False True s r parts [OF sa] len sa by auto
    next
      case high: False
      obtain t' ok' s' n' where r: "add_at now good rn b' = (t', ok', s', n')" by (metis prod_cases4)
      have rn: "node_ok self (pre @ [True]) rn"
        using high low "1.prems"(3) agrees_split(1) [of "rn_id rn" pre] len by (auto simp: node_ok_def)
      have "tree_ok self (pre @ [True]) t'"
        by (rule "1.IH"(2) [OF refl add [symmetric] refl _ sa s [symmetric] refl high r parts(2) [OF sa] rn "1.prems"(4)])
           (use False in simp)
      moreover have "is_leaf t'" if "\<not> agrees (pre @ [True]) self"
        using that tree_ok_self calculation by blast
      ultimately show ?thesis using eq False high s r parts [OF sa] len sa by auto
    qed
  qed
qed

text \<open>A change at the leaf of an id.\<close>

lemma at_leaf_ok:
  assumes "tree_ok self pre t" and "agrees pre x" and "length x = NodeIDLength"
    and "\<And>pre b. bucket_ok self pre b \<Longrightarrow> agrees pre x \<Longrightarrow> b = findTreeNode t x \<Longrightarrow> tree_ok self pre (f b)"
    and "length self = NodeIDLength"
  shows "tree_ok self pre (at_leaf f x t)"
  using assms
proof (induction t arbitrary: pre)
  case (Inner l r mn mx)
  have len: "length pre < 8 * NodeIDLength" using Inner(3) by simp
  note agree = agrees_split [OF Inner(5) len] and self = agrees_split(2) [OF Inner(7) len]
  have lx: "btn_inRange l x \<longleftrightarrow> agrees (pre @ [False]) x" using tree_ok_inRange [of self "pre @ [False]" l x] Inner(3,5) by simp
  show ?case
  proof (cases "btn_inRange l x")
    case True
    have "tree_ok self (pre @ [False]) (at_leaf f x l)"
      by (rule Inner(1)) (use Inner True lx in auto)
    moreover have "is_leaf (at_leaf f x l)" if "agrees (pre @ [True]) self"
      using that self tree_ok_self [OF calculation] by blast
    ultimately show ?thesis using Inner(3) True by auto
  next
    case False
    have "tree_ok self (pre @ [True]) (at_leaf f x r)"
      by (rule Inner(2)) (use Inner False lx agree in auto)
    moreover have "is_leaf (at_leaf f x r)" if "\<not> agrees (pre @ [True]) self"
      using that tree_ok_self [OF calculation] by blast
    ultimately show ?thesis using Inner(3) False by auto
  qed
qed auto

lemma findTreeNode_ok:
  assumes "tree_ok self pre t" and "agrees pre x" and "length x = NodeIDLength"
  shows "\<exists>pre'. bucket_ok self pre' (findTreeNode t x) \<and> agrees pre' x"
  using assms
proof (induction t arbitrary: pre)
  case (Inner l r mn mx)
  then have "btn_inRange l x \<longleftrightarrow> agrees (pre @ [False]) x" using tree_ok_inRange [of self "pre @ [False]" l x] by simp
  then show ?case using Inner agrees_split(1) [of x pre] by auto
qed auto

lemma agrees_Nil [simp]: "agrees [] x"
  by (simp add: agrees_def)

lemma table_leaf:
  assumes "table_ok rt" and "length x = NodeIDLength"
    and "\<And>pre b. bucket_ok (rt_localID rt) pre b \<Longrightarrow> agrees pre x \<Longrightarrow> b = findTreeNode (root rt) x \<Longrightarrow> tree_ok (rt_localID rt) pre (f b)"
  shows "tree_ok (rt_localID rt) [] (at_leaf f x (root rt))"
  by (rule at_leaf_ok) (use assms in \<open>auto simp: table_ok_def\<close>)

section \<open>The operations keep the invariant\<close>

lemma NewRoutingTable_ok: "length self = NodeIDLength \<Longrightarrow> table_ok (NewRoutingTable now self)"
  using range_all by (simp add: table_ok_def NewRoutingTable_def newBucket_def newBucketWithRange_def bucket_ok_def NodeIDLength_def)

lemma addNodeInternal_ok:
  assumes ok: "table_ok rt" and n: "length (ID n) = NodeIDLength"
  shows "table_ok (fst (addNodeInternal now n good rt))"
proof (cases "ID n = rt_localID rt")
  case False
  obtain t ok' s new where a: "add_at now good (newRoutingNode now n) (findTreeNode (root rt) (ID n)) = (t, ok', s, new)"
    by (metis prod_cases4)
  have "tree_ok (rt_localID rt) pre t" if "bucket_ok (rt_localID rt) pre b" "agrees pre (ID n)" "b = findTreeNode (root rt) (ID n)" for pre b
    using that ok False n
    by (intro add_at_ok [OF a]) (auto simp: node_ok_def newRoutingNode_def table_ok_def)
  then have "tree_ok (rt_localID rt) [] (at_leaf (\<lambda>b. t) (ID n) (root rt))" by (intro table_leaf [OF ok n])
  then show ?thesis using ok False a by (simp add: addNodeInternal_def table_ok_def)
qed (use ok in \<open>simp add: addNodeInternal_def\<close>)

lemma drop_from_ok: "table_ok rt \<Longrightarrow> length x = NodeIDLength \<Longrightarrow> table_ok (drop_from x rt)"
  using table_leaf [of rt x "\<lambda>b. Leaf (fst (dropNode x b))"] dropNode_ok by (simp add: drop_from_def table_ok_def)

lemma update_first_ok:
  assumes "\<forall>n\<in>set ns. Q n" and "\<And>n. Q n \<Longrightarrow> Q (f n)"
  shows "\<forall>n\<in>set (update_first P f ns). Q n"
  using assms by (induction ns) auto

lemma length_update_first [simp]: "length (update_first P f ns) = length ns"
  by (induction ns) auto

lemma change_node_ok:
  assumes "table_ok rt" and "length x = NodeIDLength" and f: "\<And>n. rn_id (f n) = rn_id n"
  shows "table_ok (change_node f x ip port rt)"
proof -
  have "bucket_ok self pre (b\<lparr>nodes := update_first P f (nodes b)\<rparr>)" if ok: "bucket_ok self pre b" for self pre b P
  proof (rule bucket_ok_nodes [OF ok])
    have "\<forall>n\<in>set (update_first P f (nodes b)). node_ok self pre n"
      using bucket_okD(3) [OF ok] f by (intro update_first_ok) (auto simp: node_ok_def)
    then show "\<forall>n\<in>set (nodes (b\<lparr>nodes := update_first P f (nodes b)\<rparr>)) \<union> set (cache (b\<lparr>nodes := update_first P f (nodes b)\<rparr>)). node_ok self pre n"
      using bucket_okD(3) [OF ok] by auto
  qed (use bucket_okD [OF ok] in simp_all)
  then show ?thesis
    using assms(1) table_leaf [OF assms(1,2), of "\<lambda>b. Leaf (b\<lparr>nodes := update_first (same_node x ip port) f (nodes b)\<rparr>)"]
    by (simp add: change_node_def table_ok_def)
qed

lemmas node_changes = node_markGood_def node_markBad_def node_timeout_def node_contact_def

datatype dht_op =
    OpAdd int NodeInfo bool | OpRemove NodeID | OpMarkGood NodeID "byte list" uint16 | OpMarkBad NodeID "byte list" uint16
  | OpTimeout NodeID "byte list" uint16 | OpContact int NodeID "byte list" uint16
  | OpBatch int NodeInfo NodeID NodeID "byte list" uint16

fun dht_exec :: "dht_op \<Rightarrow> RoutingTable \<Rightarrow> RoutingTable" where
  "dht_exec (OpAdd now n good) rt = fst (if good then AddGoodNode now n rt else AddNode now n rt)"
| "dht_exec (OpRemove x) rt = RemoveNode x rt"
| "dht_exec (OpMarkGood x ip port) rt = markGood x ip port rt"
| "dht_exec (OpMarkBad x ip port) rt = markBadAndRemove x ip port rt"
| "dht_exec (OpTimeout x ip port) rt = onTimeout x ip port rt"
| "dht_exec (OpContact now x ip port) rt = updateContact now x ip port rt"
| "dht_exec (OpBatch now n x y ip port) rt = BatchUpdate now n x y ip port rt"

text \<open>Ids are 20 bytes.\<close>

fun op_ok :: "dht_op \<Rightarrow> bool" where
  "op_ok (OpAdd now n good) = (length (ID n) = NodeIDLength)"
| "op_ok (OpRemove x) = (length x = NodeIDLength)"
| "op_ok (OpMarkGood x ip port) = (length x = NodeIDLength)"
| "op_ok (OpMarkBad x ip port) = (length x = NodeIDLength)"
| "op_ok (OpTimeout x ip port) = (length x = NodeIDLength)"
| "op_ok (OpContact now x ip port) = (length x = NodeIDLength)"
| "op_ok (OpBatch now n x y ip port) = (length (ID n) = NodeIDLength \<and> length x = NodeIDLength \<and> length y = NodeIDLength)"

lemma dht_exec_ok: "table_ok rt \<Longrightarrow> op_ok op \<Longrightarrow> table_ok (dht_exec op rt)"
  by (cases op)
     (auto simp: AddNode_def AddGoodNode_def RemoveNode_def markGood_def markBadAndRemove_def onTimeout_def
       updateContact_def BatchUpdate_def node_changes Let_def
       intro!: addNodeInternal_ok drop_from_ok change_node_ok split: option.split)

lemma dht_run_ok: "table_ok rt \<Longrightarrow> list_all op_ok ops \<Longrightarrow> table_ok (fold dht_exec ops rt)"
  by (induction ops arbitrary: rt) (simp_all add: dht_exec_ok)

section \<open>Searching\<close>

definition tree_good :: "bucketTreeNode \<Rightarrow> routingNode set" where
  "tree_good t = (\<Union>b\<in>set (enumerateBuckets t). set (goodNodes b))"

lemma tree_good_simps [simp]:
  "tree_good (Leaf b) = set (goodNodes b)" "tree_good (Inner l r mn mx) = tree_good l \<union> tree_good r"
  by (auto simp: tree_good_def)

lemma collect_down_left:
  "\<exists>ys. collectDownwardLeftFirst ns t = ns @ ys \<and> set ys \<subseteq> tree_good t \<and>
     (length (ns @ ys) < bucketK \<longrightarrow> set ys = tree_good t)"
proof (induction t arbitrary: ns)
  case (Inner l r mn mx)
  obtain ys where ys: "collectDownwardLeftFirst ns l = ns @ ys" "set ys \<subseteq> tree_good l"
    "length (ns @ ys) < bucketK \<longrightarrow> set ys = tree_good l" using Inner(1) by blast
  obtain zs where zs: "collectDownwardLeftFirst (ns @ ys) r = (ns @ ys) @ zs" "set zs \<subseteq> tree_good r"
    "length ((ns @ ys) @ zs) < bucketK \<longrightarrow> set zs = tree_good r" using Inner(2) by blast
  show ?case
  proof (cases "length (ns @ ys) < bucketK")
    case True
    then show ?thesis using ys zs by (intro exI [of _ "ys @ zs"]) auto
  next
    case False
    then show ?thesis using ys by (intro exI [of _ ys]) auto
  qed
qed simp

lemma collect_down_right:
  "\<exists>ys. collectDownwardRightFirst ns t = ns @ ys \<and> set ys \<subseteq> tree_good t \<and>
     (length (ns @ ys) < bucketK \<longrightarrow> set ys = tree_good t)"
proof (induction t arbitrary: ns)
  case (Inner l r mn mx)
  obtain ys where ys: "collectDownwardRightFirst ns r = ns @ ys" "set ys \<subseteq> tree_good r"
    "length (ns @ ys) < bucketK \<longrightarrow> set ys = tree_good r" using Inner(2) by blast
  obtain zs where zs: "collectDownwardRightFirst (ns @ ys) l = (ns @ ys) @ zs" "set zs \<subseteq> tree_good l"
    "length ((ns @ ys) @ zs) < bucketK \<longrightarrow> set zs = tree_good l" using Inner(1) by blast
  show ?case
  proof (cases "length (ns @ ys) < bucketK")
    case True
    then show ?thesis using ys zs by (intro exI [of _ "ys @ zs"]) auto
  next
    case False
    then show ?thesis using ys by (intro exI [of _ ys]) auto
  qed
qed simp

text \<open>The search by recursion over the tree.\<close>

fun closest_rec :: "bucketTreeNode \<Rightarrow> NodeID \<Rightarrow> routingNode list option" where
  "closest_rec (Leaf b) x = Some (goodNodes b)"
| "closest_rec (Inner l r mn mx) x =
     (let left = btn_inRange l x; c = (if left then l else r); s = (if left then r else l) in
      if is_leaf c then
        Some (if left then collectDownwardLeftFirst [] (Inner l r mn mx) else collectDownwardRightFirst [] (Inner l r mn mx))
      else case closest_rec c x of
             None \<Rightarrow> None
           | Some ns \<Rightarrow> if length ns < bucketK then collectFromLeaf ns s else Some ns)"

lemma collectUpward_snoc:
  "length ns < bucketK \<Longrightarrow> collectUpward ns (es @ [(left, l, r)]) =
     (case collectUpward ns es of
        None \<Rightarrow> None
      | Some ns' \<Rightarrow> if length ns' < bucketK then collectFromLeaf ns' (if left then r else l) else Some ns')"
proof (induction es arbitrary: ns)
  case Nil
  then show ?case by (auto split: option.split)
next
  case (Cons e es)
  obtain a b c where e: "e = (a, b, c)" by (metis prod_cases3)
  show ?case using Cons by (auto simp: e split: option.split)
qed

lemma tree_path_leaf: "tree_path t x = [] \<longleftrightarrow> is_leaf t"
  by (cases t) auto

lemma down_bounds_irrelevant:
  "collectDownwardLeftFirst ns (Inner l r mn mx) = collectDownwardLeftFirst ns (Inner l r mn' mx')"
  "collectDownwardRightFirst ns (Inner l r mn mx) = collectDownwardRightFirst ns (Inner l r mn' mx')"
  by simp_all

lemma closest_unfold:
  "findClosestKNodes t x = map_option (take bucketK) (closest_rec t x)"
proof -
  have "(case rev (tree_path t x) of
          [] \<Rightarrow> collectFromLeaf [] t
        | (left, l, r) # upper \<Rightarrow>
            let parent = Inner l r [] [];
                ns = (if left then collectDownwardLeftFirst [] parent else collectDownwardRightFirst [] parent)
            in if length ns < bucketK then collectUpward ns upper else Some ns) = closest_rec t x"
  proof (induction t)
    case (Inner l r mn mx)
    let ?left = "btn_inRange l x"
    let ?c = "if ?left then l else r"
    show ?case
    proof (cases "is_leaf ?c")
      case True
      then have "tree_path ?c x = []" by (simp add: tree_path_leaf)
      then show ?thesis using True by (auto simp: Let_def)
    next
      case False
      then have "rev (tree_path ?c x) \<noteq> []" by (simp add: tree_path_leaf)
      then obtain left l' r' upper where p: "rev (tree_path ?c x) = (left, l', r') # upper" by (metis list.exhaust prod_cases3)
      have r: "rev (tree_path (Inner l r mn mx) x) = (left, l', r') # upper @ [(?left, l, r)]" using p by auto
      let ?ns = "if left then collectDownwardLeftFirst [] (Inner l' r' [] []) else collectDownwardRightFirst [] (Inner l' r' [] [])"
      have IH: "(if length ?ns < bucketK then collectUpward ?ns upper else Some ?ns) = closest_rec ?c x"
        using Inner p by (auto simp: Let_def split: if_splits)
      have "closest_rec (Inner l r mn mx) x = (case closest_rec ?c x of None \<Rightarrow> None
          | Some ns \<Rightarrow> if length ns < bucketK then collectFromLeaf ns (if ?left then r else l) else Some ns)"
        using False by (auto simp: Let_def)
      also have "\<dots> = (if length ?ns < bucketK then collectUpward ?ns (upper @ [(?left, l, r)]) else Some ?ns)"
        unfolding IH [symmetric] by (cases "length ?ns < bucketK") (simp_all only: collectUpward_snoc if_True if_False option.case)
      finally show ?thesis unfolding r by (simp only: list.case prod.case Let_def)
    qed
  qed simp
  then show ?thesis by (simp add: findClosestKNodes_def)
qed

lemma closest_rec_ok:
  assumes "tree_ok self pre t" and "agrees pre x" and "length x = NodeIDLength" and "length self = NodeIDLength"
  shows "\<exists>ys. closest_rec t x = Some (goodNodes (findTreeNode t x) @ ys) \<and> set ys \<subseteq> tree_good t \<and>
    (length (goodNodes (findTreeNode t x) @ ys) < bucketK \<longrightarrow> set (goodNodes (findTreeNode t x) @ ys) = tree_good t)"
  using assms
proof (induction t arbitrary: pre)
  case (Inner l r mn mx)
  have len: "length pre < 8 * NodeIDLength" using Inner(3) by simp
  have lx: "btn_inRange l x \<longleftrightarrow> agrees (pre @ [False]) x" using tree_ok_inRange [of self "pre @ [False]" l x] Inner(3,5) by simp
  let ?left = "btn_inRange l x"
  let ?c = "if ?left then l else r" and ?s = "if ?left then r else l"
  have f: "findTreeNode (Inner l r mn mx) x = findTreeNode ?c x" by simp
  have c: "tree_ok self (pre @ [\<not> ?left]) ?c" "agrees (pre @ [\<not> ?left]) x"
    using Inner(3-5) lx agrees_split(1) [OF Inner(5) len] by auto
  have g: "tree_good (Inner l r mn mx) = tree_good ?c \<union> tree_good ?s" by auto
  show ?case
  proof (cases "is_leaf ?c")
    case True
    then obtain b where b: "?c = Leaf b" by (cases ?c) auto
    obtain ys where ys: "(if ?left then collectDownwardLeftFirst (goodNodes b) r else collectDownwardRightFirst (goodNodes b) l) = goodNodes b @ ys"
      "set ys \<subseteq> tree_good ?s" "length (goodNodes b @ ys) < bucketK \<longrightarrow> set ys = tree_good ?s"
      using collect_down_left [of "goodNodes b" r] collect_down_right [of "goodNodes b" l] by (cases ?left) auto
    have cl: "closest_rec (Inner l r mn mx) x =
        Some (if length (goodNodes b) < bucketK then goodNodes b @ ys else goodNodes b @ [])"
      using True b ys(1) by (auto simp: Let_def split: if_splits)
    have fb: "findTreeNode (Inner l r mn mx) x = b" using b f by simp
    have gb: "tree_good (Inner l r mn mx) = set (goodNodes b) \<union> tree_good ?s" unfolding g b by simp
    show ?thesis unfolding cl fb gb using ys(2,3) by (cases "length (goodNodes b) < bucketK") auto
  next
    case False
    then have "agrees (pre @ [\<not> ?left]) self" using tree_ok_self [OF c(1)] by blast
    then have "is_leaf ?s" using Inner(3) agrees_split(2) [OF Inner(6) len] by (cases ?left) auto
    then obtain b where b: "?s = Leaf b" by (cases ?s) auto
    have "\<exists>ys. closest_rec ?c x = Some (goodNodes (findTreeNode ?c x) @ ys) \<and> set ys \<subseteq> tree_good ?c \<and>
        (length (goodNodes (findTreeNode ?c x) @ ys) < bucketK \<longrightarrow> set (goodNodes (findTreeNode ?c x) @ ys) = tree_good ?c)"
      using Inner(1,2) c Inner(5,6) by (cases ?left) auto
    then obtain ys where ys: "closest_rec ?c x = Some (goodNodes (findTreeNode ?c x) @ ys)" "set ys \<subseteq> tree_good ?c"
      "length (goodNodes (findTreeNode ?c x) @ ys) < bucketK \<longrightarrow> set (goodNodes (findTreeNode ?c x) @ ys) = tree_good ?c" by blast
    have cl: "closest_rec (Inner l r mn mx) x = (if length (goodNodes (findTreeNode ?c x) @ ys) < bucketK
        then Some (goodNodes (findTreeNode ?c x) @ (ys @ goodNodes b)) else Some (goodNodes (findTreeNode ?c x) @ ys))"
      using False ys(1) b by (auto simp: Let_def)
    have gb: "tree_good (Inner l r mn mx) = tree_good ?c \<union> set (goodNodes b)" unfolding g b by simp
    show ?thesis unfolding cl f gb using ys(2,3)
      by (cases "length (goodNodes (findTreeNode ?c x) @ ys) < bucketK") auto
  qed
qed simp

lemma buckets_in_range:
  assumes "tree_ok self pre t" and "length x = NodeIDLength"
  shows "filter (\<lambda>b. inRange b x) (enumerateBuckets t) = (if agrees pre x then [findTreeNode t x] else [])"
  using assms
proof (induction t arbitrary: pre)
  case (Leaf b)
  then show ?case using bucket_inRange [of self pre b x] by simp
next
  case (Inner l r mn mx)
  have len: "length pre < 8 * NodeIDLength" using Inner(3) by simp
  have "btn_inRange l x \<longleftrightarrow> agrees (pre @ [False]) x" using tree_ok_inRange [of self "pre @ [False]" l x] Inner(3,4) by simp
  then show ?case using Inner agrees_split(1,2) [OF Inner(4) len] by auto
qed

lemma bucket_facts:
  assumes "tree_ok self pre t" and "b \<in> set (enumerateBuckets t)"
  shows "length (nodes b) \<le> bucketK \<and> length (cache b) \<le> bucketCache \<and>
    (\<forall>n\<in>set (nodes b) \<union> set (cache b). inRange b (rn_id n) \<and> rn_id n \<noteq> self)"
  using assms
proof (induction t arbitrary: pre)
  case (Leaf b')
  then show ?case using bucket_okD [of self pre b'] bucket_inRange [of self pre b'] by (auto simp: node_ok_def)
qed auto

text \<open>The number of buckets.\<close>

lemma add_at_leaves:
  "add_at now good rn b = (t, ok, splits, new) \<Longrightarrow> int (length (enumerateBuckets t)) = 1 + splits"
proof (induction now good rn b arbitrary: t ok splits new rule: add_at.induct)
  case (1 now good rn b)
  obtain b1 ok1 where add: "addNode now rn b = (b1, ok1)" by force
  obtain rb b' where s: "split now b1 = (rb, b')" by force
  note eq = "1.prems" [unfolded add_at.simps [of now good rn b] add Let_def prod.case s]
  note IH = "1.IH" [OF refl add [symmetric] refl _ _ s [symmetric] refl]
  show ?case
  proof (cases "ok1 \<or> \<not> splitAllowed b1")
    case True
    then show ?thesis using eq by (auto split: if_splits)
  next
    case False
    then have sa: "\<not> ok1" "splitAllowed b1" by auto
    show ?thesis
    proof (cases "inRange rb (rn_id rn)")
      case True
      obtain t' ok' s' n' where r: "add_at now good rn rb = (t', ok', s', n')" by (metis prod_cases4)
      show ?thesis using IH(1) [OF sa True r] eq sa True r by auto
    next
      case high: False
      obtain t' ok' s' n' where r: "add_at now good rn b' = (t', ok', s', n')" by (metis prod_cases4)
      show ?thesis using IH(2) [OF sa high r] eq sa high r by auto
    qed
  qed
qed

lemma at_leaf_leaves:
  "length (enumerateBuckets (at_leaf f x t)) + 1 = length (enumerateBuckets t) + length (enumerateBuckets (f (findTreeNode t x)))"
  by (induction t) auto

lemma numBuck_exec:
  assumes "numBuck rt = int (length (enumerateBuckets (root rt)))"
  shows "numBuck (dht_exec op rt) = int (length (enumerateBuckets (root (dht_exec op rt))))"
proof -
  have add: "numBuck (fst (addNodeInternal now n good rt)) = int (length (enumerateBuckets (root (fst (addNodeInternal now n good rt)))))"
    if "numBuck rt = int (length (enumerateBuckets (root rt)))" for now n good and rt :: RoutingTable
  proof -
    obtain t ok s new where a: "add_at now good (newRoutingNode now n) (findTreeNode (root rt) (ID n)) = (t, ok, s, new)"
      by (metis prod_cases4)
    show ?thesis
      using that add_at_leaves [OF a] at_leaf_leaves [of "\<lambda>b. t" "ID n" "root rt"]
      by (simp add: addNodeInternal_def a)
  qed
  have leaf: "length (enumerateBuckets (at_leaf (\<lambda>b. Leaf (g b)) x t)) = length (enumerateBuckets t)" for g x t
    using at_leaf_leaves [of "\<lambda>b. Leaf (g b)" x t] by simp
  have drop: "numBuck (drop_from x rt) - int (length (enumerateBuckets (root (drop_from x rt)))) =
      numBuck rt - int (length (enumerateBuckets (root rt)))" for x and rt :: RoutingTable
    by (simp add: drop_from_def leaf)
  have change: "numBuck (change_node f x ip port rt) = numBuck rt"
    "length (enumerateBuckets (root (change_node f x ip port rt))) = length (enumerateBuckets (root rt))"
    for f x ip port and rt :: RoutingTable
    by (simp_all add: change_node_def leaf)
  have drop': "numBuck (drop_from x rt) = int (length (enumerateBuckets (root (drop_from x rt))))"
    if "numBuck rt = int (length (enumerateBuckets (root rt)))" for x and rt :: RoutingTable
    using drop [of x rt] that by simp
  show ?thesis
    using assms
    by (cases op)
       (auto simp: AddNode_def AddGoodNode_def RemoveNode_def markGood_def markBadAndRemove_def onTimeout_def
         updateContact_def BatchUpdate_def Let_def change intro!: add drop' split: option.split)
qed

section \<open>Properties\<close>

text \<open>(C23) The buckets partition the ids. After any sequence of operations from an empty table on,
  every id lies in the range of exactly one bucket, the one the tree search finds; a bucket holds
  at most eight nodes and two replacements, all of its own range and none with this node's id; and
  the counter of buckets is right.\<close>

theorem dht_buckets_partition:
  assumes "length self = NodeIDLength" and "list_all op_ok ops" and "length x = NodeIDLength"
    and "rt = fold dht_exec ops (NewRoutingTable now self)"
  shows "filter (\<lambda>b. inRange b x) (enumerateBuckets (root rt)) = [findTreeNode (root rt) x] \<and>
    (\<forall>b\<in>set (enumerateBuckets (root rt)).
       length (nodes b) \<le> 8 \<and> length (cache b) \<le> 2 \<and>
       (\<forall>n\<in>set (nodes b) \<union> set (cache b). inRange b (rn_id n) \<and> rn_id n \<noteq> rt_localID rt)) \<and>
    numBuck rt = int (length (enumerateBuckets (root rt)))"
proof -
  have ok: "table_ok rt" unfolding assms(4) by (rule dht_run_ok [OF NewRoutingTable_ok [OF assms(1)] assms(2)])
  have "numBuck (fold dht_exec ops rt0) = int (length (enumerateBuckets (root (fold dht_exec ops rt0))))"
    if "numBuck rt0 = int (length (enumerateBuckets (root rt0)))" for rt0
    using that by (induction ops arbitrary: rt0) (simp_all add: numBuck_exec)
  then have "numBuck rt = int (length (enumerateBuckets (root rt)))"
    unfolding assms(4) by (simp add: NewRoutingTable_def)
  moreover have t: "tree_ok (rt_localID rt) [] (root rt)" using ok by (simp add: table_ok_def)
  ultimately show ?thesis
    using buckets_in_range [OF t assms(3)] bucket_facts [OF t] by (simp add: bucketK_def bucketCache_def)
qed

definition sample_node :: "byte \<Rightarrow> NodeInfo" where
  "sample_node k = \<lparr>ID = k # replicate 19 0, IP = [10, 0, 0, k], Port = 6881\<rparr>"

definition sample_ops :: "dht_op list" where
  "sample_ops = map (\<lambda>k. OpAdd 0 (sample_node k) False) [128, 129, 130, 131, 132, 133, 134, 135, 1]"

lemma sample_ops_ok: "list_all op_ok sample_ops" "length (replicate 20 0 :: NodeID) = NodeIDLength"
  by (simp_all add: sample_ops_def sample_node_def NodeIDLength_def)

theorem dht_buckets_partition_witness:
  "numBuck (fold dht_exec sample_ops (NewRoutingTable 0 (replicate 20 0))) = 2"
proof -
  let ?rt = "fold dht_exec sample_ops (NewRoutingTable 0 (replicate 20 0))"
  have "length (enumerateBuckets (root ?rt)) = 2" by code_simp
  then show ?thesis
    using dht_buckets_partition [OF sample_ops_ok(2,1,2) refl, of 0] by simp
qed

text \<open>(C24) The search for close nodes. It never touches an inner node as if it were a bucket, although
  it asks every sibling on the way up for its nodes; it returns at most eight nodes, all of them
  good nodes of the table and among them all good nodes of the target's own bucket; and when it
  returns fewer than eight, it returns every good node there is.\<close>

theorem closest_nodes_sound:
  assumes "length self = NodeIDLength" and "list_all op_ok ops" and "length target = NodeIDLength"
    and "rt = fold dht_exec ops (NewRoutingTable now self)"
  shows "\<exists>ns. findClosestKNodes (root rt) target = Some ns \<and> length ns \<le> 8 \<and>
    set ns \<subseteq> {n. \<exists>b\<in>set (enumerateBuckets (root rt)). n \<in> set (nodes b) \<and> \<not> isBad n} \<and>
    set (goodNodes (findTreeNode (root rt) target)) \<subseteq> set ns \<and>
    (length ns < 8 \<longrightarrow> set ns = {n. \<exists>b\<in>set (enumerateBuckets (root rt)). n \<in> set (nodes b) \<and> \<not> isBad n})"
proof -
  have ok: "table_ok rt" unfolding assms(4) by (rule dht_run_ok [OF NewRoutingTable_ok [OF assms(1)] assms(2)])
  then have t: "tree_ok (rt_localID rt) [] (root rt)" "length (rt_localID rt) = NodeIDLength" by (simp_all add: table_ok_def)
  let ?g = "goodNodes (findTreeNode (root rt) target)"
  obtain ys where ys: "closest_rec (root rt) target = Some (?g @ ys)" "set ys \<subseteq> tree_good (root rt)"
    "length (?g @ ys) < bucketK \<longrightarrow> set (?g @ ys) = tree_good (root rt)"
    using closest_rec_ok [OF t(1) _ assms(3) t(2)] by auto
  have good: "tree_good (root rt) = {n. \<exists>b\<in>set (enumerateBuckets (root rt)). n \<in> set (nodes b) \<and> \<not> isBad n}"
    by (auto simp: tree_good_def goodNodes_def)
  obtain pre where "bucket_ok (rt_localID rt) pre (findTreeNode (root rt) target)"
    using findTreeNode_ok [OF t(1) _ assms(3)] by auto
  then have g: "length ?g \<le> bucketK" using bucket_okD(1) by (auto simp: goodNodes_def intro: order_trans [OF length_filter_le])
  have "findTreeNode (root rt) target \<in> set (enumerateBuckets (root rt))"
    using buckets_in_range [OF t(1) assms(3)] by (auto simp: filter_eq_Cons_iff)
  then have sub: "set ?g \<subseteq> tree_good (root rt)" by (auto simp: tree_good_def)
  have take: "take bucketK (?g @ ys) = ?g @ take (bucketK - length ?g) ys" using g by simp
  have "length (take bucketK (?g @ ys)) < bucketK \<Longrightarrow> take bucketK (?g @ ys) = ?g @ ys" by simp
  then have "findClosestKNodes (root rt) target = Some (take bucketK (?g @ ys)) \<and> length (take bucketK (?g @ ys)) \<le> bucketK \<and>
      set (take bucketK (?g @ ys)) \<subseteq> tree_good (root rt) \<and> set ?g \<subseteq> set (take bucketK (?g @ ys)) \<and>
      (length (take bucketK (?g @ ys)) < bucketK \<longrightarrow> set (take bucketK (?g @ ys)) = tree_good (root rt))"
    using ys sub take set_take_subset [of "bucketK - length ?g" ys] by (auto simp: closest_unfold dest: in_set_takeD)
  then show ?thesis unfolding good bucketK_def by blast
qed

theorem closest_nodes_sound_witness:
  "\<exists>ns. findClosestKNodes (root (fold dht_exec sample_ops (NewRoutingTable 0 (replicate 20 0)))) (replicate 20 0) = Some ns \<and>
     length ns \<le> 8"
  using closest_nodes_sound [OF sample_ops_ok(2,1,2) refl, of 0] by blast

text \<open>The counter of nodes drifts: removing a node whose bucket has a replacement leaves as many nodes as
  before and counts one less.\<close>

lemma remove_with_replacement:
  assumes "contains b x" and "cache b \<noteq> []"
  shows "length (nodes (fst (dropNode x b))) = length (nodes b)"
  using assms set_drop_id(3) [of x "nodes b"] by (cases "cache b") (simp_all add: dropNode_def contains_def)

text \<open>A node can be offered twice as a replacement and then ends up twice in the bucket.\<close>

definition duplicate_ops :: "dht_op list" where
  "duplicate_ops = sample_ops @
     [OpAdd 0 (sample_node 136) True, OpAdd 0 (sample_node 136) True,
      OpRemove (ID (sample_node 128)), OpRemove (ID (sample_node 129))]"

lemma replacement_duplicates:
  "let rt = fold dht_exec duplicate_ops (NewRoutingTable 0 (replicate 20 0));
       ids = concat (map (\<lambda>b. map (hd \<circ> rn_id) (nodes b)) (enumerateBuckets (root rt)))
   in ids = [1, 130, 131, 132, 133, 134, 135, 136, 136] \<and> nodeCount rt = 7"
  by code_simp

end
