(* ===== verification/Krpc.thy ===== *)
theory Krpc
  imports DhtRouting Bencode Strings Wire
begin

text \<open>
  The messages of the DHT, \<open>src/internal/dht/krpc.go\<close>: queries, responses and errors as bencoded
  dictionaries, the package's own small bencode decoder, and the compact form of node contacts. The lemmas are
  the termination of the decoder, its agreement with the encoder of package \<open>bencode\<close>, the round trip
  of messages and of node lists, and a packet that makes the decoder panic. A packet is a string of bytes.
\<close>

section \<open>The decoder\<close>

datatype be_error =
    BeEnd | BeByte | BeLengthChar | BeLeadingZero | BeTooLong | BeEmptyInt | BeIntChar | BeKey | BePanic

text \<open>The scanner's position is the rest of the data still to be read; \<open>n\<close> is the length of all of it. At the end \<open>peek\<close> returns
  0, so that a zero byte counts as the end.\<close>

definition peek :: "string \<Rightarrow> char" where
  "peek s = (case s of [] \<Rightarrow> CHR 0x00 | c # _ \<Rightarrow> c)"

fun length_digits :: "string \<Rightarrow> be_error + string \<times> string" where
  "length_digits [] = Inl BeEnd"
| "length_digits (c # s) =
     (if c = CHR 0x00 then Inl BeEnd
      else if c = CHR '':'' then Inr ([], c # s)
      else if \<not> is_digit c then Inl BeLengthChar
      else rbind (length_digits s) (\<lambda>(ds, r). Inr (c # ds, r)))"

definition digit :: "char \<Rightarrow> int" where
  "digit c = int (of_char c) - 48"

text \<open>The length is accumulated in an \<open>int\<close> that wraps around. The end of the string is then compared with the length of
  the data; slicing the data panics when that end lies before its start.\<close>

definition wrapped_decimal :: "int \<Rightarrow> string \<Rightarrow> int" where
  "wrapped_decimal acc ds = foldl (\<lambda>a c. wrap64 (a * 10 + digit c)) acc ds"

definition parseString :: "nat \<Rightarrow> string \<Rightarrow> be_error + string \<times> string" where
  "parseString n s =
     rbind (length_digits s) (\<lambda>(ds, r).
       if 1 < length ds \<and> hd ds = CHR ''0'' then Inl BeLeadingZero
       else
         let len = wrapped_decimal 0 ds; rest = tl r;
             pos = int n - int (length rest); stop = wrap64 (pos + len)
         in if int n < stop then Inl BeTooLong
            else if stop < pos then Inl BePanic
            else Inr (take (nat len) rest, drop (nat len) rest))"

fun int_digits :: "int \<Rightarrow> string \<Rightarrow> be_error + int \<times> string" where
  "int_digits val [] = Inl BeEnd"
| "int_digits val (c # s) =
     (if c = CHR ''e'' then Inr (val, c # s)
      else if c = CHR 0x00 then Inl BeEnd
      else if \<not> is_digit c then Inl BeIntChar
      else int_digits (wrap64 (val * 10 + digit c)) s)"

definition parseInt :: "string \<Rightarrow> be_error + int \<times> string" where
  "parseInt s =
     (let s1 = tl s; negative = (peek s1 = CHR ''-''); s2 = (if negative then tl s1 else s1) in
      if peek s2 = CHR 0x00 then Inl BeEnd
      else if peek s2 = CHR ''e'' then Inl BeEmptyInt
      else
        rbind (if peek s2 = CHR ''0'' then
                 (if peek (tl s2) \<noteq> CHR ''e'' then Inl BeLeadingZero else Inr (0, tl s2))
               else int_digits 0 s2)
          (\<lambda>(val, r). Inr (if negative then wrap64 (- val) else val, tl r)))"

primrec parse_list ::
    "(string \<Rightarrow> (be_error + Value \<times> string) option) \<Rightarrow> nat \<Rightarrow> Value list \<Rightarrow> string \<Rightarrow> (be_error + Value \<times> string) option" where
  "parse_list dec 0 items s = None"
| "parse_list dec (Suc f) items s =
     (if peek s = CHR 0x00 then Some (Inl BeEnd)
      else if peek s = CHR ''e'' then Some (Inr (ListVal items, tl s))
      else dbind (dec s) (\<lambda>(v, r). parse_list dec f (items @ [v]) r))"

primrec parse_dict ::
    "nat \<Rightarrow> (string \<Rightarrow> (be_error + Value \<times> string) option) \<Rightarrow> nat \<Rightarrow> (string \<times> Value) list \<Rightarrow> string
     \<Rightarrow> (be_error + Value \<times> string) option" where
  "parse_dict n dec 0 d s = None"
| "parse_dict n dec (Suc f) d s =
     (if peek s = CHR 0x00 then Some (Inl BeEnd)
      else if peek s = CHR ''e'' then Some (Inr (DictVal d, tl s))
      else if \<not> is_digit (peek s) then Some (Inl BeKey)
      else dbind (Some (parseString n s)) (\<lambda>(key, s1).
             dbind (dec s1) (\<lambda>(val, s2). parse_dict n dec f (Set d key val) s2)))"

primrec parseValue :: "nat \<Rightarrow> nat \<Rightarrow> string \<Rightarrow> (be_error + Value \<times> string) option" where
  "parseValue 0 n s = None"
| "parseValue (Suc f) n s =
     (if is_digit (peek s) then Some (rbind (parseString n s) (\<lambda>(t, r). Inr (StringVal t, r)))
      else if peek s = CHR ''i'' then Some (rbind (parseInt s) (\<lambda>(i, r). Inr (IntVal i, r)))
      else if peek s = CHR ''l'' then parse_list (parseValue f n) (length s) [] (tl s)
      else if peek s = CHR ''d'' then parse_dict n (parseValue f n) (length s) [] (tl s)
      else if peek s = CHR 0x00 then Some (Inl BeEnd)
      else Some (Inl BeByte))"

text \<open>Nesting is not limited, but every level takes a byte: fuel for one level more than there are bytes is enough
  (\<open>beDecode_total\<close>). What follows the first value is ignored.\<close>

definition beDecode :: "string \<Rightarrow> (be_error + Value) option" where
  "beDecode data = dbind (parseValue (Suc (length data)) (length data) data) (\<lambda>(v, r). Some (Inr v))"

section \<open>Messages\<close>

type_synonym dict = "(string \<times> Value) list"

text \<open>Nil dictionaries and an unset error are \<open>None\<close>.\<close>

record krpcMessage =
  km_T :: string
  km_Y :: string
  km_Q :: string
  km_A :: "dict option"
  km_R :: "dict option"
  km_E :: "(int \<times> string) option"
  km_V :: string

definition NewQuery :: "string \<Rightarrow> dict option \<Rightarrow> krpcMessage" where
  "NewQuery meth args =
     \<lparr>km_T = [], km_Y = ''q'', km_Q = meth, km_A = Some (case args of None \<Rightarrow> [] | Some a \<Rightarrow> a), km_R = None, km_E = None, km_V = []\<rparr>"

definition NewResponse :: "string \<Rightarrow> dict option \<Rightarrow> krpcMessage" where
  "NewResponse t r =
     \<lparr>km_T = t, km_Y = ''r'', km_Q = [], km_A = None, km_R = Some (case r of None \<Rightarrow> [] | Some a \<Rightarrow> a), km_E = None, km_V = []\<rparr>"

definition NewError :: "string \<Rightarrow> int \<Rightarrow> string \<Rightarrow> krpcMessage" where
  "NewError t code msg =
     \<lparr>km_T = t, km_Y = ''e'', km_Q = [], km_A = None, km_R = None, km_E = Some (code, msg), km_V = []\<rparr>"

definition writeBencodeString :: "string \<Rightarrow> string \<Rightarrow> string" where
  "writeBencodeString key val =
     FormatUint (length key) @ '':'' @ key @ FormatUint (length val) @ '':'' @ val"

definition writeBencodeRaw :: "string \<Rightarrow> string \<Rightarrow> string" where
  "writeBencodeRaw key raw = FormatUint (length key) @ '':'' @ key @ raw"

datatype krpc_error =
    KDecode be_error | KNotDict | KMissing string | KNotString string | KBadKind string | KIdLength nat | KErrorList nat | KUnknownType string | KPanic

definition envelope :: "krpcMessage \<Rightarrow> string" where
  "envelope m = writeBencodeString ''t'' (km_T m) @ writeBencodeString ''v'' (km_V m) @ writeBencodeString ''y'' (km_Y m)"

definition dict_text :: "dict option \<Rightarrow> string" where
  "dict_text d = (case d of None \<Rightarrow> ''de'' | Some es \<Rightarrow> Value_String (DictVal es))"

definition MarshalTo :: "krpcMessage \<Rightarrow> krpc_error + string" where
  "MarshalTo m =
     (if km_Y m = ''q'' then
        Inr (''d'' @ writeBencodeRaw ''a'' (dict_text (km_A m)) @ writeBencodeString ''q'' (km_Q m) @ envelope m @ ''e'')
      else if km_Y m = ''r'' then
        Inr (''d'' @ writeBencodeRaw ''r'' (dict_text (km_R m)) @ envelope m @ ''e'')
      else if km_Y m = ''e'' then
        (case km_E m of
           None \<Rightarrow> Inl KPanic
         | Some (code, msg) \<Rightarrow>
             Inr (''d'' @ ''1:el'' @ ''i'' @ FormatInt code @ ''e'' @ FormatUint (length msg) @ '':'' @ msg @ ''e'' @ envelope m @ ''e''))
      else Inl (KUnknownType (km_Y m)))"

definition ClientVersion :: string where
  "ClientVersion = ''A2'' @ bytes_text (PutUint16 3)"

definition get_string :: "dict \<Rightarrow> string \<Rightarrow> krpc_error + string" where
  "get_string d key =
     (case Get d key of None \<Rightarrow> Inl (KMissing key) | Some (StringVal s) \<Rightarrow> Inr s | Some _ \<Rightarrow> Inl (KNotString key))"

definition get_dict :: "dict \<Rightarrow> string \<Rightarrow> krpc_error + dict" where
  "get_dict d key =
     (case Get d key of None \<Rightarrow> Inl (KMissing key) | Some (DictVal es) \<Rightarrow> Inr es | Some _ \<Rightarrow> Inl (KBadKind key))"

definition validateDictNodeID :: "dict \<Rightarrow> krpc_error + dict" where
  "validateDictNodeID d =
     rbind (get_string d ''id'') (\<lambda>i. if length i \<noteq> NodeIDLength then Inl (KIdLength (length i)) else Inr d)"

definition error_list :: "dict \<Rightarrow> krpc_error + int \<times> string" where
  "error_list d =
     (case Get d ''e'' of
        None \<Rightarrow> Inl (KMissing ''e'')
      | Some (ListVal vs) \<Rightarrow>
          if length vs \<noteq> 2 then Inl (KErrorList (length vs))
          else case vs ! 0 of
                 IntVal i \<Rightarrow> (case vs ! 1 of StringVal s \<Rightarrow> Inr (i, s) | _ \<Rightarrow> Inl (KBadKind ''error message''))
               | _ \<Rightarrow> Inl (KBadKind ''error code'')
      | Some _ \<Rightarrow> Inl (KBadKind ''e''))"

definition message_of :: "dict \<Rightarrow> krpc_error + krpcMessage" where
  "message_of d =
     rbind (get_string d ''t'') (\<lambda>t.
     rbind (get_string d ''y'') (\<lambda>y.
       let m = \<lparr>km_T = t, km_Y = y, km_Q = [], km_A = None, km_R = None, km_E = None,
                km_V = (case Get d ''v'' of Some (StringVal s) \<Rightarrow> s | _ \<Rightarrow> [])\<rparr> in
       if y = ''q'' then
         rbind (get_string d ''q'') (\<lambda>q.
         rbind (get_dict d ''a'') (\<lambda>a.
         rbind (validateDictNodeID a) (\<lambda>_. Inr (m\<lparr>km_Q := q, km_A := Some a\<rparr>))))
       else if y = ''r'' then
         rbind (get_dict d ''r'') (\<lambda>r.
         rbind (validateDictNodeID r) (\<lambda>_. Inr (m\<lparr>km_R := Some r\<rparr>)))
       else if y = ''e'' then rbind (error_list d) (\<lambda>e. Inr (m\<lparr>km_E := Some e\<rparr>))
       else Inl (KUnknownType y)))"

definition krpc_Unmarshal :: "string \<Rightarrow> (krpc_error + krpcMessage) option" where
  "krpc_Unmarshal data =
     (case beDecode data of
        None \<Rightarrow> None
      | Some (Inl e) \<Rightarrow> Some (Inl (KDecode e))
      | Some (Inr (DictVal d)) \<Rightarrow> Some (message_of d)
      | Some (Inr _) \<Rightarrow> Some (Inl KNotDict))"

section \<open>Compact contacts\<close>

text \<open>The length of the address is 4 for \<open>NodeInfo\<close> and 16 for \<open>V6NodeInfo\<close>.\<close>

definition Compact :: "NodeInfo \<Rightarrow> byte list" where
  "Compact n = ID n @ IP n @ PutUint16 (Port n)"

definition CompactNodes :: "NodeInfo list \<Rightarrow> byte list" where
  "CompactNodes ns = concat (map Compact ns)"

definition DecodeCompact :: "nat \<Rightarrow> byte list \<Rightarrow> NodeInfo" where
  "DecodeCompact ipLen chunk =
     \<lparr>ID = take 20 chunk, IP = take ipLen (drop 20 chunk), Port = Uint16 (drop (20 + ipLen) chunk)\<rparr>"

function decode_chunks :: "nat \<Rightarrow> byte list \<Rightarrow> NodeInfo list" where
  "decode_chunks ipLen data =
     (if data = [] then []
      else
        let node = DecodeCompact ipLen (take (22 + ipLen) data); rest = decode_chunks ipLen (drop (22 + ipLen) data)
        in if IP node = replicate ipLen 0 then rest else node # rest)"
  by pat_completeness auto
termination by (relation "measure (\<lambda>(ipLen, data). length data)") auto

declare decode_chunks.simps [simp del]

definition DecodeCompactNodes :: "nat \<Rightarrow> byte list \<Rightarrow> krpc_error + NodeInfo list" where
  "DecodeCompactNodes ipLen data =
     (if length data mod (22 + ipLen) \<noteq> 0 then Inl (KIdLength (length data)) else Inr (decode_chunks ipLen data))"

definition ValidateID :: "byte list \<Rightarrow> bool" where
  "ValidateID i = (length i = NodeIDLength)"

definition ValidatePort :: "uint16 \<Rightarrow> bool" where
  "ValidatePort port = (\<not> (port = 0 \<or> port = 65535))"

section \<open>The decoder always returns\<close>

lemma peek_simps [simp]: "peek [] = CHR 0x00" "peek (c # s) = c"
  by (simp_all add: peek_def)

lemma peek_digit: "is_digit (peek s) \<Longrightarrow> s \<noteq> []"
  by (cases s) (auto simp: is_digit_iff)

lemma length_digits_rest: "length_digits s = Inr (ds, r) \<Longrightarrow> r \<noteq> [] \<and> length r \<le> length s"
  by (induction s arbitrary: ds r) (auto simp: rbind_eq_Inr split: if_splits)

lemma parseString_rest:
  assumes "parseString n s = Inr (t, r)"
  shows "length r < length s"
proof -
  obtain ds r0 where d: "length_digits s = Inr (ds, r0)" "\<exists>k. r = drop k (tl r0)"
    using assms by (auto simp: parseString_def rbind_eq_Inr Let_def split: if_splits)
  then have "length r \<le> length r0 - 1" by auto
  with length_digits_rest [OF d(1)] show ?thesis by (cases r0) auto
qed

lemma int_digits_rest: "int_digits v s = Inr (i, r) \<Longrightarrow> r \<noteq> [] \<and> length r \<le> length s"
  by (induction v s arbitrary: i r rule: int_digits.induct) (auto split: if_splits)

lemma parseInt_rest:
  assumes "parseInt s = Inr (i, r)" "s \<noteq> []"
  shows "length r < length s"
proof -
  define s2 where "s2 = (if peek (tl s) = CHR ''-'' then tl (tl s) else tl s)"
  have "length s2 < length s" "length (tl s2) \<le> length s2" using assms(2) by (cases s; auto simp: s2_def)+
  moreover obtain v r0 where "(if peek s2 = CHR ''0'' then (if peek (tl s2) \<noteq> CHR ''e'' then Inl BeLeadingZero else Inr (0, tl s2))
       else int_digits 0 s2) = Inr (v, r0)" "r = tl r0"
    using assms(1) unfolding parseInt_def Let_def s2_def [symmetric] by (auto simp: rbind_eq_Inr split: if_splits)
  ultimately show ?thesis using int_digits_rest [of 0 s2 v r0] by (auto split: if_splits)
qed

definition shortens :: "(string \<Rightarrow> (be_error + Value \<times> string) option) \<Rightarrow> bool" where
  "shortens dec \<longleftrightarrow> (\<forall>s v r. dec s = Some (Inr (v, r)) \<longrightarrow> length r < length s)"

lemma parse_list_rest: "shortens dec \<Longrightarrow> parse_list dec f items s = Some (Inr (v, r)) \<Longrightarrow> length r < length s"
proof (induction f arbitrary: items s)
  case (Suc f)
  show ?case
  proof (cases "peek s = CHR ''e''")
    case True
    then show ?thesis using Suc.prems by (cases s) auto
  next
    case False
    then obtain x s1 where "dec s = Some (Inr (x, s1))" "parse_list dec f (items @ [x]) s1 = Some (Inr (v, r))"
      using Suc.prems(2) by (auto simp: dbind_eq_Some_Inr split: if_splits)
    with Suc.IH [OF Suc.prems(1)] Suc.prems(1) show ?thesis unfolding shortens_def by (meson less_trans)
  qed
qed simp

lemma parse_dict_rest: "shortens dec \<Longrightarrow> parse_dict n dec f d s = Some (Inr (v, r)) \<Longrightarrow> length r < length s"
proof (induction f arbitrary: d s)
  case (Suc f)
  show ?case
  proof (cases "peek s = CHR ''e''")
    case True
    then show ?thesis using Suc.prems by (cases s) auto
  next
    case False
    then obtain k s1 val s2 where "parseString n s = Inr (k, s1)" "dec s1 = Some (Inr (val, s2))"
      "parse_dict n dec f (Set d k val) s2 = Some (Inr (v, r))"
      using Suc.prems(2) by (auto simp: dbind_eq_Some_Inr split: if_splits)
    with Suc.IH [OF Suc.prems(1)] Suc.prems(1) parseString_rest show ?thesis
      unfolding shortens_def by (meson less_trans)
  qed
qed simp

lemma shortens_parseValue: "shortens (parseValue f n)"
proof (induction f)
  case (Suc f)
  show ?case unfolding shortens_def
  proof (intro allI impI)
    fix s v r
    assume P: "parseValue (Suc f) n s = Some (Inr (v, r))"
    then have s: "s \<noteq> []" by (auto simp: is_digit_iff)
    have "length (tl s) < length s" using s by (cases s) simp_all
    then show "length r < length s"
      using P s parseString_rest [of n s] parseInt_rest [of s] parse_list_rest [OF Suc, of "length s" "[]" "tl s" v r]
        parse_dict_rest [OF Suc, of n "length s" "[]" "tl s" v r]
      by (auto simp: rbind_eq_Inr split: if_splits)
  qed
qed (simp add: shortens_def)

definition total_below :: "nat \<Rightarrow> (string \<Rightarrow> (be_error + Value \<times> string) option) \<Rightarrow> bool" where
  "total_below k dec \<longleftrightarrow> (\<forall>s. length s < k \<longrightarrow> dec s \<noteq> None)"

lemma parse_list_total:
  "shortens dec \<Longrightarrow> total_below k dec \<Longrightarrow> length s < k \<Longrightarrow> length s < f \<Longrightarrow> parse_list dec f items s \<noteq> None"
proof (induction f arbitrary: items s)
  case (Suc f)
  have "dbind (dec s) (\<lambda>(v, r). parse_list dec f (items @ [v]) r) \<noteq> None"
  proof (rule dbind_not_None)
    show "dec s \<noteq> None" using Suc.prems by (simp add: total_below_def)
    fix a assume "dec s = Some (Inr a)"
    then have "length (snd a) < length s" using Suc.prems(1) by (cases a) (auto simp: shortens_def)
    then show "(case a of (v, r) \<Rightarrow> parse_list dec f (items @ [v]) r) \<noteq> None"
      using Suc.IH [OF Suc.prems(1,2), of "snd a"] Suc.prems(3,4) by (cases a) auto
  qed
  then show ?case by simp
qed simp

lemma parse_dict_total:
  "shortens dec \<Longrightarrow> total_below k dec \<Longrightarrow> length s < k \<Longrightarrow> length s < f \<Longrightarrow> parse_dict n dec f d s \<noteq> None"
proof (induction f arbitrary: d s)
  case (Suc f)
  have "dbind (dec s1) (\<lambda>(val, s2). parse_dict n dec f (Set d key val) s2) \<noteq> None"
    if "parseString n s = Inr (key, s1)" for key s1
  proof (rule dbind_not_None)
    have 1: "length s1 < length s" using parseString_rest [OF that] .
    then show "dec s1 \<noteq> None" using Suc.prems by (simp add: total_below_def)
    fix a assume "dec s1 = Some (Inr a)"
    then have "length (snd a) < length s1" using Suc.prems(1) by (cases a) (auto simp: shortens_def)
    then show "(case a of (val, s2) \<Rightarrow> parse_dict n dec f (Set d key val) s2) \<noteq> None"
      using Suc.IH [OF Suc.prems(1,2), of "snd a"] 1 Suc.prems(3,4) by (cases a) auto
  qed
  then have "dbind (Some (parseString n s)) (\<lambda>(key, s1). dbind (dec s1) (\<lambda>(val, s2). parse_dict n dec f (Set d key val) s2)) \<noteq> None"
    by (intro dbind_not_None) auto
  then show ?case by simp
qed simp

lemma parseValue_total: "length s < f \<Longrightarrow> parseValue f n s \<noteq> None"
proof (induction f arbitrary: s)
  case (Suc f)
  have tot: "total_below f (parseValue f n)" using Suc.IH by (simp add: total_below_def)
  show ?case
  proof (cases s)
    case (Cons c s')
    then show ?thesis
      using parse_list_total [OF shortens_parseValue tot, of s'] parse_dict_total [OF shortens_parseValue tot, of s'] Suc.prems
      by (simp del: parse_list.simps parse_dict.simps)
  qed (simp add: is_digit_iff)
qed simp

lemma beDecode_total: "beDecode data \<noteq> None"
  unfolding beDecode_def by (rule dbind_not_None) (auto simp: parseValue_total simp del: parseValue.simps)

section \<open>Agreement with the encoder\<close>

lemma wrap64_congs:
  "wrap64 (wrap64 a * c + d) = wrap64 (a * c + d)" "wrap64 (- wrap64 a) = wrap64 (- a)"
proof -
  have *: "word_of_int (wrap64 a) = (word_of_int a :: 64 word)" by (simp add: wrap64_def)
  show "wrap64 (wrap64 a * c + d) = wrap64 (a * c + d)" "wrap64 (- wrap64 a) = wrap64 (- a)"
    unfolding wrap64_def [of "wrap64 a * c + d"] wrap64_def [of "a * c + d"] wrap64_def [of "- wrap64 a"] wrap64_def [of "- a"]
    by (simp_all add: *)
qed

lemma digit_digit_char: "d < 10 \<Longrightarrow> digit (digit_char d) = int d"
  by (simp add: digit_def)

lemma wrapped_decimal_FormatUint: "wrapped_decimal 0 (FormatUint k) = wrap64 (int k)"
proof (induction k rule: FormatUint.induct)
  case (1 n)
  show ?case
  proof (cases "n < 10")
    case True
    then show ?thesis by (subst FormatUint.simps) (simp add: wrapped_decimal_def digit_digit_char)
  next
    case False
    have "int (n div 10) * 10 + int (n mod 10) = int n" by presburger
    with False 1 show ?thesis
      by (subst FormatUint.simps) (simp add: wrapped_decimal_def digit_digit_char wrap64_congs)
  qed
qed

lemma length_digits_append:
  "\<forall>c\<in>set ds. is_digit c \<Longrightarrow> length_digits (ds @ CHR '':'' # r) = Inr (ds, CHR '':'' # r)"
  by (induction ds) (auto simp: is_digit_iff)

lemma int_digits_append:
  "\<forall>c\<in>set ds. is_digit c \<Longrightarrow> int_digits v (ds @ CHR ''e'' # r) = Inr (wrapped_decimal v ds, CHR ''e'' # r)"
  by (induction ds arbitrary: v) (auto simp: is_digit_iff wrapped_decimal_def)

lemma parseString_appendString:
  assumes "length (appendString t @ r) \<le> n" "n < 2 ^ 63"
  shows "parseString n (appendString t @ r) = Inr (t, r)"
proof -
  have len: "int (length t) + int (length r) < 2 ^ 63" "length t + length r \<le> n"
    using assms by (auto simp: appendString_def)
  have L: "length_digits (appendString t @ r) = Inr (FormatUint (length t), CHR '':'' # t @ r)"
    unfolding appendString_def using length_digits_append [of "FormatUint (length t)" "t @ r"] FormatUint_digits by simp
  have Z: "\<not> (1 < length (FormatUint (length t)) \<and> hd (FormatUint (length t)) = CHR ''0'')"
    using hd_FormatUint_nonzero [of "length t"] by (cases "length t = 0") auto
  have W: "wrapped_decimal 0 (FormatUint (length t)) = int (length t)"
    unfolding wrapped_decimal_FormatUint using len by (intro wrap64_id) auto
  have stop: "wrap64 (int n - int (length (t @ r)) + int (length t)) = int n - int (length r)"
    using len assms(2) by (subst wrap64_id) auto
  show ?thesis
    unfolding parseString_def L using Z len by (simp add: W stop [simplified] Let_def)
qed

lemma parseInt_appendInt:
  assumes "in_int64 i"
  shows "parseInt (appendInt i @ r) = Inr (i, r)"
proof -
  define k where "k = nat \<bar>i\<bar>"
  have hdk: "is_digit (hd (FormatUint k))" by simp
  obtain c cs where cs: "FormatUint k = c # cs" by (cases "FormatUint k") auto
  have c: "is_digit c" "\<forall>x\<in>set (c # cs). is_digit x" using FormatUint_digits [of _ k] cs by auto
  have zero: "c = CHR ''0'' \<longleftrightarrow> k = 0"
    using hd_FormatUint_nonzero [of k] cs by (cases "k = 0") auto
  have nonzero: "int_digits 0 (c # cs @ CHR ''e'' # r) = Inr (wrap64 (int k), CHR ''e'' # r)"
    using int_digits_append [OF c(2), of 0 r] wrapped_decimal_FormatUint [of k] cs by simp
  have ne: "c \<noteq> CHR 0x00" "c \<noteq> CHR ''e''" "c \<noteq> CHR ''-''" using c(1) by (auto simp: is_digit_iff)
  have val: "i < 0 \<Longrightarrow> wrap64 (- wrap64 (int k)) = i" "\<not> i < 0 \<Longrightarrow> wrap64 (int k) = i"
    using assms by (simp_all add: wrap64_congs k_def)
  have t: "appendInt i @ r = CHR ''i'' # (if i < 0 then [CHR ''-''] else []) @ c # cs @ CHR ''e'' # r"
    using cs by (auto simp: appendInt_def FormatInt_def k_def)
  show ?thesis
  proof (cases "k = 0")
    case True
    then have "cs = []" "i = 0" "c = CHR ''0''" using cs k_def zero by auto
    then show ?thesis unfolding t by (simp add: parseInt_def)
  next
    case False
    then show ?thesis
      unfolding t using ne zero nonzero val by (cases "i < 0") (simp_all add: parseInt_def Let_def del: int_digits.simps)
  qed
qed

text \<open>Values that can be encoded faithfully: 64-bit integers and distinct keys.\<close>

primrec plain :: "Value \<Rightarrow> bool" where
  "plain (StringVal s) = True"
| "plain (IntVal i) = in_int64 i"
| "plain (ListVal vs) = list_all (\<lambda>b. b) (map plain vs)"
| "plain (DictVal es) \<longleftrightarrow> distinct (map fst es) \<and> list_all snd (map (map_prod id plain) es)"

lemma plain_ListVal: "plain (ListVal vs) \<longleftrightarrow> (\<forall>v\<in>set vs. plain v)"
  by (simp add: list_all_iff)

lemma plain_DictVal: "plain (DictVal es) \<longleftrightarrow> distinct (map fst es) \<and> (\<forall>(k, v)\<in>set es. plain v)"
  by (auto simp: list_all_iff)

lemma peek_append: "xs \<noteq> [] \<Longrightarrow> peek (xs @ ys) = hd xs"
  by (cases xs) simp_all

lemma peek_appendValue: "peek (appendValue v @ r) \<noteq> CHR 0x00" "peek (appendValue v @ r) \<noteq> CHR ''e''"
  using appendValue_start [of v] by (auto simp: peek_append is_digit_iff)

lemma peek_appendString: "is_digit (peek (appendString k @ r))"
  using appendString_hd [of k "[]"] by (simp add: peek_append)

lemma parse_list_items:
  assumes "\<And>v r. v \<in> set vs \<Longrightarrow> length (appendValue v @ r) \<le> n \<Longrightarrow> dec (appendValue v @ r) = Some (Inr (canon v, r))"
    and "length vs < f" "length (concat (map appendValue vs) @ CHR ''e'' # rest) \<le> n"
  shows "parse_list dec f items (concat (map appendValue vs) @ CHR ''e'' # rest) = Some (Inr (ListVal (items @ map canon vs), rest))"
  using assms
proof (induction vs arbitrary: f items)
  case Nil
  then show ?case by (cases f) auto
next
  case (Cons v vs)
  obtain f' where f: "f = Suc f'" "length vs < f'" using Cons.prems(2) by (cases f) auto
  show ?case
    using peek_appendValue [of v "concat (map appendValue vs) @ CHR ''e'' # rest"] Cons.IH [OF _ f(2)] Cons.prems(1,3)
    by (simp add: f(1))
qed

lemma parse_dict_entries:
  assumes "\<And>k v r. (k, v) \<in> set es \<Longrightarrow> length (appendValue v @ r) \<le> n \<Longrightarrow> dec (appendValue v @ r) = Some (Inr (canon v, r))"
    and "length es < f" "distinct (map fst (d @ es))" "n < 2 ^ 63"
    and "length (concat (map (\<lambda>(k, v). appendString k @ appendValue v) es) @ CHR ''e'' # rest) \<le> n"
  shows "parse_dict n dec f d (concat (map (\<lambda>(k, v). appendString k @ appendValue v) es) @ CHR ''e'' # rest) =
    Some (Inr (DictVal (d @ map (map_prod id canon) es), rest))"
  using assms
proof (induction es arbitrary: f d)
  case Nil
  then show ?case by (cases f) auto
next
  case (Cons e es)
  obtain k v where e: "e = (k, v)" by (cases e)
  obtain f' where f: "f = Suc f'" "length es < f'" using Cons.prems(2) by (cases f) auto
  let ?r = "concat (map (\<lambda>(k, v). appendString k @ appendValue v) es) @ CHR ''e'' # rest"
  have str: "parseString n (appendString k @ appendValue v @ ?r) = Inr (k, appendValue v @ ?r)"
    using Cons.prems(4,5) by (intro parseString_appendString) (simp_all add: e)
  have val: "dec (appendValue v @ ?r) = Some (Inr (canon v, ?r))"
    using Cons.prems(1) [of k v ?r] Cons.prems(5) by (simp add: e)
  have fresh: "Set d k (canon v) = d @ [(k, canon v)]" using Cons.prems(3) by (intro Set_fresh) (auto simp: e)
  have IH: "parse_dict n dec f' (d @ [(k, canon v)]) ?r = Some (Inr (DictVal ((d @ [(k, canon v)]) @ map (map_prod id canon) es), rest))"
    using Cons.prems e by (intro Cons.IH f(2)) auto
  have p: "is_digit (peek (appendString k @ appendValue v @ ?r))" by (rule peek_appendString)
  then have "peek (appendString k @ appendValue v @ ?r) \<noteq> CHR 0x00" "peek (appendString k @ appendValue v @ ?r) \<noteq> CHR ''e''"
    by (auto simp: is_digit_iff)
  with p str val fresh IH show ?case by (simp add: f(1) e id_def)
qed

lemma parseValue_appendValue:
  assumes "plain v" "length (appendValue v @ rest) \<le> n" "n < 2 ^ 63" "length (appendValue v) < f"
  shows "parseValue f n (appendValue v @ rest) = Some (Inr (canon v, rest))"
  using assms
proof (induction v arbitrary: f rest)
  case (StringVal s)
  then obtain f' where "f = Suc f'" by (cases f) auto
  with StringVal show ?case using peek_appendString [of s rest] parseString_appendString [of s rest n] by simp
next
  case (IntVal i)
  then obtain f' where "f = Suc f'" by (cases f) auto
  moreover have "peek (appendInt i @ rest) = CHR ''i''" by (simp add: appendInt_def)
  ultimately show ?case using IntVal parseInt_appendInt [of i rest] by (simp add: is_digit_iff)
next
  case (ListVal vs)
  then obtain f' where f: "f = Suc f'" by (cases f) auto
  have short: "length (appendValue v) \<le> length (concat (map appendValue vs))" if "v \<in> set vs" for v
    using that by (induction vs) auto
  have "parseValue f' n (appendValue v @ r) = Some (Inr (canon v, r))"
    if "v \<in> set vs" "length (appendValue v @ r) \<le> n" for v r
    using ListVal.IH [OF that(1) _ that(2) ListVal.prems(3)] ListVal.prems(1,4) short [OF that(1)] that(1) f
    by (simp add: plain_ListVal del: plain.simps)
  from parse_list_items [of vs n "parseValue f' n", OF this] show ?case
    using ListVal.prems length_concat_values [of vs] f by (simp add: is_digit_iff del: parse_list.simps)
next
  case (DictVal es)
  then obtain f' where f: "f = Suc f'" by (cases f) auto
  let ?es = "sort_key fst es"
  have len: "length (concat (map (\<lambda>(k, v). appendString k @ appendValue v) ?es)) + 2 = length (appendValue (DictVal es))"
    by (simp add: appendValue_DictVal del: appendValue.simps)
  have short: "length (appendValue v) \<le> length (concat (map (\<lambda>(k, v). appendString k @ appendValue v) xs))"
    if "(k, v) \<in> set xs" for k v xs
    using that by (induction xs) auto
  have "parseValue f' n (appendValue v @ r) = Some (Inr (canon v, r))"
    if kv: "(k, v) \<in> set ?es" and le: "length (appendValue v @ r) \<le> n" for k v r
  proof -
    have kv': "(k, v) \<in> set es" using kv by simp
    have "plain v" using DictVal.prems(1) kv' unfolding plain_DictVal by auto
    moreover have "length (appendValue v) < f'" using short [OF kv] len DictVal.prems(4) f by linarith
    ultimately show ?thesis
      using DictVal.IH [OF kv' _ _ le DictVal.prems(3)] by (simp add: snds.simps)
  qed
  note dec = this
  have "parse_dict n (parseValue f' n) (length (appendValue (DictVal es) @ rest)) []
      (concat (map (\<lambda>(k, v). appendString k @ appendValue v) ?es) @ CHR ''e'' # rest) =
    Some (Inr (DictVal ([] @ map (map_prod id canon) ?es), rest))"
    using dec DictVal.prems length_concat_entries [of ?es] len
    by (intro parse_dict_entries) (auto simp: plain_DictVal distinct_map simp del: plain.simps appendValue.simps)
  then show ?case
    by (simp add: f is_digit_iff appendValue_DictVal sort_key_map_snd del: appendValue.simps(4) parse_dict.simps)
qed

lemma beDecode_appendValue: "plain v \<Longrightarrow> length (appendValue v) < 2 ^ 63 \<Longrightarrow> beDecode (appendValue v) = Some (Inr (canon v))"
  using parseValue_appendValue [of v "[]" "length (appendValue v)" "Suc (length (appendValue v))"]
  by (simp add: beDecode_def del: parseValue.simps)

section \<open>Messages\<close>

definition canon_dict :: "dict \<Rightarrow> dict" where
  "canon_dict es = sort_key fst (map (map_prod id canon) es)"

lemma Get_canon_dict:
  assumes "distinct (map fst es)"
  shows "Get (canon_dict es) k = map_option canon (Get es k)"
proof -
  have "map_of (map (map_prod id canon) es) k = map_option canon (map_of es k)" by (induction es) auto
  moreover have "distinct (map fst (map (map_prod id canon) es))" using assms by (simp add: o_def)
  ultimately show ?thesis by (simp only: map_of_sort_key Get_def canon_dict_def)
qed

text \<open>The dictionary a message is written as.\<close>

definition message_dict :: "krpcMessage \<Rightarrow> dict" where
  "message_dict m =
     (if km_Y m = ''q'' then [(''a'', DictVal (case km_A m of None \<Rightarrow> [] | Some a \<Rightarrow> a)), (''q'', StringVal (km_Q m))]
      else if km_Y m = ''r'' then [(''r'', DictVal (case km_R m of None \<Rightarrow> [] | Some a \<Rightarrow> a))]
      else (case km_E m of None \<Rightarrow> [] | Some (c, s) \<Rightarrow> [(''e'', ListVal [IntVal c, StringVal s])]))
     @ [(''t'', StringVal (km_T m)), (''v'', StringVal (km_V m)), (''y'', StringVal (km_Y m))]"

lemma writeBencode: "writeBencodeString k v = appendString k @ appendString v" "writeBencodeRaw k r = appendString k @ r"
  by (simp_all add: writeBencodeString_def writeBencodeRaw_def appendString_def)

lemma dict_text: "dict_text d = appendValue (DictVal (case d of None \<Rightarrow> [] | Some a \<Rightarrow> a))"
  using string_eq_marshal [of "DictVal _"] by (cases d) (simp_all add: dict_text_def Marshal_def)

lemma sorted_message_dict: "sort_key fst (message_dict m) = message_dict m"
  by (rule sort_key_id_if_sorted) (auto simp: message_dict_def split: option.splits)

lemma MarshalTo_dict:
  assumes "km_Y m \<in> {''q'', ''r'', ''e''}" "km_Y m = ''e'' \<longrightarrow> km_E m \<noteq> None"
  shows "MarshalTo m = Inr (appendValue (DictVal (message_dict m)))"
proof -
  have e: "''1:el'' = appendString ''e'' @ ''l''" by code_simp
  have "appendValue (DictVal (message_dict m)) =
      CHR ''d'' # concat (map (\<lambda>(k, v). appendString k @ appendValue v) (message_dict m)) @ ''e''"
    unfolding appendValue_DictVal sorted_message_dict ..
  with assms show ?thesis
    by (auto simp: MarshalTo_def message_dict_def writeBencode dict_text envelope_def e appendInt_def appendString_def [of s for s]
        simp del: appendValue.simps(4) split: option.splits)
qed

definition has_id :: "dict \<Rightarrow> bool" where
  "has_id d \<longleftrightarrow> (\<exists>i. Get d ''id'' = Some (StringVal i) \<and> length i = NodeIDLength)"

definition krpc_ok :: "krpcMessage \<Rightarrow> bool" where
  "krpc_ok m \<longleftrightarrow>
     (\<exists>t q a v. m = \<lparr>km_T = t, km_Y = ''q'', km_Q = q, km_A = Some a, km_R = None, km_E = None, km_V = v\<rparr> \<and> plain (DictVal a) \<and> has_id a)
     \<or> (\<exists>t r v. m = \<lparr>km_T = t, km_Y = ''r'', km_Q = [], km_A = None, km_R = Some r, km_E = None, km_V = v\<rparr> \<and> plain (DictVal r) \<and> has_id r)
     \<or> (\<exists>t c s v. m = \<lparr>km_T = t, km_Y = ''e'', km_Q = [], km_A = None, km_R = None, km_E = Some (c, s), km_V = v\<rparr> \<and> in_int64 c)"

text \<open>The message with the arguments or values in the order of their keys.\<close>

definition canon_message :: "krpcMessage \<Rightarrow> krpcMessage" where
  "canon_message m = m\<lparr>km_A := map_option canon_dict (km_A m), km_R := map_option canon_dict (km_R m)\<rparr>"

lemma validate_canon: "plain (DictVal a) \<Longrightarrow> has_id a \<Longrightarrow> validateDictNodeID (canon_dict a) = Inr (canon_dict a)"
  by (auto simp: validateDictNodeID_def get_string_def has_id_def Get_canon_dict)

text \<open>(C25) DHT messages. Every query, response or error with a node identifier, arguments with distinct keys and 64-bit
  numbers, sent by one node and read by another, gives the same message again, up to the order of the
  keys: the decoder of package \<open>dht\<close> understands the encoder of package \<open>bencode\<close>.\<close>

theorem krpc_roundtrip:
  assumes "krpc_ok m" "length (appendValue (DictVal (message_dict m))) < 2 ^ 63"
  shows "\<exists>data. MarshalTo m = Inr data \<and> krpc_Unmarshal data = Some (Inr (canon_message m))"
proof -
  have M: "MarshalTo m = Inr (appendValue (DictVal (message_dict m)))"
    by (rule MarshalTo_dict) (use assms(1) in \<open>auto simp: krpc_ok_def\<close>)
  have "plain (DictVal (message_dict m))" using assms(1) by (auto simp: krpc_ok_def message_dict_def)
  from beDecode_appendValue [OF this assms(2)]
  have D: "beDecode (appendValue (DictVal (message_dict m))) = Some (Inr (DictVal (canon_dict (message_dict m))))"
    by (simp add: canon_dict_def del: appendValue.simps)
  have sorted: "sort_key fst (map (map_prod id canon) (message_dict m)) = map (map_prod id canon) (message_dict m)"
    unfolding sort_key_map_snd sorted_message_dict ..
  have "message_of (canon_dict (message_dict m)) = Inr (canon_message m)"
    using assms(1) unfolding krpc_ok_def canon_dict_def [of "message_dict m"] sorted
    by (auto simp: message_of_def message_dict_def get_string_def get_dict_def error_list_def Get_def canon_message_def
          canon_dict_def [symmetric] validate_canon)
  with D M show ?thesis by (simp add: krpc_Unmarshal_def)
qed

definition ping_message :: krpcMessage where
  "ping_message = \<lparr>km_T = ''aa'', km_Y = ''q'', km_Q = ''ping'', km_A = Some [(''id'', StringVal (replicate 20 (CHR ''x'')))],
     km_R = None, km_E = None, km_V = ClientVersion\<rparr>"

lemma krpc_roundtrip_witness:
  "\<exists>data. MarshalTo ping_message = Inr data \<and> krpc_Unmarshal data = Some (Inr (canon_message ping_message))"
proof (rule krpc_roundtrip)
  show "krpc_ok ping_message" by (simp add: krpc_ok_def ping_message_def has_id_def Get_def NodeIDLength_def)
  have "length (appendValue (DictVal (message_dict ping_message))) < 200" by code_simp
  then show "length (appendValue (DictVal (message_dict ping_message))) < 2 ^ 63" by simp
qed

section \<open>Node lists\<close>

definition contact_ok :: "nat \<Rightarrow> NodeInfo \<Rightarrow> bool" where
  "contact_ok ipLen n \<longleftrightarrow> length (ID n) = 20 \<and> length (IP n) = ipLen"

lemma length_Compact: "contact_ok ipLen n \<Longrightarrow> length (Compact n) = 22 + ipLen"
  by (simp add: Compact_def contact_ok_def)

lemma DecodeCompact_Compact: "contact_ok ipLen n \<Longrightarrow> DecodeCompact ipLen (Compact n) = n"
  using Uint16_Put [of "Port n" "[]"] by (simp add: DecodeCompact_def Compact_def contact_ok_def)

text \<open>Node lists of either family read back, without the nodes whose address is zero.\<close>

lemma compact_nodes_roundtrip:
  assumes "\<forall>n\<in>set ns. contact_ok ipLen n"
  shows "DecodeCompactNodes ipLen (CompactNodes ns) = Inr (filter (\<lambda>n. IP n \<noteq> replicate ipLen 0) ns)"
proof -
  have len: "length (CompactNodes ns) = length ns * (22 + ipLen)"
    using assms by (induction ns) (simp_all add: CompactNodes_def length_Compact)
  have "decode_chunks ipLen (CompactNodes ns) = filter (\<lambda>n. IP n \<noteq> replicate ipLen 0) ns"
    using assms
  proof (induction ns)
    case Nil
    then show ?case by (simp add: CompactNodes_def decode_chunks.simps)
  next
    case (Cons n ns)
    have "length (Compact n) = 22 + ipLen" using Cons.prems by (simp add: length_Compact)
    then have t: "take (22 + ipLen) (CompactNodes (n # ns)) = Compact n" "drop (22 + ipLen) (CompactNodes (n # ns)) = CompactNodes ns"
      "CompactNodes (n # ns) \<noteq> []"
      by (auto simp: CompactNodes_def)
    have "decode_chunks ipLen (CompactNodes (n # ns)) =
        (let node = DecodeCompact ipLen (Compact n); rest = decode_chunks ipLen (CompactNodes ns)
         in if IP node = replicate ipLen 0 then rest else node # rest)"
      by (subst decode_chunks.simps) (simp only: t if_False)
    then show ?case using Cons by (simp add: DecodeCompact_Compact)
  qed
  then show ?thesis by (simp add: DecodeCompactNodes_def len)
qed

text \<open>A packet with a string length close to the largest \<open>int\<close>: the end of the string wraps around, passes the
  comparison with the length of the packet, and the slice panics.\<close>

lemma long_length_panics: "krpc_Unmarshal ''d9223372036854775807:'' = Some (Inl (KDecode BePanic))"
  by code_simp

end
