(* ===== verification/DhtPersist.thy ===== *)
theory DhtPersist
  imports Krpc
begin

text \<open>
  The routing table file of the DHT, \<open>src/internal/dht/persist.go\<close>: a header, the time, a record with this node's
  identifier, and one 56-byte entry per node. The functions work on the contents of the file; writing to a temporary name, renaming
  and failing system calls are left out. A saved table loads again, and a file that was cut short is rejected.
\<close>

section \<open>Format\<close>

definition dhtFileHeaderV2 :: "byte list" where
  "dhtFileHeaderV2 = [0xa1, 0xa2, 2, 0, 0, 0, 0, 2]"

definition dhtFileHeaderV3 :: "byte list" where
  "dhtFileHeaderV3 = [0xa1, 0xa2, 2, 0, 0, 0, 0, 3]"

definition dhtFileLocalRecordLen :: nat where
  "dhtFileLocalRecordLen = 32"

definition dhtFileNodeEntryLen :: nat where
  "dhtFileNodeEntryLen = 56"

definition CompactLenIPv4 :: nat where
  "CompactLenIPv4 = 6"

record persistedRoutingTable =
  pt_localID :: NodeID
  pt_nodes :: "NodeInfo list"

datatype persist_error = PersistShort | PersistHeader

section \<open>Loading\<close>

text \<open>An entry of another family, with a zero address or with an unusable port is skipped.\<close>

definition load_entry :: "byte list \<Rightarrow> NodeInfo option" where
  "load_entry entry =
     (if entry ! 0 \<noteq> of_nat CompactLenIPv4 then None
      else
        let compact = take CompactLenIPv4 (drop 8 entry); ip = take 4 compact; port = Uint16 (drop 4 compact) in
        if ip = replicate 4 0 then None
        else if \<not> ValidatePort port then None
        else Some \<lparr>ID = take 20 (drop 32 entry), IP = ip, Port = port\<rparr>)"

primrec load_entries :: "nat \<Rightarrow> (persist_error, NodeInfo list) reader" where
  "load_entries 0 = pret []"
| "load_entries (Suc k) =
     pbind (get_bytes PersistShort dhtFileNodeEntryLen) (\<lambda>entry.
     pbind (load_entries k) (\<lambda>ns.
       pret (case load_entry entry of None \<Rightarrow> ns | Some n \<Rightarrow> n # ns)))"

definition load_table :: "(persist_error, persistedRoutingTable) reader" where
  "load_table =
     pbind (get_bytes PersistShort 8) (\<lambda>header.
       if header \<noteq> dhtFileHeaderV3 \<and> header \<noteq> dhtFileHeaderV2 then pfail PersistHeader
       else
         pbind (get_bytes PersistShort 8) (\<lambda>time.
         pbind (get_bytes PersistShort dhtFileLocalRecordLen) (\<lambda>localRecord.
         pbind (get_uint32 PersistShort) (\<lambda>nodeCount.
         pbind (get_bytes PersistShort 4) (\<lambda>reserved.
         pbind (load_entries (unat nodeCount)) (\<lambda>ns.
           pret \<lparr>pt_localID = take 20 (drop 8 localRecord), pt_nodes = ns\<rparr>))))))"

text \<open>A file that does not exist is an empty table.\<close>

definition loadRoutingTableFile :: "byte list option \<Rightarrow> persist_error + persistedRoutingTable" where
  "loadRoutingTableFile file =
     (case file of
        None \<Rightarrow> Inr \<lparr>pt_localID = replicate 20 0, pt_nodes = []\<rparr>
      | Some data \<Rightarrow> rbind (load_table data) (\<lambda>(table, rest). Inr table))"

section \<open>Saving\<close>

definition save_entry :: "NodeInfo \<Rightarrow> byte list" where
  "save_entry n =
     of_nat CompactLenIPv4 # replicate 7 0 @ IP n @ PutUint16 (Port n) @ replicate 18 0 @ ID n @ replicate 4 0"

definition local_record :: "NodeID \<Rightarrow> byte list" where
  "local_record nid = replicate 8 0 @ nid @ replicate 4 0"

definition saveRoutingTableFile :: "int \<Rightarrow> NodeID \<Rightarrow> NodeInfo list \<Rightarrow> byte list" where
  "saveRoutingTableFile unixTime nid ns =
     dhtFileHeaderV3 @ PutUint64 (of_int unixTime) @ local_record nid
     @ PutUint32 (of_nat (length ns)) @ replicate 4 0 @ concat (map save_entry ns)"

section \<open>Round trip\<close>

lemma length_save_entry: "contact_ok 4 n \<Longrightarrow> length (save_entry n) = dhtFileNodeEntryLen"
  by (simp add: save_entry_def contact_ok_def dhtFileNodeEntryLen_def)

definition usable :: "NodeInfo \<Rightarrow> bool" where
  "usable n \<longleftrightarrow> IP n \<noteq> replicate 4 0 \<and> ValidatePort (Port n)"

lemma load_save_entry: "contact_ok 4 n \<Longrightarrow> load_entry (save_entry n) = (if usable n then Some n else None)"
  using Uint16_Put [of "Port n" "[]"]
  by (simp add: load_entry_def save_entry_def contact_ok_def usable_def CompactLenIPv4_def Let_def)

lemma load_save_entries:
  assumes "\<forall>n\<in>set ns. contact_ok 4 n"
  shows "load_entries (length ns) (concat (map save_entry ns) @ rest) = Inr (filter usable ns, rest)"
  using assms
proof (induction ns)
  case (Cons n ns)
  then have "get_bytes PersistShort dhtFileNodeEntryLen (save_entry n @ concat (map save_entry ns) @ rest)
      = Inr (save_entry n, concat (map save_entry ns) @ rest)"
    by (simp add: length_save_entry)
  with Cons show ?case by (simp add: load_save_entry)
qed simp

definition table_fits :: "NodeID \<Rightarrow> NodeInfo list \<Rightarrow> bool" where
  "table_fits nid ns \<longleftrightarrow> length nid = 20 \<and> length ns < 2 ^ 32 \<and> (\<forall>n\<in>set ns. contact_ok 4 n)"

lemma load_saved_table:
  assumes "table_fits nid ns"
  shows "load_table (saveRoutingTableFile t nid ns) = Inr (\<lparr>pt_localID = nid, pt_nodes = filter usable ns\<rparr>, [])"
proof -
  have cnt: "unat (of_nat (length ns) :: uint32) = length ns" using assms by (simp add: table_fits_def unat_of_nat take_bit_nat_eq_self)
  have es: "load_entries (length ns) (concat (map save_entry ns)) = Inr (filter usable ns, [])"
    using load_save_entries [of ns "[]"] assms by (simp add: table_fits_def)
  have "length (local_record nid) = dhtFileLocalRecordLen" "take 20 (drop 8 (local_record nid)) = nid"
    using assms by (simp_all add: table_fits_def local_record_def dhtFileLocalRecordLen_def)
  moreover have "length dhtFileHeaderV3 = 8" by (simp add: dhtFileHeaderV3_def)
  ultimately show ?thesis by (simp add: load_table_def saveRoutingTableFile_def cnt es)
qed

lemma stable_load_entries [inv_intros]: "stable (load_entries k)"
  by (induction k) (simp_all only: load_entries.simps, (intro inv_intros; assumption?)+)

lemma stable_load_table: "stable load_table"
  unfolding load_table_def by (intro inv_intros)

text \<open>The routing table survives a restart. A table of up to \<open>2^32 - 1\<close> contacts that is saved loads again with this
  node's identifier and all contacts, in order, but those without an address or with port 0 or 65535; a file that
  lost any number of bytes at its end is rejected.\<close>

lemma routing_file_roundtrip:
  assumes "table_fits nid ns"
  shows "loadRoutingTableFile (Some (saveRoutingTableFile t nid ns)) =
      Inr \<lparr>pt_localID = nid, pt_nodes = filter (\<lambda>n. IP n \<noteq> replicate 4 0 \<and> Port n \<noteq> 0 \<and> Port n \<noteq> 65535) ns\<rparr>
    \<and> (\<forall>k < length (saveRoutingTableFile t nid ns). \<exists>e. loadRoutingTableFile (Some (take k (saveRoutingTableFile t nid ns))) = Inl e)"
proof -
  have "usable = (\<lambda>n. IP n \<noteq> replicate 4 0 \<and> Port n \<noteq> 0 \<and> Port n \<noteq> 65535)"
    by (auto simp: usable_def ValidatePort_def)
  moreover have "\<exists>e. load_table (take k (saveRoutingTableFile t nid ns)) = Inl e" if "k < length (saveRoutingTableFile t nid ns)" for k
    by (rule stable_prefix [OF stable_load_table load_saved_table [OF assms] that])
  ultimately show ?thesis
    using load_saved_table [OF assms, of t] by (fastforce simp: loadRoutingTableFile_def)
qed

lemma routing_file_roundtrip_witness:
  "loadRoutingTableFile (Some (saveRoutingTableFile 1700000000 (replicate 20 7) [sample_node 1, (sample_node 2)\<lparr>Port := 0\<rparr>])) =
     Inr \<lparr>pt_localID = replicate 20 7, pt_nodes = [sample_node 1]\<rparr>"
proof -
  have "table_fits (replicate 20 7) [sample_node 1, (sample_node 2)\<lparr>Port := 0\<rparr>]"
    by (simp add: table_fits_def contact_ok_def sample_node_def)
  moreover have "filter (\<lambda>n. IP n \<noteq> replicate 4 0 \<and> Port n \<noteq> 0 \<and> Port n \<noteq> 65535) [sample_node 1, (sample_node 2)\<lparr>Port := 0\<rparr>]
      = [sample_node 1]"
    by code_simp
  ultimately show ?thesis using routing_file_roundtrip [of "replicate 20 7" _ 1700000000] by presburger
qed

end
