(* ===== verification/NetAddr.thy ===== *)
theory NetAddr
  imports Core Strings
begin

unbundle bit_operations_syntax

text \<open>
  Go's \<open>net.IP\<close>, as far as the DHT and the peer protocol use it: conversion between the 4-byte and the 16-byte
  form, the text of an address, and parsing of the dotted form. The text of an IPv4 address parses back to it.
\<close>

section \<open>Forms of an address\<close>

text \<open>A \<open>net.IP\<close> is 4 or 16 bytes; \<open>To4\<close> also accepts the mapped form \<open>::ffff:a.b.c.d\<close>.\<close>

definition To4 :: "byte list \<Rightarrow> byte list option" where
  "To4 ip =
     (if length ip = 4 then Some ip
      else if length ip = 16 \<and> take 12 ip = replicate 10 0 @ [0xff, 0xff] then Some (drop 12 ip)
      else None)"

definition To16 :: "byte list \<Rightarrow> byte list option" where
  "To16 ip =
     (if length ip = 4 then Some (replicate 10 0 @ [0xff, 0xff] @ ip)
      else if length ip = 16 then Some ip else None)"

section \<open>Text\<close>

definition dotted :: "byte list \<Rightarrow> string" where
  "dotted ip4 = Join (CHR ''.'') (map (\<lambda>b. FormatUint (unat b)) ip4)"

fun hex_word :: "nat \<Rightarrow> string" where
  "hex_word n = (if n < 16 then [hexDigits ! n] else hex_word (n div 16) @ [hexDigits ! (n mod 16)])"

declare hex_word.simps [simp del]

fun words16 :: "byte list \<Rightarrow> nat list" where
  "words16 (a # b # bs) = (unat a * 256 + unat b) # words16 bs"
| "words16 bs = []"

text \<open>The longest run of at least two zero groups, the first of equals, is written as two colons.\<close>

definition zero_run :: "nat list \<Rightarrow> nat \<Rightarrow> nat" where
  "zero_run ws i = length (takeWhile (\<lambda>w. w = 0) (drop i ws))"

definition zero_group :: "nat list \<Rightarrow> nat \<times> nat" where
  "zero_group ws =
     fold (\<lambda>i (start, len). let l = zero_run ws i in if 2 \<le> l \<and> len < l then (i, l) else (start, len)) [0..<length ws] (0, 0)"

definition ip6_text :: "byte list \<Rightarrow> string" where
  "ip6_text ip =
     (let ws = words16 ip; (start, len) = zero_group ws; group = (\<lambda>xs. Join (CHR '':'') (map hex_word xs)) in
      if len = 0 then group ws else group (take start ws) @ ''::'' @ group (drop (start + len) ws))"

definition ip_String :: "byte list \<Rightarrow> string" where
  "ip_String ip =
     (if ip = [] then ''<nil>''
      else case To4 ip of
             Some ip4 \<Rightarrow> dotted ip4
           | None \<Rightarrow> if length ip \<noteq> 16 then CHR ''?'' # hex_append [] ip else ip6_text ip)"

text \<open>\<open>net.JoinHostPort\<close> puts brackets around a host with a colon.\<close>

definition JoinHostPort :: "string \<Rightarrow> int \<Rightarrow> string" where
  "JoinHostPort host port =
     (if CHR '':'' \<in> set host then ''['' @ host @ '']'' else host) @ '':'' @ FormatInt port"

section \<open>Parsing\<close>

definition parse_octet :: "string \<Rightarrow> byte option" where
  "parse_octet f =
     (if 1 < length f \<and> hd f = CHR ''0'' then None
      else case ParseUint f 10 8 of Inl _ \<Rightarrow> None | Inr v \<Rightarrow> Some (of_nat v))"

text \<open>\<open>net.ParseIP\<close> on the dotted form; any other text gives \<open>None\<close> here.\<close>

definition ParseIPv4 :: "string \<Rightarrow> byte list option" where
  "ParseIPv4 s =
     (let fs = map parse_octet (Split (CHR ''.'') s) in
      if length fs = 4 \<and> None \<notin> set fs then Some (map the fs) else None)"

section \<open>Round trip\<close>

lemma parse_octet_FormatUint: "parse_octet (FormatUint (unat b)) = Some b"
proof -
  have "unat b < 2 ^ 8" using unsigned_less [of b] by simp
  then have "ParseUint (FormatUint (unat b)) 10 8 = Inr (unat b)" by (rule ParseUint_FormatUint)
  moreover have "\<not> (1 < length (FormatUint (unat b)) \<and> hd (FormatUint (unat b)) = CHR ''0'')"
    using hd_FormatUint_nonzero [of "unat b"] by (cases "unat b = 0") auto
  ultimately show ?thesis by (simp add: parse_octet_def)
qed

lemma Split_Join: "ss \<noteq> [] \<Longrightarrow> \<forall>w\<in>set ss. sep \<notin> set w \<Longrightarrow> Split sep (Join sep ss) = ss"
proof (induction sep ss rule: Join.induct)
  case (2 sep s)
  then have "sep \<notin> set s" by simp
  then show ?case by (induction s) auto
next
  case (3 sep s t ss)
  then have IH: "Split sep (Join sep (t # ss)) = t # ss" and s: "sep \<notin> set s" by simp_all
  have "Split sep (s @ sep # r) = s # Split sep r" for r
    using s by (induction s) auto
  then show ?case using IH by simp
qed simp

lemma ParseIPv4_dotted:
  assumes "length ip = 4"
  shows "ParseIPv4 (dotted ip) = Some ip"
proof -
  have "Split (CHR ''.'') (dotted ip) = map (\<lambda>b. FormatUint (unat b)) ip"
    unfolding dotted_def
  proof (rule Split_Join)
    show "map (\<lambda>b. FormatUint (unat b)) ip \<noteq> []" using assms by auto
    have "CHR ''.'' \<notin> set (FormatUint n)" for n using FormatUint_digits [of "CHR ''.''" n] by (auto simp: is_digit_def)
    then show "\<forall>w\<in>set (map (\<lambda>b. FormatUint (unat b)) ip). CHR ''.'' \<notin> set w" by auto
  qed
  then have "map parse_octet (Split (CHR ''.'') (dotted ip)) = map Some ip"
    by (simp add: parse_octet_FormatUint)
  with assms show ?thesis by (auto simp: ParseIPv4_def o_def)
qed

lemma dotted_inj: "length a = 4 \<Longrightarrow> length b = 4 \<Longrightarrow> dotted a = dotted b \<Longrightarrow> a = b"
  by (metis ParseIPv4_dotted option.inject)

lemma ip_String_v4: "length ip = 4 \<Longrightarrow> ip_String ip = dotted ip"
  by (auto simp: ip_String_def To4_def)

end
