(* ===== verification/DhtServer.thy ===== *)
theory DhtServer
  imports DhtPersist NetAddr
begin

text \<open>
  The DHT server, \<open>src/internal/dht/dht.go\<close>: the state a node keeps besides its routing table (pending queries with
  their timers, announced peers, tokens, the queue of outgoing packets) and every step that changes it: an incoming packet with all
  its handlers, a query that is sent, the timeout loop, the change of secrets, the searches, and the calls of
  the BitTorrent side. A step ends in \<open>None\<close> when the process panics.

  A callback is a constructor with the variables it captures; a goroutine that waits is continued by a step of its own,
  so that steps interleave freely. The clock, random bytes, SHA-1 and the order of a map's keys are arguments. Contexts
  are not cancelled, and the receiver of a channel of peers keeps up.
\<close>

section \<open>The send queue\<close>

record udpAddr =
  ua_IP :: "byte list"
  ua_Port :: int

record sendReq =
  sr_data :: string
  sr_addr :: udpAddr

definition sendRingSize :: nat where
  "sendRingSize = 256"

record sendRingBuffer =
  rb_buf :: "sendReq list"
  rb_head :: nat
  rb_tail :: nat
  rb_size :: nat

definition empty_ring :: sendRingBuffer where
  "empty_ring =
     \<lparr>rb_buf = replicate sendRingSize \<lparr>sr_data = [], sr_addr = \<lparr>ua_IP = [], ua_Port = 0\<rparr>\<rparr>, rb_head = 0, rb_tail = 0, rb_size = 0\<rparr>"

definition enqueue :: "sendReq \<Rightarrow> sendRingBuffer \<Rightarrow> sendRingBuffer \<times> bool" where
  "enqueue req rb =
     (if sendRingSize \<le> rb_size rb then (rb, False)
      else
        (rb\<lparr>rb_buf := (rb_buf rb)[rb_tail rb := req], rb_tail := (rb_tail rb + 1) mod sendRingSize, rb_size := rb_size rb + 1\<rparr>,
         True))"

text \<open>\<open>dequeue\<close> waits while the ring is empty: \<open>None\<close>.\<close>

definition dequeue :: "sendRingBuffer \<Rightarrow> (sendReq \<times> sendRingBuffer) option" where
  "dequeue rb =
     (if rb_size rb = 0 then None
      else Some (rb_buf rb ! rb_head rb, rb\<lparr>rb_head := (rb_head rb + 1) mod sendRingSize, rb_size := rb_size rb - 1\<rparr>))"

section \<open>State\<close>

text \<open>Timer entries are shared by pointer between the heap and the transaction: they carry a number.\<close>

record timeoutEntry =
  te_id :: nat
  te_key :: string
  te_deadline :: int
  te_cancelled :: bool

text \<open>The callbacks of \<open>bootstrap\<close>, \<open>iterativeFindNode\<close>, \<open>ObservePeerPort\<close>, \<open>GetPeers\<close> (info hash, the address asked, the number of the
  channel) and \<open>Announce\<close> (waiting for a token, waiting for the answer; with the number of the channel).\<close>

datatype callback =
  CbBootstrap | CbFindNode | CbObserve | CbGetPeers "byte list" udpAddr nat | CbToken nat | CbAnnounced nat

record pendingTx =
  tx_target :: "NodeInfo option"
  tx_msgType :: string
  tx_callback :: callback
  tx_deadline :: int
  tx_timeout :: "nat option"

record peerChan =
  ch_sent :: "udpAddr list"
  ch_closed :: bool

text \<open>\<open>sv_jobs\<close> are the searches for nodes that were started as goroutines and have not yet sent their queries; \<open>sv_next\<close> numbers
  timer entries; \<open>sv_tokenCh\<close> and \<open>sv_annCh\<close> hold what the callbacks of \<open>Announce\<close> put in their channels.\<close>

record dhtServer =
  sv_NodeID :: NodeID
  sv_rt :: RoutingTable
  sv_txs :: "string \<Rightarrow> pendingTx option"
  sv_peers :: "byte list \<Rightarrow> udpAddr list"
  sv_peerTokens :: "string \<Rightarrow> string option"
  sv_secrets :: "byte list \<times> byte list"
  sv_sendRB :: sendRingBuffer
  sv_th :: "timeoutEntry list"
  sv_next :: nat
  sv_jobs :: "NodeID list"
  sv_lookups :: "nat \<Rightarrow> peerChan option"
  sv_tokenCh :: "nat \<Rightarrow> string option"
  sv_annCh :: "nat \<Rightarrow> bool option"

text \<open>10 seconds in nanoseconds.\<close>

definition messageTimeout :: int where
  "messageTimeout = 10000000000"

text \<open>\<open>persist\<close> is \<open>None\<close> without a file name, otherwise the contents of the file if there is one.\<close>

definition NewServer :: "int \<Rightarrow> NodeID \<Rightarrow> byte list option option \<Rightarrow> NodeID \<Rightarrow> byte list \<Rightarrow> dhtServer" where
  "NewServer now cfgID persist randomID secret =
     (let zero = replicate 20 0;
          nothing = \<lparr>pt_localID = zero, pt_nodes = []\<rparr>;
          persisted = (case persist of
                         None \<Rightarrow> nothing
                       | Some file \<Rightarrow> (case loadRoutingTableFile file of Inl _ \<Rightarrow> nothing | Inr loaded \<Rightarrow> loaded));
          cfgID = (if cfgID = zero \<and> pt_localID persisted \<noteq> zero then pt_localID persisted else cfgID);
          cfgID = (if cfgID = zero then randomID else cfgID)
      in \<lparr>sv_NodeID = cfgID, sv_rt = fold (\<lambda>n rt. fst (AddNode now n rt)) (pt_nodes persisted) (NewRoutingTable now cfgID),
          sv_txs = (\<lambda>_. None), sv_peers = (\<lambda>_. []), sv_peerTokens = (\<lambda>_. None), sv_secrets = (secret, secret),
          sv_sendRB = empty_ring, sv_th = [], sv_next = 0, sv_jobs = [], sv_lookups = (\<lambda>_. None),
          sv_tokenCh = (\<lambda>_. None), sv_annCh = (\<lambda>_. None)\<rparr>)"

definition saveRoutingTable :: "int \<Rightarrow> dhtServer \<Rightarrow> byte list" where
  "saveRoutingTable unixTime srv = saveRoutingTableFile unixTime (sv_NodeID srv) (snapshotGoodNodes (sv_rt srv))"

section \<open>Small helpers\<close>

definition ipTo4 :: "byte list \<Rightarrow> byte list" where
  "ipTo4 ip = (case To4 ip of Some v4 \<Rightarrow> v4 | None \<Rightarrow> replicate 4 0)"

definition dict_id :: "dict \<Rightarrow> NodeID" where
  "dict_id d =
     (case Get d ''id'' of
        Some (StringVal s) \<Rightarrow> if length s = NodeIDLength then text_bytes s else replicate 20 0
      | _ \<Rightarrow> replicate 20 0)"

definition extractNodeID :: "krpcMessage \<Rightarrow> NodeID" where
  "extractNodeID msg =
     (if km_Y msg = ''r'' \<and> km_R msg \<noteq> None then dict_id (the (km_R msg))
      else case km_A msg of Some a \<Rightarrow> dict_id a | None \<Rightarrow> replicate 20 0)"

definition isLocalNodeID :: "krpcMessage \<Rightarrow> NodeID \<Rightarrow> bool" where
  "isLocalNodeID msg nid =
     (case km_A msg of
        None \<Rightarrow> False
      | Some a \<Rightarrow> (case Get a ''id'' of Some (StringVal s) \<Rightarrow> length s = NodeIDLength \<and> text_bytes s = nid | _ \<Rightarrow> False))"

definition compactPeerAddrs :: "udpAddr list \<Rightarrow> byte list" where
  "compactPeerAddrs addrs =
     concat (map (\<lambda>a. case To4 (ua_IP a) of None \<Rightarrow> [] | Some ip \<Rightarrow> ip @ PutUint16 (of_int (ua_Port a))) addrs)"

function peer_chunks :: "byte list \<Rightarrow> udpAddr list" where
  "peer_chunks data =
     (if data = [] then []
      else \<lparr>ua_IP = take 4 data, ua_Port = int (unat (Uint16 (drop 4 (take 6 data))))\<rparr> # peer_chunks (drop 6 data))"
  by pat_completeness auto
termination by (relation "measure length") auto

declare peer_chunks.simps [simp del]

definition decodeCompactPeers :: "byte list \<Rightarrow> udpAddr list" where
  "decodeCompactPeers data = (if length data mod 6 \<noteq> 0 then [] else peer_chunks data)"

definition makeTrackingKey :: "string \<Rightarrow> udpAddr \<Rightarrow> string" where
  "makeTrackingKey txID addr = txID @ '':'' @ ip_String (ua_IP addr) @ '':'' @ FormatInt (ua_Port addr)"

text \<open>\<open>net.TCPAddr.String\<close>.\<close>

definition addr_String :: "udpAddr \<Rightarrow> string" where
  "addr_String a = JoinHostPort (ip_String (ua_IP a)) (ua_Port a)"

definition node_addr :: "NodeInfo \<Rightarrow> udpAddr" where
  "node_addr n = \<lparr>ua_IP = IP n, ua_Port = int (unat (Port n))\<rparr>"

section \<open>Tokens\<close>

text \<open>The address is always the text of four bytes, so that \<open>net.ParseIP\<close> is needed on the dotted form only.\<close>

definition token_source :: "byte list \<Rightarrow> string \<Rightarrow> uint16 \<Rightarrow> byte list \<Rightarrow> byte list" where
  "token_source infoHash ip port secret =
     infoHash @ (case ParseIPv4 ip of Some v4 \<Rightarrow> v4 @ replicate 12 0 | None \<Rightarrow> replicate 16 0) @ PutUint16 port @ secret"

definition generateTokenWithSecret ::
    "(byte list \<Rightarrow> byte list) \<Rightarrow> byte list \<Rightarrow> string \<Rightarrow> uint16 \<Rightarrow> byte list \<Rightarrow> string" where
  "generateTokenWithSecret sha1 infoHash ip port secret = bytes_text (sha1 (token_source infoHash ip port secret))"

definition generateToken :: "(byte list \<Rightarrow> byte list) \<Rightarrow> byte list \<Rightarrow> string \<Rightarrow> uint16 \<Rightarrow> dhtServer \<Rightarrow> string" where
  "generateToken sha1 infoHash ip port srv = generateTokenWithSecret sha1 infoHash ip port (fst (sv_secrets srv))"

definition validateToken :: "(byte list \<Rightarrow> byte list) \<Rightarrow> string \<Rightarrow> byte list \<Rightarrow> string \<Rightarrow> uint16 \<Rightarrow> dhtServer \<Rightarrow> bool" where
  "validateToken sha1 token infoHash ip port srv \<longleftrightarrow>
     generateTokenWithSecret sha1 infoHash ip port (fst (sv_secrets srv)) = token
     \<or> generateTokenWithSecret sha1 infoHash ip port (snd (sv_secrets srv)) = token"

definition updateTokenSecret :: "byte list \<Rightarrow> dhtServer \<Rightarrow> dhtServer" where
  "updateTokenSecret random srv =
     srv\<lparr>sv_secrets := (random, fst (sv_secrets srv)), sv_peerTokens := (\<lambda>_. None)\<rparr>"

definition peerTokenKey :: "byte list \<Rightarrow> string \<Rightarrow> uint16 \<Rightarrow> string" where
  "peerTokenKey infoHash ip port = hex_append [] infoHash @ '':'' @ ip @ '':'' @ FormatUint (unat port)"

definition storePeerToken :: "byte list \<Rightarrow> string \<Rightarrow> uint16 \<Rightarrow> string \<Rightarrow> dhtServer \<Rightarrow> dhtServer" where
  "storePeerToken infoHash ip port token srv =
     srv\<lparr>sv_peerTokens := (sv_peerTokens srv)(peerTokenKey infoHash ip port \<mapsto> token)\<rparr>"

definition getPeerToken :: "byte list \<Rightarrow> string \<Rightarrow> uint16 \<Rightarrow> dhtServer \<Rightarrow> string" where
  "getPeerToken infoHash ip port srv =
     (case sv_peerTokens srv (peerTokenKey infoHash ip port) of Some tok \<Rightarrow> tok | None \<Rightarrow> [])"

text \<open>\<open>order\<close> are the keys in the order in which the loop visits them. The address is not looked at.\<close>

definition getPeerTokenByAddr :: "string list \<Rightarrow> byte list \<Rightarrow> dhtServer \<Rightarrow> string" where
  "getPeerTokenByAddr order infoHash srv =
     (let expectedPrefix = hex_append [] infoHash @ '':'';
          hit = (\<lambda>k. 40 < length k \<and> take (length expectedPrefix) k = expectedPrefix
                     \<and> (case sv_peerTokens srv k of Some v \<Rightarrow> v \<noteq> [] | None \<Rightarrow> False))
      in case List.find hit order of None \<Rightarrow> [] | Some k \<Rightarrow> the (sv_peerTokens srv k))"

section \<open>Sending\<close>

definition put_request :: "string \<Rightarrow> udpAddr \<Rightarrow> dhtServer \<Rightarrow> dhtServer \<times> bool" where
  "put_request data addr srv =
     (let (rb, ok) = enqueue \<lparr>sr_data = data, sr_addr = addr\<rparr> (sv_sendRB srv) in (srv\<lparr>sv_sendRB := rb\<rparr>, ok))"

text \<open>A reply that cannot be written or does not fit in the queue is dropped.\<close>

definition send_reply :: "krpcMessage \<Rightarrow> udpAddr \<Rightarrow> dhtServer \<Rightarrow> dhtServer" where
  "send_reply msg addr srv =
     (case MarshalTo (msg\<lparr>km_V := ClientVersion\<rparr>) of
        Inl _ \<Rightarrow> srv
      | Inr data \<Rightarrow> fst (put_request data addr srv))"

definition sendResponse :: "string \<Rightarrow> dict \<Rightarrow> udpAddr \<Rightarrow> dhtServer \<Rightarrow> dhtServer" where
  "sendResponse t r addr srv = send_reply (NewResponse t (Some r)) addr srv"

definition sendError :: "string \<Rightarrow> int \<Rightarrow> string \<Rightarrow> udpAddr \<Rightarrow> dhtServer \<Rightarrow> dhtServer" where
  "sendError t code errMsg addr srv = send_reply (NewError t code errMsg) addr srv"

definition id_dict :: "dhtServer \<Rightarrow> dict" where
  "id_dict srv = [(''id'', StringVal (bytes_text (sv_NodeID srv)))]"

text \<open>The transaction is entered first and taken back when the queue is full.\<close>

definition newTxID :: "byte list \<Rightarrow> string" where
  "newTxID random = hex_append [] random"

definition sendQuery ::
    "int \<Rightarrow> byte list \<Rightarrow> string \<Rightarrow> udpAddr \<Rightarrow> NodeID \<Rightarrow> dict \<Rightarrow> callback \<Rightarrow> dhtServer \<Rightarrow> dhtServer \<times> bool" where
  "sendQuery now random meth addr targetID extra cb srv =
     (let txID = newTxID random;
          args = fold (\<lambda>(k, v) d. Set d k v) extra (id_dict srv);
          msg = (NewQuery meth (Some args))\<lparr>km_T := txID, km_V := ClientVersion\<rparr>
      in case MarshalTo msg of
           Inl _ \<Rightarrow> (srv, False)
         | Inr data \<Rightarrow>
             let txKey = makeTrackingKey txID addr;
                 rn = \<lparr>ID = targetID, IP = ipTo4 (ua_IP addr), Port = of_int (ua_Port addr)\<rparr>;
                 tx = \<lparr>tx_target = Some rn, tx_msgType = meth, tx_callback = cb, tx_deadline = now + messageTimeout, tx_timeout = None\<rparr>;
                 (srv, ok) = put_request data addr (srv\<lparr>sv_txs := (sv_txs srv)(txKey \<mapsto> tx)\<rparr>)
             in if \<not> ok then (srv\<lparr>sv_txs := (sv_txs srv)(txKey := None)\<rparr>, False)
                else
                  let entry = \<lparr>te_id = sv_next srv, te_key = txKey, te_deadline = tx_deadline tx, te_cancelled = False\<rparr>
                  in (srv\<lparr>sv_txs := (sv_txs srv)(txKey \<mapsto> tx\<lparr>tx_timeout := Some (sv_next srv)\<rparr>),
                          sv_th := sv_th srv @ [entry], sv_next := sv_next srv + 1\<rparr>, True))"

section \<open>Callbacks\<close>

definition reply_string :: "krpcMessage \<Rightarrow> string \<Rightarrow> string option" where
  "reply_string msg key =
     (case km_R msg of
        None \<Rightarrow> None
      | Some r \<Rightarrow> (case Get r key of Some (StringVal s) \<Rightarrow> Some s | _ \<Rightarrow> None))"

definition add_found_nodes :: "int \<Rightarrow> string \<Rightarrow> dhtServer \<Rightarrow> dhtServer" where
  "add_found_nodes now text srv =
     (case DecodeCompactNodes 4 (text_bytes text) of
        Inl _ \<Rightarrow> srv
      | Inr ns \<Rightarrow> srv\<lparr>sv_rt := fold (\<lambda>n rt. fst (AddNode now n rt)) ns (sv_rt srv)\<rparr>)"

text \<open>Sending on a closed channel panics.\<close>

definition chan_send :: "nat \<Rightarrow> udpAddr list \<Rightarrow> dhtServer \<Rightarrow> dhtServer option" where
  "chan_send ch ps srv =
     (case sv_lookups srv ch of
        None \<Rightarrow> Some srv
      | Some c \<Rightarrow>
          if ps = [] then Some srv
          else if ch_closed c then None
          else Some (srv\<lparr>sv_lookups := (sv_lookups srv)(ch \<mapsto> c\<lparr>ch_sent := ch_sent c @ ps\<rparr>)\<rparr>))"

definition got_peers :: "int \<Rightarrow> byte list \<Rightarrow> udpAddr \<Rightarrow> nat \<Rightarrow> krpcMessage \<Rightarrow> dhtServer \<Rightarrow> dhtServer option" where
  "got_peers now infoHash addr ch msg srv =
     (let srv = (case reply_string msg ''token'' of
                   None \<Rightarrow> srv
                 | Some tok \<Rightarrow> storePeerToken infoHash (ip_String (ua_IP addr)) (of_int (ua_Port addr)) tok srv)
      in map_option (\<lambda>srv. case reply_string msg ''nodes'' of None \<Rightarrow> srv | Some ns \<Rightarrow> add_found_nodes now ns srv)
           (case reply_string msg ''values'' of
              None \<Rightarrow> Some srv
            | Some vs \<Rightarrow> chan_send ch (decodeCompactPeers (text_bytes vs)) srv))"

text \<open>\<open>callback(msg, err)\<close>; \<open>None\<close> for \<open>msg\<close> is an error or a timeout. The channel of a token has room for one value and
  drops others.\<close>

fun run_callback :: "int \<Rightarrow> callback \<Rightarrow> krpcMessage option \<Rightarrow> dhtServer \<Rightarrow> dhtServer option" where
  "run_callback now CbBootstrap reply srv = Some srv"
| "run_callback now CbFindNode reply srv =
     (case reply of
        None \<Rightarrow> Some srv
      | Some msg \<Rightarrow> (case reply_string msg ''nodes'' of None \<Rightarrow> Some srv | Some ns \<Rightarrow> Some (add_found_nodes now ns srv)))"
| "run_callback now CbObserve reply srv =
     (if reply \<noteq> None \<and> numBuck (sv_rt srv) = 1 then Some (srv\<lparr>sv_jobs := sv_jobs srv @ [sv_NodeID srv]\<rparr>) else Some srv)"
| "run_callback now (CbGetPeers infoHash addr ch) reply srv =
     (case reply of
        None \<Rightarrow> Some srv
      | Some msg \<Rightarrow> if km_R msg = None then Some srv else got_peers now infoHash addr ch msg srv)"
| "run_callback now (CbToken ch) reply srv =
     (let tok = (case reply of None \<Rightarrow> [] | Some msg \<Rightarrow> (case reply_string msg ''token'' of None \<Rightarrow> [] | Some t \<Rightarrow> t))
      in Some (if sv_tokenCh srv ch = None then srv\<lparr>sv_tokenCh := (sv_tokenCh srv)(ch \<mapsto> tok)\<rparr> else srv))"
| "run_callback now (CbAnnounced ch) reply srv = Some (srv\<lparr>sv_annCh := (sv_annCh srv)(ch \<mapsto> (reply \<noteq> None))\<rparr>)"

section \<open>Responses\<close>

definition cancel_entry :: "nat option \<Rightarrow> timeoutEntry list \<Rightarrow> timeoutEntry list" where
  "cancel_entry i es = map (\<lambda>e. if Some (te_id e) = i then e\<lparr>te_cancelled := True\<rparr> else e) es"

definition handleResponse :: "int \<Rightarrow> krpcMessage \<Rightarrow> udpAddr \<Rightarrow> dhtServer \<Rightarrow> dhtServer option" where
  "handleResponse now msg remote srv =
     (let txKey = makeTrackingKey (km_T msg) remote in
      case sv_txs srv txKey of
        None \<Rightarrow> Some srv
      | Some tx \<Rightarrow>
          let srv = srv\<lparr>sv_txs := (sv_txs srv)(txKey := None), sv_th := cancel_entry (tx_timeout tx) (sv_th srv)\<rparr>;
              remoteInfo = \<lparr>ID = extractNodeID msg, IP = ipTo4 (ua_IP remote), Port = of_int (ua_Port remote)\<rparr>
          in if km_Y msg = ''r'' then
               let rt = (case tx_target tx of
                           Some n \<Rightarrow>
                             BatchUpdate now remoteInfo
                               (if ID n \<noteq> ID remoteInfo \<and> ID remoteInfo \<noteq> replicate 20 0 then ID n else replicate 20 0)
                               (ID n) (IP n) (Port n) (sv_rt srv)
                         | None \<Rightarrow> fst (AddGoodNode now remoteInfo (sv_rt srv)))
               in run_callback now (tx_callback tx) (Some msg) (srv\<lparr>sv_rt := rt\<rparr>)
             else if km_Y msg = ''e'' then run_callback now (tx_callback tx) None srv
             else Some srv)"

section \<open>Queries\<close>

definition add_good :: "int \<Rightarrow> NodeInfo \<Rightarrow> dhtServer \<Rightarrow> dhtServer" where
  "add_good now n srv = srv\<lparr>sv_rt := fst (AddGoodNode now n (sv_rt srv))\<rparr>"

definition handlePing :: "int \<Rightarrow> string \<Rightarrow> NodeInfo \<Rightarrow> dhtServer \<Rightarrow> dhtServer" where
  "handlePing now t remote srv =
     (let srv = add_good now remote srv in sendResponse t (id_dict srv) (node_addr remote) srv)"

definition handleFindNode :: "int \<Rightarrow> string \<Rightarrow> dict \<Rightarrow> NodeInfo \<Rightarrow> dhtServer \<Rightarrow> dhtServer option" where
  "handleFindNode now t a remote srv =
     (let srv = add_good now remote srv; addr = node_addr remote in
      case Get a ''target'' of
        None \<Rightarrow> Some (sendError t 203 ''Protocol Error, target missing'' addr srv)
      | Some (StringVal s) \<Rightarrow>
          if length s \<noteq> NodeIDLength then Some (sendError t 203 ''Protocol Error, bad target'' addr srv)
          else
            map_option (\<lambda>ns.
                sendResponse t (Set (id_dict srv) ''nodes'' (StringVal (bytes_text (CompactNodes ns)))) addr srv)
              (GetClosestNodes (text_bytes s) (int bucketK) (sv_rt srv))
      | Some _ \<Rightarrow> Some (sendError t 203 ''Protocol Error, bad target'' addr srv))"

definition handleGetPeers ::
    "(byte list \<Rightarrow> byte list) \<Rightarrow> int \<Rightarrow> string \<Rightarrow> dict \<Rightarrow> NodeInfo \<Rightarrow> dhtServer \<Rightarrow> dhtServer option" where
  "handleGetPeers sha1 now t a remote srv =
     (let srv = add_good now remote srv; addr = node_addr remote in
      case Get a ''info_hash'' of
        None \<Rightarrow> Some (sendError t 203 ''Protocol Error, info_hash missing'' addr srv)
      | Some (StringVal s) \<Rightarrow>
          if length s \<noteq> 20 then Some (sendError t 203 ''Protocol Error, bad info_hash'' addr srv)
          else
            let infoHash = text_bytes s;
                r = Set (id_dict srv) ''token''
                      (StringVal (generateToken sha1 infoHash (ip_String (ua_IP addr)) (of_int (ua_Port addr)) srv))
            in if sv_peers srv infoHash \<noteq> [] then
                 Some (sendResponse t (Set r ''values'' (StringVal (bytes_text (compactPeerAddrs (sv_peers srv infoHash))))) addr srv)
               else
                 map_option (\<lambda>ns. sendResponse t (Set r ''nodes'' (StringVal (bytes_text (CompactNodes ns)))) addr srv)
                   (GetClosestNodes infoHash (int bucketK) (sv_rt srv))
      | Some _ \<Rightarrow> Some (sendError t 203 ''Protocol Error, bad info_hash'' addr srv))"

text \<open>The port of an announce: the argument \<open>port\<close>, or the sender's when that is zero and \<open>implied_port\<close> is set.\<close>

definition int_arg :: "dict \<Rightarrow> string \<Rightarrow> int" where
  "int_arg a key = (case Get a key of Some (IntVal i) \<Rightarrow> i | _ \<Rightarrow> 0)"

definition announce_port :: "dict \<Rightarrow> udpAddr \<Rightarrow> int" where
  "announce_port a addr =
     (if int_arg a ''port'' = 0 \<and> int_arg a ''implied_port'' \<noteq> 0 then ua_Port addr else int_arg a ''port'')"

definition handleAnnouncePeer ::
    "(byte list \<Rightarrow> byte list) \<Rightarrow> int \<Rightarrow> string \<Rightarrow> dict \<Rightarrow> NodeInfo \<Rightarrow> dhtServer \<Rightarrow> dhtServer" where
  "handleAnnouncePeer sha1 now t a remote srv =
     (let srv = add_good now remote srv; addr = node_addr remote;
          fail = (\<lambda>code text. sendError t code text addr srv) in
      case Get a ''info_hash'' of
        None \<Rightarrow> fail 203 ''Protocol Error, info_hash missing''
      | Some (StringVal s) \<Rightarrow>
          if length s \<noteq> 20 then fail 203 ''Protocol Error, bad info_hash''
          else (case Get a ''token'' of
                  None \<Rightarrow> fail 203 ''Protocol Error, token missing''
                | Some (StringVal tok) \<Rightarrow>
                    let infoHash = text_bytes s in
                    if \<not> validateToken sha1 tok infoHash (ip_String (ua_IP addr)) (of_int (ua_Port addr)) srv
                    then fail 203 ''Protocol Error, bad token''
                    else if announce_port a addr = 0 then fail 204 ''Protocol Error, port missing''
                    else
                      let peerAddr = \<lparr>ua_IP = ua_IP addr, ua_Port = announce_port a addr\<rparr>;
                          existing = sv_peers srv infoHash;
                          found = list_ex (\<lambda>p. addr_String p = addr_String peerAddr) existing;
                          srv = (if found then srv else srv\<lparr>sv_peers := (sv_peers srv)(infoHash := existing @ [peerAddr])\<rparr>)
                      in sendResponse t (id_dict srv) addr srv
                | Some _ \<Rightarrow> fail 203 ''Protocol Error, bad token'')
      | Some _ \<Rightarrow> fail 203 ''Protocol Error, bad info_hash'')"

text \<open>The message has arguments: \<open>Unmarshal\<close> accepts no other query. A nil dictionary would panic.\<close>

definition handleQuery ::
    "(byte list \<Rightarrow> byte list) \<Rightarrow> int \<Rightarrow> krpcMessage \<Rightarrow> udpAddr \<Rightarrow> dhtServer \<Rightarrow> dhtServer option" where
  "handleQuery sha1 now msg remote srv =
     (let remoteInfo = \<lparr>ID = extractNodeID msg, IP = ipTo4 (ua_IP remote), Port = of_int (ua_Port remote)\<rparr> in
      if km_Q msg = ''ping'' then Some (handlePing now (km_T msg) remoteInfo srv)
      else if km_Q msg \<in> {''find_node'', ''get_peers'', ''announce_peer''} then
        (case km_A msg of
           None \<Rightarrow> None
         | Some a \<Rightarrow>
             if km_Q msg = ''find_node'' then handleFindNode now (km_T msg) a remoteInfo srv
             else if km_Q msg = ''get_peers'' then handleGetPeers sha1 now (km_T msg) a remoteInfo srv
             else Some (handleAnnouncePeer sha1 now (km_T msg) a remoteInfo srv))
      else Some (sendError (km_T msg) 204 ''Method Unknown'' remote srv))"

text \<open>\<open>readLoop\<close> passes on packets that begin like a dictionary.\<close>

definition handlePacket :: "(byte list \<Rightarrow> byte list) \<Rightarrow> int \<Rightarrow> string \<Rightarrow> udpAddr \<Rightarrow> dhtServer \<Rightarrow> dhtServer option" where
  "handlePacket sha1 now data remote srv =
     (case krpc_Unmarshal data of
        None \<Rightarrow> None
      | Some (Inl e) \<Rightarrow> if e = KDecode BePanic then None else Some srv
      | Some (Inr msg) \<Rightarrow>
          if km_Y msg = ''r'' \<or> km_Y msg = ''e'' then handleResponse now msg remote srv
          else if km_Y msg = ''q'' then
            (if isLocalNodeID msg (sv_NodeID srv) then Some srv else handleQuery sha1 now msg remote srv)
          else Some srv)"

definition readLoop_packet :: "(byte list \<Rightarrow> byte list) \<Rightarrow> int \<Rightarrow> string \<Rightarrow> udpAddr \<Rightarrow> dhtServer \<Rightarrow> dhtServer option" where
  "readLoop_packet sha1 now data remote srv =
     (if data \<noteq> [] \<and> hd data = CHR ''d'' then handlePacket sha1 now data remote srv else Some srv)"

section \<open>Timeouts\<close>

text \<open>What happens to an entry that was taken from the heap.\<close>

definition fire :: "int \<Rightarrow> timeoutEntry \<Rightarrow> dhtServer \<Rightarrow> dhtServer option" where
  "fire now ent srv =
     (if te_cancelled ent then Some srv
      else case sv_txs srv (te_key ent) of
             None \<Rightarrow> Some srv
           | Some tx \<Rightarrow>
               let srv = srv\<lparr>sv_txs := (sv_txs srv)(te_key ent := None)\<rparr>;
                   srv = (case tx_target tx of
                            None \<Rightarrow> srv
                          | Some n \<Rightarrow> srv\<lparr>sv_rt := onTimeout (ID n) (IP n) (Port n) (sv_rt srv)\<rparr>)
               in run_callback now (tx_callback tx) None srv)"

lemma run_callback_error: "\<exists>srv'. run_callback now cb None srv = Some srv' \<and> sv_th srv' = sv_th srv \<and> sv_txs srv' = sv_txs srv"
  by (cases cb) auto

lemma fire_frame: "\<exists>srv'. fire now ent srv = Some srv' \<and> sv_th srv' = sv_th srv
    \<and> sv_txs srv' = (if te_cancelled ent then sv_txs srv else (sv_txs srv)(te_key ent := None))"
proof (cases "te_cancelled ent")
  case False
  show ?thesis
  proof (cases "sv_txs srv (te_key ent)")
    case None
    with False show ?thesis by (auto simp: fire_def)
  next
    case (Some tx)
    let ?s = "srv\<lparr>sv_txs := (sv_txs srv)(te_key ent := None)\<rparr>"
    let ?t = "case tx_target tx of None \<Rightarrow> ?s | Some n \<Rightarrow> ?s\<lparr>sv_rt := onTimeout (ID n) (IP n) (Port n) (sv_rt ?s)\<rparr>"
    have "sv_th ?t = sv_th srv" "sv_txs ?t = (sv_txs srv)(te_key ent := None)" by (simp_all split: option.split)
    moreover have "fire now ent srv = run_callback now (tx_callback tx) None ?t" using False Some by (simp add: fire_def Let_def)
    ultimately show ?thesis using False run_callback_error [of now "tx_callback tx" ?t] by simp
  qed
qed (simp add: fire_def)

text \<open>\<open>pick\<close> is the position in the list of the entry at the root of the heap. The loop ends when that entry is not due yet.\<close>

function timeout_loop :: "(timeoutEntry list \<Rightarrow> nat) \<Rightarrow> int \<Rightarrow> dhtServer \<Rightarrow> dhtServer option" where
  "timeout_loop pick now srv =
     (let es = sv_th srv; i = pick es in
      if i < length es \<and> te_deadline (es ! i) \<le> now
      then Option.bind (fire now (es ! i) (srv\<lparr>sv_th := take i es @ drop (Suc i) es\<rparr>)) (timeout_loop pick now)
      else Some srv)"
  by pat_completeness auto
termination
proof (relation "measure (\<lambda>(pick, now, srv). length (sv_th srv))", goal_cases)
  case (2 pick now srv es i srv')
  let ?s = "srv\<lparr>sv_th := take i es @ drop (Suc i) es\<rparr>"
  have "fire now (es ! i) ?s = Some srv'" using 2(4) by (simp add: Option.bind_def)
  then have "sv_th srv' = take i es @ drop (Suc i) es" using fire_frame [of now "es ! i" ?s] by auto
  with 2(1,2,3) show ?case by auto
qed simp

declare timeout_loop.simps [simp del]

section \<open>Searches\<close>

text \<open>Find-node queries to the first three of the closest nodes; every query has its own four random bytes.\<close>

definition findNode :: "int \<Rightarrow> byte list \<Rightarrow> NodeID \<Rightarrow> NodeInfo \<Rightarrow> callback \<Rightarrow> dhtServer \<Rightarrow> dhtServer" where
  "findNode now random target n cb srv =
     fst (sendQuery now random ''find_node'' (node_addr n) (ID n) [(''target'', StringVal (bytes_text target))] cb srv)"

definition iterativeFindNode :: "int \<Rightarrow> (nat \<Rightarrow> byte list) \<Rightarrow> NodeID \<Rightarrow> dhtServer \<Rightarrow> dhtServer option" where
  "iterativeFindNode now randoms target srv =
     map_option (\<lambda>ns. fold (\<lambda>(i, n). findNode now (randoms i) target n CbFindNode) (List.enumerate 0 (take 3 ns)) srv)
       (GetClosestNodes target (int bucketK) (sv_rt srv))"

text \<open>A search that was started as a goroutine runs.\<close>

definition run_job :: "int \<Rightarrow> (nat \<Rightarrow> byte list) \<Rightarrow> dhtServer \<Rightarrow> dhtServer option" where
  "run_job now randoms srv =
     (case sv_jobs srv of
        [] \<Rightarrow> Some srv
      | target # js \<Rightarrow> iterativeFindNode now randoms target (srv\<lparr>sv_jobs := js\<rparr>))"

text \<open>The buckets that need a refresh, in the order of the tree, each with its random bytes.\<close>

fun touch_buckets :: "int \<Rightarrow> bucketTreeNode \<Rightarrow> bucketTreeNode" where
  "touch_buckets now (Leaf b) = Leaf (if needsRefresh now b then b\<lparr>lastUpdate := now\<rparr> else b)"
| "touch_buckets now (Inner l r mn mx) = Inner (touch_buckets now l) (touch_buckets now r) mn mx"

definition refreshBuckets :: "int \<Rightarrow> (nat \<Rightarrow> NodeID) \<Rightarrow> dhtServer \<Rightarrow> dhtServer" where
  "refreshBuckets now randoms srv =
     (let due = filter (needsRefresh now) (enumerateBuckets (root (sv_rt srv)))
      in srv\<lparr>sv_rt := (sv_rt srv)\<lparr>root := touch_buckets now (root (sv_rt srv))\<rparr>,
             sv_jobs := sv_jobs srv @ map (\<lambda>(i, b). randomNodeID (randoms i) b) (List.enumerate 0 due)\<rparr>)"

definition bootstrap_ping :: "int \<Rightarrow> byte list \<Rightarrow> NodeID \<Rightarrow> udpAddr \<Rightarrow> dhtServer \<Rightarrow> dhtServer" where
  "bootstrap_ping now random randomID addr srv = fst (sendQuery now random ''ping'' addr randomID [] CbBootstrap srv)"

definition ObservePeerPort :: "int \<Rightarrow> byte list \<Rightarrow> NodeID \<Rightarrow> byte list \<Rightarrow> uint16 \<Rightarrow> dhtServer \<Rightarrow> dhtServer" where
  "ObservePeerPort now random randomID ip port srv =
     (case To4 ip of
        None \<Rightarrow> srv
      | Some ip4 \<Rightarrow>
          if port = 0 then srv
          else fst (sendQuery now random ''ping'' \<lparr>ua_IP = ip4, ua_Port = int (unat port)\<rparr> randomID [] CbObserve srv))"

section \<open>Looking up and announcing peers\<close>

text \<open>The goroutine of \<open>GetPeers\<close>: it opens the channel and sends the peers known here, then sends a query to each of the closest nodes from
  goroutines of their own, and closes the channel once all of them have been sent. The
  node to ask is an argument of the query.\<close>

definition GetPeers_open :: "nat \<Rightarrow> byte list \<Rightarrow> dhtServer \<Rightarrow> dhtServer" where
  "GetPeers_open ch infoHash srv =
     srv\<lparr>sv_lookups := (sv_lookups srv)(ch \<mapsto> \<lparr>ch_sent = sv_peers srv infoHash, ch_closed = False\<rparr>)\<rparr>"

definition GetPeers_query :: "int \<Rightarrow> byte list \<Rightarrow> nat \<Rightarrow> byte list \<Rightarrow> NodeInfo \<Rightarrow> dhtServer \<Rightarrow> dhtServer" where
  "GetPeers_query now random ch infoHash n srv =
     fst (sendQuery now random ''get_peers'' (node_addr n) (ID n) [(''info_hash'', StringVal (bytes_text infoHash))]
            (CbGetPeers infoHash (node_addr n) ch) srv)"

definition GetPeers_close :: "nat \<Rightarrow> dhtServer \<Rightarrow> dhtServer" where
  "GetPeers_close ch srv =
     srv\<lparr>sv_lookups := (sv_lookups srv)(ch := map_option (\<lambda>c. c\<lparr>ch_closed := True\<rparr>) (sv_lookups srv ch))\<rparr>"

text \<open>The goroutine of \<open>Announce\<close> for one node: with a known token it announces at once, otherwise it asks for one and announces when
  the callback delivered it. The result says whether an announce was sent.\<close>

definition send_announce :: "int \<Rightarrow> byte list \<Rightarrow> nat \<Rightarrow> byte list \<Rightarrow> int \<Rightarrow> NodeInfo \<Rightarrow> string \<Rightarrow> dhtServer \<Rightarrow> dhtServer \<times> bool" where
  "send_announce now random ch infoHash port n token srv =
     sendQuery now random ''announce_peer'' (node_addr n) (ID n)
       [(''info_hash'', StringVal (bytes_text infoHash)), (''port'', IntVal port), (''token'', StringVal token)] (CbAnnounced ch) srv"

definition known_token :: "string list \<Rightarrow> byte list \<Rightarrow> NodeInfo \<Rightarrow> dhtServer \<Rightarrow> string" where
  "known_token order infoHash n srv =
     (let tok = getPeerToken infoHash (ip_String (IP n)) (Port n) srv
      in if tok = [] then getPeerTokenByAddr order infoHash srv else tok)"

definition announce_node ::
    "int \<Rightarrow> byte list \<Rightarrow> string list \<Rightarrow> nat \<Rightarrow> byte list \<Rightarrow> int \<Rightarrow> NodeInfo \<Rightarrow> dhtServer \<Rightarrow> dhtServer \<times> bool" where
  "announce_node now random order ch infoHash port n srv =
     (let token = known_token order infoHash n srv in
      if token \<noteq> [] then send_announce now random ch infoHash port n token srv
      else (fst (sendQuery now random ''get_peers'' (node_addr n) (ID n)
                   [(''info_hash'', StringVal (bytes_text infoHash))] (CbToken ch) srv), False))"

text \<open>The wait ended: with the value of the channel, or after ten seconds without one.\<close>

definition announce_continue ::
    "int \<Rightarrow> byte list \<Rightarrow> nat \<Rightarrow> byte list \<Rightarrow> int \<Rightarrow> NodeInfo \<Rightarrow> dhtServer \<Rightarrow> dhtServer \<times> bool" where
  "announce_continue now random ch infoHash port n srv =
     (case sv_tokenCh srv ch of
        None \<Rightarrow> (srv, False)
      | Some token \<Rightarrow> if token = [] then (srv, False) else send_announce now random ch infoHash port n token srv)"

text \<open>\<open>Announce\<close> fails when there were nodes and none of them accepted.\<close>

definition Announce_result :: "nat \<Rightarrow> nat \<Rightarrow> bool" where
  "Announce_result errs asked \<longleftrightarrow> \<not> (0 < errs \<and> errs = asked)"

section \<open>Steps\<close>

datatype dht_event =
    EvPacket int string udpAddr
  | EvTimeouts int
  | EvSend
  | EvSecret "byte list"
  | EvJob int "nat \<Rightarrow> byte list"
  | EvRefresh int "nat \<Rightarrow> NodeID"
  | EvBootstrap int "byte list" NodeID udpAddr
  | EvObserve int "byte list" NodeID "byte list" uint16
  | EvOpen nat "byte list"
  | EvAsk int "byte list" nat "byte list" NodeInfo
  | EvClose nat
  | EvAnnounce int "byte list" "string list" nat "byte list" int NodeInfo
  | EvContinue int "byte list" nat "byte list" int NodeInfo

fun server_step :: "(byte list \<Rightarrow> byte list) \<Rightarrow> (timeoutEntry list \<Rightarrow> nat) \<Rightarrow> dht_event \<Rightarrow> dhtServer \<Rightarrow> dhtServer option" where
  "server_step sha1 pick (EvPacket now data remote) srv = readLoop_packet sha1 now data remote srv"
| "server_step sha1 pick (EvTimeouts now) srv = timeout_loop pick now srv"
| "server_step sha1 pick EvSend srv = Some (case dequeue (sv_sendRB srv) of None \<Rightarrow> srv | Some (req, rb) \<Rightarrow> srv\<lparr>sv_sendRB := rb\<rparr>)"
| "server_step sha1 pick (EvSecret random) srv = Some (updateTokenSecret random srv)"
| "server_step sha1 pick (EvJob now randoms) srv = run_job now randoms srv"
| "server_step sha1 pick (EvRefresh now randoms) srv = Some (refreshBuckets now randoms srv)"
| "server_step sha1 pick (EvBootstrap now random rid addr) srv = Some (bootstrap_ping now random rid addr srv)"
| "server_step sha1 pick (EvObserve now random rid ip port) srv = Some (ObservePeerPort now random rid ip port srv)"
| "server_step sha1 pick (EvOpen ch ih) srv = Some (GetPeers_open ch ih srv)"
| "server_step sha1 pick (EvAsk now random ch ih n) srv = Some (GetPeers_query now random ch ih n srv)"
| "server_step sha1 pick (EvClose ch) srv = Some (GetPeers_close ch srv)"
| "server_step sha1 pick (EvAnnounce now random order ch ih port n) srv = Some (fst (announce_node now random order ch ih port n srv))"
| "server_step sha1 pick (EvContinue now random ch ih port n) srv = Some (fst (announce_continue now random ch ih port n srv))"

primrec server_run :: "(byte list \<Rightarrow> byte list) \<Rightarrow> (timeoutEntry list \<Rightarrow> nat) \<Rightarrow> dht_event list \<Rightarrow> dhtServer \<Rightarrow> dhtServer option" where
  "server_run sha1 pick [] srv = Some srv"
| "server_run sha1 pick (ev # evs) srv = Option.bind (server_step sha1 pick ev srv) (server_run sha1 pick evs)"

section \<open>The send queue is a bounded queue\<close>

locale bounded_fifo =
  fixes ok :: "'q \<Rightarrow> bool" and items :: "'q \<Rightarrow> 'a list" and enq :: "'a \<Rightarrow> 'q \<Rightarrow> 'q \<times> bool"
    and deq :: "'q \<Rightarrow> ('a \<times> 'q) option" and cap :: nat
  assumes enq_ok: "ok q \<Longrightarrow> ok (fst (enq x q))"
    and enq_items: "ok q \<Longrightarrow> items (fst (enq x q)) = (if length (items q) < cap then items q @ [x] else items q)"
    and enq_result: "ok q \<Longrightarrow> snd (enq x q) \<longleftrightarrow> length (items q) < cap"
    and deq_None: "ok q \<Longrightarrow> deq q = None \<longleftrightarrow> items q = []"
    and deq_Some: "ok q \<Longrightarrow> deq q = Some (x, q') \<Longrightarrow> ok q' \<and> items q = x # items q'"
begin

lemma bounded: "ok q \<Longrightarrow> length (items q) \<le> cap \<Longrightarrow> length (items (fst (enq x q))) \<le> cap"
  by (simp add: enq_items)

primrec drain :: "nat \<Rightarrow> 'q \<Rightarrow> 'a list" where
  "drain 0 q = []"
| "drain (Suc n) q = (case deq q of None \<Rightarrow> [] | Some (x, q') \<Rightarrow> x # drain n q')"

lemma drain_items: "ok q \<Longrightarrow> drain n q = take n (items q)"
proof (induction n arbitrary: q)
  case (Suc n)
  show ?case
  proof (cases "deq q")
    case None
    then show ?thesis using deq_None [OF Suc.prems] by simp
  next
    case (Some p)
    obtain x q' where "p = (x, q')" by (cases p)
    with Some deq_Some [OF Suc.prems, of x q'] Suc.IH [of q'] show ?thesis by simp
  qed
qed simp

lemma enq_all_items:
  "ok q \<Longrightarrow> length (items q) + length xs \<le> cap \<Longrightarrow>
    ok (fold (\<lambda>x q. fst (enq x q)) xs q) \<and> items (fold (\<lambda>x q. fst (enq x q)) xs q) = items q @ xs"
  by (induction xs arbitrary: q) (simp_all add: enq_ok enq_items)

text \<open>What is put in comes out in order.\<close>

lemma fifo: "ok q \<Longrightarrow> length (items q) + length xs \<le> cap \<Longrightarrow>
    drain (length (items q) + length xs) (fold (\<lambda>x q. fst (enq x q)) xs q) = items q @ xs"
  using enq_all_items [of q xs] drain_items by simp

end

definition ring_ok :: "sendRingBuffer \<Rightarrow> bool" where
  "ring_ok rb \<longleftrightarrow> length (rb_buf rb) = sendRingSize \<and> rb_head rb < sendRingSize \<and> rb_size rb \<le> sendRingSize
     \<and> rb_tail rb = (rb_head rb + rb_size rb) mod sendRingSize"

definition ring_items :: "sendRingBuffer \<Rightarrow> sendReq list" where
  "ring_items rb = map (\<lambda>i. rb_buf rb ! ((rb_head rb + i) mod sendRingSize)) [0..<rb_size rb]"

lemma length_ring_items [simp]: "length (ring_items rb) = rb_size rb"
  by (simp add: ring_items_def)

lemma enqueue_ring_ok: "ring_ok rb \<Longrightarrow> ring_ok (fst (enqueue req rb))"
  by (auto simp: ring_ok_def enqueue_def mod_simps ac_simps)

lemma enqueue_items:
  assumes "ring_ok rb"
  shows "ring_items (fst (enqueue req rb)) = (if rb_size rb < sendRingSize then ring_items rb @ [req] else ring_items rb)"
proof (cases "rb_size rb < sendRingSize")
  case True
  let ?t = "(rb_head rb + rb_size rb) mod sendRingSize"
  have t: "rb_tail rb = ?t" "?t < length (rb_buf rb)" using assms by (auto simp: ring_ok_def)
  have "(rb_buf rb)[?t := req] ! ((rb_head rb + i) mod sendRingSize) = rb_buf rb ! ((rb_head rb + i) mod sendRingSize)"
    if "i < rb_size rb" for i
    using mod_add_inj [of "rb_head rb" i sendRingSize "rb_size rb"] that True by fastforce
  with True t show ?thesis by (simp add: enqueue_def ring_items_def)
qed (simp add: enqueue_def)

lemma dequeue_ok:
  assumes "ring_ok rb" "dequeue rb = Some (req, rb')"
  shows "ring_ok rb' \<and> ring_items rb = req # ring_items rb'"
proof -
  obtain k where k: "rb_size rb = Suc k" using assms(2) by (cases "rb_size rb") (auto simp: dequeue_def)
  have rb': "rb' = rb\<lparr>rb_head := (rb_head rb + 1) mod sendRingSize, rb_size := k\<rparr>" "req = rb_buf rb ! rb_head rb"
    using assms(2) k by (auto simp: dequeue_def)
  have "ring_items rb = req # ring_items rb'"
    using assms(1) unfolding ring_items_def k rb'
    by (simp add: upt_conv_Cons map_Suc_upt [symmetric] ring_ok_def mod_simps del: upt_Suc map_Suc_upt)
  moreover have "ring_ok rb'" using assms(1) k unfolding ring_ok_def rb' by (simp add: mod_simps sendRingSize_def)
  ultimately show ?thesis by simp
qed

interpretation sendq: bounded_fifo ring_ok ring_items enqueue dequeue sendRingSize
proof unfold_locales
  fix q x q'
  show "ring_ok q \<Longrightarrow> snd (enqueue x q) \<longleftrightarrow> length (ring_items q) < sendRingSize" by (simp add: enqueue_def)
  show "ring_ok q \<Longrightarrow> dequeue q = None \<longleftrightarrow> ring_items q = []" by (simp add: dequeue_def ring_items_def)
  show "ring_ok q \<Longrightarrow> ring_items (fst (enqueue x q)) = (if length (ring_items q) < sendRingSize then ring_items q @ [x] else ring_items q)"
    by (simp add: enqueue_items)
qed (simp_all add: enqueue_ring_ok dequeue_ok)

lemma ring_ok_empty [simp]: "ring_ok empty_ring"
  by (simp add: ring_ok_def empty_ring_def sendRingSize_def)

section \<open>Invariant\<close>

text \<open>A pending query has an entry in the heap that will fire: it is not cancelled, has the key of the query and its
  deadline.\<close>

definition live_timer :: "dhtServer \<Rightarrow> string \<Rightarrow> pendingTx \<Rightarrow> bool" where
  "live_timer srv k tx \<longleftrightarrow>
     (\<exists>e\<in>set (sv_th srv). tx_timeout tx = Some (te_id e) \<and> te_key e = k \<and> \<not> te_cancelled e \<and> te_deadline e = tx_deadline tx)"

definition timers_ok :: "dhtServer \<Rightarrow> bool" where
  "timers_ok srv \<longleftrightarrow>
     distinct (map te_id (sv_th srv)) \<and> (\<forall>e\<in>set (sv_th srv). te_id e < sv_next srv)
     \<and> (\<forall>k tx. sv_txs srv k = Some tx \<longrightarrow> live_timer srv k tx)"

definition ids_ok :: "dhtServer \<Rightarrow> bool" where
  "ids_ok srv \<longleftrightarrow>
     length (sv_NodeID srv) = 20 \<and> (\<forall>j\<in>set (sv_jobs srv). length j = 20)
     \<and> (\<forall>k tx n. sv_txs srv k = Some tx \<and> tx_target tx = Some n \<longrightarrow> length (ID n) = 20)"

definition server_ok :: "dhtServer \<Rightarrow> bool" where
  "server_ok srv \<longleftrightarrow> table_ok (sv_rt srv) \<and> ring_ok (sv_sendRB srv) \<and> timers_ok srv \<and> ids_ok srv"

lemmas server_ok_defs = server_ok_def timers_ok_def ids_ok_def live_timer_def

text \<open>Changes that leave queries, timers and searches alone.\<close>

lemma server_ok_frame [simp]:
  "server_ok (srv\<lparr>sv_peers := p\<rparr>) = server_ok srv"
  "server_ok (srv\<lparr>sv_peerTokens := t\<rparr>) = server_ok srv"
  "server_ok (srv\<lparr>sv_secrets := s\<rparr>) = server_ok srv"
  "server_ok (srv\<lparr>sv_lookups := l\<rparr>) = server_ok srv"
  "server_ok (srv\<lparr>sv_tokenCh := tc\<rparr>) = server_ok srv"
  "server_ok (srv\<lparr>sv_annCh := ac\<rparr>) = server_ok srv"
  by (simp_all add: server_ok_defs)

lemma server_ok_rt: "server_ok srv \<Longrightarrow> table_ok rt \<Longrightarrow> server_ok (srv\<lparr>sv_rt := rt\<rparr>)"
  by (simp add: server_ok_defs)

lemma server_ok_ring: "server_ok srv \<Longrightarrow> ring_ok rb \<Longrightarrow> server_ok (srv\<lparr>sv_sendRB := rb\<rparr>)"
  by (simp add: server_ok_defs)

lemma server_ok_table: "server_ok srv \<Longrightarrow> table_ok (sv_rt srv)"
  by (simp add: server_ok_def)

text \<open>Operations on the routing table.\<close>

lemma table_ok_ops:
  assumes "table_ok rt"
  shows "length (ID n) = 20 \<Longrightarrow> table_ok (fst (AddNode now n rt))"
    and "length (ID n) = 20 \<Longrightarrow> table_ok (fst (AddGoodNode now n rt))"
    and "length x = 20 \<Longrightarrow> table_ok (onTimeout x ip port rt)"
    and "length (ID n) = 20 \<Longrightarrow> length x = 20 \<Longrightarrow> length y = 20 \<Longrightarrow> table_ok (BatchUpdate now n x y ip port rt)"
  using dht_exec_ok [OF assms, of "OpAdd now n False"] dht_exec_ok [OF assms, of "OpAdd now n True"]
    dht_exec_ok [OF assms, of "OpTimeout x ip port"] dht_exec_ok [OF assms, of "OpBatch now n x y ip port"]
  by (simp_all add: NodeIDLength_def)

lemma add_nodes_ok: "table_ok rt \<Longrightarrow> \<forall>n\<in>set ns. length (ID n) = 20 \<Longrightarrow> table_ok (fold (\<lambda>n rt. fst (AddNode now n rt)) ns rt)"
  by (induction ns arbitrary: rt) (simp_all add: table_ok_ops)

lemma GetClosestNodes_total:
  assumes "table_ok rt" "length x = 20"
  shows "\<exists>ns. GetClosestNodes x k rt = Some ns"
  using closest_rec_ok [of "rt_localID rt" "[]" "root rt" x] assms
  by (auto simp: GetClosestNodes_def closest_unfold table_ok_def NodeIDLength_def)

section \<open>Sending keeps the invariant\<close>

lemma put_request_eq:
  "put_request data addr srv =
     (srv\<lparr>sv_sendRB := fst (enqueue \<lparr>sr_data = data, sr_addr = addr\<rparr> (sv_sendRB srv))\<rparr>, snd (enqueue \<lparr>sr_data = data, sr_addr = addr\<rparr> (sv_sendRB srv)))"
  by (simp add: put_request_def split: prod.split)

lemma put_request_ok: "server_ok srv \<Longrightarrow> server_ok (fst (put_request data addr srv))"
  unfolding put_request_eq by (auto intro!: server_ok_ring sendq.enq_ok dest: server_ok_def [THEN iffD1])

lemma send_ok [intro!]:
  "server_ok srv \<Longrightarrow> server_ok (sendResponse t r addr srv)" "server_ok srv \<Longrightarrow> server_ok (sendError t code text addr srv)"
  by (simp_all add: sendResponse_def sendError_def send_reply_def put_request_ok split: sum.split)

lemma server_ok_forget: "server_ok srv \<Longrightarrow> server_ok (srv\<lparr>sv_txs := (sv_txs srv)(k := None)\<rparr>)"
  by (auto simp: server_ok_defs)

lemma server_ok_register:
  assumes "server_ok srv" "length (ID n) = 20" "tx_target tx = Some n"
    and "te_id e = sv_next srv" "te_key e = k" "\<not> te_cancelled e" "te_deadline e = tx_deadline tx"
  shows "server_ok (srv\<lparr>sv_txs := (sv_txs srv)(k \<mapsto> tx\<lparr>tx_timeout := Some (sv_next srv)\<rparr>), sv_th := sv_th srv @ [e], sv_next := sv_next srv + 1\<rparr>)"
proof -
  have "timers_ok srv" "ids_ok srv" using assms(1) by (simp_all add: server_ok_def)
  then show ?thesis using assms by (auto simp: server_ok_def timers_ok_def ids_ok_def live_timer_def less_Suc_eq)
qed

lemma sendQuery_ok:
  assumes "server_ok srv" "length targetID = 20"
  shows "server_ok (fst (sendQuery now random meth addr targetID extra cb srv))"
proof -
  define key where "key = makeTrackingKey (newTxID random) addr"
  define tx where "tx = \<lparr>tx_target = Some \<lparr>ID = targetID, IP = ipTo4 (ua_IP addr), Port = of_int (ua_Port addr)\<rparr>, tx_msgType = meth,
    tx_callback = cb, tx_deadline = now + messageTimeout, tx_timeout = None\<rparr>"
  define data where "data = MarshalTo ((NewQuery meth (Some (fold (\<lambda>(k, v) d. Set d k v) extra (id_dict srv))))\<lparr>km_T := newTxID random, km_V := ClientVersion\<rparr>)"
  define e where "e = \<lparr>te_id = sv_next srv, te_key = key, te_deadline = tx_deadline tx, te_cancelled = False\<rparr>"
  show ?thesis
  proof (cases data)
    case (Inl err)
    then show ?thesis using assms(1) by (simp add: sendQuery_def data_def)
  next
    case (Inr raw)
    define rb where "rb = fst (enqueue \<lparr>sr_data = raw, sr_addr = addr\<rparr> (sv_sendRB srv))"
    define ok where "ok = snd (enqueue \<lparr>sr_data = raw, sr_addr = addr\<rparr> (sv_sendRB srv))"
    define srv1 where "srv1 = srv\<lparr>sv_sendRB := rb\<rparr>"
    have "ring_ok (sv_sendRB srv)" using assms(1) by (simp add: server_ok_def)
    then have s1: "server_ok srv1" unfolding srv1_def rb_def by (intro server_ok_ring assms sendq.enq_ok)
    have "fst (sendQuery now random meth addr targetID extra cb srv) =
        (if \<not> ok then srv1\<lparr>sv_txs := (sv_txs srv1)(key := None)\<rparr>
         else srv1\<lparr>sv_txs := (sv_txs srv1)(key \<mapsto> tx\<lparr>tx_timeout := Some (sv_next srv1)\<rparr>), sv_th := sv_th srv1 @ [e], sv_next := sv_next srv1 + 1\<rparr>)"
      using Inr unfolding data_def
      by (simp add: sendQuery_def Let_def put_request_eq srv1_def rb_def ok_def key_def tx_def e_def)
    moreover have "server_ok (srv1\<lparr>sv_txs := (sv_txs srv1)(key \<mapsto> tx\<lparr>tx_timeout := Some (sv_next srv1)\<rparr>), sv_th := sv_th srv1 @ [e], sv_next := sv_next srv1 + 1\<rparr>)"
      by (rule server_ok_register [OF s1]) (simp_all add: tx_def e_def srv1_def assms(2))
    ultimately show ?thesis using server_ok_forget [OF s1] by simp
  qed
qed

section \<open>Packets keep the invariant\<close>

lemma decode_chunks_ids: "length data mod 26 = 0 \<Longrightarrow> n \<in> set (decode_chunks 4 data) \<Longrightarrow> length (ID n) = 20"
proof (induction "4 :: nat" data rule: decode_chunks.induct)
  case (1 data)
  show ?case
  proof (cases "data = []")
    case True
    then show ?thesis using 1(3) by (simp add: decode_chunks.simps)
  next
    case False
    have "26 \<le> length data" using False 1(2) by (cases "length data < 26") auto
    then have len: "length (ID (DecodeCompact 4 (take 26 data))) = 20" "length (drop 26 data) mod 26 = 0"
      using 1(2) by (simp_all add: DecodeCompact_def le_mod_geq)
    have "n = DecodeCompact 4 (take 26 data) \<or> n \<in> set (decode_chunks 4 (drop 26 data))"
      using 1(3) False by (subst (asm) decode_chunks.simps) (auto simp: Let_def split: if_splits)
    then show ?thesis using 1(1) [OF False refl] len by auto
  qed
qed

lemma add_found_nodes_ok: "server_ok srv \<Longrightarrow> server_ok (add_found_nodes now ns srv)"
  using decode_chunks_ids [of "text_bytes ns"]
  by (auto simp: add_found_nodes_def DecodeCompactNodes_def split: sum.split
      intro!: server_ok_rt add_nodes_ok dest: server_ok_table)

lemma chan_send_ok: "server_ok srv \<Longrightarrow> chan_send ch ps srv = Some srv' \<Longrightarrow> server_ok srv'"
  by (auto simp: chan_send_def split: option.splits if_splits)

lemma storePeerToken_ok: "server_ok srv \<Longrightarrow> server_ok (storePeerToken ih ip port tok srv)"
  by (simp add: storePeerToken_def)

lemma got_peers_ok: "server_ok srv \<Longrightarrow> got_peers now ih addr ch msg srv = Some srv' \<Longrightarrow> server_ok srv'"
  by (auto simp: got_peers_def Let_def storePeerToken_ok intro!: add_found_nodes_ok split: option.splits elim!: chan_send_ok [rotated])

lemma server_ok_jobs: "server_ok srv \<Longrightarrow> \<forall>j\<in>set js. length j = 20 \<Longrightarrow> server_ok (srv\<lparr>sv_jobs := js\<rparr>)"
  by (simp add: server_ok_defs)

lemma run_callback_ok:
  assumes "server_ok srv" "run_callback now cb reply srv = Some srv'"
  shows "server_ok srv'"
proof (cases cb)
  case CbObserve
  have "\<forall>j\<in>set (sv_jobs srv @ [sv_NodeID srv]). length j = 20" using assms(1) by (auto simp: server_ok_def ids_ok_def)
  from server_ok_jobs [OF assms(1) this] show ?thesis using assms CbObserve by (auto split: if_splits)
qed (use assms in \<open>auto intro!: add_found_nodes_ok elim: got_peers_ok split: option.splits if_splits simp: Let_def\<close>)

lemma length_extractNodeID [simp]: "length (extractNodeID msg) = 20"
  by (auto simp: extractNodeID_def dict_id_def NodeIDLength_def split: option.split Value.split)

lemma cancel_entry_facts:
  "map te_id (cancel_entry i es) = map te_id es"
  "e \<in> set es \<Longrightarrow> Some (te_id e) \<noteq> i \<Longrightarrow> e \<in> set (cancel_entry i es)"
  by (auto simp: cancel_entry_def image_iff intro!: bexI [of _ e])

lemma server_ok_answered:
  assumes "server_ok srv" "sv_txs srv k = Some tx"
  shows "server_ok (srv\<lparr>sv_txs := (sv_txs srv)(k := None), sv_th := cancel_entry (tx_timeout tx) (sv_th srv)\<rparr>)"
proof -
  have t: "timers_ok srv" using assms(1) by (simp add: server_ok_def)
  then obtain e where e: "e \<in> set (sv_th srv)" "tx_timeout tx = Some (te_id e)" "te_key e = k"
    using assms(2) unfolding timers_ok_def live_timer_def by blast
  have "live_timer (srv\<lparr>sv_txs := (sv_txs srv)(k := None), sv_th := cancel_entry (tx_timeout tx) (sv_th srv)\<rparr>) k' tx'"
    if other: "sv_txs srv k' = Some tx'" "k' \<noteq> k" for k' tx'
  proof -
    obtain e' where e': "e' \<in> set (sv_th srv)" "tx_timeout tx' = Some (te_id e')" "te_key e' = k'" "\<not> te_cancelled e'"
        "te_deadline e' = tx_deadline tx'"
      using t other(1) unfolding timers_ok_def live_timer_def by blast
    have "te_id e' \<noteq> te_id e"
      using e e' other(2) t by (auto simp: timers_ok_def distinct_map dest: inj_onD)
    then have "e' \<in> set (cancel_entry (tx_timeout tx) (sv_th srv))" using e'(1) e(2) by (intro cancel_entry_facts) auto
    with e' show ?thesis by (auto simp: live_timer_def)
  qed
  moreover have "\<forall>e\<in>set (cancel_entry (tx_timeout tx) (sv_th srv)). te_id e < sv_next srv"
    using t by (auto simp: timers_ok_def cancel_entry_def)
  moreover have "distinct (map te_id (sv_th srv))" using t by (simp add: timers_ok_def)
  ultimately show ?thesis
    using assms(1) by (simp add: server_ok_def timers_ok_def ids_ok_def cancel_entry_facts(1))
qed

lemma handleResponse_ok:
  assumes "server_ok srv" "handleResponse now msg remote srv = Some srv'"
  shows "server_ok srv'"
proof (cases "sv_txs srv (makeTrackingKey (km_T msg) remote)")
  case None
  then show ?thesis using assms by (simp add: handleResponse_def)
next
  case (Some tx)
  let ?k = "makeTrackingKey (km_T msg) remote"
  define s1 where "s1 = srv\<lparr>sv_txs := (sv_txs srv)(?k := None), sv_th := cancel_entry (tx_timeout tx) (sv_th srv)\<rparr>"
  have s1: "server_ok s1" unfolding s1_def by (rule server_ok_answered [OF assms(1) Some])
  have target: "length (ID n) = 20" if "tx_target tx = Some n" for n
    using assms(1) Some that by (auto simp: server_ok_def ids_ok_def)
  define rt where "rt = (case tx_target tx of
      Some n \<Rightarrow> BatchUpdate now \<lparr>ID = extractNodeID msg, IP = ipTo4 (ua_IP remote), Port = of_int (ua_Port remote)\<rparr>
        (if ID n \<noteq> extractNodeID msg \<and> extractNodeID msg \<noteq> replicate 20 0 then ID n else replicate 20 0) (ID n) (IP n) (Port n) (sv_rt s1)
    | None \<Rightarrow> fst (AddGoodNode now \<lparr>ID = extractNodeID msg, IP = ipTo4 (ua_IP remote), Port = of_int (ua_Port remote)\<rparr> (sv_rt s1)))"
  have "table_ok rt"
    using server_ok_table [OF s1] target by (auto simp: rt_def intro!: table_ok_ops split: option.split)
  then have rt: "server_ok (s1\<lparr>sv_rt := rt\<rparr>)" by (rule server_ok_rt [OF s1])
  have "handleResponse now msg remote srv =
      (if km_Y msg = ''r'' then run_callback now (tx_callback tx) (Some msg) (s1\<lparr>sv_rt := rt\<rparr>)
       else if km_Y msg = ''e'' then run_callback now (tx_callback tx) None s1 else Some s1)"
    using Some by (simp add: handleResponse_def Let_def s1_def rt_def cong: option.case_cong)
  with assms(2) show ?thesis using run_callback_ok [OF rt] run_callback_ok [OF s1] s1 by (auto split: if_splits)
qed

lemma add_good_ok: "server_ok srv \<Longrightarrow> length (ID n) = 20 \<Longrightarrow> server_ok (add_good now n srv)"
  by (simp add: add_good_def server_ok_rt table_ok_ops server_ok_table)

lemma handlers_ok:
  assumes "server_ok srv" "length (ID remote) = 20"
  shows "server_ok (handlePing now t remote srv)"
    and "handleFindNode now t a remote srv = Some srv' \<Longrightarrow> server_ok srv'"
    and "handleGetPeers sha1 now t a remote srv = Some srv' \<Longrightarrow> server_ok srv'"
    and "server_ok (handleAnnouncePeer sha1 now t a remote srv)"
  using add_good_ok [OF assms, of now]
  by (auto simp: handlePing_def handleFindNode_def handleGetPeers_def handleAnnouncePeer_def Let_def
      split: option.splits Value.splits if_splits)

lemma handleQuery_ok: "server_ok srv \<Longrightarrow> handleQuery sha1 now msg remote srv = Some srv' \<Longrightarrow> server_ok srv'"
  by (auto simp: handleQuery_def Let_def intro!: handlers_ok(1,4) elim!: handlers_ok(2,3) [rotated 2] split: if_splits option.splits)

lemma handlePacket_ok: "server_ok srv \<Longrightarrow> handlePacket sha1 now data remote srv = Some srv' \<Longrightarrow> server_ok srv'"
  by (auto simp: handlePacket_def intro: handleQuery_ok handleResponse_ok split: option.splits sum.splits if_splits)

section \<open>Every step keeps the invariant\<close>

lemma server_ok_pop:
  assumes "server_ok srv" "i < length (sv_th srv)" "\<not> te_cancelled (sv_th srv ! i) \<longrightarrow> sv_txs srv (te_key (sv_th srv ! i)) = None"
  shows "server_ok (srv\<lparr>sv_th := take i (sv_th srv) @ drop (Suc i) (sv_th srv)\<rparr>)"
proof -
  let ?es = "sv_th srv"
  have split: "?es = take i ?es @ ?es ! i # drop (Suc i) ?es" using assms(2) by (rule id_take_nth_drop)
  have sub: "set ?es = insert (?es ! i) (set (take i ?es @ drop (Suc i) ?es))"
    using arg_cong [OF split, of set] by simp
  have t: "timers_ok srv" using assms(1) by (simp add: server_ok_def)
  then have "distinct (map te_id ?es)" by (simp add: timers_ok_def)
  from this [unfolded arg_cong [OF split, of "map te_id"]]
  have d: "distinct (map te_id (take i ?es @ drop (Suc i) ?es))" by simp
  have "live_timer (srv\<lparr>sv_th := take i ?es @ drop (Suc i) ?es\<rparr>) k tx" if k: "sv_txs srv k = Some tx" for k tx
  proof -
    have "live_timer srv k tx" using t k by (simp add: timers_ok_def)
    then obtain e where e: "e \<in> set ?es" "tx_timeout tx = Some (te_id e)" "te_key e = k" "\<not> te_cancelled e" "te_deadline e = tx_deadline tx"
      by (auto simp: live_timer_def)
    then have "e \<noteq> ?es ! i" using assms(3) k by auto
    then have "e \<in> set (take i ?es @ drop (Suc i) ?es)" using e(1) sub by blast
    with e show ?thesis by (auto simp: live_timer_def)
  qed
  moreover have "\<forall>e\<in>set (take i ?es @ drop (Suc i) ?es). te_id e < sv_next srv" using t sub unfolding timers_ok_def by blast
  ultimately show ?thesis using d assms(1) by (simp add: server_ok_def timers_ok_def ids_ok_def)
qed

text \<open>Taking an entry from the heap and firing it: the query is forgotten in the same step.\<close>

lemma fire_ok:
  assumes "server_ok srv" "i < length (sv_th srv)"
    and "fire now (sv_th srv ! i) (srv\<lparr>sv_th := take i (sv_th srv) @ drop (Suc i) (sv_th srv)\<rparr>) = Some srv'"
  shows "server_ok srv'"
proof -
  let ?e = "sv_th srv ! i" and ?th = "take i (sv_th srv) @ drop (Suc i) (sv_th srv)"
  consider (idle) "te_cancelled ?e \<or> sv_txs srv (te_key ?e) = None" | (due) tx where "\<not> te_cancelled ?e" "sv_txs srv (te_key ?e) = Some tx"
    by auto
  then show ?thesis
  proof cases
    case idle
    then have "srv' = srv\<lparr>sv_th := ?th\<rparr>" using assms(3) by (auto simp: fire_def split: if_splits)
    then show ?thesis using server_ok_pop [OF assms(1,2)] idle by auto
  next
    case due
    define s1 where "s1 = srv\<lparr>sv_th := ?th, sv_txs := (sv_txs srv)(te_key ?e := None)\<rparr>"
    have "s1 = srv\<lparr>sv_txs := (sv_txs srv)(te_key ?e := None), sv_th := ?th\<rparr>" by (simp add: s1_def)
    then have s1: "server_ok s1"
      using server_ok_pop [OF server_ok_forget [OF assms(1), of "te_key ?e"], of i] assms(2) by simp
    have len: "length (ID n) = 20" if "tx_target tx = Some n" for n
      using assms(1) due(2) that by (auto simp: server_ok_def ids_ok_def)
    have "run_callback now (tx_callback tx) None
        (case tx_target tx of None \<Rightarrow> s1 | Some n \<Rightarrow> s1\<lparr>sv_rt := onTimeout (ID n) (IP n) (Port n) (sv_rt s1)\<rparr>) = Some srv'"
      using assms(3) due by (simp add: fire_def Let_def s1_def cong: option.case_cong)
    moreover have "server_ok (case tx_target tx of None \<Rightarrow> s1 | Some n \<Rightarrow> s1\<lparr>sv_rt := onTimeout (ID n) (IP n) (Port n) (sv_rt s1)\<rparr>)"
      using s1 len by (auto simp: server_ok_rt table_ok_ops server_ok_table split: option.split)
    ultimately show ?thesis using run_callback_ok by blast
  qed
qed

lemma timeout_loop_step:
  assumes "pick (sv_th srv) < length (sv_th srv)" "te_deadline (sv_th srv ! pick (sv_th srv)) \<le> now"
    and "fire now (sv_th srv ! pick (sv_th srv)) (srv\<lparr>sv_th := take (pick (sv_th srv)) (sv_th srv) @ drop (Suc (pick (sv_th srv))) (sv_th srv)\<rparr>) = Some srv'"
  shows "timeout_loop pick now srv = timeout_loop pick now srv'"
  using assms by (subst timeout_loop.simps) (simp add: Let_def)

lemma timeout_loop_stop:
  "\<not> (pick (sv_th srv) < length (sv_th srv) \<and> te_deadline (sv_th srv ! pick (sv_th srv)) \<le> now) \<Longrightarrow> timeout_loop pick now srv = Some srv"
  by (subst timeout_loop.simps) (simp only: Let_def if_False)

lemma timeout_loop_ok: "server_ok srv \<Longrightarrow> \<exists>srv'. timeout_loop pick now srv = Some srv' \<and> server_ok srv'"
proof (induction pick now srv rule: timeout_loop.induct)
  case (1 pick now srv)
  let ?es = "sv_th srv" and ?i = "pick (sv_th srv)"
  show ?case
  proof (cases "?i < length ?es \<and> te_deadline (?es ! ?i) \<le> now")
    case True
    let ?s = "srv\<lparr>sv_th := take ?i ?es @ drop (Suc ?i) ?es\<rparr>"
    obtain s' where s': "fire now (?es ! ?i) ?s = Some s'" using fire_frame [of now "?es ! ?i" ?s] by blast
    have "server_ok s'" using fire_ok [OF 1(2) _ s'] True by simp
    then show ?thesis using 1(1) [OF refl refl True, of s'] s' timeout_loop_step [where pick = pick and srv = srv, OF _ _ s'] True by simp
  qed (use 1(2) timeout_loop_stop in blast)
qed

lemma GetClosestNodes_ids:
  assumes "table_ok rt" "length x = 20" "GetClosestNodes x k rt = Some ns"
  shows "\<forall>n\<in>set ns. length (ID n) = 20"
proof -
  have t: "tree_ok (rt_localID rt) [] (root rt)" "length (rt_localID rt) = NodeIDLength" using assms(1) by (simp_all add: table_ok_def)
  have good: "length (rn_id n) = 20" if "tree_ok self pre tr" "n \<in> tree_good tr" for self pre tr n
    using that by (induction self pre tr rule: tree_ok.induct) (auto simp: bucket_ok_def goodNodes_def NodeIDLength_def)
  obtain ys where ys: "closest_rec (root rt) x = Some (goodNodes (findTreeNode (root rt) x) @ ys)" "set ys \<subseteq> tree_good (root rt)"
    using closest_rec_ok [OF t(1) _ _ t(2), of x] assms(2) by (auto simp: agrees_def NodeIDLength_def)
  have "set (goodNodes (findTreeNode tr x)) \<subseteq> tree_good tr" for tr by (induction tr) auto
  with ys good [OF t(1)] assms(3) show ?thesis
    by (fastforce simp: GetClosestNodes_def closest_unfold node_info_def dest!: in_set_takeD)
qed

lemma findNode_ok: "server_ok srv \<Longrightarrow> length (ID n) = 20 \<Longrightarrow> server_ok (findNode now random target n cb srv)"
  by (simp add: findNode_def sendQuery_ok)

lemma iterativeFindNode_ok:
  assumes "server_ok srv" "length target = 20"
  shows "\<exists>srv'. iterativeFindNode now randoms target srv = Some srv' \<and> server_ok srv'"
proof -
  obtain ns where ns: "GetClosestNodes target (int bucketK) (sv_rt srv) = Some ns"
    using GetClosestNodes_total [OF server_ok_table [OF assms(1)] assms(2)] by blast
  then have "\<forall>n\<in>set ns. length (ID n) = 20" using GetClosestNodes_ids [OF server_ok_table [OF assms(1)] assms(2)] by blast
  then have "\<forall>p\<in>set (List.enumerate 0 (take 3 ns)). length (ID (snd p)) = 20" by (auto simp: in_set_enumerate_eq dest: nth_mem in_set_takeD)
  moreover have "server_ok (fold (\<lambda>(i, n). findNode now (randoms i) target n CbFindNode) ps s)"
    if "\<forall>p\<in>set ps. length (ID (snd p)) = 20" "server_ok s" for ps s
    using that by (induction ps arbitrary: s) (auto simp: findNode_ok)
  ultimately have "server_ok (fold (\<lambda>(i, n). findNode now (randoms i) target n CbFindNode) (List.enumerate 0 (take 3 ns)) srv)"
    using assms(1) by blast
  with ns show ?thesis by (simp add: iterativeFindNode_def)
qed

lemma run_job_ok:
  assumes "server_ok srv"
  shows "\<exists>srv'. run_job now randoms srv = Some srv' \<and> server_ok srv'"
proof (cases "sv_jobs srv")
  case Nil
  then show ?thesis using assms by (simp add: run_job_def)
next
  case (Cons j js)
  then have "length j = 20" "\<forall>i\<in>set js. length i = 20" using assms by (auto simp: server_ok_def ids_ok_def)
  then show ?thesis
    using iterativeFindNode_ok [OF server_ok_jobs [OF assms, of js], of j] Cons by (simp add: run_job_def)
qed

lemma tree_ok_touch: "tree_ok self pre (touch_buckets now t) = tree_ok self pre t"
proof (induction self pre t rule: tree_ok.induct)
  case (2 self pre l r mn mx)
  have "is_leaf (touch_buckets now t) = is_leaf t" for t by (cases t) auto
  with 2 show ?case by simp
qed (auto simp: bucket_ok_def splitAllowed_def)

lemma tree_ok_buckets: "tree_ok self pre t \<Longrightarrow> b \<in> set (enumerateBuckets t) \<Longrightarrow> \<exists>p. bucket_ok self p b"
  by (induction self pre t rule: tree_ok.induct) auto

lemma length_randomNodeID: "bucket_ok self pre b \<Longrightarrow> length random = 20 \<Longrightarrow> length (randomNodeID random b) = 20"
  by (auto simp: randomNodeID_def bucket_ok_def range_of_def NodeIDLength_def Let_def)

lemma refreshBuckets_ok:
  assumes "server_ok srv" "\<And>i. length (randoms i) = 20"
  shows "server_ok (refreshBuckets now randoms srv)"
proof -
  define due where "due = filter (needsRefresh now) (enumerateBuckets (root (sv_rt srv)))"
  let ?jobs = "sv_jobs srv @ map (\<lambda>(i, b). randomNodeID (randoms i) b) (List.enumerate 0 due)"
  have t: "table_ok (sv_rt srv)" by (rule server_ok_table [OF assms(1)])
  then have "length (randomNodeID (randoms i) b) = 20" if "b \<in> set due" for i b
    using that tree_ok_buckets [of "rt_localID (sv_rt srv)" "[]"] length_randomNodeID assms(2) by (fastforce simp: table_ok_def due_def)
  then have "\<forall>j\<in>set ?jobs. length j = 20"
    using assms(1) by (auto simp: server_ok_def ids_ok_def in_set_enumerate_eq)
  moreover have "table_ok ((sv_rt srv)\<lparr>root := touch_buckets now (root (sv_rt srv))\<rparr>)"
    using t by (simp add: table_ok_def tree_ok_touch)
  ultimately show ?thesis
    unfolding refreshBuckets_def Let_def due_def by (intro server_ok_jobs server_ok_rt assms)
qed

text \<open>Node identifiers in arguments and random ones have 20 bytes.\<close>

fun event_ok :: "dht_event \<Rightarrow> bool" where
  "event_ok (EvRefresh now randoms) \<longleftrightarrow> (\<forall>i. length (randoms i) = 20)"
| "event_ok (EvBootstrap now random rid addr) \<longleftrightarrow> length rid = 20"
| "event_ok (EvObserve now random rid ip port) \<longleftrightarrow> length rid = 20"
| "event_ok (EvAsk now random ch ih n) \<longleftrightarrow> length (ID n) = 20"
| "event_ok (EvAnnounce now random order ch ih port n) \<longleftrightarrow> length (ID n) = 20"
| "event_ok (EvContinue now random ch ih port n) \<longleftrightarrow> length (ID n) = 20"
| "event_ok ev \<longleftrightarrow> True"

lemma announce_ok:
  assumes "server_ok srv" "length (ID n) = 20"
  shows "server_ok (fst (announce_node now random order ch ih port n srv))"
    and "server_ok (fst (announce_continue now random ch ih port n srv))"
  using assms by (simp_all add: announce_node_def announce_continue_def send_announce_def Let_def sendQuery_ok split: option.split)

lemma server_step_ok:
  assumes "server_ok srv" "event_ok ev" "server_step sha1 pick ev srv = Some srv'"
  shows "server_ok srv'"
  using assms
proof (cases ev)
  case (EvTimeouts now)
  then show ?thesis using assms timeout_loop_ok [OF assms(1), of pick now] by auto
next
  case (EvJob now randoms)
  then show ?thesis using assms run_job_ok [OF assms(1), of now randoms] by auto
next
  case EvSend
  have "ring_ok (sv_sendRB srv)" using assms(1) by (simp add: server_ok_def)
  then show ?thesis using assms EvSend dequeue_ok [of "sv_sendRB srv"] by (auto intro!: server_ok_ring split: option.splits)
qed (auto simp: readLoop_packet_def updateTokenSecret_def refreshBuckets_ok bootstrap_ping_def ObservePeerPort_def sendQuery_ok
      GetPeers_open_def GetPeers_query_def GetPeers_close_def announce_ok elim: handlePacket_ok split: if_splits option.splits)

lemma loaded_entries_ids: "load_entries k data = Inr (ns, rest) \<Longrightarrow> n \<in> set ns \<Longrightarrow> length (ID n) = 20"
  by (induction k arbitrary: data ns rest)
     (auto simp: pbind_eq_Inr get_bytes_def load_entry_def dhtFileNodeEntryLen_def Let_def split: if_splits option.splits)

lemma loaded_ids:
  assumes "loadRoutingTableFile file = Inr p"
  shows "length (pt_localID p) = 20" "\<forall>n\<in>set (pt_nodes p). length (ID n) = 20"
proof -
  have "length (pt_localID p) = 20 \<and> (\<forall>n\<in>set (pt_nodes p). length (ID n) = 20)" if "load_table data = Inr (p, rest)" for data rest
    using that loaded_entries_ids
    by (auto simp: load_table_def pbind_eq_Inr get_bytes_def dhtFileLocalRecordLen_def split: if_splits)
  then show "length (pt_localID p) = 20" "\<forall>n\<in>set (pt_nodes p). length (ID n) = 20"
    using assms by (auto simp: loadRoutingTableFile_def rbind_def split: option.splits sum.splits)
qed

lemma NewServer_ok:
  assumes "length cfgID = 20" "length rid = 20"
  shows "server_ok (NewServer now cfgID persist rid secret)"
proof -
  define p where "p = (case persist of
      None \<Rightarrow> \<lparr>pt_localID = replicate 20 0, pt_nodes = []\<rparr>
    | Some file \<Rightarrow> (case loadRoutingTableFile file of Inl _ \<Rightarrow> \<lparr>pt_localID = replicate 20 0, pt_nodes = []\<rparr> | Inr loaded \<Rightarrow> loaded))"
  have p: "length (pt_localID p) = 20" "\<forall>n\<in>set (pt_nodes p). length (ID n) = 20"
    using loaded_ids by (auto simp: p_def split: option.split sum.split)
  let ?s = "NewServer now cfgID persist rid secret"
  have nid: "length (sv_NodeID ?s) = 20" using assms p(1) by (simp add: NewServer_def Let_def flip: p_def)
  have "sv_rt ?s = fold (\<lambda>n rt. fst (AddNode now n rt)) (pt_nodes p) (NewRoutingTable now (sv_NodeID ?s))"
    by (simp add: NewServer_def Let_def flip: p_def)
  then have "table_ok (sv_rt ?s)" using add_nodes_ok [OF NewRoutingTable_ok p(2)] nid by (simp add: NodeIDLength_def)
  with nid show ?thesis by (simp add: server_ok_def timers_ok_def ids_ok_def) (simp add: NewServer_def Let_def)
qed

section \<open>Panics\<close>

lemma chan_send_panic: "chan_send ch ps srv = None \<Longrightarrow> \<exists>c. sv_lookups srv ch = Some c \<and> ch_closed c"
  by (auto simp: chan_send_def split: option.splits if_splits)

lemma run_callback_panic:
  assumes "run_callback now cb reply srv = None"
  shows "\<exists>ih addr ch c. cb = CbGetPeers ih addr ch \<and> sv_lookups srv ch = Some c \<and> ch_closed c"
proof (cases cb)
  case (CbGetPeers ih addr ch)
  then show ?thesis using assms
    by (auto simp: got_peers_def Let_def storePeerToken_def split: option.splits if_splits dest!: chan_send_panic)
qed (use assms in \<open>auto simp: Let_def split: option.splits if_splits\<close>)

lemma handleResponse_panic:
  assumes "handleResponse now msg remote srv = None"
  shows "\<exists>tx ih addr ch c. sv_txs srv (makeTrackingKey (km_T msg) remote) = Some tx \<and> tx_callback tx = CbGetPeers ih addr ch
    \<and> sv_lookups srv ch = Some c \<and> ch_closed c"
  using assms by (auto simp: handleResponse_def Let_def split: option.splits if_splits dest!: run_callback_panic)

lemma Unmarshal_query_args: "krpc_Unmarshal data = Some (Inr msg) \<Longrightarrow> km_Y msg = ''q'' \<Longrightarrow> km_A msg \<noteq> None"
  by (auto simp: krpc_Unmarshal_def message_of_def Let_def rbind_def split: option.splits sum.splits Value.splits if_splits)

lemma handlers_return:
  assumes "server_ok srv" "length (ID remote) = 20"
  shows "handleFindNode now t a remote srv \<noteq> None" "handleGetPeers sha1 now t a remote srv \<noteq> None"
proof -
  have t: "table_ok (sv_rt (add_good now remote srv))" using add_good_ok [OF assms] by (rule server_ok_table)
  show "handleFindNode now t a remote srv \<noteq> None" "handleGetPeers sha1 now t a remote srv \<noteq> None"
    using GetClosestNodes_total [OF t]
    by (auto simp: handleFindNode_def handleGetPeers_def Let_def NodeIDLength_def split: option.split Value.split)
qed

lemma handlePacket_panic:
  assumes "server_ok srv" "handlePacket sha1 now data remote srv = None"
  shows "krpc_Unmarshal data = Some (Inl (KDecode BePanic)) \<or>
    (\<exists>msg tx ih addr ch c. krpc_Unmarshal data = Some (Inr msg) \<and> sv_txs srv (makeTrackingKey (km_T msg) remote) = Some tx
       \<and> tx_callback tx = CbGetPeers ih addr ch \<and> sv_lookups srv ch = Some c \<and> ch_closed c)"
proof -
  have total: "krpc_Unmarshal data \<noteq> None"
    using beDecode_total [of data] by (auto simp: krpc_Unmarshal_def split: option.splits sum.splits Value.splits)
  have "handleQuery sha1 now msg remote srv \<noteq> None" if "krpc_Unmarshal data = Some (Inr msg)" "km_Y msg = ''q''" for msg
    using Unmarshal_query_args [OF that] handlers_return [OF assms(1)] by (auto simp: handleQuery_def Let_def)
  moreover obtain res where "krpc_Unmarshal data = Some res" using total by blast
  ultimately show ?thesis
    using assms(2) handleResponse_panic [of now _ remote srv] by (cases res) (auto simp: handlePacket_def split: if_splits)
qed

lemma server_run_ok:
  "server_run sha1 pick evs s = Some srv \<Longrightarrow> server_ok s \<Longrightarrow> \<forall>ev\<in>set evs. event_ok ev \<Longrightarrow> server_ok srv"
proof (induction evs arbitrary: s)
  case (Cons ev evs)
  then obtain s' where "server_step sha1 pick ev s = Some s'" "server_run sha1 pick evs s' = Some srv" by (cases "server_step sha1 pick ev s") auto
  with Cons show ?case using server_step_ok [of s ev sha1 pick s'] by simp
qed simp

lemma only_packets_panic:
  assumes "server_ok srv" "server_step sha1 pick ev srv = None"
  shows "\<exists>now data remote. ev = EvPacket now data remote \<and> handlePacket sha1 now data remote srv = None"
proof -
  have returns: "timeout_loop pick t srv \<noteq> None" "run_job t r srv \<noteq> None" for t r
    using timeout_loop_ok [OF assms(1), of pick t] run_job_ok [OF assms(1), of t r] by auto
  show ?thesis
  proof (cases ev)
    case (EvPacket now data remote)
    then show ?thesis using assms(2) by (simp add: readLoop_packet_def split: if_splits)
  qed (use assms(2) returns in simp_all)
qed

section \<open>Properties\<close>


text \<open>The root of a heap has the least deadline.\<close>

definition heap_root :: "(timeoutEntry list \<Rightarrow> nat) \<Rightarrow> bool" where
  "heap_root pick \<longleftrightarrow> (\<forall>es. es \<noteq> [] \<longrightarrow> pick es < length es \<and> (\<forall>e\<in>set es. te_deadline (es ! pick es) \<le> te_deadline e))"

lemma timeout_loop_clears:
  assumes "heap_root pick"
  shows "timeout_loop pick now srv = Some srv' \<Longrightarrow> (\<forall>e\<in>set (sv_th srv'). now < te_deadline e) \<and> sv_txs srv' \<subseteq>\<^sub>m sv_txs srv"
  using assms
proof (induction pick now srv rule: timeout_loop.induct)
  case (1 pick now srv)
  let ?es = "sv_th srv" and ?i = "pick (sv_th srv)"
  show ?case
  proof (cases "?i < length ?es \<and> te_deadline (?es ! ?i) \<le> now")
    case True
    let ?s = "srv\<lparr>sv_th := take ?i ?es @ drop (Suc ?i) ?es\<rparr>"
    obtain s' where s': "fire now (?es ! ?i) ?s = Some s'"
      "sv_txs s' = (if te_cancelled (?es ! ?i) then sv_txs ?s else (sv_txs ?s)(te_key (?es ! ?i) := None))"
      using fire_frame [of now "?es ! ?i" ?s] by blast
    have "sv_txs s' \<subseteq>\<^sub>m sv_txs srv" using s'(2) by (auto simp: map_le_def)
    moreover have "(\<forall>e\<in>set (sv_th srv'). now < te_deadline e) \<and> sv_txs srv' \<subseteq>\<^sub>m sv_txs s'"
      using 1(1) [OF refl refl True, of s'] s'(1) 1(2,3) timeout_loop_step [where pick = pick and srv = srv, OF _ _ s'(1)] True by simp
    ultimately show ?thesis by (meson map_le_trans)
  next
    case False
    then have "srv' = srv" using 1(2) timeout_loop_stop [of pick srv now] by simp
    moreover have "now < te_deadline e" if "e \<in> set ?es" for e
    proof -
      have "?es \<noteq> []" using that by auto
      then have "?i < length ?es" "te_deadline (?es ! ?i) \<le> te_deadline e" using 1(3) that by (simp_all add: heap_root_def)
      then show ?thesis using False by linarith
    qed
    ultimately show ?thesis by simp
  qed
qed

text \<open>(C27) Queries are given up in time. When the timeout loop runs, it ends, without a panic, and no query is left whose ten seconds are over;
  it forgets queries and adds none.\<close>

theorem due_queries_time_out:
  assumes "heap_root pick" "server_ok srv"
  shows "\<exists>srv'. timeout_loop pick now srv = Some srv' \<and> server_ok srv'
    \<and> (\<forall>k tx. sv_txs srv' k = Some tx \<longrightarrow> now < tx_deadline tx \<and> sv_txs srv k = Some tx)"
proof -
  obtain srv' where s: "timeout_loop pick now srv = Some srv'" "server_ok srv'" using timeout_loop_ok [OF assms(2)] by blast
  then have "\<forall>k tx. sv_txs srv' k = Some tx \<longrightarrow> live_timer srv' k tx" by (simp add: server_ok_def timers_ok_def)
  with s timeout_loop_clears [OF assms(1) s(1)] show ?thesis
    unfolding live_timer_def map_le_def by (metis domI)
qed

section \<open>Announced peers\<close>

text \<open>The token source separates info hashes, addresses, ports and secrets.\<close>

lemma token_source_inj:
  assumes "length a = 4" "length b = 4" "length h = 20" "length h' = 20"
    and "token_source h (ip_String a) p s = token_source h' (ip_String b) p' s'"
  shows "h = h' \<and> a = b \<and> p = p' \<and> s = s'"
proof -
  have "h @ a @ replicate 12 0 @ PutUint16 p @ s = h' @ b @ replicate 12 0 @ PutUint16 p' @ s'"
    using assms by (simp add: token_source_def ip_String_v4 ParseIPv4_dotted)
  then have "h = h'" "a = b" "PutUint16 p @ s = PutUint16 p' @ s'" using assms by (simp_all add: append_eq_append_conv)
  moreover from this(3) have "PutUint16 p = PutUint16 p'" "s = s'" by (simp_all add: append_eq_append_conv)
  moreover from this(1) have "p = p'" using Uint16_Put [of p "[]"] Uint16_Put [of p' "[]"] by simp
  ultimately show ?thesis by simp
qed

text \<open>Everything but an accepted announce leaves the announced peers and, but for \<open>updateTokenSecret\<close>, the secrets alone.\<close>

lemma peers_sending [simp]:
  "sv_peers (sendResponse t r addr srv) = sv_peers srv" "sv_peers (sendError t code text addr srv) = sv_peers srv"
  "sv_peers (add_good now n srv) = sv_peers srv" "sv_secrets (add_good now n srv) = sv_secrets srv"
  "sv_peers (add_found_nodes now ns srv) = sv_peers srv"
  "sv_peers (storePeerToken ih ip port tok srv) = sv_peers srv"
  by (simp_all add: sendResponse_def sendError_def send_reply_def put_request_eq add_good_def add_found_nodes_def storePeerToken_def split: sum.split)

lemma peers_sendQuery [simp]: "sv_peers (fst (sendQuery now random meth addr targetID extra cb srv)) = sv_peers srv"
  by (simp add: sendQuery_def Let_def put_request_eq split: sum.split)

lemma peers_chan_send: "chan_send ch ps srv = Some srv' \<Longrightarrow> sv_peers srv' = sv_peers srv"
  by (auto simp: chan_send_def split: option.splits if_splits)

lemma peers_run_callback: "run_callback now cb reply srv = Some srv' \<Longrightarrow> sv_peers srv' = sv_peers srv"
  by (cases cb) (auto simp: got_peers_def Let_def dest!: peers_chan_send split: option.splits if_splits)

lemma peers_handleResponse: "handleResponse now msg remote srv = Some srv' \<Longrightarrow> sv_peers srv' = sv_peers srv"
  by (auto simp: handleResponse_def Let_def dest!: peers_run_callback split: option.splits if_splits)

lemma peers_handlers:
  "sv_peers (handlePing now t n srv) = sv_peers srv"
  "handleFindNode now t a n srv = Some srv' \<Longrightarrow> sv_peers srv' = sv_peers srv"
  "handleGetPeers sha1 now t a n srv = Some srv' \<Longrightarrow> sv_peers srv' = sv_peers srv"
  by (auto simp: handlePing_def handleFindNode_def handleGetPeers_def Let_def split: option.splits Value.splits if_splits)

lemma peers_fire: "fire now e srv = Some srv' \<Longrightarrow> sv_peers srv' = sv_peers srv"
  by (auto simp: fire_def Let_def dest!: peers_run_callback split: option.splits if_splits)

lemma peers_timeout_loop: "timeout_loop pick now srv = Some srv' \<Longrightarrow> sv_peers srv' = sv_peers srv"
proof (induction pick now srv rule: timeout_loop.induct)
  case (1 pick now srv)
  let ?es = "sv_th srv" and ?i = "pick (sv_th srv)"
  show ?case
  proof (cases "?i < length ?es \<and> te_deadline (?es ! ?i) \<le> now")
    case True
    let ?s = "srv\<lparr>sv_th := take ?i ?es @ drop (Suc ?i) ?es\<rparr>"
    obtain s' where s': "fire now (?es ! ?i) ?s = Some s'" using fire_frame [of now "?es ! ?i" ?s] by blast
    then show ?thesis
      using 1(1) [OF refl refl True, of s'] 1(2) peers_fire [OF s'] timeout_loop_step [where pick = pick and srv = srv, OF _ _ s'] True by simp
  qed (use 1(2) timeout_loop_stop in fastforce)
qed

lemma peers_run_job:
  assumes "run_job now randoms srv = Some srv'"
  shows "sv_peers srv' = sv_peers srv"
proof -
  have "sv_peers (fold (\<lambda>(i, n). findNode now (randoms i) target n CbFindNode) ps s) = sv_peers s" for ps s target
    by (induction ps arbitrary: s) (auto simp: findNode_def)
  with assms show ?thesis by (auto simp: run_job_def iterativeFindNode_def split: list.splits)
qed

lemma announce_stores:
  assumes "a \<in> set (sv_peers (handleAnnouncePeer sha1 now t args n srv) ih)" "a \<notin> set (sv_peers srv ih)"
  shows "\<exists>tok. Get args ''info_hash'' = Some (StringVal (bytes_text ih)) \<and> Get args ''token'' = Some (StringVal tok)
    \<and> validateToken sha1 tok ih (ip_String (IP n)) (Port n) srv \<and> ua_IP a = IP n \<and> ua_Port a = announce_port args (node_addr n) \<and> ua_Port a \<noteq> 0"
  using assms
  by (auto simp: handleAnnouncePeer_def Let_def node_addr_def validateToken_def split: option.splits Value.splits if_splits)

lemma length_ipTo4 [simp]: "length (ipTo4 ip) = 4"
  by (auto simp: ipTo4_def To4_def split: option.split if_splits)

text \<open>(C28) Only holders of a token are stored. Whatever step a node makes, an address becomes a peer of an info hash only through an announce
  query that came from that very address and carries the SHA-1 of the info hash, the sender's address and port, and the current or the previous secret of
  this node: a token which the node gives out only in answers to that address.\<close>

theorem announce_needs_token:
  assumes "server_step sha1 pick ev srv = Some srv'" "a \<in> set (sv_peers srv' ih)" "a \<notin> set (sv_peers srv ih)"
  shows "\<exists>now data remote msg args secret. ev = EvPacket now data remote \<and> krpc_Unmarshal data = Some (Inr msg)
    \<and> km_Q msg = ''announce_peer'' \<and> km_A msg = Some args \<and> Get args ''info_hash'' = Some (StringVal (bytes_text ih))
    \<and> Get args ''token'' = Some (StringVal (bytes_text
        (sha1 (ih @ ipTo4 (ua_IP remote) @ replicate 12 0 @ PutUint16 (of_int (ua_Port remote)) @ secret))))
    \<and> secret \<in> {fst (sv_secrets srv), snd (sv_secrets srv)} \<and> ua_IP a = ipTo4 (ua_IP remote) \<and> ua_Port a \<noteq> 0"
proof -
  have changed: "sv_peers srv' \<noteq> sv_peers srv" using assms(2,3) by auto
  obtain now data remote where ev: "ev = EvPacket now data remote"
  proof (cases ev)
    case (EvTimeouts now)
    then show ?thesis using assms(1) changed peers_timeout_loop by simp
  next
    case (EvJob now randoms)
    then show ?thesis using assms(1) changed peers_run_job by simp
  qed (use assms(1) changed in \<open>auto simp: updateTokenSecret_def refreshBuckets_def bootstrap_ping_def ObservePeerPort_def GetPeers_open_def
      GetPeers_query_def GetPeers_close_def announce_node_def announce_continue_def send_announce_def Let_def split: option.splits if_splits\<close>)
  then have p: "handlePacket sha1 now data remote srv = Some srv'" using assms(1) changed by (auto simp: readLoop_packet_def split: if_splits)
  let ?n = "\<lambda>msg. \<lparr>ID = extractNodeID msg, IP = ipTo4 (ua_IP remote), Port = of_int (ua_Port remote)\<rparr> :: NodeInfo"
  obtain msg where msg: "krpc_Unmarshal data = Some (Inr msg)" "handleQuery sha1 now msg remote srv = Some srv'"
    using p changed by (auto simp: handlePacket_def dest: peers_handleResponse split: option.splits sum.splits if_splits)
  obtain args where args: "km_Q msg = ''announce_peer''" "km_A msg = Some args"
      "srv' = handleAnnouncePeer sha1 now (km_T msg) args (?n msg) srv"
    using msg(2) changed
    by (auto simp: handleQuery_def Let_def peers_handlers(1) dest: peers_handlers(2,3) split: option.splits if_splits)
  from announce_stores [OF assms(2,3) [unfolded args(3)]]
  obtain tok where tok: "Get args ''info_hash'' = Some (StringVal (bytes_text ih))" "Get args ''token'' = Some (StringVal tok)"
    "validateToken sha1 tok ih (ip_String (ipTo4 (ua_IP remote))) (of_int (ua_Port remote)) srv" "ua_IP a = ipTo4 (ua_IP remote)" "ua_Port a \<noteq> 0"
    by auto
  have "token_source ih (ip_String (ipTo4 (ua_IP remote))) q s = ih @ ipTo4 (ua_IP remote) @ replicate 12 0 @ PutUint16 q @ s" for q s
    by (simp add: token_source_def ip_String_v4 ParseIPv4_dotted)
  with tok(3) obtain secret where "secret \<in> {fst (sv_secrets srv), snd (sv_secrets srv)}"
    "tok = bytes_text (sha1 (ih @ ipTo4 (ua_IP remote) @ replicate 12 0 @ PutUint16 (of_int (ua_Port remote)) @ secret))"
    by (auto simp: validateToken_def generateTokenWithSecret_def)
  with ev msg(1) args(1,2) tok show ?thesis by blast
qed

text \<open>Conversely, the token of an earlier answer is accepted as long as its secret is the current or the previous one, and the peer
  is known from then on.\<close>

lemma announced_peer_stored:
  assumes "Get args ''info_hash'' = Some (StringVal (bytes_text ih))" "length ih = 20"
    and "Get args ''token'' = Some (StringVal (generateToken sha1 ih (ip_String (IP n)) (Port n) earlier))"
    and "fst (sv_secrets earlier) \<in> {fst (sv_secrets srv), snd (sv_secrets srv)}"
    and "announce_port args (node_addr n) \<noteq> 0"
  shows "\<exists>p\<in>set (sv_peers (handleAnnouncePeer sha1 now t args n srv) ih).
    addr_String p = addr_String \<lparr>ua_IP = IP n, ua_Port = announce_port args (node_addr n)\<rparr>"
proof -
  have "validateToken sha1 (generateToken sha1 ih (ip_String (IP n)) (Port n) earlier) ih (ip_String (IP n)) (Port n) (add_good now n srv)"
    using assms(4) by (auto simp: validateToken_def generateToken_def)
  then show ?thesis
    using assms by (auto simp: handleAnnouncePeer_def Let_def node_addr_def list_ex_iff)
qed

lemma secret_lasts_one_change: "fst (sv_secrets srv) \<in> {fst (sv_secrets (updateTokenSecret random srv)), snd (sv_secrets (updateTokenSecret random srv))}"
  by (simp add: updateTokenSecret_def)

section \<open>Examples\<close>

fun first_min :: "timeoutEntry list \<Rightarrow> nat" where
  "first_min [] = 0"
| "first_min (e # es) = (if es \<noteq> [] \<and> te_deadline (es ! first_min es) < te_deadline e then Suc (first_min es) else 0)"

lemma heap_root_first_min: "heap_root first_min"
proof -
  have "es \<noteq> [] \<Longrightarrow> first_min es < length es \<and> (\<forall>e\<in>set es. te_deadline (es ! first_min es) \<le> te_deadline e)" for es
    by (induction es) fastforce+
  then show ?thesis by (simp add: heap_root_def)
qed

definition sample_server :: dhtServer where
  "sample_server = NewServer 0 (replicate 20 1) None (replicate 20 2) [1, 2, 3, 4]"

definition sample_addr :: udpAddr where
  "sample_addr = \<lparr>ua_IP = [10, 0, 0, 9], ua_Port = 80\<rparr>"

definition packet_text :: "krpcMessage \<Rightarrow> string" where
  "packet_text m = (case MarshalTo m of Inl _ \<Rightarrow> [] | Inr data \<Rightarrow> data)"

definition sample_announce :: string where
  "sample_announce = packet_text ((NewQuery ''announce_peer'' (Some [(''id'', StringVal (replicate 20 (CHR ''x''))),
     (''info_hash'', StringVal (replicate 20 (CHR ''h''))), (''port'', IntVal 99), (''token'', StringVal ''t'')]))\<lparr>km_T := ''aa''\<rparr>)"

definition toy_sha1 :: "byte list \<Rightarrow> byte list" where
  "toy_sha1 data = [116]"

lemma sample_server_ok: "server_ok sample_server"
  unfolding sample_server_def by (rule NewServer_ok) simp_all


lemma due_queries_time_out_witness:
  "\<exists>srv. timeout_loop first_min 20000000000 (bootstrap_ping 0 [1, 2, 3, 4] (replicate 20 5) sample_addr sample_server) = Some srv
     \<and> sv_txs srv ''01020304:10.0.0.9:80'' = None"
proof -
  let ?s = "bootstrap_ping 0 [1, 2, 3, 4] (replicate 20 5) sample_addr sample_server"
  have "server_ok ?s" using sendQuery_ok [OF sample_server_ok] by (simp add: bootstrap_ping_def)
  from due_queries_time_out [OF heap_root_first_min this, of 20000000000] obtain srv where
    s: "timeout_loop first_min 20000000000 ?s = Some srv" "\<forall>k tx. sv_txs srv k = Some tx \<longrightarrow> 20000000000 < tx_deadline tx \<and> sv_txs ?s k = Some tx"
    by blast
  have "map_option tx_deadline (sv_txs ?s ''01020304:10.0.0.9:80'') = Some 10000000000" by code_simp
  then have "sv_txs srv ''01020304:10.0.0.9:80'' = None"
    using s(2) [rule_format, of "''01020304:10.0.0.9:80''"] by (cases "sv_txs srv ''01020304:10.0.0.9:80''") auto
  with s(1) show ?thesis by blast
qed

definition announced :: udpAddr where
  "announced = \<lparr>ua_IP = [10, 0, 0, 9], ua_Port = 99\<rparr>"

lemma announce_needs_token_witness:
  "\<exists>msg args. krpc_Unmarshal sample_announce = Some (Inr msg) \<and> km_A msg = Some args
     \<and> Get args ''token'' = Some (StringVal (bytes_text (toy_sha1 [])))"
proof -
  let ?s = "the (server_step toy_sha1 first_min (EvPacket 0 sample_announce sample_addr) sample_server)"
  have "server_step toy_sha1 first_min (EvPacket 0 sample_announce sample_addr) sample_server \<noteq> None" by code_simp
  then have "server_step toy_sha1 first_min (EvPacket 0 sample_announce sample_addr) sample_server = Some ?s" by auto
  moreover have "sv_peers ?s (replicate 20 104) = [announced]" by code_simp
  moreover have "sv_peers sample_server (replicate 20 104) = []" by code_simp
  ultimately show ?thesis
    using announce_needs_token [of toy_sha1 first_min "EvPacket 0 sample_announce sample_addr" sample_server ?s announced "replicate 20 104"]
    by (auto simp: toy_sha1_def)
qed

text \<open>The channel of a lookup is closed as soon as its queries have been sent: an answer with peers that comes later, and a real one always
  does, panics.\<close>

lemma lookup_answer_panics:
  "server_run toy_sha1 first_min
     [EvOpen 0 (replicate 20 9), EvAsk 0 [1, 2, 3, 4] 0 (replicate 20 9) ((sample_node 9)\<lparr>Port := 80\<rparr>), EvClose 0,
      EvPacket 1 (packet_text (NewResponse ''01020304''
        (Some [(''id'', StringVal (replicate 20 (CHR ''x''))), (''values'', StringVal ''abcdef'')]))) sample_addr] sample_server = None"
  by code_simp

end
