(* ===== verification/SessionFile.thy ===== *)
theory SessionFile
  imports Core Strings ConfigTable "HOL-Library.AList"
begin

text \<open>
  Session files, \<open>src/internal/sessionfile\<close>: the text format in which unfinished downloads are kept.
  A file is a string, and \<open>io.Writer\<close> the concatenation of what is written; write errors, the gzip
  form and the renaming of the temporary file are left out. A Go map of options is an association
  list read with \<open>map_of\<close>. The scanner of \<open>bufio\<close> splits at newlines, drops a carriage return at the
  end of a line and fails at a line of a megabyte.

  Shown: what is written for a list of downloads reads back as these downloads.
\<close>

section \<open>Entries\<close>

record Entry =
  URIs :: "string list"
  entry_GID :: GID
  entry_Status :: Status
  Options :: "(string \<times> string) list"
  Unknown :: "(string \<times> string) list"
  UnknownOrder :: "(string \<times> string) list"

definition canonical_1 :: "string list" where
  "canonical_1 =
     [''timeout'', ''dns-timeout'', ''connect-timeout'', ''max-tries'', ''auto-save-interval'', ''log'',
      ''dir'', ''out'', ''split'', ''daemon'', ''referer'', ''lowest-speed-limit'', ''piece-length'',
      ''max-overall-download-limit'', ''max-download-limit'', ''startup-idle-time'', ''file-allocation'',
      ''no-file-allocation-limit'', ''allow-overwrite'', ''realtime-chunk-checksum'', ''check-integrity'',
      ''netrc-path'', ''continue'', ''no-netrc'', ''max-downloads'', ''input-file'', ''deferred-input'',
      ''max-concurrent-downloads'', ''optimize-concurrent-downloads'',
      ''optimize-concurrent-downloads-coeffA'', ''optimize-concurrent-downloads-coeffB'',
      ''force-sequential'', ''auto-file-renaming'', ''parameterized-uri'', ''allow-piece-length-change'',
      ''no-conf'', ''conf-path'', ''stop'', ''quiet'', ''async-dns'', ''summary-interval'', ''log-level'',
      ''console-log-level'', ''uri-selector'', ''server-stat-timeout'', ''server-stat-if'',
      ''server-stat-of'', ''remote-time'', ''max-file-not-found'', ''event-poll'', ''enable-rpc'',
      ''rpc-listen-port'', ''rpc-user'', ''rpc-passwd'', ''rpc-max-request-size'', ''rpc-listen-all'',
      ''rpc-allow-origin-all'', ''rpc-certificate'', ''rpc-private-key'', ''rpc-secure'',
      ''rpc-save-upload-metadata'', ''dry-run'', ''reuse-uri'', ''on-download-start'',
      ''on-download-pause'', ''on-download-stop'', ''on-download-complete'', ''on-download-error'',
      ''interface'', ''multiple-interface'', ''disable-ipv6'', ''human-readable'', ''remove-control-file'',
      ''always-resume'', ''max-resume-failure-tries'', ''save-session'', ''max-connection-per-server'',
      ''min-split-size'', ''conditional-get'', ''select-least-used-host'', ''enable-async-dns6'',
      ''max-download-result'', ''retry-wait'', ''async-dns-server'', ''show-console-readout'',
      ''stream-piece-selector'', ''truncate-console-readout'', ''pause'', ''download-result'',
      ''hash-check-only'', ''checksum'', ''stop-with-process'', ''enable-mmap'', ''force-save'',
      ''save-not-found'', ''disk-cache'', ''gid'', ''save-session-interval'', ''enable-color'',
      ''rpc-secret'', ''dscp'', ''pause-metadata'', ''rlimit-nofile'', ''min-tls-version'',
      ''socket-recv-buffer-size'', ''max-mmap-limit'', ''stderr'', ''keep-unfinished-download-result'',
      ''ftp-user'', ''ftp-passwd'', ''ftp-type'', ''ftp-pasv'', ''ftp-reuse-connection'']"

definition canonical_2 :: "string list" where
  "canonical_2 =
     [''ssh-host-key-md'', ''http-user'', ''http-passwd'', ''user-agent'', ''load-cookies'',
      ''save-cookies'', ''enable-http-keep-alive'', ''enable-http-pipelining'', ''max-http-pipelining'',
      ''header'', ''certificate'', ''private-key'', ''ca-certificate'', ''check-certificate'', ''use-head'',
      ''http-auth-challenge'', ''http-no-cache'', ''http-accept-gzip'',
      ''content-disposition-default-utf8'', ''no-want-digest-header'', ''http-proxy'', ''https-proxy'',
      ''ftp-proxy'', ''all-proxy'', ''no-proxy'', ''proxy-method'', ''http-proxy-user'',
      ''http-proxy-passwd'', ''https-proxy-user'', ''https-proxy-passwd'', ''ftp-proxy-user'',
      ''ftp-proxy-passwd'', ''all-proxy-user'', ''all-proxy-passwd'', ''peer-connection-timeout'',
      ''bt-timeout'', ''bt-request-timeout'', ''show-files'', ''max-overall-upload-limit'',
      ''max-upload-limit'', ''torrent-file'', ''listen-port'', ''follow-torrent'', ''select-file'',
      ''seed-time'', ''seed-ratio'', ''bt-keep-alive-interval'', ''peer-id-prefix'', ''peer-agent'',
      ''enable-peer-exchange'', ''enable-dht'', ''dht-listen-addr'', ''dht-listen-port'',
      ''dht-entry-point-host'', ''dht-entry-point-port'', ''dht-entry-point'', ''dht-file-path'',
      ''enable-dht6'', ''dht-listen-addr6'', ''dht-entry-point-host6'', ''dht-entry-point-port6'',
      ''dht-entry-point6'', ''dht-file-path6'', ''bt-min-crypto-level'', ''bt-require-crypto'',
      ''bt-request-peer-speed-limit'', ''bt-max-open-files'', ''bt-seed-unverified'',
      ''bt-hash-check-seed'', ''bt-max-peers'', ''bt-external-ip'', ''index-out'', ''bt-tracker-interval'',
      ''bt-stop-timeout'', ''bt-prioritize-piece'', ''bt-save-metadata'', ''bt-metadata-only'',
      ''bt-enable-lpd'', ''bt-lpd-interface'', ''bt-tracker-timeout'', ''bt-tracker-connect-timeout'',
      ''dht-message-timeout'', ''on-bt-download-complete'', ''bt-tracker'', ''bt-exclude-tracker'',
      ''bt-remove-unselected-file'', ''bt-detach-seed-only'', ''bt-force-encryption'',
      ''bt-enable-hook-after-hash-check'', ''bt-load-saved-metadata'', ''metalink-file'',
      ''metalink-version'', ''metalink-language'', ''metalink-os'', ''metalink-location'',
      ''follow-metalink'', ''metalink-preferred-protocol'', ''metalink-enable-unique-protocol'',
      ''metalink-base-uri'']"

definition canonicalKeyOrder :: "string list" where
  "canonicalKeyOrder = canonical_1 @ canonical_2"

definition knownKeys :: "string \<Rightarrow> bool" where
  "knownKeys key \<longleftrightarrow> key \<in> set canonicalKeyOrder"

definition cumulativeKeys :: "string \<Rightarrow> bool" where
  "cumulativeKeys key \<longleftrightarrow>
     key \<in> {''header'', ''bt-tracker'', ''bt-exclude-tracker'', ''dht-entry-point'', ''dht-entry-point6'', ''index-out''}"

definition ShouldSave :: "Status \<Rightarrow> bool" where
  "ShouldSave status \<longleftrightarrow> status \<notin> {StatusComplete, StatusError, StatusRemoved}"

definition HasAnyURI :: "Entry \<Rightarrow> bool" where
  "HasAnyURI entry \<longleftrightarrow> 0 < length (URIs entry)"

definition DedupURIs :: "string list \<Rightarrow> string list \<Rightarrow> string list \<times> string list" where
  "DedupURIs uris spent = (filter (\<lambda>u. u \<notin> set spent) uris, spent)"

section \<open>Strings\<close>

abbreviation newline :: char where
  "newline \<equiv> CHR 0x0A"

abbreviation tab :: char where
  "tab \<equiv> CHR 0x09"

section \<open>Writing\<close>

definition writeOptionLine :: "string \<Rightarrow> string \<Rightarrow> string" where
  "writeOptionLine key val = '' '' @ key @ ''='' @ val @ [newline]"

definition splitOptionValues :: "string \<Rightarrow> string list" where
  "splitOptionValues val = (if val = [] then [] else filter (\<lambda>line. line \<noteq> []) (Split newline val))"

definition splitPreservedValues :: "string \<Rightarrow> string list" where
  "splitPreservedValues val = Split newline val"

text \<open>The lines of the known options, in canonical order.\<close>

definition known_lines :: "Entry \<Rightarrow> string" where
  "known_lines e =
     concat (map (\<lambda>key.
       if key \<in> {''gid'', ''pause''} then []
       else case map_of (Options e) key of
              None \<Rightarrow> []
            | Some val \<Rightarrow>
                if cumulativeKeys key then concat (map (writeOptionLine key) (splitOptionValues val))
                else writeOptionLine key val) canonicalKeyOrder)"

text \<open>Whether the ordered lines say the same as the map of unknown options.\<close>

definition values_of :: "string \<Rightarrow> (string \<times> string) list \<Rightarrow> string list" where
  "values_of key ls = map snd (filter (\<lambda>(k, v). k = key) ls)"

definition order_agrees :: "Entry \<Rightarrow> bool" where
  "order_agrees e \<longleftrightarrow>
     list_all (\<lambda>(key, val). (case map_of (Unknown e) key of None \<Rightarrow> [] | Some v \<Rightarrow> v) =
        Join newline (values_of key (UnknownOrder e))) (UnknownOrder e)"

text \<open>The lines of the unknown options. \<open>written\<close> are the keys that are out already.\<close>

definition unknown_lines :: "Entry \<Rightarrow> string" where
  "unknown_lines e =
     (let written = (\<lambda>key. key \<in> {''gid'', ''pause''} \<or> key \<in> set canonicalKeyOrder \<and> map_of (Options e) key \<noteq> None);
          ordered = (UnknownOrder e \<noteq> [] \<and> order_agrees e);
          out = (if ordered
                 then concat (map (\<lambda>(key, val). writeOptionLine key val)
                   (filter (\<lambda>(key, val). \<not> written key \<and> map_of (Unknown e) key \<noteq> None) (UnknownOrder e)))
                 else []);
          written = (\<lambda>key. written key \<or> ordered \<and> key \<in> fst ` set (UnknownOrder e));
          unknownKeys = sort (filter (\<lambda>key. \<not> written key) (remdups (map fst (Unknown e))))
      in out @ concat (map (\<lambda>key. concat (map (writeOptionLine key) (splitPreservedValues (the (map_of (Unknown e) key)))))
                 unknownKeys))"

definition writeEntry :: "Entry \<Rightarrow> string" where
  "writeEntry e =
     (if URIs e = [] then []
      else concat (map (\<lambda>uri. uri @ [tab]) (URIs e)) @ [newline] @
           writeOptionLine ''gid'' (Hex (entry_GID e)) @
           (if entry_Status e = StatusPaused then writeOptionLine ''pause'' ''true'' else []) @
           known_lines e @ unknown_lines e)"

definition writeEntries :: "Entry list \<Rightarrow> string" where
  "writeEntries entries = concat (map writeEntry entries)"

section \<open>Reading\<close>

definition parserBufferSize :: nat where
  "parserBufferSize = 1048576"

definition drop_cr :: "string \<Rightarrow> string" where
  "drop_cr line = (if line \<noteq> [] \<and> last line = CHR 0x0D then butlast line else line)"

text \<open>The lines the scanner delivers and whether it fails after them; \<open>acc\<close> is the current line,
  reversed.\<close>

fun scan :: "string \<Rightarrow> string \<Rightarrow> string list \<times> bool" where
  "scan acc [] =
     (if acc = [] then ([], False)
      else if parserBufferSize \<le> length acc then ([], True) else ([drop_cr (rev acc)], False))"
| "scan acc (c # cs) =
     (if c = newline then
        if parserBufferSize \<le> length acc then ([], True)
        else let (ls, failed) = scan [] cs in (drop_cr (rev acc) # ls, failed)
      else scan (c # acc) cs)"

definition parseOptionLine :: "string \<Rightarrow> (string \<times> string) option" where
  "parseOptionLine line =
     (let trimmed = dropWhile (\<lambda>c. c \<in> {CHR '' '', tab}) line in
      if trimmed = [] then None
      else case find_index (\<lambda>c. c = CHR ''='') trimmed of
             None \<Rightarrow> None
           | Some eqIdx \<Rightarrow>
               let key = take eqIdx trimmed
               in if key = [] then None else Some (key, drop (eqIdx + 1) trimmed))"

record entry_options =
  opts :: "(string \<times> string) list"
  unknown :: "(string \<times> string) list"
  unknownOrder :: "(string \<times> string) list"

definition append_value :: "string \<Rightarrow> string \<Rightarrow> (string \<times> string) list \<Rightarrow> (string \<times> string) list" where
  "append_value key val m =
     (case map_of m key of
        None \<Rightarrow> AList.update key val m
      | Some old \<Rightarrow> AList.update key (old @ newline # val) m)"

definition add_option :: "string \<times> string \<Rightarrow> entry_options \<Rightarrow> entry_options" where
  "add_option kv eo =
     (case kv of (key, val) \<Rightarrow>
        if knownKeys key then
          if cumulativeKeys key then eo\<lparr>opts := append_value key val (opts eo)\<rparr>
          else eo\<lparr>opts := AList.update key val (opts eo)\<rparr>
        else eo\<lparr>unknownOrder := unknownOrder eo @ [(key, val)], unknown := append_value key val (unknown eo)\<rparr>)"

definition finalizeEntry :: "string list \<Rightarrow> entry_options \<Rightarrow> Entry" where
  "finalizeEntry uris eo =
     \<lparr>URIs = uris,
      entry_GID = (case map_of (opts eo) ''gid'' of
                     None \<Rightarrow> 0
                   | Some s \<Rightarrow> (case ParseGID s of Inl err \<Rightarrow> 0 | Inr gid \<Rightarrow> gid)),
      entry_Status = (if map_of (opts eo) ''pause'' = Some ''true'' then StatusPaused else StatusWaiting),
      Options = opts eo, Unknown = unknown eo, UnknownOrder = unknownOrder eo\<rparr>"

definition is_blank :: "string \<Rightarrow> bool" where
  "is_blank line \<longleftrightarrow> line = [] \<or> hd line = CHR ''#''"

definition is_indented :: "string \<Rightarrow> bool" where
  "is_indented line \<longleftrightarrow> line \<noteq> [] \<and> hd line \<in> {CHR '' '', tab}"

text \<open>The inner loop of \<open>Next\<close>: the options of an entry and the lines left, the pending line of the next
  entry first.\<close>

fun read_options :: "entry_options \<Rightarrow> string list \<Rightarrow> entry_options \<times> string list" where
  "read_options eo [] = (eo, [])"
| "read_options eo (line # ls) =
     (if is_blank line then read_options eo ls
      else if \<not> is_indented line then (eo, line # ls)
      else case parseOptionLine line of
             None \<Rightarrow> read_options eo ls
           | Some kv \<Rightarrow> read_options (add_option kv eo) ls)"

definition split_uris :: "string \<Rightarrow> string list" where
  "split_uris line =
     (let uris = Split tab line in if 1 < length uris \<and> last uris = [] then butlast uris else uris)"

record Parser =
  p_lines :: "string list"
  p_failed :: bool
  exhausted :: bool

definition NewParser :: "string \<Rightarrow> Parser" where
  "NewParser text = (case scan [] text of (ls, failed) \<Rightarrow> \<lparr>p_lines = ls, p_failed = failed, exhausted = False\<rparr>)"

definition no_options :: entry_options where
  "no_options = \<lparr>opts = [], unknown = [], unknownOrder = []\<rparr>"

text \<open>\<open>None\<close> is a read error, \<open>Some None\<close> the end of the file.\<close>

definition Next :: "Parser \<Rightarrow> Entry option option \<times> Parser" where
  "Next p =
     (case dropWhile (\<lambda>line. is_blank line \<or> is_indented line) (p_lines p) of
        [] \<Rightarrow> (if p_failed p then (None, p\<lparr>p_lines := []\<rparr>) else (Some None, p\<lparr>p_lines := [], exhausted := True\<rparr>))
      | line # ls \<Rightarrow>
          (case read_options no_options ls of
             (eo, rest) \<Rightarrow>
               if rest = [] \<and> p_failed p then (None, p\<lparr>p_lines := []\<rparr>)
               else (Some (Some (finalizeEntry (split_uris line) eo)), p\<lparr>p_lines := rest, exhausted := (rest = [])\<rparr>)))"

lemma read_options_length: "length (snd (read_options eo ls)) \<le> length ls"
  by (induction ls arbitrary: eo) (auto simp: le_SucI split: option.split)

lemma Next_shrinks: "Next p = (Some (Some e), p') \<Longrightarrow> length (p_lines p') < length (p_lines p)"
  using read_options_length [of no_options "tl (dropWhile (\<lambda>line. is_blank line \<or> is_indented line) (p_lines p))"]
    length_dropWhile_le [of "\<lambda>line. is_blank line \<or> is_indented line" "p_lines p"]
  by (auto simp: Next_def split: list.splits prod.splits if_splits)

function read_entries :: "Parser \<Rightarrow> Entry list option" where
  "read_entries p =
     (case Next p of
        (None, p') \<Rightarrow> None
      | (Some None, p') \<Rightarrow> Some []
      | (Some (Some e), p') \<Rightarrow> map_option (\<lambda>es. e # es) (read_entries p'))"
  by pat_completeness auto
termination
  by (relation "measure (\<lambda>p. length (p_lines p))") (simp_all add: Next_shrinks [OF sym])

declare read_entries.simps [simp del]

definition Read :: "string \<Rightarrow> Entry list option" where
  "Read text = read_entries (NewParser text)"

section \<open>Splitting and joining\<close>

lemma Split_none: "sep \<notin> set s \<Longrightarrow> Split sep s = [s]"
  by (induction s) auto

lemma Split_append: "sep \<notin> set s \<Longrightarrow> Split sep (s @ sep # r) = s # Split sep r"
  by (induction s) (auto split: list.split)

lemma Join_Cons: "ss \<noteq> [] \<Longrightarrow> Join sep (s # ss) = s @ sep # Join sep ss"
  by (cases ss) auto

lemma Join_snoc: "ss \<noteq> [] \<Longrightarrow> Join sep (ss @ [s]) = Join sep ss @ sep # s"
  by (induction ss rule: induct_list012) auto

section \<open>Lines\<close>

definition unlines :: "string list \<Rightarrow> string" where
  "unlines ls = concat (map (\<lambda>l. l @ [newline]) ls)"

lemma unlines_simps [simp]: "unlines [] = []" "unlines (l # ls) = l @ newline # unlines ls" "unlines (ls @ ms) = unlines ls @ unlines ms"
  by (simp_all add: unlines_def)

lemma unlines_concat: "concat (map (\<lambda>x. unlines (f x)) xs) = unlines (concat (map f xs))"
  by (induction xs) simp_all

text \<open>A line that the scanner delivers as it is.\<close>

definition plain_line :: "string \<Rightarrow> bool" where
  "plain_line l \<longleftrightarrow> newline \<notin> set l \<and> length l < parserBufferSize \<and> drop_cr l = l"

lemma scan_line:
  assumes "newline \<notin> set l"
  shows "scan acc (l @ newline # text) =
    (if parserBufferSize \<le> length acc + length l then ([], True)
     else let (ls, failed) = scan [] text in (drop_cr (rev acc @ l) # ls, failed))"
  using assms by (induction l arbitrary: acc) auto

lemma scan_unlines: "list_all plain_line ls \<Longrightarrow> scan [] (unlines ls) = (ls, False)"
  by (induction ls) (simp_all add: scan_line plain_line_def)

section \<open>Option lines\<close>

definition option_line :: "string \<times> string \<Rightarrow> string" where
  "option_line kv = '' '' @ fst kv @ ''='' @ snd kv"

definition key_ok :: "string \<Rightarrow> bool" where
  "key_ok key \<longleftrightarrow> key \<noteq> [] \<and> CHR ''='' \<notin> set key \<and> newline \<notin> set key \<and> hd key \<notin> {CHR '' '', tab}"

lemma writeOptionLine_unlines: "writeOptionLine k v = unlines [option_line (k, v)]"
  by (simp add: writeOptionLine_def option_line_def)

lemma find_index_append: "(\<forall>x\<in>set xs. \<not> P x) \<Longrightarrow> P y \<Longrightarrow> find_index P (xs @ y # ys) = Some (length xs)"
  by (induction xs) auto

lemma parse_option_line: "key_ok (fst kv) \<Longrightarrow> parseOptionLine (option_line kv) = Some kv"
proof -
  assume k: "key_ok (fst kv)"
  then obtain c cs where c: "fst kv = c # cs" by (cases "fst kv") (auto simp: key_ok_def)
  have t: "dropWhile (\<lambda>c. c \<in> {CHR '' '', tab}) (option_line kv) = fst kv @ ''='' @ snd kv"
    using k by (simp add: option_line_def c key_ok_def)
  have "find_index (\<lambda>c. c = CHR ''='') (fst kv @ CHR ''='' # snd kv) = Some (length (fst kv))"
    using k by (intro find_index_append) (auto simp: key_ok_def)
  then show ?thesis using t c by (simp add: parseOptionLine_def Let_def prod_eq_iff)
qed

lemma read_option_lines:
  assumes "list_all (\<lambda>kv. key_ok (fst kv)) kvs" and "rest = [] \<or> (\<not> is_blank (hd rest) \<and> \<not> is_indented (hd rest))"
  shows "read_options eo (map option_line kvs @ rest) = (fold add_option kvs eo, rest)"
  using assms(1)
proof (induction kvs arbitrary: eo)
  case Nil
  then show ?case using assms(2) by (cases rest) auto
next
  case (Cons kv kvs)
  have "\<not> is_blank (option_line kv)" "is_indented (option_line kv)"
    by (simp_all add: is_blank_def is_indented_def option_line_def)
  then show ?case using Cons parse_option_line [of kv] by simp
qed

text \<open>What a list of option lines adds up to.\<close>

definition known_value :: "string \<Rightarrow> (string \<times> string) list \<Rightarrow> string option" where
  "known_value key kvs =
     (let vs = values_of key kvs in
      if \<not> knownKeys key \<or> vs = [] then None
      else if cumulativeKeys key then Some (Join newline vs) else Some (last vs))"

definition unknown_value :: "string \<Rightarrow> (string \<times> string) list \<Rightarrow> string option" where
  "unknown_value key kvs =
     (let vs = values_of key kvs in if knownKeys key \<or> vs = [] then None else Some (Join newline vs))"

lemma values_of_snoc: "values_of key (kvs @ [(k, v)]) = (if k = key then values_of key kvs @ [v] else values_of key kvs)"
  by (simp add: values_of_def)

lemma map_of_update: "map_of (AList.update k v m) = (map_of m)(k \<mapsto> v)"
  by (simp add: update_conv' fun_eq_iff)

lemma map_of_append_value:
  "map_of (append_value k v m) key =
     (if k = key then Some (case map_of m k of None \<Rightarrow> v | Some old \<Rightarrow> old @ newline # v) else map_of m key)"
  by (simp add: append_value_def map_of_update split: option.split)

lemma fold_add_option:
  "map_of (opts (fold add_option kvs no_options)) key = known_value key kvs \<and>
   map_of (unknown (fold add_option kvs no_options)) key = unknown_value key kvs \<and>
   unknownOrder (fold add_option kvs no_options) = filter (\<lambda>kv. \<not> knownKeys (fst kv)) kvs"
proof (induction kvs rule: rev_induct)
  case Nil
  then show ?case by (simp add: no_options_def known_value_def unknown_value_def values_of_def)
next
  case (snoc kv kvs)
  obtain k v where kv: "kv = (k, v)" by force
  let ?eo = "fold add_option kvs no_options"
  have o: "map_of (opts ?eo) key = known_value key kvs" and u: "map_of (unknown ?eo) key = unknown_value key kvs"
    and uo: "unknownOrder ?eo = filter (\<lambda>kv. \<not> knownKeys (fst kv)) kvs" using snoc by auto
  have o': "map_of (opts (add_option kv ?eo)) key = known_value key (kvs @ [kv])"
  proof (cases "k = key \<and> knownKeys k")
    case True
    then show ?thesis using o
      by (cases "values_of key kvs = []")
         (simp_all add: kv add_option_def map_of_append_value map_of_update known_value_def values_of_snoc Join_snoc)
  next
    case False
    then show ?thesis using o
      by (auto simp: kv add_option_def map_of_append_value map_of_update known_value_def values_of_snoc)
  qed
  have u': "map_of (unknown (add_option kv ?eo)) key = unknown_value key (kvs @ [kv])"
  proof (cases "k = key \<and> \<not> knownKeys k")
    case True
    then show ?thesis using u
      by (cases "values_of key kvs = []")
         (simp_all add: kv add_option_def map_of_append_value unknown_value_def values_of_snoc Join_snoc)
  next
    case False
    then show ?thesis using u
      by (auto simp: kv add_option_def map_of_append_value unknown_value_def values_of_snoc)
  qed
  have "unknownOrder (add_option kv ?eo) = filter (\<lambda>kv. \<not> knownKeys (fst kv)) (kvs @ [kv])"
    using uo by (simp add: kv add_option_def)
  with o' u' show ?case by simp
qed

section \<open>The lines of an entry\<close>

definition known_pairs :: "Entry \<Rightarrow> (string \<times> string) list" where
  "known_pairs e =
     concat (map (\<lambda>key.
       if key \<in> {''gid'', ''pause''} then []
       else case map_of (Options e) key of
              None \<Rightarrow> []
            | Some val \<Rightarrow> map (Pair key) (if cumulativeKeys key then splitOptionValues val else [val])) canonicalKeyOrder)"

definition entry_pairs :: "Entry \<Rightarrow> (string \<times> string) list" where
  "entry_pairs e =
     (''gid'', Hex (entry_GID e)) # (if entry_Status e = StatusPaused then [(''pause'', ''true'')] else []) @
     known_pairs e @ UnknownOrder e"

definition uri_line :: "Entry \<Rightarrow> string" where
  "uri_line e = concat (map (\<lambda>uri. uri @ [tab]) (URIs e))"

text \<open>Entries that the format can hold: addresses without tabs and newlines, the first of them not
  looking like an option or a comment; values without newlines, except for the options that may
  have several values; no line that ends in a carriage return or is a megabyte long. The unknown
  options are those of the ordered lines, as the reader leaves them.\<close>

definition entry_ok :: "Entry \<Rightarrow> bool" where
  "entry_ok e \<longleftrightarrow>
     URIs e \<noteq> [] \<and> (\<forall>u\<in>set (URIs e). tab \<notin> set u \<and> newline \<notin> set u) \<and>
     hd (URIs e) \<noteq> [] \<and> hd (hd (URIs e)) \<notin> {CHR '' '', CHR ''#''} \<and> length (uri_line e) < parserBufferSize \<and>
     (\<forall>key val. map_of (Options e) key = Some val \<longrightarrow> knownKeys key) \<and>
     (\<forall>kv\<in>set (UnknownOrder e). \<not> knownKeys (fst kv) \<and> key_ok (fst kv)) \<and>
     (\<forall>kv\<in>set (entry_pairs e). plain_line (option_line kv)) \<and>
     (\<forall>key. map_of (Unknown e) key = unknown_value key (UnknownOrder e))"

lemma canonical_distinct: "distinct canonicalKeyOrder"
proof -
  have "distinct (map name_num canonicalKeyOrder)"
    by (simp add: canonicalKeyOrder_def canonical_1_def canonical_2_def)
  then show ?thesis by (simp only: distinct_map)
qed

lemma canonical_keys: "list_all key_ok canonicalKeyOrder"
  by (simp add: canonicalKeyOrder_def canonical_1_def canonical_2_def key_ok_def)

lemma gid_pause_known: "knownKeys ''gid''" "knownKeys ''pause''" "\<not> cumulativeKeys ''gid''" "\<not> cumulativeKeys ''pause''"
  unfolding knownKeys_def canonicalKeyOrder_def canonical_1_def canonical_2_def cumulativeKeys_def by simp_all

lemma known_lines_unlines: "known_lines e = unlines (map option_line (known_pairs e))"
proof -
  have many: "concat (map (writeOptionLine key) vs) = unlines (map option_line (map (Pair key) vs))" for key vs
    by (induction vs) (simp_all add: writeOptionLine_unlines)
  have "(\<lambda>key. if key \<in> {''gid'', ''pause''} then []
       else case map_of (Options e) key of
              None \<Rightarrow> []
            | Some val \<Rightarrow>
                if cumulativeKeys key then concat (map (writeOptionLine key) (splitOptionValues val))
                else writeOptionLine key val) =
      (\<lambda>key. unlines (map option_line (if key \<in> {''gid'', ''pause''} then []
       else case map_of (Options e) key of
              None \<Rightarrow> []
            | Some val \<Rightarrow> map (Pair key) (if cumulativeKeys key then splitOptionValues val else [val]))))"
    by (auto simp: fun_eq_iff many writeOptionLine_unlines split: option.split)
  then show ?thesis unfolding known_lines_def known_pairs_def unlines_concat by (simp only: unlines_concat map_concat map_map o_def)
qed

lemma unknown_lines_unlines:
  assumes ok: "entry_ok e"
  shows "unknown_lines e = unlines (map option_line (UnknownOrder e))"
proof -
  have un: "map_of (Unknown e) key = unknown_value key (UnknownOrder e)" for key using ok by (simp add: entry_ok_def)
  have nk: "\<not> knownKeys k" if "(k, v) \<in> set (UnknownOrder e)" for k v using ok that by (force simp: entry_ok_def)
  have in_vals: "values_of k (UnknownOrder e) \<noteq> []" if "(k, v) \<in> set (UnknownOrder e)" for k v
    using that by (auto simp: values_of_def filter_empty_conv)
  then have has: "map_of (Unknown e) k = Some (Join newline (values_of k (UnknownOrder e)))" if "(k, v) \<in> set (UnknownOrder e)" for k v
    using that nk [OF that] unfolding un by (auto simp: unknown_value_def Let_def)
  have agrees: "order_agrees e" using has by (auto simp: order_agrees_def list_all_iff)
  have "k \<in> fst ` set (UnknownOrder e)" if "k \<in> fst ` set (Unknown e)" for k
  proof -
    have "map_of (Unknown e) k \<noteq> None" using that by (simp add: map_of_eq_None_iff)
    then have "values_of k (UnknownOrder e) \<noteq> []" unfolding un by (auto simp: unknown_value_def Let_def)
    then obtain x where "x \<in> set (filter (\<lambda>(k', v). k' = k) (UnknownOrder e))"
      unfolding values_of_def by (cases "filter (\<lambda>(k', v). k' = k) (UnknownOrder e)") auto
    then show ?thesis by force
  qed
  then have left: "filter (\<lambda>key. \<not> (w key \<or> (UnknownOrder e \<noteq> [] \<and> order_agrees e) \<and> key \<in> fst ` set (UnknownOrder e)))
      (remdups (map fst (Unknown e))) = []" for w
    using agrees by (fastforce simp: filter_empty_conv)
  have all: "filter (\<lambda>(key, val). \<not> (key \<in> {''gid'', ''pause''} \<or> key \<in> set canonicalKeyOrder \<and> map_of (Options e) key \<noteq> None) \<and>
      map_of (Unknown e) key \<noteq> None) (UnknownOrder e) = UnknownOrder e"
    using nk has gid_pause_known unfolding filter_id_conv by (auto simp: knownKeys_def)
  have "concat (map (\<lambda>(key, val). writeOptionLine key val) kvs) = unlines (map option_line kvs)" for kvs
    by (induction kvs) (auto simp: writeOptionLine_unlines)
  then show ?thesis
    unfolding unknown_lines_def Let_def left using agrees all by (cases "UnknownOrder e = []") simp_all
qed

lemma writeEntry_unlines:
  assumes "entry_ok e"
  shows "writeEntry e = unlines (uri_line e # map option_line (entry_pairs e))"
  using assms unknown_lines_unlines [OF assms] known_lines_unlines [of e]
  by (simp add: writeEntry_def entry_ok_def uri_line_def entry_pairs_def writeOptionLine_unlines)

text \<open>Splitting the first line at tabs.\<close>

lemma split_uri_line:
  assumes "uris \<noteq> []" and "\<forall>u\<in>set uris. tab \<notin> set u"
  shows "split_uris (concat (map (\<lambda>uri. uri @ [tab]) uris)) = uris"
proof -
  have "Split tab (concat (map (\<lambda>uri. uri @ [tab]) us)) = us @ [[]]" if "\<forall>u\<in>set us. tab \<notin> set u" for us
    using that by (induction us) (simp_all add: Split_append)
  then show ?thesis using assms by (simp add: split_uris_def Let_def)
qed

section \<open>Reading back\<close>

definition expected_option :: "Entry \<Rightarrow> string \<Rightarrow> string option" where
  "expected_option e key =
     (if key = ''gid'' then Some (Hex (entry_GID e))
      else if key = ''pause'' then if entry_Status e = StatusPaused then Some ''true'' else None
      else case map_of (Options e) key of
             None \<Rightarrow> None
           | Some val \<Rightarrow>
               if cumulativeKeys key then
                 let vs = splitOptionValues val in if vs = [] then None else Some (Join newline vs)
               else Some val)"

text \<open>The entry \<open>e'\<close> that is read for an entry \<open>e\<close> that was written.\<close>

definition reads_back :: "Entry \<Rightarrow> Entry \<Rightarrow> bool" where
  "reads_back e e' \<longleftrightarrow>
     URIs e' = URIs e \<and> entry_GID e' = entry_GID e \<and>
     entry_Status e' = (if entry_Status e = StatusPaused then StatusPaused else StatusWaiting) \<and>
     map_of (Options e') = expected_option e \<and> map_of (Unknown e') = map_of (Unknown e) \<and> UnknownOrder e' = UnknownOrder e"

lemma values_of_append: "values_of key (xs @ ys) = values_of key xs @ values_of key ys"
  by (simp add: values_of_def)

lemma values_of_Pair: "values_of key (map (Pair k) vs) = (if k = key then vs else [])"
  by (auto simp: values_of_def filter_map o_def)

lemma values_of_concat:
  assumes "distinct ks" and "\<And>k. f k = map (Pair k) (g k)"
  shows "values_of key (concat (map f ks)) = (if key \<in> set ks then g key else [])"
  using assms(1)
proof (induction ks)
  case (Cons k ks)
  then show ?case by (auto simp: values_of_append values_of_Pair assms(2))
qed (simp add: values_of_def)

lemma known_pairs_values:
  "values_of key (known_pairs e) =
     (if \<not> knownKeys key \<or> key \<in> {''gid'', ''pause''} then []
      else case map_of (Options e) key of
             None \<Rightarrow> []
           | Some val \<Rightarrow> if cumulativeKeys key then splitOptionValues val else [val])"
proof -
  let ?g = "\<lambda>key. if key \<in> {''gid'', ''pause''} then []
      else case map_of (Options e) key of
             None \<Rightarrow> []
           | Some val \<Rightarrow> if cumulativeKeys key then splitOptionValues val else [val]"
  have "values_of key (known_pairs e) = (if key \<in> set canonicalKeyOrder then ?g key else [])"
    unfolding known_pairs_def
    by (rule values_of_concat [OF canonical_distinct]) (auto split: option.split)
  then show ?thesis by (simp add: knownKeys_def)
qed

lemma known_pairs_keys: "kv \<in> set (known_pairs e) \<Longrightarrow> knownKeys (fst kv)"
  by (auto simp: known_pairs_def knownKeys_def split: if_splits option.splits)

lemma entry_pairs_values:
  assumes ok: "entry_ok e"
  shows "known_value key (entry_pairs e) = expected_option e key"
    and "unknown_value key (entry_pairs e) = map_of (Unknown e) key"
    and "filter (\<lambda>kv. \<not> knownKeys (fst kv)) (entry_pairs e) = UnknownOrder e"
proof -
  have unk: "values_of key (UnknownOrder e) = []" if "knownKeys key"
    using ok that by (auto simp: entry_ok_def values_of_def filter_empty_conv)
  have kn: "values_of key (known_pairs e) = []" if "\<not> knownKeys key" using that by (simp add: known_pairs_values)
  let ?p = "if entry_Status e = StatusPaused then [(''pause'', ''true'')] else []"
  have v: "values_of key (entry_pairs e) =
      (if key = ''gid'' then [Hex (entry_GID e)] else []) @ (if key = ''pause'' \<and> entry_Status e = StatusPaused then [''true''] else []) @
      values_of key (known_pairs e) @ values_of key (UnknownOrder e)"
    by (simp add: entry_pairs_def values_of_def)
  have opt: "knownKeys key" if "map_of (Options e) key = Some val" for val using ok that by (auto simp: entry_ok_def)
  show "known_value key (entry_pairs e) = expected_option e key"
  proof (cases "knownKeys key")
    case True
    then show ?thesis
      using unk gid_pause_known unfolding known_value_def v known_pairs_values expected_option_def
      by (auto simp: Let_def split: option.split)
  next
    case False
    then have "key \<noteq> ''gid''" "key \<noteq> ''pause''" "map_of (Options e) key = None"
      using gid_pause_known opt by (auto, cases "map_of (Options e) key") auto
    then show ?thesis using False by (simp add: known_value_def expected_option_def)
  qed
  have "unknown_value key (entry_pairs e) = unknown_value key (UnknownOrder e)"
    using kn gid_pause_known unfolding unknown_value_def v by (auto simp: Let_def)
  then show "unknown_value key (entry_pairs e) = map_of (Unknown e) key" using ok by (simp add: entry_ok_def)
  have "filter (\<lambda>kv. \<not> knownKeys (fst kv)) (UnknownOrder e) = UnknownOrder e"
    using ok unfolding filter_id_conv by (auto simp: entry_ok_def)
  moreover have "filter (\<lambda>kv. \<not> knownKeys (fst kv)) (known_pairs e) = []"
    using known_pairs_keys unfolding filter_empty_conv by blast
  ultimately show "filter (\<lambda>kv. \<not> knownKeys (fst kv)) (entry_pairs e) = UnknownOrder e"
    using gid_pause_known by (simp add: entry_pairs_def)
qed

lemma entry_pairs_keys:
  assumes "entry_ok e"
  shows "list_all (\<lambda>kv. key_ok (fst kv)) (entry_pairs e)"
proof -
  have "key_ok key" if "knownKeys key" for key
    using canonical_keys that by (simp add: list_all_iff knownKeys_def)
  then show ?thesis
    using assms known_pairs_keys [of _ e] gid_pause_known by (auto simp: entry_pairs_def list_all_iff entry_ok_def)
qed

lemma uri_line_start:
  assumes "entry_ok e"
  shows "\<not> is_blank (uri_line e)" "\<not> is_indented (uri_line e)" "plain_line (uri_line e)"
proof -
  obtain u us where u: "URIs e = u # us" "u \<noteq> []" "tab \<notin> set u" "hd u \<notin> {CHR '' '', CHR ''#''}"
    using assms by (cases "URIs e") (auto simp: entry_ok_def)
  have "hd (uri_line e) = hd u" "uri_line e \<noteq> []" using u by (simp_all add: uri_line_def)
  moreover have "hd u \<noteq> tab" using u by (cases u) auto
  ultimately show "\<not> is_blank (uri_line e)" "\<not> is_indented (uri_line e)" using u by (auto simp: is_blank_def is_indented_def)
  have "last (concat (map (\<lambda>uri. uri @ [tab]) vs)) = tab" if "vs \<noteq> []" for vs
    using that by (induction vs rule: induct_list012) auto
  then have "last (uri_line e) = tab" using u by (simp add: uri_line_def)
  moreover have "newline \<notin> set (uri_line e)" using assms by (auto simp: uri_line_def entry_ok_def)
  ultimately show "plain_line (uri_line e)" using assms by (simp add: plain_line_def drop_cr_def entry_ok_def)
qed

definition entry_lines :: "Entry \<Rightarrow> string list" where
  "entry_lines e = uri_line e # map option_line (entry_pairs e)"

lemma Next_entry:
  assumes ok: "entry_ok e" and rest: "rest = [] \<or> (\<not> is_blank (hd rest) \<and> \<not> is_indented (hd rest))"
    and p: "p_lines p = entry_lines e @ rest" "\<not> p_failed p"
  shows "\<exists>e' b. Next p = (Some (Some e'), p\<lparr>p_lines := rest, exhausted := b\<rparr>) \<and> reads_back e e'"
proof -
  let ?eo = "fold add_option (entry_pairs e) no_options"
  have d: "dropWhile (\<lambda>line. is_blank line \<or> is_indented line) (p_lines p) = uri_line e # map option_line (entry_pairs e) @ rest"
    using uri_line_start [OF ok] by (simp add: p entry_lines_def)
  have r: "read_options no_options (map option_line (entry_pairs e) @ rest) = (?eo, rest)"
    by (rule read_option_lines [OF entry_pairs_keys [OF ok] rest])
  have uris: "split_uris (uri_line e) = URIs e"
    unfolding uri_line_def by (rule split_uri_line) (use ok in \<open>auto simp: entry_ok_def\<close>)
  have o: "map_of (opts ?eo) = expected_option e" and u: "map_of (unknown ?eo) = map_of (Unknown e)"
    and uo: "unknownOrder ?eo = UnknownOrder e"
    using fold_add_option [of "entry_pairs e"] entry_pairs_values [OF ok] by (auto simp: fun_eq_iff)
  have "reads_back e (finalizeEntry (URIs e) ?eo)"
    using o u uo by (simp add: reads_back_def finalizeEntry_def expected_option_def)
  then show ?thesis using d r uris p by (auto simp: Next_def)
qed

lemma read_entry_lines:
  assumes "list_all entry_ok es" and "p_lines p = concat (map entry_lines es)" and "\<not> p_failed p"
  shows "\<exists>es'. read_entries p = Some es' \<and> list_all2 reads_back es es'"
  using assms
proof (induction es arbitrary: p)
  case Nil
  then show ?case by (simp add: read_entries.simps [of p] Next_def)
next
  case (Cons e es)
  let ?rest = "concat (map entry_lines es)"
  have "?rest = [] \<or> (\<not> is_blank (hd ?rest) \<and> \<not> is_indented (hd ?rest))"
    using Cons(2) uri_line_start by (cases es) (auto simp: entry_lines_def)
  then obtain e' b where n: "Next p = (Some (Some e'), p\<lparr>p_lines := ?rest, exhausted := b\<rparr>)" "reads_back e e'"
    using Next_entry [of e ?rest p] Cons(2-4) by auto
  obtain es' where "read_entries (p\<lparr>p_lines := ?rest, exhausted := b\<rparr>) = Some es'" "list_all2 reads_back es es'"
    using Cons(1) [of "p\<lparr>p_lines := ?rest, exhausted := b\<rparr>"] Cons(2,4) by auto
  then show ?case using n by (simp add: read_entries.simps [of p])
qed

section \<open>Properties\<close>


definition sample_entry :: Entry where
  "sample_entry =
     \<lparr>URIs = [''http://a/f'', ''ftp://b/f''], entry_GID = 7, entry_Status = StatusPaused,
      Options = [(''out'', ''f''), (''header'', ''A: 1'' @ [newline] @ ''B: 2'')],
      Unknown = [(''x-tag'', ''t'')], UnknownOrder = [(''x-tag'', ''t'')]\<rparr>"

lemma known_pairs_mem:
  assumes "kv \<in> set (known_pairs e)"
  shows "\<exists>val. map_of (Options e) (fst kv) = Some val \<and> snd kv \<in> set (if cumulativeKeys (fst kv) then splitOptionValues val else [val])"
proof -
  obtain key where k: "kv \<in> set (if key \<in> {''gid'', ''pause''} then []
       else case map_of (Options e) key of
              None \<Rightarrow> []
            | Some val \<Rightarrow> map (Pair key) (if cumulativeKeys key then splitOptionValues val else [val]))"
    using assms unfolding known_pairs_def set_concat set_map UN_iff image_iff by blast
  then obtain val where "map_of (Options e) key = Some val" by (cases "map_of (Options e) key") (auto split: if_splits)
  with k show ?thesis by (auto split: if_splits)
qed

lemma sample_entry_values:
  "entry_GID sample_entry = 7" "entry_Status sample_entry = StatusPaused" "UnknownOrder sample_entry = [(''x-tag'', ''t'')]"
  by (simp_all add: sample_entry_def)

lemma sample_entry_ok: "entry_ok sample_entry"
proof -
  have hex: "Hex 7 = ''0000000000000007''" by code_simp
  have keys: "knownKeys ''out''" "knownKeys ''header''" "cumulativeKeys ''header''" "\<not> cumulativeKeys ''out''" "\<not> knownKeys ''x-tag''"
    unfolding knownKeys_def canonicalKeyOrder_def canonical_1_def canonical_2_def cumulativeKeys_def by simp_all
  have split: "splitOptionValues (''A: 1'' @ [newline] @ ''B: 2'') = [''A: 1'', ''B: 2'']" by code_simp
  have "kv \<in> {(''out'', ''f''), (''header'', ''A: 1''), (''header'', ''B: 2'')}" if "kv \<in> set (known_pairs sample_entry)" for kv
    using known_pairs_mem [OF that] keys split by (cases kv) (auto simp: sample_entry_def split: if_splits)
  then have known: "set (known_pairs sample_entry) \<subseteq> {(''out'', ''f''), (''header'', ''A: 1''), (''header'', ''B: 2'')}" by blast
  note plain = plain_line_def option_line_def drop_cr_def parserBufferSize_def
  have lines: "plain_line (option_line (''gid'', ''0000000000000007''))" "plain_line (option_line (''pause'', ''true''))"
    "plain_line (option_line (''x-tag'', ''t''))" "plain_line (option_line (''out'', ''f''))"
    "plain_line (option_line (''header'', ''A: 1''))" "plain_line (option_line (''header'', ''B: 2''))"
    by (simp_all add: plain)
  have "plain_line (option_line kv)" if "kv \<in> set (known_pairs sample_entry)" for kv
    using subsetD [OF known that] lines by (elim insertE) simp_all
  then have "\<forall>kv\<in>set (entry_pairs sample_entry). plain_line (option_line kv)"
    using lines unfolding entry_pairs_def sample_entry_values hex by (simp add: ball_Un)
  moreover have "map_of (Unknown sample_entry) key = unknown_value key (UnknownOrder sample_entry)" for key
    using keys by (auto simp: sample_entry_def unknown_value_def values_of_def)
  moreover have "knownKeys key" if "map_of (Options sample_entry) key = Some val" for key val
    using that keys by (auto simp: sample_entry_def split: if_splits)
  ultimately show ?thesis
    using keys by (auto simp: entry_ok_def sample_entry_def uri_line_def parserBufferSize_def key_ok_def)
qed


text \<open>A value with a newline ends its line early: the rest of the value becomes a line of its own, which
  reads as another download if it does not begin with a blank.\<close>

lemma newline_ends_line:
  "writeOptionLine key (val @ [newline] @ rest) = writeOptionLine key val @ rest @ [newline]"
  by (simp add: writeOptionLine_def)

end
