(* ===== verification/Torrent.thy ===== *)
theory Torrent
  imports Bencode Strings
begin

text \<open>
  Torrent files, \<open>src/internal/torrent/torrent.go\<close> and \<open>metadata.go\<close>: \<open>Load\<close> with all its
  checks, the second scanner that finds the raw bytes of the info dictionary, and \<open>FromMetadata\<close>,
  which builds a torrent from the metadata a magnet download obtained. The hash functions are
  parameters. The lemmas relate the scanner to the decoder, bound what a loaded torrent may contain
  and show which bytes its info hash covers.
\<close>

section \<open>Data\<close>

text \<open>\<open>Info.FileTree\<close> is never set by \<open>Load\<close> and is left out. The pool of \<open>MetaInfo\<close> records only
  reuses cleared ones.\<close>

record FileInfo =
  fi_Length :: int
  fi_Path :: "string list"
  fi_MD5Sum :: string

record NodeInfo =
  ni_Host :: string
  ni_Port :: int

record Info =
  info_Name :: string
  info_PieceLength :: int
  info_Pieces :: string
  info_Length :: int
  info_Files :: "FileInfo list"
  info_Private :: bool
  info_MetaVersion :: int

record MetaInfo =
  mi_Announce :: string
  mi_AnnounceList :: "string list list"
  mi_CreationDate :: int
  mi_Comment :: string
  mi_CreatedBy :: string
  mi_Encoding :: string
  mi_Info :: Info
  mi_URLList :: "string list"
  mi_Nodes :: "NodeInfo list"
  mi_Raw :: string
  mi_infoRaw :: string

datatype scan_error =
    UnexpectedEnd | UnterminatedInteger | InvalidString | StringExceeds | UnterminatedContainer
  | UnexpectedByte char | BadDecimal | InvalidKey | InvalidKeyLength | KeyExceeds | KeyNotFound
  | NotADictionary | PanicIndex | PanicSlice

datatype torrent_error =
    BencodeError dec_error | ScanError scan_error | InvalidTorrent string | NoInfo
  | NotV2 | InfoNotAvailable | EmptyMetadata | TrailingData

section \<open>Names and paths\<close>

definition upper_hex :: "nat \<Rightarrow> char" where
  "upper_hex d = (if d < 10 then char_of (48 + d) else char_of (55 + d))"

definition percent_byte :: "char \<Rightarrow> string" where
  "percent_byte c = [CHR ''%'', upper_hex (of_char c div 16), upper_hex (of_char c mod 16)]"

function encode_loop :: "string \<Rightarrow> string" where
  "encode_loop s =
     (if s = [] then []
      else case rune_size s of
             None \<Rightarrow> percent_byte (hd s) @ encode_loop (tl s)
           | Some n \<Rightarrow> take n s @ encode_loop (drop n s))"
  by pat_completeness auto
termination by (relation "measure length") (auto dest: rune_size_bounds)

declare encode_loop.simps [simp del]

definition encodeNonUTF8 :: "string \<Rightarrow> string" where
  "encodeNonUTF8 s = (if ValidString s then s else encode_loop s)"

definition detectDirTraversal :: "string \<Rightarrow> bool" where
  "detectDirTraversal path \<longleftrightarrow>
     path \<noteq> [] \<and>
     (list_ex (\<lambda>c. (of_char c :: nat) < 0x20 \<or> (of_char c :: nat) = 0x7f) path
      \<or> hd path = CHR ''/''
      \<or> HasPrefix path ''./'' \<or> HasPrefix path ''../''
      \<or> Contains path ''/../'' \<or> Contains path ''/./''
      \<or> HasSuffix path ''/'' \<or> HasSuffix path ''/.'' \<or> HasSuffix path ''/..''
      \<or> list_ex (\<lambda>component. component = ''..'' \<or> component = ''.'') (Split (CHR ''/'') path))"

section \<open>Scanning raw bytes\<close>

definition parseDecimal :: "string \<Rightarrow> scan_error + int" where
  "parseDecimal b =
     (if b = [] then Inl BadDecimal
      else case ParseInt b 10 64 of Inl e \<Rightarrow> Inl BadDecimal | Inr i \<Rightarrow> Inr i)"

text \<open>The end of the string at \<open>pos\<close>. The sum of its position and its length is a 64-bit integer
  and wraps.\<close>

definition scan_string :: "string \<Rightarrow> nat \<Rightarrow> scan_error + int" where
  "scan_string data pos =
     (case IndexByte (drop pos data) (CHR '':'') of
        None \<Rightarrow> Inl InvalidString
      | Some colonIdx \<Rightarrow>
          rbind (parseDecimal (take colonIdx (drop pos data))) (\<lambda>len.
            let next = wrap64 (int pos + int colonIdx + 1 + len)
            in if int (length data) < next then Inl StringExceeds else Inr next))"

text \<open>The loop over a list or dictionary. After a string the position grows unless the sum wrapped
  to a negative number; the loop then reads \<open>data[pos]\<close> and panics.\<close>

function scan_nested :: "string \<Rightarrow> nat \<Rightarrow> nat \<Rightarrow> scan_error + nat" where
  "scan_nested data depth pos =
     (if depth = 0 then Inr pos
      else if length data \<le> pos then Inl UnterminatedContainer
      else if data ! pos = CHR ''l'' \<or> data ! pos = CHR ''d'' then scan_nested data (depth + 1) (pos + 1)
      else if data ! pos = CHR ''e'' then scan_nested data (depth - 1) (pos + 1)
      else if data ! pos = CHR ''i'' then
        (case IndexByte (drop (pos + 1) data) (CHR ''e'') of
           None \<Rightarrow> Inl UnterminatedInteger
         | Some eIdx \<Rightarrow> scan_nested data depth (pos + eIdx + 2))
      else if is_digit (data ! pos) then
        (case scan_string data pos of
           Inl e \<Rightarrow> Inl e
         | Inr next \<Rightarrow> if next \<le> int pos then Inl PanicIndex else scan_nested data depth (nat next))
      else Inl (UnexpectedByte (data ! pos)))"
  by pat_completeness auto
termination by (relation "measure (\<lambda>(data, depth, pos). length data - pos)") auto

declare scan_nested.simps [simp del]

definition scanBencodeValue :: "string \<Rightarrow> nat \<Rightarrow> scan_error + int" where
  "scanBencodeValue data pos =
     (if length data \<le> pos then Inl UnexpectedEnd
      else if data ! pos = CHR ''i'' then
        (case IndexByte (drop (pos + 1) data) (CHR ''e'') of
           None \<Rightarrow> Inl UnterminatedInteger
         | Some eIdx \<Rightarrow> Inr (int (pos + 1 + eIdx + 1)))
      else if is_digit (data ! pos) then scan_string data pos
      else if data ! pos = CHR ''l'' \<or> data ! pos = CHR ''d'' then
        rbind (scan_nested data 1 (pos + 1)) (\<lambda>p. Inr (int p))
      else Inl (UnexpectedByte (data ! pos)))"

definition slice :: "nat \<Rightarrow> nat \<Rightarrow> string \<Rightarrow> string" where
  "slice i j s = take (j - i) (drop i s)"

text \<open>The loop of \<open>findRawValue\<close>. An end that is not beyond its start has wrapped; the slice
  \<open>data[pos:valEnd]\<close> or the next access panics.\<close>

function raw_loop :: "string \<Rightarrow> string \<Rightarrow> nat \<Rightarrow> scan_error + string" where
  "raw_loop data key pos =
     (if length data \<le> pos \<or> data ! pos = CHR ''e'' then Inl KeyNotFound
      else case IndexByte (drop pos data) (CHR '':'') of
        None \<Rightarrow> Inl InvalidKey
      | Some colonIdx \<Rightarrow>
          (case parseDecimal (take colonIdx (drop pos data)) of
             Inl e \<Rightarrow> Inl InvalidKeyLength
           | Inr keyLen \<Rightarrow>
               let keyStart = pos + colonIdx + 1; keyEnd = wrap64 (int keyStart + keyLen) in
               if int (length data) < keyEnd then Inl KeyExceeds
               else if keyEnd < int keyStart then Inl PanicSlice
               else
                 case scanBencodeValue data (nat keyEnd) of
                   Inl e \<Rightarrow> Inl e
                 | Inr valEnd \<Rightarrow>
                     if valEnd \<le> keyEnd then Inl PanicSlice
                     else if slice keyStart (nat keyEnd) data = key then Inr (slice (nat keyEnd) (nat valEnd) data)
                     else raw_loop data key (nat valEnd)))"
  by pat_completeness auto
termination by (relation "measure (\<lambda>(data, key, pos). length data - pos)") auto

declare raw_loop.simps [simp del]

definition findRawValue :: "string \<Rightarrow> string \<Rightarrow> scan_error + string" where
  "findRawValue data key =
     (if data = [] \<or> hd data \<noteq> CHR ''d'' then Inl NotADictionary else raw_loop data key 1)"

section \<open>Parsing the dictionary\<close>

type_synonym dict = "(string \<times> Value) list"

fun strings_of :: "Value list \<Rightarrow> string list" where
  "strings_of [] = []"
| "strings_of (StringVal s # vs) = s # strings_of vs"
| "strings_of (_ # vs) = strings_of vs"

fun tier_of :: "Value \<Rightarrow> string list" where
  "tier_of (ListVal us) = filter (\<lambda>u. u \<noteq> []) (map TrimSpace (strings_of us))"
| "tier_of _ = []"

definition parseAnnounceList :: "dict \<Rightarrow> string \<Rightarrow> string list list" where
  "parseAnnounceList raw announce =
     (case Get raw ''announce-list'' of
        None \<Rightarrow> if announce \<noteq> [] then [[announce]] else []
      | Some (ListVal tiers) \<Rightarrow> filter (\<lambda>t. t \<noteq> []) (map tier_of tiers)
      | Some _ \<Rightarrow> [])"

definition parseURLList :: "dict \<Rightarrow> string list" where
  "parseURLList raw =
     (case Get raw ''url-list'' of
        Some (StringVal s) \<Rightarrow> [encodeNonUTF8 s]
      | Some (ListVal us) \<Rightarrow> map encodeNonUTF8 (strings_of us)
      | _ \<Rightarrow> [])"

fun node_of :: "Value \<Rightarrow> NodeInfo list" where
  "node_of (ListVal [StringVal h, IntVal port]) =
     (let host = TrimSpace h in
      if host = [] \<or> port \<le> 0 \<or> 65536 \<le> port then []
      else [\<lparr>ni_Host = encodeNonUTF8 host, ni_Port = port\<rparr>])"
| "node_of _ = []"

definition parseNodes :: "dict \<Rightarrow> NodeInfo list" where
  "parseNodes raw =
     (case Get raw ''nodes'' of Some (ListVal ns) \<Rightarrow> concat (map node_of ns) | _ \<Rightarrow> [])"

definition parseSingleFile :: "Info \<Rightarrow> Value option \<Rightarrow> torrent_error + Info" where
  "parseSingleFile info lengthVal =
     (case lengthVal of
        None \<Rightarrow> Inl (InvalidTorrent ''missing length in single-file info'')
      | Some (IntVal i) \<Rightarrow>
          if i < 0 then Inl (InvalidTorrent ''length must be non-negative'')
          else Inr (info\<lparr>info_Length := i\<rparr>)
      | Some _ \<Rightarrow> Inl (InvalidTorrent ''length must be an integer''))"

fun parse_path :: "Value list \<Rightarrow> torrent_error + string list" where
  "parse_path [] = Inr []"
| "parse_path (StringVal s # vs) =
     (let encoded = encodeNonUTF8 s in
      if detectDirTraversal encoded then Inl (InvalidTorrent ''directory traversal detected in path'')
      else rbind (parse_path vs) (\<lambda>p. Inr (encoded # p)))"
| "parse_path (_ # vs) = Inl (InvalidTorrent ''path component must be a string'')"

definition parse_file :: "dict \<Rightarrow> int \<Rightarrow> torrent_error + FileInfo" where
  "parse_file fdv totalSize =
     (case Get fdv ''length'' of
        None \<Rightarrow> Inl (InvalidTorrent ''files entry missing length'')
      | Some (IntVal i) \<Rightarrow>
          if i < 0 then Inl (InvalidTorrent ''files entry length must be non-negative'')
          else if max_int64 - i < totalSize then Inl (InvalidTorrent ''total torrent size exceeds maximum'')
          else
            (case (case Get fdv ''path.utf-8'' of Some v \<Rightarrow> Some v | None \<Rightarrow> Get fdv ''path'') of
               None \<Rightarrow> Inl (InvalidTorrent ''files entry missing path'')
             | Some (ListVal ps) \<Rightarrow>
                 if ps = [] then Inl (InvalidTorrent ''files entry path must not be empty'')
                 else rbind (parse_path ps) (\<lambda>path.
                   Inr \<lparr>fi_Length = i, fi_Path = path,
                        fi_MD5Sum = (case Get fdv ''md5sum'' of Some (StringVal s) \<Rightarrow> s | _ \<Rightarrow> [])\<rparr>)
             | Some _ \<Rightarrow> Inl (InvalidTorrent ''files entry path must be a list''))
      | Some _ \<Rightarrow> Inl (InvalidTorrent ''files entry length must be an integer''))"

fun parse_files :: "Value list \<Rightarrow> int \<Rightarrow> torrent_error + FileInfo list \<times> int" where
  "parse_files [] totalSize = Inr ([], totalSize)"
| "parse_files (DictVal fdv # vs) totalSize =
     rbind (parse_file fdv totalSize) (\<lambda>fi.
       rbind (parse_files vs (totalSize + fi_Length fi)) (\<lambda>(fis, tot). Inr (fi # fis, tot)))"
| "parse_files (_ # vs) totalSize = parse_files vs totalSize"

definition parseMultiFile :: "Info \<Rightarrow> dict \<Rightarrow> torrent_error + Info" where
  "parseMultiFile info d =
     (case Get d ''files'' of
        Some (ListVal fl) \<Rightarrow>
          rbind (parse_files fl 0) (\<lambda>(fis, tot). Inr (info\<lparr>info_Files := fis, info_Length := tot\<rparr>))
      | _ \<Rightarrow> Inl (InvalidTorrent ''files must be a list''))"

definition string_at :: "dict \<Rightarrow> string \<Rightarrow> string" where
  "string_at d key = (case Get d key of Some (StringVal s) \<Rightarrow> encodeNonUTF8 s | _ \<Rightarrow> [])"

definition info_name :: "dict \<Rightarrow> string" where
  "info_name vals =
     (let n = string_at vals ''name.utf-8'' in if n = [] then string_at vals ''name'' else n)"

definition piece_length_of :: "dict \<Rightarrow> torrent_error + int" where
  "piece_length_of vals =
     (case Get vals ''piece length'' of
        None \<Rightarrow> Inl (InvalidTorrent ''missing piece length in info'')
      | Some (IntVal i) \<Rightarrow>
          if i < 0 then Inl (InvalidTorrent ''piece length must be non-negative'') else Inr i
      | Some _ \<Rightarrow> Inl (InvalidTorrent ''piece length must be an integer''))"

definition pieces_of :: "dict \<Rightarrow> torrent_error + string" where
  "pieces_of vals =
     (case Get vals ''pieces'' of
        None \<Rightarrow> Inl (InvalidTorrent ''missing pieces in info'')
      | Some (StringVal s) \<Rightarrow>
          if length s mod 20 \<noteq> 0 then Inl (InvalidTorrent ''pieces length must be a multiple of 20'') else Inr s
      | Some _ \<Rightarrow> Inl (InvalidTorrent ''pieces must be a string''))"

definition meta_version_of :: "dict \<Rightarrow> torrent_error + int" where
  "meta_version_of vals =
     (case Get vals ''meta version'' of
        None \<Rightarrow> Inr 0
      | Some (IntVal i) \<Rightarrow> Inr i
      | Some _ \<Rightarrow> Inl (InvalidTorrent ''meta version must be an integer''))"

definition check_piece_count :: "Info \<Rightarrow> torrent_error + Info" where
  "check_piece_count info =
     (if 0 < info_PieceLength info \<and> info_Pieces info \<noteq> []
         \<and> wrap64 (info_Length info + info_PieceLength info - 1) sdiv info_PieceLength info
             \<noteq> int (length (info_Pieces info) div 20)
      then Inl (InvalidTorrent ''piece count mismatch'') else Inr info)"

definition parseInfo :: "dict \<Rightarrow> torrent_error + Info" where
  "parseInfo vals =
     (if detectDirTraversal (info_name vals) then Inl (InvalidTorrent ''directory traversal detected in name'')
      else
        rbind (piece_length_of vals) (\<lambda>pl.
        rbind (pieces_of vals) (\<lambda>pieces.
        rbind (meta_version_of vals) (\<lambda>mv.
          let info = \<lparr>info_Name = info_name vals, info_PieceLength = pl, info_Pieces = pieces, info_Length = 0,
                      info_Files = [], info_Private = (Get vals ''private'' = Some (IntVal 1)),
                      info_MetaVersion = mv\<rparr>;
              hasLength = (Get vals ''length'' \<noteq> None); hasFiles = (Get vals ''files'' \<noteq> None)
          in if hasLength \<and> hasFiles then Inl (InvalidTorrent ''info has both length and files'')
             else rbind (if hasFiles then parseMultiFile info vals
                         else parseSingleFile info (Get vals ''length'')) check_piece_count))))"

section \<open>Loading\<close>

definition string_field :: "dict \<Rightarrow> string \<Rightarrow> torrent_error + string option" where
  "string_field raw key =
     (case Get raw key of
        None \<Rightarrow> Inr None
      | Some (StringVal s) \<Rightarrow> Inr (Some s)
      | Some _ \<Rightarrow> Inl (InvalidTorrent (key @ '' must be a string'')))"

definition creation_date :: "dict \<Rightarrow> torrent_error + int" where
  "creation_date raw =
     (case Get raw ''creation date'' of
        None \<Rightarrow> Inr 0
      | Some (IntVal i) \<Rightarrow> Inr i
      | Some _ \<Rightarrow> Inl (InvalidTorrent ''creation date must be an integer''))"

definition comment_of :: "dict \<Rightarrow> string" where
  "comment_of raw =
     (if Get raw ''comment.utf-8'' \<noteq> None then string_at raw ''comment.utf-8'' else string_at raw ''comment'')"

definition or_empty :: "string option \<Rightarrow> string" where
  "or_empty s = (case s of None \<Rightarrow> [] | Some t \<Rightarrow> t)"

definition build_meta :: "string \<Rightarrow> dict \<Rightarrow> torrent_error + MetaInfo" where
  "build_meta data raw =
     rbind (string_field raw ''announce'') (\<lambda>ann.
     rbind (creation_date raw) (\<lambda>cd.
     rbind (string_field raw ''created by'') (\<lambda>cb.
     rbind (string_field raw ''encoding'') (\<lambda>enc.
       case Get raw ''info'' of
         None \<Rightarrow> Inl NoInfo
       | Some (DictVal infoDict) \<Rightarrow>
           rbind (parseInfo infoDict) (\<lambda>info.
             let announce = TrimSpace (or_empty ann) in
             Inr \<lparr>mi_Announce = announce, mi_AnnounceList = parseAnnounceList raw announce,
                  mi_CreationDate = cd, mi_Comment = comment_of raw,
                  mi_CreatedBy = encodeNonUTF8 (or_empty cb), mi_Encoding = or_empty enc, mi_Info = info,
                  mi_URLList = parseURLList raw, mi_Nodes = parseNodes raw, mi_Raw = data,
                  mi_infoRaw = (case findRawValue data ''info'' of Inl e \<Rightarrow> [] | Inr b \<Rightarrow> b)\<rparr>)
       | Some _ \<Rightarrow> Inl (InvalidTorrent ''info must be a dictionary'')))))"

definition Load :: "nat \<Rightarrow> string \<Rightarrow> (torrent_error + MetaInfo) option" where
  "Load max_alloc data =
     (case Unmarshal max_alloc (Some KindDict) data of
        None \<Rightarrow> None
      | Some (Inl e) \<Rightarrow> Some (Inl (BencodeError e))
      | Some (Inr (DictVal raw)) \<Rightarrow>
          Some (case scanBencodeValue data 0 of
                  Inl e \<Rightarrow> Inl (ScanError e)
                | Inr fin \<Rightarrow>
                    if fin \<noteq> int (length data)
                    then Inl (InvalidTorrent ''trailing data after top-level dictionary'')
                    else build_meta data raw)
      | Some (Inr _) \<Rightarrow> Some (Inl (BencodeError (ErrInvalidBencode ''expected dict''))))"

definition InfoHash :: "(string \<Rightarrow> byte list) \<Rightarrow> MetaInfo \<Rightarrow> torrent_error + byte list" where
  "InfoHash sha1 m = (if mi_infoRaw m = [] then Inl InfoNotAvailable else Inr (sha1 (mi_infoRaw m)))"

definition InfoHashV2 :: "(string \<Rightarrow> byte list) \<Rightarrow> MetaInfo \<Rightarrow> torrent_error + byte list" where
  "InfoHashV2 sha256 m =
     (if info_MetaVersion (mi_Info m) \<noteq> 2 then Inl NotV2
      else if mi_infoRaw m = [] then Inl InfoNotAvailable
      else Inr (sha256 (mi_infoRaw m)))"

definition TotalSize :: "MetaInfo \<Rightarrow> int" where
  "TotalSize m = info_Length (mi_Info m)"

definition NumPieces :: "MetaInfo \<Rightarrow> nat" where
  "NumPieces m = length (info_Pieces (mi_Info m)) div 20"

definition PieceLen :: "MetaInfo \<Rightarrow> int" where
  "PieceLen m = info_PieceLength (mi_Info m)"

section \<open>A torrent from metadata (metadata.go)\<close>

definition announce_value :: "string list list \<Rightarrow> Value list" where
  "announce_value announceList = map (\<lambda>tier. ListVal (map StringVal tier)) (filter (\<lambda>t. t \<noteq> []) announceList)"

definition FromMetadata :: "string \<Rightarrow> string list list \<Rightarrow> torrent_error + string" where
  "FromMetadata infoRaw announceList =
     (if infoRaw = [] then Inl EmptyMetadata
      else case scanBencodeValue infoRaw 0 of
             Inl e \<Rightarrow> Inl (ScanError e)
           | Inr fin \<Rightarrow>
               if fin \<noteq> int (length infoRaw) then Inl TrailingData
               else
                 let al = announce_value announceList in
                 Inr (''d'' @ (if al = [] then [] else ''13:announce-list'' @ Marshal (ListVal al))
                      @ ''4:info'' @ infoRaw @ ''e''))"

section \<open>The scanner skips what the decoder consumes\<close>

text \<open>\<open>skippable w\<close>: inside a list or dictionary the scanner moves over \<open>w\<close>, whatever surrounds it.\<close>

definition skippable :: "string \<Rightarrow> bool" where
  "skippable w \<longleftrightarrow>
     (\<forall>p t d. length (p @ w @ t) < 2 ^ 63 \<longrightarrow>
        scan_nested (p @ w @ t) (Suc d) (length p) = scan_nested (p @ w @ t) (Suc d) (length p + length w))"

definition value_text :: "string \<Rightarrow> bool" where
  "value_text w \<longleftrightarrow>
     (\<forall>p t. length (p @ w @ t) < 2 ^ 63 \<longrightarrow>
        scanBencodeValue (p @ w @ t) (length p) = Inr (int (length p + length w)))"

lemma skippable_Nil [simp]: "skippable []"
  by (simp add: skippable_def)

lemma skippable_append: "skippable v \<Longrightarrow> skippable w \<Longrightarrow> skippable (v @ w)"
  unfolding skippable_def
proof (intro allI impI)
  fix p t d
  assume v: "\<forall>p t d. length (p @ v @ t) < 2 ^ 63 \<longrightarrow>
        scan_nested (p @ v @ t) (Suc d) (length p) = scan_nested (p @ v @ t) (Suc d) (length p + length v)"
    and w: "\<forall>p t d. length (p @ w @ t) < 2 ^ 63 \<longrightarrow>
        scan_nested (p @ w @ t) (Suc d) (length p) = scan_nested (p @ w @ t) (Suc d) (length p + length w)"
    and len: "length (p @ (v @ w) @ t) < 2 ^ 63"
  show "scan_nested (p @ (v @ w) @ t) (Suc d) (length p)
      = scan_nested (p @ (v @ w) @ t) (Suc d) (length p + length (v @ w))"
    using v [rule_format, of p "w @ t" d] w [rule_format, of "p @ v" t d] len by (simp add: add.assoc)
qed

lemma skippable_concat: "(\<And>w. w \<in> set ws \<Longrightarrow> skippable w) \<Longrightarrow> skippable (concat ws)"
  by (induction ws) (auto intro: skippable_append)

lemma scan_string_text:
  assumes "parseDecimal ds = Inr (int (length body))" and "CHR '':'' \<notin> set ds"
    and "length (p @ ds @ CHR '':'' # body @ t) < 2 ^ 63"
  shows "scan_string (p @ ds @ CHR '':'' # body @ t) (length p) = Inr (int (length p + length ds + 1 + length body))"
proof -
  have "wrap64 (int (length p) + int (length ds) + 1 + int (length body)) = int (length p) + int (length ds) + 1 + int (length body)"
    using assms(3) by (intro wrap64_id) auto
  then show ?thesis using assms by (simp add: scan_string_def IndexByte_skip add.assoc)
qed

lemma string_text:
  assumes "parseDecimal ds = Inr (int (length body))" and "ds \<noteq> []" "\<forall>c\<in>set ds. is_digit c"
  shows "skippable (ds @ CHR '':'' # body)" "value_text (ds @ CHR '':'' # body)"
proof -
  obtain c cs where ds: "ds = c # cs" using assms(2) by (cases ds) auto
  then have dig: "is_digit c" using assms(3) by simp
  then have c: "c \<noteq> CHR ''l''" "c \<noteq> CHR ''d''" "c \<noteq> CHR ''e''" "c \<noteq> CHR ''i''" by (auto simp: is_digit_iff)
  have "CHR '':'' \<notin> set ds" using assms(3) by (auto simp: is_digit_iff)
  note scan = scan_string_text [OF assms(1) this]
  have nth: "(p @ (ds @ CHR '':'' # body) @ t) ! length p = c" for p t by (simp add: ds nth_append)
  have "scan_nested (p @ (ds @ CHR '':'' # body) @ t) (Suc d) (length p)
      = scan_nested (p @ (ds @ CHR '':'' # body) @ t) (Suc d) (length p + length (ds @ CHR '':'' # body))"
    if "length (p @ (ds @ CHR '':'' # body) @ t) < 2 ^ 63" for p t d
    using scan [of p t] that dig c nth [of p t]
    by (subst scan_nested.simps) (simp add: ds nat_add_distrib Suc_diff_le algebra_simps)
  then show "skippable (ds @ CHR '':'' # body)" by (simp add: skippable_def)
  have "scanBencodeValue (p @ (ds @ CHR '':'' # body) @ t) (length p) = Inr (int (length p + length (ds @ CHR '':'' # body)))"
    if "length (p @ (ds @ CHR '':'' # body) @ t) < 2 ^ 63" for p t
    using scan [of p t] that dig c nth [of p t]
    by (simp add: scanBencodeValue_def ds)
  then show "value_text (ds @ CHR '':'' # body)" by (simp add: value_text_def)
qed

lemma int_text:
  assumes "CHR ''e'' \<notin> set w"
  shows "skippable (CHR ''i'' # w @ ''e'')" "value_text (CHR ''i'' # w @ ''e'')"
proof -
  let ?w = "CHR ''i'' # w @ ''e''"
  have nth: "(p @ ?w @ t) ! length p = CHR ''i''" for p t by (simp add: nth_append)
  have idx: "IndexByte (drop (length p + 1) (p @ ?w @ t)) (CHR ''e'') = Some (length w)" for p t
    using IndexByte_skip [OF assms, of t] by simp
  have "scan_nested (p @ ?w @ t) (Suc d) (length p) = scan_nested (p @ ?w @ t) (Suc d) (length p + length ?w)" for p t d
    by (subst scan_nested.simps) (use nth [of p t] idx [of p t] in \<open>simp add: is_digit_iff\<close>)
  then show "skippable ?w" by (simp add: skippable_def)
  show "value_text ?w"
    unfolding value_text_def using nth idx by (auto simp: scanBencodeValue_def)
qed

lemma container_text:
  assumes "skippable w" and "c = CHR ''l'' \<or> c = CHR ''d''"
  shows "skippable (c # w @ ''e'')" "value_text (c # w @ ''e'')"
proof -
  let ?w = "c # w @ ''e''"
  have nth: "(p @ ?w @ t) ! length p = c" "(p @ ?w @ t) ! (length p + 1 + length w) = CHR ''e''" for p t
    by (simp_all add: nth_append)
  have body: "scan_nested (p @ ?w @ t) (Suc d) (length p + 1) = scan_nested (p @ ?w @ t) d (length p + length ?w)"
    if "length (p @ ?w @ t) < 2 ^ 63" for p t d
  proof -
    have "scan_nested (p @ ?w @ t) (Suc d) (length p + 1) = scan_nested (p @ ?w @ t) (Suc d) (length p + 1 + length w)"
      using assms(1) [unfolded skippable_def, rule_format, of "p @ [c]" "''e'' @ t" d] that by simp
    also have "\<dots> = scan_nested (p @ ?w @ t) d (length p + length ?w)"
      by (subst scan_nested.simps) (use nth(2) [of p t] in simp)
    finally show ?thesis .
  qed
  have "scan_nested (p @ ?w @ t) (Suc d) (length p) = scan_nested (p @ ?w @ t) (Suc (Suc d)) (length p + 1)" for p t d
    by (subst scan_nested.simps) (use nth(1) [of p t] assms(2) in auto)
  with body show "skippable ?w" unfolding skippable_def by simp
  have "scan_nested (p @ ?w @ t) 1 (length p + 1) = Inr (length p + length ?w)" if "length (p @ ?w @ t) < 2 ^ 63" for p t
    using body [of p t 0] that by (simp add: scan_nested.simps [of _ 0])
  then show "value_text ?w"
    unfolding value_text_def using nth(1) assms(2) by (auto simp: scanBencodeValue_def is_digit_iff)
qed

lemma parse_digits_mono: "parse_digits b mx n cs = Inr k \<Longrightarrow> mx \<le> mx' \<Longrightarrow> parse_digits b mx' n cs = Inr k"
  by (induction cs arbitrary: n) (auto split: option.splits if_splits)

lemma parse_digits_le: "parse_digits b mx n cs = Inr k \<Longrightarrow> n \<le> mx \<Longrightarrow> k \<le> mx"
  by (induction cs arbitrary: n) (auto split: option.splits if_splits)

lemma read_decimal_loop_parse:
  assumes "read_decimal_loop (int r) s = Inr (n, rest)"
  shows "\<exists>ds. s = ds @ rest \<and> (\<forall>c\<in>set ds. is_digit c) \<and> parse_digits 10 (2 ^ 63 - 1) r ds = Inr (nat n) \<and> 0 \<le> n"
  using assms
proof (induction s arbitrary: r)
  case Nil
  then show ?case by (auto intro: exI [of _ "[]"])
next
  case (Cons c s)
  show ?case
  proof (cases "is_digit c")
    case False
    with Cons.prems show ?thesis by (auto intro: exI [of _ "[]"])
  next
    case True
    define d where "d = (of_char c - 48 :: nat)"
    have d: "d < 10" "int (of_char c) - 48 = int d" "digit_val c = Some d"
      using True unfolding d_def by (auto intro: digit_value)
    have room: "\<not> max_int64 < int r * 10 + int d"
      using Cons.prems True d(1,2) digit_room [of "int d" "int r"] by (auto simp: Let_def split: if_splits)
    have "read_decimal_loop (int (r * 10 + d)) s = Inr (n, rest)"
      using Cons.prems True d(1,2) by (auto simp: Let_def split: if_splits)
    from Cons.IH [OF this] obtain ds where ds: "s = ds @ rest" "\<forall>c\<in>set ds. is_digit c"
      "parse_digits 10 (2 ^ 63 - 1) (r * 10 + d) ds = Inr (nat n)" "0 \<le> n" by auto
    have "r * 10 + d \<le> 2 ^ 63 - 1" using room by simp
    with ds d True show ?thesis by (intro exI [of _ "c # ds"]) auto
  qed
qed

lemma parseDecimal_digits:
  assumes "\<forall>c\<in>set ds. is_digit c" and "ds \<noteq> []" and "parse_digits 10 (2 ^ 63 - 1) 0 ds = Inr n"
  shows "parseDecimal ds = Inr (int n)"
proof -
  obtain c cs where ds: "ds = c # cs" using assms(2) by (cases ds) auto
  have c: "c \<noteq> CHR ''-''" "c \<noteq> CHR ''+''" using assms(1) ds by (auto simp: is_digit_iff)
  have "parse_digits 10 (2 ^ 64 - 1) 0 ds = Inr n" using parse_digits_mono [OF assms(3)] by simp
  then have "ParseUint ds 10 64 = Inr n" by (simp add: ParseUint_def ds)
  moreover have "n < 2 ^ 63" using parse_digits_le [OF assms(3)] by simp
  ultimately have "ParseInt ds 10 64 = Inr (int n)" using c by (simp add: ParseInt_def ds)
  then show ?thesis by (simp add: parseDecimal_def ds)
qed

lemma decodeString_text:
  assumes "decodeString m s = Inr (t, r)"
  shows "\<exists>ds. s = ds @ CHR '':'' # t @ r \<and> ds \<noteq> [] \<and> (\<forall>c\<in>set ds. is_digit c) \<and> parseDecimal ds = Inr (int (length t))"
proof -
  from assms obtain len q where r: "readDecimal s = Inr (len, CHR '':'' # q)" "readFull m len q = Inr (t, r)" "0 \<le> len"
    by (auto simp: decodeString_def split: sum.splits list.splits if_splits)
  from r(1) obtain b bs where s: "s = b # bs" "is_digit b" "read_decimal_loop (int (of_char b) - 48) bs = Inr (len, CHR '':'' # q)"
    by (auto simp: readDecimal_def split: list.splits if_splits)
  define d where "d = (of_char b - 48 :: nat)"
  have d: "d < 10" "int (of_char b) - 48 = int d" "digit_val b = Some d"
    using s(2) unfolding d_def by (auto intro: digit_value)
  from read_decimal_loop_parse [of d bs len] s(3) d(2) obtain ds where ds: "bs = ds @ CHR '':'' # q"
    "\<forall>c\<in>set ds. is_digit c" "parse_digits 10 (2 ^ 63 - 1) d ds = Inr (nat len)" by auto
  have dig: "\<forall>c\<in>set (b # ds). is_digit c" using ds(2) s(2) by simp
  have "parse_digits 10 (2 ^ 63 - 1) 0 (b # ds) = Inr (nat len)" using ds(3) d by simp
  then have P: "parseDecimal (b # ds) = Inr len" using parseDecimal_digits [OF dig] r(3) by simp
  have "q = t @ r \<and> int (length t) = len" using r(2,3) by (auto simp: readFull_def split: if_splits)
  then show ?thesis using ds(1) s(1) dig P by (intro exI [of _ "b # ds"]) auto
qed

lemma skip_float_text: "skip_float s = Inr (i, r) \<Longrightarrow> \<exists>w. s = w @ CHR ''e'' # r \<and> CHR ''e'' \<notin> set w"
proof (induction s)
  case (Cons c s)
  then show ?case by (auto split: if_splits intro: exI [of _ "[]"])
qed simp

lemma decodeInt_text:
  assumes "decodeInt s = Inr (i, r)" and "s \<noteq> []" "hd s = CHR ''i''"
  shows "\<exists>w. s = CHR ''i'' # w @ CHR ''e'' # r \<and> CHR ''e'' \<notin> set w"
proof -
  obtain body where s: "s = CHR ''i'' # body" using assms(2,3) by (cases s) auto
  define sg where "sg = (if body \<noteq> [] \<and> (hd body = CHR ''-'' \<or> hd body = CHR ''+'') then [hd body] else [])"
  define tail where "tail = drop (length sg) body"
  have body: "body = sg @ tail" "CHR ''e'' \<notin> set sg" by (cases body; force simp: sg_def tail_def)+
  have ne: "body \<noteq> []" using assms(1) by (auto simp: decodeInt_def s)
  have D: "decodeInt s = (case tail of
               [] \<Rightarrow> Inl ErrUnexpectedEOF
             | c # cs \<Rightarrow>
                 if \<not> is_digit c then Inl (ErrInvalidBencode ''expected digit in integer'')
                 else
                   case dropWhile is_digit cs of
                     [] \<Rightarrow> Inl ErrUnexpectedEOF
                   | nextB # after \<Rightarrow>
                       if nextB = CHR ''.'' \<or> nextB = CHR ''E'' \<or> nextB = CHR ''+'' \<or> nextB = CHR ''-''
                       then skip_float (nextB # after)
                       else if nextB \<noteq> CHR ''e''
                       then Inl (ErrInvalidBencode ''expected 'e' to terminate integer'')
                       else rbind (finish_int (sg @ c # takeWhile is_digit cs)) (\<lambda>i. Inr (i, after)))"
  proof -
    obtain a l where al: "body = a # l" using ne by (cases body) auto
    show ?thesis
    proof (cases "a = CHR ''-'' \<or> a = CHR ''+''")
      case True
      then have sg: "sg = [a]" and tl: "tail = l" by (auto simp: sg_def tail_def al)
      show ?thesis unfolding decodeInt_def s al list.sel list.case Let_def if_P [OF True] sg tl ..
    next
      case False
      then have sg: "sg = []" and tl: "tail = a # l" by (auto simp: sg_def tail_def al)
      show ?thesis unfolding decodeInt_def s al list.sel list.case Let_def if_not_P [OF False] sg tl ..
    qed
  qed
  obtain c cs where cs: "tail = c # cs" using assms(1) D by (cases tail) auto
  have c: "is_digit c" using assms(1) D cs by (auto split: if_splits)
  obtain nextB after where N: "dropWhile is_digit cs = nextB # after"
    using assms(1) D cs c by (cases "dropWhile is_digit cs") auto
  have N2: "skip_float (nextB # after) = Inr (i, r) \<or> nextB = CHR ''e'' \<and> after = r"
    using assms(1) unfolding D cs N list.case
    by (simp only: c simp_thms if_False rbind_eq_Inr split: if_splits) auto
  obtain w where w: "nextB # after = w @ CHR ''e'' # r" "CHR ''e'' \<notin> set w"
    using skip_float_text [of "nextB # after"] N2 by (metis append_Nil empty_iff empty_set)
  have "cs = takeWhile is_digit cs @ w @ CHR ''e'' # r" using N w(1) by (metis takeWhile_dropWhile_id)
  moreover have "CHR ''e'' \<notin> set (takeWhile is_digit cs)" "c \<noteq> CHR ''e''"
    using c by (auto simp: is_digit_iff dest!: set_takeWhileD)
  ultimately show ?thesis using body cs s w(2)
    by (intro exI [of _ "sg @ c # takeWhile is_digit cs @ w"]) auto
qed

definition skips :: "(string \<Rightarrow> (dec_error + Value \<times> string) option) \<Rightarrow> bool" where
  "skips dec \<longleftrightarrow> (\<forall>s v r. dec s = Some (Inr (v, r)) \<longrightarrow> (\<exists>w. s = w @ r \<and> skippable w \<and> value_text w))"

lemma skipsD: "skips dec \<Longrightarrow> dec s = Some (Inr (v, r)) \<Longrightarrow> \<exists>w. s = w @ r \<and> skippable w \<and> value_text w"
  by (auto simp: skips_def)

lemma decode_list_skips:
  "skips dec \<Longrightarrow> decode_list dec f items s = Some (Inr (v, r)) \<Longrightarrow> \<exists>w. s = w @ CHR ''e'' # r \<and> skippable w"
proof (induction f arbitrary: items s)
  case (Suc f)
  show ?case
  proof (cases "s = [] \<or> hd s = CHR ''e''")
    case True
    with Suc.prems(2) show ?thesis by (cases s) (auto intro!: exI [of _ "[]"] split: if_splits)
  next
    case False
    with Suc.prems(2) obtain x rest where
      x: "dec s = Some (Inr (x, rest))" "decode_list dec f (items @ [x]) rest = Some (Inr (v, r))"
      by (auto simp: dbind_eq_Some_Inr)
    from skipsD [OF Suc.prems(1) x(1)] Suc.IH [OF Suc.prems(1) x(2)]
    obtain w w' where "s = w @ rest" "skippable w" "rest = w' @ CHR ''e'' # r" "skippable w'" by blast
    then show ?thesis by (intro exI [of _ "w @ w'"]) (auto intro: skippable_append)
  qed
qed simp

lemma decode_dict_skips:
  "skips dec \<Longrightarrow> decode_dict m dec f dict lastKey s = Some (Inr (v, r)) \<Longrightarrow> \<exists>w. s = w @ CHR ''e'' # r \<and> skippable w"
proof (induction f arbitrary: dict lastKey s)
  case (Suc f)
  show ?case
  proof (cases "s = [] \<or> hd s = CHR ''e'' \<or> \<not> is_digit (hd s)")
    case True
    with Suc.prems(2) show ?thesis by (cases s) (auto intro!: exI [of _ "[]"] split: if_splits)
  next
    case False
    with Suc.prems(2) obtain key s1 val s2 where *: "decodeString m s = Inr (key, s1)"
      "dec s1 = Some (Inr (val, s2))" "decode_dict m dec f (Set dict key val) key s2 = Some (Inr (v, r))"
      by (auto simp: dbind_eq_Some_Inr split: if_splits)
    from decodeString_text [OF *(1)] obtain ds where ds: "s = (ds @ CHR '':'' # key) @ s1" "skippable (ds @ CHR '':'' # key)"
      using string_text(1) by force
    from skipsD [OF Suc.prems(1) *(2)] Suc.IH [OF Suc.prems(1) *(3)]
    obtain w w' where "s1 = w @ s2" "skippable w" "s2 = w' @ CHR ''e'' # r" "skippable w'" by blast
    with ds show ?thesis
      by (intro exI [of _ "(ds @ CHR '':'' # key) @ w @ w'"]) (auto intro!: skippable_append simp del: append_assoc)
  qed
qed simp

lemma skips_decodeWithDepth: "skips (decodeWithDepth f m depth)"
proof (induction f arbitrary: depth)
  case (Suc f)
  show ?case
    unfolding skips_def
  proof (intro allI impI)
    fix s v r
    assume dec: "decodeWithDepth (Suc f) m depth s = Some (Inr (v, r))"
    let ?dec = "decodeWithDepth f m (depth + 1)"
    note IH = Suc [of "depth + 1"]
    from dec consider
        (str) t where "decodeString m s = Inr (t, r)"
      | (int) i where "decodeInt s = Inr (i, r)" "s \<noteq> []" "hd s = CHR ''i''"
      | (lst) "hd s = CHR ''l''" "s \<noteq> []" "decode_list ?dec (length s) [] (tl s) = Some (Inr (v, r))"
      | (dct) "hd s = CHR ''d''" "s \<noteq> []" "decode_dict m ?dec (length s) [] [] (tl s) = Some (Inr (v, r))"
      by (auto simp: decodeList_def decodeDict_def rbind_eq_Inr simp del: decode_list.simps decode_dict.simps split: if_splits)
    then show "\<exists>w. s = w @ r \<and> skippable w \<and> value_text w"
    proof cases
      case str
      from decodeString_text [OF this] obtain ds where
        "s = (ds @ CHR '':'' # t) @ r" "skippable (ds @ CHR '':'' # t)" "value_text (ds @ CHR '':'' # t)"
        using string_text by force
      then show ?thesis by blast
    next
      case int
      from decodeInt_text [OF int] obtain w where "s = (CHR ''i'' # w @ ''e'') @ r" "CHR ''e'' \<notin> set w" by auto
      with int_text [of w] show ?thesis by blast
    next
      case lst
      from decode_list_skips [OF IH lst(3)] lst(1,2) obtain w where "s = (CHR ''l'' # w @ ''e'') @ r" "skippable w"
        by (cases s) auto
      with container_text [of w] show ?thesis by blast
    next
      case dct
      from decode_dict_skips [OF IH dct(3)] dct(1,2) obtain w where "s = (CHR ''d'' # w @ ''e'') @ r" "skippable w"
        by (cases s) auto
      with container_text [of w] show ?thesis by blast
    qed
  qed
qed (simp add: skips_def)

lemma scan_agrees_with_decoder:
  assumes "Decode m data = Some (Inr (v, rest))" and "length data < 2 ^ 63"
  shows "scanBencodeValue data 0 = Inr (int (length data) - int (length rest))"
proof -
  from skipsD [OF skips_decodeWithDepth assms(1) [unfolded Decode_def]] obtain w
    where w: "data = w @ rest" "value_text w" by blast
  from w(2) [unfolded value_text_def, rule_format, of "[]" rest] assms(2) w(1) show ?thesis by simp
qed

section \<open>Raw bytes of an entry\<close>

lemma value_text_appendValue:
  assumes "value_ok m v k" and "k \<le> maxDepth"
  shows "value_text (appendValue v)" "appendValue v \<noteq> []"
proof -
  have "decodeWithDepth (Suc k) m (maxDepth - k) (appendValue v @ []) = Some (Inr (canon v, []))"
    using assms by (intro decode_appendValue) auto
  from skipsD [OF skips_decodeWithDepth this] show "value_text (appendValue v)" by auto
  show "appendValue v \<noteq> []" using appendValue_start(1) by blast
qed

lemma parseDecimal_FormatUint: "n < 2 ^ 63 \<Longrightarrow> parseDecimal (FormatUint n) = Inr (int n)"
  using parseDecimal_digits [of "FormatUint n" n] FormatUint_digits [of _ n] parse_digits_FormatUint [of n "2 ^ 63 - 1"]
  by (simp add: FormatUint_nonempty)

lemma raw_loop_entry:
  assumes "value_text w" and "w \<noteq> []" and len: "length (p @ appendString k @ w @ t) < 2 ^ 63"
  shows "raw_loop (p @ appendString k @ w @ t) key (length p)
       = (if k = key then Inr w else raw_loop (p @ appendString k @ w @ t) key (length p + length (appendString k) + length w))"
proof -
  let ?data = "p @ appendString k @ w @ t"
  obtain c cs where c: "FormatUint (length k) = c # cs" by (meson FormatUint_nonempty neq_Nil_conv)
  have dig: "x \<in> set (FormatUint (length k)) \<Longrightarrow> is_digit x" for x using FormatUint_digits by auto
  then have "c \<noteq> CHR ''e''" using c by (force simp: is_digit_iff)
  moreover have "?data ! length p = c" by (simp add: appendString_def c nth_append)
  ultimately have C1: "\<not> (length ?data \<le> length p \<or> ?data ! length p = CHR ''e'')"
    by (simp add: appendString_def)
  have "CHR '':'' \<notin> set (FormatUint (length k))" using dig by (force simp: is_digit_iff)
  then have I: "IndexByte (drop (length p) ?data) (CHR '':'') = Some (length (FormatUint (length k)))"
    by (simp add: appendString_def IndexByte_skip)
  have P: "parseDecimal (take (length (FormatUint (length k))) (drop (length p) ?data)) = Inr (int (length k))"
    using len by (simp add: appendString_def parseDecimal_FormatUint)
  define ks where "ks = length p + length (FormatUint (length k)) + 1"
  have ks: "ks + length k = length p + length (appendString k)" by (simp add: ks_def appendString_def)
  have W: "wrap64 (int ks + int (length k)) = int (ks + length k)"
    unfolding of_nat_add [symmetric] using len ks by (intro wrap64_id) auto
  have S: "scanBencodeValue ?data (ks + length k) = Inr (int (ks + length k + length w))"
    using assms(1) [unfolded value_text_def, rule_format, of "p @ appendString k" t] len ks by (simp add: add.assoc)
  have K: "slice ks (ks + length k) ?data = k" "slice (ks + length k) (ks + length k + length w) ?data = w"
    by (simp_all add: slice_def ks_def appendString_def)
  have C2: "\<not> int (length ?data) < int (ks + length k)" using ks by simp
  have C3: "\<not> int (ks + length k) < int ks" by simp
  have C4: "\<not> int (ks + length k + length w) \<le> int (ks + length k)" using assms(2) by simp
  note step = raw_loop.simps [of ?data key "length p"]
  show ?thesis
    unfolding step if_not_P [OF C1] I option.case P sum.case Let_def ks_def [symmetric] W
      if_not_P [OF C2] if_not_P [OF C3] nat_int S sum.case if_not_P [OF C4] K by (simp only: ks)
qed

lemma raw_loop_entries:
  assumes "\<And>k w. (k, w) \<in> set es \<Longrightarrow> value_text w \<and> w \<noteq> []"
    and "length (p @ concat (map (\<lambda>(k, w). appendString k @ w) es) @ ''e'' @ t) < 2 ^ 63"
  shows "raw_loop (p @ concat (map (\<lambda>(k, w). appendString k @ w) es) @ ''e'' @ t) key (length p)
       = (case map_of es key of None \<Rightarrow> Inl KeyNotFound | Some w \<Rightarrow> Inr w)"
  using assms
proof (induction es arbitrary: p)
  case Nil
  then show ?case by (subst raw_loop.simps) (simp add: nth_append)
next
  case (Cons e es)
  obtain k w where e: "e = (k, w)" by (cases e)
  let ?rest = "concat (map (\<lambda>(k, w). appendString k @ w) es) @ ''e'' @ t"
  have "raw_loop ((p @ appendString k @ w) @ ?rest) key (length (p @ appendString k @ w))
       = (case map_of es key of None \<Rightarrow> Inl KeyNotFound | Some w \<Rightarrow> Inr w)"
    by (rule Cons.IH) (use Cons.prems in \<open>auto simp: e\<close>)
  moreover have "raw_loop (p @ appendString k @ w @ ?rest) key (length p)
      = (if k = key then Inr w else raw_loop (p @ appendString k @ w @ ?rest) key (length p + length (appendString k) + length w))"
    by (rule raw_loop_entry) (use Cons.prems in \<open>auto simp: e\<close>)
  ultimately show ?case by (simp add: e add.assoc)
qed

lemma findRawValue_Marshal:
  assumes "value_ok m (DictVal es) k" and "k \<le> maxDepth" and "length (Marshal (DictVal es)) < 2 ^ 63"
  shows "findRawValue (Marshal (DictVal es)) key
       = (case map_of es key of None \<Rightarrow> Inl KeyNotFound | Some v \<Rightarrow> Inr (Marshal v))"
proof -
  let ?es = "map (map_prod id appendValue) (sort_key fst es)"
  have conc: "map (\<lambda>(k, w). appendString k @ w) ?es = map (\<lambda>(k, v). appendString k @ appendValue v) (sort_key fst es)" by auto
  have M: "Marshal (DictVal es) = ''d'' @ concat (map (\<lambda>(k, w). appendString k @ w) ?es) @ ''e'' @ []"
    unfolding Marshal_def appendValue_DictVal conc by simp
  have "value_text w \<and> w \<noteq> []" if "(key, w) \<in> set ?es" for key w
  proof -
    from that obtain v where v: "w = appendValue v" "(key, v) \<in> set es" by auto
    then have "value_ok m v (k - 1)" using assms(1) by force
    with value_text_appendValue [of m v "k - 1"] assms(2) v(1) show ?thesis by simp
  qed
  from raw_loop_entries [of ?es "''d''" "[]" key, OF this] assms(3)
  have "raw_loop (Marshal (DictVal es)) key 1 = (case map_of ?es key of None \<Rightarrow> Inl KeyNotFound | Some w \<Rightarrow> Inr w)"
    unfolding M by simp
  moreover have "map_of ?es = map_option appendValue \<circ> map_of es"
    using map_of_sort_key [of es] assms(1) by (simp add: map_prod_def id_def map_of_map)
  moreover have "findRawValue (Marshal (DictVal es)) key = raw_loop (Marshal (DictVal es)) key 1"
    by (simp add: findRawValue_def M)
  ultimately show ?thesis by (cases "map_of es key") (simp_all add: Marshal_def)
qed

section \<open>What a loaded torrent holds\<close>

lemma Load_Inr:
  assumes "Load m data = Some (Inr meta)"
  obtains raw rest where "Decode m data = Some (Inr (DictVal raw, rest))" "build_meta data raw = Inr meta"
  using assms by (fastforce simp: Load_def Unmarshal_def dbind_def split: option.splits sum.splits prod.splits Value.splits if_splits)

lemma build_meta_info:
  assumes "build_meta data raw = Inr meta"
  obtains d where "Get raw ''info'' = Some (DictVal d)" "parseInfo d = Inr (mi_Info meta)"
proof (cases "Get raw ''info''")
  case None
  with assms show ?thesis by (auto simp: build_meta_def rbind_eq_Inr)
next
  case (Some v)
  with assms that show ?thesis by (cases v) (auto simp: build_meta_def rbind_eq_Inr Let_def)
qed

lemma value_ok_Get:
  assumes "value_ok m (DictVal es) k" and "Get es key = Some v"
  shows "value_ok m v (k - 1)"
proof -
  have "(key, v) \<in> set es" using assms(2) map_of_SomeD by (fastforce simp: Get_def)
  then have "map_prod id (value_ok m) (key, v) \<in> set (map (map_prod id (value_ok m)) es)" by (simp only: set_map imageI)
  with assms(1) have "snd (map_prod id (value_ok m) (key, v)) (k - 1)" unfolding value_ok.simps by blast
  then show ?thesis by simp
qed

definition safe_name :: "string \<Rightarrow> bool" where
  "safe_name s \<longleftrightarrow> \<not> detectDirTraversal s"

definition file_ok :: "FileInfo \<Rightarrow> bool" where
  "file_ok fi \<longleftrightarrow> 0 \<le> fi_Length fi \<and> fi_Path fi \<noteq> [] \<and> (\<forall>c\<in>set (fi_Path fi). safe_name c)"

lemma parse_path_safe: "parse_path vs = Inr p \<Longrightarrow> length p = length vs \<and> (\<forall>c\<in>set p. safe_name c)"
  by (induction vs arbitrary: p rule: parse_path.induct) (auto simp: Let_def rbind_eq_Inr safe_name_def split: if_splits)

lemma parse_file_ok:
  assumes "parse_file fdv tot = Inr fi"
  shows "file_ok fi" and "tot + fi_Length fi \<le> max_int64"
proof -
  from assms obtain i ps p where "0 \<le> i" "tot + i \<le> max_int64" "ps \<noteq> []" "parse_path ps = Inr p" "fi_Length fi = i" "fi_Path fi = p"
    unfolding parse_file_def by (auto simp: rbind_eq_Inr split: option.splits Value.splits if_splits)
  with parse_path_safe [of ps p] show "file_ok fi" and "tot + fi_Length fi \<le> max_int64" by (auto simp: file_ok_def)
qed

lemma parse_files_ok:
  "parse_files vs t0 = Inr (fis, tot) \<Longrightarrow> t0 \<le> max_int64 \<Longrightarrow>
    tot = t0 + sum_list (map fi_Length fis) \<and> tot \<le> max_int64 \<and> (\<forall>fi\<in>set fis. file_ok fi)"
proof (induction vs t0 arbitrary: fis tot rule: parse_files.induct)
  case (2 fdv vs t0)
  then obtain fi fis' where fi: "parse_file fdv t0 = Inr fi" "parse_files vs (t0 + fi_Length fi) = Inr (fis', tot)" "fis = fi # fis'"
    by (auto simp: rbind_eq_Inr)
  with "2.IH" [OF fi(1,2)] parse_file_ok [OF fi(1)] show ?case by auto
qed auto

definition info_ok :: "Info \<Rightarrow> bool" where
  "info_ok info \<longleftrightarrow>
     safe_name (info_Name info) \<and> (\<forall>fi\<in>set (info_Files info). file_ok fi)
     \<and> 0 \<le> info_PieceLength info \<and> 0 \<le> info_Length info \<and> info_Length info \<le> max_int64
     \<and> length (info_Pieces info) mod 20 = 0
     \<and> (info_Files info \<noteq> [] \<longrightarrow> info_Length info = sum_list (map fi_Length (info_Files info)))
     \<and> (0 < info_PieceLength info \<and> info_Pieces info \<noteq> [] \<longrightarrow>
          (let n = int (length (info_Pieces info) div 20); pl = info_PieceLength info
           in (n - 1) * pl < info_Length info \<and> info_Length info \<le> n * pl))"

lemma piece_count:
  assumes "check_piece_count info = Inr info'" and "0 \<le> info_Length info" "info_Length info \<le> max_int64"
    and "0 < info_PieceLength info" "info_PieceLength info \<le> max_int64" "info_Pieces info \<noteq> []" "length (info_Pieces info) mod 20 = 0"
  shows "(int (length (info_Pieces info) div 20) - 1) * info_PieceLength info < info_Length info
       \<and> info_Length info \<le> int (length (info_Pieces info) div 20) * info_PieceLength info"
proof -
  define L pl n where "L = info_Length info" and "pl = info_PieceLength info" and "n = int (length (info_Pieces info) div 20)"
  have n: "0 < n" using assms(6,7) by (cases "length (info_Pieces info) div 20") (auto simp: n_def)
  have bnd: "0 \<le> L" "L \<le> max_int64" "0 < pl" "pl \<le> max_int64" using assms by (simp_all add: L_def pl_def)
  have eq: "wrap64 (L + pl - 1) sdiv pl = n"
    using assms(1,4,6) by (auto simp: check_piece_count_def L_def pl_def n_def split: if_splits)
  have "L + pl - 1 < 2 ^ 63"
  proof (rule ccontr)
    assume "\<not> L + pl - 1 < 2 ^ 63"
    with bnd have "wrap64 (L + pl - 1) = L + pl - 1 - 2 ^ 64" by (intro wrap64_high) auto
    then have "wrap64 (L + pl - 1) < 0" using bnd by auto
    then have "wrap64 (L + pl - 1) sdiv pl \<le> 0"
      using bnd by (auto simp: signed_divide_int_def sgn_if pos_imp_zdiv_nonneg_iff)
    with eq n show False by simp
  qed
  with eq bnd have "(L + pl - 1) div pl = n" by simp
  with div_eq_iff_int [OF bnd(3), of "L + pl - 1" n] show ?thesis
    unfolding L_def [symmetric] pl_def [symmetric] n_def [symmetric] by (simp add: algebra_simps)
qed

lemma parseInfo_ok:
  assumes "parseInfo d = Inr info" and "value_ok m (DictVal d) k"
  shows "info_ok info"
proof -
  from assms(1) obtain pl pieces mv where name: "safe_name (info_name d)"
    and pl: "piece_length_of d = Inr pl" and pieces: "pieces_of d = Inr pieces"
    and rest: "(let info = \<lparr>info_Name = info_name d, info_PieceLength = pl, info_Pieces = pieces, info_Length = 0,
                      info_Files = [], info_Private = (Get d ''private'' = Some (IntVal 1)),
                      info_MetaVersion = mv\<rparr> in
               rbind (if Get d ''files'' \<noteq> None then parseMultiFile info d
                         else parseSingleFile info (Get d ''length'')) check_piece_count) = Inr info"
    by (auto simp: parseInfo_def rbind_eq_Inr safe_name_def Let_def split: if_splits)
  define base where "base = \<lparr>info_Name = info_name d, info_PieceLength = pl, info_Pieces = pieces, info_Length = 0,
                      info_Files = [], info_Private = (Get d ''private'' = Some (IntVal 1)),
                      info_MetaVersion = mv\<rparr>"
  from rest obtain i1 where i1: "(if Get d ''files'' \<noteq> None then parseMultiFile base d
                         else parseSingleFile base (Get d ''length'')) = Inr i1" "check_piece_count i1 = Inr info"
    by (auto simp: base_def [symmetric] Let_def rbind_eq_Inr)
  have info: "info = i1" using i1(2) by (auto simp: check_piece_count_def split: if_splits)
  have PL: "0 \<le> pl" "pl \<le> max_int64"
    using pl value_ok_Get [OF assms(2), of "''piece length''"]
    by (auto simp: piece_length_of_def split: option.splits Value.splits if_splits)
  have pc: "length pieces mod 20 = 0"
    using pieces by (auto simp: pieces_of_def split: option.splits Value.splits if_splits)
  have keep: "info_Name i1 = info_name d" "info_PieceLength i1 = pl" "info_Pieces i1 = pieces"
    and len: "0 \<le> info_Length i1 \<and> info_Length i1 \<le> max_int64
        \<and> (info_Files i1 \<noteq> [] \<longrightarrow> info_Length i1 = sum_list (map fi_Length (info_Files i1))) \<and> (\<forall>fi\<in>set (info_Files i1). file_ok fi)"
  proof -
    have "info_Name i1 = info_name d \<and> info_PieceLength i1 = pl \<and> info_Pieces i1 = pieces
        \<and> 0 \<le> info_Length i1 \<and> info_Length i1 \<le> max_int64
        \<and> (info_Files i1 \<noteq> [] \<longrightarrow> info_Length i1 = sum_list (map fi_Length (info_Files i1))) \<and> (\<forall>fi\<in>set (info_Files i1). file_ok fi)"
    proof (cases "Get d ''files''")
      case None
      then have "parseSingleFile base (Get d ''length'') = Inr i1" using i1(1) by simp
      then show ?thesis
        using value_ok_Get [OF assms(2), of "''length''"]
        by (auto simp: parseSingleFile_def base_def split: option.splits Value.splits if_splits)
    next
      case (Some v)
      then obtain fl fis tot where fl: "parse_files fl 0 = Inr (fis, tot)" "i1 = base\<lparr>info_Files := fis, info_Length := tot\<rparr>"
        using i1(1) by (auto simp: parseMultiFile_def rbind_eq_Inr split: Value.splits)
      from parse_files_ok [OF fl(1)] have "tot = sum_list (map fi_Length fis)" "tot \<le> max_int64" "\<forall>fi\<in>set fis. file_ok fi" by auto
      moreover from this have "0 \<le> tot" by (auto simp: file_ok_def intro!: sum_list_nonneg)
      ultimately show ?thesis using fl(2) by (auto simp: base_def)
    qed
    then show "info_Name i1 = info_name d" "info_PieceLength i1 = pl" "info_Pieces i1 = pieces"
      "0 \<le> info_Length i1 \<and> info_Length i1 \<le> max_int64
        \<and> (info_Files i1 \<noteq> [] \<longrightarrow> info_Length i1 = sum_list (map fi_Length (info_Files i1))) \<and> (\<forall>fi\<in>set (info_Files i1). file_ok fi)" by blast+
  qed
  show ?thesis
    unfolding info info_ok_def Let_def using name PL pc len keep piece_count [OF i1(2)] by auto
qed

lemma Load_info_ok: "Load m data = Some (Inr meta) \<Longrightarrow> info_ok (mi_Info meta)"
proof (elim Load_Inr)
  fix raw rest
  assume dec: "Decode m data = Some (Inr (DictVal raw, rest))" and bm: "build_meta data raw = Inr meta"
  from build_meta_info [OF bm] obtain d where d: "Get raw ''info'' = Some (DictVal d)" "parseInfo d = Inr (mi_Info meta)" .
  have "decoded m maxDepth (DictVal raw)"
    using yieldsD [OF decodeWithDepth_decoded dec [unfolded Decode_def]] by simp
  then have "value_ok m (DictVal raw) maxDepth" by (simp only: decoded_def)
  from parseInfo_ok [OF d(2) value_ok_Get [OF this d(1)]] show ?thesis .
qed

section \<open>Properties\<close>

lemma tier_of_strings: "tier_of (ListVal (map StringVal us)) = filter (\<lambda>u. u \<noteq> []) (map TrimSpace us)"
proof -
  have "strings_of (map StringVal us) = us" by (induction us) auto
  then show ?thesis by simp
qed

definition metadata_dict :: "dict \<Rightarrow> string list list \<Rightarrow> dict" where
  "metadata_dict d tiers =
     (if announce_value tiers = [] then [] else [(''announce-list'', ListVal (announce_value tiers))])
     @ [(''info'', DictVal d)]"

lemma Marshal_metadata_dict:
  "Marshal (DictVal (metadata_dict d tiers)) =
     ''d'' @ (if announce_value tiers = [] then [] else ''13:announce-list'' @ Marshal (ListVal (announce_value tiers)))
      @ ''4:info'' @ Marshal (DictVal d) @ ''e''"
proof -
  have s: "sort_key fst (metadata_dict d tiers) = metadata_dict d tiers"
    by (auto simp: metadata_dict_def intro!: sort_key_id_if_sorted)
  have "appendString ''announce-list'' = ''13:announce-list''" "appendString ''info'' = ''4:info''" by code_simp+
  then show ?thesis
    unfolding Marshal_def appendValue_DictVal [of "metadata_dict d tiers"] s by (simp add: metadata_dict_def del: appendValue.simps)
qed

lemma parseAnnounceList_metadata:
  "parseAnnounceList (metadata_dict d tiers) []
     = filter (\<lambda>t. t \<noteq> []) (map (\<lambda>tier. filter (\<lambda>u. u \<noteq> []) (map TrimSpace tier)) tiers)"
proof -
  have "filter (\<lambda>t. t \<noteq> []) (map tier_of (announce_value tiers))
      = filter (\<lambda>t. t \<noteq> []) (map (\<lambda>tier. filter (\<lambda>u. u \<noteq> []) (map TrimSpace tier)) tiers)"
    unfolding announce_value_def by (induction tiers) (auto simp: tier_of_strings simp del: tier_of.simps)
  moreover have "announce_value tiers = [] \<Longrightarrow>
      filter (\<lambda>t. t \<noteq> []) (map (\<lambda>tier. filter (\<lambda>u. u \<noteq> []) (map TrimSpace tier)) tiers) = []"
    by (auto simp: announce_value_def filter_empty_conv)
  ultimately show ?thesis by (simp add: parseAnnounceList_def metadata_dict_def Get_def)
qed

lemma canon_announce: "map canon (announce_value tiers) = announce_value tiers"
  by (auto simp: announce_value_def)

lemma canon_metadata_dict: "canon (DictVal d) = DictVal d \<Longrightarrow> canon (DictVal (metadata_dict d tiers)) = DictVal (metadata_dict d tiers)"
  by (auto simp: metadata_dict_def canon_announce intro!: sort_key_id_if_sorted)

text \<open>(C32) Metadata becomes a torrent with the same info hash. \<open>FromMetadata\<close> accepts the encoding of
  every info dictionary that \<open>parseInfo\<close> accepts, \<open>Load\<close> reads the result back with that info and the
  trimmed tracker tiers, and the bytes that are hashed are the metadata bytes themselves.\<close>

theorem metadata_keeps_info_hash:
  assumes ok: "value_ok m (DictVal (metadata_dict d tiers)) maxDepth" and can: "canon (DictVal d) = DictVal d"
    and info: "parseInfo d = Inr info" and len: "length (Marshal (DictVal (metadata_dict d tiers))) < 2 ^ 63"
  shows "\<exists>t meta. FromMetadata (Marshal (DictVal d)) tiers = Inr t \<and> Load m t = Some (Inr meta) \<and> mi_Info meta = info
      \<and> mi_AnnounceList meta = filter (\<lambda>t. t \<noteq> []) (map (\<lambda>tier. filter (\<lambda>u. u \<noteq> []) (map TrimSpace tier)) tiers)
      \<and> InfoHash sha1 meta = Inr (sha1 (Marshal (DictVal d)))"
proof -
  let ?t = "Marshal (DictVal (metadata_dict d tiers))"
  have get: "Get (metadata_dict d tiers) ''info'' = Some (DictVal d)" by (simp add: metadata_dict_def Get_def)
  have short: "length (Marshal (DictVal d)) < 2 ^ 63" using len unfolding Marshal_metadata_dict by simp
  have "Decode m (appendValue (DictVal d) @ []) = Some (Inr (canon (DictVal d), []))"
    unfolding Decode_def using value_ok_Get [OF ok get] by (intro decode_appendValue [of m "DictVal d" "maxDepth - 1"]) auto
  then have "scanBencodeValue (Marshal (DictVal d)) 0 = Inr (int (length (Marshal (DictVal d))))"
    using scan_agrees_with_decoder [of m "Marshal (DictVal d)"] short
    by (simp add: Marshal_def del: appendValue.simps canon.simps)
  moreover have "Marshal (DictVal d) \<noteq> []" by (simp add: Marshal_def)
  ultimately have fm: "FromMetadata (Marshal (DictVal d)) tiers = Inr ?t"
    by (simp add: FromMetadata_def Marshal_metadata_dict)
  have dec: "Decode m ?t = Some (Inr (DictVal (metadata_dict d tiers), []))"
    using decode_appendValue [OF ok, of 0 "Suc maxDepth" "[]"] canon_metadata_dict [OF can]
    by (simp add: Decode_def Marshal_def del: appendValue.simps canon.simps)
  have scan: "scanBencodeValue ?t 0 = Inr (int (length ?t))" using scan_agrees_with_decoder [OF dec len] by simp
  have raw: "findRawValue ?t ''info'' = Inr (Marshal (DictVal d))"
    using findRawValue_Marshal [OF ok _ len, of "''info''"] get by (simp add: Get_def)
  define meta where "meta = \<lparr>mi_Announce = [], mi_AnnounceList = parseAnnounceList (metadata_dict d tiers) [],
                  mi_CreationDate = 0, mi_Comment = comment_of (metadata_dict d tiers),
                  mi_CreatedBy = encodeNonUTF8 [], mi_Encoding = [], mi_Info = info,
                  mi_URLList = parseURLList (metadata_dict d tiers), mi_Nodes = parseNodes (metadata_dict d tiers), mi_Raw = ?t,
                  mi_infoRaw = Marshal (DictVal d)\<rparr>"
  have none: "Get (metadata_dict d tiers) ''announce'' = None" "Get (metadata_dict d tiers) ''creation date'' = None"
    "Get (metadata_dict d tiers) ''created by'' = None" "Get (metadata_dict d tiers) ''encoding'' = None"
    by (simp_all add: metadata_dict_def Get_def)
  have "build_meta ?t (metadata_dict d tiers) = Inr meta"
    by (simp add: build_meta_def string_field_def creation_date_def or_empty_def none get info raw meta_def TrimSpace_Nil)
  then have "Load m ?t = Some (Inr meta)"
    by (simp add: Load_def Unmarshal_def dec scan)
  with fm show ?thesis
    by (intro exI [of _ ?t] exI [of _ meta]) (simp add: meta_def InfoHash_def parseAnnounceList_metadata Marshal_def)
qed

definition sample_info :: dict where
  "sample_info = [(''length'', IntVal 5), (''name'', StringVal ''a''), (''piece length'', IntVal 4),
     (''pieces'', StringVal (replicate 40 (CHR ''x'')))]"

lemma metadata_keeps_info_hash_witness:
  "\<exists>t meta. FromMetadata (Marshal (DictVal sample_info)) [['' http://t/ '']] = Inr t \<and> Load 1000 t = Some (Inr meta)
      \<and> info_Length (mi_Info meta) = 5 \<and> mi_AnnounceList meta = [[''http://t/'']]
      \<and> InfoHash (\<lambda>s. [of_nat (length s)]) meta = Inr [91]"
proof -
  obtain info where info: "parseInfo sample_info = Inr info" "info_Length info = 5"
  proof -
    have "parseInfo sample_info = Inr \<lparr>info_Name = ''a'', info_PieceLength = 4, info_Pieces = replicate 40 (CHR ''x''),
       info_Length = 5, info_Files = [], info_Private = False, info_MetaVersion = 0\<rparr>" by code_simp
    then show ?thesis using that by simp
  qed
  have ok: "value_ok 1000 (DictVal (metadata_dict sample_info [['' http://t/ '']])) maxDepth"
    by (simp add: metadata_dict_def announce_value_def sample_info_def maxDepth_def string_ok_def)
  have can: "canon (DictVal sample_info) = DictVal sample_info" by code_simp
  have L: "length (Marshal (DictVal sample_info)) = 91" by code_simp
  have "length (Marshal (DictVal (metadata_dict sample_info [['' http://t/ '']]))) < 200" by code_simp
  then have len: "length (Marshal (DictVal (metadata_dict sample_info [['' http://t/ '']]))) < 2 ^ 63" by simp
  have T: "filter (\<lambda>t. t \<noteq> []) (map (\<lambda>tier. filter (\<lambda>u. u \<noteq> []) (map TrimSpace tier)) [['' http://t/ '']]) = [[''http://t/'']]"
    by code_simp
  from metadata_keeps_info_hash [OF ok can info(1) len, of "\<lambda>s. [of_nat (length s)]"] T L info(2)
  show ?thesis by auto
qed

lemma Load_decoded:
  assumes "Decode m data = Some (Inr (DictVal raw, rest))" and "length data < 2 ^ 63"
  shows "Load m data =
    Some (if rest \<noteq> [] then Inl (InvalidTorrent ''trailing data after top-level dictionary'') else build_meta data raw)"
  using scan_agrees_with_decoder [OF assms] assms(1) by (simp add: Load_def Unmarshal_def)

text \<open>(C33) The second scanner never disagrees with the decoder. On data that decodes to a
  dictionary \<open>Load\<close> reports no scanning error: it rejects trailing bytes exactly where the decoder left
  some and otherwise goes on to interpret the dictionary.\<close>

theorem load_scans_what_it_decoded:
  assumes "Decode m data = Some (Inr (DictVal raw, rest))" and "length data < 2 ^ 63"
  shows "Load m data =
    Some (if rest \<noteq> [] then Inl (InvalidTorrent ''trailing data after top-level dictionary'') else build_meta data raw)"
  by (rule Load_decoded [OF assms])

lemma load_scans_what_it_decoded_witness:
  "Load 50 ''d1:ai1.5e2:abl02:xyeeZ'' = Some (Inl (InvalidTorrent ''trailing data after top-level dictionary''))"
proof -
  have "Decode 50 ''d1:ai1.5e2:abl02:xyeeZ'' = Some (Inr (DictVal [(''a'', IntVal 0), (''ab'', ListVal [StringVal ''xy''])], ''Z''))"
    by code_simp
  from load_scans_what_it_decoded [OF this] show ?thesis by simp
qed

text \<open>The decoder lets a key appear twice and keeps the last value; the scanner stops at the first.
  Such a torrent is identified by the hash of one info dictionary and downloads another.\<close>

lemma duplicate_info_hashes_first:
  assumes ok: "value_ok m (DictVal d1) (maxDepth - 1)" "value_ok m (DictVal d2) (maxDepth - 1)" "4 \<le> m"
    and can: "canon (DictVal d2) = DictVal d2" and info: "parseInfo d2 = Inr info"
    and data: "data = ''d'' @ appendString ''info'' @ Marshal (DictVal d1) @ appendString ''info'' @ Marshal (DictVal d2) @ ''e''"
    and len: "length data < 2 ^ 63"
  shows "\<exists>meta. Load m data = Some (Inr meta) \<and> mi_Info meta = info \<and> mi_infoRaw meta = Marshal (DictVal d1)"
proof -
  define dec where "dec = decodeWithDepth maxDepth m 1"
  let ?t1 = "appendString ''info'' @ Marshal (DictVal d2) @ ''e''"
  have v: "dec (Marshal (DictVal d1) @ r) = Some (Inr (canon (DictVal d1), r))"
          "dec (Marshal (DictVal d2) @ r) = Some (Inr (DictVal d2, r))" for r
    using decode_appendValue [OF ok(1), of 1 maxDepth r] decode_appendValue [OF ok(2), of 1 maxDepth r] can
    by (simp_all add: dec_def Marshal_def maxDepth_def del: decodeWithDepth.simps appendValue.simps canon.simps)
  have k: "decodeString m (appendString ''info'' @ r) = Inr (''info'', r)" for r
    using ok(3) by (simp add: decodeString_appendString)
  have h: "appendString ''info'' @ r \<noteq> []" "hd (appendString ''info'' @ r) \<noteq> CHR ''e''" "is_digit (hd (appendString ''info'' @ r))" for r
    using appendString_hd [of "''info''" r] by (auto simp: is_digit_iff)
  have step1: "decode_dict m dec (Suc f) [] [] (tl data) = decode_dict m dec f [(''info'', canon (DictVal d1))] ''info'' ?t1" for f
    using v(1) [of ?t1] k [of "Marshal (DictVal d1) @ ?t1"] h [of "Marshal (DictVal d1) @ ?t1"]
    by (simp add: data del: canon.simps)
  have step2: "decode_dict m dec (Suc f) [(''info'', canon (DictVal d1))] ''info'' ?t1
      = decode_dict m dec f [(''info'', DictVal d2)] ''info'' ''e''" for f
    using v(2) [of "''e''"] k [of "Marshal (DictVal d2) @ ''e''"] h [of "Marshal (DictVal d2) @ ''e''"]
    by (simp del: canon.simps)
  have dataD: "data \<noteq> []" "hd data = CHR ''d''" by (simp_all add: data)
  have depth: "0 < maxDepth" by (simp add: maxDepth_def)
  have "length data \<ge> 3" by (simp add: data appendString_def)
  then obtain f where f: "length data = Suc (Suc (Suc f))" by (metis add_2_eq_Suc' numeral_3_eq_3 le_Suc_ex add_Suc_right add.commute add_0 plus_1_eq_Suc)
  have "decode_dict m dec (length data) [] [] (tl data) = Some (Inr (DictVal [(''info'', DictVal d2)], []))"
    unfolding f step1 step2 by simp
  then have D: "Decode m data = Some (Inr (DictVal [(''info'', DictVal d2)], []))"
    using depth dataD by (simp add: Decode_def dec_def decodeDict_def is_digit_iff del: decode_dict.simps decode_list.simps)
  have "raw_loop (''d'' @ appendString ''info'' @ Marshal (DictVal d1) @ ?t1) ''info'' (length ''d'') = Inr (Marshal (DictVal d1))"
    using raw_loop_entry [of "Marshal (DictVal d1)" "''d''" "''info''" ?t1 "''info''"]
      value_text_appendValue [OF ok(1)] len by (simp add: data Marshal_def del: appendValue.simps)
  then have raw: "findRawValue data ''info'' = Inr (Marshal (DictVal d1))"
    by (simp add: findRawValue_def data)
  have "\<exists>meta. build_meta data [(''info'', DictVal d2)] = Inr meta \<and> mi_Info meta = info \<and> mi_infoRaw meta = Marshal (DictVal d1)"
    by (simp add: build_meta_def string_field_def creation_date_def Get_def info raw Let_def)
  with Load_decoded [OF D len] show ?thesis by auto
qed

text \<open>\<open>FromMetadata\<close> scans bytes that no decoder has seen. A string length close to \<open>2^63\<close> makes the
  next position negative and the scan panics.\<close>

lemma metadata_length_panics:
  "FromMetadata ''d9223372036854775807:x'' [] = Inl (ScanError PanicIndex)"
  by code_simp

text \<open>The piece count is not compared with the size when there are no pieces: five bytes in no pieces
  are a valid torrent, and nothing is ever downloaded for it.\<close>

lemma no_pieces_accepted:
  "\<exists>info. parseInfo [(''length'', IntVal 5), (''piece length'', IntVal 4), (''pieces'', StringVal [])] = Inr info
     \<and> info_Length info = 5 \<and> info_Pieces info = []"
proof -
  have "parseInfo [(''length'', IntVal 5), (''piece length'', IntVal 4), (''pieces'', StringVal [])]
      = Inr \<lparr>info_Name = [], info_PieceLength = 4, info_Pieces = [], info_Length = 5, info_Files = [],
             info_Private = False, info_MetaVersion = 0\<rparr>" by code_simp
  then show ?thesis by simp
qed

section \<open>Encoded names\<close>

lemma ValidString_append:
  "rune_size s = Some n \<Longrightarrow> ValidString (drop n s) \<Longrightarrow> ValidString s"
  by (subst ValidString.simps) simp

lemma rune_size_take:
  assumes "rune_size s = Some n"
  shows "rune_size (take n s @ t) = Some n"
proof -
  from assms obtain c cs ps where s: "s = c # cs" "utf8_tail c = Some ps" "n = Suc (length ps)"
    "length ps \<le> length cs" "list_all2 (\<lambda>p c. p c) ps (take (length ps) cs)"
    by (auto simp: rune_size_def split: list.splits option.splits if_splits)
  then show ?thesis by (simp add: rune_size_def)
qed

lemma rune_size_ascii: "(of_char c :: nat) < 128 \<Longrightarrow> rune_size (c # cs) = Some 1"
  by (simp add: rune_size_def utf8_tail_def Let_def)

lemma percent_ascii: "x \<in> set (percent_byte c) \<Longrightarrow> (of_char x :: nat) < 128"
proof -
  have "(of_char (upper_hex d) :: nat) < 128" if "d < 16" for d
    using that by (auto simp: upper_hex_def)
  moreover have "(of_char c :: nat) div 16 < 16"
    using nat_of_char_less_256 [of c] by (simp add: less_mult_imp_div_less)
  ultimately show "x \<in> set (percent_byte c) \<Longrightarrow> (of_char x :: nat) < 128" by (auto simp: percent_byte_def)
qed

lemma ValidString_ascii: "\<forall>x\<in>set w. (of_char x :: nat) < 128 \<Longrightarrow> ValidString s \<Longrightarrow> ValidString (w @ s)"
  by (induction w) (auto intro!: ValidString_append [OF rune_size_ascii])

lemma ValidString_encode_loop: "ValidString (encode_loop s)"
proof (induction s rule: encode_loop.induct)
  case (1 s)
  show ?case
  proof (cases "s = []")
    case True
    then have "encode_loop s = []" by (subst encode_loop.simps) simp
    then show ?thesis by (subst ValidString.simps) simp
  next
    case False
    show ?thesis
    proof (cases "rune_size s")
      case None
      then have "encode_loop s = percent_byte (hd s) @ encode_loop (tl s)"
        by (subst encode_loop.simps) (simp add: False)
      then show ?thesis using percent_ascii 1(1) [OF False None] by (simp only:) (blast intro: ValidString_ascii)
    next
      case (Some n)
      have "drop n (take n s @ encode_loop (drop n s)) = encode_loop (drop n s)"
        using rune_size_bounds [OF Some] by simp
      then have "ValidString (take n s @ encode_loop (drop n s))"
        using ValidString_append [OF rune_size_take [OF Some]] 1(2) [OF False Some] by metis
      moreover have "encode_loop s = take n s @ encode_loop (drop n s)"
        by (subst encode_loop.simps) (simp add: Some False)
      ultimately show ?thesis by (simp only:)
    qed
  qed
qed

lemma encodeNonUTF8_valid: "ValidString (encodeNonUTF8 s)"
  by (simp add: encodeNonUTF8_def ValidString_encode_loop)

end
