(* ===== verification/DiskFile.thy ===== *)
theory DiskFile
  imports PieceMap Checksum
begin

text \<open>
  Files on disk: the errors of package \<open>disk\<close> (internal/disk/errors.go), \<open>os.File\<close> calls on an explicit
  store of file contents over a device that may fail, and the allocators (allocator.go,
  falloc_linux.go, sparse.go). The lemmas read a file as a function from offsets to bytes, in
  which a write is an \<open>overlay\<close>.
\<close>

section \<open>Disk errors (internal/disk/errors.go)\<close>

datatype errno = ENOSPC | EIO | EINVAL | EBADF | EOPNOTSUPP | ENOSYS | EOTHER nat

text \<open>What an operating system call can return: an errno, the end of the file, or another error.\<close>

datatype os_error = Errno errno | IoEOF | IoText string

datatype sentinel =
    ErrDiskFull | ErrWriteError | ErrReadError | ErrInvalidOffset | ErrFileClosed
  | ErrAllocFailed | ErrVerifyFailed

fun sentinel_code :: "sentinel \<Rightarrow> ErrorCode" where
  "sentinel_code ErrDiskFull = ExitNotEnoughDiskSpace"
| "sentinel_code ErrWriteError = ExitFileIOError"
| "sentinel_code ErrReadError = ExitFileIOError"
| "sentinel_code ErrInvalidOffset = ExitFileIOError"
| "sentinel_code ErrFileClosed = ExitFileIOError"
| "sentinel_code ErrAllocFailed = ExitFileCreateError"
| "sentinel_code ErrVerifyFailed = ExitChecksumError"

datatype disk_error =
    Sentinel sentinel
  | Wrapped sentinel os_error
  | RawOs os_error
  | DiskText string
  | DiskEOF

definition sentinelForOp :: "string \<Rightarrow> sentinel" where
  "sentinelForOp op =
     (if op = ''write'' then ErrWriteError
      else if op = ''read'' then ErrReadError
      else ErrWriteError)"

definition mapErrno :: "string \<Rightarrow> os_error \<Rightarrow> sentinel" where
  "mapErrno op err =
     (case err of
        Errno ENOSPC \<Rightarrow> ErrDiskFull
      | Errno EIO \<Rightarrow> (if op = ''write'' then ErrWriteError else ErrReadError)
      | Errno EINVAL \<Rightarrow> ErrInvalidOffset
      | Errno EBADF \<Rightarrow> ErrFileClosed
      | _ \<Rightarrow> sentinelForOp op)"

definition Wrap :: "string \<Rightarrow> os_error \<Rightarrow> disk_error" where
  "Wrap op err = Wrapped (mapErrno op err) err"

text \<open>\<open>errors.Is(err, target)\<close> for the sentinels of the package, and \<open>IsDiskFull\<close>.\<close>

fun disk_Is :: "disk_error \<Rightarrow> sentinel \<Rightarrow> bool" where
  "disk_Is (Sentinel s) t = (s = t)"
| "disk_Is (Wrapped s e) t = (s = t)"
| "disk_Is (RawOs e) t = False"
| "disk_Is (DiskText m) t = False"
| "disk_Is DiskEOF t = False"

fun IsDiskFull :: "disk_error \<Rightarrow> bool" where
  "IsDiskFull (Wrapped s e) = (e = Errno ENOSPC)"
| "IsDiskFull (RawOs e) = (e = Errno ENOSPC)"
| "IsDiskFull _ = False"

lemma IsDiskFull_Wrap: "IsDiskFull (Wrap op e) \<longleftrightarrow> disk_Is (Wrap op e) ErrDiskFull"
  by (auto simp: Wrap_def mapErrno_def sentinelForOp_def split: os_error.splits errno.splits)

section \<open>Files\<close>

text \<open>
  A file is its contents; the disk maps a path to a file. A call on an open \<open>os.File\<close> may fail:
  the record \<open>OsDev\<close> says for each call whether it fails and, for reads and writes, after how
  many bytes. An \<open>os.File\<close> write that returns no error has written all its bytes; a read that
  returns fewer bytes than asked has an error, \<open>io.EOF\<close> at the end of the file.
\<close>

record OsDev =
  dev_write :: "string \<Rightarrow> nat \<Rightarrow> nat \<Rightarrow> (nat \<times> errno) option"
  dev_read :: "string \<Rightarrow> nat \<Rightarrow> nat \<Rightarrow> (nat \<times> errno) option"
  dev_truncate :: "string \<Rightarrow> nat \<Rightarrow> errno option"
  dev_open :: "string \<Rightarrow> errno option"
  dev_create :: "string \<Rightarrow> errno option"
  dev_mkdir :: "string \<Rightarrow> errno option"
  dev_stat :: "string \<Rightarrow> errno option"
  dev_seek :: "string \<Rightarrow> errno option"
  dev_fallocate :: "string \<Rightarrow> nat \<Rightarrow> nat \<Rightarrow> errno option"
  dev_close :: "string \<Rightarrow> errno option"
  dev_sync :: "string \<Rightarrow> errno option"
  caps_Fallocate :: bool

definition faultless :: OsDev where
  "faultless =
     \<lparr>dev_write = (\<lambda>_ _ _. None), dev_read = (\<lambda>_ _ _. None), dev_truncate = (\<lambda>_ _. None),
      dev_open = (\<lambda>_. None), dev_create = (\<lambda>_. None),
      dev_mkdir = (\<lambda>_. None), dev_stat = (\<lambda>_. None), dev_seek = (\<lambda>_. None),
      dev_fallocate = (\<lambda>_ _ _. None), dev_close = (\<lambda>_. None), dev_sync = (\<lambda>_. None),
      caps_Fallocate = True\<rparr>"

type_synonym store = "string \<Rightarrow> byte list option"

definition contents :: "store \<Rightarrow> string \<Rightarrow> byte list" where
  "contents st f = (case st f of Some c \<Rightarrow> c | None \<Rightarrow> [])"

definition put_bytes :: "byte list \<Rightarrow> nat \<Rightarrow> byte list \<Rightarrow> byte list" where
  "put_bytes c off bs =
     (if bs = [] then c
      else take off c @ replicate (off - length c) 0 @ bs @ drop (off + length bs) c)"

definition resize :: "byte list \<Rightarrow> nat \<Rightarrow> byte list" where
  "resize c n = take n c @ replicate (n - length c) 0"

definition os_WriteAt :: "OsDev \<Rightarrow> store \<Rightarrow> string \<Rightarrow> byte list \<Rightarrow> int \<Rightarrow> store \<times> nat \<times> os_error option" where
  "os_WriteAt dev st f bs off =
     (if off < 0 then (st, 0, Some (IoText ''negative offset''))
      else
        case dev_write dev f (nat off) (length bs) of
          None \<Rightarrow> (st(f \<mapsto> put_bytes (contents st f) (nat off) bs), length bs, None)
        | Some (k, e) \<Rightarrow>
            let n = min k (length bs)
            in (st(f \<mapsto> put_bytes (contents st f) (nat off) (take n bs)), n, Some (Errno e)))"

definition os_ReadAt :: "OsDev \<Rightarrow> store \<Rightarrow> string \<Rightarrow> nat \<Rightarrow> int \<Rightarrow> byte list \<times> os_error option" where
  "os_ReadAt dev st f n off =
     (if off < 0 then ([], Some (IoText ''negative offset''))
      else
        let bs = take n (drop (nat off) (contents st f))
        in case dev_read dev f (nat off) n of
             Some (k, e) \<Rightarrow> (take k bs, Some (Errno e))
           | None \<Rightarrow> (bs, if length bs < n then Some IoEOF else None))"

definition os_Truncate :: "OsDev \<Rightarrow> store \<Rightarrow> string \<Rightarrow> int \<Rightarrow> store \<times> os_error option" where
  "os_Truncate dev st f n =
     (if n < 0 then (st, Some (Errno EINVAL))
      else
        case dev_truncate dev f (nat n) of
          Some e \<Rightarrow> (st, Some (Errno e))
        | None \<Rightarrow> (st(f \<mapsto> resize (contents st f) (nat n)), None))"

subsection \<open>A file as a function from offsets to bytes\<close>

definition byte_at :: "byte list \<Rightarrow> int \<Rightarrow> byte" where
  "byte_at c i = (if 0 \<le> i \<and> i < int (length c) then c ! nat i else 0)"

definition overlay :: "(int \<Rightarrow> byte) \<Rightarrow> int \<Rightarrow> byte list \<Rightarrow> int \<Rightarrow> byte" where
  "overlay v off bs i = (if off \<le> i \<and> i < off + int (length bs) then bs ! nat (i - off) else v i)"

lemma overlay_Nil [simp]: "overlay v off [] = v"
  by (auto simp: overlay_def fun_eq_iff)

lemma overlay_append:
  "overlay v off (xs @ ys) = overlay (overlay v off xs) (off + int (length xs)) ys"
proof
  fix i
  show "overlay v off (xs @ ys) i = overlay (overlay v off xs) (off + int (length xs)) ys i"
    by (auto simp: overlay_def nth_append nat_less_iff nat_diff_distrib' algebra_simps
             intro!: arg_cong [where f = "(!) ys"])
qed

lemma overlay_take_drop:
  "overlay (overlay v off (take n xs)) (off + int (min (length xs) n)) (drop n xs) = overlay v off xs"
  using overlay_append [of v off "take n xs" "drop n xs"] by simp

lemma overlay_swap:
  "a + int (length xs) \<le> b \<or> b + int (length ys) \<le> a \<Longrightarrow>
   overlay (overlay v a xs) b ys = overlay (overlay v b ys) a xs"
  by (auto simp: overlay_def fun_eq_iff)

lemma byte_at_nonneg: "byte_at c (int i) = (if i < length c then c ! i else 0)"
  by (simp add: byte_at_def)

lemma byte_at_put: "byte_at (put_bytes c off bs) = overlay (byte_at c) (int off) bs"
proof
  fix i
  show "byte_at (put_bytes c off bs) i = overlay (byte_at c) (int off) bs i"
  proof (cases "0 \<le> i")
    case True
    then obtain k where "i = int k" using nonneg_int_cases by blast
    then show ?thesis
      by (auto simp: byte_at_nonneg overlay_def put_bytes_def nth_append min_def nat_diff_distrib')
  qed (auto simp: byte_at_def overlay_def)
qed

lemma length_put_bytes:
  "length (put_bytes c off bs) = (if bs = [] then length c else max (length c) (off + length bs))"
  by (auto simp: put_bytes_def)

lemma byte_at_resize: "i < int n \<Longrightarrow> byte_at (resize c n) i = byte_at c i"
  by (auto simp: byte_at_def resize_def nth_append nat_less_iff)

lemma length_resize [simp]: "length (resize c n) = n"
  by (simp add: resize_def)

text \<open>Every call to \<open>WriteAt\<close> of a file leaves the file changed by the bytes it reports.\<close>

lemma os_WriteAt_view:
  assumes "os_WriteAt dev st f bs off = (st', n, e)"
  shows "n \<le> length bs"
    and "e = None \<Longrightarrow> n = length bs"
    and "g \<noteq> f \<Longrightarrow> st' g = st g"
    and "byte_at (contents st' f) = overlay (byte_at (contents st f)) off (take n bs)"
  using assms
  by (auto simp: os_WriteAt_def contents_def byte_at_put Let_def split: if_splits option.splits prod.splits)

lemma os_ReadAt_view:
  assumes "os_ReadAt dev st f n off = (bs, e)"
  shows "length bs \<le> n"
    and "e = None \<Longrightarrow> length bs = n"
    and "i < length bs \<Longrightarrow> bs ! i = byte_at (contents st f) (off + int i)"
  using assms
  by (auto simp: os_ReadAt_def byte_at_def Let_def nat_add_distrib min_def
           split: if_splits option.splits prod.splits)

text \<open>What a read does not return lies beyond the end of the file, unless it failed.\<close>

lemma os_ReadAt_eof:
  assumes "os_ReadAt dev st f n off = (bs, e)" and "e = None \<or> e = Some IoEOF"
    and "length bs \<le> i" and "i < n"
  shows "byte_at (contents st f) (off + int i) = 0"
  using assms
  by (auto simp: os_ReadAt_def byte_at_def Let_def nat_add_distrib min_def
           split: if_splits option.splits prod.splits)

lemma os_WriteAt_all: "(st', n, None) = os_WriteAt dev st f bs off \<Longrightarrow> n = length bs"
  by (metis os_WriteAt_view(2))

section \<open>Allocators (internal/disk/allocator.go, falloc_linux.go, sparse.go)\<close>

datatype Allocator =
    AllocatorNone
  | AllocatorTrunc
  | AllocatorPrealloc (BufSize: int)
  | AllocatorFalloc
  | SparseAllocator (inner: Allocator)

fun Allocator_Name :: "Allocator \<Rightarrow> string" where
  "Allocator_Name AllocatorNone = ''none''"
| "Allocator_Name AllocatorTrunc = ''trunc''"
| "Allocator_Name (AllocatorPrealloc b) = ''prealloc''"
| "Allocator_Name AllocatorFalloc = ''falloc''"
| "Allocator_Name (SparseAllocator a) = ''sparse''"

text \<open>The loop that appends zero blocks. A chunk is never empty: the buffer has at least one
  byte, which the first test repeats for the recursion.\<close>

function prealloc_loop ::
    "OsDev \<Rightarrow> store \<Rightarrow> string \<Rightarrow> nat \<Rightarrow> nat \<Rightarrow> nat \<Rightarrow> store \<times> os_error option" where
  "prealloc_loop dev st f bufSize written sz =
     (if 0 < bufSize \<and> written < sz then
        let chunk = min bufSize (sz - written)
        in case os_WriteAt dev st f (replicate chunk 0) (int written) of
             (st', n, None) \<Rightarrow> prealloc_loop dev st' f bufSize (written + n) sz
           | (st', n, Some e) \<Rightarrow> (st', Some e)
      else (st, None))"
  by pat_completeness auto
termination
  by (relation "measure (\<lambda>(dev, st, f, bufSize, written, sz). sz - written)")
     (auto dest: os_WriteAt_all)

declare prealloc_loop.simps [simp del]

definition Prealloc_Allocate :: "OsDev \<Rightarrow> int \<Rightarrow> store \<Rightarrow> string \<Rightarrow> int \<Rightarrow> store \<times> os_error option" where
  "Prealloc_Allocate dev a_BufSize st f sz =
     (let bufSize = (if a_BufSize \<le> 0 then 4096 else a_BufSize)
      in case dev_seek dev f of
           Some e \<Rightarrow> (st, Some (Errno e))
         | None \<Rightarrow>
             (let cur = int (length (contents st f))
              in if sz \<le> cur then os_Truncate dev st f sz
                 else prealloc_loop dev st f (nat bufSize) (nat cur) (nat sz)))"

definition Falloc_Allocate :: "OsDev \<Rightarrow> store \<Rightarrow> string \<Rightarrow> int \<Rightarrow> store \<times> os_error option" where
  "Falloc_Allocate dev st f sz =
     (if \<not> caps_Fallocate dev then os_Truncate dev st f sz
      else
        case dev_seek dev f of
          Some e \<Rightarrow> os_Truncate dev st f sz
        | None \<Rightarrow>
            (let cur = int (length (contents st f))
             in if sz \<le> cur then os_Truncate dev st f sz
                else
                  case dev_fallocate dev f (nat cur) (nat (sz - cur)) of
                    None \<Rightarrow> (st(f \<mapsto> resize (contents st f) (nat sz)), None)
                  | Some e \<Rightarrow>
                      if e = EOPNOTSUPP \<or> e = ENOSYS \<or> e = EINVAL
                      then Prealloc_Allocate dev 0 st f sz
                      else (st, Some (Errno e))))"

fun Allocate :: "OsDev \<Rightarrow> Allocator \<Rightarrow> store \<Rightarrow> string \<Rightarrow> int \<Rightarrow> store \<times> os_error option" where
  "Allocate dev AllocatorNone st f sz = (st, None)"
| "Allocate dev AllocatorTrunc st f sz = os_Truncate dev st f sz"
| "Allocate dev (AllocatorPrealloc b) st f sz = Prealloc_Allocate dev b st f sz"
| "Allocate dev AllocatorFalloc st f sz = Falloc_Allocate dev st f sz"
| "Allocate dev (SparseAllocator a) st f sz = Allocate dev a st f sz"

text \<open>Whichever allocator is used and whether or not it succeeds, the bytes inside the size that
  were on disk stay, new bytes are zero and no other file changes.\<close>

lemma os_Truncate_keeps:
  "os_Truncate dev st f sz = (st', e) \<Longrightarrow>
   (\<forall>g. g \<noteq> f \<longrightarrow> st' g = st g) \<and>
   (\<forall>i. i < sz \<longrightarrow> byte_at (contents st' f) i = byte_at (contents st f) i)"
  by (auto simp: os_Truncate_def contents_def byte_at_resize split: if_splits option.splits)

lemma put_zeros_end:
  "int (length c) \<le> off \<Longrightarrow> overlay (byte_at c) off (replicate n 0) = byte_at c"
  by (auto simp: overlay_def byte_at_def fun_eq_iff)

lemma length_os_WriteAt:
  "os_WriteAt dev st f bs off = (st', n, None) \<Longrightarrow> 0 < n \<Longrightarrow>
   length (contents st' f) = max (length (contents st f)) (nat off + n)"
  by (auto simp: os_WriteAt_def contents_def length_put_bytes Let_def split: if_splits option.splits)

lemma prealloc_loop_keeps:
  assumes "prealloc_loop dev st f bufSize written sz = (st', e)"
    and "length (contents st f) = written"
  shows "(\<forall>g. g \<noteq> f \<longrightarrow> st' g = st g) \<and> byte_at (contents st' f) = byte_at (contents st f)
         \<and> (e = None \<and> 0 < bufSize \<longrightarrow> length (contents st' f) = max written sz)"
  using assms
proof (induction dev st f bufSize written sz rule: prealloc_loop.induct)
  case (1 dev st f bufSize written sz)
  show ?case
  proof (cases "0 < bufSize \<and> written < sz")
    case False
    with "1.prems" show ?thesis by (auto simp: prealloc_loop.simps [of dev st f bufSize written sz])
  next
    case True
    define chunk where "chunk = min bufSize (sz - written)"
    obtain st1 n e1 where W: "os_WriteAt dev st f (replicate chunk 0) (int written) = (st1, n, e1)"
      by (metis prod_cases3)
    have same: "byte_at (contents st1 f) = byte_at (contents st f)"
      using os_WriteAt_view(4) [OF W] "1.prems"(2) by (simp add: put_zeros_end)
    have other: "g \<noteq> f \<Longrightarrow> st1 g = st g" for g using os_WriteAt_view(3) [OF W] .
    show ?thesis
    proof (cases e1)
      case (Some x)
      with "1.prems"(1) W True have "st' = st1" "e = Some x"
        by (simp_all add: prealloc_loop.simps [of dev st f bufSize written sz] chunk_def)
      with same other show ?thesis by simp
    next
      case None
      have n: "n = chunk" "0 < chunk" using os_WriteAt_view(2) [OF W None] True by (simp_all add: chunk_def)
      have rec: "prealloc_loop dev st1 f bufSize (written + n) sz = (st', e)"
        using "1.prems"(1) W True None by (simp add: prealloc_loop.simps [of dev st f bufSize written sz] chunk_def)
      have len: "length (contents st1 f) = written + n"
        using length_os_WriteAt [OF W [unfolded None]] n "1.prems"(2) by simp
      have "max (written + n) sz = max written sz" using n True by (auto simp: chunk_def max_def min_def)
      with "1.IH" [OF True chunk_def W [symmetric] refl None rec len] same other show ?thesis by simp
    qed
  qed
qed


lemma Prealloc_Allocate_keeps:
  assumes "Prealloc_Allocate dev b st f sz = (st', e)"
  shows "(\<forall>g. g \<noteq> f \<longrightarrow> st' g = st g) \<and>
         (\<forall>i. i < sz \<longrightarrow> byte_at (contents st' f) i = byte_at (contents st f) i)"
  using assms prealloc_loop_keeps [of dev st f "nat (if b \<le> 0 then 4096 else b)" "length (contents st f)" "nat sz" st' e]
  by (auto simp: Prealloc_Allocate_def Let_def dest: os_Truncate_keeps split: option.splits if_splits)

lemma Falloc_Allocate_keeps:
  assumes "Falloc_Allocate dev st f sz = (st', e)"
  shows "(\<forall>g. g \<noteq> f \<longrightarrow> st' g = st g) \<and>
         (\<forall>i. i < sz \<longrightarrow> byte_at (contents st' f) i = byte_at (contents st f) i)"
  using assms
  by (auto simp: Falloc_Allocate_def Let_def contents_def byte_at_resize
           dest: os_Truncate_keeps Prealloc_Allocate_keeps split: option.splits if_splits)

lemma Allocate_keeps:
  assumes "Allocate dev a st f sz = (st', e)"
  shows "(\<forall>g. g \<noteq> f \<longrightarrow> st' g = st g) \<and>
         (\<forall>i. i < sz \<longrightarrow> byte_at (contents st' f) i = byte_at (contents st f) i)"
  using assms
  by (induction dev a st f sz rule: Allocate.induct)
     (auto dest: os_Truncate_keeps Prealloc_Allocate_keeps Falloc_Allocate_keeps)

end
