(* ===== verification/WriteCache.thy ===== *)
theory WriteCache
  imports DiskFile
begin

text \<open>
  The two caches in front of the disk: \<open>WriteBuffer\<close> (internal/disk/write_buffer.go), which coalesces
  adjacent writes to one writer, and \<open>WriteCache\<close> (write_cache.go), which keeps one pending region per
  file and evicts the least recently used. The locale \<open>writer_at\<close> is the contract of an
  \<open>io.WriterAt\<close> under which the buffer is shown to lose nothing.
\<close>

section \<open>Write buffer (internal/disk/write_buffer.go)\<close>

record WriteBuffer =
  wb_buf :: "byte list"
  wb_size :: nat
  wb_start :: int
  wb_used :: nat
  wb_dirty :: bool

definition NewWriteBuffer :: "nat \<Rightarrow> WriteBuffer" where
  "NewWriteBuffer sz = \<lparr>wb_buf = replicate sz 0, wb_size = sz, wb_start = 0, wb_used = 0, wb_dirty = False\<rparr>"

text \<open>\<open>copy(dst[i:], src)\<close>.\<close>

definition go_copy :: "'a list \<Rightarrow> nat \<Rightarrow> 'a list \<Rightarrow> 'a list" where
  "go_copy dst i src = take i dst @ take (length dst - i) src @ drop (i + length src) dst"

text \<open>The buffer sits in front of an \<open>io.WriterAt\<close>: \<open>w\<close> is its \<open>WriteAt\<close> on the state
  \<open>s\<close> of that writer.\<close>

type_synonym ('s, 'e) writer = "'s \<Rightarrow> byte list \<Rightarrow> int \<Rightarrow> 's \<times> int \<times> 'e option"

definition wb_flush :: "('s, 'e) writer \<Rightarrow> 's \<Rightarrow> WriteBuffer \<Rightarrow> 's \<times> WriteBuffer \<times> 'e option" where
  "wb_flush w s wb =
     (case w s (take (wb_used wb) (wb_buf wb)) (wb_start wb) of
        (s', _, err) \<Rightarrow> (s', wb\<lparr>wb_used := 0, wb_dirty := False\<rparr>, err))"

definition WriteBuffer_Flush :: "('s, 'e) writer \<Rightarrow> 's \<Rightarrow> WriteBuffer \<Rightarrow> 's \<times> WriteBuffer \<times> 'e option" where
  "WriteBuffer_Flush w s wb = (if \<not> wb_dirty wb then (s, wb, None) else wb_flush w s wb)"

definition WriteBuffer_Discard :: "WriteBuffer \<Rightarrow> WriteBuffer" where
  "WriteBuffer_Discard wb = wb\<lparr>wb_used := 0, wb_dirty := False\<rparr>"

text \<open>The second half of \<open>WriteAt\<close>, for the bytes that were not coalesced.\<close>

definition wb_fresh ::
    "('s, 'e) writer \<Rightarrow> 's \<Rightarrow> WriteBuffer \<Rightarrow> byte list \<Rightarrow> int \<Rightarrow> int \<Rightarrow> 's \<times> WriteBuffer \<times> int \<times> 'e option" where
  "wb_fresh w s wb p offset wrote =
     (case (if wb_dirty wb then wb_flush w s wb else (s, wb, None)) of
        (s1, wb1, Some err) \<Rightarrow> (s1, wb1, 0, Some err)
      | (s1, wb1, None) \<Rightarrow>
          if wb_size wb1 \<le> length p then
            case w s1 p offset of (s2, _, err) \<Rightarrow> (s2, wb1, wrote, err)
          else
            (s1, wb1\<lparr>wb_start := offset, wb_buf := go_copy (wb_buf wb1) 0 p,
                     wb_used := length p, wb_dirty := True\<rparr>, wrote, None))"

definition WriteBuffer_WriteAt ::
    "('s, 'e) writer \<Rightarrow> 's \<Rightarrow> WriteBuffer \<Rightarrow> byte list \<Rightarrow> int \<Rightarrow> 's \<times> WriteBuffer \<times> int \<times> 'e option" where
  "WriteBuffer_WriteAt w s wb p offset =
     (if p = [] then (s, wb, 0, None)
      else
        let wrote = int (length p)
        in if offset = wb_start wb + int (wb_used wb) \<and> wb_used wb < wb_size wb then
             let n = min (wb_size wb - wb_used wb) (length p);
                 wb1 = wb\<lparr>wb_dirty := True, wb_buf := go_copy (wb_buf wb) (wb_used wb) (take n p),
                          wb_used := wb_used wb + n\<rparr>
             in case (if wb_used wb1 = wb_size wb1 then wb_flush w s wb1 else (s, wb1, None)) of
                  (s1, wb2, Some err) \<Rightarrow> (s1, wb2, 0, Some err)
                | (s1, wb2, None) \<Rightarrow>
                    if n = length p then (s1, wb2, wrote, None)
                    else wb_fresh w s1 wb2 (drop n p) (offset + int n) wrote
           else wb_fresh w s wb p offset wrote)"

definition wb_inv :: "WriteBuffer \<Rightarrow> bool" where
  "wb_inv wb \<longleftrightarrow> length (wb_buf wb) = wb_size wb \<and> wb_used wb \<le> wb_size wb \<and> (wb_dirty wb \<longleftrightarrow> 0 < wb_used wb)"

definition pending :: "WriteBuffer \<Rightarrow> byte list" where
  "pending wb = take (wb_used wb) (wb_buf wb)"

lemma wb_inv_New: "wb_inv (NewWriteBuffer sz)"
  by (simp add: wb_inv_def NewWriteBuffer_def)

lemma length_go_copy [simp]: "length (go_copy dst i src) = length dst"
  by (auto simp: go_copy_def)

lemma take_go_copy:
  "i + length src \<le> length dst \<Longrightarrow> take (i + length src) (go_copy dst i src) = take i dst @ src"
  by (simp add: go_copy_def)

text \<open>
  What a writer promises: it keeps its invariant, and a write changes the bytes of a prefix of
  what it was given, all of it when it reports no error. The same contract is met by the buffer
  in front of a writer, which holds back the last bytes.
\<close>

locale writer_at =
  fixes ok :: "'s \<Rightarrow> bool"
    and w :: "('s, 'e) writer"
    and view :: "'s \<Rightarrow> int \<Rightarrow> byte"
  assumes w_ok: "ok s \<Longrightarrow> w s p off = (s', n, e) \<Longrightarrow> ok s'"
    and w_view: "ok s \<Longrightarrow> w s p off = (s', n, None) \<Longrightarrow> view s' = overlay (view s) off p"
    and w_fail: "ok s \<Longrightarrow> w s p off = (s', n, e) \<Longrightarrow> \<exists>k\<le>length p. view s' = overlay (view s) off (take k p)"
begin

definition wb_view :: "'s \<Rightarrow> WriteBuffer \<Rightarrow> int \<Rightarrow> byte" where
  "wb_view s wb = overlay (view s) (wb_start wb) (pending wb)"

lemma flush_spec:
  assumes "ok s" "wb_inv wb" "wb_flush w s wb = (s', wb', e)"
  shows "ok s' \<and> wb_inv wb' \<and> wb_used wb' = 0 \<and> \<not> wb_dirty wb' \<and> wb_size wb' = wb_size wb
         \<and> (e = None \<longrightarrow> view s' = wb_view s wb)"
  using assms w_ok [of s] w_view [of s]
  by (auto simp: wb_flush_def wb_inv_def wb_view_def pending_def split: prod.splits)

lemma clean_view: "wb_used wb = 0 \<Longrightarrow> wb_view s wb = view s"
  by (simp add: wb_view_def pending_def)

lemma fresh_spec:
  assumes ok: "ok s" and inv: "wb_inv wb" and F: "wb_fresh w s wb p off wrote = (s', wb', n, e)" and p: "p \<noteq> []"
  shows "ok s' \<and> wb_inv wb' \<and> (e = None \<longrightarrow> n = wrote \<and> wb_view s' wb' = overlay (wb_view s wb) off p)"
proof -
  obtain s1 wb1 e1 where S: "(if wb_dirty wb then wb_flush w s wb else (s, wb, None)) = (s1, wb1, e1)"
    by (metis prod_cases3)
  have A: "ok s1 \<and> wb_inv wb1 \<and> wb_used wb1 = 0 \<and> \<not> wb_dirty wb1 \<and> (e1 = None \<longrightarrow> view s1 = wb_view s wb)"
  proof (cases "wb_dirty wb")
    case True
    with S flush_spec [OF ok inv] show ?thesis by simp
  next
    case False
    with S ok inv show ?thesis by (auto simp: wb_inv_def clean_view)
  qed
  show ?thesis
  proof (cases e1)
    case (Some x)
    with A F S show ?thesis by (auto simp: wb_fresh_def)
  next
    case None
    show ?thesis
    proof (cases "wb_size wb1 \<le> length p")
      case True
      with F S None w_ok [of s1] w_view [of s1 p off] A show ?thesis
        by (auto simp: wb_fresh_def clean_view split: prod.splits)
    next
      case False
      with F S None have E: "s' = s1" "n = wrote" "e = None"
        and wb': "wb' = wb1\<lparr>wb_start := off, wb_buf := go_copy (wb_buf wb1) 0 p, wb_used := length p, wb_dirty := True\<rparr>"
        by (auto simp: wb_fresh_def)
      have "pending wb' = p"
        using take_go_copy [of 0 p "wb_buf wb1"] A False by (simp add: pending_def wb' wb_inv_def)
      with A E wb' p False None show ?thesis by (simp add: wb_inv_def wb_view_def)
    qed
  qed
qed

lemma WriteAt_spec:
  assumes ok: "ok s" and inv: "wb_inv wb" and W: "WriteBuffer_WriteAt w s wb p off = (s', wb', n, e)"
  shows "ok s' \<and> wb_inv wb'
         \<and> (e = None \<longrightarrow> n = int (length p) \<and> wb_view s' wb' = overlay (wb_view s wb) off p)"
proof (cases "p = []")
  case True
  with assms show ?thesis by (auto simp: WriteBuffer_WriteAt_def)
next
  case p: False
  show ?thesis
  proof (cases "off = wb_start wb + int (wb_used wb) \<and> wb_used wb < wb_size wb")
    case False
    with W p have "wb_fresh w s wb p off (int (length p)) = (s', wb', n, e)"
      by (auto simp: WriteBuffer_WriteAt_def Let_def)
    from fresh_spec [OF ok inv this p] show ?thesis by auto
  next
    case C: True
    define k where "k = min (wb_size wb - wb_used wb) (length p)"
    define wb1 where "wb1 = wb\<lparr>wb_dirty := True, wb_buf := go_copy (wb_buf wb) (wb_used wb) (take k p),
                               wb_used := wb_used wb + k\<rparr>"
    have k: "0 < k" "k \<le> length p" "wb_used wb + k \<le> wb_size wb" using C p by (auto simp: k_def)
    have pend: "pending wb1 = pending wb @ take k p"
      using take_go_copy [of "wb_used wb" "take k p" "wb_buf wb"] k inv
      by (simp add: pending_def wb1_def wb_inv_def min_absorb2)
    have len: "length (pending wb) = wb_used wb" using inv by (simp add: pending_def wb_inv_def)
    have inv1: "wb_inv wb1" using inv k by (simp add: wb_inv_def wb1_def)
    have view1: "wb_view s wb1 = overlay (wb_view s wb) off (take k p)"
      unfolding wb_view_def pend overlay_append len using C by (simp add: wb1_def)
    obtain s1 wb2 e1 where S: "(if wb_used wb1 = wb_size wb1 then wb_flush w s wb1 else (s, wb1, None)) = (s1, wb2, e1)"
      by (metis prod_cases3)
    have A: "ok s1 \<and> wb_inv wb2 \<and> (e1 = None \<longrightarrow> wb_view s1 wb2 = wb_view s wb1)"
    proof (cases "wb_used wb1 = wb_size wb1")
      case True
      with S flush_spec [OF ok inv1] show ?thesis by (auto simp: clean_view)
    next
      case False
      with S ok inv1 show ?thesis by auto
    qed
    have W': "(case (s1, wb2, e1) of
                 (s1, wb2, Some err) \<Rightarrow> (s1, wb2, 0, Some err)
               | (s1, wb2, None) \<Rightarrow>
                   if k = length p then (s1, wb2, int (length p), None)
                   else wb_fresh w s1 wb2 (drop k p) (off + int k) (int (length p))) = (s', wb', n, e)"
      using W unfolding WriteBuffer_WriteAt_def Let_def if_not_P [OF p] if_P [OF C] k_def [symmetric]
        wb1_def [symmetric] S .
    show ?thesis
    proof (cases e1)
      case (Some x)
      with A W' show ?thesis by auto
    next
      case None
      show ?thesis
      proof (cases "k = length p")
        case True
        with None A W' view1 show ?thesis by auto
      next
        case False
        with None W' have F: "wb_fresh w s1 wb2 (drop k p) (off + int k) (int (length p)) = (s', wb', n, e)" by simp
        have dp: "drop k p \<noteq> []" using k False by simp
        have "overlay (overlay (wb_view s wb) off (take k p)) (off + int k) (drop k p) = overlay (wb_view s wb) off p"
          using overlay_take_drop [of "wb_view s wb" off k p] k by (simp add: min_absorb2)
        then show ?thesis using fresh_spec [OF _ _ F dp] A None view1 by simp
      qed
    qed
  qed
qed

lemma Flush_spec:
  assumes "ok s" "wb_inv wb" "WriteBuffer_Flush w s wb = (s', wb', None)"
  shows "ok s' \<and> wb_inv wb' \<and> view s' = wb_view s wb \<and> wb_view s' wb' = wb_view s wb"
  using assms flush_spec [OF assms(1,2)]
  by (auto simp: WriteBuffer_Flush_def wb_inv_def clean_view split: if_splits)

end

section \<open>Write cache (internal/disk/write_cache.go)\<close>

text \<open>A stored entry never has empty data: \<open>Add\<close> returns at once on an empty slice. The
  \<open>nil\<close> data that the code tests for is the empty list.\<close>

record WriteCacheEntry =
  goff :: int
  edata :: "byte list"

record WriteCache =
  wc_entries :: "string \<Rightarrow> WriteCacheEntry option"
  wc_maxSize :: int
  wc_totalSize :: int
  wc_lru :: "string list"

definition NewWriteCache :: "int \<Rightarrow> WriteCache" where
  "NewWriteCache m = \<lparr>wc_entries = (\<lambda>_. None), wc_maxSize = m, wc_totalSize = 0, wc_lru = []\<rparr>"

definition removeFromLRULocked :: "WriteCache \<Rightarrow> string \<Rightarrow> WriteCache" where
  "removeFromLRULocked wc f = wc\<lparr>wc_lru := remove1 f (wc_lru wc)\<rparr>"

definition touchLRULocked :: "WriteCache \<Rightarrow> string \<Rightarrow> WriteCache" where
  "touchLRULocked wc f = (let wc1 = removeFromLRULocked wc f in wc1\<lparr>wc_lru := wc_lru wc1 @ [f]\<rparr>)"

definition flushEntryLocked :: "OsDev \<Rightarrow> WriteCache \<Rightarrow> store \<Rightarrow> string \<Rightarrow> WriteCache \<times> store \<times> disk_error option" where
  "flushEntryLocked dev wc st f =
     (case wc_entries wc f of
        None \<Rightarrow> (wc, st, None)
      | Some entry \<Rightarrow>
          if edata entry = [] then (wc, st, None)
          else
            case os_WriteAt dev st f (edata entry) (goff entry) of
              (st', _, Some err) \<Rightarrow> (wc, st', Some (Wrap ''write'' err))
            | (st', _, None) \<Rightarrow>
                (removeFromLRULocked
                   (wc\<lparr>wc_totalSize := wc_totalSize wc - int (length (edata entry)),
                       wc_entries := (wc_entries wc)(f := None)\<rparr>) f, st', None))"

text \<open>The eviction loop drops the error of a flush, so that it may run forever.\<close>

partial_function (option) evictLocked :: "OsDev \<Rightarrow> WriteCache \<Rightarrow> store \<Rightarrow> (WriteCache \<times> store) option" where
  "evictLocked dev wc st =
     (if wc_totalSize wc > wc_maxSize wc \<and> wc_lru wc \<noteq> []
      then case flushEntryLocked dev wc st (hd (wc_lru wc)) of (wc', st', _) \<Rightarrow> evictLocked dev wc' st'
      else Some (wc, st))"

definition cache_touch_evict ::
    "OsDev \<Rightarrow> WriteCache \<Rightarrow> store \<Rightarrow> string \<Rightarrow> (WriteCache \<times> store \<times> disk_error option) option" where
  "cache_touch_evict dev wc st f =
     map_option (\<lambda>(wc', st'). (wc', st', None)) (evictLocked dev (touchLRULocked wc f) st)"

definition cache_store ::
    "OsDev \<Rightarrow> WriteCache \<Rightarrow> store \<Rightarrow> string \<Rightarrow> int \<Rightarrow> byte list \<Rightarrow> (WriteCache \<times> store \<times> disk_error option) option" where
  "cache_store dev wc st f offset data =
     cache_touch_evict dev
       (wc\<lparr>wc_entries := (wc_entries wc)(f \<mapsto> \<lparr>goff = offset, edata = data\<rparr>),
           wc_totalSize := wc_totalSize wc + int (length data)\<rparr>) st f"

definition WriteCache_Add ::
    "OsDev \<Rightarrow> WriteCache \<Rightarrow> store \<Rightarrow> string \<Rightarrow> int \<Rightarrow> byte list \<Rightarrow> (WriteCache \<times> store \<times> disk_error option) option" where
  "WriteCache_Add dev wc st f offset data =
     (if data = [] then Some (wc, st, None)
      else
        case wc_entries wc f of
          Some entry \<Rightarrow>
            if edata entry = [] then cache_store dev wc st f offset data
            else if goff entry + int (length (edata entry)) = offset then
              cache_touch_evict dev
                (wc\<lparr>wc_entries := (wc_entries wc)(f \<mapsto> entry\<lparr>edata := edata entry @ data\<rparr>),
                    wc_totalSize := wc_totalSize wc + int (length data)\<rparr>) st f
            else
              (case flushEntryLocked dev wc st f of
                 (wc', st', Some err) \<Rightarrow> Some (wc', st', Some err)
               | (wc', st', None) \<Rightarrow> cache_store dev wc' st' f offset data)
        | None \<Rightarrow> cache_store dev wc st f offset data)"

definition WriteCache_Flush :: "OsDev \<Rightarrow> WriteCache \<Rightarrow> store \<Rightarrow> string \<Rightarrow> WriteCache \<times> store \<times> disk_error option" where
  "WriteCache_Flush dev wc st f = flushEntryLocked dev wc st f"

partial_function (option) WriteCache_Close ::
    "OsDev \<Rightarrow> WriteCache \<Rightarrow> store \<Rightarrow> (WriteCache \<times> store \<times> disk_error option) option" where
  "WriteCache_Close dev wc st =
     (if wc_lru wc = [] then Some (wc, st, None)
      else
        case flushEntryLocked dev wc st (hd (wc_lru wc)) of
          (wc', st', Some err) \<Rightarrow> Some (wc', st', Some err)
        | (wc', st', None) \<Rightarrow> WriteCache_Close dev wc' st')"

declare evictLocked.simps [code] WriteCache_Close.simps [code]

subsection \<open>Invariant and abstraction\<close>

definition cached_len :: "WriteCache \<Rightarrow> string \<Rightarrow> int" where
  "cached_len wc f = (case wc_entries wc f of None \<Rightarrow> 0 | Some e \<Rightarrow> int (length (edata e)))"

definition wc_inv :: "WriteCache \<Rightarrow> bool" where
  "wc_inv wc \<longleftrightarrow>
     distinct (wc_lru wc) \<and> set (wc_lru wc) = dom (wc_entries wc)
     \<and> (\<forall>f e. wc_entries wc f = Some e \<longrightarrow> edata e \<noteq> [] \<and> 0 \<le> goff e)
     \<and> wc_totalSize wc = (\<Sum>f\<in>dom (wc_entries wc). cached_len wc f)"

definition wc_view :: "WriteCache \<Rightarrow> store \<Rightarrow> string \<Rightarrow> int \<Rightarrow> byte" where
  "wc_view wc st f =
     (case wc_entries wc f of
        None \<Rightarrow> byte_at (contents st f)
      | Some e \<Rightarrow> overlay (byte_at (contents st f)) (goff e) (edata e))"

lemma wc_inv_New: "wc_inv (NewWriteCache m)"
  by (simp add: wc_inv_def NewWriteCache_def)

lemma wc_inv_finite: "wc_inv wc \<Longrightarrow> finite (dom (wc_entries wc))"
  by (metis List.finite_set wc_inv_def)

lemma wc_inv_empty: "wc_inv wc \<Longrightarrow> wc_lru wc = [] \<Longrightarrow> wc_totalSize wc = 0 \<and> wc_entries wc = (\<lambda>_. None)"
  by (auto simp: wc_inv_def)

text \<open>A flush of a device that does not fail writes the entry out and forgets it.\<close>

lemma flushEntry_ok:
  assumes inv: "wc_inv wc" and dev: "\<And>off n. dev_write dev f off n = None"
    and F: "flushEntryLocked dev wc st f = (wc', st', e)"
  shows "e = None" "wc_inv wc'" "wc_entries wc' = (wc_entries wc)(f := None)"
    "wc_lru wc' = remove1 f (wc_lru wc)" "wc_maxSize wc' = wc_maxSize wc"
    "wc_totalSize wc' = wc_totalSize wc - cached_len wc f"
    "wc_view wc' st' = wc_view wc st"
proof -
  have "e = None \<and> wc_entries wc' = (wc_entries wc)(f := None) \<and> wc_lru wc' = remove1 f (wc_lru wc)
        \<and> wc_maxSize wc' = wc_maxSize wc \<and> wc_totalSize wc' = wc_totalSize wc - cached_len wc f
        \<and> wc_view wc' st' = wc_view wc st"
  proof (cases "wc_entries wc f")
    case None
    then have "f \<notin> set (wc_lru wc)" using inv by (auto simp: wc_inv_def)
    with None F show ?thesis by (auto simp: flushEntryLocked_def cached_len_def remove1_idem)
  next
    case (Some entry)
    then have en: "edata entry \<noteq> []" "0 \<le> goff entry" using inv by (auto simp: wc_inv_def)
    obtain st1 n e1 where W: "os_WriteAt dev st f (edata entry) (goff entry) = (st1, n, e1)"
      by (metis prod_cases3)
    have e1: "e1 = None" using W en dev by (auto simp: os_WriteAt_def)
    note v = os_WriteAt_view [OF W]
    have st': "st' = st1" and R: "e = None"
      "wc' = removeFromLRULocked (wc\<lparr>wc_totalSize := wc_totalSize wc - int (length (edata entry)),
              wc_entries := (wc_entries wc)(f := None)\<rparr>) f"
      using F Some en W e1 by (auto simp: flushEntryLocked_def)
    have "wc_view wc' st' g = wc_view wc st g" for g
      using v(2) [OF e1] v(3) [of g] v(4) Some st' R
      by (cases "g = f") (simp, simp_all add: wc_view_def removeFromLRULocked_def contents_def split: option.split)
    then show ?thesis using R Some by (auto simp: removeFromLRULocked_def cached_len_def)
  qed
  then show "e = None" and E: "wc_entries wc' = (wc_entries wc)(f := None)"
    and L: "wc_lru wc' = remove1 f (wc_lru wc)" and "wc_maxSize wc' = wc_maxSize wc"
    and T: "wc_totalSize wc' = wc_totalSize wc - cached_len wc f" and "wc_view wc' st' = wc_view wc st"
    by blast+
  have D: "dom (wc_entries wc') = dom (wc_entries wc) - {f}" using E by auto
  have "(\<Sum>g\<in>dom (wc_entries wc'). cached_len wc' g) = (\<Sum>g\<in>dom (wc_entries wc) - {f}. cached_len wc g)"
    unfolding D by (rule sum.cong) (auto simp: cached_len_def E)
  also have "\<dots> = (\<Sum>g\<in>dom (wc_entries wc). cached_len wc g) - cached_len wc f"
    using wc_inv_finite [OF inv]
    by (cases "f \<in> dom (wc_entries wc)") (auto simp: sum_diff1 cached_len_def split: option.split)
  finally show "wc_inv wc'"
    using inv L T D E by (auto simp: wc_inv_def)
qed


text \<open>The eviction loop returns when writes succeed, and leaves no more cached than allowed.\<close>

lemma evict_ok:
  assumes "wc_inv wc" and dev: "\<And>f off n. dev_write dev f off n = None"
  shows "\<exists>wc' st'. evictLocked dev wc st = Some (wc', st') \<and> wc_inv wc' \<and> wc_maxSize wc' = wc_maxSize wc
           \<and> wc_view wc' st' = wc_view wc st \<and> (0 \<le> wc_maxSize wc \<longrightarrow> wc_totalSize wc' \<le> wc_maxSize wc)"
  using assms(1)
proof (induction "length (wc_lru wc)" arbitrary: wc st rule: less_induct)
  case less
  show ?case
  proof (cases "wc_totalSize wc > wc_maxSize wc \<and> wc_lru wc \<noteq> []")
    case False
    then show ?thesis using less.prems wc_inv_empty [OF less.prems]
      by (subst evictLocked.simps) auto
  next
    case True
    obtain wc1 st1 e where F: "flushEntryLocked dev wc st (hd (wc_lru wc)) = (wc1, st1, e)"
      by (metis prod_cases3)
    note f = flushEntry_ok [OF less.prems dev F]
    have "length (wc_lru wc1) < length (wc_lru wc)"
      using f(4) True by (cases "wc_lru wc") auto
    from less.hyps [OF this f(2), of st1] True F f(5,7) show ?thesis
      by (subst evictLocked.simps) simp
  qed
qed

lemma Close_ok:
  assumes "wc_inv wc" and dev: "\<And>f off n. dev_write dev f off n = None"
  shows "\<exists>wc' st'. WriteCache_Close dev wc st = Some (wc', st', None) \<and> wc_inv wc' \<and> wc_maxSize wc' = wc_maxSize wc
           \<and> wc_view wc' st' = wc_view wc st \<and> wc_lru wc' = []"
  using assms(1)
proof (induction "length (wc_lru wc)" arbitrary: wc st rule: less_induct)
  case less
  show ?case
  proof (cases "wc_lru wc = []")
    case True
    then show ?thesis using less.prems by (subst WriteCache_Close.simps) auto
  next
    case False
    obtain wc1 st1 e where F: "flushEntryLocked dev wc st (hd (wc_lru wc)) = (wc1, st1, e)"
      by (metis prod_cases3)
    note f = flushEntry_ok [OF less.prems dev F]
    have "length (wc_lru wc1) < length (wc_lru wc)"
      using f(4) False by (cases "wc_lru wc") auto
    from less.hyps [OF this f(2), of st1] False F f(1,5,7) show ?thesis
      by (subst WriteCache_Close.simps) simp
  qed
qed

text \<open>Growing or replacing the entry of a file keeps the invariant once the file is touched.\<close>

lemma wc_inv_put:
  assumes inv: "wc_inv wc" and d: "d \<noteq> []" "0 \<le> g"
  shows "wc_inv (touchLRULocked
           (wc\<lparr>wc_entries := (wc_entries wc)(f \<mapsto> \<lparr>goff = g, edata = d\<rparr>),
               wc_totalSize := wc_totalSize wc - cached_len wc f + int (length d)\<rparr>) f)"
    (is "wc_inv ?wc'")
proof -
  have D: "dom (wc_entries ?wc') = insert f (dom (wc_entries wc))"
    by (auto simp: touchLRULocked_def removeFromLRULocked_def Let_def)
  have "(\<Sum>h\<in>dom (wc_entries ?wc'). cached_len ?wc' h)
        = int (length d) + (\<Sum>h\<in>dom (wc_entries wc) - {f}. cached_len ?wc' h)"
    unfolding D using wc_inv_finite [OF inv]
    by (subst sum.insert_remove) (auto simp: cached_len_def touchLRULocked_def removeFromLRULocked_def Let_def)
  also have "(\<Sum>h\<in>dom (wc_entries wc) - {f}. cached_len ?wc' h) = (\<Sum>h\<in>dom (wc_entries wc) - {f}. cached_len wc h)"
    by (rule sum.cong) (auto simp: cached_len_def touchLRULocked_def removeFromLRULocked_def Let_def)
  also have "\<dots> = wc_totalSize wc - cached_len wc f"
    using wc_inv_finite [OF inv] inv
    by (cases "f \<in> dom (wc_entries wc)") (auto simp: sum_diff1 cached_len_def wc_inv_def split: option.split)
  finally have "(\<Sum>h\<in>dom (wc_entries ?wc'). cached_len ?wc' h)
                = int (length d) + (wc_totalSize wc - cached_len wc f)" .
  moreover have "wc_totalSize ?wc' = wc_totalSize wc - cached_len wc f + int (length d)"
    by (simp add: touchLRULocked_def removeFromLRULocked_def Let_def)
  ultimately have S: "wc_totalSize ?wc' = (\<Sum>h\<in>dom (wc_entries ?wc'). cached_len ?wc' h)" by linarith
  have L: "wc_lru ?wc' = remove1 f (wc_lru wc) @ [f]"
    by (simp add: touchLRULocked_def removeFromLRULocked_def Let_def)
  have E: "wc_entries ?wc' = (wc_entries wc)(f \<mapsto> \<lparr>goff = g, edata = d\<rparr>)"
    by (simp add: touchLRULocked_def removeFromLRULocked_def Let_def)
  have "distinct (wc_lru ?wc') \<and> set (wc_lru ?wc') = dom (wc_entries ?wc')"
    unfolding L D using inv by (auto simp: wc_inv_def)
  moreover have "\<forall>h e. wc_entries ?wc' h = Some e \<longrightarrow> edata e \<noteq> [] \<and> 0 \<le> goff e"
    unfolding E using inv d by (auto simp: wc_inv_def)
  ultimately show ?thesis using S unfolding wc_inv_def by blast
qed

lemma cache_store_ok:
  assumes inv: "wc_inv wc" and dev: "\<And>f off n. dev_write dev f off n = None"
    and d: "d \<noteq> []" "0 \<le> off" and fresh: "wc_entries wc f = None"
  shows "\<exists>wc' st'. cache_store dev wc st f off d = Some (wc', st', None) \<and> wc_inv wc' \<and> wc_maxSize wc' = wc_maxSize wc
           \<and> wc_view wc' st' = (wc_view wc st)(f := overlay (wc_view wc st f) off d)
           \<and> (0 \<le> wc_maxSize wc \<longrightarrow> wc_totalSize wc' \<le> wc_maxSize wc)"
proof -
  define wc1 where "wc1 = touchLRULocked
           (wc\<lparr>wc_entries := (wc_entries wc)(f \<mapsto> \<lparr>goff = off, edata = d\<rparr>),
               wc_totalSize := wc_totalSize wc + int (length d)\<rparr>) f"
  have "wc_inv wc1" using wc_inv_put [OF inv d, of f] fresh by (simp add: wc1_def cached_len_def)
  from evict_ok [OF this dev, of st] obtain wc' st' where
    E: "evictLocked dev wc1 st = Some (wc', st')" "wc_inv wc'" "wc_maxSize wc' = wc_maxSize wc1"
       "wc_view wc' st' = wc_view wc1 st" "0 \<le> wc_maxSize wc1 \<longrightarrow> wc_totalSize wc' \<le> wc_maxSize wc1"
    by blast
  have M: "wc_maxSize wc1 = wc_maxSize wc" by (simp add: wc1_def touchLRULocked_def removeFromLRULocked_def Let_def)
  have V: "wc_view wc1 st = (wc_view wc st)(f := overlay (wc_view wc st f) off d)"
    using fresh by (auto simp: wc_view_def wc1_def touchLRULocked_def removeFromLRULocked_def Let_def fun_eq_iff)
  have "cache_store dev wc st f off d = Some (wc', st', None)"
    using E(1) by (simp add: cache_store_def cache_touch_evict_def wc1_def)
  with E M V show ?thesis by auto
qed

lemma Add_ok:
  assumes inv: "wc_inv wc" and dev: "\<And>f off n. dev_write dev f off n = None" and off: "0 \<le> off"
    and m: "0 \<le> wc_maxSize wc" "wc_totalSize wc \<le> wc_maxSize wc"
  shows "\<exists>wc' st'. WriteCache_Add dev wc st f off d = Some (wc', st', None) \<and> wc_inv wc' \<and> wc_maxSize wc' = wc_maxSize wc
           \<and> wc_view wc' st' = (wc_view wc st)(f := overlay (wc_view wc st f) off d)
           \<and> wc_totalSize wc' \<le> wc_maxSize wc"
proof (cases "d = [] \<or> wc_entries wc f = None")
  case True
  then show ?thesis
  proof (cases "d = []")
    case True
    then show ?thesis using inv m by (simp add: WriteCache_Add_def)
  next
    case False
    with True cache_store_ok [OF inv dev False off, of f st] m show ?thesis by (auto simp: WriteCache_Add_def)
  qed
next
  case False
  then obtain entry where d: "d \<noteq> []" and en: "wc_entries wc f = Some entry" by auto
  then have ne: "edata entry \<noteq> []" "0 \<le> goff entry" using inv by (auto simp: wc_inv_def)
  show ?thesis
  proof (cases "goff entry + int (length (edata entry)) = off")
    case True
    define wc1 where "wc1 = touchLRULocked
           (wc\<lparr>wc_entries := (wc_entries wc)(f \<mapsto> entry\<lparr>edata := edata entry @ d\<rparr>),
               wc_totalSize := wc_totalSize wc + int (length d)\<rparr>) f"
    have upd: "entry\<lparr>edata := edata entry @ d\<rparr> = \<lparr>goff = goff entry, edata = edata entry @ d\<rparr>" by simp
    have "wc_inv wc1" using wc_inv_put [OF inv, of "edata entry @ d" "goff entry" f] ne en
      unfolding wc1_def upd by (simp add: cached_len_def)
    from evict_ok [OF this dev, of st] obtain wc' st' where
      E: "evictLocked dev wc1 st = Some (wc', st')" "wc_inv wc'" "wc_maxSize wc' = wc_maxSize wc1"
         "wc_view wc' st' = wc_view wc1 st" "0 \<le> wc_maxSize wc1 \<longrightarrow> wc_totalSize wc' \<le> wc_maxSize wc1"
      by blast
    have M: "wc_maxSize wc1 = wc_maxSize wc" by (simp add: wc1_def touchLRULocked_def removeFromLRULocked_def Let_def)
    have V: "wc_view wc1 st = (wc_view wc st)(f := overlay (wc_view wc st f) off d)"
      using en True overlay_append [of "byte_at (contents st f)" "goff entry" "edata entry" d]
      by (auto simp: wc_view_def wc1_def touchLRULocked_def removeFromLRULocked_def Let_def fun_eq_iff)
    have "WriteCache_Add dev wc st f off d = Some (wc', st', None)"
      using E(1) d en ne True by (simp add: WriteCache_Add_def cache_touch_evict_def wc1_def)
    with E M V m show ?thesis by auto
  next
    case far: False
    obtain wc1 st1 e where F: "flushEntryLocked dev wc st f = (wc1, st1, e)" by (metis prod_cases3)
    note fl = flushEntry_ok [OF inv dev F]
    from cache_store_ok [OF fl(2) dev d off, of f st1] fl F d en ne far m show ?thesis
      by (auto simp: WriteCache_Add_def)
  qed
qed


subsection \<open>Properties\<close>

datatype cache_op = OpAdd string int "byte list" | OpFlush string | OpClose

fun cache_step :: "OsDev \<Rightarrow> WriteCache \<times> store \<Rightarrow> cache_op \<Rightarrow> (WriteCache \<times> store \<times> disk_error option) option" where
  "cache_step dev (wc, st) (OpAdd f off d) = WriteCache_Add dev wc st f off d"
| "cache_step dev (wc, st) (OpFlush f) = Some (WriteCache_Flush dev wc st f)"
| "cache_step dev (wc, st) OpClose = WriteCache_Close dev wc st"

text \<open>A run stops at the first error; \<open>None\<close> is a call that does not return.\<close>

fun cache_run :: "OsDev \<Rightarrow> WriteCache \<times> store \<Rightarrow> cache_op list \<Rightarrow> (WriteCache \<times> store \<times> disk_error option) option" where
  "cache_run dev (wc, st) [] = Some (wc, st, None)"
| "cache_run dev (wc, st) (a # as) =
     (case cache_step dev (wc, st) a of
        None \<Rightarrow> None
      | Some (wc', st', Some e) \<Rightarrow> Some (wc', st', Some e)
      | Some (wc', st', None) \<Rightarrow> cache_run dev (wc', st') as)"

text \<open>The specification: the files as functions from offsets to bytes, with every write applied at once.\<close>

fun spec_write :: "(string \<Rightarrow> int \<Rightarrow> byte) \<Rightarrow> cache_op \<Rightarrow> string \<Rightarrow> int \<Rightarrow> byte" where
  "spec_write v (OpAdd f off d) = v(f := overlay (v f) off d)"
| "spec_write v (OpFlush f) = v"
| "spec_write v OpClose = v"

fun valid_op :: "cache_op \<Rightarrow> bool" where
  "valid_op (OpAdd f off d) = (0 \<le> off)"
| "valid_op _ = True"

lemma cached_len_nonneg: "0 \<le> cached_len wc f"
  by (simp add: cached_len_def split: option.split)

lemma cache_step_ok:
  assumes inv: "wc_inv wc" and dev: "\<And>f off n. dev_write dev f off n = None"
    and m: "0 \<le> wc_maxSize wc" "wc_totalSize wc \<le> wc_maxSize wc" and v: "valid_op a"
  shows "\<exists>wc' st'. cache_step dev (wc, st) a = Some (wc', st', None) \<and> wc_inv wc' \<and> wc_maxSize wc' = wc_maxSize wc
           \<and> wc_totalSize wc' \<le> wc_maxSize wc \<and> wc_view wc' st' = spec_write (wc_view wc st) a"
proof (cases a)
  case (OpAdd f off d)
  with Add_ok [OF inv dev _ m, of off st f d] v show ?thesis by auto
next
  case (OpFlush f)
  obtain wc' st' e where F: "flushEntryLocked dev wc st f = (wc', st', e)" by (metis prod_cases3)
  note fl = flushEntry_ok [OF inv dev F]
  have "wc_totalSize wc' \<le> wc_maxSize wc" using fl(6) cached_len_nonneg [of wc f] m by linarith
  with fl F OpFlush show ?thesis by (simp add: WriteCache_Flush_def)
next
  case OpClose
  from Close_ok [OF inv dev, of st] obtain wc' st' where
    "WriteCache_Close dev wc st = Some (wc', st', None)" "wc_inv wc'" "wc_maxSize wc' = wc_maxSize wc"
    "wc_view wc' st' = wc_view wc st" "wc_lru wc' = []" by blast
  with OpClose wc_inv_empty [of wc'] m show ?thesis by simp
qed

lemma cache_run_ok:
  assumes "wc_inv wc" and dev: "\<And>f off n. dev_write dev f off n = None"
    and "0 \<le> wc_maxSize wc" "wc_totalSize wc \<le> wc_maxSize wc" and "list_all valid_op ops"
  shows "\<exists>wc' st'. cache_run dev (wc, st) ops = Some (wc', st', None) \<and> wc_inv wc' \<and> wc_maxSize wc' = wc_maxSize wc
           \<and> wc_totalSize wc' \<le> wc_maxSize wc \<and> wc_view wc' st' = foldl spec_write (wc_view wc st) ops"
  using assms(1,3,4,5)
proof (induction ops arbitrary: wc st)
  case Nil
  then show ?case by simp
next
  case (Cons a ops)
  from cache_step_ok [OF Cons.prems(1) dev Cons.prems(2,3), of a st] Cons.prems(4)
  obtain wc1 st1 where S: "cache_step dev (wc, st) a = Some (wc1, st1, None)" "wc_inv wc1"
    "wc_maxSize wc1 = wc_maxSize wc" "wc_totalSize wc1 \<le> wc_maxSize wc"
    "wc_view wc1 st1 = spec_write (wc_view wc st) a" by auto
  from Cons.IH [of wc1 st1] S Cons.prems show ?case by simp
qed

text \<open>(C16) The write cache. Over a disk whose writes succeed every sequence of \<open>Add\<close>,
  \<open>Flush\<close> and \<open>Close\<close> calls on a new cache returns without error, never keeps more than the
  limit in memory after a call, and the files read through the cache are what they would be had
  every write gone to disk at once; after a final \<open>Close\<close> the files themselves are.\<close>

theorem write_cache_refines:
  assumes "\<And>f off n. dev_write dev f off n = None" and "0 \<le> m" and "list_all valid_op ops"
  shows "\<exists>wc st'. cache_run dev (NewWriteCache m, st) ops = Some (wc, st', None)
           \<and> wc_totalSize wc \<le> m
           \<and> wc_view wc st' = foldl spec_write (\<lambda>f. byte_at (contents st f)) ops
           \<and> (\<exists>wc2 st2. WriteCache_Close dev wc st' = Some (wc2, st2, None)
                \<and> (\<forall>f. byte_at (contents st2 f) = wc_view wc st' f))"
proof -
  have v0: "wc_view (NewWriteCache m) st = (\<lambda>f. byte_at (contents st f))"
    by (simp add: wc_view_def NewWriteCache_def fun_eq_iff)
  from cache_run_ok [OF wc_inv_New [of m] assms(1) _ _ assms(3), of st] assms(2)
  obtain wc st' where R: "cache_run dev (NewWriteCache m, st) ops = Some (wc, st', None)" "wc_inv wc"
    "wc_totalSize wc \<le> m" "wc_view wc st' = foldl spec_write (wc_view (NewWriteCache m) st) ops"
    by (auto simp: NewWriteCache_def)
  from Close_ok [OF R(2) assms(1), of st'] obtain wc2 st2 where
    C: "WriteCache_Close dev wc st' = Some (wc2, st2, None)" "wc_inv wc2" "wc_view wc2 st2 = wc_view wc st'"
       "wc_lru wc2 = []" by blast
  have "byte_at (contents st2 f) = wc_view wc st' f" for f
    using C wc_inv_empty [OF C(2,4)] by (metis (no_types, lifting) option.simps(4) wc_view_def)
  with R C v0 show ?thesis by metis
qed

lemma write_cache_refines_witness:
  "\<exists>wc st'. cache_run faultless (NewWriteCache 2, Map.empty) [OpAdd ''f'' 0 [1, 2], OpAdd ''f'' 2 [3]] = Some (wc, st', None)
     \<and> wc_totalSize wc \<le> 2"
  using write_cache_refines [of faultless 2 "[OpAdd ''f'' 0 [1, 2], OpAdd ''f'' 2 [3]]" Map.empty]
  by (auto simp: faultless_def)

text \<open>When the file at the front of the queue cannot be written, the eviction loop never ends:
  the failed flush leaves the entry in the queue and its error is dropped.\<close>

lemma flushEntry_fails:
  assumes "wc_entries wc f = Some e" "edata e \<noteq> []" "\<And>off n. dev_write dev f off n \<noteq> None"
  shows "\<exists>st' err. flushEntryLocked dev wc st f = (wc, st', Some err)"
proof -
  obtain st' n r where W: "os_WriteAt dev st f (edata e) (goff e) = (st', n, r)" by (metis prod_cases3)
  then have "r \<noteq> None" using assms(3) [of "nat (goff e)" "length (edata e)"]
    by (auto simp: os_WriteAt_def Let_def split: if_splits option.splits prod.splits)
  then show ?thesis using W assms(1,2) by (auto simp: flushEntryLocked_def)
qed

lemma evict_stuck:
  assumes "wc_maxSize wc < wc_totalSize wc" and "wc_lru wc = f # fs"
    and "wc_entries wc f = Some e" and "edata e \<noteq> []" and "\<And>off n. dev_write dev f off n \<noteq> None"
  shows "evictLocked dev wc st = None"
proof -
  define bad where "bad dev wc \<longleftrightarrow> wc_maxSize wc < wc_totalSize wc \<and> wc_lru wc = f # fs \<and>
    wc_entries wc f = Some e \<and> edata e \<noteq> [] \<and> (\<forall>off n. dev_write dev f off n \<noteq> None)" for dev :: OsDev and wc :: WriteCache
  have "\<not> bad dev wc" if "evictLocked dev wc st = Some r" for dev wc st r
    using that
  proof (rule evictLocked.raw_induct [where P = "\<lambda>dev wc st r. \<not> bad dev wc", rotated])
    fix ev dev wc st y
    assume IH: "\<And>dev wc st y. ev dev wc st = Some y \<Longrightarrow> \<not> bad dev wc"
      and B: "(if wc_totalSize wc > wc_maxSize wc \<and> wc_lru wc \<noteq> []
               then case flushEntryLocked dev wc st (hd (wc_lru wc)) of (wc', st', _) \<Rightarrow> ev dev wc' st'
               else Some (wc, st)) = Some y"
    show "\<not> bad dev wc"
    proof
      assume b: "bad dev wc"
      then obtain st' err where "flushEntryLocked dev wc st f = (wc, st', Some err)"
        using flushEntry_fails [of wc f e dev st] by (auto simp: bad_def)
      with B b have "ev dev wc st' = Some y" by (auto simp: bad_def)
      with IH b show False by blast
    qed
  qed
  moreover have "bad dev wc" using assms by (simp add: bad_def)
  ultimately show ?thesis by (meson not_None_eq)
qed

text \<open>The write cache on a failing disk. When every write fails, as on a full disk, an \<open>Add\<close>
  that takes the cache over its limit does not return: it flushes the same entry for ever, with
  the lock held and without reporting the error.\<close>

lemma write_cache_spins_on_error:
  assumes "wc_inv wc" and "\<And>f off n. dev_write dev f off n \<noteq> None" and "data \<noteq> []" and "0 \<le> off"
    and "wc_entries wc f = None" and "wc_maxSize wc < wc_totalSize wc + int (length data)"
  shows "WriteCache_Add dev wc st f off data = None"
proof -
  define wc1 where "wc1 = touchLRULocked
           (wc\<lparr>wc_entries := (wc_entries wc)(f \<mapsto> \<lparr>goff = off, edata = data\<rparr>),
               wc_totalSize := wc_totalSize wc + int (length data)\<rparr>) f"
  have inv: "wc_inv wc1" using wc_inv_put [OF assms(1,3,4), of f] assms(5) by (simp add: wc1_def cached_len_def)
  have over: "wc_maxSize wc1 < wc_totalSize wc1" and ne: "wc_lru wc1 \<noteq> []"
    using assms(6) by (simp_all add: wc1_def touchLRULocked_def removeFromLRULocked_def Let_def)
  then obtain g gs where l: "wc_lru wc1 = g # gs" by (cases "wc_lru wc1") auto
  then obtain e where e: "wc_entries wc1 g = Some e" "edata e \<noteq> []"
    using inv unfolding wc_inv_def by (metis domD list.set_intros(1))
  have "evictLocked dev wc1 st = None" by (rule evict_stuck [OF over l e]) (rule assms(2))
  then show ?thesis using assms(3,5) by (simp add: WriteCache_Add_def cache_store_def cache_touch_evict_def wc1_def)
qed

lemma write_cache_spins_on_error_witness:
  "WriteCache_Add (faultless\<lparr>dev_write := \<lambda>_ _ _. Some (0, ENOSPC)\<rparr>) (NewWriteCache 2) Map.empty ''f'' 0 [1, 2, 3] = None"
  by (rule write_cache_spins_on_error) (simp_all add: wc_inv_New, simp_all add: NewWriteCache_def)

end
