(* ===== verification/MultiFile.thy ===== *)
theory MultiFile
  imports WriteCache
begin

text \<open>
  The disk adaptors of a download: several files laid end to end (internal/disk/multi_file.go) and a
  single file (single_file.go), over the store and the device of theory \<open>DiskFile\<close>. The
  lemmas show that the files are one byte array, found by binary search, under every
  pattern of failing calls, and that both adaptors meet the writer contract of the write buffer.
\<close>

section \<open>Paths (Go's path/filepath on Unix)\<close>

fun path_split :: "string \<Rightarrow> string list" where
  "path_split [] = [[]]"
| "path_split (c # cs) =
     (if c = CHR ''/'' then [] # path_split cs
      else case path_split cs of [] \<Rightarrow> [[c]] | w # ws \<Rightarrow> (c # w) # ws)"

fun path_join :: "string list \<Rightarrow> string" where
  "path_join [] = []"
| "path_join [w] = w"
| "path_join (w # ws) = w @ CHR ''/'' # path_join ws"

definition clean_step :: "bool \<Rightarrow> string list \<Rightarrow> string \<Rightarrow> string list" where
  "clean_step rooted acc w =
     (if w = '''' \<or> w = ''.'' then acc
      else if w = ''..'' then
        (case acc of
           [] \<Rightarrow> if rooted then [] else [''..'']
         | x # xs \<Rightarrow> if x = ''..'' then ''..'' # acc else xs)
      else w # acc)"

definition filepath_Clean :: "string \<Rightarrow> string" where
  "filepath_Clean p =
     (let rooted = (p \<noteq> [] \<and> hd p = CHR ''/'');
          ws = rev (foldl (clean_step rooted) [] (path_split p))
      in if rooted then CHR ''/'' # path_join ws
         else if ws = [] then ''.'' else path_join ws)"

definition filepath_Join :: "string \<Rightarrow> string \<Rightarrow> string" where
  "filepath_Join a b =
     (let ws = filter (\<lambda>w. w \<noteq> []) [a, b]
      in if ws = [] then [] else filepath_Clean (path_join ws))"

definition filepath_Dir :: "string \<Rightarrow> string" where
  "filepath_Dir p = filepath_Clean (rev (dropWhile (\<lambda>c. c \<noteq> CHR ''/'') (rev p)))"

section \<open>File entries (internal/disk/adaptor.go)\<close>

record FileEntry =
  Name :: string
  Length :: int
  Offset :: int
  Requested :: bool

definition TotalSize :: "FileEntry list \<Rightarrow> int" where
  "TotalSize files = foldl (\<lambda>tot f. tot + Length f) 0 files"

abbreviation fe_end :: "FileEntry \<Rightarrow> int" where
  "fe_end fe \<equiv> Offset fe + Length fe"

section \<open>Files laid end to end (internal/disk/multi_file.go)\<close>

text \<open>Offsets and lengths are plain integers: the sum of the lengths of a download's files stays
  below \<open>2^63\<close>. A file handle is the path it was opened with.\<close>

record MultiFile =
  mf_dir :: string
  mf_files :: "FileEntry list"
  mf_pieceLen :: int
  mf_totalSize :: int
  mf_alloc :: Allocator
  mf_closed :: bool
  mf_opened :: bool
  mf_pieces :: "pieceMap option"
  mf_fileHandles :: "string option list"

datatype layout_error =
    EmptyDirectory | NoFiles
  | FilesNotSorted FileEntry FileEntry
  | FilesOverlap FileEntry FileEntry

fun check_layout :: "FileEntry \<Rightarrow> FileEntry list \<Rightarrow> layout_error option" where
  "check_layout prev [] = None"
| "check_layout prev (cur # rest) =
     (if Offset cur < Offset prev then Some (FilesNotSorted cur prev)
      else if Offset cur < Offset prev + Length prev then Some (FilesOverlap cur prev)
      else check_layout cur rest)"

definition NewMultiFile :: "string \<Rightarrow> FileEntry list \<Rightarrow> int \<Rightarrow> Allocator \<Rightarrow> layout_error + MultiFile" where
  "NewMultiFile dir files pieceLen alloc =
     (if dir = [] then Inl EmptyDirectory
      else if files = [] then Inl NoFiles
      else
        case check_layout (hd files) (tl files) of
          Some e \<Rightarrow> Inl e
        | None \<Rightarrow>
            Inr \<lparr>mf_dir = dir, mf_files = files, mf_pieceLen = pieceLen,
                 mf_totalSize = Offset (last files) + Length (last files), mf_alloc = alloc,
                 mf_closed = False, mf_opened = False, mf_pieces = None,
                 mf_fileHandles = replicate (length files) None\<rparr>)"

subsection \<open>Opening\<close>

definition entry_path :: "string \<Rightarrow> FileEntry \<Rightarrow> string" where
  "entry_path dir fe = filepath_Join dir (Name fe)"

definition open_entry :: "OsDev \<Rightarrow> Allocator \<Rightarrow> string \<Rightarrow> FileEntry \<Rightarrow> store \<Rightarrow> store \<times> disk_error option" where
  "open_entry dev alloc dir fe st =
     (let filePath = entry_path dir fe;
          subDir = filepath_Dir filePath
      in case (if subDir \<noteq> dir then dev_mkdir dev subDir else None) of
           Some e \<Rightarrow> (st, Some (Wrap ''mkdir'' (Errno e)))
         | None \<Rightarrow>
             (case (if st filePath = None then dev_create dev filePath else dev_open dev filePath) of
                Some e \<Rightarrow> (st, Some (Wrap ''open'' (Errno e)))
              | None \<Rightarrow>
                  let st1 = (if st filePath = None then st(filePath \<mapsto> []) else st)
                  in case dev_stat dev filePath of
                       Some e \<Rightarrow> (st1, Some (Wrap ''stat'' (Errno e)))
                     | None \<Rightarrow>
                         (case (if int (length (contents st1 filePath)) > Length fe
                                then os_Truncate dev st1 filePath (Length fe) else (st1, None)) of
                            (st2, Some e) \<Rightarrow> (st2, Some (Wrap ''truncate'' e))
                          | (st2, None) \<Rightarrow>
                              (case Allocate dev alloc st2 filePath (Length fe) of
                                 (st3, Some e) \<Rightarrow> (st3, Some (Wrap ''allocate'' e))
                               | (st3, None) \<Rightarrow> (st3, None)))))"

text \<open>The loop over the files, and \<open>cleanup\<close>, which closes every handle opened so far.\<close>

fun open_loop ::
    "OsDev \<Rightarrow> Allocator \<Rightarrow> string \<Rightarrow> FileEntry list \<Rightarrow> nat \<Rightarrow> string option list \<Rightarrow> store
     \<Rightarrow> string option list \<times> store \<times> disk_error option" where
  "open_loop dev alloc dir [] i handles st = (handles, st, None)"
| "open_loop dev alloc dir (fe # fes) i handles st =
     (if Length fe = 0 then open_loop dev alloc dir fes (Suc i) handles st
      else
        case open_entry dev alloc dir fe st of
          (st', Some e) \<Rightarrow> (replicate (Suc i) None @ drop (Suc i) handles, st', Some e)
        | (st', None) \<Rightarrow> open_loop dev alloc dir fes (Suc i) (handles[i := Some (entry_path dir fe)]) st')"

definition MultiFile_OpenForWrite :: "OsDev \<Rightarrow> MultiFile \<Rightarrow> store \<Rightarrow> MultiFile \<times> store \<times> disk_error option" where
  "MultiFile_OpenForWrite dev mf st =
     (if mf_closed mf then (mf, st, Some (Sentinel ErrFileClosed))
      else if mf_opened mf then (mf, st, None)
      else
        case dev_mkdir dev (mf_dir mf) of
          Some e \<Rightarrow> (mf, st, Some (Wrap ''mkdir'' (Errno e)))
        | None \<Rightarrow>
            (case open_loop dev (mf_alloc mf) (mf_dir mf) (mf_files mf) 0 (mf_fileHandles mf) st of
               (handles, st', Some e) \<Rightarrow> (mf\<lparr>mf_fileHandles := handles\<rparr>, st', Some e)
             | (handles, st', None) \<Rightarrow> (mf\<lparr>mf_fileHandles := handles, mf_opened := True\<rparr>, st', None)))"

subsection \<open>Finding the file of an offset\<close>

function search_entry :: "FileEntry list \<Rightarrow> int \<Rightarrow> nat \<Rightarrow> nat \<Rightarrow> nat" where
  "search_entry files off lo hi =
     (if lo < hi then
        let mid = lo + (hi - lo) div 2
        in if Offset (files ! mid) + Length (files ! mid) \<le> off
           then search_entry files off (mid + 1) hi
           else search_entry files off lo mid
      else lo)"
  by pat_completeness auto
termination by (relation "measure (\<lambda>(_, _, lo, hi). hi - lo)") auto

declare search_entry.simps [simp del]

definition fileAtOffset :: "FileEntry list \<Rightarrow> int \<Rightarrow> (nat \<times> int) option" where
  "fileAtOffset files off =
     (let lo = search_entry files off 0 (length files)
      in if length files \<le> lo then None
         else
           let fe = files ! lo
           in if Offset fe \<le> off \<and> off < Offset fe + Length fe then Some (lo, off - Offset fe) else None)"

definition nextFileOffset :: "FileEntry list \<Rightarrow> int \<Rightarrow> int" where
  "nextFileOffset files off = (case find (\<lambda>fe. Offset fe > off) files of Some fe \<Rightarrow> Offset fe | None \<Rightarrow> -1)"

lemma fileAtOffset_bounds:
  "fileAtOffset files off = Some (k, fo) \<Longrightarrow>
   k < length files \<and> fo = off - Offset (files ! k) \<and> 0 \<le> fo \<and> fo < Length (files ! k)"
  by (auto simp: fileAtOffset_def Let_def split: if_splits)

lemma nextFileOffset_gt: "nextFileOffset files off = -1 \<or> off < nextFileOffset files off"
  by (auto simp: nextFileOffset_def find_Some_iff split: option.split)

subsection \<open>Writing and reading across files\<close>

function mf_write_loop ::
    "OsDev \<Rightarrow> FileEntry list \<Rightarrow> string option list \<Rightarrow> store \<Rightarrow> byte list \<Rightarrow> int \<Rightarrow> nat
     \<Rightarrow> store \<times> nat \<times> disk_error option" where
  "mf_write_loop dev files handles st rem off written =
     (if rem = [] then (st, written, None)
      else
        case fileAtOffset files off of
          None \<Rightarrow> (st, written, Some (Wrap ''write'' (IoText ''gap at offset'')))
        | Some (fidx, fileOff) \<Rightarrow>
            let fe = files ! fidx
            in case handles ! fidx of
                 None \<Rightarrow> (st, written, Some (Wrap ''write'' (IoText ''zero-length file'')))
               | Some fh \<Rightarrow>
                   let toWrite = min (int (length rem)) (Length fe - fileOff)
                   in case os_WriteAt dev st fh (take (nat toWrite) rem) fileOff of
                        (st', n, Some e) \<Rightarrow> (st', written + n, Some (Wrap ''write'' e))
                      | (st', n, None) \<Rightarrow>
                          if int n < toWrite then (st', written + n, Some (DiskText ''short write''))
                          else mf_write_loop dev files handles st' (drop n rem) (off + int n) (written + n))"
  by pat_completeness auto
termination
  by (relation "measure (\<lambda>(dev, files, handles, st, rem, off, written). length rem)")
     (auto dest!: fileAtOffset_bounds)

declare mf_write_loop.simps [simp del]

definition MultiFile_WriteAt :: "OsDev \<Rightarrow> MultiFile \<Rightarrow> store \<Rightarrow> byte list \<Rightarrow> int \<Rightarrow> store \<times> nat \<times> disk_error option" where
  "MultiFile_WriteAt dev mf st p offset =
     (if mf_closed mf then (st, 0, Some (Sentinel ErrFileClosed))
      else if \<not> mf_opened mf then (st, 0, Some (DiskText ''disk: OpenForWrite not called''))
      else if offset < 0 \<or> mf_totalSize mf < offset then (st, 0, Some (Sentinel ErrInvalidOffset))
      else if p = [] then (st, 0, None)
      else mf_write_loop dev (mf_files mf) (mf_fileHandles mf) st p offset 0)"

text \<open>A read returns the bytes it has put into the caller's slice.\<close>

definition with_bytes :: "byte list \<Rightarrow> byte list \<times> 'e option \<Rightarrow> byte list \<times> 'e option" where
  "with_bytes bs r = (bs @ fst r, snd r)"

function mf_read_loop ::
    "OsDev \<Rightarrow> FileEntry list \<Rightarrow> string option list \<Rightarrow> int \<Rightarrow> store \<Rightarrow> nat \<Rightarrow> int \<Rightarrow> byte list \<times> disk_error option" where
  "mf_read_loop dev files handles tot st n off =
     (if n = 0 then ([], if tot \<le> off then Some DiskEOF else None)
      else if tot \<le> off then ([], Some DiskEOF)
      else
        case fileAtOffset files off of
          None \<Rightarrow>
            let nextOff = nextFileOffset files off;
                nextOff = (if nextOff < 0 then tot else nextOff);
                gapLen = nat (min (int n) (nextOff - off))
            in with_bytes (replicate gapLen 0) (mf_read_loop dev files handles tot st (n - gapLen) (off + int gapLen))
        | Some (fidx, fileOff) \<Rightarrow>
            let fe = files ! fidx
            in if handles ! fidx = None \<or> Length fe = 0
               then with_bytes [0] (mf_read_loop dev files handles tot st (n - 1) (off + 1))
               else
                 let toRead = nat (min (int n) (Length fe - fileOff))
                 in case os_ReadAt dev st (the (handles ! fidx)) toRead fileOff of
                      (bs, err) \<Rightarrow>
                        if err \<noteq> None \<and> err \<noteq> Some IoEOF then (bs, Some (Wrap ''read'' (the err)))
                        else
                          let bs' = bs @ replicate (toRead - length bs) 0;
                              off' = off + int toRead
                          in if err = Some IoEOF \<and> tot \<le> off' then (bs', Some DiskEOF)
                             else with_bytes bs' (mf_read_loop dev files handles tot st (n - toRead) off'))"
  by pat_completeness auto
termination
proof (relation "measure (\<lambda>(dev, files, handles, tot, st, n, off). n)", goal_cases)
  case (2 dev files handles tot st n off x xa xb)
  then show ?case using nextFileOffset_gt [of files off] by auto
qed (auto dest!: fileAtOffset_bounds)

declare mf_read_loop.simps [simp del]

definition MultiFile_ReadAt :: "OsDev \<Rightarrow> MultiFile \<Rightarrow> store \<Rightarrow> nat \<Rightarrow> int \<Rightarrow> byte list \<times> disk_error option" where
  "MultiFile_ReadAt dev mf st n offset =
     (if mf_closed mf then ([], Some (Sentinel ErrFileClosed))
      else if \<not> mf_opened mf then ([], Some (DiskText ''disk: OpenForWrite not called''))
      else if n = 0 then ([], None)
      else if mf_totalSize mf \<le> offset then ([], Some DiskEOF)
      else mf_read_loop dev (mf_files mf) (mf_fileHandles mf) (mf_totalSize mf) st n offset)"

subsection \<open>The other operations of MultiFile\<close>

definition MultiFile_Size :: "MultiFile \<Rightarrow> int" where
  "MultiFile_Size mf = mf_totalSize mf"

definition first_error :: "('a \<Rightarrow> 'e option) \<Rightarrow> 'a list \<Rightarrow> 'e option" where
  "first_error f xs = foldl (\<lambda>acc x. case f x of Some e \<Rightarrow> (if acc = None then Some e else acc) | None \<Rightarrow> acc) None xs"

definition MultiFile_Sync :: "OsDev \<Rightarrow> MultiFile \<Rightarrow> disk_error option" where
  "MultiFile_Sync dev mf =
     (if mf_closed mf then Some (Sentinel ErrFileClosed)
      else map_option (\<lambda>e. RawOs (Errno e))
             (first_error (\<lambda>fh. case fh of Some f \<Rightarrow> dev_sync dev f | None \<Rightarrow> None) (mf_fileHandles mf)))"

definition MultiFile_Close :: "OsDev \<Rightarrow> MultiFile \<Rightarrow> MultiFile \<times> disk_error option" where
  "MultiFile_Close dev mf =
     (if mf_closed mf then (mf, None)
      else
        (mf\<lparr>mf_closed := True, mf_fileHandles := map (\<lambda>_. None) (mf_fileHandles mf)\<rparr>,
         map_option (\<lambda>e. RawOs (Errno e))
           (first_error (\<lambda>fh. case fh of Some f \<Rightarrow> dev_close dev f | None \<Rightarrow> None) (mf_fileHandles mf))))"

definition MultiFile_SetPieceCount :: "MultiFile \<Rightarrow> nat \<Rightarrow> MultiFile option" where
  "MultiFile_SetPieceCount mf n =
     (case mf_pieces mf of
        None \<Rightarrow> map_option (\<lambda>pm. mf\<lparr>mf_pieces := Some pm\<rparr>)
                  (newPieceMap (wrap32 (mf_pieceLen mf)) (wrap64 (mf_pieceLen mf * int n)))
      | Some pm \<Rightarrow> Some (mf\<lparr>mf_pieces := Some (setCount pm n)\<rparr>))"

definition MultiFile_MarkPiece :: "MultiFile \<Rightarrow> int \<Rightarrow> bool \<Rightarrow> MultiFile" where
  "MultiFile_MarkPiece mf i on = mf\<lparr>mf_pieces := map_option (\<lambda>pm. mark pm i on) (mf_pieces mf)\<rparr>"

definition MultiFile_Have :: "MultiFile \<Rightarrow> int \<Rightarrow> bool" where
  "MultiFile_Have mf i = (case mf_pieces mf of None \<Rightarrow> False | Some pm \<Rightarrow> have_piece pm i)"

definition MultiFile_Bitfield :: "MultiFile \<Rightarrow> byte list option" where
  "MultiFile_Bitfield mf = (case mf_pieces mf of None \<Rightarrow> None | Some pm \<Rightarrow> bitfield_copy pm)"

definition MultiFile_Missing :: "MultiFile \<Rightarrow> nat list" where
  "MultiFile_Missing mf = (case mf_pieces mf of None \<Rightarrow> [] | Some pm \<Rightarrow> missing pm)"

definition SetRequested :: "MultiFile \<Rightarrow> int list \<Rightarrow> MultiFile" where
  "SetRequested mf indices =
     mf\<lparr>mf_files := foldl (\<lambda>fs i. if 0 \<le> i \<and> i < int (length fs)
                                   then fs[nat i := (fs ! nat i)\<lparr>Requested := True\<rparr>] else fs)
                     (mf_files mf) indices\<rparr>"

definition SetAllRequested :: "MultiFile \<Rightarrow> MultiFile" where
  "SetAllRequested mf = mf\<lparr>mf_files := map (\<lambda>fe. fe\<lparr>Requested := True\<rparr>) (mf_files mf)\<rparr>"

text \<open>Cutting files that are longer on disk than declared: the first error is kept, the loop goes on.\<close>

definition cut_entry :: "OsDev \<Rightarrow> string \<Rightarrow> string option \<Rightarrow> FileEntry \<Rightarrow> store \<Rightarrow> store \<times> disk_error option" where
  "cut_entry dev dir handle fe st =
     (if Length fe = 0 then (st, None)
      else
        let filePath = (case handle of Some f \<Rightarrow> f | None \<Rightarrow> entry_path dir fe)
        in if handle = None \<and> st filePath = None then (st, Some (Wrap ''stat'' (IoText ''no such file or directory'')))
           else
             case dev_stat dev filePath of
               Some e \<Rightarrow> (st, Some (Wrap ''stat'' (Errno e)))
             | None \<Rightarrow>
                 if int (length (contents st filePath)) > Length fe then
                   (case os_Truncate dev st filePath (Length fe) of
                      (st', err) \<Rightarrow> (st', map_option (Wrap ''truncate'') err))
                 else (st, None))"

fun cut_loop ::
    "OsDev \<Rightarrow> string \<Rightarrow> (string option \<times> FileEntry) list \<Rightarrow> store \<Rightarrow> disk_error option \<Rightarrow> store \<times> disk_error option" where
  "cut_loop dev dir [] st firstErr = (st, firstErr)"
| "cut_loop dev dir ((h, fe) # rest) st firstErr =
     (case cut_entry dev dir h fe st of
        (st', err) \<Rightarrow> cut_loop dev dir rest st' (if firstErr = None then err else firstErr))"

definition MultiFile_CutTrailingGarbage :: "OsDev \<Rightarrow> MultiFile \<Rightarrow> store \<Rightarrow> store \<times> disk_error option" where
  "MultiFile_CutTrailingGarbage dev mf st =
     (if mf_closed mf then (st, Some (Sentinel ErrFileClosed))
      else cut_loop dev (mf_dir mf) (zip (mf_fileHandles mf) (mf_files mf)) st None)"

section \<open>One file (internal/disk/single_file.go)\<close>

record SingleFile =
  sf_path :: string
  sf_size :: int
  sf_alloc :: Allocator
  sf_f :: "string option"
  sf_closed :: bool
  sf_pieces :: "bool list"

definition NewSingleFile :: "OsDev \<Rightarrow> store \<Rightarrow> string \<Rightarrow> int \<Rightarrow> Allocator \<Rightarrow> store \<times> (disk_error + SingleFile)" where
  "NewSingleFile dev st path sz alloc =
     (let opened =
        (case st path of
           Some _ \<Rightarrow> (case dev_open dev path of Some e \<Rightarrow> Inl (Wrap ''open'' (Errno e)) | None \<Rightarrow> Inr st)
         | None \<Rightarrow>
             (let dir = filepath_Dir path
              in case (if dir \<noteq> ''.'' then dev_mkdir dev dir else None) of
                   Some e \<Rightarrow> Inl (Wrap ''mkdir'' (Errno e))
                 | None \<Rightarrow>
                     (case dev_create dev path of
                        Some e \<Rightarrow> Inl (Wrap ''create'' (Errno e))
                      | None \<Rightarrow> Inr (st(path \<mapsto> [])))))
      in case opened of
           Inl e \<Rightarrow> (st, Inl e)
         | Inr st1 \<Rightarrow>
             (case Allocate dev alloc st1 path sz of
                (st2, Some e) \<Rightarrow> (st2, Inl (Wrap ''alloc'' e))
              | (st2, None) \<Rightarrow>
                  (st2, Inr \<lparr>sf_path = path, sf_size = sz, sf_alloc = alloc, sf_f = Some path,
                             sf_closed = False, sf_pieces = []\<rparr>)))"

definition SingleFile_OpenForWrite :: "OsDev \<Rightarrow> SingleFile \<Rightarrow> store \<Rightarrow> SingleFile \<times> disk_error option" where
  "SingleFile_OpenForWrite dev sf st =
     (if sf_closed sf then (sf, Some (Sentinel ErrFileClosed))
      else if sf_f sf \<noteq> None then (sf, None)
      else if st (sf_path sf) = None then (sf, Some (Wrap ''open'' (IoText ''no such file or directory'')))
      else
        case dev_open dev (sf_path sf) of
          Some e \<Rightarrow> (sf, Some (Wrap ''open'' (Errno e)))
        | None \<Rightarrow> (sf\<lparr>sf_f := Some (sf_path sf)\<rparr>, None))"

definition SingleFile_WriteAt :: "OsDev \<Rightarrow> SingleFile \<Rightarrow> store \<Rightarrow> byte list \<Rightarrow> int \<Rightarrow> store \<times> nat \<times> disk_error option" where
  "SingleFile_WriteAt dev sf st p offset =
     (if offset < 0 then (st, 0, Some (Sentinel ErrInvalidOffset))
      else if sf_size sf < offset then (st, 0, Some (Sentinel ErrInvalidOffset))
      else if sf_size sf - offset < int (length p) then (st, 0, Some (Sentinel ErrInvalidOffset))
      else if sf_closed sf then (st, 0, Some (Sentinel ErrFileClosed))
      else
        case sf_f sf of
          None \<Rightarrow> (st, 0, Some (Sentinel ErrFileClosed))
        | Some f \<Rightarrow>
            (case os_WriteAt dev st f p offset of (st', n, err) \<Rightarrow> (st', n, map_option (Wrap ''write'') err)))"

definition SingleFile_ReadAt :: "OsDev \<Rightarrow> SingleFile \<Rightarrow> store \<Rightarrow> nat \<Rightarrow> int \<Rightarrow> byte list \<times> disk_error option" where
  "SingleFile_ReadAt dev sf st n offset =
     (if offset < 0 then ([], Some (Sentinel ErrInvalidOffset))
      else if sf_closed sf then ([], Some (Sentinel ErrFileClosed))
      else
        case sf_f sf of
          None \<Rightarrow> ([], Some (Wrap ''read'' (IoText ''invalid argument'')))
        | Some f \<Rightarrow> (case os_ReadAt dev st f n offset of (bs, err) \<Rightarrow> (bs, map_option (Wrap ''read'') err)))"

definition SingleFile_Size :: "SingleFile \<Rightarrow> int" where
  "SingleFile_Size sf = sf_size sf"

definition SingleFile_Sync :: "OsDev \<Rightarrow> SingleFile \<Rightarrow> disk_error option" where
  "SingleFile_Sync dev sf =
     (if sf_closed sf then Some (Sentinel ErrFileClosed)
      else case sf_f sf of None \<Rightarrow> None | Some f \<Rightarrow> map_option (\<lambda>e. Wrap ''sync'' (Errno e)) (dev_sync dev f))"

definition SingleFile_Close :: "OsDev \<Rightarrow> SingleFile \<Rightarrow> SingleFile \<times> disk_error option" where
  "SingleFile_Close dev sf =
     (if sf_closed sf then (sf, None)
      else
        case sf_f sf of
          None \<Rightarrow> (sf\<lparr>sf_closed := True\<rparr>, None)
        | Some f \<Rightarrow> (sf\<lparr>sf_closed := True, sf_f := None\<rparr>, map_option (\<lambda>e. Wrap ''close'' (Errno e)) (dev_close dev f)))"

definition SingleFile_SetPieceCount :: "SingleFile \<Rightarrow> nat \<Rightarrow> SingleFile" where
  "SingleFile_SetPieceCount sf n =
     (if length (sf_pieces sf) = n then sf else sf\<lparr>sf_pieces := replicate n False\<rparr>)"

definition SingleFile_MarkPiece :: "SingleFile \<Rightarrow> int \<Rightarrow> bool \<Rightarrow> SingleFile" where
  "SingleFile_MarkPiece sf i on =
     (if sf_closed sf then sf
      else if i < 0 \<or> int (length (sf_pieces sf)) \<le> i then sf
      else sf\<lparr>sf_pieces := (sf_pieces sf)[nat i := on]\<rparr>)"

definition SingleFile_Have :: "SingleFile \<Rightarrow> int \<Rightarrow> bool" where
  "SingleFile_Have sf i =
     (if i < 0 \<or> int (length (sf_pieces sf)) \<le> i then False else sf_pieces sf ! nat i)"

definition SingleFile_Bitfield :: "SingleFile \<Rightarrow> byte list option" where
  "SingleFile_Bitfield sf =
     (let n = length (sf_pieces sf)
      in if n = 0 then None
         else Some (fold (\<lambda>i bf. if sf_pieces sf ! i
                                  then bf[i div 8 := (bf ! (i div 8)) OR push_bit (7 - i mod 8) 1] else bf)
                      [0..<n] (replicate ((n + 7) div 8) 0)))"

definition SingleFile_CutTrailingGarbage :: "OsDev \<Rightarrow> SingleFile \<Rightarrow> store \<Rightarrow> store \<times> disk_error option" where
  "SingleFile_CutTrailingGarbage dev sf st =
     (if sf_closed sf then (st, Some (Sentinel ErrFileClosed))
      else
        case sf_f sf of
          None \<Rightarrow> (st, None)
        | Some f \<Rightarrow>
            (case dev_stat dev f of
               Some e \<Rightarrow> (st, Some (Wrap ''stat'' (Errno e)))
             | None \<Rightarrow>
                 if int (length (contents st f)) > sf_size sf then
                   (case os_Truncate dev st f (sf_size sf) of (st', err) \<Rightarrow> (st', map_option (Wrap ''truncate'') err))
                 else (st, None)))"

definition SingleFile_Missing :: "SingleFile \<Rightarrow> nat list" where
  "SingleFile_Missing sf = filter (\<lambda>i. \<not> sf_pieces sf ! i) [0..<length (sf_pieces sf)]"

section \<open>The files as one byte array\<close>

text \<open>The reference definition of the file of an offset is a scan of the list.\<close>

definition locate :: "FileEntry list \<Rightarrow> int \<Rightarrow> nat option" where
  "locate files i = find (\<lambda>k. Offset (files ! k) \<le> i \<and> i < fe_end (files ! k)) [0..<length files]"

definition mf_byte :: "FileEntry list \<Rightarrow> string option list \<Rightarrow> store \<Rightarrow> int \<Rightarrow> byte" where
  "mf_byte files handles st i =
     (case locate files i of
        None \<Rightarrow> 0
      | Some k \<Rightarrow> (case handles ! k of None \<Rightarrow> 0 | Some f \<Rightarrow> byte_at (contents st f) (i - Offset (files ! k))))"

definition laid_out :: "FileEntry list \<Rightarrow> bool" where
  "laid_out files \<longleftrightarrow>
     sorted_wrt (\<lambda>a b. fe_end a \<le> Offset b) files \<and> (\<forall>fe\<in>set files. 0 \<le> Length fe \<and> 0 \<le> Offset fe)"

definition handles_ok :: "FileEntry list \<Rightarrow> string option list \<Rightarrow> bool" where
  "handles_ok files handles \<longleftrightarrow>
     length handles = length files
     \<and> (\<forall>k<length files. 0 < Length (files ! k) \<longrightarrow> handles ! k \<noteq> None)
     \<and> (\<forall>j<length files. \<forall>k<length files. handles ! j \<noteq> None \<and> handles ! j = handles ! k \<longrightarrow> j = k)"

lemma laid_out_nth:
  "laid_out files \<Longrightarrow> k < length files \<Longrightarrow> 0 \<le> Length (files ! k) \<and> 0 \<le> Offset (files ! k)"
  by (simp add: laid_out_def)

lemma laid_out_ends: "laid_out files \<Longrightarrow> j < k \<Longrightarrow> k < length files \<Longrightarrow> fe_end (files ! j) \<le> Offset (files ! k)"
  by (simp add: laid_out_def sorted_wrt_iff_nth_less)

lemma locate_Some:
  assumes "laid_out files"
  shows "locate files i = Some k \<longleftrightarrow> k < length files \<and> Offset (files ! k) \<le> i \<and> i < fe_end (files ! k)"
proof
  assume "locate files i = Some k"
  then show "k < length files \<and> Offset (files ! k) \<le> i \<and> i < fe_end (files ! k)"
    by (auto simp: locate_def find_Some_iff)
next
  assume K: "k < length files \<and> Offset (files ! k) \<le> i \<and> i < fe_end (files ! k)"
  have "\<not> (Offset (files ! j) \<le> i \<and> i < fe_end (files ! j))" if "j < k" for j
    using laid_out_ends [OF assms that] K by linarith
  with K show "locate files i = Some k" by (auto simp: locate_def find_Some_iff)
qed

lemma locate_None:
  "locate files i = None \<longleftrightarrow> (\<forall>k<length files. \<not> (Offset (files ! k) \<le> i \<and> i < fe_end (files ! k)))"
  by (auto simp: locate_def find_None_iff)

text \<open>The binary search finds the first file that ends behind the offset.\<close>

lemma search_entry_spec:
  assumes "laid_out files" and "hi \<le> length files" and "lo \<le> hi"
    and "\<forall>j<lo. fe_end (files ! j) \<le> off"
    and "\<forall>j. hi \<le> j \<and> j < length files \<longrightarrow> off < fe_end (files ! j)"
  shows "search_entry files off lo hi \<le> length files
         \<and> (\<forall>j. j < search_entry files off lo hi \<longrightarrow> fe_end (files ! j) \<le> off)
         \<and> (\<forall>j. search_entry files off lo hi \<le> j \<and> j < length files \<longrightarrow> off < fe_end (files ! j))"
  using assms
proof (induction files off lo hi rule: search_entry.induct)
  case (1 files off lo hi)
  show ?case
  proof (cases "lo < hi")
    case False
    then have "search_entry files off lo hi = lo" by (simp add: search_entry.simps [of files off lo hi])
    with False "1.prems" show ?thesis by simp
  next
    case True
    define mid where "mid = lo + (hi - lo) div 2"
    have mid: "lo \<le> mid" "mid < hi" using True by (auto simp: mid_def)
    have mono: "fe_end (files ! i) \<le> fe_end (files ! j)" if "i \<le> j" "j < length files" for i j
      using that laid_out_ends [OF "1.prems"(1), of i j] laid_out_nth [OF "1.prems"(1), of j]
      by (cases "i = j") auto
    have step: "search_entry files off lo hi =
        (if fe_end (files ! mid) \<le> off then search_entry files off (mid + 1) hi else search_entry files off lo mid)"
      using True unfolding search_entry.simps [of files off lo hi] mid_def Let_def by simp
    show ?thesis
    proof (cases "fe_end (files ! mid) \<le> off")
      case C: True
      have "fe_end (files ! j) \<le> off" if "j < mid + 1" for j
        using mono [of j mid] C mid "1.prems"(2) that by linarith
      then have below: "\<forall>j<mid + 1. fe_end (files ! j) \<le> off" by blast
      have "mid + 1 \<le> hi" using mid by simp
      from "1.IH"(1) [OF True mid_def C "1.prems"(1,2) this below "1.prems"(5)]
      show ?thesis unfolding step if_P [OF C] .
    next
      case C: False
      have "off < fe_end (files ! j)" if "mid \<le> j" "j < length files" for j
        using mono [OF that] C by linarith
      then have beyond: "\<forall>j. mid \<le> j \<and> j < length files \<longrightarrow> off < fe_end (files ! j)" by blast
      have "mid \<le> length files" using mid "1.prems"(2) by simp
      from "1.IH"(2) [OF True mid_def C "1.prems"(1) this mid(1) "1.prems"(4) beyond]
      show ?thesis unfolding step if_not_P [OF C] .
    qed
  qed
qed

lemma fileAtOffset_locate:
  assumes "laid_out files"
  shows "fileAtOffset files off = map_option (\<lambda>k. (k, off - Offset (files ! k))) (locate files off)"
proof -
  define r where "r = search_entry files off 0 (length files)"
  have R: "r \<le> length files" "\<forall>j<r. fe_end (files ! j) \<le> off"
    "\<forall>j. r \<le> j \<and> j < length files \<longrightarrow> off < fe_end (files ! j)"
    using search_entry_spec [OF assms, of "length files" 0 off] by (simp_all add: r_def)
  show ?thesis
  proof (cases "r < length files \<and> Offset (files ! r) \<le> off")
    case True
    then have "locate files off = Some r" using R locate_Some [OF assms] by simp
    with True R show ?thesis by (simp add: fileAtOffset_def Let_def r_def)
  next
    case False
    have "\<not> (Offset (files ! k) \<le> off \<and> off < fe_end (files ! k))" if k: "k < length files" for k
    proof
      assume K: "Offset (files ! k) \<le> off \<and> off < fe_end (files ! k)"
      then have rk: "r \<le> k" using R(2) by (meson not_le)
      with k have r: "r < length files" by simp
      have "Offset (files ! r) \<le> Offset (files ! k)"
        using rk laid_out_ends [OF assms, of r k] laid_out_nth [OF assms r] k by (cases "r = k") auto
      with False r K show False by linarith
    qed
    then have "locate files off = None" by (simp add: locate_None)
    with False show ?thesis by (auto simp: fileAtOffset_def Let_def r_def)
  qed
qed

text \<open>A write to one file, inside its bounds, is a write to the array.\<close>

lemma mf_byte_write:
  assumes lay: "laid_out files" and h: "handles_ok files handles"
    and loc: "locate files off = Some k" and hk: "handles ! k = Some f"
    and len: "off + int (length bs) \<le> fe_end (files ! k)"
    and st': "\<And>g. g \<noteq> f \<Longrightarrow> st' g = st g"
      "byte_at (contents st' f) = overlay (byte_at (contents st f)) (off - Offset (files ! k)) bs"
  shows "mf_byte files handles st' = overlay (mf_byte files handles st) off bs"
proof
  fix i
  have K: "k < length files" "Offset (files ! k) \<le> off" using loc locate_Some [OF lay] by auto
  show "mf_byte files handles st' i = overlay (mf_byte files handles st) off bs i"
  proof (cases "locate files i")
    case None
    then have "\<not> (off \<le> i \<and> i < off + int (length bs))"
      using K len by (auto simp: locate_None dest!: spec [of _ k])
    with None show ?thesis by (auto simp: mf_byte_def overlay_def)
  next
    case (Some j)
    then have J: "j < length files" "Offset (files ! j) \<le> i" "i < fe_end (files ! j)"
      using locate_Some [OF lay] by auto
    show ?thesis
    proof (cases "j = k")
      case True
      with Some hk st'(2) show ?thesis
        by (simp add: mf_byte_def overlay_def algebra_simps)
    next
      case False
      have "handles ! j \<noteq> Some f" using h hk False J(1) K(1) unfolding handles_ok_def by (metis option.distinct(1))
      then have same: "mf_byte files handles st' i = mf_byte files handles st i"
        using Some st'(1) by (cases "handles ! j") (auto simp: mf_byte_def contents_def)
      have "\<not> (off \<le> i \<and> i < off + int (length bs))"
      proof
        assume "off \<le> i \<and> i < off + int (length bs)"
        with K len have "locate files i = Some k" by (simp add: locate_Some [OF lay])
        with Some False show False by simp
      qed
      with same show ?thesis by (auto simp: overlay_def)
    qed
  qed
qed

lemma mf_write_loop_spec:
  assumes lay: "laid_out files" and h: "handles_ok files handles"
    and "mf_write_loop dev files handles st rem off written = (st', n, e)"
  shows "\<exists>m\<le>length rem. n = written + m \<and> (e = None \<longrightarrow> m = length rem)
           \<and> mf_byte files handles st' = overlay (mf_byte files handles st) off (take m rem)
           \<and> ((\<forall>f a n. dev_write dev f a n = None)
              \<and> (\<forall>i. off \<le> i \<and> i < off + int (length rem) \<longrightarrow> locate files i \<noteq> None) \<longrightarrow> e = None)"
  using assms
proof (induction dev files handles st rem off written arbitrary: st' n e rule: mf_write_loop.induct)
  case (1 dev files handles st rem off written)
  note step = mf_write_loop.simps [of dev files handles st rem off written]
  show ?case
  proof (cases "rem = []")
    case True
    then have "mf_write_loop dev files handles st rem off written = (st, written, None)" unfolding step by simp
    with True "1.prems"(3) show ?thesis by auto
  next
    case ne: False
    show ?thesis
    proof (cases "locate files off")
      case None
      then have "fileAtOffset files off = None" by (simp add: fileAtOffset_locate [OF "1.prems"(1)])
      with "1.prems"(3) None ne show ?thesis by (auto simp: step intro: exI [of _ 0])
    next
      case (Some k)
      have K: "k < length files" "Offset (files ! k) \<le> off" "off < fe_end (files ! k)"
        using Some locate_Some [OF "1.prems"(1)] by auto
      obtain f where f: "handles ! k = Some f"
        using "1.prems"(2) K unfolding handles_ok_def by force
      have fa: "fileAtOffset files off = Some (k, off - Offset (files ! k))"
        by (simp add: fileAtOffset_locate [OF "1.prems"(1)] Some)
      define tw where "tw = min (int (length rem)) (Length (files ! k) - (off - Offset (files ! k)))"
      have tw: "0 < tw" "tw \<le> int (length rem)" "off + tw \<le> fe_end (files ! k)"
        using ne K by (auto simp: tw_def)
      obtain st1 m e1 where W: "os_WriteAt dev st f (take (nat tw) rem) (off - Offset (files ! k)) = (st1, m, e1)"
        by (metis prod_cases3)
      note v = os_WriteAt_view [OF W]
      have m: "m \<le> nat tw" "m \<le> length rem" using v(1) tw by auto
      have view1: "mf_byte files handles st1 = overlay (mf_byte files handles st) off (take m rem)"
        by (rule mf_byte_write [OF "1.prems"(1,2) Some f _ v(3)]) (use m tw v(4) in \<open>auto simp: min_def\<close>)
      show ?thesis
      proof (cases e1)
        case (Some x)
        then have "n = written + m" "st' = st1" "e \<noteq> None"
          using "1.prems"(3) ne fa f W by (auto simp: step Let_def tw_def [symmetric])
        moreover have "\<not> (\<forall>f a n. dev_write dev f a n = None)"
        proof
          assume "\<forall>f a n. dev_write dev f a n = None"
          with W Some K show False by (simp add: os_WriteAt_def)
        qed
        ultimately show ?thesis using m view1 by blast
      next
        case None
        have full: "m = nat tw" using v(2) [OF None] tw by simp
        have nl: "\<not> int m < tw" using full tw by simp
        have rec: "mf_write_loop dev files handles st1 (drop m rem) (off + int m) (written + m) = (st', n, e)"
          using "1.prems"(3) ne fa f W None nl unfolding step Let_def by (simp flip: tw_def del: min_less_iff_conj)
        from "1.IH" [OF ne fa refl refl f tw_def W [symmetric] refl None nl "1.prems"(1,2) rec]
        obtain m' where m': "m' \<le> length (drop m rem)" "n = written + m + m'" "e = None \<longrightarrow> m' = length (drop m rem)"
          "mf_byte files handles st' = overlay (mf_byte files handles st1) (off + int m) (take m' (drop m rem))"
          "(\<forall>f a n. dev_write dev f a n = None) \<and> (\<forall>i. off + int m \<le> i \<and> i < off + int m + int (length (drop m rem)) \<longrightarrow> locate files i \<noteq> None) \<longrightarrow> e = None"
          by blast
        have "take (m + m') rem = take m rem @ take m' (drop m rem)" by (simp add: take_add)
        then have "mf_byte files handles st' = overlay (mf_byte files handles st) off (take (m + m') rem)"
          using m'(4) view1 m overlay_append [of "mf_byte files handles st" off "take m rem" "take m' (drop m rem)"]
          by (simp add: min_absorb2)
        then show ?thesis using m' m by (intro exI [of _ "m + m'"]) auto
      qed
    qed
  qed
qed


text \<open>Between the end of one file and the start of the next there is nothing.\<close>

lemma sorted_offsets:
  "laid_out files \<Longrightarrow> j \<le> k \<Longrightarrow> k < length files \<Longrightarrow> Offset (files ! j) \<le> Offset (files ! k)"
  using laid_out_ends [of files j k] laid_out_nth [of files j] by (cases "j = k") auto

definition area_end :: "FileEntry list \<Rightarrow> int \<Rightarrow> bool" where
  "area_end files tot \<longleftrightarrow> (\<forall>fe\<in>set files. fe_end fe \<le> tot)"

lemma gap_spec:
  assumes lay: "laid_out files" and tot: "area_end files tot" and loc: "locate files off = None"
    and nx: "nx = (if nextFileOffset files off < 0 then tot else nextFileOffset files off)" and lt: "off < tot"
  shows "off < nx \<and> nx \<le> tot \<and> (\<forall>i. off \<le> i \<and> i < nx \<longrightarrow> locate files i = None)"
proof (cases "find (\<lambda>fe. Offset fe > off) files")
  case None
  then have nx: "nx = tot" using nx by (simp add: nextFileOffset_def)
  have "locate files i = None" if "off \<le> i" for i
  proof -
    have "\<not> (Offset (files ! k) \<le> i \<and> i < fe_end (files ! k))" if k: "k < length files" for k
      using None loc k \<open>off \<le> i\<close> by (force simp: find_None_iff locate_None in_set_conv_nth)
    then show ?thesis by (simp add: locate_None)
  qed
  with nx lt show ?thesis by simp
next
  case (Some fe)
  then obtain j where j: "j < length files" "fe = files ! j" "off < Offset fe" "\<forall>i<j. Offset (files ! i) \<le> off"
    by (auto simp: find_Some_iff not_less)
  have nx: "nx = Offset fe" using nx Some laid_out_nth [OF lay j(1)] j(2) by (simp add: nextFileOffset_def)
  have "locate files i = None" if i: "off \<le> i" "i < Offset fe" for i
  proof -
    have "\<not> (Offset (files ! k) \<le> i \<and> i < fe_end (files ! k))" if k: "k < length files" for k
    proof (cases "k < j")
      case True
      then have "fe_end (files ! k) \<le> off" using j(4) loc k by (auto simp: locate_None not_less)
      with i show ?thesis by simp
    next
      case False
      then show ?thesis using sorted_offsets [OF lay, of j k] k j(2) i by simp
    qed
    then show ?thesis by (simp add: locate_None)
  qed
  moreover have "Offset fe \<le> tot"
    using tot [unfolded area_end_def, rule_format, OF nth_mem [OF j(1)]] laid_out_nth [OF lay j(1)]
    unfolding j(2) by linarith
  ultimately show ?thesis using nx j(3) by simp
qed

definition reads :: "(int \<Rightarrow> byte) \<Rightarrow> int \<Rightarrow> byte list \<Rightarrow> bool" where
  "reads v off bs \<longleftrightarrow> (\<forall>i<length bs. bs ! i = v (off + int i))"

lemma reads_append [simp]: "reads v off (xs @ ys) \<longleftrightarrow> reads v off xs \<and> reads v (off + int (length xs)) ys"
  unfolding reads_def
proof (intro iffI conjI allI impI)
  fix i
  assume A: "\<forall>i<length (xs @ ys). (xs @ ys) ! i = v (off + int i)" and i: "i < length ys"
  then show "ys ! i = v (off + int (length xs) + int i)"
    using A [rule_format, of "length xs + i"] by (simp add: add.assoc)
next
  fix i
  assume A: "\<forall>i<length (xs @ ys). (xs @ ys) ! i = v (off + int i)" and "i < length xs"
  then show "xs ! i = v (off + int i)" using A [rule_format, of i] by (simp add: nth_append)
next
  fix i
  assume A: "(\<forall>i<length xs. xs ! i = v (off + int i)) \<and> (\<forall>i<length ys. ys ! i = v (off + int (length xs) + int i))"
    and i: "i < length (xs @ ys)"
  show "(xs @ ys) ! i = v (off + int i)"
    using A i by (cases "i < length xs") (auto simp: nth_append)
qed

lemma mf_byte_in:
  "locate files off = Some k \<Longrightarrow> laid_out files \<Longrightarrow> handles ! k = Some f \<Longrightarrow>
   off \<le> i \<Longrightarrow> i < fe_end (files ! k) \<Longrightarrow>
   mf_byte files handles st i = byte_at (contents st f) (i - Offset (files ! k))"
proof -
  assume A: "locate files off = Some k" "laid_out files" "handles ! k = Some f" "off \<le> i" "i < fe_end (files ! k)"
  then have "locate files i = Some k" using locate_Some [OF A(2), of off k] locate_Some [OF A(2), of i k] by simp
  with A(3) show ?thesis by (simp add: mf_byte_def)
qed

text \<open>A read of one file, padded with zeros behind its end, reads the array.\<close>

lemma file_read_spec:
  assumes lay: "laid_out files" and loc: "locate files off = Some k" and f: "handles ! k = Some f"
    and R: "os_ReadAt dev st f tr (off - Offset (files ! k)) = (bs, e)"
    and tr: "off + int tr \<le> fe_end (files ! k)"
  shows "reads (mf_byte files handles st) off bs"
    and "e = None \<or> e = Some IoEOF \<Longrightarrow> reads (mf_byte files handles st) off (bs @ replicate (tr - length bs) 0)"
proof -
  have B: "mf_byte files handles st (off + int i) = byte_at (contents st f) (off - Offset (files ! k) + int i)"
    if "i < tr" for i
    using mf_byte_in [OF loc lay f, of "off + int i" st] that tr by (simp add: algebra_simps)
  note v = os_ReadAt_view [OF R]
  show 1: "reads (mf_byte files handles st) off bs" using B v by (auto simp: reads_def)
  assume "e = None \<or> e = Some IoEOF"
  then have "mf_byte files handles st (off + int i) = 0" if "length bs \<le> i" "i < tr" for i
    using os_ReadAt_eof [OF R _ that] B [OF that(2)] by simp
  then have "reads (mf_byte files handles st) (off + int (length bs)) (replicate (tr - length bs) 0)"
    by (auto simp: reads_def) (metis add.assoc add_less_cancel_left le_add1 le_add_diff_inverse of_nat_add v(1))
  with 1 show "reads (mf_byte files handles st) off (bs @ replicate (tr - length bs) 0)" by simp
qed

definition read_result :: "OsDev \<Rightarrow> (int \<Rightarrow> byte) \<Rightarrow> int \<Rightarrow> nat \<Rightarrow> int \<Rightarrow> byte list \<times> disk_error option \<Rightarrow> bool" where
  "read_result dev v tot n off r \<longleftrightarrow>
     (case r of (bs, e) \<Rightarrow>
        length bs \<le> n \<and> reads v off bs \<and> (e = None \<longrightarrow> length bs = n \<and> off + int n < tot)
        \<and> ((\<forall>f a n. dev_read dev f a n = None) \<longrightarrow>
             length bs = min n (nat (tot - off)) \<and> e = (if tot \<le> off + int n then Some DiskEOF else None)))"

text \<open>A chunk read inside the area followed by a read of the rest.\<close>

lemma read_result_chunk:
  assumes "read_result dev v tot (n - k) (off + int k) r" and "reads v off xs" and "length xs = k" and "k \<le> n"
    and "off + int k \<le> tot"
  shows "read_result dev v tot n off (with_bytes xs r)"
  using assms by (auto simp: read_result_def with_bytes_def split: prod.splits)

lemma mf_read_loop_spec:
  assumes lay: "laid_out files" and h: "handles_ok files handles" and tot: "area_end files tot"
  shows "read_result dev (mf_byte files handles st) tot n off (mf_read_loop dev files handles tot st n off)"
proof (induction n arbitrary: off rule: less_induct)
  case (less n)
  note step = mf_read_loop.simps [of dev files handles tot st n off]
  consider "n = 0 \<or> tot \<le> off" | "0 < n" "off < tot" "locate files off = None"
    | k where "0 < n" "off < tot" "locate files off = Some k" by fastforce
  then show ?case
  proof cases
    case 1
    then show ?thesis unfolding step by (auto simp: read_result_def reads_def)
  next
    case 2
    define nx where "nx = (if nextFileOffset files off < 0 then tot else nextFileOffset files off)"
    define g where "g = nat (min (int n) (nx - off))"
    have nx: "off < nx" "nx \<le> tot" "\<And>i. off \<le> i \<Longrightarrow> i < nx \<Longrightarrow> locate files i = None"
      using gap_spec [OF lay tot 2(3) nx_def 2(2)] by auto
    have g: "0 < g" "g \<le> n" "off + int g \<le> nx" using 2 nx(1) by (auto simp: g_def)
    have fa: "fileAtOffset files off = None" by (simp add: fileAtOffset_locate [OF lay] 2(3))
    have eq: "mf_read_loop dev files handles tot st n off
              = with_bytes (replicate g 0) (mf_read_loop dev files handles tot st (n - g) (off + int g))"
      unfolding step using 2 fa by (simp add: Let_def del: int_nat_eq flip: nx_def g_def)
    have "reads (mf_byte files handles st) off (replicate g 0)"
      using nx(3) g(3) by (simp add: reads_def mf_byte_def)
    from read_result_chunk [OF less.IH [of "n - g" "off + int g"] this] g nx 2 show ?thesis unfolding eq by simp
  next
    case (3 k)
    have K: "k < length files" "Offset (files ! k) \<le> off" "off < fe_end (files ! k)"
      using 3(3) locate_Some [OF lay] by auto
    obtain f where f: "handles ! k = Some f" using h K unfolding handles_ok_def by force
    have fa: "fileAtOffset files off = Some (k, off - Offset (files ! k))"
      by (simp add: fileAtOffset_locate [OF lay] 3(3))
    define tr where "tr = nat (min (int n) (Length (files ! k) - (off - Offset (files ! k))))"
    have tr: "0 < tr" "tr \<le> n" "off + int tr \<le> fe_end (files ! k)" using 3 K by (auto simp: tr_def)
    have end_tot: "off + int tr \<le> tot"
      using tot [unfolded area_end_def, rule_format, OF nth_mem [OF K(1)]] tr(3) by linarith
    obtain bs e where R: "os_ReadAt dev st f tr (off - Offset (files ! k)) = (bs, e)" by (metis prod.exhaust)
    note v = os_ReadAt_view [OF R] and rd = file_read_spec [OF lay 3(3) f R tr(3)]
    have L: "Length (files ! k) \<noteq> 0" using K by auto
    let ?bs' = "bs @ replicate (tr - length bs) 0"
    have eq: "mf_read_loop dev files handles tot st n off =
        (if e \<noteq> None \<and> e \<noteq> Some IoEOF then (bs, Some (Wrap ''read'' (the e)))
         else if e = Some IoEOF \<and> tot \<le> off + int tr then (?bs', Some DiskEOF)
         else with_bytes ?bs' (mf_read_loop dev files handles tot st (n - tr) (off + int tr)))"
      unfolding step using 3 fa f L R by (simp add: Let_def del: int_nat_eq flip: tr_def)
    have nofault: "e = None \<or> e = Some IoEOF" if "\<forall>f a n. dev_read dev f a n = None"
      using R K that by (auto simp: os_ReadAt_def Let_def split: if_splits)
    show ?thesis
    proof (cases "e \<noteq> None \<and> e \<noteq> Some IoEOF")
      case True
      then have "\<not> (\<forall>f a n. dev_read dev f a n = None)" using nofault by blast
      with True rd(1) v(1) tr(2) show ?thesis unfolding eq read_result_def by (auto simp del: not_None_eq)
    next
      case False
      then have bs': "reads (mf_byte files handles st) off ?bs'" "length ?bs' = tr" using rd(2) v(1) by auto
      show ?thesis
      proof (cases "e = Some IoEOF \<and> tot \<le> off + int tr")
        case True
        with bs' tr(2) end_tot show ?thesis unfolding eq by (auto simp: read_result_def)
      next
        case C: False
        from read_result_chunk [OF less.IH [of "n - tr" "off + int tr"] bs'] tr 3 end_tot
        show ?thesis unfolding eq if_not_P [OF False] if_not_P [OF C] by simp
      qed
    qed
  qed
qed

section \<open>Opened files\<close>

definition mf_view :: "MultiFile \<Rightarrow> store \<Rightarrow> int \<Rightarrow> byte" where
  "mf_view mf st = mf_byte (mf_files mf) (mf_fileHandles mf) st"

definition mf_ok :: "MultiFile \<Rightarrow> bool" where
  "mf_ok mf \<longleftrightarrow>
     mf_opened mf \<and> \<not> mf_closed mf \<and> laid_out (mf_files mf) \<and> handles_ok (mf_files mf) (mf_fileHandles mf)
     \<and> area_end (mf_files mf) (mf_totalSize mf)"

text \<open>The checks of \<open>NewMultiFile\<close> order the files, if their lengths are not negative.\<close>

lemma check_layout_sorted:
  "check_layout prev rest = None \<Longrightarrow> \<forall>fe\<in>set (prev # rest). 0 \<le> Length fe \<Longrightarrow>
   sorted_wrt (\<lambda>a b. fe_end a \<le> Offset b) (prev # rest)"
proof (induction prev rest rule: check_layout.induct)
  case (1 prev)
  then show ?case by simp
next
  case (2 prev cur rest)
  then have le: "fe_end prev \<le> Offset cur" and S: "sorted_wrt (\<lambda>a b. fe_end a \<le> Offset b) (cur # rest)"
    by (auto split: if_splits)
  have "fe_end prev \<le> Offset b" if "b \<in> set rest" for b
    using le S that "2.prems"(2) by force
  with le S show ?case by simp
qed

lemma check_layout_offsets:
  "check_layout prev rest = None \<Longrightarrow> 0 \<le> Offset prev \<Longrightarrow> \<forall>fe\<in>set (prev # rest). 0 \<le> Offset fe"
  by (induction prev rest rule: check_layout.induct) (auto split: if_splits)

lemma NewMultiFile_laid_out:
  assumes "NewMultiFile dir files pl alloc = Inr mf" and "\<forall>fe\<in>set files. 0 \<le> Length fe" and "0 \<le> Offset (hd files)"
  shows "mf_files mf = files \<and> laid_out files \<and> area_end files (mf_totalSize mf) \<and> \<not> mf_closed mf \<and> \<not> mf_opened mf
         \<and> mf_fileHandles mf = replicate (length files) None \<and> mf_dir mf = dir"
proof -
  have ne: "files \<noteq> []" and ck: "check_layout (hd files) (tl files) = None"
    and mf: "mf_files mf = files" "mf_totalSize mf = fe_end (last files)" "\<not> mf_closed mf" "\<not> mf_opened mf"
      "mf_fileHandles mf = replicate (length files) None" "mf_dir mf = dir"
    using assms(1) by (auto simp: NewMultiFile_def split: if_splits option.splits)
  have cons: "hd files # tl files = files" using ne by simp
  have S: "sorted_wrt (\<lambda>a b. fe_end a \<le> Offset b) files"
    using check_layout_sorted [OF ck] assms(2) unfolding cons by blast
  have O: "\<forall>fe\<in>set files. 0 \<le> Offset fe"
    using check_layout_offsets [OF ck assms(3)] unfolding cons .
  have "fe_end fe \<le> fe_end (last files)" if fe: "fe \<in> set files" for fe
  proof -
    obtain i where i: "i < length files" "fe = files ! i" using fe by (auto simp: in_set_conv_nth)
    show ?thesis
    proof (cases "i = length files - 1")
      case True
      then show ?thesis using i ne by (simp add: last_conv_nth)
    next
      case False
      then have "fe_end (files ! i) \<le> Offset (last files)"
        using S i by (auto simp: sorted_wrt_iff_nth_less last_conv_nth [OF ne])
      moreover have "0 \<le> Length (last files)" using assms(2) ne by simp
      ultimately show ?thesis using i by simp
    qed
  qed
  with mf S O assms(2) show ?thesis by (simp add: laid_out_def area_end_def)
qed

lemma open_loop_handles:
  assumes "open_loop dev alloc dir fes i handles st = (handles', st', None)" and "i + length fes = length handles"
  shows "length handles' = length handles \<and>
    (\<forall>k<length handles. handles' ! k =
       (if i \<le> k \<and> Length (fes ! (k - i)) \<noteq> 0 then Some (entry_path dir (fes ! (k - i))) else handles ! k))"
  using assms
proof (induction fes arbitrary: i handles st)
  case Nil
  then show ?case by auto
next
  case (Cons fe fes)
  show ?case
  proof (cases "Length fe = 0")
    case True
    with Cons.prems have "open_loop dev alloc dir fes (Suc i) handles st = (handles', st', None)" by simp
    from Cons.IH [OF this] Cons.prems(2) True show ?thesis
      by (auto simp: Suc_le_eq nth_Cons' le_less)
  next
    case False
    obtain st1 where "open_loop dev alloc dir fes (Suc i) (handles[i := Some (entry_path dir fe)]) st1 = (handles', st', None)"
      using Cons.prems(1) False by (auto split: prod.splits option.splits)
    from Cons.IH [OF this] Cons.prems(2) False show ?thesis
      by (auto simp: Suc_le_eq nth_Cons' nth_list_update le_less)
  qed
qed

text \<open>Files that are opened at different paths are a well-formed area.\<close>

lemma mf_ok_opened:
  assumes N: "NewMultiFile dir files pl alloc = Inr mf" and len: "\<forall>fe\<in>set files. 0 \<le> Length fe" and off: "0 \<le> Offset (hd files)"
    and O: "MultiFile_OpenForWrite dev mf st = (mf', st', None)"
    and dist: "distinct (map (entry_path dir) (filter (\<lambda>fe. Length fe \<noteq> 0) files))"
  shows "mf_ok mf' \<and> mf_files mf' = files \<and> mf_totalSize mf' = mf_totalSize mf"
proof -
  note n = NewMultiFile_laid_out [OF N len off]
  from O n obtain hs where L: "open_loop dev (mf_alloc mf) dir files 0 (replicate (length files) None) st = (hs, st', None)"
    and mf': "mf' = mf\<lparr>mf_fileHandles := hs, mf_opened := True\<rparr>"
    by (auto simp: MultiFile_OpenForWrite_def split: if_splits option.splits prod.splits)
  from open_loop_handles [OF L] have hs: "length hs = length files"
    "\<And>k. k < length files \<Longrightarrow> hs ! k = (if Length (files ! k) \<noteq> 0 then Some (entry_path dir (files ! k)) else None)"
    by auto
  have inj: "j = k" if jk: "j < length files" "k < length files" "Length (files ! j) \<noteq> 0" "Length (files ! k) \<noteq> 0"
      "entry_path dir (files ! j) = entry_path dir (files ! k)" for j k
    using dist jk
  proof (induction files arbitrary: j k)
    case Nil
    then show ?case by simp
  next
    case (Cons fe fes)
    have out: "entry_path dir fe \<noteq> entry_path dir (fes ! i)" if "Length fe \<noteq> 0" "i < length fes" "Length (fes ! i) \<noteq> 0" for i
      using Cons.prems(1) that by (force simp: image_iff)
    have d: "distinct (map (entry_path dir) (filter (\<lambda>fe. Length fe \<noteq> 0) fes))"
      using Cons.prems(1) by (auto split: if_splits)
    show ?case
      using Cons.IH [OF d] Cons.prems(2-) out by (cases j; cases k) (auto dest: sym)
  qed
  have "handles_ok files hs" unfolding handles_ok_def using hs inj by (auto split: if_splits)
  with n mf' show ?thesis by (simp add: mf_ok_def)
qed

lemma MultiFile_WriteAt_spec:
  assumes ok: "mf_ok mf" and W: "MultiFile_WriteAt dev mf st p off = (st', n, e)"
  shows "n \<le> length p \<and> (e = None \<longrightarrow> n = length p)
         \<and> mf_view mf st' = overlay (mf_view mf st) off (take n p)
         \<and> ((\<forall>f a n. dev_write dev f a n = None) \<and> 0 \<le> off \<and> off \<le> mf_totalSize mf
             \<and> (\<forall>i. off \<le> i \<and> i < off + int (length p) \<longrightarrow> locate (mf_files mf) i \<noteq> None) \<longrightarrow> e = None)"
proof (cases "0 \<le> off \<and> off \<le> mf_totalSize mf \<and> p \<noteq> []")
  case False
  with ok W show ?thesis
    by (auto simp: MultiFile_WriteAt_def mf_ok_def split: if_splits)
next
  case True
  then have "mf_write_loop dev (mf_files mf) (mf_fileHandles mf) st p off 0 = (st', n, e)"
    using ok W by (simp add: MultiFile_WriteAt_def mf_ok_def)
  with mf_write_loop_spec [of "mf_files mf" "mf_fileHandles mf" dev st p off 0 st' n e] ok show ?thesis
    by (auto simp: mf_ok_def mf_view_def)
qed

lemma MultiFile_ReadAt_spec:
  assumes ok: "mf_ok mf" and n: "0 < n"
  shows "read_result dev (mf_view mf st) (mf_totalSize mf) n off (MultiFile_ReadAt dev mf st n off)"
proof (cases "mf_totalSize mf \<le> off")
  case True
  with ok n show ?thesis by (auto simp: MultiFile_ReadAt_def mf_ok_def read_result_def reads_def)
next
  case False
  with ok n mf_read_loop_spec [of "mf_files mf" "mf_fileHandles mf" "mf_totalSize mf" dev st n off]
  show ?thesis by (simp add: MultiFile_ReadAt_def mf_ok_def mf_view_def)
qed

text \<open>A read that does not fail returns the bytes of the array up to its end, and reports the end
  of the file as soon as it reaches it, even when it has returned every byte asked for.\<close>

lemma MultiFile_ReadAt_exact:
  assumes ok: "mf_ok mf" and n: "0 < n" and dev: "\<forall>f a n. dev_read dev f a n = None"
  shows "MultiFile_ReadAt dev mf st n off =
     (map (\<lambda>i. mf_view mf st (off + int i)) [0..<min n (nat (mf_totalSize mf - off))],
      if mf_totalSize mf \<le> off + int n then Some DiskEOF else None)"
proof -
  obtain bs e where R: "MultiFile_ReadAt dev mf st n off = (bs, e)" by (metis prod.exhaust)
  with MultiFile_ReadAt_spec [OF ok n, of dev st off] dev
  have "length bs = min n (nat (mf_totalSize mf - off))" "reads (mf_view mf st) off bs"
    "e = (if mf_totalSize mf \<le> off + int n then Some DiskEOF else None)"
    by (auto simp: read_result_def)
  then show ?thesis unfolding R by (auto simp: reads_def intro!: nth_equalityI)
qed

text \<open>(C17) Many files as one. On files opened at different paths, sorted and not overlapping,
  \<open>WriteAt\<close> changes exactly the bytes it reports as written, whatever call of the operating system
  fails in between and however many files the range crosses; it reports success only for all of
  them, and does so when no call fails and the range has no gap. \<open>ReadAt\<close> then returns, at any offset, the bytes
  of that one array, up to its end.\<close>

theorem multi_file_refines_array:
  assumes "NewMultiFile dir files pl alloc = Inr mf" and "\<forall>fe\<in>set files. 0 \<le> Length fe" and "0 \<le> Offset (hd files)"
    and "MultiFile_OpenForWrite dev0 mf st0 = (mf', st, None)"
    and "distinct (map (entry_path dir) (filter (\<lambda>fe. Length fe \<noteq> 0) files))"
    and "MultiFile_WriteAt dev mf' st p off = (st', n, e)"
  shows "n \<le> length p \<and> (e = None \<longrightarrow> n = length p)
         \<and> mf_view mf' st' = overlay (mf_view mf' st) off (take n p)
         \<and> ((\<forall>f a n. dev_write dev f a n = None) \<and> 0 \<le> off \<and> off \<le> mf_totalSize mf
             \<and> (\<forall>i. off \<le> i \<and> i < off + int (length p) \<longrightarrow> locate files i \<noteq> None) \<longrightarrow> e = None)
         \<and> (\<forall>m o'. 0 < m \<and> (\<forall>f a n. dev_read dev f a n = None) \<longrightarrow>
              fst (MultiFile_ReadAt dev mf' st' m o') =
                map (\<lambda>i. mf_view mf' st' (o' + int i)) [0..<min m (nat (mf_totalSize mf - o'))])"
proof -
  have ok: "mf_ok mf'" and f: "mf_files mf' = files" "mf_totalSize mf' = mf_totalSize mf"
    using mf_ok_opened [OF assms(1-5)] by auto
  show ?thesis
    using MultiFile_WriteAt_spec [OF ok assms(6)] MultiFile_ReadAt_exact [OF ok] unfolding f by auto
qed

definition two_files :: "FileEntry list" where
  "two_files = [\<lparr>Name = ''a'', Length = 2, Offset = 0, Requested = True\<rparr>,
                \<lparr>Name = ''b'', Length = 3, Offset = 2, Requested = True\<rparr>]"

lemma two_files_open:
  "\<exists>mf mf' st. NewMultiFile ''d'' two_files 4 AllocatorTrunc = Inr mf
     \<and> MultiFile_OpenForWrite faultless mf Map.empty = (mf', st, None) \<and> mf_totalSize mf = 5"
  by (simp add: NewMultiFile_def two_files_def MultiFile_OpenForWrite_def open_entry_def faultless_def
        Let_def os_Truncate_def contents_def)

lemma two_files_paths:
  "distinct (map (entry_path ''d'') (filter (\<lambda>fe. Length fe \<noteq> 0) two_files))"
  by (simp add: two_files_def entry_path_def filepath_Join_def filepath_Clean_def clean_step_def)

lemma multi_file_refines_array_witness:
  "\<exists>mf' st st' n e. MultiFile_WriteAt faultless mf' st [7, 8] 1 = (st', n, e)
     \<and> n \<le> length [7, 8 :: byte] \<and> mf_view mf' st' = overlay (mf_view mf' st) 1 (take n [7, 8])"
proof -
  obtain mf mf' st where O: "NewMultiFile ''d'' two_files 4 AllocatorTrunc = Inr mf"
    "MultiFile_OpenForWrite faultless mf Map.empty = (mf', st, None)" using two_files_open by blast
  obtain st' n e where W: "MultiFile_WriteAt faultless mf' st [7, 8] 1 = (st', n, e)" by (metis prod_cases3)
  have "\<forall>fe\<in>set two_files. 0 \<le> Length fe" "0 \<le> Offset (hd two_files)" by (simp_all add: two_files_def)
  from multi_file_refines_array [OF O(1) this O(2) two_files_paths W] W show ?thesis by blast
qed

section \<open>Every writer meets the contract of the buffer\<close>

definition os_writer :: "(OsDev \<times> string \<times> store, os_error) writer" where
  "os_writer s p off = (case s of (dev, f, st) \<Rightarrow> case os_WriteAt dev st f p off of (st', n, e) \<Rightarrow> ((dev, f, st'), int n, e))"

definition single_writer :: "(OsDev \<times> SingleFile \<times> store, disk_error) writer" where
  "single_writer s p off =
     (case s of (dev, sf, st) \<Rightarrow> case SingleFile_WriteAt dev sf st p off of (st', n, e) \<Rightarrow> ((dev, sf, st'), int n, e))"

definition multi_writer :: "(OsDev \<times> MultiFile \<times> store, disk_error) writer" where
  "multi_writer s p off =
     (case s of (dev, mf, st) \<Rightarrow> case MultiFile_WriteAt dev mf st p off of (st', n, e) \<Rightarrow> ((dev, mf, st'), int n, e))"

definition sf_view :: "SingleFile \<Rightarrow> store \<Rightarrow> int \<Rightarrow> byte" where
  "sf_view sf st = (case sf_f sf of None \<Rightarrow> (\<lambda>_. 0) | Some f \<Rightarrow> byte_at (contents st f))"

lemma SingleFile_WriteAt_spec:
  "SingleFile_WriteAt dev sf st p off = (st', n, e) \<Longrightarrow>
   n \<le> length p \<and> (e = None \<longrightarrow> n = length p) \<and> sf_view sf st' = overlay (sf_view sf st) off (take n p)"
  using os_WriteAt_view [of dev st _ p off st' n]
  by (force simp: SingleFile_WriteAt_def sf_view_def split: if_splits option.splits prod.splits)

lemma SingleFile_ReadAt_exact:
  assumes "\<not> sf_closed sf" "sf_f sf = Some f" "0 \<le> off" "\<forall>f a n. dev_read dev f a n = None"
    and "off + int n \<le> int (length (contents st f))"
  shows "SingleFile_ReadAt dev sf st n off = (map (\<lambda>i. sf_view sf st (off + int i)) [0..<n], None)"
  using assms
  by (auto simp: SingleFile_ReadAt_def os_ReadAt_def sf_view_def byte_at_def Let_def nat_add_distrib intro!: nth_equalityI)

interpretation osw: writer_at "\<lambda>_. True" os_writer "\<lambda>(dev, f, st). byte_at (contents st f)"
proof
  fix s s' p off n e
  assume W: "os_writer s p off = (s', n, e)"
  then obtain dev f st st' k where s: "s = (dev, f, st)" "s' = (dev, f, st')" "os_WriteAt dev st f p off = (st', k, e)"
    by (auto simp: os_writer_def split: prod.splits)
  note v = os_WriteAt_view [OF s(3)]
  show "\<exists>k\<le>length p. (case s' of (dev, f, st) \<Rightarrow> byte_at (contents st f))
          = overlay (case s of (dev, f, st) \<Rightarrow> byte_at (contents st f)) off (take k p)"
    using s v(1,4) by auto
next
  fix s s' p off n
  assume W: "os_writer s p off = (s', n, None)"
  then obtain dev f st st' k where s: "s = (dev, f, st)" "s' = (dev, f, st')" "os_WriteAt dev st f p off = (st', k, None)"
    by (auto simp: os_writer_def split: prod.splits)
  note v = os_WriteAt_view [OF s(3)]
  show "(case s' of (dev, f, st) \<Rightarrow> byte_at (contents st f))
          = overlay (case s of (dev, f, st) \<Rightarrow> byte_at (contents st f)) off p"
    using s v(2,4) by auto
qed

interpretation sfw: writer_at "\<lambda>_. True" single_writer "\<lambda>(dev, sf, st). sf_view sf st"
proof
  fix s s' p off n e
  assume "single_writer s p off = (s', n, e)"
  then show "\<exists>k\<le>length p. (case s' of (dev, sf, st) \<Rightarrow> sf_view sf st)
          = overlay (case s of (dev, sf, st) \<Rightarrow> sf_view sf st) off (take k p)"
    by (auto simp: single_writer_def dest!: SingleFile_WriteAt_spec split: prod.splits)
next
  fix s s' p off n
  assume "single_writer s p off = (s', n, None)"
  then show "(case s' of (dev, sf, st) \<Rightarrow> sf_view sf st)
          = overlay (case s of (dev, sf, st) \<Rightarrow> sf_view sf st) off p"
    by (auto simp: single_writer_def dest!: SingleFile_WriteAt_spec split: prod.splits)
qed auto

interpretation mfw: writer_at "\<lambda>(dev, mf, st). mf_ok mf" multi_writer "\<lambda>(dev, mf, st). mf_view mf st"
proof
  fix s s' p off n e
  assume ok: "case s of (dev, mf, st) \<Rightarrow> mf_ok mf" and W: "multi_writer s p off = (s', n, e)"
  then obtain dev mf st st' k where s: "s = (dev, mf, st)" "s' = (dev, mf, st')" "MultiFile_WriteAt dev mf st p off = (st', k, e)"
    by (auto simp: multi_writer_def split: prod.splits)
  then show "case s' of (dev, mf, st) \<Rightarrow> mf_ok mf" using ok by simp
  show "\<exists>k\<le>length p. (case s' of (dev, mf, st) \<Rightarrow> mf_view mf st)
          = overlay (case s of (dev, mf, st) \<Rightarrow> mf_view mf st) off (take k p)"
    using s ok MultiFile_WriteAt_spec [OF _ s(3)] by auto
next
  fix s s' p off n
  assume ok: "case s of (dev, mf, st) \<Rightarrow> mf_ok mf" and W: "multi_writer s p off = (s', n, None)"
  then obtain dev mf st st' k where s: "s = (dev, mf, st)" "s' = (dev, mf, st')" "MultiFile_WriteAt dev mf st p off = (st', k, None)"
    by (auto simp: multi_writer_def split: prod.splits)
  show "(case s' of (dev, mf, st) \<Rightarrow> mf_view mf st) = overlay (case s of (dev, mf, st) \<Rightarrow> mf_view mf st) off p"
    using s ok MultiFile_WriteAt_spec [OF _ s(3)] by auto
qed

text \<open>A write through the buffer and a flush leave the files as a direct write would.\<close>

lemma buffered_write_reaches_files:
  assumes "mf_ok mf" "wb_inv wb" "\<not> wb_dirty wb"
    and "WriteBuffer_WriteAt multi_writer (dev, mf, st) wb p off = (s1, wb1, n, None)"
    and "WriteBuffer_Flush multi_writer s1 wb1 = ((dev2, mf2, st2), wb2, None)"
  shows "n = int (length p) \<and> mf_view mf2 st2 = overlay (mf_view mf st) off p"
proof -
  have u: "wb_used wb = 0" using assms(2,3) by (simp add: wb_inv_def)
  from mfw.WriteAt_spec [OF _ assms(2,4)] assms(1) mfw.clean_view [OF u]
  have 1: "(case s1 of (dev, mf, st) \<Rightarrow> mf_ok mf) \<and> wb_inv wb1 \<and> n = int (length p)
    \<and> mfw.wb_view s1 wb1 = overlay (mf_view mf st) off p" by simp
  with mfw.Flush_spec [OF _ _ assms(5)] show ?thesis by auto
qed

end
