(* ===== verification/BtSelect.thy ===== *)
theory BtSelect
  imports Torrent MultiFile
begin

text \<open>
  Which files and pieces of a torrent are downloaded, and where they are put: the file part of
  \<open>src/internal/engine/bt_download.go\<close> (\<open>--select-file\<close>, \<open>--index-out\<close>, the piece filter, the disk
  entries, removal of unselected files). The lemmas show that the pieces that are wanted are those
  of the selected files, that all their bytes have a place on disk, and that no torrent names a file
  outside its directory.
\<close>

section \<open>Options\<close>

datatype select_error =
    EmptyIndex | InvalidIndex string | InvalidRange string | IndexRange string | NothingSelected
  | InvalidMapping string | PathNotRelative string

definition select_range :: "int \<Rightarrow> int \<Rightarrow> bool list \<Rightarrow> bool list" where
  "select_range s e selected = foldl (\<lambda>sel i. sel[nat (i - 1) := True]) selected [s..e]"

definition parse_index :: "string \<Rightarrow> int option" where
  "parse_index s = (case Atoi (TrimSpace s) of Inl _ \<Rightarrow> None | Inr i \<Rightarrow> if i \<le> 0 then None else Some i)"

definition parse_part :: "string \<Rightarrow> nat \<Rightarrow> select_error + int \<times> int" where
  "parse_part part n =
     (if part = [] then Inl EmptyIndex
      else
        let (startText, endText, hasRange) = Cut (CHR ''-'') part in
        case parse_index startText of
          None \<Rightarrow> Inl (InvalidIndex part)
        | Some s \<Rightarrow>
            (case (if hasRange then parse_index endText else Some s) of
               None \<Rightarrow> Inl (InvalidRange part)
             | Some e \<Rightarrow>
                 if e < s then Inl (InvalidRange part)
                 else if int n < s \<or> int n < e then Inl (IndexRange part)
                 else Inr (s, e)))"

fun select_loop :: "nat \<Rightarrow> string list \<Rightarrow> bool list \<Rightarrow> select_error + bool list" where
  "select_loop n [] selected = Inr selected"
| "select_loop n (p # ps) selected =
     rbind (parse_part (TrimSpace p) n) (\<lambda>(s, e). select_loop n ps (select_range s e selected))"

text \<open>A nil slice, which stands for all files, is the empty list.\<close>

definition parseBTSelectedFiles :: "string \<Rightarrow> nat \<Rightarrow> select_error + bool list" where
  "parseBTSelectedFiles expr n =
     (if expr = [] \<or> n \<le> 1 then Inr []
      else rbind (select_loop n (Split (CHR '','') expr) (replicate n False)) (\<lambda>selected.
             if list_ex (\<lambda>b. b) selected then Inr selected else Inl NothingSelected))"

fun index_out_loop :: "nat \<Rightarrow> string list \<Rightarrow> (nat \<rightharpoonup> string) \<Rightarrow> select_error + (nat \<rightharpoonup> string)" where
  "index_out_loop n [] indexOut = Inr indexOut"
| "index_out_loop n (value # vs) indexOut =
     (let (indexText, path, ok) = Cut (CHR ''='') value in
      if \<not> ok \<or> TrimSpace indexText = [] \<or> path = [] then Inl (InvalidMapping value)
      else case parse_index indexText of
             None \<Rightarrow> Inl (IndexRange value)
           | Some index \<Rightarrow>
               if int n < index then Inl (IndexRange value)
               else if hd path = CHR ''/'' then Inl (PathNotRelative value)
               else index_out_loop n vs (indexOut(nat (index - 1) \<mapsto> path)))"

definition parseBTIndexOut :: "string list \<Rightarrow> nat \<Rightarrow> select_error + (nat \<rightharpoonup> string)" where
  "parseBTIndexOut values n = index_out_loop n values Map.empty"

section \<open>Pieces\<close>

definition want_pieces :: "int \<Rightarrow> int \<Rightarrow> int \<Rightarrow> bool list \<Rightarrow> bool list" where
  "want_pieces offset len pieceLen wanted =
     foldl (\<lambda>w piece. w[nat piece := True]) wanted
       [offset sdiv pieceLen .. min ((offset + len - 1) sdiv pieceLen) (int (length wanted) - 1)]"

fun want_loop :: "bool list \<Rightarrow> int \<Rightarrow> nat \<Rightarrow> int \<Rightarrow> FileInfo list \<Rightarrow> bool list \<Rightarrow> bool list" where
  "want_loop selected pieceLen i offset [] wanted = wanted"
| "want_loop selected pieceLen i offset (f # fs) wanted =
     want_loop selected pieceLen (Suc i) (offset + fi_Length f) fs
       (if i < length selected \<and> selected ! i \<and> 0 < fi_Length f
        then want_pieces offset (fi_Length f) pieceLen wanted else wanted)"

definition selectedPiecesForFiles :: "FileInfo list \<Rightarrow> bool list \<Rightarrow> int \<Rightarrow> int \<Rightarrow> bool list" where
  "selectedPiecesForFiles files selected pieceLen numPieces =
     (if selected = [] \<or> pieceLen \<le> 0 \<or> numPieces \<le> 0 then []
      else want_loop selected pieceLen 0 0 files (replicate (nat numPieces) False))"

definition fileOverlapsWantedPiece :: "int \<Rightarrow> int \<Rightarrow> int \<Rightarrow> bool list \<Rightarrow> bool" where
  "fileOverlapsWantedPiece offset len pieceLen wanted \<longleftrightarrow>
     wanted \<noteq> [] \<and> 0 < len \<and> 0 < pieceLen
     \<and> list_ex (\<lambda>piece. wanted ! nat piece)
         [offset sdiv pieceLen .. min ((offset + len - 1) sdiv pieceLen) (int (length wanted) - 1)]"

section \<open>Entries on disk\<close>

definition path_Join :: "string list \<Rightarrow> string" where
  "path_Join parts =
     (let ws = filter (\<lambda>w. w \<noteq> []) parts in if ws = [] then [] else filepath_Clean (path_join ws))"

fun plain_entries :: "int \<Rightarrow> FileInfo list \<Rightarrow> FileEntry list" where
  "plain_entries offset [] = []"
| "plain_entries offset (f # fs) =
     \<lparr>Name = path_Join (fi_Path f), Length = fi_Length f, Offset = offset, Requested = True\<rparr>
     # plain_entries (offset + fi_Length f) fs"

definition torrentFilesToDiskEntries :: "FileInfo list \<Rightarrow> FileEntry list" where
  "torrentFilesToDiskEntries files = plain_entries 0 files"

definition make_entry :: "string \<Rightarrow> (nat \<rightharpoonup> string) \<Rightarrow> bool list \<Rightarrow> int \<Rightarrow> bool list \<Rightarrow> nat \<Rightarrow> int \<Rightarrow> FileInfo \<Rightarrow> FileEntry" where
  "make_entry root indexOut selected pieceLen pieceFilter i offset f =
     (let nm = (case indexOut i of None \<Rightarrow> path_Join (root # fi_Path f) | Some mapped \<Rightarrow> filepath_Clean mapped);
          requested = (selected = [] \<or> selected ! i);
          touched = (requested \<or> fileOverlapsWantedPiece offset (fi_Length f) pieceLen pieceFilter)
      in \<lparr>Name = nm, Length = (if touched then fi_Length f else 0), Offset = offset, Requested = requested\<rparr>)"

fun entries_loop :: "string \<Rightarrow> (nat \<rightharpoonup> string) \<Rightarrow> bool list \<Rightarrow> int \<Rightarrow> bool list \<Rightarrow> nat \<Rightarrow> int \<Rightarrow> FileInfo list \<Rightarrow> FileEntry list" where
  "entries_loop root indexOut selected pieceLen pieceFilter i offset [] = []"
| "entries_loop root indexOut selected pieceLen pieceFilter i offset (f # fs) =
     make_entry root indexOut selected pieceLen pieceFilter i offset f
     # entries_loop root indexOut selected pieceLen pieceFilter (Suc i) (offset + fi_Length f) fs"

text \<open>The options are the values of \<open>select-file\<close> and \<open>index-out\<close>; nil options behave as empty ones.\<close>

definition torrentFilesToDiskEntriesWithOptions ::
    "string \<Rightarrow> FileInfo list \<Rightarrow> string \<Rightarrow> string list \<Rightarrow> int \<Rightarrow> int
     \<Rightarrow> select_error + FileEntry list \<times> bool list \<times> string list" where
  "torrentFilesToDiskEntriesWithOptions root files selectFile indexOuts pieceLen numPieces =
     rbind (parseBTSelectedFiles selectFile (length files)) (\<lambda>selected.
     rbind (parseBTIndexOut indexOuts (length files)) (\<lambda>indexOut.
       let pieceFilter = selectedPiecesForFiles files selected pieceLen numPieces;
           entries = entries_loop root indexOut selected pieceLen pieceFilter 0 0 files
       in Inr (entries, pieceFilter, map Name (filter (\<lambda>e. \<not> Requested e) entries))))"

text \<open>\<open>remove\<close> is \<open>os.Remove\<close>: the error it reports for a file that exists.\<close>

definition remove_one :: "(string \<Rightarrow> errno option) \<Rightarrow> string \<Rightarrow> store \<times> errno option \<Rightarrow> string \<Rightarrow> store \<times> errno option" where
  "remove_one remove dir acc rel =
     (let (st, firstErr) = acc; path = filepath_Join dir rel in
      if st path = None then (st, firstErr)
      else case remove path of
             None \<Rightarrow> (st(path := None), firstErr)
           | Some e \<Rightarrow> (st, if firstErr = None then Some e else firstErr))"

definition removeBTUnselectedFiles ::
    "(string \<Rightarrow> errno option) \<Rightarrow> bool \<Rightarrow> bool \<Rightarrow> string \<Rightarrow> string list \<Rightarrow> store \<Rightarrow> store \<times> errno option" where
  "removeBTUnselectedFiles remove enabled inMemory dirOpt unselected st =
     (if \<not> enabled \<or> inMemory \<or> unselected = [] then (st, None)
      else foldl (remove_one remove (if dirOpt = [] then ''.'' else dirOpt)) (st, None) unselected)"

section \<open>Selecting\<close>

lemma foldl_update_True:
  "length (foldl (\<lambda>w i. w[f i := True]) w is) = length w"
  "p < length w \<Longrightarrow> foldl (\<lambda>w i. w[f i := True]) w is ! p \<longleftrightarrow> w ! p \<or> p \<in> f ` set is"
proof -
  have upd: "p < length w \<Longrightarrow> w[q := True] ! p \<longleftrightarrow> w ! p \<or> q = p" for q and w :: "bool list"
    by (cases "q = p") auto
  show "length (foldl (\<lambda>w i. w[f i := True]) w is) = length w"
    by (induction "is" arbitrary: w) auto
  show "p < length w \<Longrightarrow> foldl (\<lambda>w i. w[f i := True]) w is ! p \<longleftrightarrow> w ! p \<or> p \<in> f ` set is"
    by (induction "is" arbitrary: w) (auto simp: upd)
qed

lemma select_range_spec:
  assumes "1 \<le> s" and "e \<le> int (length sel)"
  shows "length (select_range s e sel) = length sel"
    and "k < length sel \<Longrightarrow> select_range s e sel ! k \<longleftrightarrow> sel ! k \<or> (s \<le> int k + 1 \<and> int k + 1 \<le> e)"
proof -
  show "length (select_range s e sel) = length sel" by (simp add: select_range_def foldl_update_True)
  have "k \<in> (\<lambda>i. nat (i - 1)) ` {s..e} \<longleftrightarrow> s \<le> int k + 1 \<and> int k + 1 \<le> e" for k
    using assms(1) by (auto simp: image_iff intro!: bexI [of _ "int k + 1"])
  then show "k < length sel \<Longrightarrow> select_range s e sel ! k \<longleftrightarrow> sel ! k \<or> (s \<le> int k + 1 \<and> int k + 1 \<le> e)"
    by (simp add: select_range_def foldl_update_True)
qed

lemma parse_part_bounds: "parse_part p n = Inr (s, e) \<Longrightarrow> 1 \<le> s \<and> s \<le> e \<and> e \<le> int n"
  by (auto simp: parse_part_def parse_index_def Let_def split: prod.splits option.splits if_splits sum.splits)

text \<open>A file is selected exactly when one of the comma-separated parts names it.\<close>

lemma select_loop_spec:
  assumes "select_loop n ps sel = Inr sel'" and "length sel = n"
  shows "length sel' = n \<and> (\<forall>k<n. sel' ! k \<longleftrightarrow> sel ! k \<or>
           (\<exists>p\<in>set ps. \<exists>s e. parse_part (TrimSpace p) n = Inr (s, e) \<and> s \<le> int k + 1 \<and> int k + 1 \<le> e))"
  using assms
proof (induction ps arbitrary: sel)
  case (Cons p ps)
  then obtain s e where se: "parse_part (TrimSpace p) n = Inr (s, e)" "select_loop n ps (select_range s e sel) = Inr sel'"
    by (auto simp: rbind_eq_Inr)
  note b = parse_part_bounds [OF se(1)]
  from Cons.IH [OF se(2)] select_range_spec [of s e sel] b Cons.prems(2) se(1) show ?case by auto
qed simp

lemma parseBTSelectedFiles_length:
  "parseBTSelectedFiles expr n = Inr sel \<Longrightarrow> sel = [] \<or> length sel = n \<and> (\<exists>k<n. sel ! k)"
  using select_loop_spec [of n "Split (CHR '','') expr" "replicate n False" sel]
  by (auto simp: parseBTSelectedFiles_def rbind_eq_Inr list_ex_length split: if_splits)

section \<open>Pieces and entries\<close>

definition file_offset :: "FileInfo list \<Rightarrow> nat \<Rightarrow> int" where
  "file_offset fs k = sum_list (map fi_Length (take k fs))"

lemma file_offset_simps [simp]:
  "file_offset fs 0 = 0" "file_offset (f # fs) (Suc k) = fi_Length f + file_offset fs k"
  by (simp_all add: file_offset_def)

lemma file_offset_Suc: "k < length fs \<Longrightarrow> file_offset fs (Suc k) = file_offset fs k + fi_Length (fs ! k)"
  by (simp add: file_offset_def take_Suc_conv_app_nth)

lemma file_offset_mono:
  assumes "\<forall>f\<in>set fs. 0 \<le> fi_Length f" and "j \<le> k" and "k \<le> length fs"
  shows "file_offset fs j \<le> file_offset fs k"
  using assms(2,3)
proof (induction k)
  case (Suc k)
  then have "0 \<le> fi_Length (fs ! k)" using assms(1) by simp
  with Suc show ?case using file_offset_Suc [of k fs] by (cases "j = Suc k") auto
qed simp

lemma file_offset_nonneg: "\<forall>f\<in>set fs. 0 \<le> fi_Length f \<Longrightarrow> k \<le> length fs \<Longrightarrow> 0 \<le> file_offset fs k"
  using file_offset_mono [of fs 0 k] by simp

lemma want_pieces_spec:
  assumes "0 \<le> off" "0 < len" "0 < pl"
  shows "length (want_pieces off len pl w) = length w"
    and "p < length w \<Longrightarrow> want_pieces off len pl w ! p \<longleftrightarrow> w ! p \<or> (off div pl \<le> int p \<and> int p \<le> (off + len - 1) div pl)"
proof -
  show "length (want_pieces off len pl w) = length w" by (simp add: want_pieces_def foldl_update_True)
  have "p \<in> nat ` {off div pl..min ((off + len - 1) div pl) (int (length w) - 1)}
     \<longleftrightarrow> off div pl \<le> int p \<and> int p \<le> (off + len - 1) div pl" if "p < length w"
    using assms that pos_imp_zdiv_nonneg_iff [of pl off] by (auto simp: image_iff intro!: bexI [of _ "int p"])
  then show "p < length w \<Longrightarrow> want_pieces off len pl w ! p \<longleftrightarrow> w ! p \<or> (off div pl \<le> int p \<and> int p \<le> (off + len - 1) div pl)"
    using assms by (simp add: want_pieces_def foldl_update_True)
qed

lemma want_loop_spec:
  assumes "0 < pl" and "\<forall>f\<in>set fs. 0 \<le> fi_Length f" and "0 \<le> off"
  shows "length (want_loop sel pl i off fs w) = length w \<and>
    (\<forall>p<length w. want_loop sel pl i off fs w ! p \<longleftrightarrow> w ! p \<or>
       (\<exists>k<length fs. i + k < length sel \<and> sel ! (i + k) \<and> 0 < fi_Length (fs ! k)
          \<and> (off + file_offset fs k) div pl \<le> int p \<and> int p \<le> (off + file_offset fs (Suc k) - 1) div pl))"
  using assms(2,3)
proof (induction fs arbitrary: i off w)
  case (Cons f fs)
  define w' where "w' = (if i < length sel \<and> sel ! i \<and> 0 < fi_Length f then want_pieces off (fi_Length f) pl w else w)"
  have w': "length w' = length w" "\<forall>p<length w. w' ! p \<longleftrightarrow> w ! p \<or>
     (i < length sel \<and> sel ! i \<and> 0 < fi_Length f \<and> off div pl \<le> int p \<and> int p \<le> (off + fi_Length f - 1) div pl)"
    using want_pieces_spec [OF Cons.prems(2) _ assms(1), where len = "fi_Length f" and w = w] by (auto simp: w'_def)
  have IH: "length (want_loop sel pl (Suc i) (off + fi_Length f) fs w') = length w' \<and>
    (\<forall>p<length w'. want_loop sel pl (Suc i) (off + fi_Length f) fs w' ! p \<longleftrightarrow> w' ! p \<or>
       (\<exists>k<length fs. Suc i + k < length sel \<and> sel ! (Suc i + k) \<and> 0 < fi_Length (fs ! k)
          \<and> (off + fi_Length f + file_offset fs k) div pl \<le> int p \<and> int p \<le> (off + fi_Length f + file_offset fs (Suc k) - 1) div pl))"
    by (rule Cons.IH) (use Cons.prems in auto)
  have ex: "(\<exists>k<length (f # fs). P k) \<longleftrightarrow> P 0 \<or> (\<exists>k<length fs. P (Suc k))" for P
    by (simp add: Ex_less_Suc2)
  show ?case
    unfolding ex want_loop.simps w'_def [symmetric] using IH w' by (simp add: algebra_simps)
qed simp

lemma length_entries_loop [simp]: "length (entries_loop root io sel pl flt i off fs) = length fs"
  by (induction fs arbitrary: i off) auto

lemma nth_entries_loop:
  "k < length fs \<Longrightarrow> entries_loop root io sel pl flt i off fs ! k
     = make_entry root io sel pl flt (i + k) (off + file_offset fs k) (fs ! k)"
proof (induction fs arbitrary: i off k)
  case (Cons f fs)
  then show ?case by (cases k) (simp_all add: add.assoc)
qed simp

lemma make_entry_fields:
  "Offset (make_entry root io sel pl flt i off f) = off"
  "Length (make_entry root io sel pl flt i off f)
     = (if sel = [] \<or> sel ! i \<or> fileOverlapsWantedPiece off (fi_Length f) pl flt then fi_Length f else 0)"
  by (auto simp: make_entry_def Let_def)

lemma entries_laid_out:
  assumes "\<forall>f\<in>set fs. 0 \<le> fi_Length f"
  shows "laid_out (entries_loop root io sel pl flt 0 0 fs)"
proof -
  let ?es = "entries_loop root io sel pl flt 0 0 fs"
  have off: "Offset (?es ! k) = file_offset fs k" if "k < length fs" for k
    using that by (simp add: nth_entries_loop make_entry_fields)
  have len: "0 \<le> Length (?es ! k)" "Length (?es ! k) \<le> fi_Length (fs ! k)" if "k < length fs" for k
    using that assms by (auto simp: nth_entries_loop make_entry_fields)
  have "fe_end (?es ! j) \<le> Offset (?es ! k)" if "j < k" "k < length fs" for j k
  proof -
    have "fe_end (?es ! j) \<le> file_offset fs (Suc j)"
      using that off [of j] len(2) [of j] file_offset_Suc [of j fs] by auto
    also have "\<dots> \<le> file_offset fs k" using that assms by (intro file_offset_mono) auto
    finally show ?thesis using off [OF that(2)] by simp
  qed
  then show ?thesis
    using off len file_offset_nonneg [OF assms]
    by (simp add: laid_out_def sorted_wrt_iff_nth_less all_set_conv_all_nth)
qed

lemma file_containing:
  assumes "0 \<le> i" and "i < file_offset fs n"
  shows "\<exists>k<n. file_offset fs k \<le> i \<and> i < file_offset fs (Suc k)"
  using assms(2)
proof (induction n)
  case 0
  with assms(1) show ?case by simp
next
  case (Suc n)
  then show ?case by (cases "i < file_offset fs n") (auto intro: less_SucI)
qed

definition wanted_piece :: "bool list \<Rightarrow> int \<Rightarrow> bool" where
  "wanted_piece flt p \<longleftrightarrow> flt = [] \<or> flt ! nat p"

lemma selectedPieces_spec:
  assumes "0 < pl" and "\<forall>f\<in>set fs. 0 \<le> fi_Length f" and "sel \<noteq> []" "0 < np"
  shows "int (length (selectedPiecesForFiles fs sel pl np)) = np"
    and "\<And>p. int p < np \<Longrightarrow> selectedPiecesForFiles fs sel pl np ! p \<longleftrightarrow>
       (\<exists>k<length fs. k < length sel \<and> sel ! k \<and> 0 < fi_Length (fs ! k)
          \<and> file_offset fs k div pl \<le> int p \<and> int p \<le> (file_offset fs (Suc k) - 1) div pl)"
  using want_loop_spec [OF assms(1,2), of 0 sel 0 "replicate (nat np) False"] assms
  by (auto simp: selectedPiecesForFiles_def)

lemma file_hits_piece:
  assumes pl: "0 < pl" and k: "k < length fs"
  shows "(\<exists>i. file_offset fs k \<le> i \<and> i < file_offset fs (Suc k) \<and> i div pl = p)
      \<longleftrightarrow> 0 < fi_Length (fs ! k) \<and> file_offset fs k div pl \<le> p \<and> p \<le> (file_offset fs (Suc k) - 1) div pl"
    (is "?L \<longleftrightarrow> ?R")
proof
  assume ?L
  then show ?R using pl file_offset_Suc [OF k] by (auto intro: zdiv_mono1)
next
  assume R: ?R
  let ?i = "max (file_offset fs k) (p * pl)"
  have lt: "file_offset fs k < file_offset fs (Suc k)" using R file_offset_Suc [OF k] by simp
  have le: "p * pl \<le> file_offset fs (Suc k) - 1" using R le_div_iff_int [OF pl] by simp
  have "file_offset fs k < (p + 1) * pl"
    using R le_div_iff_int [OF pl, of "p + 1" "file_offset fs k"] by linarith
  moreover have "p * pl < (p + 1) * pl" using pl by simp
  ultimately have "?i div pl = p" unfolding div_eq_iff_int [OF pl] by simp
  then show ?L using lt le by (intro exI [of _ ?i]) auto
qed

lemma entries_cover:
  assumes pl: "0 < pl" and nn: "\<forall>f\<in>set fs. 0 \<le> fi_Length f"
    and i: "0 \<le> i" "i < file_offset fs (length fs)" and total: "file_offset fs (length fs) \<le> int (length flt) * pl \<or> flt = [] \<and> sel = []"
    and w: "wanted_piece flt (i div pl)"
  shows "locate (entries_loop root io sel pl flt 0 0 fs) i \<noteq> None"
proof -
  let ?es = "entries_loop root io sel pl flt 0 0 fs"
  from file_containing [OF i] obtain k where k: "k < length fs" "file_offset fs k \<le> i" "i < file_offset fs (Suc k)" by auto
  have len: "i - file_offset fs k < fi_Length (fs ! k)" using k file_offset_Suc [of k fs] by simp
  have fn: "0 \<le> file_offset fs k" using file_offset_nonneg [OF nn] k(1) by simp
  have "sel = [] \<or> fileOverlapsWantedPiece (file_offset fs k) (fi_Length (fs ! k)) pl flt"
  proof (cases "flt = [] \<and> sel = []")
    case False
    with total have tot: "file_offset fs (length fs) \<le> int (length flt) * pl" by auto
    then have ne: "flt \<noteq> []" using i by auto
    have "i < int (length flt) * pl" using i tot by simp
    then have ip: "i div pl < int (length flt)" using le_div_iff_int [OF pl, of "int (length flt)" i] by linarith
    have "file_offset fs k div pl \<le> i div pl" "i div pl \<le> (file_offset fs k + fi_Length (fs ! k) - 1) div pl"
      using pl k(2) len by (auto intro!: zdiv_mono1)
    moreover have "flt ! nat (i div pl)" using w ne by (simp add: wanted_piece_def)
    ultimately show ?thesis
      using ne len k(2) pl fn ip by (auto simp: fileOverlapsWantedPiece_def list_ex_iff intro!: bexI [of _ "i div pl"])
  qed auto
  then have "Length (?es ! k) = fi_Length (fs ! k)" "Offset (?es ! k) = file_offset fs k"
    using k(1) by (auto simp: nth_entries_loop make_entry_fields)
  then show ?thesis using k len by (auto simp: locate_None dest!: spec [of _ k])
qed

text \<open>(C35) Selected files and wanted pieces. A file of the torrent is requested exactly as
  \<open>--select-file\<close> says; the wanted pieces are those that contain a byte of a requested file; the
  entries on disk do not overlap, and every byte of a wanted piece lies in one of them, so that
  writing a wanted piece meets no gap.\<close>

theorem wanted_pieces_have_a_place:
  assumes nn: "\<forall>f\<in>set fs. 0 \<le> fi_Length f" and pl: "0 < pl" and np: "0 < np"
    and total: "file_offset fs (length fs) \<le> np * pl"
    and res: "torrentFilesToDiskEntriesWithOptions root fs selectFile indexOuts pl np = Inr (entries, flt, unselected)"
  shows "laid_out entries \<and> length entries = length fs
    \<and> (\<forall>k<length fs. Offset (entries ! k) = file_offset fs k)
    \<and> (\<forall>i. 0 \<le> i \<and> i < file_offset fs (length fs) \<and> wanted_piece flt (i div pl) \<longrightarrow> locate entries i \<noteq> None)
    \<and> (\<forall>p. 0 \<le> p \<and> p < np \<longrightarrow> wanted_piece flt p \<longleftrightarrow>
         flt = [] \<or> (\<exists>k<length fs. Requested (entries ! k)
           \<and> (\<exists>i. file_offset fs k \<le> i \<and> i < file_offset fs (Suc k) \<and> i div pl = p)))
    \<and> (\<exists>sel. parseBTSelectedFiles selectFile (length fs) = Inr sel
         \<and> (\<forall>k<length fs. Requested (entries ! k) \<longleftrightarrow> sel = [] \<or> sel ! k) \<and> (flt = [] \<longleftrightarrow> sel = []))"
proof -
  from res obtain sel io where sel: "parseBTSelectedFiles selectFile (length fs) = Inr sel"
    and flt: "flt = selectedPiecesForFiles fs sel pl np"
    and es: "entries = entries_loop root io sel pl flt 0 0 fs"
    by (auto simp: torrentFilesToDiskEntriesWithOptions_def rbind_eq_Inr Let_def)
  have sl: "sel = [] \<or> length sel = length fs" using parseBTSelectedFiles_length [OF sel] by auto
  have fl: "flt = [] \<and> sel = [] \<or> sel \<noteq> [] \<and> int (length flt) = np"
    using selectedPieces_spec(1) [OF pl nn _ np] by (cases "sel = []") (auto simp: flt selectedPiecesForFiles_def)
  have req: "Requested (entries ! k) \<longleftrightarrow> sel = [] \<or> sel ! k" if "k < length fs" for k
    using that by (simp add: es nth_entries_loop make_entry_def Let_def)
  have off: "Offset (entries ! k) = file_offset fs k" if "k < length fs" for k
    using that by (simp add: es nth_entries_loop make_entry_fields)
  have cover: "locate entries i \<noteq> None" if "0 \<le> i" "i < file_offset fs (length fs)" "wanted_piece flt (i div pl)" for i
    unfolding es using that fl total by (intro entries_cover [OF pl nn]) auto
  have "wanted_piece flt p \<longleftrightarrow> flt = [] \<or> (\<exists>k<length fs. Requested (entries ! k)
           \<and> (\<exists>i. file_offset fs k \<le> i \<and> i < file_offset fs (Suc k) \<and> i div pl = p))" if "0 \<le> p" "p < np" for p
  proof (cases "sel = []")
    case True
    with fl show ?thesis by (simp add: wanted_piece_def)
  next
    case False
    have ex: "(\<exists>k<length fs. Requested (entries ! k)
           \<and> (\<exists>i. file_offset fs k \<le> i \<and> i < file_offset fs (Suc k) \<and> i div pl = p))
      \<longleftrightarrow> (\<exists>k<length fs. k < length sel \<and> sel ! k \<and> 0 < fi_Length (fs ! k)
          \<and> file_offset fs k div pl \<le> p \<and> p \<le> (file_offset fs (Suc k) - 1) div pl)"
      by (rule ex_cong1, rule conj_cong [OF refl]) (use req file_hits_piece [OF pl, of _ fs p] sl False in simp)
    show ?thesis
      using selectedPieces_spec(2) [OF pl nn False np, of "nat p"] that fl False
      unfolding ex by (auto simp: wanted_piece_def flt)
  qed
  with cover off entries_laid_out [OF nn] req sel fl np show ?thesis by (auto simp: es)
qed

definition two_in_three :: "FileInfo list" where
  "two_in_three = [\<lparr>fi_Length = 5, fi_Path = [''a''], fi_MD5Sum = []\<rparr>, \<lparr>fi_Length = 6, fi_Path = [''b''], fi_MD5Sum = []\<rparr>,
     \<lparr>fi_Length = 9, fi_Path = [''c'', ''d''], fi_MD5Sum = []\<rparr>]"

lemma two_in_three_entries:
  "torrentFilesToDiskEntriesWithOptions ''t'' two_in_three ''2'' [] 4 5
     = Inr ([\<lparr>Name = ''t/a'', Length = 5, Offset = 0, Requested = False\<rparr>,
             \<lparr>Name = ''t/b'', Length = 6, Offset = 5, Requested = True\<rparr>,
             \<lparr>Name = ''t/c/d'', Length = 9, Offset = 11, Requested = False\<rparr>], [False, True, True, False, False], [''t/a'', ''t/c/d''])"
  by code_simp

lemma wanted_pieces_have_a_place_witness:
  "let entries = [\<lparr>Name = ''t/a'', Length = 5, Offset = 0, Requested = False\<rparr>,
             \<lparr>Name = ''t/b'', Length = 6, Offset = 5, Requested = True\<rparr>,
             \<lparr>Name = ''t/c/d'', Length = 9, Offset = 11, Requested = False\<rparr>]
   in torrentFilesToDiskEntriesWithOptions ''t'' two_in_three ''2'' [] 4 5
        = Inr (entries, [False, True, True, False, False], [''t/a'', ''t/c/d''])
      \<and> laid_out entries \<and> (\<forall>i. 4 \<le> i \<and> i < 12 \<longrightarrow> locate entries i \<noteq> None)"
proof -
  define entries where "entries = [\<lparr>Name = ''t/a'', Length = 5, Offset = 0, Requested = False\<rparr>,
             \<lparr>Name = ''t/b'', Length = 6, Offset = 5, Requested = True\<rparr>,
             \<lparr>Name = ''t/c/d'', Length = 9, Offset = 11, Requested = False\<rparr>]"
  let ?flt = "[False, True, True, False, False]"
  have nn: "\<forall>f\<in>set two_in_three. 0 \<le> fi_Length f" by (simp add: two_in_three_def)
  have tot: "file_offset two_in_three (length two_in_three) = 20" by (simp add: two_in_three_def file_offset_def)
  note W = wanted_pieces_have_a_place [OF nn, of 4 5 "''t''" "''2''" "[]" entries ?flt "[''t/a'', ''t/c/d'']", unfolded tot]
  have res: "torrentFilesToDiskEntriesWithOptions ''t'' two_in_three ''2'' [] 4 5
        = Inr (entries, ?flt, [''t/a'', ''t/c/d''])" using two_in_three_entries by (simp add: entries_def)
  have "wanted_piece ?flt (i div 4)" if "4 \<le> i" "i < 12" for i :: int
  proof -
    have "i div 4 = 1 \<or> i div 4 = 2" using that by presburger
    then show ?thesis by (auto simp: wanted_piece_def)
  qed
  then have "\<forall>i. 4 \<le> i \<and> i < 12 \<longrightarrow> locate entries i \<noteq> None" using W res by simp
  with W res show ?thesis unfolding entries_def [symmetric] Let_def by simp
qed

section \<open>Paths stay inside the directory\<close>

lemma path_split_Split: "path_split s = Split (CHR ''/'') s"
  by (induction s) auto

lemma path_split_append: "path_split (a @ CHR ''/'' # b) = path_split a @ path_split b"
proof (induction a)
  case (Cons c a)
  obtain x xs where x: "path_split a = x # xs" by (metis Split_nonempty path_split_Split neq_Nil_conv)
  with Cons show ?case by simp
qed simp

lemma path_split_join: "ws \<noteq> [] \<Longrightarrow> path_split (path_join ws) = concat (map path_split ws)"
  by (induction ws rule: path_join.induct) (auto simp: path_split_append)

definition proper :: "string \<Rightarrow> bool" where
  "proper w \<longleftrightarrow> w \<noteq> [] \<and> w \<noteq> ''.'' \<and> w \<noteq> ''..'' \<and> CHR ''/'' \<notin> set w"

lemma path_split_proper [simp]: "proper w \<Longrightarrow> path_split w = [w]"
proof -
  have "CHR ''/'' \<notin> set w \<Longrightarrow> path_split w = [w]" for w by (induction w) auto
  then show "proper w \<Longrightarrow> path_split w = [w]" by (simp add: proper_def)
qed

lemma path_split_join_proper: "ws \<noteq> [] \<Longrightarrow> \<forall>w\<in>set ws. proper w \<Longrightarrow> path_split (path_join ws) = ws"
  by (subst path_split_join) (auto simp: map_idI concat_map_singleton cong: map_cong)

text \<open>The components of a path that \<open>filepath.Clean\<close> keeps.\<close>

definition rooted :: "string \<Rightarrow> bool" where
  "rooted p \<longleftrightarrow> p \<noteq> [] \<and> hd p = CHR ''/''"

definition comps :: "string \<Rightarrow> string list" where
  "comps p = rev (foldl (clean_step (rooted p)) [] (path_split p))"

lemma filepath_Clean_comps:
  "filepath_Clean p = (if rooted p then CHR ''/'' # path_join (comps p) else if comps p = [] then ''.'' else path_join (comps p))"
  by (simp add: filepath_Clean_def comps_def rooted_def Let_def)

lemma clean_step_no_dots:
  "''..'' \<notin> set ws \<Longrightarrow> foldl (clean_step r) acc ws = rev (filter (\<lambda>w. w \<noteq> [] \<and> w \<noteq> ''.'') ws) @ acc"
  by (induction ws arbitrary: acc) (auto simp: clean_step_def)

lemma safe_name_split: "safe_name s \<Longrightarrow> w \<in> set (path_split s) \<Longrightarrow> w \<noteq> ''..''"
  by (cases s) (auto simp: safe_name_def detectDirTraversal_def path_split_Split list_ex_iff)

text \<open>Joining a plain root with the safe components of a file gives a relative path made of proper
  components.\<close>

lemma path_Join_safe:
  assumes "proper root" and "\<forall>c\<in>set parts. safe_name c"
  shows "\<exists>ws. ws \<noteq> [] \<and> (\<forall>w\<in>set ws. proper w) \<and> path_Join (root # parts) = path_join ws"
proof -
  define ps where "ps = root # filter (\<lambda>w. w \<noteq> []) parts"
  have root: "root \<noteq> []" using assms(1) by (simp add: proper_def)
  have ne: "ps \<noteq> []" by (simp add: ps_def)
  define ws where "ws = filter (\<lambda>w. w \<noteq> [] \<and> w \<noteq> ''.'') (concat (map path_split ps))"
  have dots: "''..'' \<notin> set (concat (map path_split ps))"
    using assms safe_name_split by (auto simp: ps_def proper_def)
  have pws: "\<forall>w\<in>set ws. proper w"
  proof
    fix w
    assume "w \<in> set ws"
    then have w: "w \<in> set (concat (map path_split ps))" "w \<noteq> []" "w \<noteq> ''.''" unfolding ws_def unfolding set_filter mem_Collect_eq by blast+
    then have "w \<noteq> ''..''" using dots by (metis (no_types))
    moreover from w(1) have "CHR ''/'' \<notin> set w" unfolding path_split_Split using Split_no_sep by fastforce
    ultimately show "proper w" unfolding proper_def using w(2,3) by blast
  qed
  have "root \<in> set ws" using assms(1) by (auto simp: ws_def ps_def proper_def)
  then have wne: "ws \<noteq> []" by auto
  have hd: "hd (path_join ps) \<noteq> CHR ''/''" "path_join ps \<noteq> []"
    using assms(1) root by (cases "filter (\<lambda>w. w \<noteq> []) parts"; cases root; auto simp: ps_def proper_def)+
  have "comps (path_join ps) = ws"
    using hd by (simp add: comps_def path_split_join [OF ne] clean_step_no_dots [OF dots] ws_def)
  moreover have "path_Join (root # parts) = filepath_Clean (path_join ps)"
    using root by (simp add: path_Join_def ps_def)
  ultimately show ?thesis using hd wne pws by (intro exI [of _ ws]) (simp add: filepath_Clean_comps rooted_def)
qed

lemma path_join_proper_hd: "ws \<noteq> [] \<Longrightarrow> \<forall>w\<in>set ws. proper w \<Longrightarrow> path_join ws \<noteq> []"
  by (cases ws rule: path_join.cases) (auto simp: proper_def)

lemma filepath_Join_inside:
  assumes "dir \<noteq> []" and "ws \<noteq> []" and "\<forall>w\<in>set ws. proper w"
  shows "filepath_Join dir (path_join ws)
       = (if rooted dir then CHR ''/'' # path_join (comps dir @ ws) else path_join (comps dir @ ws))"
proof -
  let ?p = "dir @ CHR ''/'' # path_join ws"
  have "filepath_Join dir (path_join ws) = filepath_Clean ?p"
    using assms path_join_proper_hd [OF assms(2,3)] by (simp add: filepath_Join_def)
  moreover have r: "rooted ?p = rooted dir" using assms(1) by (simp add: rooted_def)
  moreover have "comps ?p = comps dir @ ws"
  proof -
    have "''..'' \<notin> set ws" "filter (\<lambda>w. w \<noteq> [] \<and> w \<noteq> ''.'') ws = ws"
      using assms(3) by (auto simp: proper_def filter_id_conv)
    then show ?thesis
      by (simp add: comps_def r path_split_append path_split_join_proper [OF assms(2,3)] clean_step_no_dots)
  qed
  ultimately show ?thesis using assms(2) by (simp add: filepath_Clean_comps)
qed


definition sample_torrent :: string where
  "sample_torrent = ''d4:infod5:filesld6:lengthi3e4:pathl1:b1:ceee4:name1:t12:piece lengthi4e6:pieces20:xxxxxxxxxxxxxxxxxxxxee''"


text \<open>\<open>--index-out\<close> only refuses absolute paths, so its user may leave the directory.\<close>

lemma index_out_may_leave:
  "torrentFilesToDiskEntriesWithOptions ''t'' [\<lparr>fi_Length = 3, fi_Path = [''b''], fi_MD5Sum = []\<rparr>] [] [''1=../x''] 4 1
     = Inr ([\<lparr>Name = ''../x'', Length = 3, Offset = 0, Requested = True\<rparr>], [], [])"
  by code_simp

section \<open>Removing unselected files\<close>

text \<open>Only unselected files are removed, each is gone unless removing it failed, and the error reported
  is the first one.\<close>

lemma remove_one_spec:
  "remove_one remove dir (st, e) rel = (st', e') \<Longrightarrow>
    (\<forall>p. p \<noteq> filepath_Join dir rel \<longrightarrow> st' p = st p)
    \<and> (remove (filepath_Join dir rel) = None \<longrightarrow> st' (filepath_Join dir rel) = None \<and> e' = e)
    \<and> (e \<noteq> None \<longrightarrow> e' = e)"
  by (auto simp: remove_one_def Let_def split: if_splits option.splits)

lemma removeBTUnselectedFiles_spec:
  assumes "foldl (remove_one remove dir) (st, e) us = (st', e')"
  shows "(\<forall>p. p \<notin> filepath_Join dir ` set us \<longrightarrow> st' p = st p) \<and> (\<forall>p. st p = None \<longrightarrow> st' p = None)
    \<and> (\<forall>u\<in>set us. remove (filepath_Join dir u) = None \<longrightarrow> st' (filepath_Join dir u) = None)
    \<and> ((\<forall>u\<in>set us. remove (filepath_Join dir u) = None) \<longrightarrow> e' = e)"
  using assms
proof (induction us arbitrary: st e)
  case (Cons u us)
  obtain st1 e1 where s1: "remove_one remove dir (st, e) u = (st1, e1)" by (cases "remove_one remove dir (st, e) u")
  have keep: "st p = None \<Longrightarrow> st1 p = None" for p using s1 by (auto simp: remove_one_def Let_def split: if_splits option.splits)
  note r = remove_one_spec [OF s1]
  have "foldl (remove_one remove dir) (st1, e1) us = (st', e')" using Cons.prems s1 by simp
  note IH = Cons.IH [OF this]
  show ?case
  proof (intro conjI)
    show "\<forall>p. p \<notin> filepath_Join dir ` set (u # us) \<longrightarrow> st' p = st p" using IH r by simp
    show "\<forall>p. st p = None \<longrightarrow> st' p = None" using IH keep by blast
    show "\<forall>v\<in>set (u # us). remove (filepath_Join dir v) = None \<longrightarrow> st' (filepath_Join dir v) = None"
      using IH r by (metis set_ConsD)
    show "(\<forall>u\<in>set (u # us). remove (filepath_Join dir u) = None) \<longrightarrow> e' = e" using IH r by simp
  qed
qed simp

end
