(* ===== verification/Adaptor.thy ===== *)
theory Adaptor
  imports MultiFile Control
begin

text \<open>
  The interface through which downloads use their files (\<open>Adaptor\<close> in \<open>src/internal/disk/adaptor.go\<close>),
  its contract as a locale, met by both adaptors, and the piece verification on top of it:
  \<open>src/internal/disk/verifier.go\<close> and the piece checks of \<open>src/internal/engine/download_runtime.go\<close>.
\<close>

section \<open>The interface\<close>

text \<open>The methods as functions of the adaptor's state \<open>'s\<close>, its files included. A read returns the bytes
  it put into the buffer; \<open>SetPieceCount\<close> may panic (\<open>None\<close>) when its size computation wraps.\<close>

record 's Adaptor =
  ad_WriteAt :: "'s \<Rightarrow> byte list \<Rightarrow> int \<Rightarrow> 's \<times> nat \<times> disk_error option"
  ad_ReadAt :: "'s \<Rightarrow> nat \<Rightarrow> int \<Rightarrow> byte list \<times> disk_error option"
  ad_Size :: "'s \<Rightarrow> int"
  ad_SetPieceCount :: "'s \<Rightarrow> nat \<Rightarrow> 's option"
  ad_MarkPiece :: "'s \<Rightarrow> int \<Rightarrow> bool \<Rightarrow> 's"
  ad_Have :: "'s \<Rightarrow> int \<Rightarrow> bool"
  ad_Bitfield :: "'s \<Rightarrow> byte list option"

definition multi_adaptor :: "OsDev \<Rightarrow> (MultiFile \<times> store) Adaptor" where
  "multi_adaptor dev =
     \<lparr>ad_WriteAt = (\<lambda>(mf, st) p off. case MultiFile_WriteAt dev mf st p off of (st', n, e) \<Rightarrow> ((mf, st'), n, e)),
      ad_ReadAt = (\<lambda>(mf, st) n off. MultiFile_ReadAt dev mf st n off),
      ad_Size = (\<lambda>(mf, st). MultiFile_Size mf),
      ad_SetPieceCount = (\<lambda>(mf, st) n. map_option (\<lambda>mf'. (mf', st)) (MultiFile_SetPieceCount mf n)),
      ad_MarkPiece = (\<lambda>(mf, st) i b. (MultiFile_MarkPiece mf i b, st)),
      ad_Have = (\<lambda>(mf, st) i. MultiFile_Have mf i),
      ad_Bitfield = (\<lambda>(mf, st). MultiFile_Bitfield mf)\<rparr>"

definition single_adaptor :: "OsDev \<Rightarrow> (SingleFile \<times> store) Adaptor" where
  "single_adaptor dev =
     \<lparr>ad_WriteAt = (\<lambda>(sf, st) p off. case SingleFile_WriteAt dev sf st p off of (st', n, e) \<Rightarrow> ((sf, st'), n, e)),
      ad_ReadAt = (\<lambda>(sf, st) n off. SingleFile_ReadAt dev sf st n off),
      ad_Size = (\<lambda>(sf, st). SingleFile_Size sf),
      ad_SetPieceCount = (\<lambda>(sf, st) n. Some (SingleFile_SetPieceCount sf n, st)),
      ad_MarkPiece = (\<lambda>(sf, st) i b. (SingleFile_MarkPiece sf i b, st)),
      ad_Have = (\<lambda>(sf, st) i. SingleFile_Have sf i),
      ad_Bitfield = (\<lambda>(sf, st). SingleFile_Bitfield sf)\<rparr>"

lemma multi_adaptor_simps [simp]:
  "ad_WriteAt (multi_adaptor dev) (mf, st) p off = (case MultiFile_WriteAt dev mf st p off of (st', n, e) \<Rightarrow> ((mf, st'), n, e))"
  "ad_ReadAt (multi_adaptor dev) (mf, st) = MultiFile_ReadAt dev mf st"
  "ad_Size (multi_adaptor dev) (mf, st) = MultiFile_Size mf"
  "ad_MarkPiece (multi_adaptor dev) (mf, st) i b = (MultiFile_MarkPiece mf i b, st)"
  "ad_Have (multi_adaptor dev) (mf, st) = MultiFile_Have mf"
  "ad_Bitfield (multi_adaptor dev) (mf, st) = MultiFile_Bitfield mf"
  by (simp_all add: multi_adaptor_def)

lemma single_adaptor_simps [simp]:
  "ad_WriteAt (single_adaptor dev) (sf, st) p off = (case SingleFile_WriteAt dev sf st p off of (st', n, e) \<Rightarrow> ((sf, st'), n, e))"
  "ad_ReadAt (single_adaptor dev) (sf, st) = SingleFile_ReadAt dev sf st"
  "ad_Size (single_adaptor dev) (sf, st) = SingleFile_Size sf"
  "ad_MarkPiece (single_adaptor dev) (sf, st) i b = (SingleFile_MarkPiece sf i b, st)"
  "ad_Have (single_adaptor dev) (sf, st) = SingleFile_Have sf"
  "ad_Bitfield (single_adaptor dev) (sf, st) = SingleFile_Bitfield sf"
  by (simp_all add: single_adaptor_def)

section \<open>Verification\<close>

datatype verify_error =
    VerifyRead disk_error | VerifyShort | VerifyInvalidPiece | VerifyMismatch | VerifyCancelled | VerifyHash
  | VerifyNeedsAdaptor | VerifyFile string | VerifyPanic

text \<open>The hash functions are parameters: \<open>hash k\<close> is \<open>None\<close> where \<open>hash.New\<close> fails for the kind.
  \<open>downloadIntegrity\<close> has no kind (the empty string) until one is set.\<close>

type_synonym hashes = "HashKind \<Rightarrow> (byte list \<Rightarrow> byte list) option"

record downloadIntegrity =
  wholeKind :: "HashKind option"
  wholeDigest :: "byte list"
  pieceKind :: "HashKind option"
  pieceHashes :: "byte list list"
  integrityPieceLen :: int

definition hasWholeChecksum :: "downloadIntegrity \<Rightarrow> bool" where
  "hasWholeChecksum i = (case wholeKind i of None \<Rightarrow> False | Some k \<Rightarrow> length (wholeDigest i) = Kind_Size k)"

definition hasPieceHashes :: "downloadIntegrity \<Rightarrow> bool" where
  "hasPieceHashes i \<longleftrightarrow> pieceKind i \<noteq> None \<and> 0 < integrityPieceLen i \<and> pieceHashes i \<noteq> []"

text \<open>One piece in \<open>Verifier.Verify\<close>: \<open>None\<close> ends the loop, otherwise whether the piece is good. Piece
  lengths are positive (\<open>hasPieceHashes\<close>).\<close>

definition verifier_piece ::
    "'s Adaptor \<Rightarrow> (byte list \<Rightarrow> byte list) \<Rightarrow> nat \<Rightarrow> int \<Rightarrow> byte list \<Rightarrow> int \<Rightarrow> int \<Rightarrow> 's \<Rightarrow> bool option" where
  "verifier_piece ad digest digestSize pieceLen expected sz i s =
     (let start = i * pieceLen in
      if sz \<le> start then None
      else
        let actualLen = (if sz < start + pieceLen then sz - start else pieceLen);
            (b, readErr) = ad_ReadAt ad s (nat actualLen) start
        in Some (readErr = None \<and> \<not> int (length b) < actualLen \<and> length (digest b) = digestSize \<and> digest b = expected))"

text \<open>\<open>cancelled i\<close>: the context is found cancelled before piece \<open>i\<close>.\<close>

fun verifier_loop ::
    "'s Adaptor \<Rightarrow> (byte list \<Rightarrow> byte list) \<Rightarrow> nat \<Rightarrow> int \<Rightarrow> int \<Rightarrow> (int \<Rightarrow> bool) \<Rightarrow> byte list list \<Rightarrow> int \<Rightarrow> 's \<Rightarrow> int list
     \<Rightarrow> 's \<times> int list \<times> verify_error option" where
  "verifier_loop ad digest digestSize pieceLen sz cancelled [] i s bad = (s, bad, None)"
| "verifier_loop ad digest digestSize pieceLen sz cancelled (h # hs) i s bad =
     (if cancelled i then (s, bad, Some VerifyCancelled)
      else if \<not> ad_Have ad s i then verifier_loop ad digest digestSize pieceLen sz cancelled hs (i + 1) s bad
      else
        case verifier_piece ad digest digestSize pieceLen h sz i s of
          None \<Rightarrow> (s, bad, None)
        | Some good \<Rightarrow>
            if good then verifier_loop ad digest digestSize pieceLen sz cancelled hs (i + 1) (ad_MarkPiece ad s i True) bad
            else verifier_loop ad digest digestSize pieceLen sz cancelled hs (i + 1) s (bad @ [i]))"

definition Verify ::
    "'s Adaptor \<Rightarrow> hashes \<Rightarrow> HashKind \<Rightarrow> int \<Rightarrow> byte list list \<Rightarrow> (int \<Rightarrow> bool) \<Rightarrow> 's \<Rightarrow> 's \<times> int list \<times> verify_error option" where
  "Verify ad hash kind pieceLen hs cancelled s =
     (if hs = [] then (s, [], None)
      else if pieceLen = 0 then (s, [], None)
      else case hash kind of
             None \<Rightarrow> (s, [], Some VerifyHash)
           | Some digest \<Rightarrow>
               verifier_loop ad digest (Kind_Size kind) pieceLen (ad_Size ad s) cancelled hs 0 s [])"

text \<open>No adaptor returns \<open>os.ErrClosed\<close> or \<open>context.Canceled\<close>, the two read errors \<open>verifyPieceIndex\<close> lets pass.\<close>

definition verifyPieceIndex ::
    "'s Adaptor \<Rightarrow> hashes \<Rightarrow> HashKind \<Rightarrow> bool \<Rightarrow> int \<Rightarrow> int \<Rightarrow> int \<Rightarrow> byte list \<Rightarrow> 's \<Rightarrow> verify_error + bool" where
  "verifyPieceIndex ad hash kind cancelled pieceLen totSize index expected s =
     (if cancelled then Inl VerifyCancelled
      else
        let start = index * pieceLen in
        if pieceLen \<le> 0 \<or> totSize \<le> start then Inl VerifyInvalidPiece
        else
          let actualLen = (if totSize < start + pieceLen then totSize - start else pieceLen)
          in case ad_ReadAt ad s (nat actualLen) start of
               (b, Some err) \<Rightarrow> Inl (VerifyRead err)
             | (b, None) \<Rightarrow>
                 if int (length b) < actualLen then Inl VerifyShort
                 else case hash kind of None \<Rightarrow> Inl VerifyHash | Some digest \<Rightarrow> Inr (digest b = expected))"

text \<open>The pieces completed by a write, each checked and marked; the control information is corrected
  for a bad one. An index without a hash panics.\<close>

fun completed_loop ::
    "'s Adaptor \<Rightarrow> hashes \<Rightarrow> HashKind \<Rightarrow> (nat \<Rightarrow> bool) \<Rightarrow> int \<Rightarrow> int \<Rightarrow> byte list list \<Rightarrow> nat list \<Rightarrow> 's \<Rightarrow> control
     \<Rightarrow> 's \<times> control \<times> verify_error option" where
  "completed_loop ad hash kind cancelled pieceLen totSize hs [] s ctl = (s, ctl, None)"
| "completed_loop ad hash kind cancelled pieceLen totSize hs (idx # idxs) s ctl =
     (if length hs \<le> idx then (s, ctl, Some VerifyPanic)
      else
        case verifyPieceIndex ad hash kind (cancelled idx) pieceLen totSize (int idx) (hs ! idx) s of
          Inl e \<Rightarrow> (s, ctl, Some e)
        | Inr good \<Rightarrow>
            if \<not> good then (ad_MarkPiece ad s (int idx) False, markControlPiece ctl (int idx) False, Some VerifyMismatch)
            else completed_loop ad hash kind cancelled pieceLen totSize hs idxs (ad_MarkPiece ad s (int idx) True) ctl)"

definition verifyCompletedPieces ::
    "'s Adaptor \<Rightarrow> hashes \<Rightarrow> downloadIntegrity \<Rightarrow> (nat \<Rightarrow> bool) \<Rightarrow> int \<Rightarrow> nat list \<Rightarrow> 's \<Rightarrow> control
     \<Rightarrow> 's \<times> control \<times> verify_error option" where
  "verifyCompletedPieces ad hash integ cancelled totLength indices s ctl =
     (if \<not> hasPieceHashes integ \<or> indices = [] then (s, ctl, None)
      else
        case ad_SetPieceCount ad s (length (pieceHashes integ)) of
          None \<Rightarrow> (s, ctl, Some VerifyPanic)
        | Some s1 \<Rightarrow>
            completed_loop ad hash (the (pieceKind integ)) cancelled (integrityPieceLen integ) totLength
              (pieceHashes integ) indices s1 ctl)"

text \<open>\<open>verifyIntegrity\<close>: with piece hashes every piece is first marked, then verified, and the bad ones
  are unmarked again; otherwise the whole file is hashed (\<open>sumFile\<close>). \<open>hasAd\<close>: the adaptor is not nil.\<close>

definition verifyIntegrity ::
    "'s Adaptor \<Rightarrow> hashes \<Rightarrow> (HashKind \<Rightarrow> verify_error + byte list) \<Rightarrow> downloadIntegrity \<Rightarrow> bool \<Rightarrow> (int \<Rightarrow> bool) \<Rightarrow> 's \<Rightarrow> control
     \<Rightarrow> 's \<times> control \<times> string \<times> int list \<times> verify_error option" where
  "verifyIntegrity ad hash sumFile integ hasAd cancelled s ctl =
     (if hasPieceHashes integ then
        if \<not> hasAd then (s, ctl, ''piece'', [], Some VerifyNeedsAdaptor)
        else
          case ad_SetPieceCount ad s (length (pieceHashes integ)) of
            None \<Rightarrow> (s, ctl, ''piece'', [], Some VerifyPanic)
          | Some s0 \<Rightarrow>
              let s1 = foldl (\<lambda>s i. ad_MarkPiece ad s (int i) True) s0 [0..<length (pieceHashes integ)] in
              (case Verify ad hash (the (pieceKind integ)) (integrityPieceLen integ) (pieceHashes integ) cancelled s1 of
                 (s2, bad, Some e) \<Rightarrow> (s2, ctl, ''piece'', [], Some e)
               | (s2, bad, None) \<Rightarrow>
                   if bad \<noteq> [] then
                     (foldl (\<lambda>s i. ad_MarkPiece ad s i False) s2 bad, foldl (\<lambda>c i. markControlPiece c i False) ctl bad,
                      ''piece'', bad, Some VerifyMismatch)
                   else (s2, ctl, ''piece'', [], None))
      else if hasWholeChecksum integ then
        (case sumFile (the (wholeKind integ)) of
           Inl e \<Rightarrow> (s, ctl, ''whole'', [], Some e)
         | Inr digest \<Rightarrow>
             if digest \<noteq> wholeDigest integ then (s, ctl, ''whole'', [], Some VerifyMismatch)
             else (s, ctl, [], [], None))
      else (s, ctl, [], [], None))"

section \<open>The contract\<close>

text \<open>\<open>view\<close> is the byte array behind the adaptor and \<open>num\<close> the number of pieces it keeps track of.\<close>

locale adaptor =
  fixes ad :: "'s Adaptor" and ok :: "'s \<Rightarrow> bool" and view :: "'s \<Rightarrow> int \<Rightarrow> byte" and num :: "'s \<Rightarrow> nat"
  assumes write_law: "ok s \<Longrightarrow> ad_WriteAt ad s p off = (s', n, e) \<Longrightarrow>
      ok s' \<and> num s' = num s \<and> n \<le> length p \<and> (e = None \<longrightarrow> n = length p)
      \<and> view s' = overlay (view s) off (take n p) \<and> ad_Have ad s' = ad_Have ad s \<and> ad_Size ad s' = ad_Size ad s"
    and mark_law: "ok s \<Longrightarrow> ok (ad_MarkPiece ad s i b) \<and> num (ad_MarkPiece ad s i b) = num s
      \<and> view (ad_MarkPiece ad s i b) = view s \<and> ad_Size ad (ad_MarkPiece ad s i b) = ad_Size ad s
      \<and> (ad_Have ad (ad_MarkPiece ad s i b) j \<longleftrightarrow> (if j = i \<and> 0 \<le> i \<and> i < int (num s) then b else ad_Have ad s j))"
    and read_law: "ok s \<Longrightarrow> 0 < n \<Longrightarrow> ad_ReadAt ad s n off = (bs, e) \<Longrightarrow>
      length bs \<le> n \<and> reads (view s) off bs \<and> (e = None \<longrightarrow> length bs = n)"
    and mark_reads: "ok s \<Longrightarrow> ad_ReadAt ad (ad_MarkPiece ad s i b) = ad_ReadAt ad s"
    and have_law: "ok s \<Longrightarrow> ad_Have ad s i \<Longrightarrow> 0 \<le> i \<and> i < int (num s)"
begin

lemma mark_keeps:
  "ok s \<Longrightarrow> ok (ad_MarkPiece ad s i b)" "ok s \<Longrightarrow> num (ad_MarkPiece ad s i b) = num s"
  "ok s \<Longrightarrow> view (ad_MarkPiece ad s i b) = view s" "ok s \<Longrightarrow> ad_Size ad (ad_MarkPiece ad s i b) = ad_Size ad s"
  using mark_law by blast+

lemma have_mark: "ok s \<Longrightarrow> ad_Have ad (ad_MarkPiece ad s i b) j \<longleftrightarrow> (if j = i \<and> 0 \<le> i \<and> i < int (num s) then b else ad_Have ad s j)"
  using mark_law by blast

text \<open>The bytes at a position of the array, as a list.\<close>

definition bytes_at :: "'s \<Rightarrow> int \<Rightarrow> int \<Rightarrow> byte list" where
  "bytes_at s start len = map (\<lambda>i. view s (start + int i)) [0..<nat len]"

lemma reads_map: "reads v off bs \<Longrightarrow> bs = map (\<lambda>i. v (off + int i)) [0..<length bs]"
  by (auto simp: reads_def intro: nth_equalityI)

lemma read_bytes_at: "ok s \<Longrightarrow> 0 < n \<Longrightarrow> ad_ReadAt ad s n off = (bs, None) \<Longrightarrow> bs = bytes_at s off (int n)"
  using read_law [of s n off bs None] reads_map [of "view s" off bs] by (simp add: bytes_at_def)

lemma bytes_at_mark [simp]: "ok s \<Longrightarrow> bytes_at (ad_MarkPiece ad s i b) = bytes_at s"
  by (simp add: bytes_at_def mark_keeps fun_eq_iff)

text \<open>A piece of the array has the digest expected of it.\<close>

definition piece_matches :: "hashes \<Rightarrow> HashKind \<Rightarrow> int \<Rightarrow> int \<Rightarrow> byte list \<Rightarrow> nat \<Rightarrow> 's \<Rightarrow> bool" where
  "piece_matches hash k pl tot h i s \<longleftrightarrow>
     (\<exists>digest. hash k = Some digest \<and> digest (bytes_at s (int i * pl) (min pl (tot - int i * pl))) = h)"

lemma verifyPieceIndex_true:
  assumes "ok s" "verifyPieceIndex ad hash k c pl tot (int i) h s = Inr True"
  shows "piece_matches hash k pl tot h i s"
proof -
  define len where "len = (if tot < int i * pl + pl then tot - int i * pl else pl)"
  obtain b e where r: "ad_ReadAt ad s (nat len) (int i * pl) = (b, e)" by (cases "ad_ReadAt ad s (nat len) (int i * pl)")
  with assms(2) have e: "e = None" and len0: "0 < len" and h: "\<exists>digest. hash k = Some digest \<and> digest b = h"
    by (auto simp: verifyPieceIndex_def Let_def len_def split: if_splits option.splits)
  with read_bytes_at [OF assms(1) _ r [unfolded e]] have "b = bytes_at s (int i * pl) len" by simp
  moreover have "min pl (tot - int i * pl) = len" by (auto simp: len_def)
  ultimately show ?thesis using h by (simp add: piece_matches_def)
qed

text \<open>Without an error every piece that was checked is marked and matches its hash, the bytes are untouched, and a
  piece marked by the run matches its hash.\<close>

lemma completed_loop_sound:
  assumes "ok s" "completed_loop ad hash k c pl tot hs idxs s ctl = (s', ctl', e)"
  shows "ok s' \<and> view s' = view s \<and> num s' = num s \<and> (e = None \<longrightarrow> (\<forall>j. ad_Have ad s j \<longrightarrow> ad_Have ad s' j))
    \<and> (e = None \<longrightarrow> (\<forall>i\<in>set idxs. i < length hs \<and> piece_matches hash k pl tot (hs ! i) i s \<and> (i < num s \<longrightarrow> ad_Have ad s' (int i))))
    \<and> (\<forall>j. ad_Have ad s' j \<longrightarrow> ad_Have ad s j \<or> (\<exists>i\<in>set idxs. j = int i \<and> piece_matches hash k pl tot (hs ! i) i s))"
  using assms
proof (induction idxs arbitrary: s ctl)
  case (Cons idx idxs)
  note keep = mark_keeps [OF Cons.prems(1)]
  show ?case
  proof (cases "idx < length hs \<and> verifyPieceIndex ad hash k (c idx) pl tot (int idx) (hs ! idx) s = Inr True")
    case False
    with Cons.prems show ?thesis using keep have_mark [OF Cons.prems(1)] by (auto split: if_splits sum.splits)
  next
    case True
    let ?s = "ad_MarkPiece ad s (int idx) True"
    have run: "completed_loop ad hash k c pl tot hs idxs ?s ctl = (s', ctl', e)" using Cons.prems(2) True by auto
    have good: "piece_matches hash k pl tot (hs ! idx) idx s"
      using verifyPieceIndex_true [OF Cons.prems(1)] True by blast
    have same: "piece_matches hash k pl tot h i ?s = piece_matches hash k pl tot h i s" for h i
      by (simp add: piece_matches_def Cons.prems(1))
    note IH = Cons.IH [OF keep(1) run, unfolded same keep]
    have hm: "ad_Have ad ?s j \<longleftrightarrow> (j = int idx \<and> idx < num s) \<or> ad_Have ad s j" for j
      using have_mark [OF Cons.prems(1), of "int idx" True j] by auto
    show ?thesis using IH good hm True by auto
  qed
qed simp

definition good_piece :: "(byte list \<Rightarrow> byte list) \<Rightarrow> nat \<Rightarrow> int \<Rightarrow> int \<Rightarrow> byte list list \<Rightarrow> 's \<Rightarrow> nat \<Rightarrow> bool" where
  "good_piece digest dsz pl sz hs s i \<longleftrightarrow> verifier_piece ad digest dsz pl (hs ! i) sz (int i) s \<noteq> Some False"

lemma good_piece_cong: "ad_ReadAt ad t = ad_ReadAt ad s \<Longrightarrow> good_piece digest dsz pl sz hs t = good_piece digest dsz pl sz hs s"
  by (intro ext) (simp add: good_piece_def verifier_piece_def Let_def)

text \<open>A run of the verifier leaves the bytes and the marks alone, and reports exactly the marked
  pieces that start inside the file and are not good.\<close>

definition same_marks :: "'s \<Rightarrow> 's \<Rightarrow> bool" where
  "same_marks s s' \<longleftrightarrow> ok s' \<and> view s' = view s \<and> num s' = num s \<and> ad_Size ad s' = ad_Size ad s
     \<and> ad_ReadAt ad s' = ad_ReadAt ad s \<and> ad_Have ad s' = ad_Have ad s"

lemma same_marks_refl: "ok s \<Longrightarrow> same_marks s s"
  by (simp add: same_marks_def)

lemma mark_again: "ok s \<Longrightarrow> ad_Have ad s i \<Longrightarrow> same_marks s (ad_MarkPiece ad s i True)"
  using have_law [of s i] by (auto simp: same_marks_def mark_keeps mark_reads have_mark fun_eq_iff)

lemma same_marks_trans: "same_marks s t \<Longrightarrow> same_marks t u \<Longrightarrow> same_marks s u"
  by (simp add: same_marks_def)

lemma verifier_loop_exact:
  assumes "ok s" "0 < pl" "verifier_loop ad digest dsz pl sz (\<lambda>_. False) (drop i hs) (int i) s bad = (s', bad', e)"
  shows "e = None \<and> same_marks s s'
    \<and> bad' = bad @ map int (filter (\<lambda>j. ad_Have ad s (int j) \<and> \<not> good_piece digest dsz pl sz hs s j) [i..<length hs])"
  using assms
proof (induction "length hs - i" arbitrary: i s bad)
  case 0
  then show ?case by (simp add: same_marks_refl)
next
  case (Suc d)
  then have i: "i < length hs" by simp
  then have d: "drop i hs = hs ! i # drop (Suc i) hs" by (simp add: Cons_nth_drop_Suc)
  have u: "[i..<length hs] = i # [Suc i..<length hs]" using i by (simp add: upt_conv_Cons)
  have len: "d = length hs - Suc i" using Suc.hyps(2) by simp
  have step: "?case" if "verifier_loop ad digest dsz pl sz (\<lambda>_. False) (drop (Suc i) hs) (int (Suc i)) t bad1 = (s', bad', e)"
    "same_marks s t" "bad1 = bad @ (if ad_Have ad s (int i) \<and> \<not> good_piece digest dsz pl sz hs s i then [int i] else [])" for t bad1
  proof -
    have t: "ok t" "ad_Have ad t = ad_Have ad s" using that(2) by (simp_all add: same_marks_def)
    have g: "good_piece digest dsz pl sz hs t = good_piece digest dsz pl sz hs s"
      using that(2) by (intro good_piece_cong) (simp add: same_marks_def)
    from Suc.hyps(1) [OF len t(1) Suc.prems(2) that(1)] that(2,3) same_marks_trans show ?thesis
      by (auto simp: t(2) g u)
  qed
  show ?case
  proof (cases "ad_Have ad s (int i)")
    case False
    then show ?thesis using step [of s bad] Suc.prems(1,3) by (simp add: d same_marks_refl add.commute)
  next
    case True
    show ?thesis
    proof (cases "verifier_piece ad digest dsz pl (hs ! i) sz (int i) s")
      case None
      have "int i * pl \<ge> sz" using None by (auto simp: verifier_piece_def Let_def split: if_splits prod.splits)
      then have "sz \<le> int j * pl" if "i \<le> j" for j
        using that Suc.prems(2) by (meson mult_right_mono of_nat_mono order_trans less_imp_le)
      then have "good_piece digest dsz pl sz hs s j" if "i \<le> j" for j
        using that by (simp add: good_piece_def verifier_piece_def)
      then show ?thesis using Suc.prems(1,3) True None by (auto simp: d same_marks_refl filter_empty_conv)
    next
      case (Some good)
      then show ?thesis
        using step [of "ad_MarkPiece ad s (int i) True" bad] step [of s "bad @ [int i]"] Suc.prems(1,3) True
        by (auto simp: d same_marks_refl mark_again add.commute good_piece_def split: if_splits)
    qed
  qed
qed

end

locale counted_adaptor = adaptor +
  fixes count_ok :: "'a \<Rightarrow> nat \<Rightarrow> bool"
  assumes count_law: "ok s \<Longrightarrow> count_ok s n \<Longrightarrow>
      \<exists>s'. ad_SetPieceCount ad s n = Some s' \<and> ok s' \<and> num s' = n \<and> view s' = view s
        \<and> ad_Size ad s' = ad_Size ad s \<and> ad_ReadAt ad s' = ad_ReadAt ad s"
begin

lemma mark_all:
  assumes "ok s"
  shows "ok (foldl (\<lambda>s i. ad_MarkPiece ad s (f i) b) s is)
    \<and> num (foldl (\<lambda>s i. ad_MarkPiece ad s (f i) b) s is) = num s
    \<and> view (foldl (\<lambda>s i. ad_MarkPiece ad s (f i) b) s is) = view s
    \<and> ad_Size ad (foldl (\<lambda>s i. ad_MarkPiece ad s (f i) b) s is) = ad_Size ad s
    \<and> ad_ReadAt ad (foldl (\<lambda>s i. ad_MarkPiece ad s (f i) b) s is) = ad_ReadAt ad s
    \<and> (\<forall>j. ad_Have ad (foldl (\<lambda>s i. ad_MarkPiece ad s (f i) b) s is) j \<longleftrightarrow>
         (if j \<in> f ` set is \<and> 0 \<le> j \<and> j < int (num s) then b else ad_Have ad s j))"
  using assms
proof (induction "is" arbitrary: s)
  case (Cons i "is")
  show ?case
    using Cons.IH [OF mark_keeps(1) [OF Cons.prems], of "f i" b] mark_keeps [OF Cons.prems] mark_reads [OF Cons.prems]
      have_mark [OF Cons.prems] by auto
qed simp

lemma int_upt: "j \<in> int ` set [0..<n] \<longleftrightarrow> 0 \<le> j \<and> j < int n"
  by (auto simp: image_iff intro: bexI [of _ "nat j"])

text \<open>The outcome of a check of all pieces: the bad ones are those that start inside the file and
  are not good, and afterwards exactly the others are marked.\<close>

lemma verifyIntegrity_exact:
  assumes "ok s" "hasPieceHashes integ" "count_ok s (length (pieceHashes integ))"
    and "hash (the (pieceKind integ)) = Some digest"
    and V: "verifyIntegrity ad hash sumFile integ True (\<lambda>_. False) s ctl = (s', ctl', m, bad, e)"
    and G: "good = good_piece digest (Kind_Size (the (pieceKind integ))) (integrityPieceLen integ) (ad_Size ad s) (pieceHashes integ) s"
  shows "bad = map int (filter (\<lambda>i. \<not> good i) [0..<length (pieceHashes integ)])
    \<and> e = (if bad = [] then None else Some VerifyMismatch) \<and> view s' = view s \<and> ok s'
    \<and> (\<forall>j. ad_Have ad s' j \<longleftrightarrow> 0 \<le> j \<and> j < int (length (pieceHashes integ)) \<and> good (nat j))
    \<and> ctl' = foldl (\<lambda>c i. markControlPiece c i False) ctl bad"
proof -
  let ?hs = "pieceHashes integ" and ?pl = "integrityPieceLen integ" and ?k = "the (pieceKind integ)"
  have pl: "0 < ?pl" "?hs \<noteq> []" using assms(2) by (auto simp: hasPieceHashes_def)
  obtain s0 where s0: "ad_SetPieceCount ad s (length ?hs) = Some s0" "ok s0" "num s0 = length ?hs" "view s0 = view s"
    "ad_Size ad s0 = ad_Size ad s" "ad_ReadAt ad s0 = ad_ReadAt ad s" using count_law [OF assms(1,3)] by blast
  define s1 where "s1 = foldl (\<lambda>s i. ad_MarkPiece ad s (int i) True) s0 [0..<length ?hs]"
  have s1: "ok s1" "num s1 = length ?hs" "view s1 = view s" "ad_Size ad s1 = ad_Size ad s" "ad_ReadAt ad s1 = ad_ReadAt ad s"
    and h1: "\<And>j. ad_Have ad s1 j \<longleftrightarrow> 0 \<le> j \<and> j < int (length ?hs)"
    using mark_all [OF s0(2), of int True "[0..<length ?hs]"] have_law [OF s0(2)] s0
    unfolding int_upt by (auto simp: s1_def)
  obtain s2 bad2 e2 where L: "verifier_loop ad digest (Kind_Size ?k) ?pl (ad_Size ad s) (\<lambda>_. False) ?hs 0 s1 [] = (s2, bad2, e2)"
    by (metis prod_cases3)
  have g: "good_piece digest (Kind_Size ?k) ?pl (ad_Size ad s) ?hs s1 = good"
    unfolding G by (rule good_piece_cong [OF s1(5)])
  have e2: "e2 = None" and s2: "same_marks s1 s2"
    and b2: "bad2 = map int (filter (\<lambda>i. \<not> good i) [0..<length ?hs])"
    using verifier_loop_exact [OF s1(1) pl(1), of digest "Kind_Size ?k" "ad_Size ad s" 0 ?hs "[]" s2 bad2 e2] L
    by (auto simp: g h1 intro: filter_cong)
  have V': "(s', ctl', m, bad, e) =
     (if bad2 \<noteq> [] then (foldl (\<lambda>s i. ad_MarkPiece ad s i False) s2 bad2, foldl (\<lambda>c i. markControlPiece c i False) ctl bad2, ''piece'', bad2, Some VerifyMismatch)
      else (s2, ctl, ''piece'', [], None))"
    using V s0(1) assms(2,4) pl L e2 by (simp add: verifyIntegrity_def Verify_def s1_def [symmetric] s1 Let_def split: if_splits)
  have ok2: "ok s2" "num s2 = length ?hs" "view s2 = view s" "ad_Have ad s2 = ad_Have ad s1"
    using s2 s1 by (simp_all add: same_marks_def)
  have un: "j \<in> set bad2 \<longleftrightarrow> 0 \<le> j \<and> j < int (length ?hs) \<and> \<not> good (nat j)" for j
    unfolding b2 set_map set_filter using int_upt [of j "length ?hs"] by auto
  show ?thesis
  proof (cases "bad2 = []")
    case True
    then show ?thesis using V' b2 ok2 h1 un by auto
  next
    case False
    then show ?thesis using V' b2 ok2 h1 un mark_all [OF ok2(1), of "\<lambda>i. i" False bad2] by auto
  qed
qed

end

section \<open>Both adaptors meet it\<close>

definition sf_ready :: "SingleFile \<times> store \<Rightarrow> bool" where
  "sf_ready = (\<lambda>(sf, st). \<not> sf_closed sf \<and> sf_f sf \<noteq> None)"

definition mf_ready :: "MultiFile \<times> store \<Rightarrow> bool" where
  "mf_ready = (\<lambda>(mf, st). mf_ok mf \<and> (\<forall>pm. mf_pieces mf = Some pm \<longrightarrow> pm_wf pm))"

definition mf_count :: "MultiFile \<times> store \<Rightarrow> nat" where
  "mf_count = (\<lambda>(mf, st). case mf_pieces mf of None \<Rightarrow> 0 | Some pm \<Rightarrow> blocks pm)"

definition mf_count_ok :: "MultiFile \<times> store \<Rightarrow> nat \<Rightarrow> bool" where
  "mf_count_ok = (\<lambda>(mf, st) n. 0 < mf_pieceLen mf \<and> mf_pieceLen mf < 2 ^ 31 \<and> mf_pieceLen mf * (int n + 1) < 2 ^ 63
     \<and> (\<forall>pm. mf_pieces mf = Some pm \<longrightarrow> blockLength pm = mf_pieceLen mf))"

lemma sf_read_law:
  assumes "sf_ready (sf, st)" "SingleFile_ReadAt dev sf st n off = (bs, e)"
  shows "length bs \<le> n \<and> reads (sf_view sf st) off bs \<and> (e = None \<longrightarrow> length bs = n)"
proof -
  obtain f where f: "sf_f sf = Some f" "\<not> sf_closed sf" using assms(1) by (auto simp: sf_ready_def)
  show ?thesis
    using assms(2) f os_ReadAt_view [of dev st f n off]
    by (auto simp: SingleFile_ReadAt_def sf_view_def reads_def split: if_splits prod.splits)
qed

interpretation sfad: counted_adaptor "single_adaptor dev" sf_ready "\<lambda>(sf, st). sf_view sf st" "\<lambda>(sf, st). length (sf_pieces sf)" "\<lambda>_ _. True"
  for dev
proof (unfold_locales, goal_cases)
  case (1 s p off s' n e)
  then show ?case
    using SingleFile_WriteAt_spec [of dev "fst s" "snd s" p off "snd s'" n e]
    by (auto simp: single_adaptor_def sf_ready_def sf_view_def split: prod.splits)
next
  case (2 s i b j)
  then show ?case
    by (auto simp: single_adaptor_def sf_ready_def sf_view_def SingleFile_MarkPiece_def SingleFile_Have_def
          SingleFile_Size_def nth_list_update split: prod.splits)
next
  case (3 s n off bs e)
  then show ?case using sf_read_law [of "fst s" "snd s" dev n off bs e] by (auto simp: single_adaptor_def split: prod.splits)
next
  case (4 s i b)
  then show ?case
    by (auto simp: single_adaptor_def SingleFile_MarkPiece_def SingleFile_ReadAt_def fun_eq_iff split: prod.splits)
next
  case (5 s i)
  then show ?case by (auto simp: single_adaptor_def SingleFile_Have_def split: prod.splits if_splits)
next
  case (6 s n)
  then show ?case
    by (auto simp: single_adaptor_def SingleFile_SetPieceCount_def SingleFile_ReadAt_def SingleFile_Size_def sf_ready_def
          sf_view_def fun_eq_iff split: prod.splits)
qed

lemma have_piece_iff:
  assumes "pm_shape q"
  shows "have_piece q j \<longleftrightarrow> 0 \<le> j \<and> j < int (blocks q) \<and> nat j \<in> have_set q"
  using assms blocks_le_bits [OF assms]
  by (auto simp: have_piece_def isBitSet_def have_set_def bits_of_def pm_shape_def)

lemma int_range_single: "0 \<le> j \<Longrightarrow> nat j \<in> int_range n i i \<longleftrightarrow> j = i \<and> j < int n"
  by (auto simp: int_range_def)

lemma mark_have:
  assumes "pm_wf pm"
  shows "pm_wf (mark pm i b)" "blocks (mark pm i b) = blocks pm" "blockLength (mark pm i b) = blockLength pm"
    "have_piece (mark pm i b) j \<longleftrightarrow> (if j = i \<and> 0 \<le> i \<and> i < int (blocks pm) then b else have_piece pm j)"
proof -
  note shape = pm_wf_shape [OF assms]
  show "pm_wf (mark pm i b)"
    using bit_ops_refine [OF shape, of "SetBit i"] bit_ops_refine [OF shape, of "UnsetBit i"] by (simp add: mark_def)
  then have shape': "pm_shape (mark pm i b)" by (rule pm_wf_shape)
  show B: "blocks (mark pm i b) = blocks pm" "blockLength (mark pm i b) = blockLength pm"
    by (simp_all add: mark_def setBit_def unsetBit_def split_beta Let_def)
  note bits = setBitInternal_bits [OF shape shape_lengths(1) [OF shape], of i]
  have "have_set (mark pm i b) = (if b then have_set pm \<union> int_range (blocks pm) i i else have_set pm - int_range (blocks pm) i i)"
    by (cases b) (simp_all add: mark_def setBit_def unsetBit_def split_beta Let_def have_set_def bits)
  then show "have_piece (mark pm i b) j \<longleftrightarrow> (if j = i \<and> 0 \<le> i \<and> i < int (blocks pm) then b else have_piece pm j)"
    unfolding have_piece_iff [OF shape] have_piece_iff [OF shape'] B by (auto simp: int_range_single)
qed

lemma multi_fields:
  "MultiFile_WriteAt dev (MultiFile_MarkPiece mf i b) = MultiFile_WriteAt dev mf"
  "MultiFile_ReadAt dev (MultiFile_MarkPiece mf i b) = MultiFile_ReadAt dev mf"
  "mf_view (MultiFile_MarkPiece mf i b) = mf_view mf"
  "MultiFile_Size (MultiFile_MarkPiece mf i b) = MultiFile_Size mf"
  "mf_ok (MultiFile_MarkPiece mf i b) = mf_ok mf"
  by (auto simp: MultiFile_MarkPiece_def MultiFile_WriteAt_def MultiFile_ReadAt_def mf_view_def MultiFile_Size_def mf_ok_def fun_eq_iff)

lemma mf_SetPieceCount:
  assumes "mf_ready (mf, st)" "mf_count_ok (mf, st) n"
  shows "\<exists>pm. MultiFile_SetPieceCount mf n = Some (mf\<lparr>mf_pieces := Some pm\<rparr>) \<and> pm_wf pm \<and> blocks pm = n"
proof -
  have pl: "0 < mf_pieceLen mf" "mf_pieceLen mf < 2 ^ 31" "mf_pieceLen mf * (int n + 1) < 2 ^ 63"
    using assms(2) by (auto simp: mf_count_ok_def)
  then have len: "mf_pieceLen mf * int n + mf_pieceLen mf < 2 ^ 63" by (simp add: algebra_simps)
  have nn: "0 \<le> mf_pieceLen mf * int n" using pl(1) by simp
  have "- (2 ^ 63) \<le> mf_pieceLen mf * int n" by (rule order_trans [OF _ nn]) simp
  note nn = this
  have w: "wrap32 (mf_pieceLen mf) = mf_pieceLen mf" "wrap64 (mf_pieceLen mf * int n) = mf_pieceLen mf * int n"
    using pl(1,2) len nn by (auto intro!: wrap32_id wrap64_id)
  show ?thesis
  proof (cases "mf_pieces mf")
    case None
    obtain pm where pm: "newPieceMap (mf_pieceLen mf) (mf_pieceLen mf * int n) = Some pm" "pm_wf pm"
      "blocks pm = (if 0 < mf_pieceLen mf \<and> 0 < mf_pieceLen mf * int n
         then nat ((mf_pieceLen mf * int n + mf_pieceLen mf - 1) div mf_pieceLen mf) else 0)"
      using newPieceMap_wf [OF pl(2) len] by blast
    have "(mf_pieceLen mf * int n + mf_pieceLen mf - 1) div mf_pieceLen mf = int n"
      using pl(1) by (simp add: add_diff_eq [symmetric] div_pos_pos_trivial)
    with pm pl(1) have "blocks pm = n" by (cases "n = 0") auto
    with pm None w show ?thesis by (auto simp: MultiFile_SetPieceCount_def)
  next
    case (Some pm)
    with assms have wf: "pm_wf pm" "blockLength pm = mf_pieceLen mf" by (auto simp: mf_ready_def mf_count_ok_def)
    have "pm_wf (setCount pm n)" using setCount_refine [OF wf(1), of n] pl len wf(2) by simp
    moreover have "blocks (setCount pm n) = n" by (simp add: setCount_def Let_def)
    ultimately show ?thesis using Some by (auto simp: MultiFile_SetPieceCount_def)
  qed
qed

interpretation mfad: counted_adaptor "multi_adaptor dev" mf_ready "\<lambda>(mf, st). mf_view mf st" mf_count mf_count_ok
  for dev
proof (unfold_locales, goal_cases)
  case (1 s p off s' n e)
  then show ?case
    using MultiFile_WriteAt_spec [of "fst s" dev "snd s" p off "snd s'" n e]
    by (auto simp: multi_adaptor_def mf_ready_def mf_count_def split: prod.splits)
next
  case (2 s i b j)
  then show ?case
    using mark_have(1,2) [of "the (mf_pieces (fst s))" i b] mark_have(4) [of "the (mf_pieces (fst s))" i b j]
    by (cases s; cases "mf_pieces (fst s)")
       (auto simp: multi_adaptor_def mf_ready_def mf_count_def MultiFile_Have_def mf_view_def MultiFile_Size_def mf_ok_def MultiFile_MarkPiece_def)
next
  case (3 s n off bs e)
  then show ?case
    using MultiFile_ReadAt_spec [of "fst s" n dev "snd s" off]
    by (auto simp: multi_adaptor_def mf_ready_def read_result_def split: prod.splits)
next
  case (4 s i b)
  then show ?case by (auto simp: multi_adaptor_def multi_fields fun_eq_iff split: prod.splits)
next
  case (5 s i)
  then show ?case
    by (auto simp: multi_adaptor_def mf_ready_def mf_count_def MultiFile_Have_def have_piece_def isBitSet_def
        split: prod.splits option.splits if_splits)
next
  case (6 s n)
  then obtain pm where "MultiFile_SetPieceCount (fst s) n = Some ((fst s)\<lparr>mf_pieces := Some pm\<rparr>)" "pm_wf pm" "blocks pm = n"
    using mf_SetPieceCount [of "fst s" "snd s" n] by auto
  with 6 show ?case
    by (auto simp: multi_adaptor_def mf_ready_def mf_count_def mf_ok_def mf_view_def MultiFile_Size_def MultiFile_ReadAt_def fun_eq_iff
          split: prod.splits)
qed

section \<open>The check of a finished file\<close>

text \<open>A piece of a file on a device that does not fail, and a hash that returns digests of its size.\<close>

definition file_piece_ok :: "(byte list \<Rightarrow> byte list) \<Rightarrow> int \<Rightarrow> int \<Rightarrow> byte list list \<Rightarrow> byte list \<Rightarrow> nat \<Rightarrow> bool" where
  "file_piece_ok digest pl sz hs c i \<longleftrightarrow>
     int i * pl < sz \<longrightarrow> digest (take (nat (min pl (sz - int i * pl))) (drop (i * nat pl) c)) = hs ! i"

lemma view_take_drop:
  assumes "off + n \<le> length c"
  shows "map (\<lambda>j. byte_at c (int off + int j)) [0..<n] = take n (drop off c)"
  using assms by (auto simp: byte_at_def nat_add_distrib intro!: nth_equalityI)

lemma good_piece_single:
  assumes sf: "\<not> sf_closed sf" "sf_f sf = Some f" and dev: "\<forall>f a n. dev_read dev f a n = None" and pl: "0 < pl"
    and sz: "sf_size sf \<le> int (length (contents st f))" and dig: "\<forall>x. length (digest x) = dsz"
  shows "sfad.good_piece dev digest dsz pl (sf_size sf) hs (sf, st) i \<longleftrightarrow> file_piece_ok digest pl (sf_size sf) hs (contents st f) i"
proof (cases "int i * pl < sf_size sf")
  case False
  then show ?thesis by (simp add: sfad.good_piece_def verifier_piece_def file_piece_ok_def)
next
  case True
  define len where "len = (if sf_size sf < int i * pl + pl then sf_size sf - int i * pl else pl)"
  have len: "0 < len" "int i * pl + len \<le> int (length (contents st f))" "len = min pl (sf_size sf - int i * pl)"
    using True pl sz by (auto simp: len_def)
  have off: "int (i * nat pl) = int i * pl" using pl by simp
  have in_file: "i * nat pl + nat len \<le> length (contents st f)"
    using len(1,2) off by linarith
  have "SingleFile_ReadAt dev sf st (nat len) (int i * pl) = (map (\<lambda>j. sf_view sf st (int i * pl + int j)) [0..<nat len], None)"
    using SingleFile_ReadAt_exact [OF sf _ dev, of "int i * pl" "nat len" st] len pl by simp
  also have "map (\<lambda>j. sf_view sf st (int i * pl + int j)) [0..<nat len] = take (nat len) (drop (i * nat pl) (contents st f))"
    unfolding off [symmetric] using view_take_drop [OF in_file] sf(2) by (simp add: sf_view_def)
  finally show ?thesis
    using True in_file len dig
    by (simp add: sfad.good_piece_def verifier_piece_def file_piece_ok_def Let_def len_def [symmetric])
qed


definition pad_digest :: "byte list \<Rightarrow> byte list" where
  "pad_digest x = take 16 (x @ replicate 16 0)"

definition two_hashes :: downloadIntegrity where
  "two_hashes = \<lparr>wholeKind = None, wholeDigest = [], pieceKind = Some MD5,
     pieceHashes = [7 # replicate 15 0, [8]], integrityPieceLen = 1\<rparr>"

definition two_byte_file :: SingleFile where
  "two_byte_file = \<lparr>sf_path = ''f'', sf_size = 2, sf_alloc = AllocatorNone, sf_f = Some ''f'', sf_closed = False, sf_pieces = []\<rparr>"


text \<open>The last piece of a multi-file download is never good for the verifier, whatever its bytes:
  \<open>MultiFile.ReadAt\<close> reports the end of the file together with the last byte.\<close>

lemma multi_last_piece_never_good:
  assumes "mf_ok mf" "\<forall>f a n. dev_read dev f a n = None" "0 < pl"
    and "int i * pl < MultiFile_Size mf" "MultiFile_Size mf \<le> int i * pl + pl"
  shows "verifier_piece (multi_adaptor dev) digest dsz pl h (MultiFile_Size mf) (int i) (mf, st) = Some False"
proof -
  have tot: "mf_totalSize mf = MultiFile_Size mf" by (simp add: MultiFile_Size_def)
  define len where "len = (if MultiFile_Size mf < int i * pl + pl then MultiFile_Size mf - int i * pl else pl)"
  have "0 < len" "int i * pl + len = MultiFile_Size mf" using assms(3-5) by (auto simp: len_def)
  then have "snd (MultiFile_ReadAt dev mf st (nat len) (int i * pl)) = Some DiskEOF"
    using MultiFile_ReadAt_exact [OF assms(1) _ assms(2), of "nat len" st "int i * pl"] by (simp add: tot)
  then show ?thesis using assms(4) by (simp add: verifier_piece_def Let_def len_def [symmetric] split_beta)
qed

end
