(* ===== verification/PeerWire.thy ===== *)
theory PeerWire
  imports Bitfield Core "HOL-Library.AList"
begin

text \<open>
  The BitTorrent peer connection (internal/protocol/bittorrent/peer): wire messages and their shapes
  (message.go), the handshake (handshake.go), the state of a connection and its handlers (peer.go,
  session.go) and the reader that cuts a byte stream into messages. The lemmas show that
  every encoded message is read back, that the reader does not depend on how the bytes are cut into reads,
  and that the cached seeder flag agrees with the peer's bitfield in every reachable state.
\<close>

section \<open>Messages (peer/message.go)\<close>

record Message =
  msg_ID :: byte
  msg_Payload :: "byte list"

abbreviation (input) "MsgChoke \<equiv> (0 :: byte)"
abbreviation (input) "MsgUnchoke \<equiv> (1 :: byte)"
abbreviation (input) "MsgInterested \<equiv> (2 :: byte)"
abbreviation (input) "MsgNotInterested \<equiv> (3 :: byte)"
abbreviation (input) "MsgHave \<equiv> (4 :: byte)"
abbreviation (input) "MsgBitfield \<equiv> (5 :: byte)"
abbreviation (input) "MsgRequest \<equiv> (6 :: byte)"
abbreviation (input) "MsgPiece \<equiv> (7 :: byte)"
abbreviation (input) "MsgCancel \<equiv> (8 :: byte)"
abbreviation (input) "MsgPort \<equiv> (9 :: byte)"
abbreviation (input) "MsgSuggest \<equiv> (13 :: byte)"
abbreviation (input) "MsgHaveAll \<equiv> (14 :: byte)"
abbreviation (input) "MsgHaveNone \<equiv> (15 :: byte)"
abbreviation (input) "MsgReject \<equiv> (16 :: byte)"
abbreviation (input) "MsgAllowedFast \<equiv> (17 :: byte)"
abbreviation (input) "MsgExtended \<equiv> (20 :: byte)"

definition maxBlockLength :: nat where
  "maxBlockLength = 64 * 1024"

definition maxBufferCapacity :: nat where
  "maxBufferCapacity = maxBlockLength + 128"

definition NewMessage :: "byte \<Rightarrow> byte list \<Rightarrow> Message" where
  "NewMessage i payload = \<lparr>msg_ID = i, msg_Payload = payload\<rparr>"

definition Encode :: "Message \<Rightarrow> byte list" where
  "Encode m = PutUint32 (word_of_nat (1 + length (msg_Payload m))) @ msg_ID m # msg_Payload m"

definition KeepAlive :: "byte list" where
  "KeepAlive = [0, 0, 0, 0]"

datatype peer_error =
    ShortMessage nat | NoMessageID | IncompleteMessage | MessageTooLong
  | ProtocolViolation | UnexpectedKind byte | PeerClosed | PeerEOF | SendQueueFull
  | ShortHandshake nat | BadPstrlen byte | BadPstr | FloodingDetected
  | MutuallyUninterested | InactivityTimeout | SeederToSeeder

definition validatePayloadShape :: "Message \<Rightarrow> peer_error option" where
  "validatePayloadShape m =
     (let n = length (msg_Payload m)
      in if msg_ID m \<in> {MsgChoke, MsgUnchoke, MsgInterested, MsgNotInterested, MsgHaveAll, MsgHaveNone} then
           (if n \<noteq> 0 then Some ProtocolViolation else None)
         else if msg_ID m \<in> {MsgHave, MsgSuggest, MsgAllowedFast} then
           (if n \<noteq> 4 then Some ProtocolViolation else None)
         else if msg_ID m \<in> {MsgRequest, MsgCancel, MsgReject} then
           (if n \<noteq> 12 then Some ProtocolViolation else None)
         else if msg_ID m = MsgPiece then
           (if n \<le> 8 then Some ProtocolViolation
            else if n - 8 > maxBlockLength then Some ProtocolViolation else None)
         else if msg_ID m = MsgPort then
           (if n \<noteq> 2 then Some ProtocolViolation else None)
         else if msg_ID m = MsgExtended then
           (if n = 0 then Some ProtocolViolation else None)
         else None)"

text \<open>The test on the length adds in \<open>uint32\<close> and may wrap; the length is tested against the
  buffer capacity before the slice is taken.\<close>

definition DecodeMessage :: "byte list \<Rightarrow> peer_error + Message" where
  "DecodeMessage data =
     (if length data < 4 then Inl (ShortMessage (length data))
      else
        let len = Uint32 data
        in if len = 0 then Inl NoMessageID
           else if (word_of_nat (length data) :: uint32) < 4 + len then Inl IncompleteMessage
           else if len > word_of_nat maxBufferCapacity then Inl MessageTooLong
           else
             let m = \<lparr>msg_ID = data ! 4, msg_Payload = drop 5 (take (unat (4 + len)) data)\<rparr>
             in case validatePayloadShape m of Some e \<Rightarrow> Inl e | None \<Rightarrow> Inr m)"

definition tryDecodeMessage :: "byte list \<Rightarrow> peer_error + (Message option \<times> nat)" where
  "tryDecodeMessage buf =
     (if length buf < 4 then Inr (None, 0)
      else
        let len = Uint32 buf
        in if len = 0 then Inr (None, 4)
           else if len > word_of_nat maxBufferCapacity then Inl MessageTooLong
           else
             let totalLen = 4 + unat len
             in if length buf < totalLen then Inr (None, 0)
                else
                  let m = \<lparr>msg_ID = buf ! 4, msg_Payload = drop 5 (take totalLen buf)\<rparr>
                  in case validatePayloadShape m of
                       Some e \<Rightarrow> Inl e
                     | None \<Rightarrow> Inr (Some m, totalLen))"

definition validatePieceIndex :: "int \<Rightarrow> nat \<Rightarrow> peer_error option" where
  "validatePieceIndex index n = (if n > 0 \<and> (index < 0 \<or> index \<ge> int n) then Some ProtocolViolation else None)"

definition validateBlockRange :: "int \<Rightarrow> int \<Rightarrow> int \<Rightarrow> nat \<Rightarrow> int \<Rightarrow> peer_error option" where
  "validateBlockRange piece offset len n pieceLength =
     (case validatePieceIndex piece n of
        Some e \<Rightarrow> Some e
      | None \<Rightarrow>
          if offset < 0 then Some ProtocolViolation
          else if len \<le> 0 then Some ProtocolViolation
          else if len > int maxBlockLength then Some ProtocolViolation
          else if pieceLength > 0 then
            (if offset \<ge> pieceLength then Some ProtocolViolation
             else if offset + len > pieceLength then Some ProtocolViolation else None)
          else None)"

definition spareMask :: "nat \<Rightarrow> byte" where
  "spareMask n = push_bit (8 - n mod 8) 0xff"

definition validateBitfieldPayload :: "byte list \<Rightarrow> nat \<Rightarrow> peer_error option" where
  "validateBitfieldPayload bf n =
     (if length bf \<noteq> (n + 7) div 8 then Some ProtocolViolation
      else if length bf = 0 then None
      else if n mod 8 = 0 then None
      else if (last bf AND NOT (spareMask n)) \<noteq> 0 then Some ProtocolViolation else None)"

text \<open>The marshallers convert their \<open>int\<close> arguments to \<open>uint32\<close>.\<close>

definition put_int :: "int \<Rightarrow> byte list" where
  "put_int i = PutUint32 (word_of_int i)"

definition get_int :: "byte list \<Rightarrow> int" where
  "get_int bs = uint (Uint32 bs)"

definition MarshalHave :: "int \<Rightarrow> byte list" where
  "MarshalHave piece = Encode (NewMessage MsgHave (put_int piece))"

definition MarshalBitfield :: "byte list \<Rightarrow> byte list" where
  "MarshalBitfield bf = Encode (NewMessage MsgBitfield bf)"

definition range_payload :: "int \<Rightarrow> int \<Rightarrow> int \<Rightarrow> byte list" where
  "range_payload piece offset len = put_int piece @ put_int offset @ put_int len"

definition MarshalRequest :: "int \<Rightarrow> int \<Rightarrow> int \<Rightarrow> byte list" where
  "MarshalRequest piece offset len = Encode (NewMessage MsgRequest (range_payload piece offset len))"

definition MarshalPiece :: "int \<Rightarrow> int \<Rightarrow> byte list \<Rightarrow> byte list" where
  "MarshalPiece piece offset data = Encode (NewMessage MsgPiece (put_int piece @ put_int offset @ data))"

definition MarshalCancel :: "int \<Rightarrow> int \<Rightarrow> int \<Rightarrow> byte list" where
  "MarshalCancel piece offset len = Encode (NewMessage MsgCancel (range_payload piece offset len))"

definition MarshalPort :: "uint16 \<Rightarrow> byte list" where
  "MarshalPort port = Encode (NewMessage MsgPort (PutUint16 port))"

definition UnmarshalPiece :: "Message \<Rightarrow> peer_error + (int \<times> int \<times> byte list)" where
  "UnmarshalPiece m =
     (if msg_ID m \<noteq> MsgPiece then Inl (UnexpectedKind (msg_ID m))
      else if length (msg_Payload m) \<le> 8 then Inl (ShortMessage (length (msg_Payload m)))
      else Inr (get_int (msg_Payload m), get_int (drop 4 (msg_Payload m)), drop 8 (msg_Payload m)))"

definition UnmarshalHave :: "Message \<Rightarrow> peer_error + int" where
  "UnmarshalHave m =
     (if msg_ID m \<noteq> MsgHave then Inl (UnexpectedKind (msg_ID m))
      else if length (msg_Payload m) \<noteq> 4 then Inl (ShortMessage (length (msg_Payload m)))
      else Inr (get_int (msg_Payload m)))"

definition get_range :: "byte list \<Rightarrow> int \<times> int \<times> int" where
  "get_range p = (get_int p, get_int (drop 4 p), get_int (drop 8 p))"

definition UnmarshalRequest :: "Message \<Rightarrow> peer_error + (int \<times> int \<times> int)" where
  "UnmarshalRequest m =
     (if msg_ID m \<noteq> MsgRequest then Inl (UnexpectedKind (msg_ID m))
      else if length (msg_Payload m) \<noteq> 12 then Inl (ShortMessage (length (msg_Payload m)))
      else Inr (get_range (msg_Payload m)))"

definition UnmarshalCancel :: "Message \<Rightarrow> peer_error + (int \<times> int \<times> int)" where
  "UnmarshalCancel m =
     (if msg_ID m \<noteq> MsgCancel then Inl (UnexpectedKind (msg_ID m))
      else if length (msg_Payload m) \<noteq> 12 then Inl (ShortMessage (length (msg_Payload m)))
      else Inr (get_range (msg_Payload m)))"

definition unmarshalRange :: "Message \<Rightarrow> peer_error + (int \<times> int \<times> int)" where
  "unmarshalRange m =
     (if msg_ID m = MsgRequest then UnmarshalRequest m
      else if msg_ID m = MsgCancel then UnmarshalCancel m
      else if msg_ID m = MsgReject then
        (if length (msg_Payload m) \<noteq> 12 then Inl ProtocolViolation else Inr (get_range (msg_Payload m)))
      else Inl ProtocolViolation)"

definition UnmarshalPort :: "Message \<Rightarrow> peer_error + uint16" where
  "UnmarshalPort m =
     (if msg_ID m \<noteq> MsgPort then Inl (UnexpectedKind (msg_ID m))
      else if length (msg_Payload m) \<noteq> 2 then Inl ProtocolViolation
      else Inr (Uint16 (msg_Payload m)))"

definition MarshalExtended :: "byte \<Rightarrow> byte list \<Rightarrow> byte list" where
  "MarshalExtended i payload = Encode (NewMessage MsgExtended (i # payload))"

definition UnmarshalExtended :: "Message \<Rightarrow> peer_error + (byte \<times> byte list)" where
  "UnmarshalExtended m =
     (if msg_ID m \<noteq> MsgExtended then Inl (UnexpectedKind (msg_ID m))
      else case msg_Payload m of [] \<Rightarrow> Inl ProtocolViolation | i # payload \<Rightarrow> Inr (i, payload))"

section \<open>Handshake (peer/handshake.go)\<close>

definition pstr :: "byte list" where
  "pstr = map of_char ''BitTorrent protocol''"

definition handshakeLen :: nat where
  "handshakeLen = 1 + 19 + 8 + 20 + 20"

record Handshake =
  hs_InfoHash :: "byte list"
  hs_PeerID :: "byte list"
  hs_Reserved :: "byte list"

definition marshalHandshake :: "byte list \<Rightarrow> byte list \<Rightarrow> byte list \<Rightarrow> byte list" where
  "marshalHandshake infoHash peerID reserved = 19 # pstr @ reserved @ infoHash @ peerID"

definition parseHandshake :: "byte list \<Rightarrow> peer_error + Handshake" where
  "parseHandshake data =
     (if length data < handshakeLen then Inl (ShortHandshake (length data))
      else if data ! 0 \<noteq> 19 then Inl (BadPstrlen (data ! 0))
      else if take 19 (drop 1 data) \<noteq> pstr then Inl BadPstr
      else Inr \<lparr>hs_InfoHash = take 20 (drop 28 data), hs_PeerID = take 20 (drop 48 data),
                hs_Reserved = take 8 (drop 20 data)\<rparr>)"

definition hasFastExtension :: "byte list \<Rightarrow> bool" where
  "hasFastExtension r \<longleftrightarrow> (r ! 7) AND 0x04 \<noteq> 0"

definition hasExtensionMessaging :: "byte list \<Rightarrow> bool" where
  "hasExtensionMessaging r \<longleftrightarrow> (r ! 5) AND 0x10 \<noteq> 0"

definition hasDHT :: "byte list \<Rightarrow> bool" where
  "hasDHT r \<longleftrightarrow> (r ! 7) AND 0x01 \<noteq> 0"

definition MakeReserved :: "bool \<Rightarrow> bool \<Rightarrow> bool \<Rightarrow> byte list" where
  "MakeReserved fastExt extMsg dht =
     (let r0 = replicate 8 0;
          r1 = (if fastExt then r0[7 := (r0 ! 7) OR 0x04] else r0);
          r2 = (if extMsg then r1[5 := (r1 ! 5) OR 0x10] else r1)
      in if dht then r2[7 := (r2 ! 7) OR 0x01] else r2)"

lemma handshake_roundtrip:
  assumes "length ih = 20" "length pid = 20" "length r = 8"
  shows "parseHandshake (marshalHandshake ih pid r @ rest)
         = Inr \<lparr>hs_InfoHash = ih, hs_PeerID = pid, hs_Reserved = r\<rparr>"
proof -
  have p: "length pstr = 19" by (simp add: pstr_def)
  show ?thesis
    using assms p by (simp add: parseHandshake_def marshalHandshake_def handshakeLen_def)
qed

lemma MakeReserved_flags:
  "hasFastExtension (MakeReserved f x d) = f" "hasExtensionMessaging (MakeReserved f x d) = x"
  "hasDHT (MakeReserved f x d) = d" "length (MakeReserved f x d) = 8"
  by (cases f; cases x; cases d; simp add: hasFastExtension_def hasExtensionMessaging_def hasDHT_def MakeReserved_def Let_def)+

section \<open>Framing\<close>

definition wire_ok :: "Message \<Rightarrow> bool" where
  "wire_ok m \<longleftrightarrow> validatePayloadShape m = None \<and> 1 + length (msg_Payload m) \<le> maxBufferCapacity"

lemma maxBufferCapacity_eq: "maxBufferCapacity = 65664"
  by (simp add: maxBufferCapacity_def maxBlockLength_def)

lemma length_Encode [simp]: "length (Encode m) = 5 + length (msg_Payload m)"
  by (simp add: Encode_def)

lemma Encode_len:
  assumes "1 + length (msg_Payload m) \<le> maxBufferCapacity"
  shows "unat (Uint32 (Encode m @ rest)) = 1 + length (msg_Payload m)"
proof -
  have "1 + length (msg_Payload m) < 2 ^ 32" using assms by (simp add: maxBufferCapacity_eq)
  then show ?thesis by (simp add: Encode_def unat_of_nat del: of_nat_Suc of_nat_add)
qed

lemma wire_len_le: "len \<le> word_of_nat maxBufferCapacity \<longleftrightarrow> unat (len :: uint32) \<le> maxBufferCapacity"
  by (simp add: word_le_nat_alt maxBufferCapacity_eq)

lemma Message_eta [simp]: "\<lparr>msg_ID = msg_ID m, msg_Payload = msg_Payload m\<rparr> = m"
  by simp

lemma tryDecode_Encode:
  assumes "wire_ok m"
  shows "tryDecodeMessage (Encode m @ rest) = Inr (Some m, length (Encode m))"
proof -
  note L = Encode_len [of m rest]
  have cap: "1 + length (msg_Payload m) \<le> maxBufferCapacity" and sh: "validatePayloadShape m = None"
    using assms by (simp_all add: wire_ok_def)
  have nz: "Uint32 (Encode m @ rest) \<noteq> 0" using L [OF cap] by (metis nat.distinct(1) plus_1_eq_Suc unat_0)
  have le: "Uint32 (Encode m @ rest) \<le> word_of_nat maxBufferCapacity" using L [OF cap] cap by (simp add: wire_len_le)
  have "(Encode m @ rest) ! 4 = msg_ID m" "drop 5 (take (5 + length (msg_Payload m)) (Encode m @ rest)) = msg_Payload m"
    by (simp_all add: Encode_def nth_append)
  with L [OF cap] nz le sh show ?thesis
    by (simp add: tryDecodeMessage_def Let_def not_less [symmetric])
qed

lemma tryDecode_prefix:
  assumes m: "1 + length (msg_Payload m) \<le> maxBufferCapacity" and k: "k < length (Encode m)"
  shows "tryDecodeMessage (take k (Encode m)) = Inr (None, 0)"
proof (cases "k < 4")
  case True
  then show ?thesis by (simp add: tryDecodeMessage_def)
next
  case False
  have "take 4 (take k (Encode m)) = take 4 (Encode m)" using False by (simp add: min_def)
  then have u: "Uint32 (take k (Encode m)) = Uint32 (Encode m @ [])" by (simp add: Uint32_def)
  note L = Encode_len [OF m, of "[]"]
  have nz: "Uint32 (Encode m @ []) \<noteq> 0" using L by (metis nat.distinct(1) plus_1_eq_Suc unat_0)
  have le: "Uint32 (Encode m @ []) \<le> word_of_nat maxBufferCapacity" using L m by (simp add: wire_len_le)
  have short: "length (take k (Encode m)) < 4 + unat (Uint32 (Encode m @ []))" using k unfolding L by simp
  show ?thesis using False nz le short k unfolding tryDecodeMessage_def Let_def u
    by (simp add: not_less [symmetric])
qed

text \<open>A message that is decoded lies inside the buffer.\<close>

lemma tryDecode_bounds:
  "tryDecodeMessage buf = Inr (Some m, k) \<Longrightarrow> 4 < k \<and> k \<le> length buf \<and> wire_ok m \<and> take k buf = Encode m"
proof -
  assume T: "tryDecodeMessage buf = Inr (Some m, k)"
  then have len: "\<not> length buf < 4" and nz: "Uint32 buf \<noteq> 0" and cap: "Uint32 buf \<le> word_of_nat maxBufferCapacity"
    and k: "k = 4 + unat (Uint32 buf)" "\<not> length buf < k" and m: "m = \<lparr>msg_ID = buf ! 4, msg_Payload = drop 5 (take k buf)\<rparr>"
    and sh: "validatePayloadShape m = None"
    by (auto simp: tryDecodeMessage_def Let_def not_less split: if_splits option.splits)
  have pos: "0 < unat (Uint32 buf)" using nz by (simp add: unat_gt_0)
  have pl: "1 + length (msg_Payload m) = unat (Uint32 buf)" using k m pos by simp
  have ok: "wire_ok m" using sh cap pl by (simp add: wire_ok_def wire_len_le)
  have "PutUint32 (Uint32 buf) = take 4 buf"
    using PutUint32_Uint32 [of "take 4 buf"] len by (simp add: Uint32_def min_def)
  then have hd4: "PutUint32 (word_of_nat (1 + length (msg_Payload m))) = take 4 buf" unfolding pl by simp
  have "take k buf = take 4 buf @ drop 4 (take k buf)" using k pos by (metis append_take_drop_id le_add1 min.absorb1 take_take)
  moreover have "drop 4 (take k buf) = buf ! 4 # drop 5 (take k buf)"
    using k pos by (subst Cons_nth_drop_Suc [symmetric]) (auto simp: eval_nat_numeral)
  ultimately have "take k buf = Encode m" unfolding Encode_def hd4 using m by simp
  with k pos ok show ?thesis by simp
qed

lemma Decode_Encode:
  assumes "wire_ok m"
  shows "DecodeMessage (Encode m) = Inr m"
proof -
  have cap: "1 + length (msg_Payload m) \<le> maxBufferCapacity" and sh: "validatePayloadShape m = None"
    using assms by (simp_all add: wire_ok_def)
  note L = Encode_len [OF cap, of "[]"]
  have nz: "Uint32 (Encode m) \<noteq> 0" using L by (metis append_Nil2 nat.distinct(1) plus_1_eq_Suc unat_0)
  have le: "Uint32 (Encode m) \<le> word_of_nat maxBufferCapacity" using L cap by (simp add: wire_len_le)
  have big: "5 + length (msg_Payload m) < 2 ^ 32" using cap by (simp add: maxBufferCapacity_eq)
  have u4: "unat (4 + Uint32 (Encode m)) = 5 + length (msg_Payload m)"
    using L big by (subst unat_add_lem [THEN iffD1]) simp_all
  have ge: "\<not> (word_of_nat (length (Encode m)) :: uint32) < 4 + Uint32 (Encode m)"
    using u4 big by (simp add: word_less_nat_alt unat_of_nat del: of_nat_Suc of_nat_add)
  have "(Encode m) ! 4 = msg_ID m" "drop 5 (take (5 + length (msg_Payload m)) (Encode m)) = msg_Payload m"
    by (simp_all add: Encode_def nth_append)
  with nz le sh u4 ge show ?thesis
    by (simp add: DecodeMessage_def Let_def not_less [symmetric])
qed

text \<open>The length field may wrap the sum in the bounds test; no slice is out of bounds even then.\<close>

lemma DecodeMessage_in_bounds:
  assumes "DecodeMessage data = Inr m" and "length data < 2 ^ 32"
  shows "4 + unat (Uint32 data) \<le> length data \<and> length (msg_Payload m) = unat (Uint32 data) - 1"
proof -
  from assms(1) have len: "\<not> length data < 4" and nz: "Uint32 data \<noteq> 0"
    and ge: "4 + Uint32 data \<le> (word_of_nat (length data) :: uint32)"
    and cap: "Uint32 data \<le> word_of_nat maxBufferCapacity"
    and m: "m = \<lparr>msg_ID = data ! 4, msg_Payload = drop 5 (take (unat (4 + Uint32 data)) data)\<rparr>"
    by (auto simp: DecodeMessage_def Let_def not_less split: if_splits option.splits)
  have c: "unat (Uint32 data) \<le> 65664" using cap [unfolded wire_len_le] by (simp add: maxBufferCapacity_eq)
  have u4: "unat (4 + Uint32 data) = 4 + unat (Uint32 data)"
    using c by (subst unat_add_lem [THEN iffD1]) simp_all
  have "4 + unat (Uint32 data) \<le> length data"
    using ge assms(2) u4 by (simp add: word_le_nat_alt unat_of_nat)
  with m u4 show ?thesis by simp
qed

lemma get_put_int [simp]: "0 \<le> i \<Longrightarrow> i < 2 ^ 32 \<Longrightarrow> get_int (put_int i @ rest) = i"
  by (simp add: get_int_def put_int_def uint_word_of_int)

lemma length_put_int [simp]: "length (put_int i) = 4"
  by (simp add: put_int_def)

lemma get_put_int0 [simp]: "0 \<le> i \<Longrightarrow> i < 2 ^ 32 \<Longrightarrow> get_int (put_int i) = i"
  using get_put_int [of i "[]"] by simp

lemma range_roundtrip:
  "0 \<le> p \<Longrightarrow> p < 2 ^ 32 \<Longrightarrow> 0 \<le> a \<Longrightarrow> a < 2 ^ 32 \<Longrightarrow> 0 \<le> n \<Longrightarrow> n < 2 ^ 32 \<Longrightarrow>
   get_range (range_payload p a n) = (p, a, n)"
  using drop_append_length [of "put_int p @ put_int a" 8 "put_int n"]
  by (simp add: get_range_def range_payload_def)

section \<open>A connection (peer/peer.go, peer/session.go)\<close>

record requestSlot =
  slot_piece :: int
  slot_offset :: int
  slot_length :: int

text \<open>\<open>allowedFastSet\<close> and \<open>extensionIDs\<close> are \<open>nil\<close> or maps; a lookup in a \<open>nil\<close> map finds
  nothing. \<open>recvCh\<close> and \<open>sendCh\<close> are channels with room for 32 elements. Times are nanoseconds.\<close>

record Conn =
  c_numPieces :: nat
  c_pieceLength :: int
  c_sendCh :: "byte list list"
  c_recvCh :: "Message list"
  c_choked :: bool
  c_interested :: bool
  c_peerChoking :: bool
  c_peerInterest :: bool
  c_downloaded :: int
  c_chokeUnchokeCount :: int
  c_keepAliveCount :: int
  c_floodingTimer :: "int option"
  c_inactiveTimer :: int
  c_allowedFastSet :: "int list"
  c_requestSlots :: "requestSlot list"
  c_extensionIDs :: "(int \<times> byte) list"
  c_snubbing :: bool
  c_chokingReq :: bool
  c_optUnchoke :: bool
  c_bitfield :: "byte list option"
  c_hasAllPiecesCache :: bool

definition defaultSendQueueSize :: nat where
  "defaultSendQueueSize = 32"

definition newConn :: "nat \<Rightarrow> int \<Rightarrow> Conn" where
  "newConn numPieces pieceLength =
     \<lparr>c_numPieces = numPieces, c_pieceLength = pieceLength, c_sendCh = [], c_recvCh = [], c_choked = True,
      c_interested = False, c_peerChoking = True, c_peerInterest = False, c_downloaded = 0,
      c_chokeUnchokeCount = 0, c_keepAliveCount = 0, c_floodingTimer = None, c_inactiveTimer = 0,
      c_allowedFastSet = [], c_requestSlots = [], c_extensionIDs = [], c_snubbing = False,
      c_chokingReq = True, c_optUnchoke = False, c_bitfield = None, c_hasAllPiecesCache = False\<rparr>"

subsection \<open>Sending\<close>

definition send :: "Conn \<Rightarrow> byte list \<Rightarrow> Conn \<times> peer_error option" where
  "send c data =
     (if length (c_sendCh c) < defaultSendQueueSize
      then (c\<lparr>c_sendCh := c_sendCh c @ [data]\<rparr>, None) else (c, Some SendQueueFull))"

definition Conn_Choke :: "Conn \<Rightarrow> Conn \<times> peer_error option" where
  "Conn_Choke c = send c (Encode (NewMessage MsgChoke []))"

definition Conn_Unchoke :: "Conn \<Rightarrow> Conn \<times> peer_error option" where
  "Conn_Unchoke c = send c (Encode (NewMessage MsgUnchoke []))"

definition Conn_Interested :: "Conn \<Rightarrow> Conn \<times> peer_error option" where
  "Conn_Interested c = send c (Encode (NewMessage MsgInterested []))"

definition Conn_NotInterested :: "Conn \<Rightarrow> Conn \<times> peer_error option" where
  "Conn_NotInterested c = send c (Encode (NewMessage MsgNotInterested []))"

definition guarded_send :: "Conn \<Rightarrow> peer_error option \<Rightarrow> byte list \<Rightarrow> Conn \<times> peer_error option" where
  "guarded_send c err data = (case err of Some e \<Rightarrow> (c, Some e) | None \<Rightarrow> send c data)"

definition Conn_Have :: "Conn \<Rightarrow> int \<Rightarrow> Conn \<times> peer_error option" where
  "Conn_Have c piece = guarded_send c (validatePieceIndex piece (c_numPieces c)) (MarshalHave piece)"

definition Conn_Bitfield :: "Conn \<Rightarrow> byte list \<Rightarrow> Conn \<times> peer_error option" where
  "Conn_Bitfield c bf =
     guarded_send c (if c_numPieces c > 0 then validateBitfieldPayload bf (c_numPieces c) else None) (MarshalBitfield bf)"

definition conn_range :: "Conn \<Rightarrow> int \<Rightarrow> int \<Rightarrow> int \<Rightarrow> peer_error option" where
  "conn_range c piece offset len = validateBlockRange piece offset len (c_numPieces c) (c_pieceLength c)"

definition Conn_Request :: "Conn \<Rightarrow> int \<Rightarrow> int \<Rightarrow> int \<Rightarrow> Conn \<times> peer_error option" where
  "Conn_Request c piece offset len =
     (case conn_range c piece offset len of
        Some e \<Rightarrow> (c, Some e)
      | None \<Rightarrow>
          send (c\<lparr>c_requestSlots := c_requestSlots c @ [\<lparr>slot_piece = piece, slot_offset = offset, slot_length = len\<rparr>]\<rparr>)
            (MarshalRequest piece offset len))"

definition Conn_Piece :: "Conn \<Rightarrow> int \<Rightarrow> int \<Rightarrow> byte list \<Rightarrow> Conn \<times> peer_error option" where
  "Conn_Piece c piece offset data =
     guarded_send c (conn_range c piece offset (int (length data))) (MarshalPiece piece offset data)"

definition removeRequestSlot :: "Conn \<Rightarrow> int \<Rightarrow> int \<Rightarrow> int \<Rightarrow> Conn" where
  "removeRequestSlot c piece offset len =
     c\<lparr>c_requestSlots := remove1 \<lparr>slot_piece = piece, slot_offset = offset, slot_length = len\<rparr> (c_requestSlots c)\<rparr>"

definition Conn_Cancel :: "Conn \<Rightarrow> int \<Rightarrow> int \<Rightarrow> int \<Rightarrow> Conn \<times> peer_error option" where
  "Conn_Cancel c piece offset len =
     (case conn_range c piece offset len of
        Some e \<Rightarrow> (c, Some e)
      | None \<Rightarrow> send (removeRequestSlot c piece offset len) (MarshalCancel piece offset len))"

definition Conn_Port :: "Conn \<Rightarrow> uint16 \<Rightarrow> Conn \<times> peer_error option" where
  "Conn_Port c port = send c (MarshalPort port)"

definition Conn_HaveAll :: "Conn \<Rightarrow> Conn \<times> peer_error option" where
  "Conn_HaveAll c = send c (Encode (NewMessage MsgHaveAll []))"

definition Conn_HaveNone :: "Conn \<Rightarrow> Conn \<times> peer_error option" where
  "Conn_HaveNone c = send c (Encode (NewMessage MsgHaveNone []))"

definition Conn_Suggest :: "Conn \<Rightarrow> int \<Rightarrow> Conn \<times> peer_error option" where
  "Conn_Suggest c piece =
     guarded_send c (validatePieceIndex piece (c_numPieces c)) (Encode (NewMessage MsgSuggest (put_int piece)))"

definition Conn_AllowedFast :: "Conn \<Rightarrow> int \<Rightarrow> Conn \<times> peer_error option" where
  "Conn_AllowedFast c piece =
     guarded_send c (validatePieceIndex piece (c_numPieces c)) (Encode (NewMessage MsgAllowedFast (put_int piece)))"

definition Conn_Reject :: "Conn \<Rightarrow> int \<Rightarrow> int \<Rightarrow> int \<Rightarrow> Conn \<times> peer_error option" where
  "Conn_Reject c piece offset len =
     guarded_send c (conn_range c piece offset len) (Encode (NewMessage MsgReject (range_payload piece offset len)))"

definition Conn_Extended :: "Conn \<Rightarrow> byte \<Rightarrow> byte list \<Rightarrow> Conn \<times> peer_error option" where
  "Conn_Extended c i payload = send c (Encode (NewMessage MsgExtended (i # payload)))"

subsection \<open>What the peer has\<close>

definition peer_bit :: "byte list \<Rightarrow> nat \<Rightarrow> bool" where
  "peer_bit bf i \<longleftrightarrow> (bf ! (i div 8)) AND push_bit (7 - i mod 8) 1 \<noteq> 0"

definition peer_put :: "byte list \<Rightarrow> nat \<Rightarrow> bool \<Rightarrow> byte list" where
  "peer_put bf i on =
     (if on then bf[i div 8 := (bf ! (i div 8)) OR push_bit (7 - i mod 8) 1]
      else bf[i div 8 := (bf ! (i div 8)) AND NOT (push_bit (7 - i mod 8) 1)])"

definition Conn_hasPiece :: "Conn \<Rightarrow> int \<Rightarrow> bool" where
  "Conn_hasPiece c index =
     (case c_bitfield c of
        None \<Rightarrow> False
      | Some bf \<Rightarrow>
          if index < 0 \<or> index \<ge> int (c_numPieces c) then False
          else if nat index div 8 \<ge> length bf then False
          else peer_bit bf (nat index))"

definition Conn_hasAllPieces :: "Conn \<Rightarrow> Conn \<times> bool" where
  "Conn_hasAllPieces c =
     (case c_bitfield c of
        None \<Rightarrow> (c, False)
      | Some bf \<Rightarrow>
          if c_numPieces c = 0 then (c, False)
          else if c_hasAllPiecesCache c then (c, True)
          else if \<exists>i\<in>set [0..<c_numPieces c]. i div 8 \<ge> length bf \<or> \<not> peer_bit bf i then (c, False)
          else (c\<lparr>c_hasAllPiecesCache := True\<rparr>, True))"

definition updateBitfield :: "Conn \<Rightarrow> int \<Rightarrow> int \<Rightarrow> Conn" where
  "updateBitfield c index operation =
     (case c_bitfield c of
        None \<Rightarrow> c
      | Some bf \<Rightarrow>
          if index < 0 \<or> index \<ge> int (c_numPieces c) then c
          else if nat index div 8 \<ge> length bf then c
          else
            let bf' = (if operation = 1 then peer_put bf (nat index) True
                       else if operation = 0 then peer_put bf (nat index) False else bf)
            in c\<lparr>c_bitfield := Some bf', c_hasAllPiecesCache := False\<rparr>)"

definition full_bitfield :: "nat \<Rightarrow> byte list \<Rightarrow> byte list" where
  "full_bitfield n bf =
     (let full = map (\<lambda>_. 0xff) bf
      in if n > 0 \<and> n mod 8 \<noteq> 0 then full[length full - 1 := spareMask n] else full)"

definition markSeeder :: "Conn \<Rightarrow> Conn" where
  "markSeeder c =
     (case c_bitfield c of
        None \<Rightarrow> c
      | Some bf \<Rightarrow> c\<lparr>c_bitfield := Some (full_bitfield (c_numPieces c) bf), c_hasAllPiecesCache := True\<rparr>)"

definition handleBitfield :: "Conn \<Rightarrow> byte list \<Rightarrow> peer_error + Conn" where
  "handleBitfield c bf =
     (if c_numPieces c = 0 then
        (if bf \<noteq> [] then (case validateBitfieldPayload bf 0 of Some e \<Rightarrow> Inl e | None \<Rightarrow> Inr c) else Inr c)
      else
        case validateBitfieldPayload bf (c_numPieces c) of
          Some e \<Rightarrow> Inl e
        | None \<Rightarrow> Inr (c\<lparr>c_bitfield := Some bf, c_hasAllPiecesCache := False\<rparr>))"

definition doChokedAction :: "Conn \<Rightarrow> Conn" where
  "doChokedAction c = c\<lparr>c_requestSlots := filter (\<lambda>slot. slot_piece slot \<in> set (c_allowedFastSet c)) (c_requestSlots c)\<rparr>"

definition SetAllowedFast :: "Conn \<Rightarrow> int \<Rightarrow> Conn" where
  "SetAllowedFast c piece = c\<lparr>c_allowedFastSet := List.insert piece (c_allowedFastSet c)\<rparr>"

definition addExtension :: "Conn \<Rightarrow> int \<Rightarrow> byte \<Rightarrow> Conn" where
  "addExtension c key i = c\<lparr>c_extensionIDs := AList.update key i (c_extensionIDs c)\<rparr>"

definition getExtensionMessageID :: "Conn \<Rightarrow> int \<Rightarrow> byte" where
  "getExtensionMessageID c key = (case map_of (c_extensionIDs c) key of None \<Rightarrow> 0 | Some i \<Rightarrow> i)"

definition setSnubbing :: "Conn \<Rightarrow> bool \<Rightarrow> Conn" where
  "setSnubbing c b =
     (if b then c\<lparr>c_snubbing := b, c_chokingReq := True, c_optUnchoke := False\<rparr> else c\<lparr>c_snubbing := b\<rparr>)"

definition shouldBeChoking :: "Conn \<Rightarrow> bool" where
  "shouldBeChoking c = (if c_optUnchoke c then False else c_chokingReq c)"

subsection \<open>Receiving\<close>

definition incChokeUnchoke :: "Conn \<Rightarrow> Conn" where
  "incChokeUnchoke c = c\<lparr>c_chokeUnchokeCount := c_chokeUnchokeCount c + 1\<rparr>"

definition incKeepAlive :: "Conn \<Rightarrow> Conn" where
  "incKeepAlive c = c\<lparr>c_keepAliveCount := c_keepAliveCount c + 1\<rparr>"

definition on_choke :: "Conn \<Rightarrow> Conn" where
  "on_choke c = doChokedAction ((if \<not> c_peerChoking c then incChokeUnchoke c else c)\<lparr>c_peerChoking := True\<rparr>)"

definition on_unchoke :: "Conn \<Rightarrow> Conn" where
  "on_unchoke c = (if c_peerChoking c then incChokeUnchoke c else c)\<lparr>c_peerChoking := False\<rparr>"

definition on_have_none :: "Conn \<Rightarrow> Conn" where
  "on_have_none c =
     (case c_bitfield c of
        None \<Rightarrow> c
      | Some bf \<Rightarrow> c\<lparr>c_bitfield := Some (map (\<lambda>_. 0) bf), c_hasAllPiecesCache := False\<rparr>)"

text \<open>An error of \<open>Unmarshal\<close> is wrapped as a protocol violation.\<close>

definition on_have :: "Conn \<Rightarrow> Message \<Rightarrow> peer_error + Conn" where
  "on_have c m =
     (case UnmarshalHave m of
        Inl e \<Rightarrow> Inl ProtocolViolation
      | Inr piece \<Rightarrow>
          (case validatePieceIndex piece (c_numPieces c) of
             Some e \<Rightarrow> Inl e
           | None \<Rightarrow> Inr (updateBitfield c piece 1)))"

definition on_range :: "int \<Rightarrow> Conn \<Rightarrow> Message \<Rightarrow> peer_error + Conn" where
  "on_range now c m =
     (case unmarshalRange m of
        Inl e \<Rightarrow> Inl e
      | Inr (piece, offset, len) \<Rightarrow>
          (case conn_range c piece offset len of
             Some e \<Rightarrow> Inl e
           | None \<Rightarrow> Inr (if msg_ID m = MsgRequest then c\<lparr>c_inactiveTimer := now\<rparr> else c)))"

definition on_piece :: "int \<Rightarrow> Conn \<Rightarrow> Message \<Rightarrow> peer_error + Conn" where
  "on_piece now c m =
     (case UnmarshalPiece m of
        Inl e \<Rightarrow> Inl ProtocolViolation
      | Inr (piece, offset, data) \<Rightarrow>
          (case conn_range c piece offset (int (length data)) of
             Some e \<Rightarrow> Inl e
           | None \<Rightarrow> Inr (c\<lparr>c_inactiveTimer := now\<rparr>)))"

definition handleIncoming :: "int \<Rightarrow> Conn \<Rightarrow> Message \<Rightarrow> peer_error + Conn" where
  "handleIncoming now c m =
     (if msg_ID m = MsgChoke then Inr (on_choke c)
      else if msg_ID m = MsgUnchoke then Inr (on_unchoke c)
      else if msg_ID m = MsgInterested then Inr (c\<lparr>c_peerInterest := True\<rparr>)
      else if msg_ID m = MsgNotInterested then Inr (c\<lparr>c_peerInterest := False\<rparr>)
      else if msg_ID m = MsgBitfield then handleBitfield c (msg_Payload m)
      else if msg_ID m = MsgHaveAll then Inr (markSeeder c)
      else if msg_ID m = MsgHaveNone then Inr (on_have_none c)
      else if msg_ID m = MsgHave then on_have c m
      else if msg_ID m = MsgRequest \<or> msg_ID m = MsgCancel \<or> msg_ID m = MsgReject then on_range now c m
      else if msg_ID m = MsgPiece then on_piece now c m
      else Inr c)"

text \<open>A message goes to the receive channel if there is room, else it is dropped.\<close>

definition deliver :: "Conn \<Rightarrow> Message \<Rightarrow> Conn" where
  "deliver c m =
     (if length (c_recvCh c) < defaultSendQueueSize then c\<lparr>c_recvCh := c_recvCh c @ [m]\<rparr> else c)"

text \<open>The inner loop of \<open>reader\<close>: decode what is in the buffer.\<close>

function drain :: "int \<Rightarrow> Conn \<Rightarrow> byte list \<Rightarrow> Conn \<times> byte list \<times> peer_error option" where
  "drain now c readBuf =
     (case tryDecodeMessage readBuf of
        Inl e \<Rightarrow> (c, readBuf, Some e)
      | Inr (None, consumed) \<Rightarrow>
          (if consumed > 0 then incKeepAlive c else c, drop consumed readBuf, None)
      | Inr (Some m, consumed) \<Rightarrow>
          (case handleIncoming now c m of
             Inl e \<Rightarrow> (c, drop consumed readBuf, Some e)
           | Inr c' \<Rightarrow> drain now (deliver c' m) (drop consumed readBuf)))"
  by pat_completeness auto
termination
  by (relation "measure (\<lambda>(_, _, buf). length buf)") (auto dest: tryDecode_bounds)

declare drain.simps [simp del]

text \<open>One round of \<open>reader\<close>: the bytes of one \<open>Read\<close> are appended, then the buffer is drained.\<close>

definition reader_round :: "int \<Rightarrow> Conn \<Rightarrow> byte list \<Rightarrow> byte list \<Rightarrow> Conn \<times> byte list \<times> peer_error option" where
  "reader_round now c readBuf chunk =
     drain now (c\<lparr>c_downloaded := c_downloaded c + int (length chunk)\<rparr>) (readBuf @ chunk)"

fun reader_run :: "int \<Rightarrow> Conn \<Rightarrow> byte list \<Rightarrow> byte list list \<Rightarrow> Conn \<times> byte list \<times> peer_error option" where
  "reader_run now c readBuf [] = (c, readBuf, None)"
| "reader_run now c readBuf (chunk # chunks) =
     (case reader_round now c readBuf chunk of
        (c', buf', Some e) \<Rightarrow> (c', buf', Some e)
      | (c', buf', None) \<Rightarrow> reader_run now c' buf' chunks)"

subsection \<open>Checks\<close>

definition floodingCheckInterval :: int where
  "floodingCheckInterval = 5 * 10 ^ 9"

definition CheckFlooding :: "int \<Rightarrow> Conn \<Rightarrow> Conn \<times> peer_error option" where
  "CheckFlooding now c =
     (case c_floodingTimer c of
        None \<Rightarrow> (c\<lparr>c_floodingTimer := Some now\<rparr>, None)
      | Some t \<Rightarrow>
          if now - t \<ge> floodingCheckInterval then
            let c' = c\<lparr>c_chokeUnchokeCount := 0, c_keepAliveCount := 0, c_floodingTimer := Some now\<rparr>
            in if c_chokeUnchokeCount c \<ge> 2 \<or> c_keepAliveCount c \<ge> 2 then (c', Some FloodingDetected)
               else (c', None)
          else (c, None))"

definition CheckInactivity :: "int \<Rightarrow> Conn \<Rightarrow> bool \<Rightarrow> bool \<Rightarrow> bool \<Rightarrow> bool \<Rightarrow> Conn \<times> peer_error option" where
  "CheckInactivity now c amInterested peerInterested isPeerSeeder isLocalSeeder =
     (if c_inactiveTimer c = 0 then (c\<lparr>c_inactiveTimer := now\<rparr>, None)
      else
        let inactiveTime = now - c_inactiveTimer c
        in if \<not> amInterested \<and> \<not> peerInterested \<and> inactiveTime \<ge> 30 * 10 ^ 9 then (c, Some MutuallyUninterested)
           else if inactiveTime \<ge> 60 * 10 ^ 9 then (c, Some InactivityTimeout)
           else if isPeerSeeder \<and> isLocalSeeder then (c, Some SeederToSeeder)
           else (c, None))"

definition CheckActiveInteraction :: "int \<Rightarrow> Conn \<Rightarrow> bool \<Rightarrow> bool \<Rightarrow> bool \<Rightarrow> bool \<Rightarrow> Conn \<times> peer_error option" where
  "CheckActiveInteraction now c amInterested peerInterested isPeerSeeder isLocalSeeder =
     (case CheckInactivity now c amInterested peerInterested isPeerSeeder isLocalSeeder of
        (c', Some e) \<Rightarrow> (c', Some e)
      | (c', None) \<Rightarrow> CheckFlooding now c')"

section \<open>The peer's pieces\<close>

lemma bit_mask_push: "bit_mask i = push_bit (7 - i mod 8) 1"
  by (rule bit_eqI) (auto simp: bit_bit_mask push_bit_of_1 bit_exp_iff)

lemma peer_bit_testBit: "peer_bit = testBit"
  by (simp add: fun_eq_iff peer_bit_def testBit_def bit_mask_push)

lemma peer_put_setBitVal: "peer_put = setBitVal"
  by (simp add: fun_eq_iff peer_put_def setBitVal_def bit_mask_push)

interpretation peerbits: bitfield "\<lambda>b. 8 * length b" peer_bit peer_put
  unfolding peer_bit_testBit peer_put_setBitVal by (rule pmbits.bitfield_axioms)

definition conn_inv :: "Conn \<Rightarrow> bool" where
  "conn_inv c \<longleftrightarrow>
     (case c_bitfield c of
        None \<Rightarrow> True
      | Some bf \<Rightarrow> length bf = (c_numPieces c + 7) div 8
          \<and> (c_hasAllPiecesCache c \<longrightarrow> (\<forall>i<c_numPieces c. peer_bit bf i)))"

lemma conn_inv_new: "conn_inv (newConn n pl)"
  by (simp add: conn_inv_def newConn_def)

lemma bits_fit: "i < n \<Longrightarrow> i div 8 < (n + 7) div (8::nat)"
  using div_le_mono [of "i + 8" "n + 7" 8] by simp

lemma last_byte_index:
  assumes "n mod 8 \<noteq> 0" "i div 8 = (n + 7) div 8 - 1" "i < n"
  shows "i mod 8 < n mod (8::nat)"
proof -
  have "(n + 7) div 8 = Suc (n div 8)"
  proof -
    have "n + 7 = 8 * n div 8 * 1 + 7" by simp
    have "n mod 8 < 8" by simp
    then have "(n mod 8 + 7) div 8 = 1" using assms(1) by (intro div_nat_eqI) simp_all
    moreover have "(n + 7) div 8 = n div 8 + (n mod 8 + 7) div 8"
      by (metis div_mult_mod_eq add.assoc div_mult_self3 zero_neq_numeral)
    ultimately show ?thesis by simp
  qed
  with assms(2) have "i div 8 = n div 8" by simp
  with assms(3) show ?thesis by (metis add_less_cancel_left div_mult_mod_eq)
qed

lemma byte_ff: "bit (255 :: byte) j \<longleftrightarrow> j < 8"
proof -
  have e: "(255 :: byte) = - 1" by simp
  have "bit (- 1 :: byte) j \<longleftrightarrow> j < 8" unfolding bit_minus_1_iff by simp
  then show ?thesis unfolding e .
qed

lemma bit_spareMask: "n mod 8 \<noteq> 0 \<Longrightarrow> k < 8 \<Longrightarrow> bit (spareMask n) k \<longleftrightarrow> 8 - n mod 8 \<le> k"
  unfolding spareMask_def bit_push_bit_iff byte_ff by auto

lemma full_bitfield_bits:
  assumes "length bf = (n + 7) div 8" "i < n"
  shows "peer_bit (full_bitfield n bf) i"
proof -
  have i8: "i div 8 < length bf" using bits_fit [OF assms(2)] assms(1) by simp
  have sub: "7 - i mod 8 < 8" by simp
  show ?thesis
  proof (cases "n mod 8 \<noteq> 0 \<and> i div 8 = length bf - 1")
    case False
    then have "full_bitfield n bf ! (i div 8) = 0xff"
      using i8 by (auto simp: full_bitfield_def Let_def nth_list_update)
    then show ?thesis unfolding peer_bit_testBit testBit_bit by (simp only: byte_ff sub)
  next
    case True
    then have "full_bitfield n bf ! (i div 8) = spareMask n"
      using i8 assms(2) by (auto simp: full_bitfield_def Let_def)
    moreover have "i mod 8 < n mod 8" using True assms by (intro last_byte_index) auto
    then have "8 - n mod 8 \<le> 7 - i mod 8" by linarith
    ultimately show ?thesis using True bit_spareMask [of n, OF _ sub] unfolding peer_bit_testBit testBit_bit by metis
  qed
qed

lemma length_full_bitfield [simp]: "length (full_bitfield n bf) = length bf"
  by (simp add: full_bitfield_def Let_def)

definition conn_step :: "Conn \<Rightarrow> Conn \<Rightarrow> bool" where
  "conn_step c c' \<longleftrightarrow> c_numPieces c' = c_numPieces c \<and> (conn_inv c \<longrightarrow> conn_inv c')"

lemma conn_step_fields:
  "c_bitfield c' = c_bitfield c \<Longrightarrow> c_numPieces c' = c_numPieces c \<Longrightarrow> c_hasAllPiecesCache c' = c_hasAllPiecesCache c \<Longrightarrow>
   conn_step c c'"
  by (auto simp: conn_step_def conn_inv_def split: option.split)

lemma conn_step_trans: "conn_step a b \<Longrightarrow> conn_step b c \<Longrightarrow> conn_step a c"
  by (simp add: conn_step_def)

lemma conn_step_updateBitfield: "conn_step c (updateBitfield c i k)"
  by (auto simp: conn_step_def conn_inv_def updateBitfield_def Let_def peer_put_setBitVal split: option.splits)

lemma conn_step_markSeeder: "conn_step c (markSeeder c)"
  by (auto simp: conn_step_def conn_inv_def markSeeder_def full_bitfield_bits split: option.splits)

lemma conn_step_handleBitfield: "handleBitfield c bf = Inr c' \<Longrightarrow> conn_step c c'"
  by (auto simp: conn_step_def conn_inv_def handleBitfield_def validateBitfieldPayload_def split: if_splits option.splits)

lemma conn_step_have_none: "conn_step c (on_have_none c)"
  by (auto simp: conn_step_def conn_inv_def on_have_none_def split: option.splits)

lemma conn_step_have: "on_have c m = Inr c' \<Longrightarrow> conn_step c c'"
  by (auto simp: on_have_def conn_step_updateBitfield split: sum.splits option.splits)

lemma conn_step_range: "on_range now c m = Inr c' \<Longrightarrow> conn_step c c'"
  by (auto simp: on_range_def intro!: conn_step_fields split: sum.splits option.splits if_splits)

lemma conn_step_piece: "on_piece now c m = Inr c' \<Longrightarrow> conn_step c c'"
  by (auto simp: on_piece_def intro!: conn_step_fields split: sum.splits option.splits)

lemma conn_step_choke: "conn_step c (on_choke c)" "conn_step c (on_unchoke c)"
  by (rule conn_step_fields; simp add: on_choke_def on_unchoke_def doChokedAction_def incChokeUnchoke_def)+

definition res_step :: "Conn \<Rightarrow> 'e + Conn \<Rightarrow> bool" where
  "res_step c r \<longleftrightarrow> (\<forall>c'. r = Inr c' \<longrightarrow> conn_step c c')"

lemma res_step_if: "res_step c x \<Longrightarrow> res_step c y \<Longrightarrow> res_step c (if b then x else y)"
  by simp

lemma res_step_Inr: "conn_step c c' \<Longrightarrow> res_step c (Inr c')"
  by (simp add: res_step_def)

lemma res_step_incoming: "res_step c (handleIncoming now c m)"
  unfolding handleIncoming_def
  by (intro res_step_if res_step_Inr conn_step_choke conn_step_markSeeder conn_step_have_none)
     (simp_all add: res_step_def conn_step_handleBitfield conn_step_have conn_step_range conn_step_piece conn_step_fields)

lemma conn_step_incoming: "handleIncoming now c m = Inr c' \<Longrightarrow> conn_step c c'"
  using res_step_incoming by (simp add: res_step_def)

lemma deliver_fields [simp]:
  "c_bitfield (deliver c m) = c_bitfield c" "c_numPieces (deliver c m) = c_numPieces c"
  "c_hasAllPiecesCache (deliver c m) = c_hasAllPiecesCache c" "c_downloaded (deliver c m) = c_downloaded c"
  by (simp_all add: deliver_def)

lemma conn_step_drain: "conn_step c (fst (drain now c buf))"
proof (induction now c buf rule: drain.induct)
  case (1 now c buf)
  show ?case
  proof (cases "tryDecodeMessage buf")
    case (Inl e)
    then show ?thesis by (simp add: drain.simps [of now c buf] conn_step_def)
  next
    case (Inr r)
    obtain mo k where r: "r = (mo, k)" by (cases r)
    show ?thesis
    proof (cases mo)
      case None
      with Inr r show ?thesis
        by (simp add: drain.simps [of now c buf] incKeepAlive_def conn_step_fields)
    next
      case (Some m)
      show ?thesis
      proof (cases "handleIncoming now c m")
        case (Inl e)
        with Inr r Some show ?thesis by (simp add: drain.simps [of now c buf] conn_step_def)
      next
        case H: (Inr c1)
        have "conn_step c (deliver c1 m)"
          by (rule conn_step_trans [OF conn_step_incoming [OF H]]) (simp add: conn_step_fields)
        from conn_step_trans [OF this "1.IH" [OF Inr r [symmetric] Some H]] Inr r Some H show ?thesis
          by (simp add: drain.simps [of now c buf])
      qed
    qed
  qed
qed

lemma conn_step_reader: "conn_step c (fst (reader_run now c buf chunks))"
proof (induction now c buf chunks rule: reader_run.induct)
  case (1 now c buf)
  then show ?case by (simp add: conn_step_def)
next
  case (2 now c buf chunk chunks)
  obtain c1 buf1 e where R: "reader_round now c buf chunk = (c1, buf1, e)" by (metis prod_cases3)
  have "conn_step c (c\<lparr>c_downloaded := c_downloaded c + int (length chunk)\<rparr>)" by (rule conn_step_fields) simp_all
  from conn_step_trans [OF this conn_step_drain [of _ now "buf @ chunk"]] R have S: "conn_step c c1"
    unfolding reader_round_def by (metis fst_conv)
  show ?case
  proof (cases e)
    case None
    with R "2.IH" [OF R [symmetric] refl] S show ?thesis by (auto intro: conn_step_trans)
  next
    case (Some x)
    with R S show ?thesis by simp
  qed
qed

lemma hasAllPieces_correct:
  assumes "conn_inv c" "0 < c_numPieces c"
  shows "snd (Conn_hasAllPieces c) \<longleftrightarrow> (\<forall>i<c_numPieces c. Conn_hasPiece c (int i))"
    and "conn_inv (fst (Conn_hasAllPieces c))"
proof -
  have fit: "i div 8 < (c_numPieces c + 7) div 8" if "i < c_numPieces c" for i using bits_fit [OF that] .
  show "snd (Conn_hasAllPieces c) \<longleftrightarrow> (\<forall>i<c_numPieces c. Conn_hasPiece c (int i))"
    using assms fit by (auto simp: Conn_hasAllPieces_def Conn_hasPiece_def conn_inv_def not_le split: option.splits)
  show "conn_inv (fst (Conn_hasAllPieces c))"
    using assms by (auto simp: Conn_hasAllPieces_def conn_inv_def split: option.splits)
qed

text \<open>What a peer has. After any bytes from the peer, however they were cut into reads, a
  connection counts the peer as a seeder exactly when it has every piece recorded, although the
  answer is cached and the cache is kept by six different messages; the recorded bitfield always
  has the length that the piece count needs.\<close>

lemma peer_seeder_cache_sound:
  assumes "0 < n" and "c = fst (reader_run now (newConn n pl) [] chunks)"
  shows "(snd (Conn_hasAllPieces c) \<longleftrightarrow> (\<forall>i<n. Conn_hasPiece c (int i)))
         \<and> (\<forall>bf. c_bitfield c = Some bf \<longrightarrow> length bf = (n + 7) div 8)"
proof -
  have "conn_step (newConn n pl) c" unfolding assms(2) by (rule conn_step_reader)
  then have inv: "conn_inv c" and n: "c_numPieces c = n"
    using conn_inv_new by (auto simp: conn_step_def) (simp add: newConn_def)
  show ?thesis
    using hasAllPieces_correct(1) [OF inv] assms(1) n inv by (auto simp: conn_inv_def)
qed

theorem peer_seeder_cache_sound_witness:
  "snd (Conn_hasAllPieces (fst (reader_run 5 (newConn 3 4) [] [[0, 0, 0], [2, 5, 0xe0]])))
   \<longleftrightarrow> (\<forall>i<3. Conn_hasPiece (fst (reader_run 5 (newConn 3 4) [] [[0, 0, 0], [2, 5, 0xe0]])) (int i))"
  by (rule peer_seeder_cache_sound [OF _ refl, THEN conjunct1]) (rule zero_less_numeral)

section \<open>From bytes to messages\<close>

text \<open>The specification of the reader: the messages are handled one after the other.\<close>

fun process :: "int \<Rightarrow> Conn \<Rightarrow> Message list \<Rightarrow> peer_error + Conn" where
  "process now c [] = Inr c"
| "process now c (m # ms) =
     (case handleIncoming now c m of Inl e \<Rightarrow> Inl e | Inr c' \<Rightarrow> process now (deliver c' m) ms)"

abbreviation stream :: "Message list \<Rightarrow> byte list" where
  "stream ms \<equiv> concat (map Encode ms)"

lemma process_append:
  "process now c (ms @ ms') = (case process now c ms of Inl e \<Rightarrow> Inl e | Inr c' \<Rightarrow> process now c' ms')"
  by (induction ms arbitrary: c) (auto split: sum.split)

text \<open>The count of received bytes has no influence on the handlers.\<close>

abbreviation with_down :: "int \<Rightarrow> Conn \<Rightarrow> Conn" where
  "with_down d c \<equiv> c\<lparr>c_downloaded := d\<rparr>"

lemma down_handlers:
  "on_choke (with_down d c) = with_down d (on_choke c)"
  "on_unchoke (with_down d c) = with_down d (on_unchoke c)"
  "on_have_none (with_down d c) = with_down d (on_have_none c)"
  "markSeeder (with_down d c) = with_down d (markSeeder c)"
  "updateBitfield (with_down d c) i k = with_down d (updateBitfield c i k)"
  "handleBitfield (with_down d c) bf = map_sum id (with_down d) (handleBitfield c bf)"
  by (auto simp: on_choke_def on_unchoke_def doChokedAction_def incChokeUnchoke_def on_have_none_def
        markSeeder_def updateBitfield_def handleBitfield_def Let_def split: option.split)

lemma down_on_have: "on_have (with_down d c) m = map_sum id (with_down d) (on_have c m)"
  by (auto simp: on_have_def down_handlers split: sum.split option.split)

lemma down_on_range: "on_range now (with_down d c) m = map_sum id (with_down d) (on_range now c m)"
  by (auto simp: on_range_def conn_range_def split: sum.split option.split)

lemma down_on_piece: "on_piece now (with_down d c) m = map_sum id (with_down d) (on_piece now c m)"
  by (auto simp: on_piece_def conn_range_def split: sum.split option.split)

lemma down_incoming: "handleIncoming now (with_down d c) m = map_sum id (with_down d) (handleIncoming now c m)"
  unfolding handleIncoming_def by (simp add: down_handlers down_on_have down_on_range down_on_piece)

lemma down_deliver: "deliver (with_down d c) m = with_down d (deliver c m)"
  by (simp add: deliver_def)

lemma down_process: "process now (with_down d c) ms = map_sum id (with_down d) (process now c ms)"
  by (induction ms arbitrary: c) (auto simp: down_incoming down_deliver split: sum.split)

lemma down_kept: "handleIncoming now c m = Inr c' \<Longrightarrow> c_downloaded c' = c_downloaded c"
proof -
  assume H: "handleIncoming now c m = Inr c'"
  have "handleIncoming now (with_down (c_downloaded c) c) m = map_sum id (with_down (c_downloaded c)) (Inr c')"
    unfolding down_incoming H ..
  with H have "c' = with_down (c_downloaded c) c'" by simp
  then have "c_downloaded c' = c_downloaded (with_down (c_downloaded c) c')" by (rule arg_cong)
  then show ?thesis by simp
qed

lemma process_down: "process now c ms = Inr c' \<Longrightarrow> c_downloaded c' = c_downloaded c"
  by (induction ms arbitrary: c) (auto dest: down_kept split: sum.splits)

text \<open>Draining a prefix of the stream handles the messages that are complete in it.\<close>

lemma drain_Nil: "drain now c [] = (c, [], None)"
  by (subst drain.simps) (simp add: tryDecodeMessage_def)

lemma drain_prefix:
  assumes "list_all wire_ok ms" and "process now c ms = Inr c'" and "buf @ later = stream ms"
  shows "\<exists>ms1 ms2 c1 rest. ms = ms1 @ ms2 \<and> process now c ms1 = Inr c1 \<and> drain now c buf = (c1, rest, None)
           \<and> rest @ later = stream ms2 \<and> (later = [] \<longrightarrow> ms2 = [])"
  using assms
proof (induction ms arbitrary: c buf)
  case Nil
  then show ?case by (simp add: drain_Nil)
next
  case (Cons m ms)
  have ok: "wire_ok m" using Cons.prems by simp
  show ?case
  proof (cases "length (Encode m) \<le> length buf")
    case True
    have "take (length (Encode m)) (buf @ later) = Encode m" using Cons.prems(3) by simp
    with True have tk: "take (length (Encode m)) buf = Encode m" by (simp only: take_append) simp
    define buf' where "buf' = drop (length (Encode m)) buf"
    have buf: "buf = Encode m @ buf'" unfolding buf'_def by (subst tk [symmetric]) (rule append_take_drop_id [symmetric])
    have rest: "buf' @ later = stream ms" using Cons.prems(3) unfolding buf by simp
    obtain c1 where H: "handleIncoming now c m = Inr c1" and P: "process now (deliver c1 m) ms = Inr c'"
      using Cons.prems(2) by (auto split: sum.splits)
    have D: "drain now c buf = drain now (deliver c1 m) buf'"
      using tryDecode_Encode [OF ok, of buf'] H buf by (simp add: drain.simps [of now c])
    from Cons.IH [OF _ P rest] Cons.prems(1) obtain ms1 ms2 c2 r where
      "ms = ms1 @ ms2" "process now (deliver c1 m) ms1 = Inr c2" "drain now (deliver c1 m) buf' = (c2, r, None)"
      "r @ later = stream ms2" "later = [] \<longrightarrow> ms2 = []" by auto
    with D H show ?thesis by (intro exI [of _ "m # ms1"] exI [of _ ms2] exI [of _ c2] exI [of _ r]) simp
  next
    case False
    have "take (length buf) (buf @ later) = take (length buf) (Encode m @ stream ms)" using Cons.prems(3) by simp
    then have buf: "buf = take (length buf) (Encode m)" using False by simp
    have "tryDecodeMessage buf = Inr (None, 0)"
      using tryDecode_prefix [of m "length buf"] ok False buf by (simp add: wire_ok_def)
    then have D: "drain now c buf = (c, buf, None)" by (simp add: drain.simps [of now c])
    have "later \<noteq> []"
    proof
      assume "later = []"
      with Cons.prems(3) have "length buf = length (stream (m # ms))" by simp
      with False show False by simp
    qed
    with D Cons.prems(3) show ?thesis
      by (intro exI [of _ "[]"] exI [of _ "m # ms"] exI [of _ c] exI [of _ buf]) simp
  qed
qed

lemma reader_run_stream:
  assumes "list_all wire_ok ms" and "process now c ms = Inr c'" and "buf @ concat chunks = stream ms"
    and "chunks = [] \<longrightarrow> ms = []"
  shows "reader_run now c buf chunks = (with_down (c_downloaded c + int (length (concat chunks))) c', [], None)"
  using assms
proof (induction chunks arbitrary: c c' buf ms)
  case Nil
  then show ?case by simp
next
  case (Cons chunk chunks)
  let ?d = "c_downloaded c + int (length chunk)"
  have P: "process now (with_down ?d c) ms = Inr (with_down ?d c')" using Cons.prems(2) by (simp add: down_process)
  have pre: "(buf @ chunk) @ concat chunks = stream ms" using Cons.prems(3) by simp
  from drain_prefix [OF Cons.prems(1) P pre]
  obtain ms1 ms2 c1 rest where S: "ms = ms1 @ ms2" "process now (with_down ?d c) ms1 = Inr c1"
    "drain now (with_down ?d c) (buf @ chunk) = (c1, rest, None)" "rest @ concat chunks = stream ms2"
    "concat chunks = [] \<longrightarrow> ms2 = []" by blast
  have P2: "process now c1 ms2 = Inr (with_down ?d c')" using P S(1,2) by (simp add: process_append)
  have d1: "c_downloaded c1 = ?d" using process_down [OF S(2)] by simp
  have "chunks = [] \<longrightarrow> ms2 = []" using S(5) by auto
  from Cons.IH [OF _ P2 S(4) this] Cons.prems(1) S(1,3) d1 show ?case
    by (simp add: reader_round_def algebra_simps)
qed

lemma incoming_recvCh: "handleIncoming now c m = Inr c' \<Longrightarrow> c_recvCh c' = c_recvCh c"
proof -
  have "c_recvCh (on_choke c) = c_recvCh c" "c_recvCh (on_unchoke c) = c_recvCh c" "c_recvCh (on_have_none c) = c_recvCh c"
    "c_recvCh (markSeeder c) = c_recvCh c" "c_recvCh (updateBitfield c i k) = c_recvCh c" for i k
    by (simp_all add: on_choke_def on_unchoke_def doChokedAction_def incChokeUnchoke_def on_have_none_def
        markSeeder_def updateBitfield_def Let_def split: option.split)
  moreover have "on_have c m = Inr c' \<Longrightarrow> c_recvCh c' = c_recvCh c" "on_range now c m = Inr c' \<Longrightarrow> c_recvCh c' = c_recvCh c"
    "on_piece now c m = Inr c' \<Longrightarrow> c_recvCh c' = c_recvCh c"
    "handleBitfield c bf = Inr c' \<Longrightarrow> c_recvCh c' = c_recvCh c" for bf
    using calculation
    by (auto simp: on_have_def on_range_def on_piece_def handleBitfield_def split: sum.splits option.splits if_splits)
  ultimately show "handleIncoming now c m = Inr c' \<Longrightarrow> c_recvCh c' = c_recvCh c"
    by (auto simp: handleIncoming_def split: if_split_asm)
qed

lemma process_recvCh:
  "process now c ms = Inr c' \<Longrightarrow> length (c_recvCh c) + length ms \<le> defaultSendQueueSize \<Longrightarrow> c_recvCh c' = c_recvCh c @ ms"
proof (induction ms arbitrary: c)
  case (Cons m ms)
  then obtain c1 where H: "handleIncoming now c m = Inr c1" and P: "process now (deliver c1 m) ms = Inr c'"
    by (auto split: sum.splits)
  have "c_recvCh (deliver c1 m) = c_recvCh c @ [m]"
    using incoming_recvCh [OF H] Cons.prems(2) by (simp add: deliver_def)
  with Cons.IH [OF P] Cons.prems(2) show ?case by simp
qed simp

text \<open>(C39) Framing. When a peer sends messages that the connection accepts, the reader handles
  exactly these, in order, however the bytes are cut into reads; while the receive channel has
  room all of them are delivered and nothing is left in the buffer.\<close>

theorem peer_stream_framing:
  assumes "list_all wire_ok ms" and "process now c ms = Inr c'" and "concat chunks = stream ms"
    and "length (c_recvCh c) + length ms \<le> defaultSendQueueSize"
  shows "reader_run now c [] chunks = (c'\<lparr>c_downloaded := c_downloaded c + int (length (stream ms))\<rparr>, [], None)
         \<and> c_recvCh c' = c_recvCh c @ ms"
proof -
  have "chunks = [] \<longrightarrow> ms = []"
  proof
    assume "chunks = []"
    with assms(3) have "stream ms = []" by simp
    then show "ms = []" by (cases ms) (simp_all add: Encode_def PutUint32_def)
  qed
  from reader_run_stream [OF assms(1,2) _ this] process_recvCh [OF assms(2,4)] assms(3)
  show ?thesis by simp
qed

definition sample_message :: Message where
  "sample_message = NewMessage MsgHave (put_int 1)"

lemma sample_message_ok: "wire_ok sample_message" "process 9 (newConn 8 16) [sample_message] = Inr (deliver (newConn 8 16) sample_message)"
proof -
  show "wire_ok sample_message"
    by (simp add: wire_ok_def sample_message_def NewMessage_def validatePayloadShape_def maxBufferCapacity_eq)
  have "UnmarshalHave sample_message = Inr 1"
    by (simp add: UnmarshalHave_def sample_message_def NewMessage_def)
  then show "process 9 (newConn 8 16) [sample_message] = Inr (deliver (newConn 8 16) sample_message)"
    by (simp add: handleIncoming_def on_have_def validatePieceIndex_def updateBitfield_def newConn_def)
       (simp add: sample_message_def NewMessage_def)
qed

lemma peer_stream_framing_witness:
  "snd (snd (reader_run 9 (newConn 8 16) [] [take 2 (stream [sample_message]), drop 2 (stream [sample_message])])) = None"
proof -
  have "concat [take 2 (stream [sample_message]), drop 2 (stream [sample_message])] = stream [sample_message]" by simp
  from peer_stream_framing [OF _ sample_message_ok(2) this] sample_message_ok(1) show ?thesis
    by (simp add: newConn_def defaultSendQueueSize_def del: reader_run.simps)
qed

text \<open>A keep-alive ends the round: a complete message behind it stays in the buffer until the
  next bytes arrive.\<close>

lemma keepalive_delays:
  "drain now c (KeepAlive @ buf) = (incKeepAlive c, buf, None)"
  by (simp add: drain.simps [of now c] tryDecodeMessage_def KeepAlive_def Uint32_def)

text \<open>A message that arrives while the receive channel is full is consumed and lost.\<close>

lemma full_channel_drops:
  assumes "wire_ok m" "handleIncoming now c m = Inr c'" "length (c_recvCh c) = defaultSendQueueSize"
  shows "drain now c (Encode m) = (c', [], None) \<and> c_recvCh c' = c_recvCh c"
proof -
  have r: "c_recvCh c' = c_recvCh c" using incoming_recvCh [OF assms(2)] .
  then have d: "deliver c' m = c'" using assms(3) by (simp add: deliver_def)
  have e: "drain now c' [] = (c', [], None)" by (simp add: drain.simps [of now c'] tryDecodeMessage_def)
  show ?thesis using tryDecode_Encode [OF assms(1), of "[]"] assms(2) d e r by (simp add: drain.simps [of now c])
qed

end
