(* ===== verification/PeerExt.thy ===== *)
theory PeerExt
  imports PeerWire Torrent NetAddr
begin

text \<open>
  Extension messages of the peer protocol, \<open>src/internal/protocol/bittorrent/peer/extensions.go\<close>: the
  extended handshake, peer exchange (\<open>ut_pex\<close>) and metadata exchange (\<open>ut_metadata\<close>). Payloads are
  bencoded dictionaries; a Go string and a byte slice hold the same bytes. The lemmas are the round trips
  of each message and what a hostile peer can do to the metadata parser.
\<close>

section \<open>Extended handshake\<close>

abbreviation (input) "ExtensionUTMetadata \<equiv> (0 :: int)"
abbreviation (input) "ExtensionUTPex \<equiv> (1 :: int)"

definition MaxMetadataSize :: int where
  "MaxMetadataSize = 8 * 1024 * 1024"

text \<open>\<open>Extensions\<close> is a Go map; here it is a list of pairs with distinct names. The order in which Go
  visits a map does not matter, since the encoder sorts the keys.\<close>

record ExtendedHandshake =
  eh_ClientVersion :: string
  eh_TCPPort :: uint16
  eh_MetadataSize :: int
  eh_Extensions :: "(string \<times> byte) list"

datatype ext_error =
    ExtDecode dec_error | ExtScan scan_error | ExtViolation string | ExtMessage peer_error | ExtPanicSlice

definition ext_dict :: "(string \<times> byte) list \<Rightarrow> dict" where
  "ext_dict exts = map (\<lambda>(n, i). (n, IntVal (uint i))) (filter (\<lambda>(n, i). i \<noteq> 0) exts)"

definition handshake_dict :: "ExtendedHandshake \<Rightarrow> dict" where
  "handshake_dict hs =
     (if eh_ClientVersion hs \<noteq> [] then [(''v'', StringVal (eh_ClientVersion hs))] else [])
     @ (if 0 < eh_TCPPort hs then [(''p'', IntVal (uint (eh_TCPPort hs)))] else [])
     @ [(''m'', DictVal (ext_dict (eh_Extensions hs)))]
     @ (if 0 < eh_MetadataSize hs then [(''metadata_size'', IntVal (eh_MetadataSize hs))] else [])"

definition EncodeExtendedHandshake :: "ExtendedHandshake \<Rightarrow> byte list" where
  "EncodeExtendedHandshake hs = text_bytes (Marshal (DictVal (handshake_dict hs)))"

definition EncodeExtendedHandshakeKeys :: "string \<Rightarrow> uint16 \<Rightarrow> int \<Rightarrow> (int \<times> byte) list \<Rightarrow> byte list" where
  "EncodeExtendedHandshakeKeys clientVersion port metadataSize extensions =
     EncodeExtendedHandshake
       \<lparr>eh_ClientVersion = clientVersion, eh_TCPPort = port, eh_MetadataSize = metadataSize,
        eh_Extensions =
          concat (map (\<lambda>(key, i).
            if i = 0 then []
            else if key = ExtensionUTMetadata then [(''ut_metadata'', i)]
            else if key = ExtensionUTPex then [(''ut_pex'', i)] else []) extensions)\<rparr>"

definition int_field :: "dict \<Rightarrow> string \<Rightarrow> int \<Rightarrow> int \<Rightarrow> int" where
  "int_field d key lo hi =
     (case Get d key of Some (IntVal i) \<Rightarrow> if lo \<le> i \<and> i \<le> hi then i else 0 | _ \<Rightarrow> 0)"

definition ext_entries :: "dict \<Rightarrow> (string \<times> byte) list" where
  "ext_entries es =
     concat (map (\<lambda>(key, v). case v of IntVal i \<Rightarrow> if i \<le> 0 \<or> 255 < i then [] else [(key, of_int i)] | _ \<Rightarrow> []) es)"

definition dict_of_payload :: "nat \<Rightarrow> byte list \<Rightarrow> ext_error + dict" where
  "dict_of_payload max_alloc payload =
     (case Unmarshal max_alloc None (bytes_text payload) of
        Some (Inr (DictVal d)) \<Rightarrow> Inr d
      | Some (Inr _) \<Rightarrow> Inl (ExtViolation ''payload must be dictionary'')
      | Some (Inl e) \<Rightarrow> Inl (ExtDecode e)
      | None \<Rightarrow> Inl (ExtViolation ''unreachable: Decode always returns''))"

definition ParseExtendedHandshake :: "nat \<Rightarrow> byte list \<Rightarrow> ext_error + ExtendedHandshake" where
  "ParseExtendedHandshake max_alloc payload =
     rbind (dict_of_payload max_alloc payload) (\<lambda>d.
       Inr \<lparr>eh_ClientVersion = (case Get d ''v'' of Some (StringVal s) \<Rightarrow> s | _ \<Rightarrow> []),
            eh_TCPPort = of_int (int_field d ''p'' 1 65535),
            eh_MetadataSize = int_field d ''metadata_size'' 1 MaxMetadataSize,
            eh_Extensions = (case Get d ''m'' of Some (DictVal es) \<Rightarrow> ext_entries es | _ \<Rightarrow> [])\<rparr>)"

definition ParseExtensionHandshake :: "nat \<Rightarrow> Message \<Rightarrow> ext_error + ExtendedHandshake" where
  "ParseExtensionHandshake max_alloc msg =
     (case UnmarshalExtended msg of
        Inl e \<Rightarrow> Inl (ExtMessage e)
      | Inr (i, payload) \<Rightarrow>
          if i \<noteq> 0 then Inl (ExtViolation ''expected extended handshake id 0'')
          else ParseExtendedHandshake max_alloc payload)"

definition MarshalExtensionHandshake :: "(string \<times> byte) list \<Rightarrow> uint16 \<Rightarrow> byte list" where
  "MarshalExtensionHandshake extensions port =
     MarshalExtended 0 (EncodeExtendedHandshake
       \<lparr>eh_ClientVersion = [], eh_TCPPort = port, eh_MetadataSize = 0, eh_Extensions = extensions\<rparr>)"

section \<open>Peer exchange\<close>

record PEXPeer =
  pex_IP :: "byte list"
  pex_Port :: uint16
  pex_Seeder :: bool

record UTPexMessage =
  pex_Added :: "PEXPeer list"
  pex_Dropped :: "PEXPeer list"

definition seeder_flag :: "PEXPeer \<Rightarrow> byte" where
  "seeder_flag p = (if pex_Seeder p then 2 else 0)"

fun encodePEXPeers :: "PEXPeer list \<Rightarrow> (byte list \<times> byte list) \<times> byte list \<times> byte list" where
  "encodePEXPeers [] = (([], []), [], [])"
| "encodePEXPeers (p # ps) =
     (let ((v4, flags4), v6, flags6) = encodePEXPeers ps in
      case To4 (pex_IP p) of
        Some ip4 \<Rightarrow> ((ip4 @ PutUint16 (pex_Port p) @ v4, seeder_flag p # flags4), v6, flags6)
      | None \<Rightarrow>
          (case To16 (pex_IP p) of
             Some ip6 \<Rightarrow> ((v4, flags4), ip6 @ PutUint16 (pex_Port p) @ v6, seeder_flag p # flags6)
           | None \<Rightarrow> ((v4, flags4), v6, flags6)))"

definition pex_dict :: "PEXPeer list \<Rightarrow> PEXPeer list \<Rightarrow> dict" where
  "pex_dict added dropped =
     (let ((a4, f4), a6, f6) = encodePEXPeers added; ((d4, _), d6, _) = encodePEXPeers dropped in
      (if a4 \<noteq> [] then [(''added'', StringVal (bytes_text a4)), (''added.f'', StringVal (bytes_text f4))] else [])
      @ (if a6 \<noteq> [] then [(''added6'', StringVal (bytes_text a6)), (''added6.f'', StringVal (bytes_text f6))] else [])
      @ (if d4 \<noteq> [] then [(''dropped'', StringVal (bytes_text d4))] else [])
      @ (if d6 \<noteq> [] then [(''dropped6'', StringVal (bytes_text d6))] else []))"

definition MarshalUTPexPayload :: "PEXPeer list \<Rightarrow> PEXPeer list \<Rightarrow> byte list" where
  "MarshalUTPexPayload added dropped = text_bytes (Marshal (DictVal (pex_dict added dropped)))"

definition MarshalUTPex :: "byte \<Rightarrow> PEXPeer list \<Rightarrow> PEXPeer list \<Rightarrow> byte list" where
  "MarshalUTPex extID added dropped = MarshalExtended extID (MarshalUTPexPayload added dropped)"

function decode_peers :: "nat \<Rightarrow> byte list \<Rightarrow> byte list \<Rightarrow> PEXPeer list" where
  "decode_peers ipLen flags data =
     (if data = [] then []
      else \<lparr>pex_IP = take ipLen data, pex_Port = Uint16 (drop ipLen data),
            pex_Seeder = (flags \<noteq> [] \<and> hd flags AND 2 \<noteq> 0)\<rparr>
           # decode_peers ipLen (tl flags) (drop (ipLen + 2) data))"
  by pat_completeness auto
termination by (relation "measure (\<lambda>(ipLen, flags, data). length data)") auto

declare decode_peers.simps [simp del]

definition decodePEXPeers :: "byte list \<Rightarrow> byte list \<Rightarrow> bool \<Rightarrow> PEXPeer list" where
  "decodePEXPeers data flags ipv6 =
     (let ipLen = (if ipv6 then 16 else 4)
      in if data = [] \<or> length data mod (ipLen + 2) \<noteq> 0 then [] else decode_peers ipLen flags data)"

definition decodePEXCompact :: "dict \<Rightarrow> string \<Rightarrow> string \<Rightarrow> bool \<Rightarrow> PEXPeer list" where
  "decodePEXCompact d peerKey flagKey ipv6 =
     (case Get d peerKey of
        Some (StringVal s) \<Rightarrow>
          decodePEXPeers (text_bytes s)
            (if flagKey = [] then [] else case Get d flagKey of Some (StringVal f) \<Rightarrow> text_bytes f | _ \<Rightarrow> []) ipv6
      | _ \<Rightarrow> [])"

definition ParseUTPex :: "nat \<Rightarrow> Message \<Rightarrow> ext_error + byte \<times> UTPexMessage" where
  "ParseUTPex max_alloc msg =
     (case UnmarshalExtended msg of
        Inl e \<Rightarrow> Inl (ExtMessage e)
      | Inr (extID, payload) \<Rightarrow>
          rbind (dict_of_payload max_alloc payload) (\<lambda>d.
            Inr (extID,
              \<lparr>pex_Added = decodePEXCompact d ''added'' ''added.f'' False @ decodePEXCompact d ''added6'' ''added6.f'' True,
               pex_Dropped = decodePEXCompact d ''dropped'' [] False @ decodePEXCompact d ''dropped6'' [] True\<rparr>)))"

section \<open>Metadata exchange\<close>

record UTMetadataMessage =
  um_MessageType :: int
  um_Piece :: int
  um_TotalSize :: int
  um_Data :: "byte list"

abbreviation (input) "UTMetadataRequest \<equiv> (0 :: int)"
abbreviation (input) "UTMetadataData \<equiv> (1 :: int)"
abbreviation (input) "UTMetadataReject \<equiv> (2 :: int)"

definition EncodeUTMetadataRequest :: "int \<Rightarrow> byte list" where
  "EncodeUTMetadataRequest piece =
     text_bytes (Marshal (DictVal [(''msg_type'', IntVal UTMetadataRequest), (''piece'', IntVal piece)]))"

definition EncodeUTMetadataData :: "int \<Rightarrow> int \<Rightarrow> byte list \<Rightarrow> byte list" where
  "EncodeUTMetadataData piece totalSize data =
     text_bytes (Marshal (DictVal [(''msg_type'', IntVal UTMetadataData), (''piece'', IntVal piece),
       (''total_size'', IntVal totalSize)])) @ data"

definition EncodeUTMetadataReject :: "int \<Rightarrow> byte list" where
  "EncodeUTMetadataReject piece =
     text_bytes (Marshal (DictVal [(''msg_type'', IntVal UTMetadataReject), (''piece'', IntVal piece)]))"

text \<open>The package has its own copy of the scanner of package torrent, line for line the same.\<close>

definition peer_scanBencodeValue :: "byte list \<Rightarrow> nat \<Rightarrow> scan_error + int" where
  "peer_scanBencodeValue data pos = Torrent.scanBencodeValue (bytes_text data) pos"

definition metadata_fields :: "dict \<Rightarrow> byte list \<Rightarrow> ext_error + UTMetadataMessage" where
  "metadata_fields d rest =
     (case Get d ''msg_type'' of
        None \<Rightarrow> Inl (ExtViolation ''msg_type missing'')
      | Some (IntVal mt) \<Rightarrow>
          (case Get d ''piece'' of
             None \<Rightarrow> Inl (ExtViolation ''piece missing'')
           | Some (IntVal p) \<Rightarrow>
               if p < 0 then Inl (ExtViolation ''piece invalid'')
               else Inr \<lparr>um_MessageType = mt, um_Piece = p,
                 um_TotalSize = (case Get d ''total_size'' of Some (IntVal t) \<Rightarrow> if 0 \<le> t then t else 0 | _ \<Rightarrow> 0),
                 um_Data = (if mt = UTMetadataData then rest else [])\<rparr>
           | Some _ \<Rightarrow> Inl (ExtViolation ''piece invalid''))
      | Some _ \<Rightarrow> Inl (ExtViolation ''msg_type invalid''))"

text \<open>A wrapped end is negative, and \<open>payload[:dictEnd]\<close> panics.\<close>

definition ParseUTMetadata :: "nat \<Rightarrow> byte list \<Rightarrow> ext_error + UTMetadataMessage" where
  "ParseUTMetadata max_alloc payload =
     (case peer_scanBencodeValue payload 0 of
        Inl e \<Rightarrow> Inl (ExtScan e)
      | Inr dictEnd \<Rightarrow>
          if dictEnd < 0 then Inl ExtPanicSlice
          else rbind (dict_of_payload max_alloc (take (nat dictEnd) payload)) (\<lambda>d.
                 metadata_fields d (drop (nat dictEnd) payload)))"

section \<open>Round trips\<close>

lemma Get_canon:
  assumes "distinct (map fst es)"
  shows "Get (sort_key fst (map (map_prod id canon) es)) key = map_option canon (map_of es key)"
proof -
  have "map fst (map (map_prod id canon) es) = map fst es" by (simp add: o_def)
  then have "map_of (sort_key fst (map (map_prod id canon) es)) = map_of (map (map_prod id canon) es)"
    using assms by (intro map_of_sort_key) simp
  also have "\<dots> = map_option canon \<circ> map_of es" by (simp add: map_prod_def id_def map_of_map)
  finally show ?thesis by (simp add: Get_def)
qed

lemma dict_of_encoded:
  assumes "value_ok m (DictVal es) maxDepth"
  shows "dict_of_payload m (text_bytes (Marshal (DictVal es)) @ rest) = Inr (sort_key fst (map (map_prod id canon) es))"
proof -
  have "Decode m (Marshal (DictVal es) @ bytes_text rest) = Some (Inr (canon (DictVal es), bytes_text rest))"
    using decode_appendValue [OF assms, of 0 "Suc maxDepth" "bytes_text rest"]
    by (simp add: Decode_def Marshal_def del: appendValue.simps canon.simps)
  then show ?thesis by (simp add: dict_of_payload_def Unmarshal_def)
qed

text \<open>The extended handshake. Extensions come back sorted by name, those with number zero are dropped.\<close>

definition handshake_ok :: "nat \<Rightarrow> ExtendedHandshake \<Rightarrow> bool" where
  "handshake_ok m hs \<longleftrightarrow>
     string_ok m (eh_ClientVersion hs) \<and> 13 \<le> m \<and> 0 \<le> eh_MetadataSize hs \<and> eh_MetadataSize hs \<le> MaxMetadataSize
     \<and> distinct (map fst (eh_Extensions hs)) \<and> (\<forall>(n, i)\<in>set (eh_Extensions hs). string_ok m n)"

lemma uint_byte_bounds: "0 \<le> uint (b :: byte)" "uint b < 256"
  using uint_lt2p [of b] by simp_all

lemma ext_dict_distinct: "distinct (map fst exts) \<Longrightarrow> distinct (map fst (ext_dict exts))"
  by (induction exts) (force simp: ext_dict_def)+

lemma handshake_value_ok: "handshake_ok m hs \<Longrightarrow> value_ok m (DictVal (handshake_dict hs)) maxDepth"
proof -
  assume ok: "handshake_ok m hs"
  have rng: "in_int64 x" if "0 \<le> x" "x < 65536" for x :: int using that by simp
  have "in_int64 (uint i)" for i :: byte using uint_byte_bounds [of i] by (intro rng) linarith+
  then have ext: "value_ok m (DictVal (ext_dict (eh_Extensions hs))) (maxDepth - 1)"
    using ok ext_dict_distinct [of "eh_Extensions hs"] by (auto simp: handshake_ok_def ext_dict_def maxDepth_def)
  have "in_int64 (uint (eh_TCPPort hs))" using uint_lt2p [of "eh_TCPPort hs"] by (intro rng) simp_all
  with ok ext show ?thesis
    by (auto simp: handshake_ok_def handshake_dict_def string_ok_def MaxMetadataSize_def maxDepth_def)
qed

lemma ext_entries_dict:
  "ext_entries (sort_key fst (map (map_prod id canon) (ext_dict exts))) = sort_key fst (filter (\<lambda>(n, i). i \<noteq> 0) exts)"
proof -
  let ?exts = "filter (\<lambda>(n, i). i \<noteq> 0) exts"
  have "map (map_prod id canon) (ext_dict exts) = map (map_prod id (\<lambda>i. IntVal (uint i))) ?exts"
    by (auto simp: ext_dict_def)
  then have "sort_key fst (map (map_prod id canon) (ext_dict exts))
      = map (map_prod id (\<lambda>i. IntVal (uint i))) (sort_key fst ?exts)" by (simp only: sort_key_map_snd)
  moreover have "ext_entries (map (map_prod id (\<lambda>i. IntVal (uint i))) xs) = xs" if "\<forall>(n, i)\<in>set xs. i \<noteq> 0" for xs :: "(string \<times> byte) list"
    using that
  proof (induction xs)
    case (Cons x xs)
    obtain n i where x: "x = (n, i)" by (cases x)
    have "uint i \<noteq> 0" using Cons.prems x by (simp add: uint_0_iff)
    with Cons uint_byte_bounds [of i] show ?case by (simp add: ext_entries_def x)
  qed (simp add: ext_entries_def)
  ultimately show ?thesis by simp
qed

lemma extended_handshake_roundtrip:
  assumes "handshake_ok m hs"
  shows "ParseExtendedHandshake m (EncodeExtendedHandshake hs @ rest)
       = Inr (hs\<lparr>eh_Extensions := sort_key fst (filter (\<lambda>(n, i). i \<noteq> 0) (eh_Extensions hs))\<rparr>)"
proof -
  let ?d = "sort_key fst (map (map_prod id canon) (handshake_dict hs))"
  have dist: "distinct (map fst (handshake_dict hs))" by (simp add: handshake_dict_def)
  note G = Get_canon [OF dist]
  have v: "Get ?d ''v'' = (if eh_ClientVersion hs \<noteq> [] then Some (StringVal (eh_ClientVersion hs)) else None)"
    and p: "Get ?d ''p'' = (if 0 < eh_TCPPort hs then Some (IntVal (uint (eh_TCPPort hs))) else None)"
    and mm: "Get ?d ''m'' = Some (DictVal (sort_key fst (map (map_prod id canon) (ext_dict (eh_Extensions hs)))))"
    and ms: "Get ?d ''metadata_size'' = (if 0 < eh_MetadataSize hs then Some (IntVal (eh_MetadataSize hs)) else None)"
    unfolding G by (auto simp: handshake_dict_def)
  have "of_int (int_field ?d ''p'' 1 65535) = eh_TCPPort hs"
  proof (cases "eh_TCPPort hs = 0")
    case False
    then have "uint (eh_TCPPort hs) \<noteq> 0" by (simp add: uint_0_iff)
    then have "1 \<le> uint (eh_TCPPort hs)" using uint_ge_0 [of "eh_TCPPort hs"] by linarith
    moreover have "uint (eh_TCPPort hs) < 65536" using uint_lt2p [of "eh_TCPPort hs"] by simp
    ultimately show ?thesis using False by (simp add: int_field_def p word_gt_0)
  qed (simp add: int_field_def p)
  moreover have "int_field ?d ''metadata_size'' 1 MaxMetadataSize = eh_MetadataSize hs"
    using assms by (auto simp: int_field_def ms handshake_ok_def)
  moreover have "(case Get ?d ''v'' of Some (StringVal s) \<Rightarrow> s | _ \<Rightarrow> []) = eh_ClientVersion hs" by (simp add: v)
  ultimately show ?thesis
    by (simp add: ParseExtendedHandshake_def EncodeExtendedHandshake_def dict_of_encoded [OF handshake_value_ok [OF assms]]
        mm ext_entries_dict)
qed

text \<open>Peer exchange.\<close>

definition is_v4 :: "PEXPeer \<Rightarrow> bool" where
  "is_v4 p \<longleftrightarrow> length (pex_IP p) = 4"

definition pex_ok :: "PEXPeer \<Rightarrow> bool" where
  "pex_ok p \<longleftrightarrow> is_v4 p \<or> length (pex_IP p) = 16 \<and> take 12 (pex_IP p) \<noteq> replicate 10 0 @ [0xff, 0xff]"

definition pex_enc :: "PEXPeer \<Rightarrow> byte list" where
  "pex_enc p = pex_IP p @ PutUint16 (pex_Port p)"

lemma encodePEXPeers_split:
  "\<forall>p\<in>set ps. pex_ok p \<Longrightarrow>
    encodePEXPeers ps = ((concat (map pex_enc (filter is_v4 ps)), map seeder_flag (filter is_v4 ps)),
      concat (map pex_enc (filter (\<lambda>p. \<not> is_v4 p) ps)), map seeder_flag (filter (\<lambda>p. \<not> is_v4 p) ps))"
  by (induction ps) (auto simp: pex_ok_def pex_enc_def is_v4_def To4_def To16_def split: prod.splits)

lemma pex_enc_nonempty [simp]: "pex_enc p \<noteq> []"
  using length_greater_0_conv [of "pex_enc p"] by (simp add: pex_enc_def)

lemma decode_peers_enc:
  "\<forall>p\<in>set ps. length (pex_IP p) = ipLen \<Longrightarrow>
    decode_peers ipLen (map seeder_flag ps) (concat (map pex_enc ps)) = ps \<and>
    decode_peers ipLen [] (concat (map pex_enc ps)) = map (\<lambda>p. p\<lparr>pex_Seeder := False\<rparr>) ps"
proof (induction ps)
  case Nil
  then show ?case by (simp add: decode_peers.simps)
next
  case (Cons p ps)
  let ?rest = "concat (map pex_enc ps)"
  have "pex_enc p @ ?rest \<noteq> []" by simp
  moreover have "take ipLen (pex_enc p @ ?rest) = pex_IP p" "Uint16 (drop ipLen (pex_enc p @ ?rest)) = pex_Port p"
    "drop (ipLen + 2) (pex_enc p @ ?rest) = ?rest" using Cons.prems by (simp_all add: pex_enc_def)
  moreover have "seeder_flag p AND 2 \<noteq> 0 \<longleftrightarrow> pex_Seeder p" by (simp add: seeder_flag_def)
  moreover note step = decode_peers.simps [of ipLen "map seeder_flag (p # ps)" "pex_enc p @ ?rest"]
    decode_peers.simps [of ipLen "[]" "pex_enc p @ ?rest"]
  ultimately show ?case using Cons by (simp add: step)
qed

lemma length_concat_enc:
  "\<forall>p\<in>set ps. length (pex_IP p) = ipLen \<Longrightarrow> length (concat (map pex_enc ps)) = length ps * (ipLen + 2)"
  by (induction ps) (auto simp: pex_enc_def)

lemma decodePEXPeers_enc:
  assumes "\<forall>p\<in>set ps. length (pex_IP p) = (if six then 16 else 4)"
  shows "decodePEXPeers (concat (map pex_enc ps)) (map seeder_flag ps) six = ps"
    "decodePEXPeers (concat (map pex_enc ps)) [] six = map (\<lambda>p. p\<lparr>pex_Seeder := False\<rparr>) ps"
proof -
  define ipLen :: nat where "ipLen = (if six then 16 else 4)"
  have L: "length (concat (map pex_enc ps)) mod (ipLen + 2) = 0" using length_concat_enc [OF assms] by (simp add: ipLen_def)
  have e: "concat (map pex_enc ps) = [] \<longleftrightarrow> ps = []"
    using length_concat_enc [OF assms] by (metis add_is_0 length_0_conv mult_is_0 zero_neq_numeral)
  note d = decode_peers_enc [OF assms]
  show "decodePEXPeers (concat (map pex_enc ps)) (map seeder_flag ps) six = ps"
    "decodePEXPeers (concat (map pex_enc ps)) [] six = map (\<lambda>p. p\<lparr>pex_Seeder := False\<rparr>) ps"
    unfolding decodePEXPeers_def Let_def ipLen_def [symmetric] e using L d by (auto simp: ipLen_def)
qed

definition v4_first :: "PEXPeer list \<Rightarrow> PEXPeer list" where
  "v4_first ps = filter is_v4 ps @ filter (\<lambda>p. \<not> is_v4 p) ps"

lemma concat_enc_Nil: "concat (map pex_enc ps) = [] \<longleftrightarrow> ps = []"
  by (cases ps) auto

lemma pex_message_roundtrip:
  assumes ok: "\<forall>p\<in>set added \<union> set dropped. pex_ok p"
    and m: "18 * length added \<le> m" "18 * length dropped \<le> m" "8 \<le> m" "m < 2 ^ 63"
  shows "ParseUTPex m (NewMessage MsgExtended (extID # MarshalUTPexPayload added dropped))
       = Inr (extID, \<lparr>pex_Added = v4_first added, pex_Dropped = map (\<lambda>p. p\<lparr>pex_Seeder := False\<rparr>) (v4_first dropped)\<rparr>)"
proof -
  let ?es = "pex_dict added dropped"
  let ?d = "sort_key fst (map (map_prod id canon) ?es)"
  define A4 A6 D4 D6 where "A4 = filter is_v4 added" and "A6 = filter (\<lambda>p. \<not> is_v4 p) added"
    and "D4 = filter is_v4 dropped" and "D6 = filter (\<lambda>p. \<not> is_v4 p) dropped"
  have "\<forall>p\<in>set added. pex_ok p" "\<forall>p\<in>set dropped. pex_ok p" using ok by auto
  note enc = this [THEN encodePEXPeers_split, folded A4_def A6_def D4_def D6_def]
  have es: "?es =
      (if A4 \<noteq> [] then [(''added'', StringVal (bytes_text (concat (map pex_enc A4)))), (''added.f'', StringVal (bytes_text (map seeder_flag A4)))] else [])
      @ (if A6 \<noteq> [] then [(''added6'', StringVal (bytes_text (concat (map pex_enc A6)))), (''added6.f'', StringVal (bytes_text (map seeder_flag A6)))] else [])
      @ (if D4 \<noteq> [] then [(''dropped'', StringVal (bytes_text (concat (map pex_enc D4))))] else [])
      @ (if D6 \<noteq> [] then [(''dropped6'', StringVal (bytes_text (concat (map pex_enc D6))))] else [])"
    by (simp only: pex_dict_def Let_def enc prod.case concat_enc_Nil)
  have dist: "distinct (map fst ?es)"
    unfolding es by (cases "A4 = []"; cases "A6 = []"; cases "D4 = []"; cases "D6 = []"; simp)
  have len: "\<forall>p\<in>set A4. length (pex_IP p) = (if False then 16 else 4)" "\<forall>p\<in>set A6. length (pex_IP p) = (if True then 16 else 4)"
    "\<forall>p\<in>set D4. length (pex_IP p) = (if False then 16 else 4)" "\<forall>p\<in>set D6. length (pex_IP p) = (if True then 16 else 4)"
    using ok by (auto simp: pex_ok_def is_v4_def A4_def A6_def D4_def D6_def)
  have cnt: "length A4 \<le> length added" "length A6 \<le> length added" "length D4 \<le> length dropped" "length D6 \<le> length dropped"
    by (simp_all add: A4_def A6_def D4_def D6_def)
  have fits: "length s \<le> m \<Longrightarrow> string_ok m s" for s using m(4) by (simp add: string_ok_def)
  have so: "string_ok m (bytes_text (concat (map pex_enc A4)))" "string_ok m (bytes_text (concat (map pex_enc A6)))"
    "string_ok m (bytes_text (concat (map pex_enc D4)))" "string_ok m (bytes_text (concat (map pex_enc D6)))"
    "string_ok m (bytes_text (map seeder_flag A4))" "string_ok m (bytes_text (map seeder_flag A6))"
    by (rule fits, use m cnt len [THEN length_concat_enc] in simp)+
  have keys: "string_ok m ''added''" "string_ok m ''added.f''" "string_ok m ''added6''" "string_ok m ''added6.f''"
    "string_ok m ''dropped''" "string_ok m ''dropped6''" using m by (simp_all add: string_ok_def)
  have "\<forall>e\<in>set ?es. string_ok m (fst e) \<and> (\<exists>s. snd e = StringVal s \<and> string_ok m s)"
    unfolding es using so keys by (cases "A4 = []"; cases "A6 = []"; cases "D4 = []"; cases "D6 = []"; simp)
  then have "value_ok m (DictVal ?es) maxDepth"
    using dist by (auto simp: maxDepth_def)
  from dict_of_encoded [OF this, of "[]"] have D: "dict_of_payload m (MarshalUTPexPayload added dropped) = Inr ?d"
    by (simp add: MarshalUTPexPayload_def)
  note G = Get_canon [OF dist]
  have "decodePEXCompact ?d ''added'' ''added.f'' False = A4" "decodePEXCompact ?d ''added6'' ''added6.f'' True = A6"
    unfolding decodePEXCompact_def G using decodePEXPeers_enc(1) [OF len(1)] decodePEXPeers_enc(1) [OF len(2)]
    by (simp_all add: es)
  moreover have "decodePEXCompact ?d ''dropped'' [] False = map (\<lambda>p. p\<lparr>pex_Seeder := False\<rparr>) D4"
    "decodePEXCompact ?d ''dropped6'' [] True = map (\<lambda>p. p\<lparr>pex_Seeder := False\<rparr>) D6"
    unfolding decodePEXCompact_def G using decodePEXPeers_enc(2) [OF len(3)] decodePEXPeers_enc(2) [OF len(4)]
    by (simp_all add: es)
  ultimately show ?thesis using D
    by (simp add: ParseUTPex_def UnmarshalExtended_def NewMessage_def v4_first_def A4_def A6_def D4_def D6_def)
qed

text \<open>Metadata exchange: the data follow the dictionary directly.\<close>

lemma metadata_data_roundtrip:
  assumes "0 \<le> piece" "piece < 2 ^ 63" "0 \<le> totalSize" "totalSize < 2 ^ 63" "10 \<le> m"
    and len: "length (EncodeUTMetadataData piece totalSize data) < 2 ^ 63"
  shows "ParseUTMetadata m (EncodeUTMetadataData piece totalSize data)
       = Inr \<lparr>um_MessageType = UTMetadataData, um_Piece = piece, um_TotalSize = totalSize, um_Data = data\<rparr>"
proof -
  define es where "es = [(''msg_type'', IntVal UTMetadataData), (''piece'', IntVal piece), (''total_size'', IntVal totalSize)]"
  define w where "w = Marshal (DictVal es)"
  have E: "EncodeUTMetadataData piece totalSize data = text_bytes w @ data" by (simp add: EncodeUTMetadataData_def w_def es_def)
  have ok: "value_ok m (DictVal es) maxDepth" using assms by (simp add: es_def string_ok_def maxDepth_def)
  then have "value_text w" unfolding w_def Marshal_def by (intro value_text_appendValue) auto
  then have "Torrent.scanBencodeValue (w @ bytes_text data) 0 = Inr (int (length w))"
    using len by (auto simp: value_text_def E dest: spec [of _ "[]"])
  then have scan: "peer_scanBencodeValue (text_bytes w @ data) 0 = Inr (int (length w))" by (simp add: peer_scanBencodeValue_def)
  have "sorted (map fst es)" by (simp add: es_def)
  then have "sort_key fst (map (map_prod id canon) es) = es"
    by (intro sort_key_id_if_sorted [THEN trans]) (auto simp: es_def)
  then have "dict_of_payload m (text_bytes w) = Inr es" using dict_of_encoded [OF ok, of "[]"] by (simp add: w_def)
  then show ?thesis
    by (simp add: E ParseUTMetadata_def scan) (use assms(1,3) in \<open>simp add: metadata_fields_def Get_def es_def\<close>)
qed

lemma metadata_control_roundtrip:
  assumes "0 \<le> piece" "piece < 2 ^ 63" "8 \<le> m" "mt = UTMetadataRequest \<or> mt = UTMetadataReject"
    and w: "w = Marshal (DictVal [(''msg_type'', IntVal mt), (''piece'', IntVal piece)])" and len: "length w < 2 ^ 63"
  shows "ParseUTMetadata m (text_bytes w) = Inr \<lparr>um_MessageType = mt, um_Piece = piece, um_TotalSize = 0, um_Data = []\<rparr>"
proof -
  define es where "es = [(''msg_type'', IntVal mt), (''piece'', IntVal piece)]"
  have ok: "value_ok m (DictVal es) maxDepth" using assms by (auto simp: es_def string_ok_def maxDepth_def)
  then have "value_text w" unfolding w Marshal_def es_def [symmetric] by (intro value_text_appendValue) auto
  then have scan: "peer_scanBencodeValue (text_bytes w) 0 = Inr (int (length w))"
    using len by (auto simp: value_text_def peer_scanBencodeValue_def dest!: spec [of _ "[]"])
  have "sort_key fst (map (map_prod id canon) es) = es"
    by (intro sort_key_id_if_sorted [THEN trans]) (auto simp: es_def)
  then have "dict_of_payload m (text_bytes w) = Inr es" using dict_of_encoded [OF ok, of "[]"] by (simp add: w es_def)
  then show ?thesis
    by (simp add: ParseUTMetadata_def scan) (use assms in \<open>auto simp: metadata_fields_def Get_def es_def\<close>)
qed

text \<open>Extension messages are read back. An extended handshake, a peer exchange message and a
  metadata message that one side encodes are parsed by the other side to the same contents: extensions
  sorted by name, peers with IPv4 addresses before those with IPv6, metadata bytes unchanged after the
  dictionary.\<close>

lemma extension_messages_roundtrip:
  assumes hs: "handshake_ok m hs"
    and pex: "\<forall>p\<in>set added \<union> set dropped. pex_ok p" "18 * length added \<le> m" "18 * length dropped \<le> m" "m < 2 ^ 63"
    and md: "0 \<le> piece" "piece < 2 ^ 63" "0 \<le> totalSize" "totalSize < 2 ^ 63"
      "length (EncodeUTMetadataData piece totalSize data) < 2 ^ 63"
  shows "ParseExtendedHandshake m (EncodeExtendedHandshake hs)
           = Inr (hs\<lparr>eh_Extensions := sort_key fst (filter (\<lambda>(n, i). i \<noteq> 0) (eh_Extensions hs))\<rparr>)
    \<and> ParseUTPex m (NewMessage MsgExtended (extID # MarshalUTPexPayload added dropped))
           = Inr (extID, \<lparr>pex_Added = v4_first added, pex_Dropped = map (\<lambda>p. p\<lparr>pex_Seeder := False\<rparr>) (v4_first dropped)\<rparr>)
    \<and> ParseUTMetadata m (EncodeUTMetadataData piece totalSize data)
           = Inr \<lparr>um_MessageType = UTMetadataData, um_Piece = piece, um_TotalSize = totalSize, um_Data = data\<rparr>"
proof -
  have "13 \<le> m" using hs by (simp add: handshake_ok_def)
  then show ?thesis
    using extended_handshake_roundtrip [OF hs, of "[]"] pex_message_roundtrip [OF pex(1-3) _ pex(4), of extID]
      metadata_data_roundtrip [OF md(1-4) _ md(5), of m] by simp
qed

lemma extension_messages_roundtrip_witness:
  "let hs = \<lparr>eh_ClientVersion = ''aria2'', eh_TCPPort = 6881, eh_MetadataSize = 100,
             eh_Extensions = [(''ut_pex'', 1), (''ut_metadata'', 2), (''none'', 0)]\<rparr>;
       a = \<lparr>pex_IP = [1, 2, 3, 4], pex_Port = 80, pex_Seeder = True\<rparr>;
       b = \<lparr>pex_IP = replicate 16 1, pex_Port = 81, pex_Seeder = False\<rparr>
   in ParseExtendedHandshake 100 (EncodeExtendedHandshake hs) = Inr (hs\<lparr>eh_Extensions := [(''ut_metadata'', 2), (''ut_pex'', 1)]\<rparr>)
    \<and> ParseUTPex 100 (NewMessage MsgExtended (1 # MarshalUTPexPayload [b, a] [a]))
        = Inr (1, \<lparr>pex_Added = [a, b], pex_Dropped = [a\<lparr>pex_Seeder := False\<rparr>]\<rparr>)
    \<and> ParseUTMetadata 100 (EncodeUTMetadataData 0 3 [7, 8, 9])
        = Inr \<lparr>um_MessageType = 1, um_Piece = 0, um_TotalSize = 3, um_Data = [7, 8, 9]\<rparr>"
proof -
  define hs where "hs = \<lparr>eh_ClientVersion = ''aria2'', eh_TCPPort = 6881, eh_MetadataSize = 100,
             eh_Extensions = [(''ut_pex'', 1), (''ut_metadata'', 2), (''none'', 0)]\<rparr>"
  define a where "a = \<lparr>pex_IP = [1, 2, 3, 4], pex_Port = 80, pex_Seeder = True\<rparr>"
  define b where "b = \<lparr>pex_IP = replicate 16 1, pex_Port = 81, pex_Seeder = False\<rparr>"
  have 1: "handshake_ok 100 hs" by (simp add: handshake_ok_def hs_def string_ok_def MaxMetadataSize_def)
  have 2: "\<forall>p\<in>set [b, a] \<union> set [a]. pex_ok p" by (simp add: a_def b_def pex_ok_def is_v4_def numeral_nat)
  have "length (EncodeUTMetadataData 0 3 [7, 8, 9]) < 100" by code_simp
  then have 3: "length (EncodeUTMetadataData 0 3 [7, 8, 9]) < 2 ^ 63" by simp
  have 4: "sort_key fst (filter (\<lambda>(n, i). i \<noteq> 0) (eh_Extensions hs)) = [(''ut_metadata'', 2), (''ut_pex'', 1)]"
    unfolding hs_def by code_simp
  have 5: "v4_first [b, a] = [a, b]" "v4_first [a] = [a]" by (simp_all add: v4_first_def is_v4_def a_def b_def)
  from extension_messages_roundtrip [OF 1 2, of 0 3 "[7, 8, 9]" 1] 3 show ?thesis
    unfolding hs_def [symmetric] a_def [symmetric] b_def [symmetric] Let_def 4 5 by simp
qed

text \<open>The scanner runs on the bytes of a message before they are decoded. A peer that announces a
  string of nearly \<open>2^63\<close> bytes makes the parser panic, inside a dictionary or on its own.\<close>

lemma hostile_metadata_panics:
  "ParseUTMetadata m (text_bytes ''d9223372036854775807:x'') = Inl (ExtScan PanicIndex)"
  "ParseUTMetadata m (text_bytes ''9223372036854775807:'') = Inl ExtPanicSlice"
proof -
  have "Torrent.scanBencodeValue ''d9223372036854775807:x'' 0 = Inl PanicIndex" by code_simp
  then show "ParseUTMetadata m (text_bytes ''d9223372036854775807:x'') = Inl (ExtScan PanicIndex)"
    by (simp add: ParseUTMetadata_def peer_scanBencodeValue_def)
  have "case Torrent.scanBencodeValue ''9223372036854775807:'' 0 of Inr e \<Rightarrow> e < 0 | _ \<Rightarrow> False" by code_simp
  then show "ParseUTMetadata m (text_bytes ''9223372036854775807:'') = Inl ExtPanicSlice"
    by (simp add: ParseUTMetadata_def peer_scanBencodeValue_def split: sum.splits)
qed

end
