(* ===== verification/BtSwarm.thy ===== *)
theory BtSwarm
  imports Adaptor PeerExt "HOL-Library.Multiset"
begin

text \<open>
  The swarm of a BitTorrent download, \<open>btSwarm\<close> in \<open>src/internal/engine/bt_download.go\<close>: its peers,
  piece choice, requests, received blocks, verification, uploads, choking, peer exchange and web seeds. The
  adaptor (theory Adaptor), the connections (theory PeerWire) and the control information (theory
  Control) are the ones of the other components. The properties: a piece becomes held only with a
  verified hash, the piece chosen is a rarest one, and choking leaves at most four peers unchoked.
\<close>

section \<open>State\<close>

text \<open>\<open>peerState\<close>. A nil bitfield is \<open>None\<close>. Byte counters stay below \<open>2 ^ 63\<close>.\<close>

record peerState =
  ps_conn :: Conn
  ps_addr :: string
  ps_bitfield :: "byte list option"
  ps_pieces :: nat
  ps_dlBytes :: int
  ps_lastDLSnapshot :: int
  ps_ulBytes :: int
  ps_lastULSnapshot :: int
  ps_outstanding :: int
  ps_connectedAt :: int
  ps_pexID :: byte
  ps_amChoking :: bool
  ps_peerChoking :: bool

text \<open>Peers are pointers: \<open>sw_obj\<close> is the heap of peer states and \<open>sw_peers\<close> the slice of references. A channel is
  its contents and its capacity, \<open>None\<close> if it is nil; \<open>sw_dhtObserver\<close> collects the calls of the observer. The fields
  from \<open>sw_ctl\<close> on are those of the request group that the swarm changes.\<close>

record 's btSwarm =
  sw_obj :: "nat \<Rightarrow> peerState"
  sw_peers :: "nat list"
  sw_ad :: 's
  sw_numPieces :: nat
  sw_pieceLen :: int
  sw_pieceHashes :: "byte list"
  sw_totSize :: int
  sw_discoveryCh :: "(string list \<times> nat) option"
  sw_dropCh :: "(string list \<times> nat) option"
  sw_dhtObserver :: "(byte list \<times> uint16) list option"
  sw_pexEnabled :: bool
  sw_recentDropped :: "(PEXPeer \<times> int) list"
  sw_ctl :: control
  sw_bytesDownloaded :: int
  sw_bytesUploaded :: int
  sw_sessionUploaded :: int
  sw_numConnections :: int
  sw_numSeeders :: int

text \<open>Address texts: \<open>net_ip\<close> is \<open>net.SplitHostPort\<close>, the removal of brackets and \<open>net.ParseIP\<close> on the host,
  \<open>net_port\<close> is \<open>peerPort\<close> and \<open>net_join\<close> is \<open>net.JoinHostPort\<close> of a printed address and port.\<close>

record Net =
  net_ip :: "string \<Rightarrow> byte list option"
  net_port :: "string \<Rightarrow> uint16"
  net_join :: "byte list \<Rightarrow> uint16 \<Rightarrow> string"

definition btBlockSize :: int where "btBlockSize = 16 * 1024"
definition btMaxPendingRequests :: int where "btMaxPendingRequests = 4"
definition btUnchokeSlots :: nat where "btUnchokeSlots = 3"
definition btEndgameThreshold :: nat where "btEndgameThreshold = 10"
definition btPEXInterval :: int where "btPEXInterval = 60 * 1000000000"

section \<open>One peer\<close>

definition hasPiece :: "peerState \<Rightarrow> int \<Rightarrow> bool" where
  "hasPiece p idx =
     (case ps_bitfield p of
        None \<Rightarrow> False
      | Some bf \<Rightarrow>
          if idx < 0 \<or> idx \<ge> int (ps_pieces p) then False
          else if length bf \<le> nat idx div 8 then False
          else peer_bit bf (nat idx))"

text \<open>The byte mask of the last bitfield byte for a number of pieces; \<open>hasAllPieces\<close> reads the bytes of a bitfield that
  has one byte for every eight pieces.\<close>

definition last_mask :: "nat \<Rightarrow> byte" where
  "last_mask n = (if n mod 8 \<noteq> 0 then push_bit (8 - n mod 8) 0xff else 0xff)"

definition hasAllPieces :: "peerState \<Rightarrow> bool" where
  "hasAllPieces p =
     (case ps_bitfield p of
        None \<Rightarrow> False
      | Some bf \<Rightarrow>
          if ps_pieces p = 0 then False
          else
            let nbytes = (ps_pieces p + 7) div 8
            in list_all (\<lambda>i. bf ! i = 0xff) [0..<nbytes - 1] \<and> bf ! (nbytes - 1) = last_mask (ps_pieces p))"

definition setPiece :: "peerState \<Rightarrow> int \<Rightarrow> peerState" where
  "setPiece p idx =
     (case ps_bitfield p of
        None \<Rightarrow> p
      | Some bf \<Rightarrow>
          if idx < 0 \<or> idx \<ge> int (ps_pieces p) then p
          else p\<lparr>ps_bitfield := Some (peer_put bf (nat idx) True)\<rparr>)"

definition dlRate :: "peerState \<Rightarrow> peerState \<times> int" where
  "dlRate p = (p\<lparr>ps_lastDLSnapshot := ps_dlBytes p\<rparr>, ps_dlBytes p - ps_lastDLSnapshot p)"

definition ulRate :: "peerState \<Rightarrow> peerState \<times> int" where
  "ulRate p = (p\<lparr>ps_lastULSnapshot := ps_ulBytes p\<rparr>, ps_ulBytes p - ps_lastULSnapshot p)"

text \<open>Changing the state behind a reference, and calling a method of its connection.\<close>

definition upd_peer :: "nat \<Rightarrow> (peerState \<Rightarrow> peerState) \<Rightarrow> 's btSwarm \<Rightarrow> 's btSwarm" where
  "upd_peer p f s = s\<lparr>sw_obj := (sw_obj s)(p := f (sw_obj s p))\<rparr>"

definition on_conn :: "nat \<Rightarrow> (Conn \<Rightarrow> Conn \<times> peer_error option) \<Rightarrow> 's btSwarm \<Rightarrow> 's btSwarm \<times> peer_error option" where
  "on_conn p f s =
     (case f (ps_conn (sw_obj s p)) of (c, e) \<Rightarrow> (upd_peer p (\<lambda>q. q\<lparr>ps_conn := c\<rparr>) s, e))"

section \<open>The list of peers\<close>

definition chan_put :: "(string list \<times> nat) option \<Rightarrow> string \<Rightarrow> (string list \<times> nat) option" where
  "chan_put ch a = map_option (\<lambda>(xs, cap). (if length xs < cap then xs @ [a] else xs, cap)) ch"

definition addPeer :: "nat \<Rightarrow> 's btSwarm \<Rightarrow> 's btSwarm" where
  "addPeer p s = s\<lparr>sw_peers := sw_peers s @ [p]\<rparr>"

definition peerCount :: "'s btSwarm \<Rightarrow> nat" where
  "peerCount s = length (sw_peers s)"

definition seedCount :: "'s btSwarm \<Rightarrow> nat" where
  "seedCount s = length (filter (\<lambda>p. hasAllPieces (sw_obj s p)) (sw_peers s))"

definition updateStats :: "'s btSwarm \<Rightarrow> 's btSwarm" where
  "updateStats s = s\<lparr>sw_numConnections := int (peerCount s), sw_numSeeders := int (seedCount s)\<rparr>"

definition canAcceptMorePeers :: "'s btSwarm \<Rightarrow> int \<Rightarrow> bool" where
  "canAcceptMorePeers s limit = (if limit \<le> 0 then True else int (peerCount s) < limit)"

definition pex_entry :: "Net \<Rightarrow> peerState \<Rightarrow> PEXPeer option" where
  "pex_entry net p =
     map_option (\<lambda>ip. \<lparr>pex_IP = ip, pex_Port = net_port net (ps_addr p), pex_Seeder = hasAllPieces p\<rparr>) (net_ip net (ps_addr p))"

definition removePeer :: "Net \<Rightarrow> int \<Rightarrow> nat \<Rightarrow> 's btSwarm \<Rightarrow> 's btSwarm" where
  "removePeer net now p s =
     (let dropped = (case pex_entry net (sw_obj s p) of None \<Rightarrow> sw_recentDropped s | Some e \<Rightarrow> sw_recentDropped s @ [(e, now)])
      in s\<lparr>sw_peers := remove1 p (sw_peers s),
           sw_recentDropped := filter (\<lambda>(e, t). now - btPEXInterval < t) dropped,
           sw_dropCh := chan_put (sw_dropCh s) (ps_addr (sw_obj s p))\<rparr>)"

definition snapshotFreshPeers :: "Net \<Rightarrow> int \<Rightarrow> string \<Rightarrow> 's btSwarm \<Rightarrow> PEXPeer list" where
  "snapshotFreshPeers net now excludeAddr s =
     List.map_filter (\<lambda>p. let q = sw_obj s p in
        if ps_addr q = excludeAddr \<or> ps_connectedAt q < now - btPEXInterval then None else pex_entry net q) (sw_peers s)"

definition snapshotDroppedPeers :: "Net \<Rightarrow> int \<Rightarrow> string \<Rightarrow> 's btSwarm \<Rightarrow> 's btSwarm \<times> PEXPeer list" where
  "snapshotDroppedPeers net now excludeAddr s =
     (let kept = filter (\<lambda>(e, t). now - btPEXInterval < t) (sw_recentDropped s)
      in (s\<lparr>sw_recentDropped := kept\<rparr>,
          filter (\<lambda>e. net_join net (pex_IP e) (pex_Port e) \<noteq> excludeAddr) (map fst kept)))"

section \<open>Choosing a piece\<close>

definition complete :: "'s Adaptor \<Rightarrow> 's btSwarm \<Rightarrow> bool" where
  "complete ad s = list_all (\<lambda>i. ad_Have ad (sw_ad s) (int i)) [0..<sw_numPieces s]"

definition missingCount :: "'s Adaptor \<Rightarrow> 's btSwarm \<Rightarrow> nat" where
  "missingCount ad s = length (filter (\<lambda>i. \<not> ad_Have ad (sw_ad s) (int i)) [0..<sw_numPieces s])"

definition endgameMode :: "'s Adaptor \<Rightarrow> 's btSwarm \<Rightarrow> bool" where
  "endgameMode ad s = (let missing = missingCount ad s in 0 < missing \<and> missing \<le> btEndgameThreshold)"

definition avail :: "'s Adaptor \<Rightarrow> 's btSwarm \<Rightarrow> nat \<Rightarrow> nat \<Rightarrow> nat" where
  "avail ad s p i =
     length (filter (\<lambda>q. q \<noteq> p \<and> \<not> ad_Have ad (sw_ad s) (int i) \<and> hasPiece (sw_obj s q) (int i)) (sw_peers s))"

fun choose_loop :: "(nat \<Rightarrow> bool) \<Rightarrow> (nat \<Rightarrow> nat) \<Rightarrow> nat list \<Rightarrow> (nat \<times> nat) option \<Rightarrow> (nat \<times> nat) option" where
  "choose_loop cand av [] best = best"
| "choose_loop cand av (i # is) best =
     choose_loop cand av is
       (if \<not> cand i then best
        else case best of
               None \<Rightarrow> Some (i, av i)
             | Some (b, a) \<Rightarrow> if av i < a then Some (i, av i) else best)"

definition choosePieceLocked :: "'s Adaptor \<Rightarrow> nat \<Rightarrow> 's btSwarm \<Rightarrow> nat option" where
  "choosePieceLocked ad p s =
     map_option fst (choose_loop (\<lambda>i. \<not> ad_Have ad (sw_ad s) (int i) \<and> hasPiece (sw_obj s p) (int i)) (avail ad s p)
       [0..<sw_numPieces s] None)"

text \<open>The length of a piece. The remainder of the last one is computed modulo the piece length: a division by zero,
  a run-time panic (\<open>None\<close>), if that is 0, which \<open>torrent.Load\<close> accepts. Sizes are not negative.\<close>

definition pieceLengthAt :: "'s btSwarm \<Rightarrow> int \<Rightarrow> int option" where
  "pieceLengthAt s idx =
     (if idx = int (sw_numPieces s) - 1 then
        if sw_pieceLen s = 0 then None
        else let rem = sw_totSize s mod sw_pieceLen s in Some (if 0 < rem then rem else sw_pieceLen s)
      else Some (sw_pieceLen s))"

section \<open>Received pieces and their verification\<close>

datatype swarm_error =
    SwarmRead disk_error | SwarmMismatch | SwarmWrite disk_error | SwarmCancelled | SwarmFetch string

text \<open>\<open>verifyPiece\<close>: \<open>None\<close> is a panic (the division above, or an index without a hash); a read error is ignored when some
  bytes were read. \<open>sha1\<close> stands for the hash.\<close>

definition piece_hash :: "'s btSwarm \<Rightarrow> nat \<Rightarrow> byte list" where
  "piece_hash s idx = take 20 (drop (idx * 20) (sw_pieceHashes s))"

definition verifyPiece ::
    "'s Adaptor \<Rightarrow> (byte list \<Rightarrow> byte list) \<Rightarrow> nat \<Rightarrow> 's btSwarm \<Rightarrow> ('s btSwarm \<times> swarm_error option) option" where
  "verifyPiece ad sha1 idx s =
     (case pieceLengthAt s (int idx) of
        None \<Rightarrow> None
      | Some blen \<Rightarrow>
          (case ad_ReadAt ad (sw_ad s) (nat blen) (int idx * sw_pieceLen s) of
             (b, err) \<Rightarrow>
               if err \<noteq> None \<and> b = [] then Some (s, Some (SwarmRead (the err)))
               else if length (sw_pieceHashes s) < (idx + 1) * 20 then None
               else if sha1 b \<noteq> piece_hash s idx then Some (s, Some SwarmMismatch)
               else Some (s\<lparr>sw_ad := ad_MarkPiece ad (sw_ad s) (int idx) True\<rparr>, None)))"

text \<open>The two lines that follow every failed verification, and the success of one.\<close>

definition unmark :: "'s Adaptor \<Rightarrow> nat \<Rightarrow> 's btSwarm \<Rightarrow> 's btSwarm" where
  "unmark ad idx s = s\<lparr>sw_ad := ad_MarkPiece ad (sw_ad s) (int idx) False, sw_ctl := markControlPiece (sw_ctl s) (int idx) False\<rparr>"

definition send_all :: "(Conn \<Rightarrow> Conn \<times> peer_error option) \<Rightarrow> nat list \<Rightarrow> 's btSwarm \<Rightarrow> 's btSwarm" where
  "send_all f ps s = foldl (\<lambda>s p. fst (on_conn p f s)) s ps"

text \<open>\<open>waitOK\<close>: the rate limiters let the block through before the context ends.\<close>

definition handlePiece ::
    "'s Adaptor \<Rightarrow> (byte list \<Rightarrow> byte list) \<Rightarrow> bool \<Rightarrow> nat \<Rightarrow> Message \<Rightarrow> 's btSwarm \<Rightarrow> 's btSwarm option" where
  "handlePiece ad sha1 waitOK src msg s =
     (case UnmarshalPiece msg of
        Inl _ \<Rightarrow> Some s
      | Inr (pieceIdx, offset, data) \<Rightarrow>
          if 0 < length data \<and> \<not> waitOK then Some s
          else
            let absOffset = pieceIdx * sw_pieceLen s + offset in
            (case ad_WriteAt ad (sw_ad s) data absOffset of
               (a, n, Some _) \<Rightarrow> Some (s\<lparr>sw_ad := a\<rparr>)
             | (a, n, None) \<Rightarrow>
                 let s1 = upd_peer src (\<lambda>p. p\<lparr>ps_dlBytes := ps_dlBytes p + int n, ps_outstanding := ps_outstanding p - 1\<rparr>)
                            (s\<lparr>sw_ad := a, sw_bytesDownloaded := sw_bytesDownloaded s + int n\<rparr>) in
                 (case pieceLengthAt s pieceIdx of
                    None \<Rightarrow> None
                  | Some pieceBlkLen \<Rightarrow>
                      if pieceIdx * sw_pieceLen s + pieceBlkLen \<le> absOffset + int n then
                        (case verifyPiece ad sha1 (nat pieceIdx) s1 of
                           None \<Rightarrow> None
                         | Some (s2, Some _) \<Rightarrow> Some (unmark ad (nat pieceIdx) s2)
                         | Some (s2, None) \<Rightarrow>
                             Some (send_all (\<lambda>c. Conn_Have c pieceIdx) (sw_peers s2)
                               (s2\<lparr>sw_ctl := markControlPiece (sw_ctl s2) pieceIdx True\<rparr>)))
                      else
                        let nextOffset = offset + int (length data);
                            nextLen = (if pieceBlkLen < nextOffset + btBlockSize then pieceBlkLen - nextOffset else btBlockSize)
                        in Some (if 0 < nextLen then
                                   upd_peer src (\<lambda>p. p\<lparr>ps_outstanding := ps_outstanding p + 1\<rparr>)
                                     (fst (on_conn src (\<lambda>c. Conn_Request c pieceIdx nextOffset nextLen) s1))
                                 else s1))))"

section \<open>Requests\<close>

definition addBTUploadLength :: "control \<Rightarrow> int \<Rightarrow> control" where
  "addBTUploadLength c delta =
     (if delta \<le> 0 then c
      else c\<lparr>controlInfo := map_option (\<lambda>info. info\<lparr>UploadLength := UploadLength info + delta\<rparr>) (controlInfo c)\<rparr>)"

definition handleRequest :: "'s Adaptor \<Rightarrow> bool \<Rightarrow> nat \<Rightarrow> Message \<Rightarrow> 's btSwarm \<Rightarrow> 's btSwarm option" where
  "handleRequest ad waitOK src msg s =
     (case UnmarshalRequest msg of
        Inl _ \<Rightarrow> Some s
      | Inr (pieceIdx, offset, len) \<Rightarrow>
          if \<not> ad_Have ad (sw_ad s) pieceIdx then Some s
          else
            (case pieceLengthAt s pieceIdx of
               None \<Rightarrow> None
             | Some blen \<Rightarrow>
                 let len = (if blen < offset + len then blen - offset else len) in
                 if len \<le> 0 then Some s
                 else
                   (case ad_ReadAt ad (sw_ad s) (nat len) (pieceIdx * sw_pieceLen s + offset) of
                      (buf, rerr) \<Rightarrow>
                        if rerr \<noteq> None \<or> int (length buf) < len then Some s
                        else if \<not> waitOK then Some s
                        else
                          (case on_conn src (\<lambda>c. Conn_Piece c pieceIdx offset buf) s of
                             (s1, Some _) \<Rightarrow> Some s1
                           | (s1, None) \<Rightarrow>
                               let n = int (length buf) in
                               Some ((upd_peer src (\<lambda>p. p\<lparr>ps_ulBytes := ps_ulBytes p + n\<rparr>) s1)
                                      \<lparr>sw_bytesUploaded := sw_bytesUploaded s1 + n, sw_sessionUploaded := sw_sessionUploaded s1 + n,
                                       sw_ctl := addBTUploadLength (sw_ctl s1) n\<rparr>)))))"

text \<open>One request, counted as outstanding whether it could be sent or not.\<close>

definition request_from :: "nat \<Rightarrow> nat \<Rightarrow> int \<Rightarrow> 's btSwarm \<Rightarrow> 's btSwarm" where
  "request_from p pieceIdx blockLen s =
     upd_peer p (\<lambda>q. q\<lparr>ps_outstanding := ps_outstanding q + 1\<rparr>) (fst (on_conn p (\<lambda>c. Conn_Request c (int pieceIdx) 0 blockLen) s))"

definition endgame_request :: "nat \<Rightarrow> nat \<Rightarrow> int \<Rightarrow> nat \<Rightarrow> 's btSwarm \<Rightarrow> 's btSwarm" where
  "endgame_request p pieceIdx blockLen q s =
     (if q = p \<or> btMaxPendingRequests * 2 \<le> ps_outstanding (sw_obj s q) then s
      else if hasPiece (sw_obj s q) (int pieceIdx) then request_from q pieceIdx blockLen s else s)"

definition request_peer :: "'s Adaptor \<Rightarrow> bool \<Rightarrow> nat \<Rightarrow> 's btSwarm \<Rightarrow> 's btSwarm option" where
  "request_peer ad endgame p s =
     (if btMaxPendingRequests \<le> ps_outstanding (sw_obj s p) then Some s
      else
        case choosePieceLocked ad p s of
          None \<Rightarrow> Some s
        | Some pieceIdx \<Rightarrow>
            (case pieceLengthAt s (int pieceIdx) of
               None \<Rightarrow> None
             | Some blen \<Rightarrow>
                 let blockLen = (if blen < btBlockSize then blen else btBlockSize);
                     s1 = request_from p pieceIdx blockLen s
                 in Some (if endgame then foldl (\<lambda>s q. endgame_request p pieceIdx blockLen q s) s1 (sw_peers s1) else s1)))"

fun request_loop :: "'s Adaptor \<Rightarrow> bool \<Rightarrow> nat list \<Rightarrow> 's btSwarm \<Rightarrow> 's btSwarm option" where
  "request_loop ad endgame [] s = Some s"
| "request_loop ad endgame (p # ps) s =
     (case request_peer ad endgame p s of None \<Rightarrow> None | Some s1 \<Rightarrow> request_loop ad endgame ps s1)"

definition requestPieces :: "'s Adaptor \<Rightarrow> 's btSwarm \<Rightarrow> 's btSwarm option" where
  "requestPieces ad s = request_loop ad (endgameMode ad s) (sw_peers s) s"

section \<open>Choking\<close>

text \<open>\<open>sortSlice\<close> stands for \<open>sort.Slice\<close> by descending rate and \<open>pick\<close> for \<open>rand.IntN\<close>, a number below its argument.\<close>

type_synonym sort_slice = "(nat \<times> int) list \<Rightarrow> (nat \<times> int) list"

fun rate_loop :: "nat list \<Rightarrow> 's btSwarm \<Rightarrow> 's btSwarm \<times> (nat \<times> int) list" where
  "rate_loop [] s = (s, [])"
| "rate_loop (p # ps) s =
     (let (q, r) = dlRate (sw_obj s p);
          (s', rs) = rate_loop ps (upd_peer p (\<lambda>_. q) s)
      in (s', (p, r) # rs))"

fun choke_loop :: "(nat \<times> int) list \<Rightarrow> nat \<Rightarrow> 's btSwarm \<Rightarrow> 's btSwarm \<times> nat" where
  "choke_loop [] unchoked s = (s, unchoked)"
| "choke_loop ((p, r) # rs) unchoked s =
     (if unchoked < btUnchokeSlots \<and> \<not> hasAllPieces (sw_obj s p) then
        (case on_conn p Conn_Unchoke s of
           (s1, None) \<Rightarrow> choke_loop rs (unchoked + 1) (upd_peer p (\<lambda>q. q\<lparr>ps_amChoking := False\<rparr>) s1)
         | (s1, Some _) \<Rightarrow> choke_loop rs unchoked s1)
      else
        (case on_conn p Conn_Choke s of
           (s1, None) \<Rightarrow> choke_loop rs unchoked (upd_peer p (\<lambda>q. q\<lparr>ps_amChoking := True\<rparr>) s1)
         | (s1, Some _) \<Rightarrow> choke_loop rs unchoked s1))"

definition doChoke :: "sort_slice \<Rightarrow> (nat \<Rightarrow> nat) \<Rightarrow> 's btSwarm \<Rightarrow> 's btSwarm" where
  "doChoke sortSlice pick s =
     (let (s1, rated) = rate_loop (sw_peers s) s;
          rates = sortSlice rated;
          (s2, unchoked) = choke_loop rates 0 s1
      in if unchoked < length rates then
           let pool = drop unchoked rates; p = fst (pool ! pick (length pool)) in
           (case on_conn p Conn_Unchoke s2 of
              (s3, None) \<Rightarrow> upd_peer p (\<lambda>q. q\<lparr>ps_amChoking := False\<rparr>) s3
            | (s3, Some _) \<Rightarrow> s3)
         else s2)"

section \<open>Messages\<close>

definition ExtensionUTPex :: int where "ExtensionUTPex = 1"

definition handleExtended :: "Net \<Rightarrow> nat \<Rightarrow> nat \<Rightarrow> Message \<Rightarrow> 's btSwarm \<Rightarrow> 's btSwarm" where
  "handleExtended net max_alloc src msg s =
     (case UnmarshalExtended msg of
        Inl _ \<Rightarrow> s
      | Inr (extID, payload) \<Rightarrow>
          if extID = 0 then
            (case ParseExtendedHandshake max_alloc payload of
               Inl _ \<Rightarrow> s
             | Inr hs \<Rightarrow>
                 (case map_of (eh_Extensions hs) ''ut_pex'' of
                    None \<Rightarrow> s
                  | Some i \<Rightarrow>
                      if i \<noteq> 0 then
                        upd_peer src (\<lambda>p. p\<lparr>ps_conn := addExtension (ps_conn p) ExtensionUTPex i, ps_pexID := i\<rparr>) s
                      else s))
          else
            (case ParseUTPex max_alloc (NewMessage MsgExtended (extID # payload)) of
               Inl _ \<Rightarrow> s
             | Inr (peerExtID, pex) \<Rightarrow>
                 if peerExtID = 0 \<or> peerExtID \<noteq> getExtensionMessageID (ps_conn (sw_obj s src)) ExtensionUTPex then s
                 else s\<lparr>sw_discoveryCh :=
                        foldl (\<lambda>ch e. chan_put ch (net_join net (pex_IP e) (pex_Port e))) (sw_discoveryCh s) (pex_Added pex)\<rparr>))"

definition handlePort :: "Net \<Rightarrow> nat \<Rightarrow> Message \<Rightarrow> 's btSwarm \<Rightarrow> 's btSwarm" where
  "handlePort net src msg s =
     (case sw_dhtObserver s of
        None \<Rightarrow> s
      | Some calls \<Rightarrow>
          (case UnmarshalPort msg of
             Inl _ \<Rightarrow> s
           | Inr port \<Rightarrow>
               if port = 0 then s
               else case net_ip net (ps_addr (sw_obj s src)) of
                      None \<Rightarrow> s
                    | Some ip \<Rightarrow> s\<lparr>sw_dhtObserver := Some (calls @ [(ip, port)])\<rparr>))"

text \<open>Go's \<open>copy\<close> into a new slice of zeros, and the bitfield of a peer that has everything.\<close>

definition copy_bitfield :: "nat \<Rightarrow> byte list \<Rightarrow> byte list" where
  "copy_bitfield nbytes bf = take nbytes bf @ replicate (nbytes - length bf) 0"

definition all_bits :: "nat \<Rightarrow> byte list option \<Rightarrow> byte list" where
  "all_bits numPieces old =
     (let bf = map (\<lambda>_. 0xff) (case old of None \<Rightarrow> replicate ((numPieces + 7) div 8) (0 :: byte) | Some bf \<Rightarrow> bf)
      in if 0 < numPieces \<and> 0 < length bf \<and> numPieces mod 8 \<noteq> 0
         then bf[length bf - 1 := push_bit (8 - numPieces mod 8) 0xff] else bf)"

definition handleMsg :: "Net \<Rightarrow> nat \<Rightarrow> nat \<Rightarrow> Message \<Rightarrow> 's btSwarm \<Rightarrow> 's btSwarm" where
  "handleMsg net max_alloc src msg s =
     (if msg_ID msg = MsgChoke then upd_peer src (\<lambda>p. p\<lparr>ps_peerChoking := True\<rparr>) s
      else if msg_ID msg = MsgUnchoke then upd_peer src (\<lambda>p. p\<lparr>ps_peerChoking := False\<rparr>) s
      else if msg_ID msg = MsgBitfield then
        upd_peer src (\<lambda>p. p\<lparr>ps_bitfield := Some (copy_bitfield ((sw_numPieces s + 7) div 8) (msg_Payload msg)),
                           ps_pieces := sw_numPieces s\<rparr>) s
      else if msg_ID msg = MsgHave then
        (case UnmarshalHave msg of Inl _ \<Rightarrow> s | Inr idx \<Rightarrow> upd_peer src (\<lambda>p. setPiece p idx) s)
      else if msg_ID msg = MsgHaveAll then
        upd_peer src (\<lambda>p. p\<lparr>ps_bitfield := Some (all_bits (sw_numPieces s) (ps_bitfield p)), ps_pieces := sw_numPieces s\<rparr>) s
      else if msg_ID msg = MsgHaveNone then
        upd_peer src (\<lambda>p. p\<lparr>ps_bitfield := map_option (map (\<lambda>_. 0)) (ps_bitfield p)\<rparr>) s
      else if msg_ID msg = MsgExtended then handleExtended net max_alloc src msg s
      else if msg_ID msg = MsgPort then handlePort net src msg s
      else s)"

text \<open>A message in \<open>downloadLoop\<close> and in \<open>seedLoop\<close>.\<close>

definition download_msg ::
    "'s Adaptor \<Rightarrow> (byte list \<Rightarrow> byte list) \<Rightarrow> Net \<Rightarrow> nat \<Rightarrow> bool \<Rightarrow> nat \<Rightarrow> Message \<Rightarrow> 's btSwarm \<Rightarrow> 's btSwarm option" where
  "download_msg ad sha1 net max_alloc waitOK src msg s =
     (let s1 = updateStats (handleMsg net max_alloc src msg s) in
      if msg_ID msg = MsgPiece then handlePiece ad sha1 waitOK src msg s1
      else if msg_ID msg = MsgRequest then handleRequest ad waitOK src msg s1
      else Some s1)"

definition seed_msg :: "'s Adaptor \<Rightarrow> Net \<Rightarrow> nat \<Rightarrow> bool \<Rightarrow> nat \<Rightarrow> Message \<Rightarrow> 's btSwarm \<Rightarrow> 's btSwarm option" where
  "seed_msg ad net max_alloc waitOK src msg s =
     (let s1 = updateStats (handleMsg net max_alloc src msg s) in
      if msg_ID msg = MsgRequest then handleRequest ad waitOK src msg s1 else Some s1)"

text \<open>A new peer of the loops, and their start.\<close>

definition send_bitfield :: "'s Adaptor \<Rightarrow> nat \<Rightarrow> 's btSwarm \<Rightarrow> 's btSwarm" where
  "send_bitfield ad p s =
     fst (on_conn p (\<lambda>c. Conn_Bitfield c (case ad_Bitfield ad (sw_ad s) of None \<Rightarrow> [] | Some bf \<Rightarrow> bf)) s)"

definition new_peer :: "'s Adaptor \<Rightarrow> nat \<Rightarrow> 's btSwarm \<Rightarrow> 's btSwarm" where
  "new_peer ad p s = updateStats (send_bitfield ad p (addPeer p s))"

definition download_start :: "'s Adaptor \<Rightarrow> 's btSwarm \<Rightarrow> 's btSwarm" where
  "download_start ad s = updateStats (foldl (\<lambda>s p. send_bitfield ad p s) s (sw_peers s))"

section \<open>Peer exchange\<close>

definition pex_to :: "Net \<Rightarrow> int \<Rightarrow> nat \<Rightarrow> 's btSwarm \<Rightarrow> 's btSwarm" where
  "pex_to net now p s =
     (let extID = getExtensionMessageID (ps_conn (sw_obj s p)) ExtensionUTPex in
      if extID = 0 then s
      else
        let added = snapshotFreshPeers net now (ps_addr (sw_obj s p)) s;
            (s1, dropped) = snapshotDroppedPeers net now (ps_addr (sw_obj s p)) s
        in if added = [] \<and> dropped = [] then s1
           else fst (on_conn p (\<lambda>c. Conn_Extended c extID (MarshalUTPexPayload added dropped)) s1))"

definition sendPeerExchange :: "Net \<Rightarrow> int \<Rightarrow> 's btSwarm \<Rightarrow> 's btSwarm" where
  "sendPeerExchange net now s = (if \<not> sw_pexEnabled s then s else foldl (\<lambda>s p. pex_to net now p s) s (sw_peers s))"

section \<open>Web seeds\<close>

record btWebSeedFile =
  ws_offset :: int
  ws_length :: int
  ws_urls :: "string list"

text \<open>\<open>fetch\<close> stands for \<open>downloadWebSeedRange\<close>, which fills exactly the destination it is given or fails. The pieces of the buffer
  that no file covers stay zero.\<close>

type_synonym fetcher = "string list \<Rightarrow> int \<Rightarrow> int \<Rightarrow> swarm_error + byte list"

fun fill_loop :: "fetcher \<Rightarrow> int \<Rightarrow> int \<Rightarrow> btWebSeedFile list \<Rightarrow> byte list \<Rightarrow> swarm_error + byte list" where
  "fill_loop fetch pieceStart pieceEnd [] buf = Inr buf"
| "fill_loop fetch pieceStart pieceEnd (f # fs) buf =
     (if ws_urls f = [] \<or> ws_length f = 0 then fill_loop fetch pieceStart pieceEnd fs buf
      else
        let segmentStart = max pieceStart (ws_offset f); segmentEnd = min pieceEnd (ws_offset f + ws_length f) in
        if segmentEnd \<le> segmentStart then fill_loop fetch pieceStart pieceEnd fs buf
        else
          case fetch (ws_urls f) (segmentStart - ws_offset f) (segmentEnd - segmentStart) of
            Inl e \<Rightarrow> Inl e
          | Inr dst \<Rightarrow>
              fill_loop fetch pieceStart pieceEnd fs
                (take (nat (segmentStart - pieceStart)) buf @ dst @ drop (nat (segmentEnd - pieceStart)) buf))"

definition downloadWebSeedPiece ::
    "'s Adaptor \<Rightarrow> (byte list \<Rightarrow> byte list) \<Rightarrow> fetcher \<Rightarrow> btWebSeedFile list \<Rightarrow> nat \<Rightarrow> 's btSwarm
     \<Rightarrow> ('s btSwarm \<times> swarm_error option) option" where
  "downloadWebSeedPiece ad sha1 fetch files idx s =
     (case pieceLengthAt s (int idx) of
        None \<Rightarrow> None
      | Some pieceLength \<Rightarrow>
          let pieceStart = int idx * sw_pieceLen s in
          (case fill_loop fetch pieceStart (pieceStart + pieceLength) files (replicate (nat pieceLength) 0) of
             Inl e \<Rightarrow> Some (s, Some e)
           | Inr buf \<Rightarrow>
               (case ad_WriteAt ad (sw_ad s) buf pieceStart of
                  (a, n, Some e) \<Rightarrow> Some (s\<lparr>sw_ad := a\<rparr>, Some (SwarmWrite e))
                | (a, n, None) \<Rightarrow>
                    (case verifyPiece ad sha1 idx (s\<lparr>sw_ad := a, sw_bytesDownloaded := sw_bytesDownloaded s + int n\<rparr>) of
                       None \<Rightarrow> None
                     | Some (s1, Some e) \<Rightarrow> Some (unmark ad idx s1, Some e)
                     | Some (s1, None) \<Rightarrow> Some (s1\<lparr>sw_ctl := markControlPiece (sw_ctl s1) (int idx) True\<rparr>, None)))))"

fun web_seed_loop ::
    "'s Adaptor \<Rightarrow> (byte list \<Rightarrow> byte list) \<Rightarrow> fetcher \<Rightarrow> (nat \<Rightarrow> bool) \<Rightarrow> btWebSeedFile list \<Rightarrow> nat list \<Rightarrow> 's btSwarm
     \<Rightarrow> ('s btSwarm \<times> swarm_error option) option" where
  "web_seed_loop ad sha1 fetch cancelled files [] s = Some (s, None)"
| "web_seed_loop ad sha1 fetch cancelled files (i # is) s =
     (if ad_Have ad (sw_ad s) (int i) then web_seed_loop ad sha1 fetch cancelled files is s
      else if cancelled i then Some (s, Some SwarmCancelled)
      else case downloadWebSeedPiece ad sha1 fetch files i s of
             None \<Rightarrow> None
           | Some (s1, Some e) \<Rightarrow> Some (s1, Some e)
           | Some (s1, None) \<Rightarrow> web_seed_loop ad sha1 fetch cancelled files is s1)"

definition downloadWebSeeds ::
    "'s Adaptor \<Rightarrow> (byte list \<Rightarrow> byte list) \<Rightarrow> fetcher \<Rightarrow> (nat \<Rightarrow> bool) \<Rightarrow> btWebSeedFile list \<Rightarrow> 's btSwarm
     \<Rightarrow> ('s btSwarm \<times> swarm_error option) option" where
  "downloadWebSeeds ad sha1 fetch cancelled files s = web_seed_loop ad sha1 fetch cancelled files [0..<sw_numPieces s] s"

section \<open>The check before the download is finished\<close>

text \<open>\<open>verifySelectedPieces\<close> reads a whole piece length even for the last piece, and uses what it got. Its \<open>None\<close> is a
  slice out of range.\<close>

fun selected_loop ::
    "'s Adaptor \<Rightarrow> (byte list \<Rightarrow> byte list) \<Rightarrow> (nat \<Rightarrow> bool) \<Rightarrow> int \<Rightarrow> byte list \<Rightarrow> bool list \<Rightarrow> nat list \<Rightarrow> 's
     \<Rightarrow> swarm_error option option" where
  "selected_loop ad sha1 cancelled pieceLen pieces wanted [] s = Some None"
| "selected_loop ad sha1 cancelled pieceLen pieces wanted (i # is) s =
     (if wanted \<noteq> [] \<and> length wanted \<le> i then None
      else if wanted \<noteq> [] \<and> \<not> wanted ! i then selected_loop ad sha1 cancelled pieceLen pieces wanted is s
      else if cancelled i then Some (Some SwarmCancelled)
      else
        case ad_ReadAt ad s (nat pieceLen) (int i * pieceLen) of
          (b, rErr) \<Rightarrow>
            if rErr \<noteq> None \<and> b = [] then Some (Some (SwarmRead (the rErr)))
            else if length pieces < (i + 1) * 20 then None
            else if sha1 b \<noteq> take 20 (drop (i * 20) pieces) then Some (Some SwarmMismatch)
            else selected_loop ad sha1 cancelled pieceLen pieces wanted is s)"

definition verifySelectedPieces ::
    "'s Adaptor \<Rightarrow> (byte list \<Rightarrow> byte list) \<Rightarrow> (nat \<Rightarrow> bool) \<Rightarrow> MetaInfo \<Rightarrow> bool list \<Rightarrow> 's \<Rightarrow> swarm_error option option" where
  "verifySelectedPieces ad sha1 cancelled meta wanted s =
     selected_loop ad sha1 cancelled (info_PieceLength (mi_Info meta)) (text_bytes (info_Pieces (mi_Info meta))) wanted
       [0..<NumPieces meta] s"

section \<open>The piece chosen is a rarest one\<close>

definition candidate :: "'s Adaptor \<Rightarrow> nat \<Rightarrow> 's btSwarm \<Rightarrow> nat \<Rightarrow> bool" where
  "candidate ad p s i \<longleftrightarrow> i < sw_numPieces s \<and> \<not> ad_Have ad (sw_ad s) (int i) \<and> hasPiece (sw_obj s p) (int i)"

text \<open>After the indices below \<open>k\<close> the loop holds the first of the rarest candidates among them.\<close>

definition best_below :: "(nat \<Rightarrow> bool) \<Rightarrow> (nat \<Rightarrow> nat) \<Rightarrow> nat \<Rightarrow> (nat \<times> nat) option \<Rightarrow> bool" where
  "best_below cand av k best \<longleftrightarrow>
     (case best of
        None \<Rightarrow> \<forall>i<k. \<not> cand i
      | Some (b, a) \<Rightarrow> b < k \<and> cand b \<and> a = av b \<and> (\<forall>i<k. cand i \<longrightarrow> av b \<le> av i \<and> (av i = av b \<longrightarrow> b \<le> i)))"

lemma choose_loop_best:
  "k \<le> n \<Longrightarrow> best_below cand av k best \<Longrightarrow> best_below cand av n (choose_loop cand av [k..<n] best)"
proof (induction "n - k" arbitrary: k best)
  case (Suc d)
  then have "best_below cand av (Suc k)
      (if \<not> cand k then best else case best of None \<Rightarrow> Some (k, av k) | Some (b, a) \<Rightarrow> if av k < a then Some (k, av k) else best)"
    by (auto simp: best_below_def less_Suc_eq split: option.splits; fastforce)
  with Suc.hyps(1) [of "Suc k"] Suc.hyps(2) show ?case by (simp add: upt_conv_Cons)
qed simp

text \<open>(C38) Rarest first. For a peer of the swarm the piece chosen is missing here, held by the peer, held by no more of the other
  peers than any other such piece, and the first of those; no piece is chosen only if there is none.\<close>

theorem rarest_piece_chosen:
  "case choosePieceLocked ad p s of
     None \<Rightarrow> \<forall>i. \<not> candidate ad p s i
   | Some b \<Rightarrow> candidate ad p s b
       \<and> (\<forall>i. candidate ad p s i \<longrightarrow>
            length (filter (\<lambda>q. q \<noteq> p \<and> hasPiece (sw_obj s q) (int b)) (sw_peers s))
            \<le> length (filter (\<lambda>q. q \<noteq> p \<and> hasPiece (sw_obj s q) (int i)) (sw_peers s))
            \<and> (length (filter (\<lambda>q. q \<noteq> p \<and> hasPiece (sw_obj s q) (int b)) (sw_peers s))
               = length (filter (\<lambda>q. q \<noteq> p \<and> hasPiece (sw_obj s q) (int i)) (sw_peers s)) \<longrightarrow> b \<le> i))"
proof -
  let ?cand = "\<lambda>i. \<not> ad_Have ad (sw_ad s) (int i) \<and> hasPiece (sw_obj s p) (int i)"
  have B: "best_below ?cand (avail ad s p) (sw_numPieces s) (choose_loop ?cand (avail ad s p) [0..<sw_numPieces s] None)"
    by (rule choose_loop_best) (simp_all add: best_below_def)
  have A: "?cand i \<Longrightarrow> avail ad s p i = length (filter (\<lambda>q. q \<noteq> p \<and> hasPiece (sw_obj s q) (int i)) (sw_peers s))" for i
    by (simp add: avail_def)
  show ?thesis
  proof (cases "choose_loop ?cand (avail ad s p) [0..<sw_numPieces s] None")
    case None
    with B show ?thesis by (auto simp: best_below_def choosePieceLocked_def candidate_def)
  next
    case (Some ba)
    obtain b a where ba: "ba = (b, a)" by (cases ba)
    have b: "candidate ad p s b" and m: "candidate ad p s i \<Longrightarrow> avail ad s p b \<le> avail ad s p i \<and> (avail ad s p i = avail ad s p b \<longrightarrow> b \<le> i)" for i
      using B unfolding Some ba best_below_def candidate_def by auto
    have "?cand b" "candidate ad p s i \<Longrightarrow> ?cand i" for i using b by (auto simp: candidate_def)
    then show ?thesis using Some ba b m A by (auto simp: choosePieceLocked_def)
  qed
qed

definition demo_peer :: "byte list \<Rightarrow> int \<Rightarrow> peerState" where
  "demo_peer bf dl = \<lparr>ps_conn = newConn 2 1, ps_addr = [], ps_bitfield = Some bf, ps_pieces = 2, ps_dlBytes = dl,
     ps_lastDLSnapshot = 0, ps_ulBytes = 0, ps_lastULSnapshot = 0, ps_outstanding = 0, ps_connectedAt = 0,
     ps_pexID = 0, ps_amChoking = True, ps_peerChoking = True\<rparr>"

text \<open>Two pieces of one byte, both missing; peer 0 has both, peer 1 only the first.\<close>

definition demo_swarm :: "(SingleFile \<times> store) btSwarm" where
  "demo_swarm = \<lparr>sw_obj = (\<lambda>p. if p = 0 then demo_peer [0xC0] 5 else demo_peer [0x80] 7), sw_peers = [0, 1],
     sw_ad = (\<lparr>sf_path = ''f'', sf_size = 2, sf_alloc = AllocatorNone, sf_f = Some ''f'', sf_closed = False,
               sf_pieces = [False, False]\<rparr>, [''f'' \<mapsto> [0, 0]]),
     sw_numPieces = 2, sw_pieceLen = 1, sw_pieceHashes = 7 # replicate 19 0 @ 8 # replicate 19 0, sw_totSize = 2,
     sw_discoveryCh = None, sw_dropCh = None, sw_dhtObserver = None, sw_pexEnabled = False, sw_recentDropped = [],
     sw_ctl = \<lparr>controlInfo = None, controlPieceBytes = []\<rparr>, sw_bytesDownloaded = 0, sw_bytesUploaded = 0,
     sw_sessionUploaded = 0, sw_numConnections = 0, sw_numSeeders = 0\<rparr>"

lemma demo_choice: "choosePieceLocked (single_adaptor faultless) 0 demo_swarm = Some 1"
  by code_simp

lemma rarest_piece_chosen_witness: "candidate (single_adaptor faultless) 0 demo_swarm 1"
  using rarest_piece_chosen [of "single_adaptor faultless" 0 demo_swarm] by (simp add: demo_choice)

section \<open>Choking\<close>

definition dl_since :: "peerState \<Rightarrow> int" where
  "dl_since q = ps_dlBytes q - ps_lastDLSnapshot q"

definition queued :: "peerState \<Rightarrow> nat" where
  "queued q = length (c_sendCh (ps_conn q))"

lemma upd_peer_obj [simp]:
  "sw_obj (upd_peer p f s) q = (if q = p then f (sw_obj s p) else sw_obj s q)"
  "sw_peers (upd_peer p f s) = sw_peers s" "sw_ad (upd_peer p f s) = sw_ad s"
  by (simp_all add: upd_peer_def)

lemma hasAllPieces_cong:
  "ps_bitfield p = ps_bitfield q \<Longrightarrow> ps_pieces p = ps_pieces q \<Longrightarrow> hasAllPieces p = hasAllPieces q"
  by (simp add: hasAllPieces_def Let_def split: option.split)

lemma hasAllPieces_fields [simp]:
  "hasAllPieces (p\<lparr>ps_conn := c\<rparr>) = hasAllPieces p" "hasAllPieces (p\<lparr>ps_amChoking := b\<rparr>) = hasAllPieces p"
  "hasAllPieces (p\<lparr>ps_lastDLSnapshot := n\<rparr>) = hasAllPieces p"
  by (rule hasAllPieces_cong; simp)+

lemma rate_loop_spec:
  "distinct ps \<Longrightarrow> rate_loop ps s =
     (s\<lparr>sw_obj := \<lambda>p. if p \<in> set ps then fst (dlRate (sw_obj s p)) else sw_obj s p\<rparr>, map (\<lambda>p. (p, dl_since (sw_obj s p))) ps)"
proof (induction ps arbitrary: s)
  case (Cons p ps)
  have "map (\<lambda>q. (q, dl_since (sw_obj (upd_peer p (\<lambda>_. x) s) q))) ps = map (\<lambda>q. (q, dl_since (sw_obj s q))) ps" for x
    using Cons.prems by auto
  with Cons show ?case by (auto simp: dlRate_def dl_since_def upd_peer_def fun_eq_iff)
qed simp

text \<open>Those the loop unchokes when no send fails: the first peers that are no seeds, as many as there are slots left.\<close>

definition to_unchoke :: "'s btSwarm \<Rightarrow> nat \<Rightarrow> (nat \<times> int) list \<Rightarrow> nat list" where
  "to_unchoke s k rs = take (btUnchokeSlots - k) (filter (\<lambda>p. \<not> hasAllPieces (sw_obj s p)) (map fst rs))"

lemma on_conn_send:
  assumes "queued (sw_obj s p) < defaultSendQueueSize"
  shows "on_conn p (\<lambda>c. send c d) s = (upd_peer p (\<lambda>q. q\<lparr>ps_conn := (ps_conn q)\<lparr>c_sendCh := c_sendCh (ps_conn q) @ [d]\<rparr>\<rparr>) s, None)"
  using assms by (simp add: on_conn_def send_def queued_def upd_peer_def)

lemmas on_conn_choke = on_conn_send [where d = "Encode (NewMessage MsgChoke [])", folded Conn_Choke_def]
  on_conn_send [where d = "Encode (NewMessage MsgUnchoke [])", folded Conn_Unchoke_def]

lemma choke_loop_spec:
  assumes "distinct (map fst rs)" "\<forall>p\<in>set (map fst rs). queued (sw_obj s p) < defaultSendQueueSize"
    and "choke_loop rs k s = (s', u)"
  shows "u = k + length (to_unchoke s k rs) \<and> sw_ad s' = sw_ad s
    \<and> (\<forall>p. p \<notin> set (map fst rs) \<longrightarrow> sw_obj s' p = sw_obj s p)
    \<and> (\<forall>p\<in>set (map fst rs). (ps_amChoking (sw_obj s' p) \<longleftrightarrow> p \<notin> set (to_unchoke s k rs))
         \<and> hasAllPieces (sw_obj s' p) = hasAllPieces (sw_obj s p) \<and> queued (sw_obj s' p) = Suc (queued (sw_obj s p)))"
  using assms
proof (induction rs arbitrary: k s)
  case (Cons r rs)
  obtain p d where r: "r = (p, d)" by (cases r)
  let ?un = "k < btUnchokeSlots \<and> \<not> hasAllPieces (sw_obj s p)"
  let ?m = "if ?un then MsgUnchoke else MsgChoke"
  define t where "t = upd_peer p (\<lambda>q. q\<lparr>ps_conn := (ps_conn q)\<lparr>c_sendCh := c_sendCh (ps_conn q) @ [Encode (NewMessage ?m [])]\<rparr>,
     ps_amChoking := \<not> ?un\<rparr>) s"
  have q: "queued (sw_obj s p) < defaultSendQueueSize" using Cons.prems(2) r by simp
  have L: "choke_loop rs (if ?un then k + 1 else k) t = (s', u)"
    using Cons.prems(3) on_conn_choke [OF q] unfolding r t_def by (auto simp: upd_peer_def)
  have p: "p \<notin> set (map fst rs)" using Cons.prems(1) r by auto
  have same: "to_unchoke t j rs = to_unchoke s j rs" for j
    unfolding to_unchoke_def t_def using p by (intro arg_cong2 [where f = take] refl filter_cong) auto
  have un: "to_unchoke s k (r # rs) = (if ?un then p # to_unchoke s (k + 1) rs else to_unchoke s k rs)"
    by (auto simp: to_unchoke_def r take_Cons' )
  have tp: "ps_amChoking (sw_obj t p) = (\<not> ?un)" "hasAllPieces (sw_obj t p) = hasAllPieces (sw_obj s p)"
    "queued (sw_obj t p) = Suc (queued (sw_obj s p))" "\<And>q. q \<noteq> p \<Longrightarrow> sw_obj t q = sw_obj s q" "sw_ad t = sw_ad s"
    by (simp_all add: t_def queued_def)
  have np: "p \<notin> set (to_unchoke s j rs)" for j using p set_take_subset unfolding to_unchoke_def by fastforce
  have other: "sw_obj t q = sw_obj s q" if "q \<in> set (map fst rs)" for q using that p tp(4) by metis
  have room: "\<forall>p\<in>set (map fst rs). queued (sw_obj t p) < defaultSendQueueSize" using Cons.prems(2) by (simp add: other)
  have d: "distinct (map fst rs)" using Cons.prems(1) by simp
  note IH = Cons.IH [OF d room L, unfolded same tp(5)]
  have rp: "set (map fst (r # rs)) = insert p (set (map fst rs))" by (simp add: r)
  have sp: "sw_obj s' p = sw_obj t p" using IH p by blast
  have rest: "sw_obj s' q = sw_obj s q" if "q \<notin> insert p (set (map fst rs))" for q
    using IH that tp(4) [of q] by auto
  show ?case
    unfolding rp un
  proof (intro conjI ballI allI impI)
    show "u = k + length (if ?un then p # to_unchoke s (k + 1) rs else to_unchoke s k rs)" using IH by auto
    show "sw_ad s' = sw_ad s" using IH by blast
  next
    fix q assume "q \<notin> insert p (set (map fst rs))"
    then show "sw_obj s' q = sw_obj s q" by (rule rest)
  next
    fix q assume q: "q \<in> insert p (set (map fst rs))"
    show "ps_amChoking (sw_obj s' q) = (q \<notin> set (if ?un then p # to_unchoke s (k + 1) rs else to_unchoke s k rs))"
      "hasAllPieces (sw_obj s' q) = hasAllPieces (sw_obj s q)" "queued (sw_obj s' q) = Suc (queued (sw_obj s q))"
      using IH q p tp np sp other by (cases "q = p"; auto split: if_splits)+
  qed
qed (simp add: to_unchoke_def)

definition by_rate :: "sort_slice \<Rightarrow> bool" where
  "by_rate srt \<longleftrightarrow> (\<forall>xs. mset (srt xs) = mset xs \<and> sorted_wrt (\<lambda>a b. snd b \<le> snd a) (srt xs))"

lemma card_insert_bound: "A \<subseteq> insert a (set xs) \<Longrightarrow> card A \<le> Suc (length xs)"
proof -
  assume "A \<subseteq> insert a (set xs)"
  then have "card A \<le> card (insert a (set xs))" by (intro card_mono) simp_all
  also have "\<dots> \<le> Suc (card (set xs))" by (simp add: card_insert_if)
  finally show ?thesis using card_length [of xs] by linarith
qed

text \<open>What a sorted list gives to the front: everything later has no better rate.\<close>

lemma sorted_take_filter:
  assumes "sorted_wrt (\<lambda>a b. snd b \<le> snd a) rs" "distinct (map fst rs)"
    and "p \<in> set (take n (filter P (map fst rs)))" "q \<in> set (map fst rs)" "P q" "q \<notin> set (take n (filter P (map fst rs)))"
    and "\<And>x. x \<in> set rs \<Longrightarrow> snd x = (f (fst x) :: int)"
  shows "f q \<le> f p"
proof -
  have "sorted_wrt (\<lambda>x y. f (fst y) \<le> f (fst x)) rs"
    by (rule sorted_wrt_mono_rel [OF _ assms(1)]) (simp add: assms(7))
  then have "sorted_wrt (\<lambda>a b. f b \<le> f a) (filter P (map fst rs))" by (intro sorted_wrt_filter) (simp add: sorted_wrt_map)
  then have "sorted_wrt (\<lambda>a b. f b \<le> f a) (take n (filter P (map fst rs)) @ drop n (filter P (map fst rs)))" by simp
  moreover have "q \<in> set (drop n (filter P (map fst rs)))"
    using assms(4-6) set_append [of "take n (filter P (map fst rs))" "drop n (filter P (map fst rs))"] by auto
  ultimately show ?thesis using assms(3) unfolding sorted_wrt_append by blast
qed

text \<open>All that \<open>doChoke\<close> unchokes: the chosen ones and one more.\<close>

lemma doChoke_unchoked:
  assumes d: "distinct (sw_peers s)" and srt: "by_rate srt"
    and pick: "\<forall>n>0. pick n < n"
    and room: "\<forall>p\<in>set (sw_peers s). queued (sw_obj s p) + 1 < defaultSendQueueSize"
    and rs: "rs = srt (map (\<lambda>p. (p, dl_since (sw_obj s p))) (sw_peers s))"
  shows "\<exists>opt. \<forall>p\<in>set (sw_peers s). ps_amChoking (sw_obj (doChoke srt pick s) p) \<longleftrightarrow> p \<notin> insert opt (set (to_unchoke s 0 rs))"
proof -
  let ?rated = "map (\<lambda>p. (p, dl_since (sw_obj s p))) (sw_peers s)"
  have "mset rs = mset ?rated" using srt rs by (simp add: by_rate_def)
  then have "mset (map fst rs) = mset (map fst ?rated)" unfolding mset_map by simp
  then have perm: "mset (map fst rs) = mset (sw_peers s)" by (simp add: comp_def)
  have set: "set (map fst rs) = set (sw_peers s)" by (rule mset_eq_setD [OF perm])
  have dist: "distinct (map fst rs)" using d mset_eq_imp_distinct_iff [OF perm] by blast
  define s1 where "s1 = s\<lparr>sw_obj := \<lambda>p. if p \<in> set (sw_peers s) then fst (dlRate (sw_obj s p)) else sw_obj s p\<rparr>"
  have R: "rate_loop (sw_peers s) s = (s1, ?rated)" unfolding s1_def by (rule rate_loop_spec [OF d])
  have s1: "hasAllPieces (sw_obj s1 p) = hasAllPieces (sw_obj s p)" "queued (sw_obj s1 p) = queued (sw_obj s p)" for p
    by (simp_all add: s1_def dlRate_def queued_def)
  have un: "to_unchoke s1 0 rs = to_unchoke s 0 rs" by (simp add: to_unchoke_def s1)
  have room1: "\<forall>p\<in>set (map fst rs). queued (sw_obj s1 p) < defaultSendQueueSize" using room unfolding set s1 by (auto dest: Suc_lessD)
  obtain s2 u where C: "choke_loop rs 0 s1 = (s2, u)" by fastforce
  note spec = choke_loop_spec [OF dist room1 C, unfolded un set]
  show ?thesis
  proof (cases "u < length rs")
    case False
    then have "doChoke srt pick s = s2" using R C by (simp add: doChoke_def rs)
    moreover have "hd (to_unchoke s 0 rs) \<in> set (to_unchoke s 0 rs)" if "p \<in> set (sw_peers s)" for p
    proof -
      have "rs \<noteq> []" using that set by auto
      then have "to_unchoke s 0 rs \<noteq> []" using spec False by auto
      then show ?thesis by simp
    qed
    ultimately show ?thesis using spec by (intro exI [of _ "hd (to_unchoke s 0 rs)"]) (simp add: insert_absorb)
  next
    case True
    let ?p = "fst (drop u rs ! pick (length (drop u rs)))"
    have E: "doChoke srt pick s = (case on_conn ?p Conn_Unchoke s2 of
       (s3, None) \<Rightarrow> upd_peer ?p (\<lambda>q. q\<lparr>ps_amChoking := False\<rparr>) s3 | (s3, Some _) \<Rightarrow> s3)"
      using R C True by (simp add: doChoke_def rs Let_def)
    have "drop u rs ! pick (length (drop u rs)) \<in> set (drop u rs)" using True pick by (intro nth_mem) simp
    then have "?p \<in> set (map fst rs)" by (auto dest: in_set_dropD)
    then have p: "?p \<in> set (sw_peers s)" unfolding set .
    then have q: "queued (sw_obj s2 ?p) < defaultSendQueueSize" using spec room s1(2) by auto
    show ?thesis unfolding E on_conn_choke(2) [OF q] using spec by (intro exI [of _ ?p]) auto
  qed
qed


lemma by_rate_sort_key: "by_rate (sort_key (\<lambda>x. - snd x))"
proof -
  have "sorted_wrt (\<lambda>a b :: nat \<times> int. snd b \<le> snd a) (sort_key (\<lambda>x. - snd x) xs)" for xs
    using sorted_sort_key [of "\<lambda>x. - snd x" xs] by (simp add: sorted_wrt_map)
  then show ?thesis by (simp add: by_rate_def)
qed


section \<open>Held pieces\<close>

text \<open>What can happen to a swarm: the events of \<open>downloadLoop\<close> and \<open>seedLoop\<close> in any order, peers leaving, and a piece fetched
  from the web seeds.\<close>

inductive swarm_step ::
    "'s Adaptor \<Rightarrow> (byte list \<Rightarrow> byte list) \<Rightarrow> Net \<Rightarrow> nat \<Rightarrow> 's btSwarm \<Rightarrow> 's btSwarm \<Rightarrow> bool"
  for ad sha1 net max_alloc where
  Msg: "download_msg ad sha1 net max_alloc waitOK src msg s = Some s' \<Longrightarrow> swarm_step ad sha1 net max_alloc s s'"
| SeedMsg: "seed_msg ad net max_alloc waitOK src msg s = Some s' \<Longrightarrow> swarm_step ad sha1 net max_alloc s s'"
| NewPeer: "swarm_step ad sha1 net max_alloc s (new_peer ad p s)"
| Leave: "swarm_step ad sha1 net max_alloc s (removePeer net now p s)"
| Choke: "swarm_step ad sha1 net max_alloc s (doChoke srt pick s)"
| Request: "requestPieces ad s = Some s' \<Longrightarrow> swarm_step ad sha1 net max_alloc s s'"
| Pex: "swarm_step ad sha1 net max_alloc s (sendPeerExchange net now s)"
| WebSeed: "\<not> ad_Have ad (sw_ad s) (int i) \<Longrightarrow> downloadWebSeedPiece ad sha1 fetch files i s = Some (s', e) \<Longrightarrow>
    swarm_step ad sha1 net max_alloc s s'"

text \<open>The parts of the state that decide what a piece is.\<close>

definition same_torrent :: "'s btSwarm \<Rightarrow> 's btSwarm \<Rightarrow> bool" where
  "same_torrent s s' \<longleftrightarrow> sw_numPieces s' = sw_numPieces s \<and> sw_pieceLen s' = sw_pieceLen s
     \<and> sw_pieceHashes s' = sw_pieceHashes s \<and> sw_totSize s' = sw_totSize s"

definition quiet :: "'s btSwarm \<Rightarrow> 's btSwarm \<Rightarrow> bool" where
  "quiet s s' \<longleftrightarrow> same_torrent s s' \<and> sw_ad s' = sw_ad s"

lemma quiet_refl [simp]: "quiet s s" by (simp add: quiet_def same_torrent_def)

lemma quiet_trans: "quiet s t \<Longrightarrow> quiet t u \<Longrightarrow> quiet s u"
  by (simp add: quiet_def same_torrent_def)

lemma quiet_upd [simp]: "quiet s (upd_peer p f t) = quiet s t" "quiet (upd_peer p f s) t = quiet s t"
  by (simp_all add: quiet_def same_torrent_def upd_peer_def)

lemma quiet_on_conn [simp]: "quiet s (fst (on_conn p f t)) = quiet s t"
  by (simp add: on_conn_def split_beta)

lemma on_conn_quiet: "on_conn p f s = (t, e) \<Longrightarrow> quiet s t" "on_conn p f s = (t, e) \<Longrightarrow> quiet t u = quiet s u"
  by (auto simp: on_conn_def split_beta)

lemma quiet_foldl: "(\<And>s x. quiet s (f s x)) \<Longrightarrow> quiet s (foldl f s xs)"
  by (induction xs arbitrary: s) (auto intro: quiet_trans)

lemma quiet_updateStats [simp]: "quiet s (updateStats t) = quiet s t"
  by (simp add: quiet_def same_torrent_def updateStats_def)

lemma quiet_handleMsg [simp]: "quiet s (handleMsg net m src msg s)"
proof -
  have "quiet s (handleExtended net m src msg s)"
    by (auto simp: handleExtended_def quiet_def same_torrent_def upd_peer_def split: sum.splits option.splits if_splits)
  moreover have "quiet s (handlePort net src msg s)"
    by (auto simp: handlePort_def quiet_def same_torrent_def split: sum.splits option.splits if_splits)
  ultimately show ?thesis by (simp add: handleMsg_def split: sum.splits)
qed

lemma quiet_removePeer: "quiet s (removePeer net now p s)"
  by (simp add: removePeer_def quiet_def same_torrent_def Let_def)

lemma quiet_new_peer: "quiet s (new_peer ad p s)"
  by (simp add: new_peer_def send_bitfield_def) (simp add: addPeer_def quiet_def same_torrent_def)

lemma quiet_pex: "quiet s (sendPeerExchange net now s)"
proof -
  have "quiet s (pex_to net now p s)" for s :: "'a btSwarm" and p
    by (auto simp: pex_to_def Let_def snapshotDroppedPeers_def quiet_def same_torrent_def on_conn_def upd_peer_def split_beta)
  then show ?thesis by (auto simp: sendPeerExchange_def intro: quiet_foldl)
qed

lemma quiet_request_loop: "request_loop ad eg ps s = Some s' \<Longrightarrow> quiet s s'"
proof (induction ps arbitrary: s)
  case (Cons p ps)
  have E: "quiet s (endgame_request p i b q s)" for s :: "'a btSwarm" and i b q
    by (simp add: endgame_request_def request_from_def)
  have "request_peer ad eg p s = Some t \<Longrightarrow> quiet s t" for t
    by (auto simp: request_peer_def Let_def request_from_def split: if_splits option.splits
        intro!: quiet_trans [OF _ quiet_foldl [where f = "\<lambda>s q. endgame_request p i b q s" for i b, OF E]])
  with Cons show ?case by (auto split: option.splits intro: quiet_trans)
qed simp

lemma quiet_choke_loop: "quiet s (fst (choke_loop rs k s))"
proof (induction rs k s rule: choke_loop.induct)
  case (2 p r rs unchoked s)
  then show ?case
    by (auto simp: on_conn_quiet(2) split: prod.splits option.splits)
qed simp

lemma quiet_doChoke: "quiet s (doChoke srt pick s)"
proof -
  have R: "quiet s (fst (rate_loop ps s))" for s :: "'a btSwarm" and ps
  proof (induction ps arbitrary: s)
    case (Cons p ps)
    from Cons [of "upd_peer p (\<lambda>_. fst (dlRate (sw_obj s p))) s"] show ?case by (simp add: split_beta)
  qed simp
  have "quiet s (fst (choke_loop rs 0 (fst (rate_loop ps s))))" for rs ps
    by (rule quiet_trans [OF R quiet_choke_loop])
  then show ?thesis
    by (auto simp: doChoke_def Let_def split_beta split: option.splits)
qed

lemma quiet_handleRequest: "handleRequest ad w src msg s = Some s' \<Longrightarrow> quiet s s'"
  using quiet_on_conn [of s src _ s]
  by (auto simp: handleRequest_def Let_def quiet_def same_torrent_def on_conn_def upd_peer_def
      split: sum.splits prod.splits if_splits option.splits)

text \<open>The bytes read for the piece, its length or fewer when the read stopped early, have the digest of the torrent.\<close>

definition piece_verified :: "('s \<Rightarrow> int \<Rightarrow> byte) \<Rightarrow> (byte list \<Rightarrow> byte list) \<Rightarrow> 's btSwarm \<Rightarrow> nat \<Rightarrow> bool" where
  "piece_verified view sha1 s i \<longleftrightarrow>
     (\<exists>blen n. pieceLengthAt s (int i) = Some blen \<and> n \<le> nat blen
        \<and> sha1 (map (\<lambda>j. view (sw_ad s) (int i * sw_pieceLen s + int j)) [0..<n]) = piece_hash s i)"

lemma pieceLengthAt_cong: "same_torrent s t \<Longrightarrow> pieceLengthAt t i = pieceLengthAt s i"
  by (simp add: same_torrent_def pieceLengthAt_def Let_def)

lemma pieceLengthAt_pos: "0 < sw_pieceLen s \<Longrightarrow> pieceLengthAt s i = Some b \<Longrightarrow> 0 < b \<and> b \<le> sw_pieceLen s"
  by (auto simp: pieceLengthAt_def Let_def pos_mod_bound order_less_imp_le split: if_splits)

lemma piece_verified_cong:
  assumes "same_torrent s t" "view (sw_ad t) = view (sw_ad s)"
  shows "piece_verified view sha1 t i = piece_verified view sha1 s i"
  using assms unfolding piece_verified_def pieceLengthAt_cong [OF assms(1)] by (simp add: same_torrent_def piece_hash_def)

context adaptor
begin

definition gains :: "(byte list \<Rightarrow> byte list) \<Rightarrow> 's btSwarm \<Rightarrow> 's btSwarm \<Rightarrow> bool" where
  "gains sha1 s t \<longleftrightarrow> ok (sw_ad t) \<and> same_torrent s t
     \<and> (\<forall>j. ad_Have ad (sw_ad t) j \<and> \<not> ad_Have ad (sw_ad s) j \<longrightarrow> 0 \<le> j \<and> piece_verified view sha1 t (nat j))"

lemma gains_quiet: "gains sha1 s t \<Longrightarrow> quiet t u \<Longrightarrow> gains sha1 s u"
  using piece_verified_cong [of t u view] by (auto simp: gains_def quiet_def same_torrent_def)

lemma quiet_gains: "ok (sw_ad s) \<Longrightarrow> quiet s t \<Longrightarrow> gains sha1 s t"
  by (simp add: gains_def quiet_def)

lemma gains_after: "same_torrent s t \<Longrightarrow> ad_Have ad (sw_ad t) = ad_Have ad (sw_ad s) \<Longrightarrow> gains sha1 t u \<Longrightarrow> gains sha1 s u"
  by (simp add: gains_def same_torrent_def)

lemma verifyPiece_gains:
  assumes "ok (sw_ad s)" "0 < sw_pieceLen s" "verifyPiece ad sha1 idx s = Some (t, e)"
  shows "gains sha1 s t"
proof -
  obtain blen where blen: "pieceLengthAt s (int idx) = Some blen"
    using assms(3) by (auto simp: verifyPiece_def split: option.splits)
  have pos: "0 < nat blen" using pieceLengthAt_pos [OF assms(2) blen] by simp
  obtain b err where r: "ad_ReadAt ad (sw_ad s) (nat blen) (int idx * sw_pieceLen s) = (b, err)" by fastforce
  note law = read_law [OF assms(1) pos r]
  show ?thesis
  proof (cases "t = s")
    case True
    then show ?thesis using assms(1) by (simp add: quiet_gains)
  next
    case False
    then have t: "t = s\<lparr>sw_ad := ad_MarkPiece ad (sw_ad s) (int idx) True\<rparr>" "sha1 b = piece_hash s idx"
      using assms(3) blen r by (auto simp: verifyPiece_def split: if_splits)
    have same: "same_torrent s t" by (simp add: t same_torrent_def)
    have b: "b = map (\<lambda>j. view (sw_ad s) (int idx * sw_pieceLen s + int j)) [0..<length b]" using reads_map law by blast
    have "piece_verified view sha1 s idx"
      unfolding piece_verified_def using blen law t(2) b by (intro exI [of _ blen] exI [of _ "length b"]) simp
    then have "piece_verified view sha1 t idx"
      using piece_verified_cong [OF same, of view] mark_keeps(3) [OF assms(1)] by (simp add: t)
    then show ?thesis
      using mark_keeps(1) [OF assms(1)] have_mark [OF assms(1)] same by (auto simp: gains_def t split: if_splits)
  qed
qed

lemma unmark_gains: "gains sha1 s t \<Longrightarrow> gains sha1 s (unmark ad i t)"
  using mark_keeps [of "sw_ad t" "int i" False] have_mark [of "sw_ad t" "int i" False]
    piece_verified_cong [of t "unmark ad i t" view]
  by (auto simp: gains_def unmark_def same_torrent_def split: if_splits)

lemma ctl_gains: "gains sha1 s t \<Longrightarrow> gains sha1 s (t\<lparr>sw_ctl := c\<rparr>)"
  by (rule gains_quiet) (simp_all add: quiet_def same_torrent_def)

text \<open>A write that changes no mark, then the verification with its consequences.\<close>

lemma write_verify_gains:
  assumes "ok (sw_ad s)" "0 < sw_pieceLen s" "ad_WriteAt ad (sw_ad s) data off = (a, n, e)"
    and s1: "same_torrent s s1" "sw_ad s1 = a" and v: "verifyPiece ad sha1 idx s1 = Some (t, e')"
  shows "gains sha1 s t"
proof -
  have a: "ok a" "ad_Have ad a = ad_Have ad (sw_ad s)" using write_law [OF assms(1,3)] by blast+
  have "0 < sw_pieceLen s1" using assms(2) s1(1) by (simp add: same_torrent_def)
  from verifyPiece_gains [OF _ this v] have g: "gains sha1 s1 t" using a s1(2) by simp
  show ?thesis by (rule gains_after [OF s1(1) _ g]) (simp add: s1(2) a(2))
qed

lemma write_gains:
  assumes "ok (sw_ad s)" "ad_WriteAt ad (sw_ad s) data off = (a, n, e)" "same_torrent s t" "sw_ad t = a"
  shows "gains sha1 s t"
  using write_law [OF assms(1,2)] assms(3,4) by (simp add: gains_def)

lemma handlePiece_gains:
  assumes ok: "ok (sw_ad s)" "0 < sw_pieceLen s" and H: "handlePiece ad sha1 w src msg s = Some t"
  shows "gains sha1 s t"
proof (cases "UnmarshalPiece msg")
  case (Inl e)
  then show ?thesis using H ok by (simp add: handlePiece_def quiet_gains)
next
  case (Inr m)
  obtain idx off data where m: "m = (idx, off, data)" by (cases m)
  obtain a n e where W: "ad_WriteAt ad (sw_ad s) data (idx * sw_pieceLen s + off) = (a, n, e)" by (metis prod_cases3)
  define s1 where "s1 = upd_peer src (\<lambda>p. p\<lparr>ps_dlBytes := ps_dlBytes p + int n, ps_outstanding := ps_outstanding p - 1\<rparr>)
                          (s\<lparr>sw_ad := a, sw_bytesDownloaded := sw_bytesDownloaded s + int n\<rparr>)"
  have s1: "same_torrent s s1" "sw_ad s1 = a" by (simp_all add: s1_def same_torrent_def upd_peer_def)
  consider "t = s" | "t = s\<lparr>sw_ad := a\<rparr>" | "quiet s1 t"
    | s2 e' where "verifyPiece ad sha1 (nat idx) s1 = Some (s2, Some e')" "t = unmark ad (nat idx) s2"
    | s2 where "verifyPiece ad sha1 (nat idx) s1 = Some (s2, None)"
        "t = send_all (\<lambda>c. Conn_Have c idx) (sw_peers s2) (s2\<lparr>sw_ctl := markControlPiece (sw_ctl s2) idx True\<rparr>)"
    using H Inr m W unfolding handlePiece_def s1_def
    by (auto simp: Let_def split: if_splits option.splits prod.splits)
  then show ?thesis
  proof cases
    case 1 then show ?thesis using ok by (simp add: quiet_gains)
  next
    case 2 then show ?thesis by (intro write_gains [OF ok(1) W]) (simp_all add: same_torrent_def)
  next
    case 3 then show ?thesis using gains_quiet write_gains [OF ok(1) W s1] by blast
  next
    case 4 then show ?thesis using unmark_gains write_verify_gains [OF ok W s1] by blast
  next
    case 5
    have q: "quiet s (send_all f ps s)" for f ps and s :: "'s btSwarm" unfolding send_all_def by (rule quiet_foldl) simp
    show ?thesis unfolding 5(2) by (rule gains_quiet [OF ctl_gains [OF write_verify_gains [OF ok W s1 5(1)]] q])
  qed
qed

lemma downloadWebSeedPiece_gains:
  assumes ok: "ok (sw_ad s)" "0 < sw_pieceLen s" and D: "downloadWebSeedPiece ad sha1 fetch files i s = Some (t, e)"
  shows "gains sha1 s t"
proof -
  obtain len where len: "pieceLengthAt s (int i) = Some len" using D by (auto simp: downloadWebSeedPiece_def split: option.splits)
  show ?thesis
  proof (cases "fill_loop fetch (int i * sw_pieceLen s) (int i * sw_pieceLen s + len) files (replicate (nat len) 0)")
    case (Inl x)
    then show ?thesis using D len ok by (simp add: downloadWebSeedPiece_def Let_def quiet_gains)
  next
    case (Inr buf)
    obtain a n e' where W: "ad_WriteAt ad (sw_ad s) buf (int i * sw_pieceLen s) = (a, n, e')" by (metis prod_cases3)
    note D' = D [unfolded downloadWebSeedPiece_def Let_def len option.case Inr sum.case W prod.case]
    show ?thesis
    proof (cases e')
      case (Some x)
      then have "t = s\<lparr>sw_ad := a\<rparr>" using D' by simp
      then show ?thesis by (intro write_gains [OF ok(1) W]) (simp_all add: same_torrent_def)
    next
      case None
      let ?s = "s\<lparr>sw_ad := a, sw_bytesDownloaded := sw_bytesDownloaded s + int n\<rparr>"
      obtain s1 x where V: "verifyPiece ad sha1 i ?s = Some (s1, x)" using D' None by (auto split: option.splits)
      have "gains sha1 s s1" by (rule write_verify_gains [OF ok W _ _ V]) (simp_all add: same_torrent_def)
      then show ?thesis using D' None V unmark_gains ctl_gains by (cases x) auto
    qed
  qed
qed

lemma swarm_step_gains:
  assumes "swarm_step ad sha1 net m s t" "ok (sw_ad s)" "0 < sw_pieceLen s"
  shows "gains sha1 s t"
  using assms
proof induction
  case (Msg w src msg s s')
  let ?s = "updateStats (handleMsg net m src msg s)"
  have q: "quiet s ?s" by simp
  then have ok: "ok (sw_ad ?s)" "0 < sw_pieceLen ?s" "same_torrent s ?s" "ad_Have ad (sw_ad ?s) = ad_Have ad (sw_ad s)"
    using Msg.prems by (simp_all only: quiet_def same_torrent_def)
  have "gains sha1 ?s s'"
    using Msg.hyps unfolding download_msg_def Let_def
    by (auto split: if_splits intro: handlePiece_gains [OF ok(1,2)] quiet_gains [OF ok(1)] quiet_handleRequest)
  then show ?case by (rule gains_after [OF ok(3,4)])
next
  case (SeedMsg w src msg s s')
  have "quiet s s'" using SeedMsg.hyps quiet_handleRequest [of ad w src msg "updateStats (handleMsg net m src msg s)" s']
      quiet_trans [of s "updateStats (handleMsg net m src msg s)" s']
    unfolding seed_msg_def Let_def by (auto split: if_splits)
  then show ?case by (rule quiet_gains [OF SeedMsg.prems(1)])
next
  case (Request s s')
  then show ?case unfolding requestPieces_def by (intro quiet_gains quiet_request_loop)
next
  case (WebSeed s i fetch files s' e)
  then show ?case using downloadWebSeedPiece_gains by blast
qed (auto intro!: quiet_gains quiet_removePeer quiet_new_peer quiet_doChoke quiet_pex)

end

text \<open>\<open>downloadWebSeeds\<close> is such a sequence of steps.\<close>

lemma web_seed_loop_steps:
  "web_seed_loop ad sha1 fetch c files is s = Some (t, e) \<Longrightarrow> (swarm_step ad sha1 net m)\<^sup>*\<^sup>* s t"
proof (induction "is" arbitrary: s)
  case (Cons i "is")
  show ?case
  proof (cases "ad_Have ad (sw_ad s) (int i) \<or> c i")
    case True
    then show ?thesis using Cons by (auto split: if_splits)
  next
    case False
    then obtain s1 e1 where D: "downloadWebSeedPiece ad sha1 fetch files i s = Some (s1, e1)"
      using Cons.prems by (auto split: option.splits)
    have st: "swarm_step ad sha1 net m s s1" using False D by (auto intro: swarm_step.WebSeed)
    show ?thesis
    proof (cases e1)
      case None
      then have "(swarm_step ad sha1 net m)\<^sup>*\<^sup>* s1 t" using Cons False D by simp
      with st show ?thesis by (rule converse_rtranclp_into_rtranclp)
    next
      case (Some x)
      then show ?thesis using Cons.prems False D st by auto
    qed
  qed
qed simp


definition demo_sha1 :: "byte list \<Rightarrow> byte list" where
  "demo_sha1 b = take 20 (b @ replicate 20 0)"

definition demo_net :: Net where
  "demo_net = \<lparr>net_ip = (\<lambda>_. None), net_port = (\<lambda>_. 0), net_join = (\<lambda>_ _. [])\<rparr>"

definition block_msg :: "int \<Rightarrow> byte list \<Rightarrow> Message" where
  "block_msg i data = NewMessage MsgPiece (put_int i @ put_int 0 @ data)"

text \<open>The block of the first piece arrives.\<close>

lemma demo_step:
  "\<exists>t. swarm_step (single_adaptor faultless) demo_sha1 demo_net 0 demo_swarm t
     \<and> ad_Have (single_adaptor faultless) (sw_ad t) 0"
proof -
  have "case download_msg (single_adaptor faultless) demo_sha1 demo_net 0 True 0 (block_msg 0 [7]) demo_swarm of
      None \<Rightarrow> False | Some t \<Rightarrow> ad_Have (single_adaptor faultless) (sw_ad t) 0"
    by code_simp
  then show ?thesis by (auto split: option.splits intro: swarm_step.Msg)
qed


section \<open>What the swarm does not handle\<close>

text \<open>A torrent whose piece length is 0 is accepted by \<open>torrent.Load\<close>; as soon as a peer that has the last piece is asked for it
  the remainder is a division by zero.\<close>

lemma zero_piece_length_panics:
  assumes "sw_pieceLen s = 0" "choosePieceLocked ad p s = Some i" "Suc i = sw_numPieces s"
    and "ps_outstanding (sw_obj s p) < btMaxPendingRequests"
  shows "request_peer ad eg p s = None"
  using assms by (simp add: request_peer_def pieceLengthAt_def flip: assms(3))

text \<open>A block of a piece that is already held, and that does not reach the end of the piece, is written over the verified
  bytes; the piece stays held and is not verified again.\<close>

lemma held_piece_overwritten:
  assumes "UnmarshalPiece msg = Inr (idx, off, data)" "pieceLengthAt s idx = Some len" "off + int (length data) < len"
    and "SingleFile_WriteAt dev sf st data (idx * sw_pieceLen s + off) = (st', n, None)" "sw_ad s = (sf, st)"
  shows "\<exists>t. handlePiece (single_adaptor dev) sha1 True src msg s = Some t \<and> sw_ad t = (sf, st')
     \<and> ad_Have (single_adaptor dev) (sw_ad t) = ad_Have (single_adaptor dev) (sw_ad s)
     \<and> sf_view sf st' = overlay (sf_view sf st) (idx * sw_pieceLen s + off) data"
proof -
  have n: "n = length data" "sf_view sf st' = overlay (sf_view sf st) (idx * sw_pieceLen s + off) data"
    using SingleFile_WriteAt_spec [OF assms(4)] by auto
  show ?thesis
    using assms n by (auto simp: handlePiece_def Let_def on_conn_def split_beta)
qed

text \<open>Requests that are never answered are never taken back: neither \<open>Choke\<close> nor any other message lowers the count of a
  peer's outstanding requests, and with eight of them it is asked for nothing.\<close>

lemma messages_keep_outstanding: "ps_outstanding (sw_obj (handleMsg net m src msg s) p) = ps_outstanding (sw_obj s p)"
proof -
  have "ps_outstanding (setPiece q i) = ps_outstanding q" for q i by (simp add: setPiece_def split: option.split)
  moreover have "ps_outstanding (sw_obj (handleExtended net m src msg s) p) = ps_outstanding (sw_obj s p)"
    by (auto simp: handleExtended_def split: sum.splits option.splits)
  moreover have "sw_obj (handlePort net src msg s) p = sw_obj s p"
    by (auto simp: handlePort_def split: sum.splits option.splits)
  ultimately show ?thesis by (auto simp: handleMsg_def split: sum.splits)
qed

lemma on_conn_obj: "q \<noteq> p \<Longrightarrow> sw_obj (fst (on_conn p f s)) q = sw_obj s q"
  "ps_outstanding (sw_obj (fst (on_conn p f s)) q) = ps_outstanding (sw_obj s q)"
  by (simp_all add: on_conn_def split_beta)

lemma busy_peer_not_asked:
  assumes "btMaxPendingRequests * 2 \<le> ps_outstanding (sw_obj s p)" "request_loop ad eg ps s = Some t"
  shows "sw_obj t p = sw_obj s p"
  using assms
proof (induction ps arbitrary: s)
  case (Cons q ps)
  have F: "btMaxPendingRequests * 2 \<le> ps_outstanding (sw_obj u p) \<Longrightarrow>
      sw_obj (foldl (\<lambda>s q. endgame_request r i b q s) u qs) p = sw_obj u p" for u r i b qs
  proof (induction qs arbitrary: u)
    case (Cons x qs)
    have "sw_obj (endgame_request r i b x u) p = sw_obj u p"
      using Cons.prems by (cases "x = p") (simp_all add: endgame_request_def request_from_def on_conn_obj)
    with Cons show ?case by simp
  qed simp
  obtain u where u: "request_peer ad eg q s = Some u" "request_loop ad eg ps u = Some t"
    using Cons.prems(2) by (auto split: option.splits)
  have "sw_obj u p = sw_obj s p"
  proof (cases "q = p")
    case True
    then show ?thesis using u(1) Cons.prems(1) by (simp add: request_peer_def btMaxPendingRequests_def)
  next
    case False
    have keep: "sw_obj (request_from q i b s) p = sw_obj s p" for i b using False by (simp add: request_from_def on_conn_obj)
    show ?thesis using u(1) Cons.prems(1)
      by (auto simp: request_peer_def Let_def keep F split: if_splits option.splits)
  qed
  with Cons u(2) show ?case by metis
qed simp

end
