(* ===== verification/Utp.thy ===== *)
theory Utp
  imports NetAddr "HOL-Library.Sublist"
begin

unbundle bit_operations_syntax

text \<open>
  The uTP transport, \<open>src/internal/protocol/bittorrent/utp/utp.go\<close>: packets, the selective acknowledgement mask, delay-based congestion
  control, and a connection with its handshakes, its send and receive buffers, retransmission, reading, writing and closing. A
  connection is a record; what it sends is appended to a list of packets. The clock is an argument. Writing to the socket
  succeeds. A panic is \<open>None\<close>.

  Shown: packets survive encoding; between two connections over a network that loses, repeats and reorders packets, what is read is always a prefix of what was
  written, also when the 16-bit sequence numbers wrap around. And defects: a packet lost before another arrives is never
  sent again, the end of a stream is neither sent nor noticed, and a second reset panics.
\<close>

section \<open>Packets\<close>

definition stData :: byte where "stData = 0"

definition stFin :: byte where "stFin = 1"

definition stState :: byte where "stState = 2"

definition stReset :: byte where "stReset = 3"

definition stSyn :: byte where "stSyn = 4"

definition headerSize :: nat where "headerSize = 20"

definition minPacketSize :: int where "minPacketSize = 150"

definition maxPacketSize :: int where "maxPacketSize = 1500"

definition recvBufferSize :: uint32 where "recvBufferSize = 65536"

record utpPacket =
  up_typ :: byte
  up_ver :: byte
  up_ext :: uint16
  up_connID :: uint16
  up_timestamp :: uint32
  up_tsDiff :: uint32
  up_wndSize :: uint32
  up_seqNr :: uint16
  up_ackNr :: uint16
  up_payload :: "byte list"
  up_selectiveAck :: "byte list option"

definition hasPayload :: "utpPacket \<Rightarrow> bool" where
  "hasPayload p \<longleftrightarrow> up_typ p = stData \<or> up_typ p = stSyn"

text \<open>The field \<open>ext\<close> is not written: the byte says whether there is a mask.\<close>

definition utp_encode :: "utpPacket \<Rightarrow> byte list" where
  "utp_encode p =
     (let sack = (case up_selectiveAck p of None \<Rightarrow> [] | Some m \<Rightarrow> m) in
      [push_bit 4 (up_typ p) OR (up_ver p AND 0x0F), if sack \<noteq> [] then 1 else 0]
      @ PutUint16 (up_connID p) @ PutUint32 (up_timestamp p) @ PutUint32 (up_tsDiff p) @ PutUint32 (up_wndSize p)
      @ PutUint16 (up_seqNr p) @ PutUint16 (up_ackNr p)
      @ (if sack \<noteq> [] then [0, of_nat (length sack)] @ sack else [])
      @ up_payload p)"

datatype utp_error = ErrShortPacket | ErrBadVersion | ErrConnClosed | ErrConnTimeout | ErrConnReset | ErrUnexpected byte | ErrReadTimeout | ErrEOF

text \<open>The chain of extensions; a truncated one ends the loop and counts as payload.\<close>

function read_exts :: "byte \<Rightarrow> byte list \<Rightarrow> byte list option \<Rightarrow> byte list option \<times> byte list" where
  "read_exts readExt extBuf sack =
     (if readExt = 0 \<or> length extBuf < 2 then (sack, extBuf)
      else
        let extLen = unat (extBuf ! 1) in
        if length extBuf < 2 + extLen then (sack, extBuf)
        else read_exts (extBuf ! 0) (drop (2 + extLen) extBuf)
               (if readExt = 1 then Some (take extLen (drop 2 extBuf)) else sack))"
  by pat_completeness auto
termination by (relation "measure (\<lambda>(readExt, extBuf, sack). length extBuf)") auto

declare read_exts.simps [simp del]

definition decodePacket :: "byte list \<Rightarrow> utp_error + utpPacket" where
  "decodePacket buf =
     (if length buf < headerSize then Inl ErrShortPacket
      else
        let verTyp = buf ! 0 in
        if verTyp AND 0x0F \<noteq> 1 then Inl ErrBadVersion
        else
          let (sack, rest) = read_exts (buf ! 1) (drop headerSize buf) None in
          Inr \<lparr>up_typ = drop_bit 4 verTyp, up_ver = verTyp AND 0x0F, up_ext = ucast (buf ! 1),
               up_connID = Uint16 (drop 2 buf), up_timestamp = Uint32 (drop 4 buf), up_tsDiff = Uint32 (drop 8 buf),
               up_wndSize = Uint32 (drop 12 buf), up_seqNr = Uint16 (drop 16 buf), up_ackNr = Uint16 (drop 18 buf),
               up_payload = rest, up_selectiveAck = sack\<rparr>)"

section \<open>Sequence numbers\<close>

definition seqDiff :: "uint16 \<Rightarrow> uint16 \<Rightarrow> int" where
  "seqDiff a b = (uint a - uint b + 65536) smod 65536"

definition checkBit :: "byte list \<Rightarrow> int \<Rightarrow> bool" where
  "checkBit sack offset =
     (if offset < 0 then False
      else let idx = nat (offset div 8) in if length sack \<le> idx then False else bit (sack ! idx) (nat (offset mod 8)))"

definition isAcked :: "byte list option \<Rightarrow> uint16 \<Rightarrow> bool" where
  "isAcked sack seqnr = (case sack of None \<Rightarrow> False | Some m \<Rightarrow> checkBit m (uint seqnr - 2))"

definition ackedPackets :: "byte list option \<Rightarrow> uint16 \<Rightarrow> uint16 list" where
  "ackedPackets sack baseSeq =
     (case sack of
        None \<Rightarrow> []
      | Some m \<Rightarrow>
          concat (map (\<lambda>byteIdx. map (\<lambda>b. baseSeq + of_nat (byteIdx * 8 + b) + 2) (filter (\<lambda>b. bit (m ! byteIdx) b) [0..<8]))
            [0..<length m]))"

section \<open>Congestion control\<close>

text \<open>Durations are in nanoseconds. The change of the window in \<open>updateWindow\<close> is computed in floating point and is an argument.\<close>

record ledbatCC =
  cc_baseDelay :: int
  cc_currentDelay :: int
  cc_ourDelay :: int
  cc_maxWindow :: int
  cc_curWindow :: int
  cc_rtt :: int
  cc_rttVar :: int
  cc_timeoutVal :: int
  cc_lastDelayTime :: int

definition newLEDBAT :: ledbatCC where
  "newLEDBAT = \<lparr>cc_baseDelay = 0, cc_currentDelay = 0, cc_ourDelay = 0, cc_maxWindow = 2 * maxPacketSize, cc_curWindow = 0, cc_rtt = 0,
     cc_rttVar = 0, cc_timeoutVal = 1000000000, cc_lastDelayTime = 0\<rparr>"

definition updateDelay :: "int \<Rightarrow> int \<Rightarrow> ledbatCC \<Rightarrow> ledbatCC" where
  "updateDelay now delay cc =
     (let cc = cc\<lparr>cc_currentDelay := delay\<rparr> in
      if cc_baseDelay cc = 0 \<or> delay < cc_baseDelay cc then cc\<lparr>cc_baseDelay := delay, cc_lastDelayTime := now\<rparr> else cc)"

definition updateWindow :: "int \<Rightarrow> int \<Rightarrow> ledbatCC \<Rightarrow> ledbatCC" where
  "updateWindow windowChange outstanding cc =
     (let cc = cc\<lparr>cc_curWindow := outstanding\<rparr> in
      if cc_baseDelay cc = 0 then cc
      else
        let newWindow = max (cc_maxWindow cc + windowChange) (minPacketSize * 2)
        in cc\<lparr>cc_ourDelay := cc_currentDelay cc - cc_baseDelay cc, cc_maxWindow := newWindow mod 2 ^ 32\<rparr>)"

definition applyCC :: "int \<Rightarrow> ledbatCC \<Rightarrow> ledbatCC" where
  "applyCC now cc = cc\<lparr>cc_lastDelayTime := now\<rparr>"

definition cc_updateRTT :: "int \<Rightarrow> ledbatCC \<Rightarrow> ledbatCC" where
  "cc_updateRTT rtt cc =
     (let cc = (if cc_rtt cc = 0 then cc\<lparr>cc_rtt := rtt, cc_rttVar := rtt sdiv 2\<rparr>
                else
                  let delta = \<bar>cc_rtt cc - rtt\<bar>
                  in cc\<lparr>cc_rttVar := cc_rttVar cc + (delta - cc_rttVar cc) sdiv 4, cc_rtt := cc_rtt cc + (rtt - cc_rtt cc) sdiv 8\<rparr>)
      in cc\<lparr>cc_timeoutVal := max (cc_rtt cc + cc_rttVar cc * 4) 500000000\<rparr>)"

text \<open>The window is halved in floating point, which is exact for 32 bits.\<close>

definition onLoss :: "ledbatCC \<Rightarrow> ledbatCC" where
  "onLoss cc = cc\<lparr>cc_maxWindow := max (cc_maxWindow cc div 2) (minPacketSize * 2), cc_timeoutVal := wrap64 (cc_timeoutVal cc * 2)\<rparr>"

definition cc_timeout :: "ledbatCC \<Rightarrow> int" where
  "cc_timeout cc = (if cc_rtt cc = 0 then cc_timeoutVal cc else max (cc_rtt cc + cc_rttVar cc * 4) 500000000)"

section \<open>Connections\<close>

datatype connState = CsSynSent | CsSynRecv | CsConnected | CsFinSent | CsFinRecv | CsClosed

record sentPacket =
  sp_seqNr :: uint16
  sp_data :: "byte list"
  sp_sendTime :: int
  sp_retransmit :: nat

text \<open>\<open>uc_out\<close> are the packets sent, \<open>uc_closeCh\<close> whether the channel that ends the goroutines is closed. A nil read buffer is \<open>None\<close>.\<close>

record utpConn =
  uc_connIDLocal :: uint16
  uc_connIDRecv :: uint16
  uc_state :: connState
  uc_seqNr :: uint16
  uc_ackNr :: uint16
  uc_eofSeqNr :: uint16
  uc_hasEOF :: bool
  uc_sendBuf :: "sentPacket list"
  uc_recvBuf :: "uint16 \<Rightarrow> byte list option"
  uc_nextExpected :: uint16
  uc_cc :: ledbatCC
  uc_incoming :: "utpPacket list"
  uc_closed :: bool
  uc_closeCh :: bool
  uc_closeErr :: "utp_error option"
  uc_lastActivity :: int
  uc_wndSize :: uint32
  uc_sentTimes :: "uint16 \<Rightarrow> int option"
  uc_replyMicro :: uint32
  uc_readBuf :: "byte list option"
  uc_readBufOff :: nat
  uc_readBufEnd :: nat
  uc_out :: "utpPacket list"

definition newConn :: "int \<Rightarrow> uint16 \<Rightarrow> uint16 \<Rightarrow> bool \<Rightarrow> uint16 \<Rightarrow> utpConn" where
  "newConn now connIDLocal connIDRecv isInitiator random =
     \<lparr>uc_connIDLocal = connIDLocal, uc_connIDRecv = connIDRecv, uc_state = (if isInitiator then CsSynSent else CsClosed),
      uc_seqNr = (if isInitiator then 1 else random), uc_ackNr = 0, uc_eofSeqNr = 0, uc_hasEOF = False, uc_sendBuf = [],
      uc_recvBuf = (\<lambda>_. None), uc_nextExpected = 0, uc_cc = newLEDBAT, uc_incoming = [], uc_closed = False, uc_closeCh = False,
      uc_closeErr = None, uc_lastActivity = now, uc_wndSize = recvBufferSize, uc_sentTimes = (\<lambda>_. None), uc_replyMicro = 0,
      uc_readBuf = None, uc_readBufOff = 0, uc_readBufEnd = 0, uc_out = []\<rparr>"

definition blank_packet :: "byte \<Rightarrow> utpPacket" where
  "blank_packet typ = \<lparr>up_typ = typ, up_ver = 1, up_ext = 0, up_connID = 0, up_timestamp = 0, up_tsDiff = 0, up_wndSize = 0, up_seqNr = 0,
     up_ackNr = 0, up_payload = [], up_selectiveAck = None\<rparr>"

text \<open>A closed connection sends nothing.\<close>

definition sendRaw :: "utpPacket \<Rightarrow> utpConn \<Rightarrow> utpConn" where
  "sendRaw p c = (if uc_closed c then c else c\<lparr>uc_out := uc_out c @ [p]\<rparr>)"

subsection \<open>Handshakes\<close>

text \<open>\<open>dialHandshake\<close> up to the wait, and with the packet that ends it.\<close>

definition dial_syn :: "int \<Rightarrow> uint32 \<Rightarrow> utpConn \<Rightarrow> utpConn" where
  "dial_syn now micros c =
     (let syn = (blank_packet stSyn)\<lparr>up_connID := uc_connIDRecv c, up_timestamp := micros, up_seqNr := uc_seqNr c\<rparr>;
          c = sendRaw syn (c\<lparr>uc_seqNr := uc_seqNr c + 1\<rparr>)
      in c\<lparr>uc_sentTimes := (uc_sentTimes c)(up_seqNr syn \<mapsto> now)\<rparr>)"

definition dial_answer :: "utpPacket \<Rightarrow> utpConn \<Rightarrow> utp_error + utpConn" where
  "dial_answer pkt c =
     (if up_typ pkt \<noteq> stState then Inl (ErrUnexpected (up_typ pkt))
      else Inr (c\<lparr>uc_connIDRecv := up_connID pkt, uc_ackNr := up_seqNr pkt, uc_nextExpected := up_seqNr pkt + 1, uc_state := CsConnected\<rparr>))"

definition acceptHandshake :: "uint32 \<Rightarrow> utpPacket \<Rightarrow> utpConn \<Rightarrow> utpConn" where
  "acceptHandshake micros syn c =
     (let c = c\<lparr>uc_ackNr := up_seqNr syn, uc_state := CsSynRecv\<rparr>;
          statePkt = (blank_packet stState)\<lparr>up_connID := uc_connIDLocal c, up_timestamp := micros, up_seqNr := uc_seqNr c,
            up_ackNr := uc_ackNr c, up_wndSize := uc_wndSize c\<rparr>;
          c = sendRaw statePkt (c\<lparr>uc_seqNr := uc_seqNr c + 1\<rparr>)
      in c\<lparr>uc_state := CsConnected, uc_nextExpected := up_seqNr syn + 1\<rparr>)"

subsection \<open>Incoming packets\<close>

text \<open>The queue of incoming packets holds 256; others are dropped.\<close>

definition deliverPacket :: "int \<Rightarrow> utpPacket \<Rightarrow> utpConn \<Rightarrow> utpConn" where
  "deliverPacket now pkt c =
     (let c = c\<lparr>uc_lastActivity := now\<rparr>;
          c = (if up_tsDiff pkt \<noteq> 0 then c\<lparr>uc_cc := updateDelay now (uint (up_tsDiff pkt) * 1000) (uc_cc c)\<rparr> else c)
      in if length (uc_incoming c) < 256 then c\<lparr>uc_incoming := uc_incoming c @ [pkt]\<rparr> else c)"

definition updateRTT :: "int \<Rightarrow> uint32 \<Rightarrow> utpPacket \<Rightarrow> utpConn \<Rightarrow> utpConn" where
  "updateRTT now micros pkt c =
     (let c = (if up_tsDiff pkt \<noteq> 0 then c\<lparr>uc_replyMicro := micros - up_timestamp pkt\<rparr> else c)
      in case uc_sentTimes c (up_ackNr pkt) of
           None \<Rightarrow> c
         | Some sendTime \<Rightarrow>
             c\<lparr>uc_cc := cc_updateRTT (now - sendTime) (uc_cc c), uc_sentTimes := (uc_sentTimes c)(up_ackNr pkt := None)\<rparr>)"

text \<open>The loop of \<open>deliverData\<close>: consecutive packets leave the buffer. The result has the bytes they carry.\<close>

function drain :: "(uint16 \<Rightarrow> byte list option) \<Rightarrow> uint16 \<Rightarrow> byte list \<Rightarrow> (uint16 \<Rightarrow> byte list option) \<times> uint16 \<times> byte list" where
  "drain recv nxt got =
     (case recv nxt of
        None \<Rightarrow> (recv, nxt, got)
      | Some payload \<Rightarrow> drain (recv(nxt := None)) (nxt + 1) (got @ payload))"
  by pat_completeness auto
termination
proof (relation "measure (\<lambda>(recv, nxt, got). card (dom recv))")
  fix recv :: "uint16 \<Rightarrow> byte list option" and nxt got payload
  assume "recv nxt = Some payload"
  then have "nxt \<in> dom recv" by auto
  moreover have "finite (dom recv)" by (rule finite_subset [OF subset_UNIV]) simp
  ultimately show "((recv(nxt := None), nxt + 1, got @ payload), recv, nxt, got) \<in> measure (\<lambda>(recv, nxt, got). card (dom recv))"
    using card_Diff1_less [of "dom recv" nxt] by simp
qed simp

declare drain.simps [simp del]

text \<open>A buffer that was read to its end is replaced by a new one.\<close>

definition append_readBuf :: "byte list \<Rightarrow> utpConn \<Rightarrow> utpConn" where
  "append_readBuf payload c =
     (if payload = [] then c
      else
        let (buf, off) = (case uc_readBuf c of
                            None \<Rightarrow> ([], 0)
                          | Some b \<Rightarrow> if length b \<le> uc_readBufOff c then ([], 0) else (b, uc_readBufOff c))
        in c\<lparr>uc_readBuf := Some (buf @ payload), uc_readBufOff := off, uc_readBufEnd := length (buf @ payload)\<rparr>)"

definition deliverData :: "uint16 \<Rightarrow> byte list \<Rightarrow> utpConn \<Rightarrow> utpConn" where
  "deliverData seqnr data c =
     (if 32767 < seqDiff seqnr (uc_nextExpected c) then c
      else
        let (recv, nxt, got) = drain ((uc_recvBuf c)(seqnr \<mapsto> data)) (uc_nextExpected c) []
        in append_readBuf got (c\<lparr>uc_recvBuf := recv, uc_nextExpected := nxt\<rparr>))"

definition handleData :: "int \<Rightarrow> int \<Rightarrow> utpPacket \<Rightarrow> utpConn \<Rightarrow> utpConn" where
  "handleData now windowChange pkt c =
     (let c = deliverData (up_seqNr pkt) (up_payload pkt) (c\<lparr>uc_ackNr := up_seqNr pkt\<rparr>)
      in c\<lparr>uc_cc := applyCC now (updateWindow windowChange (int (length (uc_sendBuf c))) (uc_cc c))\<rparr>)"

definition processAcks :: "utpPacket \<Rightarrow> utpConn \<Rightarrow> utpConn" where
  "processAcks pkt c =
     c\<lparr>uc_sendBuf :=
        filter (\<lambda>sp. sp_seqNr sp \<notin> set (ackedPackets (up_selectiveAck pkt) (up_ackNr pkt)))
          (filter (\<lambda>sp. \<not> 32767 < seqDiff (sp_seqNr sp) (up_ackNr pkt)) (uc_sendBuf c))\<rparr>"

definition handleState :: "utpPacket \<Rightarrow> utpConn \<Rightarrow> utpConn" where
  "handleState pkt c = (if up_ackNr pkt \<noteq> 0 then processAcks pkt c else c)"

definition handleFin :: "utpPacket \<Rightarrow> utpConn \<Rightarrow> utpConn" where
  "handleFin pkt c =
     (let c = c\<lparr>uc_ackNr := up_seqNr pkt, uc_hasEOF := True, uc_eofSeqNr := up_seqNr pkt\<rparr>
      in if uc_state c = CsFinSent then c\<lparr>uc_state := CsClosed\<rparr> else c)"

text \<open>Closing a closed channel panics.\<close>

definition closeWithError :: "utp_error \<Rightarrow> utpConn \<Rightarrow> utpConn option" where
  "closeWithError err c =
     (if uc_closeCh c then None else Some (c\<lparr>uc_closeErr := Some err, uc_closed := True, uc_closeCh := True\<rparr>))"

definition sendAck :: "uint32 \<Rightarrow> utpConn \<Rightarrow> utpConn" where
  "sendAck micros c =
     (if uc_closed c \<or> uc_state c = CsClosed then c
      else sendRaw ((blank_packet stState)\<lparr>up_connID := uc_connIDRecv c, up_timestamp := micros, up_tsDiff := uc_replyMicro c,
             up_wndSize := uc_wndSize c, up_ackNr := uc_ackNr c\<rparr>) c)"

definition utp_handlePacket :: "int \<Rightarrow> uint32 \<Rightarrow> int \<Rightarrow> utpPacket \<Rightarrow> utpConn \<Rightarrow> utpConn option" where
  "utp_handlePacket now micros windowChange pkt c =
     (let c = updateRTT now micros pkt c in
      map_option (\<lambda>c.
          let c = processAcks pkt c
          in if up_seqNr pkt \<noteq> 0 \<or> up_typ pkt = stSyn then sendAck micros c else c)
        (if up_typ pkt = stData then Some (handleData now windowChange pkt c)
         else if up_typ pkt = stState then Some (handleState pkt c)
         else if up_typ pkt = stFin then Some (handleFin pkt c)
         else if up_typ pkt = stReset then closeWithError ErrConnReset c
         else Some c))"

primrec handle_all :: "int \<Rightarrow> uint32 \<Rightarrow> int \<Rightarrow> utpPacket list \<Rightarrow> utpConn \<Rightarrow> utpConn option" where
  "handle_all now micros windowChange [] c = Some c"
| "handle_all now micros windowChange (p # ps) c =
     Option.bind (utp_handlePacket now micros windowChange p c) (handle_all now micros windowChange ps)"

definition processIncoming :: "int \<Rightarrow> uint32 \<Rightarrow> int \<Rightarrow> utpConn \<Rightarrow> utpConn option" where
  "processIncoming now micros windowChange c = handle_all now micros windowChange (uc_incoming c) (c\<lparr>uc_incoming := []\<rparr>)"

subsection \<open>Retransmission, reading, writing, closing\<close>

definition data_packet :: "uint32 \<Rightarrow> uint16 \<Rightarrow> byte list \<Rightarrow> utpConn \<Rightarrow> utpPacket" where
  "data_packet micros seqnr payload c =
     (blank_packet stData)\<lparr>up_connID := uc_connIDRecv c, up_timestamp := micros, up_tsDiff := uc_replyMicro c, up_wndSize := uc_wndSize c,
        up_seqNr := seqnr, up_ackNr := uc_ackNr c, up_payload := payload\<rparr>"

primrec timeouts_loop :: "int \<Rightarrow> uint32 \<Rightarrow> sentPacket list \<Rightarrow> utpConn \<Rightarrow> sentPacket list \<times> utpConn" where
  "timeouts_loop now micros [] c = ([], c)"
| "timeouts_loop now micros (sp # sps) c =
     (if 0 < sp_retransmit sp \<or> now - sp_sendTime sp < cc_timeout (uc_cc c) then
        (let (sps', c') = timeouts_loop now micros sps c in (sp # sps', c'))
      else
        (let c = sendRaw (data_packet micros (sp_seqNr sp) (sp_data sp) c) (c\<lparr>uc_cc := onLoss (uc_cc c)\<rparr>);
             (sps', c') = timeouts_loop now micros sps c
         in (sp\<lparr>sp_retransmit := sp_retransmit sp + 1, sp_sendTime := now\<rparr> # sps', c')))"

definition checkTimeouts :: "int \<Rightarrow> uint32 \<Rightarrow> utpConn \<Rightarrow> utpConn" where
  "checkTimeouts now micros c = (let (sps, c) = timeouts_loop now micros (uc_sendBuf c) c in c\<lparr>uc_sendBuf := sps\<rparr>)"

text \<open>One turn of the loop of \<open>Read\<close> for \<open>n\<close> bytes: bytes, an error, or \<open>None\<close> when it has to wait for packets.\<close>

definition utp_Read :: "nat \<Rightarrow> utpConn \<Rightarrow> ((utp_error + byte list) option) \<times> utpConn" where
  "utp_Read n c =
     (if uc_closed c then (Some (Inl ErrConnClosed), c)
      else if uc_readBufOff c < uc_readBufEnd c then
        let got = take n (drop (uc_readBufOff c) (take (uc_readBufEnd c) (case uc_readBuf c of None \<Rightarrow> [] | Some b \<Rightarrow> b)));
            c = c\<lparr>uc_readBufOff := uc_readBufOff c + length got\<rparr>
        in (Some (Inr got),
            if uc_readBufEnd c \<le> uc_readBufOff c then c\<lparr>uc_readBuf := None, uc_readBufOff := 0, uc_readBufEnd := 0\<rparr> else c)
      else if uc_hasEOF c \<and> uc_eofSeqNr c < uc_nextExpected c then (Some (Inl ErrEOF), c)
      else (None, c))"

definition send_chunk :: "int \<Rightarrow> uint32 \<Rightarrow> byte list \<Rightarrow> utpConn \<Rightarrow> utpConn" where
  "send_chunk now micros chunk c =
     (let c = c\<lparr>uc_seqNr := uc_seqNr c + 1\<rparr>; seqnr = uc_seqNr c - 1;
          c = c\<lparr>uc_sendBuf := uc_sendBuf c @ [\<lparr>sp_seqNr = seqnr, sp_data = chunk, sp_sendTime = now, sp_retransmit = 0\<rparr>],
                uc_sentTimes := (uc_sentTimes c)(seqnr \<mapsto> now)\<rparr>
      in sendRaw (data_packet micros seqnr chunk c) c)"

text \<open>The loop of \<open>Write\<close> as far as the window allows; the result has the bytes that still wait.\<close>

definition chunkSize :: nat where
  "chunkSize = nat maxPacketSize - headerSize"

function write_loop :: "int \<Rightarrow> uint32 \<Rightarrow> byte list \<Rightarrow> utpConn \<Rightarrow> byte list \<times> utpConn" where
  "write_loop now micros remaining c =
     (if remaining = [] \<or> uc_closed c \<or> cc_maxWindow (uc_cc c) \<le> int (length (uc_sendBuf c)) then (remaining, c)
      else write_loop now micros (drop chunkSize remaining) (send_chunk now micros (take chunkSize remaining) c))"
  by pat_completeness auto
termination by (relation "measure (\<lambda>(now, micros, remaining, c). length remaining)") (auto simp: chunkSize_def maxPacketSize_def headerSize_def)

declare write_loop.simps [simp del]

definition utp_Write :: "int \<Rightarrow> uint32 \<Rightarrow> byte list \<Rightarrow> utpConn \<Rightarrow> utp_error + (byte list \<times> utpConn)" where
  "utp_Write now micros b c =
     (if uc_closed c \<or> uc_state c = CsClosed then Inl ErrConnClosed else Inr (write_loop now micros b c))"

text \<open>\<open>Close\<close>, called once; the connection is closed before the FIN packet is sent, so that \<open>sendRaw\<close> drops it.\<close>

definition utp_Close :: "uint32 \<Rightarrow> utpConn \<Rightarrow> utpConn option" where
  "utp_Close micros c =
     (let c = c\<lparr>uc_closed := True\<rparr>;
          c = (if uc_state c = CsConnected \<or> uc_state c = CsSynRecv then
                 (sendRaw ((blank_packet stFin)\<lparr>up_connID := uc_connIDRecv c, up_timestamp := micros, up_tsDiff := uc_replyMicro c,
                    up_seqNr := uc_seqNr c, up_ackNr := uc_ackNr c, up_wndSize := uc_wndSize c\<rparr>) c)\<lparr>uc_state := CsFinSent\<rparr>
               else c)
      in if uc_closeCh c then None else Some (c\<lparr>uc_closeErr := Some ErrConnClosed, uc_closeCh := True\<rparr>))"

section \<open>The socket\<close>

text \<open>The maps hold references to connections; \<open>sk_accepted\<close> is the channel of \<open>Accept\<close>. The handshake of an incoming connection is one step with the arrival of its SYN packet.\<close>

record utpSocket =
  sk_pendings :: "string \<Rightarrow> nat option"
  sk_dialings :: "string \<Rightarrow> nat option"
  sk_conns :: "nat \<Rightarrow> utpConn option"
  sk_nextRef :: nat
  sk_accepted :: "nat list"

definition pendingKey :: "uint16 \<Rightarrow> string \<Rightarrow> string" where
  "pendingKey connID addr = hex_word (unat connID) @ ''-'' @ addr"

definition socket_packet :: "int \<Rightarrow> uint32 \<Rightarrow> uint16 \<Rightarrow> string \<Rightarrow> byte list \<Rightarrow> utpSocket \<Rightarrow> utpSocket" where
  "socket_packet now micros random addr buf sk =
     (case decodePacket buf of
        Inl _ \<Rightarrow> sk
      | Inr pkt \<Rightarrow>
          if up_typ pkt = stSyn then
            let connIDLocal = up_connID pkt + 1; ref = sk_nextRef sk;
                conn = acceptHandshake micros pkt (newConn now connIDLocal (up_connID pkt) False random)
            in sk\<lparr>sk_pendings := (sk_pendings sk)(pendingKey connIDLocal addr \<mapsto> ref), sk_conns := (sk_conns sk)(ref \<mapsto> conn),
                  sk_nextRef := ref + 1, sk_accepted := sk_accepted sk @ [ref]\<rparr>
          else
            let key = pendingKey (up_connID pkt) addr;
                found = (case sk_dialings sk key of Some r \<Rightarrow> Some r | None \<Rightarrow> sk_pendings sk key)
            in case found of
                 None \<Rightarrow> sk
               | Some r \<Rightarrow> sk\<lparr>sk_conns := (sk_conns sk)(r := map_option (deliverPacket now pkt) (sk_conns sk r))\<rparr>)"

text \<open>\<open>Dial\<close> up to the wait for the answer, and after it.\<close>

definition Dial_open :: "int \<Rightarrow> uint32 \<Rightarrow> uint16 \<Rightarrow> string \<Rightarrow> utpSocket \<Rightarrow> nat \<times> utpSocket" where
  "Dial_open now micros connID addr sk =
     (let connIDLocal = connID + 1; ref = sk_nextRef sk in
      (ref, sk\<lparr>sk_dialings := (sk_dialings sk)(pendingKey connIDLocal addr \<mapsto> ref, pendingKey (connIDLocal + 1) addr \<mapsto> ref),
               sk_conns := (sk_conns sk)(ref \<mapsto> dial_syn now micros (newConn now connIDLocal connIDLocal True 0)), sk_nextRef := ref + 1\<rparr>))"

definition Dial_finish :: "nat \<Rightarrow> uint16 \<Rightarrow> string \<Rightarrow> (utp_error + utpConn) \<Rightarrow> utpSocket \<Rightarrow> utpSocket" where
  "Dial_finish ref connIDLocal addr result sk =
     (let sk = sk\<lparr>sk_dialings := (sk_dialings sk)(pendingKey connIDLocal addr := None, pendingKey (connIDLocal + 1) addr := None)\<rparr>
      in case result of
           Inl _ \<Rightarrow> sk
         | Inr conn \<Rightarrow> sk\<lparr>sk_pendings := (sk_pendings sk)(pendingKey connIDLocal addr \<mapsto> ref), sk_conns := (sk_conns sk)(ref \<mapsto> conn)\<rparr>)"

definition socket_forget :: "uint16 \<Rightarrow> string \<Rightarrow> utpSocket \<Rightarrow> utpSocket" where
  "socket_forget connIDLocal addr sk =
     sk\<lparr>sk_dialings := (sk_dialings sk)(pendingKey connIDLocal addr := None, pendingKey (connIDLocal + 1) addr := None),
        sk_pendings := (sk_pendings sk)(pendingKey connIDLocal addr := None)\<rparr>"

section \<open>Packets survive encoding\<close>

definition utp_packet_ok :: "utpPacket \<Rightarrow> bool" where
  "utp_packet_ok p \<longleftrightarrow> up_typ p < 16 \<and> up_ver p = 1
     \<and> (case up_selectiveAck p of
          None \<Rightarrow> up_ext p = 0
        | Some m \<Rightarrow> up_ext p = 1 \<and> m \<noteq> [] \<and> length m < 256)"

lemma type_nibble:
  assumes "(t :: byte) < 16"
  shows "(push_bit 4 t OR 1) AND 0x0F = 1" "drop_bit 4 (push_bit 4 t OR 1) = t"
proof -
  have "unat t < 16" using assms by (simp add: word_less_nat_alt)
  then have "unat t \<in> {0, 1, 2, 3, 4, 5, 6, 7, 8, 9, 10, 11, 12, 13, 14, 15}" by (simp add: less_Suc_eq numeral_eq_Suc)
  then have "t \<in> {0, 1, 2, 3, 4, 5, 6, 7, 8, 9, 10, 11, 12, 13, 14, 15}"
    by (auto simp: word_unat_eq_iff)
  then show "(push_bit 4 t OR 1) AND 0x0F = 1" "drop_bit 4 (push_bit 4 t OR 1) = t" by auto
qed

lemmas type_nibble_simps = type_nibble type_nibble(2) [simplified]

lemma read_exts_none: "read_exts 0 buf m = (m, buf)"
  by (simp add: read_exts.simps)

lemma read_exts_mask:
  assumes "m \<noteq> []" "length m < 256"
  shows "read_exts 1 ([0, of_nat (length m)] @ m @ rest) None = (Some m, rest)"
proof -
  have "unat (of_nat (length m) :: byte) = length m" using assms(2) by (simp add: unat_of_nat take_bit_nat_eq_self)
  then show ?thesis by (subst read_exts.simps) (simp add: read_exts_none)
qed

lemma utp_packet_roundtrip:
  assumes "utp_packet_ok p"
  shows "decodePacket (utp_encode p) = Inr p"
proof -
  define body where "body = PutUint16 (up_connID p) @ PutUint32 (up_timestamp p) @ PutUint32 (up_tsDiff p) @ PutUint32 (up_wndSize p)
      @ PutUint16 (up_seqNr p) @ PutUint16 (up_ackNr p)"
  define ext where "ext = (case up_selectiveAck p of None \<Rightarrow> [] | Some m \<Rightarrow> [0, of_nat (length m)] @ m)"
  define flag :: byte where "flag = (case up_selectiveAck p of None \<Rightarrow> 0 | Some m \<Rightarrow> 1)"
  have enc: "utp_encode p = (push_bit 4 (up_typ p) OR 1) # flag # body @ ext @ up_payload p"
    using assms by (auto simp: utp_encode_def utp_packet_ok_def body_def ext_def flag_def split: option.split)
  have exts: "read_exts flag (ext @ up_payload p) None = (up_selectiveAck p, up_payload p)"
    using assms read_exts_mask
    by (auto simp: utp_packet_ok_def ext_def flag_def read_exts_none split: option.split)
  have "ucast flag = up_ext p" using assms by (auto simp: utp_packet_ok_def flag_def split: option.splits)
  then show ?thesis
    using assms exts unfolding enc decodePacket_def
    by (simp add: headerSize_def body_def type_nibble_simps utp_packet_ok_def Uint16_Put Uint32_Put)
qed

section \<open>Sequence numbers\<close>

lemma uint_of_nat16: "uint (q + of_nat i :: uint16) = (uint q + int i) mod 65536"
  by (simp add: uint_word_ariths unsigned_of_nat take_bit_eq_mod zmod_int mod_simps)

lemma seqDiff_window: "seqDiff (q + of_nat i) (q + of_nat n) = (int i - int n) mod 65536"
proof -
  have "seqDiff (q + of_nat i) (q + of_nat n) = ((uint q + int i) mod 65536 - (uint q + int n) mod 65536 + 65536) mod 65536"
  proof -
    have "0 \<le> (uint q + int i) mod 65536" "(uint q + int n) mod 65536 < 65536" by simp_all
    then have "0 \<le> (uint q + int i) mod 65536 - (uint q + int n) mod 65536 + 65536" by linarith
    then show ?thesis unfolding seqDiff_def uint_of_nat16 by simp
  qed
  also have "\<dots> = ((uint q + int i) - (uint q + int n)) mod 65536" by (simp add: mod_simps)
  finally show ?thesis by simp
qed

lemma of_nat16_eq:
  assumes "q + of_nat i = (q + of_nat j :: uint16)" "i \<le> j" "j - i < 65536"
  shows "i = j"
proof -
  have "(int j - int i) mod 65536 = 0" using seqDiff_window [of q j i] seqDiff_window [of q i i] assms(1) by simp
  then show ?thesis using assms(2,3) by (auto simp: mod_eq_0_iff_dvd dest!: zdvd_imp_le)
qed

section \<open>The receive buffer\<close>

text \<open>The buffered packets are pieces \<open>lo\<close> to \<open>hi\<close> of the stream.\<close>

definition buffered :: "byte list list \<Rightarrow> uint16 \<Rightarrow> nat \<Rightarrow> nat \<Rightarrow> (uint16 \<Rightarrow> byte list option) \<Rightarrow> bool" where
  "buffered chunks q lo hi recv \<longleftrightarrow>
     (\<forall>s d. recv s = Some d \<longrightarrow> (\<exists>i. lo \<le> i \<and> i \<le> hi \<and> i < length chunks \<and> s = q + of_nat i \<and> d = chunks ! i))"

lemma drain_pieces:
  assumes "buffered chunks q n hi recv" "n \<le> length chunks" "nxt = q + of_nat n" "hi < n + 65536"
  shows "\<exists>m recv'. drain recv nxt got = (recv', q + of_nat m, got @ concat (map ((!) chunks) [n..<m]))
    \<and> n \<le> m \<and> m \<le> length chunks \<and> m \<le> max n (Suc hi) \<and> buffered chunks q (Suc m) hi recv'"
  using assms
proof (induction recv nxt got arbitrary: n rule: drain.induct)
  case (1 recv nxt got)
  show ?case
  proof (cases "recv nxt")
    case None
    have "buffered chunks q (Suc n) hi recv"
      unfolding buffered_def
    proof (intro allI impI)
      fix s d
      assume "recv s = Some d"
      with 1(2) obtain i where i: "n \<le> i" "i \<le> hi" "i < length chunks" "s = q + of_nat i" "d = chunks ! i" by (auto simp: buffered_def)
      moreover have "i \<noteq> n" using i(4) None 1(4) \<open>recv s = Some d\<close> by auto
      ultimately show "\<exists>i. Suc n \<le> i \<and> i \<le> hi \<and> i < length chunks \<and> s = q + of_nat i \<and> d = chunks ! i" by (intro exI [of _ i]) simp
    qed
    then show ?thesis using None 1(3,4) by (intro exI [of _ n] exI [of _ recv]) (simp add: drain.simps)
  next
    case (Some payload)
    then obtain i where i: "n \<le> i" "i \<le> hi" "i < length chunks" "nxt = q + of_nat i" "payload = chunks ! i"
      using 1(2) by (auto simp: buffered_def)
    then have "n = i" using of_nat16_eq [of q n i] 1(4,5) by simp
    then have n: "n < length chunks" "payload = chunks ! n" using i by simp_all
    have later: "buffered chunks q (Suc n) hi (recv(nxt := None))"
      unfolding buffered_def
    proof (intro allI impI)
      fix s d
      assume s: "(recv(nxt := None)) s = Some d"
      then have "s \<noteq> nxt" "recv s = Some d" by (auto split: if_splits)
      with 1(2) obtain j where j: "n \<le> j" "j \<le> hi" "j < length chunks" "s = q + of_nat j" "d = chunks ! j" by (auto simp: buffered_def)
      moreover have "j \<noteq> n" using j(4) \<open>s \<noteq> nxt\<close> 1(4) by auto
      ultimately show "\<exists>i. Suc n \<le> i \<and> i \<le> hi \<and> i < length chunks \<and> s = q + of_nat i \<and> d = chunks ! i" by (intro exI [of _ j]) simp
    qed
    have nxt: "nxt + 1 = q + of_nat (Suc n)" using 1(4) by simp
    obtain m recv' where
      m: "drain (recv(nxt := None)) (nxt + 1) (got @ payload) = (recv', q + of_nat m, (got @ payload) @ concat (map ((!) chunks) [Suc n..<m]))"
        "Suc n \<le> m" "m \<le> length chunks" "m \<le> max (Suc n) (Suc hi)" "buffered chunks q (Suc m) hi recv'"
      using 1(1) [OF Some later _ nxt] n(1) 1(5) by (metis Suc_leI add_Suc less_SucI)
    have "[n..<m] = n # [Suc n..<m]" using m(2) by (simp add: upt_conv_Cons)
    then have "drain recv nxt got = (recv', q + of_nat m, got @ concat (map ((!) chunks) [n..<m]))"
      using m(1) Some n(2) by (subst drain.simps) simp
    moreover have "n \<le> hi" using i(2) \<open>n = i\<close> by simp
    ultimately show ?thesis using m(2-5) by auto
  qed
qed

section \<open>The receiver\<close>

definition unread :: "utpConn \<Rightarrow> byte list" where
  "unread c = (case uc_readBuf c of None \<Rightarrow> [] | Some b \<Rightarrow> drop (uc_readBufOff c) b)"

definition readBuf_ok :: "utpConn \<Rightarrow> bool" where
  "readBuf_ok c \<longleftrightarrow> (case uc_readBuf c of
      None \<Rightarrow> uc_readBufOff c = 0 \<and> uc_readBufEnd c = 0
    | Some b \<Rightarrow> uc_readBufEnd c = length b \<and> uc_readBufOff c \<le> length b)"

text \<open>What the receiver has of a stream: \<open>n\<close> pieces were put in order, their bytes were read or wait in the read buffer.\<close>

definition receiver_ok :: "byte list list \<Rightarrow> uint16 \<Rightarrow> nat \<Rightarrow> byte list \<Rightarrow> utpConn \<Rightarrow> bool" where
  "receiver_ok chunks q n got c \<longleftrightarrow>
     n \<le> length chunks \<and> uc_nextExpected c = q + of_nat n \<and> buffered chunks q (Suc n) (n + 32767) (uc_recvBuf c)
     \<and> readBuf_ok c \<and> got @ unread c = concat (take n chunks)"

text \<open>Steps that leave the receiving side alone.\<close>

definition same_receiver :: "utpConn \<Rightarrow> utpConn \<Rightarrow> bool" where
  "same_receiver c' c \<longleftrightarrow>
     uc_nextExpected c' = uc_nextExpected c \<and> uc_recvBuf c' = uc_recvBuf c \<and> uc_readBuf c' = uc_readBuf c
     \<and> uc_readBufOff c' = uc_readBufOff c \<and> uc_readBufEnd c' = uc_readBufEnd c"

lemma same_receiver_ok: "same_receiver c' c \<Longrightarrow> receiver_ok chunks q n got c' = receiver_ok chunks q n got c"
  by (simp add: same_receiver_def receiver_ok_def readBuf_ok_def unread_def cong: option.case_cong)

lemma same_receiver_trans: "same_receiver c'' c' \<Longrightarrow> same_receiver c' c \<Longrightarrow> same_receiver c'' c"
  by (simp add: same_receiver_def)

lemma same_receiver_steps:
  "same_receiver (sendRaw p c) c" "same_receiver (updateRTT now micros pkt c) c" "same_receiver (processAcks pkt c) c"
  "same_receiver (handleState pkt c) c" "same_receiver (handleFin pkt c) c" "same_receiver (sendAck micros c) c"
  "closeWithError e c = Some c' \<Longrightarrow> same_receiver c' c" "same_receiver (send_chunk now micros chunk c) c"
  "same_receiver c c"
  by (auto simp: same_receiver_def sendRaw_def updateRTT_def processAcks_def handleState_def handleFin_def sendAck_def closeWithError_def
      send_chunk_def Let_def split: option.splits if_splits)

lemma append_readBuf_ok:
  assumes "readBuf_ok c"
  shows "readBuf_ok (append_readBuf d c)" "unread (append_readBuf d c) = unread c @ d"
    "uc_nextExpected (append_readBuf d c) = uc_nextExpected c" "uc_recvBuf (append_readBuf d c) = uc_recvBuf c"
  using assms by (auto simp: append_readBuf_def readBuf_ok_def unread_def split: option.splits prod.splits)

lemma concat_take_more: "n \<le> m \<Longrightarrow> m \<le> length xs \<Longrightarrow> concat (take m xs) = concat (take n xs) @ concat (map ((!) xs) [n..<m])"
proof (induction m rule: dec_induct)
  case (step m)
  then show ?case by (simp add: take_Suc_conv_app_nth)
qed simp

text \<open>The arrival of piece \<open>i\<close>, at most 32768 before and 32767 after the next one.\<close>

lemma deliverData_ok:
  assumes r: "receiver_ok chunks q n got c" and i: "i < length chunks" "n \<le> i + 32768" "i \<le> n + 32767"
  shows "\<exists>m. receiver_ok chunks q m got (deliverData (q + of_nat i) (chunks ! i) c) \<and> n \<le> m \<and> m \<le> n + 32768"
proof (cases "i < n")
  case True
  have "(int i - int n + 65536) mod 65536 = int i - int n + 65536" using True i(2) by (intro mod_pos_pos_trivial) auto
  then have "32767 < seqDiff (q + of_nat i) (uc_nextExpected c)" using r i(2) by (simp add: receiver_ok_def seqDiff_window)
  then show ?thesis using r by (auto simp: deliverData_def)
next
  case False
  have "(int i - int n) mod 65536 = int i - int n" using False i(3) by (intro mod_pos_pos_trivial) auto
  then have "\<not> 32767 < seqDiff (q + of_nat i) (uc_nextExpected c)" using r i(3) by (simp add: receiver_ok_def seqDiff_window)
  have "buffered chunks q n (n + 32767) ((uc_recvBuf c)(q + of_nat i \<mapsto> chunks ! i))"
    using r False i(1,3) unfolding receiver_ok_def buffered_def by (metis Suc_leD fun_upd_apply not_less option.inject)
  then obtain m recv' where m: "drain ((uc_recvBuf c)(q + of_nat i \<mapsto> chunks ! i)) (uc_nextExpected c) [] = (recv', q + of_nat m, concat (map ((!) chunks) [n..<m]))"
      "n \<le> m" "m \<le> length chunks" "m \<le> n + 32768" "buffered chunks q (Suc m) (n + 32767) recv'"
    using drain_pieces [of chunks q n "n + 32767" _ "uc_nextExpected c" "[]"] r unfolding receiver_ok_def by fastforce
  then have later: "buffered chunks q (Suc m) (m + 32767) recv'" unfolding buffered_def by (meson add_le_mono1 order_trans)
  with \<open>\<not> 32767 < seqDiff (q + of_nat i) (uc_nextExpected c)\<close> have d: "deliverData (q + of_nat i) (chunks ! i) c =
      append_readBuf (concat (map ((!) chunks) [n..<m])) (c\<lparr>uc_recvBuf := recv', uc_nextExpected := q + of_nat m\<rparr>)"
    using m(1) by (simp add: deliverData_def)
  have "readBuf_ok (c\<lparr>uc_recvBuf := recv', uc_nextExpected := q + of_nat m\<rparr>)" "unread (c\<lparr>uc_recvBuf := recv', uc_nextExpected := q + of_nat m\<rparr>) = unread c"
    using r by (simp_all add: receiver_ok_def readBuf_ok_def unread_def cong: option.case_cong)
  with r m later concat_take_more [OF m(2,3)] show ?thesis
    unfolding d receiver_ok_def by (intro exI [of _ m]) (simp add: append_readBuf_ok flip: append_assoc)
qed

lemma utp_Read_ok:
  assumes "receiver_ok chunks q n got c" "utp_Read k c = (Some (Inr bytes), c')"
  shows "receiver_ok chunks q n (got @ bytes) c'"
proof -
  have off: "uc_readBufOff c < uc_readBufEnd c" using assms(2) by (auto simp: utp_Read_def Let_def split: if_splits)
  then obtain b where b: "uc_readBuf c = Some b" "uc_readBufEnd c = length b" using assms(1) by (auto simp: receiver_ok_def readBuf_ok_def split: option.splits)
  have bytes: "bytes = take k (drop (uc_readBufOff c) b)" using assms(2) off b by (auto simp: utp_Read_def Let_def split: if_splits)
  have c': "c' = (let c1 = c\<lparr>uc_readBufOff := uc_readBufOff c + length bytes\<rparr> in
      if length b \<le> uc_readBufOff c1 then c1\<lparr>uc_readBuf := None, uc_readBufOff := 0, uc_readBufEnd := 0\<rparr> else c1)"
    using assms(2) off b by (auto simp: utp_Read_def Let_def split: if_splits)
  have take: "take (length bytes) (drop (uc_readBufOff c) b) = bytes" by (simp add: bytes min_def)
  then have "drop (uc_readBufOff c) b = bytes @ drop (uc_readBufOff c + length bytes) b"
    by (metis append_take_drop_id drop_drop add.commute)
  then have "unread c = bytes @ unread c'" using b unfolding c' unread_def by (auto simp: Let_def)
  moreover have "readBuf_ok c'" "uc_nextExpected c' = uc_nextExpected c" "uc_recvBuf c' = uc_recvBuf c"
    using b assms(1) unfolding c' by (auto simp: Let_def readBuf_ok_def receiver_ok_def)
  ultimately show ?thesis using assms(1) by (simp add: receiver_ok_def)
qed

section \<open>The sender\<close>

definition is_piece :: "byte list list \<Rightarrow> uint16 \<Rightarrow> uint16 \<Rightarrow> byte list \<Rightarrow> bool" where
  "is_piece chunks q s d \<longleftrightarrow> (\<exists>i<length chunks. s = q + of_nat i \<and> d = chunks ! i)"

definition sender_ok :: "byte list list \<Rightarrow> uint16 \<Rightarrow> utpConn \<Rightarrow> bool" where
  "sender_ok chunks q c \<longleftrightarrow>
     uc_seqNr c = q + of_nat (length chunks)
     \<and> (\<forall>sp\<in>set (uc_sendBuf c). is_piece chunks q (sp_seqNr sp) (sp_data sp))
     \<and> (\<forall>p\<in>set (uc_out c). up_typ p = stData \<longrightarrow> is_piece chunks q (up_seqNr p) (up_payload p))"

lemma is_piece_append: "is_piece chunks q s d \<Longrightarrow> is_piece (chunks @ more_chunks) q s d"
  by (auto simp: is_piece_def nth_append)

text \<open>Steps after which the sending side has at most lost some entries of its buffer.\<close>

definition weaker_sender :: "utpConn \<Rightarrow> utpConn \<Rightarrow> bool" where
  "weaker_sender c' c \<longleftrightarrow> uc_seqNr c' = uc_seqNr c \<and> set (uc_sendBuf c') \<subseteq> set (uc_sendBuf c)
     \<and> (\<forall>p\<in>set (uc_out c') - set (uc_out c). up_typ p \<noteq> stData)"

lemma weaker_sender_ok: "weaker_sender c' c \<Longrightarrow> sender_ok chunks q c \<Longrightarrow> sender_ok chunks q c'"
  unfolding weaker_sender_def sender_ok_def by (metis DiffI subsetD)

lemma weaker_sender_trans: "weaker_sender c'' c' \<Longrightarrow> weaker_sender c' c \<Longrightarrow> weaker_sender c'' c"
  unfolding weaker_sender_def by (metis Diff_iff order_trans)

lemma weaker_sender_steps:
  "up_typ p \<noteq> stData \<Longrightarrow> weaker_sender (sendRaw p c) c" "weaker_sender (updateRTT now micros pkt c) c" "weaker_sender (processAcks pkt c) c"
  "weaker_sender (handleState pkt c) c" "weaker_sender (handleFin pkt c) c" "weaker_sender (sendAck micros c) c"
  "weaker_sender (handleData now w pkt c) c" "closeWithError e c = Some c' \<Longrightarrow> weaker_sender c' c" "weaker_sender c c"
  by (auto simp: weaker_sender_def sendRaw_def updateRTT_def processAcks_def handleState_def handleFin_def sendAck_def closeWithError_def
      handleData_def deliverData_def append_readBuf_def blank_packet_def stData_def stState_def Let_def split: option.splits if_splits prod.splits)

text \<open>A packet is handled by type, then its acknowledgements are processed, then it may be acknowledged.\<close>

lemma packet_steps:
  assumes "utp_handlePacket now micros w pkt c = Some c'"
  shows "\<exists>c1. (let u = updateRTT now micros pkt c in
      up_typ pkt = stData \<and> c1 = handleData now w pkt u \<or>
      up_typ pkt \<noteq> stData \<and> (c1 = handleState pkt u \<or> c1 = handleFin pkt u \<or> closeWithError ErrConnReset u = Some c1 \<or> c1 = u))
    \<and> (c' = sendAck micros (processAcks pkt c1) \<or> c' = processAcks pkt c1)"
  using assms unfolding utp_handlePacket_def Let_def by (auto simp only: map_option_eq_Some option.inject split: if_splits)

lemma weaker_sender_packet:
  assumes "utp_handlePacket now micros w pkt c = Some c'"
  shows "weaker_sender c' c"
proof -
  obtain c1 where c1: "weaker_sender c1 (updateRTT now micros pkt c)" "c' = sendAck micros (processAcks pkt c1) \<or> c' = processAcks pkt c1"
    using packet_steps [OF assms] weaker_sender_steps(4,5,7,8,9) unfolding Let_def by blast
  then show ?thesis
    using weaker_sender_steps(2) [of now micros pkt c] weaker_sender_steps(3) [of pkt c1] weaker_sender_steps(6) [of micros "processAcks pkt c1"]
      weaker_sender_trans by blast
qed

lemma timeouts_loop_pieces:
  "timeouts_loop now micros sps c = (sps', c') \<Longrightarrow> uc_seqNr c' = uc_seqNr c \<and> same_receiver c' c
    \<and> (\<forall>sp'\<in>set sps'. \<exists>sp\<in>set sps. sp_seqNr sp' = sp_seqNr sp \<and> sp_data sp' = sp_data sp)
    \<and> (\<forall>p\<in>set (uc_out c'). p \<in> set (uc_out c) \<or> (\<exists>sp\<in>set sps. up_seqNr p = sp_seqNr sp \<and> up_payload p = sp_data sp))"
proof (induction sps arbitrary: c sps' c')
  case Nil
  then show ?case by (simp add: same_receiver_def)
next
  case (Cons sp sps)
  show ?case
  proof (cases "0 < sp_retransmit sp \<or> now - sp_sendTime sp < cc_timeout (uc_cc c)")
    case True
    obtain tail c1 where l: "timeouts_loop now micros sps c = (tail, c1)" by fastforce
    then have "sps' = sp # tail" "c' = c1" using Cons.prems True by simp_all
    then show ?thesis using Cons.IH [OF l] by auto
  next
    case False
    define c0 where "c0 = sendRaw (data_packet micros (sp_seqNr sp) (sp_data sp) c) (c\<lparr>uc_cc := onLoss (uc_cc c)\<rparr>)"
    obtain tail c1 where l: "timeouts_loop now micros sps c0 = (tail, c1)" by fastforce
    then have s: "sps' = sp\<lparr>sp_retransmit := sp_retransmit sp + 1, sp_sendTime := now\<rparr> # tail" "c' = c1"
      using Cons.prems False by (simp_all add: c0_def)
    have "uc_seqNr c0 = uc_seqNr c" "same_receiver c0 c"
      "\<forall>p\<in>set (uc_out c0). p \<in> set (uc_out c) \<or> up_seqNr p = sp_seqNr sp \<and> up_payload p = sp_data sp"
      by (simp_all add: c0_def sendRaw_def same_receiver_def data_packet_def)
    then show ?thesis using Cons.IH [OF l] s by (auto simp: same_receiver_def)
  qed
qed

lemma checkTimeouts_ok: "sender_ok chunks q c \<Longrightarrow> sender_ok chunks q (checkTimeouts now micros c)" "same_receiver (checkTimeouts now micros c) c"
proof -
  obtain sps c1 where l: "timeouts_loop now micros (uc_sendBuf c) c = (sps, c1)" by fastforce
  then have c: "checkTimeouts now micros c = c1\<lparr>uc_sendBuf := sps\<rparr>" by (simp add: checkTimeouts_def)
  note pieces = timeouts_loop_pieces [OF l]
  show "same_receiver (checkTimeouts now micros c) c" using pieces by (simp add: c same_receiver_def)
  assume s: "sender_ok chunks q c"
  have "is_piece chunks q (sp_seqNr sp') (sp_data sp')" if "sp' \<in> set sps" for sp'
    using that pieces s unfolding sender_ok_def by metis
  moreover have "is_piece chunks q (up_seqNr p) (up_payload p)" if "p \<in> set (uc_out c1)" "up_typ p = stData" for p
    using that pieces s unfolding sender_ok_def by metis
  ultimately show "sender_ok chunks q (checkTimeouts now micros c)" using pieces s by (simp add: c sender_ok_def)
qed

lemma send_chunk_ok:
  assumes "sender_ok chunks q c" "\<not> uc_closed c"
  shows "sender_ok (chunks @ [chunk]) q (send_chunk now micros chunk c)"
    "uc_out (send_chunk now micros chunk c) = uc_out c @ [data_packet micros (uc_seqNr c) chunk c]"
    "\<not> uc_closed (send_chunk now micros chunk c)"
proof -
  have "is_piece (chunks @ [chunk]) q (uc_seqNr c) chunk"
    using assms(1) unfolding is_piece_def sender_ok_def by (intro exI [of _ "length chunks"]) simp
  then show "sender_ok (chunks @ [chunk]) q (send_chunk now micros chunk c)"
    using assms is_piece_append [of chunks q _ _ "[chunk]"]
    by (auto simp: sender_ok_def send_chunk_def sendRaw_def Let_def data_packet_def algebra_simps)
qed (use assms in \<open>simp_all add: send_chunk_def sendRaw_def data_packet_def Let_def\<close>)

text \<open>The pieces that are new among the packets sent.\<close>

definition new_pieces :: "utpConn \<Rightarrow> utpConn \<Rightarrow> byte list list" where
  "new_pieces c c' = map up_payload (drop (length (uc_out c)) (uc_out c'))"

lemma same_receiver_write: "write_loop now micros b c = (rest, c') \<Longrightarrow> same_receiver c' c"
proof (induction now micros b c rule: write_loop.induct)
  case (1 now micros b c)
  show ?case
  proof (cases "b = [] \<or> uc_closed c \<or> cc_maxWindow (uc_cc c) \<le> int (length (uc_sendBuf c))")
    case True
    then have "c' = c" using 1(2) by (auto simp: write_loop.simps)
    then show ?thesis using same_receiver_steps(9) by simp
  next
    case False
    then have "write_loop now micros (drop chunkSize b) (send_chunk now micros (take chunkSize b) c) = (rest, c')"
      using 1(2) by (subst (asm) write_loop.simps) simp
    then show ?thesis using same_receiver_trans [OF 1(1) [OF False] same_receiver_steps(8)] by simp
  qed
qed

lemma write_loop_ok:
  assumes "sender_ok chunks q c" "write_loop now micros b c = (rest, c')"
  shows "sender_ok (chunks @ new_pieces c c') q c' \<and> b = concat (new_pieces c c') @ rest \<and> (\<exists>ps. uc_out c' = uc_out c @ ps)"
  using assms
proof (induction now micros b c arbitrary: chunks rule: write_loop.induct)
  case (1 now micros b c)
  show ?case
  proof (cases "b = [] \<or> uc_closed c \<or> cc_maxWindow (uc_cc c) \<le> int (length (uc_sendBuf c))")
    case True
    then have "rest = b" "c' = c" using 1(3) by (auto simp: write_loop.simps)
    then show ?thesis using 1(2) by (simp add: new_pieces_def)
  next
    case False
    let ?c1 = "send_chunk now micros (take chunkSize b) c"
    have nc: "\<not> uc_closed c" using False by simp
    note c1 = send_chunk_ok [OF 1(2) nc, where chunk = "take chunkSize b" and now = now and micros = micros]
    have l: "write_loop now micros (drop chunkSize b) ?c1 = (rest, c')" using 1(3) False by (subst (asm) write_loop.simps) simp
    obtain ps where IH: "sender_ok ((chunks @ [take chunkSize b]) @ new_pieces ?c1 c') q c'" "drop chunkSize b = concat (new_pieces ?c1 c') @ rest"
        "uc_out c' = uc_out ?c1 @ ps"
      using 1(1) [OF False c1(1) l] by blast
    have out: "uc_out c' = uc_out c @ data_packet micros (uc_seqNr c) (take chunkSize b) c # ps" using IH(3) c1(2) by simp
    have new: "new_pieces c c' = take chunkSize b # new_pieces ?c1 c'"
      unfolding new_pieces_def out c1(2) by (simp add: data_packet_def)
    have "b = concat (new_pieces c c') @ rest" using append_take_drop_id [of chunkSize b] unfolding IH(2) new by simp
    moreover have "sender_ok (chunks @ new_pieces c c') q c'" using IH(1) by (simp add: new)
    ultimately show ?thesis using out by blast
  qed
qed

section \<open>Two connections over a network\<close>

text \<open>The handshake of \<open>Dial\<close> and \<open>readLoop\<close>: the dialling and the accepting connection after it.\<close>

definition handshake :: "int \<Rightarrow> uint32 \<Rightarrow> uint16 \<Rightarrow> uint16 \<Rightarrow> utpConn \<times> utpConn" where
  "handshake now micros connID random =
     (let d = dial_syn now micros (newConn now (connID + 1) (connID + 1) True 0);
          syn = last (uc_out d);
          a = acceptHandshake micros syn (newConn now (up_connID syn + 1) (up_connID syn) False random)
      in case dial_answer (last (uc_out a)) d of Inl _ \<Rightarrow> (d, a) | Inr d' \<Rightarrow> (d', a))"

text \<open>One direction of a connection. \<open>sy_first\<close> is the first sequence number, \<open>sy_pieces\<close> the payloads sent so far, \<open>sy_next\<close> how many of them the
  receiver has in order, \<open>sy_written\<close> and \<open>sy_read\<close> the bytes that \<open>Write\<close> accepted and \<open>Read\<close> returned.\<close>

record utpSystem =
  sy_snd :: utpConn
  sy_rcv :: utpConn
  sy_first :: uint16
  sy_pieces :: "byte list list"
  sy_next :: nat
  sy_written :: "byte list"
  sy_read :: "byte list"

text \<open>Sequence numbers have 16 bits: a data packet may arrive when it is not older than 32768 packets and not more than 32767 ahead.\<close>

definition in_window :: "utpSystem \<Rightarrow> utpPacket \<Rightarrow> bool" where
  "in_window s pkt \<longleftrightarrow> (\<exists>i<length (sy_pieces s). up_seqNr pkt = sy_first s + of_nat i \<and> up_payload pkt = sy_pieces s ! i
     \<and> sy_next s \<le> i + 32768 \<and> i \<le> sy_next s + 32767)"

text \<open>Packets that were sent can arrive at any time, in any order, again and again, or never; and packets that carry no data may be forged.\<close>

inductive utp_reach :: "utpSystem \<Rightarrow> bool" where
  ut_start: "handshake now micros connID random = (d, a) \<Longrightarrow> (c, r) = (d, a) \<or> (c, r) = (a, d) \<Longrightarrow>
    utp_reach \<lparr>sy_snd = c, sy_rcv = r, sy_first = uc_seqNr c, sy_pieces = [], sy_next = 0, sy_written = [], sy_read = []\<rparr>"
| ut_write: "utp_reach s \<Longrightarrow> utp_Write now micros b (sy_snd s) = Inr (rest, c) \<Longrightarrow>
    utp_reach (s\<lparr>sy_snd := c, sy_pieces := sy_pieces s @ new_pieces (sy_snd s) c, sy_written := sy_written s @ take (length b - length rest) b\<rparr>)"
| ut_retransmit: "utp_reach s \<Longrightarrow> utp_reach (s\<lparr>sy_snd := checkTimeouts now micros (sy_snd s)\<rparr>)"
| ut_ack: "utp_reach s \<Longrightarrow> utp_handlePacket now micros w pkt (sy_snd s) = Some c \<Longrightarrow> utp_reach (s\<lparr>sy_snd := c\<rparr>)"
| ut_data: "utp_reach s \<Longrightarrow> pkt \<in> set (uc_out (sy_snd s)) \<Longrightarrow> up_typ pkt = stData \<Longrightarrow> in_window s pkt \<Longrightarrow>
    utp_handlePacket now micros w pkt (sy_rcv s) = Some r \<Longrightarrow>
    utp_reach (s\<lparr>sy_rcv := r, sy_next := sy_next s + unat (uc_nextExpected r - uc_nextExpected (sy_rcv s))\<rparr>)"
| ut_other: "utp_reach s \<Longrightarrow> up_typ pkt \<noteq> stData \<Longrightarrow> utp_handlePacket now micros w pkt (sy_rcv s) = Some r \<Longrightarrow> utp_reach (s\<lparr>sy_rcv := r\<rparr>)"
| ut_reply: "utp_reach s \<Longrightarrow> utp_Write now micros b (sy_rcv s) = Inr (rest, r) \<Longrightarrow> utp_reach (s\<lparr>sy_rcv := r\<rparr>)"
| ut_read: "utp_reach s \<Longrightarrow> utp_Read n (sy_rcv s) = (Some (Inr bytes), r) \<Longrightarrow> utp_reach (s\<lparr>sy_rcv := r, sy_read := sy_read s @ bytes\<rparr>)"

definition system_ok :: "utpSystem \<Rightarrow> bool" where
  "system_ok s \<longleftrightarrow> sender_ok (sy_pieces s) (sy_first s) (sy_snd s)
     \<and> receiver_ok (sy_pieces s) (sy_first s) (sy_next s) (sy_read s) (sy_rcv s)
     \<and> concat (sy_pieces s) = sy_written s"

lemma receiver_ok_append: "receiver_ok chunks q n got c \<Longrightarrow> receiver_ok (chunks @ new) q n got c"
  unfolding receiver_ok_def buffered_def by (auto simp: nth_append)

lemma handshake_facts:
  assumes "handshake now micros connID random = (d, a)"
  shows "uc_nextExpected a = uc_seqNr d" "uc_nextExpected d = uc_seqNr a" "uc_sendBuf d = []" "uc_sendBuf a = []"
    "\<forall>p\<in>set (uc_out d) \<union> set (uc_out a). up_typ p \<noteq> stData" "uc_recvBuf d = (\<lambda>_. None)" "uc_recvBuf a = (\<lambda>_. None)"
    "uc_readBuf d = None \<and> uc_readBufOff d = 0 \<and> uc_readBufEnd d = 0" "uc_readBuf a = None \<and> uc_readBufOff a = 0 \<and> uc_readBufEnd a = 0"
  using assms by (auto simp: handshake_def dial_syn_def newConn_def acceptHandshake_def dial_answer_def sendRaw_def blank_packet_def
      stData_def stState_def stSyn_def Let_def)

lemma receive_data:
  assumes "utp_handlePacket now micros w pkt c = Some c'" "up_typ pkt = stData"
  shows "same_receiver c' (deliverData (up_seqNr pkt) (up_payload pkt) c)"
proof -
  let ?u = "updateRTT now micros pkt c"
  have d: "same_receiver (deliverData s p (x\<lparr>uc_ackNr := k\<rparr>)) (deliverData s p y)" if "same_receiver x y" for s p x y k
    using that by (auto simp: deliverData_def append_readBuf_def same_receiver_def split: prod.split option.split)
  have "same_receiver (handleData now w pkt ?u) (deliverData (up_seqNr pkt) (up_payload pkt) c)"
    using d [OF same_receiver_steps(2)] by (simp add: handleData_def Let_def same_receiver_def)
  moreover have "same_receiver c' (handleData now w pkt ?u)"
    using packet_steps [OF assms(1)] assms(2) same_receiver_trans [OF same_receiver_steps(6) same_receiver_steps(3)] same_receiver_steps(3)
    by (auto simp: Let_def)
  ultimately show ?thesis by (rule same_receiver_trans [rotated])
qed

lemma receive_other:
  assumes "utp_handlePacket now micros w pkt c = Some c'" "up_typ pkt \<noteq> stData"
  shows "same_receiver c' c"
proof -
  obtain c1 where c1: "same_receiver c1 (updateRTT now micros pkt c)" "c' = sendAck micros (processAcks pkt c1) \<or> c' = processAcks pkt c1"
    using packet_steps [OF assms(1)] assms(2) same_receiver_steps(4,5,7,9) unfolding Let_def by blast
  then show ?thesis
    using same_receiver_steps(2) [of now micros pkt c] same_receiver_steps(3) [of pkt c1] same_receiver_steps(6) [of micros "processAcks pkt c1"]
      same_receiver_trans by blast
qed

lemma system_ok_start:
  assumes "handshake now micros connID random = (d, a)" "(c, r) = (d, a) \<or> (c, r) = (a, d)"
  shows "system_ok \<lparr>sy_snd = c, sy_rcv = r, sy_first = uc_seqNr c, sy_pieces = [], sy_next = 0, sy_written = [], sy_read = []\<rparr>"
  using assms(2) handshake_facts [OF assms(1)]
  by (auto simp: system_ok_def sender_ok_def receiver_ok_def buffered_def readBuf_ok_def unread_def)

lemma system_ok_data:
  assumes "system_ok s" "up_typ pkt = stData" "in_window s pkt" "utp_handlePacket now micros w pkt (sy_rcv s) = Some r"
  shows "system_ok (s\<lparr>sy_rcv := r, sy_next := sy_next s + unat (uc_nextExpected r - uc_nextExpected (sy_rcv s))\<rparr>)"
proof -
  let ?n = "sy_next s" and ?q = "sy_first s"
  obtain i where i: "i < length (sy_pieces s)" "up_seqNr pkt = ?q + of_nat i" "up_payload pkt = sy_pieces s ! i" "?n \<le> i + 32768" "i \<le> ?n + 32767"
    using assms(3) by (auto simp: in_window_def)
  have rcv: "receiver_ok (sy_pieces s) ?q ?n (sy_read s) (sy_rcv s)" using assms(1) by (simp add: system_ok_def)
  then obtain m where m: "receiver_ok (sy_pieces s) ?q m (sy_read s) r" "?n \<le> m" "m \<le> ?n + 32768"
    using deliverData_ok [OF rcv i(1,4,5)] same_receiver_ok [OF receive_data [OF assms(4,2)]] i(2,3) by auto
  have "uc_nextExpected r = ?q + of_nat m" "uc_nextExpected (sy_rcv s) = ?q + of_nat ?n" using m(1) rcv by (simp_all add: receiver_ok_def)
  then have "uc_nextExpected r - uc_nextExpected (sy_rcv s) = of_nat (m - ?n)" using m(2) by (simp add: of_nat_diff)
  then have "unat (uc_nextExpected r - uc_nextExpected (sy_rcv s)) = m - ?n" using m(3) by (simp add: unat_of_nat take_bit_nat_eq_self)
  then show ?thesis using assms(1) m(1,2) by (simp add: system_ok_def)
qed

lemma utp_reach_ok: "utp_reach s \<Longrightarrow> system_ok s"
proof (induction rule: utp_reach.induct)
  case (ut_start now micros connID random d a c r)
  then show ?case by (rule system_ok_start)
next
  case (ut_write s now micros b rest c)
  have l: "write_loop now micros b (sy_snd s) = (rest, c)" using ut_write(2) by (simp add: utp_Write_def split: if_splits)
  have "sender_ok (sy_pieces s) (sy_first s) (sy_snd s)" using ut_write(3) by (simp add: system_ok_def)
  from write_loop_ok [OF this l] have "sender_ok (sy_pieces s @ new_pieces (sy_snd s) c) (sy_first s) c" "b = concat (new_pieces (sy_snd s) c) @ rest" by simp_all
  then show ?case using ut_write(3) receiver_ok_append by (simp add: system_ok_def)
next
  case (ut_retransmit s now micros)
  then show ?case by (simp add: system_ok_def checkTimeouts_ok)
next
  case (ut_ack s now micros w pkt c)
  then show ?case using weaker_sender_ok [OF weaker_sender_packet] by (simp add: system_ok_def)
next
  case (ut_data s pkt now micros w r)
  then show ?case using system_ok_data by simp
next
  case (ut_other s pkt now micros w r)
  then show ?case using same_receiver_ok [OF receive_other] by (simp add: system_ok_def)
next
  case (ut_reply s now micros b rest r)
  have "same_receiver r (sy_rcv s)" using ut_reply(2) same_receiver_write by (auto simp: utp_Write_def split: if_splits)
  then show ?case using ut_reply(3) same_receiver_ok by (simp add: system_ok_def)
next
  case (ut_read s n bytes r)
  then show ?case using utp_Read_ok [of "sy_pieces s"] by (auto simp: system_ok_def)
qed


section \<open>Examples\<close>

definition ex_dialler :: utpConn where
  "ex_dialler = fst (handshake 0 0 9 5)"

definition ex_acceptor :: utpConn where
  "ex_acceptor = snd (handshake 0 0 9 5)"

definition ex_written :: "byte list \<Rightarrow> utpConn" where
  "ex_written b = (case utp_Write 0 0 b ex_dialler of Inl _ \<Rightarrow> ex_dialler | Inr (rest, c) \<Rightarrow> c)"

definition ex_arrived :: "utpConn \<Rightarrow> utpConn" where
  "ex_arrived c = (case utp_handlePacket 0 0 0 (last (uc_out c)) ex_acceptor of None \<Rightarrow> ex_acceptor | Some r \<Rightarrow> r)"


text \<open>A packet is lost and a later one arrives: its acknowledgement makes the sender forget the lost packet, which the receiver still
  waits for and which is then never sent again.\<close>

definition ex_two :: utpConn where
  "ex_two = send_chunk 0 0 [8] (send_chunk 0 0 [7] ex_dialler)"

lemma lost_packet_forgotten:
  "let r = ex_arrived ex_two in
   uc_nextExpected r = uc_seqNr ex_dialler \<and>
   (case utp_handlePacket 0 0 0 (last (uc_out r)) ex_two of None \<Rightarrow> False | Some c \<Rightarrow> map sp_data (uc_sendBuf c) = [[8]])"
  by code_simp

text \<open>\<open>Close\<close> never sends its FIN packet, and a FIN packet that follows the last data is not noticed by \<open>Read\<close>.\<close>

lemma close_sends_nothing: "utp_Close micros c = Some c' \<Longrightarrow> uc_out c' = uc_out c"
  by (auto simp: utp_Close_def sendRaw_def Let_def split: if_splits)

lemma fin_not_noticed:
  assumes "up_typ pkt = stFin" "up_seqNr pkt = uc_nextExpected c" "uc_readBufEnd c \<le> uc_readBufOff c" "\<not> uc_closed c"
    and "utp_handlePacket now micros w pkt c = Some c'"
  shows "fst (utp_Read n c') = None"
proof -
  have "same_receiver c' c" using receive_other [OF assms(5)] assms(1) by (simp add: stFin_def stData_def)
  moreover have "uc_eofSeqNr c' = up_seqNr pkt \<and> \<not> uc_closed c'"
    using assms(1,4,5)
    by (auto simp: utp_handlePacket_def handleFin_def processAcks_def sendAck_def sendRaw_def updateRTT_def Let_def stFin_def stData_def stState_def
        split: option.splits if_splits)
  ultimately show ?thesis using assms(2,3) by (simp add: utp_Read_def same_receiver_def)
qed

text \<open>A second reset, or \<open>Close\<close> after a reset, closes a closed channel.\<close>

lemma second_reset_panics:
  assumes "utp_handlePacket now micros w pkt c = Some c'" "up_typ pkt = stReset"
  shows "utp_handlePacket now' micros' w' pkt c' = None" "utp_Close micros' c' = None"
proof -
  have "uc_closeCh c'" using assms
    by (auto simp: utp_handlePacket_def closeWithError_def processAcks_def sendAck_def sendRaw_def Let_def stReset_def stData_def stState_def stFin_def
        split: if_splits)
  then show "utp_handlePacket now' micros' w' pkt c' = None" "utp_Close micros' c' = None"
    using assms(2) by (auto simp: utp_handlePacket_def closeWithError_def updateRTT_def utp_Close_def sendRaw_def Let_def stReset_def stData_def stState_def
        stFin_def split: option.split)
qed

section \<open>Routing\<close>

text \<open>After the handshake each side sends the number under which the other side is registered, and the answer to a SYN finds the dialling connection.\<close>

lemma handshake_routes:
  "handshake now micros connID random = (d, a) \<Longrightarrow> uc_connIDRecv d = uc_connIDLocal a \<and> uc_connIDRecv a = uc_connIDLocal d"
  by (auto simp: handshake_def dial_syn_def newConn_def acceptHandshake_def dial_answer_def sendRaw_def blank_packet_def
      stState_def stSyn_def Let_def)

lemma dial_answer_routed:
  assumes "Dial_open now micros connID addr sk = (ref, sk')" "handshake now micros connID random = (d, a)"
    and "decodePacket buf = Inr pkt" "up_typ pkt = stState" "up_connID pkt = uc_connIDLocal a"
  shows "map_option uc_incoming (sk_conns (socket_packet now' micros' random' addr buf sk') ref) = Some [pkt]"
proof -
  have "uc_connIDLocal a = connID + 1 + 1"
    using assms(2) by (auto simp: handshake_def dial_syn_def newConn_def acceptHandshake_def dial_answer_def sendRaw_def blank_packet_def Let_def split: sum.splits)
  then show ?thesis
    using assms by (auto simp: Dial_open_def socket_packet_def deliverPacket_def dial_syn_def newConn_def sendRaw_def stState_def stSyn_def Let_def)
qed

text \<open>A SYN packet that arrives twice replaces the connection that was accepted for it.\<close>

lemma repeated_syn_replaces:
  assumes "decodePacket buf = Inr pkt" "up_typ pkt = stSyn"
  shows "sk_pendings (socket_packet now micros random addr buf (socket_packet now' micros' random' addr buf sk)) (pendingKey (up_connID pkt + 1) addr)
    = Some (sk_nextRef sk + 1)"
  using assms by (simp add: socket_packet_def Let_def)

end
